(* ===== verification/Prelude.thy ===== *)
theory Prelude imports Main "HOL-Library.Word" begin

text \<open>
  Shared vocabulary of the development: the machine integer types of the
  target (a 32-bit little-endian Cortex-M4), byte-level views of C data, the
  parts of the C library the firmware calls (\<open>strncmp\<close>, \<open>%d\<close> and \<open>%s\<close>
  conversions, \<open>snprintf\<close>), and the generic lemmas and theorem collections
  the component theories share.
\<close>

unbundle bit_operations_syntax

section \<open>Types\<close>

type_synonym u8 = "8 word"
type_synonym u16 = "16 word"
type_synonym u32 = "32 word"

text \<open>An address, as an integer, so that pointer arithmetic below an object is visible; 0 is NULL.\<close>

type_synonym addr = int

abbreviation NULL :: addr where "NULL \<equiv> 0"

text \<open>Collections: facts about well-formedness that operations keep, and facts that unfold
  straight-line code.\<close>

named_theorems wf_intros
named_theorems code_unfolds

section \<open>Bytes\<close>

text \<open>A little-endian 16-bit load, and the store it inverts.\<close>

definition le16 :: "u8 \<Rightarrow> u8 \<Rightarrow> u16" where
  "le16 lo hi = ucast lo OR push_bit 8 (ucast hi)"

definition le16_bytes :: "u16 \<Rightarrow> u8 list" where
  "le16_bytes w = [ucast w, ucast (drop_bit 8 w)]"

lemma le16_le16_bytes: "le16 (ucast w) (ucast (drop_bit 8 w)) = w"
  unfolding le16_def by (rule bit_word_eqI) (auto simp: bit_simps)

text \<open>A little-endian 32-bit store, and the load that inverts it.\<close>

definition le32_bytes :: "u32 \<Rightarrow> u8 list" where
  "le32_bytes w = [ucast w, ucast (drop_bit 8 w), ucast (drop_bit 16 w), ucast (drop_bit 24 w)]"

definition le32 :: "u8 list \<Rightarrow> u32" where
  "le32 bs = ucast (bs ! 0) OR push_bit 8 (ucast (bs ! 1)) OR push_bit 16 (ucast (bs ! 2)) OR push_bit 24 (ucast (bs ! 3))"

lemma length_le32 [simp]: "length (le32_bytes w) = 4"
  by (simp add: le32_bytes_def)

lemma le32_le32_bytes: "le32 (le32_bytes w) = w"
proof -
  have e: "le32 (le32_bytes w) = ucast (ucast w :: u8) OR push_bit 8 (ucast (ucast (drop_bit 8 w) :: u8)) OR
      push_bit 16 (ucast (ucast (drop_bit 16 w) :: u8)) OR push_bit 24 (ucast (ucast (drop_bit 24 w) :: u8))"
    by (simp add: le32_def le32_bytes_def)
  show ?thesis unfolding e
  proof (rule bit_word_eqI)
    fix n assume "n < LENGTH(32)"
    then consider "n < 8" | "8 \<le> n" "n < 16" | "16 \<le> n" "n < 24" | "24 \<le> n" "n < 32" by force
    then show "bit (ucast (ucast w :: u8) OR push_bit 8 (ucast (ucast (drop_bit 8 w) :: u8)) OR
      push_bit 16 (ucast (ucast (drop_bit 16 w) :: u8)) OR push_bit 24 (ucast (ucast (drop_bit 24 w) :: u8)) :: u32) n = bit w n"
      by cases (simp_all add: bit_simps, arith+)
  qed
qed

text \<open>A C string literal: its characters and the terminating NUL.\<close>

definition chars :: "string \<Rightarrow> u8 list" where
  "chars s = map of_char s"

definition cstr :: "string \<Rightarrow> u8 list" where
  "cstr s = chars s @ [0]"

lemma chars_simps [simp]:
  "chars [] = []" "chars (c # s) = of_char c # chars s" "chars (s @ t) = chars s @ chars t"
  by (simp_all add: chars_def)

lemma length_chars [simp]: "length (chars s) = length s"
  by (simp add: chars_def)

lemma unat_lt_u8 [simp]: "unat (w :: u8) < 256"
  and unat_lt_u16 [simp]: "unat (w' :: u16) < 65536"
  and unat_lt_u32 [simp]: "unat (w'' :: u32) < 4294967296"
proof -
  show "unat w < 256" using unsigned_less [of w, where ?'a = nat] by simp
  show "unat w' < 65536" using unsigned_less [of w', where ?'a = nat] by simp
  show "unat w'' < 4294967296" using unsigned_less [of w'', where ?'a = nat] by simp
qed

lemma u32_max: "w \<noteq> (0xFFFFFFFF :: u32) \<longleftrightarrow> w < 0xFFFFFFFF"
proof -
  have "unat w \<noteq> 4294967295 \<longleftrightarrow> unat w < 4294967295" using unat_lt_u32 [of w] by linarith
  then show ?thesis by (simp add: word_less_nat_alt word_unat_eq_iff)
qed

section \<open>C library routines\<close>

text \<open>
  \<open>strncmp\<close>: compares at most \<open>n\<close> bytes and stops at a common NUL. \<open>None\<close> is a read past
  the end of one of the arrays.
\<close>

fun strncmp :: "u8 list \<Rightarrow> u8 list \<Rightarrow> nat \<Rightarrow> int option" where
  "strncmp _ _ 0 = Some 0"
| "strncmp (x # xs) (y # ys) (Suc n) =
     (if x \<noteq> y then Some (uint x - uint y) else if x = 0 then Some 0 else strncmp xs ys n)"
| "strncmp _ _ (Suc n) = None"

lemma strncmp_in_bounds:
  "n \<le> length a \<Longrightarrow> n \<le> length b \<Longrightarrow> \<exists>r. strncmp a b n = Some r"
  by (induction a b n rule: strncmp.induct) auto

text \<open>Against a token with no NUL in its first \<open>n\<close> bytes, \<open>strncmp\<close> is equality of the
  first \<open>n\<close> bytes.\<close>

lemma strncmp_eq_iff:
  "length a = n \<Longrightarrow> n \<le> length b \<Longrightarrow> 0 \<notin> set (take n b) \<Longrightarrow>
    strncmp a b n = Some 0 \<longleftrightarrow> a = take n b"
proof (induction a b n rule: strncmp.induct)
  case (2 x xs y ys n)
  then show ?case by (auto simp: word_uint_eq_iff)
qed auto

text \<open>The digits \<open>%d\<close> prints for a non-negative value.\<close>

fun dec_digits :: "nat \<Rightarrow> string" where
  "dec_digits n =
     (if n < 10 then [char_of (48 + n)]
      else dec_digits (n div 10) @ [char_of (48 + n mod 10)])"

declare dec_digits.simps [simp del]

fun dec_value :: "string \<Rightarrow> nat" where
  "dec_value s = foldl (\<lambda>v c. 10 * v + (of_char c - 48)) 0 s"

declare dec_value.simps [simp del]

text \<open>\<open>snprintf(dst, n, ...)\<close> of an already formatted text: at most \<open>n - 1\<close> characters and the
  NUL are written, the rest of \<open>dst\<close> keeps its bytes.\<close>

definition snprintf :: "u8 list \<Rightarrow> nat \<Rightarrow> string \<Rightarrow> u8 list" where
  "snprintf dst n s =
     (if n = 0 then dst
      else let t = take (n - 1) s in cstr t @ drop (Suc (length t)) dst)"

text \<open>\<open>sprintf(dst, "%s", lit)\<close>: no bound is checked.\<close>

definition sprintf_s :: "u8 list \<Rightarrow> string \<Rightarrow> u8 list" where
  "sprintf_s dst s = cstr s @ drop (Suc (length s)) dst"

text \<open>The text of a C string stored in a byte array: up to the first NUL.\<close>

definition cstr_text :: "u8 list \<Rightarrow> string" where
  "cstr_text b = map (\<lambda>x. char_of (unat x)) (takeWhile (\<lambda>x. x \<noteq> 0) b)"

lemma unat_of_char [simp]: "unat (of_char c :: u8) = of_char c"
proof -
  have "(of_char c :: u8) = of_nat (of_char c)" by (rule of_nat_of_char [symmetric])
  moreover have "(of_char c :: nat) < 256" by (rule nat_of_char_less_256)
  ultimately show ?thesis by (simp add: unat_of_nat)
qed

lemma of_char_u8_eq_0 [simp]: "(of_char c :: u8) = 0 \<longleftrightarrow> c = CHR 0x00"
proof
  assume "(of_char c :: u8) = 0"
  then have "unat (of_char c :: u8) = 0" by simp
  then have "(of_char c :: nat) = of_char (CHR 0x00)" by simp
  then show "c = CHR 0x00" by (simp only: of_char_eq_iff)
qed simp

lemma cstr_text_cstr [simp]:
  assumes "CHR 0x00 \<notin> set s"
  shows "cstr_text (cstr s @ r) = s"
  using assms by (induction s) (auto simp: cstr_def cstr_text_def)

end
