(* ===== verification/HmiFrame.thy ===== *)
theory HmiFrame imports Prelude begin

text \<open>
  The command frame an HMI client sends to the RTU (\<open>com/inc/rtu_com_hmi.h\<close>) and its
  validation and translation, \<open>NetValuesReceivedFromHMI\<close> and \<open>prvFormatoTramaRecv\<close> of
  \<open>com/src/net_values.c\<close>. The received payload is a byte list; \<open>HMIData_of_payload\<close> is the
  cast of the netbuf's data pointer to \<open>HMIData_t\<close>, field by field at the offsets of the
  struct. The translation writes the fields of \<open>HMICmd\<close> one by one and returns a status word,
  exactly as the code does: on an error the fields written so far stay written.

  The lemmas show that the status is decided by a table-driven grammar (\<open>hmi_spec_status\<close>),
  that status 0 is returned exactly on well-formed frames and then the command is the one the
  grammar gives, and that every command an HMI can express survives encoding and translation.
\<close>

section \<open>Data\<close>

abbreviation (input) "RCV_TRAMA_LARGO \<equiv> (41::u16)"
abbreviation (input) "HMI_NETVAR_SIZE \<equiv> (5::nat)"
abbreviation (input) "ERR_OK \<equiv> (0::u16)"
abbreviation (input) "ERROR_TRAMA_VACIA \<equiv> (0x81::u16)"
abbreviation (input) "ERROR_TRAMA_LARGO \<equiv> (0x82::u16)"
abbreviation (input) "ERROR_TRAMA_DATO \<equiv> (0x83::u16)"
abbreviation (input) "ERROR_TRAMA_CLIENTE \<equiv> (0x84::u16)"
abbreviation (input) "ERROR_NETCONN \<equiv> (0x85::u16)"

record HMIData_t =
  d_posCmdArm :: u16
  d_posCmdPole :: u16
  d_velCmdArm :: u8
  d_velCmdPole :: u8
  d_mode :: "u8 list"
  d_freeRunAxis :: "u8 list"
  d_freeRunDir :: "u8 list"
  d_ctrlEn :: "u8 list"
  d_stallEn :: "u8 list"
  d_liftDir :: "u8 list"
  d_clientId :: "u8 list"

datatype mode_t = eStop | eFree_run | eAuto | eLift
datatype freeRunAxis_t = eArm | ePole
datatype freeRunDir_t = eCW | eCCW
datatype enable_t = eDesable | eEnable
datatype liftDir_t = eDown | eUp
datatype sign_t = eUnsigned | eSigned

record HMICmd_t =
  posCmdArm :: u16
  posCmdPole :: u16
  velCmdArm :: u8
  velCmdPole :: u8
  mode :: mode_t
  freeRunAxis :: freeRunAxis_t
  freeRunDir :: freeRunDir_t
  ctrlEn :: enable_t
  stallEn :: enable_t
  liftDir :: liftDir_t
  clientID :: sign_t

text \<open>The cast of the payload pointer: offsets 0, 2 (16-bit, little endian), 4, 5 (bytes) and
  seven arrays of 5 characters from offset 6. A payload shorter than a field leaves the array
  short, which \<open>strncmp\<close> sees as an out-of-bounds read.\<close>

definition HMIData_of_payload :: "u8 list \<Rightarrow> HMIData_t" where
  "HMIData_of_payload p =
    \<lparr> d_posCmdArm = le16 (p ! 0) (p ! 1),
      d_posCmdPole = le16 (p ! 2) (p ! 3),
      d_velCmdArm = p ! 4,
      d_velCmdPole = p ! 5,
      d_mode = take 5 (drop 6 p),
      d_freeRunAxis = take 5 (drop 11 p),
      d_freeRunDir = take 5 (drop 16 p),
      d_ctrlEn = take 5 (drop 21 p),
      d_stallEn = take 5 (drop 26 p),
      d_liftDir = take 5 (drop 31 p),
      d_clientId = take 5 (drop 36 p) \<rparr>"

section \<open>Operations\<close>

definition prvFormatoTramaRecv :: "u16 \<Rightarrow> u16" where
  "prvFormatoTramaRecv uiLenDataRecv =
    (if uiLenDataRecv \<le> 0 then ERROR_TRAMA_VACIA
     else if uiLenDataRecv \<noteq> RCV_TRAMA_LARGO then ERROR_TRAMA_LARGO
     else ERR_OK)"

text \<open>\<open>!strncmp(field, token, HMI_NETVAR_SIZE)\<close>\<close>

definition tok_is :: "u8 list \<Rightarrow> string \<Rightarrow> bool" where
  "tok_is field token \<longleftrightarrow> strncmp field (cstr token) HMI_NETVAR_SIZE = Some 0"

text \<open>The field-by-field blocks of the function body, in the code's order; each takes and
  returns the status word and the command.\<close>

definition recv_velocities :: "HMIData_t \<Rightarrow> u16 \<times> HMICmd_t \<Rightarrow> u16 \<times> HMICmd_t" where
  "recv_velocities d = (\<lambda>(st, c).
    let c = c\<lparr>posCmdArm := d_posCmdArm d\<rparr>;
        c = c\<lparr>velCmdArm := d_velCmdArm d\<rparr>;
        c = c\<lparr>posCmdPole := d_posCmdPole d\<rparr>;
        c = c\<lparr>velCmdPole := d_velCmdPole d\<rparr>;
        st = (if velCmdArm c > 8 \<or> velCmdArm c < 0 then ERROR_TRAMA_DATO else st);
        st = (if velCmdPole c > 8 \<or> velCmdPole c < 0 then ERROR_TRAMA_DATO else st)
    in (st, c))"

definition recv_mode :: "HMIData_t \<Rightarrow> u16 \<times> HMICmd_t \<Rightarrow> u16 \<times> HMICmd_t" where
  "recv_mode d = (\<lambda>(st, c).
    if tok_is (d_mode d) ''STOP;'' then (st, c\<lparr>mode := eStop\<rparr>)
    else if tok_is (d_mode d) ''FRUN;'' then (st, c\<lparr>mode := eFree_run\<rparr>)
    else if tok_is (d_mode d) ''AUTO;'' then (st, c\<lparr>mode := eAuto\<rparr>)
    else if tok_is (d_mode d) ''LIFT;'' then (st, c\<lparr>mode := eLift\<rparr>)
    else (ERROR_TRAMA_DATO, c))"

definition recv_freeRunAxis :: "HMIData_t \<Rightarrow> u16 \<times> HMICmd_t \<Rightarrow> u16 \<times> HMICmd_t" where
  "recv_freeRunAxis d = (\<lambda>(st, c).
    if tok_is (d_freeRunAxis d) ''ARM_;'' then (st, c\<lparr>freeRunAxis := eArm\<rparr>)
    else if tok_is (d_freeRunAxis d) ''POLE;'' then (st, c\<lparr>freeRunAxis := ePole\<rparr>)
    else (ERROR_TRAMA_DATO, c))"

definition recv_freeRunDir :: "HMIData_t \<Rightarrow> u16 \<times> HMICmd_t \<Rightarrow> u16 \<times> HMICmd_t" where
  "recv_freeRunDir d = (\<lambda>(st, c).
    if tok_is (d_freeRunDir d) ''CW__;'' then (st, c\<lparr>freeRunDir := eCW\<rparr>)
    else if tok_is (d_freeRunDir d) ''CCW_;'' then (st, c\<lparr>freeRunDir := eCCW\<rparr>)
    else (ERROR_TRAMA_DATO, c))"

definition recv_ctrlEn :: "HMIData_t \<Rightarrow> u16 \<times> HMICmd_t \<Rightarrow> u16 \<times> HMICmd_t" where
  "recv_ctrlEn d = (\<lambda>(st, c).
    if tok_is (d_ctrlEn d) ''CTLE;'' then (st, c\<lparr>ctrlEn := eEnable\<rparr>)
    else if tok_is (d_ctrlEn d) ''DCTL;'' then (st, c\<lparr>ctrlEn := eDesable\<rparr>)
    else (ERROR_TRAMA_DATO, c))"

definition recv_stallEn :: "HMIData_t \<Rightarrow> u16 \<times> HMICmd_t \<Rightarrow> u16 \<times> HMICmd_t" where
  "recv_stallEn d = (\<lambda>(st, c).
    if tok_is (d_stallEn d) ''STLE;'' then (st, c\<lparr>stallEn := eEnable\<rparr>)
    else if tok_is (d_stallEn d) ''DSTL;'' then (st, c\<lparr>stallEn := eDesable\<rparr>)
    else (ERROR_TRAMA_DATO, c))"

definition recv_liftDir :: "HMIData_t \<Rightarrow> u16 \<times> HMICmd_t \<Rightarrow> u16 \<times> HMICmd_t" where
  "recv_liftDir d = (\<lambda>(st, c).
    if tok_is (d_liftDir d) ''LFUP;'' then (st, c\<lparr>liftDir := eUp\<rparr>)
    else if tok_is (d_liftDir d) ''LFDW;'' then (st, c\<lparr>liftDir := eDown\<rparr>)
    else (ERROR_TRAMA_DATO, c))"

definition recv_clientId :: "HMIData_t \<Rightarrow> u16 \<times> HMICmd_t \<Rightarrow> u16 \<times> HMICmd_t" where
  "recv_clientId d = (\<lambda>(st, c).
    if tok_is (d_clientId d) ''SM13;'' then (st, c\<lparr>clientID := eSigned\<rparr>)
    else (ERROR_TRAMA_CLIENTE, c\<lparr>clientID := eUnsigned\<rparr>))"

definition NetValuesReceivedFromHMI :: "HMIData_t \<Rightarrow> HMICmd_t \<Rightarrow> u16 \<Rightarrow> u16 \<times> HMICmd_t" where
  "NetValuesReceivedFromHMI HMIData HMICmd uiLenDataRecv =
    (let iServerStatus = prvFormatoTramaRecv uiLenDataRecv in
     if iServerStatus = ERR_OK then
       let (iServerStatus, HMICmd) = recv_clientId HMIData (iServerStatus, HMICmd) in
       if iServerStatus = 0 then
         recv_liftDir HMIData
          (recv_stallEn HMIData
           (recv_ctrlEn HMIData
            (recv_freeRunDir HMIData
             (recv_freeRunAxis HMIData
              (recv_mode HMIData
               (recv_velocities HMIData (iServerStatus, HMICmd)))))))
       else (iServerStatus, HMICmd)
     else (iServerStatus, HMICmd))"

section \<open>Reference grammar of a frame\<close>

text \<open>What the protocol promises, stated without the code's control flow: every text field is
  looked up in the table of its tokens, both speeds are at most 8, and the client is SM13.\<close>

definition tok_lookup :: "(string \<times> 'a) list \<Rightarrow> u8 list \<Rightarrow> 'a option" where
  "tok_lookup tbl field = map_option snd (find (\<lambda>e. chars (fst e) = field) tbl)"

definition "mode_tokens = [(''STOP;'', eStop), (''FRUN;'', eFree_run), (''AUTO;'', eAuto), (''LIFT;'', eLift)]"
definition "axis_tokens = [(''ARM_;'', eArm), (''POLE;'', ePole)]"
definition "dir_tokens = [(''CW__;'', eCW), (''CCW_;'', eCCW)]"
definition "ctrl_tokens = [(''CTLE;'', eEnable), (''DCTL;'', eDesable)]"
definition "stall_tokens = [(''STLE;'', eEnable), (''DSTL;'', eDesable)]"
definition "lift_tokens = [(''LFUP;'', eUp), (''LFDW;'', eDown)]"

definition hmi_grammar :: "HMIData_t \<Rightarrow> HMICmd_t option" where
  "hmi_grammar d =
    (case (tok_lookup mode_tokens (d_mode d), tok_lookup axis_tokens (d_freeRunAxis d),
           tok_lookup dir_tokens (d_freeRunDir d), tok_lookup ctrl_tokens (d_ctrlEn d),
           tok_lookup stall_tokens (d_stallEn d), tok_lookup lift_tokens (d_liftDir d)) of
       (Some m, Some a, Some r, Some e, Some t, Some l) \<Rightarrow>
         if unat (d_velCmdArm d) \<le> 8 \<and> unat (d_velCmdPole d) \<le> 8
         then Some \<lparr>posCmdArm = d_posCmdArm d, posCmdPole = d_posCmdPole d,
                velCmdArm = d_velCmdArm d, velCmdPole = d_velCmdPole d,
                mode = m, freeRunAxis = a, freeRunDir = r, ctrlEn = e, stallEn = t,
                liftDir = l, clientID = eSigned\<rparr>
         else None
     | _ \<Rightarrow> None)"

definition hmi_spec_status :: "u8 list \<Rightarrow> u16" where
  "hmi_spec_status p =
    (if p = [] then ERROR_TRAMA_VACIA
     else if length p \<noteq> 41 then ERROR_TRAMA_LARGO
     else if d_clientId (HMIData_of_payload p) \<noteq> chars ''SM13;'' then ERROR_TRAMA_CLIENTE
     else if hmi_grammar (HMIData_of_payload p) = None then ERROR_TRAMA_DATO
     else ERR_OK)"

text \<open>The frame an HMI builds for a command.\<close>

definition tok_of :: "(string \<times> 'a) list \<Rightarrow> 'a \<Rightarrow> u8 list" where
  "tok_of tbl v = (case find (\<lambda>e. snd e = v) tbl of Some e \<Rightarrow> chars (fst e) | None \<Rightarrow> [])"

definition hmi_encode :: "HMICmd_t \<Rightarrow> u8 list" where
  "hmi_encode c =
     le16_bytes (posCmdArm c) @ le16_bytes (posCmdPole c) @ [velCmdArm c, velCmdPole c] @
     tok_of mode_tokens (mode c) @ tok_of axis_tokens (freeRunAxis c) @
     tok_of dir_tokens (freeRunDir c) @ tok_of ctrl_tokens (ctrlEn c) @
     tok_of stall_tokens (stallEn c) @ tok_of lift_tokens (liftDir c) @ chars ''SM13;''"

section \<open>Lemmas\<close>

lemmas token_tables =
  mode_tokens_def axis_tokens_def dir_tokens_def ctrl_tokens_def stall_tokens_def lift_tokens_def

lemmas recv_blocks =
  recv_velocities_def recv_mode_def recv_freeRunAxis_def recv_freeRunDir_def recv_ctrlEn_def
  recv_stallEn_def recv_liftDir_def recv_clientId_def

text \<open>A token of five non-NUL characters is matched exactly when the field holds it.\<close>

lemma tok_is_iff:
  assumes "length field = 5" and "length token = 5" and "0 \<notin> set (chars token)"
  shows "tok_is field token \<longleftrightarrow> chars token = field"
proof -
  have "take 5 (cstr token) = chars token" using assms(2) by (simp add: cstr_def)
  then show ?thesis
    using strncmp_eq_iff [of field 5 "cstr token"] assms by (auto simp: tok_is_def cstr_def)
qed

lemma payload_field_lengths [simp]:
  assumes "length p = 41"
  shows "length (d_mode (HMIData_of_payload p)) = 5"
    "length (d_freeRunAxis (HMIData_of_payload p)) = 5"
    "length (d_freeRunDir (HMIData_of_payload p)) = 5"
    "length (d_ctrlEn (HMIData_of_payload p)) = 5"
    "length (d_stallEn (HMIData_of_payload p)) = 5"
    "length (d_liftDir (HMIData_of_payload p)) = 5"
    "length (d_clientId (HMIData_of_payload p)) = 5"
  using assms by (simp_all add: HMIData_of_payload_def)

definition fields5 :: "HMIData_t \<Rightarrow> bool" where
  "fields5 d \<longleftrightarrow> length (d_mode d) = 5 \<and> length (d_freeRunAxis d) = 5 \<and>
     length (d_freeRunDir d) = 5 \<and> length (d_ctrlEn d) = 5 \<and> length (d_stallEn d) = 5 \<and>
     length (d_liftDir d) = 5 \<and> length (d_clientId d) = 5"

lemma fields5_payload: "length p = 41 \<Longrightarrow> fields5 (HMIData_of_payload p)"
  by (simp add: fields5_def)

text \<open>Each block in terms of its token table: a hit stores the value, a miss sets the data error.\<close>

lemma recv_blocks_lookup:
  assumes "fields5 d"
  shows "recv_mode d (st, c) = (case tok_lookup mode_tokens (d_mode d) of
            Some v \<Rightarrow> (st, c\<lparr>mode := v\<rparr>) | None \<Rightarrow> (ERROR_TRAMA_DATO, c))"
    "recv_freeRunAxis d (st, c) = (case tok_lookup axis_tokens (d_freeRunAxis d) of
            Some v \<Rightarrow> (st, c\<lparr>freeRunAxis := v\<rparr>) | None \<Rightarrow> (ERROR_TRAMA_DATO, c))"
    "recv_freeRunDir d (st, c) = (case tok_lookup dir_tokens (d_freeRunDir d) of
            Some v \<Rightarrow> (st, c\<lparr>freeRunDir := v\<rparr>) | None \<Rightarrow> (ERROR_TRAMA_DATO, c))"
    "recv_ctrlEn d (st, c) = (case tok_lookup ctrl_tokens (d_ctrlEn d) of
            Some v \<Rightarrow> (st, c\<lparr>ctrlEn := v\<rparr>) | None \<Rightarrow> (ERROR_TRAMA_DATO, c))"
    "recv_stallEn d (st, c) = (case tok_lookup stall_tokens (d_stallEn d) of
            Some v \<Rightarrow> (st, c\<lparr>stallEn := v\<rparr>) | None \<Rightarrow> (ERROR_TRAMA_DATO, c))"
    "recv_liftDir d (st, c) = (case tok_lookup lift_tokens (d_liftDir d) of
            Some v \<Rightarrow> (st, c\<lparr>liftDir := v\<rparr>) | None \<Rightarrow> (ERROR_TRAMA_DATO, c))"
    "recv_clientId d (st, c) = (if d_clientId d = chars ''SM13;'' then (st, c\<lparr>clientID := eSigned\<rparr>)
            else (ERROR_TRAMA_CLIENTE, c\<lparr>clientID := eUnsigned\<rparr>))"
  using assms
  by (auto simp: fields5_def recv_blocks tok_is_iff tok_lookup_def token_tables)

lemma recv_velocities_eq:
  "recv_velocities d (st, c) =
    (if unat (d_velCmdArm d) \<le> 8 \<and> unat (d_velCmdPole d) \<le> 8 then st else ERROR_TRAMA_DATO,
     c\<lparr>posCmdArm := d_posCmdArm d, velCmdArm := d_velCmdArm d,
       posCmdPole := d_posCmdPole d, velCmdPole := d_velCmdPole d\<rparr>)"
  by (auto simp: recv_velocities_def Let_def word_less_nat_alt not_less)

lemma prvFormatoTramaRecv_len:
  assumes "uiLen = of_nat (length p)" and "length p < 65536"
  shows "prvFormatoTramaRecv uiLen =
    (if p = [] then ERROR_TRAMA_VACIA else if length p \<noteq> 41 then ERROR_TRAMA_LARGO else ERR_OK)"
proof -
  have "unat uiLen = length p" using assms by (simp add: unat_of_nat)
  then have "uiLen \<le> 0 \<longleftrightarrow> p = []" "uiLen = RCV_TRAMA_LARGO \<longleftrightarrow> length p = 41"
    by (auto simp: word_le_nat_alt word_unat_eq_iff)
  then show ?thesis by (simp add: prvFormatoTramaRecv_def)
qed

lemma tok_lookup_tok_of [simp]:
  "tok_lookup mode_tokens (tok_of mode_tokens m) = Some m"
  "tok_lookup axis_tokens (tok_of axis_tokens a) = Some a"
  "tok_lookup dir_tokens (tok_of dir_tokens r) = Some r"
  "tok_lookup ctrl_tokens (tok_of ctrl_tokens e) = Some e"
  "tok_lookup stall_tokens (tok_of stall_tokens e) = Some e"
  "tok_lookup lift_tokens (tok_of lift_tokens l) = Some l"
  subgoal by (cases m) (simp_all add: tok_lookup_def tok_of_def token_tables)
  subgoal by (cases a) (simp_all add: tok_lookup_def tok_of_def token_tables)
  subgoal by (cases r) (simp_all add: tok_lookup_def tok_of_def token_tables)
  subgoal by (cases e) (simp_all add: tok_lookup_def tok_of_def token_tables)
  subgoal by (cases e) (simp_all add: tok_lookup_def tok_of_def token_tables)
  subgoal by (cases l) (simp_all add: tok_lookup_def tok_of_def token_tables)
  done

lemma length_tok_of [simp]:
  "length (tok_of mode_tokens m) = 5" "length (tok_of axis_tokens a) = 5"
  "length (tok_of dir_tokens r) = 5" "length (tok_of ctrl_tokens e) = 5"
  "length (tok_of stall_tokens e) = 5" "length (tok_of lift_tokens l) = 5"
  subgoal by (cases m) (simp_all add: tok_of_def token_tables)
  subgoal by (cases a) (simp_all add: tok_of_def token_tables)
  subgoal by (cases r) (simp_all add: tok_of_def token_tables)
  subgoal by (cases e) (simp_all add: tok_of_def token_tables)
  subgoal by (cases e) (simp_all add: tok_of_def token_tables)
  subgoal by (cases l) (simp_all add: tok_of_def token_tables)
  done

lemma length_hmi_encode [simp]: "length (hmi_encode c) = 41"
  by (simp add: hmi_encode_def le16_bytes_def)

lemma HMIData_of_hmi_encode:
  "HMIData_of_payload (hmi_encode c) =
    \<lparr> d_posCmdArm = posCmdArm c, d_posCmdPole = posCmdPole c,
      d_velCmdArm = velCmdArm c, d_velCmdPole = velCmdPole c,
      d_mode = tok_of mode_tokens (mode c), d_freeRunAxis = tok_of axis_tokens (freeRunAxis c),
      d_freeRunDir = tok_of dir_tokens (freeRunDir c), d_ctrlEn = tok_of ctrl_tokens (ctrlEn c),
      d_stallEn = tok_of stall_tokens (stallEn c), d_liftDir = tok_of lift_tokens (liftDir c),
      d_clientId = chars ''SM13;'' \<rparr>"
  by (simp add: HMIData_of_payload_def hmi_encode_def le16_bytes_def le16_le16_bytes nth_append
      numeral_2_eq_2 numeral_3_eq_3)

lemma NetValuesReceivedFromHMI_grammar:
  assumes "length p < 65536"
  shows "fst (NetValuesReceivedFromHMI (HMIData_of_payload p) c (of_nat (length p))) = hmi_spec_status p \<and>
    (hmi_spec_status p = ERR_OK \<longrightarrow>
      hmi_grammar (HMIData_of_payload p) =
        Some (snd (NetValuesReceivedFromHMI (HMIData_of_payload p) c (of_nat (length p)))))"
proof (cases "length p = 41")
  case False
  then show ?thesis
    using prvFormatoTramaRecv_len [OF refl assms]
    by (auto simp: NetValuesReceivedFromHMI_def hmi_spec_status_def)
next
  case True
  then have "p \<noteq> []" by auto
  with True show ?thesis
    using prvFormatoTramaRecv_len [OF refl assms] fields5_payload [OF True]
    by (auto simp: NetValuesReceivedFromHMI_def hmi_spec_status_def hmi_grammar_def
        recv_blocks_lookup recv_velocities_eq split: option.splits if_splits)
qed

lemma NetValuesReceivedFromHMI_hmi_encode:
  assumes "unat (velCmdArm cmd) \<le> 8" and "unat (velCmdPole cmd) \<le> 8" and "clientID cmd = eSigned"
  shows "NetValuesReceivedFromHMI (HMIData_of_payload (hmi_encode cmd)) c RCV_TRAMA_LARGO = (ERR_OK, cmd)"
proof -
  define d where "d = HMIData_of_payload (hmi_encode cmd)"
  have f: "fields5 d" by (simp add: d_def fields5_payload)
  have proj: "d_posCmdArm d = posCmdArm cmd" "d_posCmdPole d = posCmdPole cmd"
    "d_velCmdArm d = velCmdArm cmd" "d_velCmdPole d = velCmdPole cmd"
    "d_mode d = tok_of mode_tokens (mode cmd)" "d_freeRunAxis d = tok_of axis_tokens (freeRunAxis cmd)"
    "d_freeRunDir d = tok_of dir_tokens (freeRunDir cmd)" "d_ctrlEn d = tok_of ctrl_tokens (ctrlEn cmd)"
    "d_stallEn d = tok_of stall_tokens (stallEn cmd)" "d_liftDir d = tok_of lift_tokens (liftDir cmd)"
    "d_clientId d = chars ''SM13;''"
    by (simp_all add: d_def HMIData_of_hmi_encode)
  show ?thesis
    using assms unfolding d_def [symmetric]
    by (simp add: NetValuesReceivedFromHMI_def prvFormatoTramaRecv_def recv_blocks_lookup [OF f]
        recv_velocities_eq proj)
qed

section \<open>Properties\<close>


definition sample_cmd :: HMICmd_t where
  "sample_cmd = \<lparr>posCmdArm = 0x1234, posCmdPole = 7, velCmdArm = 8, velCmdPole = 0, mode = eAuto,
    freeRunAxis = ePole, freeRunDir = eCCW, ctrlEn = eEnable, stallEn = eDesable, liftDir = eDown,
    clientID = eSigned\<rparr>"


text \<open>\<^bold>\<open>C38\<close>. Round trip: every command with both speeds in range, encoded by an SM13 client, is
  accepted with status OK and translated back to itself, field for field.\<close>

theorem hmi_encode_roundtrip:
  assumes "unat (velCmdArm cmd) \<le> 8" and "unat (velCmdPole cmd) \<le> 8" and "clientID cmd = eSigned"
  shows "NetValuesReceivedFromHMI (HMIData_of_payload (hmi_encode cmd)) c RCV_TRAMA_LARGO = (ERR_OK, cmd)"
  using assms by (rule NetValuesReceivedFromHMI_hmi_encode)

theorem hmi_encode_roundtrip_witness:
  "NetValuesReceivedFromHMI (HMIData_of_payload (hmi_encode sample_cmd)) sample_cmd RCV_TRAMA_LARGO =
    (ERR_OK, sample_cmd)"
  by (rule hmi_encode_roundtrip) (simp_all add: sample_cmd_def)

end
