(* ===== verification/Axis.thy ===== *)
theory Axis imports HmiFrame begin

text \<open>
  The three axis drivers (\<open>com/src/arm.c\<close>, \<open>pole.c\<close>, \<open>lift.c\<close> with \<open>mot_pap.h\<close> and
  \<open>lift.h\<close>): their status structures, the supervisor routines that refresh them, and what one
  iteration of each driver task does with the message it received. Messages live in heap blocks
  whose fields are indeterminate until written; an \<open>option\<close> field is \<open>None\<close> while the block
  still holds whatever was in memory. The drivers' only visible effects are their log lines
  (\<open>debug.h\<close>), the flags \<open>cw\<close>/\<open>ccw\<close> of \<open>pole.c\<close> and the release of the message.
\<close>

section \<open>Debug output\<close>

datatype debugLevels = Debug | Info | Warn | Error

fun level_no :: "debugLevels \<Rightarrow> nat" where
  "level_no Debug = 0" | "level_no Info = 1" | "level_no Warn = 2" | "level_no Error = 3"

text \<open>The guard of the \<open>lDebug\<close> macro: compiled in only with \<open>DEBUG\<close>, and printed when the
  current \<open>debugLevel\<close> is not above the message's level.\<close>

definition lDebug_prints :: "bool \<Rightarrow> debugLevels \<Rightarrow> debugLevels \<Rightarrow> bool" where
  "lDebug_prints DEBUG_ENABLED debugLevel level \<longleftrightarrow>
     DEBUG_ENABLED \<and> level_no debugLevel \<le> level_no level"

section \<open>Data\<close>

datatype mot_pap_type = MOT_PAP_TYPE_FREE_RUNNING | MOT_PAP_TYPE_CLOSED_LOOP | MOT_PAP_TYPE_STOP
datatype mot_pap_direction = MOT_PAP_DIRECTION_CW | MOT_PAP_DIRECTION_CCW
datatype lift_type = LIFT_TYPE_UP | LIFT_TYPE_DOWN | LIFT_TYPE_STOP

text \<open>The integer an enumerator stands for: C lets one enum's constant be stored in another's
  object, which the drivers do.\<close>

fun mot_pap_type_no :: "mot_pap_type \<Rightarrow> int" where
  "mot_pap_type_no MOT_PAP_TYPE_FREE_RUNNING = 0"
| "mot_pap_type_no MOT_PAP_TYPE_CLOSED_LOOP = 1"
| "mot_pap_type_no MOT_PAP_TYPE_STOP = 2"

fun mot_pap_direction_no :: "mot_pap_direction \<Rightarrow> int" where
  "mot_pap_direction_no MOT_PAP_DIRECTION_CW = 0"
| "mot_pap_direction_no MOT_PAP_DIRECTION_CCW = 1"

record mot_pap_msg =
  m_type :: "mot_pap_type option"
  free_run_direction :: "int option"
  free_run_speed :: "u32 option"
  closed_loop_setpoint :: "u16 option"

definition mot_pap_msg_uninit :: mot_pap_msg where
  "mot_pap_msg_uninit = \<lparr>m_type = None, free_run_direction = None, free_run_speed = None,
     closed_loop_setpoint = None\<rparr>"

record lift_msg =
  l_type :: "lift_type option"

definition lift_msg_uninit :: lift_msg where
  "lift_msg_uninit = \<lparr>l_type = None\<rparr>"

record mot_pap =
  mp_type :: mot_pap_type
  mp_dir :: int
  posCmd :: u16
  posAct :: u16
  freq :: u32
  cwLimit :: u16
  ccwLimit :: u16
  stalled :: bool

record lift =
  lift_type :: lift_type
  upLimit :: bool
  downLimit :: bool

text \<open>Objects with static storage start as zero: enumerator 0, zero counters, clear flags.\<close>

definition mot_pap_static :: mot_pap where
  "mot_pap_static = \<lparr>mp_type = MOT_PAP_TYPE_FREE_RUNNING, mp_dir = 0, posCmd = 0, posAct = 0,
     freq = 0, cwLimit = 0, ccwLimit = 0, stalled = False\<rparr>"

definition lift_static :: lift where
  "lift_static = \<lparr>lift_type = LIFT_TYPE_UP, upLimit = False, downLimit = False\<rparr>"

text \<open>The drivers' globals: the three status structures and the two flags of \<open>pole.c\<close>.\<close>

record axes =
  arm :: mot_pap
  pole :: mot_pap
  lift_st :: lift
  pole_cw :: u16
  pole_ccw :: u16

definition axes_static :: axes where
  "axes_static = \<lparr>arm = mot_pap_static, pole = mot_pap_static, lift_st = lift_static,
     pole_cw = 0, pole_ccw = 0\<rparr>"

section \<open>Supervisors\<close>

definition arm_supervisor_task :: "axes \<Rightarrow> axes" where
  "arm_supervisor_task s =
     s\<lparr>arm := (arm s)\<lparr>mp_dir := mot_pap_type_no MOT_PAP_TYPE_STOP, posCmd := 0xFFEE,
                      posAct := 0xFFEE, freq := 5\<rparr>\<rparr>"

definition pole_supervisor_task :: "axes \<Rightarrow> axes" where
  "pole_supervisor_task s =
     s\<lparr>pole := (pole s)\<lparr>mp_dir := mot_pap_type_no MOT_PAP_TYPE_STOP, posCmd := 0xFFEE,
                        posAct := 0xFFEE, freq := 5\<rparr>\<rparr>"

definition lift_supervisor_task :: "axes \<Rightarrow> axes" where
  "lift_supervisor_task s =
     s\<lparr>lift_st := (lift_st s)\<lparr>lift_type := LIFT_TYPE_STOP, upLimit := False, downLimit := False\<rparr>\<rparr>"

text \<open>\<open>*_get_status\<close> refreshes the structure and returns a pointer to it; the model returns the
  refreshed globals and the structure the pointer designates.\<close>

definition arm_get_status :: "axes \<Rightarrow> mot_pap \<times> axes" where
  "arm_get_status s = (let s = arm_supervisor_task s in (arm s, s))"

definition pole_get_status :: "axes \<Rightarrow> mot_pap \<times> axes" where
  "pole_get_status s = (let s = pole_supervisor_task s in (pole s, s))"

definition lift_get_status :: "axes \<Rightarrow> lift \<times> axes" where
  "lift_get_status s = (let s = lift_supervisor_task s in (lift_st s, s))"

section \<open>Driver tasks: one received message\<close>

text \<open>Each handler is the body of the task's loop between a successful \<open>xQueueReceive\<close> and
  \<open>vPortFree\<close>. A switch on an indeterminate \<open>type\<close> has no defined branch: the result is
  \<open>None\<close>. The lines are the \<open>lDebug\<close> calls, with their level and format string.\<close>

type_synonym log = "(debugLevels \<times> string) list"

definition arm_task_body :: "mot_pap_msg \<Rightarrow> axes \<Rightarrow> (log \<times> axes) option" where
  "arm_task_body msg s =
    (case m_type msg of
       None \<Rightarrow> None
     | Some MOT_PAP_TYPE_FREE_RUNNING \<Rightarrow>
         (case free_run_direction msg of
            None \<Rightarrow> None
          | Some d \<Rightarrow> Some ([(Debug, ''arm: command received''),
              (Debug, ''Arm free_run_direction: %d''),
              (if d \<noteq> 0 then (Info, ''Giro Anti-horario'') else (Debug, ''Giro Horario'')),
              (Info, ''Arm free_run_speed: %d'')], s))
     | Some MOT_PAP_TYPE_CLOSED_LOOP \<Rightarrow>
         Some ([(Debug, ''arm: command received''), (Info, ''Arm closed_loop_setpoint: %x'')], s)
     | Some MOT_PAP_TYPE_STOP \<Rightarrow>
         Some ([(Debug, ''arm: command received''), (Info, ''STOP ARM'')], s))"

definition pole_task_body :: "mot_pap_msg \<Rightarrow> axes \<Rightarrow> (log \<times> axes) option" where
  "pole_task_body msg s =
    (case m_type msg of
       None \<Rightarrow> None
     | Some MOT_PAP_TYPE_FREE_RUNNING \<Rightarrow>
         (case free_run_direction msg of
            None \<Rightarrow> None
          | Some d \<Rightarrow>
              (let hdr = [(Debug, ''pole: command received''), (Debug, ''Pole free_run_direction: %d'')];
                   tail = [(Info, ''Pole free_run_speed: %d'')]
               in if d \<noteq> 0 then Some (hdr @ [(Info, ''Giro Anti-horario'')] @ tail, s\<lparr>pole_ccw := 1\<rparr>)
                  else Some (hdr @ [(Info, ''Giro Horario'')] @ tail, s\<lparr>pole_cw := 1\<rparr>)))
     | Some MOT_PAP_TYPE_CLOSED_LOOP \<Rightarrow>
         Some ([(Debug, ''pole: command received''), (Info, ''Pole closed_loop_setpoint: %x'')], s)
     | Some MOT_PAP_TYPE_STOP \<Rightarrow>
         Some ([(Debug, ''pole: command received''), (Info, ''STOP POLE'')],
               s\<lparr>pole_cw := 0, pole_ccw := 0\<rparr>))"

definition lift_task_body :: "lift_msg \<Rightarrow> axes \<Rightarrow> (log \<times> axes) option" where
  "lift_task_body msg s =
    (case l_type msg of
       None \<Rightarrow> None
     | Some LIFT_TYPE_UP \<Rightarrow> Some ([(Info, ''LIFT UP'')], s)
     | Some LIFT_TYPE_DOWN \<Rightarrow> Some ([(Info, ''LIFT DOWN'')], s)
     | Some LIFT_TYPE_STOP \<Rightarrow> Some ([(Info, ''LIFT STOP'')], s))"

lemmas axis_defs =
  arm_supervisor_task_def pole_supervisor_task_def lift_supervisor_task_def
  arm_get_status_def pole_get_status_def lift_get_status_def

end
