(* ===== verification/RtuFrame.thy ===== *)
theory RtuFrame imports Axis begin

text \<open>
  The status frame the RTU sends back: \<open>NetValuesToSendFromRTU\<close> of \<open>com/src/net_values.c\<close> over
  \<open>RTUData_t\<close>. Every \<open>sprintf\<close> into the fixed arrays and the final \<open>snprintf\<close> into the
  100-byte buffer are the byte-level ones of the prelude, so that overflow, truncation and
  the bytes left over from earlier contents are visible.

  The lemmas give the text of the frame, show that no array overflows and nothing is truncated,
  and that a reader who splits the text at blanks gets every field back.
\<close>

section \<open>Data\<close>

abbreviation (input) "RTU_NETVAR_SIZE \<equiv> (9::nat)"

record RTUData_t =
  resActArm :: u16
  resActPole :: u16
  velActArm :: u16
  velActPole :: u16
  t_cwLimitArm :: "u8 list"
  t_ccwLimitArm :: "u8 list"
  t_cwLimitPole :: "u8 list"
  t_ccwLimitPole :: "u8 list"
  t_limitUp :: "u8 list"
  t_limitDown :: "u8 list"
  t_stallAlm :: "u8 list"
  t_status :: u8
  t_buffer :: "u8 list"

text \<open>The arrays have their declared sizes.\<close>

definition rtu_wf :: "RTUData_t \<Rightarrow> bool" where
  "rtu_wf t \<longleftrightarrow> length (t_cwLimitArm t) = 9 \<and> length (t_ccwLimitArm t) = 9 \<and>
     length (t_cwLimitPole t) = 9 \<and> length (t_ccwLimitPole t) = 9 \<and> length (t_limitUp t) = 9 \<and>
     length (t_limitDown t) = 9 \<and> length (t_stallAlm t) = 9 \<and> length (t_buffer t) = 100"

section \<open>Operation\<close>

text \<open>\<open>if (cond) sprintf(dst, "%s", a); else sprintf(dst, "%s", b);\<close>\<close>

definition put_flag :: "bool \<Rightarrow> string \<Rightarrow> string \<Rightarrow> u8 list \<Rightarrow> u8 list" where
  "put_flag cond a b dst = sprintf_s dst (if cond then a else b)"

text \<open>The format string of the final \<open>snprintf\<close>: four \<open>%d\<close>, seven \<open>%s\<close>, one \<open>%d\<close>, each
  followed by a blank.\<close>

definition tx_fields :: "RTUData_t \<Rightarrow> string list" where
  "tx_fields t =
    [dec_digits (unat (resActArm t)), dec_digits (unat (velActArm t)),
     dec_digits (unat (resActPole t)), dec_digits (unat (velActPole t)),
     cstr_text (t_cwLimitArm t), cstr_text (t_ccwLimitArm t), cstr_text (t_cwLimitPole t),
     cstr_text (t_ccwLimitPole t), cstr_text (t_limitUp t), cstr_text (t_limitDown t),
     cstr_text (t_stallAlm t), dec_digits (unat (t_status t))]"

definition tx_format :: "string list \<Rightarrow> string" where
  "tx_format fs = concat (map (\<lambda>f. f @ '' '') fs)"

definition NetValuesToSendFromRTU :: "16 word \<Rightarrow> axes \<Rightarrow> RTUData_t \<Rightarrow> axes \<times> RTUData_t" where
  "NetValuesToSendFromRTU iServerStatus s t =
    (let (pPoleStatus, s) = pole_get_status s;
         (pArmStatus, s) = arm_get_status s;
         (pLiftStatus, s) = lift_get_status s;
         t = t\<lparr>resActArm := posAct pArmStatus\<rparr>;
         t = t\<lparr>resActPole := posAct pPoleStatus\<rparr>;
         t = t\<lparr>velActArm := ucast (freq pArmStatus)\<rparr>;
         t = t\<lparr>velActPole := ucast (freq pPoleStatus)\<rparr>;
         t = t\<lparr>t_cwLimitArm := put_flag (cwLimit pArmStatus \<noteq> 0) ''ACW_LIM;'' ''ACW_RUN;'' (t_cwLimitArm t)\<rparr>;
         t = t\<lparr>t_ccwLimitArm := put_flag (ccwLimit pArmStatus \<noteq> 0) ''ACC_LIM;'' ''ACC_RUN;'' (t_ccwLimitArm t)\<rparr>;
         t = t\<lparr>t_cwLimitPole := put_flag (cwLimit pPoleStatus \<noteq> 0) ''PCW_LIM;'' ''PCW_RUN;'' (t_cwLimitPole t)\<rparr>;
         t = t\<lparr>t_ccwLimitPole := put_flag (ccwLimit pPoleStatus \<noteq> 0) ''PCC_LIM;'' ''PCC_RUN;'' (t_ccwLimitPole t)\<rparr>;
         t = t\<lparr>t_limitUp := put_flag (upLimit pLiftStatus) ''LUP_LIM;'' ''LUP_RUN;'' (t_limitUp t)\<rparr>;
         t = t\<lparr>t_limitDown := put_flag (downLimit pLiftStatus) ''LDW_LIM;'' ''LDW_RUN;'' (t_limitDown t)\<rparr>;
         t = t\<lparr>t_stallAlm := put_flag (stalled pArmStatus \<or> stalled pPoleStatus) ''STL_ALM;'' ''STL_RUN;'' (t_stallAlm t)\<rparr>;
         t = t\<lparr>t_status := (if iServerStatus \<noteq> 0 then ucast iServerStatus else 0)\<rparr>;
         t = t\<lparr>t_buffer := snprintf (t_buffer t) 100 (tx_format (tx_fields t))\<rparr>
     in (s, t))"

section \<open>Lemmas\<close>

subsection \<open>Decimal numbers\<close>

lemma dec_digits_digits: "set (dec_digits n) \<subseteq> {c. 48 \<le> (of_char c :: nat) \<and> (of_char c :: nat) \<le> 57}"
proof (induction n rule: dec_digits.induct)
  case (1 n)
  show ?case
    by (subst dec_digits.simps) (use 1 in \<open>auto simp: of_char_of split: if_splits\<close>)
qed

lemma dec_digits_not_Nil [simp]: "dec_digits n \<noteq> []"
  by (subst dec_digits.simps) auto

lemma dec_value_append: "dec_value (s @ [c]) = 10 * dec_value s + (of_char c - 48)"
  by (simp add: dec_value.simps)

lemma dec_value_dec_digits [simp]: "dec_value (dec_digits n) = n"
proof (induction n rule: dec_digits.induct)
  case (1 n)
  show ?case
  proof (cases "n < 10")
    case True
    then show ?thesis by (subst dec_digits.simps) (simp add: dec_value.simps of_char_of)
  next
    case False
    with 1 have "dec_value (dec_digits (n div 10)) = n div 10" by simp
    with False show ?thesis
      by (subst dec_digits.simps) (simp add: dec_value_append of_char_of)
  qed
qed

lemma length_dec_digits: "n < 10 ^ k \<Longrightarrow> 0 < k \<Longrightarrow> length (dec_digits n) \<le> k"
proof (induction n arbitrary: k rule: dec_digits.induct)
  case (1 n)
  show ?case
  proof (cases "n < 10")
    case True
    with 1 show ?thesis by (subst dec_digits.simps) simp
  next
    case False
    from False 1 obtain j where k: "k = Suc j" "0 < j"
      by (cases k; cases "k - 1") auto
    with 1(2) have "n div 10 < 10 ^ j" by simp
    with 1(1) [OF False] k have "length (dec_digits (n div 10)) \<le> j" by simp
    with False k show ?thesis by (subst dec_digits.simps) simp
  qed
qed

subsection \<open>Splitting the text at blanks\<close>

fun split_blank :: "string \<Rightarrow> string \<Rightarrow> string list" where
  "split_blank acc [] = (if acc = [] then [] else [rev acc])"
| "split_blank acc (c # s) =
     (if c = CHR '' '' then rev acc # split_blank [] s else split_blank (c # acc) s)"

lemma split_blank_field:
  "CHR '' '' \<notin> set f \<Longrightarrow> split_blank acc (f @ CHR '' '' # s) = (rev acc @ f) # split_blank [] s"
  by (induction f arbitrary: acc) auto

lemma split_blank_tx_format:
  "\<forall>f \<in> set fs. CHR '' '' \<notin> set f \<Longrightarrow> split_blank [] (tx_format fs) = fs"
  by (induction fs) (auto simp: tx_format_def split_blank_field)

lemma dec_digits_clean [simp]: "CHR '' '' \<notin> set (dec_digits n)" "CHR 0x00 \<notin> set (dec_digits n)"
  using dec_digits_digits [of n] by auto

subsection \<open>The frame\<close>

lemma put_flag_text [simp]:
  assumes "CHR 0x00 \<notin> set a" "CHR 0x00 \<notin> set b"
  shows "cstr_text (put_flag c a b dst) = (if c then a else b)"
  using assms by (simp add: put_flag_def sprintf_s_def)

lemma length_put_flag [simp]:
  assumes "length a < length dst" "length b < length dst"
  shows "length (put_flag c a b dst) = length dst"
  using assms by (auto simp: put_flag_def sprintf_s_def cstr_def)

text \<open>A text shorter than the bound is stored whole, followed by NUL; the bytes behind it stay.\<close>

lemma snprintf_fits:
  assumes "length s < n" "n \<le> length dst"
  shows "snprintf dst n s = cstr s @ drop (Suc (length s)) dst"
    and "length (snprintf dst n s) = length dst"
  using assms by (auto simp: snprintf_def Let_def cstr_def)

lemma tx_format_length:
  "length (tx_format fs) = sum_list (map length fs) + length fs"
  by (induction fs) (auto simp: tx_format_def)

lemma u16_digits: "length (dec_digits (unat (w :: u16))) \<le> 5"
  by (rule length_dec_digits, rule order_less_trans [OF unat_lt_u16]) simp_all

lemma u8_digits: "length (dec_digits (unat (w :: u8))) \<le> 3"
  by (rule length_dec_digits, rule order_less_trans [OF unat_lt_u8]) simp_all

text \<open>The twelve fields of a frame, as the drivers' status gives them.\<close>

definition tx_spec :: "16 word \<Rightarrow> mot_pap \<Rightarrow> mot_pap \<Rightarrow> lift \<Rightarrow> string list" where
  "tx_spec st a p l =
    [dec_digits (unat (posAct a)), dec_digits (unat (freq a) mod 2 ^ 16),
     dec_digits (unat (posAct p)), dec_digits (unat (freq p) mod 2 ^ 16),
     (if cwLimit a = 0 then ''ACW_RUN;'' else ''ACW_LIM;''),
     (if ccwLimit a = 0 then ''ACC_RUN;'' else ''ACC_LIM;''),
     (if cwLimit p = 0 then ''PCW_RUN;'' else ''PCW_LIM;''),
     (if ccwLimit p = 0 then ''PCC_RUN;'' else ''PCC_LIM;''),
     (if upLimit l then ''LUP_LIM;'' else ''LUP_RUN;''),
     (if downLimit l then ''LDW_LIM;'' else ''LDW_RUN;''),
     (if stalled a \<or> stalled p then ''STL_ALM;'' else ''STL_RUN;''),
     dec_digits (unat st mod 2 ^ 8)]"

lemma tx_spec_length: "length (tx_format (tx_spec st a p l)) \<le> 91"
proof -
  have "length (dec_digits (unat (freq a) mod 2 ^ 16)) \<le> 5"
    "length (dec_digits (unat (freq p) mod 2 ^ 16)) \<le> 5"
    "length (dec_digits (unat st mod 2 ^ 8)) \<le> 3"
    by (rule length_dec_digits; simp)+
  then show ?thesis
    using u16_digits [of "posAct a"] u16_digits [of "posAct p"]
    by (simp add: tx_format_length tx_spec_def)
qed

lemma tx_spec_clean:
  "f \<in> set (tx_spec st a p l) \<Longrightarrow> CHR '' '' \<notin> set f \<and> CHR 0x00 \<notin> set f"
  unfolding tx_spec_def set_simps insert_iff empty_iff
  by (elim disjE) (auto split: if_splits)

lemma tx_format_clean:
  "\<forall>f \<in> set fs. CHR 0x00 \<notin> set f \<Longrightarrow> CHR 0x00 \<notin> set (tx_format fs)"
  by (induction fs) (auto simp: tx_format_def)

lemma ucast_unless_0 [simp]: "(if (st :: 'a::len word) \<noteq> 0 then ucast st else 0) = (ucast st :: 'b::len word)"
  by simp

lemma tx_fields_NetValuesToSend:
  assumes "NetValuesToSendFromRTU st s t = (s', t')"
  shows "tx_fields t' = tx_spec st (arm s') (pole s') (lift_st s')"
proof -
  have "s' = fst (NetValuesToSendFromRTU st s t)" "t' = snd (NetValuesToSendFromRTU st s t)"
    using assms by simp_all
  then show ?thesis
    by (simp add: NetValuesToSendFromRTU_def Let_def axis_defs tx_fields_def tx_spec_def
        unsigned_ucast_eq take_bit_eq_mod)
qed

lemma rtu_wf_NetValuesToSend:
  assumes "NetValuesToSendFromRTU st s t = (s', t')" and "rtu_wf t"
  shows "rtu_wf t'"
proof -
  have "t' = snd (NetValuesToSendFromRTU st s t)" using assms(1) by simp
  moreover have "length (t_buffer (snd (NetValuesToSendFromRTU st s t))) = 100"
    using assms(2) by (simp add: NetValuesToSendFromRTU_def Let_def axis_defs rtu_wf_def
        snprintf_def cstr_def)
  ultimately show ?thesis
    using assms(2) by (simp add: NetValuesToSendFromRTU_def Let_def axis_defs rtu_wf_def)
qed

lemma t_buffer_NetValuesToSend:
  assumes "NetValuesToSendFromRTU st s t = (s', t')"
  shows "t_buffer t' = snprintf (t_buffer t) 100 (tx_format (tx_fields t'))"
proof -
  have "t' = snd (NetValuesToSendFromRTU st s t)" using assms by simp
  then show ?thesis
    by (simp add: NetValuesToSendFromRTU_def Let_def axis_defs tx_fields_def)
qed

section \<open>Properties\<close>

text \<open>Uninitialised stack arrays of the declared sizes.\<close>

definition sample_rtu :: RTUData_t where
  "sample_rtu = (let a = replicate 9 0xAA in
    \<lparr>resActArm = 1, resActPole = 2, velActArm = 3, velActPole = 4, t_cwLimitArm = a, t_ccwLimitArm = a,
     t_cwLimitPole = a, t_ccwLimitPole = a, t_limitUp = a, t_limitDown = a, t_stallAlm = a,
     t_status = 9, t_buffer = replicate 100 0xAA\<rparr>)"

lemma sample_rtu_wf: "rtu_wf sample_rtu"
  by (simp add: sample_rtu_def rtu_wf_def Let_def)

text \<open>\<^bold>\<open>C40\<close>. No \<open>sprintf\<close> of \<open>NetValuesToSendFromRTU\<close> overflows its 9-byte array and the 100-byte
  buffer is never truncated: all arrays keep their size, the buffer holds the frame's text (at
  most 91 characters) and a NUL, and every byte behind the NUL is the one the buffer held before
  the call, which \<open>netconn_write\<close> then sends as well.\<close>

theorem NetValuesToSendFromRTU_bounds:
  assumes "rtu_wf t" and "NetValuesToSendFromRTU st s t = (s', t')"
  defines "body \<equiv> tx_format (tx_spec st (arm s') (pole s') (lift_st s'))"
  shows "rtu_wf t' \<and> length body \<le> 91 \<and>
    t_buffer t' = cstr body @ drop (Suc (length body)) (t_buffer t)"
proof -
  have len: "length body \<le> 91" unfolding body_def by (rule tx_spec_length)
  moreover have "t_buffer t' = snprintf (t_buffer t) 100 body"
    using t_buffer_NetValuesToSend [OF assms(2)] tx_fields_NetValuesToSend [OF assms(2)]
    by (simp add: body_def)
  moreover have "length (t_buffer t) = 100" using assms(1) by (simp add: rtu_wf_def)
  ultimately show ?thesis
    using rtu_wf_NetValuesToSend [OF assms(2,1)] snprintf_fits(1) [of body 100 "t_buffer t"] by simp
qed

theorem NetValuesToSendFromRTU_bounds_witness:
  "\<exists>s' t' r. NetValuesToSendFromRTU 0x1234 axes_static sample_rtu = (s', t') \<and> rtu_wf t' \<and>
    t_buffer t' = cstr (tx_format (tx_spec 0x1234 (arm s') (pole s') (lift_st s'))) @ r"
proof -
  obtain s' t' where e: "NetValuesToSendFromRTU 0x1234 axes_static sample_rtu = (s', t')" by force
  show ?thesis using NetValuesToSendFromRTU_bounds [OF sample_rtu_wf e] e by blast
qed

text \<open>A client that splits the received text at blanks gets exactly the twelve fields of the
  specification, and the decimal fields read back as the positions of the arm and the pole, their
  frequencies (modulo 2^16, the width of the field) and the low byte of the status.\<close>

theorem NetValuesToSendFromRTU_readable:
  assumes "rtu_wf t" and "NetValuesToSendFromRTU st s t = (s', t')"
  defines "fs \<equiv> split_blank [] (cstr_text (t_buffer t'))"
  shows "fs = tx_spec st (arm s') (pole s') (lift_st s') \<and>
    dec_value (fs ! 0) = unat (posAct (arm s')) \<and> dec_value (fs ! 1) = unat (freq (arm s')) mod 2 ^ 16 \<and>
    dec_value (fs ! 2) = unat (posAct (pole s')) \<and> dec_value (fs ! 3) = unat (freq (pole s')) mod 2 ^ 16 \<and>
    dec_value (fs ! 11) = unat st mod 2 ^ 8"
proof -
  let ?f = "tx_spec st (arm s') (pole s') (lift_st s')"
  have "length (t_buffer t) = 100" using assms(1) by (simp add: rtu_wf_def)
  then have "t_buffer t' = cstr (tx_format ?f) @ drop (Suc (length (tx_format ?f))) (t_buffer t)"
    using t_buffer_NetValuesToSend [OF assms(2)] tx_fields_NetValuesToSend [OF assms(2)]
      tx_spec_length [of st "arm s'" "pole s'" "lift_st s'"]
      snprintf_fits(1) [of "tx_format ?f" 100 "t_buffer t"] by simp
  moreover have "CHR 0x00 \<notin> set (tx_format ?f)"
    by (rule tx_format_clean) (blast dest: tx_spec_clean)
  ultimately have "fs = ?f"
    unfolding fs_def using split_blank_tx_format [of ?f] by (auto dest: tx_spec_clean)
  then show ?thesis by (simp add: tx_spec_def)
qed

theorem NetValuesToSendFromRTU_readable_witness:
  "\<exists>s' t'. NetValuesToSendFromRTU 0x1234 axes_static sample_rtu = (s', t') \<and>
    dec_value (split_blank [] (cstr_text (t_buffer t')) ! 0) = unat (posAct (arm s')) \<and>
    dec_value (split_blank [] (cstr_text (t_buffer t')) ! 11) = 0x34"
proof -
  obtain s' t' where e: "NetValuesToSendFromRTU 0x1234 axes_static sample_rtu = (s', t')" by force
  have st: "unat (0x1234 :: 16 word) mod 2 ^ 8 = 0x34" by simp
  show ?thesis using NetValuesToSendFromRTU_readable [OF sample_rtu_wf e, unfolded st] e by blast
qed

end
