(* ===== verification/TaskTrigger.thy ===== *)
theory TaskTrigger imports Axis begin

text \<open>
  \<open>TaskTriggerMsg\<close> of \<open>com/src/task_trigger.c\<close>: it folds the mode and the control enable of a
  command into a byte of flags, compares it with the byte of the previous command (a static
  variable, here an argument and a result) and posts messages to the axis drivers on changes.
  The result lists the posts in the order the code makes them: each is the allocation of a
  message block, the assignments to its fields and the \<open>xQueueSend\<close>. A field the code does not
  assign stays \<open>None\<close>, the indeterminate contents of the block. \<open>prvEmergencyStop\<close>
  (\<open>com/src/rtu_com_hmi.c\<close>) posts in the same way.

  The lemmas characterise when something is posted, the stops that a disabled control or a lost
  connection sends to all drivers, and the mode changes that post messages with an indeterminate
  type.
\<close>

section \<open>Bits\<close>

abbreviation (input) "bit0 \<equiv> (0::nat)"
abbreviation (input) "bit1 \<equiv> (1::nat)"
abbreviation (input) "bit2 \<equiv> (2::nat)"

definition BitSet :: "u8 \<Rightarrow> nat \<Rightarrow> u8" where
  "BitSet arg posn = ucast ((ucast arg :: u32) OR push_bit posn 1)"

definition BitStatus :: "u8 \<Rightarrow> nat \<Rightarrow> u32" where
  "BitStatus arg posn = ucast arg AND push_bit posn 1"

section \<open>Posts\<close>

datatype post = PostArm mot_pap_msg | PostPole mot_pap_msg | PostLift lift_msg

fun enable_no :: "enable_t \<Rightarrow> int" where
  "enable_no eDesable = 0" | "enable_no eEnable = 1"

fun freeRunDir_no :: "freeRunDir_t \<Rightarrow> int" where
  "freeRunDir_no eCW = 0" | "freeRunDir_no eCCW = 1"

text \<open>The local flags of the function.\<close>

record trig =
  bSendToArm :: bool
  bSendToPole :: bool
  bSendToLift :: bool
  bTypeStop :: bool
  bTypeFreeRunStart :: bool
  bTypeAutoStart :: bool
  bTypeLiftUp :: bool
  bTypeLiftDown :: bool

definition trig0 :: trig where
  "trig0 = \<lparr>bSendToArm = False, bSendToPole = False, bSendToLift = False, bTypeStop = False,
     bTypeFreeRunStart = False, bTypeAutoStart = False, bTypeLiftUp = False, bTypeLiftDown = False\<rparr>"

section \<open>TaskTriggerMsg\<close>

text \<open>\<open>ucActualFlagByte\<close>: mode in bits 0 and 1, control enable in bit 2.\<close>

definition flag_byte :: "HMICmd_t \<Rightarrow> u8" where
  "flag_byte c =
    (let b = 0;
         b = (case mode c of
                eStop \<Rightarrow> b
              | eFree_run \<Rightarrow> BitSet b bit0
              | eAuto \<Rightarrow> BitSet b bit1
              | eLift \<Rightarrow> BitSet (BitSet b bit0) bit1);
         b = (if ctrlEn c = eEnable then BitSet b bit2 else b)
     in b)"

text \<open>The switch on the mode bits that changed.\<close>

definition mode_trigger :: "HMICmd_t \<Rightarrow> u8 \<Rightarrow> u8 \<Rightarrow> trig \<Rightarrow> trig" where
  "mode_trigger c ucMode_EventBits ucMode_ActualBits t =
    (if ucMode_EventBits = 0x00 then t
     else if ucMode_EventBits = 0x01 then
       (if ucMode_ActualBits = 0x00 then
          let t = t\<lparr>bTypeStop := True\<rparr>
          in if freeRunAxis c = eArm then t\<lparr>bSendToArm := True\<rparr> else t\<lparr>bSendToPole := True\<rparr>
        else if ucMode_ActualBits = 0x01 then
          let t = t\<lparr>bTypeFreeRunStart := True\<rparr>
          in if freeRunAxis c = eArm then t\<lparr>bSendToArm := True\<rparr> else t\<lparr>bSendToPole := True\<rparr>
        else t)
     else if ucMode_EventBits = 0x02 then
       let t = t\<lparr>bSendToArm := True, bSendToPole := True\<rparr>
       in if ucMode_ActualBits = 0x00 then t\<lparr>bTypeStop := True\<rparr>
          else if ucMode_ActualBits = 0x02 then t\<lparr>bTypeAutoStart := True\<rparr>
          else t
     else if ucMode_EventBits = 0x03 then
       let t = t\<lparr>bSendToLift := True\<rparr>
       in if ucMode_ActualBits = 0x00 then t\<lparr>bTypeStop := True\<rparr>
          else if ucMode_ActualBits = 0x03 then
            if liftDir c = eUp then t\<lparr>bTypeLiftUp := True\<rparr> else t\<lparr>bTypeLiftDown := True\<rparr>
          else t
     else t)"

definition ctrl_trigger :: "HMICmd_t \<Rightarrow> bool \<Rightarrow> trig \<Rightarrow> trig" where
  "ctrl_trigger c bControlEnable_EventBit t =
    (if bControlEnable_EventBit then
       if ctrlEn c = eDesable
       then t\<lparr>bTypeStop := True, bSendToArm := True, bSendToPole := True, bSendToLift := True\<rparr>
       else t
     else t)"

definition mot_pap_fill :: "trig \<Rightarrow> freeRunDir_t \<Rightarrow> u8 \<Rightarrow> u16 \<Rightarrow> mot_pap_msg" where
  "mot_pap_fill t dir vel pos =
    (let m = mot_pap_msg_uninit;
         m = (if bTypeStop t then m\<lparr>m_type := Some MOT_PAP_TYPE_STOP\<rparr>
              else if bTypeFreeRunStart t then m\<lparr>m_type := Some MOT_PAP_TYPE_FREE_RUNNING\<rparr>
              else if bTypeAutoStart t then m\<lparr>m_type := Some MOT_PAP_TYPE_CLOSED_LOOP\<rparr>
              else m);
         m = m\<lparr>free_run_direction := Some (freeRunDir_no dir)\<rparr>;
         m = m\<lparr>free_run_speed := Some (ucast vel)\<rparr>;
         m = m\<lparr>closed_loop_setpoint := Some pos\<rparr>
     in m)"

definition lift_fill :: "trig \<Rightarrow> lift_msg" where
  "lift_fill t =
    (let m = lift_msg_uninit in
     if bTypeStop t then m\<lparr>l_type := Some LIFT_TYPE_STOP\<rparr>
     else if bTypeLiftUp t then m\<lparr>l_type := Some LIFT_TYPE_UP\<rparr>
     else if bTypeLiftDown t then m\<lparr>l_type := Some LIFT_TYPE_DOWN\<rparr>
     else m)"

definition send_posts :: "HMICmd_t \<Rightarrow> trig \<Rightarrow> post list" where
  "send_posts c t =
     (if bSendToArm t then [PostArm (mot_pap_fill t (freeRunDir c) (velCmdArm c) (posCmdArm c))] else []) @
     (if bSendToPole t then [PostPole (mot_pap_fill t (freeRunDir c) (velCmdPole c) (posCmdPole c))] else []) @
     (if bSendToLift t then [PostLift (lift_fill t)] else [])"

definition TaskTriggerMsg :: "HMICmd_t \<Rightarrow> u8 \<Rightarrow> post list \<times> u8" where
  "TaskTriggerMsg pHMICmd ucPreviousFlagByte =
    (let ucActualFlagByte = flag_byte pHMICmd;
         ucEventFlagByte = ucActualFlagByte XOR ucPreviousFlagByte;
         ucMode_ActualBits = 0x03 AND ucActualFlagByte;
         ucMode_EventBits = 0x03 AND ucEventFlagByte;
         bControlEnable_EventBit = (BitStatus ucEventFlagByte bit2 \<noteq> 0);
         posts =
           (if ucEventFlagByte \<noteq> 0x00 \<and>
               (enable_no (ctrlEn pHMICmd) \<noteq> 0 \<or> BitStatus ucPreviousFlagByte bit2 \<noteq> 0)
            then send_posts pHMICmd
                   (ctrl_trigger pHMICmd bControlEnable_EventBit
                     (mode_trigger pHMICmd ucMode_EventBits ucMode_ActualBits trig0))
            else [])
     in (posts, ucActualFlagByte))"

text \<open>\<open>prvEmergencyStop\<close>: only the types are assigned.\<close>

definition prvEmergencyStop :: "post list" where
  "prvEmergencyStop =
     [PostArm (mot_pap_msg_uninit\<lparr>m_type := Some MOT_PAP_TYPE_STOP\<rparr>),
      PostPole (mot_pap_msg_uninit\<lparr>m_type := Some MOT_PAP_TYPE_STOP\<rparr>),
      PostLift (lift_msg_uninit\<lparr>l_type := Some LIFT_TYPE_STOP\<rparr>)]"

section \<open>Abstract view\<close>

text \<open>The flag byte a past command left behind, as the pair it encodes.\<close>

fun mode_no :: "mode_t \<Rightarrow> u8" where
  "mode_no eStop = 0" | "mode_no eFree_run = 1" | "mode_no eAuto = 2" | "mode_no eLift = 3"

definition encode_flags :: "mode_t \<Rightarrow> enable_t \<Rightarrow> u8" where
  "encode_flags m e = mode_no m OR (if e = eEnable then 4 else 0)"

lemma flag_byte_encode: "flag_byte c = encode_flags (mode c) (ctrlEn c)"
  by (cases "mode c"; cases "ctrlEn c")
    (simp_all add: flag_byte_def encode_flags_def BitSet_def)

text \<open>What a change from \<open>(m0, e0)\<close> to the command \<open>c\<close> posts. The last four mode pairs are the
  direct changes between two running modes: they never start the new mode.\<close>

definition arm_msg :: "HMICmd_t \<Rightarrow> mot_pap_type option \<Rightarrow> post" where
  "arm_msg c ty = PostArm \<lparr>m_type = ty, free_run_direction = Some (freeRunDir_no (freeRunDir c)),
     free_run_speed = Some (ucast (velCmdArm c)), closed_loop_setpoint = Some (posCmdArm c)\<rparr>"

definition pole_msg :: "HMICmd_t \<Rightarrow> mot_pap_type option \<Rightarrow> post" where
  "pole_msg c ty = PostPole \<lparr>m_type = ty, free_run_direction = Some (freeRunDir_no (freeRunDir c)),
     free_run_speed = Some (ucast (velCmdPole c)), closed_loop_setpoint = Some (posCmdPole c)\<rparr>"

definition axis_msg :: "HMICmd_t \<Rightarrow> mot_pap_type \<Rightarrow> post" where
  "axis_msg c ty = (if freeRunAxis c = eArm then arm_msg c (Some ty) else pole_msg c (Some ty))"

definition both_msgs :: "HMICmd_t \<Rightarrow> mot_pap_type option \<Rightarrow> post list" where
  "both_msgs c ty = [arm_msg c ty, pole_msg c ty]"

fun mode_change :: "HMICmd_t \<Rightarrow> mode_t \<Rightarrow> mode_t \<Rightarrow> post list" where
  "mode_change c eStop eFree_run = [axis_msg c MOT_PAP_TYPE_FREE_RUNNING]"
| "mode_change c eFree_run eStop = [axis_msg c MOT_PAP_TYPE_STOP]"
| "mode_change c eStop eAuto = both_msgs c (Some MOT_PAP_TYPE_CLOSED_LOOP)"
| "mode_change c eAuto eStop = both_msgs c (Some MOT_PAP_TYPE_STOP)"
| "mode_change c eStop eLift =
     [PostLift \<lparr>l_type = Some (if liftDir c = eUp then LIFT_TYPE_UP else LIFT_TYPE_DOWN)\<rparr>]"
| "mode_change c eLift eStop = [PostLift \<lparr>l_type = Some LIFT_TYPE_STOP\<rparr>]"
| "mode_change c eFree_run eAuto = [PostLift \<lparr>l_type = None\<rparr>]"
| "mode_change c eAuto eFree_run = [PostLift \<lparr>l_type = None\<rparr>]"
| "mode_change c eFree_run eLift = both_msgs c None"
| "mode_change c eLift eFree_run = both_msgs c None"
| "mode_change c _ _ = []"

definition trigger_spec :: "HMICmd_t \<Rightarrow> mode_t \<Rightarrow> enable_t \<Rightarrow> post list" where
  "trigger_spec c m0 e0 =
    (case (e0, ctrlEn c) of
       (eDesable, eDesable) \<Rightarrow> []
     | (eEnable, eDesable) \<Rightarrow>
         both_msgs c (Some MOT_PAP_TYPE_STOP) @ [PostLift \<lparr>l_type = Some LIFT_TYPE_STOP\<rparr>]
     | (_, eEnable) \<Rightarrow> mode_change c m0 (mode c))"

lemmas trigger_defs = TaskTriggerMsg_def mode_trigger_def ctrl_trigger_def send_posts_def
  mot_pap_fill_def lift_fill_def mot_pap_msg_uninit_def lift_msg_uninit_def trig0_def BitStatus_def

lemmas trigger_specs = trigger_spec_def both_msgs_def axis_msg_def arm_msg_def pole_msg_def

lemma TaskTriggerMsg_eq_spec:
  "TaskTriggerMsg c (encode_flags m0 e0) = (trigger_spec c m0 e0, flag_byte c)"
proof (cases "ctrlEn c")
  case eDesable
  then show ?thesis
    by (cases m0; cases e0; cases "mode c")
      (simp_all add: trigger_defs trigger_specs flag_byte_encode encode_flags_def Let_def)
next
  case eEnable
  then show ?thesis
    by (cases m0; cases e0; cases "mode c")
      (simp_all add: trigger_defs trigger_specs flag_byte_encode encode_flags_def Let_def)
qed

text \<open>A run of commands, from the static initial flag byte: the posts of each.\<close>

fun trigger_run :: "u8 \<Rightarrow> HMICmd_t list \<Rightarrow> post list list \<times> u8" where
  "trigger_run f [] = ([], f)"
| "trigger_run f (c # cs) =
     (let (ps, f') = TaskTriggerMsg c f; (pss, f'') = trigger_run f' cs in (ps # pss, f''))"

fun post_type_stop :: "post \<Rightarrow> bool" where
  "post_type_stop (PostArm m) \<longleftrightarrow> m_type m = Some MOT_PAP_TYPE_STOP"
| "post_type_stop (PostPole m) \<longleftrightarrow> m_type m = Some MOT_PAP_TYPE_STOP"
| "post_type_stop (PostLift m) \<longleftrightarrow> l_type m = Some LIFT_TYPE_STOP"

fun post_typed :: "post \<Rightarrow> bool" where
  "post_typed (PostArm m) \<longleftrightarrow> m_type m \<noteq> None"
| "post_typed (PostPole m) \<longleftrightarrow> m_type m \<noteq> None"
| "post_typed (PostLift m) \<longleftrightarrow> l_type m \<noteq> None"

definition stops_all :: "post list \<Rightarrow> bool" where
  "stops_all ps \<longleftrightarrow> (\<exists>a p l. ps = [PostArm a, PostPole p, PostLift l]) \<and> list_all post_type_stop ps"

definition direct_change :: "mode_t \<Rightarrow> mode_t \<Rightarrow> bool" where
  "direct_change m m' \<longleftrightarrow> (m, m') \<in> {(eFree_run, eAuto), (eAuto, eFree_run), (eFree_run, eLift), (eLift, eFree_run)}"

lemma stops_all_trigger_spec:
  "ctrlEn c = eDesable \<Longrightarrow> trigger_spec c m eEnable = ps \<Longrightarrow> stops_all ps"
  by (auto simp: trigger_specs stops_all_def)

lemma trigger_run_append:
  "trigger_run f (cs @ [c]) =
    (let (pss, f') = trigger_run f cs; (ps, f'') = TaskTriggerMsg c f' in (pss @ [ps], f''))"
  by (induction cs arbitrary: f) (auto simp: Let_def split: prod.splits)

text \<open>After any run the flag byte encodes the mode and control enable of the last command.\<close>

lemma trigger_run_flags:
  "snd (trigger_run (encode_flags m e) cs) =
    (if cs = [] then encode_flags m e else encode_flags (mode (last cs)) (ctrlEn (last cs)))"
proof (induction cs arbitrary: m e)
  case (Cons c cs)
  then show ?case
    by (simp add: TaskTriggerMsg_eq_spec flag_byte_encode Let_def case_prod_unfold)
qed simp

lemma encode_flags_0: "(0 :: u8) = encode_flags eStop eDesable"
  by (simp add: encode_flags_def)

section \<open>Properties\<close>

text \<open>Functional correctness of \<open>TaskTriggerMsg\<close> over whole runs: from the static initial
  flag byte, after any sequence of commands, the posts for the next command are those the
  specification gives for the change from the previous command's mode and control enable.\<close>

theorem TaskTriggerMsg_run_spec:
  "fst (trigger_run 0 (cs @ [c])) =
     fst (trigger_run 0 cs) @
     [if cs = [] then trigger_spec c eStop eDesable
      else trigger_spec c (mode (last cs)) (ctrlEn (last cs))]"
  unfolding encode_flags_0
  using trigger_run_flags [of eStop eDesable cs]
  by (auto simp: trigger_run_append TaskTriggerMsg_eq_spec Let_def case_prod_unfold)

text \<open>\<^bold>\<open>C10\<close>. Safety of disabling: in any run, a command that disables a control that was enabled
  posts a STOP to the arm, the pole and the lift whatever the modes are, and a command with
  the control disabled never posts anything but STOP messages.\<close>

theorem control_disable_stops:
  assumes "ctrlEn c = eDesable"
  shows "(cs \<noteq> [] \<and> ctrlEn (last cs) = eEnable \<longrightarrow> stops_all (last (fst (trigger_run 0 (cs @ [c]))))) \<and>
    list_all post_type_stop (last (fst (trigger_run 0 (cs @ [c]))))"
proof -
  have "snd (trigger_run 0 cs) =
      (if cs = [] then encode_flags eStop eDesable else encode_flags (mode (last cs)) (ctrlEn (last cs)))"
    unfolding encode_flags_0 by (rule trigger_run_flags)
  then have "last (fst (trigger_run 0 (cs @ [c]))) =
      (if cs = [] then trigger_spec c eStop eDesable
       else trigger_spec c (mode (last cs)) (ctrlEn (last cs)))"
    by (simp add: trigger_run_append TaskTriggerMsg_eq_spec Let_def case_prod_unfold)
  then show ?thesis
    using assms stops_all_trigger_spec [OF assms refl, of "mode (last cs)"]
    by (cases "ctrlEn (last cs)") (auto simp: trigger_specs stops_all_def)
qed

definition sample_ctrl :: "enable_t \<Rightarrow> HMICmd_t" where
  "sample_ctrl e = \<lparr>posCmdArm = 1, posCmdPole = 2, velCmdArm = 3, velCmdPole = 4, mode = eAuto,
    freeRunAxis = eArm, freeRunDir = eCW, ctrlEn = e, stallEn = eEnable, liftDir = eUp,
    clientID = eSigned\<rparr>"

theorem control_disable_stops_witness:
  "stops_all (last (fst (trigger_run 0 ([sample_ctrl eEnable] @ [sample_ctrl eDesable]))))"
proof -
  have "ctrlEn (sample_ctrl eDesable) = eDesable" by (simp add: sample_ctrl_def)
  from control_disable_stops [OF this, of "[sample_ctrl eEnable]"] show ?thesis
    by (simp add: sample_ctrl_def)
qed

text \<open>\<^bold>\<open>C39\<close>. Every post carries a definite message type exactly when the command is not a direct
  change between free run and auto or lift with the control enabled. Such a change posts
  blocks whose type was never assigned: the driver acts on whatever the heap block held.\<close>

theorem posts_typed_iff:
  "list_all post_typed (fst (TaskTriggerMsg c (encode_flags m0 e0))) \<longleftrightarrow>
     \<not> (ctrlEn c = eEnable \<and> direct_change m0 (mode c))"
  unfolding TaskTriggerMsg_eq_spec
  by (cases "ctrlEn c"; cases e0; cases m0; cases "mode c")
    (simp_all add: trigger_specs direct_change_def)

end
