(* ===== verification/Klist.thy ===== *)
theory Klist imports Prelude "HOL-Library.Multiset" begin

text \<open>
  The kernel's list (\<open>freertos/src/list.c\<close>, \<open>list.h\<close>): a circular doubly linked list of items
  through an end marker, with an item count and a walking index. Two levels:
  \<^item> the code: memory cells \<open>pxNext\<close>, \<open>pxPrevious\<close>, \<open>pvContainer\<close>, ... and the pointer
    assignments of each routine in their order (\<open>vListInitialise\<close>, \<open>vListInsertEnd\<close>, \<open>vListInsert\<close>,
    \<open>uxListRemove\<close>, \<open>listGET_OWNER_OF_NEXT_ENTRY\<close>);
  \<^item> the view its clients have: a \<open>klist\<close>, the sequence of items from the head and the position of
    the index (0 is the end marker, \<open>k\<close> the \<open>k\<close>-th item).
  The refinement lemmas show that each routine, run on cells that represent a \<open>klist\<close>, terminates
  and leaves cells that represent the \<open>klist\<close> the abstract operation gives; cells of other lists
  are not touched.
\<close>

section \<open>The abstract list\<close>

abbreviation (input) "portMAX_DELAY \<equiv> (0xFFFFFFFF :: u32)"

record 'a klist =
  kl_items :: "'a list"
  kl_index :: nat

definition klist_empty :: "'a klist" where
  "klist_empty = \<lparr>kl_items = [], kl_index = 0\<rparr>"

definition insert_at :: "nat \<Rightarrow> 'a \<Rightarrow> 'a list \<Rightarrow> 'a list" where
  "insert_at p x xs = take p xs @ x # drop p xs"

text \<open>Insertion just before the index: at the end when the index is the end marker.\<close>

definition klist_insert_end :: "'a \<Rightarrow> 'a klist \<Rightarrow> 'a klist" where
  "klist_insert_end x l =
    (if kl_index l = 0 then l\<lparr>kl_items := kl_items l @ [x]\<rparr>
     else l\<lparr>kl_items := insert_at (kl_index l - 1) x (kl_items l), kl_index := Suc (kl_index l)\<rparr>)"

text \<open>The position of an item of value \<open>v\<close>: behind all items of values up to \<open>v\<close>.\<close>

definition insert_pos :: "('a \<Rightarrow> u32) \<Rightarrow> u32 \<Rightarrow> 'a list \<Rightarrow> nat" where
  "insert_pos val v xs =
    (if v = portMAX_DELAY then length xs else length (takeWhile (\<lambda>y. val y \<le> v) xs))"

definition klist_insert :: "('a \<Rightarrow> u32) \<Rightarrow> 'a \<Rightarrow> 'a klist \<Rightarrow> 'a klist" where
  "klist_insert val x l =
    (let p = insert_pos val (val x) (kl_items l) in
     l\<lparr>kl_items := insert_at p x (kl_items l),
       kl_index := (if p < kl_index l then Suc (kl_index l) else kl_index l)\<rparr>)"

text \<open>Removal steps the index back when it stands on the removed item.\<close>

definition klist_remove :: "'a \<Rightarrow> 'a klist \<Rightarrow> 'a klist" where
  "klist_remove x l =
    (let p = length (takeWhile (\<lambda>y. y \<noteq> x) (kl_items l)) in
     l\<lparr>kl_items := remove1 x (kl_items l),
       kl_index := (if p < kl_index l then kl_index l - 1 else kl_index l)\<rparr>)"

text \<open>One step of the index, over the end marker; the owner of the item reached, none if the list is
  empty.\<close>

definition klist_next :: "'a klist \<Rightarrow> 'a option \<times> 'a klist" where
  "klist_next l =
    (if kl_items l = [] then (None, l\<lparr>kl_index := 0\<rparr>)
     else let k = (if kl_index l < length (kl_items l) then Suc (kl_index l) else 1)
          in (Some (kl_items l ! (k - 1)), l\<lparr>kl_index := k\<rparr>))"

section \<open>The cells\<close>

datatype ('l, 'a) nref = ListEnd 'l | ListItem 'a

record ('l, 'a) lmem =
  pxNext :: "('l, 'a) nref \<Rightarrow> ('l, 'a) nref"
  pxPrevious :: "('l, 'a) nref \<Rightarrow> ('l, 'a) nref"
  xItemValue :: "('l, 'a) nref \<Rightarrow> u32"
  pvContainer :: "'a \<Rightarrow> 'l option"
  pxIndex :: "'l \<Rightarrow> ('l, 'a) nref"
  uxNumberOfItems :: "'l \<Rightarrow> u32"

definition vListInitialise :: "'l \<Rightarrow> ('l, 'a) lmem \<Rightarrow> ('l, 'a) lmem" where
  "vListInitialise pxList m =
    (let m = m\<lparr>pxIndex := (pxIndex m)(pxList := ListEnd pxList)\<rparr>;
         m = m\<lparr>xItemValue := (xItemValue m)(ListEnd pxList := portMAX_DELAY)\<rparr>;
         m = m\<lparr>pxNext := (pxNext m)(ListEnd pxList := ListEnd pxList)\<rparr>;
         m = m\<lparr>pxPrevious := (pxPrevious m)(ListEnd pxList := ListEnd pxList)\<rparr>;
         m = m\<lparr>uxNumberOfItems := (uxNumberOfItems m)(pxList := 0)\<rparr>
     in m)"

definition vListInitialiseItem :: "'a \<Rightarrow> ('l, 'a) lmem \<Rightarrow> ('l, 'a) lmem" where
  "vListInitialiseItem pxItem m = m\<lparr>pvContainer := (pvContainer m)(pxItem := None)\<rparr>"

definition vListInsertEnd :: "'l \<Rightarrow> 'a \<Rightarrow> ('l, 'a) lmem \<Rightarrow> ('l, 'a) lmem" where
  "vListInsertEnd pxList pxNewListItem m =
    (let idx = pxIndex m pxList;
         m = m\<lparr>pxNext := (pxNext m)(ListItem pxNewListItem := idx)\<rparr>;
         m = m\<lparr>pxPrevious := (pxPrevious m)(ListItem pxNewListItem := pxPrevious m idx)\<rparr>;
         m = m\<lparr>pxNext := (pxNext m)(pxPrevious m idx := ListItem pxNewListItem)\<rparr>;
         m = m\<lparr>pxPrevious := (pxPrevious m)(idx := ListItem pxNewListItem)\<rparr>;
         m = m\<lparr>pvContainer := (pvContainer m)(pxNewListItem := Some pxList)\<rparr>;
         m = m\<lparr>uxNumberOfItems := (uxNumberOfItems m)(pxList := uxNumberOfItems m pxList + 1)\<rparr>
     in m)"

text \<open>The search loop of \<open>vListInsert\<close>: it ends only when a larger value is met, so its result is
  an option.\<close>

partial_function (option) vListInsert_iter ::
  "(('l, 'a) nref \<Rightarrow> ('l, 'a) nref) \<Rightarrow> (('l, 'a) nref \<Rightarrow> u32) \<Rightarrow> u32 \<Rightarrow> ('l, 'a) nref \<Rightarrow> ('l, 'a) nref option"
where
  "vListInsert_iter nx val v pxIterator =
    (if val (nx pxIterator) \<le> v then vListInsert_iter nx val v (nx pxIterator) else Some pxIterator)"

definition vListInsert :: "'l \<Rightarrow> 'a \<Rightarrow> ('l, 'a) lmem \<Rightarrow> ('l, 'a) lmem option" where
  "vListInsert pxList pxNewListItem m =
    (let xValueOfInsertion = xItemValue m (ListItem pxNewListItem) in
     case (if xValueOfInsertion = portMAX_DELAY then Some (pxPrevious m (ListEnd pxList))
           else vListInsert_iter (pxNext m) (xItemValue m) xValueOfInsertion (ListEnd pxList)) of
       None \<Rightarrow> None
     | Some pxIterator \<Rightarrow>
         (let m = m\<lparr>pxNext := (pxNext m)(ListItem pxNewListItem := pxNext m pxIterator)\<rparr>;
              m = m\<lparr>pxPrevious := (pxPrevious m)(pxNext m (ListItem pxNewListItem) := ListItem pxNewListItem)\<rparr>;
              m = m\<lparr>pxPrevious := (pxPrevious m)(ListItem pxNewListItem := pxIterator)\<rparr>;
              m = m\<lparr>pxNext := (pxNext m)(pxIterator := ListItem pxNewListItem)\<rparr>;
              m = m\<lparr>pvContainer := (pvContainer m)(pxNewListItem := Some pxList)\<rparr>;
              m = m\<lparr>uxNumberOfItems := (uxNumberOfItems m)(pxList := uxNumberOfItems m pxList + 1)\<rparr>
          in Some m))"

text \<open>The container must be set; the code dereferences it.\<close>

definition uxListRemove :: "'a \<Rightarrow> ('l, 'a) lmem \<Rightarrow> (u32 \<times> ('l, 'a) lmem) option" where
  "uxListRemove pxItemToRemove m =
    (case pvContainer m pxItemToRemove of
       None \<Rightarrow> None
     | Some pxList \<Rightarrow>
         (let it = ListItem pxItemToRemove;
              m = m\<lparr>pxPrevious := (pxPrevious m)(pxNext m it := pxPrevious m it)\<rparr>;
              m = m\<lparr>pxNext := (pxNext m)(pxPrevious m it := pxNext m it)\<rparr>;
              m = (if pxIndex m pxList = it
                   then m\<lparr>pxIndex := (pxIndex m)(pxList := pxPrevious m it)\<rparr> else m);
              m = m\<lparr>pvContainer := (pvContainer m)(pxItemToRemove := None)\<rparr>;
              m = m\<lparr>uxNumberOfItems := (uxNumberOfItems m)(pxList := uxNumberOfItems m pxList - 1)\<rparr>
          in Some (uxNumberOfItems m pxList, m)))"

text \<open>\<open>listGET_OWNER_OF_NEXT_ENTRY\<close>: the new index; its owner is read from the item.\<close>

definition listGET_OWNER_OF_NEXT_ENTRY :: "'l \<Rightarrow> ('l, 'a) lmem \<Rightarrow> ('l, 'a) nref \<times> ('l, 'a) lmem" where
  "listGET_OWNER_OF_NEXT_ENTRY pxConstList m =
    (let m = m\<lparr>pxIndex := (pxIndex m)(pxConstList := pxNext m (pxIndex m pxConstList))\<rparr>;
         m = (if pxIndex m pxConstList = ListEnd pxConstList
              then m\<lparr>pxIndex := (pxIndex m)(pxConstList := pxNext m (pxIndex m pxConstList))\<rparr> else m)
     in (pxIndex m pxConstList, m))"

section \<open>Doubly linked paths\<close>

fun chain :: "('r \<Rightarrow> 'r) \<Rightarrow> ('r \<Rightarrow> 'r) \<Rightarrow> 'r \<Rightarrow> 'r list \<Rightarrow> 'r \<Rightarrow> bool" where
  "chain nx pv a [] b \<longleftrightarrow> nx a = b \<and> pv b = a"
| "chain nx pv a (x # xs) b \<longleftrightarrow> nx a = x \<and> pv x = a \<and> chain nx pv x xs b"

lemma chain_next_upd [simp]: "p \<notin> set (a # xs) \<Longrightarrow> chain (nx(p := q)) pv a xs b = chain nx pv a xs b"
  by (induction xs arbitrary: a) auto

lemma chain_prev_upd [simp]: "p \<notin> set (xs @ [b]) \<Longrightarrow> chain nx (pv(p := q)) a xs b = chain nx pv a xs b"
  by (induction xs arbitrary: a) auto

lemma chain_mid:
  "chain nx pv a (us @ vs) b \<Longrightarrow>
    nx (last (a # us)) = hd (vs @ [b]) \<and> pv (hd (vs @ [b])) = last (a # us)"
  by (induction us arbitrary: a) (cases vs; auto)+

lemma chain_cong:
  "(\<And>r. r \<in> set (a # xs) \<Longrightarrow> nx r = nx' r) \<Longrightarrow> (\<And>r. r \<in> set (xs @ [b]) \<Longrightarrow> pv r = pv' r) \<Longrightarrow>
    chain nx pv a xs b \<longleftrightarrow> chain nx' pv' a xs b"
  by (induction xs arbitrary: a) auto

lemma last_Cons_neq: "distinct (a # u # us) \<Longrightarrow> a \<noteq> last (u # us)"
  by (metis distinct.simps(2) last_in_set list.distinct(1))

lemma chain_insert:
  assumes "chain nx pv a (us @ vs) b" and "distinct (a # us @ vs)" and "b \<notin> set (us @ vs)"
    and "x \<noteq> a" "x \<noteq> b" "x \<notin> set (us @ vs)"
    and "p = last (a # us)" and n: "n = hd (vs @ [b])"
    and N: "\<And>r. nx' r = (if r = p then x else if r = x then n else nx r)"
    and P: "\<And>r. pv' r = (if r = x then p else if r = n then x else pv r)"
  shows "chain nx' pv' a (us @ x # vs) b"
  using assms(1-7)
proof (induction us arbitrary: a)
  case Nil
  show ?case
  proof (cases vs)
    case Nil
    with Nil.prems show ?thesis by (auto simp: N P n)
  next
    case (Cons v ws)
    have "chain nx' pv' v ws b \<longleftrightarrow> chain nx pv v ws b"
      by (rule chain_cong) (use Nil.prems Cons n in \<open>auto simp: N P\<close>)
    with Nil.prems Cons N [of a] N [of x] P [of x] P [of v] show ?thesis by (auto simp: n)
  qed
next
  case (Cons u us)
  have "u \<noteq> n" "u \<noteq> b" using Cons.prems n by (cases vs; auto)+
  moreover have "a \<noteq> p" using Cons.prems(2,7) last_Cons_neq [of a u us] by auto
  moreover have "chain nx' pv' u (us @ x # vs) b"
    using Cons.prems \<open>u \<noteq> b\<close> by (intro Cons.IH) auto
  ultimately show ?case using Cons.prems N [of a] P [of u] by auto
qed

lemma chain_remove:
  assumes "chain nx pv a (us @ x # vs) b" and "distinct (a # us @ x # vs)" and "b \<notin> set (us @ x # vs)"
    and "p = last (a # us)" and n: "n = hd (vs @ [b])"
    and N: "\<And>r. nx' r = (if r = p then n else nx r)" and P: "\<And>r. pv' r = (if r = n then p else pv r)"
  shows "chain nx' pv' a (us @ vs) b"
  using assms(1-4)
proof (induction us arbitrary: a)
  case Nil
  show ?case
  proof (cases vs)
    case Nil
    with Nil.prems show ?thesis by (auto simp: N P n)
  next
    case (Cons v ws)
    have "chain nx' pv' v ws b \<longleftrightarrow> chain nx pv v ws b"
      by (rule chain_cong) (use Nil.prems Cons n in \<open>auto simp: N P\<close>)
    with Nil.prems Cons N [of a] P [of v] show ?thesis by (simp add: n)
  qed
next
  case (Cons u us)
  have "u \<noteq> n" "u \<noteq> b" using Cons.prems n by (cases vs; auto)+
  moreover have "a \<noteq> p" using Cons.prems(2,4) last_Cons_neq [of a u us] by auto
  moreover have "chain nx' pv' u (us @ vs) b"
    using Cons.prems \<open>u \<noteq> b\<close> by (intro Cons.IH) auto
  ultimately show ?case using Cons.prems N [of a] P [of u] by auto
qed

text \<open>The search loop stops behind the prefix of values up to \<open>v\<close>.\<close>

lemma vListInsert_iter_chain:
  assumes "chain nx pv a xs b" and "v < val b"
  shows "vListInsert_iter nx val v a = Some (last (a # takeWhile (\<lambda>y. val y \<le> v) xs))"
  using assms
proof (induction xs arbitrary: a)
  case Nil
  then have "\<not> val (nx a) \<le> v" by (simp add: not_le)
  then show ?case by (subst vListInsert_iter.simps) simp
next
  case (Cons x xs)
  then have IH: "vListInsert_iter nx val v x = Some (last (x # takeWhile (\<lambda>y. val y \<le> v) xs))" by simp
  show ?case by (subst vListInsert_iter.simps) (use Cons.prems IH in auto)
qed

section \<open>Representation\<close>

text \<open>The cells \<open>m\<close> hold, for every list \<open>L\<close>, the abstract list \<open>R L\<close>: the ring of its items, its
  count and index, the back marker's value, and containers that say exactly which items are in.\<close>

definition list_rep :: "('l, 'a) lmem \<Rightarrow> 'l \<Rightarrow> 'a klist \<Rightarrow> bool" where
  "list_rep m L l \<longleftrightarrow>
    chain (pxNext m) (pxPrevious m) (ListEnd L) (map ListItem (kl_items l)) (ListEnd L) \<and>
    distinct (kl_items l) \<and> kl_index l \<le> length (kl_items l) \<and>
    pxIndex m L = (ListEnd L # map ListItem (kl_items l)) ! kl_index l \<and>
    uxNumberOfItems m L = of_nat (length (kl_items l)) \<and>
    set (kl_items l) = {x. pvContainer m x = Some L} \<and>
    xItemValue m (ListEnd L) = portMAX_DELAY"

definition lists_rep :: "('l, 'a) lmem \<Rightarrow> ('l \<Rightarrow> 'a klist) \<Rightarrow> bool" where
  "lists_rep m R \<longleftrightarrow> (\<forall>L. list_rep m L (R L))"

lemma insert_at_split:
  "us = take j xs \<Longrightarrow> vs = drop j xs \<Longrightarrow> insert_at j x xs = us @ x # vs"
  by (simp add: insert_at_def)

lemma last_Cons_cases: "last (e # ys) = e \<or> last (e # ys) \<in> set ys"
  by (cases ys) auto

lemma hd_snoc_cases: "hd (ys @ [e]) = e \<or> hd (ys @ [e]) \<in> set ys"
  by (cases ys) auto

lemma index_shift:
  assumes "j \<le> length xs" and "k \<le> length xs"
  shows "(b # insert_at j x xs) ! (if j < k then Suc k else k) = (b # xs) ! k"
  using assms by (cases k) (auto simp: insert_at_def nth_append min_def Suc_diff_le)

lemma length_insert_at [simp]: "length (insert_at j x xs) = Suc (length xs)"
  by (simp add: insert_at_def)

lemma set_insert_at [simp]: "set (insert_at j x xs) = insert x (set xs)"
  by (metis append_take_drop_id insert_at_def list.simps(15) set_append Un_insert_right)

lemma map_insert_at: "map f (insert_at j x xs) = insert_at j (f x) (map f xs)"
  by (simp add: insert_at_def take_map drop_map)

lemma distinct_insert_at [simp]: "distinct (insert_at j x xs) \<longleftrightarrow> x \<notin> set xs \<and> distinct xs"
proof -
  have "mset (insert_at j x xs) = mset (x # xs)"
    by (metis append_take_drop_id insert_at_def mset.simps(2) mset_append union_mset_add_mset_right)
  then have "distinct (insert_at j x xs) \<longleftrightarrow> distinct (x # xs)" by (rule mset_eq_imp_distinct_iff)
  then show ?thesis by simp
qed

lemma list_rep_insert_other:
  assumes "list_rep m L' l" and "pvContainer m x = None" and "L' \<noteq> L"
    and "p = ListEnd L \<or> (\<exists>y. p = ListItem y \<and> pvContainer m y = Some L)"
    and "n = ListEnd L \<or> (\<exists>y. n = ListItem y \<and> pvContainer m y = Some L)"
    and "pxNext m' = (pxNext m)(ListItem x := n, p := ListItem x)"
    and "pxPrevious m' = (pxPrevious m)(n := ListItem x, ListItem x := p)"
    and "pvContainer m' = (pvContainer m)(x := Some L)"
    and "pxIndex m' L' = pxIndex m L'" and "uxNumberOfItems m' L' = uxNumberOfItems m L'"
    and "xItemValue m' = xItemValue m"
  shows "list_rep m' L' l"
proof -
  have x: "x \<notin> set (kl_items l)" using assms(1,2) by (auto simp: list_rep_def)
  have pn: "p \<notin> set (ListEnd L' # map ListItem (kl_items l))"
    "n \<notin> set (map ListItem (kl_items l) @ [ListEnd L'])"
    using assms(1,3,4,5) by (auto simp: list_rep_def)
  have "chain (pxNext m') (pxPrevious m') (ListEnd L') (map ListItem (kl_items l)) (ListEnd L')"
    using assms(1) x pn unfolding list_rep_def assms(6,7)
    by (subst chain_cong [where nx' = "pxNext m" and pv' = "pxPrevious m"]) auto
  then show ?thesis
    using assms x unfolding list_rep_def by (auto simp: fun_upd_apply)
qed

lemma lists_rep_insert:
  assumes R: "lists_rep m R" and x: "pvContainer m x = None" and j: "j \<le> length (kl_items (R L))"
    and p: "p = last (ListEnd L # map ListItem (take j (kl_items (R L))))"
    and n: "n = hd (map ListItem (drop j (kl_items (R L))) @ [ListEnd L])"
    and m': "m' = m\<lparr>pxNext := (pxNext m)(ListItem x := n, p := ListItem x),
        pxPrevious := (pxPrevious m)(n := ListItem x, ListItem x := p),
        pvContainer := (pvContainer m)(x := Some L),
        uxNumberOfItems := (uxNumberOfItems m)(L := uxNumberOfItems m L + 1)\<rparr>"
    and l': "l' = \<lparr>kl_items = insert_at j x (kl_items (R L)),
        kl_index = (if j < kl_index (R L) then Suc (kl_index (R L)) else kl_index (R L))\<rparr>"
  shows "lists_rep m' (R(L := l'))"
proof -
  let ?xs = "kl_items (R L)" and ?us = "take j (kl_items (R L))" and ?vs = "drop j (kl_items (R L))"
  have RL: "list_rep m L (R L)" using R by (simp add: lists_rep_def)
  have xs: "?us @ ?vs = ?xs" by simp
  have xn: "x \<notin> set ?xs" using RL x by (auto simp: list_rep_def)
  have ch: "chain (pxNext m) (pxPrevious m) (ListEnd L) (map ListItem ?us @ map ListItem ?vs) (ListEnd L)"
    using RL by (simp add: list_rep_def flip: map_append)
  have "chain (pxNext m') (pxPrevious m') (ListEnd L) (map ListItem ?us @ ListItem x # map ListItem ?vs) (ListEnd L)"
  proof (rule chain_insert [OF ch, where p = p and n = n])
    have "distinct (?us @ ?vs)" using RL by (simp add: list_rep_def)
    then show "distinct (ListEnd L # map ListItem ?us @ map ListItem ?vs)"
      unfolding map_append [symmetric] by (simp only: xs) (auto simp: distinct_map inj_on_def)
  qed (use xn xs p n in \<open>auto simp: m' dest: in_set_takeD in_set_dropD\<close>)
  then have c: "chain (pxNext m') (pxPrevious m') (ListEnd L) (map ListItem (kl_items l')) (ListEnd L)"
    by (simp add: l' insert_at_def)
  have idx: "(ListEnd L # map ListItem (kl_items l')) ! kl_index l' = (ListEnd L # map ListItem ?xs) ! kl_index (R L)"
    using j index_shift [of j "map ListItem ?xs" "kl_index (R L)" "ListEnd L" "ListItem x"] RL
    by (simp add: l' map_insert_at list_rep_def)
  have "list_rep m' L l'"
    unfolding list_rep_def
  proof (intro conjI)
    show "distinct (kl_items l')" using RL xn by (simp add: list_rep_def l')
    show "kl_index l' \<le> length (kl_items l')" using RL by (simp add: l' list_rep_def)
    show "pxIndex m' L = (ListEnd L # map ListItem (kl_items l')) ! kl_index l'"
      unfolding idx using RL by (simp add: m' list_rep_def)
    show "uxNumberOfItems m' L = of_nat (length (kl_items l'))"
      using RL by (simp add: m' l' list_rep_def)
    have "set (kl_items l') = insert x {y. pvContainer m y = Some L}"
      using RL by (simp add: l' list_rep_def)
    then show "set (kl_items l') = {y. pvContainer m' y = Some L}" by (auto simp: m')
    show "xItemValue m' (ListEnd L) = portMAX_DELAY" using RL by (simp add: m' list_rep_def)
  qed (rule c)
  moreover have "list_rep m' L' (R L')" if "L' \<noteq> L" for L'
  proof (rule list_rep_insert_other [where L = L and p = p and n = n and m = m and x = x])
    show "p = ListEnd L \<or> (\<exists>y. p = ListItem y \<and> pvContainer m y = Some L)"
      using RL last_Cons_cases [of "ListEnd L" "map ListItem ?us"] unfolding p list_rep_def
      by (auto dest: in_set_takeD)
    show "n = ListEnd L \<or> (\<exists>y. n = ListItem y \<and> pvContainer m y = Some L)"
      using RL hd_snoc_cases [of "map ListItem ?vs" "ListEnd L"] unfolding n list_rep_def
      by (auto dest: in_set_dropD)
  qed (use R x that in \<open>simp_all add: lists_rep_def m'\<close>)
  ultimately show ?thesis by (simp add: lists_rep_def)
qed

lemma list_rep_mid:
  assumes "list_rep m L l"
  shows "pxNext m (last (ListEnd L # map ListItem (take j (kl_items l)))) =
      hd (map ListItem (drop j (kl_items l)) @ [ListEnd L])"
    and "pxPrevious m (hd (map ListItem (drop j (kl_items l)) @ [ListEnd L])) =
      last (ListEnd L # map ListItem (take j (kl_items l)))"
proof -
  have "chain (pxNext m) (pxPrevious m) (ListEnd L)
      (map ListItem (take j (kl_items l)) @ map ListItem (drop j (kl_items l))) (ListEnd L)"
    using assms(1) by (simp add: list_rep_def flip: map_append)
  from chain_mid [OF this]
  show "pxNext m (last (ListEnd L # map ListItem (take j (kl_items l)))) =
      hd (map ListItem (drop j (kl_items l)) @ [ListEnd L])"
    and "pxPrevious m (hd (map ListItem (drop j (kl_items l)) @ [ListEnd L])) =
      last (ListEnd L # map ListItem (take j (kl_items l)))" by blast+
qed

lemma list_rep_fresh:
  assumes "list_rep m L l" and "pvContainer m x = None"
  shows "last (ListEnd L # map ListItem (take j (kl_items l))) \<noteq> ListItem x"
    and "hd (map ListItem (drop j (kl_items l)) @ [ListEnd L]) \<noteq> ListItem x"
proof -
  have "x \<notin> set (kl_items l)" using assms by (simp add: list_rep_def)
  then have "ListItem x \<notin> set (map ListItem (take j (kl_items l)))"
    "ListItem x \<notin> set (map ListItem (drop j (kl_items l)))"
    by (auto dest: in_set_takeD in_set_dropD)
  then show "last (ListEnd L # map ListItem (take j (kl_items l))) \<noteq> ListItem x"
    and "hd (map ListItem (drop j (kl_items l)) @ [ListEnd L]) \<noteq> ListItem x"
    using last_Cons_cases [of "ListEnd L" "map ListItem (take j (kl_items l))"]
      hd_snoc_cases [of "map ListItem (drop j (kl_items l))" "ListEnd L"]
    by (metis nref.distinct(1))+
qed

lemma hd_drop_nth:
  "hd (map f (drop j xs) @ [e]) = (if j < length xs then f (xs ! j) else e)"
  by (simp add: hd_drop_conv_nth hd_map hd_append)

lemma last_take_nth:
  "j \<le> length xs \<Longrightarrow> last (e # map f (take j xs)) = (if j = 0 then e else f (xs ! (j - 1)))"
  by (auto simp: last_map last_conv_nth)

lemma insert_end_refines:
  assumes R: "lists_rep m R" and x: "pvContainer m x = None"
  shows "lists_rep (vListInsertEnd L x m) (R(L := klist_insert_end x (R L)))"
proof -
  let ?xs = "kl_items (R L)" and ?k = "kl_index (R L)"
  define j where "j = (if ?k = 0 then length ?xs else ?k - 1)"
  define p where "p = last (ListEnd L # map ListItem (take j ?xs))"
  define n where "n = hd (map ListItem (drop j ?xs) @ [ListEnd L])"
  have RL: "list_rep m L (R L)" using R by (simp add: lists_rep_def)
  then have idx: "pxIndex m L = n" and j: "j \<le> length ?xs"
    by (auto simp: list_rep_def n_def hd_drop_nth j_def nth_Cons split: nat.splits)
  have prev: "pxPrevious m n = p" unfolding n_def p_def by (rule list_rep_mid [OF RL])
  have "n \<noteq> ListItem x" unfolding n_def by (rule list_rep_fresh(2) [OF RL x])
  then have m': "vListInsertEnd L x m = m\<lparr>pxNext := (pxNext m)(ListItem x := n, p := ListItem x),
        pxPrevious := (pxPrevious m)(n := ListItem x, ListItem x := p),
        pvContainer := (pvContainer m)(x := Some L),
        uxNumberOfItems := (uxNumberOfItems m)(L := uxNumberOfItems m L + 1)\<rparr>"
    by (simp add: vListInsertEnd_def Let_def idx prev fun_upd_twist)
  have l': "klist_insert_end x (R L) = \<lparr>kl_items = insert_at j x ?xs,
      kl_index = (if j < ?k then Suc ?k else ?k)\<rparr>"
    using RL by (auto simp: klist_insert_end_def j_def list_rep_def insert_at_def)
  show ?thesis
    using lists_rep_insert [OF R x j refl refl m' [unfolded p_def n_def] l'] .
qed

lemma insert_refines:
  assumes R: "lists_rep m R" and x: "pvContainer m x = None"
  shows "\<exists>m'. vListInsert L x m = Some m' \<and>
    lists_rep m' (R(L := klist_insert (\<lambda>y. xItemValue m (ListItem y)) x (R L)))"
proof -
  let ?xs = "kl_items (R L)" and ?k = "kl_index (R L)" and ?v = "xItemValue m (ListItem x)"
  define j where "j = insert_pos (\<lambda>y. xItemValue m (ListItem y)) ?v ?xs"
  define p where "p = last (ListEnd L # map ListItem (take j ?xs))"
  define n where "n = hd (map ListItem (drop j ?xs) @ [ListEnd L])"
  have RL: "list_rep m L (R L)" using R by (simp add: lists_rep_def)
  have j: "j \<le> length ?xs" by (simp add: j_def insert_pos_def length_takeWhile_le)
  have iter: "(if ?v = portMAX_DELAY then Some (pxPrevious m (ListEnd L))
      else vListInsert_iter (pxNext m) (xItemValue m) ?v (ListEnd L)) = Some p"
  proof (cases "?v = portMAX_DELAY")
    case True
    then have "j = length ?xs" by (simp add: j_def insert_pos_def)
    then have "n = ListEnd L" by (simp add: n_def)
    with True show ?thesis using list_rep_mid(2) [OF RL, of j] by (simp add: p_def n_def)
  next
    case False
    then have lt: "?v < xItemValue m (ListEnd L)"
      using RL u32_max [of ?v] by (simp add: list_rep_def)
    have "vListInsert_iter (pxNext m) (xItemValue m) ?v (ListEnd L) =
        Some (last (ListEnd L # takeWhile (\<lambda>y. xItemValue m y \<le> ?v) (map ListItem ?xs)))"
      using RL lt unfolding list_rep_def by (intro vListInsert_iter_chain) auto
    then show ?thesis
      using False by (simp add: p_def j_def insert_pos_def takeWhile_map comp_def takeWhile_eq_take [symmetric])
  qed
  have nxt: "pxNext m p = n" unfolding n_def p_def by (rule list_rep_mid [OF RL])
  have "n \<noteq> ListItem x" unfolding n_def by (rule list_rep_fresh(2) [OF RL x])
  moreover have "p \<noteq> ListItem x" unfolding p_def by (rule list_rep_fresh(1) [OF RL x])
  ultimately have "vListInsert L x m = Some (m\<lparr>pxNext := (pxNext m)(ListItem x := n, p := ListItem x),
        pxPrevious := (pxPrevious m)(n := ListItem x, ListItem x := p),
        pvContainer := (pvContainer m)(x := Some L),
        uxNumberOfItems := (uxNumberOfItems m)(L := uxNumberOfItems m L + 1)\<rparr>)"
    unfolding vListInsert_def Let_def iter by (simp add: nxt)
  moreover have "klist_insert (\<lambda>y. xItemValue m (ListItem y)) x (R L) =
      \<lparr>kl_items = insert_at j x ?xs, kl_index = (if j < ?k then Suc ?k else ?k)\<rparr>"
    by (simp add: klist_insert_def Let_def j_def)
  ultimately show ?thesis
    using lists_rep_insert [OF R x j p_def n_def refl] by (auto simp: j_def)
qed

lemma index_unshift:
  "(e # us @ vs) ! (if length us < k then k - 1 else k) =
    (if k = Suc (length us) then (e # us) ! length us else (e # us @ x # vs) ! k)"
proof (cases "length us < k")
  case True
  then obtain j where "k = Suc (length us + j)" by (metis less_imp_Suc_add)
  then show ?thesis by (cases j) (auto simp: nth_append nth_Cons split: nat.splits)
qed (auto simp: nth_append nth_Cons split: nat.splits)

lemma klist_remove_split:
  assumes "x \<in> set (kl_items l)" and "distinct (kl_items l)"
  obtains us vs where "kl_items l = us @ x # vs" and "x \<notin> set us" and "x \<notin> set vs"
    and "klist_remove x l = \<lparr>kl_items = us @ vs,
       kl_index = (if length us < kl_index l then kl_index l - 1 else kl_index l)\<rparr>"
proof -
  obtain us vs where s: "kl_items l = us @ x # vs" and u: "x \<notin> set us"
    using split_list_first [OF assms(1)] by auto
  moreover from s assms(2) have "x \<notin> set vs" by auto
  moreover have "takeWhile (\<lambda>y. y \<noteq> x) (us @ x # vs) = us"
    using u by (metis (mono_tags, lifting) takeWhile_append2 takeWhile_eq_Nil_iff append.right_neutral list.sel(1))
  ultimately show ?thesis
    using that [of us vs] by (simp add: klist_remove_def Let_def remove1_append)
qed

lemma remove_refines:
  assumes R: "lists_rep m R" and x: "pvContainer m x = Some L"
  shows "\<exists>m'. uxListRemove x m = Some (of_nat (length (kl_items (R L)) - 1), m') \<and>
    lists_rep m' (R(L := klist_remove x (R L))) \<and> pvContainer m' = (pvContainer m)(x := None) \<and>
    xItemValue m' = xItemValue m"
proof -
  let ?xs = "kl_items (R L)" and ?k = "kl_index (R L)"
  have RL: "list_rep m L (R L)" using R by (simp add: lists_rep_def)
  then have "x \<in> set ?xs" and dist: "distinct ?xs" using x by (simp_all add: list_rep_def)
  then obtain us vs where xs: "?xs = us @ x # vs" and fresh: "x \<notin> set us" "x \<notin> set vs"
    and l': "klist_remove x (R L) = \<lparr>kl_items = us @ vs,
       kl_index = (if length us < ?k then ?k - 1 else ?k)\<rparr>"
    by (rule klist_remove_split)
  define p where "p = last (ListEnd L # map ListItem us)"
  define n where "n = hd (map ListItem vs @ [ListEnd L])"
  have pr: "pxPrevious m (ListItem x) = p" and nx: "pxNext m (ListItem x) = n"
    using list_rep_mid(2) [OF RL, of "length us"] list_rep_mid(1) [OF RL, of "Suc (length us)"]
    by (simp_all add: xs p_def n_def)
  have idx: "pxIndex m L = (ListEnd L # map ListItem ?xs) ! ?k" and k: "?k \<le> length ?xs"
    using RL by (simp_all add: list_rep_def)
  have at: "pxIndex m L = ListItem x \<longleftrightarrow> ?k = Suc (length us)"
  proof
    assume "pxIndex m L = ListItem x"
    then obtain i where i: "?k = Suc i" "?xs ! i = x" "i < length ?xs"
      using idx k by (cases ?k) auto
    moreover have "?xs ! length us = x" "length us < length ?xs" by (simp_all add: xs)
    ultimately show "?k = Suc (length us)" using dist by (metis nth_eq_iff_index_eq)
  qed (use idx in \<open>simp add: xs nth_append\<close>)
  have plast: "p = (ListEnd L # map ListItem us) ! length us" by (simp add: p_def last_conv_nth)
  define m' where "m' = m\<lparr>pxPrevious := (pxPrevious m)(n := p), pxNext := (pxNext m)(p := n),
      pxIndex := (if ?k = Suc (length us) then (pxIndex m)(L := p) else pxIndex m),
      pvContainer := (pvContainer m)(x := None),
      uxNumberOfItems := (uxNumberOfItems m)(L := uxNumberOfItems m L - 1)\<rparr>"
  have px: "p \<noteq> ListItem x" and nn: "n \<noteq> ListItem x"
    using last_Cons_cases [of "ListEnd L" "map ListItem us"] hd_snoc_cases [of "map ListItem vs" "ListEnd L"]
      fresh by (auto simp: p_def n_def)
  have "uxListRemove x m = Some (uxNumberOfItems m' L, m')"
    using px nn by (auto simp: uxListRemove_def x Let_def pr nx at m'_def)
  moreover have "uxNumberOfItems m' L = of_nat (length ?xs - 1)"
    using RL by (simp add: m'_def list_rep_def xs)
  moreover have "list_rep m' L (klist_remove x (R L))"
    unfolding list_rep_def
  proof (intro conjI)
    have ch: "chain (pxNext m) (pxPrevious m) (ListEnd L) (map ListItem us @ ListItem x # map ListItem vs) (ListEnd L)"
      using RL by (simp add: list_rep_def xs)
    have "chain (pxNext m') (pxPrevious m') (ListEnd L) (map ListItem us @ map ListItem vs) (ListEnd L)"
    proof (rule chain_remove [OF ch _ _ p_def n_def])
      have "distinct (ListEnd L # map ListItem ?xs)" using dist by (auto simp: distinct_map inj_on_def)
      then show "distinct (ListEnd L # map ListItem us @ ListItem x # map ListItem vs)" by (simp add: xs)
    qed (auto simp: m'_def)
    then show "chain (pxNext m') (pxPrevious m') (ListEnd L)
        (map ListItem (kl_items (klist_remove x (R L)))) (ListEnd L)" by (simp add: l')
    show "distinct (kl_items (klist_remove x (R L)))" using dist by (simp add: l' xs)
    show "kl_index (klist_remove x (R L)) \<le> length (kl_items (klist_remove x (R L)))"
      using k by (auto simp: l' xs)
    show "pxIndex m' L = (ListEnd L # map ListItem (kl_items (klist_remove x (R L)))) ! kl_index (klist_remove x (R L))"
      using idx index_unshift [where k = ?k and us = "map ListItem us" and e = "ListEnd L" and x = "ListItem x"
        and vs = "map ListItem vs"] by (simp add: m'_def l' plast xs nth_append)
    show "uxNumberOfItems m' L = of_nat (length (kl_items (klist_remove x (R L))))"
      using RL by (simp add: m'_def l' list_rep_def xs)
    have "set ?xs = {y. pvContainer m y = Some L}" using RL by (simp add: list_rep_def)
    then have "set us \<union> set vs = {y. pvContainer m y = Some L} - {x}" using fresh by (auto simp: xs)
    then show "set (kl_items (klist_remove x (R L))) = {y. pvContainer m' y = Some L}"
      by (auto simp: l' m'_def)
    show "xItemValue m' (ListEnd L) = portMAX_DELAY" using RL by (simp add: m'_def list_rep_def)
  qed
  moreover have "list_rep m' L' (R L')" if "L' \<noteq> L" for L'
  proof -
    have RL': "list_rep m L' (R L')" using R by (simp add: lists_rep_def)
    have "set ?xs = {y. pvContainer m y = Some L}" "set (kl_items (R L')) = {y. pvContainer m y = Some L'}"
      using RL RL' by (simp_all add: list_rep_def)
    then have disj: "set ?xs \<inter> set (kl_items (R L')) = {}" using that by auto
    have "p \<notin> set (ListEnd L' # map ListItem (kl_items (R L')))"
      "n \<notin> set (map ListItem (kl_items (R L')) @ [ListEnd L'])"
      using disj that last_Cons_cases [of "ListEnd L" "map ListItem us"]
        hd_snoc_cases [of "map ListItem vs" "ListEnd L"]
      by (auto simp: p_def n_def xs)
    moreover have "{y. ((pvContainer m)(x := None)) y = Some L'} = {y. pvContainer m y = Some L'}"
      using x that by auto
    ultimately show ?thesis using RL' that by (simp add: list_rep_def m'_def)
  qed
  ultimately show ?thesis by (auto simp: lists_rep_def m'_def)
qed

lemma next_refines:
  assumes R: "lists_rep m R"
  shows "\<exists>m'. listGET_OWNER_OF_NEXT_ENTRY L m =
      (case fst (klist_next (R L)) of None \<Rightarrow> ListEnd L | Some x \<Rightarrow> ListItem x, m') \<and>
    lists_rep m' (R(L := snd (klist_next (R L))))"
proof -
  let ?xs = "kl_items (R L)" and ?k = "kl_index (R L)"
  have RL: "list_rep m L (R L)" using R by (simp add: lists_rep_def)
  have k: "?k \<le> length ?xs" and idx: "pxIndex m L = (ListEnd L # map ListItem ?xs) ! ?k"
    using RL by (simp_all add: list_rep_def)
  have step: "pxNext m ((ListEnd L # map ListItem ?xs) ! j) =
      (if j < length ?xs then ListItem (?xs ! j) else ListEnd L)" if "j \<le> length ?xs" for j
  proof -
    have "(ListEnd L # map ListItem ?xs) ! j = last (ListEnd L # map ListItem (take j ?xs))"
      using that by (subst last_take_nth) (cases j; simp)+
    then show ?thesis using list_rep_mid(1) [OF RL, of j] by (simp add: hd_drop_nth del: last.simps)
  qed
  have first: "pxNext m (ListEnd L) = (if ?xs = [] then ListEnd L else ListItem (?xs ! 0))"
    using step [of 0] by simp
  obtain j where j: "j = kl_index (snd (klist_next (R L)))" by blast
  have own: "(case fst (klist_next (R L)) of None \<Rightarrow> ListEnd L | Some x \<Rightarrow> ListItem x) =
      (ListEnd L # map ListItem ?xs) ! j" and jl: "j \<le> length ?xs"
    using k by (auto simp: j klist_next_def Let_def Suc_le_eq)
  have "listGET_OWNER_OF_NEXT_ENTRY L m =
      ((ListEnd L # map ListItem ?xs) ! j, m\<lparr>pxIndex := (pxIndex m)(L := (ListEnd L # map ListItem ?xs) ! j)\<rparr>)"
    using step [OF k] first k
    by (auto simp: listGET_OWNER_OF_NEXT_ENTRY_def Let_def idx j klist_next_def)
  moreover have "kl_items (snd (klist_next (R L))) = ?xs" by (auto simp: klist_next_def Let_def)
  ultimately show ?thesis
    using R jl by (auto simp: own lists_rep_def list_rep_def j [symmetric])
qed

lemma initialise_rep:
  assumes "lists_rep m R" and "kl_items (R L) = []"
  shows "lists_rep (vListInitialise L m) (R(L := klist_empty))"
proof -
  have "list_rep (vListInitialise L m) L' ((R(L := klist_empty)) L')" for L'
  proof (cases "L' = L")
    case True
    have "list_rep m L (R L)" using assms(1) by (simp add: lists_rep_def)
    then have "{x. pvContainer m x = Some L} = {}" using assms(2) by (simp add: list_rep_def)
    with True show ?thesis
      by (simp add: list_rep_def vListInitialise_def klist_empty_def Let_def)
  next
    case False
    then have "chain (pxNext (vListInitialise L m)) (pxPrevious (vListInitialise L m)) (ListEnd L')
        (map ListItem (kl_items (R L'))) (ListEnd L') \<longleftrightarrow>
      chain (pxNext m) (pxPrevious m) (ListEnd L') (map ListItem (kl_items (R L'))) (ListEnd L')"
      by (intro chain_cong) (auto simp: vListInitialise_def Let_def)
    with False assms(1) show ?thesis
      by (simp add: lists_rep_def list_rep_def) (simp add: vListInitialise_def Let_def)
  qed
  then show ?thesis by (simp add: lists_rep_def)
qed

text \<open>A single list, initialised over arbitrary cells.\<close>

lemma initialise_one:
  assumes "pvContainer m = (\<lambda>_. None)"
  shows "lists_rep (vListInitialise () m) (\<lambda>_. klist_empty)"
  using assms by (auto simp: lists_rep_def list_rep_def vListInitialise_def klist_empty_def Let_def)

section \<open>Order\<close>

lemma insert_at_takeWhile:
  "insert_at (length (takeWhile P xs)) x xs = takeWhile P xs @ x # dropWhile P xs"
  by (metis append_eq_conv_conj insert_at_def takeWhile_dropWhile_id)

lemma takeWhile_sorted_le:
  "sorted_wrt (\<lambda>x y. val x \<le> (val y :: u32)) xs \<Longrightarrow> takeWhile (\<lambda>y. val y \<le> v) xs = filter (\<lambda>y. val y \<le> v) xs"
proof (induction xs)
  case (Cons a xs)
  show ?case
  proof (cases "val a \<le> v")
    case False
    then have "filter (\<lambda>y. val y \<le> v) xs = []"
      using Cons.prems by (auto simp: filter_empty_conv dest: order_trans)
    with False show ?thesis by simp
  qed (use Cons in auto)
qed simp

lemma dropWhile_sorted_le:
  "sorted_wrt (\<lambda>x y. val x \<le> (val y :: u32)) xs \<Longrightarrow> dropWhile (\<lambda>y. val y \<le> v) xs = filter (\<lambda>y. \<not> val y \<le> v) xs"
proof (induction xs)
  case (Cons a xs)
  show ?case
  proof (cases "val a \<le> v")
    case False
    then have "filter (\<lambda>y. \<not> val y \<le> v) xs = xs"
      using Cons.prems by (auto simp: filter_id_conv dest: order_trans)
    with False show ?thesis by simp
  qed (use Cons in auto)
qed simp

abbreviation klist_sorted :: "('a \<Rightarrow> u32) \<Rightarrow> 'a klist \<Rightarrow> bool" where
  "klist_sorted val l \<equiv> sorted_wrt (\<lambda>x y. val x \<le> val y) (kl_items l)"

lemma klist_insert_items:
  assumes "klist_sorted val l"
  shows "kl_items (klist_insert val x l) =
    filter (\<lambda>y. val y \<le> val x) (kl_items l) @ x # filter (\<lambda>y. \<not> val y \<le> val x) (kl_items l)"
proof (cases "val x = portMAX_DELAY")
  case True
  have "y \<le> portMAX_DELAY" for y :: u32 using u32_max [of y] by (cases "y = portMAX_DELAY") simp_all
  with True show ?thesis by (simp add: klist_insert_def Let_def insert_pos_def insert_at_def)
next
  case False
  then show ?thesis
    by (simp add: klist_insert_def Let_def insert_pos_def insert_at_takeWhile)
      (simp add: takeWhile_sorted_le [OF assms] dropWhile_sorted_le [OF assms])
qed

lemma klist_insert_sorted:
  assumes "klist_sorted val l"
  shows "klist_sorted val (klist_insert val x l)"
  unfolding klist_insert_items [OF assms]
  using sorted_wrt_filter [OF assms] by (auto simp: sorted_wrt_append)

lemma set_klist_insert [simp]: "set (kl_items (klist_insert val x l)) = insert x (set (kl_items l))"
  by (simp add: klist_insert_def Let_def)

lemma set_klist_insert_end [simp]: "set (kl_items (klist_insert_end x l)) = insert x (set (kl_items l))"
  by (auto simp: klist_insert_end_def)

lemma kl_items_remove [simp]: "kl_items (klist_remove x l) = remove1 x (kl_items l)"
  by (simp add: klist_remove_def Let_def)

lemma kl_items_next [simp]: "kl_items (snd (klist_next l)) = kl_items l"
  by (simp add: klist_next_def Let_def)

lemma klist_remove_sorted: "klist_sorted val l \<Longrightarrow> klist_sorted val (klist_remove x l)"
proof -
  have "sorted_wrt P ys \<Longrightarrow> sorted_wrt P (remove1 x ys)" for P ys
    by (induction ys) (auto dest: notin_set_remove1 intro: ccontr)
  then show "klist_sorted val l \<Longrightarrow> ?thesis" by simp
qed

text \<open>Round robin: \<open>n\<close> steps from any index.\<close>

fun klist_nexts :: "nat \<Rightarrow> 'a klist \<Rightarrow> 'a option list" where
  "klist_nexts 0 l = []"
| "klist_nexts (Suc n) l = (let (x, l') = klist_next l in x # klist_nexts n l')"

lemma klist_nexts_nth:
  assumes "kl_items l \<noteq> []" and "kl_index l \<le> length (kl_items l)" and "i < n"
  shows "klist_nexts n l ! i = Some (kl_items l ! ((kl_index l + i) mod length (kl_items l)))"
  using assms
proof (induction n arbitrary: l i)
  case (Suc n)
  let ?n = "length (kl_items l)"
  define l' where "l' = snd (klist_next l)"
  have l': "klist_next l = (Some (kl_items l ! (kl_index l mod ?n)), l')"
    and items: "kl_items l' = kl_items l" and k': "kl_index l' = Suc (kl_index l mod ?n)"
    using Suc.prems(1,2) by (cases "kl_index l < ?n"; simp add: klist_next_def Let_def l'_def)+
  have le: "kl_index l' \<le> ?n" using Suc.prems(1) by (simp add: k' Suc_le_eq)
  show ?case
  proof (cases i)
    case (Suc j)
    have "(Suc (kl_index l mod ?n) + j) mod ?n = (kl_index l + Suc j) mod ?n"
      by (metis add_Suc add_Suc_right mod_Suc_eq mod_add_left_eq)
    then show ?thesis
      using Suc.IH [of l' j] Suc.prems le Suc l' by (simp add: items k')
  qed (simp add: l')
qed simp

section \<open>Properties\<close>

text \<open>Cells of one list over items \<open>0, 1, ...\<close>, whose values are the items themselves.\<close>

definition sample_cells :: "(unit, nat) lmem" where
  "sample_cells = vListInitialise ()
    \<lparr>pxNext = (\<lambda>_. ListItem 7), pxPrevious = (\<lambda>_. ListItem 7),
     xItemValue = (\<lambda>r. case r of ListItem y \<Rightarrow> of_nat y | _ \<Rightarrow> 3), pvContainer = (\<lambda>_. None),
     pxIndex = (\<lambda>_. ListItem 7), uxNumberOfItems = (\<lambda>_. 9)\<rparr>"

lemma sample_cells_simps [simp]:
  "pvContainer sample_cells = (\<lambda>_. None)" "xItemValue sample_cells (ListItem y) = of_nat y"
  by (simp_all add: sample_cells_def vListInitialise_def Let_def)

lemma sample_cells_rep: "lists_rep sample_cells (\<lambda>_. klist_empty)"
  unfolding sample_cells_def by (rule initialise_one) simp

lemma sample_cells_one: "lists_rep (vListInsertEnd () 5 sample_cells) (\<lambda>_. \<lparr>kl_items = [5], kl_index = 0\<rparr>)"
proof -
  have "lists_rep (vListInsertEnd () 5 sample_cells)
      ((\<lambda>_. klist_empty)(() := klist_insert_end 5 klist_empty))"
    by (rule insert_end_refines [OF sample_cells_rep]) simp
  then show ?thesis by (simp add: klist_insert_end_def klist_empty_def fun_upd_def)
qed

lemma sample_cells_one_simps [simp]:
  "pvContainer (vListInsertEnd () 5 sample_cells) = (\<lambda>_. None)(5 := Some ())"
  "xItemValue (vListInsertEnd () 5 sample_cells) (ListItem y) = of_nat y"
  by (simp_all add: vListInsertEnd_def Let_def)

text \<open>
  \<^bold>\<open>C11\<close>. Ordered insertion. Run on cells that hold a list sorted by value, for an item that is in no
  list, \<open>vListInsert\<close> returns (its search loop ends at the marker at the latest) and leaves cells
  that hold the same list with the new item behind every item of a value at most its own and before
  every larger one, so the list stays sorted and items of equal value keep their order of insertion.
  The cells of every other list hold what they held.
\<close>

theorem vListInsert_ordered:
  fixes m :: "('l, 'a) lmem"
  assumes R: "lists_rep m R" and x: "pvContainer m x = None"
    and sorted: "klist_sorted (\<lambda>y. xItemValue m (ListItem y)) (R L)"
  shows "\<exists>m' l'. vListInsert L x m = Some m' \<and> lists_rep m' (R(L := l')) \<and>
    kl_items l' = filter (\<lambda>y. xItemValue m (ListItem y) \<le> xItemValue m (ListItem x)) (kl_items (R L)) @
      x # filter (\<lambda>y. \<not> xItemValue m (ListItem y) \<le> xItemValue m (ListItem x)) (kl_items (R L)) \<and>
    klist_sorted (\<lambda>y. xItemValue m (ListItem y)) l'"
  using insert_refines [OF R x, of L] klist_insert_items [OF sorted] klist_insert_sorted [OF sorted]
  by blast

theorem vListInsert_ordered_witness:
  "\<exists>m' l'. vListInsert () 2 (vListInsertEnd () 5 sample_cells) = Some m' \<and>
    lists_rep m' (\<lambda>_. l') \<and> kl_items l' = [2, 5]"
  using vListInsert_ordered [OF sample_cells_one, of 2 "()"] by (auto simp: fun_upd_def)

text \<open>
  Removal. For an item that is in list \<open>L\<close>, \<open>uxListRemove\<close> returns the number of items that
  remain; the cells then hold \<open>L\<close> without the item, its other items in their order, the walking
  index stepped back if it stood on or behind the removed item, and every other list unchanged; the
  item itself is in no list.
\<close>

theorem uxListRemove_refines:
  fixes m :: "('l, 'a) lmem"
  assumes "lists_rep m R" and "pvContainer m x = Some L"
  shows "\<exists>m'. uxListRemove x m = Some (of_nat (length (kl_items (R L)) - 1), m') \<and>
    lists_rep m' (R(L := klist_remove x (R L))) \<and> kl_items (klist_remove x (R L)) = remove1 x (kl_items (R L)) \<and>
    pvContainer m' x = None \<and> xItemValue m' = xItemValue m"
  using remove_refines [OF assms] by auto

theorem uxListRemove_refines_witness:
  "\<exists>m'. uxListRemove 5 (vListInsertEnd () 5 sample_cells) = Some (0, m') \<and>
    lists_rep m' (\<lambda>_. klist_empty) \<and> pvContainer m' 5 = None"
  using uxListRemove_refines [OF sample_cells_one, of 5 "()"]
  by (auto simp: fun_upd_def klist_remove_def klist_empty_def)

text \<open>The owners \<open>n\<close> calls of \<open>listGET_OWNER_OF_NEXT_ENTRY\<close> yield.\<close>

fun next_owners :: "nat \<Rightarrow> 'l \<Rightarrow> ('l, 'a) lmem \<Rightarrow> ('l, 'a) nref list" where
  "next_owners 0 L m = []"
| "next_owners (Suc n) L m = (let (r, m') = listGET_OWNER_OF_NEXT_ENTRY L m in r # next_owners n L m')"

lemma next_owners_klist:
  assumes "lists_rep m R"
  shows "next_owners n L m =
    map (\<lambda>a. case a of None \<Rightarrow> ListEnd L | Some x \<Rightarrow> ListItem x) (klist_nexts n (R L))"
  using assms
proof (induction n arbitrary: m R)
  case (Suc n)
  from next_refines [OF Suc.prems, of L] obtain m' where
    "listGET_OWNER_OF_NEXT_ENTRY L m =
      (case fst (klist_next (R L)) of None \<Rightarrow> ListEnd L | Some x \<Rightarrow> ListItem x, m')"
    and "lists_rep m' (R(L := snd (klist_next (R L))))" by blast
  with Suc.IH [of m' "R(L := snd (klist_next (R L)))"] show ?case
    by (cases "klist_next (R L)") (simp add: fun_upd_same del: fun_upd_apply)
qed simp

text \<open>
  Round robin. Repeated calls of \<open>listGET_OWNER_OF_NEXT_ENTRY\<close>, the macro the scheduler picks the
  next ready task with, go through the list's items in order from the walking index on, cyclically:
  among any number of consecutive calls equal to the list's length each item comes up exactly once.
\<close>

theorem listGET_OWNER_round_robin:
  fixes m :: "('l, 'a) lmem"
  assumes "lists_rep m R" and "kl_items (R L) \<noteq> []" and "i < n"
  shows "next_owners n L m ! i =
    ListItem (kl_items (R L) ! ((kl_index (R L) + i) mod length (kl_items (R L))))"
proof -
  have le: "kl_index (R L) \<le> length (kl_items (R L))" using assms(1) by (auto simp: lists_rep_def list_rep_def)
  have "length (klist_nexts n l) = n" for l :: "'a klist"
    by (induction n arbitrary: l) (simp_all add: Let_def split: prod.split)
  then show ?thesis
    using assms(3) klist_nexts_nth [OF assms(2) le assms(3)] by (simp add: next_owners_klist [OF assms(1)])
qed

theorem listGET_OWNER_round_robin_witness:
  "next_owners 3 () (vListInsertEnd () 5 sample_cells) ! 2 = ListItem 5"
  using listGET_OWNER_round_robin [OF sample_cells_one, where L = "()" and i = 2 and n = 3] by simp

end
