(* ===== verification/Heap4.thy ===== *)
theory Heap4 imports Prelude begin

text \<open>
  The kernel's allocator (\<open>freertos/src/heap_4.c\<close>): first fit over an address-ordered list of free
  blocks with coalescing. Addresses and sizes are 32-bit words and every pointer expression of the
  source is written out; block headers (\<open>BlockLink_t\<close>) are two maps from a block's address to its
  \<open>pxNextFreeBlock\<close> and \<open>xBlockSize\<close>. The addresses the linker chooses for \<open>xStart\<close> and
  \<open>ucHeap\<close> are fields of the state that no operation changes.

  The lemmas refine the pointer code to operations on the list of free segments \<open>(address, size)\<close>
  in natural numbers, and give the allocator's contract: the free list and the live blocks tile the
  heap exactly, neighbouring free blocks are merged, live blocks are disjoint and aligned, and the
  byte counters are exact.

  \<open>vTaskSuspendAll\<close> and \<open>xTaskResumeAll\<close>, which bracket the bodies here, act on the scheduler's
  state only; the theory of the kernel composes them.
\<close>

section \<open>State\<close>

abbreviation (input) "configTOTAL_HEAP_SIZE \<equiv> (32768 :: u32)"
abbreviation (input) "portBYTE_ALIGNMENT \<equiv> (8 :: u32)"
abbreviation (input) "portBYTE_ALIGNMENT_MASK \<equiv> (7 :: u32)"
abbreviation (input) "sizeof_BlockLink_t \<equiv> (8 :: u32)"

definition xHeapStructSize :: u32 where
  "xHeapStructSize = (sizeof_BlockLink_t + (portBYTE_ALIGNMENT - 1)) AND NOT portBYTE_ALIGNMENT_MASK"

definition heapMINIMUM_BLOCK_SIZE :: u32 where
  "heapMINIMUM_BLOCK_SIZE = push_bit 1 xHeapStructSize"

record heap4 =
  pxNextFreeBlock :: "u32 \<Rightarrow> u32"
  xBlockSize :: "u32 \<Rightarrow> u32"
  xStart :: u32
  ucHeap :: u32
  pxEnd :: u32
  xFreeBytesRemaining :: u32
  xMinimumEverFreeBytesRemaining :: u32
  xBlockAllocatedBit :: u32

abbreviation set_next :: "u32 \<Rightarrow> u32 \<Rightarrow> heap4 \<Rightarrow> heap4" where
  "set_next p v h \<equiv> h\<lparr>pxNextFreeBlock := (pxNextFreeBlock h)(p := v)\<rparr>"

abbreviation set_size :: "u32 \<Rightarrow> u32 \<Rightarrow> heap4 \<Rightarrow> heap4" where
  "set_size p v h \<equiv> h\<lparr>xBlockSize := (xBlockSize h)(p := v)\<rparr>"

section \<open>Operations\<close>

definition prvHeapInit :: "heap4 \<Rightarrow> heap4" where
  "prvHeapInit h =
    (let xTotalHeapSize = configTOTAL_HEAP_SIZE;
         uxAddress = ucHeap h;
         (uxAddress, xTotalHeapSize) =
           (if uxAddress AND portBYTE_ALIGNMENT_MASK \<noteq> 0
            then (let a = (uxAddress + (portBYTE_ALIGNMENT - 1)) AND NOT portBYTE_ALIGNMENT_MASK
                  in (a, xTotalHeapSize - (a - ucHeap h)))
            else (uxAddress, xTotalHeapSize));
         pucAlignedHeap = uxAddress;
         h = set_next (xStart h) pucAlignedHeap h;
         h = set_size (xStart h) 0 h;
         uxAddress = pucAlignedHeap + xTotalHeapSize;
         uxAddress = uxAddress - xHeapStructSize;
         uxAddress = uxAddress AND NOT portBYTE_ALIGNMENT_MASK;
         h = h\<lparr>pxEnd := uxAddress\<rparr>;
         h = set_size (pxEnd h) 0 h;
         h = set_next (pxEnd h) 0 h;
         pxFirstFreeBlock = pucAlignedHeap;
         h = set_size pxFirstFreeBlock (uxAddress - pxFirstFreeBlock) h;
         h = set_next pxFirstFreeBlock (pxEnd h) h;
         h = h\<lparr>xMinimumEverFreeBytesRemaining := xBlockSize h pxFirstFreeBlock\<rparr>;
         h = h\<lparr>xFreeBytesRemaining := xBlockSize h pxFirstFreeBlock\<rparr>;
         h = h\<lparr>xBlockAllocatedBit := push_bit (4 * 8 - 1) 1\<rparr>
     in h)"

text \<open>The two walks over the free list end only if the list is well formed: options.\<close>

partial_function (option) free_list_iter :: "(u32 \<Rightarrow> u32) \<Rightarrow> u32 \<Rightarrow> u32 \<Rightarrow> u32 option" where
  "free_list_iter nx pxBlockToInsert pxIterator =
    (if nx pxIterator < pxBlockToInsert then free_list_iter nx pxBlockToInsert (nx pxIterator)
     else Some pxIterator)"

definition prvInsertBlockIntoFreeList :: "u32 \<Rightarrow> heap4 \<Rightarrow> heap4 option" where
  "prvInsertBlockIntoFreeList pxBlockToInsert h =
    (case free_list_iter (pxNextFreeBlock h) pxBlockToInsert (xStart h) of
       None \<Rightarrow> None
     | Some pxIterator \<Rightarrow>
        (let (h, pxBlockToInsert) =
               (if pxIterator + xBlockSize h pxIterator = pxBlockToInsert
                then (set_size pxIterator (xBlockSize h pxIterator + xBlockSize h pxBlockToInsert) h, pxIterator)
                else (h, pxBlockToInsert));
             h = (if pxBlockToInsert + xBlockSize h pxBlockToInsert = pxNextFreeBlock h pxIterator
                  then (if pxNextFreeBlock h pxIterator \<noteq> pxEnd h
                        then (let h = set_size pxBlockToInsert (xBlockSize h pxBlockToInsert +
                                    xBlockSize h (pxNextFreeBlock h pxIterator)) h
                              in set_next pxBlockToInsert (pxNextFreeBlock h (pxNextFreeBlock h pxIterator)) h)
                        else set_next pxBlockToInsert (pxEnd h) h)
                  else set_next pxBlockToInsert (pxNextFreeBlock h pxIterator) h);
             h = (if pxIterator \<noteq> pxBlockToInsert then set_next pxIterator pxBlockToInsert h else h)
         in Some h))"

partial_function (option) malloc_search ::
  "(u32 \<Rightarrow> u32) \<Rightarrow> (u32 \<Rightarrow> u32) \<Rightarrow> u32 \<Rightarrow> u32 \<Rightarrow> u32 \<Rightarrow> (u32 \<times> u32) option" where
  "malloc_search nx sz xWantedSize pxPreviousBlock pxBlock =
    (if sz pxBlock < xWantedSize \<and> nx pxBlock \<noteq> 0
     then malloc_search nx sz xWantedSize pxBlock (nx pxBlock)
     else Some (pxPreviousBlock, pxBlock))"

text \<open>The size with the header, rounded up to the alignment.\<close>

definition malloc_size :: "u32 \<Rightarrow> u32" where
  "malloc_size xWantedSize =
    (if xWantedSize > 0
     then (let xWantedSize = xWantedSize + xHeapStructSize
           in if xWantedSize AND portBYTE_ALIGNMENT_MASK \<noteq> 0
              then xWantedSize + (portBYTE_ALIGNMENT - (xWantedSize AND portBYTE_ALIGNMENT_MASK))
              else xWantedSize)
     else xWantedSize)"

text \<open>The part of \<open>pvPortMalloc\<close> once a block was found.\<close>

definition malloc_take :: "u32 \<Rightarrow> u32 \<Rightarrow> u32 \<Rightarrow> heap4 \<Rightarrow> (u32 \<times> heap4) option" where
  "malloc_take xWantedSize pxPreviousBlock pxBlock h =
    (let pvReturn = pxNextFreeBlock h pxPreviousBlock + xHeapStructSize;
         h = set_next pxPreviousBlock (pxNextFreeBlock h pxBlock) h
     in case (if xBlockSize h pxBlock - xWantedSize > heapMINIMUM_BLOCK_SIZE
              then (let pxNewBlockLink = pxBlock + xWantedSize;
                        h = set_size pxNewBlockLink (xBlockSize h pxBlock - xWantedSize) h;
                        h = set_size pxBlock xWantedSize h
                    in prvInsertBlockIntoFreeList pxNewBlockLink h)
              else Some h) of
          None \<Rightarrow> None
        | Some h \<Rightarrow>
           (let h = h\<lparr>xFreeBytesRemaining := xFreeBytesRemaining h - xBlockSize h pxBlock\<rparr>;
                h = (if xFreeBytesRemaining h < xMinimumEverFreeBytesRemaining h
                     then h\<lparr>xMinimumEverFreeBytesRemaining := xFreeBytesRemaining h\<rparr> else h);
                h = set_size pxBlock (xBlockSize h pxBlock OR xBlockAllocatedBit h) h;
                h = set_next pxBlock 0 h
            in Some (pvReturn, h)))"

definition pvPortMalloc_body :: "u32 \<Rightarrow> heap4 \<Rightarrow> (u32 \<times> heap4) option" where
  "pvPortMalloc_body xWantedSize h =
    (let h = (if pxEnd h = 0 then prvHeapInit h else h)
     in if xWantedSize AND xBlockAllocatedBit h = 0
        then (let xWantedSize = malloc_size xWantedSize
              in if xWantedSize > 0 \<and> xWantedSize \<le> xFreeBytesRemaining h
                 then (case malloc_search (pxNextFreeBlock h) (xBlockSize h) xWantedSize (xStart h)
                              (pxNextFreeBlock h (xStart h)) of
                         None \<Rightarrow> None
                       | Some (pxPreviousBlock, pxBlock) \<Rightarrow>
                           (if pxBlock \<noteq> pxEnd h then malloc_take xWantedSize pxPreviousBlock pxBlock h
                            else Some (0, h)))
                 else Some (0, h))
        else Some (0, h))"

text \<open>What \<open>vPortFree\<close> does before its critical section, and in it.\<close>

definition vPortFree_claims :: "u32 \<Rightarrow> heap4 \<Rightarrow> bool" where
  "vPortFree_claims pv h \<longleftrightarrow> pv \<noteq> 0 \<and>
    xBlockSize h (pv - xHeapStructSize) AND xBlockAllocatedBit h \<noteq> 0 \<and>
    pxNextFreeBlock h (pv - xHeapStructSize) = 0"

definition vPortFree_body :: "u32 \<Rightarrow> heap4 \<Rightarrow> heap4 option" where
  "vPortFree_body pv h =
    (if vPortFree_claims pv h
     then (let pxLink = pv - xHeapStructSize;
               h = set_size pxLink (xBlockSize h pxLink AND NOT (xBlockAllocatedBit h)) h;
               h = h\<lparr>xFreeBytesRemaining := xFreeBytesRemaining h + xBlockSize h pxLink\<rparr>
           in prvInsertBlockIntoFreeList pxLink h)
     else Some h)"

definition xPortGetFreeHeapSize :: "heap4 \<Rightarrow> u32" where
  "xPortGetFreeHeapSize h = xFreeBytesRemaining h"

definition xPortGetMinimumEverFreeHeapSize :: "heap4 \<Rightarrow> u32" where
  "xPortGetMinimumEverFreeHeapSize h = xMinimumEverFreeBytesRemaining h"

lemma xHeapStructSize_eq [simp]: "xHeapStructSize = 8"
  by (simp add: xHeapStructSize_def)

lemma heapMINIMUM_BLOCK_SIZE_eq [simp]: "heapMINIMUM_BLOCK_SIZE = 16"
  by (simp add: heapMINIMUM_BLOCK_SIZE_def)

section \<open>Word arithmetic below the top\<close>

lemma w32_eq [simp]: "a < 2 ^ 32 \<Longrightarrow> b < 2 ^ 32 \<Longrightarrow> (of_nat a :: u32) = of_nat b \<longleftrightarrow> a = b"
  by (simp add: word_of_nat_eq_iff take_bit_nat_eq_self)

lemma w32_less [simp]: "a < 2 ^ 32 \<Longrightarrow> b < 2 ^ 32 \<Longrightarrow> (of_nat a :: u32) < of_nat b \<longleftrightarrow> a < b"
  by (simp add: of_nat_word_less_iff take_bit_nat_eq_self)

lemma w32_le [simp]: "a < 2 ^ 32 \<Longrightarrow> b < 2 ^ 32 \<Longrightarrow> (of_nat a :: u32) \<le> of_nat b \<longleftrightarrow> a \<le> b"
  by (simp add: of_nat_word_less_eq_iff take_bit_nat_eq_self)

lemma w32_unat [simp]: "a < 2 ^ 32 \<Longrightarrow> unat (of_nat a :: u32) = a"
  by (simp add: unat_of_nat take_bit_nat_eq_self)

lemma w32_zero [simp]: "a < 2 ^ 32 \<Longrightarrow> (of_nat a :: u32) = 0 \<longleftrightarrow> a = 0"
  using w32_eq [of a 0] by simp

lemma unat_and_7: "unat ((x :: u32) AND 7) = unat x mod 8"
proof -
  have "x AND 7 = take_bit 3 x" by (simp add: take_bit_eq_mask mask_eq_exp_minus_1)
  then have "unat (x AND 7) = take_bit 3 (unat x)" by (simp only: unsigned_take_bit_eq)
  then show ?thesis by (simp add: take_bit_eq_mod)
qed

lemma unat_and_not_7: "unat ((x :: u32) AND NOT 7) = unat x - unat x mod 8"
proof -
  have "(x AND NOT 7) + (x AND 7) = x"
    by (subst disjunctive_add) (auto simp: bit_simps and.commute intro!: bit_word_eqI)
  then have "x AND NOT 7 = x - (x AND 7)" by (metis add_diff_cancel_right')
  moreover have "x AND 7 \<le> x" by (simp add: word_le_nat_alt unat_and_7)
  ultimately show ?thesis by (simp add: unat_sub unat_and_7)
qed

section \<open>Free segments\<close>

type_synonym seg = "nat \<times> nat"

abbreviation seg_end :: "seg \<Rightarrow> nat" where "seg_end x \<equiv> fst x + snd x"

text \<open>Segments in address order with a gap between neighbours, aligned, between \<open>lo\<close> and \<open>hi\<close>.\<close>

definition segs_ok :: "nat \<Rightarrow> nat \<Rightarrow> seg list \<Rightarrow> bool" where
  "segs_ok lo hi fl \<longleftrightarrow> sorted_wrt (\<lambda>x y. seg_end x < fst y) fl \<and>
    (\<forall>x\<in>set fl. lo \<le> fst x \<and> 0 < snd x \<and> seg_end x \<le> hi \<and> 8 dvd fst x \<and> 8 dvd snd x)"

definition cover :: "seg list \<Rightarrow> nat set" where
  "cover fl = (\<Union>x\<in>set fl. {fst x ..< seg_end x})"

abbreviation seg_total :: "seg list \<Rightarrow> nat" where "seg_total fl \<equiv> sum_list (map snd fl)"

text \<open>The path of free blocks from the cell \<open>a\<close> to the pointer \<open>z\<close>.\<close>

fun fpath :: "(u32 \<Rightarrow> u32) \<Rightarrow> (u32 \<Rightarrow> u32) \<Rightarrow> u32 \<Rightarrow> seg list \<Rightarrow> u32 \<Rightarrow> bool" where
  "fpath nx sz a [] z \<longleftrightarrow> nx a = z"
| "fpath nx sz a ((b, s) # fl) z \<longleftrightarrow> nx a = of_nat b \<and> sz (of_nat b) = of_nat s \<and> fpath nx sz (of_nat b) fl z"

abbreviation nodes :: "seg list \<Rightarrow> u32 list" where "nodes fl \<equiv> map (\<lambda>x. of_nat (fst x)) fl"

abbreviation lastnode :: "u32 \<Rightarrow> seg list \<Rightarrow> u32" where "lastnode a fl \<equiv> last (a # nodes fl)"

abbreviation firstnode :: "seg list \<Rightarrow> u32 \<Rightarrow> u32" where "firstnode fl z \<equiv> hd (nodes fl @ [z])"

lemma fpath_append:
  "fpath nx sz a (us @ vs) z \<longleftrightarrow> fpath nx sz a us (firstnode vs z) \<and> fpath nx sz (lastnode a us) vs z"
  by (induction us arbitrary: a) (cases vs; auto)+

lemma fpath_cong:
  "(\<And>r. r \<in> set (a # nodes fl) \<Longrightarrow> nx r = nx' r) \<Longrightarrow> (\<And>r. r \<in> set (nodes fl) \<Longrightarrow> sz r = sz' r) \<Longrightarrow>
    fpath nx sz a fl z \<longleftrightarrow> fpath nx' sz' a fl z"
  by (induction fl arbitrary: a) auto

lemma fpath_next_upd [simp]: "p \<notin> set (a # nodes fl) \<Longrightarrow> fpath (nx(p := v)) sz a fl z = fpath nx sz a fl z"
  by (rule fpath_cong) auto

lemma fpath_size_upd [simp]: "p \<notin> set (nodes fl) \<Longrightarrow> fpath nx (sz(p := v)) a fl z = fpath nx sz a fl z"
  by (rule fpath_cong) auto

text \<open>Redirecting the last cell.\<close>

lemma fpath_last_upd:
  "fpath nx sz a us z \<Longrightarrow> distinct (a # nodes us) \<Longrightarrow> fpath (nx(lastnode a us := y)) sz a us y"
proof (induction us arbitrary: a)
  case (Cons u us)
  then have "a \<noteq> lastnode (of_nat (fst u)) us"
    by (metis distinct.simps(2) last_in_set list.distinct(1) list.simps(9))
  with Cons show ?case by (cases u) auto
qed simp

lemma fpath_lastD: "fpath nx sz a us z \<Longrightarrow> nx (lastnode a us) = z"
  by (induction us arbitrary: a) auto

lemma free_list_iter_path:
  assumes "fpath nx sz a (us @ vs) z" and "\<forall>x\<in>set us. of_nat (fst x) < b" and "\<not> firstnode vs z < b"
  shows "free_list_iter nx b a = Some (lastnode a us)"
  using assms
proof (induction us arbitrary: a)
  case Nil
  then have "\<not> nx a < b" by (cases vs) auto
  then show ?case by (subst free_list_iter.simps) simp
next
  case (Cons u us)
  then have "free_list_iter nx b (of_nat (fst u)) = Some (lastnode (of_nat (fst u)) us)"
    and "nx a = of_nat (fst u)" by (cases u; auto)+
  with Cons.prems show ?case by (subst free_list_iter.simps) simp
qed

lemma malloc_search_path:
  assumes "fpath nx sz a (us @ (b, s) # vs) z" and "\<forall>x\<in>set us. of_nat (snd x) < w"
    and "\<not> of_nat s < w" and "z \<noteq> 0" and "\<forall>x\<in>set vs. of_nat (fst x) \<noteq> (0 :: u32)"
    "of_nat b \<noteq> (0 :: u32)" "\<forall>x\<in>set us. of_nat (fst x) \<noteq> (0 :: u32)"
  shows "malloc_search nx sz w a (nx a) = Some (lastnode a us, of_nat b)"
  using assms
proof (induction us arbitrary: a)
  case Nil
  then show ?case by (subst malloc_search.simps) simp
next
  case (Cons u us)
  obtain c t where u: "u = (c, t)" by force
  from Cons u have IH: "malloc_search nx sz w (of_nat c) (nx (of_nat c)) = Some (lastnode (of_nat c) us, of_nat b)"
    and c: "nx a = of_nat c" "sz (of_nat c) = of_nat t" by auto
  have "nx (of_nat c) \<noteq> 0" using Cons.prems u by (cases us) auto
  then show ?case using Cons.prems u by (subst malloc_search.simps) (simp add: c IH)
qed

lemma malloc_search_fail:
  assumes "fpath nx sz a fl z" and "\<forall>x\<in>set fl. of_nat (snd x) < w" and "z \<noteq> 0" and "nx z = 0"
    and "\<forall>x\<in>set fl. of_nat (fst x) \<noteq> (0 :: u32)"
  shows "\<exists>p. malloc_search nx sz w a (nx a) = Some (p, z)"
  using assms
proof (induction fl arbitrary: a)
  case Nil
  then show ?case by (subst malloc_search.simps) simp
next
  case (Cons u us)
  obtain c t where u: "u = (c, t)" by force
  from Cons u obtain p where IH: "malloc_search nx sz w (of_nat c) (nx (of_nat c)) = Some (p, z)"
    and c: "nx a = of_nat c" "sz (of_nat c) = of_nat t" by simp blast
  have "nx (of_nat c) \<noteq> 0" using Cons.prems u by (cases us) auto
  then show ?case using Cons.prems u by (subst malloc_search.simps) (simp add: c IH)
qed

text \<open>Insertion between \<open>us\<close> and \<open>vs\<close>, merged with the neighbours it touches.\<close>

definition seg_insert :: "seg \<Rightarrow> seg list \<Rightarrow> seg list \<Rightarrow> seg list" where
  "seg_insert x us vs =
    (let (us, x) = (if us \<noteq> [] \<and> seg_end (last us) = fst x
                    then (butlast us, (fst (last us), snd (last us) + snd x)) else (us, x));
         (x, vs) = (if vs \<noteq> [] \<and> seg_end x = fst (hd vs)
                    then ((fst x, snd x + snd (hd vs)), tl vs) else (x, vs))
     in us @ x # vs)"

lemma fpath_head: "fpath nx sz y vs z \<Longrightarrow> nx y' = nx y \<Longrightarrow> fpath nx sz y' vs z"
  by (cases vs) auto

lemma fpath_firstD: "fpath nx sz y vs z \<Longrightarrow> nx y = firstnode vs z"
  by (cases vs) auto

lemma fpath_join:
  assumes us: "fpath nx sz a us z" and vs: "fpath nx sz y vs e"
    and d: "distinct (a # of_nat c # nodes us @ nodes vs)"
  shows "fpath (nx(of_nat c := firstnode vs e, lastnode a us := of_nat c)) (sz(of_nat c := of_nat u)) a
    (us @ (c, u) # vs) e"
proof -
  let ?nx = "nx(of_nat c := firstnode vs e, lastnode a us := of_nat c)" and ?sz = "sz(of_nat c := of_nat u)"
  have l: "lastnode a us \<in> set (a # nodes us)" by (metis last_in_set list.distinct(1))
  have "fpath (nx(of_nat c := firstnode vs e)) ?sz a us z"
    using us by (subst fpath_next_upd, use d in force) (subst fpath_size_upd, use d in auto)
  then have 1: "fpath ?nx ?sz a us (of_nat c)" by (rule fpath_last_upd) (use d in auto)
  have "fpath (nx(of_nat c := firstnode vs e)) ?sz (of_nat c) vs e"
  proof (cases vs)
    case (Cons v ws)
    then show ?thesis using vs d by (cases v) auto
  qed simp
  moreover have "set (a # nodes us) \<inter> set (of_nat c # nodes vs) = {}" using d by auto
  then have "lastnode a us \<notin> set (of_nat c # nodes vs)" using l by blast
  ultimately have 2: "fpath ?nx ?sz (of_nat c) vs e" by (rule fpath_next_upd [THEN iffD2, rotated])
  have "?sz (of_nat c) = of_nat u" by simp
  moreover have "?nx (lastnode a us) = of_nat c" by simp
  ultimately show ?thesis
    unfolding fpath_append using 1 2 by simp
qed

text \<open>What \<open>prvInsertBlockIntoFreeList\<close> computes between two given runs of free blocks: once the
  block is joined with its predecessor, and then with its successor.\<close>

definition insert_tail :: "u32 \<Rightarrow> u32 \<Rightarrow> heap4 \<Rightarrow> heap4" where
  "insert_tail pxIterator pxBlockToInsert h =
    (let h = (if pxBlockToInsert + xBlockSize h pxBlockToInsert = pxNextFreeBlock h pxIterator
              then (if pxNextFreeBlock h pxIterator \<noteq> pxEnd h
                    then (let h = set_size pxBlockToInsert (xBlockSize h pxBlockToInsert +
                                xBlockSize h (pxNextFreeBlock h pxIterator)) h
                          in set_next pxBlockToInsert (pxNextFreeBlock h (pxNextFreeBlock h pxIterator)) h)
                    else set_next pxBlockToInsert (pxEnd h) h)
              else set_next pxBlockToInsert (pxNextFreeBlock h pxIterator) h)
     in if pxIterator \<noteq> pxBlockToInsert then set_next pxIterator pxBlockToInsert h else h)"

lemma prvInsert_split:
  assumes "free_list_iter (pxNextFreeBlock h) b (xStart h) = Some it"
  shows "prvInsertBlockIntoFreeList b h = Some
    (if it + xBlockSize h it = b then insert_tail it it (set_size it (xBlockSize h it + xBlockSize h b) h)
     else insert_tail it b h)"
  by (simp add: prvInsertBlockIntoFreeList_def assms insert_tail_def Let_def)

definition merge_vs :: "seg \<Rightarrow> seg list \<Rightarrow> seg \<times> seg list" where
  "merge_vs x vs = (if vs \<noteq> [] \<and> seg_end x = fst (hd vs)
     then ((fst x, snd x + snd (hd vs)), tl vs) else (x, vs))"

lemma insert_tail_path:
  assumes n: "fpath (pxNextFreeBlock h) (xBlockSize h) it vs (pxEnd h)" and it: "it = p \<or> it = of_nat c"
    and szc: "xBlockSize h (of_nat c) = of_nat u"
    and bnd: "\<forall>x\<in>set vs. seg_end x < 2 ^ 32" "c + u < 2 ^ 32"
    and d: "distinct (p # of_nat c # nodes vs @ [pxEnd h])"
    and p: "it = of_nat c \<Longrightarrow> pxNextFreeBlock h p = of_nat c"
    and m: "merge_vs (c, u) vs = ((c, u'), vs')"
  shows "insert_tail it (of_nat c) h = h\<lparr>
      pxNextFreeBlock := (pxNextFreeBlock h)(of_nat c := firstnode vs' (pxEnd h), p := of_nat c),
      xBlockSize := (xBlockSize h)(of_nat c := of_nat u')\<rparr>"
proof -
  have pc: "(pxNextFreeBlock h)(of_nat c := v, p := of_nat c) = (pxNextFreeBlock h)(of_nat c := v)"
    if "it = of_nat c" for v
    using p [OF that] d by (auto simp: fun_eq_iff)
  show ?thesis
  proof (cases "vs \<noteq> [] \<and> c + u = fst (hd vs)")
    case True
    then obtain w ws where vs: "vs = (c + u, w) # ws" by (cases vs) auto
    then have "pxNextFreeBlock h it = of_nat (c + u)" "xBlockSize h (of_nat (c + u)) = of_nat w"
      "pxNextFreeBlock h (of_nat (c + u)) = firstnode ws (pxEnd h)" "u' = u + w" "vs' = ws"
      using n m by (auto simp: merge_vs_def dest: fpath_firstD)
    moreover have "of_nat (c + u) \<noteq> pxEnd h" "of_nat c \<noteq> (of_nat (c + u) :: u32)" using d vs by auto
    ultimately show ?thesis
      using it pc szc d by (auto simp: insert_tail_def Let_def)
  next
    case False
    then have m': "u' = u" "vs' = vs" using m by (auto simp: merge_vs_def)
    have nx: "pxNextFreeBlock h it = firstnode vs (pxEnd h)" using n by (rule fpath_firstD)
    have "of_nat c + of_nat u = firstnode vs (pxEnd h) \<Longrightarrow> firstnode vs (pxEnd h) = pxEnd h"
      using False bnd by (cases vs) (auto simp flip: of_nat_add)
    then show ?thesis
      using it pc szc d nx by (auto simp: insert_tail_def Let_def m' fun_upd_idem)
  qed
qed

lemma seg_insert_alt:
  "seg_insert x us vs =
    (let (us, x) = (if us \<noteq> [] \<and> seg_end (last us) = fst x
                    then (butlast us, (fst (last us), snd (last us) + snd x)) else (us, x));
         (x, vs) = merge_vs x vs
     in us @ x # vs)"
  by (simp add: seg_insert_def merge_vs_def)

lemma merge_vs_props:
  "merge_vs (c, u) vs = (x, vs') \<Longrightarrow> fst x = c \<and> (\<exists>ws. vs = ws @ vs')"
  by (auto simp: merge_vs_def split: if_splits) (metis append_Cons append_Nil list.collapse)+

lemma distinct_lastnode: "distinct (a # nodes us @ ys) \<Longrightarrow> distinct (lastnode a us # ys)"
  by (cases us rule: rev_cases) auto

lemma lastnode_in: "lastnode a us \<in> set (a # nodes us)"
  by (cases us rule: rev_cases) auto

lemma prvInsert_path:
  fixes h :: heap4
  assumes path: "fpath (pxNextFreeBlock h) (xBlockSize h) (xStart h) (us @ vs) (pxEnd h)"
    and d: "distinct (xStart h # of_nat b # nodes us @ nodes vs @ [pxEnd h])"
    and bnd: "\<forall>x\<in>set (us @ vs). seg_end x < 2 ^ 32" "b + t < 2 ^ 32"
    and szb: "xBlockSize h (of_nat b) = of_nat t" and szs: "xBlockSize h (xStart h) = 0"
    and us: "\<forall>x\<in>set us. fst x < b" and vs: "\<not> firstnode vs (pxEnd h) < of_nat b"
  shows "\<exists>nx' sz'. prvInsertBlockIntoFreeList (of_nat b) h = Some (h\<lparr>pxNextFreeBlock := nx', xBlockSize := sz'\<rparr>) \<and>
    fpath nx' sz' (xStart h) (seg_insert (b, t) us vs) (pxEnd h) \<and>
    (\<forall>r. r \<notin> set (xStart h # of_nat b # nodes us) \<longrightarrow> nx' r = pxNextFreeBlock h r \<and> sz' r = xBlockSize h r) \<and>
    sz' (xStart h) = 0"
proof -
  let ?st = "xStart h" and ?e = "pxEnd h" and ?nx = "pxNextFreeBlock h" and ?sz = "xBlockSize h"
  have "\<forall>x\<in>set us. (of_nat (fst x) :: u32) < of_nat b" using us bnd by (auto intro!: w32_less [THEN iffD2])
  then have it: "free_list_iter ?nx (of_nat b) ?st = Some (lastnode ?st us)"
    using path vs by (intro free_list_iter_path) auto
  have pu: "fpath ?nx ?sz ?st us (firstnode vs ?e)" and pv: "fpath ?nx ?sz (lastnode ?st us) vs ?e"
    using path by (simp_all add: fpath_append)
  show ?thesis
  proof (cases "us \<noteq> [] \<and> seg_end (last us) = b")
    case True
    then obtain us0 a s where u: "us = us0 @ [(a, s)]" and ab: "a + s = b"
      by (cases us rule: rev_cases) auto
    obtain c u' vs' where m: "merge_vs (a, s + t) vs = ((c, u'), vs')" by (metis surj_pair)
    from merge_vs_props [OF m] obtain ws where c: "c = a" and ws: "vs = ws @ vs'" by auto
    let ?h = "set_size (of_nat a) (?sz (of_nat a) + of_nat t) h"
    have sa: "?sz (of_nat a) = of_nat s" and na: "?nx (lastnode ?st us0) = of_nat a"
      and p0: "fpath ?nx ?sz ?st us0 (of_nat a)"
      using pu unfolding u fpath_append by (auto dest: fpath_lastD)
    have dd: "distinct (lastnode ?st us0 # of_nat a # nodes vs @ [?e])"
      by (rule distinct_lastnode) (use d u in auto)
    have t1: "insert_tail (of_nat a) (of_nat a) ?h = ?h\<lparr>
        pxNextFreeBlock := (pxNextFreeBlock ?h)(of_nat a := firstnode vs' (pxEnd ?h), lastnode ?st us0 := of_nat a),
        xBlockSize := (xBlockSize ?h)(of_nat a := of_nat u')\<rparr>" (is "_ = ?r")
    proof (rule insert_tail_path [where u = "s + t" and vs = vs])
      show "fpath (pxNextFreeBlock ?h) (xBlockSize ?h) (of_nat a) vs (pxEnd ?h)" using pv dd u by simp
      show "xBlockSize ?h (of_nat a) = of_nat (s + t)" by (simp add: sa)
      show "a + (s + t) < 2 ^ 32" using ab bnd by simp
    qed (use bnd dd na m c in auto)
    have "prvInsertBlockIntoFreeList (of_nat b) h = Some (h\<lparr>
        pxNextFreeBlock := ?nx(of_nat a := firstnode vs' ?e, lastnode ?st us0 := of_nat a),
        xBlockSize := ?sz(of_nat a := of_nat u')\<rparr>)"
      using prvInsert_split [OF it] t1 ab by (auto simp: u sa szb simp flip: of_nat_add)
    moreover have "fpath (?nx(of_nat a := firstnode vs' ?e, lastnode ?st us0 := of_nat a))
        (?sz(of_nat a := of_nat u')) ?st (us0 @ (a, u') # vs') ?e"
      by (rule fpath_join [OF p0]) (use pv d in \<open>auto simp: ws u fpath_append\<close>)
    moreover have seg: "seg_insert (b, t) us vs = us0 @ (a, u') # vs'"
      using m ab c by (simp add: seg_insert_alt u)
    moreover have "\<forall>r. r \<notin> set (?st # of_nat b # nodes us) \<longrightarrow>
        (?nx(of_nat a := firstnode vs' ?e, lastnode ?st us0 := of_nat a)) r = ?nx r \<and>
        (?sz(of_nat a := of_nat u')) r = ?sz r"
      using lastnode_in [of ?st us0] by (auto simp: u simp del: last.simps)
    moreover have "(?sz(of_nat a := of_nat u')) ?st = 0" using d szs by (simp add: u)
    ultimately show ?thesis unfolding seg by blast
  next
    case False
    obtain c u' vs' where m: "merge_vs (b, t) vs = ((c, u'), vs')" by (metis surj_pair)
    from merge_vs_props [OF m] obtain ws where c: "c = b" and ws: "vs = ws @ vs'" by auto
    have dd: "distinct (lastnode ?st us # of_nat b # nodes vs @ [?e])"
      by (rule distinct_lastnode) (use d in auto)
    have t1: "insert_tail (lastnode ?st us) (of_nat b) h = h\<lparr>
        pxNextFreeBlock := ?nx(of_nat b := firstnode vs' ?e, lastnode ?st us := of_nat b),
        xBlockSize := ?sz(of_nat b := of_nat u')\<rparr>" (is "_ = ?r")
      by (rule insert_tail_path [where vs = vs and u = t]) (use pv szb bnd dd m c in auto)
    have "lastnode ?st us + ?sz (lastnode ?st us) \<noteq> of_nat b"
    proof (cases us rule: rev_cases)
      case Nil
      then show ?thesis using d szs by auto
    next
      case (snoc us0 x)
      then have "?sz (lastnode ?st us) = of_nat (snd x)" and "seg_end x \<noteq> b" "seg_end x < 2 ^ 32"
        using pu False bnd by (cases x; auto simp: fpath_append)+
      then show ?thesis using snoc bnd by (simp flip: of_nat_add)
    qed
    then have "prvInsertBlockIntoFreeList (of_nat b) h = Some ?r"
      using prvInsert_split [OF it] t1 by simp
    moreover have "fpath (?nx(of_nat b := firstnode vs' ?e, lastnode ?st us := of_nat b))
        (?sz(of_nat b := of_nat u')) ?st (us @ (b, u') # vs') ?e"
      by (rule fpath_join [OF pu]) (use pv d in \<open>auto simp: ws fpath_append\<close>)
    moreover have seg: "seg_insert (b, t) us vs = us @ (b, u') # vs'"
      using m c False by (auto simp: seg_insert_alt)
    moreover have "\<forall>r. r \<notin> set (?st # of_nat b # nodes us) \<longrightarrow>
        (?nx(of_nat b := firstnode vs' ?e, lastnode ?st us := of_nat b)) r = ?nx r \<and>
        (?sz(of_nat b := of_nat u')) r = ?sz r"
      using lastnode_in [of ?st us] by (auto simp del: last.simps)
    moreover have "(?sz(of_nat b := of_nat u')) ?st = 0" using d szs by simp
    ultimately show ?thesis unfolding seg by blast
  qed
qed

section \<open>Segment lists\<close>

lemma cover_simps [simp]:
  "cover [] = {}" "cover (x # fl) = {fst x ..< seg_end x} \<union> cover fl" "cover (us @ vs) = cover us \<union> cover vs"
  by (auto simp: cover_def)

lemma segs_ok_append:
  "segs_ok lo hi (us @ vs) \<longleftrightarrow> segs_ok lo hi us \<and> segs_ok lo hi vs \<and>
    (\<forall>x\<in>set us. \<forall>y\<in>set vs. seg_end x < fst y)"
  by (auto simp: segs_ok_def sorted_wrt_append)

lemma segs_ok_Cons:
  "segs_ok lo hi (x # vs) \<longleftrightarrow> lo \<le> fst x \<and> 0 < snd x \<and> seg_end x \<le> hi \<and> 8 dvd fst x \<and> 8 dvd snd x \<and>
    segs_ok lo hi vs \<and> (\<forall>y\<in>set vs. seg_end x < fst y)"
  by (auto simp: segs_ok_def)

lemma segs_ok_Nil [simp]: "segs_ok lo hi []"
  by (simp add: segs_ok_def)

text \<open>The split of the list at the address of a block that no free segment meets.\<close>

lemma segs_split:
  assumes ok: "segs_ok lo hi fl" and dis: "{b ..< b + t} \<inter> cover fl = {}" and "0 < t"
  obtains us vs where "fl = us @ vs" and "\<forall>x\<in>set us. seg_end x \<le> b" and "\<forall>x\<in>set vs. b + t \<le> fst x"
proof -
  let ?us = "takeWhile (\<lambda>x. fst x < b) fl" and ?vs = "dropWhile (\<lambda>x. fst x < b) fl"
  have fl: "fl = ?us @ ?vs" by simp
  have sep: "seg_end x \<le> b \<or> b + t \<le> fst x" if "x \<in> set fl" for x
  proof (rule ccontr)
    assume n: "\<not> ?thesis"
    have "0 < snd x" using ok that by (auto simp: segs_ok_def)
    then have "max b (fst x) \<in> {b ..< b + t}" and "max b (fst x) \<in> {fst x ..< seg_end x}"
      using n \<open>0 < t\<close> by auto
    then show False using dis that unfolding cover_def by blast
  qed
  have "\<forall>x\<in>set ?us. seg_end x \<le> b"
    using sep by (metis (mono_tags, lifting) le_add1 order.trans set_takeWhileD linorder_not_less)
  moreover have "\<forall>x\<in>set ?vs. b + t \<le> fst x"
  proof (cases ?vs)
    case (Cons v vs)
    have "v \<in> set ?vs" by (simp add: Cons)
    then have v: "v \<in> set fl" "\<not> fst v < b" using Cons hd_dropWhile [of "\<lambda>x. fst x < b" fl]
      by (metis set_dropWhileD) (use Cons hd_dropWhile [of "\<lambda>x. fst x < b" fl] in auto)
    have "0 < snd v" using ok v by (auto simp: segs_ok_def)
    then have bv: "b + t \<le> fst v" using sep [OF v(1)] v(2) by auto
    have "segs_ok lo hi ?vs" using ok by (metis fl segs_ok_append)
    then have "\<forall>y\<in>set vs. seg_end v < fst y" by (simp add: Cons segs_ok_Cons)
    then show ?thesis using bv by (force simp: Cons)
  next
    case Nil
    show ?thesis unfolding Nil by simp
  qed
  ultimately show ?thesis using that fl by blast
qed

lemma seg_insert_ok:
  assumes ok: "segs_ok lo hi (us @ vs)" and us: "\<forall>x\<in>set us. seg_end x \<le> b" and vs: "\<forall>x\<in>set vs. b + t \<le> fst x"
    and b: "lo \<le> b" "0 < t" "b + t \<le> hi" "8 dvd b" "8 dvd t"
  shows "segs_ok lo hi (seg_insert (b, t) us vs)"
    and "cover (seg_insert (b, t) us vs) = {b ..< b + t} \<union> cover (us @ vs)"
    and "seg_total (seg_insert (b, t) us vs) = t + seg_total (us @ vs)"
proof -
  define us1 where "us1 = (if us \<noteq> [] \<and> seg_end (last us) = b then butlast us else us)"
  define x1 where "x1 = (if us \<noteq> [] \<and> seg_end (last us) = b then (fst (last us), snd (last us) + t) else (b, t))"
  have i: "seg_insert (b, t) us vs = (let (x, vs) = merge_vs x1 vs in us1 @ x # vs)"
    by (simp add: seg_insert_alt us1_def x1_def Let_def)
  have 1: "segs_ok lo hi us1 \<and> segs_ok lo hi vs \<and> (\<forall>x\<in>set us1. seg_end x < fst x1) \<and>
      lo \<le> fst x1 \<and> 0 < snd x1 \<and> seg_end x1 = b + t \<and> 8 dvd fst x1 \<and> 8 dvd snd x1 \<and>
      cover us1 \<union> {fst x1 ..< seg_end x1} = cover us \<union> {b ..< b + t} \<and>
      seg_total us1 + snd x1 = seg_total us + t"
  proof (cases us rule: rev_cases)
    case Nil
    then show ?thesis using ok b by (simp add: us1_def x1_def segs_ok_append)
  next
    case (snoc us0 y)
    then show ?thesis
      using ok us b unfolding us1_def x1_def
      by (cases "seg_end y = b") (auto simp: segs_ok_append segs_ok_Cons)
  qed
  have sep: "\<forall>x\<in>set us1. \<forall>y\<in>set vs. seg_end x < fst y" using 1 vs by fastforce
  have 2: "segs_ok lo hi (us1 @ fst (merge_vs x1 vs) # snd (merge_vs x1 vs)) \<and>
      cover (fst (merge_vs x1 vs) # snd (merge_vs x1 vs)) = {fst x1 ..< seg_end x1} \<union> cover vs \<and>
      seg_total (fst (merge_vs x1 vs) # snd (merge_vs x1 vs)) = snd x1 + seg_total vs"
  proof (cases vs)
    case Nil
    then show ?thesis using 1 b by (auto simp: merge_vs_def segs_ok_append segs_ok_Cons)
  next
    case (Cons v ws)
    then show ?thesis
      using 1 b vs sep
      by (cases "seg_end x1 = fst v") (auto simp: merge_vs_def segs_ok_append segs_ok_Cons)
  qed
  have i': "seg_insert (b, t) us vs = us1 @ fst (merge_vs x1 vs) # snd (merge_vs x1 vs)"
    by (simp add: i case_prod_beta)
  show "segs_ok lo hi (seg_insert (b, t) us vs)" unfolding i' using 2 by blast
  show "cover (seg_insert (b, t) us vs) = {b ..< b + t} \<union> cover (us @ vs)"
    unfolding i' cover_simps(3) using 1 2 by auto
  show "seg_total (seg_insert (b, t) us vs) = t + seg_total (us @ vs)"
    unfolding i' using 1 2 by simp
qed

section \<open>Layout and representation\<close>

definition heap_lo :: "heap4 \<Rightarrow> nat" where
  "heap_lo h = (unat (ucHeap h) + 7) div 8 * 8"

definition heap_hi :: "heap4 \<Rightarrow> nat" where
  "heap_hi h = (unat (ucHeap h) + 32760) div 8 * 8"

text \<open>The linker places the array inside the address space and \<open>xStart\<close> outside the array.\<close>

definition placed :: "heap4 \<Rightarrow> bool" where
  "placed h \<longleftrightarrow> 0 < unat (ucHeap h) \<and> unat (ucHeap h) + 32768 < 2 ^ 32 \<and> xStart h \<noteq> 0 \<and>
    (unat (xStart h) < unat (ucHeap h) \<or> unat (ucHeap h) + 32768 \<le> unat (xStart h))"

definition free_list :: "heap4 \<Rightarrow> seg list \<Rightarrow> bool" where
  "free_list h fl \<longleftrightarrow> pxEnd h = of_nat (heap_hi h) \<and> xBlockAllocatedBit h = 0x80000000 \<and>
    segs_ok (heap_lo h) (heap_hi h) fl \<and>
    fpath (pxNextFreeBlock h) (xBlockSize h) (xStart h) fl (pxEnd h) \<and>
    xBlockSize h (xStart h) = 0 \<and> xBlockSize h (pxEnd h) = 0 \<and> pxNextFreeBlock h (pxEnd h) = 0"

definition free_rep :: "heap4 \<Rightarrow> seg list \<Rightarrow> bool" where
  "free_rep h fl \<longleftrightarrow> free_list h fl \<and> xFreeBytesRemaining h = of_nat (seg_total fl)"

lemma placed_bounds:
  assumes "placed h"
  shows "0 < heap_lo h" "heap_lo h + 32000 < heap_hi h" "heap_hi h < heap_lo h + 32768" "heap_hi h + 8 < 2 ^ 32"
    "8 dvd heap_lo h" "8 dvd heap_hi h" "unat (ucHeap h) \<le> heap_lo h" "heap_hi h + 8 \<le> unat (ucHeap h) + 32768"
proof -
  have lo: "heap_lo h \<le> unat (ucHeap h) + 7" "unat (ucHeap h) \<le> heap_lo h"
    unfolding heap_lo_def by presburger+
  have hi: "heap_hi h \<le> unat (ucHeap h) + 32760" "unat (ucHeap h) + 32760 < heap_hi h + 8"
    unfolding heap_hi_def by presburger+
  show "0 < heap_lo h" "heap_lo h + 32000 < heap_hi h" "heap_hi h < heap_lo h + 32768" "heap_hi h + 8 < 2 ^ 32"
    "unat (ucHeap h) \<le> heap_lo h" "heap_hi h + 8 \<le> unat (ucHeap h) + 32768"
    using lo hi assms by (auto simp: placed_def)
  show "8 dvd heap_lo h" "8 dvd heap_hi h" by (simp_all add: heap_lo_def heap_hi_def)
qed

lemma xStart_outside:
  assumes "placed h" and "heap_lo h \<le> a" and "a \<le> heap_hi h"
  shows "xStart h \<noteq> of_nat a" "of_nat a \<noteq> xStart h"
proof -
  have "unat (of_nat a :: u32) = a" using assms placed_bounds [OF assms(1)] by simp
  moreover have "unat (xStart h) \<noteq> a" using assms placed_bounds [OF assms(1)] by (auto simp: placed_def)
  ultimately show "xStart h \<noteq> of_nat a" "of_nat a \<noteq> xStart h" by metis+
qed

lemma segs_nodes_distinct:
  assumes "segs_ok lo hi fl" and "hi < 2 ^ 32"
  shows "distinct (nodes fl @ [of_nat hi])"
proof -
  have "sorted_wrt (\<lambda>x y. fst x < fst y) fl"
    using assms(1) unfolding segs_ok_def by (auto elim: sorted_wrt_mono_rel [rotated])
  then have "distinct (map fst fl)"
    by (induction fl) force+
  moreover have "\<forall>x\<in>set fl. fst x < hi" using assms(1) by (force simp: segs_ok_def)
  ultimately show ?thesis using assms(2)
    by (auto simp: distinct_map inj_on_def dest!: w32_eq [THEN iffD1, rotated 2])
qed

text \<open>Cells an operation may not touch: all but the given free blocks and a range.\<close>

definition same_cells :: "u32 set \<Rightarrow> heap4 \<Rightarrow> heap4 \<Rightarrow> bool" where
  "same_cells A h h' \<longleftrightarrow> ucHeap h' = ucHeap h \<and> xStart h' = xStart h \<and> pxEnd h' = pxEnd h \<and>
    xBlockAllocatedBit h' = xBlockAllocatedBit h \<and>
    (\<forall>r. r \<notin> A \<longrightarrow> pxNextFreeBlock h' r = pxNextFreeBlock h r \<and> xBlockSize h' r = xBlockSize h r)"

lemma same_cells_layout [simp]:
  "same_cells A h h' \<Longrightarrow> heap_lo h' = heap_lo h" "same_cells A h h' \<Longrightarrow> heap_hi h' = heap_hi h"
  "same_cells A h h' \<Longrightarrow> placed h' = placed h"
  by (simp_all add: same_cells_def heap_lo_def heap_hi_def placed_def)

lemma prvInsert_rep:
  assumes pl: "placed h" and fl: "free_list h (us @ vs)"
    and us: "\<forall>x\<in>set us. seg_end x \<le> b" and vs: "\<forall>x\<in>set vs. b + t \<le> fst x"
    and b: "heap_lo h \<le> b" "0 < t" "b + t \<le> heap_hi h" "8 dvd b" "8 dvd t"
    and szb: "xBlockSize h (of_nat b) = of_nat t"
  shows "\<exists>h'. prvInsertBlockIntoFreeList (of_nat b) h = Some h' \<and>
    free_list h' (seg_insert (b, t) us vs) \<and> same_cells (set (xStart h # of_nat b # nodes us)) h h' \<and>
    xFreeBytesRemaining h' = xFreeBytesRemaining h \<and>
    xMinimumEverFreeBytesRemaining h' = xMinimumEverFreeBytesRemaining h"
proof -
  note pb = placed_bounds [OF pl]
  have ok: "segs_ok (heap_lo h) (heap_hi h) (us @ vs)" and e: "pxEnd h = of_nat (heap_hi h)"
    using fl by (simp_all add: free_list_def)
  have us': "\<forall>x\<in>set us. fst x < b"
  proof
    fix x assume x: "x \<in> set us"
    then have "0 < snd x" using ok by (simp add: segs_ok_def)
    then show "fst x < b" using bspec [OF us x] by linarith
  qed
  have vs': "\<forall>x\<in>set vs. b < fst x" using vs b(2) by fastforce
  have bnd: "\<forall>x\<in>set (us @ vs). heap_lo h \<le> fst x \<and> fst x < heap_hi h \<and> seg_end x < 2 ^ 32"
    using ok pb by (force simp: segs_ok_def)
  have d: "distinct (xStart h # of_nat b # nodes us @ nodes vs @ [pxEnd h])"
  proof -
    have "distinct (nodes (us @ vs) @ [pxEnd h])"
      unfolding e by (rule segs_nodes_distinct [OF ok]) (use pb in simp)
    moreover have "xStart h \<notin> set (of_nat b # nodes (us @ vs) @ [pxEnd h])"
    proof -
      have "xStart h \<noteq> of_nat a" if "heap_lo h \<le> a \<and> a \<le> heap_hi h" for a
        using xStart_outside(1) [OF pl] that by blast
      then show ?thesis using b bnd pb by (auto simp: e intro: less_imp_le)
    qed
    moreover have "of_nat b \<notin> set (nodes (us @ vs) @ [pxEnd h])"
    proof -
      have "of_nat b \<noteq> (of_nat a :: u32)" if "a \<noteq> b \<and> a \<le> heap_hi h" for a
        using that b pb by simp
      moreover have "\<forall>x\<in>set (us @ vs). fst x \<noteq> b \<and> fst x \<le> heap_hi h" using us' vs' bnd by fastforce
      ultimately show ?thesis using b by (auto simp: e)
    qed
    ultimately show ?thesis by simp
  qed
  have "\<exists>nx' sz'. prvInsertBlockIntoFreeList (of_nat b) h = Some (h\<lparr>pxNextFreeBlock := nx', xBlockSize := sz'\<rparr>) \<and>
    fpath nx' sz' (xStart h) (seg_insert (b, t) us vs) (pxEnd h) \<and>
    (\<forall>r. r \<notin> set (xStart h # of_nat b # nodes us) \<longrightarrow> nx' r = pxNextFreeBlock h r \<and> sz' r = xBlockSize h r) \<and>
    sz' (xStart h) = 0"
  proof (rule prvInsert_path [OF _ d _ _ szb])
    show "\<forall>x\<in>set us. fst x < b" by (rule us')
    show "\<not> firstnode vs (pxEnd h) < of_nat b"
      using vs bnd b pb by (cases vs) (auto simp: e not_less)
  qed (use fl bnd b pb in \<open>auto simp: free_list_def\<close>)
  then obtain nx' sz' where
    1: "prvInsertBlockIntoFreeList (of_nat b) h = Some (h\<lparr>pxNextFreeBlock := nx', xBlockSize := sz'\<rparr>)"
    and 2: "fpath nx' sz' (xStart h) (seg_insert (b, t) us vs) (pxEnd h)"
    and 3: "\<forall>r. r \<notin> set (xStart h # of_nat b # nodes us) \<longrightarrow> nx' r = pxNextFreeBlock h r \<and> sz' r = xBlockSize h r"
    and 4: "sz' (xStart h) = 0" by blast
  have 5: "pxEnd h \<notin> set (xStart h # of_nat b # nodes us)" using d by auto
  have 6: "segs_ok (heap_lo h) (heap_hi h) (seg_insert (b, t) us vs)"
    by (rule seg_insert_ok(1) [OF ok us vs b])
  show ?thesis
    using 1 2 3 4 5 6 fl by (auto simp: free_list_def same_cells_def heap_lo_def heap_hi_def)
qed

section \<open>Allocation\<close>

lemma malloc_size_unat:
  assumes "unat w < 2 ^ 31"
  shows "malloc_size w = of_nat (if w = 0 then 0 else (unat w + 15) div 8 * 8)"
proof (cases "w = 0")
  case False
  have u: "unat (w + 8) = unat w + 8" using assms by (subst unat_add_lem [THEN iffD1]) simp_all
  have m: "unat ((w + 8) AND 7) = unat w mod 8" using unat_and_7 [of "w + 8"] u by simp
  have "(w + 8) AND 7 = 0 \<longleftrightarrow> unat w mod 8 = 0" using m by (metis unat_eq_0)
  moreover have "0 < w" using False by (simp add: word_neq_0_conv)
  ultimately have l: "malloc_size w = (if unat w mod 8 = 0 then w + 8 else w + 8 + (8 - ((w + 8) AND 7)))"
    by (simp add: malloc_size_def Let_def)
  have "(8 :: u32) - ((w + 8) AND 7) = of_nat (8 - unat w mod 8)"
    by (subst of_nat_diff) (use m [symmetric] in simp_all)
  then have "malloc_size w = of_nat (if unat w mod 8 = 0 then unat w + 8 else unat w + 8 + (8 - unat w mod 8))"
    unfolding l by simp
  also have "(if unat w mod 8 = 0 then unat w + 8 else unat w + 8 + (8 - unat w mod 8)) = (unat w + 15) div 8 * 8"
    by presburger
  finally show ?thesis using False by simp
qed (simp add: malloc_size_def)

lemma bit_31_iff: "bit (w :: u32) 31 \<longleftrightarrow> 2 ^ 31 \<le> unat w"
proof -
  have "unat w div 2 ^ 31 < 2" using unat_lt_u32 [of w] by (simp add: less_mult_imp_div_less)
  then have "odd (unat w div 2 ^ 31) \<longleftrightarrow> unat w div 2 ^ 31 \<noteq> 0" by (cases "unat w div 2 ^ 31") auto
  moreover have "unat w div 2 ^ 31 \<noteq> 0 \<longleftrightarrow> 2 ^ 31 \<le> unat w" unfolding div_eq_0_iff by auto
  moreover have "bit w 31 \<longleftrightarrow> odd (unat w div 2 ^ 31)"
    unfolding bit_iff_odd [symmetric] by (simp only: bit_unsigned_iff) simp
  ultimately show ?thesis by blast
qed

lemma bit_high_bit [simp]: "bit (0x80000000 :: u32) n \<longleftrightarrow> n = 31"
proof -
  have "bit (2 ^ 31 :: u32) n \<longleftrightarrow> n = 31" by (auto simp only: bit_exp_iff) simp
  then show ?thesis by simp
qed

lemma bit_high_bit_int [simp]: "bit (0x80000000 :: int) n \<longleftrightarrow> n = 31"
proof -
  have "bit (2 ^ 31 :: int) n \<longleftrightarrow> n = 31" by (auto simp only: bit_exp_iff) simp
  then show ?thesis by simp
qed

lemma high_bit_clear_iff: "(w :: u32) AND 0x80000000 = 0 \<longleftrightarrow> unat w < 2 ^ 31"
proof -
  have "w AND 0x80000000 = 0 \<longleftrightarrow> \<not> bit w 31"
    unfolding bit_eq_iff [of "w AND 0x80000000" 0] by (auto simp: bit_and_iff dest: spec [of _ 31])
  then show ?thesis by (simp add: bit_31_iff not_le)
qed

lemma high_bit_or: "((w :: u32) OR 0x80000000) AND 0x80000000 \<noteq> 0"
proof -
  have "bit ((w OR 0x80000000) AND 0x80000000) 31" by (simp add: bit_simps)
  then show ?thesis by (metis bit_0_eq bot_apply bot_bool_def)
qed

lemma clear_high_bit: "t < 2 ^ 31 \<Longrightarrow> ((of_nat t :: u32) OR 0x80000000) AND NOT 0x80000000 = of_nat t"
proof (rule bit_word_eqI)
  fix n assume t: "t < 2 ^ 31" and "n < LENGTH(32)"
  have "\<not> bit (of_nat t :: u32) 31" using t by (simp add: bit_31_iff)
  then show "bit (((of_nat t :: u32) OR 0x80000000) AND NOT 0x80000000) n = bit (of_nat t :: u32) n"
    using \<open>n < LENGTH(32)\<close> by (auto simp: bit_simps)
qed

text \<open>The free list after taking \<open>w\<close> bytes off a block.\<close>

definition rest :: "nat \<Rightarrow> seg \<Rightarrow> seg list" where
  "rest w x = (if snd x - w > 16 then [(fst x + w, snd x - w)] else [])"

definition taken :: "nat \<Rightarrow> seg \<Rightarrow> nat" where
  "taken w x = (if snd x - w > 16 then w else snd x)"

lemma segs_ok_rest:
  assumes "segs_ok lo hi (us @ (b, s) # vs)" and "8 dvd w" "0 < w"
  shows "segs_ok lo hi (us @ rest w (b, s) @ vs)"
  using assms by (auto simp: rest_def segs_ok_append segs_ok_Cons)

lemma cover_rest:
  assumes "0 < w" "w \<le> s"
  shows "{b ..< b + s} = {b ..< b + taken w (b, s)} \<union> cover (rest w (b, s))"
    and "{b ..< b + taken w (b, s)} \<inter> cover (rest w (b, s)) = {}"
    and "taken w (b, s) + seg_total (rest w (b, s)) = s" and "w \<le> taken w (b, s)" "taken w (b, s) \<le> s"
  using assms by (auto simp: rest_def taken_def)

lemma segs_ok_disjoint:
  assumes "segs_ok lo hi (us @ x # vs)" and "r \<in> {fst x ..< seg_end x}" and "y \<in> set us \<union> set vs"
  shows "r \<notin> {fst y ..< seg_end y}"
  using assms by (fastforce simp: segs_ok_append segs_ok_Cons)

lemma layout_upd [simp]:
  "heap_lo (h\<lparr>pxNextFreeBlock := nx\<rparr>) = heap_lo h" "heap_hi (h\<lparr>pxNextFreeBlock := nx\<rparr>) = heap_hi h"
  "heap_lo (h\<lparr>xBlockSize := sz\<rparr>) = heap_lo h" "heap_hi (h\<lparr>xBlockSize := sz\<rparr>) = heap_hi h"
  "heap_lo (h\<lparr>xFreeBytesRemaining := v\<rparr>) = heap_lo h" "heap_hi (h\<lparr>xFreeBytesRemaining := v\<rparr>) = heap_hi h"
  "placed (h\<lparr>pxNextFreeBlock := nx\<rparr>) = placed h" "placed (h\<lparr>xBlockSize := sz\<rparr>) = placed h"
  "placed (h\<lparr>xFreeBytesRemaining := v\<rparr>) = placed h"
  "heap_lo (h\<lparr>xMinimumEverFreeBytesRemaining := v\<rparr>) = heap_lo h"
  "heap_hi (h\<lparr>xMinimumEverFreeBytesRemaining := v\<rparr>) = heap_hi h"
  "placed (h\<lparr>xMinimumEverFreeBytesRemaining := v\<rparr>) = placed h"
  by (simp_all add: heap_lo_def heap_hi_def placed_def)

lemma path_distinct:
  assumes pl: "placed h" and ok: "segs_ok (heap_lo h) (heap_hi h) fl"
  shows "distinct (xStart h # nodes fl @ [of_nat (heap_hi h)])"
proof -
  note pb = placed_bounds [OF pl]
  have "distinct (nodes fl @ [of_nat (heap_hi h)])" by (rule segs_nodes_distinct [OF ok]) (use pb in simp)
  moreover have "xStart h \<noteq> of_nat a" if "heap_lo h \<le> a \<and> a \<le> heap_hi h" for a
    using xStart_outside(1) [OF pl] that by blast
  moreover have "\<forall>x\<in>set fl. heap_lo h \<le> fst x \<and> fst x \<le> heap_hi h" using ok by (force simp: segs_ok_def)
  ultimately show ?thesis using pb by (auto intro: less_imp_le)
qed

lemma in_heap_distinct:
  assumes pl: "placed h" and a: "heap_lo h \<le> a" "a < heap_hi h" "\<forall>x\<in>set fl. fst x \<noteq> a"
    and ok: "segs_ok (heap_lo h) (heap_hi h) fl"
  shows "of_nat a \<notin> set (xStart h # nodes fl @ [of_nat (heap_hi h)])"
proof -
  note pb = placed_bounds [OF pl]
  have "\<forall>x\<in>set fl. fst x < 2 ^ 32" using ok pb by (force simp: segs_ok_def)
  then have "\<forall>x\<in>set fl. (of_nat a :: u32) \<noteq> of_nat (fst x)"
    using a pb by (intro ballI) (subst w32_eq; force)
  then have "of_nat a \<notin> set (nodes fl)" by auto
  then show ?thesis using xStart_outside(2) [OF pl a(1)] a(2) pb by simp
qed

lemma free_list_upd:
  assumes "r \<notin> set (xStart h # nodes fl @ [pxEnd h])"
  shows "free_list (set_size r v h) fl = free_list h fl" "free_list (set_next r v h) fl = free_list h fl"
  using assms by (auto simp: free_list_def heap_lo_def heap_hi_def)

lemma free_list_counters [simp]:
  "free_list (h\<lparr>xFreeBytesRemaining := v\<rparr>) fl = free_list h fl"
  "free_list (h\<lparr>xMinimumEverFreeBytesRemaining := v\<rparr>) fl = free_list h fl"
  by (simp_all add: free_list_def heap_lo_def heap_hi_def)

lemma seg_insert_plain:
  assumes "\<forall>x\<in>set us. seg_end x < b" and "\<forall>x\<in>set vs. b + t < fst x"
  shows "seg_insert (b, t) us vs = us @ (b, t) # vs"
  using assms by (cases us rule: rev_cases; cases vs) (auto simp: seg_insert_def)

lemma free_list_unlink:
  assumes pl: "placed h" and fl: "free_list h (us @ (b, s) # vs)"
  shows "free_list (set_next (lastnode (xStart h) us) (pxNextFreeBlock h (of_nat b)) h) (us @ vs)"
proof -
  have ok: "segs_ok (heap_lo h) (heap_hi h) (us @ (b, s) # vs)" and e: "pxEnd h = of_nat (heap_hi h)"
    and path: "fpath (pxNextFreeBlock h) (xBlockSize h) (xStart h) (us @ (b, s) # vs) (pxEnd h)"
    using fl by (auto simp: free_list_def)
  have pu: "fpath (pxNextFreeBlock h) (xBlockSize h) (xStart h) us (of_nat b)"
    and pv: "fpath (pxNextFreeBlock h) (xBlockSize h) (of_nat b) vs (pxEnd h)"
    using path unfolding fpath_append by simp_all
  have nb: "pxNextFreeBlock h (of_nat b) = firstnode vs (pxEnd h)" using pv by (rule fpath_firstD)
  have d: "distinct (xStart h # nodes us @ of_nat b # nodes vs @ [pxEnd h])"
    using path_distinct [OF pl ok] by (simp add: e)
  let ?nx = "(pxNextFreeBlock h)(lastnode (xStart h) us := firstnode vs (pxEnd h))"
  have "distinct (lastnode (xStart h) us # of_nat b # nodes vs @ [pxEnd h])"
    by (rule distinct_lastnode) (use d in simp)
  then have pv': "fpath ?nx (xBlockSize h) (of_nat b) vs (pxEnd h)" and e': "lastnode (xStart h) us \<noteq> pxEnd h"
    using pv by simp_all
  from pv' have "fpath ?nx (xBlockSize h) (lastnode (xStart h) us) vs (pxEnd h)"
    by (rule fpath_head) (use pv' in \<open>auto dest: fpath_firstD\<close>)
  moreover have "fpath ?nx (xBlockSize h) (xStart h) us (firstnode vs (pxEnd h))"
    using pu by (rule fpath_last_upd) (use d in auto)
  ultimately have "fpath ?nx (xBlockSize h) (xStart h) (us @ vs) (pxEnd h)" by (simp add: fpath_append)
  moreover have "segs_ok (heap_lo h) (heap_hi h) (us @ vs)" using ok by (simp add: segs_ok_append segs_ok_Cons)
  ultimately show ?thesis using fl e' by (auto simp: free_list_def nb simp del: last.simps)
qed

lemma w32_diff: "a \<le> b \<Longrightarrow> (of_nat b :: u32) - of_nat a = of_nat (b - a)"
  by (simp add: of_nat_diff)

text \<open>The bookkeeping at the end of a successful allocation.\<close>

definition malloc_finish :: "u32 \<Rightarrow> heap4 \<Rightarrow> heap4" where
  "malloc_finish pxBlock h =
    (let h = h\<lparr>xFreeBytesRemaining := xFreeBytesRemaining h - xBlockSize h pxBlock\<rparr>;
         h = (if xFreeBytesRemaining h < xMinimumEverFreeBytesRemaining h
              then h\<lparr>xMinimumEverFreeBytesRemaining := xFreeBytesRemaining h\<rparr> else h);
         h = set_size pxBlock (xBlockSize h pxBlock OR xBlockAllocatedBit h) h;
         h = set_next pxBlock 0 h
     in h)"

lemma malloc_finish_rep:
  assumes fl: "free_list h fl" and b: "of_nat b \<notin> set (xStart h # nodes fl @ [pxEnd h])"
    and sb: "xBlockSize h (of_nat b) = of_nat t" and free: "xFreeBytesRemaining h = of_nat (seg_total fl + t)"
  defines "h' \<equiv> malloc_finish (of_nat b) h"
  shows "free_rep h' fl \<and> xBlockSize h' (of_nat b) = of_nat t OR 0x80000000 \<and> pxNextFreeBlock h' (of_nat b) = 0 \<and>
    same_cells {of_nat b} h h' \<and>
    xMinimumEverFreeBytesRemaining h' = min (xMinimumEverFreeBytesRemaining h) (xFreeBytesRemaining h')"
proof -
  let ?f = "of_nat (seg_total fl) :: u32"
  have h': "h' = h\<lparr>xFreeBytesRemaining := ?f,
      xMinimumEverFreeBytesRemaining := min (xMinimumEverFreeBytesRemaining h) ?f,
      xBlockSize := (xBlockSize h)(of_nat b := of_nat t OR 0x80000000),
      pxNextFreeBlock := (pxNextFreeBlock h)(of_nat b := 0)\<rparr>"
  proof -
    have "xBlockAllocatedBit h = 0x80000000" using fl by (simp only: free_list_def)
    moreover have "xFreeBytesRemaining h - xBlockSize h (of_nat b) = ?f" by (simp add: sb free)
    ultimately show ?thesis
      unfolding h'_def malloc_finish_def Let_def by (simp add: sb min_def)
  qed
  let ?a = "h\<lparr>xFreeBytesRemaining := ?f, xMinimumEverFreeBytesRemaining := min (xMinimumEverFreeBytesRemaining h) ?f\<rparr>"
  have "free_list ?a fl" using fl by simp
  then have "free_list (set_size (of_nat b) (of_nat t OR 0x80000000) ?a) fl"
    by (rule free_list_upd(1) [THEN iffD2, rotated]) (use b in simp)
  then have "free_list (set_next (of_nat b) 0 (set_size (of_nat b) (of_nat t OR 0x80000000) ?a)) fl"
    by (rule free_list_upd(2) [THEN iffD2, rotated]) (use b in simp)
  then have "free_list h' fl" by (simp add: h')
  then show ?thesis
    by (simp add: free_rep_def h' same_cells_def)
qed

lemma same_cells_trans:
  "same_cells A h h1 \<Longrightarrow> same_cells B h1 h2 \<Longrightarrow> A \<union> B \<subseteq> C \<Longrightarrow> same_cells C h h2"
  unfolding same_cells_def by (metis Un_iff subsetD)

lemma same_cells_upd:
  "r \<in> A \<Longrightarrow> same_cells A h (set_next r v h)" "r \<in> A \<Longrightarrow> same_cells A h (set_size r v h)"
  by (auto simp: same_cells_def)

lemma same_cells_step: "same_cells C h h1 \<Longrightarrow> r \<in> C \<Longrightarrow> same_cells C h (set_size r v h1)"
  by (auto simp: same_cells_def)

lemma malloc_take_rep:
  assumes pl: "placed h" and fr: "free_rep h (us @ (b, s) # vs)" and w: "8 dvd w" "0 < w" "w \<le> s"
  shows "\<exists>h'. malloc_take (of_nat w) (lastnode (xStart h) us) (of_nat b) h = Some (of_nat (b + 8), h') \<and>
    free_rep h' (us @ rest w (b, s) @ vs) \<and>
    xBlockSize h' (of_nat b) = of_nat (taken w (b, s)) OR 0x80000000 \<and> pxNextFreeBlock h' (of_nat b) = 0 \<and>
    same_cells (set (xStart h # nodes us) \<union> of_nat ` {b ..< b + s}) h h' \<and>
    xMinimumEverFreeBytesRemaining h' = min (xMinimumEverFreeBytesRemaining h) (xFreeBytesRemaining h')"
proof -
  note pb = placed_bounds [OF pl]
  let ?l = "lastnode (xStart h) us"
  define h1 where "h1 = set_next ?l (pxNextFreeBlock h (of_nat b)) h"
  have ok: "segs_ok (heap_lo h) (heap_hi h) (us @ (b, s) # vs)" and e: "pxEnd h = of_nat (heap_hi h)"
    and path: "fpath (pxNextFreeBlock h) (xBlockSize h) (xStart h) (us @ (b, s) # vs) (pxEnd h)"
    and free: "xFreeBytesRemaining h = of_nat (seg_total (us @ vs) + s)" and fl: "free_list h (us @ (b, s) # vs)"
    using fr by (auto simp: free_list_def free_rep_def algebra_simps)
  have lb: "pxNextFreeBlock h ?l = of_nat b" and sb: "xBlockSize h (of_nat b) = of_nat s"
    using path unfolding fpath_append by (auto dest: fpath_lastD)
  have b: "heap_lo h \<le> b" "b + s \<le> heap_hi h" "8 dvd b" "8 dvd s" "0 < s"
    using ok by (simp_all add: segs_ok_append segs_ok_Cons)
  have gaps: "\<forall>x\<in>set us. seg_end x < b" "\<forall>x\<in>set vs. b + s < fst x"
    and ok': "segs_ok (heap_lo h) (heap_hi h) (us @ vs)"
    using ok by (auto simp: segs_ok_append segs_ok_Cons)
  have h1: "free_list h1 (us @ vs)" "placed h1" "heap_lo h1 = heap_lo h" "heap_hi h1 = heap_hi h"
    "xStart h1 = xStart h" "pxEnd h1 = pxEnd h" "xBlockSize h1 = xBlockSize h"
    using free_list_unlink [OF pl fl] pl by (simp_all add: h1_def)
  have notin: "of_nat a \<notin> set (xStart h # nodes (us @ vs) @ [pxEnd h])" if "b \<le> a" "a < b + s" for a
  proof -
    have "fst x \<noteq> a" if "x \<in> set (us @ vs)" for x
    proof -
      have "seg_end x < b \<or> b + s < fst x" using that gaps by auto
      then show ?thesis using \<open>b \<le> a\<close> \<open>a < b + s\<close> by linarith
    qed
    then have "\<forall>x\<in>set (us @ vs). fst x \<noteq> a" by blast
    moreover have "heap_lo h \<le> a" "a < heap_hi h" using that b by linarith+
    ultimately show ?thesis
      unfolding e by (intro in_heap_distinct [OF pl _ _ _ ok'])
  qed
  have sub: "(of_nat s :: u32) - of_nat w = of_nat (s - w)" by (rule w32_diff [OF w(3)])
  have big: "(of_nat (s - w) :: u32) > 16 \<longleftrightarrow> s - w > 16" using w32_less [of 16 "s - w"] b pb by simp
  have split: "malloc_take (of_nat w) ?l (of_nat b) h =
    (case (if s - w > 16
           then prvInsertBlockIntoFreeList (of_nat (b + w))
             (set_size (of_nat b) (of_nat w) (set_size (of_nat (b + w)) (of_nat (s - w)) h1))
           else Some h1) of None \<Rightarrow> None | Some h \<Rightarrow> Some (of_nat (b + 8), malloc_finish (of_nat b) h))"
  proof -
    have "malloc_take (of_nat w) ?l (of_nat b) h =
      (case (if xBlockSize h1 (of_nat b) - of_nat w > heapMINIMUM_BLOCK_SIZE
           then prvInsertBlockIntoFreeList (of_nat b + of_nat w)
             (set_size (of_nat b) (of_nat w)
               (set_size (of_nat b + of_nat w) (xBlockSize h1 (of_nat b) - of_nat w) h1))
           else Some h1) of None \<Rightarrow> None
       | Some h' \<Rightarrow> Some (pxNextFreeBlock h ?l + xHeapStructSize, malloc_finish (of_nat b) h'))"
      unfolding malloc_take_def malloc_finish_def h1_def [symmetric] by (simp only: Let_def)
    moreover have "(of_nat b :: u32) + of_nat w = of_nat (b + w)" "of_nat b + xHeapStructSize = of_nat (b + 8)"
      by simp_all
    ultimately show ?thesis by (simp only: h1(7) sb sub heapMINIMUM_BLOCK_SIZE_eq big lb)
  qed
  let ?C = "set (xStart h # nodes us) \<union> of_nat ` {b ..< b + s}"
  have "?l \<in> set (xStart h # nodes us)" by (rule lastnode_in)
  then have c1: "same_cells ?C h h1" unfolding h1_def by (intro same_cells_upd) blast
  have bC: "of_nat b \<in> ?C" using b by auto
  have counters: "xFreeBytesRemaining h1 = xFreeBytesRemaining h"
    "xMinimumEverFreeBytesRemaining h1 = xMinimumEverFreeBytesRemaining h" by (simp_all add: h1_def)
  show ?thesis
  proof (cases "s - w > 16")
    case False
    then have r: "rest w (b, s) = []" "taken w (b, s) = s" by (simp_all add: rest_def taken_def)
    have "of_nat b \<notin> set (xStart h1 # nodes (us @ vs) @ [pxEnd h1])"
      unfolding h1 by (rule notin) (use b in simp_all)
    from malloc_finish_rep [OF h1(1) this, of s] show ?thesis
      using split False c1 bC by (simp only: h1 sb free counters r append_Nil) (auto intro: same_cells_trans)
  next
    case True
    then have r: "rest w (b, s) = [(b + w, s - w)]" "taken w (b, s) = w" by (simp_all add: rest_def taken_def)
    define h2 where "h2 = set_size (of_nat b) (of_nat w) (set_size (of_nat (b + w)) (of_nat (s - w)) h1)"
    have bw: "b \<le> b + w" "b + w < b + s" using True w by auto
    have nn: "of_nat b \<noteq> (of_nat (b + w) :: u32)" using w b pb bw by (subst w32_eq) auto
    have h2: "heap_lo h2 = heap_lo h" "heap_hi h2 = heap_hi h" "placed h2" "xStart h2 = xStart h"
      "pxEnd h2 = pxEnd h" "xBlockSize h2 (of_nat (b + w)) = of_nat (s - w)" "xBlockSize h2 (of_nat b) = of_nat w"
      "xFreeBytesRemaining h2 = xFreeBytesRemaining h"
      "xMinimumEverFreeBytesRemaining h2 = xMinimumEverFreeBytesRemaining h"
      using h1 nn by (simp_all add: h2_def counters)
    have "free_list (set_size (of_nat (b + w)) (of_nat (s - w)) h1) (us @ vs)"
      by (subst free_list_upd) (use h1 notin [OF bw] in simp_all)
    then have f2: "free_list h2 (us @ vs)" unfolding h2_def
      by (subst free_list_upd) (use h1 notin [of b] b in simp_all)
    have bwC: "of_nat (b + w) \<in> ?C" using bw by (intro UnI2 imageI) simp
    then have c2: "same_cells ?C h h2" unfolding h2_def by (intro same_cells_step c1 bC)
    have ins: "seg_insert (b + w, s - w) us vs = us @ rest w (b, s) @ vs"
      unfolding r by (subst seg_insert_plain) (use gaps bw in fastforce)+
    have "\<exists>h'. prvInsertBlockIntoFreeList (of_nat (b + w)) h2 = Some h' \<and>
      free_list h' (seg_insert (b + w, s - w) us vs) \<and> same_cells (set (xStart h2 # of_nat (b + w) # nodes us)) h2 h' \<and>
      xFreeBytesRemaining h' = xFreeBytesRemaining h2 \<and>
      xMinimumEverFreeBytesRemaining h' = xMinimumEverFreeBytesRemaining h2"
    proof (rule prvInsert_rep [OF h2(3) f2])
      show "\<forall>x\<in>set us. seg_end x \<le> b + w" using gaps(1) by fastforce
      show "\<forall>x\<in>set vs. b + w + (s - w) \<le> fst x" using gaps(2) w(3) by fastforce
      show "xBlockSize h2 (of_nat (b + w)) = of_nat (s - w)" by (rule h2(6))
    qed (use b bw w True in \<open>simp_all add: h2(1,2)\<close>)
    then obtain h3 where 3: "prvInsertBlockIntoFreeList (of_nat (b + w)) h2 = Some h3"
      "free_list h3 (us @ rest w (b, s) @ vs)" "same_cells (set (xStart h # of_nat (b + w) # nodes us)) h2 h3"
      "xFreeBytesRemaining h3 = xFreeBytesRemaining h"
      "xMinimumEverFreeBytesRemaining h3 = xMinimumEverFreeBytesRemaining h"
      unfolding ins h2 by blast
    have nb: "of_nat b \<notin> set (xStart h # of_nat (b + w) # nodes us)" using notin [of b] nn b by simp
    then have "xBlockSize h3 (of_nat b) = xBlockSize h2 (of_nat b)" using 3(3) unfolding same_cells_def by blast
    then have "xBlockSize h3 (of_nat b) = of_nat w" by (simp only: h2)
    moreover have "of_nat b \<notin> set (xStart h3 # nodes (us @ rest w (b, s) @ vs) @ [pxEnd h3])"
    proof -
      have "xStart h3 = xStart h" "pxEnd h3 = pxEnd h" using 3(3) h2 by (simp_all add: same_cells_def)
      then show ?thesis using notin [of b] nn b by (simp add: r)
    qed
    moreover have "xFreeBytesRemaining h3 = of_nat (seg_total (us @ rest w (b, s) @ vs) + w)"
      unfolding 3 free r using True by simp
    ultimately have f: "free_rep (malloc_finish (of_nat b) h3) (us @ rest w (b, s) @ vs) \<and>
        xBlockSize (malloc_finish (of_nat b) h3) (of_nat b) = of_nat w OR 0x80000000 \<and>
        pxNextFreeBlock (malloc_finish (of_nat b) h3) (of_nat b) = 0 \<and>
        same_cells {of_nat b} h3 (malloc_finish (of_nat b) h3) \<and>
        xMinimumEverFreeBytesRemaining (malloc_finish (of_nat b) h3) =
          min (xMinimumEverFreeBytesRemaining h3) (xFreeBytesRemaining (malloc_finish (of_nat b) h3))"
      using malloc_finish_rep [OF 3(2)] by blast
    have "set (xStart h # of_nat (b + w) # nodes us) \<subseteq> ?C" using bwC by (auto simp del: of_nat_add)
    then have "same_cells ?C h (malloc_finish (of_nat b) h3)"
      using c2 3(3) f bC by (blast intro: same_cells_trans)
    moreover have "malloc_take (of_nat w) ?l (of_nat b) h = Some (of_nat (b + 8), malloc_finish (of_nat b) h3)"
      using split True 3(1) by (simp only: h2_def [symmetric] if_True option.case simp_thms)
    ultimately show ?thesis using f unfolding 3 r by blast
  qed
qed


section \<open>The contract\<close>

text \<open>The live blocks: a map from the address of a block's header to the block's size.\<close>

type_synonym live = "nat \<rightharpoonup> nat"

definition live_cover :: "live \<Rightarrow> nat set" where
  "live_cover al = {x. \<exists>a t. al a = Some t \<and> a \<le> x \<and> x < a + t}"

definition live_ok :: "heap4 \<Rightarrow> live \<Rightarrow> bool" where
  "live_ok h al \<longleftrightarrow>
    (\<forall>a t. al a = Some t \<longrightarrow> heap_lo h \<le> a \<and> 0 < t \<and> a + t \<le> heap_hi h \<and> 8 dvd a \<and> 8 dvd t \<and>
      pxNextFreeBlock h (of_nat a) = 0 \<and> xBlockSize h (of_nat a) = of_nat t OR 0x80000000) \<and>
    (\<forall>a t a' t'. al a = Some t \<and> al a' = Some t' \<and> a \<noteq> a' \<longrightarrow> {a ..< a + t} \<inter> {a' ..< a' + t'} = {})"

text \<open>The free segments and the live blocks tile the heap, and the counter is the number of free
  bytes.\<close>

definition heap_tiled :: "heap4 \<Rightarrow> seg list \<Rightarrow> live \<Rightarrow> bool" where
  "heap_tiled h fl al \<longleftrightarrow> placed h \<and> free_rep h fl \<and> live_ok h al \<and>
    cover fl \<inter> live_cover al = {} \<and> cover fl \<union> live_cover al = {heap_lo h ..< heap_hi h}"

definition heap_inv :: "heap4 \<Rightarrow> live \<Rightarrow> bool" where
  "heap_inv h al \<longleftrightarrow> (\<exists>fl. heap_tiled h fl al)"

lemma in_live_cover: "al a = Some t \<Longrightarrow> 0 < t \<Longrightarrow> a \<in> live_cover al"
  unfolding live_cover_def by (intro CollectI exI [of _ a] exI [of _ t]) simp

lemma live_cover_upd:
  "al b = None \<Longrightarrow> live_cover (al(b \<mapsto> t)) = {b ..< b + t} \<union> live_cover al"
  by (auto simp: live_cover_def)

lemma live_cover_del:
  assumes "live_ok h al" and "al b = Some t"
  shows "live_cover (al(b := None)) = live_cover al - {b ..< b + t}"
proof (intro set_eqI iffI)
  fix x assume "x \<in> live_cover (al(b := None))"
  then obtain a u where a: "al a = Some u" "a \<noteq> b" "a \<le> x" "x < a + u"
    by (auto simp: live_cover_def split: if_splits)
  then have "{a ..< a + u} \<inter> {b ..< b + t} = {}" using assms unfolding live_ok_def by blast
  moreover have "x \<in> {a ..< a + u}" using a by simp
  moreover have "x \<in> live_cover al" using a by (auto simp: live_cover_def)
  ultimately show "x \<in> live_cover al - {b ..< b + t}" by blast
next
  fix x assume x: "x \<in> live_cover al - {b ..< b + t}"
  then obtain a u where a: "al a = Some u" "a \<le> x" "x < a + u" by (auto simp: live_cover_def)
  with x assms(2) have "a \<noteq> b" by auto
  with a show "x \<in> live_cover (al(b := None))" by (auto simp: live_cover_def)
qed

lemma live_coverI: "al a = Some t \<Longrightarrow> a \<le> x \<Longrightarrow> x < a + t \<Longrightarrow> x \<in> live_cover al"
  unfolding live_cover_def by blast

lemma free_repD:
  assumes "free_rep h fl"
  shows "pxEnd h = of_nat (heap_hi h)" "xBlockAllocatedBit h = 0x80000000" "pxNextFreeBlock h (pxEnd h) = 0"
    "segs_ok (heap_lo h) (heap_hi h) fl"
    "fpath (pxNextFreeBlock h) (xBlockSize h) (xStart h) fl (pxEnd h)"
    "xFreeBytesRemaining h = of_nat (seg_total fl)"
  using assms unfolding free_rep_def free_list_def by blast+

text \<open>The headers of live blocks are out of reach of changes to free segments.\<close>

lemma live_ok_same_cells:
  assumes live: "live_ok h al" and sc: "same_cells A h h'" and pl: "placed h"
    and A: "A \<subseteq> insert (xStart h) (of_nat ` F)" and F: "F \<inter> live_cover al = {}" "F \<subseteq> {heap_lo h ..< heap_hi h}"
  shows "live_ok h' al"
proof -
  note pb = placed_bounds [OF pl]
  have "of_nat a \<notin> A" if a: "al a = Some t" for a t
  proof
    assume "of_nat a \<in> A"
    have b: "heap_lo h \<le> a" "0 < t" "a + t \<le> heap_hi h" using live a by (auto simp: live_ok_def)
    then have "of_nat a \<noteq> xStart h" using xStart_outside(2) [OF pl] by simp
    with \<open>of_nat a \<in> A\<close> A obtain f where f: "f \<in> F" "(of_nat a :: u32) = of_nat f" by auto
    then have "a = f" using F(2) b pb by (subst (asm) w32_eq) auto
    then show False using F(1) f in_live_cover [of al a t] a b(2) by blast
  qed
  then have "pxNextFreeBlock h' (of_nat a) = pxNextFreeBlock h (of_nat a) \<and>
      xBlockSize h' (of_nat a) = xBlockSize h (of_nat a)" if "al a = Some t" for a t
    using sc that unfolding same_cells_def by blast
  then show ?thesis using live unfolding live_ok_def same_cells_layout [OF sc] by metis
qed

lemma free_segs_in_cover: "segs_ok lo hi fl \<Longrightarrow> x \<in> set fl \<Longrightarrow> fst x \<in> cover fl"
  unfolding segs_ok_def cover_def by (intro UN_I [of x]) auto

lemma cover_in_heap:
  "segs_ok lo hi fl \<Longrightarrow> cover fl \<subseteq> {lo ..< hi}"
  by (force simp: segs_ok_def cover_def)

lemma live_ok_insert:
  assumes live: "live_ok h al" and fresh: "{b ..< b + t} \<inter> live_cover al = {}"
    and b: "heap_lo h \<le> b" "0 < t" "b + t \<le> heap_hi h" "8 dvd b" "8 dvd t"
      "pxNextFreeBlock h (of_nat b) = 0" "xBlockSize h (of_nat b) = of_nat t OR 0x80000000"
  shows "live_ok h (al(b \<mapsto> t))" and "al b = None"
proof -
  have disj: "{b ..< b + t} \<inter> {a ..< a + u} = {}" if "al a = Some u" for a u
  proof -
    have "{a ..< a + u} \<subseteq> live_cover al" using live_coverI [of al a u] that by auto
    then show ?thesis using fresh by blast
  qed
  show "al b = None"
  proof (cases "al b")
    case (Some u)
    then have "0 < u" using live by (auto simp: live_ok_def)
    then have "b \<in> {b ..< b + t} \<inter> {b ..< b + u}" using b(2) by simp
    with disj [OF Some] show ?thesis by blast
  qed
  show "live_ok h (al(b \<mapsto> t))"
    unfolding live_ok_def
  proof (intro conjI allI impI)
    fix a u a' u'
    assume "(al(b \<mapsto> t)) a = Some u \<and> (al(b \<mapsto> t)) a' = Some u' \<and> a \<noteq> a'"
    then show "{a ..< a + u} \<inter> {a' ..< a' + u'} = {}"
      using disj [of a u] disj [of a' u'] live unfolding live_ok_def
      by (auto simp only: fun_upd_apply split: if_splits) blast+
  qed (use live b in \<open>auto simp: live_ok_def split: if_splits\<close>)
qed

text \<open>A successful allocation: a fresh, aligned block of at least the requested size plus header.\<close>

lemma malloc_take_tiled:
  assumes t: "heap_tiled h (us @ (b, s) # vs) al" and w: "8 dvd w" "0 < w" "w \<le> s"
  shows "\<exists>h' u. malloc_take (of_nat w) (lastnode (xStart h) us) (of_nat b) h = Some (of_nat (b + 8), h') \<and>
    heap_tiled h' (us @ rest w (b, s) @ vs) (al(b \<mapsto> u)) \<and> w \<le> u \<and> u \<le> s \<and> al b = None \<and> ucHeap h' = ucHeap h \<and>
    {b ..< b + u} \<inter> live_cover al = {} \<and> {b ..< b + u} \<subseteq> {heap_lo h ..< heap_hi h} \<and>
    xMinimumEverFreeBytesRemaining h' = min (xMinimumEverFreeBytesRemaining h) (xFreeBytesRemaining h')"
proof -
  let ?fl = "us @ (b, s) # vs" and ?u = "taken w (b, s)"
  have pl: "placed h" and fr: "free_rep h ?fl" and live: "live_ok h al"
    and tile: "cover ?fl \<inter> live_cover al = {}" "cover ?fl \<union> live_cover al = {heap_lo h ..< heap_hi h}"
    using t by (simp_all add: heap_tiled_def)
  have ok: "segs_ok (heap_lo h) (heap_hi h) ?fl" using fr by (simp add: free_rep_def free_list_def)
  obtain h' where h': "malloc_take (of_nat w) (lastnode (xStart h) us) (of_nat b) h = Some (of_nat (b + 8), h')"
      "free_rep h' (us @ rest w (b, s) @ vs)"
      "xBlockSize h' (of_nat b) = of_nat ?u OR 0x80000000" "pxNextFreeBlock h' (of_nat b) = 0"
      and sc: "same_cells (set (xStart h # nodes us) \<union> of_nat ` {b ..< b + s}) h h'"
      and min: "xMinimumEverFreeBytesRemaining h' = min (xMinimumEverFreeBytesRemaining h) (xFreeBytesRemaining h')"
    using malloc_take_rep [OF pl fr w] by blast
  have lay: "heap_lo h' = heap_lo h" "heap_hi h' = heap_hi h" "placed h' = placed h"
    by (rule same_cells_layout [OF sc])+
  have b: "heap_lo h \<le> b" "b + s \<le> heap_hi h" "8 dvd b" "8 dvd s" "0 < s"
    using ok by (simp_all add: segs_ok_append segs_ok_Cons)
  note cr = cover_rest [OF w(2,3), of b]
  have "8 dvd ?u" using w b by (simp add: taken_def)
  have F: "set (xStart h # nodes us) \<union> of_nat ` {b ..< b + s} \<subseteq> insert (xStart h) (of_nat ` cover ?fl)"
    using free_segs_in_cover [OF ok] by (fastforce simp: cover_def)
  have live': "live_ok h' al"
    by (rule live_ok_same_cells [OF live sc pl F tile(1)]) (use tile in blast)
  have fresh: "{b ..< b + ?u} \<inter> live_cover al = {}" using tile(1) cr(1) by auto
  note ins = live_ok_insert [OF live' fresh]
  have 1: "live_ok h' (al(b \<mapsto> ?u))" and 2: "al b = None"
    by (rule ins; use b cr(4,5) w h' \<open>8 dvd ?u\<close> in \<open>simp add: lay\<close>)+
  have disj: "{b ..< b + s} \<inter> (cover us \<union> cover vs) = {}"
  proof -
    have "r \<notin> cover us \<union> cover vs" if "r \<in> {b ..< b + s}" for r
      using segs_ok_disjoint [OF ok, of r] that unfolding cover_def by auto
    then show ?thesis by blast
  qed
  have "free_rep h' (us @ rest w (b, s) @ vs) \<and> placed h' \<and> live_ok h' (al(b \<mapsto> ?u))"
    using h'(2) pl 1 by (simp add: lay)
  moreover have "cover (us @ rest w (b, s) @ vs) \<inter> live_cover (al(b \<mapsto> ?u)) = {} \<and>
      cover (us @ rest w (b, s) @ vs) \<union> live_cover (al(b \<mapsto> ?u)) = {heap_lo h' ..< heap_hi h'}"
  proof -
    have all: "cover ?fl = cover us \<union> ({b ..< b + ?u} \<union> cover (rest w (b, s))) \<union> cover vs"
      unfolding cover_simps(2,3) fst_conv snd_conv cr(1) by blast
    then have "{b ..< b + ?u} \<inter> (cover us \<union> cover (rest w (b, s)) \<union> cover vs) = {}"
      using disj cr(1,2) by blast
    then show ?thesis
      using all tile unfolding live_cover_upd [where al = al and b = b, OF 2] lay cover_simps(3) by blast
  qed
  ultimately have tiled: "heap_tiled h' (us @ rest w (b, s) @ vs) (al(b \<mapsto> ?u))"
    unfolding heap_tiled_def by blast
  have "{b ..< b + ?u} \<subseteq> {heap_lo h ..< heap_hi h}" using b cr(5) by auto
  moreover have "ucHeap h' = ucHeap h" using sc by (simp add: same_cells_def)
  ultimately show ?thesis using h'(1) tiled 2 fresh cr(4,5) min by blast
qed

lemma seg_total_le: "segs_ok lo hi fl \<Longrightarrow> lo \<le> hi \<Longrightarrow> seg_total fl \<le> hi - lo"
proof (induction fl arbitrary: lo)
  case (Cons x fl)
  then have "segs_ok (seg_end x) hi fl" "seg_end x \<le> hi" "lo \<le> fst x"
    by (auto simp: segs_ok_Cons segs_ok_def intro: less_imp_le)
  with Cons.IH [of "seg_end x"] show ?case by simp
qed simp

lemma seg_le_total: "x \<in> set fl \<Longrightarrow> snd x \<le> seg_total fl"
  by (simp add: member_le_sum_list)

lemma first_fit_split:
  fixes fl :: "seg list"
  shows "(\<forall>x\<in>set fl. snd x < w) \<or> (\<exists>us b s vs. fl = us @ (b, s) # vs \<and> (\<forall>x\<in>set us. snd x < w) \<and> w \<le> s)"
proof -
  have "\<exists>us b s vs. fl = us @ (b, s) # vs \<and> (\<forall>x\<in>set us. snd x < w) \<and> w \<le> s"
    if ex: "\<exists>x\<in>set fl. w \<le> snd x"
  proof -
    obtain us x vs where x: "fl = us @ x # vs" "w \<le> snd x" "\<forall>y\<in>set us. \<not> w \<le> snd y"
      using split_list_first_propE [OF ex] by blast
    obtain b s where "x = (b, s)" by (cases x)
    with x have "fl = us @ (b, s) # vs \<and> (\<forall>x\<in>set us. snd x < w) \<and> w \<le> s" by (simp add: not_le)
    then show ?thesis by blast
  qed
  then show ?thesis by (metis not_le)
qed

text \<open>The size of the block a request of \<open>n\<close> bytes needs.\<close>

definition need :: "nat \<Rightarrow> nat" where
  "need n = (n + 15) div 8 * 8"

lemma need_bounds: "n + 8 \<le> need n" "need n < n + 16" "8 dvd need n" "0 < need n"
  unfolding need_def by presburger+

text \<open>All cases of a request on an initialised heap. It is refused exactly when the size is zero or
  has its top bit set, or when no free block is large enough; then nothing changes.\<close>

lemma pvPortMalloc_tiled:
  assumes t: "heap_tiled h fl al"
  shows "(unat w = 0 \<or> 2 ^ 31 \<le> unat w \<or> (\<forall>x\<in>set fl. snd x < need (unat w))) \<and>
      pvPortMalloc_body w h = Some (0, h) \<or>
    (\<exists>us b s vs h' u. fl = us @ (b, s) # vs \<and> (\<forall>x\<in>set us. snd x < need (unat w)) \<and> need (unat w) \<le> s \<and>
      0 < unat w \<and> unat w < 2 ^ 31 \<and>
      pvPortMalloc_body w h = Some (of_nat (b + 8), h') \<and>
      heap_tiled h' (us @ rest (need (unat w)) (b, s) @ vs) (al(b \<mapsto> u)) \<and> need (unat w) \<le> u \<and> u \<le> s \<and>
      al b = None \<and> ucHeap h' = ucHeap h \<and> {b ..< b + u} \<inter> live_cover al = {} \<and>
      {b ..< b + u} \<subseteq> {heap_lo h ..< heap_hi h} \<and>
      xMinimumEverFreeBytesRemaining h' = min (xMinimumEverFreeBytesRemaining h) (xFreeBytesRemaining h'))"
    (is "?refused \<or> ?granted")
proof -
  have pl: "placed h" and fr: "free_rep h fl" using t by (simp_all add: heap_tiled_def)
  note pb = placed_bounds [OF pl]
  note e = free_repD(1-3) [OF fr] and ok = free_repD(4) [OF fr] and path = free_repD(5) [OF fr]
    and free = free_repD(6) [OF fr]
  have e0: "pxEnd h \<noteq> 0" unfolding e using pb by (subst w32_zero) auto
  show ?thesis
  proof (cases "0 < unat w \<and> unat w < 2 ^ 31")
    case False
    then have "unat w = 0 \<or> 2 ^ 31 \<le> unat w" by auto
    moreover have "pvPortMalloc_body w h = Some (0, h)" if "w = 0"
      using e0 by (simp add: pvPortMalloc_body_def malloc_size_def Let_def that)
    moreover have "pvPortMalloc_body w h = Some (0, h)" if "2 ^ 31 \<le> unat w"
    proof -
      have "w AND xBlockAllocatedBit h \<noteq> 0" using that by (simp only: e(2) high_bit_clear_iff not_less)
      then show ?thesis using e0 by (simp add: pvPortMalloc_body_def Let_def)
    qed
    moreover have "w = 0" if "unat w = 0" using that by (simp only: unat_eq_0)
    ultimately show ?thesis by blast
  next
    case True
    define n where "n = need (unat w)"
    have n: "8 dvd n" "0 < n" "n < 2 ^ 32" using True need_bounds [of "unat w"] by (auto simp: n_def)
    have sz: "malloc_size w = of_nat n" using True malloc_size_unat [of w] by (auto simp: n_def need_def)
    have hb: "w AND xBlockAllocatedBit h = 0" using True by (simp add: e(2) high_bit_clear_iff)
    have tot: "seg_total fl < 2 ^ 32" using seg_total_le [OF ok] pb by simp
    have bnd: "\<forall>x\<in>set fl. 0 < fst x \<and> fst x < 2 ^ 32 \<and> snd x < 2 ^ 32"
      using ok pb unfolding segs_ok_def by fastforce
    have nz: "\<forall>x\<in>set fl. of_nat (fst x) \<noteq> (0 :: u32)"
      using bnd by (intro ballI) (subst w32_zero; force)
    have lt: "(of_nat (snd x) :: u32) < of_nat n \<longleftrightarrow> snd x < n" if "x \<in> set fl" for x
      using bnd n that by (intro w32_less) auto
    have body: "pvPortMalloc_body w h =
       (if n \<le> seg_total fl
        then (case malloc_search (pxNextFreeBlock h) (xBlockSize h) (of_nat n) (xStart h) (pxNextFreeBlock h (xStart h)) of
                None \<Rightarrow> None
              | Some (pxPreviousBlock, pxBlock) \<Rightarrow>
                  (if pxBlock \<noteq> pxEnd h then malloc_take (of_nat n) pxPreviousBlock pxBlock h else Some (0, h)))
        else Some (0, h))"
    proof -
      have "(0 :: u32) < of_nat n" "(of_nat n :: u32) \<le> xFreeBytesRemaining h \<longleftrightarrow> n \<le> seg_total fl"
        using w32_less [of 0 n] n tot by (simp_all add: free)
      then show ?thesis using e0 hb sz by (simp add: pvPortMalloc_body_def Let_def)
    qed
    from first_fit_split [of fl n] show ?thesis
    proof (elim disjE exE conjE)
      assume no: "\<forall>x\<in>set fl. snd x < n"
      have "\<exists>p. malloc_search (pxNextFreeBlock h) (xBlockSize h) (of_nat n) (xStart h) (pxNextFreeBlock h (xStart h)) =
          Some (p, pxEnd h)"
        by (rule malloc_search_fail [OF path]) (use no lt e0 e nz in auto)
      then have "pvPortMalloc_body w h = Some (0, h)" unfolding body by auto
      then show ?thesis using no unfolding n_def by blast
    next
      fix us b s vs assume fl: "fl = us @ (b, s) # vs" and us: "\<forall>x\<in>set us. snd x < n" and s: "n \<le> s"
      have d: "distinct (xStart h # nodes fl @ [pxEnd h])" unfolding e by (rule path_distinct [OF pl ok])
      have "malloc_search (pxNextFreeBlock h) (xBlockSize h) (of_nat n) (xStart h) (pxNextFreeBlock h (xStart h)) =
          Some (lastnode (xStart h) us, of_nat b)"
      proof (rule malloc_search_path)
        show "fpath (pxNextFreeBlock h) (xBlockSize h) (xStart h) (us @ (b, s) # vs) (pxEnd h)"
          using path by (simp only: fl)
        show "\<forall>x\<in>set us. of_nat (snd x) < (of_nat n :: u32)" using us lt fl by simp
        show "\<not> of_nat s < (of_nat n :: u32)" using s lt [of "(b, s)"] fl by simp
      qed (use nz e0 fl in auto)
      moreover have "of_nat b \<noteq> pxEnd h" using d fl by auto
      moreover have "n \<le> seg_total fl" using s by (simp add: fl)
      ultimately have "pvPortMalloc_body w h = malloc_take (of_nat n) (lastnode (xStart h) us) (of_nat b) h"
        unfolding body by simp
      then show ?thesis
        using malloc_take_tiled [OF t [unfolded fl] n(1,2) s] fl us s True unfolding n_def by metis
    qed
  qed
qed

text \<open>Freeing a live block.\<close>

lemma cover_split:
  "cover (us @ vs) = cover us \<union> cover vs" by simp

lemma vPortFree_tiled:
  assumes t: "heap_tiled h fl al" and a: "al a = Some u"
  shows "\<exists>h' fl'. vPortFree_claims (of_nat (a + 8)) h \<and> vPortFree_body (of_nat (a + 8)) h = Some h' \<and>
    heap_tiled h' fl' (al(a := None)) \<and> seg_total fl' = seg_total fl + u \<and> ucHeap h' = ucHeap h \<and>
    xMinimumEverFreeBytesRemaining h' = xMinimumEverFreeBytesRemaining h"
proof -
  have pl: "placed h" and fr: "free_rep h fl" and live: "live_ok h al"
    and tile: "cover fl \<inter> live_cover al = {}" "cover fl \<union> live_cover al = {heap_lo h ..< heap_hi h}"
    using t by (simp_all add: heap_tiled_def)
  note pb = placed_bounds [OF pl]
  note e = free_repD(1-3) [OF fr] and ok = free_repD(4) [OF fr] and free = free_repD(6) [OF fr]
  have b: "heap_lo h \<le> a" "0 < u" "a + u \<le> heap_hi h" "8 dvd a" "8 dvd u"
    "pxNextFreeBlock h (of_nat a) = 0" "xBlockSize h (of_nat a) = of_nat u OR 0x80000000"
    using live a unfolding live_ok_def by blast+
  have lu: "{a ..< a + u} \<subseteq> live_cover al" using live_coverI [of al a u] a by auto
  then have dis: "{a ..< a + u} \<inter> cover fl = {}" using tile(1) by blast
  from segs_split [OF ok dis b(2)] obtain us vs where fl: "fl = us @ vs"
    and us: "\<forall>x\<in>set us. seg_end x \<le> a" and vs: "\<forall>x\<in>set vs. a + u \<le> fst x" by blast
  have hdr: "(of_nat (a + 8) :: u32) - xHeapStructSize = of_nat a" by simp
  have nz: "of_nat (a + 8) \<noteq> (0 :: u32)" using b pb by (subst w32_zero) auto
  have claims: "vPortFree_claims (of_nat (a + 8)) h"
    unfolding vPortFree_claims_def hdr by (simp only: b e(2) high_bit_or nz not_False_eq_True simp_thms)
  define h2 where "h2 = (set_size (of_nat a) (of_nat u) h)\<lparr>xFreeBytesRemaining := of_nat (seg_total fl + u)\<rparr>"
  have u31: "u < 2 ^ 31" using b pb by simp
  have body: "vPortFree_body (of_nat (a + 8)) h = prvInsertBlockIntoFreeList (of_nat a) h2"
    unfolding vPortFree_body_def hdr
    using claims clear_high_bit [OF u31] by (simp add: Let_def b(7) e(2) h2_def free)
  have notin: "of_nat a \<notin> set (xStart h # nodes fl @ [pxEnd h])"
    unfolding e
  proof (rule in_heap_distinct [OF pl _ _ _ ok])
    show "\<forall>x\<in>set fl. fst x \<noteq> a"
      using free_segs_in_cover [OF ok] dis b(2) by force
  qed (use b in simp_all)
  have "free_list (set_size (of_nat a) (of_nat u) h) fl"
    by (subst free_list_upd) (use notin fr in \<open>simp_all add: free_rep_def\<close>)
  then have f2: "free_list h2 (us @ vs)" unfolding h2_def free_list_counters by (simp only: fl)
  have h2: "placed h2" "heap_lo h2 = heap_lo h" "heap_hi h2 = heap_hi h" "xStart h2 = xStart h"
    "xBlockSize h2 (of_nat a) = of_nat u" "xFreeBytesRemaining h2 = of_nat (seg_total fl + u)"
    "xMinimumEverFreeBytesRemaining h2 = xMinimumEverFreeBytesRemaining h"
    using pl by (simp_all add: h2_def)
  from prvInsert_rep [OF h2(1) f2 us vs _ b(2) _ b(4,5) h2(5)] obtain h' where
    h': "prvInsertBlockIntoFreeList (of_nat a) h2 = Some h'" "free_list h' (seg_insert (a, u) us vs)"
    "same_cells (set (xStart h2 # of_nat a # nodes us)) h2 h'"
    "xFreeBytesRemaining h' = xFreeBytesRemaining h2"
    "xMinimumEverFreeBytesRemaining h' = xMinimumEverFreeBytesRemaining h2"
    using b unfolding h2 by blast
  let ?A = "set (xStart h # of_nat a # nodes us)"
  have "same_cells ?A h h2" by (auto simp: h2_def same_cells_def)
  then have sc: "same_cells ?A h h'" using h'(3) unfolding h2 by (rule same_cells_trans) simp
  note lay = same_cells_layout [OF sc]
  note ins = seg_insert_ok [OF ok [unfolded fl] us vs b(1,2,3,4,5)]
  have lc: "live_cover (al(a := None)) = live_cover al - {a ..< a + u}" by (rule live_cover_del [OF live a])
  have "live_ok h (al(a := None))" using live unfolding live_ok_def by (auto split: if_splits)
  then have "live_ok h' (al(a := None))"
  proof (rule live_ok_same_cells [OF _ sc pl])
    show "?A \<subseteq> insert (xStart h) (of_nat ` ({a} \<union> cover us))"
    proof -
      have "segs_ok (heap_lo h) (heap_hi h) us" using ok unfolding fl segs_ok_append by blast
      then have "fst x \<in> cover us" if "x \<in> set us" for x using that by (rule free_segs_in_cover)
      then show ?thesis by auto
    qed
    show "({a} \<union> cover us) \<inter> live_cover (al(a := None)) = {}"
      using tile(1) b(2) unfolding lc fl by auto
    show "{a} \<union> cover us \<subseteq> {heap_lo h ..< heap_hi h}" using tile(2) b unfolding fl by auto
  qed
  moreover have "free_rep h' (seg_insert (a, u) us vs)"
    using h'(2,4) ins(3) by (simp add: free_rep_def h2 fl add.commute)
  moreover have "cover (seg_insert (a, u) us vs) \<inter> live_cover (al(a := None)) = {} \<and>
      cover (seg_insert (a, u) us vs) \<union> live_cover (al(a := None)) = {heap_lo h ..< heap_hi h}"
    unfolding ins(2) lc fl [symmetric] using tile lu by blast
  ultimately have "heap_tiled h' (seg_insert (a, u) us vs) (al(a := None))"
    using pl by (simp add: heap_tiled_def lay)
  moreover have "ucHeap h' = ucHeap h" using sc by (simp add: same_cells_def)
  moreover have "seg_total (seg_insert (a, u) us vs) = seg_total fl + u" using ins(3) fl by simp
  ultimately show ?thesis using claims body h'(1,5) h2(7) by metis
qed

section \<open>Initialisation, client writes\<close>

lemma align_up: "unat ((x :: u32)) + 7 < 2 ^ 32 \<Longrightarrow> unat ((x + 7) AND NOT 7) = (unat x + 7) div 8 * 8"
proof -
  assume "unat x + 7 < 2 ^ 32"
  then have "unat (x + 7) = unat x + 7" by (subst unat_add_lem [THEN iffD1]) simp_all
  then show ?thesis unfolding unat_and_not_7 by (simp only: minus_mod_eq_div_mult)
qed

lemma of_nat_unatI: "unat (x :: u32) = n \<Longrightarrow> x = of_nat n"
  by (auto simp: word_unat_eq_iff)

definition heap_init_at :: "u32 \<Rightarrow> u32 \<Rightarrow> heap4 \<Rightarrow> heap4" where
  "heap_init_at a e h =
    (let h = set_next (xStart h) a h;
         h = set_size (xStart h) 0 h;
         h = h\<lparr>pxEnd := e\<rparr>;
         h = set_size (pxEnd h) 0 h;
         h = set_next (pxEnd h) 0 h;
         h = set_size a (e - a) h;
         h = set_next a (pxEnd h) h;
         h = h\<lparr>xMinimumEverFreeBytesRemaining := xBlockSize h a\<rparr>;
         h = h\<lparr>xFreeBytesRemaining := xBlockSize h a\<rparr>;
         h = h\<lparr>xBlockAllocatedBit := push_bit (4 * 8 - 1) 1\<rparr>
     in h)"

lemma prvHeapInit_split:
  assumes "(if ucHeap h AND 7 \<noteq> 0
      then (let a = (ucHeap h + (8 - 1)) AND NOT 7 in (a, 32768 - (a - ucHeap h))) else (ucHeap h, 32768)) =
    (a, t)"
  shows "prvHeapInit h = heap_init_at a ((a + t - xHeapStructSize) AND NOT 7) h"
  unfolding prvHeapInit_def Let_def assms [unfolded Let_def] prod.case heap_init_at_def by (rule refl)

lemma heap_init_at_eq:
  "heap_init_at a e h = h\<lparr>
      pxNextFreeBlock := (pxNextFreeBlock h)(xStart h := a, e := 0, a := e),
      xBlockSize := (xBlockSize h)(xStart h := 0, e := 0, a := e - a),
      pxEnd := e, xFreeBytesRemaining := e - a,
      xMinimumEverFreeBytesRemaining := e - a, xBlockAllocatedBit := 0x80000000\<rparr>"
  by (simp add: heap_init_at_def Let_def)

lemma prvHeapInit_tiled:
  assumes pl: "placed h"
  shows "heap_tiled (prvHeapInit h) [(heap_lo h, heap_hi h - heap_lo h)] Map.empty \<and>
    ucHeap (prvHeapInit h) = ucHeap h \<and> pxEnd (prvHeapInit h) \<noteq> 0 \<and>
    xMinimumEverFreeBytesRemaining (prvHeapInit h) = xFreeBytesRemaining (prvHeapInit h)"
proof -
  note pb = placed_bounds [OF pl]
  let ?u = "unat (ucHeap h)" and ?lo = "heap_lo h" and ?hi = "heap_hi h"
  have u: "ucHeap h = of_nat ?u" "?u + 32768 < 2 ^ 32" using pl by (simp_all add: placed_def)
  have lo: "(if ucHeap h AND 7 \<noteq> 0 then (ucHeap h + 7) AND NOT 7 else ucHeap h) = of_nat ?lo"
  proof (cases "?u mod 8 = 0")
    case True
    then have "ucHeap h AND 7 = 0" using unat_and_7 [of "ucHeap h"] by (metis unat_eq_0)
    moreover have "?lo = ?u" using True unfolding heap_lo_def by presburger
    ultimately show ?thesis by simp
  next
    case False
    then have "ucHeap h AND 7 \<noteq> 0" using unat_and_7 [of "ucHeap h"] by (metis unat_0)
    moreover have "unat ((ucHeap h + 7) AND NOT 7) = ?lo"
      unfolding heap_lo_def by (rule align_up) (use u in simp)
    then have "(ucHeap h + 7) AND NOT 7 = of_nat ?lo" by (rule of_nat_unatI)
    ultimately show ?thesis by simp
  qed
  have hi: "(ucHeap h + 32760) AND NOT 7 = of_nat ?hi"
  proof -
    have "unat (ucHeap h + 32760) = ?u + 32760" using u(2) by (subst unat_add_lem [THEN iffD1]) simp_all
    then have "unat ((ucHeap h + 32760) AND NOT 7) = ?hi"
      unfolding unat_and_not_7 heap_hi_def by (simp only: minus_mod_eq_div_mult)
    then show ?thesis by (rule of_nat_unatI)
  qed
  have pair: "(if ucHeap h AND 7 \<noteq> 0
      then (let a = (ucHeap h + (8 - 1)) AND NOT 7 in (a, 32768 - (a - ucHeap h))) else (ucHeap h, 32768)) =
    (of_nat ?lo, 32768 - (of_nat ?lo - ucHeap h))"
    using lo by (auto simp: Let_def split: if_splits)
  have last: "of_nat ?lo + (32768 - (of_nat ?lo - ucHeap h)) - xHeapStructSize = ucHeap h + 32760" by simp
  have "(of_nat ?hi :: u32) - of_nat ?lo = of_nat (?hi - ?lo)" using pb by (intro w32_diff) simp
  then have init: "prvHeapInit h = h\<lparr>
      pxNextFreeBlock := (pxNextFreeBlock h)(xStart h := of_nat ?lo, of_nat ?hi := 0, of_nat ?lo := of_nat ?hi),
      xBlockSize := (xBlockSize h)(xStart h := 0, of_nat ?hi := 0, of_nat ?lo := of_nat (?hi - ?lo)),
      pxEnd := of_nat ?hi, xFreeBytesRemaining := of_nat (?hi - ?lo),
      xMinimumEverFreeBytesRemaining := of_nat (?hi - ?lo), xBlockAllocatedBit := 0x80000000\<rparr>"
    unfolding prvHeapInit_split [OF pair] last hi heap_init_at_eq by simp
  let ?h = "prvHeapInit h"
  have d: "distinct (xStart h # nodes [(?lo, ?hi - ?lo)] @ [of_nat ?hi])"
    by (rule path_distinct [OF pl]) (use pb in \<open>simp add: segs_ok_def dvd_diff_nat\<close>)
  have lay: "heap_lo ?h = ?lo" "heap_hi ?h = ?hi" "placed ?h = placed h"
    unfolding init by (simp_all add: heap_lo_def heap_hi_def placed_def)
  have "free_rep ?h [(?lo, ?hi - ?lo)]"
    unfolding free_rep_def free_list_def lay
    using d pb by (simp add: init segs_ok_def dvd_diff_nat)
  moreover have "live_cover Map.empty = {}" by (simp add: live_cover_def)
  moreover have "pxEnd ?h \<noteq> 0" using pb by (simp add: init)
  moreover have "live_ok ?h Map.empty" by (simp add: live_ok_def)
  ultimately show ?thesis
    using pl pb by (simp add: heap_tiled_def lay) (simp add: init)
qed

text \<open>The application writes what it likes inside the payload of a live block.\<close>

definition client_write :: "nat \<Rightarrow> u32 \<Rightarrow> u32 \<Rightarrow> heap4 \<Rightarrow> heap4" where
  "client_write r v v' h = set_next (of_nat r) v (set_size (of_nat r) v' h)"

lemma client_write_tiled:
  assumes t: "heap_tiled h fl al" and a: "al a = Some u" and r: "a < r" "r < a + u"
  shows "heap_tiled (client_write r v v' h) fl al"
proof -
  let ?h = "client_write r v v' h"
  have pl: "placed h" and fr: "free_rep h fl" and live: "live_ok h al"
    and tile: "cover fl \<inter> live_cover al = {}" "cover fl \<union> live_cover al = {heap_lo h ..< heap_hi h}"
    using t by (simp_all add: heap_tiled_def)
  note pb = placed_bounds [OF pl] and ok = free_repD(4) [OF fr] and e = free_repD(1) [OF fr]
  have rl: "r \<in> live_cover al" using live_coverI [of al a u r] a r by simp
  then have rh: "heap_lo h \<le> r" "r < heap_hi h" and rf: "r \<notin> cover fl" using tile by auto
  have sc: "same_cells {of_nat r} h ?h" by (simp add: client_write_def same_cells_def)
  note lay = same_cells_layout [OF sc]
  have notin: "of_nat r \<notin> set (xStart h # nodes fl @ [pxEnd h])"
    unfolding e by (rule in_heap_distinct [OF pl rh _ ok]) (use free_segs_in_cover [OF ok] rf in auto)
  have "free_list (set_size (of_nat r) v' h) fl"
    by (subst free_list_upd) (use notin fr in \<open>simp_all add: free_rep_def\<close>)
  then have "free_list ?h fl"
    unfolding client_write_def by (subst free_list_upd) (use notin in simp_all)
  then have "free_rep ?h fl" using fr by (simp add: free_rep_def client_write_def)
  moreover have "live_ok ?h al"
  proof -
    have "of_nat b \<noteq> (of_nat r :: u32)" if b: "al b = Some t" for b t
    proof -
      have "0 < t" and bh: "heap_lo h \<le> b" "b + t \<le> heap_hi h" using live b by (auto simp: live_ok_def)
      have "b \<noteq> r"
      proof
        assume "b = r"
        then have "a \<noteq> b" "b \<in> {a ..< a + u} \<inter> {b ..< b + t}" using r \<open>0 < t\<close> by auto
        then show False using live a b unfolding live_ok_def by blast
      qed
      then show ?thesis using bh rh pb by (subst w32_eq) auto
    qed
    then show ?thesis using live unfolding live_ok_def lay by (simp add: client_write_def)
  qed
  ultimately show ?thesis using pl tile by (simp add: heap_tiled_def lay)
qed

end
