(* ===== verification/Allocator.thy ===== *)
theory Allocator imports Heap4 "HOL-Library.Multiset" begin

text \<open>
  The allocator's contract. \<open>block_allocator\<close> is the interface its clients rely on (a request
  returns null or a block that was not live; a live block can be freed once); it is interpreted on
  the model of \<open>heap_4.c\<close>. The reachable heaps are those that any sequence of requests, frees of live
  blocks and writes of the application inside its own blocks leads to from a zeroed heap; the
  properties hold in all of them.
\<close>

section \<open>The interface\<close>

fun alloc_all :: "('w \<Rightarrow> 'h \<Rightarrow> ('p \<times> 'h) option) \<Rightarrow> 'w list \<Rightarrow> 'h \<Rightarrow> ('p list \<times> 'h) option" where
  "alloc_all alloc [] h = Some ([], h)"
| "alloc_all alloc (w # ws) h =
    (case alloc w h of None \<Rightarrow> None
     | Some (p, h) \<Rightarrow> (case alloc_all alloc ws h of None \<Rightarrow> None | Some (ps, h) \<Rightarrow> Some (p # ps, h)))"

fun free_all :: "('p \<Rightarrow> 'h \<Rightarrow> 'h option) \<Rightarrow> 'p list \<Rightarrow> 'h \<Rightarrow> 'h option" where
  "free_all free [] h = Some h"
| "free_all free (p # ps) h = (case free p h of None \<Rightarrow> None | Some h \<Rightarrow> free_all free ps h)"

locale block_allocator =
  fixes inv :: "'h \<Rightarrow> ('p \<rightharpoonup> nat) \<Rightarrow> bool"
    and alloc :: "'w \<Rightarrow> 'h \<Rightarrow> ('p \<times> 'h) option"
    and free :: "'p \<Rightarrow> 'h \<Rightarrow> 'h option"
    and null :: 'p
  assumes alloc_step: "inv h al \<Longrightarrow> \<exists>p h'. alloc w h = Some (p, h') \<and>
      (p = null \<and> inv h' al \<or> p \<noteq> null \<and> al p = None \<and> (\<exists>n. inv h' (al(p \<mapsto> n))))"
    and free_step: "inv h al \<Longrightarrow> al p = Some n \<Longrightarrow> \<exists>h'. free p h = Some h' \<and> inv h' (al(p := None))"
begin

text \<open>Freeing live blocks, each once, in any order.\<close>

lemma free_all_live:
  "inv h al \<Longrightarrow> distinct ps \<Longrightarrow> set ps \<subseteq> dom al \<Longrightarrow>
    \<exists>h'. free_all free ps h = Some h' \<and> inv h' (al |` (- set ps))"
proof (induction ps arbitrary: h al)
  case (Cons p ps)
  then obtain n where "al p = Some n" by auto
  from free_step [OF Cons.prems(1) this] obtain h1 where
    h1: "free p h = Some h1" "inv h1 (al(p := None))" by blast
  moreover have "set ps \<subseteq> dom (al(p := None))" "distinct ps" using Cons.prems(2,3) by auto
  ultimately obtain h' where "free_all free ps h1 = Some h'" "inv h' ((al(p := None)) |` (- set ps))"
    using Cons.IH by blast
  moreover have "(al(p := None)) |` (- set ps) = al |` (- set (p # ps))"
    by (auto simp: restrict_map_def fun_eq_iff)
  ultimately show ?case using h1 by simp
next
  case Nil
  have "al |` (- set []) = al" by (auto simp: restrict_map_def fun_eq_iff)
  with Nil show ?case by simp
qed

lemma alloc_all_fresh:
  "inv h al \<Longrightarrow> \<exists>ps h' al'. alloc_all alloc ws h = Some (ps, h') \<and> inv h' al' \<and>
    distinct (filter (\<lambda>p. p \<noteq> null) ps) \<and> dom al \<inter> set (filter (\<lambda>p. p \<noteq> null) ps) = {} \<and>
    dom al' = dom al \<union> set (filter (\<lambda>p. p \<noteq> null) ps) \<and> al' |` dom al = al"
proof (induction ws arbitrary: h al)
  case Nil
  then show ?case by (auto simp: restrict_map_def fun_eq_iff dom_def)
next
  case (Cons w ws)
  from alloc_step [OF Cons.prems, of w] obtain p h1 where p: "alloc w h = Some (p, h1)"
    and c: "p = null \<and> inv h1 al \<or> p \<noteq> null \<and> al p = None \<and> (\<exists>n. inv h1 (al(p \<mapsto> n)))" by blast
  from c show ?case
  proof (elim disjE conjE exE)
    assume "p = null" "inv h1 al"
    with Cons.IH [of h1 al] obtain ps h' al' where
      "alloc_all alloc ws h1 = Some (ps, h')" "inv h' al'"
      "distinct (filter (\<lambda>p. p \<noteq> null) ps)" "dom al \<inter> set (filter (\<lambda>p. p \<noteq> null) ps) = {}"
      "dom al' = dom al \<union> set (filter (\<lambda>p. p \<noteq> null) ps)" "al' |` dom al = al" by blast
    with p \<open>p = null\<close> show ?thesis
      by (intro exI [of _ "p # ps"] exI [of _ h'] exI [of _ al']) simp
  next
    fix n assume n: "p \<noteq> null" "al p = None" "inv h1 (al(p \<mapsto> n))"
    from Cons.IH [OF n(3)] obtain ps h' al' where
      i: "alloc_all alloc ws h1 = Some (ps, h')" "inv h' al'"
      "distinct (filter (\<lambda>p. p \<noteq> null) ps)" "dom (al(p \<mapsto> n)) \<inter> set (filter (\<lambda>p. p \<noteq> null) ps) = {}"
      "dom al' = dom (al(p \<mapsto> n)) \<union> set (filter (\<lambda>p. p \<noteq> null) ps)"
      "al' |` dom (al(p \<mapsto> n)) = al(p \<mapsto> n)" by blast
    have "al' |` dom al = (al' |` dom (al(p \<mapsto> n))) |` dom al" by (auto simp: restrict_map_def fun_eq_iff)
    also have "\<dots> = al" unfolding i(6) using n(2) by (auto simp: restrict_map_def fun_eq_iff dom_def)
    finally show ?thesis
      using i n p by (intro exI [of _ "p # ps"] exI [of _ h'] exI [of _ al']) auto
  qed
qed

text \<open>A client that frees, in any order, what it was granted leaves the live blocks as they were.\<close>

lemma alloc_free_balanced:
  assumes "inv h al"
  shows "\<exists>ps h'. alloc_all alloc ws h = Some (ps, h') \<and>
    (\<forall>qs. mset qs = mset (filter (\<lambda>p. p \<noteq> null) ps) \<longrightarrow> (\<exists>h''. free_all free qs h' = Some h'' \<and> inv h'' al))"
proof -
  let ?g = "filter (\<lambda>p. p \<noteq> null)"
  from alloc_all_fresh [OF assms, of ws] obtain ps h' al' where
    i: "alloc_all alloc ws h = Some (ps, h')" "inv h' al'" "distinct (?g ps)"
    "dom al \<inter> set (?g ps) = {}" "dom al' = dom al \<union> set (?g ps)" "al' |` dom al = al" by blast
  have "\<exists>h''. free_all free qs h' = Some h'' \<and> inv h'' al" if qs: "mset qs = mset (?g ps)" for qs
  proof -
    have "distinct qs" "set qs = set (?g ps)"
      using qs i(3) mset_eq_imp_distinct_iff mset_eq_setD by blast+
    moreover have "al' |` (- set (?g ps)) = al"
    proof -
      have "al' |` (- set (?g ps)) = al' |` dom al"
        using i(4,5) by (auto simp: restrict_map_def fun_eq_iff)
      then show ?thesis using i(6) by simp
    qed
    ultimately show ?thesis using free_all_live [OF i(2), of qs] i(5) by auto
  qed
  then show ?thesis using i(1) by blast
qed

end

section \<open>Reachable heaps\<close>

definition block_bytes :: "u32 \<Rightarrow> heap4 \<Rightarrow> nat" where
  "block_bytes p h = unat (xBlockSize h (p - xHeapStructSize) AND NOT (xBlockAllocatedBit h))"

inductive heap_reach :: "heap4 \<Rightarrow> live \<Rightarrow> bool" where
  start: "placed h \<Longrightarrow> pxEnd h = 0 \<Longrightarrow> heap_reach h Map.empty"
| malloc: "heap_reach h al \<Longrightarrow> pvPortMalloc_body w h = Some (p, h') \<Longrightarrow>
    heap_reach h' (if p = 0 then al else al(unat p - 8 \<mapsto> block_bytes p h'))"
| release: "heap_reach h al \<Longrightarrow> al a = Some t \<Longrightarrow> vPortFree_body (of_nat (a + 8)) h = Some h' \<Longrightarrow>
    heap_reach h' (al(a := None))"
| client: "heap_reach h al \<Longrightarrow> al a = Some t \<Longrightarrow> a + 8 \<le> r \<Longrightarrow> r < a + t \<Longrightarrow>
    heap_reach (client_write r v v' h) al"

inductive_cases heap_reachE: "heap_reach h al"

definition heap_ok :: "heap4 \<Rightarrow> live \<Rightarrow> bool" where
  "heap_ok h al \<longleftrightarrow> placed h \<and>
    (if pxEnd h = 0 then al = Map.empty
     else heap_inv h al \<and> xMinimumEverFreeBytesRemaining h \<le> xFreeBytesRemaining h)"

lemma heap_tiledD:
  assumes "heap_tiled h fl al"
  shows "placed h" "pxEnd h \<noteq> 0" "heap_inv h al"
proof -
  show pl: "placed h" using assms by (simp add: heap_tiled_def)
  show "heap_inv h al" using assms by (auto simp: heap_inv_def)
  have "pxEnd h = of_nat (heap_hi h)" using assms free_repD(1) by (auto simp: heap_tiled_def)
  then show "pxEnd h \<noteq> 0" using placed_bounds [OF pl] by simp
qed

lemma heap_lo_cong: "ucHeap h' = ucHeap h \<Longrightarrow> heap_lo h' = heap_lo h \<and> heap_hi h' = heap_hi h"
  by (simp add: heap_lo_def heap_hi_def)

lemma live_okD:
  assumes "live_ok h al" and "al a = Some t"
  shows "heap_lo h \<le> a" "a + t \<le> heap_hi h" "8 dvd a" "8 dvd t" "0 < t"
  using assms unfolding live_ok_def by blast+

text \<open>An uninitialised heap is initialised by the first request.\<close>

definition init_heap :: "heap4 \<Rightarrow> heap4" where
  "init_heap h = (if pxEnd h = 0 then prvHeapInit h else h)"

lemma init_heap_tiled:
  assumes "heap_ok h al"
  obtains fl where "heap_tiled (init_heap h) fl al" "ucHeap (init_heap h) = ucHeap h"
    "xMinimumEverFreeBytesRemaining (init_heap h) \<le> xFreeBytesRemaining (init_heap h)"
    "pvPortMalloc_body w (init_heap h) = pvPortMalloc_body w h"
proof (cases "pxEnd h = 0")
  case True
  with assms have al: "al = Map.empty" and "placed h" by (auto simp: heap_ok_def)
  note i = prvHeapInit_tiled [OF this(2)]
  have "pvPortMalloc_body w (init_heap h) = pvPortMalloc_body w h"
    using i True by (simp add: pvPortMalloc_body_def init_heap_def Let_def)
  with i True al that show ?thesis by (auto simp: init_heap_def)
next
  case False
  with assms that show ?thesis by (auto simp: heap_ok_def heap_inv_def init_heap_def)
qed

lemma block_bytes_live:
  assumes "heap_tiled h fl al" and "al a = Some t"
  shows "block_bytes (of_nat (a + 8)) h = t"
proof -
  have live: "live_ok h al" and "xBlockAllocatedBit h = 0x80000000" and pl: "placed h"
    using assms free_repD(2) by (auto simp: heap_tiled_def)
  then have "block_bytes (of_nat (a + 8)) h = unat ((of_nat t OR 0x80000000) AND NOT (0x80000000 :: u32))"
    and "a + t \<le> heap_hi h" "heap_lo h \<le> a"
    using assms(2) by (auto simp: block_bytes_def live_ok_def)
  moreover from this(2,3) have "t < 2 ^ 31" using placed_bounds [OF pl] by simp
  ultimately show ?thesis using clear_high_bit [of t] by simp
qed

lemma malloc_step_ok:
  assumes ok: "heap_ok h al"
  shows "\<exists>p h'. pvPortMalloc_body w h = Some (p, h') \<and>
    (p = 0 \<and> heap_ok h' al \<or>
     p \<noteq> 0 \<and> 8 \<le> unat p \<and> al (unat p - 8) = None \<and> heap_ok h' (al(unat p - 8 \<mapsto> block_bytes p h')) \<and>
     8 dvd unat p \<and> unat w + 8 \<le> block_bytes p h' \<and>
     {unat p - 8 ..< unat p - 8 + block_bytes p h'} \<inter> live_cover al = {} \<and>
     {unat p - 8 ..< unat p - 8 + block_bytes p h'} \<subseteq> {heap_lo h ..< heap_hi h})"
proof -
  from init_heap_tiled [OF ok, of w] obtain fl where
    t: "heap_tiled (init_heap h) fl al" and uc: "ucHeap (init_heap h) = ucHeap h"
    and mn: "xMinimumEverFreeBytesRemaining (init_heap h) \<le> xFreeBytesRemaining (init_heap h)"
    and eq: "pvPortMalloc_body w (init_heap h) = pvPortMalloc_body w h" by blast
  note lay = heap_lo_cong [OF uc]
  show ?thesis
  proof (cases "pvPortMalloc_body w (init_heap h) = Some (0, init_heap h)")
    case True
    moreover have "heap_ok (init_heap h) al" using heap_tiledD [OF t] mn by (simp add: heap_ok_def)
    ultimately show ?thesis by (simp add: eq)
  next
    case False
    with pvPortMalloc_tiled [OF t, of w] show ?thesis
    proof (elim disjE conjE exE)
    fix us b s vs h' u assume r: "pvPortMalloc_body w (init_heap h) = Some (of_nat (b + 8), h')"
      "heap_tiled h' (us @ rest (need (unat w)) (b, s) @ vs) (al(b \<mapsto> u))" "need (unat w) \<le> u" "al b = None"
      "{b ..< b + u} \<inter> live_cover al = {}" "{b ..< b + u} \<subseteq> {heap_lo (init_heap h) ..< heap_hi (init_heap h)}"
      "xMinimumEverFreeBytesRemaining h' =
        min (xMinimumEverFreeBytesRemaining (init_heap h)) (xFreeBytesRemaining h')"
    have bb: "block_bytes (of_nat (b + 8)) h' = u" using block_bytes_live [OF r(2), of b u] by simp
    have "live_ok h' (al(b \<mapsto> u))" "placed h'" using r(2) by (simp_all add: heap_tiled_def)
    then have bh: "heap_lo h' \<le> b" "b + u \<le> heap_hi h'" "8 dvd b" "heap_hi h' + 8 < 2 ^ 32" "0 < u"
      using placed_bounds [of h'] live_okD [of h' "al(b \<mapsto> u)" b u] by simp_all
    have pb: "unat (of_nat (b + 8) :: u32) = b + 8" using bh by (intro w32_unat) simp
    have "heap_ok h' (al(b \<mapsto> u))" using heap_tiledD [OF r(2)] r(7) by (simp add: heap_ok_def)
    moreover have "of_nat (b + 8) \<noteq> (0 :: u32)" using pb by (metis add_is_0 unat_0 zero_neq_numeral)
    moreover have "8 dvd b + 8" using bh(3) by simp
    moreover have "unat w + 8 \<le> u" using need_bounds(1) [of "unat w"] r(3) by linarith
    ultimately show ?thesis
      using r(1,4,5,6) unfolding eq lay [THEN conjunct1] lay [THEN conjunct2]
      by (intro exI [of _ "of_nat (b + 8)"] exI [of _ h'])
        (simp only: pb bb diff_add_inverse2 le_add2 simp_thms)
    qed blast+
  qed
qed

lemma free_step_ok:
  assumes ok: "heap_ok h al" and a: "al a = Some t"
  shows "\<exists>h'. vPortFree_claims (of_nat (a + 8)) h \<and> vPortFree_body (of_nat (a + 8)) h = Some h' \<and>
    heap_ok h' (al(a := None)) \<and> unat (xFreeBytesRemaining h') = unat (xFreeBytesRemaining h) + t"
proof -
  from ok a obtain fl where tl: "heap_tiled h fl al" and mn: "xMinimumEverFreeBytesRemaining h \<le> xFreeBytesRemaining h"
    by (auto simp: heap_ok_def heap_inv_def split: if_splits)
  from vPortFree_tiled [OF tl a] obtain h' fl' where
    h': "vPortFree_claims (of_nat (a + 8)) h" "vPortFree_body (of_nat (a + 8)) h = Some h'"
    "heap_tiled h' fl' (al(a := None))" "seg_total fl' = seg_total fl + t"
    "xMinimumEverFreeBytesRemaining h' = xMinimumEverFreeBytesRemaining h" by blast
  have total: "unat (xFreeBytesRemaining h0) = seg_total fl0" if "heap_tiled h0 fl0 al0" for h0 fl0 al0
  proof -
    have pl: "placed h0" and fr: "free_rep h0 fl0" using that by (simp_all add: heap_tiled_def)
    have "seg_total fl0 < 2 ^ 32"
      using seg_total_le [OF free_repD(4) [OF fr]] placed_bounds [OF pl] by simp
    then show ?thesis using free_repD(6) [OF fr] by simp
  qed
  have f: "unat (xFreeBytesRemaining h') = unat (xFreeBytesRemaining h) + t"
    using total [OF tl] total [OF h'(3)] h'(4) by simp
  then have "xMinimumEverFreeBytesRemaining h' \<le> xFreeBytesRemaining h'"
    using mn h'(5) by (simp add: word_le_nat_alt)
  then have "heap_ok h' (al(a := None))" using heap_tiledD [OF h'(3)] by (simp add: heap_ok_def)
  with h'(1,2) f show ?thesis by blast
qed

lemma heap_reach_ok: "heap_reach h al \<Longrightarrow> heap_ok h al"
proof (induction rule: heap_reach.induct)
  case (malloc h al w p h')
  then show ?case using malloc_step_ok [of h al w] by auto
next
  case (release h al a t h')
  then show ?case using free_step_ok [of h al a t] by (auto simp del: fun_upd_apply)
next
  case (client h al a t r v v')
  then obtain fl where "heap_tiled h fl al" and mn: "xMinimumEverFreeBytesRemaining h \<le> xFreeBytesRemaining h"
    by (auto simp: heap_ok_def heap_inv_def split: if_splits)
  with client_write_tiled [of h fl al a t r v v'] client
  have "heap_tiled (client_write r v v' h) fl al" by simp
  from heap_tiledD [OF this] mn show ?case by (simp add: heap_ok_def client_write_def)
qed (simp add: heap_ok_def)

text \<open>The live blocks by the pointers handed out.\<close>

definition payloads :: "live \<Rightarrow> u32 \<rightharpoonup> nat" where
  "payloads al = (\<lambda>p. if 8 \<le> unat p then al (unat p - 8) else None)"

definition payload_inv :: "heap4 \<Rightarrow> (u32 \<rightharpoonup> nat) \<Rightarrow> bool" where
  "payload_inv h f \<longleftrightarrow> (\<exists>al. heap_ok h al \<and> f = payloads al)"

lemma payloads_upd: "8 \<le> unat p \<Longrightarrow> payloads (al(unat p - 8 := x)) = (payloads al)(p := x)"
proof
  fix q assume p: "8 \<le> unat p"
  show "payloads (al(unat p - 8 := x)) q = ((payloads al)(p := x)) q"
  proof (cases "q = p")
    case False
    then have "unat q \<noteq> unat p" by (simp add: word_unat_eq_iff)
    with p False show ?thesis by (auto simp: payloads_def)
  qed (use p in \<open>simp add: payloads_def\<close>)
qed

interpretation heap: block_allocator payload_inv pvPortMalloc_body vPortFree_body 0
proof
  fix h f w assume "payload_inv h f"
  then obtain al where ok: "heap_ok h al" and f: "f = payloads al" by (auto simp: payload_inv_def)
  from malloc_step_ok [OF ok, of w] obtain p h' where
    m: "pvPortMalloc_body w h = Some (p, h')" and
    c: "p = 0 \<and> heap_ok h' al \<or>
      p \<noteq> 0 \<and> 8 \<le> unat p \<and> al (unat p - 8) = None \<and> heap_ok h' (al(unat p - 8 \<mapsto> block_bytes p h'))" by blast
  from c have "p = 0 \<and> payload_inv h' f \<or> p \<noteq> 0 \<and> f p = None \<and> (\<exists>n. payload_inv h' (f(p \<mapsto> n)))"
  proof (elim disjE conjE)
    assume p: "p \<noteq> 0" "8 \<le> unat p" "al (unat p - 8) = None" "heap_ok h' (al(unat p - 8 \<mapsto> block_bytes p h'))"
    then have "payload_inv h' (f(p \<mapsto> block_bytes p h'))"
      unfolding payload_inv_def f using payloads_upd [OF p(2), of al] by auto
    moreover have "f p = None" using p by (simp add: f payloads_def)
    ultimately show ?thesis using p(1) by blast
  qed (auto simp: payload_inv_def f)
  with m show "\<exists>p h'. pvPortMalloc_body w h = Some (p, h') \<and>
      (p = 0 \<and> payload_inv h' f \<or> p \<noteq> 0 \<and> f p = None \<and> (\<exists>n. payload_inv h' (f(p \<mapsto> n))))" by blast
next
  fix h f p n assume "payload_inv h f" and p: "f p = Some n"
  then obtain al where ok: "heap_ok h al" and f: "f = payloads al" by (auto simp: payload_inv_def)
  with p have 8: "8 \<le> unat p" and a: "al (unat p - 8) = Some n" by (auto simp: payloads_def split: if_splits)
  have "of_nat (unat p - 8 + 8) = p" using 8 by simp
  with free_step_ok [OF ok a] obtain h' where "vPortFree_body p h = Some h'" "heap_ok h' (al(unat p - 8 := None))"
    by auto
  then show "\<exists>h'. vPortFree_body p h = Some h' \<and> payload_inv h' (f(p := None))"
    using payloads_upd [OF 8, of al None] unfolding payload_inv_def f by metis
qed

text \<open>A heap that is free throughout is one block.\<close>

lemma segs_ok_apart:
  "segs_ok lo hi fl \<Longrightarrow> x \<in> set fl \<Longrightarrow> y \<in> set fl \<Longrightarrow> x \<noteq> y \<Longrightarrow> seg_end x < fst y \<or> seg_end y < fst x"
  by (induction fl) (auto simp: segs_ok_Cons)

lemma cover_interval:
  assumes ok: "segs_ok lo hi fl" and c: "{a ..< a + n} \<subseteq> cover fl" and "0 < n"
  shows "\<exists>x\<in>set fl. fst x \<le> a \<and> a + n \<le> seg_end x"
proof -
  have "a \<in> {a ..< a + n}" using \<open>0 < n\<close> by simp
  with c have "a \<in> cover fl" by blast
  then obtain x where x: "x \<in> set fl" "fst x \<le> a" "a < seg_end x" by (auto simp: cover_def)
  have "a + n \<le> seg_end x"
  proof (rule ccontr)
    assume "\<not> ?thesis"
    then have "seg_end x \<in> cover fl" using c x by auto
    then obtain y where y: "y \<in> set fl" "fst y \<le> seg_end x" "seg_end x < seg_end y" by (auto simp: cover_def)
    then have "x \<noteq> y" by auto
    from segs_ok_apart [OF ok x(1) y(1) this] y x show False by linarith
  qed
  with x show ?thesis by blast
qed

lemma cover_all:
  assumes ok: "segs_ok lo hi fl" and c: "cover fl = {lo ..< hi}" and "lo < hi"
  shows "fl = [(lo, hi - lo)]"
proof -
  have "{lo ..< lo + (hi - lo)} \<subseteq> cover fl" using c \<open>lo < hi\<close> by simp
  from cover_interval [OF ok this] obtain x where x: "x \<in> set fl" "fst x \<le> lo" "hi \<le> seg_end x"
    using \<open>lo < hi\<close> by auto
  have b: "lo \<le> fst y \<and> seg_end y \<le> hi \<and> 0 < snd y" if "y \<in> set fl" for y
    using ok that by (auto simp: segs_ok_def)
  from b [OF x(1)] x have e: "x = (lo, hi - lo)" by (cases x) auto
  have "y = x" if "y \<in> set fl" for y
    using segs_ok_apart [OF ok x(1) that] b [OF that] b [OF x(1)] x by (cases "y = x") auto
  then have "set fl = {x}" using x by blast
  moreover have "distinct fl" using ok unfolding segs_ok_def
    by (induction fl) auto
  ultimately have "fl = [x]"
    by (metis distinct_card card_1_singleton_iff list.set_intros(1) length_0_conv length_Suc_conv
        One_nat_def set_empty2 singletonD insert_not_empty is_singletonI is_singleton_altdef)
  with e show ?thesis by simp
qed

text \<open>The bytes an initialised heap manages.\<close>

definition heap_bytes :: "heap4 \<Rightarrow> nat set" where
  "heap_bytes h = {heap_lo h ..< heap_hi h}"

lemma tiled_free_bytes:
  assumes "heap_tiled h fl al"
  shows "cover fl = heap_bytes h - live_cover al"
    and "unat (xFreeBytesRemaining h) + card (live_cover al) = heap_hi h - heap_lo h"
proof -
  have pl: "placed h" and fr: "free_rep h fl" and t: "cover fl \<inter> live_cover al = {}"
    "cover fl \<union> live_cover al = {heap_lo h ..< heap_hi h}"
    using assms by (simp_all add: heap_tiled_def)
  note ok = free_repD(4) [OF fr] and pb = placed_bounds [OF pl]
  show "cover fl = heap_bytes h - live_cover al" using t by (auto simp: heap_bytes_def)
  have "card (cover fl) = seg_total fl"
    using ok
  proof (induction fl)
    case (Cons x fl)
    have g: "\<forall>y\<in>set fl. seg_end x < fst y" using Cons.prems by (simp add: segs_ok_Cons)
    have "r \<notin> cover fl" if "r < seg_end x" for r
    proof
      assume "r \<in> cover fl"
      then obtain y where y: "y \<in> set fl" "fst y \<le> r" by (auto simp: cover_def)
      with bspec [OF g y(1)] that show False by simp
    qed
    then have "{fst x ..< seg_end x} \<inter> cover fl = {}" by auto
    moreover have "finite (cover fl)" by (simp add: cover_def)
    ultimately show ?case using Cons by (simp add: card_Un_disjoint segs_ok_Cons)
  qed simp
  moreover have "card (cover fl \<union> live_cover al) = card (cover fl) + card (live_cover al)"
  proof (rule card_Un_disjoint [OF _ _ t(1)])
    show "finite (cover fl)" by (simp add: cover_def)
    have "live_cover al \<subseteq> {heap_lo h ..< heap_hi h}" using t(2) by blast
    then show "finite (live_cover al)" by (rule finite_subset) simp
  qed
  ultimately have "seg_total fl + card (live_cover al) = heap_hi h - heap_lo h" unfolding t(2) by simp
  moreover have "seg_total fl < 2 ^ 32" using seg_total_le [OF ok] pb by simp
  ultimately show "unat (xFreeBytesRemaining h) + card (live_cover al) = heap_hi h - heap_lo h"
    using free_repD(6) [OF fr] by simp
qed

lemma malloc_grants:
  assumes t: "heap_tiled h fl al" and x: "x \<in> set fl" "need (unat w) \<le> snd x" and w: "0 < unat w" "unat w < 2 ^ 31"
  shows "\<exists>p h'. pvPortMalloc_body w h = Some (p, h') \<and> p \<noteq> 0"
  using pvPortMalloc_tiled [OF t, of w]
proof (elim disjE conjE exE)
  fix us b s vs h' u
  assume r: "pvPortMalloc_body w h = Some (of_nat (b + 8), h')" "{b ..< b + u} \<subseteq> {heap_lo h ..< heap_hi h}"
    "need (unat w) \<le> u"
  have pl: "placed h" using t by (simp add: heap_tiled_def)
  have "0 < u" using r(3) need_bounds(4) [of "unat w"] by linarith
  then have "b < heap_hi h" using r(2) by auto
  then have "(of_nat (b + 8) :: u32) \<noteq> 0" using placed_bounds [OF pl] by (subst w32_zero) auto
  with r(1) show ?thesis by blast
qed (use x w in \<open>auto dest: bspec\<close>)

lemma heap_reach_tiled:
  assumes "heap_reach h al"
  obtains fl where "heap_tiled (init_heap h) fl al" "ucHeap (init_heap h) = ucHeap h"
    "xMinimumEverFreeBytesRemaining (init_heap h) \<le> xFreeBytesRemaining (init_heap h)"
    "pvPortMalloc_body w (init_heap h) = pvPortMalloc_body w h"
  using init_heap_tiled [OF heap_reach_ok [OF assms]] by blast

section \<open>Properties\<close>

text \<open>A zeroed allocator as a linker may place it, with a misaligned array.\<close>

definition sample_heap :: heap4 where
  "sample_heap = \<lparr>pxNextFreeBlock = (\<lambda>_. 0), xBlockSize = (\<lambda>_. 0), xStart = 0x10000000, ucHeap = 0x10000104,
    pxEnd = 0, xFreeBytesRemaining = 0, xMinimumEverFreeBytesRemaining = 0, xBlockAllocatedBit = 0\<rparr>"

lemma sample_placed: "placed sample_heap"
  by (simp add: sample_heap_def placed_def)

lemma sample_end: "pxEnd sample_heap = 0"
  by (simp add: sample_heap_def)

lemma sample_reach: "heap_reach sample_heap Map.empty"
  by (rule heap_reach.start [OF sample_placed sample_end])

lemma sample_block:
  "\<exists>p h. pvPortMalloc_body 100 sample_heap = Some (p, h) \<and> p \<noteq> 0 \<and> heap_reach h [unat p - 8 \<mapsto> block_bytes p h]"
proof -
  have tl: "heap_tiled (init_heap sample_heap) [(heap_lo sample_heap, heap_hi sample_heap - heap_lo sample_heap)] Map.empty"
    and "pvPortMalloc_body 100 (init_heap sample_heap) = pvPortMalloc_body 100 sample_heap"
    using prvHeapInit_tiled [OF sample_placed] sample_end
    by (simp_all add: init_heap_def pvPortMalloc_body_def Let_def)
  moreover have "need (unat (100 :: u32)) \<le> heap_hi sample_heap - heap_lo sample_heap"
    using placed_bounds(2) [OF sample_placed] by (simp add: need_def)
  ultimately obtain p h where p: "pvPortMalloc_body 100 sample_heap = Some (p, h)" "p \<noteq> 0"
    using malloc_grants [OF tl, of _ 100] by auto
  with heap_reach.malloc [OF sample_reach p(1)] show ?thesis by auto
qed

text \<open>
  \<^bold>\<open>C4\<close>. Safety of \<open>pvPortMalloc\<close>. In every reachable heap the call returns, and a pointer that is not
  NULL is 8-byte aligned and designates at least the requested bytes inside \<open>ucHeap\<close>; the whole
  block, its header included, meets no live block; and the heap it leaves is again a reachable one,
  with the block live. Requests and frees in any order, with the application writing what it likes
  into its own blocks, never make two live blocks overlap.
\<close>

theorem pvPortMalloc_safe:
  assumes "heap_reach h al"
  shows "\<exists>p h'. pvPortMalloc_body w h = Some (p, h') \<and>
    (p \<noteq> 0 \<longrightarrow> 8 dvd unat p \<and> al (unat p - 8) = None \<and> unat w + 8 \<le> block_bytes p h' \<and>
      {unat p - 8 ..< unat p - 8 + block_bytes p h'} \<inter> live_cover al = {} \<and>
      {unat p - 8 ..< unat p - 8 + block_bytes p h'} \<subseteq> {unat (ucHeap h) ..< unat (ucHeap h) + 32768} \<and>
      heap_reach h' (al(unat p - 8 \<mapsto> block_bytes p h')))"
proof -
  have ok: "heap_ok h al" by (rule heap_reach_ok [OF assms])
  then have "placed h" by (simp add: heap_ok_def)
  then have sub: "{heap_lo h ..< heap_hi h} \<subseteq> {unat (ucHeap h) ..< unat (ucHeap h) + 32768}"
    using placed_bounds [of h] by auto
  from malloc_step_ok [OF ok, of w] obtain p h' where m: "pvPortMalloc_body w h = Some (p, h')"
    and c: "p \<noteq> 0 \<Longrightarrow> al (unat p - 8) = None \<and> 8 dvd unat p \<and> unat w + 8 \<le> block_bytes p h' \<and>
     {unat p - 8 ..< unat p - 8 + block_bytes p h'} \<inter> live_cover al = {} \<and>
     {unat p - 8 ..< unat p - 8 + block_bytes p h'} \<subseteq> {heap_lo h ..< heap_hi h}" by blast
  have "p \<noteq> 0 \<Longrightarrow> heap_reach h' (al(unat p - 8 \<mapsto> block_bytes p h'))"
    using heap_reach.malloc [OF assms m] by simp
  with m c sub show ?thesis by blast
qed

theorem pvPortMalloc_safe_witness:
  "\<exists>p h'. pvPortMalloc_body 100 sample_heap = Some (p, h') \<and> (p \<noteq> 0 \<longrightarrow> 8 dvd unat p)"
  using pvPortMalloc_safe [OF sample_reach, of 100] by blast

text \<open>
  \<^bold>\<open>C12\<close>. Completeness of first fit with coalescing. \<open>pvPortMalloc\<close> returns NULL exactly when the size is
  zero, has its top bit set, or no run of that many free bytes (with the header, rounded up to the
  alignment) exists anywhere in the heap: free memory is never lost to missed merges of
  neighbouring blocks.
\<close>

theorem pvPortMalloc_null_iff:
  assumes "heap_reach h al"
  shows "(\<exists>h'. pvPortMalloc_body w h = Some (0, h')) \<longleftrightarrow>
    unat w = 0 \<or> 2 ^ 31 \<le> unat w \<or> (\<nexists>a. {a ..< a + need (unat w)} \<subseteq> heap_bytes h - live_cover al)"
proof -
  from heap_reach_tiled [OF assms, of w] obtain fl where t: "heap_tiled (init_heap h) fl al"
    and uc: "ucHeap (init_heap h) = ucHeap h"
    and eq: "pvPortMalloc_body w (init_heap h) = pvPortMalloc_body w h" by blast
  have hb: "heap_bytes h = heap_bytes (init_heap h)" using heap_lo_cong [OF uc] by (simp add: heap_bytes_def)
  have ok: "segs_ok (heap_lo (init_heap h)) (heap_hi (init_heap h)) fl"
    using t free_repD(4) by (auto simp: heap_tiled_def)
  have run: "(\<exists>a. {a ..< a + n} \<subseteq> heap_bytes h - live_cover al) \<longleftrightarrow> (\<exists>x\<in>set fl. n \<le> snd x)" if "0 < n" for n
    unfolding hb tiled_free_bytes(1) [OF t, symmetric]
  proof
    assume "\<exists>a. {a ..< a + n} \<subseteq> cover fl"
    then obtain a where "{a ..< a + n} \<subseteq> cover fl" by blast
    from cover_interval [OF ok this that] show "\<exists>x\<in>set fl. n \<le> snd x"
      by (meson le_trans nat_add_left_cancel_le add_le_mono1)
  next
    assume "\<exists>x\<in>set fl. n \<le> snd x"
    then obtain x where "x \<in> set fl" "{fst x ..< fst x + n} \<subseteq> {fst x ..< seg_end x}" by auto
    then show "\<exists>a. {a ..< a + n} \<subseteq> cover fl" unfolding cover_def by blast
  qed
  note run' = run [of "need (unat w)", OF need_bounds(4)]
  show ?thesis
  proof
    assume "\<exists>h'. pvPortMalloc_body w h = Some (0, h')"
    then show "unat w = 0 \<or> 2 ^ 31 \<le> unat w \<or> (\<nexists>a. {a ..< a + need (unat w)} \<subseteq> heap_bytes h - live_cover al)"
      unfolding run' using malloc_grants [OF t, of _ w] eq by (force simp: not_le)
  next
    assume "unat w = 0 \<or> 2 ^ 31 \<le> unat w \<or> (\<nexists>a. {a ..< a + need (unat w)} \<subseteq> heap_bytes h - live_cover al)"
    then have no: "unat w = 0 \<or> 2 ^ 31 \<le> unat w \<or> (\<forall>x\<in>set fl. snd x < need (unat w))"
      unfolding run' by (auto simp: not_le)
    from pvPortMalloc_tiled [OF t, of w] show "\<exists>h'. pvPortMalloc_body w h = Some (0, h')"
    proof (elim disjE conjE exE)
      fix us b s vs
      assume "fl = us @ (b, s) # vs" "need (unat w) \<le> s" "0 < unat w" "unat w < 2 ^ 31"
      with no show ?thesis by auto
    qed (auto simp: eq)
  qed
qed

theorem pvPortMalloc_null_iff_witness:
  "\<exists>h'. pvPortMalloc_body 0xFFFFFFF8 sample_heap = Some (0, h')"
  using pvPortMalloc_null_iff [OF sample_reach, where w = "0xFFFFFFF8"] by simp

text \<open>
  The counters are exact. In every reachable initialised heap, \<open>xPortGetFreeHeapSize\<close> is the
  number of managed bytes that belong to no live block, and the minimum ever free is at most that.
\<close>

theorem xPortGetFreeHeapSize_exact:
  assumes "heap_reach h al" and "pxEnd h \<noteq> 0"
  shows "unat (xPortGetFreeHeapSize h) = card (heap_bytes h) - card (live_cover al) \<and>
    card (live_cover al) \<le> card (heap_bytes h) \<and>
    xPortGetMinimumEverFreeHeapSize h \<le> xPortGetFreeHeapSize h"
proof -
  have "heap_ok h al" by (rule heap_reach_ok [OF assms(1)])
  then obtain fl where "heap_tiled h fl al" and "xMinimumEverFreeBytesRemaining h \<le> xFreeBytesRemaining h"
    using assms(2) by (auto simp: heap_ok_def heap_inv_def)
  with tiled_free_bytes(2) [OF this(1)] show ?thesis
    by (simp add: heap_bytes_def xPortGetFreeHeapSize_def xPortGetMinimumEverFreeHeapSize_def)
qed

theorem xPortGetFreeHeapSize_exact_witness:
  "\<exists>p h. pvPortMalloc_body 100 sample_heap = Some (p, h) \<and>
    unat (xPortGetFreeHeapSize h) = card (heap_bytes h) - card (live_cover [unat p - 8 \<mapsto> block_bytes p h])"
proof -
  from sample_block obtain p h where p: "pvPortMalloc_body 100 sample_heap = Some (p, h)"
    and r: "heap_reach h [unat p - 8 \<mapsto> block_bytes p h]" by blast
  have "pxEnd h \<noteq> 0" using heap_reach_ok [OF r] by (auto simp: heap_ok_def split: if_splits)
  from xPortGetFreeHeapSize_exact [OF r this] p show ?thesis by blast
qed

text \<open>
  Freeing. For every live block, \<open>vPortFree\<close> of its payload passes the code's ownership checks,
  returns, releases exactly the block's bytes to the counter, and leaves a reachable heap in which
  the block is no longer live.
\<close>

theorem vPortFree_releases:
  assumes "heap_reach h al" and "al a = Some t"
  shows "\<exists>h'. vPortFree_claims (of_nat (a + 8)) h \<and> vPortFree_body (of_nat (a + 8)) h = Some h' \<and>
    unat (xFreeBytesRemaining h') = unat (xFreeBytesRemaining h) + t \<and> heap_reach h' (al(a := None))"
proof -
  from free_step_ok [OF heap_reach_ok [OF assms(1)] assms(2)] obtain h' where
    h': "vPortFree_claims (of_nat (a + 8)) h" "vPortFree_body (of_nat (a + 8)) h = Some h'"
    "unat (xFreeBytesRemaining h') = unat (xFreeBytesRemaining h) + t" by blast
  with heap_reach.release [OF assms h'(2)] show ?thesis by blast
qed

theorem vPortFree_releases_witness:
  "\<exists>p h h'. pvPortMalloc_body 100 sample_heap = Some (p, h) \<and> vPortFree_body p h = Some h' \<and>
    heap_reach h' Map.empty"
proof -
  from sample_block obtain p h where p: "pvPortMalloc_body 100 sample_heap = Some (p, h)" "p \<noteq> 0"
    and r: "heap_reach h [unat p - 8 \<mapsto> block_bytes p h]" by blast
  have "8 \<le> unat p"
    using malloc_step_ok [OF heap_reach_ok [OF sample_reach], of 100] p by auto
  then have "of_nat (unat p - 8 + 8) = p" by simp
  with vPortFree_releases [OF r, of "unat p - 8" "block_bytes p h"] p show ?thesis by auto
qed

text \<open>
  No fragmentation survives. A client that, starting with nothing live, makes any sequence of
  requests and then frees what it was granted in any order leaves the heap as \<open>prvHeapInit\<close>
  made it: one free block of the full size between \<open>xStart\<close> and \<open>pxEnd\<close>, and the full byte count.
\<close>

theorem alloc_free_pristine:
  assumes "heap_reach h Map.empty"
  shows "\<exists>ps h'. alloc_all pvPortMalloc_body ws h = Some (ps, h') \<and>
    (\<forall>qs. mset qs = mset (filter (\<lambda>p. p \<noteq> 0) ps) \<longrightarrow>
      (\<exists>h''. free_all vPortFree_body qs h' = Some h'' \<and>
        (pxEnd h'' \<noteq> 0 \<longrightarrow> pxNextFreeBlock h'' (xStart h'') = of_nat (heap_lo h'') \<and>
          xBlockSize h'' (of_nat (heap_lo h'')) = of_nat (heap_hi h'' - heap_lo h'') \<and>
          pxNextFreeBlock h'' (of_nat (heap_lo h'')) = pxEnd h'' \<and>
          xPortGetFreeHeapSize h'' = of_nat (heap_hi h'' - heap_lo h''))))"
proof -
  have e: "payloads Map.empty = Map.empty" by (auto simp: payloads_def)
  have "payload_inv h Map.empty"
    using heap_reach_ok [OF assms] e by (auto simp: payload_inv_def intro!: exI [of _ Map.empty])
  from heap.alloc_free_balanced [OF this, of ws] obtain ps h' where
    a: "alloc_all pvPortMalloc_body ws h = Some (ps, h')" and
    f: "\<And>qs. mset qs = mset (filter (\<lambda>p. p \<noteq> 0) ps) \<Longrightarrow>
      \<exists>h''. free_all vPortFree_body qs h' = Some h'' \<and> payload_inv h'' Map.empty" by blast
  have pristine: "pxNextFreeBlock k (xStart k) = of_nat (heap_lo k) \<and>
      xBlockSize k (of_nat (heap_lo k)) = of_nat (heap_hi k - heap_lo k) \<and>
      pxNextFreeBlock k (of_nat (heap_lo k)) = pxEnd k \<and> xPortGetFreeHeapSize k = of_nat (heap_hi k - heap_lo k)"
    if inv: "payload_inv k Map.empty" and "pxEnd k \<noteq> 0" for k
  proof -
    from that obtain al fl where al: "payloads al = Map.empty" and t: "heap_tiled k fl al"
      by (auto simp: payload_inv_def heap_ok_def heap_inv_def)
    have fr: "free_rep k fl" and live: "live_ok k al" and pl: "placed k"
      and tile: "cover fl \<union> live_cover al = {heap_lo k ..< heap_hi k}" using t by (simp_all add: heap_tiled_def)
    have "al a = None" for a
    proof (cases "al a")
      case (Some u)
      have "a + 8 < 2 ^ 32" using live_okD [OF live Some] placed_bounds [OF pl] by simp
      then have "unat (of_nat (a + 8) :: u32) = a + 8" by (rule w32_unat)
      then have "payloads al (of_nat (a + 8)) = Some u" using Some by (simp add: payloads_def)
      with al show ?thesis by simp
    qed
    then have "live_cover al = {}" by (simp add: live_cover_def)
    with tile have "fl = [(heap_lo k, heap_hi k - heap_lo k)]"
      using cover_all [OF free_repD(4) [OF fr]] placed_bounds(2) [OF pl] by simp
    with free_repD(5,6) [OF fr] show ?thesis by (simp add: xPortGetFreeHeapSize_def)
  qed
  with a f show ?thesis by blast
qed

theorem alloc_free_pristine_witness:
  "\<exists>ps h'. alloc_all pvPortMalloc_body [100, 8, 3000] sample_heap = Some (ps, h') \<and>
    (\<exists>h''. free_all vPortFree_body (rev (filter (\<lambda>p. p \<noteq> 0) ps)) h' = Some h'')"
  using alloc_free_pristine [OF sample_reach, of "[100, 8, 3000]"] by (metis mset_rev)

end
