(* ===== verification/Sched.thy ===== *)
theory Sched imports Klist "HOL-Library.Monad_Syntax" begin

text \<open>
  The scheduler (\<open>freertos/src/tasks.c\<close>): task control blocks, the ready, delayed, suspended and
  pending lists, the tick, blocking and unblocking, suspension of the scheduler, priority changes and
  the priority inheritance of mutexes.

  Tasks are the addresses of their control blocks. A list is the \<open>klist\<close> its cells represent (see
  the theory of the lists, whose refinement lemmas justify it): state lists hold the tasks'
  \<open>xStateListItem\<close>s, event lists (and \<open>xPendingReadyList\<close>) their \<open>xEventListItem\<close>s; the item values and
  containers are fields of the control block. An operation that would follow a NULL container, take
  the head of an empty list, or index \<open>pxReadyTasksLists\<close> out of its range returns \<open>None\<close>.

  \<open>portYIELD\<close> pends the context-switch exception: it sets \<open>yield_requested\<close>, and \<open>xPortPendSV\<close>, when it
  runs, calls \<open>vTaskSwitchContext\<close>. Trace macros are empty and assertions are not compiled in.
\<close>

unbundle bit_operations_syntax

section \<open>State\<close>

abbreviation (input) "configMAX_PRIORITIES \<equiv> (8 :: u32)"
abbreviation (input) "taskEVENT_LIST_ITEM_VALUE_IN_USE \<equiv> (0x80000000 :: u32)"
abbreviation (input) "taskNOT_WAITING_NOTIFICATION \<equiv> (0 :: u8)"
abbreviation (input) "taskWAITING_NOTIFICATION \<equiv> (1 :: u8)"
abbreviation (input) "taskNOTIFICATION_RECEIVED \<equiv> (2 :: u8)"

text \<open>The lists state items can be in, and those event items can be in (named by their address).\<close>

datatype slist = Ready u32 | xDelayedTaskList1 | xDelayedTaskList2 | xSuspendedTaskList | xTasksWaitingTermination

datatype elist = xPendingReadyList | EventList addr

record tcb =
  stItemValue :: u32
  stContainer :: "slist option"
  evItemValue :: u32
  evContainer :: "elist option"
  uxPriority :: u32
  uxBasePriority :: u32
  uxMutexesHeld :: u32
  uxTCBNumber :: u32
  ulNotifiedValue :: u32
  ucNotifyState :: u8

record sched =
  tcbs :: "addr \<Rightarrow> tcb"
  slists :: "slist \<Rightarrow> addr klist"
  elists :: "elist \<Rightarrow> addr klist"
  pxCurrentTCB :: addr
  pxDelayedTaskList :: slist
  pxOverflowDelayedTaskList :: slist
  uxCurrentNumberOfTasks :: u32
  xTickCount :: u32
  uxTopReadyPriority :: u32
  xSchedulerRunning :: bool
  uxPendedTicks :: u32
  xYieldPending :: bool
  xNumOfOverflows :: u32
  uxTaskNumber :: u32
  xNextTaskUnblockTime :: u32
  uxSchedulerSuspended :: u32
  uxDeletedTasksWaitingCleanUp :: u32
  yield_requested :: bool

abbreviation upd_tcb :: "addr \<Rightarrow> (tcb \<Rightarrow> tcb) \<Rightarrow> sched \<Rightarrow> sched" where
  "upd_tcb t f s \<equiv> s\<lparr>tcbs := (tcbs s)(t := f (tcbs s t))\<rparr>"

abbreviation prio :: "sched \<Rightarrow> addr \<Rightarrow> u32" where
  "prio s t \<equiv> uxPriority (tcbs s t)"

abbreviation st_items :: "sched \<Rightarrow> slist \<Rightarrow> addr list" where
  "st_items s L \<equiv> kl_items (slists s L)"

abbreviation ev_items :: "sched \<Rightarrow> elist \<Rightarrow> addr list" where
  "ev_items s E \<equiv> kl_items (elists s E)"

section \<open>List operations on items of control blocks\<close>

text \<open>\<open>uxListRemove\<close> on a state item: the number of items left (fewer control blocks than \<open>2 ^ 32\<close> fit
  the address space, so the 32-bit count is exact) and the state.\<close>

definition st_remove :: "addr \<Rightarrow> sched \<Rightarrow> (nat \<times> sched) option" where
  "st_remove t s =
    (case stContainer (tcbs s t) of None \<Rightarrow> None
     | Some L \<Rightarrow>
        (let l = klist_remove t (slists s L);
             s = s\<lparr>slists := (slists s)(L := l)\<rparr>;
             s = upd_tcb t (\<lambda>c. c\<lparr>stContainer := None\<rparr>) s
         in Some (length (kl_items l), s)))"

definition st_insert_end :: "slist \<Rightarrow> addr \<Rightarrow> sched \<Rightarrow> sched" where
  "st_insert_end L t s =
    (let s = s\<lparr>slists := (slists s)(L := klist_insert_end t (slists s L))\<rparr>
     in upd_tcb t (\<lambda>c. c\<lparr>stContainer := Some L\<rparr>) s)"

definition st_insert :: "slist \<Rightarrow> addr \<Rightarrow> sched \<Rightarrow> sched" where
  "st_insert L t s =
    (let s = s\<lparr>slists := (slists s)(L := klist_insert (\<lambda>u. stItemValue (tcbs s u)) t (slists s L))\<rparr>
     in upd_tcb t (\<lambda>c. c\<lparr>stContainer := Some L\<rparr>) s)"

definition ev_remove :: "addr \<Rightarrow> sched \<Rightarrow> (nat \<times> sched) option" where
  "ev_remove t s =
    (case evContainer (tcbs s t) of None \<Rightarrow> None
     | Some E \<Rightarrow>
        (let l = klist_remove t (elists s E);
             s = s\<lparr>elists := (elists s)(E := l)\<rparr>;
             s = upd_tcb t (\<lambda>c. c\<lparr>evContainer := None\<rparr>) s
         in Some (length (kl_items l), s)))"

definition ev_insert_end :: "elist \<Rightarrow> addr \<Rightarrow> sched \<Rightarrow> sched" where
  "ev_insert_end E t s =
    (let s = s\<lparr>elists := (elists s)(E := klist_insert_end t (elists s E))\<rparr>
     in upd_tcb t (\<lambda>c. c\<lparr>evContainer := Some E\<rparr>) s)"

definition ev_insert :: "elist \<Rightarrow> addr \<Rightarrow> sched \<Rightarrow> sched" where
  "ev_insert E t s =
    (let s = s\<lparr>elists := (elists s)(E := klist_insert (\<lambda>u. evItemValue (tcbs s u)) t (elists s E))\<rparr>
     in upd_tcb t (\<lambda>c. c\<lparr>evContainer := Some E\<rparr>) s)"

fun head_owner :: "'a klist \<Rightarrow> 'a option" where
  "head_owner l = (case kl_items l of [] \<Rightarrow> None | x # _ \<Rightarrow> Some x)"

section \<open>The port's ready bitmap and the yield request\<close>

definition portRECORD_READY_PRIORITY :: "u32 \<Rightarrow> u32 \<Rightarrow> u32" where
  "portRECORD_READY_PRIORITY p bm = bm OR push_bit (unat p) 1"

definition portRESET_READY_PRIORITY :: "u32 \<Rightarrow> u32 \<Rightarrow> u32" where
  "portRESET_READY_PRIORITY p bm = bm AND NOT (push_bit (unat p) 1)"

definition ucPortCountLeadingZeros :: "u32 \<Rightarrow> nat" where
  "ucPortCountLeadingZeros w = length (takeWhile (\<lambda>n. \<not> bit w n) (rev [0..<32]))"

definition portGET_HIGHEST_PRIORITY :: "u32 \<Rightarrow> u32" where
  "portGET_HIGHEST_PRIORITY bm = 31 - of_nat (ucPortCountLeadingZeros bm)"

definition taskRESET_READY_PRIORITY :: "u32 \<Rightarrow> sched \<Rightarrow> sched" where
  "taskRESET_READY_PRIORITY p s =
    (if st_items s (Ready p) = []
     then s\<lparr>uxTopReadyPriority := portRESET_READY_PRIORITY p (uxTopReadyPriority s)\<rparr> else s)"

definition portYIELD :: "sched \<Rightarrow> sched" where
  "portYIELD s = s\<lparr>yield_requested := True\<rparr>"

definition prvAddTaskToReadyList :: "addr \<Rightarrow> sched \<Rightarrow> sched" where
  "prvAddTaskToReadyList t s =
    (let s = s\<lparr>uxTopReadyPriority := portRECORD_READY_PRIORITY (prio s t) (uxTopReadyPriority s)\<rparr>
     in st_insert_end (Ready (prio s t)) t s)"

definition prvGetTCBFromHandle :: "addr \<Rightarrow> sched \<Rightarrow> addr" where
  "prvGetTCBFromHandle h s = (if h = NULL then pxCurrentTCB s else h)"

section \<open>Context switch\<close>

text \<open>The next task of the highest ready priority. The list must have an owner to hand out.\<close>

definition taskSELECT_HIGHEST_PRIORITY_TASK :: "sched \<Rightarrow> sched option" where
  "taskSELECT_HIGHEST_PRIORITY_TASK s =
    (let uxTopPriority = portGET_HIGHEST_PRIORITY (uxTopReadyPriority s)
     in if uxTopPriority < configMAX_PRIORITIES
        then (case klist_next (slists s (Ready uxTopPriority)) of
                (None, _) \<Rightarrow> None
              | (Some t, l) \<Rightarrow> Some (s\<lparr>slists := (slists s)(Ready uxTopPriority := l), pxCurrentTCB := t\<rparr>))
        else None)"

definition vTaskSwitchContext :: "sched \<Rightarrow> sched option" where
  "vTaskSwitchContext s =
    (if uxSchedulerSuspended s \<noteq> 0 then Some (s\<lparr>xYieldPending := True\<rparr>)
     else taskSELECT_HIGHEST_PRIORITY_TASK (s\<lparr>xYieldPending := False\<rparr>))"

definition xPortPendSV :: "sched \<Rightarrow> sched option" where
  "xPortPendSV s =
    (if yield_requested s then vTaskSwitchContext (s\<lparr>yield_requested := False\<rparr>) else Some s)"

section \<open>Time\<close>

definition prvResetNextTaskUnblockTime :: "sched \<Rightarrow> sched" where
  "prvResetNextTaskUnblockTime s =
    (case st_items s (pxDelayedTaskList s) of
       [] \<Rightarrow> s\<lparr>xNextTaskUnblockTime := portMAX_DELAY\<rparr>
     | t # _ \<Rightarrow> s\<lparr>xNextTaskUnblockTime := stItemValue (tcbs s t)\<rparr>)"

definition taskSWITCH_DELAYED_LISTS :: "sched \<Rightarrow> sched" where
  "taskSWITCH_DELAYED_LISTS s =
    (let pxTemp = pxDelayedTaskList s;
         s = s\<lparr>pxDelayedTaskList := pxOverflowDelayedTaskList s\<rparr>;
         s = s\<lparr>pxOverflowDelayedTaskList := pxTemp\<rparr>;
         s = s\<lparr>xNumOfOverflows := xNumOfOverflows s + 1\<rparr>
     in prvResetNextTaskUnblockTime s)"

text \<open>Unlinking a task from an event list, if it is in one.\<close>

definition ev_unlink :: "addr \<Rightarrow> sched \<Rightarrow> sched option" where
  "ev_unlink t s =
    (if evContainer (tcbs s t) \<noteq> None then map_option snd (ev_remove t s) else Some s)"

partial_function (option) tick_unblock :: "bool \<Rightarrow> sched \<Rightarrow> (bool \<times> sched) option" where
  "tick_unblock xSwitchRequired s =
    (case st_items s (pxDelayedTaskList s) of
       [] \<Rightarrow> Some (xSwitchRequired, s\<lparr>xNextTaskUnblockTime := portMAX_DELAY\<rparr>)
     | t # _ \<Rightarrow>
        if xTickCount s < stItemValue (tcbs s t)
        then Some (xSwitchRequired, s\<lparr>xNextTaskUnblockTime := stItemValue (tcbs s t)\<rparr>)
        else do {
          (_, s) \<leftarrow> st_remove t s;
          s \<leftarrow> ev_unlink t s;
          let s = prvAddTaskToReadyList t s;
          tick_unblock (if prio s t \<ge> prio s (pxCurrentTCB s) then True else xSwitchRequired) s
        })"

definition xTaskIncrementTick :: "sched \<Rightarrow> (bool \<times> sched) option" where
  "xTaskIncrementTick s = do {
    (xSwitchRequired, s) \<leftarrow>
      (if uxSchedulerSuspended s = 0
       then do {
         let s = s\<lparr>xTickCount := xTickCount s + 1\<rparr>;
         let s = (if xTickCount s = 0 then taskSWITCH_DELAYED_LISTS s else s);
         (xSwitchRequired, s) \<leftarrow>
           (if xTickCount s \<ge> xNextTaskUnblockTime s then tick_unblock False s else Some (False, s));
         Some (if length (st_items s (Ready (prio s (pxCurrentTCB s)))) > 1 then True else xSwitchRequired, s)
       }
       else Some (False, s\<lparr>uxPendedTicks := uxPendedTicks s + 1\<rparr>));
    Some (if xYieldPending s then True else xSwitchRequired, s)
  }"

text \<open>The tick interrupt.\<close>

definition xPortSysTickHandler :: "sched \<Rightarrow> sched option" where
  "xPortSysTickHandler s = do {
    (xSwitchRequired, s) \<leftarrow> xTaskIncrementTick s;
    Some (if xSwitchRequired then portYIELD s else s)
  }"

definition xTaskGetTickCount :: "sched \<Rightarrow> u32" where
  "xTaskGetTickCount s = xTickCount s"

definition prvAddCurrentTaskToDelayedList :: "u32 \<Rightarrow> bool \<Rightarrow> sched \<Rightarrow> sched option" where
  "prvAddCurrentTaskToDelayedList xTicksToWait xCanBlockIndefinitely s = do {
    let t = pxCurrentTCB s;
    (n, s) \<leftarrow> st_remove t s;
    let s = (if n = 0
             then s\<lparr>uxTopReadyPriority := portRESET_READY_PRIORITY (prio s t) (uxTopReadyPriority s)\<rparr> else s);
    if xTicksToWait = portMAX_DELAY \<and> xCanBlockIndefinitely
    then Some (st_insert_end xSuspendedTaskList t s)
    else do {
      let xTimeToWake = xTickCount s + xTicksToWait;
      let s = upd_tcb t (\<lambda>c. c\<lparr>stItemValue := xTimeToWake\<rparr>) s;
      if xTimeToWake < xTickCount s
      then Some (st_insert (pxOverflowDelayedTaskList s) t s)
      else do {
        let s = st_insert (pxDelayedTaskList s) t s;
        Some (if xTimeToWake < xNextTaskUnblockTime s then s\<lparr>xNextTaskUnblockTime := xTimeToWake\<rparr> else s)
      }
    }
  }"

section \<open>Suspending and resuming the scheduler\<close>

definition vTaskSuspendAll :: "sched \<Rightarrow> sched" where
  "vTaskSuspendAll s = s\<lparr>uxSchedulerSuspended := uxSchedulerSuspended s + 1\<rparr>"

text \<open>The move of the pending tasks; the flag says whether there was one.\<close>

partial_function (option) resume_pending :: "bool \<Rightarrow> sched \<Rightarrow> (bool \<times> sched) option" where
  "resume_pending any s =
    (case ev_items s xPendingReadyList of
       [] \<Rightarrow> Some (any, s)
     | t # _ \<Rightarrow> do {
         (_, s) \<leftarrow> ev_remove t s;
         (_, s) \<leftarrow> st_remove t s;
         let s = prvAddTaskToReadyList t s;
         resume_pending True (if prio s t \<ge> prio s (pxCurrentTCB s) then s\<lparr>xYieldPending := True\<rparr> else s)
       })"

fun resume_ticks :: "nat \<Rightarrow> sched \<Rightarrow> sched option" where
  "resume_ticks 0 s = Some s"
| "resume_ticks (Suc n) s = do {
     (sw, s) \<leftarrow> xTaskIncrementTick s;
     resume_ticks n (if sw then s\<lparr>xYieldPending := True\<rparr> else s)
   }"

definition xTaskResumeAll :: "sched \<Rightarrow> (bool \<times> sched) option" where
  "xTaskResumeAll s = do {
    let s = s\<lparr>uxSchedulerSuspended := uxSchedulerSuspended s - 1\<rparr>;
    if uxSchedulerSuspended s = 0 \<and> uxCurrentNumberOfTasks s > 0
    then do {
      (any, s) \<leftarrow> resume_pending False s;
      let s = (if any then prvResetNextTaskUnblockTime s else s);
      s \<leftarrow> (if uxPendedTicks s > 0
            then map_option (\<lambda>s. s\<lparr>uxPendedTicks := 0\<rparr>) (resume_ticks (unat (uxPendedTicks s)) s)
            else Some s);
      Some (if xYieldPending s then (True, portYIELD s) else (False, s))
    }
    else Some (False, s)
  }"

definition vTaskDelay :: "u32 \<Rightarrow> sched \<Rightarrow> sched option" where
  "vTaskDelay xTicksToDelay s = do {
    (xAlreadyYielded, s) \<leftarrow>
      (if xTicksToDelay > 0
       then do {
         let s = vTaskSuspendAll s;
         s \<leftarrow> prvAddCurrentTaskToDelayedList xTicksToDelay False s;
         xTaskResumeAll s
       }
       else Some (False, s));
    Some (if \<not> xAlreadyYielded then portYIELD s else s)
  }"

text \<open>\<open>vTaskDelayUntil\<close>: the new \<open>*pxPreviousWakeTime\<close> and the state.\<close>

definition delay_until_should :: "u32 \<Rightarrow> u32 \<Rightarrow> u32 \<Rightarrow> bool" where
  "delay_until_should xConstTickCount xPreviousWakeTime xTimeToWake =
    (if xConstTickCount < xPreviousWakeTime
     then xTimeToWake < xPreviousWakeTime \<and> xTimeToWake > xConstTickCount
     else xTimeToWake < xPreviousWakeTime \<or> xTimeToWake > xConstTickCount)"

definition vTaskDelayUntil :: "u32 \<Rightarrow> u32 \<Rightarrow> sched \<Rightarrow> (u32 \<times> sched) option" where
  "vTaskDelayUntil xPreviousWakeTime xTimeIncrement s = do {
    let s = vTaskSuspendAll s;
    let xConstTickCount = xTickCount s;
    let xTimeToWake = xPreviousWakeTime + xTimeIncrement;
    s \<leftarrow> (if delay_until_should xConstTickCount xPreviousWakeTime xTimeToWake
          then prvAddCurrentTaskToDelayedList (xTimeToWake - xConstTickCount) False s else Some s);
    (xAlreadyYielded, s) \<leftarrow> xTaskResumeAll s;
    Some (xTimeToWake, if \<not> xAlreadyYielded then portYIELD s else s)
  }"

section \<open>Events\<close>

definition vTaskPlaceOnEventList :: "addr \<Rightarrow> u32 \<Rightarrow> sched \<Rightarrow> sched option" where
  "vTaskPlaceOnEventList pxEventList xTicksToWait s =
    prvAddCurrentTaskToDelayedList xTicksToWait True (ev_insert (EventList pxEventList) (pxCurrentTCB s) s)"

definition vTaskPlaceOnUnorderedEventList :: "addr \<Rightarrow> u32 \<Rightarrow> u32 \<Rightarrow> sched \<Rightarrow> sched option" where
  "vTaskPlaceOnUnorderedEventList pxEventList xNewItemValue xTicksToWait s =
    (let s = upd_tcb (pxCurrentTCB s) (\<lambda>c. c\<lparr>evItemValue := xNewItemValue OR taskEVENT_LIST_ITEM_VALUE_IN_USE\<rparr>) s;
         s = ev_insert_end (EventList pxEventList) (pxCurrentTCB s) s
     in prvAddCurrentTaskToDelayedList xTicksToWait True s)"

definition vTaskPlaceOnEventListRestricted :: "addr \<Rightarrow> u32 \<Rightarrow> bool \<Rightarrow> sched \<Rightarrow> sched option" where
  "vTaskPlaceOnEventListRestricted pxEventList xTicksToWait xWaitIndefinitely s =
    (let s = ev_insert_end (EventList pxEventList) (pxCurrentTCB s) s;
         xTicksToWait = (if xWaitIndefinitely then portMAX_DELAY else xTicksToWait)
     in prvAddCurrentTaskToDelayedList xTicksToWait xWaitIndefinitely s)"

definition xTaskRemoveFromEventList :: "addr \<Rightarrow> sched \<Rightarrow> (bool \<times> sched) option" where
  "xTaskRemoveFromEventList pxEventList s = do {
    t \<leftarrow> head_owner (elists s (EventList pxEventList));
    (_, s) \<leftarrow> ev_remove t s;
    s \<leftarrow> (if uxSchedulerSuspended s = 0
          then do {
            (_, s) \<leftarrow> st_remove t s;
            Some (prvAddTaskToReadyList t s)
          }
          else Some (ev_insert_end xPendingReadyList t s));
    Some (if prio s t > prio s (pxCurrentTCB s) then (True, s\<lparr>xYieldPending := True\<rparr>) else (False, s))
  }"

definition vTaskRemoveFromUnorderedEventList :: "addr \<Rightarrow> u32 \<Rightarrow> sched \<Rightarrow> sched option" where
  "vTaskRemoveFromUnorderedEventList t xNewItemValue s = do {
    let s = upd_tcb t (\<lambda>c. c\<lparr>evItemValue := xNewItemValue OR taskEVENT_LIST_ITEM_VALUE_IN_USE\<rparr>) s;
    (_, s) \<leftarrow> ev_remove t s;
    (_, s) \<leftarrow> st_remove t s;
    let s = prvAddTaskToReadyList t s;
    Some (if prio s t > prio s (pxCurrentTCB s) then s\<lparr>xYieldPending := True\<rparr> else s)
  }"

definition uxTaskResetEventItemValue :: "sched \<Rightarrow> u32 \<times> sched" where
  "uxTaskResetEventItemValue s =
    (let t = pxCurrentTCB s
     in (evItemValue (tcbs s t), upd_tcb t (\<lambda>c. c\<lparr>evItemValue := configMAX_PRIORITIES - prio s t\<rparr>) s))"

definition vTaskMissedYield :: "sched \<Rightarrow> sched" where
  "vTaskMissedYield s = s\<lparr>xYieldPending := True\<rparr>"

section \<open>Time outs\<close>

record TimeOut_t =
  xOverflowCount :: u32
  xTimeOnEntering :: u32

definition vTaskInternalSetTimeOutState :: "sched \<Rightarrow> TimeOut_t" where
  "vTaskInternalSetTimeOutState s = \<lparr>xOverflowCount = xNumOfOverflows s, xTimeOnEntering = xTickCount s\<rparr>"

definition vTaskSetTimeOutState :: "sched \<Rightarrow> TimeOut_t" where
  "vTaskSetTimeOutState s = \<lparr>xOverflowCount = xNumOfOverflows s, xTimeOnEntering = xTickCount s\<rparr>"

definition xTaskCheckForTimeOut :: "sched \<Rightarrow> TimeOut_t \<Rightarrow> u32 \<Rightarrow> bool \<times> TimeOut_t \<times> u32" where
  "xTaskCheckForTimeOut s pxTimeOut xTicksToWait =
    (let xConstTickCount = xTickCount s;
         xElapsedTime = xConstTickCount - xTimeOnEntering pxTimeOut
     in if xTicksToWait = portMAX_DELAY then (False, pxTimeOut, xTicksToWait)
        else if xNumOfOverflows s \<noteq> xOverflowCount pxTimeOut \<and> xConstTickCount \<ge> xTimeOnEntering pxTimeOut
        then (True, pxTimeOut, xTicksToWait)
        else if xElapsedTime < xTicksToWait
        then (False, vTaskInternalSetTimeOutState s, xTicksToWait - xElapsedTime)
        else (True, pxTimeOut, 0))"

section \<open>Task state and priority\<close>

datatype eTaskState = eRunning | eReady | eBlocked | eSuspended | eDeleted | eInvalid

definition eTaskGetState :: "addr \<Rightarrow> sched \<Rightarrow> eTaskState" where
  "eTaskGetState t s =
    (if t = pxCurrentTCB s then eRunning
     else let L = stContainer (tcbs s t)
       in if L = Some (pxDelayedTaskList s) \<or> L = Some (pxOverflowDelayedTaskList s) then eBlocked
          else if L = Some xSuspendedTaskList
          then (if evContainer (tcbs s t) = None then eSuspended else eBlocked)
          else if L = Some xTasksWaitingTermination \<or> L = None then eDeleted
          else eReady)"

definition uxTaskPriorityGet :: "addr \<Rightarrow> sched \<Rightarrow> u32" where
  "uxTaskPriorityGet xTask s = prio s (prvGetTCBFromHandle xTask s)"

text \<open>The value of the event item follows a priority change unless it is borrowed.\<close>

definition set_event_priority :: "addr \<Rightarrow> u32 \<Rightarrow> sched \<Rightarrow> sched" where
  "set_event_priority t p s =
    (if evItemValue (tcbs s t) AND taskEVENT_LIST_ITEM_VALUE_IN_USE = 0
     then upd_tcb t (\<lambda>c. c\<lparr>evItemValue := configMAX_PRIORITIES - p\<rparr>) s else s)"

definition vTaskPrioritySet :: "addr \<Rightarrow> u32 \<Rightarrow> sched \<Rightarrow> sched option" where
  "vTaskPrioritySet xTask uxNewPriority s =
    (let uxNewPriority = (if uxNewPriority \<ge> configMAX_PRIORITIES then configMAX_PRIORITIES - 1 else uxNewPriority);
         t = prvGetTCBFromHandle xTask s;
         uxCurrentBasePriority = uxBasePriority (tcbs s t)
     in if uxCurrentBasePriority \<noteq> uxNewPriority
        then do {
          let xYieldRequired =
            (if uxNewPriority > uxCurrentBasePriority
             then t \<noteq> pxCurrentTCB s \<and> uxNewPriority \<ge> prio s (pxCurrentTCB s)
             else t = pxCurrentTCB s);
          let uxPriorityUsedOnEntry = prio s t;
          let s = (if uxBasePriority (tcbs s t) = prio s t
                   then upd_tcb t (\<lambda>c. c\<lparr>uxPriority := uxNewPriority\<rparr>) s else s);
          let s = upd_tcb t (\<lambda>c. c\<lparr>uxBasePriority := uxNewPriority\<rparr>) s;
          let s = set_event_priority t uxNewPriority s;
          s \<leftarrow> (if stContainer (tcbs s t) = Some (Ready uxPriorityUsedOnEntry)
                then do {
                  (n, s) \<leftarrow> st_remove t s;
                  let s = (if n = 0 then s\<lparr>uxTopReadyPriority :=
                             portRESET_READY_PRIORITY uxPriorityUsedOnEntry (uxTopReadyPriority s)\<rparr> else s);
                  Some (prvAddTaskToReadyList t s)
                }
                else Some s);
          Some (if xYieldRequired then portYIELD s else s)
        }
        else Some s)"

section \<open>Suspending and resuming tasks\<close>

definition vTaskSuspend :: "addr \<Rightarrow> sched \<Rightarrow> sched option" where
  "vTaskSuspend xTaskToSuspend s = do {
    let t = prvGetTCBFromHandle xTaskToSuspend s;
    (n, s) \<leftarrow> st_remove t s;
    let s = (if n = 0 then taskRESET_READY_PRIORITY (prio s t) s else s);
    s \<leftarrow> ev_unlink t s;
    let s = st_insert_end xSuspendedTaskList t s;
    let s = (if ucNotifyState (tcbs s t) = taskWAITING_NOTIFICATION
             then upd_tcb t (\<lambda>c. c\<lparr>ucNotifyState := taskNOT_WAITING_NOTIFICATION\<rparr>) s else s);
    let s = (if xSchedulerRunning s then prvResetNextTaskUnblockTime s else s);
    if t = pxCurrentTCB s
    then (if xSchedulerRunning s then Some (portYIELD s)
          else if of_nat (length (st_items s xSuspendedTaskList)) = uxCurrentNumberOfTasks s
          then Some (s\<lparr>pxCurrentTCB := NULL\<rparr>)
          else vTaskSwitchContext s)
    else Some s
  }"

definition prvTaskIsTaskSuspended :: "addr \<Rightarrow> sched \<Rightarrow> bool" where
  "prvTaskIsTaskSuspended t s \<longleftrightarrow>
    stContainer (tcbs s t) = Some xSuspendedTaskList \<and>
    evContainer (tcbs s t) \<noteq> Some xPendingReadyList \<and> evContainer (tcbs s t) = None"

definition vTaskResume :: "addr \<Rightarrow> sched \<Rightarrow> sched option" where
  "vTaskResume t s =
    (if t \<noteq> NULL \<and> t \<noteq> pxCurrentTCB s \<and> prvTaskIsTaskSuspended t s
     then do {
       (_, s) \<leftarrow> st_remove t s;
       let s = prvAddTaskToReadyList t s;
       Some (if prio s t \<ge> prio s (pxCurrentTCB s) then portYIELD s else s)
     }
     else Some s)"

definition xTaskResumeFromISR :: "addr \<Rightarrow> sched \<Rightarrow> (bool \<times> sched) option" where
  "xTaskResumeFromISR t s =
    (if prvTaskIsTaskSuspended t s
     then (if uxSchedulerSuspended s = 0
           then do {
             let xYieldRequired = (prio s t \<ge> prio s (pxCurrentTCB s));
             (_, s) \<leftarrow> st_remove t s;
             Some (xYieldRequired, prvAddTaskToReadyList t s)
           }
           else Some (False, ev_insert_end xPendingReadyList t s))
     else Some (False, s))"

section \<open>Mutexes\<close>

definition pvTaskIncrementMutexHeldCount :: "sched \<Rightarrow> addr \<times> sched" where
  "pvTaskIncrementMutexHeldCount s =
    (pxCurrentTCB s,
     if pxCurrentTCB s \<noteq> NULL
     then upd_tcb (pxCurrentTCB s) (\<lambda>c. c\<lparr>uxMutexesHeld := uxMutexesHeld c + 1\<rparr>) s else s)"

definition xTaskPriorityInherit :: "addr \<Rightarrow> sched \<Rightarrow> (bool \<times> sched) option" where
  "xTaskPriorityInherit t s =
    (if t = NULL then Some (False, s)
     else if prio s t < prio s (pxCurrentTCB s)
     then do {
       let s = set_event_priority t (prio s (pxCurrentTCB s)) s;
       s \<leftarrow> (if stContainer (tcbs s t) = Some (Ready (prio s t))
             then do {
               (n, s) \<leftarrow> st_remove t s;
               let s = (if n = 0 then taskRESET_READY_PRIORITY (prio s t) s else s);
               let s = upd_tcb t (\<lambda>c. c\<lparr>uxPriority := prio s (pxCurrentTCB s)\<rparr>) s;
               Some (prvAddTaskToReadyList t s)
             }
             else Some (upd_tcb t (\<lambda>c. c\<lparr>uxPriority := prio s (pxCurrentTCB s)\<rparr>) s));
       Some (True, s)
     }
     else Some (uxBasePriority (tcbs s t) < prio s (pxCurrentTCB s), s))"

definition xTaskPriorityDisinherit :: "addr \<Rightarrow> sched \<Rightarrow> (bool \<times> sched) option" where
  "xTaskPriorityDisinherit t s =
    (if t = NULL then Some (False, s)
     else do {
       let s = upd_tcb t (\<lambda>c. c\<lparr>uxMutexesHeld := uxMutexesHeld c - 1\<rparr>) s;
       if prio s t \<noteq> uxBasePriority (tcbs s t) \<and> uxMutexesHeld (tcbs s t) = 0
       then do {
         (n, s) \<leftarrow> st_remove t s;
         let s = (if n = 0 then taskRESET_READY_PRIORITY (prio s t) s else s);
         let s = upd_tcb t (\<lambda>c. c\<lparr>uxPriority := uxBasePriority c\<rparr>) s;
         let s = upd_tcb t (\<lambda>c. c\<lparr>evItemValue := configMAX_PRIORITIES - uxPriority c\<rparr>) s;
         Some (True, prvAddTaskToReadyList t s)
       }
       else Some (False, s)
     })"

definition vTaskPriorityDisinheritAfterTimeout :: "addr \<Rightarrow> u32 \<Rightarrow> sched \<Rightarrow> sched option" where
  "vTaskPriorityDisinheritAfterTimeout t uxHighestPriorityWaitingTask s =
    (if t = NULL then Some s
     else let uxPriorityToUse =
              (if uxBasePriority (tcbs s t) < uxHighestPriorityWaitingTask
               then uxHighestPriorityWaitingTask else uxBasePriority (tcbs s t))
          in if prio s t \<noteq> uxPriorityToUse \<and> uxMutexesHeld (tcbs s t) = 1
             then do {
               let uxPriorityUsedOnEntry = prio s t;
               let s = upd_tcb t (\<lambda>c. c\<lparr>uxPriority := uxPriorityToUse\<rparr>) s;
               let s = set_event_priority t uxPriorityToUse s;
               if stContainer (tcbs s t) = Some (Ready uxPriorityUsedOnEntry)
               then do {
                 (n, s) \<leftarrow> st_remove t s;
                 let s = (if n = 0 then taskRESET_READY_PRIORITY (prio s t) s else s);
                 Some (prvAddTaskToReadyList t s)
               }
               else Some s
             }
             else Some s)"

end
