(* ===== verification/SchedWf.thy ===== *)
theory SchedWf imports Sched begin

text \<open>
  Well-formedness of the scheduler's state, as conditions on the fields, and its preservation by the
  list operations on control blocks:
  \<^item> \<open>st_ok\<close>, \<open>ev_ok\<close>: the containers of the items are exactly the lists they are in;
  \<^item> \<open>ready_ok\<close>: the bits of \<open>uxTopReadyPriority\<close> are exactly the priorities whose ready list is not
    empty, and every ready task is in the list of its priority;
  \<^item> \<open>delay_ok\<close>: the delayed lists are sorted by wake time, those of the current list lie ahead of the
    tick count and not before \<open>xNextTaskUnblockTime\<close>, those of the overflow list are due after the
    count wraps. While a tick is processed the current list may hold tasks that are due: the flag of
    \<open>sched_inv\<close> says whether all are ahead; \<open>sched_ok\<close> is the invariant between operations.
\<close>

unbundle bit_operations_syntax

section \<open>Conditions\<close>

definition klist_ok :: "'a klist \<Rightarrow> bool" where
  "klist_ok l \<longleftrightarrow> distinct (kl_items l) \<and> kl_index l \<le> length (kl_items l)"

definition st_ok :: "(addr \<Rightarrow> tcb) \<Rightarrow> (slist \<Rightarrow> addr klist) \<Rightarrow> bool" where
  "st_ok c sl \<longleftrightarrow> (\<forall>t L. stContainer (c t) = Some L \<longleftrightarrow> t \<in> set (kl_items (sl L))) \<and> (\<forall>L. klist_ok (sl L))"

definition ev_ok :: "(addr \<Rightarrow> tcb) \<Rightarrow> (elist \<Rightarrow> addr klist) \<Rightarrow> bool" where
  "ev_ok c el \<longleftrightarrow> (\<forall>t E. evContainer (c t) = Some E \<longleftrightarrow> t \<in> set (kl_items (el E))) \<and> (\<forall>E. klist_ok (el E))"

definition ready_ok :: "(addr \<Rightarrow> tcb) \<Rightarrow> (slist \<Rightarrow> addr klist) \<Rightarrow> u32 \<Rightarrow> bool" where
  "ready_ok c sl bm \<longleftrightarrow>
    (\<forall>p. bit bm (unat p) \<longleftrightarrow> kl_items (sl (Ready p)) \<noteq> []) \<and>
    (\<forall>p t. t \<in> set (kl_items (sl (Ready p))) \<longrightarrow> uxPriority (c t) = p \<and> p < 8)"

definition prio_ok :: "(addr \<Rightarrow> tcb) \<Rightarrow> bool" where
  "prio_ok c \<longleftrightarrow> (\<forall>t. uxPriority (c t) < 8 \<and> uxBasePriority (c t) < 8)"

definition delay_ok :: "bool \<Rightarrow> (addr \<Rightarrow> u32) \<Rightarrow> (slist \<Rightarrow> addr klist) \<Rightarrow> slist \<Rightarrow> slist \<Rightarrow> u32 \<Rightarrow> u32 \<Rightarrow> bool" where
  "delay_ok b val sl dl ol tick nx \<longleftrightarrow>
    (dl = xDelayedTaskList1 \<and> ol = xDelayedTaskList2 \<or> dl = xDelayedTaskList2 \<and> ol = xDelayedTaskList1) \<and>
    klist_sorted val (sl dl) \<and> klist_sorted val (sl ol) \<and>
    (\<forall>t\<in>set (kl_items (sl dl)). (b \<longrightarrow> tick < val t) \<and> nx \<le> val t) \<and>
    (\<forall>t\<in>set (kl_items (sl ol)). val t \<le> tick)"

abbreviation wake :: "sched \<Rightarrow> addr \<Rightarrow> u32" where
  "wake s t \<equiv> stItemValue (tcbs s t)"

lemma comp_upd_triv [simp]: "(f \<circ> c)(t := f (c t)) = f \<circ> c"
  by auto

definition sched_inv :: "bool \<Rightarrow> sched \<Rightarrow> bool" where
  "sched_inv b s \<longleftrightarrow> st_ok (tcbs s) (slists s) \<and> ev_ok (tcbs s) (elists s) \<and>
    ready_ok (tcbs s) (slists s) (uxTopReadyPriority s) \<and> prio_ok (tcbs s) \<and>
    delay_ok b (stItemValue \<circ> tcbs s) (slists s) (pxDelayedTaskList s) (pxOverflowDelayedTaskList s) (xTickCount s)
      (xNextTaskUnblockTime s)"

abbreviation sched_ok :: "sched \<Rightarrow> bool" where
  "sched_ok \<equiv> sched_inv True"

section \<open>Lists\<close>

lemma klist_ok_empty [simp]: "klist_ok klist_empty"
  by (simp add: klist_ok_def klist_empty_def)

lemma klist_ok_insert_end: "klist_ok l \<Longrightarrow> x \<notin> set (kl_items l) \<Longrightarrow> klist_ok (klist_insert_end x l)"
  by (auto simp: klist_ok_def klist_insert_end_def)

lemma klist_ok_insert: "klist_ok l \<Longrightarrow> x \<notin> set (kl_items l) \<Longrightarrow> klist_ok (klist_insert val x l)"
  by (auto simp: klist_ok_def klist_insert_def Let_def)

lemma takeWhile_neq_less: "x \<in> set xs \<Longrightarrow> length (takeWhile (\<lambda>y. y \<noteq> x) xs) < length xs"
  by (induction xs) auto

lemma klist_ok_remove: "klist_ok l \<Longrightarrow> x \<in> set (kl_items l) \<Longrightarrow> klist_ok (klist_remove x l)"
proof -
  assume ok: "klist_ok l" and x: "x \<in> set (kl_items l)"
  have l: "length (kl_items l) > 0" using x by (cases "kl_items l") auto
  have "length (takeWhile (\<lambda>y. y \<noteq> x) (kl_items l)) < length (kl_items l)"
    using x by (rule takeWhile_neq_less)
  then show ?thesis using ok x l by (auto simp: klist_ok_def klist_remove_def Let_def length_remove1)
qed

lemma klist_ok_next: "klist_ok l \<Longrightarrow> klist_ok (snd (klist_next l))"
  by (auto simp: klist_ok_def klist_next_def Let_def Suc_le_eq)

lemma set_remove: "klist_ok l \<Longrightarrow> set (kl_items (klist_remove x l)) = set (kl_items l) - {x}"
  by (simp add: klist_ok_def)

section \<open>State items\<close>

lemma st_okD:
  assumes "st_ok c sl"
  shows "stContainer (c t) = Some L \<longleftrightarrow> t \<in> set (kl_items (sl L))" and "klist_ok (sl L)"
  using assms by (auto simp: st_ok_def)

lemma st_ok_None: "st_ok c sl \<Longrightarrow> stContainer (c t) = None \<Longrightarrow> t \<notin> set (kl_items (sl L))"
  by (auto simp flip: st_okD)

lemma st_ok_other: "st_ok c sl \<Longrightarrow> stContainer (c t) = Some L \<Longrightarrow> L' \<noteq> L \<Longrightarrow> t \<notin> set (kl_items (sl L'))"
  by (auto simp flip: st_okD)

lemma st_ok_tcb: "stContainer x = stContainer (c t) \<Longrightarrow> st_ok (c(t := x)) sl \<longleftrightarrow> st_ok c sl"
  by (simp add: st_ok_def fun_upd_def) metis

lemma st_ok_remove:
  assumes "st_ok c sl" and "stContainer (c t) = Some L" and "stContainer x = None"
  shows "st_ok (c(t := x)) (sl(L := klist_remove t (sl L)))"
  unfolding st_ok_def
proof (intro conjI allI)
  fix u M
  have "t \<notin> set (kl_items (sl M))" if "M \<noteq> L" by (rule st_ok_other [OF assms(1,2) that])
  then show "stContainer ((c(t := x)) u) = Some M \<longleftrightarrow> u \<in> set (kl_items ((sl(L := klist_remove t (sl L))) M))"
    using assms st_okD [OF assms(1)] by (auto simp: set_remove simp del: kl_items_remove)
next
  fix M
  have "t \<in> set (kl_items (sl L))" using assms by (simp flip: st_okD)
  then show "klist_ok ((sl(L := klist_remove t (sl L))) M)"
    using st_okD(2) [OF assms(1)] by (auto intro: klist_ok_remove)
qed

lemma st_ok_insert:
  assumes "st_ok c sl" and "stContainer (c t) = None" and "stContainer x = Some L"
    and "set (kl_items l) = insert t (set (kl_items (sl L)))" and "klist_ok l"
  shows "st_ok (c(t := x)) (sl(L := l))"
  using assms(3-5) st_okD [OF assms(1)] st_ok_None [OF assms(1,2)] assms(2)
  unfolding st_ok_def by auto

lemma st_ok_next: "st_ok c sl \<Longrightarrow> st_ok c (sl(L := snd (klist_next (sl L))))"
  by (auto simp: st_ok_def klist_ok_next)

section \<open>Event items\<close>

lemma ev_okD:
  assumes "ev_ok c el"
  shows "evContainer (c t) = Some E \<longleftrightarrow> t \<in> set (kl_items (el E))" and "klist_ok (el E)"
  using assms by (auto simp: ev_ok_def)

lemma ev_ok_None: "ev_ok c el \<Longrightarrow> evContainer (c t) = None \<Longrightarrow> t \<notin> set (kl_items (el E))"
  by (auto simp flip: ev_okD)

lemma ev_ok_other: "ev_ok c el \<Longrightarrow> evContainer (c t) = Some E \<Longrightarrow> E' \<noteq> E \<Longrightarrow> t \<notin> set (kl_items (el E'))"
  by (auto simp flip: ev_okD)

lemma ev_ok_tcb: "evContainer x = evContainer (c t) \<Longrightarrow> ev_ok (c(t := x)) el \<longleftrightarrow> ev_ok c el"
  by (simp add: ev_ok_def fun_upd_def) metis

lemma ev_ok_remove:
  assumes "ev_ok c el" and "evContainer (c t) = Some E" and "evContainer x = None"
  shows "ev_ok (c(t := x)) (el(E := klist_remove t (el E)))"
  unfolding ev_ok_def
proof (intro conjI allI)
  fix u M
  have "t \<notin> set (kl_items (el M))" if "M \<noteq> E" by (rule ev_ok_other [OF assms(1,2) that])
  then show "evContainer ((c(t := x)) u) = Some M \<longleftrightarrow> u \<in> set (kl_items ((el(E := klist_remove t (el E))) M))"
    using assms ev_okD [OF assms(1)] by (auto simp: set_remove simp del: kl_items_remove)
next
  fix M
  have "t \<in> set (kl_items (el E))" using assms by (simp flip: ev_okD)
  then show "klist_ok ((el(E := klist_remove t (el E))) M)"
    using ev_okD(2) [OF assms(1)] by (auto intro: klist_ok_remove)
qed

lemma ev_ok_insert:
  assumes "ev_ok c el" and "evContainer (c t) = None" and "evContainer x = Some E"
    and "set (kl_items l) = insert t (set (kl_items (el E)))" and "klist_ok l"
  shows "ev_ok (c(t := x)) (el(E := l))"
  using assms(3-5) ev_okD [OF assms(1)] ev_ok_None [OF assms(1,2)] assms(2)
  unfolding ev_ok_def by auto

section \<open>Ready lists\<close>

lemma bit_record [simp]:
  "p < 8 \<Longrightarrow> bit (portRECORD_READY_PRIORITY p bm) n \<longleftrightarrow> bit bm n \<or> n = unat p"
  by (auto simp: portRECORD_READY_PRIORITY_def bit_simps word_less_nat_alt)

lemma bit_reset [simp]:
  "bit (portRESET_READY_PRIORITY p bm) n \<longleftrightarrow> bit bm n \<and> n \<noteq> unat p"
  by (auto simp: portRESET_READY_PRIORITY_def bit_simps dest: bit_imp_le_length)

lemma unat_eq_u32 [simp]: "unat (p :: u32) = unat q \<longleftrightarrow> p = q"
  by (simp add: word_unat_eq_iff)

lemma ready_ok_tcb:
  "uxPriority x = uxPriority (c t) \<Longrightarrow> ready_ok (c(t := x)) sl bm \<longleftrightarrow> ready_ok c sl bm"
proof -
  assume "uxPriority x = uxPriority (c t)"
  then have "\<And>u. uxPriority ((c(t := x)) u) = uxPriority (c u)" by simp
  then show ?thesis by (simp only: ready_ok_def)
qed

text \<open>Changes to a task that is in no ready list, and to other lists.\<close>

lemma ready_ok_frame:
  assumes "ready_ok c sl bm" and "\<And>p. t \<notin> set (kl_items (sl (Ready p)))" and "\<And>p. L \<noteq> Ready p"
  shows "ready_ok (c(t := x)) (sl(L := l)) bm"
  using assms by (auto simp: ready_ok_def)

lemma ready_ok_frame_tcb:
  assumes "ready_ok c sl bm" and "\<And>p. t \<notin> set (kl_items (sl (Ready p)))"
  shows "ready_ok (c(t := x)) sl bm"
  using assms by (auto simp: ready_ok_def)

lemma ready_ok_remove:
  assumes r: "ready_ok c sl bm" and ok: "st_ok c sl" and t: "stContainer (c t) = Some (Ready p)"
  shows "ready_ok (c(t := x)) (sl(Ready p := klist_remove t (sl (Ready p))))
    (if kl_items (klist_remove t (sl (Ready p))) = [] then portRESET_READY_PRIORITY p bm else bm)"
proof -
  let ?l = "klist_remove t (sl (Ready p))"
  have in_p: "t \<in> set (kl_items (sl (Ready p)))" using ok t by (simp flip: st_okD)
  then have p8: "p < 8" using r by (auto simp: ready_ok_def)
  have s: "set (kl_items ?l) = set (kl_items (sl (Ready p))) - {t}"
    by (rule set_remove [OF st_okD(2) [OF ok]])
  have other: "t \<notin> set (kl_items (sl (Ready q)))" if "q \<noteq> p" for q
    using st_ok_other [OF ok t] that by simp
  have "uxPriority ((c(t := x)) u) = q \<and> q < 8"
    if "u \<in> set (kl_items ((sl(Ready p := ?l)) (Ready q)))" for u q
    using that r other s by (auto simp: ready_ok_def simp del: kl_items_remove split: if_splits)
  moreover have "bit (if kl_items ?l = [] then portRESET_READY_PRIORITY p bm else bm) (unat q) \<longleftrightarrow>
      kl_items ((sl(Ready p := ?l)) (Ready q)) \<noteq> []" for q
    using r in_p by (auto simp: ready_ok_def)
  ultimately show ?thesis unfolding ready_ok_def by blast
qed

lemma ready_ok_insert:
  assumes "ready_ok c sl bm" and "\<And>q. t \<notin> set (kl_items (sl (Ready q)))" and "uxPriority x = p" and "p < 8"
    and "set (kl_items l) = insert t (set (kl_items (sl (Ready p))))"
  shows "ready_ok (c(t := x)) (sl(Ready p := l)) (portRECORD_READY_PRIORITY p bm)"
proof -
  have "kl_items l \<noteq> []" using assms(5) by (metis empty_not_insert list.set(1))
  then show ?thesis using assms by (auto simp: ready_ok_def)
qed

section \<open>Delayed lists\<close>

definition delay_list :: "slist \<Rightarrow> bool" where
  "delay_list L \<longleftrightarrow> L = xDelayedTaskList1 \<or> L = xDelayedTaskList2"

lemma delay_list_simps [simp]:
  "delay_list xDelayedTaskList1" "delay_list xDelayedTaskList2" "\<not> delay_list (Ready p)"
  "\<not> delay_list xSuspendedTaskList" "\<not> delay_list xTasksWaitingTermination"
  by (simp_all add: delay_list_def)

lemma delay_okD:
  assumes "delay_ok b val sl dl ol tick nx"
  shows "delay_list dl" "delay_list ol" "dl \<noteq> ol" "delay_list L \<longleftrightarrow> L = dl \<or> L = ol"
  using assms by (auto simp: delay_ok_def delay_list_def)

lemma sorted_wrt_val_cong:
  "(\<And>x. x \<in> set xs \<Longrightarrow> f x = (g x :: u32)) \<Longrightarrow> sorted_wrt (\<lambda>x y. f x \<le> f y) xs \<longleftrightarrow> sorted_wrt (\<lambda>x y. g x \<le> g y) xs"
  by (induction xs) auto

text \<open>Only the delayed lists and the item values of their members matter.\<close>

lemma delay_ok_cong:
  assumes "sl' dl = sl dl" "sl' ol = sl ol"
    and "\<And>u. u \<in> set (kl_items (sl dl)) \<union> set (kl_items (sl ol)) \<Longrightarrow> val' u = val u"
  shows "delay_ok b val' sl' dl ol tick nx \<longleftrightarrow> delay_ok b val sl dl ol tick nx"
proof -
  have "klist_sorted val' (sl dl) \<longleftrightarrow> klist_sorted val (sl dl)"
    and "klist_sorted val' (sl ol) \<longleftrightarrow> klist_sorted val (sl ol)"
    by (rule sorted_wrt_val_cong, rule assms(3), simp)+
  then show ?thesis using assms by (auto simp: delay_ok_def)
qed

lemma delay_ok_other:
  assumes "delay_ok b val sl dl ol tick nx" and "\<not> delay_list L"
  shows "delay_ok b val (sl(L := l)) dl ol tick nx"
  using assms delay_okD [OF assms(1)] by (subst delay_ok_cong [where val = val and sl = sl]) auto

lemma delay_ok_remove:
  assumes d: "delay_ok b val sl dl ol tick nx" and ok: "klist_ok (sl L)"
  shows "delay_ok b val (sl(L := klist_remove t (sl L))) dl ol tick nx"
proof -
  have "set (kl_items (klist_remove t (sl L))) = set (kl_items (sl L)) - {t}" by (rule set_remove [OF ok])
  then show ?thesis
    using d klist_remove_sorted by (auto simp: delay_ok_def simp del: kl_items_remove)
qed

text \<open>Insertion into a delayed list, at a time that keeps the lists ordered around the tick count.\<close>

lemma delay_ok_insert:
  assumes d: "delay_ok b val sl dl ol tick nx"
    and L: "L = dl \<and> (b \<longrightarrow> tick < val t) \<or> L = ol \<and> val t \<le> tick"
    and nx: "nx' \<le> nx" "L = dl \<Longrightarrow> nx' \<le> val t"
  shows "delay_ok b val (sl(L := klist_insert val t (sl L))) dl ol tick nx'"
proof -
  note dk = delay_okD [OF d]
  have s: "klist_sorted val (sl dl)" "klist_sorted val (sl ol)" using d unfolding delay_ok_def by blast+
  have so: "klist_sorted val ((sl(L := klist_insert val t (sl L))) M)" if "M = dl \<or> M = ol" for M
  proof (cases "M = L")
    case True
    then show ?thesis using klist_insert_sorted [of val "sl M" t] s that by auto
  next
    case False
    then show ?thesis using s that by auto
  qed
  have "(b \<longrightarrow> tick < val u) \<and> nx' \<le> val u" if "u \<in> set (kl_items ((sl(L := klist_insert val t (sl L))) dl))" for u
  proof (cases "u \<in> set (kl_items (sl dl))")
    case True
    then have "b \<longrightarrow> tick < val u" "nx \<le> val u" using d unfolding delay_ok_def by blast+
    then show ?thesis using nx(1) by auto
  next
    case False
    then have "L = dl" "u = t" using that by (auto split: if_splits)
    then show ?thesis using L nx(2) dk(3) by auto
  qed
  moreover have "val u \<le> tick" if "u \<in> set (kl_items ((sl(L := klist_insert val t (sl L))) ol))" for u
  proof (cases "u \<in> set (kl_items (sl ol))")
    case True
    then show ?thesis using d unfolding delay_ok_def by blast
  next
    case False
    then have "L = ol" "u = t" using that by (auto split: if_splits)
    then show ?thesis using L dk(3) by auto
  qed
  ultimately show ?thesis
    using d so unfolding delay_ok_def by blast
qed

section \<open>States\<close>

definition st_removed :: "addr \<Rightarrow> slist \<Rightarrow> sched \<Rightarrow> sched" where
  "st_removed t L s = s\<lparr>tcbs := (tcbs s)(t := (tcbs s t)\<lparr>stContainer := None\<rparr>),
    slists := (slists s)(L := klist_remove t (slists s L))\<rparr>"

definition ev_removed :: "addr \<Rightarrow> elist \<Rightarrow> sched \<Rightarrow> sched" where
  "ev_removed t E s = s\<lparr>tcbs := (tcbs s)(t := (tcbs s t)\<lparr>evContainer := None\<rparr>),
    elists := (elists s)(E := klist_remove t (elists s E))\<rparr>"

lemma st_remove_eq:
  "stContainer (tcbs s t) = Some L \<Longrightarrow>
    st_remove t s = Some (length (kl_items (klist_remove t (slists s L))), st_removed t L s)"
  by (simp add: st_remove_def st_removed_def Let_def)

lemma ev_remove_eq:
  "evContainer (tcbs s t) = Some E \<Longrightarrow>
    ev_remove t s = Some (length (kl_items (klist_remove t (elists s E))), ev_removed t E s)"
  by (simp add: ev_remove_def ev_removed_def Let_def)

definition ev_unlinked :: "addr \<Rightarrow> sched \<Rightarrow> sched" where
  "ev_unlinked t s = (case evContainer (tcbs s t) of None \<Rightarrow> s | Some E \<Rightarrow> ev_removed t E s)"

lemma ev_unlink_eq: "ev_unlink t s = Some (ev_unlinked t s)"
  by (auto simp: ev_unlink_def ev_unlinked_def ev_remove_eq split: option.split)

text \<open>What the list operations leave alone: everything but the lists and the control block of \<open>t\<close>.\<close>

definition glob :: "sched \<Rightarrow> sched" where
  "glob s = s\<lparr>tcbs := \<lambda>_. undefined, slists := \<lambda>_. klist_empty, elists := \<lambda>_. klist_empty,
    uxTopReadyPriority := 0\<rparr>"

lemma glob_sel:
  assumes "glob s' = glob s"
  shows "pxCurrentTCB s' = pxCurrentTCB s" "pxDelayedTaskList s' = pxDelayedTaskList s"
    "pxOverflowDelayedTaskList s' = pxOverflowDelayedTaskList s" "xTickCount s' = xTickCount s"
    "xNextTaskUnblockTime s' = xNextTaskUnblockTime s" "uxSchedulerSuspended s' = uxSchedulerSuspended s"
    "xYieldPending s' = xYieldPending s" "uxPendedTicks s' = uxPendedTicks s"
    "uxCurrentNumberOfTasks s' = uxCurrentNumberOfTasks s" "xNumOfOverflows s' = xNumOfOverflows s"
    "yield_requested s' = yield_requested s" "xSchedulerRunning s' = xSchedulerRunning s"
  using assms by (cases s; cases s'; simp add: glob_def)+

lemma glob_ops [simp]:
  "glob (st_removed t L s) = glob s" "glob (ev_removed t E s) = glob s" "glob (ev_unlinked t s) = glob s"
  "glob (st_insert_end L t s) = glob s" "glob (st_insert L t s) = glob s"
  "glob (ev_insert_end E t s) = glob s" "glob (ev_insert E t s) = glob s"
  "glob (prvAddTaskToReadyList t s) = glob s" "glob (s\<lparr>uxTopReadyPriority := bm\<rparr>) = glob s"
  "glob (s\<lparr>tcbs := c\<rparr>) = glob s" "glob (taskRESET_READY_PRIORITY p s) = glob s"
  by (simp_all add: glob_def st_removed_def ev_removed_def ev_unlinked_def st_insert_end_def st_insert_def
      ev_insert_end_def ev_insert_def prvAddTaskToReadyList_def taskRESET_READY_PRIORITY_def Let_def
      split: option.split)

lemma tcbs_removed [simp]:
  "tcbs (st_removed t L s) = (tcbs s)(t := (tcbs s t)\<lparr>stContainer := None\<rparr>)"
  "tcbs (ev_removed t E s) = (tcbs s)(t := (tcbs s t)\<lparr>evContainer := None\<rparr>)"
  by (simp_all add: st_removed_def ev_removed_def)

lemma tcbs_ev_unlinked [simp]: "tcbs (ev_unlinked t s) = (tcbs s)(t := (tcbs s t)\<lparr>evContainer := None\<rparr>)"
  by (auto simp: ev_unlinked_def split: option.split)

lemma tcbs_insert [simp]:
  "tcbs (st_insert_end L t s) = (tcbs s)(t := (tcbs s t)\<lparr>stContainer := Some L\<rparr>)"
  "tcbs (st_insert L t s) = (tcbs s)(t := (tcbs s t)\<lparr>stContainer := Some L\<rparr>)"
  "tcbs (ev_insert_end E t s) = (tcbs s)(t := (tcbs s t)\<lparr>evContainer := Some E\<rparr>)"
  "tcbs (ev_insert E t s) = (tcbs s)(t := (tcbs s t)\<lparr>evContainer := Some E\<rparr>)"
  "tcbs (prvAddTaskToReadyList t s) = (tcbs s)(t := (tcbs s t)\<lparr>stContainer := Some (Ready (prio s t))\<rparr>)"
  "tcbs (taskRESET_READY_PRIORITY p s) = tcbs s"
  by (simp_all add: st_insert_end_def st_insert_def ev_insert_end_def ev_insert_def prvAddTaskToReadyList_def
      taskRESET_READY_PRIORITY_def Let_def)

text \<open>Both forms of the reset after a removal clear the bit of a list that became empty.\<close>

lemma reset_after_remove:
  "(if length (kl_items (klist_remove t (slists s (Ready p)))) = 0
    then taskRESET_READY_PRIORITY p (st_removed t (Ready p) s) else st_removed t (Ready p) s) =
   taskRESET_READY_PRIORITY p (st_removed t (Ready p) s)"
  "(if length (kl_items (klist_remove t (slists s (Ready p)))) = 0
    then (st_removed t (Ready p) s)\<lparr>uxTopReadyPriority := portRESET_READY_PRIORITY p (uxTopReadyPriority (st_removed t (Ready p) s))\<rparr>
    else st_removed t (Ready p) s) =
   taskRESET_READY_PRIORITY p (st_removed t (Ready p) s)"
  by (simp_all add: taskRESET_READY_PRIORITY_def st_removed_def)

lemma reset_other: "st_items s (Ready p) \<noteq> [] \<Longrightarrow> taskRESET_READY_PRIORITY p s = s"
  by (simp add: taskRESET_READY_PRIORITY_def)

subsection \<open>Preservation\<close>

lemma sched_invD:
  assumes "sched_inv b s"
  shows "st_ok (tcbs s) (slists s)" "ev_ok (tcbs s) (elists s)"
    "ready_ok (tcbs s) (slists s) (uxTopReadyPriority s)" "prio_ok (tcbs s)"
    "delay_ok b (stItemValue \<circ> tcbs s) (slists s) (pxDelayedTaskList s) (pxOverflowDelayedTaskList s) (xTickCount s)
      (xNextTaskUnblockTime s)"
  using assms by (simp_all add: sched_inv_def)

lemma sched_inv_fields [simp]:
  "sched_inv b (s\<lparr>xYieldPending := y\<rparr>) = sched_inv b s" "sched_inv b (s\<lparr>yield_requested := y\<rparr>) = sched_inv b s"
  "sched_inv b (s\<lparr>uxSchedulerSuspended := n\<rparr>) = sched_inv b s" "sched_inv b (s\<lparr>uxPendedTicks := n\<rparr>) = sched_inv b s"
  "sched_inv b (s\<lparr>pxCurrentTCB := t\<rparr>) = sched_inv b s" "sched_inv b (s\<lparr>xNumOfOverflows := n\<rparr>) = sched_inv b s"
  by (simp_all add: sched_inv_def)

lemma prio_ok_upd: "prio_ok c \<Longrightarrow> uxPriority x < 8 \<Longrightarrow> uxBasePriority x < 8 \<Longrightarrow> prio_ok (c(t := x))"
  by (simp add: prio_ok_def)

lemma sched_inv_st_removed:
  assumes ok: "sched_inv b s" and t: "stContainer (tcbs s t) = Some L" and L: "\<And>p. L \<noteq> Ready p"
  shows "sched_inv b (st_removed t L s)"
proof -
  note o = sched_invD [OF ok]
  have "ready_ok (tcbs (st_removed t L s)) (slists (st_removed t L s)) (uxTopReadyPriority s)"
  proof -
    have "t \<notin> set (st_items s (Ready p))" for p by (rule st_ok_other [OF o(1) t]) (use L [of p] in auto)
    then show ?thesis unfolding st_removed_def using ready_ok_frame [OF o(3)] L by simp
  qed
  moreover have "delay_ok b (stItemValue \<circ> tcbs (st_removed t L s)) (slists (st_removed t L s)) (pxDelayedTaskList s)
      (pxOverflowDelayedTaskList s) (xTickCount s) (xNextTaskUnblockTime s)"
    using delay_ok_remove [OF o(5) st_okD(2) [OF o(1)], of L t]
    by (simp add: st_removed_def fun_upd_comp)
  ultimately show ?thesis
    using st_ok_remove [OF o(1) t, of "(tcbs s t)\<lparr>stContainer := None\<rparr>"] o(2,4)
    by (simp add: sched_inv_def st_removed_def ev_ok_tcb prio_ok_upd prio_ok_def)
qed

lemma sched_inv_reset_removed:
  assumes ok: "sched_inv b s" and t: "stContainer (tcbs s t) = Some (Ready p)"
  shows "sched_inv b (taskRESET_READY_PRIORITY p (st_removed t (Ready p) s))"
proof -
  note o = sched_invD [OF ok]
  have "ready_ok (tcbs (st_removed t (Ready p) s)) (slists (st_removed t (Ready p) s))
    (uxTopReadyPriority (taskRESET_READY_PRIORITY p (st_removed t (Ready p) s)))"
    using ready_ok_remove [OF o(3,1) t, of "(tcbs s t)\<lparr>stContainer := None\<rparr>"]
    by (simp add: st_removed_def taskRESET_READY_PRIORITY_def split: if_splits)
  moreover have "delay_ok b (stItemValue \<circ> tcbs (st_removed t (Ready p) s)) (slists (st_removed t (Ready p) s)) (pxDelayedTaskList s)
      (pxOverflowDelayedTaskList s) (xTickCount s) (xNextTaskUnblockTime s)"
    using delay_ok_remove [OF o(5) st_okD(2) [OF o(1)], of "Ready p" t]
    by (simp add: st_removed_def fun_upd_comp)
  ultimately show ?thesis
    using st_ok_remove [OF o(1) t, of "(tcbs s t)\<lparr>stContainer := None\<rparr>"] o(2,4)
    by (simp add: sched_inv_def st_removed_def ev_ok_tcb prio_ok_upd prio_ok_def taskRESET_READY_PRIORITY_def split: if_splits)
qed

lemma sched_inv_add_ready:
  assumes ok: "sched_inv b s" and t: "stContainer (tcbs s t) = None"
  shows "sched_inv b (prvAddTaskToReadyList t s)"
proof -
  note o = sched_invD [OF ok]
  let ?p = "prio s t" and ?x = "(tcbs s t)\<lparr>stContainer := Some (Ready (prio s t))\<rparr>"
    and ?l = "klist_insert_end t (slists s (Ready (prio s t)))"
  have p: "?p < 8" using o(4) by (simp add: prio_ok_def)
  have n: "t \<notin> set (kl_items (slists s M))" for M by (rule st_ok_None [OF o(1) t])
  have "st_ok ((tcbs s)(t := ?x)) ((slists s)(Ready ?p := ?l))"
    by (rule st_ok_insert [OF o(1) t]) (simp_all add: klist_ok_insert_end st_okD(2) [OF o(1)] n)
  moreover have "ready_ok ((tcbs s)(t := ?x)) ((slists s)(Ready ?p := ?l))
      (portRECORD_READY_PRIORITY ?p (uxTopReadyPriority s))"
    by (rule ready_ok_insert [OF o(3) n _ p]) simp_all
  moreover have "delay_ok b (stItemValue \<circ> tcbs s) ((slists s)(Ready ?p := ?l)) (pxDelayedTaskList s)
      (pxOverflowDelayedTaskList s) (xTickCount s) (xNextTaskUnblockTime s)"
    by (rule delay_ok_other [OF o(5)]) simp
  ultimately show ?thesis
    using o(2,4) by (simp add: sched_inv_def prvAddTaskToReadyList_def st_insert_end_def Let_def ev_ok_tcb
        prio_ok_upd prio_ok_def fun_upd_comp)
qed

lemma sched_inv_ev_removed:
  assumes ok: "sched_inv b s" and t: "evContainer (tcbs s t) = Some E"
  shows "sched_inv b (ev_removed t E s)"
proof -
  note o = sched_invD [OF ok]
  show ?thesis
    using ev_ok_remove [OF o(2) t, of "(tcbs s t)\<lparr>evContainer := None\<rparr>"] o(1,3,4,5)
    by (simp add: sched_inv_def ev_removed_def st_ok_tcb ready_ok_tcb prio_ok_upd prio_ok_def fun_upd_comp)
qed

lemma sched_inv_ev_unlinked: "sched_inv b s \<Longrightarrow> sched_inv b (ev_unlinked t s)"
  by (auto simp: ev_unlinked_def sched_inv_ev_removed split: option.split)

lemma sched_inv_ev_insert:
  assumes ok: "sched_inv b s" and t: "evContainer (tcbs s t) = None"
  shows "sched_inv b (ev_insert_end E t s)" and "sched_inv b (ev_insert E t s)"
proof -
  note o = sched_invD [OF ok]
  let ?x = "(tcbs s t)\<lparr>evContainer := Some E\<rparr>"
  have n: "t \<notin> set (kl_items (elists s E))" by (rule ev_ok_None [OF o(2) t])
  have "ev_ok ((tcbs s)(t := ?x)) ((elists s)(E := klist_insert_end t (elists s E)))"
    "ev_ok ((tcbs s)(t := ?x)) ((elists s)(E := klist_insert (\<lambda>u. evItemValue (tcbs s u)) t (elists s E)))"
    by (rule ev_ok_insert [OF o(2) t]; simp add: klist_ok_insert_end klist_ok_insert ev_okD(2) [OF o(2)] n)+
  then show "sched_inv b (ev_insert_end E t s)" "sched_inv b (ev_insert E t s)"
    using o(1,3,4,5)
    by (simp_all add: sched_inv_def ev_insert_end_def ev_insert_def Let_def st_ok_tcb ready_ok_tcb prio_ok_upd
        prio_ok_def fun_upd_comp)
qed

lemma sched_inv_suspend:
  assumes ok: "sched_inv b s" and t: "stContainer (tcbs s t) = None"
    and L: "L = xSuspendedTaskList \<or> L = xTasksWaitingTermination"
  shows "sched_inv b (st_insert_end L t s)"
proof -
  note o = sched_invD [OF ok]
  let ?x = "(tcbs s t)\<lparr>stContainer := Some L\<rparr>" and ?l = "klist_insert_end t (slists s L)"
  have n: "t \<notin> set (kl_items (slists s M))" for M by (rule st_ok_None [OF o(1) t])
  have "st_ok ((tcbs s)(t := ?x)) ((slists s)(L := ?l))"
    by (rule st_ok_insert [OF o(1) t]) (simp_all add: klist_ok_insert_end st_okD(2) [OF o(1)] n)
  moreover have "ready_ok ((tcbs s)(t := ?x)) ((slists s)(L := ?l)) (uxTopReadyPriority s)"
    by (rule ready_ok_frame [OF o(3) n]) (use L in auto)
  moreover have "delay_ok b (stItemValue \<circ> tcbs s) ((slists s)(L := ?l)) (pxDelayedTaskList s)
      (pxOverflowDelayedTaskList s) (xTickCount s) (xNextTaskUnblockTime s)"
    by (rule delay_ok_other [OF o(5)]) (use L in auto)
  ultimately show ?thesis
    using o(2,4) by (simp add: sched_inv_def st_insert_end_def Let_def ev_ok_tcb prio_ok_upd prio_ok_def fun_upd_comp)
qed

lemma sched_inv_delay:
  assumes ok: "sched_inv b s" and t: "stContainer (tcbs s t) = None"
    and L: "L = pxDelayedTaskList s \<and> (b \<longrightarrow> xTickCount s < wake s t) \<or> L = pxOverflowDelayedTaskList s \<and> wake s t \<le> xTickCount s"
    and nx: "nx \<le> xNextTaskUnblockTime s" "L = pxDelayedTaskList s \<Longrightarrow> nx \<le> wake s t"
  shows "sched_inv b ((st_insert L t s)\<lparr>xNextTaskUnblockTime := nx\<rparr>)"
proof -
  note o = sched_invD [OF ok]
  let ?x = "(tcbs s t)\<lparr>stContainer := Some L\<rparr>"
    and ?l = "klist_insert (\<lambda>u. stItemValue (tcbs s u)) t (slists s L)"
  have n: "t \<notin> set (kl_items (slists s M))" for M by (rule st_ok_None [OF o(1) t])
  have "delay_list L" using delay_okD [OF o(5)] L by auto
  then have nr: "L \<noteq> Ready p" for p by auto
  have "st_ok ((tcbs s)(t := ?x)) ((slists s)(L := ?l))"
    by (rule st_ok_insert [OF o(1) t]) (simp_all add: klist_ok_insert st_okD(2) [OF o(1)] n)
  moreover have "ready_ok ((tcbs s)(t := ?x)) ((slists s)(L := ?l)) (uxTopReadyPriority s)"
    by (rule ready_ok_frame [OF o(3) n nr])
  moreover have "delay_ok b (stItemValue \<circ> tcbs s) ((slists s)(L := ?l)) (pxDelayedTaskList s)
      (pxOverflowDelayedTaskList s) (xTickCount s) nx"
    using delay_ok_insert [OF o(5), of L t nx] L nx by (simp add: comp_def)
  ultimately show ?thesis
    using o(2,4) by (simp add: sched_inv_def st_insert_def Let_def ev_ok_tcb prio_ok_upd prio_ok_def fun_upd_comp)
qed

text \<open>Updates of a control block that is in no state list, or that leave the fields the lists depend on.\<close>

lemma sched_inv_upd:
  assumes ok: "sched_inv b s"
    and "stContainer (f (tcbs s t)) = stContainer (tcbs s t)" "evContainer (f (tcbs s t)) = evContainer (tcbs s t)"
    and pr: "uxPriority (f (tcbs s t)) < 8" "uxBasePriority (f (tcbs s t)) < 8"
    and p: "uxPriority (f (tcbs s t)) = prio s t \<or> (\<forall>p. stContainer (tcbs s t) \<noteq> Some (Ready p))"
    and v: "stItemValue (f (tcbs s t)) = wake s t \<or> stContainer (tcbs s t) = None"
  shows "sched_inv b (upd_tcb t f s)"
proof -
  note o = sched_invD [OF ok]
  let ?c = "(tcbs s)(t := f (tcbs s t))"
  have "ready_ok ?c (slists s) (uxTopReadyPriority s)"
  proof (cases "uxPriority (f (tcbs s t)) = prio s t")
    case True
    then show ?thesis using o(3) by (simp add: ready_ok_tcb)
  next
    case False
    then have "t \<notin> set (st_items s (Ready p))" for p using p by (simp flip: st_okD(1) [OF o(1)])
    then show ?thesis by (rule ready_ok_frame_tcb [OF o(3)])
  qed
  moreover have "delay_ok b (stItemValue \<circ> ?c) (slists s) (pxDelayedTaskList s)
      (pxOverflowDelayedTaskList s) (xTickCount s) (xNextTaskUnblockTime s)"
  proof (cases "stItemValue (f (tcbs s t)) = wake s t")
    case True
    then show ?thesis using o(5) by (simp add: fun_upd_comp)
  next
    case False
    then have "t \<notin> set (st_items s M)" for M using v st_ok_None [OF o(1)] by blast
    then show ?thesis by (subst delay_ok_cong [where val = "stItemValue \<circ> tcbs s" and sl = "slists s"]) (use o(5) in auto)
  qed
  ultimately show ?thesis
    using o(1,2,4) assms(2,3) pr by (simp add: sched_inv_def st_ok_tcb ev_ok_tcb prio_ok_upd)
qed

end
