(* ===== verification/SchedInv.thy ===== *)
theory SchedInv imports SchedWf begin

text \<open>
  The scheduler's operations keep its invariant and never fail: no operation follows a NULL container
  or takes the head of an empty list. The invariant adds to the well-formedness of the lists that a
  task in an event list is in a delayed or the suspended list, and that the idle task is ready.
\<close>

unbundle bit_operations_syntax

definition waiting_in :: "slist option \<Rightarrow> bool" where
  "waiting_in L \<longleftrightarrow> L = Some xDelayedTaskList1 \<or> L = Some xDelayedTaskList2 \<or> L = Some xSuspendedTaskList"

definition kernel_inv :: "bool \<Rightarrow> addr \<Rightarrow> sched \<Rightarrow> bool" where
  "kernel_inv b idle s \<longleftrightarrow> sched_inv b s \<and>
    (\<forall>t. evContainer (tcbs s t) \<noteq> None \<longrightarrow> waiting_in (stContainer (tcbs s t))) \<and>
    (\<exists>p. stContainer (tcbs s idle) = Some (Ready p))"

abbreviation kernel_ok :: "addr \<Rightarrow> sched \<Rightarrow> bool" where
  "kernel_ok \<equiv> kernel_inv True"

lemma waiting_in_simps [simp]:
  "waiting_in (Some xDelayedTaskList1)" "waiting_in (Some xDelayedTaskList2)" "waiting_in (Some xSuspendedTaskList)"
  "\<not> waiting_in None" "\<not> waiting_in (Some (Ready p))" "\<not> waiting_in (Some xTasksWaitingTermination)"
  by (simp_all add: waiting_in_def)

lemma waiting_inE:
  assumes "waiting_in (stContainer (tcbs s t))"
  obtains L where "stContainer (tcbs s t) = Some L" "\<And>p. L \<noteq> Ready p"
  using assms by (auto simp: waiting_in_def)

lemma kernel_invD:
  assumes "kernel_inv b i s"
  shows "sched_inv b s" "evContainer (tcbs s t) \<noteq> None \<Longrightarrow> waiting_in (stContainer (tcbs s t))"
    "\<exists>p. stContainer (tcbs s i) = Some (Ready p)"
  using assms by (auto simp: kernel_inv_def)

lemma kernel_inv_fields [simp]:
  "kernel_inv b i (s\<lparr>xYieldPending := y\<rparr>) = kernel_inv b i s" "kernel_inv b i (s\<lparr>yield_requested := y\<rparr>) = kernel_inv b i s"
  "kernel_inv b i (s\<lparr>uxSchedulerSuspended := n\<rparr>) = kernel_inv b i s" "kernel_inv b i (s\<lparr>uxPendedTicks := n\<rparr>) = kernel_inv b i s"
  "kernel_inv b i (s\<lparr>pxCurrentTCB := t\<rparr>) = kernel_inv b i s" "kernel_inv b i (s\<lparr>xNumOfOverflows := n\<rparr>) = kernel_inv b i s"
  by (simp_all add: kernel_inv_def)

text \<open>An operation on one task.\<close>

lemma kernel_inv_step:
  assumes "kernel_inv b i s" and "sched_inv b' s'" and "\<And>u. u \<noteq> t \<Longrightarrow> tcbs s' u = tcbs s u"
    and "evContainer (tcbs s' t) \<noteq> None \<Longrightarrow> waiting_in (stContainer (tcbs s' t))"
    and "t = i \<Longrightarrow> \<exists>p. stContainer (tcbs s' t) = Some (Ready p)"
  shows "kernel_inv b' i s'"
  unfolding kernel_inv_def
proof (intro conjI allI impI)
  fix u assume "evContainer (tcbs s' u) \<noteq> None"
  then show "waiting_in (stContainer (tcbs s' u))"
    using assms(3,4) kernel_invD(2) [OF assms(1)] by (cases "u = t") auto
next
  show "\<exists>p. stContainer (tcbs s' i) = Some (Ready p)"
    using assms(3,5) kernel_invD(3) [OF assms(1)] by (cases "i = t") auto
qed (rule assms(2))

section \<open>Unblocking\<close>

lemma tcb_ev_st [simp]: "c\<lparr>evContainer := e, stContainer := L\<rparr> = c\<lparr>stContainer := L, evContainer := e\<rparr>" for c :: tcb
  by (cases c) simp

definition unblocked :: "addr \<Rightarrow> slist \<Rightarrow> sched \<Rightarrow> sched" where
  "unblocked t L s = prvAddTaskToReadyList t (ev_unlinked t (st_removed t L s))"

lemma glob_unblocked [simp]: "glob (unblocked t L s) = glob s"
  by (simp add: unblocked_def)

lemma tcbs_unblocked [simp]:
  "tcbs (unblocked t L s) = (tcbs s)(t := (tcbs s t)\<lparr>stContainer := Some (Ready (prio s t)), evContainer := None\<rparr>)"
  by (simp add: unblocked_def)

lemma kernel_inv_unblocked:
  assumes k: "kernel_inv b i s" and t: "stContainer (tcbs s t) = Some L" and L: "\<And>p. L \<noteq> Ready p"
  shows "kernel_inv b i (unblocked t L s)"
proof (rule kernel_inv_step [OF k, where t = t])
  show "sched_inv b (unblocked t L s)"
    unfolding unblocked_def
    by (intro sched_inv_add_ready sched_inv_ev_unlinked sched_inv_st_removed kernel_invD(1) [OF k] t L) simp
qed simp_all

lemma st_items_unblocked:
  assumes "\<And>p. L \<noteq> Ready p" and "\<And>p. M \<noteq> Ready p"
  shows "st_items (unblocked t L s) M = (if M = L then remove1 t (st_items s L) else st_items s M)"
  using assms
  by (auto simp: unblocked_def prvAddTaskToReadyList_def st_insert_end_def ev_unlinked_def ev_removed_def
      st_removed_def Let_def split: option.split)

text \<open>The same state, when the event item is unlinked first.\<close>

lemma unblocked_ev_first:
  "evContainer (tcbs s t) = Some E \<Longrightarrow> prvAddTaskToReadyList t (st_removed t L (ev_removed t E s)) = unblocked t L s"
  by (cases s) (simp add: unblocked_def ev_unlinked_def st_removed_def ev_removed_def)

lemma unblocked_no_event:
  "evContainer (tcbs s t) = None \<Longrightarrow> prvAddTaskToReadyList t (st_removed t L s) = unblocked t L s"
  by (simp add: unblocked_def ev_unlinked_def st_removed_def)

lemma prvAddTaskToReadyList_cong:
  "prvAddTaskToReadyList t (s\<lparr>xYieldPending := y\<rparr>) = (prvAddTaskToReadyList t s)\<lparr>xYieldPending := y\<rparr>"
  by (simp add: prvAddTaskToReadyList_def st_insert_end_def Let_def)

section \<open>The tick\<close>

text \<open>What the tick leaves alone besides the fields of \<open>glob\<close>: all but the unblock time.\<close>

definition globn :: "sched \<Rightarrow> sched" where
  "globn s = glob (s\<lparr>xNextTaskUnblockTime := 0\<rparr>)"

lemma globn_sel:
  assumes "globn s' = globn s"
  shows "pxCurrentTCB s' = pxCurrentTCB s" "pxDelayedTaskList s' = pxDelayedTaskList s"
    "pxOverflowDelayedTaskList s' = pxOverflowDelayedTaskList s" "xTickCount s' = xTickCount s"
    "uxSchedulerSuspended s' = uxSchedulerSuspended s"
    "xYieldPending s' = xYieldPending s" "uxPendedTicks s' = uxPendedTicks s"
    "uxCurrentNumberOfTasks s' = uxCurrentNumberOfTasks s" "xNumOfOverflows s' = xNumOfOverflows s"
    "yield_requested s' = yield_requested s" "xSchedulerRunning s' = xSchedulerRunning s"
  using assms by (cases s; cases s'; simp add: globn_def glob_def)+

lemma globn_glob: "glob s' = glob s \<Longrightarrow> globn s' = globn s"
  by (cases s; cases s'; simp add: globn_def glob_def)

lemma globn_nx [simp]: "globn (s\<lparr>xNextTaskUnblockTime := n\<rparr>) = globn s"
  by (simp add: globn_def glob_def)

lemma sched_inv_next:
  assumes "sched_inv b s" and "\<And>t. t \<in> set (st_items s (pxDelayedTaskList s)) \<Longrightarrow> n \<le> wake s t"
    and "b' \<Longrightarrow> \<forall>t\<in>set (st_items s (pxDelayedTaskList s)). xTickCount s < wake s t"
  shows "sched_inv b' (s\<lparr>xNextTaskUnblockTime := n\<rparr>)"
  using assms by (auto simp: sched_inv_def delay_ok_def)

lemma delayed_head_least:
  assumes "sched_inv b s" and "st_items s (pxDelayedTaskList s) = t # ts" and "u \<in> set (t # ts)"
  shows "wake s t \<le> wake s u"
proof -
  have "klist_sorted (wake s) (slists s (pxDelayedTaskList s))"
    using sched_invD(5) [OF assms(1)] unfolding delay_ok_def by (simp add: comp_def)
  then show ?thesis using assms(2,3) by auto
qed

lemma reset_next_inv:
  assumes "sched_inv b s"
  shows "sched_inv b (prvResetNextTaskUnblockTime s)"
proof (cases "st_items s (pxDelayedTaskList s)")
  case Nil
  then show ?thesis
    unfolding prvResetNextTaskUnblockTime_def using assms by (auto intro!: sched_inv_next)
next
  case (Cons t ts)
  have "b \<Longrightarrow> \<forall>t\<in>set (st_items s (pxDelayedTaskList s)). xTickCount s < wake s t"
    using assms by (auto simp: sched_inv_def delay_ok_def)
  then show ?thesis
    unfolding prvResetNextTaskUnblockTime_def
    using sched_inv_next [OF assms] delayed_head_least [OF assms Cons] Cons by simp
qed

text \<open>The tasks that are due, and the state after all of them are unblocked.\<close>

definition due :: "sched \<Rightarrow> addr \<Rightarrow> bool" where
  "due s t \<longleftrightarrow> stContainer (tcbs s t) = Some (pxDelayedTaskList s) \<and> wake s t \<le> xTickCount s"

lemma tick_unblock_spec:
  assumes "kernel_inv False i s"
  shows "\<exists>s'. tick_unblock sw s = Some (sw \<or> (\<exists>t. due s t \<and> prio s (pxCurrentTCB s) \<le> prio s t), s') \<and>
    kernel_ok i s' \<and> globn s' = globn s \<and>
    tcbs s' = (\<lambda>t. if due s t then (tcbs s t)\<lparr>stContainer := Some (Ready (prio s t)), evContainer := None\<rparr> else tcbs s t)"
  using assms
proof (induction "length (st_items s (pxDelayedTaskList s))" arbitrary: sw s)
  case 0
  then have e: "st_items s (pxDelayedTaskList s) = []" by simp
  have nd: "\<not> due s t" for t
    using e st_okD(1) [OF sched_invD(1) [OF kernel_invD(1) [OF 0(2)]], of t "pxDelayedTaskList s"] by (simp add: due_def)
  have "kernel_ok i (s\<lparr>xNextTaskUnblockTime := portMAX_DELAY\<rparr>)"
    using 0(2) sched_inv_next [of False s "portMAX_DELAY" True] e by (simp add: kernel_inv_def)
  then show ?case using e nd by (subst tick_unblock.simps) simp
next
  case (Suc n)
  then obtain t ts where e: "st_items s (pxDelayedTaskList s) = t # ts"
    by (cases "st_items s (pxDelayedTaskList s)") auto
  note k = Suc.prems and si = kernel_invD(1) [OF Suc.prems]
  note st = st_okD(1) [OF sched_invD(1) [OF si]]
  let ?D = "pxDelayedTaskList s"
  have tD: "stContainer (tcbs s t) = Some ?D" using e by (simp add: st)
  have nr: "?D \<noteq> Ready p" for p using delay_okD(1) [OF sched_invD(5) [OF si]] by auto
  show ?case
  proof (cases "xTickCount s < wake s t")
    case True
    have ahead: "xTickCount s < wake s u" if "u \<in> set (st_items s ?D)" for u
      using delayed_head_least [OF si e, of u] that True e by auto
    then have nd: "\<not> due s u" for u by (auto simp: due_def st dest: leD)
    have "kernel_ok i (s\<lparr>xNextTaskUnblockTime := wake s t\<rparr>)"
      using k sched_inv_next [OF si, of "wake s t" True] ahead delayed_head_least [OF si e] e
      by (simp add: kernel_inv_def)
    then show ?thesis using e nd True by (subst tick_unblock.simps) simp
  next
    case False
    let ?s = "unblocked t ?D s"
    have g: "glob ?s = glob s" by simp
    have l: "n = length (st_items ?s (pxDelayedTaskList ?s))"
      using Suc.hyps(2) e nr by (simp add: glob_sel [OF g] st_items_unblocked)
    have k': "kernel_inv False i ?s" by (rule kernel_inv_unblocked [OF k tD nr])
    have d: "due s u \<longleftrightarrow> u = t \<or> due ?s u" for u
      using False tD by (auto simp: due_def glob_sel [OF g])
    have nt: "\<not> due ?s t" using nr [THEN not_sym] by (simp add: due_def glob_sel [OF g])
    have pr: "prio ?s u = prio s u" for u by simp
    obtain s' where s': "tick_unblock (if prio ?s t \<ge> prio ?s (pxCurrentTCB ?s) then True else sw) ?s =
        Some ((if prio ?s t \<ge> prio ?s (pxCurrentTCB ?s) then True else sw) \<or>
          (\<exists>u. due ?s u \<and> prio ?s (pxCurrentTCB ?s) \<le> prio ?s u), s')"
      and rest: "kernel_ok i s'" "globn s' = globn ?s"
      "tcbs s' = (\<lambda>u. if due ?s u then (tcbs ?s u)\<lparr>stContainer := Some (Ready (prio ?s u)), evContainer := None\<rparr> else tcbs ?s u)"
      using Suc.hyps(1) [OF l k'] by blast
    have "tick_unblock sw s = tick_unblock (if prio ?s t \<ge> prio ?s (pxCurrentTCB ?s) then True else sw) ?s"
      using False by (subst tick_unblock.simps) (simp add: e st_remove_eq [OF tD] ev_unlink_eq unblocked_def)
    also have "\<dots> = Some (sw \<or> (\<exists>u. due s u \<and> prio s (pxCurrentTCB s) \<le> prio s u), s')"
      unfolding s' by (auto simp: d pr glob_sel [OF g] simp del: tcbs_unblocked)
    finally have "tick_unblock sw s = Some (sw \<or> (\<exists>u. due s u \<and> prio s (pxCurrentTCB s) \<le> prio s u), s')" .
    moreover have "globn s' = globn s" using rest(2) globn_glob [OF g] by simp
    moreover have "tcbs s' u = (if due s u then (tcbs s u)\<lparr>stContainer := Some (Ready (prio s u)), evContainer := None\<rparr> else tcbs s u)" for u
      unfolding rest(3) using d [of u] nt by auto
    ultimately show ?thesis using rest(1) by blast
  qed
qed

text \<open>The tick count and the delayed lists, one tick on.\<close>

definition tick_adv :: "sched \<Rightarrow> sched" where
  "tick_adv s =
    (let s = s\<lparr>xTickCount := xTickCount s + 1\<rparr> in if xTickCount s = 0 then taskSWITCH_DELAYED_LISTS s else s)"

lemma tick_adv_sel [simp]:
  "tcbs (tick_adv s) = tcbs s" "slists (tick_adv s) = slists s" "pxCurrentTCB (tick_adv s) = pxCurrentTCB s"
  "xTickCount (tick_adv s) = xTickCount s + 1" "uxSchedulerSuspended (tick_adv s) = uxSchedulerSuspended s"
  "xYieldPending (tick_adv s) = xYieldPending s"
  "pxDelayedTaskList (tick_adv s) = (if xTickCount s + 1 = 0 then pxOverflowDelayedTaskList s else pxDelayedTaskList s)"
  "pxOverflowDelayedTaskList (tick_adv s) = (if xTickCount s + 1 = 0 then pxDelayedTaskList s else pxOverflowDelayedTaskList s)"
  by (simp_all add: tick_adv_def Let_def taskSWITCH_DELAYED_LISTS_def prvResetNextTaskUnblockTime_def split: list.split)

lemma unat_u32_inc: "(n :: u32) + 1 \<noteq> 0 \<Longrightarrow> unat (n + 1) = Suc (unat n)"
proof -
  assume "n + 1 \<noteq> 0"
  then have "unat (n + 1) \<noteq> 0" by (simp add: unat_eq_zero)
  moreover have "unat (n + 1) = (unat n + 1) mod 4294967296" by (simp add: unat_word_ariths)
  ultimately show ?thesis using unat_lt_u32 [of n] by (cases "unat n + 1 = 4294967296") auto
qed

lemma unat_u32_last: "(n :: u32) + 1 = 0 \<Longrightarrow> unat n = 4294967295"
proof -
  assume "n + 1 = 0"
  then have "(unat n + 1) mod 4294967296 = 0" using unat_word_ariths(1) [of n 1] by simp
  then show ?thesis using unat_lt_u32 [of n] by (cases "unat n + 1 = 4294967296") auto
qed

lemma u32_le_inc: "x \<le> (n :: u32) \<Longrightarrow> n + 1 \<noteq> 0 \<Longrightarrow> x \<le> n + 1"
  by (simp add: word_le_nat_alt unat_u32_inc)

lemma tick_adv_inv:
  assumes "kernel_ok i s"
  shows "kernel_inv False i (tick_adv s)"
proof -
  note o = sched_invD [OF kernel_invD(1) [OF assms]]
  have "sched_inv False (tick_adv s)"
  proof (cases "xTickCount s + 1 = 0")
    case False
    then have "delay_ok False (stItemValue \<circ> tcbs s) (slists s) (pxDelayedTaskList s) (pxOverflowDelayedTaskList s)
        (xTickCount s + 1) (xNextTaskUnblockTime s)"
      using o(5) u32_le_inc [OF _ False] unfolding delay_ok_def by blast
    then show ?thesis using o(1-4) False by (simp add: sched_inv_def tick_adv_def)
  next
    case True
    then have m: "xTickCount s = - 1" by (simp add: eq_neg_iff_add_eq_0)
    have none: "kl_items (slists s (pxDelayedTaskList s)) = []"
    proof (rule ccontr)
      assume "kl_items (slists s (pxDelayedTaskList s)) \<noteq> []"
      then obtain t where "t \<in> set (kl_items (slists s (pxDelayedTaskList s)))" by (cases "kl_items (slists s (pxDelayedTaskList s))") auto
      then have "xTickCount s < wake s t" using o(5) unfolding delay_ok_def by simp
      then show False unfolding m using word_order.extremum leD by blast
    qed
    let ?s = "s\<lparr>xTickCount := 0, pxDelayedTaskList := pxOverflowDelayedTaskList s,
      pxOverflowDelayedTaskList := pxDelayedTaskList s, xNumOfOverflows := xNumOfOverflows s + 1, xNextTaskUnblockTime := 0\<rparr>"
    have "delay_ok False (stItemValue \<circ> tcbs s) (slists s) (pxOverflowDelayedTaskList s) (pxDelayedTaskList s) 0 0"
      using o(5) none unfolding delay_ok_def by auto
    then have "sched_inv False ?s" using o(1-4) by (simp add: sched_inv_def)
    then have "sched_inv False (prvResetNextTaskUnblockTime ?s)" by (rule reset_next_inv)
    moreover have "tick_adv s = prvResetNextTaskUnblockTime ?s"
      using True by (simp add: tick_adv_def taskSWITCH_DELAYED_LISTS_def prvResetNextTaskUnblockTime_def split: list.split)
    ultimately show ?thesis by simp
  qed
  then show ?thesis using assms by (simp add: kernel_inv_def)
qed

lemma xTaskIncrementTick_spec:
  assumes k: "kernel_ok i s" and sus: "uxSchedulerSuspended s = 0"
  shows "\<exists>s'. xTaskIncrementTick s = Some
      ((\<exists>t. due (tick_adv s) t \<and> prio s (pxCurrentTCB s) \<le> prio s t) \<or>
       1 < length (st_items s' (Ready (prio s (pxCurrentTCB s)))) \<or> xYieldPending s, s') \<and>
    kernel_ok i s' \<and> globn s' = globn (tick_adv s) \<and>
    tcbs s' = (\<lambda>t. if due (tick_adv s) t then (tcbs s t)\<lparr>stContainer := Some (Ready (prio s t)), evContainer := None\<rparr> else tcbs s t)"
proof -
  let ?s = "tick_adv s" and ?D = "\<exists>t. due (tick_adv s) t \<and> prio s (pxCurrentTCB s) \<le> prio s t"
  note k1 = tick_adv_inv [OF k] and si = kernel_invD(1) [OF tick_adv_inv [OF k]]
  have "\<exists>s'. (if xTickCount ?s \<ge> xNextTaskUnblockTime ?s then tick_unblock False ?s else Some (False, ?s)) = Some (?D, s') \<and>
    kernel_ok i s' \<and> globn s' = globn ?s \<and>
    tcbs s' = (\<lambda>t. if due ?s t then (tcbs s t)\<lparr>stContainer := Some (Ready (prio s t)), evContainer := None\<rparr> else tcbs s t)"
  proof (cases "xTickCount ?s \<ge> xNextTaskUnblockTime ?s")
    case True
    have e: "(tcbs ?s t)\<lparr>stContainer := Some (Ready (prio ?s t)), evContainer := None\<rparr> =
        (tcbs s t)\<lparr>stContainer := Some (Ready (prio s t)), evContainer := None\<rparr>" "prio ?s t = prio s t"
      "tcbs ?s t = tcbs s t" "pxCurrentTCB ?s = pxCurrentTCB s" for t by simp_all
    show ?thesis using tick_unblock_spec [OF k1, of False] True by (simp only: e if_True simp_thms)
  next
    case False
    have ahead: "xTickCount ?s < wake ?s t" if "t \<in> set (st_items ?s (pxDelayedTaskList ?s))" for t
    proof -
      have "xNextTaskUnblockTime ?s \<le> wake ?s t"
        using sched_invD(5) [OF si] that unfolding delay_ok_def by auto
      then show ?thesis using False by auto
    qed
    have nd: "\<not> due ?s t" for t
      using ahead [of t] st_okD(1) [OF sched_invD(1) [OF si], of t "pxDelayedTaskList ?s"]
      by (auto simp: due_def dest: leD)
    have "sched_ok ?s"
      using si ahead unfolding sched_inv_def delay_ok_def by (simp add: comp_def)
    then have "kernel_ok i ?s" using k1 by (simp add: kernel_inv_def)
    then show ?thesis using False nd by simp
  qed
  then obtain s' where u: "(if xTickCount ?s \<ge> xNextTaskUnblockTime ?s then tick_unblock False ?s else Some (False, ?s)) = Some (?D, s')"
    and k': "kernel_ok i s'" and g: "globn s' = globn ?s"
    and c: "tcbs s' = (\<lambda>t. if due ?s t then (tcbs s t)\<lparr>stContainer := Some (Ready (prio s t)), evContainer := None\<rparr> else tcbs s t)"
    by blast
  have pc: "prio s' (pxCurrentTCB s') = prio s (pxCurrentTCB s)" by (simp add: c globn_sel [OF g])
  have ta: "(if xTickCount (s\<lparr>xTickCount := xTickCount s + 1\<rparr>) = 0 then taskSWITCH_DELAYED_LISTS (s\<lparr>xTickCount := xTickCount s + 1\<rparr>)
      else s\<lparr>xTickCount := xTickCount s + 1\<rparr>) = ?s"
    by (simp add: tick_adv_def Let_def)
  have "xTaskIncrementTick s = Some (if xYieldPending s' then True else
        (if length (st_items s' (Ready (prio s' (pxCurrentTCB s')))) > 1 then True else ?D), s')"
    unfolding xTaskIncrementTick_def Let_def ta u sus by simp
  then have "xTaskIncrementTick s = Some (?D \<or> 1 < length (st_items s' (Ready (prio s (pxCurrentTCB s)))) \<or> xYieldPending s, s')"
    using pc globn_sel(6) [OF g] by auto
  then show ?thesis using k' g c by blast
qed

section \<open>Time left\<close>

text \<open>The ticks a delayed task still has to wait.\<close>

definition remaining :: "sched \<Rightarrow> addr \<Rightarrow> nat option" where
  "remaining s t =
    (if stContainer (tcbs s t) = Some (pxDelayedTaskList s) then Some (unat (wake s t - xTickCount s))
     else if stContainer (tcbs s t) = Some (pxOverflowDelayedTaskList s)
     then Some (2 ^ 32 - unat (xTickCount s) + unat (wake s t))
     else None)"

lemma unat_sub_u32: "(b :: u32) \<le> a \<Longrightarrow> unat (a - b) = unat a - unat b"
  by (simp add: unat_sub)

lemma remaining_bounds:
  assumes "sched_ok s"
  shows "stContainer (tcbs s t) = Some (pxDelayedTaskList s) \<Longrightarrow> xTickCount s < wake s t"
    "stContainer (tcbs s t) = Some (pxOverflowDelayedTaskList s) \<Longrightarrow> wake s t \<le> xTickCount s"
  using sched_invD(5) [OF assms] st_okD(1) [OF sched_invD(1) [OF assms], of t]
  unfolding delay_ok_def by auto

lemma remaining_pos: "sched_ok s \<Longrightarrow> remaining s t = Some r \<Longrightarrow> 0 < r"
proof -
  assume ok: "sched_ok s" and r: "remaining s t = Some r"
  note b = remaining_bounds [OF ok, of t]
  show ?thesis
  proof (cases "stContainer (tcbs s t) = Some (pxDelayedTaskList s)")
    case True
    then show ?thesis using r b(1) by (auto simp: remaining_def unat_sub_u32 less_imp_le word_less_nat_alt)
  next
    case False
    then show ?thesis
      using r unat_lt_u32 [of "xTickCount s"] by (auto simp: remaining_def split: if_splits simp del: unat_lt_u32)
  qed
qed

lemma remaining_due:
  assumes ok: "sched_ok s" and s': "globn s' = globn (tick_adv s)" and c: "tcbs s' t = tcbs s t"
    and r: "remaining s t = Some r"
  shows "due (tick_adv s) t \<longleftrightarrow> r = 1" and "r \<noteq> 1 \<Longrightarrow> remaining s' t = Some (r - 1)"
proof -
  note b = remaining_bounds [OF ok, of t] and d = delay_okD(3) [OF sched_invD(5) [OF ok]]
  note g = globn_sel [OF s']
  have "(due (tick_adv s) t \<longleftrightarrow> r = 1) \<and> (r \<noteq> 1 \<longrightarrow> remaining s' t = Some (r - 1))"
  proof (cases "stContainer (tcbs s t) = Some (pxDelayedTaskList s)")
    case True
    then have lt: "unat (xTickCount s) < unat (wake s t)" using b(1) by (simp add: word_less_nat_alt)
    have nz: "xTickCount s + 1 \<noteq> 0"
    proof
      assume "xTickCount s + 1 = 0"
      then have "unat (xTickCount s) = 4294967295" by (rule unat_u32_last)
      then show False using lt unat_lt_u32 [of "wake s t"] by linarith
    qed
    have r': "r = unat (wake s t) - unat (xTickCount s)"
      using r True lt by (simp add: remaining_def unat_sub_u32 word_le_nat_alt)
    have "due (tick_adv s) t \<longleftrightarrow> r = 1"
      using True nz lt r' by (auto simp: due_def word_le_nat_alt unat_u32_inc)
    moreover have "remaining s' t = Some (r - 1)" if "r \<noteq> 1"
      using True nz lt r' that by (simp add: remaining_def c g word_le_nat_alt unat_u32_inc unat_sub_u32)
    ultimately show ?thesis by blast
  next
    case F: False
    then have o: "stContainer (tcbs s t) = Some (pxOverflowDelayedTaskList s)"
      and r': "r = 4294967296 - unat (xTickCount s) + unat (wake s t)"
      using r by (auto simp: remaining_def split: if_splits)
    have le: "unat (wake s t) \<le> unat (xTickCount s)" using b(2) [OF o] by (simp add: word_le_nat_alt)
    show ?thesis
    proof (cases "xTickCount s + 1 = 0")
      case True
      then have "r = Suc (unat (wake s t))" using r' by (simp add: unat_u32_last)
      then show ?thesis
        using o d True by (auto simp: due_def remaining_def c g unat_eq_zero)
    next
      case False
      then have "unat (xTickCount s) \<noteq> 4294967295" using unat_u32_inc [OF False] unat_lt_u32 [of "xTickCount s + 1"] by linarith
      then have l: "unat (xTickCount s) < 4294967295" using unat_lt_u32 [of "xTickCount s"] by linarith
      then have "r \<noteq> 1" using r' by linarith
      moreover have "remaining s' t = Some (r - 1)"
        using o d False l r' by (simp add: remaining_def c g unat_u32_inc)
      moreover have "\<not> due (tick_adv s) t" using o d False by (simp add: due_def)
      ultimately show ?thesis by blast
    qed
  qed
  then show "due (tick_adv s) t \<longleftrightarrow> r = 1" and "r \<noteq> 1 \<Longrightarrow> remaining s' t = Some (r - 1)" by blast+
qed

lemma not_delayed_not_due:
  "sched_ok s \<Longrightarrow> remaining s t = None \<Longrightarrow> \<not> due (tick_adv s) t"
  by (auto simp: remaining_def due_def split: if_splits)

section \<open>Blocking\<close>

lemma ready_prio:
  "sched_inv b s \<Longrightarrow> stContainer (tcbs s t) = Some (Ready p) \<Longrightarrow> p = prio s t \<and> p < 8"
  using sched_invD(3) st_okD(1) [OF sched_invD(1)] unfolding ready_ok_def by metis

definition suspend_forever :: "u32 \<Rightarrow> bool \<Rightarrow> bool" where
  "suspend_forever n ind \<longleftrightarrow> n = portMAX_DELAY \<and> ind"

lemma unat_add_u32:
  "(x + n < (x :: u32)) = (4294967296 \<le> unat x + unat n)"
  "unat (x + n) = (if 4294967296 \<le> unat x + unat n then unat x + unat n - 4294967296 else unat x + unat n)"
proof -
  have m: "unat (x + n) = (unat x + unat n) mod 4294967296" by (simp add: unat_word_ariths)
  have "unat x < 4294967296" "unat n < 4294967296" by simp_all
  then have "4294967296 \<le> unat x + unat n \<Longrightarrow> unat x + unat n - 4294967296 < 4294967296" by linarith
  then have "(unat x + unat n) mod 4294967296 =
      (if 4294967296 \<le> unat x + unat n then unat x + unat n - 4294967296 else unat x + unat n)"
    by (cases "4294967296 \<le> unat x + unat n") (simp_all add: le_mod_geq)
  then show s: "unat (x + n) = (if 4294967296 \<le> unat x + unat n then unat x + unat n - 4294967296 else unat x + unat n)"
    using m by simp
  show "(x + n < x) = (4294967296 \<le> unat x + unat n)"
  proof (cases "4294967296 \<le> unat x + unat n")
    case True
    then have "unat (x + n) = unat x + unat n - 4294967296" using s by simp
    then have "unat (x + n) < unat x" using True \<open>unat n < 4294967296\<close> by linarith
    then show ?thesis using True by (simp add: word_less_nat_alt)
  next
    case False
    then show ?thesis using s by (simp add: word_less_nat_alt)
  qed
qed

lemma block_spec:
  assumes ok: "sched_ok s" and t: "stContainer (tcbs s (pxCurrentTCB s)) = Some (Ready p)" and n: "n > 0"
  shows "\<exists>s'. prvAddCurrentTaskToDelayedList n ind s = Some s' \<and> sched_ok s' \<and> globn s' = globn s \<and>
    elists s' = elists s \<and>
    (\<forall>u. u \<noteq> pxCurrentTCB s \<longrightarrow> tcbs s' u = tcbs s u) \<and>
    evContainer (tcbs s' (pxCurrentTCB s)) = evContainer (tcbs s (pxCurrentTCB s)) \<and>
    prio s' (pxCurrentTCB s) = prio s (pxCurrentTCB s) \<and>
    evItemValue (tcbs s' (pxCurrentTCB s)) = evItemValue (tcbs s (pxCurrentTCB s)) \<and>
    uxBasePriority (tcbs s' (pxCurrentTCB s)) = uxBasePriority (tcbs s (pxCurrentTCB s)) \<and>
    waiting_in (stContainer (tcbs s' (pxCurrentTCB s))) \<and>
    (if suspend_forever n ind then stContainer (tcbs s' (pxCurrentTCB s)) = Some xSuspendedTaskList
     else remaining s' (pxCurrentTCB s) = Some (unat n))"
proof -
  let ?t = "pxCurrentTCB s"
  let ?r = "taskRESET_READY_PRIORITY p (st_removed ?t (Ready p) s)"
  have p: "p = prio s ?t" using ready_prio [OF ok t] by simp
  have gr: "glob ?r = glob s" by simp
  note g = glob_sel [OF gr]
  have okr: "sched_ok ?r" by (rule sched_inv_reset_removed [OF ok t])
  have el: "elists ?r = elists s" by (simp add: taskRESET_READY_PRIORITY_def st_removed_def)
  have rem: "(case st_remove ?t s of None \<Rightarrow> None | Some (n, s1) \<Rightarrow> f (if n = 0
      then s1\<lparr>uxTopReadyPriority := portRESET_READY_PRIORITY (prio s1 ?t) (uxTopReadyPriority s1)\<rparr> else s1)) = f ?r"
    for f :: "sched \<Rightarrow> sched option"
    using reset_after_remove(2) [of ?t s p] by (simp add: st_remove_eq [OF t] p [symmetric] split: if_splits)
  show ?thesis
  proof (cases "suspend_forever n ind")
    case True
    let ?s = "st_insert_end xSuspendedTaskList ?t ?r"
    have "prvAddCurrentTaskToDelayedList n ind s = Some ?s"
      using rem [of "\<lambda>s. Some (st_insert_end xSuspendedTaskList ?t s)"] True
      unfolding prvAddCurrentTaskToDelayedList_def Let_def suspend_forever_def
      by (simp split: option.splits prod.splits)
    moreover have "sched_ok ?s" by (rule sched_inv_suspend [OF okr]) simp_all
    moreover have "globn ?s = globn s" by (rule globn_glob) simp
    moreover have "elists ?s = elists s" using el by (simp add: st_insert_end_def Let_def)
    ultimately show ?thesis using True by (intro exI [of _ ?s]) simp
  next
    case False
    let ?w = "xTickCount s + n"
    let ?v = "upd_tcb ?t (\<lambda>c. c\<lparr>stItemValue := ?w\<rparr>) ?r"
    have okv: "sched_ok ?v"
      by (rule sched_inv_upd [OF okr])
        (use sched_invD(4) [OF ok] in \<open>simp_all add: prio_ok_def\<close>)
    have vc: "stContainer (tcbs ?v ?t) = None" by simp
    have gv: "glob ?v = glob s" by simp
    note gs = glob_sel [OF gv]
    note dk = delay_okD [OF sched_invD(5) [OF ok]]
    let ?ovf = "?w < xTickCount s"
    let ?L = "if ?ovf then pxOverflowDelayedTaskList s else pxDelayedTaskList s"
    let ?nx = "if \<not> ?ovf \<and> ?w < xNextTaskUnblockTime s then ?w else xNextTaskUnblockTime s"
    let ?s = "(st_insert ?L ?t ?v)\<lparr>xNextTaskUnblockTime := ?nx\<rparr>"
    have run: "prvAddCurrentTaskToDelayedList n ind s = Some ?s"
    proof -
      have nxs: "xNextTaskUnblockTime (st_insert L ?t ?v) = xNextTaskUnblockTime s" for L
        by (rule glob_sel(5)) simp
      define f where "f s2 =
          Some (if xTickCount s2 + n < xTickCount s2
            then st_insert (pxOverflowDelayedTaskList s2) ?t (upd_tcb ?t (\<lambda>c. c\<lparr>stItemValue := xTickCount s2 + n\<rparr>) s2)
            else let s3 = st_insert (pxDelayedTaskList s2) ?t (upd_tcb ?t (\<lambda>c. c\<lparr>stItemValue := xTickCount s2 + n\<rparr>) s2)
              in if xTickCount s2 + n < xNextTaskUnblockTime s3 then s3\<lparr>xNextTaskUnblockTime := xTickCount s2 + n\<rparr> else s3)"
        for s2
      have "prvAddCurrentTaskToDelayedList n ind s =
        (case st_remove ?t s of None \<Rightarrow> None | Some (k, s1) \<Rightarrow>
          f (if k = 0 then s1\<lparr>uxTopReadyPriority := portRESET_READY_PRIORITY (prio s1 ?t) (uxTopReadyPriority s1)\<rparr> else s1))"
        unfolding prvAddCurrentTaskToDelayedList_def Let_def f_def using False
        by (cases "st_remove ?t s") (auto simp: suspend_forever_def)
      then show ?thesis unfolding rem using nxs by (simp add: g Let_def f_def)
    qed
    have nz: "0 < unat n" using n by (simp add: word_less_nat_alt)
    have ahead: "xTickCount s < ?w" if "\<not> ?ovf"
      using that nz unat_lt_u32 [of n] unfolding unat_add_u32(1) by (simp add: word_less_nat_alt unat_add_u32(2))
    have "sched_ok ?s"
    proof (rule sched_inv_delay [OF okv vc])
      show "?L = pxDelayedTaskList ?v \<and> (True \<longrightarrow> xTickCount ?v < wake ?v ?t) \<or>
          ?L = pxOverflowDelayedTaskList ?v \<and> wake ?v ?t \<le> xTickCount ?v"
        using ahead by (auto simp: gs g)
      show "?nx \<le> xNextTaskUnblockTime ?v" by (auto simp: gs g)
      show "?L = pxDelayedTaskList ?v \<Longrightarrow> ?nx \<le> wake ?v ?t" using dk(3) by (auto simp: gs g)
    qed
    moreover have gn: "globn ?s = globn s" unfolding globn_nx by (rule globn_glob) simp
    moreover have "elists ?s = elists s" using el by (simp add: st_insert_def Let_def)
    moreover have "remaining ?s ?t = Some (unat n)"
    proof -
      have c: "stContainer (tcbs ?s ?t) = Some ?L" and w: "wake ?s ?t = ?w" by simp_all
      show ?thesis
      proof (cases ?ovf)
        case True
        then have le: "4294967296 \<le> unat (xTickCount s) + unat n" by (simp only: unat_add_u32(1))
        then have "unat ?w = unat (xTickCount s) + unat n - 4294967296" by (simp only: unat_add_u32(2) if_True)
        then have "4294967296 - unat (xTickCount s) + unat ?w = unat n"
          using unat_lt_u32 [of "xTickCount s"] le by linarith
        then show ?thesis unfolding remaining_def c w globn_sel [OF gn] using True dk(3) by simp
      next
        case False
        then show ?thesis unfolding remaining_def c w globn_sel [OF gn] by simp
      qed
    qed
    moreover have "waiting_in (Some ?L)" using dk(1,2) by (auto simp: delay_list_def)
    ultimately show ?thesis using False run by (intro exI [of _ ?s]) simp
  qed
qed

section \<open>The context switch\<close>

lemma clz_top:
  assumes "bit (w :: u32) m" and "m < 32" and "\<And>n. bit w n \<Longrightarrow> n \<le> m"
  shows "ucPortCountLeadingZeros w = 31 - m"
proof -
  have "[0..<32] = [0..<m] @ m # [Suc m..<32]"
    using assms(2) by (metis upt_add_eq_append upt_conv_Cons less_imp_add_positive le0 plus_nat.add_0 less_imp_le_nat)
  then have r: "rev [0..<32] = rev [Suc m..<32] @ m # rev [0..<m]" by simp
  have "takeWhile (\<lambda>n. \<not> bit w n) (rev [Suc m..<32] @ m # rev [0..<m]) = rev [Suc m..<32]"
    using assms(1,3) by (subst takeWhile_append2) (auto dest: assms(3))
  then show ?thesis unfolding ucPortCountLeadingZeros_def r by simp
qed

text \<open>The bitmap names the highest priority that has a ready task.\<close>

lemma highest_ready:
  assumes ok: "sched_inv b s" and ne: "st_items s (Ready q) \<noteq> []"
  shows "portGET_HIGHEST_PRIORITY (uxTopReadyPriority s) < 8"
    "st_items s (Ready (portGET_HIGHEST_PRIORITY (uxTopReadyPriority s))) \<noteq> []"
    "\<And>q. st_items s (Ready q) \<noteq> [] \<Longrightarrow> q \<le> portGET_HIGHEST_PRIORITY (uxTopReadyPriority s)"
proof -
  let ?bm = "uxTopReadyPriority s" and ?m = "Max {n. bit (uxTopReadyPriority s) n}"
  have bits: "bit ?bm (unat p) \<longleftrightarrow> st_items s (Ready p) \<noteq> []" for p
    using sched_invD(3) [OF ok] unfolding ready_ok_def by blast
  have p8: "p < 8" if "st_items s (Ready p) \<noteq> []" for p
  proof -
    from that have "hd (st_items s (Ready p)) \<in> set (st_items s (Ready p))" by simp
    then show ?thesis using sched_invD(3) [OF ok] unfolding ready_ok_def by blast
  qed
  have fin: "finite {n. bit ?bm n}"
    by (rule finite_subset [of _ "{..<32}"]) (auto dest: bit_imp_le_length)
  have "bit ?bm ?m" using Max_in [OF fin] bits [of q] ne by blast
  moreover have ub: "n \<le> ?m" if "bit ?bm n" for n using Max_ge [OF fin] that by simp
  moreover have m32: "?m < 32" using \<open>bit ?bm ?m\<close> by (auto dest: bit_imp_le_length)
  ultimately have "ucPortCountLeadingZeros ?bm = 31 - ?m" by (intro clz_top) auto
  then have h: "portGET_HIGHEST_PRIORITY ?bm = of_nat ?m"
    using m32 by (simp add: portGET_HIGHEST_PRIORITY_def of_nat_diff)
  have u: "unat (of_nat ?m :: u32) = ?m" using m32 by (simp add: unat_of_nat)
  show n: "st_items s (Ready (portGET_HIGHEST_PRIORITY ?bm)) \<noteq> []"
    using \<open>bit ?bm ?m\<close> bits [of "of_nat ?m"] unfolding h u by simp
  show "portGET_HIGHEST_PRIORITY ?bm < 8" using p8 [OF n] .
  show "q \<le> portGET_HIGHEST_PRIORITY ?bm" if "st_items s (Ready q) \<noteq> []" for q
    using ub [of "unat q"] bits [of q] that unfolding h word_le_nat_alt u by simp
qed

lemma idle_list:
  assumes "kernel_inv b i s"
  obtains p where "st_items s (Ready p) \<noteq> []"
proof -
  from kernel_invD(3) [OF assms] obtain p where "stContainer (tcbs s i) = Some (Ready p)" by blast
  then have "i \<in> set (st_items s (Ready p))" using st_okD(1) [OF sched_invD(1) [OF kernel_invD(1) [OF assms]]] by simp
  then have "st_items s (Ready p) \<noteq> []" by auto
  then show ?thesis by (rule that)
qed

lemma sched_inv_select:
  assumes "sched_inv b s"
  shows "sched_inv b (s\<lparr>slists := (slists s)(Ready p := snd (klist_next (slists s (Ready p)))), pxCurrentTCB := t\<rparr>)"
proof -
  note o = sched_invD [OF assms]
  have "ready_ok (tcbs s) ((slists s)(Ready p := snd (klist_next (slists s (Ready p))))) (uxTopReadyPriority s)"
    using o(3) by (simp add: ready_ok_def)
  moreover have "delay_ok b (stItemValue \<circ> tcbs s) ((slists s)(Ready p := snd (klist_next (slists s (Ready p)))))
      (pxDelayedTaskList s) (pxOverflowDelayedTaskList s) (xTickCount s) (xNextTaskUnblockTime s)"
    by (rule delay_ok_other [OF o(5)]) simp
  ultimately show ?thesis using o(2,4) st_ok_next [OF o(1)] by (simp add: sched_inv_def)
qed

lemma klist_next_owner:
  "kl_items l \<noteq> [] \<Longrightarrow> klist_ok l \<Longrightarrow> \<exists>t. klist_next l = (Some t, snd (klist_next l)) \<and> t \<in> set (kl_items l)"
  by (auto simp: klist_next_def Let_def klist_ok_def)

lemma switch_spec:
  assumes k: "kernel_inv b i s" and sus: "uxSchedulerSuspended s = 0"
  shows "\<exists>t. vTaskSwitchContext s = Some
      (s\<lparr>xYieldPending := False, slists := (slists s)(Ready (prio s t) := snd (klist_next (slists s (Ready (prio s t))))),
         pxCurrentTCB := t\<rparr>) \<and>
    fst (klist_next (slists s (Ready (prio s t)))) = Some t \<and>
    stContainer (tcbs s t) = Some (Ready (prio s t)) \<and>
    (\<forall>u q. stContainer (tcbs s u) = Some (Ready q) \<longrightarrow> prio s u \<le> prio s t)"
proof -
  note si = kernel_invD(1) [OF k]
  let ?h = "portGET_HIGHEST_PRIORITY (uxTopReadyPriority s)"
  obtain q where ne: "st_items s (Ready q) \<noteq> []" using idle_list [OF k] .
  note h = highest_ready [OF si ne]
  obtain t where t: "klist_next (slists s (Ready ?h)) = (Some t, snd (klist_next (slists s (Ready ?h))))"
    and ti: "t \<in> set (st_items s (Ready ?h))"
    using klist_next_owner [OF h(2)] st_okD(2) [OF sched_invD(1) [OF si]] by blast
  have tc: "stContainer (tcbs s t) = Some (Ready ?h)" using ti st_okD(1) [OF sched_invD(1) [OF si]] by simp
  then have p: "prio s t = ?h" using ready_prio [OF si] by metis
  have "prio s u \<le> prio s t" if "stContainer (tcbs s u) = Some (Ready q)" for u q
  proof -
    have "u \<in> set (st_items s (Ready q))" using that st_okD(1) [OF sched_invD(1) [OF si]] by simp
    then have "q \<le> ?h" by (intro h(3)) auto
    then show ?thesis using ready_prio [OF si that] p by simp
  qed
  moreover have "vTaskSwitchContext s = Some
      (s\<lparr>xYieldPending := False, slists := (slists s)(Ready ?h := snd (klist_next (slists s (Ready ?h)))), pxCurrentTCB := t\<rparr>)"
    using sus h(1) by (simp add: vTaskSwitchContext_def taskSELECT_HIGHEST_PRIORITY_TASK_def Let_def) (subst t, simp)
  moreover have "fst (klist_next (slists s (Ready ?h))) = Some t" by (subst t) simp
  ultimately show ?thesis using tc by (intro exI [of _ t]) (simp add: p)
qed

end
