(* ===== verification/SchedOps.thy ===== *)
theory SchedOps imports SchedInv begin

text \<open>
  The operations of the scheduler: each keeps the kernel invariant and never fails, what each does to
  the tasks, and the properties of time, blocking, resumption, selection and priority inheritance.
\<close>

unbundle bit_operations_syntax

section \<open>Several ticks\<close>

text \<open>The effect of \<open>n\<close> ticks on the tasks.\<close>

definition ticked :: "addr \<Rightarrow> nat \<Rightarrow> sched \<Rightarrow> sched \<Rightarrow> bool" where
  "ticked i n s s' \<longleftrightarrow> kernel_ok i s' \<and> uxSchedulerSuspended s' = uxSchedulerSuspended s \<and>
    pxCurrentTCB s' = pxCurrentTCB s \<and> uxPendedTicks s' = uxPendedTicks s \<and>
    uxCurrentNumberOfTasks s' = uxCurrentNumberOfTasks s \<and>
    xTickCount s' = xTickCount s + of_nat n \<and>
    (\<forall>t. case remaining s t of None \<Rightarrow> tcbs s' t = tcbs s t \<and> remaining s' t = None
      | Some r \<Rightarrow> if r \<le> n
          then tcbs s' t = (tcbs s t)\<lparr>stContainer := Some (Ready (prio s t)), evContainer := None\<rparr> \<and> remaining s' t = None
          else tcbs s' t = tcbs s t \<and> remaining s' t = Some (r - n))"

lemma remaining_not_delayed:
  "sched_inv b s \<Longrightarrow> stContainer (tcbs s t) = Some (Ready p) \<Longrightarrow> remaining s t = None"
proof -
  assume i: "sched_inv b s" and t: "stContainer (tcbs s t) = Some (Ready p)"
  have "Ready p \<noteq> pxDelayedTaskList s" "Ready p \<noteq> pxOverflowDelayedTaskList s"
    using delay_okD(1,2) [OF sched_invD(5) [OF i]] by (auto simp: delay_list_def)
  then show ?thesis using t by (simp add: remaining_def)
qed

lemma tick_adv_more [simp]:
  "uxPendedTicks (tick_adv s) = uxPendedTicks s" "uxCurrentNumberOfTasks (tick_adv s) = uxCurrentNumberOfTasks s"
  "elists (tick_adv s) = elists s" "yield_requested (tick_adv s) = yield_requested s"
  by (simp_all add: tick_adv_def Let_def taskSWITCH_DELAYED_LISTS_def prvResetNextTaskUnblockTime_def split: list.split)

lemma remaining_globn:
  assumes "globn s' = globn (tick_adv s)" and "tcbs s' t = tcbs s t" and "remaining s t = None"
  shows "remaining s' t = None"
  using assms(2,3) by (auto simp: remaining_def globn_sel [OF assms(1)] split: if_splits)

lemma tick_ticked:
  assumes k: "kernel_ok i s" and sus: "uxSchedulerSuspended s = 0"
  shows "\<exists>sw s'. xTaskIncrementTick s = Some (sw, s') \<and> ticked i 1 s s'"
proof -
  obtain sw s' where run: "xTaskIncrementTick s = Some (sw, s')" and k': "kernel_ok i s'" and g: "globn s' = globn (tick_adv s)"
    and c: "tcbs s' = (\<lambda>t. if due (tick_adv s) t then (tcbs s t)\<lparr>stContainer := Some (Ready (prio s t)), evContainer := None\<rparr> else tcbs s t)"
    using xTaskIncrementTick_spec [OF k sus] by blast
  note si = kernel_invD(1) [OF k]
  have "case remaining s t of None \<Rightarrow> tcbs s' t = tcbs s t \<and> remaining s' t = None
      | Some r \<Rightarrow> if r \<le> 1
          then tcbs s' t = (tcbs s t)\<lparr>stContainer := Some (Ready (prio s t)), evContainer := None\<rparr> \<and> remaining s' t = None
          else tcbs s' t = tcbs s t \<and> remaining s' t = Some (r - 1)" for t
  proof (cases "remaining s t")
    case None
    then have "tcbs s' t = tcbs s t" using not_delayed_not_due [OF si None] by (simp add: c)
    then show ?thesis using None remaining_globn [OF g] by simp
  next
    case (Some r)
    note pos = remaining_pos [OF si Some]
    have d: "due (tick_adv s) t \<longleftrightarrow> r = 1"
      using remaining_due(1) [OF si, of "tick_adv s" t r] Some by simp
    show ?thesis
    proof (cases "r = 1")
      case True
      then show ?thesis using d Some remaining_not_delayed [OF kernel_invD(1) [OF k'], of t] by (simp add: c)
    next
      case False
      then have e: "tcbs s' t = tcbs s t" using d by (simp add: c)
      then show ?thesis using Some False pos remaining_due(2) [OF si g e Some False] by auto
    qed
  qed
  then show ?thesis using run k' unfolding ticked_def globn_sel [OF g] by (auto simp: globn_sel [OF g])
qed

lemma ticked_0: "kernel_ok i s \<Longrightarrow> ticked i 0 s s"
  using remaining_pos [OF kernel_invD(1)] by (auto simp: ticked_def split: option.split)

lemma ticked_trans:
  assumes "ticked i m s s1" and "ticked i n s1 s2"
  shows "ticked i (m + n) s s2"
proof -
  have "case remaining s t of None \<Rightarrow> tcbs s2 t = tcbs s t \<and> remaining s2 t = None
      | Some r \<Rightarrow> if r \<le> m + n
          then tcbs s2 t = (tcbs s t)\<lparr>stContainer := Some (Ready (prio s t)), evContainer := None\<rparr> \<and> remaining s2 t = None
          else tcbs s2 t = tcbs s t \<and> remaining s2 t = Some (r - (m + n))" for t
  proof (cases "remaining s t")
    case None
    then have "tcbs s1 t = tcbs s t" "remaining s1 t = None" using assms(1) by (auto simp: ticked_def dest: spec [of _ t])
    then show ?thesis using None assms(2) by (auto simp: ticked_def dest: spec [of _ t])
  next
    case (Some r)
    show ?thesis
    proof (cases "r \<le> m")
      case True
      then have "tcbs s1 t = (tcbs s t)\<lparr>stContainer := Some (Ready (prio s t)), evContainer := None\<rparr>" "remaining s1 t = None"
        using assms(1) Some by (auto simp: ticked_def dest: spec [of _ t])
      moreover then have "tcbs s2 t = tcbs s1 t" "remaining s2 t = None"
        using assms(2) by (auto simp: ticked_def dest: spec [of _ t])
      ultimately show ?thesis using Some True by simp
    next
      case False
      then have "tcbs s1 t = tcbs s t" "remaining s1 t = Some (r - m)"
        using assms(1) Some by (auto simp: ticked_def dest: spec [of _ t])
      moreover then have "if r - m \<le> n
          then tcbs s2 t = (tcbs s1 t)\<lparr>stContainer := Some (Ready (prio s1 t)), evContainer := None\<rparr> \<and> remaining s2 t = None
          else tcbs s2 t = tcbs s1 t \<and> remaining s2 t = Some (r - m - n)"
        using assms(2) by (auto simp: ticked_def dest: spec [of _ t])
      ultimately show ?thesis using Some False by (auto split: if_splits)
    qed
  qed
  then show ?thesis using assms by (simp add: ticked_def add.assoc)
qed

lemma remaining_yield [simp]: "remaining (s\<lparr>xYieldPending := y\<rparr>) t = remaining s t"
  by (simp add: remaining_def)

lemma ticked_yield: "ticked i n s s' \<Longrightarrow> ticked i n s (s'\<lparr>xYieldPending := y\<rparr>)"
proof -
  have c: "tcbs (s'\<lparr>xYieldPending := y\<rparr>) = tcbs s'" by simp
  show "ticked i n s s' \<Longrightarrow> ticked i n s (s'\<lparr>xYieldPending := y\<rparr>)"
    unfolding ticked_def remaining_yield c by simp
qed

lemma ticked_D:
  "ticked i n s s' \<Longrightarrow> kernel_ok i s'" "ticked i n s s' \<Longrightarrow> uxSchedulerSuspended s' = uxSchedulerSuspended s"
  by (simp_all add: ticked_def)

fun ticks :: "nat \<Rightarrow> sched \<Rightarrow> sched option" where
  "ticks 0 s = Some s"
| "ticks (Suc n) s = do { (_, s) \<leftarrow> xTaskIncrementTick s; ticks n s }"

lemma ticks_ticked:
  "kernel_ok i s \<Longrightarrow> uxSchedulerSuspended s = 0 \<Longrightarrow> \<exists>s'. ticks n s = Some s' \<and> ticked i n s s'"
proof (induction n arbitrary: s)
  case 0
  then show ?case using ticked_0 by simp
next
  case (Suc n)
  obtain sw s1 where 1: "xTaskIncrementTick s = Some (sw, s1)" "ticked i 1 s s1"
    using tick_ticked [OF Suc.prems] by blast
  then obtain s2 where 2: "ticks n s1 = Some s2" "ticked i n s1 s2"
    using Suc.IH [of s1] ticked_D [OF 1(2)] Suc.prems(2) by auto
  have "ticked i (Suc n) s s2" using ticked_trans [OF 1(2) 2(2)] by simp
  then show ?case using 1(1) 2(1) by simp
qed

lemma resume_ticks_ticked:
  "kernel_ok i s \<Longrightarrow> uxSchedulerSuspended s = 0 \<Longrightarrow> \<exists>s'. resume_ticks n s = Some s' \<and> ticked i n s s'"
proof (induction n arbitrary: s)
  case 0
  then show ?case using ticked_0 by simp
next
  case (Suc n)
  obtain sw s1 where 1: "xTaskIncrementTick s = Some (sw, s1)" "ticked i 1 s s1"
    using tick_ticked [OF Suc.prems] by blast
  let ?s1 = "if sw then s1\<lparr>xYieldPending := True\<rparr> else s1"
  have t1: "ticked i 1 s ?s1" using 1(2) ticked_yield by auto
  then obtain s2 where 2: "resume_ticks n ?s1 = Some s2" "ticked i n ?s1 s2"
    using Suc.IH [of ?s1] ticked_D [OF t1] Suc.prems(2) by auto
  have "ticked i (Suc n) s s2" using ticked_trans [OF t1 2(2)] by simp
  then show ?case using 1(1) 2(1) by simp
qed

section \<open>Resuming the scheduler\<close>

text \<open>A task that became ready while the scheduler was suspended.\<close>

definition pending :: "sched \<Rightarrow> addr \<Rightarrow> bool" where
  "pending s t \<longleftrightarrow> evContainer (tcbs s t) = Some xPendingReadyList"

definition globy :: "sched \<Rightarrow> sched" where
  "globy s = glob (s\<lparr>xYieldPending := False\<rparr>)"

lemma globy_sel:
  assumes "globy s' = globy s"
  shows "pxCurrentTCB s' = pxCurrentTCB s" "pxDelayedTaskList s' = pxDelayedTaskList s"
    "pxOverflowDelayedTaskList s' = pxOverflowDelayedTaskList s" "xTickCount s' = xTickCount s"
    "xNextTaskUnblockTime s' = xNextTaskUnblockTime s"
    "uxSchedulerSuspended s' = uxSchedulerSuspended s" "uxPendedTicks s' = uxPendedTicks s"
    "uxCurrentNumberOfTasks s' = uxCurrentNumberOfTasks s" "xNumOfOverflows s' = xNumOfOverflows s"
    "yield_requested s' = yield_requested s" "xSchedulerRunning s' = xSchedulerRunning s"
  using assms by (cases s; cases s'; simp add: globy_def glob_def)+

lemma globy_glob: "glob s' = glob s \<Longrightarrow> globy s' = globy s"
  by (cases s; cases s'; simp add: globy_def glob_def)

lemma globy_yield [simp]: "globy (s\<lparr>xYieldPending := y\<rparr>) = globy s"
  by (simp add: globy_def)

lemma ev_items_unblocked:
  "evContainer (tcbs s t) = Some E \<Longrightarrow> ev_items (unblocked t L s) E = remove1 t (ev_items s E)"
  by (simp add: unblocked_def ev_unlinked_def ev_removed_def st_removed_def prvAddTaskToReadyList_def st_insert_end_def Let_def)

lemma resume_pending_spec:
  "kernel_ok i s \<Longrightarrow> \<exists>s'. resume_pending any s = Some (any \<or> (\<exists>t. pending s t), s') \<and> kernel_ok i s' \<and> globy s' = globy s \<and>
    tcbs s' = (\<lambda>t. if pending s t then (tcbs s t)\<lparr>stContainer := Some (Ready (prio s t)), evContainer := None\<rparr> else tcbs s t) \<and>
    (xYieldPending s' \<longleftrightarrow> xYieldPending s \<or> (\<exists>t. pending s t \<and> prio s (pxCurrentTCB s) \<le> prio s t))"
proof (induction "length (ev_items s xPendingReadyList)" arbitrary: any s)
  case 0
  then have e: "ev_items s xPendingReadyList = []" by simp
  have np: "\<not> pending s t" for t
    using e ev_okD(1) [OF sched_invD(2) [OF kernel_invD(1) [OF 0(2)]], of t xPendingReadyList] by (simp add: pending_def)
  then have "pending s = (\<lambda>_. False)" by auto
  then show ?case using e 0(2) by (subst resume_pending.simps) simp
next
  case (Suc n)
  then obtain t ts where e: "ev_items s xPendingReadyList = t # ts"
    by (cases "ev_items s xPendingReadyList") auto
  note k = Suc.prems and si = kernel_invD(1) [OF Suc.prems]
  have tp: "evContainer (tcbs s t) = Some xPendingReadyList"
    using e ev_okD(1) [OF sched_invD(2) [OF si], of t xPendingReadyList] by simp
  have "waiting_in (stContainer (tcbs s t))" using kernel_invD(2) [OF k, of t] tp by simp
  then obtain L where L: "stContainer (tcbs s t) = Some L" "\<And>p. L \<noteq> Ready p" by (rule waiting_inE) blast
  let ?u = "unblocked t L s"
  let ?s = "if prio s t \<ge> prio s (pxCurrentTCB s) then ?u\<lparr>xYieldPending := True\<rparr> else ?u"
  have L': "stContainer (tcbs (ev_removed t xPendingReadyList s) t) = Some L" using L(1) by simp
  have run: "resume_pending any s = resume_pending True ?s"
  proof -
    have "prio ?u u = prio s u" "pxCurrentTCB ?u = pxCurrentTCB s" for u
      by (simp_all add: glob_sel(1) [OF glob_unblocked])
    then show ?thesis
      by (subst resume_pending.simps)
        (simp only: e list.case ev_remove_eq [OF tp] st_remove_eq [OF L'] unblocked_ev_first [OF tp]
          Option.bind.bind_lunit prod.case Let_def)
  qed
  have k': "kernel_ok i ?s" using kernel_inv_unblocked [OF k L] by simp
  have l: "n = length (ev_items ?s xPendingReadyList)" using Suc.hyps(2) e ev_items_unblocked [OF tp, of L] by simp
  have c: "tcbs ?s = (tcbs s)(t := (tcbs s t)\<lparr>stContainer := Some (Ready (prio s t)), evContainer := None\<rparr>)" by simp
  have g: "globy ?s = globy s" using globy_glob [of ?u s] by simp
  have pe: "pending s u \<longleftrightarrow> u = t \<or> pending ?s u" for u using tp by (simp add: pending_def c)
  have nt: "\<not> pending ?s t" by (simp add: pending_def)
  have pr: "prio ?s u = prio s u" for u by (simp add: c)
  obtain s' where s': "resume_pending True ?s = Some (True \<or> (\<exists>t. pending ?s t), s')" "kernel_ok i s'" "globy s' = globy ?s"
    "tcbs s' = (\<lambda>t. if pending ?s t then (tcbs ?s t)\<lparr>stContainer := Some (Ready (prio ?s t)), evContainer := None\<rparr> else tcbs ?s t)"
    "xYieldPending s' \<longleftrightarrow> xYieldPending ?s \<or> (\<exists>t. pending ?s t \<and> prio ?s (pxCurrentTCB ?s) \<le> prio ?s t)"
    using Suc.hyps(1) [OF l k', of True] by blast
  have "resume_pending any s = Some (any \<or> (\<exists>t. pending s t), s')" using run s'(1) pe by auto
  moreover have "globy s' = globy s" using s'(3) g by simp
  moreover have "tcbs s' u = (if pending s u then (tcbs s u)\<lparr>stContainer := Some (Ready (prio s u)), evContainer := None\<rparr> else tcbs s u)" for u
    unfolding s'(4) using pe [of u] nt by (auto simp: c)
  moreover have "xYieldPending s' \<longleftrightarrow> xYieldPending s \<or> (\<exists>t. pending s t \<and> prio s (pxCurrentTCB s) \<le> prio s t)"
  proof -
    have y: "xYieldPending ?u = xYieldPending s" by (rule glob_sel(7)) simp
    show ?thesis unfolding s'(5) pr globy_sel(1) [OF g] using pe y by auto
  qed
  ultimately show ?case using s'(2) by blast
qed

lemma reset_next_sel [simp]:
  "tcbs (prvResetNextTaskUnblockTime s) = tcbs s" "globn (prvResetNextTaskUnblockTime s) = globn s"
  "elists (prvResetNextTaskUnblockTime s) = elists s" "slists (prvResetNextTaskUnblockTime s) = slists s"
  by (simp_all add: prvResetNextTaskUnblockTime_def split: list.split)

lemma kernel_reset_next: "kernel_inv b i s \<Longrightarrow> kernel_inv b i (prvResetNextTaskUnblockTime s)"
  by (simp add: kernel_inv_def reset_next_inv)

lemma remaining_cong:
  assumes "tcbs s' t = tcbs s t" "pxDelayedTaskList s' = pxDelayedTaskList s"
    "pxOverflowDelayedTaskList s' = pxOverflowDelayedTaskList s" "xTickCount s' = xTickCount s"
  shows "remaining s' t = remaining s t"
  using assms by (simp add: remaining_def)

lemma yieldable_fields:
  "kernel_inv b i (portYIELD s) = kernel_inv b i s" "tcbs (portYIELD s) = tcbs s" "remaining (portYIELD s) t = remaining s t"
  by (simp_all add: portYIELD_def remaining_def)

lemma xTaskResumeAll_spec:
  assumes k: "kernel_ok i s" and sus: "uxSchedulerSuspended s = 1" and n: "uxCurrentNumberOfTasks s > 0"
  shows "\<exists>y s'. xTaskResumeAll s = Some (y, s') \<and> kernel_ok i s' \<and> uxSchedulerSuspended s' = 0 \<and>
    uxPendedTicks s' = 0 \<and> pxCurrentTCB s' = pxCurrentTCB s \<and> xTickCount s' = xTickCount s + uxPendedTicks s \<and>
    uxCurrentNumberOfTasks s' = uxCurrentNumberOfTasks s \<and> y = xYieldPending s' \<and>
    (y \<longrightarrow> yield_requested s') \<and>
    (\<forall>t. pending s t \<longrightarrow> tcbs s' t = (tcbs s t)\<lparr>stContainer := Some (Ready (prio s t)), evContainer := None\<rparr>) \<and>
    (\<forall>t. \<not> pending s t \<longrightarrow>
      (case remaining s t of None \<Rightarrow> tcbs s' t = tcbs s t \<and> remaining s' t = None
      | Some r \<Rightarrow> if r \<le> unat (uxPendedTicks s)
          then tcbs s' t = (tcbs s t)\<lparr>stContainer := Some (Ready (prio s t)), evContainer := None\<rparr> \<and> remaining s' t = None
          else tcbs s' t = tcbs s t \<and> remaining s' t = Some (r - unat (uxPendedTicks s))))"
proof -
  let ?s0 = "s\<lparr>uxSchedulerSuspended := uxSchedulerSuspended s - 1\<rparr>"
  have k0: "kernel_ok i ?s0" using k by simp
  have p0: "pending ?s0 = pending s" by (auto simp: pending_def)
  have c0: "tcbs ?s0 = tcbs s" by simp
  obtain s1 where s1: "resume_pending False ?s0 = Some (\<exists>t. pending s t, s1)" "kernel_ok i s1" "globy s1 = globy ?s0"
    "tcbs s1 = (\<lambda>t. if pending s t then (tcbs s t)\<lparr>stContainer := Some (Ready (prio s t)), evContainer := None\<rparr> else tcbs s t)"
    using resume_pending_spec [OF k0, of False] unfolding p0 c0 simp_thms by blast
  let ?s2 = "if \<exists>t. pending s t then prvResetNextTaskUnblockTime s1 else s1"
  have g2: "globn ?s2 = globn s1" by simp
  note f1 = globy_sel [OF s1(3)] and f2 = globn_sel [OF g2]
  have k2: "kernel_ok i ?s2" using s1(2) kernel_reset_next by simp
  have sus2: "uxSchedulerSuspended ?s2 = 0" using f1(6) f2(5) sus by simp
  have c2: "tcbs ?s2 = tcbs s1" by simp
  have pt: "uxPendedTicks ?s2 = uxPendedTicks s" using f1(7) f2(7) by simp
  obtain s3 where s3: "resume_ticks (unat (uxPendedTicks s)) ?s2 = Some s3" "ticked i (unat (uxPendedTicks s)) ?s2 s3"
    using resume_ticks_ticked [OF k2 sus2] by blast
  let ?s3 = "s3\<lparr>uxPendedTicks := 0\<rparr>"
  have ticks: "(if uxPendedTicks ?s2 > 0 then map_option (\<lambda>s. s\<lparr>uxPendedTicks := 0\<rparr>) (resume_ticks (unat (uxPendedTicks ?s2)) ?s2)
      else Some ?s2) = Some ?s3"
  proof (cases "uxPendedTicks s = 0")
    case True
    then have "s3 = ?s2" using s3(1) by simp
    moreover have "?s2\<lparr>uxPendedTicks := 0\<rparr> = ?s2" using pt True by (cases ?s2) simp
    ultimately show ?thesis unfolding pt using True by simp
  next
    case False
    then have "uxPendedTicks s > 0" by (simp add: word_neq_0_conv)
    then show ?thesis unfolding pt using s3(1) by simp
  qed
  let ?s4 = "if xYieldPending ?s3 then portYIELD ?s3 else ?s3"
  have run: "xTaskResumeAll s = Some (xYieldPending s3, ?s4)"
    unfolding xTaskResumeAll_def Let_def using sus n ticks s1(1) by simp
  have c4: "tcbs ?s4 = tcbs s3" and r4: "remaining ?s4 t = remaining s3 t" for t
    by (simp_all add: yieldable_fields) (simp_all add: remaining_def)
  have tk: "case remaining ?s2 t of None \<Rightarrow> tcbs s3 t = tcbs ?s2 t \<and> remaining s3 t = None
      | Some r \<Rightarrow> if r \<le> unat (uxPendedTicks s)
          then tcbs s3 t = (tcbs ?s2 t)\<lparr>stContainer := Some (Ready (prio ?s2 t)), evContainer := None\<rparr> \<and> remaining s3 t = None
          else tcbs s3 t = tcbs ?s2 t \<and> remaining s3 t = Some (r - unat (uxPendedTicks s))" for t
    using s3(2) unfolding ticked_def by blast
  have "tcbs ?s4 t = (tcbs s t)\<lparr>stContainer := Some (Ready (prio s t)), evContainer := None\<rparr>" if "pending s t" for t
  proof -
    have t: "tcbs ?s2 t = (tcbs s t)\<lparr>stContainer := Some (Ready (prio s t)), evContainer := None\<rparr>"
      unfolding c2 s1(4) using that by simp
    then have "remaining ?s2 t = None" by (intro remaining_not_delayed [OF kernel_invD(1) [OF k2]]) simp
    then show ?thesis unfolding c4 using tk [of t] t by simp
  qed
  moreover have "case remaining s t of None \<Rightarrow> tcbs ?s4 t = tcbs s t \<and> remaining ?s4 t = None
      | Some r \<Rightarrow> if r \<le> unat (uxPendedTicks s)
          then tcbs ?s4 t = (tcbs s t)\<lparr>stContainer := Some (Ready (prio s t)), evContainer := None\<rparr> \<and> remaining ?s4 t = None
          else tcbs ?s4 t = tcbs s t \<and> remaining ?s4 t = Some (r - unat (uxPendedTicks s))" if "\<not> pending s t" for t
  proof -
    have t: "tcbs ?s2 t = tcbs s t" unfolding c2 s1(4) using that by simp
    have "remaining ?s2 t = remaining s t" by (rule remaining_cong [OF t]) (use f1 f2 in simp_all)
    then show ?thesis using tk [of t] unfolding c4 r4 t by simp
  qed
  moreover have "kernel_ok i ?s4" using ticked_D(1) [OF s3(2)] by (simp add: yieldable_fields)
  moreover have "uxSchedulerSuspended s3 = 0" "pxCurrentTCB s3 = pxCurrentTCB s"
    "uxCurrentNumberOfTasks s3 = uxCurrentNumberOfTasks s" "xTickCount s3 = xTickCount s + uxPendedTicks s"
    using s3(2) f1 f2 sus2 unfolding ticked_def by simp_all
  ultimately show ?thesis using run by (intro exI [of _ "xYieldPending s3"] exI [of _ ?s4]) (simp add: portYIELD_def)
qed

section \<open>Blocking operations\<close>

text \<open>The running task: its control block is in the ready list of its priority and in no event list.\<close>

definition running_ready :: "addr \<Rightarrow> sched \<Rightarrow> bool" where
  "running_ready i s \<longleftrightarrow> pxCurrentTCB s \<noteq> i \<and> (\<exists>p. stContainer (tcbs s (pxCurrentTCB s)) = Some (Ready p))"

lemma running_no_event:
  "kernel_inv b i s \<Longrightarrow> stContainer (tcbs s t) = Some (Ready p) \<Longrightarrow> evContainer (tcbs s t) = None"
  using kernel_invD(2) [of b i s t] by (cases "evContainer (tcbs s t)") auto

text \<open>What blocking the current task does, also after its event item was queued.\<close>

definition blocked :: "addr \<Rightarrow> u32 \<Rightarrow> bool \<Rightarrow> elist option \<Rightarrow> u32 \<Rightarrow> sched \<Rightarrow> sched \<Rightarrow> bool" where
  "blocked i n ind E v s s' \<longleftrightarrow> (let t = pxCurrentTCB s in
    kernel_ok i s' \<and> globn s' = globn s \<and> (\<forall>u. u \<noteq> t \<longrightarrow> tcbs s' u = tcbs s u) \<and>
    evContainer (tcbs s' t) = E \<and> prio s' t = prio s t \<and> uxBasePriority (tcbs s' t) = uxBasePriority (tcbs s t) \<and>
    evItemValue (tcbs s' t) = v \<and> waiting_in (stContainer (tcbs s' t)) \<and>
    (if suspend_forever n ind then stContainer (tcbs s' t) = Some xSuspendedTaskList
     else remaining s' t = Some (unat n)))"

lemma block_kernel:
  assumes k: "kernel_ok i s" and r: "running_ready i s" and n: "n > 0"
    and s1: "sched_ok s1" "glob s1 = glob s" "\<And>u. u \<noteq> pxCurrentTCB s \<Longrightarrow> tcbs s1 u = tcbs s u"
    and t1: "stContainer (tcbs s1 (pxCurrentTCB s)) = stContainer (tcbs s (pxCurrentTCB s))"
      "prio s1 (pxCurrentTCB s) = prio s (pxCurrentTCB s)"
      "uxBasePriority (tcbs s1 (pxCurrentTCB s)) = uxBasePriority (tcbs s (pxCurrentTCB s))"
  shows "\<exists>s'. prvAddCurrentTaskToDelayedList n ind s1 = Some s' \<and>
    blocked i n ind (evContainer (tcbs s1 (pxCurrentTCB s)))
      (evItemValue (tcbs s1 (pxCurrentTCB s))) s s' \<and> elists s' = elists s1"
proof -
  note g = glob_sel [OF s1(2)]
  obtain p where p: "stContainer (tcbs s1 (pxCurrentTCB s1)) = Some (Ready p)"
    using r t1 g by (auto simp: running_ready_def)
  obtain s' where s': "prvAddCurrentTaskToDelayedList n ind s1 = Some s'" "sched_ok s'" "globn s' = globn s1"
    "elists s' = elists s1" "\<forall>u. u \<noteq> pxCurrentTCB s1 \<longrightarrow> tcbs s' u = tcbs s1 u"
    "evContainer (tcbs s' (pxCurrentTCB s1)) = evContainer (tcbs s1 (pxCurrentTCB s1))"
    "prio s' (pxCurrentTCB s1) = prio s1 (pxCurrentTCB s1)"
    "evItemValue (tcbs s' (pxCurrentTCB s1)) = evItemValue (tcbs s1 (pxCurrentTCB s1))"
    "uxBasePriority (tcbs s' (pxCurrentTCB s1)) = uxBasePriority (tcbs s1 (pxCurrentTCB s1))"
    "waiting_in (stContainer (tcbs s' (pxCurrentTCB s1)))"
    "if suspend_forever n ind then stContainer (tcbs s' (pxCurrentTCB s1)) = Some xSuspendedTaskList
     else remaining s' (pxCurrentTCB s1) = Some (unat n)"
    using block_spec [OF s1(1) p n, of ind] by blast
  have "kernel_ok i s'"
    by (rule kernel_inv_step [OF k s'(2), where t = "pxCurrentTCB s"])
      (use s' s1(3) g r in \<open>auto simp: running_ready_def\<close>)
  moreover have "globn s' = globn s" using s'(3) globn_glob [OF s1(2)] by simp
  ultimately show ?thesis
    using s' [unfolded g(1)] s1(3) t1(2,3) unfolding blocked_def Let_def by (intro exI [of _ s']) simp
qed

lemma vTaskPlaceOnEventList_spec:
  assumes "kernel_ok i s" and "running_ready i s" and "n > 0"
  shows "\<exists>s'. vTaskPlaceOnEventList E n s = Some s' \<and> blocked i n True (Some (EventList E)) (evItemValue (tcbs s (pxCurrentTCB s))) s s' \<and>
    elists s' = (elists s)(EventList E := klist_insert (\<lambda>u. evItemValue (tcbs s u)) (pxCurrentTCB s) (elists s (EventList E)))"
proof -
  let ?t = "pxCurrentTCB s" and ?s = "ev_insert (EventList E) (pxCurrentTCB s) s"
  have e: "evContainer (tcbs s ?t) = None" using assms running_no_event by (auto simp: running_ready_def)
  have "sched_ok ?s" by (rule sched_inv_ev_insert [OF kernel_invD(1) [OF assms(1)] e])
  then have "\<exists>s'. prvAddCurrentTaskToDelayedList n True ?s = Some s' \<and>
    blocked i n True (evContainer (tcbs ?s ?t)) (evItemValue (tcbs ?s ?t)) s s' \<and> elists s' = elists ?s"
    by (rule block_kernel [OF assms]) simp_all
  then show ?thesis
    unfolding vTaskPlaceOnEventList_def by (auto simp: ev_insert_def Let_def)
qed

lemma vTaskPlaceOnEventListRestricted_spec:
  assumes "kernel_ok i s" and "running_ready i s" and "n > 0"
  shows "\<exists>s'. vTaskPlaceOnEventListRestricted E n w s = Some s' \<and>
    blocked i (if w then portMAX_DELAY else n) w (Some (EventList E)) (evItemValue (tcbs s (pxCurrentTCB s))) s s' \<and>
    elists s' = (elists s)(EventList E := klist_insert_end (pxCurrentTCB s) (elists s (EventList E)))"
proof -
  let ?t = "pxCurrentTCB s" and ?s = "ev_insert_end (EventList E) (pxCurrentTCB s) s" and ?n = "if w then portMAX_DELAY else n"
  have e: "evContainer (tcbs s ?t) = None" using assms running_no_event by (auto simp: running_ready_def)
  have "sched_ok ?s" by (rule sched_inv_ev_insert [OF kernel_invD(1) [OF assms(1)] e])
  moreover have n: "?n > 0" using assms(3) by simp
  ultimately have "\<exists>s'. prvAddCurrentTaskToDelayedList ?n w ?s = Some s' \<and>
    blocked i ?n w (evContainer (tcbs ?s ?t)) (evItemValue (tcbs ?s ?t)) s s' \<and> elists s' = elists ?s"
    by (intro block_kernel [OF assms(1,2) n]) simp_all
  then show ?thesis
    unfolding vTaskPlaceOnEventListRestricted_def by (auto simp: ev_insert_end_def Let_def)
qed

lemma vTaskPlaceOnUnorderedEventList_spec:
  assumes "kernel_ok i s" and "running_ready i s" and "n > 0"
  shows "\<exists>s'. vTaskPlaceOnUnorderedEventList E v n s = Some s' \<and> blocked i n True (Some (EventList E)) (v OR taskEVENT_LIST_ITEM_VALUE_IN_USE) s s' \<and>
    elists s' = (elists s)(EventList E := klist_insert_end (pxCurrentTCB s) (elists s (EventList E)))"
proof -
  let ?t = "pxCurrentTCB s"
  let ?s1 = "upd_tcb (pxCurrentTCB s) (\<lambda>c. c\<lparr>evItemValue := v OR taskEVENT_LIST_ITEM_VALUE_IN_USE\<rparr>) s"
  let ?s = "ev_insert_end (EventList E) ?t ?s1"
  have e: "evContainer (tcbs ?s1 ?t) = None" using assms running_no_event by (auto simp: running_ready_def)
  have "sched_ok ?s1"
    by (rule sched_inv_upd [OF kernel_invD(1) [OF assms(1)]])
      (use sched_invD(4) [OF kernel_invD(1) [OF assms(1)]] in \<open>simp_all add: prio_ok_def\<close>)
  then have "sched_ok ?s" by (rule sched_inv_ev_insert [OF _ e])
  then have "\<exists>s'. prvAddCurrentTaskToDelayedList n True ?s = Some s' \<and>
    blocked i n True (evContainer (tcbs ?s ?t)) (evItemValue (tcbs ?s ?t)) s s' \<and> elists s' = elists ?s"
    by (rule block_kernel [OF assms]) simp_all
  then show ?thesis
    unfolding vTaskPlaceOnUnorderedEventList_def by (auto simp: ev_insert_end_def Let_def)
qed

section \<open>Waking\<close>

lemma head_owner_Cons: "kl_items l \<noteq> [] \<Longrightarrow> head_owner l = Some (hd (kl_items l))"
  by (cases "kl_items l") auto

lemma xTaskRemoveFromEventList_spec:
  assumes k: "kernel_ok i s" and ne: "ev_items s (EventList E) = t # ts"
  shows "\<exists>s'. xTaskRemoveFromEventList E s = Some (prio s t > prio s (pxCurrentTCB s), s') \<and> kernel_ok i s' \<and>
    globy s' = globy s \<and> ev_items s' (EventList E) = ts \<and> (\<forall>u. u \<noteq> t \<longrightarrow> tcbs s' u = tcbs s u) \<and>
    (xYieldPending s' \<longleftrightarrow> xYieldPending s \<or> prio s t > prio s (pxCurrentTCB s)) \<and>
    tcbs s' t = (if uxSchedulerSuspended s = 0 then (tcbs s t)\<lparr>stContainer := Some (Ready (prio s t)), evContainer := None\<rparr>
      else (tcbs s t)\<lparr>evContainer := Some xPendingReadyList\<rparr>)"
proof -
  note si = kernel_invD(1) [OF k]
  have te: "evContainer (tcbs s t) = Some (EventList E)" using ev_okD(1) [OF sched_invD(2) [OF si], of t "EventList E"] ne by simp
  have "waiting_in (stContainer (tcbs s t))" using kernel_invD(2) [OF k, of t] te by simp
  then obtain L where L: "stContainer (tcbs s t) = Some L" "\<And>p. L \<noteq> Ready p" by (rule waiting_inE) blast
  have h: "head_owner (elists s (EventList E)) = Some t" using ne by simp
  let ?e = "ev_removed t (EventList E) s"
  have ge: "glob ?e = glob s" by simp
  have L': "stContainer (tcbs ?e t) = Some L" using L(1) by simp
  let ?s1 = "if uxSchedulerSuspended s = 0 then unblocked t L s else ev_insert_end xPendingReadyList t ?e"
  have g1: "glob ?s1 = glob s" by simp
  have pr: "prio ?s1 u = prio s u" for u by simp
  let ?s2 = "if prio s t > prio s (pxCurrentTCB s) then ?s1\<lparr>xYieldPending := True\<rparr> else ?s1"
  have e0: "uxSchedulerSuspended ?e = uxSchedulerSuspended s" by (rule glob_sel(6) [OF ge])
  have run: "xTaskRemoveFromEventList E s = Some (prio s t > prio s (pxCurrentTCB s), ?s2)"
  proof -
    have "xTaskRemoveFromEventList E s = Some (if prio ?s1 t > prio ?s1 (pxCurrentTCB ?s1)
        then (True, ?s1\<lparr>xYieldPending := True\<rparr>) else (False, ?s1))"
      unfolding xTaskRemoveFromEventList_def h ev_remove_eq [OF te] Option.bind.bind_lunit prod.case e0
        st_remove_eq [OF L'] Let_def unblocked_ev_first [OF te]
      by (cases "uxSchedulerSuspended s = 0") (simp_all only: if_True if_False Option.bind.bind_lunit refl)
    then show ?thesis unfolding pr glob_sel(1) [OF g1] by auto
  qed
  have "kernel_ok i ?s1"
  proof (cases "uxSchedulerSuspended s = 0")
    case True
    then show ?thesis using kernel_inv_unblocked [OF k L] by simp
  next
    case False
    have "sched_ok (ev_insert_end xPendingReadyList t ?e)"
      by (rule sched_inv_ev_insert [OF sched_inv_ev_removed [OF si te]]) simp
    then have "kernel_ok i (ev_insert_end xPendingReadyList t ?e)"
      by (rule kernel_inv_step [OF k, where t = t]) (use \<open>waiting_in (stContainer (tcbs s t))\<close> kernel_invD(3) [OF k] in auto)
    then show ?thesis using False by simp
  qed
  then have "kernel_ok i ?s2" by simp
  moreover have "globy ?s2 = globy s" using globy_glob [OF g1] by simp
  moreover have "ev_items ?s2 (EventList E) = ts"
    using ev_items_unblocked [OF te, of L] ne by (simp add: ev_insert_end_def ev_removed_def Let_def)
  moreover have "xYieldPending ?s2 \<longleftrightarrow> xYieldPending s \<or> prio s t > prio s (pxCurrentTCB s)"
    using glob_sel(7) [OF g1] by simp
  ultimately show ?thesis using run by (intro exI [of _ ?s2]) simp
qed

lemma evContainer_upd_item:
  "sched_inv b s \<Longrightarrow> sched_inv b (upd_tcb t (\<lambda>c. c\<lparr>evItemValue := v\<rparr>) s)"
  by (rule sched_inv_upd) (use sched_invD(4) in \<open>auto simp: prio_ok_def\<close>)

lemma kernel_upd_item:
  "kernel_inv b i s \<Longrightarrow> kernel_inv b i (upd_tcb t (\<lambda>c. c\<lparr>evItemValue := v\<rparr>) s)"
  by (rule kernel_inv_step [where t = t])
    (auto intro: evContainer_upd_item kernel_invD(1) simp: kernel_invD(2,3))

lemma vTaskRemoveFromUnorderedEventList_spec:
  assumes k: "kernel_ok i s" and te: "evContainer (tcbs s t) = Some E"
  shows "\<exists>s'. vTaskRemoveFromUnorderedEventList t v s = Some s' \<and> kernel_ok i s' \<and>
    globy s' = globy s \<and> (\<forall>u. u \<noteq> t \<longrightarrow> tcbs s' u = tcbs s u) \<and>
    tcbs s' t = (tcbs s t)\<lparr>stContainer := Some (Ready (prio s t)), evContainer := None,
      evItemValue := v OR taskEVENT_LIST_ITEM_VALUE_IN_USE\<rparr> \<and>
    (xYieldPending s' \<longleftrightarrow> xYieldPending s \<or> prio s t > prio s (pxCurrentTCB s))"
proof -
  let ?s0 = "upd_tcb t (\<lambda>c. c\<lparr>evItemValue := v OR taskEVENT_LIST_ITEM_VALUE_IN_USE\<rparr>) s"
  have k0: "kernel_ok i ?s0" by (rule kernel_upd_item [OF k])
  have te0: "evContainer (tcbs ?s0 t) = Some E" using te by simp
  have "waiting_in (stContainer (tcbs s t))" using kernel_invD(2) [OF k, of t] te by simp
  then obtain L where L: "stContainer (tcbs s t) = Some L" "\<And>p. L \<noteq> Ready p" by (rule waiting_inE) blast
  have L0: "stContainer (tcbs ?s0 t) = Some L" using L(1) by simp
  have L': "stContainer (tcbs (ev_removed t E ?s0) t) = Some L" using L(1) by simp
  let ?s1 = "unblocked t L ?s0"
  have g0: "glob ?s0 = glob s" by (rule glob_ops)
  have g1: "glob ?s1 = glob s" unfolding glob_unblocked by (rule g0)
  have pr: "prio ?s1 u = prio s u" for u by simp
  let ?s2 = "if prio s t > prio s (pxCurrentTCB s) then ?s1\<lparr>xYieldPending := True\<rparr> else ?s1"
  have run: "vTaskRemoveFromUnorderedEventList t v s = Some ?s2"
  proof -
    have "vTaskRemoveFromUnorderedEventList t v s =
      Some (if prio ?s1 t > prio ?s1 (pxCurrentTCB ?s1) then ?s1\<lparr>xYieldPending := True\<rparr> else ?s1)"
      unfolding vTaskRemoveFromUnorderedEventList_def Let_def ev_remove_eq [OF te0] Option.bind.bind_lunit prod.case
        st_remove_eq [OF L'] unblocked_ev_first [OF te0] ..
    then show ?thesis unfolding pr glob_sel(1) [OF g1] .
  qed
  have "kernel_ok i ?s2" using kernel_inv_unblocked [OF k0 L0 L(2)] by simp
  moreover have "globy ?s2 = globy s" using globy_glob [OF g1] by simp
  moreover have "xYieldPending ?s2 \<longleftrightarrow> xYieldPending s \<or> prio s t > prio s (pxCurrentTCB s)"
    using glob_sel(7) [OF g1] by simp
  ultimately show ?thesis using run by (intro exI [of _ ?s2]) simp
qed

lemma kernel_unblock_suspended:
  assumes k: "kernel_ok i s" and t: "prvTaskIsTaskSuspended t s"
  shows "st_remove t s = Some (length (kl_items (klist_remove t (slists s xSuspendedTaskList))), st_removed t xSuspendedTaskList s)"
    "prvAddTaskToReadyList t (st_removed t xSuspendedTaskList s) = unblocked t xSuspendedTaskList s"
    "kernel_ok i (unblocked t xSuspendedTaskList s)"
  using t kernel_inv_unblocked [OF k, of t xSuspendedTaskList]
  by (simp_all add: prvTaskIsTaskSuspended_def st_remove_eq unblocked_no_event)

lemma vTaskResume_spec:
  assumes k: "kernel_ok i s"
  shows "\<exists>s'. vTaskResume t s = Some s' \<and> kernel_ok i s' \<and> (\<forall>u. u \<noteq> t \<longrightarrow> tcbs s' u = tcbs s u) \<and>
    tcbs s' t = (if t \<noteq> NULL \<and> t \<noteq> pxCurrentTCB s \<and> prvTaskIsTaskSuspended t s
      then (tcbs s t)\<lparr>stContainer := Some (Ready (prio s t)), evContainer := None\<rparr> else tcbs s t) \<and>
    (prvTaskIsTaskSuspended t s \<and> t \<noteq> NULL \<and> t \<noteq> pxCurrentTCB s \<and> prio s t \<ge> prio s (pxCurrentTCB s) \<longrightarrow> yield_requested s')"
proof (cases "t \<noteq> NULL \<and> t \<noteq> pxCurrentTCB s \<and> prvTaskIsTaskSuspended t s")
  case True
  let ?u = "unblocked t xSuspendedTaskList s"
  let ?s' = "if prio s t \<ge> prio s (pxCurrentTCB s) then portYIELD ?u else ?u"
  have g: "glob ?u = glob s" by simp
  have pr: "prio ?u u = prio s u" for u by simp
  note u = kernel_unblock_suspended [OF k conjunct2 [OF conjunct2 [OF True]]]
  have "vTaskResume t s = Some (if prio ?u t \<ge> prio ?u (pxCurrentTCB ?u) then portYIELD ?u else ?u)"
    using True unfolding vTaskResume_def u(1) Option.bind.bind_lunit prod.case Let_def u(2) by simp
  then have "vTaskResume t s = Some ?s'" unfolding pr glob_sel(1) [OF g] .
  then show ?thesis using u(3) True by (intro exI [of _ ?s']) (simp add: yieldable_fields portYIELD_def)
qed (use k in \<open>auto simp: vTaskResume_def\<close>)

lemma xTaskResumeFromISR_spec:
  assumes k: "kernel_ok i s"
  shows "\<exists>y s'. xTaskResumeFromISR t s = Some (y, s') \<and> kernel_ok i s' \<and> (\<forall>u. u \<noteq> t \<longrightarrow> tcbs s' u = tcbs s u) \<and>
    tcbs s' t = (if \<not> prvTaskIsTaskSuspended t s then tcbs s t
      else if uxSchedulerSuspended s = 0 then (tcbs s t)\<lparr>stContainer := Some (Ready (prio s t)), evContainer := None\<rparr>
      else (tcbs s t)\<lparr>evContainer := Some xPendingReadyList\<rparr>)"
proof (cases "prvTaskIsTaskSuspended t s")
  case True
  note u = kernel_unblock_suspended [OF k True]
  show ?thesis
  proof (cases "uxSchedulerSuspended s = 0")
    case s0: True
    have "xTaskResumeFromISR t s = Some (prio s t \<ge> prio s (pxCurrentTCB s), unblocked t xSuspendedTaskList s)"
      unfolding xTaskResumeFromISR_def u(1) Option.bind.bind_lunit prod.case Let_def u(2) using True s0 by simp
    then show ?thesis using u(3) True s0 by simp
  next
    case False
    have t: "evContainer (tcbs s t) = None" "stContainer (tcbs s t) = Some xSuspendedTaskList"
      using True by (auto simp: prvTaskIsTaskSuspended_def)
    have "sched_ok (ev_insert_end xPendingReadyList t s)" by (rule sched_inv_ev_insert [OF kernel_invD(1) [OF k] t(1)])
    then have "kernel_ok i (ev_insert_end xPendingReadyList t s)"
      by (rule kernel_inv_step [OF k, where t = t]) (use t kernel_invD(3) [OF k] in auto)
    then show ?thesis using True False by (intro exI [of _ False]) (simp add: xTaskResumeFromISR_def)
  qed
qed (use k in \<open>auto simp: xTaskResumeFromISR_def\<close>)

lemma vTaskSwitchContext_kernel:
  assumes "kernel_inv b i s"
  shows "\<exists>s'. vTaskSwitchContext s = Some s' \<and> kernel_inv b i s' \<and> tcbs s' = tcbs s"
proof (cases "uxSchedulerSuspended s = 0")
  case True
  obtain u where u: "vTaskSwitchContext s = Some (s\<lparr>xYieldPending := False,
    slists := (slists s)(Ready (prio s u) := snd (klist_next (slists s (Ready (prio s u))))), pxCurrentTCB := u\<rparr>)"
    using switch_spec [OF assms True] by blast
  have "sched_inv b (s\<lparr>xYieldPending := False,
    slists := (slists s)(Ready (prio s u) := snd (klist_next (slists s (Ready (prio s u))))), pxCurrentTCB := u\<rparr>)"
    using sched_inv_select [of b "s\<lparr>xYieldPending := False\<rparr>" u "prio s u"] kernel_invD(1) [OF assms] by simp
  then have "kernel_inv b i (s\<lparr>xYieldPending := False,
    slists := (slists s)(Ready (prio s u) := snd (klist_next (slists s (Ready (prio s u))))), pxCurrentTCB := u\<rparr>)"
    using assms by (simp add: kernel_inv_def)
  with u show ?thesis by simp
next
  case False
  then show ?thesis using assms by (intro exI [of _ "s\<lparr>xYieldPending := True\<rparr>"]) (simp add: vTaskSwitchContext_def)
qed

lemma suspend_switch:
  assumes "kernel_ok i w"
  shows "\<exists>s'. (if t = pxCurrentTCB w
    then (if xSchedulerRunning w then Some (portYIELD w)
          else if of_nat (length (st_items w xSuspendedTaskList)) = uxCurrentNumberOfTasks w
          then Some (w\<lparr>pxCurrentTCB := NULL\<rparr>)
          else vTaskSwitchContext w)
    else Some w) = Some s' \<and> kernel_ok i s' \<and> tcbs s' = tcbs w"
  using assms vTaskSwitchContext_kernel [OF assms] by (auto simp: yieldable_fields)

text \<open>Removal from whatever state list the task is in, with the conditional reset.\<close>

definition removed_any :: "addr \<Rightarrow> slist \<Rightarrow> sched \<Rightarrow> sched" where
  "removed_any t L s = (if length (kl_items (klist_remove t (slists s L))) = 0
    then taskRESET_READY_PRIORITY (prio (st_removed t L s) t) (st_removed t L s) else st_removed t L s)"

lemma removed_any_ok:
  assumes si: "sched_inv b s" and L: "stContainer (tcbs s t) = Some L"
  shows "sched_inv b (removed_any t L s)" "tcbs (removed_any t L s) = tcbs (st_removed t L s)"
    "glob (removed_any t L s) = glob s" "elists (removed_any t L s) = elists s"
    "st_items (removed_any t L s) = (st_items s)(L := remove1 t (st_items s L))"
proof -
  have "sched_inv b (removed_any t L s) \<and> tcbs (removed_any t L s) = tcbs (st_removed t L s) \<and> glob (removed_any t L s) = glob s"
  proof (cases "\<exists>p. L = Ready p")
    case True
    then obtain p where p: "L = Ready p" by blast
    then have pp: "p = prio s t" using ready_prio [OF si] L by simp
    then have pp': "p = prio (st_removed t L s) t" by simp
    have "removed_any t L s = taskRESET_READY_PRIORITY p (st_removed t L s)"
      unfolding removed_any_def pp' [symmetric] unfolding p by (rule reset_after_remove(1))
    then show ?thesis using sched_inv_reset_removed [OF si L [unfolded p]] by (simp add: p)
  next
    case False
    then have ok: "sched_inv b (st_removed t L s)" by (intro sched_inv_st_removed [OF si L]) auto
    have same: "st_items (st_removed t L s) (Ready q) = st_items s (Ready q)" for q
      using False by (auto simp: st_removed_def)
    have "taskRESET_READY_PRIORITY q (st_removed t L s) = st_removed t L s" for q
    proof (cases "st_items s (Ready q) = []")
      case True
      then have "\<not> bit (uxTopReadyPriority s) (unat q)" using sched_invD(3) [OF si] unfolding ready_ok_def by blast
      then have "portRESET_READY_PRIORITY q (uxTopReadyPriority s) = uxTopReadyPriority s"
        by (intro bit_word_eqI) auto
      then show ?thesis using True same [of q] by (simp add: taskRESET_READY_PRIORITY_def) (simp add: st_removed_def)
    qed (simp add: reset_other same)
    then have "removed_any t L s = st_removed t L s" by (simp add: removed_any_def)
    then show ?thesis using ok by simp
  qed
  then show "sched_inv b (removed_any t L s)" "tcbs (removed_any t L s) = tcbs (st_removed t L s)"
    "glob (removed_any t L s) = glob s" by blast+
  show "elists (removed_any t L s) = elists s" "st_items (removed_any t L s) = (st_items s)(L := remove1 t (st_items s L))"
    by (auto simp: removed_any_def taskRESET_READY_PRIORITY_def st_removed_def)
qed

lemma vTaskSuspend_spec:
  assumes k: "kernel_ok i s" and t: "t = prvGetTCBFromHandle h s" and c: "stContainer (tcbs s t) \<noteq> None" and i: "t \<noteq> i"
  shows "\<exists>s'. vTaskSuspend h s = Some s' \<and> kernel_ok i s' \<and> (\<forall>u. u \<noteq> t \<longrightarrow> tcbs s' u = tcbs s u) \<and>
    stContainer (tcbs s' t) = Some xSuspendedTaskList \<and> evContainer (tcbs s' t) = None \<and> prio s' t = prio s t"
proof -
  note si = kernel_invD(1) [OF k]
  obtain L where L: "stContainer (tcbs s t) = Some L" using c by auto
  define r where "r = removed_any t L s"
  have r: "sched_ok r \<and> tcbs r = tcbs (st_removed t L s) \<and> glob r = glob s"
    unfolding r_def using removed_any_ok [OF si L] by blast
  let ?u = "st_insert_end xSuspendedTaskList t (ev_unlinked t r)"
  have cu: "tcbs ?u = (tcbs s)(t := (tcbs s t)\<lparr>stContainer := Some xSuspendedTaskList, evContainer := None\<rparr>)" using r by simp
  have gu: "glob ?u = glob s" using r by simp
  have ku: "kernel_ok i ?u"
    by (rule kernel_inv_step [OF k sched_inv_suspend [OF sched_inv_ev_unlinked], where t = t]) (use r cu i in auto)
  let ?v = "if ucNotifyState (tcbs ?u t) = taskWAITING_NOTIFICATION
    then upd_tcb t (\<lambda>c. c\<lparr>ucNotifyState := taskNOT_WAITING_NOTIFICATION\<rparr>) ?u else ?u"
  have pb: "uxPriority (tcbs ?u t) < 8 \<and> uxBasePriority (tcbs ?u t) < 8"
    using sched_invD(4) [OF kernel_invD(1) [OF ku]] unfolding prio_ok_def by blast
  have "sched_ok (upd_tcb t (\<lambda>c. c\<lparr>ucNotifyState := taskNOT_WAITING_NOTIFICATION\<rparr>) ?u)"
    by (rule sched_inv_upd [OF kernel_invD(1) [OF ku]]) (use pb in simp_all)
  then have "kernel_ok i (upd_tcb t (\<lambda>c. c\<lparr>ucNotifyState := taskNOT_WAITING_NOTIFICATION\<rparr>) ?u)"
    by (rule kernel_inv_step [OF ku, where t = t]) (use i in \<open>auto simp: cu\<close>)
  then have kv: "kernel_ok i ?v" using ku by simp
  let ?w = "if xSchedulerRunning ?v then prvResetNextTaskUnblockTime ?v else ?v"
  have kw: "kernel_ok i ?w" using kv kernel_reset_next by simp
  have cw: "tcbs ?w = tcbs ?v" by simp
  have cv: "\<forall>u. u \<noteq> t \<longrightarrow> tcbs ?v u = tcbs s u" "stContainer (tcbs ?v t) = Some xSuspendedTaskList"
    "evContainer (tcbs ?v t) = None" "prio ?v t = prio s t" using r by simp_all
  let ?x = "if t = pxCurrentTCB ?w
    then (if xSchedulerRunning ?w then Some (portYIELD ?w)
          else if of_nat (length (st_items ?w xSuspendedTaskList)) = uxCurrentNumberOfTasks ?w
          then Some (?w\<lparr>pxCurrentTCB := NULL\<rparr>)
          else vTaskSwitchContext ?w)
    else Some ?w"
  have run: "vTaskSuspend h s = ?x"
    unfolding vTaskSuspend_def t [symmetric] Let_def st_remove_eq [OF L] Option.bind.bind_lunit prod.case
      removed_any_def [symmetric] r_def [symmetric] ev_unlink_eq ..
  obtain s' where "?x = Some s'" "kernel_ok i s'" "tcbs s' = tcbs ?v"
    using suspend_switch [OF kw, of t] unfolding cw by blast
  then show ?thesis using cv unfolding run by (intro exI [of _ s']) simp
qed

section \<open>Priorities\<close>

text \<open>Moving a ready task to the list of another priority: removal, update, insertion. The code does
  the update at different points; it commutes with the removal.\<close>

definition requeued :: "addr \<Rightarrow> u32 \<Rightarrow> (tcb \<Rightarrow> tcb) \<Rightarrow> sched \<Rightarrow> sched" where
  "requeued t p f s = prvAddTaskToReadyList t (upd_tcb t f (taskRESET_READY_PRIORITY p (st_removed t (Ready p) s)))"

definition keeps_links :: "(tcb \<Rightarrow> tcb) \<Rightarrow> bool" where
  "keeps_links f \<longleftrightarrow> (\<forall>c. stContainer (f c) = stContainer c \<and> evContainer (f c) = evContainer c \<and>
    stItemValue (f c) = stItemValue c \<and> (\<forall>L. f (c\<lparr>stContainer := L\<rparr>) = (f c)\<lparr>stContainer := L\<rparr>))"

lemma keeps_links_record [simp]:
  "(\<And>c L. a (c\<lparr>stContainer := L\<rparr>) = a c) \<Longrightarrow> keeps_links (\<lambda>c. c\<lparr>uxPriority := a c\<rparr>)"
  "(\<And>c L. a (c\<lparr>stContainer := L\<rparr>) = a c) \<Longrightarrow> keeps_links (\<lambda>c. c\<lparr>uxPriority := a c, evItemValue := v\<rparr>)"
  "keeps_links (\<lambda>c. c\<lparr>uxPriority := p, uxBasePriority := q, evItemValue := v\<rparr>)"
  by (simp_all add: keeps_links_def)

lemma st_removed_upd:
  "keeps_links f \<Longrightarrow> st_removed t L (upd_tcb t f s) = upd_tcb t f (st_removed t L s)"
  by (cases s) (simp add: st_removed_def keeps_links_def)

lemma taskRESET_upd: "taskRESET_READY_PRIORITY p (upd_tcb t f s) = upd_tcb t f (taskRESET_READY_PRIORITY p s)"
  by (cases s) (simp add: taskRESET_READY_PRIORITY_def)

lemma requeued_kernel:
  assumes k: "kernel_ok i s" and t: "stContainer (tcbs s t) = Some (Ready p)" and f: "keeps_links f"
    and pr: "uxPriority (f (tcbs s t)) < 8" "uxBasePriority (f (tcbs s t)) < 8"
  shows "kernel_ok i (requeued t p f s)" "glob (requeued t p f s) = glob s"
    "tcbs (requeued t p f s) = (tcbs s)(t := (f (tcbs s t))\<lparr>stContainer := Some (Ready (uxPriority (f (tcbs s t))))\<rparr>)"
proof -
  let ?r = "taskRESET_READY_PRIORITY p (st_removed t (Ready p) s)"
  have cr: "tcbs ?r t = (tcbs s t)\<lparr>stContainer := None\<rparr>" by simp
  have fr: "f (tcbs ?r t) = (f (tcbs s t))\<lparr>stContainer := None\<rparr>" unfolding cr using f by (simp add: keeps_links_def)
  have "sched_ok (upd_tcb t f ?r)"
    by (rule sched_inv_upd [OF sched_inv_reset_removed [OF kernel_invD(1) [OF k] t]])
      (use pr fr cr f in \<open>simp_all add: keeps_links_def\<close>)
  then have ok: "sched_ok (requeued t p f s)"
    unfolding requeued_def by (rule sched_inv_add_ready) (use fr in simp)
  show c: "tcbs (requeued t p f s) = (tcbs s)(t := (f (tcbs s t))\<lparr>stContainer := Some (Ready (uxPriority (f (tcbs s t))))\<rparr>)"
    unfolding requeued_def using fr by simp
  have "evContainer (tcbs s t) = None" by (rule running_no_event [OF k t])
  then have "evContainer (f (tcbs s t)) = None" using f by (simp add: keeps_links_def)
  then show "kernel_ok i (requeued t p f s)"
    by (intro kernel_inv_step [OF k ok, where t = t]) (insert c, simp_all)
  show "glob (requeued t p f s) = glob s" by (simp add: requeued_def)
qed

text \<open>The priority of a task that is in no ready list.\<close>

lemma upd_kernel:
  assumes k: "kernel_ok i s" and f: "keeps_links f" and t: "\<And>p. stContainer (tcbs s t) \<noteq> Some (Ready p)"
    and pr: "uxPriority (f (tcbs s t)) < 8" "uxBasePriority (f (tcbs s t)) < 8"
  shows "kernel_ok i (upd_tcb t f s)"
proof -
  have "sched_ok (upd_tcb t f s)"
    by (rule sched_inv_upd [OF kernel_invD(1) [OF k]]) (use f t pr in \<open>simp_all add: keeps_links_def\<close>)
  then show ?thesis
    by (rule kernel_inv_step [OF k, where t = t])
      (use f kernel_invD(2) [OF k, of t] kernel_invD(3) [OF k] in \<open>auto simp: keeps_links_def\<close>)
qed

lemma prio_bounds: "kernel_inv b i s \<Longrightarrow> prio s t < 8" "kernel_inv b i s \<Longrightarrow> uxBasePriority (tcbs s t) < 8"
  using sched_invD(4) [OF kernel_invD(1)] unfolding prio_ok_def by blast+

definition event_value :: "u32 \<Rightarrow> tcb \<Rightarrow> u32" where
  "event_value p c = (if evItemValue c AND taskEVENT_LIST_ITEM_VALUE_IN_USE = 0 then configMAX_PRIORITIES - p else evItemValue c)"

lemma set_event_priority_eq: "set_event_priority t p s = upd_tcb t (\<lambda>c. c\<lparr>evItemValue := event_value p (tcbs s t)\<rparr>) s"
  by (simp add: set_event_priority_def event_value_def)

text \<open>The effective priority, base priority and event value after \<open>vTaskPrioritySet\<close>.\<close>

definition prio_set :: "u32 \<Rightarrow> tcb \<Rightarrow> tcb \<Rightarrow> tcb" where
  "prio_set p c0 c = c\<lparr>uxPriority := (if uxBasePriority c0 = uxPriority c0 then p else uxPriority c0),
    uxBasePriority := p, evItemValue := event_value p c0\<rparr>"

lemma prio_set_links [simp]: "keeps_links (prio_set p c0)"
proof -
  have "prio_set p c0 = (\<lambda>c. c\<lparr>uxPriority := (if uxBasePriority c0 = uxPriority c0 then p else uxPriority c0),
    uxBasePriority := p, evItemValue := event_value p c0\<rparr>)" by (rule ext) (simp add: prio_set_def)
  then show ?thesis by (simp only: keeps_links_record)
qed

lemma vTaskPrioritySet_spec:
  fixes s :: sched and h :: addr and q :: u32
  assumes k: "kernel_ok i s"
  defines "p \<equiv> (if q \<ge> configMAX_PRIORITIES then configMAX_PRIORITIES - 1 else q)"
  defines "t \<equiv> prvGetTCBFromHandle h s"
  shows "\<exists>s'. vTaskPrioritySet h q s = Some s' \<and> kernel_ok i s' \<and> (\<forall>u. u \<noteq> t \<longrightarrow> tcbs s' u = tcbs s u) \<and>
    uxBasePriority (tcbs s' t) = p \<and>
    prio s' t = (if uxBasePriority (tcbs s t) = prio s t then p else prio s t)"
proof (cases "uxBasePriority (tcbs s t) = p")
  case True
  then show ?thesis using k by (intro exI [of _ s]) (simp add: vTaskPrioritySet_def p_def t_def Let_def)
next
  case False
  let ?f = "prio_set p (tcbs s t)" and ?u = "prio s t"
  have p8: "p < 8"
  proof (cases "q \<ge> configMAX_PRIORITIES")
    case True
    then show ?thesis by (simp add: p_def)
  qed (simp add: p_def)
  have fc: "?f (tcbs s t) = (tcbs s t)\<lparr>uxPriority := (if uxBasePriority (tcbs s t) = prio s t then p else prio s t),
    uxBasePriority := p, evItemValue := event_value p (tcbs s t)\<rparr>" by (simp add: prio_set_def)
  have f8: "uxPriority (?f (tcbs s t)) < 8" "uxBasePriority (?f (tcbs s t)) < 8"
    using p8 prio_bounds [OF k, of t] by (simp_all add: fc)
  have s3: "set_event_priority t p (upd_tcb t (\<lambda>c. c\<lparr>uxBasePriority := p\<rparr>)
      (if uxBasePriority (tcbs s t) = prio s t then upd_tcb t (\<lambda>c. c\<lparr>uxPriority := p\<rparr>) s else s)) = upd_tcb t ?f s"
    by (simp add: set_event_priority_eq fc event_value_def)
  obtain s4 where s4: "(if stContainer (tcbs (upd_tcb t ?f s) t) = Some (Ready ?u)
      then do { (n, s) \<leftarrow> st_remove t (upd_tcb t ?f s);
        let s = (if n = 0 then s\<lparr>uxTopReadyPriority := portRESET_READY_PRIORITY ?u (uxTopReadyPriority s)\<rparr> else s);
        Some (prvAddTaskToReadyList t s) }
      else Some (upd_tcb t ?f s)) = Some s4" "kernel_ok i s4" "\<forall>u. u \<noteq> t \<longrightarrow> tcbs s4 u = tcbs s u"
    "uxBasePriority (tcbs s4 t) = p" "prio s4 t = (if uxBasePriority (tcbs s t) = prio s t then p else prio s t)"
  proof (cases "stContainer (tcbs s t) = Some (Ready ?u)")
    case True
    then have c: "stContainer (tcbs (upd_tcb t ?f s) t) = Some (Ready ?u)" by (simp add: prio_set_def)
    have "do { (n, s) \<leftarrow> st_remove t (upd_tcb t ?f s);
        let s = (if n = 0 then s\<lparr>uxTopReadyPriority := portRESET_READY_PRIORITY ?u (uxTopReadyPriority s)\<rparr> else s);
        Some (prvAddTaskToReadyList t s) } = Some (requeued t ?u ?f s)"
      unfolding st_remove_eq [OF c] Option.bind.bind_lunit prod.case Let_def reset_after_remove(2)
      by (simp only: st_removed_upd [OF prio_set_links] taskRESET_upd requeued_def)
    then show ?thesis
      using that [of "requeued t ?u ?f s"] c requeued_kernel [OF k True prio_set_links f8] by (simp add: fc)
  next
    case False
    then have "\<And>p. stContainer (tcbs s t) \<noteq> Some (Ready p)" using ready_prio [OF kernel_invD(1) [OF k]] by metis
    then have "kernel_ok i (upd_tcb t ?f s)" by (rule upd_kernel [OF k prio_set_links _ f8])
    then show ?thesis using that [of "upd_tcb t ?f s"] False by (simp add: fc)
  qed
  let ?yr = "if p > uxBasePriority (tcbs s t) then t \<noteq> pxCurrentTCB s \<and> p \<ge> prio s (pxCurrentTCB s) else t = pxCurrentTCB s"
  have "vTaskPrioritySet h q s = Some (if ?yr then portYIELD s4 else s4)"
    unfolding vTaskPrioritySet_def Let_def p_def [symmetric] t_def [symmetric] s3 s4(1) [unfolded Let_def]
      Option.bind.bind_lunit if_P [OF False] ..
  then show ?thesis using s4(2-5) by (simp add: yieldable_fields)
qed

section \<open>Priority inheritance\<close>

text \<open>The removal step the code writes with \<open>taskRESET_READY_PRIORITY\<close>.\<close>

lemma remove_reset:
  assumes "stContainer (tcbs s t) = Some (Ready p)"
  shows "do { (n, s) \<leftarrow> st_remove t s; g (if n = 0 then taskRESET_READY_PRIORITY p s else s) } =
    g (taskRESET_READY_PRIORITY p (st_removed t (Ready p) s))"
  unfolding st_remove_eq [OF assms] Option.bind.bind_lunit prod.case reset_after_remove(1) ..

lemma xTaskPriorityInherit_spec:
  assumes k: "kernel_ok i s"
  shows "\<exists>s'. xTaskPriorityInherit t s =
      Some (t \<noteq> NULL \<and> (prio s t < prio s (pxCurrentTCB s) \<or> uxBasePriority (tcbs s t) < prio s (pxCurrentTCB s)), s') \<and>
    kernel_ok i s' \<and> (\<forall>u. u \<noteq> t \<longrightarrow> tcbs s' u = tcbs s u) \<and> pxCurrentTCB s' = pxCurrentTCB s \<and>
    uxBasePriority (tcbs s' t) = uxBasePriority (tcbs s t) \<and> uxMutexesHeld (tcbs s' t) = uxMutexesHeld (tcbs s t) \<and>
    evContainer (tcbs s' t) = evContainer (tcbs s t) \<and>
    prio s' t = (if t = NULL then prio s t else max (prio s t) (prio s (pxCurrentTCB s)))"
proof (cases "t \<noteq> NULL \<and> prio s t < prio s (pxCurrentTCB s)")
  case False
  then show ?thesis using k by (intro exI [of _ s]) (auto simp: xTaskPriorityInherit_def max_def)
next
  case True
  let ?pc = "prio s (pxCurrentTCB s)"
  have ne: "t \<noteq> pxCurrentTCB s" using True by auto
  let ?e = "\<lambda>c. c\<lparr>evItemValue := event_value ?pc (tcbs s t)\<rparr>"
  let ?s1 = "upd_tcb t ?e s"
  have k1: "kernel_ok i ?s1" by (rule kernel_upd_item [OF k])
  have p1: "prio ?s1 t = prio s t" "prio ?s1 (pxCurrentTCB ?s1) = ?pc" by simp_all
  have c1: "stContainer (tcbs ?s1 t) = stContainer (tcbs s t)" by simp
  let ?f = "\<lambda>c. c\<lparr>uxPriority := ?pc\<rparr>"
  have kf: "keeps_links ?f" by simp
  have f8: "uxPriority (?f (tcbs ?s1 t)) < 8" "uxBasePriority (?f (tcbs ?s1 t)) < 8"
    using prio_bounds [OF k] by simp_all
  have mx: "max (prio s t) ?pc = ?pc" using True by (simp add: max_def less_imp_le)
  show ?thesis
  proof (cases "stContainer (tcbs s t) = Some (Ready (prio s t))")
    case ready: True
    let ?r = "taskRESET_READY_PRIORITY (prio s t) (st_removed t (Ready (prio s t)) ?s1)"
    have pr: "prio ?r (pxCurrentTCB ?r) = ?pc" using ne glob_sel(1) [of ?r s] by simp
    have ready1: "stContainer (tcbs ?s1 t) = Some (Ready (prio s t))" using ready by simp
    have pt: "prio (st_removed t (Ready (prio s t)) ?s1) t = prio s t" by simp
    have "xTaskPriorityInherit t s = Some (True, requeued t (prio s t) ?f ?s1)"
    proof -
      have "xTaskPriorityInherit t s =
        do { s \<leftarrow> do { (n, s) \<leftarrow> st_remove t ?s1;
            let s = (if n = 0 then taskRESET_READY_PRIORITY (prio s t) s else s);
            let s = upd_tcb t (\<lambda>c. c\<lparr>uxPriority := prio s (pxCurrentTCB s)\<rparr>) s;
            Some (prvAddTaskToReadyList t s) };
          Some (True, s) }"
        unfolding xTaskPriorityInherit_def set_event_priority_eq Let_def c1 p1(1) using True ready
        by (simp only: if_False if_True refl)
      also have "\<dots> = Some (True, requeued t (prio s t) ?f ?s1)"
        unfolding st_remove_eq [OF ready1] Option.bind.bind_lunit prod.case Let_def pt reset_after_remove(1) pr requeued_def ..
      finally show ?thesis .
    qed
    then show ?thesis
      using True mx ready requeued_kernel [OF k1 ready1 kf f8] glob_sel(1) [OF requeued_kernel(2) [OF k1 ready1 kf f8]]
      by (intro exI [of _ "requeued t (prio s t) ?f ?s1"]) simp
  next
    case False
    let ?s2 = "upd_tcb t ?f ?s1"
    have "\<And>p. stContainer (tcbs ?s1 t) \<noteq> Some (Ready p)"
      using ready_prio [OF kernel_invD(1) [OF k]] False c1 by metis
    then have k2: "kernel_ok i ?s2" by (rule upd_kernel [OF k1 kf _ f8])
    have "xTaskPriorityInherit t s = Some (True, ?s2)"
      unfolding xTaskPriorityInherit_def set_event_priority_eq Let_def using True False ne
      by simp
    then show ?thesis using True mx k2 by (intro exI [of _ ?s2]) simp
  qed
qed

lemma upd_mutexes_kernel: "kernel_ok i s \<Longrightarrow> kernel_ok i (upd_tcb t (\<lambda>c. c\<lparr>uxMutexesHeld := g c\<rparr>) s)"
proof -
  assume k: "kernel_ok i s"
  have "sched_ok (upd_tcb t (\<lambda>c. c\<lparr>uxMutexesHeld := g c\<rparr>) s)"
    by (rule sched_inv_upd [OF kernel_invD(1) [OF k]]) (use prio_bounds [OF k] in simp_all)
  then show ?thesis
    by (rule kernel_inv_step [OF k, where t = t]) (use kernel_invD(2,3) [OF k] in auto)
qed

lemma xTaskPriorityDisinherit_spec:
  assumes k: "kernel_ok i s" and r: "stContainer (tcbs s t) = Some (Ready p)"
  defines "restored \<equiv> t \<noteq> NULL \<and> prio s t \<noteq> uxBasePriority (tcbs s t) \<and> uxMutexesHeld (tcbs s t) = 1"
  shows "\<exists>s'. xTaskPriorityDisinherit t s = Some (restored, s') \<and> kernel_ok i s' \<and> (\<forall>u. u \<noteq> t \<longrightarrow> tcbs s' u = tcbs s u) \<and>
    uxBasePriority (tcbs s' t) = uxBasePriority (tcbs s t) \<and>
    uxMutexesHeld (tcbs s' t) = (if t = NULL then uxMutexesHeld (tcbs s t) else uxMutexesHeld (tcbs s t) - 1) \<and>
    prio s' t = (if restored then uxBasePriority (tcbs s t) else prio s t)"
proof (cases "t = NULL")
  case True
  then show ?thesis using k by (simp add: xTaskPriorityDisinherit_def restored_def)
next
  case nn: False
  let ?s1 = "upd_tcb t (\<lambda>c. c\<lparr>uxMutexesHeld := uxMutexesHeld c - 1\<rparr>) s"
  have k1: "kernel_ok i ?s1" by (rule upd_mutexes_kernel [OF k])
  have m: "uxMutexesHeld (tcbs s t) - 1 = 0 \<longleftrightarrow> uxMutexesHeld (tcbs s t) = 1" by simp
  show ?thesis
  proof (cases restored)
    case False
    then have "\<not> (prio ?s1 t \<noteq> uxBasePriority (tcbs ?s1 t) \<and> uxMutexesHeld (tcbs ?s1 t) = 0)"
      using nn by (auto simp: restored_def)
    then have "xTaskPriorityDisinherit t s = Some (False, ?s1)"
      unfolding xTaskPriorityDisinherit_def Let_def if_not_P [OF nn] by (simp only: if_False)
    then show ?thesis using False nn k1 by (intro exI [of _ ?s1]) simp
  next
    case True
    have p: "p = prio s t" using ready_prio [OF kernel_invD(1) [OF k] r] by simp
    have r1: "stContainer (tcbs ?s1 t) = Some (Ready (prio s t))" using r p by simp
    let ?b = "uxBasePriority (tcbs s t)"
    let ?f = "\<lambda>c. c\<lparr>uxPriority := uxBasePriority c, evItemValue := configMAX_PRIORITIES - ?b\<rparr>"
    have kf: "keeps_links ?f" by simp
    have f8: "uxPriority (?f (tcbs ?s1 t)) < 8" "uxBasePriority (?f (tcbs ?s1 t)) < 8"
      using prio_bounds [OF k, of t] by simp_all
    let ?r = "taskRESET_READY_PRIORITY (prio s t) (st_removed t (Ready (prio s t)) ?s1)"
    have pt: "prio (st_removed t (Ready (prio s t)) ?s1) t = prio s t" by simp
    have c: "tcbs ?s1 t = (tcbs s t)\<lparr>uxMutexesHeld := uxMutexesHeld (tcbs s t) - 1\<rparr>" by simp
    have cond: "prio ?s1 t \<noteq> uxBasePriority (tcbs ?s1 t) \<and> uxMutexesHeld (tcbs ?s1 t) = 0"
      unfolding c using True by (simp add: restored_def)
    have u: "upd_tcb t (\<lambda>c. c\<lparr>evItemValue := configMAX_PRIORITIES - uxPriority c\<rparr>) (upd_tcb t (\<lambda>c. c\<lparr>uxPriority := uxBasePriority c\<rparr>) ?r) =
      upd_tcb t ?f ?r" by simp
    have "xTaskPriorityDisinherit t s = Some (True, requeued t (prio s t) ?f ?s1)"
      unfolding xTaskPriorityDisinherit_def Let_def if_not_P [OF nn] if_P [OF cond] st_remove_eq [OF r1]
        Option.bind.bind_lunit prod.case pt reset_after_remove(1) u requeued_def ..
    then show ?thesis using True nn requeued_kernel [OF k1 r1 kf f8]
      by (intro exI [of _ "requeued t (prio s t) ?f ?s1"]) simp
  qed
qed

text \<open>\<open>vTaskPriorityDisinheritAfterTimeout\<close>: the priority the holder falls back to, and when it falls back.\<close>

definition timeout_prio :: "addr \<Rightarrow> u32 \<Rightarrow> sched \<Rightarrow> u32" where
  "timeout_prio t h s = max (uxBasePriority (tcbs s t)) h"

definition timeout_lowers :: "addr \<Rightarrow> u32 \<Rightarrow> sched \<Rightarrow> bool" where
  "timeout_lowers t h s \<longleftrightarrow> t \<noteq> NULL \<and> prio s t \<noteq> timeout_prio t h s \<and> uxMutexesHeld (tcbs s t) = 1"

definition timeout_upd :: "addr \<Rightarrow> u32 \<Rightarrow> sched \<Rightarrow> tcb \<Rightarrow> tcb" where
  "timeout_upd t h s c = c\<lparr>uxPriority := timeout_prio t h s, evItemValue := event_value (timeout_prio t h s) (tcbs s t)\<rparr>"

lemma timeout_upd_links [simp]: "keeps_links (timeout_upd t h s)"
proof -
  have "timeout_upd t h s = (\<lambda>c. c\<lparr>uxPriority := timeout_prio t h s, evItemValue := event_value (timeout_prio t h s) (tcbs s t)\<rparr>)"
    by (rule ext) (simp add: timeout_upd_def)
  then show ?thesis by simp
qed

lemma after_timeout_unfold:
  "vTaskPriorityDisinheritAfterTimeout t h s =
    (if timeout_lowers t h s
     then (if stContainer (tcbs s t) = Some (Ready (prio s t))
       then do { (n, s') \<leftarrow> st_remove t (upd_tcb t (timeout_upd t h s) s);
         Some (prvAddTaskToReadyList t (if n = 0 then taskRESET_READY_PRIORITY (prio s' t) s' else s')) }
       else Some (upd_tcb t (timeout_upd t h s) s))
     else Some s)"
proof -
  have m: "(if uxBasePriority (tcbs s t) < h then h else uxBasePriority (tcbs s t)) = timeout_prio t h s"
    by (simp add: timeout_prio_def max_def less_imp_le)
  have u: "set_event_priority t (timeout_prio t h s) (upd_tcb t (\<lambda>c. c\<lparr>uxPriority := timeout_prio t h s\<rparr>) s) =
      upd_tcb t (timeout_upd t h s) s"
    by (simp add: set_event_priority_eq timeout_upd_def event_value_def)
  have c: "stContainer (tcbs (upd_tcb t (timeout_upd t h s) s) t) = stContainer (tcbs s t)"
    by (simp add: timeout_upd_def)
  show ?thesis
    unfolding vTaskPriorityDisinheritAfterTimeout_def Let_def m u c
    by (auto simp: timeout_lowers_def)
qed

lemma vTaskPriorityDisinheritAfterTimeout_spec:
  assumes k: "kernel_ok i s" and h: "h < configMAX_PRIORITIES"
    and other: "timeout_lowers t h s \<Longrightarrow> st_items s (Ready (prio s t)) \<noteq> [t]"
  shows "\<exists>s'. vTaskPriorityDisinheritAfterTimeout t h s = Some s' \<and> kernel_ok i s' \<and>
    (\<forall>u. u \<noteq> t \<longrightarrow> tcbs s' u = tcbs s u) \<and> uxBasePriority (tcbs s' t) = uxBasePriority (tcbs s t) \<and>
    prio s' t = (if timeout_lowers t h s then timeout_prio t h s else prio s t)"
proof (cases "timeout_lowers t h s")
  case False
  then show ?thesis using k by (simp add: after_timeout_unfold)
next
  case True
  let ?f = "timeout_upd t h s"
  have fc: "?f (tcbs s t) = (tcbs s t)\<lparr>uxPriority := timeout_prio t h s, evItemValue := event_value (timeout_prio t h s) (tcbs s t)\<rparr>"
    by (simp add: timeout_upd_def)
  have f8: "uxPriority (?f (tcbs s t)) < 8" "uxBasePriority (?f (tcbs s t)) < 8"
    using prio_bounds [OF k, of t] h by (simp_all add: fc timeout_prio_def)
  show ?thesis
  proof (cases "stContainer (tcbs s t) = Some (Ready (prio s t))")
    case ready: True
    let ?l = "klist_remove t (slists s (Ready (prio s t)))"
    have "t \<in> set (st_items s (Ready (prio s t)))"
      using ready st_okD(1) [OF sched_invD(1) [OF kernel_invD(1) [OF k]]] by simp
    then have ne: "kl_items ?l \<noteq> []"
      using other [OF True] by (cases "st_items s (Ready (prio s t))") (auto split: if_splits)
    have c: "stContainer (tcbs (upd_tcb t ?f s) t) = Some (Ready (prio s t))" using ready by (simp add: fc)
    have "taskRESET_READY_PRIORITY (prio s t) (st_removed t (Ready (prio s t)) s) = st_removed t (Ready (prio s t)) s"
      by (rule reset_other) (use ne in \<open>simp add: st_removed_def\<close>)
    then have rq: "requeued t (prio s t) ?f s = prvAddTaskToReadyList t (upd_tcb t ?f (st_removed t (Ready (prio s t)) s))"
      by (simp only: requeued_def)
    have "vTaskPriorityDisinheritAfterTimeout t h s = Some (requeued t (prio s t) ?f s)"
      unfolding after_timeout_unfold if_P [OF True] if_P [OF ready] st_remove_eq [OF c] Option.bind.bind_lunit prod.case rq
        st_removed_upd [OF timeout_upd_links] using ne by simp
    then show ?thesis using True requeued_kernel [OF k ready timeout_upd_links f8]
      by (intro exI [of _ "requeued t (prio s t) ?f s"]) (simp add: fc)
  next
    case False
    then have "\<And>p. stContainer (tcbs s t) \<noteq> Some (Ready p)" using ready_prio [OF kernel_invD(1) [OF k]] by metis
    then have "kernel_ok i (upd_tcb t ?f s)" by (rule upd_kernel [OF k timeout_upd_links _ f8])
    then show ?thesis using True False by (intro exI [of _ "upd_tcb t ?f s"]) (simp add: after_timeout_unfold fc)
  qed
qed

text \<open>The remaining case: the holder is alone in its ready list. The list becomes empty, but the bit that
  is reset is that of the new priority, so the bit of the old priority stays.\<close>

lemma after_timeout_alone:
  assumes k: "kernel_ok i s" and h: "h < configMAX_PRIORITIES" and lo: "timeout_lowers t h s"
    and alone: "st_items s (Ready (prio s t)) = [t]"
    and top: "\<And>u q. stContainer (tcbs s u) = Some (Ready q) \<Longrightarrow> prio s u \<le> prio s t"
    and less: "timeout_prio t h s < prio s t" and sus: "uxSchedulerSuspended s = 0"
  shows "\<exists>s'. vTaskPriorityDisinheritAfterTimeout t h s = Some s' \<and> st_items s' (Ready (prio s t)) = [] \<and>
    bit (uxTopReadyPriority s') (unat (prio s t)) \<and> vTaskSwitchContext s' = None"
proof -
  note si = kernel_invD(1) [OF k]
  let ?p = "prio s t" and ?q = "timeout_prio t h s" and ?f = "timeout_upd t h s"
  have ready: "stContainer (tcbs s t) = Some (Ready ?p)"
    using alone st_okD(1) [OF sched_invD(1) [OF si], of t "Ready ?p"] by simp
  have p8: "?p < 8" using prio_bounds [OF k] by simp
  have c: "stContainer (tcbs (upd_tcb t ?f s) t) = Some (Ready ?p)" using ready by (simp add: timeout_upd_def)
  let ?r = "upd_tcb t ?f (st_removed t (Ready ?p) s)"
  have l: "length (kl_items (klist_remove t (slists (upd_tcb t ?f s) (Ready ?p)))) = 0" using alone by simp
  have q: "prio ?r t = ?q" by (simp add: timeout_upd_def)
  let ?s' = "prvAddTaskToReadyList t (taskRESET_READY_PRIORITY ?q ?r)"
  have run: "vTaskPriorityDisinheritAfterTimeout t h s = Some ?s'"
    unfolding after_timeout_unfold if_P [OF lo] if_P [OF ready] st_remove_eq [OF c] Option.bind.bind_lunit prod.case
      st_removed_upd [OF timeout_upd_links] q if_P [OF l] ..
  have q': "prio (taskRESET_READY_PRIORITY ?q ?r) t = ?q" using q by simp
  have bits: "bit (uxTopReadyPriority s) (unat u) \<longleftrightarrow> st_items s (Ready u) \<noteq> []" for u
    using sched_invD(3) [OF si] unfolding ready_ok_def by blast
  have "?q < 8" using less p8 by simp
  then have top': "bit (uxTopReadyPriority ?s') n \<longleftrightarrow> bit (uxTopReadyPriority s) n \<or> n = unat ?q" for n
    unfolding prvAddTaskToReadyList_def Let_def q'
    using bits [of ?q]
    by (auto simp: st_insert_end_def Let_def taskRESET_READY_PRIORITY_def st_removed_def)
  have bp: "bit (uxTopReadyPriority ?s') (unat ?p)" using top' bits [of ?p] alone by simp
  have le: "n \<le> unat ?p" if "bit (uxTopReadyPriority ?s') n" for n
  proof (cases "n = unat ?q")
    case True
    then show ?thesis using less by (simp add: word_less_nat_alt)
  next
    case False
    then have b: "bit (uxTopReadyPriority s) n" using that top' by simp
    then have "n < 32" by (auto dest: bit_imp_le_length)
    then have n: "unat (of_nat n :: u32) = n" by (simp add: unat_of_nat)
    then have "st_items s (Ready (of_nat n)) \<noteq> []" using b bits [of "of_nat n"] by simp
    then obtain u where "u \<in> set (st_items s (Ready (of_nat n)))" by (cases "st_items s (Ready (of_nat n))") auto
    then have u: "stContainer (tcbs s u) = Some (Ready (of_nat n))"
      using st_okD(1) [OF sched_invD(1) [OF si]] by simp
    then have "of_nat n \<le> ?p" using top [OF u] ready_prio [OF si u] by simp
    then show ?thesis using n by (simp add: word_le_nat_alt)
  qed
  have "unat ?p < 8" using p8 by (simp add: word_less_nat_alt)
  then have "ucPortCountLeadingZeros (uxTopReadyPriority ?s') = 31 - unat ?p" by (intro clz_top [OF bp _ le]) simp_all
  then have hi: "portGET_HIGHEST_PRIORITY (uxTopReadyPriority ?s') = ?p"
    using \<open>unat ?p < 8\<close> by (simp add: portGET_HIGHEST_PRIORITY_def of_nat_diff)
  have "?q \<noteq> ?p" using less by simp
  then have empty: "st_items ?s' (Ready ?p) = []"
    unfolding prvAddTaskToReadyList_def Let_def q' using alone
    by (auto simp: st_insert_end_def Let_def taskRESET_READY_PRIORITY_def st_removed_def timeout_upd_def)
  then have "klist_next (slists ?s' (Ready ?p)) = (None, (slists ?s' (Ready ?p))\<lparr>kl_index := 0\<rparr>)"
    by (simp add: klist_next_def)
  moreover have "uxSchedulerSuspended ?s' = 0" using glob_sel(6) [of ?s' s] sus by simp
  ultimately have "vTaskSwitchContext ?s' = None"
    using hi p8 by (simp add: vTaskSwitchContext_def taskSELECT_HIGHEST_PRIORITY_TASK_def Let_def)
  then show ?thesis using run empty bp by blast
qed

end
