(* ===== verification/TaskLife.thy ===== *)
theory TaskLife imports SchedOps begin

text \<open>
  The life of a task (\<open>freertos/src/tasks.c\<close>): initialisation of a control block, entry into the ready
  lists, the start of the scheduler, deletion and the idle task's clean-up. The memory of control
  blocks and stacks is the heap's business: a creation takes the address \<open>xTaskCreate\<close> obtained, a
  deletion reports the control block whose memory \<open>prvDeleteTCB\<close> frees.
\<close>

unbundle bit_operations_syntax

section \<open>Creation\<close>

text \<open>The fields of the control block the scheduler uses; a NULL container is \<open>None\<close>.\<close>

definition prvInitialiseNewTask :: "u32 \<Rightarrow> addr \<Rightarrow> sched \<Rightarrow> sched" where
  "prvInitialiseNewTask prior t s =
    (let prior = (if prior \<ge> configMAX_PRIORITIES then configMAX_PRIORITIES - 1 else prior)
     in upd_tcb t (\<lambda>c. c\<lparr>uxPriority := prior, uxBasePriority := prior, uxMutexesHeld := 0,
          stContainer := None, evContainer := None, evItemValue := configMAX_PRIORITIES - prior,
          ulNotifiedValue := 0, ucNotifyState := taskNOT_WAITING_NOTIFICATION\<rparr>) s)"

definition prvInitialiseTaskLists :: "sched \<Rightarrow> sched" where
  "prvInitialiseTaskLists s =
    (let s = s\<lparr>slists := (\<lambda>L. case L of Ready p \<Rightarrow> if p < configMAX_PRIORITIES then klist_empty else slists s L | _ \<Rightarrow> klist_empty)\<rparr>;
         s = s\<lparr>elists := (elists s)(xPendingReadyList := klist_empty)\<rparr>;
         s = s\<lparr>pxDelayedTaskList := xDelayedTaskList1\<rparr>
     in s\<lparr>pxOverflowDelayedTaskList := xDelayedTaskList2\<rparr>)"

text \<open>The choice of the current task before the scheduler runs.\<close>

definition new_task_current :: "addr \<Rightarrow> sched \<Rightarrow> sched" where
  "new_task_current t s =
    (if pxCurrentTCB s = NULL
     then (let s = s\<lparr>pxCurrentTCB := t\<rparr>
           in if uxCurrentNumberOfTasks s = 1 then prvInitialiseTaskLists s else s)
     else if \<not> xSchedulerRunning s
     then (if prio s (pxCurrentTCB s) \<le> prio s t then s\<lparr>pxCurrentTCB := t\<rparr> else s)
     else s)"

definition prvAddNewTaskToReadyList :: "addr \<Rightarrow> sched \<Rightarrow> sched" where
  "prvAddNewTaskToReadyList t s =
    (let s = s\<lparr>uxCurrentNumberOfTasks := uxCurrentNumberOfTasks s + 1\<rparr>;
         s = new_task_current t s;
         s = s\<lparr>uxTaskNumber := uxTaskNumber s + 1\<rparr>;
         s = upd_tcb t (\<lambda>c. c\<lparr>uxTCBNumber := uxTaskNumber s\<rparr>) s;
         s = prvAddTaskToReadyList t s
     in if xSchedulerRunning s then (if prio s (pxCurrentTCB s) < prio s t then portYIELD s else s) else s)"

text \<open>\<open>xTaskCreate\<close> after its allocations; \<open>NULL\<close> stands for a failed one.\<close>

definition xTaskCreate :: "addr \<Rightarrow> u32 \<Rightarrow> sched \<Rightarrow> bool \<times> sched" where
  "xTaskCreate pxNewTCB prior s =
    (if pxNewTCB \<noteq> NULL
     then (True, prvAddNewTaskToReadyList pxNewTCB (prvInitialiseNewTask prior pxNewTCB s))
     else (False, s))"

section \<open>The start of the scheduler\<close>

text \<open>Up to \<open>xPortStartScheduler\<close>: the idle task and the timer task are created, then the count starts.\<close>

definition vTaskStartScheduler :: "addr \<Rightarrow> addr \<Rightarrow> sched \<Rightarrow> bool \<times> sched" where
  "vTaskStartScheduler idle timer s =
    (let (xReturn, s) = xTaskCreate idle 0 s;
         (xReturn, s) = (if xReturn then xTaskCreate timer (configMAX_PRIORITIES - 1) s else (xReturn, s))
     in if xReturn
        then (let s = s\<lparr>xNextTaskUnblockTime := portMAX_DELAY\<rparr>;
                  s = s\<lparr>xSchedulerRunning := True\<rparr>;
                  s = s\<lparr>xTickCount := 0\<rparr>
              in (True, s))
        else (False, s))"

section \<open>Deletion\<close>

text \<open>The result names the control block freed at once, if any.\<close>

definition vTaskDelete :: "addr \<Rightarrow> sched \<Rightarrow> (addr option \<times> sched) option" where
  "vTaskDelete xTaskToDelete s = do {
    let t = prvGetTCBFromHandle xTaskToDelete s;
    (n, s) \<leftarrow> st_remove t s;
    let s = (if n = 0 then taskRESET_READY_PRIORITY (prio s t) s else s);
    s \<leftarrow> ev_unlink t s;
    let s = s\<lparr>uxTaskNumber := uxTaskNumber s + 1\<rparr>;
    let (freed, s) =
      (if t = pxCurrentTCB s
       then (let s = st_insert_end xTasksWaitingTermination t s
             in (None, s\<lparr>uxDeletedTasksWaitingCleanUp := uxDeletedTasksWaitingCleanUp s + 1\<rparr>))
       else (let s = s\<lparr>uxCurrentNumberOfTasks := uxCurrentNumberOfTasks s - 1\<rparr>
             in (Some t, prvResetNextTaskUnblockTime s)));
    Some (freed, if xSchedulerRunning s \<and> t = pxCurrentTCB s then portYIELD s else s)
  }"

text \<open>The idle task's loop: the control blocks it frees, in order.\<close>

partial_function (option) prvCheckTasksWaitingTermination :: "sched \<Rightarrow> (addr list \<times> sched) option" where
  "prvCheckTasksWaitingTermination s =
    (if uxDeletedTasksWaitingCleanUp s > 0
     then do {
       t \<leftarrow> head_owner (slists s xTasksWaitingTermination);
       (_, s) \<leftarrow> st_remove t s;
       let s = s\<lparr>uxCurrentNumberOfTasks := uxCurrentNumberOfTasks s - 1\<rparr>;
       let s = s\<lparr>uxDeletedTasksWaitingCleanUp := uxDeletedTasksWaitingCleanUp s - 1\<rparr>;
       (ts, s) \<leftarrow> prvCheckTasksWaitingTermination s;
       Some (t # ts, s)
     }
     else Some ([], s))"

section \<open>Preservation\<close>

lemma sched_inv_more_fields [simp]:
  "sched_inv b (s\<lparr>uxCurrentNumberOfTasks := n\<rparr>) = sched_inv b s" "sched_inv b (s\<lparr>uxTaskNumber := n\<rparr>) = sched_inv b s"
  "sched_inv b (s\<lparr>uxDeletedTasksWaitingCleanUp := n\<rparr>) = sched_inv b s" "sched_inv b (s\<lparr>xSchedulerRunning := r\<rparr>) = sched_inv b s"
  by (simp_all add: sched_inv_def)

lemma sched_inv_init:
  assumes "sched_inv b s" and t: "stContainer (tcbs s t) = None" "evContainer (tcbs s t) = None"
  shows "sched_inv b (prvInitialiseNewTask p t s)"
proof -
  have "(if p \<ge> configMAX_PRIORITIES then configMAX_PRIORITIES - 1 else p) < (8 :: u32)" by (simp add: not_le)
  then show ?thesis
    unfolding prvInitialiseNewTask_def Let_def using t by (intro sched_inv_upd [OF assms(1)]) simp_all
qed

lemma prvInitialiseNewTask_tcbs:
  "tcbs (prvInitialiseNewTask p t s) = (tcbs s)(t := (tcbs s t)\<lparr>
    uxPriority := (if p \<ge> configMAX_PRIORITIES then configMAX_PRIORITIES - 1 else p),
    uxBasePriority := (if p \<ge> configMAX_PRIORITIES then configMAX_PRIORITIES - 1 else p), uxMutexesHeld := 0,
    stContainer := None, evContainer := None,
    evItemValue := configMAX_PRIORITIES - (if p \<ge> configMAX_PRIORITIES then configMAX_PRIORITIES - 1 else p),
    ulNotifiedValue := 0, ucNotifyState := taskNOT_WAITING_NOTIFICATION\<rparr>)"
  by (simp add: prvInitialiseNewTask_def Let_def)

text \<open>Entry of a task that is in no list.\<close>

lemma add_new_task:
  fixes s :: sched and t :: addr
  defines "s2 \<equiv> new_task_current t (s\<lparr>uxCurrentNumberOfTasks := uxCurrentNumberOfTasks s + 1\<rparr>)"
  assumes i: "sched_inv b s2" and c2: "tcbs s2 = tcbs s" and t: "stContainer (tcbs s t) = None"
  shows "sched_inv b (prvAddNewTaskToReadyList t s)"
    "tcbs (prvAddNewTaskToReadyList t s) = (tcbs s)(t := (tcbs s t)\<lparr>uxTCBNumber := uxTaskNumber s2 + 1, stContainer := Some (Ready (prio s t))\<rparr>)"
    "pxCurrentTCB (prvAddNewTaskToReadyList t s) = pxCurrentTCB s2"
    "xSchedulerRunning (prvAddNewTaskToReadyList t s) = xSchedulerRunning s2"
    "uxCurrentNumberOfTasks (prvAddNewTaskToReadyList t s) = uxCurrentNumberOfTasks s2"
    "uxSchedulerSuspended (prvAddNewTaskToReadyList t s) = uxSchedulerSuspended s2"
proof -
  let ?s3 = "upd_tcb t (\<lambda>c. c\<lparr>uxTCBNumber := uxTaskNumber s2 + 1\<rparr>) (s2\<lparr>uxTaskNumber := uxTaskNumber s2 + 1\<rparr>)"
  let ?s4 = "prvAddTaskToReadyList t ?s3"
  have e: "prvAddNewTaskToReadyList t s =
    (if xSchedulerRunning ?s4 then (if prio ?s4 (pxCurrentTCB ?s4) < prio ?s4 t then portYIELD ?s4 else ?s4) else ?s4)"
    unfolding prvAddNewTaskToReadyList_def Let_def s2_def [symmetric] by simp
  have "sched_inv b (s2\<lparr>uxTaskNumber := uxTaskNumber s2 + 1\<rparr>)" using i by (simp only: sched_inv_more_fields)
  then have "sched_inv b ?s3"
    by (rule sched_inv_upd) (use sched_invD(4) [OF i] in \<open>simp_all add: prio_ok_def\<close>)
  then have "sched_inv b ?s4" by (rule sched_inv_add_ready) (simp add: t c2)
  then show "sched_inv b (prvAddNewTaskToReadyList t s)" unfolding e by (simp add: portYIELD_def)
  have c4: "tcbs ?s4 = (tcbs s)(t := (tcbs s t)\<lparr>uxTCBNumber := uxTaskNumber s2 + 1, stContainer := Some (Ready (prio s t))\<rparr>)"
    by (simp add: c2)
  then show "tcbs (prvAddNewTaskToReadyList t s) = (tcbs s)(t := (tcbs s t)\<lparr>uxTCBNumber := uxTaskNumber s2 + 1, stContainer := Some (Ready (prio s t))\<rparr>)"
    unfolding e portYIELD_def by (simp only: if_distrib [of tcbs] sched.simps) simp
  have g: "glob ?s4 = glob (s2\<lparr>uxTaskNumber := uxTaskNumber s2 + 1\<rparr>)" by simp
  show "pxCurrentTCB (prvAddNewTaskToReadyList t s) = pxCurrentTCB s2"
    "xSchedulerRunning (prvAddNewTaskToReadyList t s) = xSchedulerRunning s2"
    "uxCurrentNumberOfTasks (prvAddNewTaskToReadyList t s) = uxCurrentNumberOfTasks s2"
    "uxSchedulerSuspended (prvAddNewTaskToReadyList t s) = uxSchedulerSuspended s2"
    unfolding e using glob_sel [OF g] by (simp_all add: portYIELD_def)
qed

lemma new_task_current_later:
  assumes "pxCurrentTCB s \<noteq> NULL"
  shows "sched_inv b (new_task_current t s) = sched_inv b s" "tcbs (new_task_current t s) = tcbs s"
    "xSchedulerRunning (new_task_current t s) = xSchedulerRunning s"
    "uxCurrentNumberOfTasks (new_task_current t s) = uxCurrentNumberOfTasks s"
    "uxSchedulerSuspended (new_task_current t s) = uxSchedulerSuspended s"
    "pxCurrentTCB (new_task_current t s) = pxCurrentTCB s \<or> pxCurrentTCB (new_task_current t s) = t"
    "xSchedulerRunning s \<Longrightarrow> pxCurrentTCB (new_task_current t s) = pxCurrentTCB s"
  using assms by (simp_all add: new_task_current_def)

section \<open>From reset to the first task\<close>

text \<open>The scheduler's statics after reset; no control block exists yet. The two list pointers have no
  value before \<open>prvInitialiseTaskLists\<close> sets them; the model gives them one.\<close>

definition sched_bss :: sched where
  "sched_bss = \<lparr>tcbs = (\<lambda>_. \<lparr>stItemValue = 0, stContainer = None, evItemValue = 0, evContainer = None, uxPriority = 0,
      uxBasePriority = 0, uxMutexesHeld = 0, uxTCBNumber = 0, ulNotifiedValue = 0, ucNotifyState = 0\<rparr>),
    slists = (\<lambda>_. klist_empty), elists = (\<lambda>_. klist_empty), pxCurrentTCB = NULL,
    pxDelayedTaskList = xDelayedTaskList1, pxOverflowDelayedTaskList = xDelayedTaskList2,
    uxCurrentNumberOfTasks = 0, xTickCount = 0, uxTopReadyPriority = 0, xSchedulerRunning = False,
    uxPendedTicks = 0, xYieldPending = False, xNumOfOverflows = 0, uxTaskNumber = 0, xNextTaskUnblockTime = 0,
    uxSchedulerSuspended = 0, uxDeletedTasksWaitingCleanUp = 0, yield_requested = False\<rparr>"

fun create_all :: "(addr \<times> u32) list \<Rightarrow> sched \<Rightarrow> sched" where
  "create_all [] s = s"
| "create_all ((t, p) # app) s = create_all app (snd (xTaskCreate t p s))"

text \<open>Before the scheduler runs: tasks are ready or do not exist.\<close>

definition boot_inv :: "sched \<Rightarrow> bool" where
  "boot_inv s \<longleftrightarrow> sched_ok s \<and> (\<forall>t. evContainer (tcbs s t) = None) \<and>
    (\<forall>t. stContainer (tcbs s t) = None \<or> (\<exists>p. stContainer (tcbs s t) = Some (Ready p))) \<and>
    \<not> xSchedulerRunning s \<and> uxSchedulerSuspended s = 0 \<and> pxCurrentTCB s \<noteq> NULL"

abbreviation clamp_prio :: "u32 \<Rightarrow> u32" where
  "clamp_prio p \<equiv> (if p \<ge> configMAX_PRIORITIES then configMAX_PRIORITIES - 1 else p)"

definition created :: "addr \<Rightarrow> u32 \<Rightarrow> sched \<Rightarrow> sched \<Rightarrow> bool" where
  "created t p s s' \<longleftrightarrow> (\<forall>u. u \<noteq> t \<longrightarrow> tcbs s' u = tcbs s u) \<and>
    stContainer (tcbs s' t) = Some (Ready (clamp_prio p)) \<and> prio s' t = clamp_prio p \<and>
    uxBasePriority (tcbs s' t) = clamp_prio p \<and> uxMutexesHeld (tcbs s' t) = 0 \<and>
    ucNotifyState (tcbs s' t) = taskNOT_WAITING_NOTIFICATION \<and> evContainer (tcbs s' t) = None"

lemma sched_bss_inv: "sched_ok (sched_bss\<lparr>pxCurrentTCB := t, uxCurrentNumberOfTasks := n\<rparr>)"
  by (simp add: sched_inv_def sched_bss_def st_ok_def ev_ok_def ready_ok_def prio_ok_def delay_ok_def klist_empty_def
      klist_ok_def)

lemma init_lists_empty:
  assumes "slists s = (\<lambda>_. klist_empty)" "elists s = (\<lambda>_. klist_empty)"
    "pxDelayedTaskList s = xDelayedTaskList1" "pxOverflowDelayedTaskList s = xDelayedTaskList2"
  shows "prvInitialiseTaskLists s = s"
proof -
  have sl: "(\<lambda>L. case L of Ready p \<Rightarrow> if p < configMAX_PRIORITIES then klist_empty else slists s L | _ \<Rightarrow> klist_empty) = slists s"
    unfolding assms(1) by (rule ext) (simp split: slist.split)
  have el: "(elists s)(xPendingReadyList := klist_empty) = elists s" unfolding assms(2) by auto
  show ?thesis
    unfolding prvInitialiseTaskLists_def Let_def sl
    by (rule sched.equality) (simp_all add: el assms(3,4))
qed

lemma first_creation:
  assumes "t \<noteq> NULL"
  shows "fst (xTaskCreate t p sched_bss)" "boot_inv (snd (xTaskCreate t p sched_bss))"
    "created t p sched_bss (snd (xTaskCreate t p sched_bss))" "pxCurrentTCB (snd (xTaskCreate t p sched_bss)) = t"
proof -
  let ?s = "prvInitialiseNewTask p t sched_bss"
  let ?s1 = "?s\<lparr>uxCurrentNumberOfTasks := uxCurrentNumberOfTasks ?s + 1\<rparr>"
  let ?s2 = "new_task_current t ?s1"
  have f: "pxCurrentTCB ?s1 = NULL" "uxCurrentNumberOfTasks ?s1 = 1"
    by (simp_all add: prvInitialiseNewTask_def sched_bss_def Let_def)
  have s2: "?s2 = ?s1\<lparr>pxCurrentTCB := t\<rparr>"
  proof -
    have "prvInitialiseTaskLists (?s1\<lparr>pxCurrentTCB := t\<rparr>) = ?s1\<lparr>pxCurrentTCB := t\<rparr>"
      by (rule init_lists_empty) (simp_all add: prvInitialiseNewTask_def sched_bss_def Let_def)
    then show ?thesis using f by (simp add: new_task_current_def Let_def)
  qed
  have "sched_ok sched_bss" using sched_bss_inv [where t = NULL and n = 0] by (simp add: sched_bss_def)
  then have "sched_ok ?s" by (rule sched_inv_init) (simp_all add: sched_bss_def)
  then have i: "sched_ok ?s2" unfolding s2 by simp
  have c2: "tcbs ?s2 = tcbs ?s" unfolding s2 by simp
  have n: "stContainer (tcbs ?s t) = None" by (simp add: prvInitialiseNewTask_tcbs)
  note a = add_new_task [OF i c2 n]
  have x: "xTaskCreate t p sched_bss = (True, prvAddNewTaskToReadyList t ?s)" using assms by (simp add: xTaskCreate_def)
  show "fst (xTaskCreate t p sched_bss)" unfolding x by simp
  have none: "stContainer (tcbs sched_bss u) = None" "evContainer (tcbs sched_bss u) = None" for u by (simp_all add: sched_bss_def)
  have "xSchedulerRunning ?s2 = False" "uxSchedulerSuspended ?s2 = 0" "pxCurrentTCB ?s2 = t"
    unfolding s2 by (simp_all add: prvInitialiseNewTask_def sched_bss_def Let_def)
  then show "boot_inv (snd (xTaskCreate t p sched_bss))" "pxCurrentTCB (snd (xTaskCreate t p sched_bss)) = t"
    unfolding x boot_inv_def using a assms by (simp_all add: prvInitialiseNewTask_tcbs none)
  show "created t p sched_bss (snd (xTaskCreate t p sched_bss))"
    unfolding x created_def snd_conv a(2) by (simp add: prvInitialiseNewTask_tcbs none)
qed

lemma later_creation:
  assumes b: "boot_inv s" and t: "t \<noteq> NULL" "stContainer (tcbs s t) = None"
  shows "fst (xTaskCreate t p s)" "boot_inv (snd (xTaskCreate t p s))" "created t p s (snd (xTaskCreate t p s))"
    "pxCurrentTCB (snd (xTaskCreate t p s)) = (if prio s (pxCurrentTCB s) \<le> clamp_prio p then t else pxCurrentTCB s)"
proof -
  let ?s = "prvInitialiseNewTask p t s"
  let ?s1 = "?s\<lparr>uxCurrentNumberOfTasks := uxCurrentNumberOfTasks ?s + 1\<rparr>"
  let ?s2 = "new_task_current t ?s1"
  have cur: "pxCurrentTCB ?s1 = pxCurrentTCB s" "xSchedulerRunning ?s1 = xSchedulerRunning s"
    "uxSchedulerSuspended ?s1 = uxSchedulerSuspended s"
    by (simp_all add: prvInitialiseNewTask_def Let_def)
  have nn: "pxCurrentTCB ?s1 \<noteq> NULL" using b cur by (simp add: boot_inv_def)
  note l = new_task_current_later [OF nn]
  have si: "sched_ok ?s" by (rule sched_inv_init) (use b t in \<open>simp_all add: boot_inv_def\<close>)
  then have i: "sched_ok ?s2" unfolding l(1) by simp
  have c2: "tcbs ?s2 = tcbs ?s" unfolding l(2) by simp
  have n: "stContainer (tcbs ?s t) = None" by (simp add: prvInitialiseNewTask_tcbs)
  note a = add_new_task [OF i c2 n]
  have x: "xTaskCreate t p s = (True, prvAddNewTaskToReadyList t ?s)" using t by (simp add: xTaskCreate_def)
  show "fst (xTaskCreate t p s)" unfolding x by simp
  show "created t p s (snd (xTaskCreate t p s))"
    unfolding x created_def snd_conv a(2) by (simp add: prvInitialiseNewTask_tcbs)
  have cur0: "pxCurrentTCB ?s = pxCurrentTCB s" by (simp add: prvInitialiseNewTask_def Let_def)
  have p1: "prio ?s1 (pxCurrentTCB ?s1) = (if pxCurrentTCB s = t then clamp_prio p else prio s (pxCurrentTCB s))"
    "prio ?s1 t = clamp_prio p" unfolding cur by (simp_all add: prvInitialiseNewTask_tcbs)
  have pc: "pxCurrentTCB ?s2 = (if prio s (pxCurrentTCB s) \<le> clamp_prio p then t else pxCurrentTCB s)"
    using nn b p1 unfolding new_task_current_def cur by (auto simp: boot_inv_def cur0)
  then show "pxCurrentTCB (snd (xTaskCreate t p s)) = (if prio s (pxCurrentTCB s) \<le> clamp_prio p then t else pxCurrentTCB s)"
    unfolding x snd_conv a(3) .
  have "pxCurrentTCB ?s2 \<noteq> NULL" using pc t b by (simp add: boot_inv_def)
  then show "boot_inv (snd (xTaskCreate t p s))"
    unfolding x boot_inv_def snd_conv a(2-6) l cur using a(1) b by (simp add: boot_inv_def prvInitialiseNewTask_tcbs)
qed

lemma create_all_boot:
  "boot_inv s \<Longrightarrow> distinct (map fst app) \<Longrightarrow> (\<And>t p. (t, p) \<in> set app \<Longrightarrow> t \<noteq> NULL \<and> stContainer (tcbs s t) = None) \<Longrightarrow>
    boot_inv (create_all app s) \<and> (\<forall>t. t \<notin> fst ` set app \<longrightarrow> tcbs (create_all app s) t = tcbs s t) \<and>
    (\<forall>(t, p)\<in>set app. stContainer (tcbs (create_all app s) t) = Some (Ready (clamp_prio p)))"
proof (induction app s rule: create_all.induct)
  case (2 t p app s)
  let ?s = "snd (xTaskCreate t p s)"
  have t: "t \<noteq> NULL" "stContainer (tcbs s t) = None" using 2(4) by auto
  note c = later_creation [OF 2(2) t]
  have s: "tcbs ?s u = tcbs s u" if "u \<noteq> t" for u using c(3) that by (simp add: created_def)
  have "u \<noteq> NULL \<and> stContainer (tcbs ?s u) = None" if "(u, q) \<in> set app" for u q
  proof -
    have "u \<noteq> t" using that 2(3) by (auto simp: image_iff)
    then show ?thesis using s 2(4) that by auto
  qed
  then have ih: "boot_inv (create_all app ?s)" "\<forall>u. u \<notin> fst ` set app \<longrightarrow> tcbs (create_all app ?s) u = tcbs ?s u"
    "\<forall>(u, q)\<in>set app. stContainer (tcbs (create_all app ?s) u) = Some (Ready (clamp_prio q))"
    using 2(1) [OF c(2)] 2(3) by auto
  have "t \<notin> fst ` set app" using 2(3) by auto
  then have "stContainer (tcbs (create_all app ?s) t) = Some (Ready (clamp_prio p))"
    using ih(2) c(3) by (simp add: created_def)
  then show ?case using ih s by (simp del: create_all.simps add: create_all.simps(2))
qed simp

lemma start_kernel:
  assumes b: "boot_inv s" and i: "stContainer (tcbs s idle) = Some (Ready p)"
  shows "kernel_ok idle (s\<lparr>xNextTaskUnblockTime := portMAX_DELAY, xSchedulerRunning := True, xTickCount := 0\<rparr>)"
proof -
  have si: "sched_ok s" and nd: "\<And>t. stContainer (tcbs s t) = None \<or> (\<exists>p. stContainer (tcbs s t) = Some (Ready p))"
    using b by (simp_all add: boot_inv_def)
  note o = sched_invD [OF si]
  have e: "st_items s L = []" if "delay_list L" for L
  proof (rule ccontr)
    assume "st_items s L \<noteq> []"
    then obtain t where "t \<in> set (st_items s L)" by (cases "st_items s L") auto
    then have "stContainer (tcbs s t) = Some L" using st_okD(1) [OF o(1)] by simp
    then show False using nd [of t] that by auto
  qed
  have "delay_ok True (stItemValue \<circ> tcbs s) (slists s) (pxDelayedTaskList s) (pxOverflowDelayedTaskList s) 0 portMAX_DELAY"
    using o(5) e delay_okD(1,2) [OF o(5)] unfolding delay_ok_def by simp
  then have "sched_ok (s\<lparr>xNextTaskUnblockTime := portMAX_DELAY, xSchedulerRunning := True, xTickCount := 0\<rparr>)"
    using o(1-4) by (simp add: sched_inv_def)
  then show ?thesis using b i by (simp add: kernel_inv_def boot_inv_def)
qed

lemma start_spec:
  assumes app: "distinct (map fst app @ [idle, timer])" "NULL \<notin> set (map fst app @ [idle, timer])" "app \<noteq> []"
  shows "\<exists>s'. vTaskStartScheduler idle timer (create_all app sched_bss) = (True, s') \<and> kernel_ok idle s' \<and>
    xSchedulerRunning s' \<and> xTickCount s' = 0 \<and> pxCurrentTCB s' = timer \<and>
    (\<forall>(t, p)\<in>set (app @ [(idle, 0), (timer, 7)]). stContainer (tcbs s' t) = Some (Ready (clamp_prio p)))"
proof -
  obtain t0 p0 app' where a: "app = (t0, p0) # app'" using app(3) by (cases app) auto
  let ?s0 = "snd (xTaskCreate t0 p0 sched_bss)"
  have t0: "t0 \<noteq> NULL" using app(2) a by auto
  note f = first_creation [OF t0, of p0]
  have fr: "stContainer (tcbs ?s0 u) = None" if "u \<noteq> t0" for u
    using f(3) that by (simp add: created_def) (simp add: sched_bss_def)
  have "u \<noteq> NULL \<and> stContainer (tcbs ?s0 u) = None" if "(u, q) \<in> set app'" for u q
    using that app(1,2) a fr [of u] by (auto simp: image_iff rev_image_eqI)
  then have s1: "boot_inv (create_all app' ?s0)" "\<forall>u. u \<notin> fst ` set app' \<longrightarrow> tcbs (create_all app' ?s0) u = tcbs ?s0 u"
    "\<forall>(u, q)\<in>set app'. stContainer (tcbs (create_all app' ?s0) u) = Some (Ready (clamp_prio q))"
    using create_all_boot [OF f(2), of app'] app(1) a by auto
  let ?s1 = "create_all app sched_bss"
  have e1: "?s1 = create_all app' ?s0" by (simp add: a)
  have c1: "stContainer (tcbs ?s1 t) = Some (Ready (clamp_prio p))" if "(t, p) \<in> set app" for t p
  proof (cases "(t, p) = (t0, p0)")
    case True
    then have "t \<notin> fst ` set app'" using app(1) a by auto
    then show ?thesis using True s1(2) f(3) unfolding e1 by (simp add: created_def)
  next
    case False
    then have "(t, p) \<in> set app'" using that a by auto
    then show ?thesis using s1(3) unfolding e1 by (fastforce dest: bspec [of _ _ "(t, p)"])
  qed
  have n1: "stContainer (tcbs ?s1 u) = None" if "u \<notin> fst ` set app" for u
  proof -
    have "u \<notin> fst ` set app'" "u \<noteq> t0" using that a by auto
    then show ?thesis using s1(2) fr unfolding e1 by simp
  qed
  have nn: "idle \<noteq> NULL" "timer \<noteq> NULL" "idle \<noteq> timer" "idle \<notin> fst ` set app" "timer \<notin> fst ` set app"
    using app(1,2) by auto
  have b1: "boot_inv ?s1" using s1(1) e1 by simp
  let ?s2 = "snd (xTaskCreate idle 0 ?s1)"
  note k2 = later_creation [OF b1 nn(1) n1 [OF nn(4)], of 0]
  have c2: "tcbs ?s2 u = tcbs ?s1 u" if "u \<noteq> idle" for u using k2(3) that by (simp add: created_def)
  have n2: "stContainer (tcbs ?s2 timer) = None" using c2 [of timer] nn n1 by simp
  let ?s3 = "snd (xTaskCreate timer (configMAX_PRIORITIES - 1) ?s2)"
  note k3 = later_creation [OF k2(2) nn(2) n2, of "configMAX_PRIORITIES - 1"]
  have c3: "tcbs ?s3 u = tcbs ?s2 u" if "u \<noteq> timer" for u using k3(3) that by (simp add: created_def)
  let ?s' = "?s3\<lparr>xNextTaskUnblockTime := portMAX_DELAY, xSchedulerRunning := True, xTickCount := 0\<rparr>"
  have run: "vTaskStartScheduler idle timer ?s1 = (True, ?s')"
    unfolding vTaskStartScheduler_def Let_def using k2(1) k3(1)
    by (cases "xTaskCreate idle 0 ?s1"; cases "xTaskCreate timer (configMAX_PRIORITIES - 1) ?s2") simp
  have i3: "stContainer (tcbs ?s3 idle) = Some (Ready 0)" using c3 [of idle] nn(3) k2(3) by (simp add: created_def)
  have t3: "stContainer (tcbs ?s3 timer) = Some (Ready 7)" using k3(3) by (simp add: created_def)
  have a3: "stContainer (tcbs ?s3 t) = Some (Ready (clamp_prio p))" if "(t, p) \<in> set app" for t p
  proof -
    have "t \<noteq> idle" "t \<noteq> timer" using that nn(4,5) by (auto simp: image_iff)
    then show ?thesis using c1 [OF that] c2 c3 by simp
  qed
  have "prio ?s2 (pxCurrentTCB ?s2) \<le> 7"
  proof -
    have "prio ?s2 (pxCurrentTCB ?s2) < 8" using k2(2) sched_invD(4) by (auto simp: boot_inv_def prio_ok_def)
    then show ?thesis by (simp add: word_less_nat_alt word_le_nat_alt)
  qed
  then have "pxCurrentTCB ?s3 = timer" unfolding k3(4) by simp
  then show ?thesis using run start_kernel [OF k3(2) i3] i3 t3 a3 by (intro exI [of _ ?s']) auto
qed

section \<open>Deletion and clean-up\<close>

lemma vTaskDelete_spec:
  assumes k: "kernel_ok i s" and t: "t = prvGetTCBFromHandle h s" and ne: "stContainer (tcbs s t) \<noteq> None" and i: "t \<noteq> i"
  shows "\<exists>s'. vTaskDelete h s = Some (if t = pxCurrentTCB s then None else Some t, s') \<and> kernel_ok i s' \<and>
    (\<forall>u. u \<noteq> t \<longrightarrow> tcbs s' u = tcbs s u) \<and> evContainer (tcbs s' t) = None \<and>
    stContainer (tcbs s' t) = (if t = pxCurrentTCB s then Some xTasksWaitingTermination else None) \<and>
    (\<forall>E. t \<notin> set (ev_items s' E)) \<and> (\<forall>L. t \<in> set (st_items s' L) \<longrightarrow> t = pxCurrentTCB s \<and> L = xTasksWaitingTermination)"
proof -
  note si = kernel_invD(1) [OF k]
  obtain L where L: "stContainer (tcbs s t) = Some L" using ne by auto
  let ?r = "removed_any t L s"
  note r = removed_any_ok [OF si L]
  let ?u = "(ev_unlinked t ?r)\<lparr>uxTaskNumber := uxTaskNumber (ev_unlinked t ?r) + 1\<rparr>"
  have ok: "sched_ok ?u" using sched_inv_ev_unlinked [OF r(1)] by simp
  have cu: "tcbs ?u = (tcbs s)(t := (tcbs s t)\<lparr>stContainer := None, evContainer := None\<rparr>)" using r(2) by simp
  have pc: "pxCurrentTCB ?u = pxCurrentTCB s" using glob_sel(1) [of "ev_unlinked t ?r" s] r(3) by simp
  let ?a = "st_insert_end xTasksWaitingTermination t ?u"
  define c where "c \<longleftrightarrow> t = pxCurrentTCB s"
  let ?v = "if c then ?a\<lparr>uxDeletedTasksWaitingCleanUp := uxDeletedTasksWaitingCleanUp ?a + 1\<rparr>
    else prvResetNextTaskUnblockTime (?u\<lparr>uxCurrentNumberOfTasks := uxCurrentNumberOfTasks ?u - 1\<rparr>)"
  have run: "vTaskDelete h s = Some (if c then None else Some t,
      if xSchedulerRunning ?v \<and> t = pxCurrentTCB ?v then portYIELD ?v else ?v)"
    unfolding vTaskDelete_def t [symmetric] Let_def st_remove_eq [OF L] Option.bind.bind_lunit prod.case
      removed_any_def [symmetric] ev_unlink_eq pc c_def [symmetric]
    by (cases c) (simp_all only: if_True if_False prod.case Option.bind.bind_lunit refl)
  have v: "sched_ok ?v"
  proof (cases c)
    case True
    have "sched_ok ?a" by (rule sched_inv_suspend [OF ok]) (use cu in auto)
    then show ?thesis using True by simp
  next
    case False
    have "sched_ok (?u\<lparr>uxCurrentNumberOfTasks := uxCurrentNumberOfTasks ?u - 1\<rparr>)" using ok by simp
    then show ?thesis using False reset_next_inv by simp
  qed
  have cv: "tcbs ?v = (tcbs s)(t := (tcbs s t)\<lparr>stContainer := (if c then Some xTasksWaitingTermination else None), evContainer := None\<rparr>)"
    using r(2) by simp
  obtain w where w: "w = ?v" by blast
  note run = run [folded w] and v = v [folded w] and cv = cv [folded w]
  have kw: "kernel_ok i w"
    by (rule kernel_inv_step [OF k v, where t = t]) (use cv i in auto)
  have "(\<forall>E. t \<notin> set (ev_items w E))" using ev_ok_None [OF sched_invD(2) [OF v], of t] cv by simp
  moreover have "M = xTasksWaitingTermination \<and> c" if "t \<in> set (st_items w M)" for M
  proof -
    have "stContainer (tcbs w t) = Some M" using st_okD(1) [OF sched_invD(1) [OF v]] that by simp
    then show ?thesis using cv by (cases c) auto
  qed
  ultimately show ?thesis using cv kw run
    by (intro exI [of _ "if xSchedulerRunning w \<and> t = pxCurrentTCB w then portYIELD w else w"])
      (auto simp: yieldable_fields portYIELD_def c_def)
qed

text \<open>The clean-up frees the deleted tasks in the order they were deleted.\<close>

lemma cleanup_spec:
  "sched_inv b s \<Longrightarrow> unat (uxDeletedTasksWaitingCleanUp s) = length (st_items s xTasksWaitingTermination) \<Longrightarrow>
    \<exists>s'. prvCheckTasksWaitingTermination s = Some (st_items s xTasksWaitingTermination, s') \<and> sched_inv b s' \<and>
      st_items s' xTasksWaitingTermination = [] \<and> uxDeletedTasksWaitingCleanUp s' = 0 \<and>
      uxCurrentNumberOfTasks s' = uxCurrentNumberOfTasks s - of_nat (length (st_items s xTasksWaitingTermination)) \<and>
      (\<forall>u. tcbs s' u = (if u \<in> set (st_items s xTasksWaitingTermination) then (tcbs s u)\<lparr>stContainer := None\<rparr> else tcbs s u))"
proof (induction "st_items s xTasksWaitingTermination" arbitrary: s)
  case Nil
  then have "uxDeletedTasksWaitingCleanUp s = 0" by (simp add: unat_eq_zero)
  then show ?case using Nil by (subst prvCheckTasksWaitingTermination.simps) (simp flip: Nil(1))
next
  case (Cons t ts)
  note e = Cons.hyps(2) [symmetric]
  let ?T = xTasksWaitingTermination
  have t: "stContainer (tcbs s t) = Some ?T" using st_okD(1) [OF sched_invD(1) [OF Cons.prems(1)], of t ?T] e by simp
  have n: "uxDeletedTasksWaitingCleanUp s \<noteq> 0" using Cons.prems(2) e by auto
  then have pos: "uxDeletedTasksWaitingCleanUp s > 0" by (simp add: word_neq_0_conv)
  let ?s = "(st_removed t ?T s)\<lparr>uxCurrentNumberOfTasks := uxCurrentNumberOfTasks s - 1,
    uxDeletedTasksWaitingCleanUp := uxDeletedTasksWaitingCleanUp s - 1\<rparr>"
  have i: "sched_inv b ?s" using sched_inv_st_removed [OF Cons.prems(1) t] by simp
  have it: "st_items ?s ?T = ts" using e by (simp add: st_removed_def)
  have "unat (uxDeletedTasksWaitingCleanUp s - 1) = length ts"
    using Cons.prems(2) e n by (simp add: unat_minus_one)
  then obtain s' where s': "prvCheckTasksWaitingTermination ?s = Some (ts, s')" "sched_inv b s'" "st_items s' ?T = []"
    "uxDeletedTasksWaitingCleanUp s' = 0" "uxCurrentNumberOfTasks s' = uxCurrentNumberOfTasks s - 1 - of_nat (length ts)"
    "\<forall>u. tcbs s' u = (if u \<in> set ts then (tcbs ?s u)\<lparr>stContainer := None\<rparr> else tcbs ?s u)"
    using Cons.hyps(1) [of ?s] i it by auto
  have d: "uxCurrentNumberOfTasks (st_removed t ?T s) = uxCurrentNumberOfTasks s"
    "uxDeletedTasksWaitingCleanUp (st_removed t ?T s) = uxDeletedTasksWaitingCleanUp s" by (simp_all add: st_removed_def)
  have "prvCheckTasksWaitingTermination s = Some (t # ts, s')"
    using pos s'(1) by (subst prvCheckTasksWaitingTermination.simps) (simp add: e st_remove_eq [OF t] d)
  moreover have "tcbs s' u = (if u \<in> set (t # ts) then (tcbs s u)\<lparr>stContainer := None\<rparr> else tcbs s u)" for u
    using s'(6) [rule_format, of u] by auto
  ultimately show ?case using s'(2-5) e by (intro exI [of _ s']) simp
qed

end
