(* ===== verification/SchedProps.thy ===== *)
theory SchedProps imports TaskLife begin

text \<open>
  The properties of the scheduler: no operation fails in any reachable state, exact delays across the
  wrap of the tick count, time-outs, the choice of the running task, waking and priority inheritance;
  with a sample state for the witnesses.
\<close>

unbundle bit_operations_syntax

section \<open>A sample state\<close>

text \<open>The idle task 100, the running task 200 of priority 3, and the task 300 of priority 4 that waits for an
  event (list 500) until tick 15; the tick count is 10.\<close>

definition sample_tcb :: "u32 \<Rightarrow> slist option \<Rightarrow> u32 \<Rightarrow> elist option \<Rightarrow> tcb" where
  "sample_tcb p L w E = \<lparr>stItemValue = w, stContainer = L, evItemValue = 8 - p, evContainer = E, uxPriority = p,
    uxBasePriority = p, uxMutexesHeld = 0, uxTCBNumber = 0, ulNotifiedValue = 0, ucNotifyState = 0\<rparr>"

definition sample_sched :: sched where
  "sample_sched = sched_bss\<lparr>
    tcbs := (\<lambda>_. sample_tcb 0 None 0 None)(100 := sample_tcb 0 (Some (Ready 0)) 0 None,
      200 := sample_tcb 3 (Some (Ready 3)) 0 None, 300 := sample_tcb 4 (Some xDelayedTaskList1) 15 (Some (EventList 500))),
    slists := (\<lambda>_. klist_empty)(Ready 0 := \<lparr>kl_items = [100], kl_index = 0\<rparr>, Ready 3 := \<lparr>kl_items = [200], kl_index = 1\<rparr>,
      xDelayedTaskList1 := \<lparr>kl_items = [300], kl_index = 0\<rparr>),
    elists := (\<lambda>_. klist_empty)(EventList 500 := \<lparr>kl_items = [300], kl_index = 0\<rparr>),
    pxCurrentTCB := 200, uxCurrentNumberOfTasks := 3, xTickCount := 10,
    uxTopReadyPriority := portRECORD_READY_PRIORITY 3 (portRECORD_READY_PRIORITY 0 0),
    xSchedulerRunning := True, xNextTaskUnblockTime := 15\<rparr>"

lemma sample_sched_ok: "kernel_ok 100 sample_sched"
proof -
  have three: "unat p = 3 \<longleftrightarrow> p = 3" for p :: u32 by (simp add: word_unat_eq_iff)
  have "st_ok (tcbs sample_sched) (slists sample_sched)"
    unfolding st_ok_def sample_sched_def
    by (auto simp: sample_tcb_def klist_ok_def klist_empty_def)
  moreover have "ev_ok (tcbs sample_sched) (elists sample_sched)"
    unfolding ev_ok_def sample_sched_def
    by (auto simp: sample_tcb_def klist_ok_def klist_empty_def)
  moreover have "ready_ok (tcbs sample_sched) (slists sample_sched) (uxTopReadyPriority sample_sched)"
    unfolding ready_ok_def sample_sched_def
    by (auto simp: sample_tcb_def klist_empty_def unat_eq_zero three)
  moreover have "prio_ok (tcbs sample_sched)"
    by (simp add: prio_ok_def sample_sched_def sample_tcb_def)
  moreover have "delay_ok True (stItemValue \<circ> tcbs sample_sched) (slists sample_sched) (pxDelayedTaskList sample_sched)
      (pxOverflowDelayedTaskList sample_sched) (xTickCount sample_sched) (xNextTaskUnblockTime sample_sched)"
    by (simp add: delay_ok_def sample_sched_def sched_bss_def sample_tcb_def klist_empty_def)
  ultimately have "sched_ok sample_sched" by (simp only: sched_inv_def)
  moreover have "waiting_in (stContainer (tcbs sample_sched t))" if "evContainer (tcbs sample_sched t) \<noteq> None" for t
    using that by (simp add: sample_sched_def sample_tcb_def split: if_splits)
  moreover have "stContainer (tcbs sample_sched 100) = Some (Ready 0)" by (simp add: sample_sched_def sample_tcb_def)
  ultimately show ?thesis unfolding kernel_inv_def by blast
qed

lemma sample_sched_sel [simp]:
  "uxSchedulerSuspended sample_sched = 0" "pxCurrentTCB sample_sched = 200" "uxCurrentNumberOfTasks sample_sched = 3"
  "uxPendedTicks sample_sched = 0" "xTickCount sample_sched = 10" "xYieldPending sample_sched = False"
  "pxDelayedTaskList sample_sched = xDelayedTaskList1" "pxOverflowDelayedTaskList sample_sched = xDelayedTaskList2"
  "tcbs sample_sched 100 = sample_tcb 0 (Some (Ready 0)) 0 None" "tcbs sample_sched 200 = sample_tcb 3 (Some (Ready 3)) 0 None"
  "tcbs sample_sched 300 = sample_tcb 4 (Some xDelayedTaskList1) 15 (Some (EventList 500))"
  "ev_items sample_sched (EventList 500) = [300]" "st_items sample_sched (Ready 3) = [200]"
  by (simp_all add: sample_sched_def sched_bss_def)

lemma sample_tcb_sel [simp]:
  "stItemValue (sample_tcb p L w E) = w" "stContainer (sample_tcb p L w E) = L" "evContainer (sample_tcb p L w E) = E"
  "uxPriority (sample_tcb p L w E) = p" "uxBasePriority (sample_tcb p L w E) = p" "evItemValue (sample_tcb p L w E) = 8 - p"
  "uxMutexesHeld (sample_tcb p L w E) = 0"
  by (simp_all add: sample_tcb_def)

lemma sample_not_pending: "\<not> pending sample_sched t"
  by (simp add: pending_def sample_sched_def sample_tcb_def)

lemma sample_running: "running_ready 100 sample_sched"
  by (simp add: running_ready_def)

section \<open>The kernel as a state machine\<close>

text \<open>The operations between which interrupts and tasks interleave. A delay is its three steps:
  suspension of the scheduler, the move to a delayed list, resumption.\<close>

datatype kop =
    Tick | PendSV | SwitchContext | SuspendAll | ResumeAll
  | DelayStep u32
  | PlaceOnEventList addr u32 | PlaceOnUnorderedEventList addr u32 u32 | PlaceOnEventListRestricted addr u32 bool
  | RemoveFromEventList addr | RemoveFromUnorderedEventList addr u32
  | PrioritySet addr u32 | Suspend addr | Resume addr | ResumeFromISR addr
  | PriorityInherit addr | PriorityDisinherit addr | PriorityDisinheritAfterTimeout addr u32
  | IncrementMutexHeldCount | ResetEventItemValue | MissedYield
  | CreateTask addr u32 | DeleteTask addr | CleanUp

fun kop_run :: "kop \<Rightarrow> sched \<Rightarrow> sched option" where
  "kop_run Tick s = xPortSysTickHandler s"
| "kop_run PendSV s = xPortPendSV s"
| "kop_run SwitchContext s = vTaskSwitchContext s"
| "kop_run SuspendAll s = Some (vTaskSuspendAll s)"
| "kop_run ResumeAll s = map_option snd (xTaskResumeAll s)"
| "kop_run (DelayStep n) s = prvAddCurrentTaskToDelayedList n False s"
| "kop_run (PlaceOnEventList E n) s = vTaskPlaceOnEventList E n s"
| "kop_run (PlaceOnUnorderedEventList E v n) s = vTaskPlaceOnUnorderedEventList E v n s"
| "kop_run (PlaceOnEventListRestricted E n w) s = vTaskPlaceOnEventListRestricted E n w s"
| "kop_run (RemoveFromEventList E) s = map_option snd (xTaskRemoveFromEventList E s)"
| "kop_run (RemoveFromUnorderedEventList t v) s = vTaskRemoveFromUnorderedEventList t v s"
| "kop_run (PrioritySet h p) s = vTaskPrioritySet h p s"
| "kop_run (Suspend h) s = vTaskSuspend h s"
| "kop_run (Resume t) s = vTaskResume t s"
| "kop_run (ResumeFromISR t) s = map_option snd (xTaskResumeFromISR t s)"
| "kop_run (PriorityInherit t) s = map_option snd (xTaskPriorityInherit t s)"
| "kop_run (PriorityDisinherit t) s = map_option snd (xTaskPriorityDisinherit t s)"
| "kop_run (PriorityDisinheritAfterTimeout t h) s = vTaskPriorityDisinheritAfterTimeout t h s"
| "kop_run IncrementMutexHeldCount s = Some (snd (pvTaskIncrementMutexHeldCount s))"
| "kop_run ResetEventItemValue s = Some (snd (uxTaskResetEventItemValue s))"
| "kop_run MissedYield s = Some (vTaskMissedYield s)"
| "kop_run (CreateTask t p) s = Some (snd (xTaskCreate t p s))"
| "kop_run (DeleteTask h) s = map_option snd (vTaskDelete h s)"
| "kop_run CleanUp s = map_option snd (prvCheckTasksWaitingTermination s)"

text \<open>What the callers guarantee: only a running task other than the idle task blocks, and for at least
  one tick; a wake-up finds a waiter; a suspended or deleted task exists and is not the idle task; a
  new control block is fresh; a task that gives back a mutex is running; the last one excludes the
  case \<open>after_timeout_alone\<close> shows to be wrong.\<close>

fun kop_pre :: "addr \<Rightarrow> kop \<Rightarrow> sched \<Rightarrow> bool" where
  "kop_pre i ResumeAll s \<longleftrightarrow> uxSchedulerSuspended s \<noteq> 0"
| "kop_pre i (DelayStep n) s \<longleftrightarrow> running_ready i s \<and> n > 0"
| "kop_pre i (PlaceOnEventList E n) s \<longleftrightarrow> running_ready i s \<and> n > 0"
| "kop_pre i (PlaceOnUnorderedEventList E v n) s \<longleftrightarrow> running_ready i s \<and> n > 0"
| "kop_pre i (PlaceOnEventListRestricted E n w) s \<longleftrightarrow> running_ready i s \<and> n > 0"
| "kop_pre i (RemoveFromEventList E) s \<longleftrightarrow> ev_items s (EventList E) \<noteq> []"
| "kop_pre i (RemoveFromUnorderedEventList t v) s \<longleftrightarrow> evContainer (tcbs s t) \<noteq> None"
| "kop_pre i (Suspend h) s \<longleftrightarrow> prvGetTCBFromHandle h s \<noteq> i \<and> stContainer (tcbs s (prvGetTCBFromHandle h s)) \<noteq> None"
| "kop_pre i (PriorityDisinherit t) s \<longleftrightarrow> (\<exists>p. stContainer (tcbs s t) = Some (Ready p))"
| "kop_pre i (PriorityDisinheritAfterTimeout t h) s \<longleftrightarrow> h < configMAX_PRIORITIES \<and>
    (timeout_lowers t h s \<longrightarrow> st_items s (Ready (prio s t)) \<noteq> [t])"
| "kop_pre i (CreateTask t p) s \<longleftrightarrow> t \<noteq> i \<and> pxCurrentTCB s \<noteq> NULL \<and>
    stContainer (tcbs s t) = None \<and> evContainer (tcbs s t) = None"
| "kop_pre i (DeleteTask h) s \<longleftrightarrow> prvGetTCBFromHandle h s \<noteq> i \<and> stContainer (tcbs s (prvGetTCBFromHandle h s)) \<noteq> None"
| "kop_pre i CleanUp s \<longleftrightarrow> unat (uxDeletedTasksWaitingCleanUp s) = length (st_items s xTasksWaitingTermination)"
| "kop_pre i _ s \<longleftrightarrow> True"

lemma tick_kernel: "kernel_ok i s \<Longrightarrow> \<exists>r s'. xTaskIncrementTick s = Some (r, s') \<and> kernel_ok i s'"
proof (cases "uxSchedulerSuspended s = 0")
  case True
  then show "kernel_ok i s \<Longrightarrow> ?thesis" using tick_ticked [of i s] ticked_D(1) by blast
qed (simp add: xTaskIncrementTick_def)

lemma resume_kernel:
  assumes k: "kernel_ok i s"
  shows "\<exists>r s'. xTaskResumeAll s = Some (r, s') \<and> kernel_ok i s'"
proof (cases "uxSchedulerSuspended s = 1 \<and> uxCurrentNumberOfTasks s > 0")
  case True
  then show ?thesis using xTaskResumeAll_spec [OF k] by blast
next
  case False
  then have "\<not> (uxSchedulerSuspended s - 1 = 0 \<and> uxCurrentNumberOfTasks s > 0)" by simp
  then have "xTaskResumeAll s = Some (False, s\<lparr>uxSchedulerSuspended := uxSchedulerSuspended s - 1\<rparr>)"
    unfolding xTaskResumeAll_def Let_def by (subst if_not_P) simp_all
  then show ?thesis using k by (intro exI [of _ False]) simp
qed

lemma create_kernel:
  assumes k: "kernel_ok i s" and t: "t \<noteq> i" "pxCurrentTCB s \<noteq> NULL" "stContainer (tcbs s t) = None" "evContainer (tcbs s t) = None"
  shows "kernel_ok i (snd (xTaskCreate t p s))"
proof (cases "t = NULL")
  case True
  then show ?thesis using k by (simp add: xTaskCreate_def)
next
  case False
  let ?s = "prvInitialiseNewTask p t s"
  let ?s1 = "?s\<lparr>uxCurrentNumberOfTasks := uxCurrentNumberOfTasks ?s + 1\<rparr>"
  have nn: "pxCurrentTCB ?s1 \<noteq> NULL" using t(2) by (simp add: prvInitialiseNewTask_def Let_def)
  note l = new_task_current_later [OF nn]
  have si: "sched_ok ?s" by (rule sched_inv_init [OF kernel_invD(1) [OF k] t(3,4)])
  have i: "sched_ok (new_task_current t ?s1)" unfolding l(1) using si by simp
  have c: "tcbs (new_task_current t ?s1) = tcbs ?s" unfolding l(2) by simp
  have n: "stContainer (tcbs ?s t) = None" by (simp add: prvInitialiseNewTask_tcbs)
  note a = add_new_task [OF i c n]
  have "kernel_ok i (prvAddNewTaskToReadyList t ?s)"
    by (rule kernel_inv_step [OF k a(1), where t = t]) (use t in \<open>simp_all add: a(2) prvInitialiseNewTask_tcbs\<close>)
  then show ?thesis using False by (simp add: xTaskCreate_def)
qed

lemma kop_preserves:
  assumes k: "kernel_ok i s" and pre: "kop_pre i op s"
  shows "\<exists>s'. kop_run op s = Some s' \<and> kernel_ok i s'"
proof (cases op)
  case Tick
  then show ?thesis using tick_kernel [OF k] by (auto simp: xPortSysTickHandler_def yieldable_fields)
next
  case PendSV
  have "kernel_ok i (s\<lparr>yield_requested := False\<rparr>)" using k by simp
  then show ?thesis using PendSV k vTaskSwitchContext_kernel by (fastforce simp: xPortPendSV_def)
next
  case SwitchContext
  then show ?thesis using vTaskSwitchContext_kernel [OF k] by auto
next
  case ResumeAll
  then show ?thesis using resume_kernel [OF k] by auto
next
  case (DelayStep n)
  then have "\<exists>s'. prvAddCurrentTaskToDelayedList n False s = Some s' \<and>
    blocked i n False (evContainer (tcbs s (pxCurrentTCB s))) (evItemValue (tcbs s (pxCurrentTCB s))) s s' \<and> elists s' = elists s"
    using pre by (intro block_kernel [OF k]) (auto simp: kernel_invD(1) [OF k])
  then show ?thesis using DelayStep by (auto simp: blocked_def Let_def)
next
  case (PlaceOnEventList E n)
  then show ?thesis using vTaskPlaceOnEventList_spec [OF k, of n E] pre by (auto simp: blocked_def Let_def)
next
  case (PlaceOnUnorderedEventList E v n)
  then show ?thesis using vTaskPlaceOnUnorderedEventList_spec [OF k, of n E v] pre by (auto simp: blocked_def Let_def)
next
  case (PlaceOnEventListRestricted E n w)
  then show ?thesis using vTaskPlaceOnEventListRestricted_spec [OF k, of n E w] pre by (auto simp: blocked_def Let_def)
next
  case (RemoveFromEventList E)
  then obtain t ts where "ev_items s (EventList E) = t # ts" using pre by (cases "ev_items s (EventList E)") auto
  from xTaskRemoveFromEventList_spec [OF k this] show ?thesis using RemoveFromEventList by auto
next
  case (RemoveFromUnorderedEventList t v)
  then obtain E where "evContainer (tcbs s t) = Some E" using pre by auto
  from vTaskRemoveFromUnorderedEventList_spec [OF k this, of v] show ?thesis using RemoveFromUnorderedEventList by auto
next
  case (PrioritySet h p)
  then show ?thesis using vTaskPrioritySet_spec [OF k, of h p] by auto
next
  case (Suspend h)
  then show ?thesis using vTaskSuspend_spec [OF k refl, of h] pre by auto
next
  case (Resume t)
  then show ?thesis using vTaskResume_spec [OF k, of t] by auto
next
  case (ResumeFromISR t)
  then show ?thesis using xTaskResumeFromISR_spec [OF k, of t] by auto
next
  case (PriorityInherit t)
  then show ?thesis using xTaskPriorityInherit_spec [OF k, of t] by auto
next
  case (PriorityDisinherit t)
  then obtain p where "stContainer (tcbs s t) = Some (Ready p)" using pre by auto
  from xTaskPriorityDisinherit_spec [OF k this] show ?thesis using PriorityDisinherit by auto
next
  case (PriorityDisinheritAfterTimeout t h)
  then show ?thesis using vTaskPriorityDisinheritAfterTimeout_spec [OF k, of h t] pre by auto
next
  case IncrementMutexHeldCount
  then show ?thesis
    using k upd_mutexes_kernel [OF k, of "pxCurrentTCB s" "\<lambda>c. uxMutexesHeld c + 1"] by (simp add: pvTaskIncrementMutexHeldCount_def)
next
  case ResetEventItemValue
  then show ?thesis using kernel_upd_item [OF k] by (simp add: uxTaskResetEventItemValue_def Let_def)
next
  case (CreateTask t p)
  then show ?thesis using create_kernel [OF k] pre by simp
next
  case (DeleteTask h)
  then show ?thesis using vTaskDelete_spec [OF k refl, of h] pre by auto
next
  case CleanUp
  obtain s' where s': "prvCheckTasksWaitingTermination s = Some (st_items s xTasksWaitingTermination, s')" "sched_ok s'"
    "\<forall>u. tcbs s' u = (if u \<in> set (st_items s xTasksWaitingTermination) then (tcbs s u)\<lparr>stContainer := None\<rparr> else tcbs s u)"
    using cleanup_spec [OF kernel_invD(1) [OF k]] pre CleanUp by auto
  have T: "u \<in> set (st_items s xTasksWaitingTermination) \<longleftrightarrow> stContainer (tcbs s u) = Some xTasksWaitingTermination" for u
    using st_okD(1) [OF sched_invD(1) [OF kernel_invD(1) [OF k]]] by simp
  have "waiting_in (stContainer (tcbs s' u))" if "evContainer (tcbs s' u) \<noteq> None" for u
  proof -
    have "waiting_in (stContainer (tcbs s u))" using that s'(3) kernel_invD(2) [OF k, of u] by (auto split: if_splits)
    then show ?thesis using s'(3) T [of u] by (auto simp: waiting_in_def)
  qed
  moreover have "\<exists>p. stContainer (tcbs s' i) = Some (Ready p)" using kernel_invD(3) [OF k] s'(3) T [of i] by auto
  ultimately have "kernel_ok i s'" using s'(2) by (simp add: kernel_inv_def)
  then show ?thesis using CleanUp s'(1) by simp
qed (use k in \<open>simp_all add: vTaskSuspendAll_def vTaskMissedYield_def\<close>)

inductive kernel_reach :: "addr \<Rightarrow> sched \<Rightarrow> sched \<Rightarrow> bool" for i where
  start: "kernel_reach i s s"
| step: "kernel_reach i s s1 \<Longrightarrow> kop_pre i op s1 \<Longrightarrow> kop_run op s1 = Some s2 \<Longrightarrow> kernel_reach i s s2"

inductive_cases kernel_reachE: "kernel_reach i s s'"

lemma kernel_reach_ok: "kernel_reach i s s' \<Longrightarrow> kernel_ok i s \<Longrightarrow> kernel_ok i s'"
proof (induction rule: kernel_reach.induct)
  case (step s s1 op s2)
  then show ?case using kop_preserves [of i s1 op] by auto
qed

section \<open>Safety\<close>



section \<open>Time\<close>

lemma remaining_yield_requested [simp]: "remaining (s\<lparr>yield_requested := y\<rparr>) t = remaining s t"
  by (simp add: remaining_def)

lemma vTaskDelay_spec:
  assumes k: "kernel_ok i s" and r: "running_ready i s" and n: "n > 0" and sus: "uxSchedulerSuspended s = 0"
    and num: "uxCurrentNumberOfTasks s > 0" and p: "uxPendedTicks s = 0" and np: "\<And>t. \<not> pending s t"
  shows "\<exists>s'. vTaskDelay n s = Some s' \<and> kernel_ok i s' \<and> uxSchedulerSuspended s' = 0 \<and> yield_requested s' \<and>
    pxCurrentTCB s' = pxCurrentTCB s \<and> xTickCount s' = xTickCount s \<and>
    (\<forall>u. u \<noteq> pxCurrentTCB s \<longrightarrow> tcbs s' u = tcbs s u) \<and> remaining s' (pxCurrentTCB s) = Some (unat n) \<and>
    prio s' (pxCurrentTCB s) = prio s (pxCurrentTCB s)"
proof -
  let ?t = "pxCurrentTCB s" and ?s0 = "vTaskSuspendAll s"
  have e0: "?s0 = s\<lparr>uxSchedulerSuspended := 1\<rparr>" using sus by (simp add: vTaskSuspendAll_def)
  have k0: "kernel_ok i ?s0" and r0: "running_ready i ?s0" using k r by (simp_all add: e0 running_ready_def)
  obtain s1 where s1: "prvAddCurrentTaskToDelayedList n False ?s0 = Some s1"
    "blocked i n False (evContainer (tcbs ?s0 (pxCurrentTCB ?s0))) (evItemValue (tcbs ?s0 (pxCurrentTCB ?s0))) ?s0 s1"
    using block_kernel [OF k0 r0 n kernel_invD(1) [OF k0], of False] by auto
  have b: "kernel_ok i s1" "globn s1 = globn ?s0" "\<forall>u. u \<noteq> ?t \<longrightarrow> tcbs s1 u = tcbs s u" "remaining s1 ?t = Some (unat n)"
    "evContainer (tcbs s1 ?t) = evContainer (tcbs s ?t)" "prio s1 ?t = prio s ?t"
    using s1(2) by (simp_all add: blocked_def Let_def e0 suspend_forever_def)
  note g = globn_sel [OF b(2)]
  have "uxSchedulerSuspended s1 = 1" "uxCurrentNumberOfTasks s1 > 0" using g num by (simp_all add: e0)
  from xTaskResumeAll_spec [OF b(1) this] obtain y s2 where s2: "xTaskResumeAll s1 = Some (y, s2)" "kernel_ok i s2"
    "uxSchedulerSuspended s2 = 0" "pxCurrentTCB s2 = pxCurrentTCB s1" "xTickCount s2 = xTickCount s1 + uxPendedTicks s1"
    "y \<longrightarrow> yield_requested s2"
    "\<forall>t. \<not> pending s1 t \<longrightarrow>
      (case remaining s1 t of None \<Rightarrow> tcbs s2 t = tcbs s1 t \<and> remaining s2 t = None
      | Some r \<Rightarrow> if r \<le> unat (uxPendedTicks s1)
          then tcbs s2 t = (tcbs s1 t)\<lparr>stContainer := Some (Ready (prio s1 t)), evContainer := None\<rparr> \<and> remaining s2 t = None
          else tcbs s2 t = tcbs s1 t \<and> remaining s2 t = Some (r - unat (uxPendedTicks s1)))"
    by blast
  have p1: "uxPendedTicks s1 = 0" using g p by (simp add: e0)
  have np1: "\<not> pending s1 t" for t
    using np [of t] b(3,5) by (cases "t = ?t") (auto simp: pending_def)
  have keep: "tcbs s2 t = tcbs s1 t \<and> remaining s2 t = remaining s1 t" for t
  proof (cases "remaining s1 t")
    case None
    then show ?thesis using s2(7) np1 [of t] by (auto dest: spec [of _ t])
  next
    case (Some r)
    have "0 < r" by (rule remaining_pos [OF kernel_invD(1) [OF b(1)] Some])
    then show ?thesis using s2(7) np1 [of t] Some p1 by (auto dest: spec [of _ t])
  qed
  let ?s' = "if \<not> y then portYIELD s2 else s2"
  have "vTaskDelay n s = Some ?s'"
    unfolding vTaskDelay_def Let_def using n s1(1) s2(1) by simp
  then show ?thesis using s2 b g p1 keep
    by (intro exI [of _ ?s']) (simp add: yieldable_fields portYIELD_def e0)
qed

text \<open>
  \<^bold>\<open>C2\<close>. Exact delays. A task that calls \<open>vTaskDelay n\<close> with \<open>0 < n\<close>, for any tick count (also when the
  wake time lies behind the wrap of the 32-bit count), requests a context switch and sleeps for \<open>n\<close>
  ticks exactly: after \<open>k\<close> further ticks it is still in a delayed list with \<open>n - k\<close> ticks left if
  \<open>k < n\<close>, and in the ready list of its priority as soon as \<open>k = n\<close>.\<close>

theorem vTaskDelay_exact:
  assumes "kernel_ok i s" and "running_ready i s" and "0 < n" and "uxSchedulerSuspended s = 0"
    and "uxCurrentNumberOfTasks s > 0" and "uxPendedTicks s = 0" and "\<forall>t. evContainer (tcbs s t) \<noteq> Some xPendingReadyList"
  shows "\<exists>s1 s2. vTaskDelay n s = Some s1 \<and> yield_requested s1 \<and> ticks k s1 = Some s2 \<and>
    xTickCount s2 = xTickCount s + of_nat k \<and>
    (if k < unat n then remaining s2 (pxCurrentTCB s) = Some (unat n - k)
     else stContainer (tcbs s2 (pxCurrentTCB s)) = Some (Ready (prio s (pxCurrentTCB s))))"
proof -
  have np: "\<not> pending s t" for t using assms(7) by (simp add: pending_def)
  obtain s1 where s1: "vTaskDelay n s = Some s1" "kernel_ok i s1" "uxSchedulerSuspended s1 = 0" "yield_requested s1"
    "xTickCount s1 = xTickCount s" "remaining s1 (pxCurrentTCB s) = Some (unat n)"
    "prio s1 (pxCurrentTCB s) = prio s (pxCurrentTCB s)"
    using vTaskDelay_spec [OF assms(1-6) np] by blast
  obtain s2 where s2: "ticks k s1 = Some s2" "ticked i k s1 s2" using ticks_ticked [OF s1(2,3)] by blast
  have "if unat n \<le> k
      then tcbs s2 (pxCurrentTCB s) = (tcbs s1 (pxCurrentTCB s))\<lparr>stContainer := Some (Ready (prio s1 (pxCurrentTCB s))), evContainer := None\<rparr>
      else remaining s2 (pxCurrentTCB s) = Some (unat n - k)"
    using s2(2) s1(6) unfolding ticked_def by (auto dest: spec [of _ "pxCurrentTCB s"] split: if_splits)
  then have "if k < unat n then remaining s2 (pxCurrentTCB s) = Some (unat n - k)
     else stContainer (tcbs s2 (pxCurrentTCB s)) = Some (Ready (prio s (pxCurrentTCB s)))"
    using s1(7) by (auto split: if_splits)
  moreover have "xTickCount s2 = xTickCount s + of_nat k" using s2(2) s1(5) by (simp add: ticked_def)
  ultimately show ?thesis using s1 s2 by blast
qed

theorem vTaskDelay_exact_witness:
  "\<exists>s1 s2. vTaskDelay 7 sample_sched = Some s1 \<and> ticks 7 s1 = Some s2 \<and> stContainer (tcbs s2 200) = Some (Ready 3)"
proof -
  have np: "\<forall>t. evContainer (tcbs sample_sched t) \<noteq> Some xPendingReadyList"
    using sample_not_pending by (simp add: pending_def)
  show ?thesis
    using vTaskDelay_exact [OF sample_sched_ok sample_running _ _ _ _ np, of 7 7] by auto
qed

text \<open>
  \<^bold>\<open>C14\<close>. No tick slips. Ticks that arrive while the scheduler is suspended are only counted; when
  \<open>xTaskResumeAll\<close> ends the suspension, the tick count advances by exactly the number pended, every task
  that interrupts made ready meanwhile is in its ready list, and every delayed task has exactly that
  many ticks less to wait or is ready.\<close>

theorem xTaskResumeAll_no_slip:
  assumes "kernel_ok i s" and "uxSchedulerSuspended s = 1" and "0 < uxCurrentNumberOfTasks s"
  shows "\<exists>y s'. xTaskResumeAll s = Some (y, s') \<and> uxSchedulerSuspended s' = 0 \<and> uxPendedTicks s' = 0 \<and>
    xTickCount s' = xTickCount s + uxPendedTicks s \<and>
    (\<forall>t. if evContainer (tcbs s t) = Some xPendingReadyList then stContainer (tcbs s' t) = Some (Ready (prio s t))
      else case remaining s t of None \<Rightarrow> tcbs s' t = tcbs s t
        | Some r \<Rightarrow> if r \<le> unat (uxPendedTicks s) then stContainer (tcbs s' t) = Some (Ready (prio s t))
            else remaining s' t = Some (r - unat (uxPendedTicks s)))"
proof -
  obtain y s' where s': "xTaskResumeAll s = Some (y, s')" "uxSchedulerSuspended s' = 0" "uxPendedTicks s' = 0"
    "xTickCount s' = xTickCount s + uxPendedTicks s"
    "\<forall>t. pending s t \<longrightarrow> tcbs s' t = (tcbs s t)\<lparr>stContainer := Some (Ready (prio s t)), evContainer := None\<rparr>"
    "\<forall>t. \<not> pending s t \<longrightarrow>
      (case remaining s t of None \<Rightarrow> tcbs s' t = tcbs s t \<and> remaining s' t = None
      | Some r \<Rightarrow> if r \<le> unat (uxPendedTicks s)
          then tcbs s' t = (tcbs s t)\<lparr>stContainer := Some (Ready (prio s t)), evContainer := None\<rparr> \<and> remaining s' t = None
          else tcbs s' t = tcbs s t \<and> remaining s' t = Some (r - unat (uxPendedTicks s)))"
    using xTaskResumeAll_spec [OF assms] by blast
  have "if evContainer (tcbs s t) = Some xPendingReadyList then stContainer (tcbs s' t) = Some (Ready (prio s t))
      else case remaining s t of None \<Rightarrow> tcbs s' t = tcbs s t
        | Some r \<Rightarrow> if r \<le> unat (uxPendedTicks s) then stContainer (tcbs s' t) = Some (Ready (prio s t))
            else remaining s' t = Some (r - unat (uxPendedTicks s))" for t
    using s'(5) [rule_format, of t] s'(6) [rule_format, of t]
    by (cases "pending s t"; cases "remaining s t") (auto simp: pending_def split: if_splits)
  then show ?thesis using s'(1-4) by blast
qed

theorem xTaskResumeAll_no_slip_witness:
  "\<exists>y s'. xTaskResumeAll (sample_sched\<lparr>uxSchedulerSuspended := 1, uxPendedTicks := 3\<rparr>) = Some (y, s') \<and>
    xTickCount s' = 13 \<and> remaining s' 300 = Some 2"
proof -
  let ?s = "sample_sched\<lparr>uxSchedulerSuspended := 1, uxPendedTicks := 3\<rparr>"
  have k: "kernel_ok 100 ?s" using sample_sched_ok by simp
  have r: "remaining ?s 300 = Some 5" by (simp add: remaining_def)
  obtain y s' where s': "xTaskResumeAll ?s = Some (y, s')" "xTickCount s' = 13"
    "if evContainer (tcbs ?s 300) = Some xPendingReadyList then stContainer (tcbs s' 300) = Some (Ready (prio ?s 300))
      else case remaining ?s 300 of None \<Rightarrow> tcbs s' 300 = tcbs ?s 300
        | Some r \<Rightarrow> if r \<le> unat (uxPendedTicks ?s) then stContainer (tcbs s' 300) = Some (Ready (prio ?s 300))
            else remaining s' 300 = Some (r - unat (uxPendedTicks ?s))"
    using xTaskResumeAll_no_slip [OF k] by auto
  then show ?thesis unfolding r by simp
qed

text \<open>
  \<open>xTaskCheckForTimeOut\<close> measures elapsed time across any wrap of the tick count. Let the time-out
  state be taken \<open>Ti\<close> ticks after the start and checked at \<open>Tn\<close>, less than \<open>2 ^ 32\<close> ticks later. Then
  the check reports a time-out exactly when the wait was not indefinite and at least the requested
  ticks passed; otherwise it leaves the exact rest, with the time-out state of the moment.\<close>

theorem xTaskCheckForTimeOut_exact:
  assumes "Ti \<le> Tn" and "Tn - Ti < 2 ^ 32"
    and "xTickCount s0 = of_nat Ti" and "xNumOfOverflows s0 = of_nat (Ti div 2 ^ 32)"
    and "xTickCount s1 = of_nat Tn" and "xNumOfOverflows s1 = of_nat (Tn div 2 ^ 32)"
    and "xTaskCheckForTimeOut s1 (vTaskSetTimeOutState s0) wait = (expired, to, rest)"
  shows "(expired \<longleftrightarrow> wait \<noteq> portMAX_DELAY \<and> unat wait \<le> Tn - Ti) \<and>
    (\<not> expired \<and> wait \<noteq> portMAX_DELAY \<longrightarrow> unat rest = unat wait - (Tn - Ti) \<and> to = vTaskSetTimeOutState s1) \<and>
    (\<not> expired \<and> wait = portMAX_DELAY \<longrightarrow> rest = wait)"
proof -
  let ?N = "4294967296 :: nat"
  have N: "(2 :: nat) ^ 32 = ?N" by simp
  have el: "unat (of_nat Tn - of_nat Ti :: u32) = Tn - Ti"
  proof -
    have "of_nat Tn - of_nat Ti = (of_nat (Tn - Ti) :: u32)" using assms(1) by (simp add: of_nat_diff)
    then show ?thesis using assms(2) by (simp add: unat_of_nat)
  qed
  have no_false: "\<not> (xNumOfOverflows s1 \<noteq> xNumOfOverflows s0 \<and> xTickCount s1 \<ge> xTickCount s0)"
  proof
    assume a: "xNumOfOverflows s1 \<noteq> xNumOfOverflows s0 \<and> xTickCount s1 \<ge> xTickCount s0"
    then have "Tn div ?N \<noteq> Ti div ?N" using assms(4,6) by auto
    moreover have "Ti mod ?N \<le> Tn mod ?N"
      using a assms(3,5) by (simp add: word_le_nat_alt unat_of_nat)
    moreover have "Ti div ?N \<le> Tn div ?N" using assms(1) by (rule div_le_mono)
    ultimately have "Ti div ?N + 1 \<le> Tn div ?N" by simp
    then have "(Ti div ?N + 1) * ?N + Ti mod ?N \<le> Tn div ?N * ?N + Tn mod ?N"
      using \<open>Ti mod ?N \<le> Tn mod ?N\<close> by (meson add_le_mono mult_le_mono1)
    then have "Ti + ?N \<le> Tn" using div_mult_mod_eq [of Ti ?N] div_mult_mod_eq [of Tn ?N] by (simp add: algebra_simps)
    then show False using assms(2) unfolding N by linarith
  qed
  show ?thesis
  proof (cases "wait = portMAX_DELAY")
    case True
    then show ?thesis using assms(7) by (auto simp: xTaskCheckForTimeOut_def Let_def)
  next
    case False
    have lt: "of_nat Tn - of_nat Ti < wait \<longleftrightarrow> Tn - Ti < unat wait" by (simp add: word_less_nat_alt el)
    have "(expired, to, rest) = (if Tn - Ti < unat wait
        then (False, vTaskInternalSetTimeOutState s1, wait - (of_nat Tn - of_nat Ti)) else (True, vTaskSetTimeOutState s0, 0))"
      using assms(7) no_false False assms(3,5) lt
      unfolding xTaskCheckForTimeOut_def Let_def vTaskSetTimeOutState_def by auto
    moreover have "unat (wait - (of_nat Tn - of_nat Ti)) = unat wait - (Tn - Ti)" if "Tn - Ti < unat wait"
      using that lt el by (simp add: unat_sub_u32 less_imp_le)
    ultimately show ?thesis using False
      by (auto simp: vTaskInternalSetTimeOutState_def vTaskSetTimeOutState_def split: if_splits)
  qed
qed

theorem xTaskCheckForTimeOut_exact_witness:
  "unat (snd (snd (xTaskCheckForTimeOut (sample_sched\<lparr>xTickCount := 3, xNumOfOverflows := 1\<rparr>)
    (vTaskSetTimeOutState (sample_sched\<lparr>xTickCount := 0xFFFFFFFB\<rparr>)) 10))) = 2"
proof -
  let ?r = "xTaskCheckForTimeOut (sample_sched\<lparr>xTickCount := 3, xNumOfOverflows := 1\<rparr>)
    (vTaskSetTimeOutState (sample_sched\<lparr>xTickCount := 0xFFFFFFFB\<rparr>)) 10"
  have "xNumOfOverflows sample_sched = 0" by (simp add: sample_sched_def sched_bss_def)
  then have "(fst ?r \<longleftrightarrow> (10 :: u32) \<noteq> portMAX_DELAY \<and> unat (10 :: u32) \<le> 4294967299 - 4294967291) \<and>
    (\<not> fst ?r \<and> (10 :: u32) \<noteq> portMAX_DELAY \<longrightarrow> unat (snd (snd ?r)) = unat (10 :: u32) - (4294967299 - 4294967291) \<and>
      fst (snd ?r) = vTaskSetTimeOutState (sample_sched\<lparr>xTickCount := 3, xNumOfOverflows := 1\<rparr>)) \<and>
    (\<not> fst ?r \<and> (10 :: u32) = portMAX_DELAY \<longrightarrow> snd (snd ?r) = 10)"
    by (intro xTaskCheckForTimeOut_exact [where Ti = 4294967291 and Tn = 4294967299]) simp_all
  then show ?thesis by auto
qed

section \<open>Selection of the running task\<close>

text \<open>The tasks \<open>n\<close> successive context switches select.\<close>

fun switches :: "nat \<Rightarrow> sched \<Rightarrow> addr list option" where
  "switches 0 s = Some []"
| "switches (Suc n) s = (case vTaskSwitchContext s of None \<Rightarrow> None
    | Some s \<Rightarrow> map_option (\<lambda>ts. pxCurrentTCB s # ts) (switches n s))"

lemma switches_nexts:
  "kernel_ok i s \<Longrightarrow> uxSchedulerSuspended s = 0 \<Longrightarrow> st_items s (Ready p) \<noteq> [] \<Longrightarrow>
    (\<And>q. st_items s (Ready q) \<noteq> [] \<Longrightarrow> q \<le> p) \<Longrightarrow>
    \<exists>ts. switches n s = Some ts \<and> map Some ts = klist_nexts n (slists s (Ready p))"
proof (induction n arbitrary: s)
  case (Suc n)
  note si = kernel_invD(1) [OF Suc.prems(1)]
  note st = st_okD(1) [OF sched_invD(1) [OF si]]
  obtain t where t: "vTaskSwitchContext s = Some
      (s\<lparr>xYieldPending := False, slists := (slists s)(Ready (prio s t) := snd (klist_next (slists s (Ready (prio s t))))),
         pxCurrentTCB := t\<rparr>)" (is "_ = Some ?s")
    "fst (klist_next (slists s (Ready (prio s t)))) = Some t" "stContainer (tcbs s t) = Some (Ready (prio s t))"
    "\<forall>u q. stContainer (tcbs s u) = Some (Ready q) \<longrightarrow> prio s u \<le> prio s t"
    using switch_spec [OF Suc.prems(1,2)] by blast
  have "t \<in> set (st_items s (Ready (prio s t)))" using t(3) st by simp
  then have "prio s t \<le> p" by (intro Suc.prems(4)) auto
  moreover have "p \<le> prio s t"
  proof -
    obtain u where "u \<in> set (st_items s (Ready p))" using Suc.prems(3) by (cases "st_items s (Ready p)") auto
    then have u: "stContainer (tcbs s u) = Some (Ready p)" using st by simp
    then show ?thesis using t(4) ready_prio [OF si u] by auto
  qed
  ultimately have p: "prio s t = p" by simp
  obtain s' where s': "vTaskSwitchContext s = Some s'" "kernel_ok i s'"
    using vTaskSwitchContext_kernel [OF Suc.prems(1)] by blast
  then have k: "kernel_ok i ?s" using t(1) by simp
  obtain w where w: "w = ?s" by blast
  have ws: "uxSchedulerSuspended w = 0" "pxCurrentTCB w = t" "slists w (Ready p) = snd (klist_next (slists s (Ready p)))"
    "\<And>q. st_items w (Ready q) = st_items s (Ready q)" using Suc.prems(2) p by (simp_all add: w)
  have "st_items w (Ready p) \<noteq> []" "\<And>q. st_items w (Ready q) \<noteq> [] \<Longrightarrow> q \<le> p"
    unfolding ws(4) by (rule Suc.prems(3), rule Suc.prems(4))
  from Suc.IH [OF k [folded w] ws(1) this] obtain ts
    where ts: "switches n w = Some ts" "map Some ts = klist_nexts n (slists w (Ready p))" by blast
  have "switches (Suc n) s = Some (t # ts)" using t(1) ts(1) ws(2) unfolding w [symmetric] by simp
  moreover have "map Some (t # ts) = klist_nexts (Suc n) (slists s (Ready p))"
    using t(2) ts(2) p unfolding ws(3) by (simp add: Let_def split_beta)
  ultimately show ?case by blast
qed simp

text \<open>
  \<^bold>\<open>C13\<close>. Highest priority first, round robin among equals. A context switch always selects a task that
  is in a ready list, and no ready task has a higher priority. Over successive switches the tasks of
  the highest ready priority are selected cyclically in the order of their list, from the walking index
  on: every one of them comes up once in each round.\<close>

theorem vTaskSwitchContext_round_robin:
  assumes "kernel_ok i s" and "uxSchedulerSuspended s = 0"
    and "st_items s (Ready p) \<noteq> []" and "\<And>q. st_items s (Ready q) \<noteq> [] \<Longrightarrow> q \<le> p" and "j < n"
  shows "\<exists>ts. switches n s = Some ts \<and> length ts = n \<and>
    ts ! j = st_items s (Ready p) ! ((kl_index (slists s (Ready p)) + j) mod length (st_items s (Ready p))) \<and>
    stContainer (tcbs s (ts ! j)) = Some (Ready p) \<and> prio s (ts ! j) = p \<and>
    (\<forall>u q. stContainer (tcbs s u) = Some (Ready q) \<longrightarrow> prio s u \<le> prio s (ts ! j))"
proof -
  note si = kernel_invD(1) [OF assms(1)]
  note st = st_okD(1) [OF sched_invD(1) [OF si]]
  obtain ts where ts: "switches n s = Some ts" "map Some ts = klist_nexts n (slists s (Ready p))"
    using switches_nexts [OF assms(1-4)] by blast
  have "length (klist_nexts n l) = n" for l :: "addr klist"
    by (induction n arbitrary: l) (simp_all add: Let_def split: prod.split)
  then have len: "length ts = n" using arg_cong [OF ts(2), of length] by simp
  have "kl_index (slists s (Ready p)) \<le> length (st_items s (Ready p))"
    using st_okD(2) [OF sched_invD(1) [OF si]] by (simp add: klist_ok_def)
  from klist_nexts_nth [OF assms(3) this assms(5)]
  have n: "ts ! j = st_items s (Ready p) ! ((kl_index (slists s (Ready p)) + j) mod length (st_items s (Ready p)))"
    using ts(2) len assms(5) by (metis nth_map option.inject)
  have "ts ! j \<in> set (st_items s (Ready p))" unfolding n using assms(3) by (intro nth_mem) simp
  then have c: "stContainer (tcbs s (ts ! j)) = Some (Ready p)" using st by simp
  have pr: "prio s (ts ! j) = p" using ready_prio [OF si c] by simp
  have "prio s u \<le> p" if "stContainer (tcbs s u) = Some (Ready q)" for u q
  proof -
    have "u \<in> set (st_items s (Ready q))" using that st by simp
    then have "q \<le> p" by (intro assms(4)) auto
    then show ?thesis using ready_prio [OF si that] by simp
  qed
  then show ?thesis using ts(1) len n c pr by (intro exI [of _ ts]) auto
qed

lemma sample_ready_empty: "st_items sample_sched (Ready q) \<noteq> [] \<Longrightarrow> q = 0 \<or> q = 3"
  by (simp add: sample_sched_def klist_empty_def split: if_splits)

theorem vTaskSwitchContext_round_robin_witness:
  "\<exists>ts. switches 2 sample_sched = Some ts \<and> ts ! 1 = 200"
proof -
  have q: "q \<le> 3" if "st_items sample_sched (Ready q) \<noteq> []" for q
    using sample_ready_empty [OF that] by auto
  show ?thesis
    using vTaskSwitchContext_round_robin [OF sample_sched_ok _ _ q, of 1 2] by auto
qed

section \<open>Waking a waiter\<close>

text \<open>An event list in the order of \<open>vTaskPlaceOnEventList\<close>: the event values are sorted and stand for the
  priorities of the waiters.\<close>

definition priority_ordered :: "sched \<Rightarrow> elist \<Rightarrow> bool" where
  "priority_ordered s E \<longleftrightarrow> klist_sorted (\<lambda>t. evItemValue (tcbs s t)) (elists s E) \<and>
    (\<forall>t\<in>set (ev_items s E). evItemValue (tcbs s t) = configMAX_PRIORITIES - prio s t)"

lemma priority_value_le: "(p :: u32) < 8 \<Longrightarrow> q < 8 \<Longrightarrow> 8 - p \<le> 8 - q \<longleftrightarrow> q \<le> p"
  by (simp add: word_le_nat_alt word_less_nat_alt unat_sub_u32) linarith

text \<open>
  Priority order of events. When a running task whose event value stands for its priority blocks on
  an event list in priority order, it goes behind all waiters of its priority or a higher one and
  before all others, and the list stays in priority order.\<close>

theorem vTaskPlaceOnEventList_priority_order:
  assumes "kernel_ok i s" and "running_ready i s" and "n > 0" and "priority_ordered s (EventList E)"
    and "evItemValue (tcbs s (pxCurrentTCB s)) = configMAX_PRIORITIES - prio s (pxCurrentTCB s)"
  shows "\<exists>s'. vTaskPlaceOnEventList E n s = Some s' \<and> priority_ordered s' (EventList E) \<and>
      ev_items s' (EventList E) =
        filter (\<lambda>u. prio s u \<ge> prio s (pxCurrentTCB s)) (ev_items s (EventList E)) @ pxCurrentTCB s #
        filter (\<lambda>u. \<not> prio s u \<ge> prio s (pxCurrentTCB s)) (ev_items s (EventList E))"
proof -
  let ?t = "pxCurrentTCB s" and ?l = "elists s (EventList E)"
  let ?val = "\<lambda>u. evItemValue (tcbs s u)"
  obtain s' where s': "vTaskPlaceOnEventList E n s = Some s'"
    "blocked i n True (Some (EventList E)) (?val ?t) s s'"
    "elists s' = (elists s)(EventList E := klist_insert ?val ?t ?l)"
    using vTaskPlaceOnEventList_spec [OF assms(1-3)] by blast
  have c: "evItemValue (tcbs s' u) = ?val u \<and> prio s' u = prio s u" for u
    using s'(2) unfolding blocked_def Let_def by (cases "u = ?t") auto
  note po = assms(4) [unfolded priority_ordered_def]
  have le: "?val u \<le> ?val ?t \<longleftrightarrow> prio s ?t \<le> prio s u" if "u \<in> set (kl_items ?l)" for u
    using po that assms(5) priority_value_le [OF prio_bounds(1) [OF assms(1)] prio_bounds(1) [OF assms(1)], of u ?t] by simp
  have "kl_items (klist_insert ?val ?t ?l) =
    filter (\<lambda>u. ?val u \<le> ?val ?t) (kl_items ?l) @ ?t # filter (\<lambda>u. \<not> ?val u \<le> ?val ?t) (kl_items ?l)"
    by (rule klist_insert_items) (use po in blast)
  moreover have "filter (\<lambda>u. ?val u \<le> ?val ?t) (kl_items ?l) = filter (\<lambda>u. prio s u \<ge> prio s ?t) (kl_items ?l)"
    "filter (\<lambda>u. \<not> ?val u \<le> ?val ?t) (kl_items ?l) = filter (\<lambda>u. \<not> prio s u \<ge> prio s ?t) (kl_items ?l)"
    by (rule filter_cong, simp, simp add: le)+
  ultimately have items: "kl_items (klist_insert ?val ?t ?l) =
    filter (\<lambda>u. prio s u \<ge> prio s ?t) (kl_items ?l) @ ?t # filter (\<lambda>u. \<not> prio s u \<ge> prio s ?t) (kl_items ?l)"
    by simp
  have "klist_sorted ?val (klist_insert ?val ?t ?l)" by (rule klist_insert_sorted) (use po in blast)
  then have "priority_ordered s' (EventList E)"
    unfolding priority_ordered_def s'(3) using c po assms(5) by simp
  then show ?thesis using s'(1,3) items by (intro exI [of _ s']) simp
qed

lemma sample_event_ordered: "priority_ordered sample_sched (EventList 500)"
  by (simp add: priority_ordered_def)

theorem vTaskPlaceOnEventList_priority_order_witness:
  "\<exists>s'. vTaskPlaceOnEventList 500 9 sample_sched = Some s' \<and> ev_items s' (EventList 500) = [300, 200]"
  using vTaskPlaceOnEventList_priority_order [OF sample_sched_ok sample_running _ sample_event_ordered, of 9] by auto

text \<open>
  Waking. \<open>xTaskRemoveFromEventList\<close> on an event list in priority order takes a waiter of the highest
  priority. It leaves its delayed list too, so that the time-out cannot fire later, and is ready (or
  pending, while the scheduler is suspended); the result and \<open>xYieldPending\<close> say whether it preempts
  the caller; the other waiters stay in order.\<close>

theorem xTaskRemoveFromEventList_wakes_highest:
  assumes "kernel_ok i s" and "priority_ordered s (EventList E)" and "ev_items s (EventList E) = t # ts"
  shows "(\<forall>u\<in>set ts. prio s u \<le> prio s t) \<and>
    (\<exists>s'. xTaskRemoveFromEventList E s = Some (prio s t > prio s (pxCurrentTCB s), s') \<and>
      ev_items s' (EventList E) = ts \<and> (prio s t > prio s (pxCurrentTCB s) \<longrightarrow> xYieldPending s') \<and>
      (if uxSchedulerSuspended s = 0
       then stContainer (tcbs s' t) = Some (Ready (prio s t)) \<and> evContainer (tcbs s' t) = None \<and> remaining s' t = None
       else evContainer (tcbs s' t) = Some xPendingReadyList) \<and>
      (\<forall>u. u \<noteq> t \<longrightarrow> tcbs s' u = tcbs s u))"
proof -
  note po = assms(2) [unfolded priority_ordered_def]
  have "prio s u \<le> prio s t" if "u \<in> set ts" for u
  proof -
    have "evItemValue (tcbs s t) \<le> evItemValue (tcbs s u)" "evItemValue (tcbs s t) = 8 - prio s t"
      "evItemValue (tcbs s u) = 8 - prio s u" using po that assms(3) by auto
    then have "8 - prio s t \<le> 8 - prio s u" by metis
    then show ?thesis using priority_value_le [OF prio_bounds(1) [OF assms(1)] prio_bounds(1) [OF assms(1)]] by blast
  qed
  moreover obtain s' where s': "xTaskRemoveFromEventList E s = Some (prio s t > prio s (pxCurrentTCB s), s')" "kernel_ok i s'"
    "globy s' = globy s" "ev_items s' (EventList E) = ts" "\<forall>u. u \<noteq> t \<longrightarrow> tcbs s' u = tcbs s u"
    "xYieldPending s' \<longleftrightarrow> xYieldPending s \<or> prio s t > prio s (pxCurrentTCB s)"
    "tcbs s' t = (if uxSchedulerSuspended s = 0 then (tcbs s t)\<lparr>stContainer := Some (Ready (prio s t)), evContainer := None\<rparr>
      else (tcbs s t)\<lparr>evContainer := Some xPendingReadyList\<rparr>)"
    using xTaskRemoveFromEventList_spec [OF assms(1,3)] by blast
  moreover have "remaining s' t = None" if "uxSchedulerSuspended s = 0"
    by (rule remaining_not_delayed [OF kernel_invD(1) [OF s'(2)]]) (use that s'(7) in simp)
  ultimately show ?thesis by (intro conjI exI [of _ s']) auto
qed

theorem xTaskRemoveFromEventList_wakes_highest_witness:
  "\<exists>s'. xTaskRemoveFromEventList 500 sample_sched = Some (True, s') \<and> stContainer (tcbs s' 300) = Some (Ready 4)"
  using xTaskRemoveFromEventList_wakes_highest [OF sample_sched_ok sample_event_ordered, of 300 "[]"] by auto

section \<open>Priority inheritance\<close>

text \<open>
  Inheritance and its end. While a waiter of higher priority runs \<open>xTaskPriorityInherit\<close> on the holder of
  a mutex, the holder gets exactly the higher of both priorities and its base priority stays; when the
  holder, running, gives its only mutex back, \<open>xTaskPriorityDisinherit\<close> returns it to its base priority,
  whatever priorities it inherited in between, and asks for a context switch exactly if it had one.\<close>

theorem inherit_disinherit_restores:
  assumes "kernel_ok i s" and "t \<noteq> NULL" and "prio s t = uxBasePriority (tcbs s t)"
    and "xTaskPriorityInherit t s = Some (r, s1)"
    and "kernel_ok i s2" and "stContainer (tcbs s2 t) = Some (Ready p)"
    and "prio s2 t = prio s1 t" and "uxBasePriority (tcbs s2 t) = uxBasePriority (tcbs s1 t)" and "uxMutexesHeld (tcbs s2 t) = 1"
  shows "prio s1 t = max (prio s t) (prio s (pxCurrentTCB s)) \<and> (r \<longleftrightarrow> prio s t < prio s (pxCurrentTCB s)) \<and>
    (\<exists>s3. xTaskPriorityDisinherit t s2 = Some (r, s3) \<and> prio s3 t = uxBasePriority (tcbs s t) \<and> uxMutexesHeld (tcbs s3 t) = 0)"
proof -
  have 1: "r \<longleftrightarrow> prio s t < prio s (pxCurrentTCB s)" "uxBasePriority (tcbs s1 t) = uxBasePriority (tcbs s t)"
    "prio s1 t = max (prio s t) (prio s (pxCurrentTCB s))"
    using xTaskPriorityInherit_spec [OF assms(1), of t] assms(2-4) by auto
  moreover obtain s3 where "xTaskPriorityDisinherit t s2 = Some (prio s2 t \<noteq> uxBasePriority (tcbs s2 t), s3)"
    "uxMutexesHeld (tcbs s3 t) = 0"
    "prio s3 t = (if prio s2 t \<noteq> uxBasePriority (tcbs s2 t) then uxBasePriority (tcbs s2 t) else prio s2 t)"
    using xTaskPriorityDisinherit_spec [OF assms(5,6)] assms(2,9) by auto
  moreover have "prio s2 t \<noteq> uxBasePriority (tcbs s2 t) \<longleftrightarrow> r"
    using 1 assms(3,7,8) by (auto simp: max_def)
  ultimately show ?thesis using assms(8) by (auto split: if_splits)
qed

text \<open>Here the waiting task 200 of priority 3 makes task 100 inherit, and 100 then gives its mutex back.\<close>

theorem inherit_disinherit_restores_witness:
  "\<exists>s1 s3. xTaskPriorityInherit 100 sample_sched = Some (True, s1) \<and> prio s1 100 = 3 \<and>
    xTaskPriorityDisinherit 100 (upd_tcb 100 (\<lambda>c. c\<lparr>uxMutexesHeld := 1\<rparr>) s1) = Some (True, s3) \<and> prio s3 100 = 0"
proof -
  obtain s1 where s1: "xTaskPriorityInherit 100 sample_sched = Some (True, s1)" "kernel_ok 100 s1"
    using xTaskPriorityInherit_spec [OF sample_sched_ok, of 100] by auto
  let ?s2 = "upd_tcb 100 (\<lambda>c. c\<lparr>uxMutexesHeld := 1\<rparr>) s1"
  have k2: "kernel_ok 100 ?s2" using upd_mutexes_kernel [OF s1(2), of 100 "\<lambda>_. 1"] by simp
  obtain p where p: "stContainer (tcbs ?s2 100) = Some (Ready p)" using kernel_invD(3) [OF k2] by blast
  have "prio s1 100 = max (prio sample_sched 100) (prio sample_sched (pxCurrentTCB sample_sched)) \<and>
    (True \<longleftrightarrow> prio sample_sched 100 < prio sample_sched (pxCurrentTCB sample_sched)) \<and>
    (\<exists>s3. xTaskPriorityDisinherit 100 ?s2 = Some (True, s3) \<and> prio s3 100 = uxBasePriority (tcbs sample_sched 100) \<and>
      uxMutexesHeld (tcbs s3 100) = 0)"
    by (rule inherit_disinherit_restores [OF sample_sched_ok _ _ s1(1) k2 p]) simp_all
  then show ?thesis using s1(1) by auto
qed


definition sample_inherited :: sched where
  "sample_inherited = upd_tcb 200 (\<lambda>c. c\<lparr>uxBasePriority := 2, uxMutexesHeld := 1\<rparr>) sample_sched"


section \<open>Periodic delays\<close>

lemma mod_once: "x < 2 * N \<Longrightarrow> x mod N = (if x < N then x else x - (N :: nat))"
  by (simp add: le_mod_geq)

lemma unat_of_nat_add_u32:
  assumes "a = x mod 4294967296" and "d < 4294967296"
  shows "unat (of_nat (x + d) :: u32) = (if a + d < 4294967296 then a + d else a + d - 4294967296)"
proof -
  have "unat (of_nat (x + d) :: u32) = (x + d) mod 4294967296" by (simp add: unat_of_nat del: of_nat_add)
  also have "\<dots> = (a + d) mod 4294967296" unfolding assms(1) by (simp add: mod_add_left_eq)
  also have "\<dots> = (if a + d < 4294967296 then a + d else a + d - 4294967296)"
    using assms by (intro mod_once) simp
  finally show ?thesis .
qed

text \<open>
  Drift-free periods. Let \<open>prev\<close> be the previous wake time and \<open>now\<close> the present, both in ticks since
  the start, less than \<open>2 ^ 32\<close> apart. \<open>vTaskDelayUntil\<close> decides to block exactly when the next wake time
  \<open>prev + inc\<close> lies in the future, although it only compares wrapped 32-bit counts, and the number of
  ticks it then waits ends exactly at \<open>prev + inc\<close>.\<close>

theorem delay_until_exact:
  assumes "prev \<le> now" and "now - prev < 2 ^ 32" and "inc < 2 ^ 32"
  shows "(delay_until_should (of_nat now) (of_nat prev) (of_nat prev + of_nat inc) \<longleftrightarrow> now < prev + inc) \<and>
    (now < prev + inc \<longrightarrow> unat (of_nat prev + of_nat inc - of_nat now :: u32) = prev + inc - now)"
proof
  let ?N = "4294967296 :: nat"
  define d where "d = now - prev"
  define a where "a = prev mod ?N"
  have d: "now = prev + d" "d < ?N" and i: "inc < ?N" using assms by (simp_all add: d_def)
  have a: "a < ?N" by (simp add: a_def)
  let ?now = "of_nat now :: u32" and ?prev = "of_nat prev :: u32" and ?wake = "of_nat prev + of_nat inc :: u32"
  have w: "?wake = of_nat (prev + inc)" by simp
  have un: "unat ?now = (if a + d < ?N then a + d else a + d - ?N)"
    unfolding d(1) by (rule unat_of_nat_add_u32 [OF a_def d(2)])
  have uw: "unat ?wake = (if a + inc < ?N then a + inc else a + inc - ?N)"
    unfolding w by (rule unat_of_nat_add_u32 [OF a_def i])
  have up: "unat ?prev = a" by (simp add: unat_of_nat a_def)
  have lt: "delay_until_should ?now ?prev ?wake \<longleftrightarrow> (if unat ?now < unat ?prev
     then unat ?wake < unat ?prev \<and> unat ?wake > unat ?now else unat ?wake < unat ?prev \<or> unat ?wake > unat ?now)"
    unfolding delay_until_should_def word_less_nat_alt ..
  show "delay_until_should ?now ?prev ?wake \<longleftrightarrow> now < prev + inc"
    unfolding lt un uw up using d i a by (cases "a + d < ?N"; cases "a + inc < ?N") auto
  show "now < prev + inc \<longrightarrow> unat (?wake - ?now) = prev + inc - now"
  proof
    assume l: "now < prev + inc"
    then have "?wake - ?now = of_nat (prev + inc - now)" by (simp add: of_nat_diff)
    moreover have "prev + inc - now < ?N" using l d(1) i by linarith
    ultimately show "unat (?wake - ?now) = prev + inc - now" by (simp add: unat_of_nat)
  qed
qed

theorem delay_until_exact_witness:
  "delay_until_should 3 0xFFFFFFF0 84"
proof -
  have e: "of_nat 4294967299 = (3 :: u32)" "of_nat 4294967280 + of_nat 100 = (84 :: u32)" "of_nat 4294967280 = (0xFFFFFFF0 :: u32)"
    by (simp_all add: word_unat_eq_iff)
  have "delay_until_should (of_nat 4294967299) (of_nat 4294967280) (of_nat 4294967280 + of_nat 100) \<longleftrightarrow>
      (4294967299 :: nat) < 4294967280 + 100"
    by (rule conjunct1 [OF delay_until_exact]) simp_all
  then show ?thesis unfolding e(2) unfolding e(1,3) by simp
qed

end
