(* ===== verification/Server.thy ===== *)
theory Server imports RtuFrame TaskTrigger begin

text \<open>
  The HMI server: \<open>tcp_thread\<close> and \<open>prvNetconnError\<close> of \<open>com/src/rtu_com_hmi.c\<close> on top of the
  parts of lwIP it calls, \<open>netbuf_data\<close>, \<open>netbuf_next\<close> and \<open>netbuf_first\<close> of
  \<open>lwip/src/api/netbuf.c\<close> and \<open>netconn_recv\<close>, \<open>netconn_recv_data\<close> and \<open>netconn_write_partly\<close> of
  \<open>lwip/src/api/api_lib.c\<close>. What happens outside the thread is an input: whether the pool has a
  netbuf, what the mailbox delivers, the error an abort leaves in the connection, the result of
  the stack's \<open>do_write\<close> and the motion of the axes between two frames.

  The events of a run are recorded in order: initialisations of the axes, posts, writes on the
  connection, the error texts, and the closing and deletion of the connection.

  The lemmas reduce a session to a reference specification over the list of received frames; the
  properties say that every session that ends leaves a stop for every axis behind, what is
  posted and answered before that, and what the static flag byte does to the next connection.
\<close>

section \<open>Errors\<close>

type_synonym err_t = int

abbreviation (input) "NC_OK \<equiv> (0::err_t)"
abbreviation (input) "NC_MEM \<equiv> (-1::err_t)"
abbreviation (input) "NC_BUF \<equiv> (-2::err_t)"
abbreviation (input) "NC_TIMEOUT \<equiv> (-3::err_t)"
abbreviation (input) "NC_VAL \<equiv> (-6::err_t)"
abbreviation (input) "NC_ISCONN \<equiv> (-9::err_t)"
abbreviation (input) "NC_CLSD \<equiv> (-12::err_t)"
abbreviation (input) "NC_CONN \<equiv> (-13::err_t)"
abbreviation (input) "NC_ARG \<equiv> (-14::err_t)"

definition ERR_IS_FATAL :: "err_t \<Rightarrow> bool" where
  "ERR_IS_FATAL e \<longleftrightarrow> e < NC_ISCONN"

text \<open>The text \<open>prvNetconnError\<close> prints at level \<open>Error\<close>, if any.\<close>

definition prvNetconnError :: "err_t \<Rightarrow> string option" where
  "prvNetconnError err =
    (if err = NC_TIMEOUT then Some ''ENET - RecvTimeOut - Se detienen procesos!!''
     else if err = NC_ARG then
       Some ''ENET - Argumento de funcion -netconn_recv- ilegal - Se detienen procesos!!''
     else if err = NC_CONN then Some ''Problemas de conexion - Se detienen procesos!!''
     else if err = NC_CLSD then Some ''Closed Connection - Se detienen procesos!!''
     else if err = NC_BUF then Some ''Error al generar Buffer - Se detienen procesos!!''
     else None)"

section \<open>Network buffers\<close>

text \<open>A chain of pbufs is the list of their payloads, \<open>NULL\<close> the empty one. A netbuf holds the
  chain and the pointer into it, which is a suffix of the chain.\<close>

type_synonym pbuf = "u8 list list"

record netbuf =
  nb_p :: pbuf
  nb_ptr :: pbuf

definition netbuf_data :: "netbuf \<Rightarrow> (err_t \<times> u8 list option)" where
  "netbuf_data buf =
    (case nb_ptr buf of
       [] \<Rightarrow> (NC_BUF, None)
     | payload # _ \<Rightarrow> (NC_OK, Some payload))"

text \<open>\<open>buf->ptr->next\<close> has no value when \<open>buf->ptr\<close> is \<open>NULL\<close>.\<close>

definition netbuf_next :: "netbuf \<Rightarrow> (int \<times> netbuf) option" where
  "netbuf_next buf =
    (case nb_ptr buf of
       [] \<Rightarrow> None
     | _ # nxt \<Rightarrow>
        if nxt = [] then Some (-1, buf)
        else
          (let buf = buf\<lparr>nb_ptr := nxt\<rparr>
           in if tl nxt = [] then Some (1, buf) else Some (0, buf)))"

definition netbuf_first :: "netbuf \<Rightarrow> netbuf" where
  "netbuf_first buf = buf\<lparr>nb_ptr := nb_p buf\<rparr>"

section \<open>Connections\<close>

record netconn =
  last_err :: err_t
  recvmbox_valid :: bool
  nonblocking :: bool

definition NETCONN_SET_SAFE_ERR :: "err_t \<Rightarrow> netconn \<Rightarrow> netconn" where
  "NETCONN_SET_SAFE_ERR err conn =
    (if \<not> ERR_IS_FATAL (last_err conn) then conn\<lparr>last_err := err\<rparr> else conn)"

text \<open>What \<open>sys_arch_mbox_fetch\<close> delivers: \<open>None\<close> is \<open>SYS_ARCH_TIMEOUT\<close>, the empty chain the
  \<open>NULL\<close> message of a closed connection.\<close>

definition netconn_recv_data :: "pbuf option \<Rightarrow> netconn \<Rightarrow> err_t \<times> pbuf \<times> netconn" where
  "netconn_recv_data fetched conn =
    (if \<not> recvmbox_valid conn then (NC_CONN, [], conn)
     else if ERR_IS_FATAL (last_err conn) then (last_err conn, [], conn)
     else
       (case fetched of
          None \<Rightarrow> (NC_TIMEOUT, [], NETCONN_SET_SAFE_ERR NC_TIMEOUT conn)
        | Some buf \<Rightarrow>
           if buf = [] then (NC_CLSD, [], NETCONN_SET_SAFE_ERR NC_CLSD conn)
           else (NC_OK, buf, conn)))"

definition netconn_recv :: "bool \<Rightarrow> pbuf option \<Rightarrow> netconn \<Rightarrow> err_t \<times> netbuf option \<times> netconn" where
  "netconn_recv memp_ok fetched conn =
    (if \<not> recvmbox_valid conn then (NC_CONN, None, conn)
     else if \<not> memp_ok then (NC_MEM, None, NETCONN_SET_SAFE_ERR NC_MEM conn)
     else
       (let (err, p, conn) = netconn_recv_data fetched conn
        in if err \<noteq> NC_OK then (err, None, conn)
           else (NC_OK, Some \<lparr>nb_p = p, nb_ptr = p\<rparr>, conn)))"

text \<open>\<open>netconn_write\<close> is \<open>netconn_write_partly\<close> with no place for the number of bytes written;
  \<open>do_write\<close> is the result of the request to the stack.\<close>

definition netconn_write_partly :: "err_t \<Rightarrow> nat \<Rightarrow> bool \<Rightarrow> bool \<Rightarrow> netconn \<Rightarrow> err_t \<times> netconn" where
  "netconn_write_partly do_write len DONTBLOCK bytes_written conn =
    (if len = 0 then (NC_OK, conn)
     else
       (let dontblock = (nonblocking conn \<or> DONTBLOCK)
        in if dontblock \<and> \<not> bytes_written then (NC_VAL, conn)
           else (let err = do_write in (err, NETCONN_SET_SAFE_ERR err conn))))"

section \<open>Server\<close>

datatype event = EvInit | EvPost post | EvWrite "u8 list" | EvPrint string
  | EvNetbufDelete | EvClose | EvDelete

text \<open>What one \<open>netconn_recv\<close> meets: an asynchronous abort, the pool, the mailbox; and for the
  \<open>i\<close>th part of the netbuf what the axes did since the last frame and what the stack answers.\<close>

record input =
  in_abort :: "err_t option"
  in_memp :: bool
  in_fetch :: "pbuf option"
  in_drive :: "nat \<Rightarrow> axes \<Rightarrow> axes"
  in_write :: "nat \<Rightarrow> err_t"

record server =
  prevFlagByte :: u8
  axs :: axes
  newconn :: netconn
  s_HMICmd :: HMICmd_t
  s_RTUDataTx :: RTUData_t
  s_status :: u16
  cycleCount :: u32
  events :: "event list"

definition emit :: "event list \<Rightarrow> server \<Rightarrow> server" where
  "emit es s = s\<lparr>events := events s @ es\<rparr>"

definition print_error :: "err_t \<Rightarrow> server \<Rightarrow> server" where
  "print_error err = emit (case prvNetconnError err of None \<Rightarrow> [] | Some t \<Rightarrow> [EvPrint t])"

text \<open>One pass through the body of the inner loop; the flag tells that it ended in a \<open>break\<close>.\<close>

definition tcp_cycle :: "input \<Rightarrow> nat \<Rightarrow> netbuf \<Rightarrow> server \<Rightarrow> bool \<times> server" where
  "tcp_cycle inp i buf s =
    (let s = s\<lparr>cycleCount := cycleCount s + 1\<rparr> in
     case netbuf_data buf of
       (_, Some payload) \<Rightarrow>
         (let (st, cmd) = NetValuesReceivedFromHMI (HMIData_of_payload payload) (s_HMICmd s)
                            (of_nat (length payload));
              s = s\<lparr>s_status := st, s_HMICmd := cmd\<rparr>
          in if st \<noteq> ERR_OK then (True, s)
             else
               (let (posts, f) = TaskTriggerMsg (s_HMICmd s) (prevFlagByte s);
                    s = emit (map EvPost posts) (s\<lparr>prevFlagByte := f\<rparr>);
                    (a, tx) = NetValuesToSendFromRTU (s_status s) (in_drive inp i (axs s)) (s_RTUDataTx s);
                    s = s\<lparr>axs := a, s_RTUDataTx := tx\<rparr>;
                    (err_send, conn) = netconn_write_partly (in_write inp i) (length (t_buffer tx))
                                         False False (newconn s);
                    s = s\<lparr>newconn := conn\<rparr>
                in if err_send \<noteq> NC_OK
                   then (True, print_error err_send s\<lparr>s_status := ERROR_NETCONN\<rparr>)
                   else (False, emit [EvWrite (t_buffer tx)] s)))
     | (err_dataBuf, None) \<Rightarrow> (True, print_error err_dataBuf s\<lparr>s_status := ERROR_NETCONN\<rparr>))"

text \<open>The inner \<open>do ... while (netbuf_next(buf) >= 0)\<close>; \<open>None\<close> when \<open>netbuf_next\<close> meets a null
  pointer.\<close>

function tcp_parts :: "input \<Rightarrow> nat \<Rightarrow> netbuf \<Rightarrow> server \<Rightarrow> server option" where
  "tcp_parts inp i buf s =
    (let (brk, s) = tcp_cycle inp i buf s
     in if brk then Some s
        else
          (case netbuf_next buf of
             None \<Rightarrow> None
           | Some (r, buf) \<Rightarrow> if r \<ge> 0 then tcp_parts inp (Suc i) buf s else Some s))"
  by pat_completeness auto

termination
  by (relation "measure (\<lambda>(inp, i, buf, s). length (nb_ptr buf))")
    (auto simp: netbuf_next_def Let_def split: list.splits if_splits)

text \<open>After the loop over the received buffers.\<close>

definition tcp_close :: "err_t \<Rightarrow> server \<Rightarrow> server" where
  "tcp_close err_recv s =
    (let s = (if err_recv \<noteq> NC_OK then print_error err_recv s else s);
         s = emit (map EvPost prvEmergencyStop) s
     in emit [EvClose, EvDelete] s)"

text \<open>The outer loop over an input for each \<open>netconn_recv\<close>. When the inputs run out the thread
  waits in \<open>netconn_recv\<close> and the flag is \<open>False\<close>. \<open>iServerStatus && 0x80\<close> is a logical and: any
  status other than 0 leaves the loop.\<close>

fun tcp_session :: "input list \<Rightarrow> server \<Rightarrow> (bool \<times> server) option" where
  "tcp_session [] s = Some (False, s)"
| "tcp_session (inp # inps) s =
    (let s = (case in_abort inp of None \<Rightarrow> s | Some e \<Rightarrow> s\<lparr>newconn := (newconn s)\<lparr>last_err := e\<rparr>\<rparr>);
         (err_recv, nb, conn) = netconn_recv (in_memp inp) (in_fetch inp) (newconn s);
         s = s\<lparr>newconn := conn\<rparr>
     in case nb of
          None \<Rightarrow> Some (True, tcp_close err_recv s)
        | Some buf \<Rightarrow>
            (case tcp_parts inp 0 buf s of
               None \<Rightarrow> None
             | Some s \<Rightarrow>
                 (let s = emit [EvNetbufDelete] s
                  in if s_status s \<noteq> 0 \<and> (0x80 :: nat) \<noteq> 0 then Some (True, tcp_close err_recv s)
                     else tcp_session inps s)))"

text \<open>What follows an accepted connection: the locals are set and the axes initialised. The
  uninitialised locals keep whatever the stack holds.\<close>

definition tcp_accept :: "netconn \<Rightarrow> server \<Rightarrow> server" where
  "tcp_accept conn s =
    emit [EvInit, EvInit, EvInit] (s\<lparr>newconn := conn, s_status := 0, cycleCount := 0\<rparr>)"

definition netconn_fresh :: netconn where
  "netconn_fresh = \<lparr>last_err = NC_OK, recvmbox_valid = True, nonblocking = False\<rparr>"

text \<open>The loop over the connections: the result of each \<open>netconn_accept\<close> and the inputs of its
  session. A session that waits for input keeps the thread.\<close>

fun tcp_thread :: "(err_t \<times> input list) list \<Rightarrow> server \<Rightarrow> server option" where
  "tcp_thread [] s = Some s"
| "tcp_thread ((err_accept, inps) # rest) s =
    (if err_accept = NC_OK
     then (case tcp_session inps (tcp_accept netconn_fresh s) of
             None \<Rightarrow> None
           | Some (ended, s) \<Rightarrow> if ended then tcp_thread rest s else Some s)
     else tcp_thread rest s)"

section \<open>Reference specification\<close>

text \<open>The command of a frame, when the grammar accepts it.\<close>

definition hmi_cmd :: "u8 list \<Rightarrow> HMICmd_t option" where
  "hmi_cmd p = (if hmi_spec_status p = ERR_OK then hmi_grammar (HMIData_of_payload p) else None)"

text \<open>Frames with the success of their answers: the posts, the number of answers, the flag byte
  left behind and whether the sequence broke off.\<close>

fun frames_spec :: "u8 \<Rightarrow> (u8 list \<times> bool) list \<Rightarrow> post list \<times> nat \<times> u8 \<times> bool" where
  "frames_spec f [] = ([], 0, f, False)"
| "frames_spec f ((p, w) # ps) =
    (case hmi_cmd p of
       None \<Rightarrow> ([], 0, f, True)
     | Some c \<Rightarrow>
        (let (posts, f') = TaskTriggerMsg c f
         in if \<not> w then (posts, 0, f', True)
            else (let (posts', n, f'', brk) = frames_spec f' ps in (posts @ posts', Suc n, f'', brk))))"

text \<open>The chain an input hands to the server, \<open>None\<close> when the receive fails.\<close>

definition received :: "input \<Rightarrow> pbuf option" where
  "received inp =
    (if in_memp inp \<and> (\<forall>e. in_abort inp = Some e \<longrightarrow> \<not> ERR_IS_FATAL e)
     then (case in_fetch inp of Some (p # ps) \<Rightarrow> Some (p # ps) | _ \<Rightarrow> None)
     else None)"

definition answered :: "input \<Rightarrow> pbuf \<Rightarrow> (u8 list \<times> bool) list" where
  "answered inp parts = map (\<lambda>i. (parts ! i, in_write inp i = NC_OK)) [0..<length parts]"

fun session_spec :: "u8 \<Rightarrow> input list \<Rightarrow> post list \<times> nat \<times> u8 \<times> bool" where
  "session_spec f [] = ([], 0, f, False)"
| "session_spec f (inp # inps) =
    (case received inp of
       None \<Rightarrow> ([], 0, f, True)
     | Some parts \<Rightarrow>
        (let (posts, n, f', brk) = frames_spec f (answered inp parts)
         in if brk then (posts, n, f', True)
            else (let (posts', n', f'', brk') = session_spec f' inps in (posts @ posts', n + n', f'', brk'))))"

text \<open>Observations on the recorded events.\<close>

fun posts_of :: "event list \<Rightarrow> post list" where
  "posts_of [] = []"
| "posts_of (e # es) = (case e of EvPost p \<Rightarrow> p # posts_of es | _ \<Rightarrow> posts_of es)"

fun writes_of :: "event list \<Rightarrow> u8 list list" where
  "writes_of [] = []"
| "writes_of (e # es) = (case e of EvWrite b \<Rightarrow> b # writes_of es | _ \<Rightarrow> writes_of es)"

text \<open>The lengths of a pbuf are 16 bits wide.\<close>

definition pbufs_ok :: "input list \<Rightarrow> bool" where
  "pbufs_ok inps \<longleftrightarrow> (\<forall>inp \<in> set inps. \<forall>ps. in_fetch inp = Some ps \<longrightarrow> (\<forall>p \<in> set ps. length p < 65536))"

definition status_zero :: "u8 list \<Rightarrow> bool" where
  "status_zero b \<longleftrightarrow> (\<exists>a p l. split_blank [] (cstr_text b) = tx_spec 0 a p l)"

section \<open>Lemmas\<close>

subsection \<open>Observations\<close>

lemma posts_of_append [simp]: "posts_of (es @ es') = posts_of es @ posts_of es'"
  by (induction es) (auto split: event.splits)

lemma writes_of_append [simp]: "writes_of (es @ es') = writes_of es @ writes_of es'"
  by (induction es) (auto split: event.splits)

lemma posts_of_map [simp]: "posts_of (map EvPost ps) = ps"
  by (induction ps) auto

lemma writes_of_map [simp]: "writes_of (map EvPost ps) = []"
  by (induction ps) auto

lemma emit_sel [simp]:
  "events (emit es s) = events s @ es" "prevFlagByte (emit es s) = prevFlagByte s"
  "newconn (emit es s) = newconn s" "s_status (emit es s) = s_status s"
  "s_RTUDataTx (emit es s) = s_RTUDataTx s" "axs (emit es s) = axs s"
  by (simp_all add: emit_def)

lemma print_error_sel [simp]:
  "prevFlagByte (print_error e s) = prevFlagByte s" "newconn (print_error e s) = newconn s"
  "s_status (print_error e s) = s_status s" "s_RTUDataTx (print_error e s) = s_RTUDataTx s"
  "posts_of (events (print_error e s)) = posts_of (events s)"
  "writes_of (events (print_error e s)) = writes_of (events s)"
  by (simp_all add: print_error_def split: option.splits)

subsection \<open>Answers\<close>

lemma answer_text:
  assumes "rtu_wf t" and "NetValuesToSendFromRTU st s t = (s', t')"
  shows "split_blank [] (cstr_text (t_buffer t')) = tx_spec st (arm s') (pole s') (lift_st s')"
proof -
  let ?f = "tx_spec st (arm s') (pole s') (lift_st s')"
  have "length (t_buffer t) = 100" using assms(1) by (simp add: rtu_wf_def)
  then have "t_buffer t' = cstr (tx_format ?f) @ drop (Suc (length (tx_format ?f))) (t_buffer t)"
    using t_buffer_NetValuesToSend [OF assms(2)] tx_fields_NetValuesToSend [OF assms(2)]
      tx_spec_length [of st "arm s'" "pole s'" "lift_st s'"]
      snprintf_fits(1) [of "tx_format ?f" 100 "t_buffer t"] by simp
  moreover have "CHR 0x00 \<notin> set (tx_format ?f)"
    by (rule tx_format_clean) (blast dest: tx_spec_clean)
  ultimately show ?thesis
    using split_blank_tx_format [of ?f] by (auto dest: tx_spec_clean)
qed

text \<open>A connection on which the thread can go on: its buffer is in place, its last error is not
  fatal and it blocks.\<close>

definition conn_live :: "netconn \<Rightarrow> bool" where
  "conn_live c \<longleftrightarrow> recvmbox_valid c \<and> \<not> ERR_IS_FATAL (last_err c) \<and> \<not> nonblocking c"

text \<open>One frame: what the body of the loop does to the observable state.\<close>

lemma tcp_cycle_spec:
  assumes "nb_ptr buf = p # ps" and "length p < 65536" and "conn_live (newconn s)" and "rtu_wf (s_RTUDataTx s)"
    and "tcp_cycle inp i buf s = (brk, s')"
  shows "rtu_wf (s_RTUDataTx s') \<and> (brk \<longrightarrow> s_status s' \<noteq> 0) \<and> (\<not> brk \<longrightarrow> s_status s' = 0 \<and> conn_live (newconn s')) \<and>
    (case frames_spec (prevFlagByte s) [(p, in_write inp i = NC_OK)] of (posts, n, f, b) \<Rightarrow>
       b = brk \<and> f = prevFlagByte s' \<and> posts_of (events s') = posts_of (events s) @ posts \<and>
       (\<exists>bs. writes_of (events s') = writes_of (events s) @ bs \<and> length bs = n \<and> (\<forall>b \<in> set bs. status_zero b)))"
proof -
  obtain st c where r: "NetValuesReceivedFromHMI (HMIData_of_payload p) (s_HMICmd s) (of_nat (length p)) = (st, c)"
    by force
  note g = NetValuesReceivedFromHMI_grammar [OF assms(2), of "s_HMICmd s", unfolded r fst_conv snd_conv]
  show ?thesis
  proof (cases "st = ERR_OK")
    case False
    then show ?thesis using assms g r by (auto simp: tcp_cycle_def netbuf_data_def hmi_cmd_def)
  next
    case True
    obtain posts f where t: "TaskTriggerMsg c (prevFlagByte s) = (posts, f)" by force
    obtain a tx where x: "NetValuesToSendFromRTU 0 (in_drive inp i (axs s)) (s_RTUDataTx s) = (a, tx)" by force
    have wf: "rtu_wf tx" by (rule rtu_wf_NetValuesToSend [OF x assms(4)])
    then have len: "length (t_buffer tx) = 100" by (simp add: rtu_wf_def)
    have z: "status_zero (t_buffer tx)"
      using answer_text [OF assms(4) x] unfolding status_zero_def by blast
    have c: "hmi_cmd p = Some c" using True g by (simp add: hmi_cmd_def)
    have w: "netconn_write_partly (in_write inp i) (length (t_buffer tx)) False False (newconn s)
        = (in_write inp i, NETCONN_SET_SAFE_ERR (in_write inp i) (newconn s))"
      using assms(3) len by (simp add: netconn_write_partly_def conn_live_def Let_def)
    have l: "conn_live (NETCONN_SET_SAFE_ERR NC_OK (newconn s))"
      using assms(3) by (simp add: conn_live_def NETCONN_SET_SAFE_ERR_def ERR_IS_FATAL_def)
    have e: "tcp_cycle inp i buf s = (brk, s')" by (rule assms(5))
    show ?thesis
    proof (cases "in_write inp i = NC_OK")
      case True
      then show ?thesis using e w l wf z c t x r \<open>st = ERR_OK\<close> assms(1)
        by (auto simp: tcp_cycle_def netbuf_data_def Let_def)
    next
      case False
      then show ?thesis using e w wf z c t x r \<open>st = ERR_OK\<close> assms(1)
        by (auto simp: tcp_cycle_def netbuf_data_def Let_def)
    qed
  qed
qed

lemma frames_spec_step:
  assumes "frames_spec f [x] = (posts, n, f', brk)"
  shows "frames_spec f (x # xs) =
    (if brk then (posts, n, f', True)
     else (case frames_spec f' xs of (posts', n', f'', brk') \<Rightarrow> (posts @ posts', n + n', f'', brk')))"
  using assms by (cases x) (auto simp: Let_def split: option.splits prod.splits if_splits)

definition answered_from :: "input \<Rightarrow> nat \<Rightarrow> pbuf \<Rightarrow> (u8 list \<times> bool) list" where
  "answered_from inp i qs = map (\<lambda>j. (qs ! j, in_write inp (i + j) = NC_OK)) [0..<length qs]"

lemma answered_from_Cons:
  "answered_from inp i (q # qs) = (q, in_write inp i = NC_OK) # answered_from inp (Suc i) qs"
  by (simp add: answered_from_def upt_conv_Cons map_Suc_upt [symmetric] del: upt_Suc)

lemma answered_eq: "answered inp qs = answered_from inp 0 qs"
  by (simp add: answered_def answered_from_def)

lemma tcp_parts_step:
  assumes "tcp_cycle inp i buf s = (brk, t)"
  shows "tcp_parts inp i buf s =
    (if brk then Some t
     else (case netbuf_next buf of
             None \<Rightarrow> None
           | Some (r, buf) \<Rightarrow> if r \<ge> 0 then tcp_parts inp (Suc i) buf t else Some t))"
  using assms by simp

declare frames_spec.simps [simp del] tcp_parts.simps [simp del] tcp_session.simps(2) [simp del]

text \<open>What a run from \<open>s\<close> to \<open>s'\<close> over frames with outcome \<open>r\<close> shows.\<close>

definition shows_run :: "server \<Rightarrow> server \<Rightarrow> post list \<times> nat \<times> u8 \<times> bool \<Rightarrow> bool" where
  "shows_run s s' r \<longleftrightarrow>
     (case r of (posts, n, f, b) \<Rightarrow>
        f = prevFlagByte s' \<and> posts_of (events s') = posts_of (events s) @ posts \<and>
        (\<exists>bs. writes_of (events s') = writes_of (events s) @ bs \<and> length bs = n \<and> (\<forall>b \<in> set bs. status_zero b)))"

lemma shows_run_trans:
  assumes "shows_run s t (ps, n, f, b)" and "shows_run t u (ps', n', f', b')"
  shows "shows_run s u (ps @ ps', n + n', f', b'')"
proof -
  from assms obtain bs bs' where "writes_of (events t) = writes_of (events s) @ bs" "length bs = n"
    "\<forall>b \<in> set bs. status_zero b" "writes_of (events u) = writes_of (events t) @ bs'" "length bs' = n'"
    "\<forall>b \<in> set bs'. status_zero b"
    by (auto simp: shows_run_def)
  with assms show ?thesis
    by (auto simp: shows_run_def intro: exI [of _ "bs @ bs'"])
qed

definition server_live :: "server \<Rightarrow> bool" where
  "server_live s \<longleftrightarrow> conn_live (newconn s) \<and> rtu_wf (s_RTUDataTx s)"

lemma tcp_parts_spec:
  assumes "nb_ptr buf = q # qs" and "\<forall>p \<in> set (q # qs). length p < 65536" and "server_live s"
  shows "\<exists>s' r. tcp_parts inp i buf s = Some s' \<and> frames_spec (prevFlagByte s) (answered_from inp i (q # qs)) = r \<and>
     shows_run s s' r \<and> rtu_wf (s_RTUDataTx s') \<and> (snd (snd (snd r)) \<longleftrightarrow> s_status s' \<noteq> 0) \<and>
     (s_status s' = 0 \<longrightarrow> server_live s')"
  using assms
proof (induction qs arbitrary: q buf s i)
  case Nil
  obtain brk s' where e: "tcp_cycle inp i buf s = (brk, s')" by force
  have b: "nb_ptr buf = [q]" "length q < 65536" "conn_live (newconn s)" "rtu_wf (s_RTUDataTx s)"
    using Nil by (simp_all add: server_live_def)
  note c = tcp_cycle_spec [OF b e]
  have "tcp_parts inp i buf s = Some s'"
    unfolding tcp_parts_step [OF e] using b(1) by (simp add: netbuf_next_def)
  moreover obtain ps n f b where r: "frames_spec (prevFlagByte s) [(q, in_write inp i = NC_OK)] = (ps, n, f, b)"
    by (metis prod_cases4)
  moreover have "frames_spec (prevFlagByte s) (answered_from inp i [q]) = (ps, n, f, b)"
    using r by (simp add: answered_from_def)
  moreover have "shows_run s s' (ps, n, f, b)" "b = brk"
    using c unfolding r by (auto simp: shows_run_def)
  ultimately show ?case
    using c by (auto simp: server_live_def)
next
  case (Cons q' qs)
  obtain brk t where e: "tcp_cycle inp i buf s = (brk, t)" by force
  have b: "nb_ptr buf = q # q' # qs" "length q < 65536" "conn_live (newconn s)" "rtu_wf (s_RTUDataTx s)"
    using Cons.prems by (simp_all add: server_live_def)
  obtain ps n f b where r: "frames_spec (prevFlagByte s) [(q, in_write inp i = NC_OK)] = (ps, n, f, b)"
    by (metis prod_cases4)
  have c: "rtu_wf (s_RTUDataTx t)" "brk \<longrightarrow> s_status t \<noteq> 0" "\<not> brk \<longrightarrow> s_status t = 0 \<and> conn_live (newconn t)"
    "b = brk" "f = prevFlagByte t" "shows_run s t (ps, n, f, b)"
    using tcp_cycle_spec [OF b e] unfolding r by (auto simp: shows_run_def)
  show ?case
  proof (cases brk)
    case True
    have "tcp_parts inp i buf s = Some t" unfolding tcp_parts_step [OF e] using True by simp
    moreover have "frames_spec (prevFlagByte s) (answered_from inp i (q # q' # qs)) = (ps, n, f, True)"
      unfolding answered_from_Cons [of inp i q] frames_spec_step [OF r]
      using True c(4) by simp
    moreover have "shows_run s t (ps, n, f, True)" using c(6) by (simp add: shows_run_def)
    ultimately show ?thesis using c True by auto
  next
    case False
    define nb where "nb = buf\<lparr>nb_ptr := q' # qs\<rparr>"
    have nx: "\<exists>r \<ge> 0. netbuf_next buf = Some (r, nb)"
      using b(1) by (simp add: netbuf_next_def nb_def Let_def)
    have "tcp_parts inp i buf s = tcp_parts inp (Suc i) nb t"
      unfolding tcp_parts_step [OF e] using False nx by auto
    moreover have nb: "nb_ptr nb = q' # qs" and live: "server_live t" and len: "\<forall>p \<in> set (q' # qs). length p < 65536"
      using Cons.prems c(1,3) False by (simp_all add: nb_def server_live_def)
    obtain s' r' where ih0: "tcp_parts inp (Suc i) nb t = Some s'"
      "frames_spec (prevFlagByte t) (answered_from inp (Suc i) (q' # qs)) = r'"
      "shows_run t s' r'" "rtu_wf (s_RTUDataTx s')" "snd (snd (snd r')) \<longleftrightarrow> s_status s' \<noteq> 0"
      "s_status s' = 0 \<longrightarrow> server_live s'"
      using Cons.IH [OF nb len live, of "Suc i"] by blast
    obtain ps' n' f' b' where r': "r' = (ps', n', f', b')" by (metis prod_cases4)
    note ih = ih0 [unfolded r' snd_conv]
    moreover have "frames_spec (prevFlagByte s) (answered_from inp i (q # q' # qs)) = (ps @ ps', n + n', f', b')"
      unfolding answered_from_Cons [of inp i q] frames_spec_step [OF r]
      using False c(4,5) ih(2) by simp
    moreover have "shows_run s s' (ps @ ps', n + n', f', b')"
      by (rule shows_run_trans [OF c(6) ih(3)])
    ultimately show ?thesis using ih by auto
  qed
qed

lemma netconn_recv_live:
  assumes "conn_live c"
    and "conn' = (case in_abort inp of None \<Rightarrow> c | Some e \<Rightarrow> c\<lparr>last_err := e\<rparr>)"
  shows "case received inp of
     None \<Rightarrow> \<exists>e c''. e \<noteq> NC_OK \<and> netconn_recv (in_memp inp) (in_fetch inp) conn' = (e, None, c'')
   | Some ps \<Rightarrow> netconn_recv (in_memp inp) (in_fetch inp) conn' = (NC_OK, Some \<lparr>nb_p = ps, nb_ptr = ps\<rparr>, conn')
       \<and> ps \<noteq> [] \<and> conn_live conn' \<and> in_fetch inp = Some ps"
  using assms
  by (auto simp: received_def netconn_recv_def netconn_recv_data_def conn_live_def ERR_IS_FATAL_def Let_def
      split: option.splits list.splits)

text \<open>The inputs of a session, one after the other.\<close>

lemma tcp_session_spec:
  assumes "server_live s" and "pbufs_ok inps"
  shows "\<exists>ended s' posts n. tcp_session inps s = Some (ended, s') \<and>
    session_spec (prevFlagByte s) inps = (posts, n, prevFlagByte s', ended) \<and>
    shows_run s s' (posts @ (if ended then prvEmergencyStop else []), n, prevFlagByte s', ended) \<and>
    (\<not> ended \<longrightarrow> server_live s') \<and> rtu_wf (s_RTUDataTx s')"
  using assms
proof (induction inps arbitrary: s)
  case Nil
  then show ?case by (intro exI [of _ False]) (simp add: shows_run_def server_live_def)
next
  case (Cons inp inps)
  define t where "t = (case in_abort inp of None \<Rightarrow> s | Some e \<Rightarrow> s\<lparr>newconn := (newconn s)\<lparr>last_err := e\<rparr>\<rparr>)"
  have t: "prevFlagByte t = prevFlagByte s" "events t = events s" "s_RTUDataTx t = s_RTUDataTx s"
    "newconn t = (case in_abort inp of None \<Rightarrow> newconn s | Some e \<Rightarrow> (newconn s)\<lparr>last_err := e\<rparr>)"
    by (simp_all add: t_def split: option.splits)
  have live: "conn_live (newconn s)" "rtu_wf (s_RTUDataTx s)"
    using Cons.prems by (simp_all add: server_live_def)
  note recv = netconn_recv_live [OF live(1) t(4)]
  show ?case
  proof (cases "received inp")
    case None
    then obtain e c where r: "netconn_recv (in_memp inp) (in_fetch inp) (newconn t) = (e, None, c)" "e \<noteq> NC_OK"
      using recv by auto
    define u where "u = tcp_close e (t\<lparr>newconn := c\<rparr>)"
    have "tcp_session (inp # inps) s = Some (True, u)"
      using r by (simp add: tcp_session.simps(2) t_def [symmetric] u_def)
    moreover have "shows_run s u (prvEmergencyStop, 0, prevFlagByte u, True)" "prevFlagByte u = prevFlagByte s"
      "rtu_wf (s_RTUDataTx u)"
      using t r(2) live(2) by (simp_all add: u_def tcp_close_def shows_run_def Let_def)
    ultimately show ?thesis using None by (intro exI [of _ True]) simp
  next
    case (Some parts)
    then have r: "netconn_recv (in_memp inp) (in_fetch inp) (newconn t) =
        (NC_OK, Some \<lparr>nb_p = parts, nb_ptr = parts\<rparr>, newconn t)" "parts \<noteq> []" "conn_live (newconn t)"
      "in_fetch inp = Some parts"
      using recv by auto
    from r(2) obtain q qs where parts: "parts = q # qs" by (cases parts) auto
    have len: "\<forall>p \<in> set (q # qs). length p < 65536"
      using Cons.prems(2) r(4) parts by (auto simp: pbufs_ok_def)
    have tl: "server_live (t\<lparr>newconn := newconn t\<rparr>)"
      using r(3) live(2) t by (simp add: server_live_def)
    have nb: "nb_ptr \<lparr>nb_p = parts, nb_ptr = parts\<rparr> = q # qs" by (simp add: parts)
    obtain u r' where u0: "tcp_parts inp 0 \<lparr>nb_p = parts, nb_ptr = parts\<rparr> (t\<lparr>newconn := newconn t\<rparr>) = Some u"
      "frames_spec (prevFlagByte (t\<lparr>newconn := newconn t\<rparr>)) (answered_from inp 0 (q # qs)) = r'"
      "shows_run (t\<lparr>newconn := newconn t\<rparr>) u r'" "rtu_wf (s_RTUDataTx u)"
      "snd (snd (snd r')) \<longleftrightarrow> s_status u \<noteq> 0" "s_status u = 0 \<longrightarrow> server_live u"
      using tcp_parts_spec [OF nb len tl, of inp 0] by blast
    obtain ps n f b where r': "r' = (ps, n, f, b)" by (metis prod_cases4)
    have fs: "frames_spec (prevFlagByte s) (answered inp parts) = (ps, n, f, b)"
      using u0(2) r' parts t(1) by (simp add: answered_eq)
    have sr: "shows_run s u (ps, n, f, b)" "b \<longleftrightarrow> s_status u \<noteq> 0"
      using u0(3,5) r' t by (simp_all add: shows_run_def)
    define v where "v = emit [EvNetbufDelete] u"
    have v: "shows_run s v (ps, n, f, b)" "s_status v = s_status u" "s_status u = 0 \<longrightarrow> server_live v"
      using sr u0(6) by (auto simp: v_def shows_run_def server_live_def)
    have step: "tcp_session (inp # inps) s =
        (if s_status u \<noteq> 0 then Some (True, tcp_close NC_OK v) else tcp_session inps v)"
      using r(1) u0(1) v(2) by (simp add: tcp_session.simps(2) t_def [symmetric] v_def)
    show ?thesis
    proof (cases b)
      case True
      have "shows_run s (tcp_close NC_OK v) (ps @ prvEmergencyStop, n, f, True)"
        "rtu_wf (s_RTUDataTx (tcp_close NC_OK v))"
        using v(1) u0(4) by (auto simp: shows_run_def tcp_close_def Let_def v_def)
      then show ?thesis using True step sr(2) fs Some by (auto simp: shows_run_def)
    next
      case False
      have "server_live v" "pbufs_ok inps"
        using False sr(2) v(3) Cons.prems(2) by (auto simp: pbufs_ok_def)
      then obtain ended s' posts n' where ih: "tcp_session inps v = Some (ended, s')"
        "session_spec (prevFlagByte v) inps = (posts, n', prevFlagByte s', ended)"
        "shows_run v s' (posts @ (if ended then prvEmergencyStop else []), n', prevFlagByte s', ended)"
        "\<not> ended \<longrightarrow> server_live s'" "rtu_wf (s_RTUDataTx s')"
        using Cons.IH by blast
      have pv: "prevFlagByte v = f" using v(1) by (simp add: shows_run_def)
      have "session_spec (prevFlagByte s) (inp # inps) = (ps @ posts, n + n', prevFlagByte s', ended)"
        using Some fs False ih(2) pv by simp
      moreover have "shows_run s s' (ps @ posts @ (if ended then prvEmergencyStop else []), n + n', prevFlagByte s', ended)"
        by (rule shows_run_trans [OF v(1) ih(3)])
      ultimately show ?thesis using step False sr(2) ih by auto
    qed
  qed
qed

subsection \<open>What never happens before the close\<close>

definition quiet_run :: "server \<Rightarrow> server \<Rightarrow> bool" where
  "quiet_run s s' \<longleftrightarrow> (\<exists>es. events s' = events s @ es \<and> EvClose \<notin> set es \<and> EvDelete \<notin> set es)"

lemma quiet_run_trans: "quiet_run s t \<Longrightarrow> quiet_run t u \<Longrightarrow> quiet_run s u"
  by (auto simp: quiet_run_def)

lemma print_error_quiet: "\<exists>es. events (print_error e s) = events s @ es \<and> EvClose \<notin> set es \<and> EvDelete \<notin> set es"
  by (auto simp: print_error_def split: option.splits)

lemma tcp_cycle_quiet:
  assumes "tcp_cycle inp i buf s = (brk, s')"
  shows "quiet_run s s'"
proof -
  have p: "quiet_run s (print_error e u\<lparr>s_status := x\<rparr>)" if "quiet_run s u" for e u x
    using that print_error_quiet [of e u] by (auto simp: quiet_run_def)
  show ?thesis
    using assms
    by (auto simp: tcp_cycle_def Let_def split: prod.splits option.splits if_splits
        intro!: p) (auto simp: quiet_run_def)
qed

lemma tcp_parts_quiet: "tcp_parts inp i buf s = Some s' \<Longrightarrow> quiet_run s s'"
proof (induction inp i buf s arbitrary: s' rule: tcp_parts.induct)
  case (1 inp i buf s)
  obtain brk t where e: "tcp_cycle inp i buf s = (brk, t)" by force
  note q = tcp_cycle_quiet [OF e]
  have s': "(if brk then Some t
     else (case netbuf_next buf of
             None \<Rightarrow> None
           | Some (r, buf) \<Rightarrow> if r \<ge> 0 then tcp_parts inp (Suc i) buf t else Some t)) = Some s'"
    using 1(2) unfolding tcp_parts_step [OF e] .
  show ?case
  proof (cases "\<exists>r nb. \<not> brk \<and> netbuf_next buf = Some (r, nb) \<and> r \<ge> 0")
    case True
    then obtain r nb where n: "\<not> brk" "netbuf_next buf = Some (r, nb)" "r \<ge> 0" by auto
    then have "tcp_parts inp (Suc i) nb t = Some s'" using s' by simp
    from 1(1) [OF e [symmetric] refl n(1,2) refl n(3) this] q show ?thesis by (blast intro: quiet_run_trans)
  next
    case False
    then have "t = s'" using s' by (auto split: if_splits option.splits prod.splits)
    with q show ?thesis by simp
  qed
qed

lemma tcp_session_quiet:
  assumes "tcp_session inps s = Some (ended, s')"
  shows "\<exists>es. events s' = events s @ es @ (if ended then map EvPost prvEmergencyStop @ [EvClose, EvDelete] else []) \<and>
    EvClose \<notin> set es \<and> EvDelete \<notin> set es"
  using assms
proof (induction inps arbitrary: s)
  case Nil
  then show ?case by simp
next
  case (Cons inp inps)
  have close: "\<exists>es. events (tcp_close e u) = events u @ es @ map EvPost prvEmergencyStop @ [EvClose, EvDelete] \<and>
      EvClose \<notin> set es \<and> EvDelete \<notin> set es" for e u
    using print_error_quiet [of e u] by (auto simp: tcp_close_def Let_def)
  define t where "t = (case in_abort inp of None \<Rightarrow> s | Some e \<Rightarrow> s\<lparr>newconn := (newconn s)\<lparr>last_err := e\<rparr>\<rparr>)"
  have t: "events t = events s" by (simp add: t_def split: option.splits)
  obtain e nb c where r: "netconn_recv (in_memp inp) (in_fetch inp) (newconn t) = (e, nb, c)" by (metis prod_cases3)
  show ?case
  proof (cases nb)
    case None
    then have "ended" "s' = tcp_close e (t\<lparr>newconn := c\<rparr>)"
      using Cons.prems r by (simp_all add: tcp_session.simps(2) t_def [symmetric])
    then show ?thesis using close [of e "t\<lparr>newconn := c\<rparr>"] t by simp
  next
    case (Some buf)
    then obtain u where u: "tcp_parts inp 0 buf (t\<lparr>newconn := c\<rparr>) = Some u"
      using Cons.prems r by (auto simp: tcp_session.simps(2) t_def [symmetric] split: option.splits)
    from tcp_parts_quiet [OF u] obtain es where es: "events u = events s @ es" "EvClose \<notin> set es" "EvDelete \<notin> set es"
      using t by (auto simp: quiet_run_def)
    define v where "v = emit [EvNetbufDelete] u"
    have v: "events v = events s @ es @ [EvNetbufDelete]" by (simp add: v_def es)
    have step: "(if s_status u \<noteq> 0 then Some (True, tcp_close e v) else tcp_session inps v) = Some (ended, s')"
      using Cons.prems r Some u by (auto simp: tcp_session.simps(2) t_def [symmetric] v_def Let_def split: if_splits)
    show ?thesis
    proof (cases "s_status u = 0")
      case True
      then have "tcp_session inps v = Some (ended, s')" using step by simp
      from Cons.IH [OF this] v es show ?thesis by auto
    next
      case False
      then show ?thesis using step close [of e v] v es by auto
    qed
  qed
qed

subsection \<open>Frames of a command\<close>

lemma hmi_cmd_encode:
  assumes "unat (velCmdArm c) \<le> 8" and "unat (velCmdPole c) \<le> 8" and "clientID c = eSigned"
  shows "hmi_cmd (hmi_encode c) = Some c"
proof -
  have e: "NetValuesReceivedFromHMI (HMIData_of_payload (hmi_encode c)) c (of_nat (length (hmi_encode c)))
      = (ERR_OK, c)"
    using NetValuesReceivedFromHMI_hmi_encode [OF assms, of c] by simp
  from NetValuesReceivedFromHMI_grammar [of "hmi_encode c" c, unfolded e] show ?thesis
    by (auto simp: hmi_cmd_def)
qed

lemma TaskTriggerMsg_flag: "snd (TaskTriggerMsg c f) = flag_byte c"
  by (simp add: TaskTriggerMsg_def Let_def)

lemma TaskTriggerMsg_same: "TaskTriggerMsg c (flag_byte c) = ([], flag_byte c)"
  by (simp add: TaskTriggerMsg_def Let_def)

section \<open>Properties\<close>

text \<open>Inputs for the witnesses: a frame that arrives in one piece and is answered, and a silence
  of more than the receive timeout.\<close>

definition frame_input :: "u8 list \<Rightarrow> input" where
  "frame_input p = \<lparr>in_abort = None, in_memp = True, in_fetch = Some [p], in_drive = (\<lambda>_ a. a),
     in_write = (\<lambda>_. NC_OK)\<rparr>"

definition silence :: input where
  "silence = \<lparr>in_abort = None, in_memp = True, in_fetch = None, in_drive = (\<lambda>_ a. a), in_write = (\<lambda>_. NC_OK)\<rparr>"

definition sample_server :: server where
  "sample_server = \<lparr>prevFlagByte = 0, axs = axes_static, newconn = netconn_fresh, s_HMICmd = sample_cmd,
     s_RTUDataTx = sample_rtu, s_status = 0, cycleCount = 0, events = []\<rparr>"

lemma sample_server_live: "server_live sample_server"
  by (simp add: server_live_def sample_server_def netconn_fresh_def conn_live_def ERR_IS_FATAL_def sample_rtu_wf)

lemma sample_inputs_ok: "pbufs_ok [frame_input (hmi_encode sample_cmd), silence]"
  by (simp add: pbufs_ok_def frame_input_def silence_def)

lemma session_spec_frame:
  assumes "hmi_cmd p = Some c"
  shows "session_spec f (frame_input p # inps) =
    (case session_spec (flag_byte c) inps of (posts, n, f', b) \<Rightarrow> (fst (TaskTriggerMsg c f) @ posts, Suc n, f', b))"
proof -
  obtain ps f' where t: "TaskTriggerMsg c f = (ps, f')" by force
  then have f': "f' = flag_byte c" using TaskTriggerMsg_flag [of c f] by simp
  have "received (frame_input p) = Some [p]" "answered (frame_input p) [p] = [(p, True)]"
    by (simp_all add: received_def frame_input_def answered_def)
  then show ?thesis
    using assms t f' by (simp add: frames_spec.simps Let_def split: prod.splits)
qed

lemma session_spec_silence: "session_spec f (silence # inps) = ([], 0, f, True)"
  by (simp add: received_def silence_def)

declare session_spec.simps(2) [simp del]

lemma sample_cmd_hmi: "hmi_cmd (hmi_encode sample_cmd) = Some sample_cmd"
  by (rule hmi_cmd_encode) (simp_all add: sample_cmd_def)

text \<open>\<^bold>\<open>C5\<close>. A session refines the reference specification over the list of received frames,
  whatever the segmentation, the aborts and the failures of the stack are: the frames are taken in
  order up to the first that is not a valid command or whose answer fails, or to the first
  failing receive; each of them posts what \<open>TaskTriggerMsg\<close> decides and gets one answer; the
  connection ends exactly there, with a stop for every axis, and \<open>netbuf_next\<close> never meets a
  null pointer.\<close>

theorem tcp_session_refines:
  assumes "server_live s" and "pbufs_ok inps"
  shows "case session_spec (prevFlagByte s) inps of (posts, n, f, ended) \<Rightarrow>
    \<exists>s'. tcp_session inps s = Some (ended, s') \<and> prevFlagByte s' = f \<and>
      posts_of (events s') = posts_of (events s) @ posts @ (if ended then prvEmergencyStop else []) \<and>
      length (writes_of (events s')) = length (writes_of (events s)) + n"
proof -
  obtain ended s' posts n where r: "tcp_session inps s = Some (ended, s')"
    "session_spec (prevFlagByte s) inps = (posts, n, prevFlagByte s', ended)"
    "shows_run s s' (posts @ (if ended then prvEmergencyStop else []), n, prevFlagByte s', ended)"
    using tcp_session_spec [OF assms] by blast
  then show ?thesis by (auto simp: shows_run_def)
qed

theorem tcp_session_refines_witness:
  "\<exists>s'. tcp_session [frame_input (hmi_encode sample_cmd), silence] sample_server = Some (True, s') \<and>
    posts_of (events s') = fst (TaskTriggerMsg sample_cmd 0) @ prvEmergencyStop \<and>
    length (writes_of (events s')) = 1"
  using tcp_session_refines [OF sample_server_live sample_inputs_ok]
  by (auto simp: session_spec_frame [OF sample_cmd_hmi] session_spec_silence sample_server_def)

text \<open>\<^bold>\<open>C6\<close>. Safety of disconnection: whatever the peer, the network and the memory do, and in any
  state, a session that ends has posted a stop to the arm, the pole and the lift as its last
  posts, before it closes and deletes the connection; and a connection is never closed in any
  other way.\<close>

theorem tcp_session_ends_in_stop:
  assumes "tcp_session inps s = Some (ended, s')"
  shows "\<exists>es. events s' = events s @ es @ (if ended then map EvPost prvEmergencyStop @ [EvClose, EvDelete] else []) \<and>
    EvClose \<notin> set es \<and> EvDelete \<notin> set es \<and> stops_all prvEmergencyStop"
  using tcp_session_quiet [OF assms] by (auto simp: stops_all_def prvEmergencyStop_def)

theorem tcp_session_ends_in_stop_witness:
  "\<exists>s' es. tcp_session [silence] sample_server = Some (True, s') \<and>
    events s' = es @ map EvPost prvEmergencyStop @ [EvClose, EvDelete] \<and> EvClose \<notin> set es"
proof -
  have "pbufs_ok [silence]" by (simp add: pbufs_ok_def silence_def)
  then obtain s' where r: "tcp_session [silence] sample_server = Some (True, s')"
    using tcp_session_spec [OF sample_server_live] session_spec_silence by (metis prod.inject)
  from tcp_session_ends_in_stop [OF r] r show ?thesis by (auto simp: sample_server_def)
qed

text \<open>Every answer of a session reports status 0: the error codes of the protocol are never
  sent, since the frame that causes one ends the session instead.\<close>

theorem answers_report_status_zero:
  assumes "server_live s" and "pbufs_ok inps" and "tcp_session inps s = Some (ended, s')"
    and "b \<in> set (drop (length (writes_of (events s))) (writes_of (events s')))"
  shows "\<exists>a p l. split_blank [] (cstr_text b) = tx_spec 0 a p l \<and>
    split_blank [] (cstr_text b) ! 11 = ''0''"
proof -
  obtain bs where "writes_of (events s') = writes_of (events s) @ bs" "\<forall>b \<in> set bs. status_zero b"
    using tcp_session_spec [OF assms(1,2)] assms(3) by (auto simp: shows_run_def)
  with assms(4) obtain a p l where e: "split_blank [] (cstr_text b) = tx_spec 0 a p l"
    by (auto simp: status_zero_def)
  have "tx_spec 0 a p l ! 11 = ''0''"
    by (simp add: tx_spec_def dec_digits.simps char_of_def bit_0)
  with e show ?thesis by (intro exI) simp
qed

theorem answers_report_status_zero_witness:
  "\<exists>ended s' b. tcp_session [frame_input (hmi_encode sample_cmd), silence] sample_server = Some (ended, s') \<and>
    b \<in> set (writes_of (events s')) \<and> split_blank [] (cstr_text b) ! 11 = ''0''"
proof -
  obtain ended s' posts n where r: "tcp_session [frame_input (hmi_encode sample_cmd), silence] sample_server = Some (ended, s')"
    "session_spec (prevFlagByte sample_server) [frame_input (hmi_encode sample_cmd), silence] = (posts, n, prevFlagByte s', ended)"
    "shows_run sample_server s' (posts @ (if ended then prvEmergencyStop else []), n, prevFlagByte s', ended)"
    using tcp_session_spec [OF sample_server_live sample_inputs_ok] by blast
  then have "n = 1" by (simp add: session_spec_frame [OF sample_cmd_hmi] session_spec_silence)
  with r(3) obtain b where b: "b \<in> set (writes_of (events s'))"
    by (force simp: shows_run_def length_Suc_conv)
  have "writes_of (events sample_server) = []" by (simp add: sample_server_def)
  with b answers_report_status_zero [OF sample_server_live sample_inputs_ok r(1), of b] r(1)
  show ?thesis by auto
qed

text \<open>The flag byte survives the connection: when a command was active, the connection is
  lost and all axes are stopped, a new connection that repeats the command is answered but
  posts nothing, so that the axes stay where they stopped until the client sends another mode or
  control enable first.\<close>

theorem reconnect_does_not_restart:
  assumes "unat (velCmdArm c) \<le> 8" and "unat (velCmdPole c) \<le> 8" and "clientID c = eSigned"
    and "rtu_wf (s_RTUDataTx s)"
  shows "\<exists>s'. tcp_thread [(NC_OK, [frame_input (hmi_encode c), silence]), (NC_OK, [frame_input (hmi_encode c)])] s
      = Some s' \<and>
    posts_of (events s') = posts_of (events s) @ fst (TaskTriggerMsg c (prevFlagByte s)) @ prvEmergencyStop \<and>
    length (writes_of (events s')) = length (writes_of (events s)) + 2"
proof -
  note hc = hmi_cmd_encode [OF assms(1-3)]
  have acc: "server_live (tcp_accept netconn_fresh u)" if "rtu_wf (s_RTUDataTx u)" for u
    using that by (simp add: tcp_accept_def server_live_def netconn_fresh_def conn_live_def ERR_IS_FATAL_def)
  have acc_sel: "prevFlagByte (tcp_accept netconn_fresh u) = prevFlagByte u"
    "posts_of (events (tcp_accept netconn_fresh u)) = posts_of (events u)"
    "writes_of (events (tcp_accept netconn_fresh u)) = writes_of (events u)" for u
    by (simp_all add: tcp_accept_def)
  have ok: "pbufs_ok [frame_input (hmi_encode c), silence]" "pbufs_ok [frame_input (hmi_encode c)]"
    by (simp_all add: pbufs_ok_def frame_input_def silence_def)
  note spec = session_spec_frame [OF hc] session_spec_silence
  obtain t where t: "tcp_session [frame_input (hmi_encode c), silence] (tcp_accept netconn_fresh s) = Some (True, t)"
    "prevFlagByte t = flag_byte c" "rtu_wf (s_RTUDataTx t)"
    "shows_run (tcp_accept netconn_fresh s) t
      (fst (TaskTriggerMsg c (prevFlagByte s)) @ prvEmergencyStop, 1, flag_byte c, True)"
    using tcp_session_spec [OF acc [OF assms(4)] ok(1)]
    by (auto simp: spec acc_sel)
  obtain u where u: "tcp_session [frame_input (hmi_encode c)] (tcp_accept netconn_fresh t) = Some (False, u)"
    "shows_run (tcp_accept netconn_fresh t) u ([], 1, flag_byte c, False)"
    using tcp_session_spec [OF acc [OF t(3)] ok(2)] t(2)
    by (auto simp: spec acc_sel TaskTriggerMsg_same)
  show ?thesis
    using t u by (auto simp: shows_run_def acc_sel)
qed

theorem reconnect_does_not_restart_witness:
  "\<exists>s'. tcp_thread [(NC_OK, [frame_input (hmi_encode sample_cmd), silence]),
      (NC_OK, [frame_input (hmi_encode sample_cmd)])] sample_server = Some s' \<and>
    posts_of (events s') = fst (TaskTriggerMsg sample_cmd 0) @ prvEmergencyStop \<and>
    fst (TaskTriggerMsg sample_cmd 0) \<noteq> []"
proof -
  have v: "unat (velCmdArm sample_cmd) \<le> 8" "unat (velCmdPole sample_cmd) \<le> 8" "clientID sample_cmd = eSigned"
    by (simp_all add: sample_cmd_def)
  have w: "rtu_wf (s_RTUDataTx sample_server)" by (simp add: sample_server_def sample_rtu_wf)
  have "fst (TaskTriggerMsg sample_cmd 0) \<noteq> []"
    unfolding encode_flags_0 TaskTriggerMsg_eq_spec by (simp add: trigger_specs sample_cmd_def)
  moreover have "prevFlagByte sample_server = 0" "events sample_server = []" by (simp_all add: sample_server_def)
  ultimately show ?thesis
    using reconnect_does_not_restart [OF v w] by force
qed

end
