(* ===== verification/Queue.thy ===== *)
theory Queue imports SchedProps Allocator begin

text \<open>
  Queues, semaphores and mutexes (\<open>freertos/src/queue.c\<close>), on top of the scheduler and the heap.

  A queue is the structure at an address; its storage is bytes of the memory. The members the code
  shares between queues and mutexes stay shared: \<open>uxQueueType\<close> is \<open>pcHead\<close> and \<open>pxMutexHolder\<close> is
  \<open>pcTail\<close>. (The union of \<open>pcReadFrom\<close> and \<open>uxRecursiveCallCount\<close> is two fields; no queue uses both.)
  Pointers are integers, so that one below the storage is visible.

  A call that may block is modelled by one pass of its \<open>for(;;)\<close> loop, which either returns or goes
  round again with its new local variables. Between the critical sections of a pass interrupts may
  run: the argument \<open>gaps\<close> says what they do in each gap, numbered in the order of the code.
\<close>

section \<open>State\<close>

record queue =
  pcHead :: addr
  pcTail :: addr
  pcWriteTo :: addr
  pcReadFrom :: addr
  uxRecursiveCallCount :: u32
  uxMessagesWaiting :: u32
  uxLength :: u32
  uxItemSize :: u32
  cRxLock :: "8 word"
  cTxLock :: "8 word"
  uxQueueNumber :: u32
  ucQueueType :: u8

record registry_item =
  pcQueueName :: addr
  xHandle :: addr

record rtos =
  kern :: sched
  heap :: heap4
  queues :: "addr \<Rightarrow> queue"
  bytes :: "addr \<Rightarrow> u8"
  xQueueRegistry :: "registry_item list"

abbreviation (input) uxQueueType :: "queue \<Rightarrow> addr" where "uxQueueType \<equiv> pcHead"
abbreviation (input) pxMutexHolder :: "queue \<Rightarrow> addr" where "pxMutexHolder \<equiv> pcTail"
abbreviation (input) "queueQUEUE_IS_MUTEX \<equiv> NULL"
abbreviation (input) "queueUNLOCKED \<equiv> (-1 :: 8 word)"
abbreviation (input) "queueLOCKED_UNMODIFIED \<equiv> (0 :: 8 word)"
abbreviation (input) "queueQUEUE_TYPE_COUNTING_SEMAPHORE \<equiv> (2 :: u8)"
abbreviation (input) "sizeof_Queue_t \<equiv> (80 :: u32)"

datatype send_pos = queueSEND_TO_BACK | queueSEND_TO_FRONT | queueOVERWRITE

abbreviation upd_q :: "addr \<Rightarrow> (queue \<Rightarrow> queue) \<Rightarrow> rtos \<Rightarrow> rtos" where
  "upd_q a f s \<equiv> s\<lparr>queues := (queues s)(a := f (queues s a))\<rparr>"

text \<open>The addresses of the two event lists in the structure.\<close>

definition xTasksWaitingToSend :: "addr \<Rightarrow> addr" where "xTasksWaitingToSend a = a + 16"
definition xTasksWaitingToReceive :: "addr \<Rightarrow> addr" where "xTasksWaitingToReceive a = a + 36"

definition listLIST_IS_EMPTY :: "addr \<Rightarrow> rtos \<Rightarrow> bool" where
  "listLIST_IS_EMPTY l s \<longleftrightarrow> ev_items (kern s) (EventList l) = []"

definition vListInitialise_event :: "addr \<Rightarrow> rtos \<Rightarrow> rtos" where
  "vListInitialise_event l s =
    s\<lparr>kern := (kern s)\<lparr>elists := (elists (kern s))(EventList l := klist_empty)\<rparr>\<rparr>"

text \<open>A scheduler operation, on the whole state.\<close>

definition on_kern :: "(sched \<Rightarrow> ('a \<times> sched) option) \<Rightarrow> rtos \<Rightarrow> ('a \<times> rtos) option" where
  "on_kern f s = map_option (\<lambda>(r, k). (r, s\<lparr>kern := k\<rparr>)) (f (kern s))"

definition on_kern0 :: "(sched \<Rightarrow> sched option) \<Rightarrow> rtos \<Rightarrow> rtos option" where
  "on_kern0 f s = map_option (\<lambda>k. s\<lparr>kern := k\<rparr>) (f (kern s))"

definition yield_api :: "rtos \<Rightarrow> rtos" where
  "yield_api s = s\<lparr>kern := portYIELD (kern s)\<rparr>"

text \<open>\<open>memcpy\<close> into and out of the memory. Copying more bytes than the source has is undefined.\<close>

definition memcpy_in :: "addr \<Rightarrow> u8 list \<Rightarrow> nat \<Rightarrow> (addr \<Rightarrow> u8) \<Rightarrow> (addr \<Rightarrow> u8) option" where
  "memcpy_in dst src n m =
    (if length src < n then None
     else Some (\<lambda>a. if dst \<le> a \<and> a < dst + int n then src ! nat (a - dst) else m a))"

definition memcpy_out :: "addr \<Rightarrow> nat \<Rightarrow> (addr \<Rightarrow> u8) \<Rightarrow> u8 list" where
  "memcpy_out src n m = map (\<lambda>i. m (src + int i)) [0..<n]"

section \<open>Memory\<close>

text \<open>\<open>pvPortMalloc\<close> and \<open>vPortFree\<close> suspend the scheduler around their work on the heap.\<close>

definition pvPortMalloc :: "u32 \<Rightarrow> rtos \<Rightarrow> (addr \<times> rtos) option" where
  "pvPortMalloc xWantedSize s = do {
    let s = s\<lparr>kern := vTaskSuspendAll (kern s)\<rparr>;
    (p, h) \<leftarrow> pvPortMalloc_body xWantedSize (heap s);
    (_, s) \<leftarrow> on_kern xTaskResumeAll (s\<lparr>heap := h\<rparr>);
    Some (uint p, s)
  }"

definition vPortFree :: "addr \<Rightarrow> rtos \<Rightarrow> rtos option" where
  "vPortFree pv s =
    (if vPortFree_claims (word_of_int pv) (heap s)
     then do {
       let s = s\<lparr>kern := vTaskSuspendAll (kern s)\<rparr>;
       h \<leftarrow> vPortFree_body (word_of_int pv) (heap s);
       (_, s) \<leftarrow> on_kern xTaskResumeAll (s\<lparr>heap := h\<rparr>);
       Some s
     }
     else Some s)"

section \<open>Copying items\<close>

definition prvCopyDataToQueue :: "addr \<Rightarrow> u8 list \<Rightarrow> send_pos \<Rightarrow> rtos \<Rightarrow> (bool \<times> rtos) option" where
  "prvCopyDataToQueue a pvItemToQueue xPosition s = do {
    let q = queues s a;
    let uxMessages = uxMessagesWaiting q;
    (xReturn, uxMessages, s) \<leftarrow>
      (if uxItemSize q = 0
       then (if uxQueueType q = queueQUEUE_IS_MUTEX
             then do {
               (r, s) \<leftarrow> on_kern (xTaskPriorityDisinherit (pxMutexHolder q)) s;
               Some (r, uxMessages, upd_q a (\<lambda>q. q\<lparr>pcTail := NULL\<rparr>) s)
             }
             else Some (False, uxMessages, s))
       else if xPosition = queueSEND_TO_BACK
       then do {
         m \<leftarrow> memcpy_in (pcWriteTo q) pvItemToQueue (unat (uxItemSize q)) (bytes s);
         let s = s\<lparr>bytes := m\<rparr>;
         let s = upd_q a (\<lambda>q. q\<lparr>pcWriteTo := pcWriteTo q + uint (uxItemSize q)\<rparr>) s;
         let s = (if pcWriteTo (queues s a) \<ge> pcTail (queues s a)
                  then upd_q a (\<lambda>q. q\<lparr>pcWriteTo := pcHead q\<rparr>) s else s);
         Some (False, uxMessages, s)
       }
       else do {
         m \<leftarrow> memcpy_in (pcReadFrom q) pvItemToQueue (unat (uxItemSize q)) (bytes s);
         let s = s\<lparr>bytes := m\<rparr>;
         let s = upd_q a (\<lambda>q. q\<lparr>pcReadFrom := pcReadFrom q - uint (uxItemSize q)\<rparr>) s;
         let s = (if pcReadFrom (queues s a) < pcHead (queues s a)
                  then upd_q a (\<lambda>q. q\<lparr>pcReadFrom := pcTail q - uint (uxItemSize q)\<rparr>) s else s);
         Some (False,
           (if xPosition = queueOVERWRITE \<and> uxMessages > 0 then uxMessages - 1 else uxMessages), s)
       });
    Some (xReturn, upd_q a (\<lambda>q. q\<lparr>uxMessagesWaiting := uxMessages + 1\<rparr>) s)
  }"

definition prvCopyDataFromQueue :: "addr \<Rightarrow> rtos \<Rightarrow> u8 list \<times> rtos" where
  "prvCopyDataFromQueue a s =
    (if uxItemSize (queues s a) \<noteq> 0
     then (let s = upd_q a (\<lambda>q. q\<lparr>pcReadFrom := pcReadFrom q + uint (uxItemSize q)\<rparr>) s;
               s = (if pcReadFrom (queues s a) \<ge> pcTail (queues s a)
                    then upd_q a (\<lambda>q. q\<lparr>pcReadFrom := pcHead q\<rparr>) s else s)
           in (memcpy_out (pcReadFrom (queues s a)) (unat (uxItemSize (queues s a))) (bytes s), s))
     else ([], s))"

definition prvIsQueueEmpty :: "addr \<Rightarrow> rtos \<Rightarrow> bool" where
  "prvIsQueueEmpty a s \<longleftrightarrow> uxMessagesWaiting (queues s a) = 0"

definition prvIsQueueFull :: "addr \<Rightarrow> rtos \<Rightarrow> bool" where
  "prvIsQueueFull a s \<longleftrightarrow> uxMessagesWaiting (queues s a) = uxLength (queues s a)"

section \<open>Locking\<close>

definition prvLockQueue :: "addr \<Rightarrow> rtos \<Rightarrow> rtos" where
  "prvLockQueue a s =
    (let s = (if cRxLock (queues s a) = queueUNLOCKED
              then upd_q a (\<lambda>q. q\<lparr>cRxLock := queueLOCKED_UNMODIFIED\<rparr>) s else s)
     in if cTxLock (queues s a) = queueUNLOCKED
        then upd_q a (\<lambda>q. q\<lparr>cTxLock := queueLOCKED_UNMODIFIED\<rparr>) s else s)"

text \<open>The loop of \<open>prvUnlockQueue\<close> over one lock count: at most that many waiting tasks are woken.\<close>

fun unlock_wake :: "nat \<Rightarrow> addr \<Rightarrow> rtos \<Rightarrow> rtos option" where
  "unlock_wake 0 l s = Some s"
| "unlock_wake (Suc n) l s =
    (if \<not> listLIST_IS_EMPTY l s
     then do {
       (b, s) \<leftarrow> on_kern (xTaskRemoveFromEventList l) s;
       unlock_wake n l (if b then s\<lparr>kern := vTaskMissedYield (kern s)\<rparr> else s)
     }
     else Some s)"

type_synonym gaps = "nat \<Rightarrow> rtos \<Rightarrow> rtos option"

definition prvUnlockQueue :: "gaps \<Rightarrow> addr \<Rightarrow> rtos \<Rightarrow> rtos option" where
  "prvUnlockQueue gaps a s = do {
    s \<leftarrow> unlock_wake (nat (sint (cTxLock (queues s a)))) (xTasksWaitingToReceive a) s;
    let s = upd_q a (\<lambda>q. q\<lparr>cTxLock := queueUNLOCKED\<rparr>) s;
    s \<leftarrow> gaps 6 s;
    s \<leftarrow> unlock_wake (nat (sint (cRxLock (queues s a)))) (xTasksWaitingToSend a) s;
    Some (upd_q a (\<lambda>q. q\<lparr>cRxLock := queueUNLOCKED\<rparr>) s)
  }"

text \<open>If a task waits on the list: wake the first, and yield if it has a higher priority.\<close>

definition wake_yield :: "addr \<Rightarrow> rtos \<Rightarrow> rtos option" where
  "wake_yield l s =
    (if \<not> listLIST_IS_EMPTY l s
     then do {
       (b, s) \<leftarrow> on_kern (xTaskRemoveFromEventList l) s;
       Some (if b then yield_api s else s)
     }
     else Some s)"

section \<open>Creation\<close>

definition xQueueGenericReset :: "addr \<Rightarrow> bool \<Rightarrow> rtos \<Rightarrow> rtos option" where
  "xQueueGenericReset a xNewQueue s =
    (let s = upd_q a (\<lambda>q. q\<lparr>pcTail := pcHead q + uint (uxLength q * uxItemSize q)\<rparr>) s;
         s = upd_q a (\<lambda>q. q\<lparr>uxMessagesWaiting := 0\<rparr>) s;
         s = upd_q a (\<lambda>q. q\<lparr>pcWriteTo := pcHead q\<rparr>) s;
         s = upd_q a (\<lambda>q. q\<lparr>pcReadFrom := pcHead q + uint ((uxLength q - 1) * uxItemSize q)\<rparr>) s;
         s = upd_q a (\<lambda>q. q\<lparr>cRxLock := queueUNLOCKED\<rparr>) s;
         s = upd_q a (\<lambda>q. q\<lparr>cTxLock := queueUNLOCKED\<rparr>) s
     in if \<not> xNewQueue then wake_yield (xTasksWaitingToSend a) s
        else Some (vListInitialise_event (xTasksWaitingToReceive a)
               (vListInitialise_event (xTasksWaitingToSend a) s)))"

definition prvInitialiseNewQueue :: "u32 \<Rightarrow> u32 \<Rightarrow> addr \<Rightarrow> u8 \<Rightarrow> addr \<Rightarrow> rtos \<Rightarrow> rtos option" where
  "prvInitialiseNewQueue uxQueueLength uxQueueItemSize pucQueueStorage qtype a s = do {
    let s = (if uxQueueItemSize = 0 then upd_q a (\<lambda>q. q\<lparr>pcHead := a\<rparr>) s
             else upd_q a (\<lambda>q. q\<lparr>pcHead := pucQueueStorage\<rparr>) s);
    let s = upd_q a (\<lambda>q. q\<lparr>uxLength := uxQueueLength\<rparr>) s;
    let s = upd_q a (\<lambda>q. q\<lparr>uxItemSize := uxQueueItemSize\<rparr>) s;
    s \<leftarrow> xQueueGenericReset a True s;
    Some (upd_q a (\<lambda>q. q\<lparr>ucQueueType := qtype\<rparr>) s)
  }"

definition xQueueGenericCreate :: "u32 \<Rightarrow> u32 \<Rightarrow> u8 \<Rightarrow> rtos \<Rightarrow> (addr \<times> rtos) option" where
  "xQueueGenericCreate uxQueueLength uxQueueItemSize qtype s = do {
    let xQueueSizeInBytes = (if uxQueueItemSize = 0 then 0 else uxQueueLength * uxQueueItemSize);
    (pxNewQueue, s) \<leftarrow> pvPortMalloc (sizeof_Queue_t + xQueueSizeInBytes) s;
    s \<leftarrow> (if pxNewQueue \<noteq> NULL
          then (let pucQueueStorage = pxNewQueue + uint sizeof_Queue_t
                in prvInitialiseNewQueue uxQueueLength uxQueueItemSize pucQueueStorage qtype pxNewQueue s)
          else Some s);
    Some (pxNewQueue, s)
  }"

section \<open>Sending\<close>

text \<open>The locals of a blocking call.\<close>

record qcall =
  xEntryTimeSet :: bool
  xTimeOut :: TimeOut_t
  xTicks :: u32

definition set_entry_time :: "rtos \<Rightarrow> qcall \<Rightarrow> qcall" where
  "set_entry_time s c =
    (if \<not> xEntryTimeSet c
     then c\<lparr>xTimeOut := vTaskInternalSetTimeOutState (kern s), xEntryTimeSet := True\<rparr> else c)"

definition check_time_out :: "rtos \<Rightarrow> qcall \<Rightarrow> bool \<times> qcall" where
  "check_time_out s c =
    (let (expired, to, n) = xTaskCheckForTimeOut (kern s) (xTimeOut c) (xTicks c)
     in (expired, c\<lparr>xTimeOut := to, xTicks := n\<rparr>))"

text \<open>Entering and leaving the part of a pass in which the scheduler is suspended.\<close>

definition enter_suspended :: "gaps \<Rightarrow> addr \<Rightarrow> rtos \<Rightarrow> rtos option" where
  "enter_suspended gaps a s = do {
    s \<leftarrow> gaps 0 s;
    let s = s\<lparr>kern := vTaskSuspendAll (kern s)\<rparr>;
    s \<leftarrow> gaps 1 s;
    gaps 2 (prvLockQueue a s)
  }"

definition unlock_resume :: "gaps \<Rightarrow> addr \<Rightarrow> rtos \<Rightarrow> (bool \<times> rtos) option" where
  "unlock_resume gaps a s = do {
    s \<leftarrow> prvUnlockQueue gaps a s;
    s \<leftarrow> gaps 7 s;
    on_kern xTaskResumeAll s
  }"

definition place_and_yield :: "gaps \<Rightarrow> addr \<Rightarrow> addr \<Rightarrow> u32 \<Rightarrow> rtos \<Rightarrow> rtos option" where
  "place_and_yield gaps a l xTicksToWait s = do {
    s \<leftarrow> on_kern0 (vTaskPlaceOnEventList l xTicksToWait) s;
    s \<leftarrow> gaps 5 s;
    (xAlreadyYielded, s) \<leftarrow> unlock_resume gaps a s;
    Some (if \<not> xAlreadyYielded then yield_api s else s)
  }"

definition xQueueGenericSend :: "gaps \<Rightarrow> addr \<Rightarrow> u8 list \<Rightarrow> send_pos \<Rightarrow> qcall \<Rightarrow> rtos \<Rightarrow>
    (bool option \<times> qcall \<times> rtos) option" where
  "xQueueGenericSend gaps a pvItemToQueue xCopyPosition c s =
    (if uxMessagesWaiting (queues s a) < uxLength (queues s a) \<or> xCopyPosition = queueOVERWRITE
     then do {
       (xYieldRequired, s) \<leftarrow> prvCopyDataToQueue a pvItemToQueue xCopyPosition s;
       s \<leftarrow> (if \<not> listLIST_IS_EMPTY (xTasksWaitingToReceive a) s
             then wake_yield (xTasksWaitingToReceive a) s
             else Some (if xYieldRequired then yield_api s else s));
       Some (Some True, c, s)
     }
     else if xTicks c = 0 then Some (Some False, c, s)
     else do {
       let c = set_entry_time s c;
       s \<leftarrow> enter_suspended gaps a s;
       let (expired, c) = check_time_out s c;
       s \<leftarrow> gaps 3 s;
       if \<not> expired
       then (if prvIsQueueFull a s
             then do {
               s \<leftarrow> gaps 4 s;
               s \<leftarrow> place_and_yield gaps a (xTasksWaitingToSend a) (xTicks c) s;
               Some (None, c, s)
             }
             else do {
               s \<leftarrow> gaps 4 s;
               (_, s) \<leftarrow> unlock_resume gaps a s;
               Some (None, c, s)
             })
       else do {
         (_, s) \<leftarrow> unlock_resume gaps a s;
         Some (Some False, c, s)
       }
     })"

definition xQueueGenericSendFromISR :: "addr \<Rightarrow> u8 list \<Rightarrow> bool \<Rightarrow> send_pos \<Rightarrow> rtos \<Rightarrow> (bool \<times> bool \<times> rtos) option" where
  "xQueueGenericSendFromISR a pvItemToQueue woken xCopyPosition s =
    (if uxMessagesWaiting (queues s a) < uxLength (queues s a) \<or> xCopyPosition = queueOVERWRITE
     then do {
       let lock = cTxLock (queues s a);
       (_, s) \<leftarrow> prvCopyDataToQueue a pvItemToQueue xCopyPosition s;
       if lock = queueUNLOCKED
       then (if \<not> listLIST_IS_EMPTY (xTasksWaitingToReceive a) s
             then do {
               (b, s) \<leftarrow> on_kern (xTaskRemoveFromEventList (xTasksWaitingToReceive a)) s;
               Some (True, (if b then True else woken), s)
             }
             else Some (True, woken, s))
       else Some (True, woken, upd_q a (\<lambda>q. q\<lparr>cTxLock := lock + 1\<rparr>) s)
     }
     else Some (False, woken, s))"

definition xQueueGiveFromISR :: "addr \<Rightarrow> bool \<Rightarrow> rtos \<Rightarrow> (bool \<times> bool \<times> rtos) option" where
  "xQueueGiveFromISR a woken s =
    (let uxMessages = uxMessagesWaiting (queues s a)
     in if uxMessages < uxLength (queues s a)
        then do {
          let lock = cTxLock (queues s a);
          let s = upd_q a (\<lambda>q. q\<lparr>uxMessagesWaiting := uxMessages + 1\<rparr>) s;
          if lock = queueUNLOCKED
          then (if \<not> listLIST_IS_EMPTY (xTasksWaitingToReceive a) s
                then do {
                  (b, s) \<leftarrow> on_kern (xTaskRemoveFromEventList (xTasksWaitingToReceive a)) s;
                  Some (True, (if b then True else woken), s)
                }
                else Some (True, woken, s))
          else Some (True, woken, upd_q a (\<lambda>q. q\<lparr>cTxLock := lock + 1\<rparr>) s)
        }
        else Some (False, woken, s))"

section \<open>Receiving\<close>

text \<open>The result of a receiving call: \<open>Some (Some item)\<close> is \<open>pdPASS\<close>, \<open>Some None\<close> \<open>errQUEUE_EMPTY\<close>.
  The part of a pass in which the scheduler is suspended is the same for all three calls but for
  the inheritance of priorities.\<close>

definition receive_wait :: "gaps \<Rightarrow> addr \<Rightarrow> qcall \<Rightarrow> rtos \<Rightarrow> ('r option option \<times> qcall \<times> rtos) option" where
  "receive_wait gaps a c s = do {
    let c = set_entry_time s c;
    s \<leftarrow> enter_suspended gaps a s;
    let (expired, c) = check_time_out s c;
    s \<leftarrow> gaps 3 s;
    if \<not> expired
    then (if prvIsQueueEmpty a s
          then do {
            s \<leftarrow> gaps 4 s;
            s \<leftarrow> place_and_yield gaps a (xTasksWaitingToReceive a) (xTicks c) s;
            Some (None, c, s)
          }
          else do {
            s \<leftarrow> gaps 4 s;
            (_, s) \<leftarrow> unlock_resume gaps a s;
            Some (None, c, s)
          })
    else do {
      (_, s) \<leftarrow> unlock_resume gaps a s;
      s \<leftarrow> gaps 8 s;
      if prvIsQueueEmpty a s then Some (Some None, c, s) else Some (None, c, s)
    }
  }"

definition xQueueReceive :: "gaps \<Rightarrow> addr \<Rightarrow> qcall \<Rightarrow> rtos \<Rightarrow> (u8 list option option \<times> qcall \<times> rtos) option" where
  "xQueueReceive gaps a c s =
    (let uxMessages = uxMessagesWaiting (queues s a)
     in if uxMessages > 0
        then do {
          let (item, s) = prvCopyDataFromQueue a s;
          let s = upd_q a (\<lambda>q. q\<lparr>uxMessagesWaiting := uxMessages - 1\<rparr>) s;
          s \<leftarrow> wake_yield (xTasksWaitingToSend a) s;
          Some (Some (Some item), c, s)
        }
        else if xTicks c = 0 then Some (Some None, c, s)
        else receive_wait gaps a c s)"

definition xQueuePeek :: "gaps \<Rightarrow> addr \<Rightarrow> qcall \<Rightarrow> rtos \<Rightarrow> (u8 list option option \<times> qcall \<times> rtos) option" where
  "xQueuePeek gaps a c s =
    (let uxMessages = uxMessagesWaiting (queues s a)
     in if uxMessages > 0
        then do {
          let pcOriginalReadPosition = pcReadFrom (queues s a);
          let (item, s) = prvCopyDataFromQueue a s;
          let s = upd_q a (\<lambda>q. q\<lparr>pcReadFrom := pcOriginalReadPosition\<rparr>) s;
          s \<leftarrow> wake_yield (xTasksWaitingToReceive a) s;
          Some (Some (Some item), c, s)
        }
        else if xTicks c = 0 then Some (Some None, c, s)
        else receive_wait gaps a c s)"

definition xQueueReceiveFromISR :: "addr \<Rightarrow> bool \<Rightarrow> rtos \<Rightarrow> (u8 list option \<times> bool \<times> rtos) option" where
  "xQueueReceiveFromISR a woken s =
    (let uxMessages = uxMessagesWaiting (queues s a)
     in if uxMessages > 0
        then do {
          let lock = cRxLock (queues s a);
          let (item, s) = prvCopyDataFromQueue a s;
          let s = upd_q a (\<lambda>q. q\<lparr>uxMessagesWaiting := uxMessages - 1\<rparr>) s;
          if lock = queueUNLOCKED
          then (if \<not> listLIST_IS_EMPTY (xTasksWaitingToSend a) s
                then do {
                  (b, s) \<leftarrow> on_kern (xTaskRemoveFromEventList (xTasksWaitingToSend a)) s;
                  Some (Some item, (if b then True else woken), s)
                }
                else Some (Some item, woken, s))
          else Some (Some item, woken, upd_q a (\<lambda>q. q\<lparr>cRxLock := lock + 1\<rparr>) s)
        }
        else Some (None, woken, s))"

definition xQueuePeekFromISR :: "addr \<Rightarrow> rtos \<Rightarrow> u8 list option \<times> rtos" where
  "xQueuePeekFromISR a s =
    (if uxMessagesWaiting (queues s a) > 0
     then (let pcOriginalReadPosition = pcReadFrom (queues s a);
               (item, s) = prvCopyDataFromQueue a s
           in (Some item, upd_q a (\<lambda>q. q\<lparr>pcReadFrom := pcOriginalReadPosition\<rparr>) s))
     else (None, s))"

definition uxQueueMessagesWaiting :: "addr \<Rightarrow> rtos \<Rightarrow> u32" where
  "uxQueueMessagesWaiting a s = uxMessagesWaiting (queues s a)"

definition uxQueueSpacesAvailable :: "addr \<Rightarrow> rtos \<Rightarrow> u32" where
  "uxQueueSpacesAvailable a s = uxLength (queues s a) - uxMessagesWaiting (queues s a)"

end
