(* ===== verification/QueueFifo.thy ===== *)
theory QueueFifo imports Queue begin

text \<open>
  The storage of a queue as a bounded sequence. \<open>holds a s xs\<close> says that the ring of the queue at
  \<open>a\<close> is intact and its items, in the order a receiver gets them, are \<open>xs\<close>. The copies into and out
  of the ring are the operations of a double-ended queue on \<open>xs\<close>, whatever the wrap-around of the
  two pointers is, and touch no byte outside the storage.
\<close>

section \<open>The ring\<close>

definition qlen :: "queue \<Rightarrow> nat" where "qlen q = unat (uxLength q)"
definition qisz :: "queue \<Rightarrow> nat" where "qisz q = unat (uxItemSize q)"
definition qcnt :: "queue \<Rightarrow> nat" where "qcnt q = unat (uxMessagesWaiting q)"

definition slot :: "queue \<Rightarrow> nat \<Rightarrow> addr" where
  "slot q j = pcHead q + int j * int (qisz q)"

text \<open>\<open>r\<close> is the slot of the item read last.\<close>

definition ring_ok :: "queue \<Rightarrow> nat \<Rightarrow> bool" where
  "ring_ok q r \<longleftrightarrow> 0 < qisz q \<and> r < qlen q \<and> qcnt q \<le> qlen q \<and> pcTail q = slot q (qlen q) \<and>
     pcReadFrom q = slot q r \<and> pcWriteTo q = slot q ((r + 1 + qcnt q) mod qlen q)"

definition item_at :: "queue \<Rightarrow> (addr \<Rightarrow> u8) \<Rightarrow> nat \<Rightarrow> u8 list" where
  "item_at q m j = memcpy_out (slot q j) (qisz q) m"

definition contents :: "nat \<Rightarrow> queue \<Rightarrow> (addr \<Rightarrow> u8) \<Rightarrow> u8 list list" where
  "contents r q m = map (\<lambda>i. item_at q m ((r + 1 + i) mod qlen q)) [0..<qcnt q]"

definition holds :: "addr \<Rightarrow> rtos \<Rightarrow> u8 list list \<Rightarrow> bool" where
  "holds a s xs \<longleftrightarrow> (\<exists>r. ring_ok (queues s a) r \<and> contents r (queues s a) (bytes s) = xs)"

text \<open>What a copy leaves alone.\<close>

definition storage_only :: "addr \<Rightarrow> rtos \<Rightarrow> rtos \<Rightarrow> bool" where
  "storage_only a s s' \<longleftrightarrow> kern s' = kern s \<and> heap s' = heap s \<and> xQueueRegistry s' = xQueueRegistry s \<and>
     (\<forall>b. b \<noteq> a \<longrightarrow> queues s' b = queues s b) \<and>
     pcHead (queues s' a) = pcHead (queues s a) \<and> pcTail (queues s' a) = pcTail (queues s a) \<and>
     uxLength (queues s' a) = uxLength (queues s a) \<and> uxItemSize (queues s' a) = uxItemSize (queues s a) \<and>
     cRxLock (queues s' a) = cRxLock (queues s a) \<and> cTxLock (queues s' a) = cTxLock (queues s a) \<and>
     (\<forall>x. x < pcHead (queues s a) \<or> pcTail (queues s a) \<le> x \<longrightarrow> bytes s' x = bytes s x)"

section \<open>Slots\<close>

lemma slot_less_iff: "0 < qisz q \<Longrightarrow> slot q i < slot q j \<longleftrightarrow> i < j"
  by (simp add: slot_def)

lemma slot_le_iff: "0 < qisz q \<Longrightarrow> slot q i \<le> slot q j \<longleftrightarrow> i \<le> j"
  by (simp add: slot_def)

lemma slot_eq_iff: "0 < qisz q \<Longrightarrow> slot q i = slot q j \<longleftrightarrow> i = j"
  by (simp add: slot_def)

lemma slot_0: "slot q 0 = pcHead q"
  by (simp add: slot_def)

lemma slot_Suc: "slot q j + int (qisz q) = slot q (Suc j)"
  by (simp add: slot_def algebra_simps)

lemma slot_disjoint:
  assumes "i \<noteq> j" and "k < qisz q"
  shows "\<not> (slot q j \<le> slot q i + int k \<and> slot q i + int k < slot q j + int (qisz q))"
proof
  assume h: "slot q j \<le> slot q i + int k \<and> slot q i + int k < slot q j + int (qisz q)"
  have p: "0 < qisz q" using assms(2) by simp
  show False
  proof (cases "i < j")
    case True
    then have "slot q (Suc i) \<le> slot q j" using p by (simp add: slot_le_iff)
    then show False using h assms(2) slot_Suc [of q i] by simp
  next
    case False
    then have "slot q (Suc j) \<le> slot q i" using p assms(1) by (simp add: slot_le_iff)
    then show False using h assms(2) slot_Suc [of q j] by simp
  qed
qed

lemma memcpy_in_item:
  assumes "qisz q \<le> length x" and "memcpy_in (slot q j) x (qisz q) m = Some m'"
  shows "item_at q m' i = (if i = j then take (qisz q) x else item_at q m i)"
proof -
  have m': "m' = (\<lambda>a. if slot q j \<le> a \<and> a < slot q j + int (qisz q) then x ! nat (a - slot q j) else m a)"
    using assms by (simp add: memcpy_in_def split: if_splits)
  show ?thesis
  proof (cases "i = j")
    case True
    then show ?thesis using assms(1)
      by (auto simp: item_at_def memcpy_out_def m' intro!: nth_equalityI)
  next
    case False
    then show ?thesis
      using slot_disjoint [OF False] by (auto simp: item_at_def memcpy_out_def m')
  qed
qed

lemma memcpy_in_some: "n \<le> length x \<Longrightarrow> \<exists>m'. memcpy_in d x n m = Some m'"
  by (simp add: memcpy_in_def)

lemma memcpy_in_outside:
  "memcpy_in d x n m = Some m' \<Longrightarrow> z < d \<or> d + int n \<le> z \<Longrightarrow> m' z = m z"
  by (auto simp: memcpy_in_def split: if_splits)

text \<open>The ring arithmetic of the three moves.\<close>

lemma mod_inc: "i < n \<Longrightarrow> (if Suc i \<ge> n then 0 else Suc i) = Suc i mod (n :: nat)"
  by (simp add: mod_Suc)

lemma mod_ring_less:
  assumes "i < j" "j < n"
  shows "(r + i) mod n \<noteq> (r + j) mod (n :: nat)"
proof
  assume "(r + i) mod n = (r + j) mod n"
  then have "n dvd (r + j) - (r + i)" using assms mod_eq_dvd_iff_nat [of "r + i" "r + j" n] by simp
  then have "n \<le> j - i" using assms by (intro dvd_imp_le) simp_all
  then show False using assms by simp
qed

lemma mod_ring_inj:
  "i < n \<Longrightarrow> j < n \<Longrightarrow> (r + i) mod n = (r + j) mod (n :: nat) \<longleftrightarrow> i = j"
  by (metis mod_ring_less linorder_neqE_nat)

section \<open>Copies\<close>

lemma contents_length [simp]: "length (contents r q m) = qcnt q"
  by (simp add: contents_def)

lemma holds_length: "holds a s xs \<Longrightarrow> length xs = qcnt (queues s a)"
  by (auto simp: holds_def)

lemma item_at_cong:
  "pcHead q' = pcHead q \<Longrightarrow> qisz q' = qisz q \<Longrightarrow> item_at q' = item_at q"
  by (simp add: item_at_def slot_def fun_eq_iff)

lemma unat_inc: "unat (w :: u32) < 4294967295 \<Longrightarrow> unat (w + 1) = unat w + 1"
  by (simp add: unat_word_ariths)

lemma unat_dec: "0 < unat (w :: u32) \<Longrightarrow> unat (w - 1) = unat w - 1"
  by (metis One_nat_def Suc_leI unat_1 unat_sub word_le_nat_alt)

lemma qcnt_inc:
  assumes "qcnt q < qlen q"
  shows "unat (uxMessagesWaiting q + 1) = qcnt q + 1"
proof -
  have "qcnt q < 4294967295" using assms unat_lt_u32 [of "uxLength q"] unfolding qlen_def by linarith
  then show ?thesis unfolding qcnt_def by (rule unat_inc)
qed

lemma ring_back:
  assumes r: "ring_ok q r" and room: "qcnt q < qlen q" and len: "qisz q \<le> length x"
    and m: "memcpy_in (pcWriteTo q) x (qisz q) m = Some m'"
    and q': "pcHead q' = pcHead q" "pcTail q' = pcTail q" "uxLength q' = uxLength q" "uxItemSize q' = uxItemSize q"
      "pcReadFrom q' = pcReadFrom q" "uxMessagesWaiting q' = uxMessagesWaiting q + 1"
      "pcWriteTo q' = (if pcWriteTo q + int (qisz q) \<ge> pcTail q then pcHead q else pcWriteTo q + int (qisz q))"
  shows "ring_ok q' r \<and> contents r q' m' = contents r q m @ [take (qisz q) x] \<and>
    (\<forall>z. z < pcHead q \<or> pcTail q \<le> z \<longrightarrow> m' z = m z)"
proof -
  define w where "w = (r + 1 + qcnt q) mod qlen q"
  have ok: "0 < qisz q" "r < qlen q" "pcTail q = slot q (qlen q)" "pcReadFrom q = slot q r" "pcWriteTo q = slot q w"
    using r by (simp_all add: ring_ok_def w_def)
  have w: "w < qlen q" using ok(2) by (simp add: w_def)
  have same: "qisz q' = qisz q" "qlen q' = qlen q" "\<And>j. slot q' j = slot q j"
    using q' by (simp_all add: qisz_def qlen_def slot_def)
  have cnt: "qcnt q' = qcnt q + 1" using q'(6) qcnt_inc [OF room] by (simp add: qcnt_def)
  have "pcWriteTo q' = slot q (if Suc w \<ge> qlen q then 0 else Suc w)"
    using q'(7) ok slot_Suc [of q w] by (simp add: slot_le_iff slot_0)
  also have "\<dots> = slot q (Suc w mod qlen q)" using mod_inc [OF w] by simp
  also have "Suc w mod qlen q = (r + 1 + qcnt q') mod qlen q"
    unfolding w_def cnt by (simp add: mod_Suc_eq)
  finally have ro: "ring_ok q' r"
    using ok cnt room q' same by (simp add: ring_ok_def)
  have it: "item_at q' m' j = (if j = w then take (qisz q) x else item_at q m j)" for j
    using memcpy_in_item [OF len m [unfolded ok(5)]] item_at_cong [OF q'(1) same(1)] by simp
  have "contents r q' m' = map (\<lambda>i. item_at q' m' ((r + 1 + i) mod qlen q)) [0..<qcnt q] @ [item_at q' m' w]"
    by (simp add: contents_def cnt same w_def)
  also have "item_at q' m' ((r + 1 + i) mod qlen q) = item_at q m ((r + 1 + i) mod qlen q)" if "i < qcnt q" for i
    using that room it mod_ring_inj [of i "qlen q" "qcnt q" "r + 1"] by (simp add: w_def)
  then have "map (\<lambda>i. item_at q' m' ((r + 1 + i) mod qlen q)) [0..<qcnt q] = contents r q m"
    by (simp add: contents_def)
  finally have "contents r q' m' = contents r q m @ [take (qisz q) x]" by (simp add: it)
  moreover have "m' z = m z" if "z < pcHead q \<or> pcTail q \<le> z" for z
  proof (rule memcpy_in_outside [OF m])
    have "slot q (Suc w) \<le> slot q (qlen q)" using w ok(1) by (simp add: slot_le_iff del: of_nat_Suc)
    moreover have "slot q 0 \<le> slot q w" using ok(1) by (simp add: slot_le_iff)
    ultimately show "z < pcWriteTo q \<or> pcWriteTo q + int (qisz q) \<le> z"
      using that ok slot_Suc [of q w] slot_0 [of q] by linarith
  qed
  ultimately show ?thesis using ro by blast
qed

lemma ring_front:
  assumes r: "ring_ok q r" and room: "qcnt q < qlen q" and len: "qisz q \<le> length x"
    and m: "memcpy_in (pcReadFrom q) x (qisz q) m = Some m'"
    and q': "pcHead q' = pcHead q" "pcTail q' = pcTail q" "uxLength q' = uxLength q" "uxItemSize q' = uxItemSize q"
      "pcWriteTo q' = pcWriteTo q" "uxMessagesWaiting q' = uxMessagesWaiting q + 1"
      "pcReadFrom q' = (if pcReadFrom q - int (qisz q) < pcHead q then pcTail q - int (qisz q)
        else pcReadFrom q - int (qisz q))"
  shows "ring_ok q' (if r = 0 then qlen q - 1 else r - 1) \<and>
    contents (if r = 0 then qlen q - 1 else r - 1) q' m' = take (qisz q) x # contents r q m \<and>
    (\<forall>z. z < pcHead q \<or> pcTail q \<le> z \<longrightarrow> m' z = m z)"
proof -
  define r' where "r' = (if r = 0 then qlen q - 1 else r - 1)"
  have ok: "0 < qisz q" "r < qlen q" "pcTail q = slot q (qlen q)" "pcReadFrom q = slot q r"
    "pcWriteTo q = slot q ((r + 1 + qcnt q) mod qlen q)"
    using r by (simp_all add: ring_ok_def)
  have r': "r' < qlen q" "Suc r' mod qlen q = r" using ok(2) by (auto simp: r'_def mod_Suc)
  have same: "qisz q' = qisz q" "qlen q' = qlen q" "\<And>j. slot q' j = slot q j"
    using q' by (simp_all add: qisz_def qlen_def slot_def)
  have cnt: "qcnt q' = qcnt q + 1" using q'(6) qcnt_inc [OF room] by (simp add: qcnt_def)
  have shift: "(r' + 1 + Suc i) mod qlen q = (r + 1 + i) mod qlen q" for i
  proof -
    have "(r' + 1 + Suc i) mod qlen q = (Suc r' mod qlen q + (1 + i)) mod qlen q"
      unfolding mod_add_left_eq by simp
    then show ?thesis using r' by simp
  qed
  have rd: "pcReadFrom q' = slot q r'"
  proof (cases r)
    case 0
    then show ?thesis using q'(7) ok slot_Suc [of q "qlen q - 1"] by (simp add: slot_0 r'_def)
  next
    case (Suc k)
    then have "pcReadFrom q - int (qisz q) = slot q k" using ok slot_Suc [of q k] by simp
    moreover have "\<not> slot q k < pcHead q" using slot_less_iff [OF ok(1), of k 0] by (simp add: slot_0)
    ultimately show ?thesis using q'(7) Suc by (simp add: r'_def)
  qed
  have ro: "ring_ok q' r'"
    using ok r' cnt room q' same rd shift [of "qcnt q"] by (simp add: ring_ok_def)
  have it: "item_at q' m' j = (if j = r then take (qisz q) x else item_at q m j)" for j
    using memcpy_in_item [OF len m [unfolded ok(4)]] item_at_cong [OF q'(1) same(1)] by simp
  have ne: "(r + 1 + i) mod qlen q \<noteq> r" if "i < qcnt q" for i
    using that room mod_ring_less [of 0 "Suc i" "qlen q" r] ok(2) by simp
  have "contents r' q' m' = map (\<lambda>i. item_at q' m' ((r' + 1 + i) mod qlen q)) (0 # map Suc [0..<qcnt q])"
    unfolding contents_def same cnt by (simp add: upt_conv_Cons map_Suc_upt del: upt_Suc)
  also have "\<dots> = item_at q' m' r # map (\<lambda>i. item_at q' m' ((r + 1 + i) mod qlen q)) [0..<qcnt q]"
    using r' shift by (simp add: comp_def)
  also have "map (\<lambda>i. item_at q' m' ((r + 1 + i) mod qlen q)) [0..<qcnt q] = contents r q m"
    unfolding contents_def using it ne by simp
  finally have "contents r' q' m' = take (qisz q) x # contents r q m" by (simp add: it)
  moreover have "m' z = m z" if "z < pcHead q \<or> pcTail q \<le> z" for z
  proof (rule memcpy_in_outside [OF m])
    have "slot q (Suc r) \<le> slot q (qlen q)" using ok(1,2) by (simp add: slot_le_iff del: of_nat_Suc)
    moreover have "slot q 0 \<le> slot q r" using ok(1) by (simp add: slot_le_iff)
    ultimately show "z < pcReadFrom q \<or> pcReadFrom q + int (qisz q) \<le> z"
      using that ok slot_Suc [of q r] slot_0 [of q] by linarith
  qed
  ultimately show ?thesis using ro by (simp add: r'_def)
qed

lemma ring_from:
  assumes r: "ring_ok q r" and ne: "0 < qcnt q"
    and q': "pcHead q' = pcHead q" "pcTail q' = pcTail q" "uxLength q' = uxLength q" "uxItemSize q' = uxItemSize q"
      "pcWriteTo q' = pcWriteTo q" "uxMessagesWaiting q' = uxMessagesWaiting q - 1"
      "pcReadFrom q' = (if pcReadFrom q + int (qisz q) \<ge> pcTail q then pcHead q else pcReadFrom q + int (qisz q))"
  shows "ring_ok q' (Suc r mod qlen q) \<and>
    contents r q m = memcpy_out (pcReadFrom q') (qisz q) m # contents (Suc r mod qlen q) q' m"
proof -
  have ok: "0 < qisz q" "r < qlen q" "pcTail q = slot q (qlen q)" "pcReadFrom q = slot q r"
    "pcWriteTo q = slot q ((r + 1 + qcnt q) mod qlen q)" "qcnt q \<le> qlen q"
    using r by (simp_all add: ring_ok_def)
  have same: "qisz q' = qisz q" "qlen q' = qlen q" "\<And>j. slot q' j = slot q j"
    using q' by (simp_all add: qisz_def qlen_def slot_def)
  have cnt: "qcnt q = Suc (qcnt q')" using q'(6) unat_dec ne by (simp add: qcnt_def)
  have rd: "pcReadFrom q' = slot q (Suc r mod qlen q)"
    unfolding mod_inc [OF ok(2), symmetric]
    using q'(7) ok slot_Suc [of q r] by (simp add: slot_le_iff slot_0)
  have shift: "(Suc r mod qlen q + 1 + i) mod qlen q = (r + 1 + Suc i) mod qlen q" for i
    by (metis Suc_eq_plus1 add.assoc add_Suc_shift mod_add_left_eq)
  have ro: "ring_ok q' (Suc r mod qlen q)"
    using ok cnt q' same rd shift [of "qcnt q'"] by (simp add: ring_ok_def)
  have "contents r q m = map (\<lambda>i. item_at q m ((r + 1 + i) mod qlen q)) (0 # map Suc [0..<qcnt q'])"
    unfolding contents_def cnt by (simp add: upt_conv_Cons map_Suc_upt del: upt_Suc)
  also have "\<dots> = item_at q m (Suc r mod qlen q) # map (\<lambda>i. item_at q m ((Suc r mod qlen q + 1 + i) mod qlen q)) [0..<qcnt q']"
    using shift by (simp add: comp_def)
  also have "item_at q m = item_at q' m" using item_at_cong [OF q'(1) same(1)] by simp
  finally have "contents r q m = item_at q' m (Suc r mod qlen q) # contents (Suc r mod qlen q) q' m"
    unfolding contents_def same .
  then show ?thesis using ro rd same by (simp add: item_at_def)
qed

section \<open>The copies of the code\<close>

lemma int_unat_uint: "int (qisz q) = uint (uxItemSize q)"
  by (simp add: qisz_def)

lemma qisz_pos: "0 < qisz q \<longleftrightarrow> uxItemSize q \<noteq> 0"
  by (simp add: qisz_def unat_gt_0)

text \<open>A message that fits is copied: which queue state the code leaves.\<close>

lemma prvCopyDataToQueue_back:
  assumes h: "holds a s xs" and room: "length xs < qlen (queues s a)" and len: "qisz (queues s a) \<le> length x"
  shows "\<exists>s'. prvCopyDataToQueue a x queueSEND_TO_BACK s = Some (False, s') \<and> storage_only a s s' \<and>
    holds a s' (xs @ [take (qisz (queues s a)) x])"
proof -
  let ?q = "queues s a"
  from h obtain r where r: "ring_ok ?q r" "contents r ?q (bytes s) = xs" by (auto simp: holds_def)
  have c: "qcnt ?q < qlen ?q" using room holds_length [OF h] by simp
  have nz: "uxItemSize ?q \<noteq> 0" using r(1) by (simp add: ring_ok_def qisz_pos)
  obtain m' where m: "memcpy_in (pcWriteTo ?q) x (qisz ?q) (bytes s) = Some m'" using memcpy_in_some [OF len] by blast
  define s' where "s' = upd_q a (\<lambda>q. q\<lparr>pcWriteTo := (if pcWriteTo ?q + int (qisz ?q) \<ge> pcTail ?q then pcHead ?q
     else pcWriteTo ?q + int (qisz ?q)), uxMessagesWaiting := uxMessagesWaiting ?q + 1\<rparr>) (s\<lparr>bytes := m'\<rparr>)"
  have e: "prvCopyDataToQueue a x queueSEND_TO_BACK s = Some (False, s')"
    using nz m by (simp add: prvCopyDataToQueue_def Let_def s'_def qisz_def)
  have "ring_ok (queues s' a) r \<and> contents r (queues s' a) m' = xs @ [take (qisz ?q) x] \<and>
    (\<forall>z. z < pcHead ?q \<or> pcTail ?q \<le> z \<longrightarrow> m' z = bytes s z)"
    unfolding r(2) [symmetric] by (rule ring_back [OF r(1) c len m]) (simp_all add: s'_def)
  then show ?thesis using e by (auto simp: holds_def storage_only_def s'_def)
qed

lemma prvCopyDataToQueue_front:
  assumes h: "holds a s xs" and room: "length xs < qlen (queues s a)" and len: "qisz (queues s a) \<le> length x"
  shows "\<exists>s'. prvCopyDataToQueue a x queueSEND_TO_FRONT s = Some (False, s') \<and> storage_only a s s' \<and>
    holds a s' (take (qisz (queues s a)) x # xs)"
proof -
  let ?q = "queues s a"
  from h obtain r where r: "ring_ok ?q r" "contents r ?q (bytes s) = xs" by (auto simp: holds_def)
  have c: "qcnt ?q < qlen ?q" using room holds_length [OF h] by simp
  have nz: "uxItemSize ?q \<noteq> 0" using r(1) by (simp add: ring_ok_def qisz_pos)
  obtain m' where m: "memcpy_in (pcReadFrom ?q) x (qisz ?q) (bytes s) = Some m'" using memcpy_in_some [OF len] by blast
  define s' where "s' = upd_q a (\<lambda>q. q\<lparr>pcReadFrom := (if pcReadFrom ?q - int (qisz ?q) < pcHead ?q
     then pcTail ?q - int (qisz ?q) else pcReadFrom ?q - int (qisz ?q)), uxMessagesWaiting := uxMessagesWaiting ?q + 1\<rparr>)
     (s\<lparr>bytes := m'\<rparr>)"
  have e: "prvCopyDataToQueue a x queueSEND_TO_FRONT s = Some (False, s')"
    using nz m by (simp add: prvCopyDataToQueue_def Let_def s'_def qisz_def)
  have "ring_ok (queues s' a) (if r = 0 then qlen ?q - 1 else r - 1) \<and>
    contents (if r = 0 then qlen ?q - 1 else r - 1) (queues s' a) m' = take (qisz ?q) x # xs \<and>
    (\<forall>z. z < pcHead ?q \<or> pcTail ?q \<le> z \<longrightarrow> m' z = bytes s z)"
    unfolding r(2) [symmetric] by (rule ring_front [OF r(1) c len m]) (simp_all add: s'_def)
  then show ?thesis using e by (auto simp: holds_def storage_only_def s'_def)
qed

lemma prvCopyDataFromQueue_head:
  assumes h: "holds a s (x # xs)"
  shows "\<exists>s'. prvCopyDataFromQueue a s = (x, s') \<and> storage_only a s s' \<and> bytes s' = bytes s \<and>
    uxMessagesWaiting (queues s' a) = uxMessagesWaiting (queues s a) \<and>
    holds a (upd_q a (\<lambda>q. q\<lparr>uxMessagesWaiting := uxMessagesWaiting (queues s a) - 1\<rparr>) s') xs \<and>
    holds a (upd_q a (\<lambda>q. q\<lparr>pcReadFrom := pcReadFrom (queues s a)\<rparr>) s') (x # xs)"
proof -
  let ?q = "queues s a"
  from h obtain r where r: "ring_ok ?q r" "contents r ?q (bytes s) = x # xs" by (auto simp: holds_def)
  have c: "0 < qcnt ?q" using holds_length [OF h] by simp
  have nz: "uxItemSize ?q \<noteq> 0" using r(1) by (simp add: ring_ok_def qisz_pos)
  define p where "p = (if pcReadFrom ?q + int (qisz ?q) \<ge> pcTail ?q then pcHead ?q else pcReadFrom ?q + int (qisz ?q))"
  define s' where "s' = upd_q a (\<lambda>q. q\<lparr>pcReadFrom := p\<rparr>) s"
  have e: "prvCopyDataFromQueue a s = (memcpy_out p (qisz ?q) (bytes s), s')"
    using nz by (simp add: prvCopyDataFromQueue_def Let_def s'_def p_def qisz_def)
  let ?q' = "?q\<lparr>pcReadFrom := p, uxMessagesWaiting := uxMessagesWaiting ?q - 1\<rparr>"
  have "ring_ok ?q' (Suc r mod qlen ?q) \<and>
    contents r ?q (bytes s) = memcpy_out (pcReadFrom ?q') (qisz ?q) (bytes s) # contents (Suc r mod qlen ?q) ?q' (bytes s)"
    by (rule ring_from [OF r(1) c]) (simp_all add: p_def)
  moreover have "holds a (upd_q a (\<lambda>q. q\<lparr>pcReadFrom := pcReadFrom ?q\<rparr>) s') (x # xs)"
    using r by (auto simp: holds_def s'_def)
  ultimately show ?thesis using e r(2) by (auto simp: holds_def storage_only_def s'_def)
qed

end
