(* ===== verification/QueueOps.thy ===== *)
theory QueueOps imports QueueFifo begin

text \<open>
  The operations on queues. First the steps through the scheduler: waking a waiting task, locking and
  unlocking, and one pass through the suspended part of a blocking call, with whatever interrupts do in
  its gaps. Then the operations as those of a bounded sequence, as the interface \<open>message_queue\<close>, and
  their effect on the tasks that wait.
\<close>

section \<open>Steps through the scheduler\<close>

text \<open>Everything but the scheduler is the same.\<close>

definition kern_only :: "rtos \<Rightarrow> rtos \<Rightarrow> bool" where
  "kern_only s s' \<longleftrightarrow> s' = s\<lparr>kern := kern s'\<rparr>"

lemma kern_only_sel:
  assumes "kern_only s s'"
  shows "queues s' = queues s" "bytes s' = bytes s" "heap s' = heap s" "xQueueRegistry s' = xQueueRegistry s"
proof -
  note e = assms [unfolded kern_only_def]
  show "queues s' = queues s" by (subst e) simp
  show "bytes s' = bytes s" by (subst e) simp
  show "heap s' = heap s" by (subst e) simp
  show "xQueueRegistry s' = xQueueRegistry s" by (subst e) simp
qed

lemma kern_only_refl [simp]: "kern_only s s"
  by (simp add: kern_only_def)

lemma kern_only_upd [simp]: "kern_only s (s\<lparr>kern := k\<rparr>)" "kern_only s (yield_api s')  \<longleftrightarrow> kern_only s s'"
  by (cases s; cases s'; simp add: kern_only_def yield_api_def)+

lemma kern_only_trans: "kern_only s t \<Longrightarrow> kern_only t u \<Longrightarrow> kern_only s u"
  by (cases s; cases t; cases u) (simp add: kern_only_def)

lemma holds_kern_only: "kern_only s s' \<Longrightarrow> holds a s' xs \<longleftrightarrow> holds a s xs"
  by (simp add: holds_def kern_only_sel)

lemma holds_kern [simp]: "holds a (s\<lparr>kern := k\<rparr>) xs = holds a s xs" "holds a (yield_api s) xs = holds a s xs"
  by (simp_all add: holds_def yield_api_def)

lemma kern_yield_api [simp]: "kern (yield_api s) = portYIELD (kern s)"
  by (simp add: yield_api_def)

lemma kernel_portYIELD [simp]: "kernel_inv b i (portYIELD k) = kernel_inv b i k"
  by (simp add: yieldable_fields portYIELD_def)

lemma kernel_missed [simp]: "kernel_inv b i (vTaskMissedYield k) = kernel_inv b i k"
  by (simp add: vTaskMissedYield_def)

text \<open>Waking the first waiting task, if there is one.\<close>

definition woken :: "sched \<Rightarrow> sched \<Rightarrow> addr \<Rightarrow> bool" where
  "woken k k' t \<longleftrightarrow> (if uxSchedulerSuspended k = 0
     then tcbs k' t = (tcbs k t)\<lparr>stContainer := Some (Ready (prio k t)), evContainer := None\<rparr>
     else tcbs k' t = (tcbs k t)\<lparr>evContainer := Some xPendingReadyList\<rparr>)"

lemma on_kern_remove:
  assumes "kernel_ok i (kern s)" and "ev_items (kern s) (EventList l) = t # ts"
  shows "\<exists>s'. on_kern (xTaskRemoveFromEventList l) s = Some (prio (kern s) t > prio (kern s) (pxCurrentTCB (kern s)), s') \<and>
    kern_only s s' \<and> kernel_ok i (kern s') \<and> ev_items (kern s') (EventList l) = ts \<and> woken (kern s) (kern s') t \<and>
    (\<forall>u. u \<noteq> t \<longrightarrow> tcbs (kern s') u = tcbs (kern s) u) \<and> globy (kern s') = globy (kern s)"
  using xTaskRemoveFromEventList_spec [OF assms] by (auto simp: on_kern_def woken_def split: if_splits)

definition wake_result :: "addr \<Rightarrow> addr \<Rightarrow> rtos \<Rightarrow> rtos \<Rightarrow> bool" where
  "wake_result i l s s' \<longleftrightarrow> kern_only s s' \<and> kernel_ok i (kern s') \<and>
    ev_items (kern s') (EventList l) = tl (ev_items (kern s) (EventList l)) \<and>
    (case ev_items (kern s) (EventList l) of [] \<Rightarrow> s' = s
     | t # _ \<Rightarrow> woken (kern s) (kern s') t \<and> (\<forall>u. u \<noteq> t \<longrightarrow> tcbs (kern s') u = tcbs (kern s) u) \<and>
         pxCurrentTCB (kern s') = pxCurrentTCB (kern s) \<and> uxSchedulerSuspended (kern s') = uxSchedulerSuspended (kern s) \<and>
         (prio (kern s) t > prio (kern s) (pxCurrentTCB (kern s)) \<longrightarrow> yield_requested (kern s')))"

lemma wake_yield_spec:
  assumes "kernel_ok i (kern s)"
  shows "\<exists>s'. wake_yield l s = Some s' \<and> wake_result i l s s'"
proof (cases "ev_items (kern s) (EventList l)")
  case Nil
  then show ?thesis using assms by (simp add: wake_yield_def listLIST_IS_EMPTY_def wake_result_def)
next
  case (Cons t ts)
  obtain s' where s': "on_kern (xTaskRemoveFromEventList l) s = Some (prio (kern s) t > prio (kern s) (pxCurrentTCB (kern s)), s')"
    "kern_only s s'" "kernel_ok i (kern s')" "ev_items (kern s') (EventList l) = ts" "woken (kern s) (kern s') t"
    "\<forall>u. u \<noteq> t \<longrightarrow> tcbs (kern s') u = tcbs (kern s) u" "globy (kern s') = globy (kern s)"
    using on_kern_remove [OF assms Cons] by blast
  have y: "woken (kern s) (portYIELD (kern s')) t" "ev_items (portYIELD (kern s')) (EventList l) = ts"
    "tcbs (portYIELD k) = tcbs k" "pxCurrentTCB (portYIELD k) = pxCurrentTCB k"
    "uxSchedulerSuspended (portYIELD k) = uxSchedulerSuspended k" "yield_requested (portYIELD k)" for k
    using s' by (simp_all add: woken_def portYIELD_def)
  show ?thesis using s' Cons y globy_sel [OF s'(7)]
    by (auto simp: wake_yield_def listLIST_IS_EMPTY_def wake_result_def)
qed

text \<open>Waking up to \<open>n\<close> tasks while the scheduler is suspended.\<close>

lemma unlock_wake_spec:
  assumes "kernel_ok i (kern s)"
  shows "\<exists>s'. unlock_wake n l s = Some s' \<and> kern_only s s' \<and> kernel_ok i (kern s') \<and>
    ev_items (kern s') (EventList l) = drop n (ev_items (kern s) (EventList l)) \<and>
    (\<forall>u. u \<notin> set (take n (ev_items (kern s) (EventList l))) \<longrightarrow> tcbs (kern s') u = tcbs (kern s) u) \<and>
    (\<forall>t \<in> set (take n (ev_items (kern s) (EventList l))). woken (kern s) (kern s') t) \<and>
    pxCurrentTCB (kern s') = pxCurrentTCB (kern s) \<and> uxSchedulerSuspended (kern s') = uxSchedulerSuspended (kern s) \<and>
    globy (kern s') = globy (kern s)"
  using assms
proof (induction n arbitrary: s)
  case (Suc n)
  show ?case
  proof (cases "ev_items (kern s) (EventList l)")
    case Nil
    then show ?thesis using Suc.prems by (simp add: listLIST_IS_EMPTY_def)
  next
    case (Cons t ts)
    obtain b u where u: "on_kern (xTaskRemoveFromEventList l) s = Some (b, u)"
      "kern_only s u" "kernel_ok i (kern u)" "ev_items (kern u) (EventList l) = ts" "woken (kern s) (kern u) t"
      "\<forall>x. x \<noteq> t \<longrightarrow> tcbs (kern u) x = tcbs (kern s) x" "globy (kern u) = globy (kern s)"
      using on_kern_remove [OF Suc.prems Cons] by blast
    define v where "v = (if b then u\<lparr>kern := vTaskMissedYield (kern u)\<rparr> else u)"
    have v: "kern_only s v" "kernel_ok i (kern v)" "ev_items (kern v) (EventList l) = ts" "tcbs (kern v) = tcbs (kern u)"
      "pxCurrentTCB (kern v) = pxCurrentTCB (kern s)" "uxSchedulerSuspended (kern v) = uxSchedulerSuspended (kern s)"
      "globy (kern v) = globy (kern s)"
      using u globy_sel [OF u(7)] by (auto simp: v_def vTaskMissedYield_def intro: kern_only_trans)
    have st: "unlock_wake (Suc n) l s = unlock_wake n l v"
      using u(1) Cons by (simp add: listLIST_IS_EMPTY_def v_def)
    have d: "distinct (t # ts)"
      using Cons sched_invD(2) [OF kernel_invD(1) [OF Suc.prems]] by (auto simp: ev_ok_def klist_ok_def dest!: spec [of _ "EventList l"])
    obtain s' where s': "unlock_wake n l v = Some s'" "kern_only v s'" "kernel_ok i (kern s')"
      "ev_items (kern s') (EventList l) = drop n ts" "\<forall>x. x \<notin> set (take n ts) \<longrightarrow> tcbs (kern s') x = tcbs (kern v) x"
      "\<forall>x \<in> set (take n ts). woken (kern v) (kern s') x"
      "pxCurrentTCB (kern s') = pxCurrentTCB (kern s)" "uxSchedulerSuspended (kern s') = uxSchedulerSuspended (kern s)"
      "globy (kern s') = globy (kern s)"
      using Suc.IH [OF v(2)] v by auto
    have tn: "t \<notin> set (take n ts)" using d by (meson distinct.simps(2) in_set_takeD)
    have "woken (kern s) (kern s') t" using u(5) s'(5) v tn by (simp add: woken_def)
    moreover have "woken (kern s) (kern s') x" if "x \<in> set (take n ts)" for x
    proof -
      have "x \<noteq> t" using that tn by auto
      then show ?thesis using s'(6) that u(6) v by (simp add: woken_def)
    qed
    ultimately show ?thesis
      using st s' v Cons u(6) by (auto intro: kern_only_trans)
  qed
qed simp

section \<open>A queue as an interface\<close>

text \<open>What a client of a bounded queue of messages relies on when it does not block.\<close>

datatype 'm qop = Send 'm | Recv

datatype 'm qres = Sent bool | Received "'m option"

fun queue_run :: "('m \<Rightarrow> 's \<Rightarrow> (bool \<times> 's) option) \<Rightarrow> ('s \<Rightarrow> ('m option \<times> 's) option) \<Rightarrow> 'm qop list \<Rightarrow> 's \<Rightarrow>
    ('m qres list \<times> 's) option" where
  "queue_run send recv [] s = Some ([], s)"
| "queue_run send recv (Send m # ops) s =
    (case send m s of None \<Rightarrow> None
     | Some (b, s) \<Rightarrow> map_option (\<lambda>(rs, s). (Sent b # rs, s)) (queue_run send recv ops s))"
| "queue_run send recv (Recv # ops) s =
    (case recv s of None \<Rightarrow> None
     | Some (x, s) \<Rightarrow> map_option (\<lambda>(rs, s). (Received x # rs, s)) (queue_run send recv ops s))"

text \<open>The bounded sequence.\<close>

fun seq_run :: "nat \<Rightarrow> 'm qop list \<Rightarrow> 'm list \<Rightarrow> 'm qres list \<times> 'm list" where
  "seq_run cap [] xs = ([], xs)"
| "seq_run cap (Send m # ops) xs =
    (if length xs < cap then (case seq_run cap ops (xs @ [m]) of (rs, ys) \<Rightarrow> (Sent True # rs, ys))
     else (case seq_run cap ops xs of (rs, ys) \<Rightarrow> (Sent False # rs, ys)))"
| "seq_run cap (Recv # ops) [] = (case seq_run cap ops [] of (rs, ys) \<Rightarrow> (Received None # rs, ys))"
| "seq_run cap (Recv # ops) (x # xs) = (case seq_run cap ops xs of (rs, ys) \<Rightarrow> (Received (Some x) # rs, ys))"

fun sends :: "'m qop list \<Rightarrow> 'm list" where
  "sends [] = []" | "sends (Send m # ops) = m # sends ops" | "sends (Recv # ops) = sends ops"

fun accepted :: "'m qop list \<Rightarrow> 'm qres list \<Rightarrow> 'm list" where
  "accepted (Send m # ops) (Sent True # rs) = m # accepted ops rs"
| "accepted (_ # ops) (_ # rs) = accepted ops rs"
| "accepted _ _ = []"

fun delivered :: "'m qres list \<Rightarrow> 'm list" where
  "delivered [] = []" | "delivered (Received (Some m) # rs) = m # delivered rs" | "delivered (_ # rs) = delivered rs"

locale message_queue =
  fixes inv :: "'s \<Rightarrow> 'm list \<Rightarrow> bool"
    and cap :: nat
    and msg :: "'m \<Rightarrow> bool"
    and send :: "'m \<Rightarrow> 's \<Rightarrow> (bool \<times> 's) option"
    and recv :: "'s \<Rightarrow> ('m option \<times> 's) option"
  assumes bound: "inv s xs \<Longrightarrow> length xs \<le> cap"
    and send_room: "inv s xs \<Longrightarrow> length xs < cap \<Longrightarrow> msg m \<Longrightarrow> \<exists>s'. send m s = Some (True, s') \<and> inv s' (xs @ [m])"
    and send_full: "inv s xs \<Longrightarrow> length xs = cap \<Longrightarrow> msg m \<Longrightarrow> send m s = Some (False, s)"
    and recv_some: "inv s (x # xs) \<Longrightarrow> \<exists>s'. recv s = Some (Some x, s') \<and> inv s' xs"
    and recv_none: "inv s [] \<Longrightarrow> recv s = Some (None, s)"
begin

lemma run_refines:
  "inv s xs \<Longrightarrow> list_all msg (sends ops) \<Longrightarrow> seq_run cap ops xs = (rs, ys) \<Longrightarrow>
    \<exists>s'. queue_run send recv ops s = Some (rs, s') \<and> inv s' ys"
proof (induction ops arbitrary: s xs rs ys)
  case (Cons op ops)
  show ?case
  proof (cases op)
    case (Send m)
    define b where "b = (length xs < cap)"
    obtain s1 where s1: "send m s = Some (b, s1)" "inv s1 (if b then xs @ [m] else xs)"
      using send_room [OF Cons.prems(1), of m] send_full [OF Cons.prems(1), of m] bound [OF Cons.prems(1)]
        Cons.prems Send by (cases b) (auto simp: b_def)
    obtain rs' where r: "seq_run cap ops (if b then xs @ [m] else xs) = (rs', ys)" "rs = Sent b # rs'"
      using Cons.prems(3) Send by (auto simp: b_def split: if_splits prod.splits)
    have "list_all msg (sends ops)" using Cons.prems(2) Send by simp
    from Cons.IH [OF s1(2) this r(1)] s1(1) r(2) Send show ?thesis by auto
  next
    case Recv
    obtain s1 where s1: "recv s = Some (if xs = [] then None else Some (hd xs), s1)" "inv s1 (tl xs)"
      using recv_none [of s] recv_some [of s "hd xs" "tl xs"] Cons.prems(1) by (cases xs) auto
    obtain rs' where r: "seq_run cap ops (tl xs) = (rs', ys)" "rs = Received (if xs = [] then None else Some (hd xs)) # rs'"
      using Cons.prems(3) Recv by (cases xs) (auto split: prod.splits)
    have "list_all msg (sends ops)" using Cons.prems(2) Recv by simp
    from Cons.IH [OF s1(2) this r(1)] s1(1) r(2) Recv show ?thesis by auto
  qed
qed auto

end

text \<open>The sequence delivers what it accepted, in that order: nothing is lost, repeated or overtaken.\<close>

lemma seq_run_fifo:
  "seq_run cap ops xs = (rs, ys) \<Longrightarrow> delivered rs @ ys = xs @ accepted ops rs"
  by (induction cap ops xs arbitrary: rs ys rule: seq_run.induct) (fastforce split: prod.splits if_splits)+

lemma seq_run_bound: "length xs \<le> cap \<Longrightarrow> seq_run cap ops xs = (rs, ys) \<Longrightarrow> length ys \<le> cap"
  by (induction cap ops xs arbitrary: rs ys rule: seq_run.induct) (fastforce split: prod.splits if_splits)+

section \<open>The operations as those of a sequence\<close>

definition qcall0 :: qcall where
  "qcall0 = \<lparr>xEntryTimeSet = False, xTimeOut = \<lparr>xOverflowCount = 0, xTimeOnEntering = 0\<rparr>, xTicks = 0\<rparr>"

text \<open>A queue of \<open>cap\<close> items of \<open>isz\<close> bytes, holding \<open>xs\<close>.\<close>

definition queue_inv :: "addr \<Rightarrow> addr \<Rightarrow> nat \<Rightarrow> nat \<Rightarrow> rtos \<Rightarrow> u8 list list \<Rightarrow> bool" where
  "queue_inv i a cap isz s xs \<longleftrightarrow> kernel_ok i (kern s) \<and> holds a s xs \<and>
     qlen (queues s a) = cap \<and> qisz (queues s a) = isz"

lemma queue_inv_kern:
  "queue_inv i a cap isz s xs \<Longrightarrow> kern_only s s' \<Longrightarrow> kernel_ok i (kern s') \<Longrightarrow> queue_inv i a cap isz s' xs"
  by (simp add: queue_inv_def holds_kern_only kern_only_sel)

lemma queue_inv_bound: "queue_inv i a cap isz s xs \<Longrightarrow> length xs \<le> cap"
  using holds_length by (auto simp: queue_inv_def holds_def ring_ok_def)

lemma queue_inv_full:
  "queue_inv i a cap isz s xs \<Longrightarrow> uxMessagesWaiting (queues s a) < uxLength (queues s a) \<longleftrightarrow> length xs < cap"
  using holds_length [of a s xs] by (simp add: queue_inv_def qlen_def qcnt_def word_less_nat_alt)

lemma queue_inv_empty:
  "queue_inv i a cap isz s xs \<Longrightarrow> uxMessagesWaiting (queues s a) = 0 \<longleftrightarrow> xs = []"
  using holds_length [of a s xs] by (auto simp: queue_inv_def qcnt_def unat_eq_0)

lemma queue_inv_storage:
  "queue_inv i a cap isz s xs \<Longrightarrow> storage_only a s s' \<Longrightarrow> holds a s' ys \<Longrightarrow> queue_inv i a cap isz s' ys"
  by (simp add: queue_inv_def storage_only_def qlen_def qisz_def)

lemma wake_queue_inv:
  assumes "queue_inv i a cap isz s xs"
  shows "\<exists>s'. wake_yield l s = Some s' \<and> wake_result i l s s' \<and> queue_inv i a cap isz s' xs"
proof -
  have "kernel_ok i (kern s)" using assms by (simp add: queue_inv_def)
  from wake_yield_spec [OF this, of l] obtain s' where s': "wake_yield l s = Some s'" "wake_result i l s s'" by blast
  then have "kern_only s s'" "kernel_ok i (kern s')" by (simp_all add: wake_result_def)
  with s' show ?thesis using queue_inv_kern [OF assms] by blast
qed

lemma wake_yield_Nil: "ev_items (kern s) (EventList l) = [] \<Longrightarrow> wake_yield l s = Some s"
  by (simp add: wake_yield_def listLIST_IS_EMPTY_def)

lemma send_tail:
  assumes "queue_inv i a cap isz s xs"
  shows "\<exists>s'. (if \<not> listLIST_IS_EMPTY (xTasksWaitingToReceive a) s then wake_yield (xTasksWaitingToReceive a) s
      else Some (if False then yield_api s else s)) = Some s' \<and>
    wake_result i (xTasksWaitingToReceive a) s s' \<and> queue_inv i a cap isz s' xs"
  using wake_queue_inv [OF assms, of "xTasksWaitingToReceive a"] wake_yield_Nil [of s "xTasksWaitingToReceive a"]
  by (auto simp: listLIST_IS_EMPTY_def)

text \<open>Sending to a queue with room, and receiving from one with items: the item moves and the first
  task that waits for this is woken.\<close>

lemma xQueueGenericSend_room:
  assumes q: "queue_inv i a cap isz s xs" and room: "length xs < cap" and x: "length x = isz"
    and p: "p = queueSEND_TO_BACK \<and> ys = xs @ [x] \<or> p = queueSEND_TO_FRONT \<and> ys = x # xs"
  shows "\<exists>t s'. xQueueGenericSend gaps a x p c s = Some (Some True, c, s') \<and> queue_inv i a cap isz s' ys \<and>
    storage_only a s t \<and> wake_result i (xTasksWaitingToReceive a) t s'"
proof -
  have h: "holds a s xs" "length xs < qlen (queues s a)" "qisz (queues s a) \<le> length x" "take (qisz (queues s a)) x = x"
    using q room x by (simp_all add: queue_inv_def)
  obtain t where t: "prvCopyDataToQueue a x p s = Some (False, t)" "storage_only a s t" "holds a t ys"
    using p prvCopyDataToQueue_back [OF h(1-3)] prvCopyDataToQueue_front [OF h(1-3)] h(4) by metis
  note tq = queue_inv_storage [OF q t(2,3)]
  obtain s' where s': "(if \<not> listLIST_IS_EMPTY (xTasksWaitingToReceive a) t then wake_yield (xTasksWaitingToReceive a) t
      else Some (if False then yield_api t else t)) = Some s'"
    "wake_result i (xTasksWaitingToReceive a) t s'" "queue_inv i a cap isz s' ys"
    using send_tail [OF tq] by blast
  have "xQueueGenericSend gaps a x p c s = Some (Some True, c, s')"
    using queue_inv_full [OF q] room t(1) s'(1) by (simp add: xQueueGenericSend_def)
  then show ?thesis using s' t(2) by blast
qed

lemma xQueueGenericSend_full:
  assumes q: "queue_inv i a cap isz s xs" and "length xs = cap" and "p \<noteq> queueOVERWRITE" and "xTicks c = 0"
  shows "xQueueGenericSend gaps a x p c s = Some (Some False, c, s)"
  using queue_inv_full [OF q] assms by (simp add: xQueueGenericSend_def)

lemma xQueueReceive_some:
  assumes q: "queue_inv i a cap isz s (x # xs)"
  shows "\<exists>t s'. xQueueReceive gaps a c s = Some (Some (Some x), c, s') \<and> queue_inv i a cap isz s' xs \<and>
    storage_only a s t \<and> bytes t = bytes s \<and> wake_result i (xTasksWaitingToSend a) t s'"
proof -
  have h: "holds a s (x # xs)" using q by (simp add: queue_inv_def)
  obtain u where u: "prvCopyDataFromQueue a s = (x, u)" "storage_only a s u" "bytes u = bytes s"
    "holds a (upd_q a (\<lambda>q. q\<lparr>uxMessagesWaiting := uxMessagesWaiting (queues s a) - 1\<rparr>) u) xs"
    using prvCopyDataFromQueue_head [OF h] by blast
  define t where "t = upd_q a (\<lambda>q. q\<lparr>uxMessagesWaiting := uxMessagesWaiting (queues s a) - 1\<rparr>) u"
  have t: "storage_only a s t" "bytes t = bytes s" using u(2,3) by (simp_all add: storage_only_def t_def)
  have tq: "queue_inv i a cap isz t xs" by (rule queue_inv_storage [OF q t(1)]) (simp add: t_def u(4))
  obtain s' where s': "wake_yield (xTasksWaitingToSend a) t = Some s'" "wake_result i (xTasksWaitingToSend a) t s'"
    "queue_inv i a cap isz s' xs"
    using wake_queue_inv [OF tq] by blast
  have ne: "uxMessagesWaiting (queues s a) > 0" using queue_inv_empty [OF q] by (simp add: word_neq_0_conv)
  have "xQueueReceive gaps a c s = Some (Some (Some x), c, s')"
    using ne u(1) s'(1) by (simp add: xQueueReceive_def Let_def t_def)
  then show ?thesis using s' t by blast
qed

lemma xQueueReceive_none:
  assumes q: "queue_inv i a cap isz s []" and "xTicks c = 0"
  shows "xQueueReceive gaps a c s = Some (Some None, c, s)"
  using queue_inv_empty [OF q] assms by (simp add: xQueueReceive_def)

lemma xQueuePeek_some:
  assumes q: "queue_inv i a cap isz s (x # xs)"
  shows "\<exists>s'. xQueuePeek gaps a c s = Some (Some (Some x), c, s') \<and> queue_inv i a cap isz s' (x # xs)"
proof -
  have h: "holds a s (x # xs)" using q by (simp add: queue_inv_def)
  obtain u where u: "prvCopyDataFromQueue a s = (x, u)" "storage_only a s u"
    "holds a (upd_q a (\<lambda>q. q\<lparr>pcReadFrom := pcReadFrom (queues s a)\<rparr>) u) (x # xs)"
    using prvCopyDataFromQueue_head [OF h] by blast
  define t where "t = upd_q a (\<lambda>q. q\<lparr>pcReadFrom := pcReadFrom (queues s a)\<rparr>) u"
  have t: "storage_only a s t" using u(2) by (simp add: storage_only_def t_def)
  have tq: "queue_inv i a cap isz t (x # xs)" by (rule queue_inv_storage [OF q t(1)]) (simp add: t_def u(3))
  obtain s' where s': "wake_yield (xTasksWaitingToReceive a) t = Some s'" "queue_inv i a cap isz s' (x # xs)"
    using wake_queue_inv [OF tq] by blast
  have ne: "uxMessagesWaiting (queues s a) > 0" using queue_inv_empty [OF q] by (simp add: word_neq_0_conv)
  then show ?thesis
    using u(1) s' by (simp add: xQueuePeek_def Let_def t_def)
qed

text \<open>The non-blocking calls, as the client's operations.\<close>

definition send_now :: "gaps \<Rightarrow> addr \<Rightarrow> u8 list \<Rightarrow> rtos \<Rightarrow> (bool \<times> rtos) option" where
  "send_now gaps a x s =
    (case xQueueGenericSend gaps a x queueSEND_TO_BACK qcall0 s of
       Some (Some b, _, s) \<Rightarrow> Some (b, s) | _ \<Rightarrow> None)"

definition receive_now :: "gaps \<Rightarrow> addr \<Rightarrow> rtos \<Rightarrow> (u8 list option \<times> rtos) option" where
  "receive_now gaps a s =
    (case xQueueReceive gaps a qcall0 s of
       Some (Some r, _, s) \<Rightarrow> Some (r, s) | _ \<Rightarrow> None)"

interpretation mq: message_queue "queue_inv i a cap isz" cap "\<lambda>x. length x = isz" "send_now gaps a" "receive_now gaps a"
  for i a cap isz gaps
proof
  show "\<exists>s'. send_now gaps a m s = Some (True, s') \<and> queue_inv i a cap isz s' (xs @ [m])"
    if "queue_inv i a cap isz s xs" "length xs < cap" "length m = isz" for s xs m
    using xQueueGenericSend_room [OF that, of queueSEND_TO_BACK "xs @ [m]" gaps qcall0] by (auto simp: send_now_def)
  show "\<exists>s'. receive_now gaps a s = Some (Some x, s') \<and> queue_inv i a cap isz s' xs"
    if "queue_inv i a cap isz s (x # xs)" for s x xs
    using xQueueReceive_some [OF that, of gaps qcall0] by (auto simp: receive_now_def)
qed (auto simp: send_now_def receive_now_def qcall0_def xQueueGenericSend_full xQueueReceive_none queue_inv_bound)

end
