(* ===== verification/QueueBlock.thy ===== *)
theory QueueBlock imports QueueOps begin

text \<open>
  Locked queues and blocking calls. While a task is in the suspended part of a pass the queue is
  locked: interrupts that send or receive only count. The lemmas give what unlocking makes of the
  counts, and what a pass does that finds the queue empty or full: the task sleeps on the event
  list for the rest of its time, or the call returns because that time is over.
\<close>

section \<open>Quiet passes\<close>

text \<open>No interrupt in any gap.\<close>

definition no_gaps :: gaps where "no_gaps = (\<lambda>_ s. Some s)"

lemma no_gaps_simp [simp]: "no_gaps n s = Some s"
  by (simp add: no_gaps_def)

text \<open>The tasks' view of a scheduler that is not suspended and has nothing pending.\<close>

definition calm :: "addr \<Rightarrow> sched \<Rightarrow> bool" where
  "calm i k \<longleftrightarrow> kernel_ok i k \<and> uxSchedulerSuspended k = 0 \<and> uxPendedTicks k = 0 \<and>
     ev_items k xPendingReadyList = [] \<and> uxCurrentNumberOfTasks k > 0"

definition asleep :: "addr \<Rightarrow> addr \<Rightarrow> u32 \<Rightarrow> sched \<Rightarrow> sched \<Rightarrow> bool" where
  "asleep i l n k k' \<longleftrightarrow> kernel_ok i k' \<and> pxCurrentTCB k' = pxCurrentTCB k \<and> xTickCount k' = xTickCount k \<and>
     uxSchedulerSuspended k' = 0 \<and> yield_requested k' \<and> (\<forall>u. u \<noteq> pxCurrentTCB k \<longrightarrow> tcbs k' u = tcbs k u) \<and>
     evContainer (tcbs k' (pxCurrentTCB k)) = Some (EventList l) \<and>
     (if n = portMAX_DELAY then stContainer (tcbs k' (pxCurrentTCB k)) = Some xSuspendedTaskList
      else remaining k' (pxCurrentTCB k) = Some (unat n))"

lemma pending_iff: "kernel_ok i k \<Longrightarrow> pending k t \<longleftrightarrow> t \<in> set (ev_items k xPendingReadyList)"
  using ev_okD(1) [OF sched_invD(2) [OF kernel_invD(1)], of True i k t xPendingReadyList] by (auto simp: pending_def)

text \<open>Resuming a scheduler with nothing pending changes no task.\<close>

lemma resume_calm:
  assumes k: "kernel_ok i k" and sus: "uxSchedulerSuspended k = 1" and pt: "uxPendedTicks k = 0"
    and np: "ev_items k xPendingReadyList = []" and n: "uxCurrentNumberOfTasks k > 0"
  shows "\<exists>y k'. xTaskResumeAll k = Some (y, k') \<and> kernel_ok i k' \<and> uxSchedulerSuspended k' = 0 \<and>
    pxCurrentTCB k' = pxCurrentTCB k \<and> xTickCount k' = xTickCount k \<and> tcbs k' = tcbs k \<and>
    (\<forall>t. remaining k' t = remaining k t) \<and> (y \<longrightarrow> yield_requested k')"
proof -
  obtain y k' where r: "xTaskResumeAll k = Some (y, k')" "kernel_ok i k'" "uxSchedulerSuspended k' = 0"
    "pxCurrentTCB k' = pxCurrentTCB k" "xTickCount k' = xTickCount k + uxPendedTicks k" "y \<longrightarrow> yield_requested k'"
    "\<forall>t. \<not> pending k t \<longrightarrow>
      (case remaining k t of None \<Rightarrow> tcbs k' t = tcbs k t \<and> remaining k' t = None
      | Some r \<Rightarrow> if r \<le> unat (uxPendedTicks k)
          then tcbs k' t = (tcbs k t)\<lparr>stContainer := Some (Ready (prio k t)), evContainer := None\<rparr> \<and> remaining k' t = None
          else tcbs k' t = tcbs k t \<and> remaining k' t = Some (r - unat (uxPendedTicks k)))"
    using xTaskResumeAll_spec [OF k sus n] by blast
  have "tcbs k' t = tcbs k t \<and> remaining k' t = remaining k t" for t
    using r(7) [rule_format, of t] pending_iff [OF k, of t] np pt remaining_pos [OF kernel_invD(1) [OF k], of t]
    by (auto split: option.splits if_splits)
  then show ?thesis using r pt by (auto simp: fun_eq_iff)
qed

lemma portYIELD_sel:
  "pxCurrentTCB (portYIELD k) = pxCurrentTCB k" "xTickCount (portYIELD k) = xTickCount k"
  "uxSchedulerSuspended (portYIELD k) = uxSchedulerSuspended k" "yield_requested (portYIELD k)"
  by (simp_all add: portYIELD_def)

text \<open>Nothing to wake: both counts are at most 0.\<close>

definition lock_idle :: "queue \<Rightarrow> bool" where
  "lock_idle q \<longleftrightarrow> sint (cTxLock q) \<le> 0 \<and> sint (cRxLock q) \<le> 0"

definition unlocked :: "queue \<Rightarrow> queue" where
  "unlocked q = q\<lparr>cTxLock := queueUNLOCKED, cRxLock := queueUNLOCKED\<rparr>"

lemma unlock_idle:
  assumes "lock_idle (queues s a)"
  shows "prvUnlockQueue no_gaps a s = Some (upd_q a unlocked s)"
  using assms by (simp add: prvUnlockQueue_def lock_idle_def unlocked_def)

lemma place_and_yield_calm:
  assumes k: "kernel_ok i (kern s)" and r: "running_ready i (kern s)" and sus: "uxSchedulerSuspended (kern s) = 1"
    and pt: "uxPendedTicks (kern s) = 0" and np: "ev_items (kern s) xPendingReadyList = []"
    and nt: "uxCurrentNumberOfTasks (kern s) > 0" and n: "n > 0" and l: "lock_idle (queues s a)"
  shows "\<exists>k'. place_and_yield no_gaps a e n s = Some (upd_q a unlocked (s\<lparr>kern := k'\<rparr>)) \<and> asleep i e n (kern s) k'"
proof -
  obtain k1 where k1: "vTaskPlaceOnEventList e n (kern s) = Some k1"
    "blocked i n True (Some (EventList e)) (evItemValue (tcbs (kern s) (pxCurrentTCB (kern s)))) (kern s) k1"
    "elists k1 = (elists (kern s))(EventList e := klist_insert (\<lambda>u. evItemValue (tcbs (kern s) u))
       (pxCurrentTCB (kern s)) (elists (kern s) (EventList e)))"
    using vTaskPlaceOnEventList_spec [OF k r n] by blast
  have b: "kernel_ok i k1" "globn k1 = globn (kern s)" "\<forall>u. u \<noteq> pxCurrentTCB (kern s) \<longrightarrow> tcbs k1 u = tcbs (kern s) u"
    "evContainer (tcbs k1 (pxCurrentTCB (kern s))) = Some (EventList e)"
    "if suspend_forever n True then stContainer (tcbs k1 (pxCurrentTCB (kern s))) = Some xSuspendedTaskList
     else remaining k1 (pxCurrentTCB (kern s)) = Some (unat n)"
    using k1(2) by (simp_all add: blocked_def Let_def)
  note g = globn_sel [OF b(2)]
  have np1: "ev_items k1 xPendingReadyList = []" using k1(3) np by simp
  have s1: "uxSchedulerSuspended k1 = 1" "uxPendedTicks k1 = 0" "uxCurrentNumberOfTasks k1 > 0" using sus pt nt g by simp_all
  obtain y k2 where k2: "xTaskResumeAll k1 = Some (y, k2)" "kernel_ok i k2" "uxSchedulerSuspended k2 = 0"
    "pxCurrentTCB k2 = pxCurrentTCB k1" "xTickCount k2 = xTickCount k1" "tcbs k2 = tcbs k1"
    "\<forall>t. remaining k2 t = remaining k1 t" "y \<longrightarrow> yield_requested k2"
    using resume_calm [OF b(1) s1(1,2) np1 s1(3)] by blast
  define k' where "k' = (if \<not> y then portYIELD k2 else k2)"
  have q: "queues (s\<lparr>kern := k1\<rparr>) = queues s" by simp
  have "place_and_yield no_gaps a e n s = Some (upd_q a unlocked (s\<lparr>kern := k'\<rparr>))"
    using k1(1) k2(1) unlock_idle [of "s\<lparr>kern := k1\<rparr>" a] l
    by (simp add: place_and_yield_def unlock_resume_def on_kern0_def on_kern_def k'_def yield_api_def)
  moreover have "asleep i e n (kern s) k'"
  proof -
    have "kernel_ok i k'" "pxCurrentTCB k' = pxCurrentTCB (kern s)" "xTickCount k' = xTickCount (kern s)"
      "uxSchedulerSuspended k' = 0" "yield_requested k'" "tcbs k' = tcbs k1" "\<forall>t. remaining k' t = remaining k1 t"
      using k2 g b(1) by (simp_all add: k'_def portYIELD_sel yieldable_fields)
    then show ?thesis using b(3-5) by (simp add: asleep_def suspend_forever_def)
  qed
  ultimately show ?thesis by (intro exI conjI)
qed

text \<open>Entering the suspended part.\<close>

definition locked :: "queue \<Rightarrow> queue" where
  "locked q = q\<lparr>cRxLock := (if cRxLock q = queueUNLOCKED then 0 else cRxLock q),
     cTxLock := (if cTxLock q = queueUNLOCKED then 0 else cTxLock q)\<rparr>"

lemma prvLockQueue_eq: "prvLockQueue a s = upd_q a locked s"
  by (cases s; cases "queues s a") (auto simp: prvLockQueue_def locked_def fun_eq_iff)

lemma enter_no_gaps:
  "enter_suspended no_gaps a s = Some (upd_q a locked (s\<lparr>kern := vTaskSuspendAll (kern s)\<rparr>))"
  by (simp add: enter_suspended_def prvLockQueue_eq)

section \<open>One pass\<close>

text \<open>Less than a full turn of the tick count since the time-out was set.\<close>

definition recent :: "sched \<Rightarrow> TimeOut_t \<Rightarrow> bool" where
  "recent k t \<longleftrightarrow> xNumOfOverflows k = xOverflowCount t \<or> xTickCount k < xTimeOnEntering t"

definition elapsed :: "sched \<Rightarrow> qcall \<Rightarrow> u32" where
  "elapsed k c = (if xEntryTimeSet c then xTickCount k - xTimeOnEntering (xTimeOut c) else 0)"

definition in_time :: "sched \<Rightarrow> qcall \<Rightarrow> bool" where
  "in_time k c \<longleftrightarrow> xTicks c = portMAX_DELAY \<or> elapsed k c < xTicks c"

definition rest :: "sched \<Rightarrow> qcall \<Rightarrow> u32" where
  "rest k c = (if xTicks c = portMAX_DELAY then portMAX_DELAY else xTicks c - elapsed k c)"

text \<open>The call's locals after a pass that goes on, seen from the next.\<close>

definition call_after :: "sched \<Rightarrow> qcall \<Rightarrow> qcall \<Rightarrow> bool" where
  "call_after k c c' \<longleftrightarrow> xEntryTimeSet c' \<and> xTicks c' = rest k c \<and>
     (xTicks c \<noteq> portMAX_DELAY \<longrightarrow> xTimeOut c' = vTaskInternalSetTimeOutState k)"

lemma check_after_entry:
  assumes "kern t = vTaskSuspendAll (kern s)" and "xEntryTimeSet c \<longrightarrow> recent (kern s) (xTimeOut c)"
    and "xTicks c \<noteq> 0"
  shows "fst (check_time_out t (set_entry_time s c)) = (\<not> in_time (kern s) c)"
    "in_time (kern s) c \<Longrightarrow> call_after (kern s) c (snd (check_time_out t (set_entry_time s c)))"
    "in_time (kern s) c \<Longrightarrow> rest (kern s) c \<noteq> 0"
proof -
  have t: "xTickCount (kern t) = xTickCount (kern s)" "xNumOfOverflows (kern t) = xNumOfOverflows (kern s)"
    using assms(1) by (simp_all add: vTaskSuspendAll_def)
  have set: "vTaskInternalSetTimeOutState (kern t) = vTaskInternalSetTimeOutState (kern s)"
    using t by (simp add: vTaskInternalSetTimeOutState_def)
  define c0 where "c0 = set_entry_time s c"
  have c0: "xTicks c0 = xTicks c" "xEntryTimeSet c0" "recent (kern s) (xTimeOut c0)"
    "xTickCount (kern s) - xTimeOnEntering (xTimeOut c0) = elapsed (kern s) c"
    using assms(2) by (auto simp: c0_def set_entry_time_def elapsed_def recent_def vTaskInternalSetTimeOutState_def)
  have e: "check_time_out t c0 =
      (if xTicks c = portMAX_DELAY then (False, c0)
       else if elapsed (kern s) c < xTicks c
       then (False, c0\<lparr>xTimeOut := vTaskInternalSetTimeOutState (kern s), xTicks := xTicks c - elapsed (kern s) c\<rparr>)
       else (True, c0\<lparr>xTicks := 0\<rparr>))"
  proof -
    have nr: "\<not> (xNumOfOverflows (kern s) \<noteq> xOverflowCount (xTimeOut c0) \<and>
        xTimeOnEntering (xTimeOut c0) \<le> xTickCount (kern s))"
      using c0(3) by (auto simp: recent_def)
    show ?thesis
      unfolding check_time_out_def xTaskCheckForTimeOut_def Let_def t set c0(1) c0(4) if_not_P [OF nr]
      by (simp add: c0(1) [symmetric])
  qed
  show "fst (check_time_out t (set_entry_time s c)) = (\<not> in_time (kern s) c)"
    unfolding c0_def [symmetric] e by (simp add: in_time_def)
  show "call_after (kern s) c (snd (check_time_out t (set_entry_time s c)))" if "in_time (kern s) c"
    using that c0 unfolding c0_def [symmetric] e by (auto simp: in_time_def call_after_def rest_def)
  show "rest (kern s) c \<noteq> 0" if "in_time (kern s) c"
    using that by (cases "xTicks c = portMAX_DELAY") (auto simp: in_time_def rest_def)
qed

definition unlocked_q :: "queue \<Rightarrow> bool" where
  "unlocked_q q \<longleftrightarrow> cTxLock q = queueUNLOCKED \<and> cRxLock q = queueUNLOCKED"

lemma lock_unlock:
  assumes "unlocked_q (queues s a)"
  shows "unlocked (locked (queues s a)) = queues s a" "lock_idle (locked (queues s a))"
  using assms by (simp_all add: unlocked_q_def unlocked_def locked_def lock_idle_def)

lemma upd_q_upd_q: "upd_q a f (upd_q a g s) = upd_q a (\<lambda>q. f (g q)) s"
  by simp

lemma upd_q_id: "f (queues s a) = queues s a \<Longrightarrow> upd_q a f s = s"
  by simp

text \<open>The suspended part of a pass, from the state in which it is entered.\<close>

lemma suspended_part:
  assumes c: "calm i (kern s)" and r: "running_ready i (kern s)" and u: "unlocked_q (queues s a)"
  defines "t \<equiv> upd_q a locked (s\<lparr>kern := vTaskSuspendAll (kern s)\<rparr>)"
  shows "n \<noteq> 0 \<Longrightarrow> \<exists>k'. place_and_yield no_gaps a e n t = Some (s\<lparr>kern := k'\<rparr>) \<and> asleep i e n (kern s) k'"
    "\<exists>y k'. unlock_resume no_gaps a t = Some (y, s\<lparr>kern := k'\<rparr>) \<and> kernel_ok i k' \<and> tcbs k' = tcbs (kern s) \<and>
      xTickCount k' = xTickCount (kern s) \<and> uxSchedulerSuspended k' = 0"
proof -
  let ?k = "vTaskSuspendAll (kern s)"
  have k: "kernel_ok i ?k" "running_ready i ?k" "uxSchedulerSuspended ?k = 1" "uxPendedTicks ?k = 0"
    "ev_items ?k xPendingReadyList = []" "uxCurrentNumberOfTasks ?k > 0" "tcbs ?k = tcbs (kern s)"
    "xTickCount ?k = xTickCount (kern s)" "pxCurrentTCB ?k = pxCurrentTCB (kern s)"
    using c r by (simp_all add: calm_def vTaskSuspendAll_def running_ready_def)
  have kt: "kern t = ?k" "queues t a = locked (queues s a)" by (simp_all add: t_def)
  note lu = lock_unlock [OF u]
  have bk: "upd_q a unlocked (t\<lparr>kern := k'\<rparr>) = s\<lparr>kern := k'\<rparr>" for k'
    using lu(1) by (cases s) (simp add: t_def)
  show "\<exists>k'. place_and_yield no_gaps a e n t = Some (s\<lparr>kern := k'\<rparr>) \<and> asleep i e n (kern s) k'" if n: "n \<noteq> 0"
  proof -
    have "n > 0" using n by (simp add: word_neq_0_conv)
    then obtain k' where "place_and_yield no_gaps a e n t = Some (upd_q a unlocked (t\<lparr>kern := k'\<rparr>))" "asleep i e n ?k k'"
      using place_and_yield_calm [of i t n a e] k kt lu(2) by (auto simp: t_def)
    moreover have "asleep i e n (kern s) k'" using calculation(2) unfolding asleep_def k(7-9) .
    ultimately show ?thesis using bk by auto
  qed
  show "\<exists>y k'. unlock_resume no_gaps a t = Some (y, s\<lparr>kern := k'\<rparr>) \<and> kernel_ok i k' \<and> tcbs k' = tcbs (kern s) \<and>
      xTickCount k' = xTickCount (kern s) \<and> uxSchedulerSuspended k' = 0"
  proof -
    obtain y k' where k': "xTaskResumeAll ?k = Some (y, k')" "kernel_ok i k'" "uxSchedulerSuspended k' = 0"
      "xTickCount k' = xTickCount ?k" "tcbs k' = tcbs ?k"
      using resume_calm [OF k(1,3,4,5,6)] by blast
    have "unlock_resume no_gaps a t = Some (y, upd_q a unlocked (t\<lparr>kern := k'\<rparr>))"
      using unlock_idle [of t a] lu(2) k'(1) by (simp add: unlock_resume_def on_kern_def t_def)
    then show ?thesis using bk k' k(7,8) by auto
  qed
qed

text \<open>A pass of a receiving call that finds the queue empty, and of a sending call that finds it full.\<close>

lemma receive_wait_empty:
  assumes c: "calm i (kern s)" and r: "running_ready i (kern s)" and u: "unlocked_q (queues s a)"
    and e: "uxMessagesWaiting (queues s a) = 0" and n: "xTicks c \<noteq> 0"
    and rec: "xEntryTimeSet c \<longrightarrow> recent (kern s) (xTimeOut c)"
  shows "if in_time (kern s) c
    then \<exists>c' k'. receive_wait no_gaps a c s = Some (None, c', s\<lparr>kern := k'\<rparr>) \<and> call_after (kern s) c c' \<and>
      asleep i (xTasksWaitingToReceive a) (rest (kern s) c) (kern s) k'
    else \<exists>c' k'. receive_wait no_gaps a c s = Some (Some None, c', s\<lparr>kern := k'\<rparr>) \<and> kernel_ok i k' \<and>
      tcbs k' = tcbs (kern s) \<and> xTickCount k' = xTickCount (kern s)"
proof -
  define t where "t = upd_q a locked (s\<lparr>kern := vTaskSuspendAll (kern s)\<rparr>)"
  obtain x c' where ck: "check_time_out t (set_entry_time s c) = (x, c')" by force
  have kt: "kern t = vTaskSuspendAll (kern s)" by (simp add: t_def)
  note ca = check_after_entry [OF kt rec n, unfolded ck fst_conv snd_conv]
  have et: "prvIsQueueEmpty a t" using e by (simp add: prvIsQueueEmpty_def t_def locked_def)
  note sp = suspended_part [OF c r u, folded t_def]
  have w: "receive_wait no_gaps a c s =
     (if \<not> x then do { s \<leftarrow> place_and_yield no_gaps a (xTasksWaitingToReceive a) (xTicks c') t; Some (None, c', s) }
      else do { (_, s) \<leftarrow> unlock_resume no_gaps a t;
                if prvIsQueueEmpty a s then Some (Some None, c', s) else Some (None, c', s) })"
    unfolding receive_wait_def Let_def enter_no_gaps t_def [symmetric] by (simp add: ck et)
  show ?thesis
  proof (cases "in_time (kern s) c")
    case True
    then have x: "\<not> x" "call_after (kern s) c c'" "xTicks c' = rest (kern s) c" "rest (kern s) c \<noteq> 0"
      using ca by (simp_all add: call_after_def)
    obtain k' where "place_and_yield no_gaps a (xTasksWaitingToReceive a) (rest (kern s) c) t = Some (s\<lparr>kern := k'\<rparr>)"
      "asleep i (xTasksWaitingToReceive a) (rest (kern s) c) (kern s) k'"
      using sp(1) [OF x(4)] by blast
    then show ?thesis using True w x by auto
  next
    case False
    then have x: "x" using ca(1) by simp
    obtain y k' where "unlock_resume no_gaps a t = Some (y, s\<lparr>kern := k'\<rparr>)" "kernel_ok i k'"
      "tcbs k' = tcbs (kern s)" "xTickCount k' = xTickCount (kern s)"
      using sp(2) by blast
    moreover have "prvIsQueueEmpty a (s\<lparr>kern := k'\<rparr>)" using e by (simp add: prvIsQueueEmpty_def)
    ultimately show ?thesis using False w x by auto
  qed
qed

lemma send_wait_full:
  assumes c: "calm i (kern s)" and r: "running_ready i (kern s)" and u: "unlocked_q (queues s a)"
    and e: "uxMessagesWaiting (queues s a) = uxLength (queues s a)" and n: "xTicks c \<noteq> 0" and p: "p \<noteq> queueOVERWRITE"
    and rec: "xEntryTimeSet c \<longrightarrow> recent (kern s) (xTimeOut c)"
  shows "if in_time (kern s) c
    then \<exists>c' k'. xQueueGenericSend no_gaps a m p c s = Some (None, c', s\<lparr>kern := k'\<rparr>) \<and> call_after (kern s) c c' \<and>
      asleep i (xTasksWaitingToSend a) (rest (kern s) c) (kern s) k'
    else \<exists>c' k'. xQueueGenericSend no_gaps a m p c s = Some (Some False, c', s\<lparr>kern := k'\<rparr>) \<and> kernel_ok i k' \<and>
      tcbs k' = tcbs (kern s) \<and> xTickCount k' = xTickCount (kern s)"
proof -
  define t where "t = upd_q a locked (s\<lparr>kern := vTaskSuspendAll (kern s)\<rparr>)"
  obtain x c' where ck: "check_time_out t (set_entry_time s c) = (x, c')" by force
  have kt: "kern t = vTaskSuspendAll (kern s)" by (simp add: t_def)
  note ca = check_after_entry [OF kt rec n, unfolded ck fst_conv snd_conv]
  have et: "prvIsQueueFull a t" using e by (simp add: prvIsQueueFull_def t_def locked_def)
  note sp = suspended_part [OF c r u, folded t_def]
  have nr: "\<not> (uxMessagesWaiting (queues s a) < uxLength (queues s a) \<or> p = queueOVERWRITE)" using e p by simp
  have w: "xQueueGenericSend no_gaps a m p c s =
     (if \<not> x then do { s \<leftarrow> place_and_yield no_gaps a (xTasksWaitingToSend a) (xTicks c') t; Some (None, c', s) }
      else do { (_, s) \<leftarrow> unlock_resume no_gaps a t; Some (Some False, c', s) })"
    unfolding xQueueGenericSend_def if_not_P [OF nr] if_not_P [OF n] Let_def enter_no_gaps t_def [symmetric]
    by (simp add: ck et)
  show ?thesis
  proof (cases "in_time (kern s) c")
    case True
    then have x: "\<not> x" "call_after (kern s) c c'" "xTicks c' = rest (kern s) c" "rest (kern s) c \<noteq> 0"
      using ca by (simp_all add: call_after_def)
    obtain k' where "place_and_yield no_gaps a (xTasksWaitingToSend a) (rest (kern s) c) t = Some (s\<lparr>kern := k'\<rparr>)"
      "asleep i (xTasksWaitingToSend a) (rest (kern s) c) (kern s) k'"
      using sp(1) [OF x(4)] by blast
    then show ?thesis using True w x by auto
  next
    case False
    then have x: "x" using ca(1) by simp
    obtain y k' where "unlock_resume no_gaps a t = Some (y, s\<lparr>kern := k'\<rparr>)" "kernel_ok i k'"
      "tcbs k' = tcbs (kern s)" "xTickCount k' = xTickCount (kern s)"
      using sp(2) by blast
    then show ?thesis using False w x by auto
  qed
qed

section \<open>Interrupts and a locked queue\<close>

text \<open>\<open>n\<close> interrupts that give a semaphore.\<close>

fun gives :: "nat \<Rightarrow> addr \<Rightarrow> rtos \<Rightarrow> rtos option" where
  "gives 0 a s = Some s"
| "gives (Suc n) a s = (case xQueueGiveFromISR a False s of None \<Rightarrow> None | Some (_, _, s) \<Rightarrow> gives n a s)"

definition given :: "nat \<Rightarrow> queue \<Rightarrow> queue" where
  "given n q = q\<lparr>uxMessagesWaiting := uxMessagesWaiting q + of_nat n, cTxLock := cTxLock q + of_nat n\<rparr>"

lemma given_Suc: "given (Suc n) q = given n (given 1 q)"
  by (simp add: given_def algebra_simps)

lemma of_nat_not_unlocked:
  assumes "n < 255"
  shows "(of_nat n :: 8 word) \<noteq> -1"
proof
  assume "(of_nat n :: 8 word) = -1"
  then have "unat (of_nat n :: 8 word) = unat (-1 :: 8 word)" by simp
  then show False using assms by (simp add: unat_of_nat unsigned_minus_1_eq_mask mask_eq_exp_minus_1)
qed

lemma gives_locked:
  assumes "cTxLock (queues s a) = of_nat m" and "m + n \<le> 255" and "qcnt (queues s a) + n \<le> qlen (queues s a)"
  shows "gives n a s = Some (upd_q a (given n) s)"
  using assms
proof (induction n arbitrary: s m)
  case 0
  then show ?case by (cases s) (simp add: given_def fun_eq_iff)
next
  case (Suc n)
  let ?q = "queues s a"
  have "(of_nat m :: 8 word) \<noteq> -1" using Suc.prems(2) by (intro of_nat_not_unlocked) simp
  then have l: "cTxLock ?q \<noteq> queueUNLOCKED" using Suc.prems(1) by simp
  have room: "qcnt ?q < qlen ?q" using Suc.prems(3) by simp
  then have lt: "uxMessagesWaiting ?q < uxLength ?q" by (simp add: qcnt_def qlen_def word_less_nat_alt)
  define s1 where "s1 = upd_q a (given 1) s"
  have "xQueueGiveFromISR a False s = Some (True, False, s1)"
    using l lt by (simp add: xQueueGiveFromISR_def Let_def s1_def given_def)
  then have "gives (Suc n) a s = gives n a s1" by simp
  also have "\<dots> = Some (upd_q a (given n) s1)"
  proof (rule Suc.IH)
    show "cTxLock (queues s1 a) = of_nat (Suc m)" using Suc.prems(1) by (simp add: s1_def given_def)
    show "Suc m + n \<le> 255" using Suc.prems(2) by simp
    show "qcnt (queues s1 a) + n \<le> qlen (queues s1 a)"
      using Suc.prems(3) qcnt_inc [OF room] by (simp add: s1_def given_def qcnt_def qlen_def)
  qed
  also have "\<dots> = Some (upd_q a (given (Suc n)) s)" by (simp add: s1_def given_Suc [of n])
  finally show ?case .
qed

lemma sint_lock:
  assumes "n < 256"
  shows "nat (sint (of_nat n :: 8 word)) = (if n \<le> 127 then n else 0)"
proof -
  have u: "uint (of_nat n :: 8 word) = int n" using assms by (simp add: unsigned_of_nat take_bit_nat_eq_self)
  have s: "sint (of_nat n :: 8 word) = (int n + 128) mod 256 - 128"
    unfolding sint_uint u by (simp add: signed_take_bit_eq_take_bit_shift take_bit_eq_mod)
  show ?thesis
  proof (cases "n \<le> 127")
    case True
    then have "(int n + 128) mod 256 = int n + 128" by (intro mod_pos_pos_trivial) simp_all
    then show ?thesis using s True by simp
  next
    case False
    have "(int n + 128) mod 256 = (int n - 128 + 256) mod 256" by (simp add: add.commute)
    also have "\<dots> = (int n - 128) mod 256" by (rule mod_add_self2)
    also have "\<dots> = int n - 128" using assms False by (intro mod_pos_pos_trivial) simp_all
    finally show ?thesis using s assms False by simp
  qed
qed

end
