(* ===== verification/QueueIsr.thy ===== *)
theory QueueIsr imports QueueBlock begin

text \<open>
  Interrupts in the gaps of a call: sends and receives from interrupts on the same queue and ticks, any
  number of them in every gap. Each of them keeps the queue and the scheduler intact and leaves the
  running task in place; hence so does every pass of a call that they interrupt.
\<close>

section \<open>Interrupts in the gaps\<close>

datatype isr = IsrSend "u8 list" send_pos | IsrReceive | IsrPeek | IsrTick

fun isr_step :: "addr \<Rightarrow> isr \<Rightarrow> rtos \<Rightarrow> rtos option" where
  "isr_step a (IsrSend x p) s = map_option (\<lambda>(_, _, s). s) (xQueueGenericSendFromISR a x False p s)"
| "isr_step a IsrReceive s = map_option (\<lambda>(_, _, s). s) (xQueueReceiveFromISR a False s)"
| "isr_step a IsrPeek s = Some (snd (xQueuePeekFromISR a s))"
| "isr_step a IsrTick s = on_kern0 xPortSysTickHandler s"

fun isr_run :: "addr \<Rightarrow> isr list \<Rightarrow> rtos \<Rightarrow> rtos option" where
  "isr_run a [] s = Some s"
| "isr_run a (e # es) s = (case isr_step a e s of None \<Rightarrow> None | Some s \<Rightarrow> isr_run a es s)"

fun isr_ok :: "nat \<Rightarrow> isr \<Rightarrow> bool" where
  "isr_ok isz (IsrSend x p) \<longleftrightarrow> length x = isz \<and> p \<noteq> queueOVERWRITE"
| "isr_ok isz _ \<longleftrightarrow> True"

definition queue_sys :: "addr \<Rightarrow> addr \<Rightarrow> nat \<Rightarrow> nat \<Rightarrow> rtos \<Rightarrow> bool" where
  "queue_sys i a cap isz s \<longleftrightarrow> (\<exists>xs. queue_inv i a cap isz s xs)"

text \<open>The running task stays where it is.\<close>

definition run_kept :: "addr \<Rightarrow> sched \<Rightarrow> sched \<Rightarrow> bool" where
  "run_kept i k k' \<longleftrightarrow> (running_ready i k \<longrightarrow> running_ready i k')"

lemma run_kept_refl [simp]: "run_kept i k k" by (simp add: run_kept_def)

lemma run_kept_trans: "run_kept i k k' \<Longrightarrow> run_kept i k' k'' \<Longrightarrow> run_kept i k k''"
  by (simp add: run_kept_def)

lemma run_keptI:
  assumes "kernel_ok i k" and "pxCurrentTCB k' = pxCurrentTCB k"
    and "\<And>t p. stContainer (tcbs k t) = Some (Ready p) \<Longrightarrow> tcbs k' t = tcbs k t"
  shows "run_kept i k k'"
  using assms by (auto simp: run_kept_def running_ready_def)

lemma queue_sysD: "queue_sys i a cap isz s \<Longrightarrow> kernel_ok i (kern s)"
  by (auto simp: queue_sys_def queue_inv_def)

lemma queue_sys_kern:
  "queue_sys i a cap isz s \<Longrightarrow> kern_only s s' \<Longrightarrow> kernel_ok i (kern s') \<Longrightarrow> queue_sys i a cap isz s'"
  unfolding queue_sys_def using queue_inv_kern by blast

text \<open>Locks do not matter for the contents.\<close>

lemma queue_inv_locks [simp]:
  "queue_inv i a cap isz (upd_q a (\<lambda>q. q\<lparr>cTxLock := x\<rparr>) s) xs = queue_inv i a cap isz s xs"
  "queue_inv i a cap isz (upd_q a (\<lambda>q. q\<lparr>cRxLock := x\<rparr>) s) xs = queue_inv i a cap isz s xs"
  "queue_inv i a cap isz (upd_q a locked s) xs = queue_inv i a cap isz s xs"
  by (simp_all add: queue_inv_def holds_def ring_ok_def contents_def item_at_def slot_def qlen_def qcnt_def qisz_def locked_def)

lemma queue_sys_locks [simp]:
  "queue_sys i a cap isz (upd_q a (\<lambda>q. q\<lparr>cTxLock := x\<rparr>) s) = queue_sys i a cap isz s"
  "queue_sys i a cap isz (upd_q a (\<lambda>q. q\<lparr>cRxLock := x\<rparr>) s) = queue_sys i a cap isz s"
  "queue_sys i a cap isz (upd_q a locked s) = queue_sys i a cap isz s"
  by (simp_all add: queue_sys_def)

text \<open>What an interrupt leaves.\<close>

definition isr_kept :: "addr \<Rightarrow> addr \<Rightarrow> nat \<Rightarrow> nat \<Rightarrow> rtos \<Rightarrow> rtos \<Rightarrow> bool" where
  "isr_kept i a cap isz s s' \<longleftrightarrow> queue_sys i a cap isz s' \<and> run_kept i (kern s) (kern s')"

lemma remove_kept:
  assumes q: "queue_sys i a cap isz s" and ne: "\<not> listLIST_IS_EMPTY l s"
  shows "\<exists>b s'. on_kern (xTaskRemoveFromEventList l) s = Some (b, s') \<and> isr_kept i a cap isz s s'"
proof -
  obtain t ts where ts: "ev_items (kern s) (EventList l) = t # ts"
    using ne by (cases "ev_items (kern s) (EventList l)") (auto simp: listLIST_IS_EMPTY_def)
  note k = queue_sysD [OF q]
  obtain s' where s': "on_kern (xTaskRemoveFromEventList l) s = Some (prio (kern s) t > prio (kern s) (pxCurrentTCB (kern s)), s')"
    "kern_only s s'" "kernel_ok i (kern s')" "\<forall>u. u \<noteq> t \<longrightarrow> tcbs (kern s') u = tcbs (kern s) u" "globy (kern s') = globy (kern s)"
    using on_kern_remove [OF k ts] by blast
  have te: "evContainer (tcbs (kern s) t) = Some (EventList l)"
    using ev_okD(1) [OF sched_invD(2) [OF kernel_invD(1) [OF k]], of t "EventList l"] ts by simp
  have "run_kept i (kern s) (kern s')"
  proof (rule run_keptI [OF k])
    show "pxCurrentTCB (kern s') = pxCurrentTCB (kern s)" using globy_sel [OF s'(5)] by simp
    show "tcbs (kern s') u = tcbs (kern s) u" if "stContainer (tcbs (kern s) u) = Some (Ready p)" for u p
      using s'(4) running_no_event [OF k that] te by (cases "u = t") auto
  qed
  then show ?thesis using s' queue_sys_kern [OF q s'(2,3)] by (auto simp: isr_kept_def)
qed

lemma isr_send_kept:
  assumes q: "queue_sys i a cap isz s" and x: "length x = isz" and p: "p \<noteq> queueOVERWRITE"
  shows "\<exists>r w s'. xQueueGenericSendFromISR a x v p s = Some (r, w, s') \<and> isr_kept i a cap isz s s'"
proof -
  from q obtain xs where qi: "queue_inv i a cap isz s xs" by (auto simp: queue_sys_def)
  show ?thesis
  proof (cases "length xs < cap")
    case False
    then show ?thesis using queue_inv_full [OF qi] p q
      by (intro exI [of _ False] exI [of _ v] exI [of _ s]) (simp add: xQueueGenericSendFromISR_def isr_kept_def)
  next
    case True
    have h: "holds a s xs" "length xs < qlen (queues s a)" "qisz (queues s a) \<le> length x"
      using qi True x by (simp_all add: queue_inv_def)
    obtain t ys where t: "prvCopyDataToQueue a x p s = Some (False, t)" "storage_only a s t" "holds a t ys"
      using p prvCopyDataToQueue_back [OF h] prvCopyDataToQueue_front [OF h] by (cases p) blast+
    have qt: "queue_sys i a cap isz t" using queue_inv_storage [OF qi t(2,3)] by (auto simp: queue_sys_def)
    have kt: "kern t = kern s" using t(2) by (simp add: storage_only_def)
    have lt: "uxMessagesWaiting (queues s a) < uxLength (queues s a)" using queue_inv_full [OF qi] True by simp
    show ?thesis
    proof (cases "cTxLock (queues s a) = queueUNLOCKED \<and> \<not> listLIST_IS_EMPTY (xTasksWaitingToReceive a) t")
      case True
      obtain b s' where "on_kern (xTaskRemoveFromEventList (xTasksWaitingToReceive a)) t = Some (b, s')" "isr_kept i a cap isz t s'"
        using remove_kept [OF qt] True by blast
      then show ?thesis using True lt t(1) kt by (auto simp: xQueueGenericSendFromISR_def Let_def isr_kept_def)
    next
      case False
      then show ?thesis using lt t(1) qt kt by (auto simp: xQueueGenericSendFromISR_def Let_def isr_kept_def)
    qed
  qed
qed

lemma isr_receive_kept:
  assumes q: "queue_sys i a cap isz s"
  shows "\<exists>r w s'. xQueueReceiveFromISR a v s = Some (r, w, s') \<and> isr_kept i a cap isz s s'"
proof -
  from q obtain xs where qi: "queue_inv i a cap isz s xs" by (auto simp: queue_sys_def)
  show ?thesis
  proof (cases xs)
    case Nil
    then show ?thesis using queue_inv_empty [OF qi] q by (simp add: xQueueReceiveFromISR_def isr_kept_def)
  next
    case (Cons x ys)
    have h: "holds a s (x # ys)" using qi Cons by (simp add: queue_inv_def)
    obtain u where u: "prvCopyDataFromQueue a s = (x, u)" "storage_only a s u"
      "holds a (upd_q a (\<lambda>q. q\<lparr>uxMessagesWaiting := uxMessagesWaiting (queues s a) - 1\<rparr>) u) ys"
      using prvCopyDataFromQueue_head [OF h] by blast
    define t where "t = upd_q a (\<lambda>q. q\<lparr>uxMessagesWaiting := uxMessagesWaiting (queues s a) - 1\<rparr>) u"
    have st: "storage_only a s t" using u(2) by (simp add: storage_only_def t_def)
    have qt: "queue_sys i a cap isz t" using queue_inv_storage [OF qi st, of ys] u(3) by (auto simp: t_def queue_sys_def)
    have kt: "kern t = kern s" using st by (simp add: storage_only_def)
    have ne: "uxMessagesWaiting (queues s a) > 0" using queue_inv_empty [OF qi] Cons by (simp add: word_neq_0_conv)
    show ?thesis
    proof (cases "cRxLock (queues s a) = queueUNLOCKED \<and> \<not> listLIST_IS_EMPTY (xTasksWaitingToSend a) t")
      case True
      obtain b s' where "on_kern (xTaskRemoveFromEventList (xTasksWaitingToSend a)) t = Some (b, s')" "isr_kept i a cap isz t s'"
        using remove_kept [OF qt] True by blast
      then show ?thesis using True ne u(1) kt by (auto simp: xQueueReceiveFromISR_def Let_def isr_kept_def t_def [symmetric])
    next
      case False
      then show ?thesis using ne u(1) qt kt by (auto simp: xQueueReceiveFromISR_def Let_def isr_kept_def t_def [symmetric])
    qed
  qed
qed

lemma ticked_same:
  assumes "ticked i n k k'" and "remaining k t = None"
  shows "tcbs k' t = tcbs k t"
proof -
  have "case remaining k t of None \<Rightarrow> tcbs k' t = tcbs k t \<and> remaining k' t = None
      | Some r \<Rightarrow> if r \<le> n
          then tcbs k' t = (tcbs k t)\<lparr>stContainer := Some (Ready (prio k t)), evContainer := None\<rparr> \<and> remaining k' t = None
          else tcbs k' t = tcbs k t \<and> remaining k' t = Some (r - n)"
    using assms(1) unfolding ticked_def by blast
  then show ?thesis unfolding assms(2) by simp
qed

lemma isr_tick_kept:
  assumes q: "queue_sys i a cap isz s"
  shows "\<exists>s'. on_kern0 xPortSysTickHandler s = Some s' \<and> isr_kept i a cap isz s s'"
proof -
  note k = queue_sysD [OF q]
  have "\<exists>r k'. xTaskIncrementTick (kern s) = Some (r, k') \<and> kernel_ok i k' \<and> run_kept i (kern s) k'"
  proof (cases "uxSchedulerSuspended (kern s) = 0")
    case True
    obtain r k' where k': "xTaskIncrementTick (kern s) = Some (r, k')" "ticked i 1 (kern s) k'"
      using tick_ticked [OF k True] by blast
    have "run_kept i (kern s) k'"
    proof (rule run_keptI [OF k])
      show "pxCurrentTCB k' = pxCurrentTCB (kern s)" using k'(2) by (simp add: ticked_def)
      show "tcbs k' t = tcbs (kern s) t" if "stContainer (tcbs (kern s) t) = Some (Ready p)" for t p
      proof -
        have r: "remaining (kern s) t = None" by (rule remaining_not_delayed [OF kernel_invD(1) [OF k] that])
        show ?thesis by (rule ticked_same [OF k'(2) r])
      qed
    qed
    then show ?thesis using k' ticked_D(1) by blast
  next
    case False
    then show ?thesis using k by (simp add: xTaskIncrementTick_def run_kept_def running_ready_def)
  qed
  then obtain r k' where k': "xTaskIncrementTick (kern s) = Some (r, k')" "kernel_ok i k'" "run_kept i (kern s) k'" by blast
  define k2 where "k2 = (if r then portYIELD k' else k')"
  have "kernel_ok i k2" "run_kept i (kern s) k2"
    using k' by (auto simp: k2_def run_kept_def running_ready_def portYIELD_def)
  moreover have "on_kern0 xPortSysTickHandler s = Some (s\<lparr>kern := k2\<rparr>)"
    using k'(1) by (simp add: on_kern0_def xPortSysTickHandler_def k2_def)
  ultimately show ?thesis using queue_sys_kern [OF q, of "s\<lparr>kern := k2\<rparr>"] by (auto simp: isr_kept_def)
qed

lemma isr_peek_kept:
  assumes q: "queue_sys i a cap isz s"
  shows "isr_kept i a cap isz s (snd (xQueuePeekFromISR a s))"
proof -
  from q obtain xs where qi: "queue_inv i a cap isz s xs" by (auto simp: queue_sys_def)
  show ?thesis
  proof (cases xs)
    case Nil
    then show ?thesis using queue_inv_empty [OF qi] q by (simp add: xQueuePeekFromISR_def isr_kept_def)
  next
    case (Cons x ys)
    have h: "holds a s (x # ys)" using qi Cons by (simp add: queue_inv_def)
    obtain u where u: "prvCopyDataFromQueue a s = (x, u)" "storage_only a s u"
      "holds a (upd_q a (\<lambda>q. q\<lparr>pcReadFrom := pcReadFrom (queues s a)\<rparr>) u) (x # ys)"
      using prvCopyDataFromQueue_head [OF h] by blast
    define t where "t = upd_q a (\<lambda>q. q\<lparr>pcReadFrom := pcReadFrom (queues s a)\<rparr>) u"
    have st: "storage_only a s t" using u(2) by (simp add: storage_only_def t_def)
    have "queue_inv i a cap isz t (x # ys)" by (rule queue_inv_storage [OF qi st]) (simp add: t_def u(3))
    then have "queue_sys i a cap isz t" by (auto simp: queue_sys_def)
    moreover have "kern t = kern s" using st by (simp add: storage_only_def)
    moreover have "uxMessagesWaiting (queues s a) > 0" using queue_inv_empty [OF qi] Cons by (simp add: word_neq_0_conv)
    then have "xQueuePeekFromISR a s = (Some x, t)"
      using u(1) by (simp add: xQueuePeekFromISR_def Let_def t_def)
    ultimately show ?thesis by (simp add: isr_kept_def)
  qed
qed

lemma isr_step_kept:
  assumes "queue_sys i a cap isz s" and "isr_ok isz e"
  shows "\<exists>s'. isr_step a e s = Some s' \<and> isr_kept i a cap isz s s'"
proof (cases e)
  case (IsrSend x p)
  then show ?thesis using isr_send_kept [OF assms(1), of x p False] assms(2) by auto
next
  case IsrReceive
  then show ?thesis using isr_receive_kept [OF assms(1), of False] by auto
next
  case IsrPeek
  then show ?thesis using isr_peek_kept [OF assms(1)] by simp
next
  case IsrTick
  then show ?thesis using isr_tick_kept [OF assms(1)] by simp
qed

lemma isr_run_kept:
  "queue_sys i a cap isz s \<Longrightarrow> list_all (isr_ok isz) es \<Longrightarrow> \<exists>s'. isr_run a es s = Some s' \<and> isr_kept i a cap isz s s'"
proof (induction es arbitrary: s)
  case (Cons e es)
  then obtain s1 where s1: "isr_step a e s = Some s1" "isr_kept i a cap isz s s1"
    using isr_step_kept [of i a cap isz s e] by auto
  then obtain s2 where "isr_run a es s1 = Some s2" "isr_kept i a cap isz s1 s2"
    using Cons by (auto simp: isr_kept_def)
  then show ?case using s1 by (auto simp: isr_kept_def intro: run_kept_trans)
qed (simp add: isr_kept_def)

text \<open>What interrupts do in the gaps of a call: a list of them in each.\<close>

definition isr_gaps :: "addr \<Rightarrow> (nat \<Rightarrow> isr list) \<Rightarrow> gaps" where
  "isr_gaps a f n s = isr_run a (f n) s"

definition gaps_kept :: "addr \<Rightarrow> addr \<Rightarrow> nat \<Rightarrow> nat \<Rightarrow> gaps \<Rightarrow> bool" where
  "gaps_kept i a cap isz gaps \<longleftrightarrow>
     (\<forall>n s. queue_sys i a cap isz s \<longrightarrow> (\<exists>s'. gaps n s = Some s' \<and> isr_kept i a cap isz s s'))"

lemma gaps_keptD:
  assumes "gaps_kept i a cap isz gaps" and "queue_sys i a cap isz s"
  obtains s' where "gaps n s = Some s'" "queue_sys i a cap isz s'" "run_kept i (kern s) (kern s')"
  using assms unfolding gaps_kept_def isr_kept_def by blast

lemma isr_gaps_kept: "(\<And>n. list_all (isr_ok isz) (f n)) \<Longrightarrow> gaps_kept i a cap isz (isr_gaps a f)"
  by (simp add: gaps_kept_def isr_gaps_def isr_run_kept)

section \<open>The suspended part with interrupts\<close>

lemma unlock_wake_sys:
  assumes "queue_sys i a cap isz s"
  shows "\<exists>s'. unlock_wake n l s = Some s' \<and> queue_sys i a cap isz s'"
  using unlock_wake_spec [OF queue_sysD [OF assms], of n l] queue_sys_kern [OF assms] by blast

lemma prvUnlockQueue_sys:
  assumes g: "gaps_kept i a cap isz gaps" and q: "queue_sys i a cap isz s"
  shows "\<exists>s'. prvUnlockQueue gaps a s = Some s' \<and> queue_sys i a cap isz s'"
proof -
  obtain s1 where s1: "unlock_wake (nat (sint (cTxLock (queues s a)))) (xTasksWaitingToReceive a) s = Some s1"
    "queue_sys i a cap isz s1" using unlock_wake_sys [OF q] by blast
  define t1 where "t1 = upd_q a (\<lambda>q. q\<lparr>cTxLock := queueUNLOCKED\<rparr>) s1"
  have "queue_sys i a cap isz t1" using s1(2) by (simp add: t1_def)
  then obtain s2 where s2: "gaps 6 t1 = Some s2" "queue_sys i a cap isz s2" by (rule gaps_keptD [OF g])
  obtain s3 where s3: "unlock_wake (nat (sint (cRxLock (queues s2 a)))) (xTasksWaitingToSend a) s2 = Some s3"
    "queue_sys i a cap isz s3" using unlock_wake_sys [OF s2(2)] by blast
  show ?thesis using s1 s2 s3 by (simp add: prvUnlockQueue_def t1_def)
qed

lemma resume_sys:
  assumes q: "queue_sys i a cap isz s"
  shows "\<exists>y s'. on_kern xTaskResumeAll s = Some (y, s') \<and> queue_sys i a cap isz s'"
proof -
  obtain y k' where "xTaskResumeAll (kern s) = Some (y, k')" "kernel_ok i k'"
    using resume_kernel [OF queue_sysD [OF q]] by blast
  then show ?thesis using queue_sys_kern [OF q, of "s\<lparr>kern := k'\<rparr>"] by (auto simp: on_kern_def)
qed

lemma unlock_resume_sys:
  assumes g: "gaps_kept i a cap isz gaps" and q: "queue_sys i a cap isz s"
  shows "\<exists>y s'. unlock_resume gaps a s = Some (y, s') \<and> queue_sys i a cap isz s'"
proof -
  obtain s1 where s1: "prvUnlockQueue gaps a s = Some s1" "queue_sys i a cap isz s1"
    using prvUnlockQueue_sys [OF g q] by blast
  obtain s2 where s2: "gaps 7 s1 = Some s2" "queue_sys i a cap isz s2" by (rule gaps_keptD [OF g s1(2)])
  show ?thesis using s1 s2 resume_sys [OF s2(2)] by (simp add: unlock_resume_def)
qed

lemma place_and_yield_sys:
  assumes g: "gaps_kept i a cap isz gaps" and q: "queue_sys i a cap isz s" and r: "running_ready i (kern s)" and n: "n > 0"
  shows "\<exists>s'. place_and_yield gaps a l n s = Some s' \<and> queue_sys i a cap isz s'"
proof -
  obtain k1 where k1: "vTaskPlaceOnEventList l n (kern s) = Some k1" "kernel_ok i k1"
    using vTaskPlaceOnEventList_spec [OF queue_sysD [OF q] r n, of l] by (auto simp: blocked_def Let_def)
  have q1: "queue_sys i a cap isz (s\<lparr>kern := k1\<rparr>)" using queue_sys_kern [OF q] k1(2) by simp
  obtain s2 where s2: "gaps 5 (s\<lparr>kern := k1\<rparr>) = Some s2" "queue_sys i a cap isz s2" by (rule gaps_keptD [OF g q1])
  obtain y s3 where s3: "unlock_resume gaps a s2 = Some (y, s3)" "queue_sys i a cap isz s3"
    using unlock_resume_sys [OF g s2(2)] by blast
  have "queue_sys i a cap isz (yield_api s3)"
    using queue_sys_kern [OF s3(2), of "yield_api s3"] queue_sysD [OF s3(2)] by simp
  then show ?thesis using k1 s2 s3 by (simp add: place_and_yield_def on_kern0_def)
qed

lemma enter_sys:
  assumes g: "gaps_kept i a cap isz gaps" and q: "queue_sys i a cap isz s" and r: "running_ready i (kern s)"
  shows "\<exists>s'. enter_suspended gaps a s = Some s' \<and> queue_sys i a cap isz s' \<and> running_ready i (kern s')"
proof -
  obtain s1 where s1: "gaps 0 s = Some s1" "queue_sys i a cap isz s1" "run_kept i (kern s) (kern s1)"
    by (rule gaps_keptD [OF g q])
  define t1 where "t1 = s1\<lparr>kern := vTaskSuspendAll (kern s1)\<rparr>"
  have t1: "queue_sys i a cap isz t1" "running_ready i (kern t1)"
    using queue_sys_kern [OF s1(2), of t1] queue_sysD [OF s1(2)] s1(3) r
    by (simp_all add: t1_def vTaskSuspendAll_def run_kept_def running_ready_def)
  obtain s2 where s2: "gaps 1 t1 = Some s2" "queue_sys i a cap isz s2" "run_kept i (kern t1) (kern s2)"
    by (rule gaps_keptD [OF g t1(1)])
  have "queue_sys i a cap isz (prvLockQueue a s2)" using s2(2) by (simp add: prvLockQueue_eq)
  then obtain s3 where s3: "gaps 2 (prvLockQueue a s2) = Some s3" "queue_sys i a cap isz s3"
    "run_kept i (kern (prvLockQueue a s2)) (kern s3)" by (rule gaps_keptD [OF g])
  then show ?thesis using s1 s2 t1 by (simp add: enter_suspended_def t1_def run_kept_def prvLockQueue_eq)
qed

lemma not_expired_ticks:
  assumes "check_time_out s c = (False, c')" and "xTicks c \<noteq> 0"
  shows "xTicks c' > 0"
proof -
  have "xTicks c' \<noteq> 0"
    using assms by (auto simp: check_time_out_def xTaskCheckForTimeOut_def Let_def split: if_splits)
  then show ?thesis by (simp add: word_neq_0_conv)
qed

lemma receive_wait_sys:
  assumes g: "gaps_kept i a cap isz gaps" and q: "queue_sys i a cap isz s" and r: "running_ready i (kern s)"
    and n: "xTicks c \<noteq> 0"
  shows "\<exists>x c' s'. receive_wait gaps a c s = Some (x, c', s') \<and> queue_sys i a cap isz s'"
proof -
  define c1 where "c1 = set_entry_time s c"
  have n1: "xTicks c1 \<noteq> 0" using n by (simp add: c1_def set_entry_time_def)
  obtain s1 where s1: "enter_suspended gaps a s = Some s1" "queue_sys i a cap isz s1" "running_ready i (kern s1)"
    using enter_sys [OF g q r] by blast
  obtain x c2 where ck: "check_time_out s1 c1 = (x, c2)" by force
  obtain s2 where s2: "gaps 3 s1 = Some s2" "queue_sys i a cap isz s2" "run_kept i (kern s1) (kern s2)"
    by (rule gaps_keptD [OF g s1(2)])
  have w: "receive_wait gaps a c s =
    (if \<not> x
     then (if prvIsQueueEmpty a s2
           then do { s \<leftarrow> gaps 4 s2; s \<leftarrow> place_and_yield gaps a (xTasksWaitingToReceive a) (xTicks c2) s; Some (None, c2, s) }
           else do { s \<leftarrow> gaps 4 s2; (_, s) \<leftarrow> unlock_resume gaps a s; Some (None, c2, s) })
     else do { (_, s) \<leftarrow> unlock_resume gaps a s2; s \<leftarrow> gaps 8 s;
       if prvIsQueueEmpty a s then Some (Some None, c2, s) else Some (None, c2, s) })"
    unfolding receive_wait_def c1_def [symmetric] Let_def by (simp add: s1 ck s2)
  show ?thesis
  proof (cases x)
    case True
    obtain y s3 where s3: "unlock_resume gaps a s2 = Some (y, s3)" "queue_sys i a cap isz s3"
      using unlock_resume_sys [OF g s2(2)] by blast
    obtain s4 where "gaps 8 s3 = Some s4" "queue_sys i a cap isz s4" by (rule gaps_keptD [OF g s3(2)])
    then show ?thesis unfolding w using True s3 by simp
  next
    case False
    obtain s3 where s3: "gaps 4 s2 = Some s3" "queue_sys i a cap isz s3" "run_kept i (kern s2) (kern s3)"
      by (rule gaps_keptD [OF g s2(2)])
    have r3: "running_ready i (kern s3)" using s1(3) s2(3) s3(3) by (simp add: run_kept_def)
    have "xTicks c2 > 0" using not_expired_ticks [of s1 c1 c2] ck False n1 by simp
    from place_and_yield_sys [OF g s3(2) r3 this, of "xTasksWaitingToReceive a"] unlock_resume_sys [OF g s3(2)]
    show ?thesis unfolding w using False s3(1) by (cases "prvIsQueueEmpty a s2") auto
  qed
qed

lemma send_sys:
  assumes g: "gaps_kept i a cap isz gaps" and q: "queue_sys i a cap isz s" and r: "running_ready i (kern s)"
    and m: "length m = isz" and p: "p \<noteq> queueOVERWRITE"
  shows "\<exists>x c' s'. xQueueGenericSend gaps a m p c s = Some (x, c', s') \<and> queue_sys i a cap isz s'"
proof -
  from q obtain xs where qi: "queue_inv i a cap isz s xs" by (auto simp: queue_sys_def)
  show ?thesis
  proof (cases "length xs < cap")
    case True
    have "p = queueSEND_TO_BACK \<or> p = queueSEND_TO_FRONT" using p by (cases p) auto
    then show ?thesis
      using xQueueGenericSend_room [OF qi True m, of p _ gaps c] unfolding queue_sys_def by blast
  next
    case False
    then have nr: "\<not> (uxMessagesWaiting (queues s a) < uxLength (queues s a) \<or> p = queueOVERWRITE)"
      using queue_inv_full [OF qi] p by simp
    show ?thesis
    proof (cases "xTicks c = 0")
      case True
      then show ?thesis using q unfolding xQueueGenericSend_def if_not_P [OF nr] by simp
    next
      case n: False
      define c1 where "c1 = set_entry_time s c"
      have n1: "xTicks c1 \<noteq> 0" using n by (simp add: c1_def set_entry_time_def)
      obtain s1 where s1: "enter_suspended gaps a s = Some s1" "queue_sys i a cap isz s1" "running_ready i (kern s1)"
        using enter_sys [OF g q r] by blast
      obtain x c2 where ck: "check_time_out s1 c1 = (x, c2)" by force
      obtain s2 where s2: "gaps 3 s1 = Some s2" "queue_sys i a cap isz s2" "run_kept i (kern s1) (kern s2)"
        by (rule gaps_keptD [OF g s1(2)])
      have w: "xQueueGenericSend gaps a m p c s =
        (if \<not> x
         then (if prvIsQueueFull a s2
               then do { s \<leftarrow> gaps 4 s2; s \<leftarrow> place_and_yield gaps a (xTasksWaitingToSend a) (xTicks c2) s; Some (None, c2, s) }
               else do { s \<leftarrow> gaps 4 s2; (_, s) \<leftarrow> unlock_resume gaps a s; Some (None, c2, s) })
         else do { (_, s) \<leftarrow> unlock_resume gaps a s2; Some (Some False, c2, s) })"
        unfolding xQueueGenericSend_def if_not_P [OF nr] if_not_P [OF n] c1_def [symmetric] Let_def by (simp add: s1 ck s2)
      show ?thesis
      proof (cases x)
        case True
        then show ?thesis unfolding w using unlock_resume_sys [OF g s2(2)] by auto
      next
        case False
        obtain s3 where s3: "gaps 4 s2 = Some s3" "queue_sys i a cap isz s3" "run_kept i (kern s2) (kern s3)"
          by (rule gaps_keptD [OF g s2(2)])
        have r3: "running_ready i (kern s3)" using s1(3) s2(3) s3(3) by (simp add: run_kept_def)
        have "xTicks c2 > 0" using not_expired_ticks [of s1 c1 c2] ck False n1 by simp
        from place_and_yield_sys [OF g s3(2) r3 this, of "xTasksWaitingToSend a"] unlock_resume_sys [OF g s3(2)]
        show ?thesis unfolding w using False s3(1) by (cases "prvIsQueueFull a s2") auto
      qed
    qed
  qed
qed

lemma receive_sys:
  assumes g: "gaps_kept i a cap isz gaps" and q: "queue_sys i a cap isz s" and r: "running_ready i (kern s)"
  shows "\<exists>x c' s'. xQueueReceive gaps a c s = Some (x, c', s') \<and> queue_sys i a cap isz s'"
    "\<exists>x c' s'. xQueuePeek gaps a c s = Some (x, c', s') \<and> queue_sys i a cap isz s'"
proof -
  from q obtain xs where qi: "queue_inv i a cap isz s xs" by (auto simp: queue_sys_def)
  have ne: "uxMessagesWaiting (queues s a) > 0 \<longleftrightarrow> xs \<noteq> []"
    using queue_inv_empty [OF qi] by (auto simp: word_neq_0_conv)
  show "\<exists>x c' s'. xQueueReceive gaps a c s = Some (x, c', s') \<and> queue_sys i a cap isz s'"
  proof (cases xs)
    case Nil
    then show ?thesis using receive_wait_sys [OF g q r, of c] ne q by (auto simp: xQueueReceive_def Let_def)
  next
    case (Cons x ys)
    then show ?thesis using xQueueReceive_some [of i a cap isz s x ys gaps c] qi unfolding queue_sys_def by blast
  qed
  show "\<exists>x c' s'. xQueuePeek gaps a c s = Some (x, c', s') \<and> queue_sys i a cap isz s'"
  proof (cases xs)
    case Nil
    then show ?thesis using receive_wait_sys [OF g q r, of c] ne q by (auto simp: xQueuePeek_def Let_def)
  next
    case (Cons x ys)
    then show ?thesis using xQueuePeek_some [of i a cap isz s x ys gaps c] qi unfolding queue_sys_def by blast
  qed
qed

end
