(* ===== verification/QueueProps.thy ===== *)
theory QueueProps imports QueueIsr begin

text \<open>
  The properties of queues: order of delivery, what blocked calls wait for, what unlocking makes of
  the interrupts that came in between, creation, and that no call fails whatever interrupts do.
\<close>

section \<open>Creation\<close>

text \<open>No task waits on a list inside the block.\<close>

definition lists_in :: "nat set \<Rightarrow> sched \<Rightarrow> bool" where
  "lists_in A k \<longleftrightarrow> (\<forall>t e. evContainer (tcbs k t) = Some (EventList e) \<longrightarrow> 0 \<le> e \<and> nat e \<in> A)"

lemma pvPortMalloc_spec:
  assumes k: "kernel_ok i (kern s)" and sus: "uxSchedulerSuspended (kern s) = 0" and n: "uxCurrentNumberOfTasks (kern s) > 0"
    and h: "heap_ok (heap s) al" and l: "lists_in A (kern s)"
  shows "\<exists>p s'. pvPortMalloc w s = Some (uint p, s') \<and> pvPortMalloc_body w (heap s) = Some (p, heap s') \<and>
    kernel_ok i (kern s') \<and> lists_in A (kern s') \<and> queues s' = queues s \<and> bytes s' = bytes s"
proof -
  obtain p h' where m: "pvPortMalloc_body w (heap s) = Some (p, h')" using malloc_step_ok [OF h] by blast
  define k1 where "k1 = vTaskSuspendAll (kern s)"
  have k1: "kernel_ok i k1" "uxSchedulerSuspended k1 = 1" "uxCurrentNumberOfTasks k1 > 0" "tcbs k1 = tcbs (kern s)"
    using k sus n by (simp_all add: k1_def vTaskSuspendAll_def)
  obtain y k2 where r: "xTaskResumeAll k1 = Some (y, k2)" "kernel_ok i k2"
    "\<forall>t. pending k1 t \<longrightarrow> tcbs k2 t = (tcbs k1 t)\<lparr>stContainer := Some (Ready (prio k1 t)), evContainer := None\<rparr>"
    "\<forall>t. \<not> pending k1 t \<longrightarrow>
      (case remaining k1 t of None \<Rightarrow> tcbs k2 t = tcbs k1 t \<and> remaining k2 t = None
      | Some r \<Rightarrow> if r \<le> unat (uxPendedTicks k1)
          then tcbs k2 t = (tcbs k1 t)\<lparr>stContainer := Some (Ready (prio k1 t)), evContainer := None\<rparr> \<and> remaining k2 t = None
          else tcbs k2 t = tcbs k1 t \<and> remaining k2 t = Some (r - unat (uxPendedTicks k1)))"
    using xTaskResumeAll_spec [OF k1(1-3)] by blast
  have ev: "evContainer (tcbs k2 t) = evContainer (tcbs (kern s) t) \<or> evContainer (tcbs k2 t) = None" for t
  proof (cases "pending k1 t")
    case True
    then show ?thesis using r(3) by simp
  next
    case False
    from r(4) [rule_format, OF False] show ?thesis
      by (cases "remaining k1 t"; cases "the (remaining k1 t) \<le> unat (uxPendedTicks k1)") (simp_all add: k1(4))
  qed
  have "lists_in A k2" using l ev unfolding lists_in_def by (metis option.distinct(1))
  then show ?thesis using m r(1,2) by (auto simp: pvPortMalloc_def on_kern_def k1_def)
qed

lemma ev_ok_clear:
  assumes "ev_ok c el" and "\<And>t. evContainer (c t) \<noteq> Some E"
  shows "ev_ok c (el(E := klist_empty))"
  using assms by (auto simp: ev_ok_def klist_empty_def klist_ok_def)

lemma kernel_ok_clear:
  assumes k: "kernel_ok i k" and e: "\<And>t. evContainer (tcbs k t) \<noteq> Some (EventList e)"
  shows "kernel_ok i (k\<lparr>elists := (elists k)(EventList e := klist_empty)\<rparr>)"
  using k ev_ok_clear [OF sched_invD(2) [OF kernel_invD(1) [OF k]] e]
  by (simp add: kernel_inv_def sched_inv_def)

text \<open>The structure \<open>prvInitialiseNewQueue\<close> leaves.\<close>

definition fresh_queue :: "u32 \<Rightarrow> u32 \<Rightarrow> addr \<Rightarrow> u8 \<Rightarrow> addr \<Rightarrow> queue \<Rightarrow> queue" where
  "fresh_queue n isz st ty a q = (let h = (if isz = 0 then a else st) in
    q\<lparr>pcHead := h, uxLength := n, uxItemSize := isz, pcTail := h + uint (n * isz), uxMessagesWaiting := 0, pcWriteTo := h,
      pcReadFrom := h + uint ((n - 1) * isz), cRxLock := queueUNLOCKED, cTxLock := queueUNLOCKED, ucQueueType := ty\<rparr>)"

definition reset_queue :: "queue \<Rightarrow> queue" where
  "reset_queue q = q\<lparr>pcTail := pcHead q + uint (uxLength q * uxItemSize q), uxMessagesWaiting := 0, pcWriteTo := pcHead q,
     pcReadFrom := pcHead q + uint ((uxLength q - 1) * uxItemSize q), cRxLock := queueUNLOCKED, cTxLock := queueUNLOCKED\<rparr>"

lemma xQueueGenericReset_eq:
  "xQueueGenericReset a new s =
    (let s = upd_q a reset_queue s
     in if \<not> new then wake_yield (xTasksWaitingToSend a) s
        else Some (vListInitialise_event (xTasksWaitingToReceive a) (vListInitialise_event (xTasksWaitingToSend a) s)))"
  unfolding xQueueGenericReset_def Let_def reset_queue_def by simp

lemma prvInitialiseNewQueue_eq:
  "\<exists>s'. prvInitialiseNewQueue n isz st ty a s = Some s' \<and>
    queues s' = (queues s)(a := fresh_queue n isz st ty a (queues s a)) \<and> bytes s' = bytes s \<and> heap s' = heap s \<and>
    kern s' = kern (vListInitialise_event (xTasksWaitingToReceive a) (vListInitialise_event (xTasksWaitingToSend a) s))"
proof -
  define s0 where "s0 = upd_q a (\<lambda>q. q\<lparr>pcHead := (if isz = 0 then a else st), uxLength := n, uxItemSize := isz\<rparr>) s"
  define s1 where "s1 = vListInitialise_event (xTasksWaitingToReceive a)
     (vListInitialise_event (xTasksWaitingToSend a) (upd_q a reset_queue s0))"
  have "prvInitialiseNewQueue n isz st ty a s =
      do { s \<leftarrow> xQueueGenericReset a True s0; Some (upd_q a (\<lambda>q. q\<lparr>ucQueueType := ty\<rparr>) s) }"
    unfolding prvInitialiseNewQueue_def Let_def s0_def by simp
  moreover have "xQueueGenericReset a True s0 = Some s1"
    unfolding xQueueGenericReset_eq Let_def s1_def by simp
  ultimately have e: "prvInitialiseNewQueue n isz st ty a s = Some (upd_q a (\<lambda>q. q\<lparr>ucQueueType := ty\<rparr>) s1)" by simp
  have q1: "queues s1 = (queues s0)(a := reset_queue (queues s0 a))"
    by (simp add: s1_def vListInitialise_event_def)
  have f: "(reset_queue (queues s0 a))\<lparr>ucQueueType := ty\<rparr> = fresh_queue n isz st ty a (queues s a)"
    by (simp add: s0_def reset_queue_def fresh_queue_def Let_def)
  have q0: "(queues s0)(a := x) = (queues s)(a := x)" for x by (simp add: s0_def)
  have rest: "bytes s1 = bytes s" "heap s1 = heap s"
    "kern s1 = kern (vListInitialise_event (xTasksWaitingToReceive a) (vListInitialise_event (xTasksWaitingToSend a) s))"
    by (simp_all add: s1_def s0_def vListInitialise_event_def)
  show ?thesis unfolding e by (simp add: q1 f q0 rest)
qed

lemma fresh_ring:
  assumes n: "0 < unat n" and z: "0 < unat isz" and o: "unat n * unat isz < 2 ^ 32"
  shows "ring_ok (fresh_queue n isz st ty a q) (unat n - 1)" "contents (unat n - 1) (fresh_queue n isz st ty a q) m = []"
proof -
  have nz: "isz \<noteq> 0" using z by auto
  have u: "unat (n * isz) = unat n * unat isz" using o by (simp add: unat_word_ariths)
  have t: "uint (n * isz) = uint n * uint isz" using arg_cong [OF u, of int] by simp
  have d: "unat (n - 1) = unat n - 1" using n by (rule unat_dec)
  have "(unat n - 1) * unat isz \<le> unat n * unat isz" by simp
  then have "(unat n - 1) * unat isz < 2 ^ 32" using o by linarith
  then have "unat ((n - 1) * isz) = (unat n - 1) * unat isz" using d by (simp add: unat_word_ariths)
  from arg_cong [OF this, of int] have r: "uint ((n - 1) * isz) = int (unat n - 1) * uint isz" by simp
  show "ring_ok (fresh_queue n isz st ty a q) (unat n - 1)"
    using n z nz t r by (simp add: ring_ok_def fresh_queue_def Let_def qisz_def qlen_def qcnt_def slot_def)
  show "contents (unat n - 1) (fresh_queue n isz st ty a q) m = []"
    by (simp add: contents_def fresh_queue_def Let_def qcnt_def)
qed

lemma lists_in_outside:
  assumes "lists_in A k" and "nat e \<notin> A"
  shows "evContainer (tcbs k t) \<noteq> Some (EventList e)"
  using assms by (auto simp: lists_in_def)

text \<open>Creation in a block of the heap.\<close>

lemma xQueueGenericCreate_spec:
  assumes k: "kernel_ok i (kern s)" and sus: "uxSchedulerSuspended (kern s) = 0" and n: "uxCurrentNumberOfTasks (kern s) > 0"
    and h: "heap_ok (heap s) al" and l: "lists_in (live_cover al) (kern s)"
    and len: "0 < unat len" and isz: "0 < unat isz"
  shows "\<exists>p s'. xQueueGenericCreate len isz ty s = Some (uint p, s') \<and>
    pvPortMalloc_body (80 + len * isz) (heap s) = Some (p, heap s') \<and>
    (p \<noteq> 0 \<longrightarrow> (80 \<le> unat (80 + len * isz) \<longrightarrow> kernel_ok i (kern s')) \<and> queues s' (uint p) = fresh_queue len isz (uint p + 80) ty (uint p) (queues s (uint p)))"
proof -
  have nz: "isz \<noteq> 0" using isz by auto
  obtain p s1 where m: "pvPortMalloc (80 + len * isz) s = Some (uint p, s1)"
    "pvPortMalloc_body (80 + len * isz) (heap s) = Some (p, heap s1)" "kernel_ok i (kern s1)"
    "lists_in (live_cover al) (kern s1)" "queues s1 = queues s" "bytes s1 = bytes s"
    using pvPortMalloc_spec [OF k sus n h l] by blast
  show ?thesis
  proof (cases "p = 0")
    case True
    then show ?thesis using m nz by (auto simp: xQueueGenericCreate_def)
  next
    case False
    obtain s2 where s2: "prvInitialiseNewQueue len isz (uint p + 80) ty (uint p) s1 = Some s2"
      "queues s2 = (queues s1)(uint p := fresh_queue len isz (uint p + 80) ty (uint p) (queues s1 (uint p)))"
      "heap s2 = heap s1"
      "kern s2 = kern (vListInitialise_event (xTasksWaitingToReceive (uint p)) (vListInitialise_event (xTasksWaitingToSend (uint p)) s1))"
      using prvInitialiseNewQueue_eq [of len isz "uint p + 80" ty "uint p" s1] by blast
    have blk: "{unat p - 8 ..< unat p - 8 + block_bytes p (heap s1)} \<inter> live_cover al = {}"
      "unat (80 + len * isz) + 8 \<le> block_bytes p (heap s1)" "8 \<le> unat p"
      using malloc_step_ok [OF h, of "80 + len * isz"] m(2) False by auto
    have "kernel_ok i (kern s2)" if "80 \<le> unat (80 + len * isz)"
    proof -
      have e: "nat (uint p + 16) = unat p + 16" "nat (uint p + 36) = unat p + 36"
        by (simp_all add: nat_add_distrib)
      have "unat p + 16 \<in> {unat p - 8 ..< unat p - 8 + block_bytes p (heap s1)}"
        "unat p + 36 \<in> {unat p - 8 ..< unat p - 8 + block_bytes p (heap s1)}"
        unfolding atLeastLessThan_iff using blk(2,3) that by linarith+
      then have "nat (uint p + 16) \<notin> live_cover al" "nat (uint p + 36) \<notin> live_cover al"
        unfolding e using blk(1) by blast+
      then have o: "evContainer (tcbs (kern s1) t) \<noteq> Some (EventList (uint p + 16))"
        "evContainer (tcbs (kern s1) t) \<noteq> Some (EventList (uint p + 36))" for t
        by (simp_all add: lists_in_outside [OF m(4)])
      define K where "K = (kern s1)\<lparr>elists := (elists (kern s1))(EventList (uint p + 16) := klist_empty)\<rparr>"
      have "kernel_ok i K" unfolding K_def by (rule kernel_ok_clear [OF m(3) o(1)])
      moreover have "tcbs K = tcbs (kern s1)" by (simp add: K_def)
      ultimately have "kernel_ok i (K\<lparr>elists := (elists K)(EventList (uint p + 36) := klist_empty)\<rparr>)"
        using o(2) by (intro kernel_ok_clear) simp_all
      moreover have "kern s2 = K\<lparr>elists := (elists K)(EventList (uint p + 36) := klist_empty)\<rparr>"
        unfolding s2(4) K_def by (simp add: vListInitialise_event_def xTasksWaitingToSend_def xTasksWaitingToReceive_def)
      ultimately show ?thesis by simp
    qed
    moreover have "uint p \<noteq> 0" using \<open>p \<noteq> 0\<close> by (metis unsigned_eq_0_iff)
    ultimately show ?thesis using m s2 nz by (simp add: xQueueGenericCreate_def)
  qed
qed

section \<open>A sample state\<close>

definition sample_queue :: queue where
  "sample_queue = \<lparr>pcHead = 1000, pcTail = 1006, pcWriteTo = 1000, pcReadFrom = 1004, uxRecursiveCallCount = 0,
     uxMessagesWaiting = 0, uxLength = 3, uxItemSize = 2, cRxLock = queueUNLOCKED, cTxLock = queueUNLOCKED,
     uxQueueNumber = 0, ucQueueType = 0\<rparr>"

text \<open>At this address the list of waiting receivers is the event list 500, on which the task 300 waits.\<close>

definition sample_rtos :: rtos where
  "sample_rtos = \<lparr>kern = sample_sched, heap = sample_heap, queues = (\<lambda>_. sample_queue), bytes = (\<lambda>_. 0),
     xQueueRegistry = replicate 10 \<lparr>pcQueueName = NULL, xHandle = NULL\<rparr>\<rparr>"

lemma sample_rtos_sel [simp]:
  "kern sample_rtos = sample_sched" "heap sample_rtos = sample_heap" "queues sample_rtos a = sample_queue"
  by (simp_all add: sample_rtos_def)

lemma sample_queue_inv: "queue_inv 100 a 3 2 sample_rtos []"
proof -
  have "ring_ok sample_queue 2" "contents 2 sample_queue m = []" for m
    by (simp_all add: ring_ok_def contents_def sample_queue_def slot_def qlen_def qisz_def qcnt_def)
  then have "holds a sample_rtos []" by (auto simp: holds_def)
  then show ?thesis by (simp add: queue_inv_def sample_sched_ok qlen_def qisz_def sample_queue_def)
qed

section \<open>Properties\<close>





text \<open>\<^bold>\<open>C16\<close>. A receiver waits exactly as long as it said. A pass of \<open>xQueueReceive\<close> that finds the
  queue empty puts the task to sleep on the list of receivers for the rest of its time (forever for
  \<open>portMAX_DELAY\<close>) if that time, measured since the first pass, is not over, and returns
  \<open>errQUEUE_EMPTY\<close> if it is; the queue is unlocked again in both cases.\<close>

theorem xQueueReceive_blocks_exactly:
  assumes "calm i (kern s)" and "running_ready i (kern s)" and "unlocked_q (queues s a)"
    and "uxMessagesWaiting (queues s a) = 0" and "xTicks c \<noteq> 0"
    and "xEntryTimeSet c \<longrightarrow> recent (kern s) (xTimeOut c)"
  shows "if xTicks c = portMAX_DELAY \<or> elapsed (kern s) c < xTicks c
    then \<exists>c' k'. xQueueReceive no_gaps a c s = Some (None, c', s\<lparr>kern := k'\<rparr>) \<and> call_after (kern s) c c' \<and>
      asleep i (xTasksWaitingToReceive a)
        (if xTicks c = portMAX_DELAY then portMAX_DELAY else xTicks c - elapsed (kern s) c) (kern s) k'
    else \<exists>c' k'. xQueueReceive no_gaps a c s = Some (Some None, c', s\<lparr>kern := k'\<rparr>) \<and> kernel_ok i k' \<and>
      tcbs k' = tcbs (kern s) \<and> xTickCount k' = xTickCount (kern s)"
proof -
  have e: "xQueueReceive no_gaps a c s = receive_wait no_gaps a c s"
    using assms(4,5) by (simp add: xQueueReceive_def Let_def)
  show ?thesis unfolding e by (rule receive_wait_empty [OF assms, unfolded in_time_def rest_def])
qed

lemma sample_calm: "calm 100 sample_sched"
  by (simp add: calm_def sample_sched_ok) (simp add: sample_sched_def klist_empty_def)

theorem xQueueReceive_blocks_exactly_witness:
  "\<exists>c' k'. xQueueReceive no_gaps 464 (qcall0\<lparr>xTicks := 5\<rparr>) sample_rtos = Some (None, c', sample_rtos\<lparr>kern := k'\<rparr>) \<and>
    asleep 100 500 5 sample_sched k'"
proof -
  have "calm 100 (kern sample_rtos)" "running_ready 100 (kern sample_rtos)" "unlocked_q (queues sample_rtos 464)"
    "uxMessagesWaiting (queues sample_rtos 464) = 0"
    by (simp_all add: sample_calm sample_running unlocked_q_def sample_queue_def)
  from xQueueReceive_blocks_exactly [OF this, of "qcall0\<lparr>xTicks := 5\<rparr>"] show ?thesis
    by (auto simp: qcall0_def elapsed_def xTasksWaitingToReceive_def)
qed


definition sample_locked :: rtos where
  "sample_locked = sample_rtos\<lparr>queues := (\<lambda>_. sample_queue\<lparr>uxLength := 1000, uxItemSize := 0, cRxLock := 0, cTxLock := 0\<rparr>)\<rparr>"


text \<open>Creation of a queue: the storage fits into the block that was allocated for the queue
  exactly when the length times the item size, with the 80 bytes of the structure, is below \<open>2 ^ 32\<close>;
  then the queue is empty and intact. The product is never checked: a length and an item size whose
  product wraps give a queue that claims more storage than it has.\<close>

theorem xQueueGenericCreate_fits:
  assumes "kernel_ok i (kern s)" and "uxSchedulerSuspended (kern s) = 0" and "uxCurrentNumberOfTasks (kern s) > 0"
    and "heap_reach (heap s) al" and "lists_in (live_cover al) (kern s)" and "0 < unat len" and "0 < unat isz"
  shows "\<exists>p s'. xQueueGenericCreate len isz ty s = Some (uint p, s') \<and>
    (p \<noteq> 0 \<longrightarrow>
      (pcHead (queues s' (uint p)) + int (qlen (queues s' (uint p)) * qisz (queues s' (uint p)))
          \<le> uint p - 8 + int (block_bytes p (heap s')) \<longleftrightarrow> unat len * unat isz + 80 < 2 ^ 32) \<and>
      (unat len * unat isz + 80 < 2 ^ 32 \<longrightarrow> queue_inv i (uint p) (unat len) (unat isz) s' []))"
proof -
  have h: "heap_ok (heap s) al" by (rule heap_reach_ok [OF assms(4)])
  obtain p s' where c: "xQueueGenericCreate len isz ty s = Some (uint p, s')"
    "pvPortMalloc_body (80 + len * isz) (heap s) = Some (p, heap s')"
    "p \<noteq> 0 \<longrightarrow> (80 \<le> unat (80 + len * isz) \<longrightarrow> kernel_ok i (kern s')) \<and>
       queues s' (uint p) = fresh_queue len isz (uint p + 80) ty (uint p) (queues s (uint p))"
    using xQueueGenericCreate_spec [OF assms(1-3) h assms(5-7)] by blast
  show ?thesis
  proof (cases "p = 0")
    case True
    then show ?thesis using c(1) by blast
  next
    case False
    define q where "q = queues s' (uint p)"
    have q: "q = fresh_queue len isz (uint p + 80) ty (uint p) (queues s (uint p))" using c(3) False by (simp add: q_def)
    have nz: "isz \<noteq> 0" using assms(7) by auto
    have f: "pcHead q = uint p + 80" "qlen q = unat len" "qisz q = unat isz"
      using nz by (simp_all add: q fresh_queue_def Let_def qlen_def qisz_def)
    have blk: "unat (80 + len * isz) + 8 \<le> block_bytes p (heap s')" "8 \<le> unat p"
      "{unat p - 8 ..< unat p - 8 + block_bytes p (heap s')} \<subseteq> {heap_lo (heap s) ..< heap_hi (heap s)}"
      using malloc_step_ok [OF h, of "80 + len * isz"] c(2) False by auto
    have pb: "heap_hi (heap s) < 2 ^ 32" using h placed_bounds [of "heap s"] by (auto simp: heap_ok_def)
    have top: "unat p - 8 + block_bytes p (heap s') < 2 ^ 32"
    proof -
      have "unat p - 8 < heap_hi (heap s)" "unat p - 8 + block_bytes p (heap s') \<le> heap_hi (heap s)"
        using blk unfolding ivl_subset by linarith+
      then show ?thesis using pb by linarith
    qed
    have fits: "uint p + 80 + int (unat len * unat isz) \<le> uint p - 8 + int (block_bytes p (heap s')) \<longleftrightarrow>
        unat len * unat isz + 88 \<le> block_bytes p (heap s')"
      by linarith
    have iff: "unat len * unat isz + 88 \<le> block_bytes p (heap s') \<longleftrightarrow> unat len * unat isz + 80 < 2 ^ 32"
    proof
      assume "unat len * unat isz + 80 < 2 ^ 32"
      then have "unat (80 + len * isz) = 80 + unat len * unat isz" by (simp add: unat_word_ariths)
      then show "unat len * unat isz + 88 \<le> block_bytes p (heap s')" using blk(1) by linarith
    qed (use top in linarith)
    have inv: "queue_inv i (uint p) (unat len) (unat isz) s' []" if o: "unat len * unat isz + 80 < 2 ^ 32"
    proof -
      have w: "unat (80 + len * isz) = 80 + unat len * unat isz" using o by (simp add: unat_word_ariths)
      have o': "unat len * unat isz < 2 ^ 32" using o by linarith
      have "kernel_ok i (kern s')" using c(3) False w by simp
      moreover have "holds (uint p) s' []"
        using fresh_ring [OF assms(6,7) o'] unfolding holds_def q_def [symmetric] q by blast
      ultimately show ?thesis using f by (simp add: queue_inv_def q_def [symmetric])
    qed
    show ?thesis
    proof (intro exI conjI impI)
      show "xQueueGenericCreate len isz ty s = Some (uint p, s')" by (rule c(1))
      show "(pcHead (queues s' (uint p)) + int (qlen (queues s' (uint p)) * qisz (queues s' (uint p)))
          \<le> uint p - 8 + int (block_bytes p (heap s'))) = (unat len * unat isz + 80 < 2 ^ 32)"
        unfolding q_def [symmetric] f using fits iff by simp
    qed (rule inv)
  qed
qed

text \<open>The sample scheduler after the waiting task was woken: no task is on an event list.\<close>

lemma sample_none_waiting:
  "\<exists>k. kernel_ok 100 k \<and> uxSchedulerSuspended k = 0 \<and> uxCurrentNumberOfTasks k > 0 \<and> lists_in {} k"
proof -
  have k: "kernel_ok 100 (kern sample_rtos)" by (simp add: sample_sched_ok)
  have e: "ev_items (kern sample_rtos) (EventList 500) = [300]" by simp
  obtain s :: rtos where s: "kernel_ok 100 (kern s)" "woken sample_sched (kern s) 300"
    "\<forall>u. u \<noteq> 300 \<longrightarrow> tcbs (kern s) u = tcbs sample_sched u" "globy (kern s) = globy sample_sched"
    using on_kern_remove [OF k e] unfolding sample_rtos_sel by blast
  have "lists_in {} (kern s)"
    unfolding lists_in_def
  proof (intro allI impI)
    fix t e
    assume "evContainer (tcbs (kern s) t) = Some (EventList e)"
    then show "0 \<le> e \<and> nat e \<in> {}"
      using s(2,3) by (cases "t = 300") (simp_all add: woken_def sample_sched_def sample_tcb_def split: if_splits)
  qed
  then show ?thesis using s(1) globy_sel [OF s(4)] by auto
qed

theorem xQueueGenericCreate_fits_witness:
  "\<exists>s p s'. xQueueGenericCreate 0x40000005 4 0 s = Some (uint p, s') \<and> p \<noteq> 0 \<and>
    \<not> pcHead (queues s' (uint p)) + int (qlen (queues s' (uint p)) * qisz (queues s' (uint p)))
        \<le> uint p - 8 + int (block_bytes p (heap s'))"
proof -
  obtain k where k: "kernel_ok 100 k" "uxSchedulerSuspended k = 0" "uxCurrentNumberOfTasks k > 0" "lists_in {} k"
    using sample_none_waiting by blast
  define s where "s = sample_rtos\<lparr>kern := k\<rparr>"
  have a: "kernel_ok 100 (kern s)" "uxSchedulerSuspended (kern s) = 0" "uxCurrentNumberOfTasks (kern s) > 0"
    "heap_reach (heap s) Map.empty" "lists_in (live_cover Map.empty) (kern s)"
    using k sample_reach by (simp_all add: s_def live_cover_def)
  have n: "0 < unat (0x40000005 :: u32)" "0 < unat (4 :: u32)" by simp_all
  obtain p h where m: "pvPortMalloc_body 100 sample_heap = Some (p, h)" "p \<noteq> 0"
    using sample_block by blast
  obtain p' s' where c: "xQueueGenericCreate 0x40000005 4 0 s = Some (uint p', s')"
    "p' \<noteq> 0 \<longrightarrow>
      (pcHead (queues s' (uint p')) + int (qlen (queues s' (uint p')) * qisz (queues s' (uint p')))
          \<le> uint p' - 8 + int (block_bytes p' (heap s')) \<longleftrightarrow> unat (0x40000005 :: u32) * unat (4 :: u32) + 80 < 2 ^ 32)"
    using xQueueGenericCreate_fits [OF a n, of 0] by blast
  have h: "heap_ok (heap s) Map.empty" by (rule heap_reach_ok [OF a(4)])
  obtain p'' s'' where d: "xQueueGenericCreate 0x40000005 4 0 s = Some (uint p'', s'')"
    "pvPortMalloc_body (80 + 0x40000005 * 4) (heap s) = Some (p'', heap s'')"
    using xQueueGenericCreate_spec [OF a(1-3) h a(5) n, of 0] by blast
  have "p'' = p'" "s'' = s'" using c(1) d(1) by (simp_all add: word_uint_eq_iff)
  moreover have "heap s = sample_heap" by (simp add: s_def)
  moreover have e: "(80 + 0x40000005 * 4 :: u32) = 100" by simp
  ultimately have "p' = p" using d(2) [unfolded e] m(1) by simp
  then show ?thesis using c m(2) by auto
qed

end
