(* ===== verification/Mutex.thy ===== *)
theory Mutex imports QueueProps begin

text \<open>
  Semaphores, mutexes, recursive mutexes and the queue registry (\<open>freertos/src/queue.c\<close>). A semaphore
  is a queue of items of size 0; a mutex is one whose \<open>pcHead\<close> is NULL and whose \<open>pcTail\<close> is the
  holder. Taking a mutex that another task holds lends that task the priority of the taker.
\<close>

section \<open>Taking\<close>

definition take_held :: "addr \<Rightarrow> rtos \<Rightarrow> rtos" where
  "take_held a s =
    (if uxQueueType (queues s a) = queueQUEUE_IS_MUTEX
     then (let (h, k) = pvTaskIncrementMutexHeldCount (kern s)
           in upd_q a (\<lambda>q. q\<lparr>pcTail := h\<rparr>) (s\<lparr>kern := k\<rparr>))
     else s)"

definition take_inherit :: "addr \<Rightarrow> bool \<Rightarrow> rtos \<Rightarrow> (bool \<times> rtos) option" where
  "take_inherit a xInheritanceOccurred s =
    (if uxQueueType (queues s a) = queueQUEUE_IS_MUTEX
     then on_kern (xTaskPriorityInherit (pxMutexHolder (queues s a))) s
     else Some (xInheritanceOccurred, s))"

definition prvGetDisinheritPriorityAfterTimeout :: "addr \<Rightarrow> rtos \<Rightarrow> u32" where
  "prvGetDisinheritPriorityAfterTimeout a s =
    (case ev_items (kern s) (EventList (xTasksWaitingToReceive a)) of
       [] \<Rightarrow> 0
     | t # _ \<Rightarrow> configMAX_PRIORITIES - evItemValue (tcbs (kern s) t))"

text \<open>The flag is the local \<open>xInheritanceOccurred\<close>.\<close>

definition xQueueSemaphoreTake :: "gaps \<Rightarrow> addr \<Rightarrow> bool \<Rightarrow> qcall \<Rightarrow> rtos \<Rightarrow> (bool option \<times> bool \<times> qcall \<times> rtos) option" where
  "xQueueSemaphoreTake gaps a inh c s =
    (let uxSemaphoreCount = uxMessagesWaiting (queues s a)
     in if uxSemaphoreCount > 0
        then do {
          let s = upd_q a (\<lambda>q. q\<lparr>uxMessagesWaiting := uxSemaphoreCount - 1\<rparr>) s;
          let s = take_held a s;
          s \<leftarrow> wake_yield (xTasksWaitingToSend a) s;
          Some (Some True, inh, c, s)
        }
        else if xTicks c = 0 then Some (Some False, inh, c, s)
        else do {
          let c = set_entry_time s c;
          s \<leftarrow> enter_suspended gaps a s;
          let (expired, c) = check_time_out s c;
          s \<leftarrow> gaps 3 s;
          if \<not> expired
          then (if prvIsQueueEmpty a s
                then do {
                  s \<leftarrow> gaps 4 s;
                  (inh, s) \<leftarrow> take_inherit a inh s;
                  s \<leftarrow> gaps 9 s;
                  s \<leftarrow> place_and_yield gaps a (xTasksWaitingToReceive a) (xTicks c) s;
                  Some (None, inh, c, s)
                }
                else do {
                  s \<leftarrow> gaps 4 s;
                  (_, s) \<leftarrow> unlock_resume gaps a s;
                  Some (None, inh, c, s)
                })
          else do {
            (_, s) \<leftarrow> unlock_resume gaps a s;
            s \<leftarrow> gaps 8 s;
            if prvIsQueueEmpty a s
            then do {
              s \<leftarrow> (if inh
                    then on_kern0 (vTaskPriorityDisinheritAfterTimeout (pxMutexHolder (queues s a))
                           (prvGetDisinheritPriorityAfterTimeout a s)) s
                    else Some s);
              Some (Some False, inh, c, s)
            }
            else Some (None, inh, c, s)
          }
        })"

section \<open>Creation and deletion\<close>

definition prvInitialiseMutex :: "addr \<Rightarrow> rtos \<Rightarrow> rtos option" where
  "prvInitialiseMutex a s =
    (if a \<noteq> NULL
     then do {
       let s = upd_q a (\<lambda>q. q\<lparr>pcTail := NULL\<rparr>) s;
       let s = upd_q a (\<lambda>q. q\<lparr>pcHead := queueQUEUE_IS_MUTEX\<rparr>) s;
       let s = upd_q a (\<lambda>q. q\<lparr>uxRecursiveCallCount := 0\<rparr>) s;
       (_, _, s) \<leftarrow> xQueueGenericSend no_gaps a [] queueSEND_TO_BACK qcall0 s;
       Some s
     }
     else Some s)"

definition xQueueCreateMutex :: "u8 \<Rightarrow> rtos \<Rightarrow> (addr \<times> rtos) option" where
  "xQueueCreateMutex qtype s = do {
    (a, s) \<leftarrow> xQueueGenericCreate 1 0 qtype s;
    s \<leftarrow> prvInitialiseMutex a s;
    Some (a, s)
  }"

definition xQueueCreateCountingSemaphore :: "u32 \<Rightarrow> u32 \<Rightarrow> rtos \<Rightarrow> (addr \<times> rtos) option" where
  "xQueueCreateCountingSemaphore uxMaxCount uxInitialCount s = do {
    (a, s) \<leftarrow> xQueueGenericCreate uxMaxCount 0 queueQUEUE_TYPE_COUNTING_SEMAPHORE s;
    Some (a, if a \<noteq> NULL then upd_q a (\<lambda>q. q\<lparr>uxMessagesWaiting := uxInitialCount\<rparr>) s else s)
  }"

section \<open>Recursive mutexes\<close>

definition xQueueGiveMutexRecursive :: "addr \<Rightarrow> rtos \<Rightarrow> (bool \<times> rtos) option" where
  "xQueueGiveMutexRecursive a s =
    (if pxMutexHolder (queues s a) = pxCurrentTCB (kern s)
     then do {
       let s = upd_q a (\<lambda>q. q\<lparr>uxRecursiveCallCount := uxRecursiveCallCount q - 1\<rparr>) s;
       s \<leftarrow> (if uxRecursiveCallCount (queues s a) = 0
             then map_option (\<lambda>(_, _, s). s) (xQueueGenericSend no_gaps a [] queueSEND_TO_BACK qcall0 s)
             else Some s);
       Some (True, s)
     }
     else Some (False, s))"

definition xQueueTakeMutexRecursive :: "gaps \<Rightarrow> addr \<Rightarrow> bool \<Rightarrow> qcall \<Rightarrow> rtos \<Rightarrow>
    (bool option \<times> bool \<times> qcall \<times> rtos) option" where
  "xQueueTakeMutexRecursive gaps a inh c s =
    (if pxMutexHolder (queues s a) = pxCurrentTCB (kern s)
     then Some (Some True, inh, c, upd_q a (\<lambda>q. q\<lparr>uxRecursiveCallCount := uxRecursiveCallCount q + 1\<rparr>) s)
     else do {
       (xReturn, inh, c, s) \<leftarrow> xQueueSemaphoreTake gaps a inh c s;
       Some (xReturn, inh, c,
         if xReturn = Some True then upd_q a (\<lambda>q. q\<lparr>uxRecursiveCallCount := uxRecursiveCallCount q + 1\<rparr>) s else s)
     })"

section \<open>The registry\<close>

fun registry_add :: "addr \<Rightarrow> addr \<Rightarrow> registry_item list \<Rightarrow> registry_item list" where
  "registry_add h n [] = []"
| "registry_add h n (r # rs) =
    (if pcQueueName r = NULL then r\<lparr>pcQueueName := n, xHandle := h\<rparr> # rs else r # registry_add h n rs)"

definition vQueueAddToRegistry :: "addr \<Rightarrow> addr \<Rightarrow> rtos \<Rightarrow> rtos" where
  "vQueueAddToRegistry xQueue name s = s\<lparr>xQueueRegistry := registry_add xQueue name (xQueueRegistry s)\<rparr>"

fun registry_name :: "addr \<Rightarrow> registry_item list \<Rightarrow> addr" where
  "registry_name h [] = NULL"
| "registry_name h (r # rs) = (if xHandle r = h then pcQueueName r else registry_name h rs)"

definition pcQueueGetName :: "addr \<Rightarrow> rtos \<Rightarrow> addr" where
  "pcQueueGetName xQueue s = registry_name xQueue (xQueueRegistry s)"

fun registry_remove :: "addr \<Rightarrow> registry_item list \<Rightarrow> registry_item list" where
  "registry_remove h [] = []"
| "registry_remove h (r # rs) =
    (if xHandle r = h then r\<lparr>pcQueueName := NULL, xHandle := NULL\<rparr> # rs else r # registry_remove h rs)"

definition vQueueUnregisterQueue :: "addr \<Rightarrow> rtos \<Rightarrow> rtos" where
  "vQueueUnregisterQueue xQueue s = s\<lparr>xQueueRegistry := registry_remove xQueue (xQueueRegistry s)\<rparr>"

definition vQueueDelete :: "addr \<Rightarrow> rtos \<Rightarrow> rtos option" where
  "vQueueDelete a s = vPortFree a (vQueueUnregisterQueue a s)"

text \<open>For the timer task: called with the scheduler suspended.\<close>

definition vQueueWaitForMessageRestricted :: "gaps \<Rightarrow> addr \<Rightarrow> u32 \<Rightarrow> bool \<Rightarrow> rtos \<Rightarrow> rtos option" where
  "vQueueWaitForMessageRestricted gaps a xTicksToWait xWaitIndefinitely s = do {
    let s = prvLockQueue a s;
    s \<leftarrow> gaps 0 s;
    s \<leftarrow> (if uxMessagesWaiting (queues s a) = 0
          then on_kern0 (vTaskPlaceOnEventListRestricted (xTasksWaitingToReceive a) xTicksToWait xWaitIndefinitely) s
          else Some s);
    prvUnlockQueue gaps a s
  }"

end
