(* ===== verification/MutexProps.thy ===== *)
theory MutexProps imports Mutex begin

text \<open>
  What mutexes guarantee: at most one owner in any run, balanced recursion, the loan of a priority, and
  the registry as a partial map from handles to names.
\<close>

section \<open>What operations leave of a queue\<close>

lemma on_kern_only: "on_kern f s = Some (r, s') \<Longrightarrow> kern_only s s'"
  by (auto simp: on_kern_def)

lemma on_kern0_only: "on_kern0 f s = Some s' \<Longrightarrow> kern_only s s'"
  by (auto simp: on_kern0_def)

lemma wake_yield_only: "wake_yield l s = Some s' \<Longrightarrow> kern_only s s'"
  by (auto simp: wake_yield_def bind_eq_Some_conv split: if_splits dest!: on_kern_only)

lemma unlock_wake_only: "unlock_wake n l s = Some s' \<Longrightarrow> kern_only s s'"
proof (induction n arbitrary: s)
  case (Suc n)
  show ?case
  proof (cases "listLIST_IS_EMPTY l s")
    case True
    then show ?thesis using Suc.prems by simp
  next
    case False
    then obtain b t where t: "on_kern (xTaskRemoveFromEventList l) s = Some (b, t)"
      "unlock_wake n l (if b then t\<lparr>kern := vTaskMissedYield (kern t)\<rparr> else t) = Some s'"
      using Suc.prems by (auto simp: bind_eq_Some_conv)
    have "kern_only s (if b then t\<lparr>kern := vTaskMissedYield (kern t)\<rparr> else t)"
      using on_kern_only [OF t(1)] by (auto intro: kern_only_trans)
    then show ?thesis using Suc.IH [OF t(2)] by (rule kern_only_trans)
  qed
qed simp

text \<open>The part of a queue that locks do not touch.\<close>

definition same_but_locks :: "addr \<Rightarrow> rtos \<Rightarrow> rtos \<Rightarrow> bool" where
  "same_but_locks a s s' \<longleftrightarrow> (queues s' a)\<lparr>cTxLock := 0, cRxLock := 0\<rparr> = (queues s a)\<lparr>cTxLock := 0, cRxLock := 0\<rparr>"

text \<open>Interrupts do not take or give mutexes: gaps keep the mutex but for its locks.\<close>

definition quiet :: "addr \<Rightarrow> gaps \<Rightarrow> bool" where
  "quiet a gaps \<longleftrightarrow> (\<forall>n s s'. gaps n s = Some s' \<longrightarrow> same_but_locks a s s')"

lemma same_refl [simp]: "same_but_locks a s s"
  by (simp add: same_but_locks_def)

lemma same_trans [trans]: "same_but_locks a s t \<Longrightarrow> same_but_locks a t u \<Longrightarrow> same_but_locks a s u"
  by (simp add: same_but_locks_def)

lemma same_kern: "kern_only s s' \<Longrightarrow> same_but_locks a s s'"
  by (simp add: same_but_locks_def kern_only_sel)

lemma same_lock: "same_but_locks a s (upd_q a (\<lambda>q. q\<lparr>cTxLock := x\<rparr>) s)" "same_but_locks a s (upd_q a (\<lambda>q. q\<lparr>cRxLock := x\<rparr>) s)"
  "same_but_locks a s (prvLockQueue a s)" "same_but_locks a s (s\<lparr>kern := k\<rparr>)"
  by (simp_all add: same_but_locks_def prvLockQueue_def Let_def)

lemma quietD: "quiet a gaps \<Longrightarrow> gaps n s = Some s' \<Longrightarrow> same_but_locks a s s'"
  by (auto simp: quiet_def)

lemma quiet_no_gaps [simp]: "quiet a no_gaps"
  by (simp add: quiet_def)

lemma same_sel:
  assumes "same_but_locks a s s'"
  shows "uxMessagesWaiting (queues s' a) = uxMessagesWaiting (queues s a)" "pcTail (queues s' a) = pcTail (queues s a)"
    "pcHead (queues s' a) = pcHead (queues s a)" "uxLength (queues s' a) = uxLength (queues s a)"
    "uxItemSize (queues s' a) = uxItemSize (queues s a)" "uxRecursiveCallCount (queues s' a) = uxRecursiveCallCount (queues s a)"
proof -
  have e: "(queues s' a)\<lparr>cTxLock := 0, cRxLock := 0\<rparr> = (queues s a)\<lparr>cTxLock := 0, cRxLock := 0\<rparr>"
    using assms by (simp add: same_but_locks_def)
  show "uxMessagesWaiting (queues s' a) = uxMessagesWaiting (queues s a)" using arg_cong [OF e, of uxMessagesWaiting] by simp
  show "pcTail (queues s' a) = pcTail (queues s a)" using arg_cong [OF e, of pcTail] by simp
  show "pcHead (queues s' a) = pcHead (queues s a)" using arg_cong [OF e, of pcHead] by simp
  show "uxLength (queues s' a) = uxLength (queues s a)" using arg_cong [OF e, of uxLength] by simp
  show "uxItemSize (queues s' a) = uxItemSize (queues s a)" using arg_cong [OF e, of uxItemSize] by simp
  show "uxRecursiveCallCount (queues s' a) = uxRecursiveCallCount (queues s a)"
    using arg_cong [OF e, of uxRecursiveCallCount] by simp
qed

lemma enter_same:
  assumes q: "quiet a gaps" and "enter_suspended gaps a s = Some s'"
  shows "same_but_locks a s s'"
proof -
  obtain s1 s2 where s1: "gaps 0 s = Some s1" "gaps 1 (s1\<lparr>kern := vTaskSuspendAll (kern s1)\<rparr>) = Some s2"
    "gaps 2 (prvLockQueue a s2) = Some s'"
    using assms(2) by (auto simp: enter_suspended_def bind_eq_Some_conv Let_def)
  note quietD [OF q s1(1)]
  also note same_lock(4) [of a s1 "vTaskSuspendAll (kern s1)"]
  also note quietD [OF q s1(2)]
  also note same_lock(3)
  also note quietD [OF q s1(3)]
  finally show ?thesis .
qed

lemma unlock_resume_same:
  assumes q: "quiet a gaps" and "unlock_resume gaps a s = Some (y, s')"
  shows "same_but_locks a s s'"
proof -
  obtain s1 s2 s3 s4 where s1: "unlock_wake (nat (sint (cTxLock (queues s a)))) (xTasksWaitingToReceive a) s = Some s1"
    "gaps 6 (upd_q a (\<lambda>q. q\<lparr>cTxLock := queueUNLOCKED\<rparr>) s1) = Some s2"
    "unlock_wake (nat (sint (cRxLock (queues s2 a)))) (xTasksWaitingToSend a) s2 = Some s3"
    "gaps 7 (upd_q a (\<lambda>q. q\<lparr>cRxLock := queueUNLOCKED\<rparr>) s3) = Some s4" "on_kern xTaskResumeAll s4 = Some (y, s')"
    using assms by (auto simp: unlock_resume_def prvUnlockQueue_def bind_eq_Some_conv)
  note same_kern [OF unlock_wake_only [OF s1(1)], of a]
  also note same_lock(1)
  also note quietD [OF q s1(2)]
  also note same_kern [OF unlock_wake_only [OF s1(3)], of a]
  also note same_lock(2)
  also note quietD [OF q s1(4)]
  also note same_kern [OF on_kern_only [OF s1(5)], of a]
  finally show ?thesis .
qed

lemma place_and_yield_same:
  assumes q: "quiet a gaps" and "place_and_yield gaps a l n s = Some s'"
  shows "same_but_locks a s s'"
proof -
  obtain s1 s2 y s3 where s1: "on_kern0 (vTaskPlaceOnEventList l n) s = Some s1" "gaps 5 s1 = Some s2"
    "unlock_resume gaps a s2 = Some (y, s3)" "s' = (if \<not> y then yield_api s3 else s3)"
    using assms by (auto simp: place_and_yield_def bind_eq_Some_conv)
  have "kern_only s3 s'" by (simp add: s1(4))
  note same_kern [OF on_kern0_only [OF s1(1)], of a]
  also note quietD [OF q s1(2)]
  also note unlock_resume_same [OF q s1(3)]
  also note same_kern [OF \<open>kern_only s3 s'\<close>]
  finally show ?thesis .
qed

section \<open>A pass of take\<close>

lemma take_success:
  assumes "uxMessagesWaiting (queues s a) > 0" and "xQueueSemaphoreTake gaps a inh c s = Some (r, inh', c', s')"
    and "pcHead (queues s a) = NULL"
  shows "r = Some True \<and> queues s' = (queues s)(a := (queues s a)\<lparr>uxMessagesWaiting := uxMessagesWaiting (queues s a) - 1,
      pcTail := pxCurrentTCB (kern s)\<rparr>)"
proof -
  define t where "t = take_held a (upd_q a (\<lambda>q. q\<lparr>uxMessagesWaiting := uxMessagesWaiting (queues s a) - 1\<rparr>) s)"
  have t: "queues t = (queues s)(a := (queues s a)\<lparr>uxMessagesWaiting := uxMessagesWaiting (queues s a) - 1,
      pcTail := pxCurrentTCB (kern s)\<rparr>)"
    using assms(3) by (simp add: t_def take_held_def pvTaskIncrementMutexHeldCount_def Let_def)
  obtain s1 where "wake_yield (xTasksWaitingToSend a) t = Some s1" "r = Some True" "s' = s1"
    using assms(1,2) by (auto simp: xQueueSemaphoreTake_def Let_def t_def bind_eq_Some_conv)
  then show ?thesis using t kern_only_sel(1) [OF wake_yield_only] by metis
qed

lemma take_inherit_same: "take_inherit a inh t = Some (b, u) \<Longrightarrow> same_but_locks a t u"
  by (auto simp: take_inherit_def split: if_splits intro: same_kern dest: on_kern_only)

lemma take_failure:
  assumes q: "quiet a gaps" and z: "\<not> uxMessagesWaiting (queues s a) > 0"
    and e: "xQueueSemaphoreTake gaps a inh c s = Some (r, inh', c', s')"
  shows "r \<noteq> Some True \<and> same_but_locks a s s'"
proof (cases "xTicks c = 0")
  case True
  then show ?thesis using z e by (auto simp: xQueueSemaphoreTake_def Let_def)
next
  case n: False
  obtain t0 where t0: "enter_suspended gaps a s = Some t0"
    using e unfolding xQueueSemaphoreTake_def Let_def if_not_P [OF z] if_not_P [OF n] by (auto simp: bind_eq_Some_conv)
  obtain x c2 where ck: "check_time_out t0 (set_entry_time s c) = (x, c2)" by force
  obtain t where t: "gaps 3 t0 = Some t"
    using e unfolding xQueueSemaphoreTake_def Let_def if_not_P [OF z] if_not_P [OF n] t0 by (auto simp: ck bind_eq_Some_conv)
  have w: "xQueueSemaphoreTake gaps a inh c s = (if \<not> x
      then (if prvIsQueueEmpty a t
            then do { s \<leftarrow> gaps 4 t; (inh, s) \<leftarrow> take_inherit a inh s; s \<leftarrow> gaps 9 s;
              s \<leftarrow> place_and_yield gaps a (xTasksWaitingToReceive a) (xTicks c2) s; Some (None, inh, c2, s) }
            else do { s \<leftarrow> gaps 4 t; (_, s) \<leftarrow> unlock_resume gaps a s; Some (None, inh, c2, s) })
      else do { (_, s) \<leftarrow> unlock_resume gaps a t; s \<leftarrow> gaps 8 s;
        if prvIsQueueEmpty a s
        then do { s \<leftarrow> (if inh then on_kern0 (vTaskPriorityDisinheritAfterTimeout (pxMutexHolder (queues s a))
              (prvGetDisinheritPriorityAfterTimeout a s)) s else Some s); Some (Some False, inh, c2, s) }
        else Some (None, inh, c2, s) })"
    unfolding xQueueSemaphoreTake_def Let_def if_not_P [OF z] if_not_P [OF n] t0 by (simp add: ck t)
  note e = e [unfolded w]
  have st: "same_but_locks a s t" using enter_same [OF q t0] quietD [OF q t] by (rule same_trans)
  show ?thesis
  proof (cases x)
    case True
    then obtain y u v where u: "unlock_resume gaps a t = Some (y, u)" "gaps 8 u = Some v" using e by (auto simp: bind_eq_Some_conv)
    have su: "same_but_locks a s v"
      using same_trans [OF same_trans [OF st unlock_resume_same [OF q u(1)]] quietD [OF q u(2)]] .
    have "r \<noteq> Some True \<and> (s' = v \<or> (\<exists>f. on_kern0 f v = Some s'))"
      using e True u by (auto simp: bind_eq_Some_conv split: if_splits)
    then show ?thesis using same_trans [OF su same_kern [OF on_kern0_only]] su by auto
  next
    case False
    then obtain u where u: "gaps 4 t = Some u" using e by (auto simp: bind_eq_Some_conv split: if_splits)
    have su: "same_but_locks a s u" using st quietD [OF q u] by (rule same_trans)
    show ?thesis
    proof (cases "prvIsQueueEmpty a t")
      case True
      then obtain b v w where v: "take_inherit a inh u = Some (b, v)" "gaps 9 v = Some w"
        "place_and_yield gaps a (xTasksWaitingToReceive a) (xTicks c2) w = Some s'" "r = None"
        using e False u by (auto simp: bind_eq_Some_conv)
      note su
      also note take_inherit_same [OF v(1)]
      also note quietD [OF q v(2)]
      also note place_and_yield_same [OF q v(3)]
      finally show ?thesis by (simp add: v(4))
    next
      case ne: False
      then show ?thesis using e False u same_trans [OF su unlock_resume_same [OF q]] by (auto simp: bind_eq_Some_conv)
    qed
  qed
qed

section \<open>Giving\<close>

lemma give_success:
  assumes "pcHead (queues s a) = NULL" and "uxItemSize (queues s a) = 0" and "uxMessagesWaiting (queues s a) < uxLength (queues s a)"
    and "xQueueGenericSend gaps a m p c s = Some (r, c', s')"
  shows "r = Some True \<and> queues s' = (queues s)(a := (queues s a)\<lparr>pcTail := NULL,
      uxMessagesWaiting := uxMessagesWaiting (queues s a) + 1\<rparr>)"
proof -
  obtain b u where u: "prvCopyDataToQueue a m p s = Some (b, u)"
    "(if \<not> listLIST_IS_EMPTY (xTasksWaitingToReceive a) u then wake_yield (xTasksWaitingToReceive a) u
      else Some (if b then yield_api u else u)) = Some s'" "r = Some True"
    using assms(3,4) by (auto simp: xQueueGenericSend_def bind_eq_Some_conv)
  obtain t where t: "on_kern (xTaskPriorityDisinherit (pcTail (queues s a))) s = Some (b, t)"
    "u = upd_q a (\<lambda>q. q\<lparr>uxMessagesWaiting := uxMessagesWaiting (queues s a) + 1\<rparr>) (upd_q a (\<lambda>q. q\<lparr>pcTail := NULL\<rparr>) t)"
    using u(1) assms(1,2) by (auto simp: prvCopyDataToQueue_def Let_def bind_eq_Some_conv)
  have "kern_only u s'" using u(2) by (auto split: if_splits intro: wake_yield_only)
  then have "queues s' = queues u" by (simp add: kern_only_sel)
  also have "queues u = (queues s)(a := (queues s a)\<lparr>pcTail := NULL, uxMessagesWaiting := uxMessagesWaiting (queues s a) + 1\<rparr>)"
    using on_kern_only [OF t(1)] by (simp add: t(2) kern_only_sel)
  finally show ?thesis using u(3) by simp
qed

section \<open>The lock a mutex implements\<close>

text \<open>The reference: free, or held by a task a number of times.\<close>

type_synonym lock = "(addr \<times> nat) option"

datatype lock_op = Take | Give

fun lock_step :: "addr \<times> lock_op \<Rightarrow> lock \<Rightarrow> bool \<times> lock" where
  "lock_step (t, Take) None = (True, Some (t, 1))"
| "lock_step (t, Take) (Some (u, n)) = (if u = t then (True, Some (t, n + 1)) else (False, Some (u, n)))"
| "lock_step (t, Give) None = (False, None)"
| "lock_step (t, Give) (Some (u, n)) =
    (if u = t then (True, if n \<le> 1 then None else Some (t, n - 1)) else (False, Some (u, n)))"

fun lock_run :: "(addr \<times> lock_op) list \<Rightarrow> lock \<Rightarrow> bool list \<times> lock" where
  "lock_run [] l = ([], l)"
| "lock_run (x # xs) l = (let (b, l) = lock_step x l; (bs, l) = lock_run xs l in (b # bs, l))"

lemma lock_run_snoc:
  "lock_run (xs @ [x]) l = (fst (lock_run xs l) @ [fst (lock_step x (snd (lock_run xs l)))], snd (lock_step x (snd (lock_run xs l))))"
  by (induction xs arbitrary: l) (auto simp: Let_def split_beta)

text \<open>A recursive mutex, and what it means to represent a lock.\<close>

definition mutex_ok :: "addr \<Rightarrow> rtos \<Rightarrow> bool" where
  "mutex_ok a s \<longleftrightarrow> pcHead (queues s a) = queueQUEUE_IS_MUTEX \<and> uxItemSize (queues s a) = 0 \<and> uxLength (queues s a) = 1"

definition mutex_rep :: "addr \<Rightarrow> lock \<Rightarrow> rtos \<Rightarrow> bool" where
  "mutex_rep a l s \<longleftrightarrow> mutex_ok a s \<and>
    (case l of
       None \<Rightarrow> uxMessagesWaiting (queues s a) = 1 \<and> pxMutexHolder (queues s a) = NULL \<and> uxRecursiveCallCount (queues s a) = 0
     | Some (t, n) \<Rightarrow> uxMessagesWaiting (queues s a) = 0 \<and> pxMutexHolder (queues s a) = t \<and> t \<noteq> NULL \<and>
         0 < n \<and> n < 2 ^ 32 \<and> uxRecursiveCallCount (queues s a) = of_nat n)"

lemma mutex_rep_same: "same_but_locks a s s' \<Longrightarrow> mutex_rep a l s' \<longleftrightarrow> mutex_rep a l s"
  by (simp add: mutex_rep_def mutex_ok_def same_sel [of a s s'] split: option.split)

lemma prvInitialiseMutex_free:
  assumes "prvInitialiseMutex a s = Some s'" and "a \<noteq> NULL"
    and "uxItemSize (queues s a) = 0" "uxLength (queues s a) = 1" "uxMessagesWaiting (queues s a) = 0"
  shows "mutex_rep a None s'"
proof -
  define t where "t = upd_q a (\<lambda>q. q\<lparr>pcTail := NULL, pcHead := NULL, uxRecursiveCallCount := 0\<rparr>) s"
  obtain r c where "xQueueGenericSend no_gaps a [] queueSEND_TO_BACK qcall0 t = Some (r, c, s')"
    using assms(1,2) by (auto simp: prvInitialiseMutex_def t_def bind_eq_Some_conv)
  from give_success [OF _ _ _ this] show ?thesis using assms(3-5) by (simp add: t_def mutex_rep_def mutex_ok_def)
qed

lemma rec_take_step:
  assumes rep: "mutex_rep a l s" and cur: "pxCurrentTCB (kern s) \<noteq> NULL" and q: "quiet a gaps"
    and b: "\<forall>t n. l = Some (t, n) \<longrightarrow> n + 1 < 2 ^ 32"
    and e: "xQueueTakeMutexRecursive gaps a inh c s = Some (r, inh', c', s')"
  shows "mutex_rep a (snd (lock_step (pxCurrentTCB (kern s), Take) l)) s' \<and>
    (r = Some True) = fst (lock_step (pxCurrentTCB (kern s), Take) l)"
proof (cases l)
  case None
  then have f: "pcTail (queues s a) \<noteq> pxCurrentTCB (kern s)" "uxMessagesWaiting (queues s a) > 0" "pcHead (queues s a) = NULL"
    using rep cur by (auto simp: mutex_rep_def mutex_ok_def)
  obtain u where u: "xQueueSemaphoreTake gaps a inh c s = Some (r, inh', c', u)"
    "s' = (if r = Some True then upd_q a (\<lambda>q. q\<lparr>uxRecursiveCallCount := uxRecursiveCallCount q + 1\<rparr>) u else u)"
    using e f(1) by (auto simp: xQueueTakeMutexRecursive_def bind_eq_Some_conv)
  show ?thesis using take_success [OF f(2) u(1) f(3)] None rep cur u(2) by (simp add: mutex_rep_def mutex_ok_def)
next
  case (Some p)
  then obtain t n where p: "l = Some (t, n)" by (cases p) auto
  have h: "pcTail (queues s a) = t" "\<not> uxMessagesWaiting (queues s a) > 0" using rep p by (auto simp: mutex_rep_def)
  show ?thesis
  proof (cases "t = pxCurrentTCB (kern s)")
    case True
    then have "r = Some True" "s' = upd_q a (\<lambda>q. q\<lparr>uxRecursiveCallCount := uxRecursiveCallCount q + 1\<rparr>) s"
      using e h(1) by (auto simp: xQueueTakeMutexRecursive_def)
    then show ?thesis using rep p b True by (simp add: mutex_rep_def mutex_ok_def)
  next
    case False
    then obtain u where u: "xQueueSemaphoreTake gaps a inh c s = Some (r, inh', c', u)"
      "s' = (if r = Some True then upd_q a (\<lambda>q. q\<lparr>uxRecursiveCallCount := uxRecursiveCallCount q + 1\<rparr>) u else u)"
      using e h(1) by (auto simp: xQueueTakeMutexRecursive_def bind_eq_Some_conv)
    have "r \<noteq> Some True" "same_but_locks a s u" using take_failure [OF q h(2) u(1)] by auto
    then show ?thesis using u(2) rep p False by (simp add: mutex_rep_same)
  qed
qed

lemma rec_give_step:
  assumes rep: "mutex_rep a l s" and cur: "pxCurrentTCB (kern s) \<noteq> NULL"
    and e: "xQueueGiveMutexRecursive a s = Some (r, s')"
  shows "mutex_rep a (snd (lock_step (pxCurrentTCB (kern s), Give) l)) s' \<and>
    r = fst (lock_step (pxCurrentTCB (kern s), Give) l)"
proof (cases "pcTail (queues s a) = pxCurrentTCB (kern s)")
  case False
  then have "\<not> r" "s' = s" using e by (auto simp: xQueueGiveMutexRecursive_def)
  then show ?thesis using rep cur False by (auto simp: mutex_rep_def split: option.splits)
next
  case True
  then obtain n where l: "l = Some (pxCurrentTCB (kern s), n)" "0 < n" "n < 2 ^ 32" "uxRecursiveCallCount (queues s a) = of_nat n"
    "uxMessagesWaiting (queues s a) = 0"
    using rep cur by (auto simp: mutex_rep_def split: option.splits)
  define t where "t = upd_q a (\<lambda>q. q\<lparr>uxRecursiveCallCount := uxRecursiveCallCount q - 1\<rparr>) s"
  have ct: "uxRecursiveCallCount (queues t a) = of_nat (n - 1)" using l(2,4) by (simp add: t_def of_nat_diff)
  have z: "uxRecursiveCallCount (queues t a) = 0 \<longleftrightarrow> n = 1"
  proof -
    have "uxRecursiveCallCount (queues t a) = 0 \<longleftrightarrow> 2 ^ 32 dvd n - 1"
      unfolding ct word_of_nat_eq_0_iff by simp
    also have "\<dots> \<longleftrightarrow> n = 1" using l(2,3) by (auto dest: dvd_imp_le)
    finally show ?thesis .
  qed
  have r: "r = True" using e True by (auto simp: xQueueGiveMutexRecursive_def Let_def bind_eq_Some_conv)
  show ?thesis
  proof (cases "n = 1")
    case n1: True
    then obtain x c where "xQueueGenericSend no_gaps a [] queueSEND_TO_BACK qcall0 t = Some (x, c, s')"
      using e True z by (auto simp: xQueueGiveMutexRecursive_def Let_def t_def bind_eq_Some_conv)
    from give_success [OF _ _ _ this] show ?thesis using rep l n1 r by (simp add: t_def mutex_rep_def mutex_ok_def)
  next
    case False
    then have "s' = t" using e True z by (auto simp: xQueueGiveMutexRecursive_def Let_def t_def bind_eq_Some_conv)
    then show ?thesis using rep l r ct cur False by (auto simp: t_def mutex_rep_def mutex_ok_def)
  qed
qed

text \<open>Runs of the tasks on a mutex from its creation. A task takes and gives by whole passes, interrupted
  by anything that leaves the mutex alone; between its steps the rest of the system does too.\<close>

inductive mutex_history :: "addr \<Rightarrow> (addr \<times> lock_op) list \<Rightarrow> bool list \<Rightarrow> rtos \<Rightarrow> bool" for a where
  created: "prvInitialiseMutex a s = Some s' \<Longrightarrow> a \<noteq> NULL \<Longrightarrow> uxItemSize (queues s a) = 0 \<Longrightarrow>
    uxLength (queues s a) = 1 \<Longrightarrow> uxMessagesWaiting (queues s a) = 0 \<Longrightarrow> mutex_history a [] [] s'"
| take: "mutex_history a xs bs s \<Longrightarrow> pxCurrentTCB (kern s) \<noteq> NULL \<Longrightarrow> quiet a gaps \<Longrightarrow>
    xQueueTakeMutexRecursive gaps a inh c s = Some (r, inh', c', s') \<Longrightarrow>
    mutex_history a (xs @ [(pxCurrentTCB (kern s), Take)]) (bs @ [r = Some True]) s'"
| give: "mutex_history a xs bs s \<Longrightarrow> pxCurrentTCB (kern s) \<noteq> NULL \<Longrightarrow> xQueueGiveMutexRecursive a s = Some (r, s') \<Longrightarrow>
    mutex_history a (xs @ [(pxCurrentTCB (kern s), Give)]) (bs @ [r]) s'"
| other: "mutex_history a xs bs s \<Longrightarrow> same_but_locks a s s' \<Longrightarrow> mutex_history a xs bs s'"

lemma lock_count_le: "snd (lock_run xs None) = Some (t, n) \<Longrightarrow> n \<le> length xs"
proof (induction xs arbitrary: t n rule: rev_induct)
  case (snoc x xs)
  obtain u op where "x = (u, op)" by (cases x)
  then show ?case using snoc by (cases "snd (lock_run xs None)"; cases op) (auto simp: lock_run_snoc split: if_splits)
qed simp

lemma mutex_history_lock:
  assumes "mutex_history a xs bs s" and "length xs < 2 ^ 32"
  shows "bs = fst (lock_run xs None) \<and> mutex_rep a (snd (lock_run xs None)) s"
  using assms
proof (induction rule: mutex_history.induct)
  case (created s s')
  then show ?case using prvInitialiseMutex_free by simp
next
  case (take xs bs s gaps inh c r inh' c' s')
  then have ih: "bs = fst (lock_run xs None)" "mutex_rep a (snd (lock_run xs None)) s" by auto
  have "\<forall>t n. snd (lock_run xs None) = Some (t, n) \<longrightarrow> n + 1 < 2 ^ 32"
    using lock_count_le take.prems by fastforce
  from rec_take_step [OF ih(2) take.hyps(2,3) this take.hyps(4)] show ?case using ih(1) by (simp add: lock_run_snoc)
next
  case (give xs bs s r s')
  then have ih: "bs = fst (lock_run xs None)" "mutex_rep a (snd (lock_run xs None)) s" by auto
  from rec_give_step [OF ih(2) give.hyps(2,3)] show ?case using ih(1) by (simp add: lock_run_snoc)
next
  case (other xs bs s s')
  then show ?case by (simp add: mutex_rep_same)
qed

section \<open>Waiting for a mutex\<close>

text \<open>Inheritance touches no event list and no count of the scheduler.\<close>

lemma inherit_frame:
  assumes "xTaskPriorityInherit t k = Some (b, k')"
  shows "elists k' = elists k \<and> uxSchedulerSuspended k' = uxSchedulerSuspended k \<and> uxPendedTicks k' = uxPendedTicks k \<and>
    uxCurrentNumberOfTasks k' = uxCurrentNumberOfTasks k \<and> xTickCount k' = xTickCount k"
  using assms
  by (auto simp: xTaskPriorityInherit_def set_event_priority_eq Let_def bind_eq_Some_conv st_remove_def taskRESET_READY_PRIORITY_def
      prvAddTaskToReadyList_def st_insert_end_def split: if_splits option.splits)

text \<open>The running task sleeps on the mutex, and its holder has at least its priority.\<close>

definition waits_for :: "addr \<Rightarrow> addr \<Rightarrow> u32 \<Rightarrow> sched \<Rightarrow> sched \<Rightarrow> bool" where
  "waits_for i a n k k' \<longleftrightarrow> kernel_ok i k' \<and> pxCurrentTCB k' = pxCurrentTCB k \<and> xTickCount k' = xTickCount k \<and>
     yield_requested k' \<and> uxSchedulerSuspended k' = 0 \<and>
     evContainer (tcbs k' (pxCurrentTCB k)) = Some (EventList (xTasksWaitingToReceive a)) \<and>
     (if n = portMAX_DELAY then stContainer (tcbs k' (pxCurrentTCB k)) = Some xSuspendedTaskList
      else remaining k' (pxCurrentTCB k) = Some (unat n))"

lemma take_waits:
  assumes c: "calm i (kern s)" and r: "running_ready i (kern s)" and u: "unlocked_q (queues s a)"
    and m: "pcHead (queues s a) = queueQUEUE_IS_MUTEX" and z: "uxMessagesWaiting (queues s a) = 0"
    and h: "pxMutexHolder (queues s a) \<noteq> NULL" "pxMutexHolder (queues s a) \<noteq> pxCurrentTCB (kern s)"
    and n: "xTicks c \<noteq> 0" and rec: "xEntryTimeSet c \<longrightarrow> recent (kern s) (xTimeOut c)" and it: "in_time (kern s) c"
  shows "\<exists>inh' c' k'. xQueueSemaphoreTake no_gaps a inh c s = Some (None, inh', c', s\<lparr>kern := k'\<rparr>) \<and>
    call_after (kern s) c c' \<and> waits_for i a (rest (kern s) c) (kern s) k' \<and>
    prio k' (pxMutexHolder (queues s a)) = max (prio (kern s) (pxMutexHolder (queues s a))) (prio (kern s) (pxCurrentTCB (kern s))) \<and>
    uxBasePriority (tcbs k' (pxMutexHolder (queues s a))) = uxBasePriority (tcbs (kern s) (pxMutexHolder (queues s a))) \<and>
    (\<forall>v. v \<noteq> pxMutexHolder (queues s a) \<and> v \<noteq> pxCurrentTCB (kern s) \<longrightarrow> tcbs k' v = tcbs (kern s) v)"
proof -
  let ?h = "pcTail (queues s a)" and ?k = "vTaskSuspendAll (kern s)"
  define t where "t = upd_q a locked (s\<lparr>kern := ?k\<rparr>)"
  obtain x c' where ck: "check_time_out t (set_entry_time s c) = (x, c')" by force
  have kt: "kern t = ?k" by (simp add: t_def)
  note ca = check_after_entry [OF kt rec n, unfolded ck fst_conv snd_conv]
  have x: "\<not> x" "call_after (kern s) c c'" "xTicks c' = rest (kern s) c" "rest (kern s) c > 0"
    using ca it by (simp_all add: call_after_def word_neq_0_conv)
  have k: "kernel_ok i ?k" "running_ready i ?k" "uxSchedulerSuspended ?k = 1" "uxPendedTicks ?k = 0"
    "ev_items ?k xPendingReadyList = []" "uxCurrentNumberOfTasks ?k > 0" "tcbs ?k = tcbs (kern s)"
    "xTickCount ?k = xTickCount (kern s)" "pxCurrentTCB ?k = pxCurrentTCB (kern s)"
    using c r by (simp_all add: calm_def vTaskSuspendAll_def running_ready_def)
  obtain b k1 where k1: "xTaskPriorityInherit ?h ?k = Some (b, k1)" "kernel_ok i k1" "\<forall>u. u \<noteq> ?h \<longrightarrow> tcbs k1 u = tcbs (kern s) u"
    "pxCurrentTCB k1 = pxCurrentTCB (kern s)" "uxBasePriority (tcbs k1 ?h) = uxBasePriority (tcbs (kern s) ?h)"
    "prio k1 ?h = max (prio (kern s) ?h) (prio (kern s) (pxCurrentTCB (kern s)))"
    using xTaskPriorityInherit_spec [OF k(1), of ?h] h(1) unfolding k(7,9) by auto
  note fr = inherit_frame [OF k1(1)]
  have r1: "running_ready i k1" using k(2) k1(3,4) h(2) k(7,9) by (simp add: running_ready_def)
  define w where "w = t\<lparr>kern := k1\<rparr>"
  have kw: "kern w = k1" "queues w a = locked (queues s a)" by (simp_all add: w_def t_def)
  note lu = lock_unlock [OF u]
  have pw: "\<exists>k'. place_and_yield no_gaps a (xTasksWaitingToReceive a) (xTicks c') w = Some (upd_q a unlocked (w\<lparr>kern := k'\<rparr>)) \<and>
      asleep i (xTasksWaitingToReceive a) (xTicks c') k1 k'"
    using place_and_yield_calm [of i w "xTicks c'" a "xTasksWaitingToReceive a"] k1(2) r1 fr k(3-6) x(3,4) lu(2)
    unfolding kw by simp
  then obtain k' where k': "place_and_yield no_gaps a (xTasksWaitingToReceive a) (xTicks c') w = Some (upd_q a unlocked (w\<lparr>kern := k'\<rparr>))"
    "asleep i (xTasksWaitingToReceive a) (rest (kern s) c) k1 k'" unfolding x(3) by blast
  have back_s: "upd_q a unlocked (w\<lparr>kern := k'\<rparr>) = s\<lparr>kern := k'\<rparr>" 
  proof -
    have "(queues w)(a := unlocked (queues w a)) = queues s" using lu(1) by (simp add: w_def t_def fun_eq_iff)
    then have "upd_q a unlocked (w\<lparr>kern := k'\<rparr>) = w\<lparr>kern := k', queues := queues s\<rparr>" by simp
    also have "\<dots> = s\<lparr>kern := k'\<rparr>" by (cases s) (simp add: w_def t_def)
    finally show ?thesis .
  qed
  have ti: "take_inherit a inh t = Some (b, w)"
    using k1(1) m by (simp add: take_inherit_def on_kern_def kt w_def) (simp add: t_def locked_def)
  have et: "prvIsQueueEmpty a t" using z by (simp add: prvIsQueueEmpty_def t_def locked_def)
  have nz: "\<not> uxMessagesWaiting (queues s a) > 0" using z by simp
  have "xQueueSemaphoreTake no_gaps a inh c s = Some (None, b, c', s\<lparr>kern := k'\<rparr>)"
    unfolding xQueueSemaphoreTake_def Let_def if_not_P [OF nz] if_not_P [OF n] enter_no_gaps t_def [symmetric]
    by (simp add: ck x(1) et ti k'(1) [unfolded back_s])
  moreover have "waits_for i a (rest (kern s) c) (kern s) k'"
    using k'(2) fr k(8) unfolding asleep_def waits_for_def k1(4) by simp
  moreover have "tcbs k' v = tcbs k1 v" if "v \<noteq> pxCurrentTCB (kern s)" for v
    using k'(2) k1(4) that by (simp add: asleep_def)
  ultimately show ?thesis using x(2) k1(3,5,6) h(2) by auto
qed

section \<open>The registry as a map\<close>

definition reg_of :: "registry_item list \<Rightarrow> addr \<Rightarrow> addr option" where
  "reg_of rs = map_of (map (\<lambda>r. (xHandle r, pcQueueName r)) (filter (\<lambda>r. pcQueueName r \<noteq> NULL) rs))"

definition reg_ok :: "registry_item list \<Rightarrow> bool" where
  "reg_ok rs \<longleftrightarrow> (\<forall>r \<in> set rs. pcQueueName r = NULL \<longleftrightarrow> xHandle r = NULL) \<and>
     distinct (map xHandle (filter (\<lambda>r. pcQueueName r \<noteq> NULL) rs))"

lemma reg_of_Cons: "reg_of (r # rs) = (if pcQueueName r = NULL then reg_of rs else (reg_of rs)(xHandle r \<mapsto> pcQueueName r))"
  by (simp add: reg_of_def)

lemma reg_of_dom: "dom (reg_of rs) = xHandle ` {r \<in> set rs. pcQueueName r \<noteq> NULL}"
  by (auto simp: reg_of_def dom_map_of_conv_image_fst image_image)

lemma reg_ok_Cons: "reg_ok (r # rs) \<longleftrightarrow> (pcQueueName r = NULL \<longleftrightarrow> xHandle r = NULL) \<and> reg_ok rs \<and>
    (pcQueueName r \<noteq> NULL \<longrightarrow> xHandle r \<notin> dom (reg_of rs))"
  by (auto simp: reg_ok_def reg_of_dom)

lemma registry_name_reg: "h \<noteq> NULL \<Longrightarrow> reg_ok rs \<Longrightarrow> registry_name h rs = (case reg_of rs h of None \<Rightarrow> NULL | Some n \<Rightarrow> n)"
  by (induction rs) (auto simp: reg_of_Cons reg_ok_Cons, simp add: reg_of_def)

lemma registry_add_reg:
  assumes "h \<noteq> NULL" and "n \<noteq> NULL" and "reg_ok rs" and "reg_of rs h = None"
  shows "reg_ok (registry_add h n rs) \<and> length (registry_add h n rs) = length rs \<and>
    reg_of (registry_add h n rs) = (if \<exists>r \<in> set rs. pcQueueName r = NULL then (reg_of rs)(h \<mapsto> n) else reg_of rs)"
  using assms(3,4)
proof (induction rs)
  case (Cons r rs)
  show ?case
  proof (cases "pcQueueName r = NULL")
    case True
    then show ?thesis using Cons.prems assms(1,2) by (auto simp: reg_of_Cons reg_ok_Cons)
  next
    case False
    then have ne: "xHandle r \<noteq> h" and p: "reg_ok rs" "reg_of rs h = None" "xHandle r \<notin> dom (reg_of rs)" "xHandle r \<noteq> NULL"
      using Cons.prems by (auto simp: reg_of_Cons reg_ok_Cons split: if_splits)
    show ?thesis using Cons.IH [OF p(1,2)] False ne p(3,4) by (auto simp: reg_of_Cons reg_ok_Cons fun_upd_twist split: if_splits)
  qed
qed simp

lemma registry_remove_reg:
  assumes "h \<noteq> NULL" and "reg_ok rs"
  shows "reg_ok (registry_remove h rs) \<and> length (registry_remove h rs) = length rs \<and>
    reg_of (registry_remove h rs) = (reg_of rs)(h := None)"
  using assms by (induction rs) (auto simp: reg_of_Cons reg_ok_Cons reg_of_def)

lemma reg_free_iff:
  assumes "reg_ok rs"
  shows "(\<exists>r \<in> set rs. pcQueueName r = NULL) \<longleftrightarrow> card (dom (reg_of rs)) < length rs"
proof -
  have "card (dom (reg_of rs)) = length (filter (\<lambda>r. pcQueueName r \<noteq> NULL) rs)"
    using assms distinct_card [of "map xHandle (filter (\<lambda>r. pcQueueName r \<noteq> NULL) rs)"] by (simp add: reg_of_dom reg_ok_def)
  moreover have "length (filter P xs) < length xs \<longleftrightarrow> (\<exists>x \<in> set xs. \<not> P x)" for P and xs :: "registry_item list"
    by (metis filter_id_conv length_filter_le length_filter_less order_le_less order_less_irrefl)
  ultimately show ?thesis by simp
qed

text \<open>Any use of the registry that does not register a handle twice, with the map it stands for.\<close>

inductive registry_history :: "(addr \<Rightarrow> addr option) \<Rightarrow> rtos \<Rightarrow> bool" where
  start: "xQueueRegistry s = replicate 10 \<lparr>pcQueueName = NULL, xHandle = NULL\<rparr> \<Longrightarrow> registry_history Map.empty s"
| add: "registry_history m s \<Longrightarrow> h \<noteq> NULL \<Longrightarrow> n \<noteq> NULL \<Longrightarrow> m h = None \<Longrightarrow>
    registry_history (if card (dom m) < 10 then m(h \<mapsto> n) else m) (vQueueAddToRegistry h n s)"
| remove: "registry_history m s \<Longrightarrow> h \<noteq> NULL \<Longrightarrow> registry_history (m(h := None)) (vQueueUnregisterQueue h s)"

lemma registry_history_reg:
  "registry_history m s \<Longrightarrow> reg_ok (xQueueRegistry s) \<and> length (xQueueRegistry s) = 10 \<and> m = reg_of (xQueueRegistry s)"
proof (induction rule: registry_history.induct)
  case (start s)
  then show ?case by (simp add: reg_ok_def reg_of_def)
next
  case (add m s h n)
  then show ?case using registry_add_reg [of h n "xQueueRegistry s"] reg_free_iff [of "xQueueRegistry s"]
    by (simp add: vQueueAddToRegistry_def)
next
  case (remove m s h)
  then show ?case using registry_remove_reg [of h "xQueueRegistry s"] by (simp add: vQueueUnregisterQueue_def)
qed

section \<open>Sample\<close>

text \<open>A mutex at an address on whose lists no task waits, before \<open>prvInitialiseMutex\<close> and after.\<close>

definition sample_block :: rtos where
  "sample_block = sample_rtos\<lparr>queues := (\<lambda>_. sample_queue\<lparr>uxItemSize := 0, uxLength := 1\<rparr>)\<rparr>"

definition sample_mutex :: "u32 \<Rightarrow> addr \<Rightarrow> u32 \<Rightarrow> rtos" where
  "sample_mutex n h c = sample_block\<lparr>queues := (\<lambda>_. sample_queue\<lparr>uxItemSize := 0, uxLength := 1\<rparr>)
     (800 := sample_queue\<lparr>uxItemSize := 0, uxLength := 1, pcHead := NULL, pcTail := h, uxMessagesWaiting := n, uxRecursiveCallCount := c\<rparr>)\<rparr>"

lemma sample_no_waiter: "e \<noteq> 500 \<Longrightarrow> ev_items sample_sched (EventList e) = []"
  by (simp add: sample_sched_def sched_bss_def klist_empty_def)

lemma sample_mutex_init: "prvInitialiseMutex 800 sample_block = Some (sample_mutex 1 NULL 0)"
  by (simp add: prvInitialiseMutex_def xQueueGenericSend_def prvCopyDataToQueue_def sample_block_def sample_mutex_def
      sample_queue_def on_kern_def xTaskPriorityDisinherit_def listLIST_IS_EMPTY_def xTasksWaitingToReceive_def
      sample_no_waiter fun_eq_iff Let_def)


lemma sample_take:
  "xQueueTakeMutexRecursive no_gaps 800 False qcall0 (sample_mutex 1 NULL 0) =
    Some (Some True, False, qcall0, (sample_mutex 0 200 1)\<lparr>kern := snd (pvTaskIncrementMutexHeldCount sample_sched)\<rparr>)"
  by (simp add: xQueueTakeMutexRecursive_def xQueueSemaphoreTake_def sample_mutex_def sample_block_def sample_queue_def take_held_def
      wake_yield_def listLIST_IS_EMPTY_def xTasksWaitingToSend_def sample_no_waiter pvTaskIncrementMutexHeldCount_def Let_def fun_eq_iff)

lemma sample_give:
  "\<exists>t. xQueueGiveMutexRecursive 800 ((sample_mutex 0 200 1)\<lparr>kern := snd (pvTaskIncrementMutexHeldCount sample_sched)\<rparr>) = Some (True, t)"
  by (simp add: xQueueGiveMutexRecursive_def xQueueGenericSend_def prvCopyDataToQueue_def sample_mutex_def sample_block_def
      sample_queue_def on_kern_def xTaskPriorityDisinherit_def sample_tcb_def listLIST_IS_EMPTY_def xTasksWaitingToReceive_def
      sample_no_waiter pvTaskIncrementMutexHeldCount_def Let_def)

lemma sample_history:
  "\<exists>t. mutex_history 800 [(200, Take), (200, Give)] [True, True] t"
proof -
  have h0: "mutex_history 800 [] [] (sample_mutex 1 NULL 0)"
    by (rule created [OF sample_mutex_init]) (simp_all add: sample_block_def sample_queue_def)
  have c: "pxCurrentTCB (kern (sample_mutex 1 NULL 0)) = 200" by (simp add: sample_mutex_def sample_block_def)
  have h1: "mutex_history 800 ([] @ [(pxCurrentTCB (kern (sample_mutex 1 NULL 0)), Take)]) ([] @ [Some True = Some True])
      ((sample_mutex 0 200 1)\<lparr>kern := snd (pvTaskIncrementMutexHeldCount sample_sched)\<rparr>)"
    by (rule take [OF h0 _ quiet_no_gaps sample_take]) (simp add: c)
  obtain t where g: "xQueueGiveMutexRecursive 800 ((sample_mutex 0 200 1)\<lparr>kern := snd (pvTaskIncrementMutexHeldCount sample_sched)\<rparr>) = Some (True, t)"
    using sample_give by blast
  have c1: "pxCurrentTCB (kern ((sample_mutex 0 200 1)\<lparr>kern := snd (pvTaskIncrementMutexHeldCount sample_sched)\<rparr>)) = 200"
    by (simp add: pvTaskIncrementMutexHeldCount_def Let_def)
  from give [OF h1 _ g] show ?thesis unfolding c c1 by auto
qed

section \<open>Properties\<close>

text \<open>\<^bold>\<open>C17\<close>. Recursive mutexes refine the lock: in any run of takes and gives of any tasks from the
  creation of the mutex, with interrupts in every gap, the answers are those of the reference, which is
  free or held by one task a number of times, and the structure represents the reference's state.\<close>

theorem recursive_mutex_refines_lock:
  assumes "mutex_history a xs bs s" and "length xs < 2 ^ 32"
  shows "bs = fst (lock_run xs None) \<and> mutex_rep a (snd (lock_run xs None)) s"
  by (rule mutex_history_lock [OF assms])

theorem recursive_mutex_refines_lock_witness:
  "\<exists>t. mutex_history 800 [(200, Take), (200, Give)] [True, True] t \<and> mutex_rep 800 None t"
proof -
  obtain t where t: "mutex_history 800 [(200, Take), (200, Give)] [True, True] t" using sample_history by blast
  from recursive_mutex_refines_lock [OF t] t show ?thesis by (auto simp: Let_def)
qed

lemma lock_held:
  assumes "(t, Give) \<notin> set ys" and "0 < n"
  shows "\<exists>m > 0. snd (lock_run ys (Some (t, n))) = Some (t, m)"
  using assms
proof (induction ys rule: rev_induct)
  case (snoc y ys)
  then obtain m where m: "m > 0" "snd (lock_run ys (Some (t, n))) = Some (t, m)" by auto
  show ?case using snoc.prems m by (cases y; cases "snd y") (auto simp: lock_run_snoc)
qed simp

lemma lock_run_append:
  "lock_run (xs @ ys) l = (fst (lock_run xs l) @ fst (lock_run ys (snd (lock_run xs l))), snd (lock_run ys (snd (lock_run xs l))))"
  by (induction xs arbitrary: l) (auto simp: Let_def split_beta)

lemma lock_run_length: "length (fst (lock_run xs l)) = length xs"
  by (induction xs arbitrary: l) (auto simp: Let_def split_beta)

lemma lock_exclusion:
  assumes "fst (lock_run (xs @ (t, Take) # ys @ [(u, Take)]) l) = bs @ True # cs @ [True]"
    and "length bs = length xs" and "u \<noteq> t"
  shows "(t, Give) \<in> set ys"
proof (rule ccontr)
  assume g: "(t, Give) \<notin> set ys"
  define l1 where "l1 = snd (lock_run xs l)"
  obtain b l2 where s: "lock_step (t, Take) l1 = (b, l2)" by fastforce
  have e: "fst (lock_run xs l) @ b # fst (lock_run ys l2) @ [fst (lock_step (u, Take) (snd (lock_run ys l2)))] = bs @ True # cs @ [True]"
    using assms(1) s by (simp add: lock_run_append lock_run_snoc l1_def [symmetric] Let_def split_beta)
  then have b: "b" and lu: "fst (lock_step (u, Take) (snd (lock_run ys l2)))"
    using assms(2) lock_run_length [of xs l] by simp_all
  obtain n where "l2 = Some (t, n)" "0 < n"
    using s b by (cases l1 rule: option.exhaust) (auto split: if_splits)
  then obtain m where "snd (lock_run ys l2) = Some (t, m)" using lock_held [OF g] by blast
  then show False using lu assms(3) by simp
qed



text \<open>Waiting for a mutex lends priority. A task that finds the mutex held sleeps on its list of
  receivers for the rest of its time, and the holder leaves the pass with at least the priority of the
  waiter; its base priority and all other tasks stay as they are.\<close>

theorem mutex_wait_lends_priority:
  assumes "calm i (kern s)" and "running_ready i (kern s)" and "unlocked_q (queues s a)"
    and "pcHead (queues s a) = queueQUEUE_IS_MUTEX" and "uxMessagesWaiting (queues s a) = 0"
    and "pxMutexHolder (queues s a) \<noteq> NULL" and "pxMutexHolder (queues s a) \<noteq> pxCurrentTCB (kern s)"
    and "xTicks c \<noteq> 0" and "xEntryTimeSet c \<longrightarrow> recent (kern s) (xTimeOut c)" and "in_time (kern s) c"
  shows "\<exists>inh' c' k'. xQueueSemaphoreTake no_gaps a inh c s = Some (None, inh', c', s\<lparr>kern := k'\<rparr>) \<and>
    call_after (kern s) c c' \<and> waits_for i a (rest (kern s) c) (kern s) k' \<and>
    prio k' (pxMutexHolder (queues s a)) = max (prio (kern s) (pxMutexHolder (queues s a))) (prio (kern s) (pxCurrentTCB (kern s))) \<and>
    uxBasePriority (tcbs k' (pxMutexHolder (queues s a))) = uxBasePriority (tcbs (kern s) (pxMutexHolder (queues s a))) \<and>
    (\<forall>v. v \<noteq> pxMutexHolder (queues s a) \<and> v \<noteq> pxCurrentTCB (kern s) \<longrightarrow> tcbs k' v = tcbs (kern s) v)"
  by (rule take_waits [OF assms])

text \<open>Here the running task 200 of priority 3 waits for the mutex that the task 100 of priority 0 holds.\<close>

theorem mutex_wait_lends_priority_witness:
  "\<exists>inh' c' k'. xQueueSemaphoreTake no_gaps 800 False (qcall0\<lparr>xTicks := 5\<rparr>) (sample_mutex 0 100 1) =
      Some (None, inh', c', (sample_mutex 0 100 1)\<lparr>kern := k'\<rparr>) \<and> prio k' 100 = 3 \<and> remaining k' 200 = Some 5"
proof -
  have k: "kern (sample_mutex 0 100 1) = sample_sched" by (simp add: sample_mutex_def sample_block_def)
  have q: "unlocked_q (queues (sample_mutex 0 100 1) 800)" "pcHead (queues (sample_mutex 0 100 1) 800) = NULL"
    "uxMessagesWaiting (queues (sample_mutex 0 100 1) 800) = 0" "pcTail (queues (sample_mutex 0 100 1) 800) = 100"
    by (simp_all add: sample_mutex_def unlocked_q_def sample_queue_def)
  show ?thesis
    using mutex_wait_lends_priority [of 100 "sample_mutex 0 100 1" 800 "qcall0\<lparr>xTicks := 5\<rparr>" False]
    unfolding k q(4) using q(1-3) sample_calm sample_running
    by (fastforce simp: qcall0_def in_time_def elapsed_def rest_def waits_for_def sample_tcb_def)
qed

text \<open>The registry is a map from handles to names of at most ten entries: after any sequence of
  registrations (of handles not registered) and removals, \<open>pcQueueGetName\<close> answers what the map does, and
  NULL for a handle that is not in it.\<close>

theorem registry_refines_map:
  assumes "registry_history m s" and "h \<noteq> NULL"
  shows "pcQueueGetName h s = (case m h of None \<Rightarrow> NULL | Some n \<Rightarrow> n)"
  using registry_history_reg [OF assms(1)] registry_name_reg [OF assms(2)] by (simp add: pcQueueGetName_def)

theorem registry_refines_map_witness:
  "pcQueueGetName 464 (vQueueUnregisterQueue 800 (vQueueAddToRegistry 464 5 (vQueueAddToRegistry 800 9 sample_rtos))) = 5"
proof -
  have e: "registry_history Map.empty sample_rtos" by (rule start) (simp add: sample_rtos_def)
  have "registry_history ([800 \<mapsto> 9]) (vQueueAddToRegistry 800 9 sample_rtos)" using add [OF e, of 800 9] by simp
  then have "registry_history ([800 \<mapsto> 9, 464 \<mapsto> 5]) (vQueueAddToRegistry 464 5 (vQueueAddToRegistry 800 9 sample_rtos))"
    using add [of "[800 \<mapsto> 9]" _ 464 5] by (simp add: fun_upd_twist)
  from registry_refines_map [OF remove [OF this, of 800], of 464] show ?thesis by simp
qed

end
