(* ===== verification/Notify.thy ===== *)
theory Notify imports SchedProps begin

text \<open>
  Task notifications (\<open>freertos/src/tasks.c\<close>): the value and the state of a control block, changed by
  the notifying task or interrupt and consumed by the notified task. The two critical sections of a call that
  may block are two definitions; between them the task sleeps or goes on at once.
\<close>

section \<open>Notifying\<close>

datatype eNotifyAction = eNoAction | eSetBits | eIncrement | eSetValueWithOverwrite | eSetValueWithoutOverwrite

text \<open>The new value and the result.\<close>

definition notify_value :: "eNotifyAction \<Rightarrow> u32 \<Rightarrow> u8 \<Rightarrow> u32 \<Rightarrow> bool \<times> u32" where
  "notify_value eAction ulValue ucOriginalNotifyState old =
    (case eAction of
       eSetBits \<Rightarrow> (True, old OR ulValue)
     | eIncrement \<Rightarrow> (True, old + 1)
     | eSetValueWithOverwrite \<Rightarrow> (True, ulValue)
     | eSetValueWithoutOverwrite \<Rightarrow>
         (if ucOriginalNotifyState \<noteq> taskNOTIFICATION_RECEIVED then (True, ulValue) else (False, old))
     | eNoAction \<Rightarrow> (True, old))"

definition notify_set :: "addr \<Rightarrow> u32 \<Rightarrow> sched \<Rightarrow> sched" where
  "notify_set t v s = upd_tcb t (\<lambda>c. c\<lparr>ucNotifyState := taskNOTIFICATION_RECEIVED, ulNotifiedValue := v\<rparr>) s"

text \<open>The result, the previous value and the state.\<close>

definition xTaskGenericNotify :: "addr \<Rightarrow> u32 \<Rightarrow> eNotifyAction \<Rightarrow> sched \<Rightarrow> (bool \<times> u32 \<times> sched) option" where
  "xTaskGenericNotify t ulValue eAction s = do {
    let pulPreviousNotificationValue = ulNotifiedValue (tcbs s t);
    let ucOriginalNotifyState = ucNotifyState (tcbs s t);
    let (xReturn, v) = notify_value eAction ulValue ucOriginalNotifyState (ulNotifiedValue (tcbs s t));
    let s = notify_set t v s;
    s \<leftarrow> (if ucOriginalNotifyState = taskWAITING_NOTIFICATION
          then do {
            (_, s) \<leftarrow> st_remove t s;
            let s = prvAddTaskToReadyList t s;
            Some (if prio s t > prio s (pxCurrentTCB s) then portYIELD s else s)
          }
          else Some s);
    Some (xReturn, pulPreviousNotificationValue, s)
  }"

text \<open>From interrupts the flag \<open>*pxHigherPriorityTaskWoken\<close> is an argument, if the caller passes one.\<close>

definition notify_wake_isr :: "addr \<Rightarrow> bool option \<Rightarrow> sched \<Rightarrow> (bool option \<times> sched) option" where
  "notify_wake_isr t woken s = do {
    s \<leftarrow> (if uxSchedulerSuspended s = 0
          then do { (_, s) \<leftarrow> st_remove t s; Some (prvAddTaskToReadyList t s) }
          else Some (ev_insert_end xPendingReadyList t s));
    Some (if prio s t > prio s (pxCurrentTCB s)
          then (case woken of Some _ \<Rightarrow> (Some True, s) | None \<Rightarrow> (None, s\<lparr>xYieldPending := True\<rparr>))
          else (woken, s))
  }"

definition xTaskGenericNotifyFromISR :: "addr \<Rightarrow> u32 \<Rightarrow> eNotifyAction \<Rightarrow> bool option \<Rightarrow> sched \<Rightarrow>
    (bool \<times> u32 \<times> bool option \<times> sched) option" where
  "xTaskGenericNotifyFromISR t ulValue eAction woken s = do {
    let pulPreviousNotificationValue = ulNotifiedValue (tcbs s t);
    let ucOriginalNotifyState = ucNotifyState (tcbs s t);
    let (xReturn, v) = notify_value eAction ulValue ucOriginalNotifyState (ulNotifiedValue (tcbs s t));
    let s = notify_set t v s;
    (woken, s) \<leftarrow> (if ucOriginalNotifyState = taskWAITING_NOTIFICATION then notify_wake_isr t woken s
                   else Some (woken, s));
    Some (xReturn, pulPreviousNotificationValue, woken, s)
  }"

definition vTaskNotifyGiveFromISR :: "addr \<Rightarrow> bool option \<Rightarrow> sched \<Rightarrow> (bool option \<times> sched) option" where
  "vTaskNotifyGiveFromISR t woken s = do {
    let ucOriginalNotifyState = ucNotifyState (tcbs s t);
    let s = notify_set t (ulNotifiedValue (tcbs s t) + 1) s;
    if ucOriginalNotifyState = taskWAITING_NOTIFICATION then notify_wake_isr t woken s else Some (woken, s)
  }"

definition xTaskNotifyStateClear :: "addr \<Rightarrow> sched \<Rightarrow> bool \<times> sched" where
  "xTaskNotifyStateClear xTask s =
    (let t = prvGetTCBFromHandle xTask s
     in if ucNotifyState (tcbs s t) = taskNOTIFICATION_RECEIVED
        then (True, upd_tcb t (\<lambda>c. c\<lparr>ucNotifyState := taskNOT_WAITING_NOTIFICATION\<rparr>) s)
        else (False, s))"

section \<open>Waiting\<close>

text \<open>Where the current task starts to wait, common to both calls.\<close>

definition notify_block :: "u32 \<Rightarrow> sched \<Rightarrow> sched option" where
  "notify_block xTicksToWait s = do {
    let s = upd_tcb (pxCurrentTCB s) (\<lambda>c. c\<lparr>ucNotifyState := taskWAITING_NOTIFICATION\<rparr>) s;
    if xTicksToWait > 0
    then map_option portYIELD (prvAddCurrentTaskToDelayedList xTicksToWait True s)
    else Some s
  }"

text \<open>The two critical sections of \<open>ulTaskNotifyTake\<close>.\<close>

definition ulTaskNotifyTake_enter :: "u32 \<Rightarrow> sched \<Rightarrow> sched option" where
  "ulTaskNotifyTake_enter xTicksToWait s =
    (if ulNotifiedValue (tcbs s (pxCurrentTCB s)) = 0 then notify_block xTicksToWait s else Some s)"

definition ulTaskNotifyTake_leave :: "bool \<Rightarrow> sched \<Rightarrow> u32 \<times> sched" where
  "ulTaskNotifyTake_leave xClearCountOnExit s =
    (let t = pxCurrentTCB s;
         ulReturn = ulNotifiedValue (tcbs s t);
         s = (if ulReturn \<noteq> 0
              then (if xClearCountOnExit then upd_tcb t (\<lambda>c. c\<lparr>ulNotifiedValue := 0\<rparr>) s
                    else upd_tcb t (\<lambda>c. c\<lparr>ulNotifiedValue := ulReturn - 1\<rparr>) s)
              else s)
     in (ulReturn, upd_tcb t (\<lambda>c. c\<lparr>ucNotifyState := taskNOT_WAITING_NOTIFICATION\<rparr>) s))"

text \<open>The two critical sections of \<open>xTaskNotifyWait\<close>.\<close>

definition xTaskNotifyWait_enter :: "u32 \<Rightarrow> u32 \<Rightarrow> sched \<Rightarrow> sched option" where
  "xTaskNotifyWait_enter ulBitsToClearOnEntry xTicksToWait s =
    (let t = pxCurrentTCB s
     in if ucNotifyState (tcbs s t) \<noteq> taskNOTIFICATION_RECEIVED
        then notify_block xTicksToWait
          (upd_tcb t (\<lambda>c. c\<lparr>ulNotifiedValue := ulNotifiedValue c AND NOT ulBitsToClearOnEntry\<rparr>) s)
        else Some s)"

text \<open>The result, \<open>*pulNotificationValue\<close> and the state.\<close>

definition xTaskNotifyWait_leave :: "u32 \<Rightarrow> sched \<Rightarrow> bool \<times> u32 \<times> sched" where
  "xTaskNotifyWait_leave ulBitsToClearOnExit s =
    (let t = pxCurrentTCB s;
         pulNotificationValue = ulNotifiedValue (tcbs s t);
         (xReturn, s) =
           (if ucNotifyState (tcbs s t) \<noteq> taskNOTIFICATION_RECEIVED then (False, s)
            else (True, upd_tcb t (\<lambda>c. c\<lparr>ulNotifiedValue := ulNotifiedValue c AND NOT ulBitsToClearOnExit\<rparr>) s))
     in (xReturn, pulNotificationValue, upd_tcb t (\<lambda>c. c\<lparr>ucNotifyState := taskNOT_WAITING_NOTIFICATION\<rparr>) s))"

section \<open>What the operations keep\<close>

text \<open>A change of the notification fields of a task.\<close>

definition notes_only :: "(tcb \<Rightarrow> tcb) \<Rightarrow> bool" where
  "notes_only f \<longleftrightarrow> (\<forall>c. f c = c\<lparr>ulNotifiedValue := ulNotifiedValue (f c), ucNotifyState := ucNotifyState (f c)\<rparr>)"

lemma notes_only_simps [simp]:
  "notes_only (\<lambda>c. c\<lparr>ulNotifiedValue := a c\<rparr>)" "notes_only (\<lambda>c. c\<lparr>ucNotifyState := b c\<rparr>)"
  "notes_only (\<lambda>c. c\<lparr>ulNotifiedValue := a c, ucNotifyState := b c\<rparr>)"
  "notes_only (\<lambda>c. c\<lparr>ucNotifyState := b c, ulNotifiedValue := a c\<rparr>)"
  by (auto simp: notes_only_def intro!: tcb.equality)

lemma notes_only_sel:
  assumes "notes_only f"
  shows "stContainer (f c) = stContainer c" "evContainer (f c) = evContainer c" "uxPriority (f c) = uxPriority c"
    "uxBasePriority (f c) = uxBasePriority c" "stItemValue (f c) = stItemValue c" "evItemValue (f c) = evItemValue c"
proof -
  have e: "f c = c\<lparr>ulNotifiedValue := ulNotifiedValue (f c), ucNotifyState := ucNotifyState (f c)\<rparr>"
    using assms by (simp add: notes_only_def)
  show "stContainer (f c) = stContainer c" "evContainer (f c) = evContainer c" "uxPriority (f c) = uxPriority c"
    "uxBasePriority (f c) = uxBasePriority c" "stItemValue (f c) = stItemValue c" "evItemValue (f c) = evItemValue c"
    by (subst e, simp)+
qed

lemma notes_kernel:
  assumes k: "kernel_inv b i s" and f: "notes_only f"
  shows "kernel_inv b i (upd_tcb t f s)"
proof (rule kernel_inv_step [OF k, where t = t])
  show "sched_inv b (upd_tcb t f s)"
    by (rule sched_inv_upd [OF kernel_invD(1) [OF k]])
      (use notes_only_sel [OF f] prio_bounds [OF k] in simp_all)
qed (use notes_only_sel [OF f] kernel_invD(2) [OF k, of t] kernel_invD(3) [OF k] in auto)

text \<open>A task that sleeps and waits for a notification is in a delayed list or the suspended list, and in no
  event list.\<close>

definition sleeps :: "addr \<Rightarrow> sched \<Rightarrow> bool" where
  "sleeps t s \<longleftrightarrow> waiting_in (stContainer (tcbs s t)) \<and> evContainer (tcbs s t) = None"

lemma notify_set_kernel: "kernel_ok i s \<Longrightarrow> kernel_ok i (notify_set t v s)"
  unfolding notify_set_def by (rule notes_kernel) simp_all

lemma wake_ready:
  assumes k: "kernel_ok i s" and t: "sleeps t s"
  shows "\<exists>n L. st_remove t s = Some (n, st_removed t L s) \<and> prvAddTaskToReadyList t (st_removed t L s) = unblocked t L s \<and>
    kernel_ok i (unblocked t L s)"
proof -
  have "waiting_in (stContainer (tcbs s t))" using t by (simp add: sleeps_def)
  then obtain L where L: "stContainer (tcbs s t) = Some L" "\<And>p. L \<noteq> Ready p" by (rule waiting_inE) blast
  have "evContainer (tcbs s t) = None" using t by (simp add: sleeps_def)
  with L show ?thesis
    by (intro exI [of _ "length (kl_items (klist_remove t (slists s L)))"] exI [of _ L] conjI
        st_remove_eq unblocked_no_event kernel_inv_unblocked [OF k])
qed

lemma tcb_notes_order:
  fixes c :: tcb
  assumes "evContainer c = None"
  shows "c\<lparr>ucNotifyState := n, ulNotifiedValue := x, stContainer := L, evContainer := None\<rparr> =
    c\<lparr>ulNotifiedValue := x, ucNotifyState := n, stContainer := L\<rparr>"
  by (rule tcb.equality) (simp_all add: assms)

lemma xTaskGenericNotify_spec:
  assumes k: "kernel_ok i s" and w: "ucNotifyState (tcbs s t) = taskWAITING_NOTIFICATION \<Longrightarrow> sleeps t s"
    and r: "notify_value a v (ucNotifyState (tcbs s t)) (ulNotifiedValue (tcbs s t)) = (b, x)"
  shows "\<exists>s'. xTaskGenericNotify t v a s = Some (b, ulNotifiedValue (tcbs s t), s') \<and> kernel_ok i s' \<and>
    pxCurrentTCB s' = pxCurrentTCB s \<and> (\<forall>u. u \<noteq> t \<longrightarrow> tcbs s' u = tcbs s u) \<and>
    tcbs s' t = (tcbs s t)\<lparr>ulNotifiedValue := x, ucNotifyState := taskNOTIFICATION_RECEIVED,
      stContainer := (if ucNotifyState (tcbs s t) = taskWAITING_NOTIFICATION then Some (Ready (prio s t)) else stContainer (tcbs s t))\<rparr> \<and>
    (ucNotifyState (tcbs s t) = taskWAITING_NOTIFICATION \<and> prio s t > prio s (pxCurrentTCB s) \<longrightarrow> yield_requested s')"
proof -
  define s1 where "s1 = notify_set t x s"
  have k1: "kernel_ok i s1" unfolding s1_def by (rule notify_set_kernel [OF k])
  have c1: "tcbs s1 = (tcbs s)(t := (tcbs s t)\<lparr>ucNotifyState := taskNOTIFICATION_RECEIVED, ulNotifiedValue := x\<rparr>)"
    "pxCurrentTCB s1 = pxCurrentTCB s" by (simp_all add: s1_def notify_set_def)
  have p1: "prio s1 u = prio s u" for u by (simp add: c1)
  show ?thesis
  proof (cases "ucNotifyState (tcbs s t) = taskWAITING_NOTIFICATION")
    case True
    have "sleeps t s1" using w [OF True] c1 by (simp add: sleeps_def)
    then obtain n L where L: "st_remove t s1 = Some (n, st_removed t L s1)"
      "prvAddTaskToReadyList t (st_removed t L s1) = unblocked t L s1" "kernel_ok i (unblocked t L s1)"
      using wake_ready [OF k1] by blast
    let ?u = "unblocked t L s1"
    have g: "pxCurrentTCB ?u = pxCurrentTCB s" using glob_sel(1) [OF glob_unblocked] c1(2) by simp
    have pu: "prio ?u u = prio s u" for u using p1 [of u] p1 [of t] by simp
    have "xTaskGenericNotify t v a s = Some (b, ulNotifiedValue (tcbs s t),
        if prio s t > prio s (pxCurrentTCB s) then portYIELD ?u else ?u)"
      unfolding xTaskGenericNotify_def Let_def r prod.case s1_def [symmetric] L(1) Option.bind.bind_lunit L(2)
        if_P [OF True] pu g ..
    moreover have "tcbs ?u = (tcbs s)(t := (tcbs s t)\<lparr>ulNotifiedValue := x, ucNotifyState := taskNOTIFICATION_RECEIVED,
        stContainer := Some (Ready (prio s t))\<rparr>)"
      using c1(1) w [OF True] by (simp add: sleeps_def tcb_notes_order)
    ultimately show ?thesis using L(3) g True by (simp add: portYIELD_def yieldable_fields)
  next
    case False
    have "xTaskGenericNotify t v a s = Some (b, ulNotifiedValue (tcbs s t), s1)"
      unfolding xTaskGenericNotify_def Let_def r prod.case s1_def [symmetric] if_not_P [OF False]
        Option.bind.bind_lunit ..
    then show ?thesis using k1 r c1 False by auto
  qed
qed

lemma tcb_no_event:
  fixes c :: tcb
  shows "evContainer c = None \<Longrightarrow> c\<lparr>stContainer := L, evContainer := None\<rparr> = c\<lparr>stContainer := L\<rparr>"
  by (rule tcb.equality) simp_all

lemma notify_wake_isr_spec:
  assumes k: "kernel_ok i s" and w: "sleeps t s"
  shows "\<exists>h' s'. notify_wake_isr t h s = Some (h', s') \<and> kernel_ok i s' \<and> pxCurrentTCB s' = pxCurrentTCB s \<and>
    (\<forall>u. u \<noteq> t \<longrightarrow> tcbs s' u = tcbs s u) \<and>
    tcbs s' t = (if uxSchedulerSuspended s = 0 then (tcbs s t)\<lparr>stContainer := Some (Ready (prio s t))\<rparr>
      else (tcbs s t)\<lparr>evContainer := Some xPendingReadyList\<rparr>) \<and>
    (prio s t > prio s (pxCurrentTCB s) \<longrightarrow> (if h = None then xYieldPending s' else h' = Some True))"
proof -
  define s1 where "s1 = (if uxSchedulerSuspended s = 0 then prvAddTaskToReadyList t (snd (the (st_remove t s))) else ev_insert_end xPendingReadyList t s)"
  have s1: "(if uxSchedulerSuspended s = 0 then do { (_, s) \<leftarrow> st_remove t s; Some (prvAddTaskToReadyList t s) }
      else Some (ev_insert_end xPendingReadyList t s)) = Some s1 \<and> kernel_ok i s1 \<and> pxCurrentTCB s1 = pxCurrentTCB s \<and>
    tcbs s1 = (tcbs s)(t := (if uxSchedulerSuspended s = 0 then (tcbs s t)\<lparr>stContainer := Some (Ready (prio s t))\<rparr>
      else (tcbs s t)\<lparr>evContainer := Some xPendingReadyList\<rparr>))"
  proof (cases "uxSchedulerSuspended s = 0")
    case True
    obtain n L where L: "st_remove t s = Some (n, st_removed t L s)" "prvAddTaskToReadyList t (st_removed t L s) = unblocked t L s"
      "kernel_ok i (unblocked t L s)" using wake_ready [OF k w] by blast
    then show ?thesis using True w glob_sel(1) [OF glob_unblocked, of t L s]
      by (simp add: s1_def sleeps_def tcb_no_event)
  next
    case False
    have "sched_ok (ev_insert_end xPendingReadyList t s)"
      by (rule sched_inv_ev_insert [OF kernel_invD(1) [OF k]]) (use w in \<open>simp add: sleeps_def\<close>)
    then have "kernel_ok i (ev_insert_end xPendingReadyList t s)"
      by (rule kernel_inv_step [OF k, where t = t]) (use w kernel_invD(3) [OF k] in \<open>auto simp: sleeps_def\<close>)
    then show ?thesis using False glob_sel(1) [of "ev_insert_end xPendingReadyList t s" s] by (simp add: s1_def)
  qed
  have p: "prio s1 u = prio s u" for u using s1 by simp
  have "notify_wake_isr t h s = Some (if prio s t > prio s (pxCurrentTCB s)
      then (case h of Some _ \<Rightarrow> (Some True, s1) | None \<Rightarrow> (None, s1\<lparr>xYieldPending := True\<rparr>)) else (h, s1))"
    unfolding notify_wake_isr_def conjunct1 [OF s1] Option.bind.bind_lunit p using s1 by simp
  then show ?thesis using s1 by (cases h) (auto)
qed

definition note_of :: "sched \<Rightarrow> addr \<Rightarrow> u32 \<times> u8" where
  "note_of s u = (ulNotifiedValue (tcbs s u), ucNotifyState (tcbs s u))"

lemma notes_simps [simp]:
  "note_of (st_insert L t s) = note_of s" "note_of (st_insert_end L t s) = note_of s" "note_of (s\<lparr>uxTopReadyPriority := p\<rparr>) = note_of s"
  "note_of (s\<lparr>xNextTaskUnblockTime := w\<rparr>) = note_of s" "note_of (upd_tcb t (\<lambda>c. c\<lparr>stItemValue := v\<rparr>) s) = note_of s"
  by (simp_all add: note_of_def fun_eq_iff)

lemma st_remove_notes: "st_remove t s = Some (n, s') \<Longrightarrow> note_of s' = note_of s"
  by (auto simp: st_remove_def note_of_def fun_eq_iff Let_def split: option.splits)

lemma block_notes:
  assumes e: "prvAddCurrentTaskToDelayedList n ind s = Some s'"
  shows "note_of s' = note_of s"
proof -
  obtain m s1 where s1: "st_remove (pxCurrentTCB s) s = Some (m, s1)"
    using e unfolding prvAddCurrentTaskToDelayedList_def by (auto simp: bind_eq_Some_conv Let_def)
  define s2 where "s2 = (if m = 0 then s1\<lparr>uxTopReadyPriority := portRESET_READY_PRIORITY (prio s1 (pxCurrentTCB s)) (uxTopReadyPriority s1)\<rparr> else s1)"
  have n2: "note_of s2 = note_of s" using st_remove_notes [OF s1] by (simp add: s2_def)
  define s3 where "s3 = upd_tcb (pxCurrentTCB s) (\<lambda>c. c\<lparr>stItemValue := xTickCount s2 + n\<rparr>) s2"
  have n3: "note_of s3 = note_of s" unfolding s3_def using n2 by simp
  define s4 where "s4 = st_insert (pxDelayedTaskList s3) (pxCurrentTCB s) s3"
  have n4: "note_of s4 = note_of s" using n3 by (simp add: s4_def)
  from e have "s' = st_insert_end xSuspendedTaskList (pxCurrentTCB s) s2 \<or> s' = st_insert (pxOverflowDelayedTaskList s3) (pxCurrentTCB s) s3 \<or>
      s' = s4 \<or> (\<exists>w. s' = s4\<lparr>xNextTaskUnblockTime := w\<rparr>)"
    unfolding prvAddCurrentTaskToDelayedList_def Let_def s1 Option.bind.bind_lunit prod.case s2_def [symmetric] s3_def [symmetric] s4_def [symmetric]
    by (auto split: if_splits)
  then show ?thesis using n2 n3 n4 by auto
qed

lemma notify_block_spec:
  assumes k: "kernel_ok i s" and r: "running_ready i s"
  shows "\<exists>s'. notify_block n s = Some s' \<and> kernel_ok i s' \<and> pxCurrentTCB s' = pxCurrentTCB s \<and>
    (\<forall>u. u \<noteq> pxCurrentTCB s \<longrightarrow> tcbs s' u = tcbs s u) \<and>
    ucNotifyState (tcbs s' (pxCurrentTCB s)) = taskWAITING_NOTIFICATION \<and>
    ulNotifiedValue (tcbs s' (pxCurrentTCB s)) = ulNotifiedValue (tcbs s (pxCurrentTCB s)) \<and>
    prio s' (pxCurrentTCB s) = prio s (pxCurrentTCB s) \<and>
    (n > 0 \<longrightarrow> sleeps (pxCurrentTCB s) s' \<and> yield_requested s' \<and>
      (if n = portMAX_DELAY then stContainer (tcbs s' (pxCurrentTCB s)) = Some xSuspendedTaskList
       else remaining s' (pxCurrentTCB s) = Some (unat n))) \<and>
    (n = 0 \<longrightarrow> tcbs s' (pxCurrentTCB s) = (tcbs s (pxCurrentTCB s))\<lparr>ucNotifyState := taskWAITING_NOTIFICATION\<rparr>)"
proof -
  let ?t = "pxCurrentTCB s"
  define s1 where "s1 = upd_tcb ?t (\<lambda>c. c\<lparr>ucNotifyState := taskWAITING_NOTIFICATION\<rparr>) s"
  have k1: "kernel_ok i s1" unfolding s1_def by (rule notes_kernel [OF k]) simp
  have c1: "pxCurrentTCB s1 = ?t" "tcbs s1 = (tcbs s)(?t := (tcbs s ?t)\<lparr>ucNotifyState := taskWAITING_NOTIFICATION\<rparr>)"
    by (simp_all add: s1_def)
  have r1: "running_ready i s1" using r by (simp add: running_ready_def c1)
  show ?thesis
  proof (cases "n > 0")
    case False
    then have "notify_block n s = Some s1" by (simp add: notify_block_def s1_def)
    then show ?thesis using k1 c1 False by simp
  next
    case n: True
    obtain s2 where s2: "prvAddCurrentTaskToDelayedList n True s1 = Some s2"
      "blocked i n True (evContainer (tcbs s1 ?t)) (evItemValue (tcbs s1 ?t)) s1 s2"
      using block_kernel [OF k1 r1 n kernel_invD(1) [OF k1] refl refl refl refl refl] unfolding c1(1) by blast
    have e: "evContainer (tcbs s ?t) = None" using running_no_event [OF k] r by (auto simp: running_ready_def)
    note b = s2(2) [unfolded blocked_def Let_def c1(1)]
    have "pxCurrentTCB s2 = ?t" using b globn_sel(1) [of s2 s1] c1(1) by simp
    moreover have "notify_block n s = Some (portYIELD s2)" using n s2(1) by (simp add: notify_block_def s1_def)
    moreover have "remaining (portYIELD s2) ?t = remaining s2 ?t" by (rule remaining_cong) (simp_all add: portYIELD_def)
    ultimately show ?thesis using b e n c1 fun_cong [OF block_notes [OF s2(1)], of ?t]
      by (auto simp: sleeps_def suspend_forever_def portYIELD_def yieldable_fields note_of_def)
  qed
qed

section \<open>Notifications as a counting semaphore\<close>

text \<open>
  A task that only takes and is only given notifications. The indices count what was given and what the takes
  returned (with the clear flag all of the count, otherwise one). Everything else that happens to the kernel
  leaves the notification fields of the task alone and does not put it to sleep.
\<close>

inductive notify_run :: "addr \<Rightarrow> addr \<Rightarrow> nat \<Rightarrow> nat \<Rightarrow> sched \<Rightarrow> bool" for i t where
  start: "kernel_ok i s \<Longrightarrow> note_of s t = (0, taskNOT_WAITING_NOTIFICATION) \<Longrightarrow> notify_run i t 0 0 s"
| enter: "notify_run i t g k s \<Longrightarrow> pxCurrentTCB s = t \<Longrightarrow> running_ready i s \<Longrightarrow> ulTaskNotifyTake_enter n s = Some s' \<Longrightarrow>
    notify_run i t g k s'"
| leave: "notify_run i t g k s \<Longrightarrow> pxCurrentTCB s = t \<Longrightarrow> running_ready i s \<Longrightarrow> ulTaskNotifyTake_leave clr s = (v, s') \<Longrightarrow>
    notify_run i t g (k + (if clr then unat v else min 1 (unat v))) s'"
| give: "notify_run i t g k s \<Longrightarrow> ucNotifyState (tcbs s t) = taskWAITING_NOTIFICATION \<longrightarrow> sleeps t s \<Longrightarrow>
    xTaskGenericNotify t 0 eIncrement s = Some (r, v, s') \<Longrightarrow> notify_run i t (g + 1) k s'"
| give_isr: "notify_run i t g k s \<Longrightarrow> ucNotifyState (tcbs s t) = taskWAITING_NOTIFICATION \<longrightarrow> sleeps t s \<Longrightarrow>
    vTaskNotifyGiveFromISR t h s = Some (h', s') \<Longrightarrow> notify_run i t (g + 1) k s'"
| other: "notify_run i t g k s \<Longrightarrow> kernel_ok i s' \<Longrightarrow> note_of s' t = note_of s t \<Longrightarrow> (sleeps t s' \<longrightarrow> sleeps t s) \<Longrightarrow>
    notify_run i t g k s'"

text \<open>The count is what was given and not yet taken, and nobody sleeps on a count that is not 0.\<close>

definition notify_inv :: "addr \<Rightarrow> addr \<Rightarrow> nat \<Rightarrow> nat \<Rightarrow> sched \<Rightarrow> bool" where
  "notify_inv i t g k s \<longleftrightarrow> kernel_ok i s \<and> k \<le> g \<and> unat (ulNotifiedValue (tcbs s t)) = g - k \<and>
    (ucNotifyState (tcbs s t) = taskWAITING_NOTIFICATION \<longrightarrow> ulNotifiedValue (tcbs s t) = 0)"

lemma running_not_sleeping: "running_ready i s \<Longrightarrow> \<not> sleeps (pxCurrentTCB s) s"
  by (auto simp: running_ready_def sleeps_def)

lemma enter_inv:
  assumes v: "notify_inv i t g k s" and c: "pxCurrentTCB s = t" and r: "running_ready i s"
    and e: "ulTaskNotifyTake_enter n s = Some s'"
  shows "notify_inv i t g k s'"
proof (cases "ulNotifiedValue (tcbs s t) = 0")
  case True
  obtain s2 where s2: "notify_block n s = Some s2" "kernel_ok i s2"
    using notify_block_spec [of i s n] v r by (auto simp: notify_inv_def)
  have "s' = s2" using e s2(1) True c by (simp add: ulTaskNotifyTake_enter_def)
  moreover have "ulNotifiedValue (tcbs s2 t) = 0"
  proof -
    define s1 where "s1 = upd_tcb t (\<lambda>c. c\<lparr>ucNotifyState := taskWAITING_NOTIFICATION\<rparr>) s"
    have "ulNotifiedValue (tcbs s1 t) = 0" using True by (simp add: s1_def)
    then show ?thesis
      using s2(1) c block_notes [of n True s1]
      by (auto simp: notify_block_def s1_def [symmetric] portYIELD_def note_of_def fun_eq_iff split: if_splits)
  qed
  ultimately show ?thesis using v s2(2) True by (simp add: notify_inv_def)
next
  case False
  then show ?thesis using e c v by (simp add: ulTaskNotifyTake_enter_def)
qed

lemma leave_inv:
  assumes v: "notify_inv i t g k s" and c: "pxCurrentTCB s = t" and e: "ulTaskNotifyTake_leave clr s = (v, s')"
  shows "notify_inv i t g (k + (if clr then unat v else min 1 (unat v))) s'"
proof -
  let ?v = "ulNotifiedValue (tcbs s t)"
  have ev: "v = ?v" using e c by (simp add: ulTaskNotifyTake_leave_def Let_def)
  have k: "kernel_ok i s" using v by (simp add: notify_inv_def)
  show ?thesis
  proof (cases "?v = 0")
    case True
    then have s': "s' = upd_tcb t (\<lambda>c. c\<lparr>ucNotifyState := taskNOT_WAITING_NOTIFICATION\<rparr>) s"
      using e c by (auto simp: ulTaskNotifyTake_leave_def Let_def)
    have "kernel_ok i s'" unfolding s' by (rule notes_kernel [OF k]) simp
    then show ?thesis using v ev True by (auto simp: notify_inv_def s')
  next
    case False
    let ?w = "if clr then 0 else ?v - 1"
    have s': "s' = upd_tcb t (\<lambda>c. c\<lparr>ulNotifiedValue := ?w, ucNotifyState := taskNOT_WAITING_NOTIFICATION\<rparr>) s"
      using e c False by (auto simp: ulTaskNotifyTake_leave_def Let_def)
    have "kernel_ok i s'" unfolding s' by (rule notes_kernel [OF k]) simp
    moreover have "unat (?v - 1) = unat ?v - 1" "0 < unat ?v" using False by (simp_all add: unat_minus_one unat_gt_0)
    ultimately show ?thesis using v ev by (auto simp: notify_inv_def s' min_def)
  qed
qed

lemma give_inv:
  assumes v: "notify_inv i t g k s" and g: "g + 1 < 2 ^ 32"
    and t: "ulNotifiedValue (tcbs s' t) = ulNotifiedValue (tcbs s t) + 1" "ucNotifyState (tcbs s' t) = taskNOTIFICATION_RECEIVED"
    and k: "kernel_ok i s'"
  shows "notify_inv i t (g + 1) k s'"
proof -
  have "unat (ulNotifiedValue (tcbs s t)) + 1 < 2 ^ 32" using v g by (simp add: notify_inv_def)
  then have "unat (ulNotifiedValue (tcbs s t) + 1) = unat (ulNotifiedValue (tcbs s t)) + 1"
    by (simp add: unat_word_ariths)
  then show ?thesis using v t k by (simp add: notify_inv_def Suc_diff_le)
qed

lemma vTaskNotifyGiveFromISR_spec:
  assumes k: "kernel_ok i s" and w: "ucNotifyState (tcbs s t) = taskWAITING_NOTIFICATION \<Longrightarrow> sleeps t s"
  shows "\<exists>h' s'. vTaskNotifyGiveFromISR t h s = Some (h', s') \<and> kernel_ok i s' \<and>
    ulNotifiedValue (tcbs s' t) = ulNotifiedValue (tcbs s t) + 1 \<and> ucNotifyState (tcbs s' t) = taskNOTIFICATION_RECEIVED"
proof -
  define s1 where "s1 = notify_set t (ulNotifiedValue (tcbs s t) + 1) s"
  have k1: "kernel_ok i s1" unfolding s1_def by (rule notify_set_kernel [OF k])
  have c1: "tcbs s1 t = (tcbs s t)\<lparr>ucNotifyState := taskNOTIFICATION_RECEIVED, ulNotifiedValue := ulNotifiedValue (tcbs s t) + 1\<rparr>"
    by (simp add: s1_def notify_set_def)
  show ?thesis
  proof (cases "ucNotifyState (tcbs s t) = taskWAITING_NOTIFICATION")
    case True
    have "sleeps t s1" using w [OF True] c1 by (simp add: sleeps_def)
    from notify_wake_isr_spec [OF k1 this, of h] obtain h' s' where
      "notify_wake_isr t h s1 = Some (h', s')" "kernel_ok i s'"
      "tcbs s' t = (if uxSchedulerSuspended s1 = 0 then (tcbs s1 t)\<lparr>stContainer := Some (Ready (prio s1 t))\<rparr>
        else (tcbs s1 t)\<lparr>evContainer := Some xPendingReadyList\<rparr>)"
      by blast
    then show ?thesis using True c1 by (simp add: vTaskNotifyGiveFromISR_def s1_def [symmetric])
  next
    case False
    then have "vTaskNotifyGiveFromISR t h s = Some (h, s1)" by (simp add: vTaskNotifyGiveFromISR_def s1_def)
    then show ?thesis using k1 c1 by simp
  qed
qed

lemma notify_run_inv: "notify_run i t g k s \<Longrightarrow> g < 2 ^ 32 \<Longrightarrow> notify_inv i t g k s"
proof (induction rule: notify_run.induct)
  case (start s)
  then show ?case by (simp add: notify_inv_def note_of_def)
next
  case (enter g k s n s')
  then show ?case using enter_inv by blast
next
  case (leave g k s clr v s')
  then show ?case using leave_inv by blast
next
  case (give g k s r v s')
  then have v: "notify_inv i t g k s" by simp
  then obtain x where "xTaskGenericNotify t 0 eIncrement s = Some (True, ulNotifiedValue (tcbs s t), x)" "kernel_ok i x"
    "ulNotifiedValue (tcbs x t) = ulNotifiedValue (tcbs s t) + 1" "ucNotifyState (tcbs x t) = taskNOTIFICATION_RECEIVED"
    using xTaskGenericNotify_spec [of i s t eIncrement 0 True "ulNotifiedValue (tcbs s t) + 1"] give.hyps(2)
    by (auto simp: notify_inv_def notify_value_def)
  then show ?case using give_inv [OF v] give.prems give.hyps(3) by simp
next
  case (give_isr g k s h h' s')
  then have v: "notify_inv i t g k s" by simp
  then show ?case
    using vTaskNotifyGiveFromISR_spec [of i s t h] give_isr.hyps(2,3) give_inv [OF v] give_isr.prems
    by (auto simp: notify_inv_def)
next
  case (other g k s s')
  then show ?case by (simp add: notify_inv_def note_of_def)
qed

section \<open>Properties\<close>



text \<open>A notification wakes its task: whatever the action, a task that sleeps in \<open>ulTaskNotifyTake\<close> or
  \<open>xTaskNotifyWait\<close> becomes ready, at once and with the value the action gives, and preempts the
  notifying task if its priority is higher; no other task changes.\<close>

theorem notify_wakes_waiter:
  assumes "kernel_ok i s" and "ucNotifyState (tcbs s t) = taskWAITING_NOTIFICATION" and "sleeps t s"
    and "notify_value a v taskWAITING_NOTIFICATION (ulNotifiedValue (tcbs s t)) = (b, x)"
  shows "\<exists>s'. xTaskGenericNotify t v a s = Some (True, ulNotifiedValue (tcbs s t), s') \<and> kernel_ok i s' \<and>
    stContainer (tcbs s' t) = Some (Ready (prio s t)) \<and> ulNotifiedValue (tcbs s' t) = x \<and>
    ucNotifyState (tcbs s' t) = taskNOTIFICATION_RECEIVED \<and> (\<forall>u. u \<noteq> t \<longrightarrow> tcbs s' u = tcbs s u) \<and>
    (prio s t > prio s (pxCurrentTCB s) \<longrightarrow> yield_requested s')"
proof -
  have "b" using assms(4) by (cases a) (auto simp: notify_value_def)
  then show ?thesis using xTaskGenericNotify_spec [OF assms(1,3), of a v b x] assms(2,4) by auto
qed

text \<open>The task 200 waits, and the idle task, running after it, notifies it.\<close>

theorem notify_wakes_waiter_witness:
  "\<exists>s s'. ulTaskNotifyTake_enter 5 sample_sched = Some s \<and>
    xTaskGenericNotify 200 7 eSetBits (s\<lparr>pxCurrentTCB := 100\<rparr>) = Some (True, 0, s') \<and>
    ulNotifiedValue (tcbs s' 200) = 7 \<and> stContainer (tcbs s' 200) = Some (Ready 3)"
proof -
  have r: "running_ready 100 sample_sched" by (rule sample_running)
  obtain s where s: "notify_block 5 sample_sched = Some s" "kernel_ok 100 s" "ucNotifyState (tcbs s 200) = taskWAITING_NOTIFICATION"
    "sleeps 200 s" and v: "ulNotifiedValue (tcbs s 200) = 0" "prio s 200 = 3" using notify_block_spec [OF sample_sched_ok r, of 5]
    by (auto simp: sample_tcb_def)
  have e: "ulTaskNotifyTake_enter 5 sample_sched = Some s" using s(1) by (simp add: ulTaskNotifyTake_enter_def sample_tcb_def)
  define u where "u = s\<lparr>pxCurrentTCB := 100\<rparr>"
  have u: "kernel_ok 100 u" "ucNotifyState (tcbs u 200) = taskWAITING_NOTIFICATION" "sleeps 200 u"
    using s by (simp_all add: u_def sleeps_def)
  have "notify_value eSetBits 7 taskWAITING_NOTIFICATION (ulNotifiedValue (tcbs u 200)) = (True, 7)"
    using v by (simp add: u_def notify_value_def)
  from notify_wakes_waiter [OF u this] v e show ?thesis unfolding u_def by auto
qed

end
