(* ===== verification/EventGroup.thy ===== *)
theory EventGroup imports MutexProps begin

text \<open>
  Event groups (\<open>freertos/src/event_groups.c\<close>): 24 event bits, and a list of tasks that wait for some or all
  of a set of bits. A waiting task leaves what it waits for in the value of its event item, with control bits in the
  upper byte; the task that sets bits leaves there why it was woken. A call that may block is two
  definitions, up to the block and after it.
\<close>

unbundle bit_operations_syntax

section \<open>State\<close>

record egroup =
  uxEventBits :: u32
  uxEventGroupNumber :: u32

text \<open>The kernel and its memory, and the groups by address.\<close>

record eg_sys =
  rt :: rtos
  groups :: "addr \<Rightarrow> egroup"

abbreviation (input) "eventCLEAR_EVENTS_ON_EXIT_BIT \<equiv> (0x01000000 :: u32)"
abbreviation (input) "eventUNBLOCKED_DUE_TO_BIT_SET \<equiv> (0x02000000 :: u32)"
abbreviation (input) "eventWAIT_FOR_ALL_BITS \<equiv> (0x04000000 :: u32)"
abbreviation (input) "eventEVENT_BITS_CONTROL_BYTES \<equiv> (0xff000000 :: u32)"
abbreviation (input) "sizeof_EventGroup_t \<equiv> (28 :: u32)"

definition xTasksWaitingForBits :: "addr \<Rightarrow> addr" where "xTasksWaitingForBits a = a + 4"

abbreviation upd_bits :: "addr \<Rightarrow> (u32 \<Rightarrow> u32) \<Rightarrow> eg_sys \<Rightarrow> eg_sys" where
  "upd_bits a f s \<equiv> s\<lparr>groups := (groups s)(a := (groups s a)\<lparr>uxEventBits := f (uxEventBits (groups s a))\<rparr>)\<rparr>"

abbreviation eg_kern :: "eg_sys \<Rightarrow> sched" where "eg_kern s \<equiv> kern (rt s)"

definition with_kern :: "sched \<Rightarrow> eg_sys \<Rightarrow> eg_sys" where
  "with_kern k s = s\<lparr>rt := (rt s)\<lparr>kern := k\<rparr>\<rparr>"

section \<open>Operations\<close>

definition prvTestWaitCondition :: "u32 \<Rightarrow> u32 \<Rightarrow> bool \<Rightarrow> bool" where
  "prvTestWaitCondition uxCurrentEventBits uxBitsToWaitFor xWaitForAllBits =
    (if \<not> xWaitForAllBits then uxCurrentEventBits AND uxBitsToWaitFor \<noteq> 0
     else uxCurrentEventBits AND uxBitsToWaitFor = uxBitsToWaitFor)"

definition xEventGroupCreate :: "eg_sys \<Rightarrow> (addr \<times> eg_sys) option" where
  "xEventGroupCreate s = do {
    (a, r) \<leftarrow> pvPortMalloc sizeof_EventGroup_t (rt s);
    let s = s\<lparr>rt := r\<rparr>;
    Some (a, if a \<noteq> NULL
             then (let s = upd_bits a (\<lambda>_. 0) s in s\<lparr>rt := vListInitialise_event (xTasksWaitingForBits a) (rt s)\<rparr>)
             else s)
  }"

text \<open>The loop of \<open>xEventGroupSetBits\<close> over the waiting tasks; the next item is read before an item is
  removed. The bits do not change in the loop.\<close>

fun set_bits_loop :: "u32 \<Rightarrow> addr list \<Rightarrow> u32 \<Rightarrow> sched \<Rightarrow> (u32 \<times> sched) option" where
  "set_bits_loop bits [] uxBitsToClear k = Some (uxBitsToClear, k)"
| "set_bits_loop bits (t # ts) uxBitsToClear k =
    (let uxBitsWaitedFor = evItemValue (tcbs k t);
         uxControlBits = uxBitsWaitedFor AND eventEVENT_BITS_CONTROL_BYTES;
         uxBitsWaitedFor = uxBitsWaitedFor AND NOT eventEVENT_BITS_CONTROL_BYTES;
         xMatchFound =
           (if uxControlBits AND eventWAIT_FOR_ALL_BITS = 0 then uxBitsWaitedFor AND bits \<noteq> 0
            else uxBitsWaitedFor AND bits = uxBitsWaitedFor)
     in if xMatchFound
        then do {
          let uxBitsToClear = (if uxControlBits AND eventCLEAR_EVENTS_ON_EXIT_BIT \<noteq> 0
                               then uxBitsToClear OR uxBitsWaitedFor else uxBitsToClear);
          k \<leftarrow> vTaskRemoveFromUnorderedEventList t (bits OR eventUNBLOCKED_DUE_TO_BIT_SET) k;
          set_bits_loop bits ts uxBitsToClear k
        }
        else set_bits_loop bits ts uxBitsToClear k)"

definition xEventGroupSetBits :: "addr \<Rightarrow> u32 \<Rightarrow> eg_sys \<Rightarrow> (u32 \<times> eg_sys) option" where
  "xEventGroupSetBits a uxBitsToSet s = do {
    let s = with_kern (vTaskSuspendAll (eg_kern s)) s;
    let ts = ev_items (eg_kern s) (EventList (xTasksWaitingForBits a));
    let s = upd_bits a (\<lambda>b. b OR uxBitsToSet) s;
    (uxBitsToClear, k) \<leftarrow> set_bits_loop (uxEventBits (groups s a)) ts 0 (eg_kern s);
    let s = upd_bits a (\<lambda>b. b AND NOT uxBitsToClear) (with_kern k s);
    (_, k) \<leftarrow> xTaskResumeAll (eg_kern s);
    let s = with_kern k s;
    Some (uxEventBits (groups s a), s)
  }"

definition xEventGroupClearBits :: "addr \<Rightarrow> u32 \<Rightarrow> eg_sys \<Rightarrow> u32 \<times> eg_sys" where
  "xEventGroupClearBits a uxBitsToClear s =
    (uxEventBits (groups s a), upd_bits a (\<lambda>b. b AND NOT uxBitsToClear) s)"

definition xEventGroupGetBitsFromISR :: "addr \<Rightarrow> eg_sys \<Rightarrow> u32" where
  "xEventGroupGetBitsFromISR a s = uxEventBits (groups s a)"

text \<open>Waiting, up to the block: the result if there is one already.\<close>

definition eg_suspended_wait :: "addr \<Rightarrow> u32 \<Rightarrow> u32 \<Rightarrow> eg_sys \<Rightarrow> eg_sys option" where
  "eg_suspended_wait a value xTicksToWait s =
    map_option (\<lambda>k. with_kern k s)
      (vTaskPlaceOnUnorderedEventList (xTasksWaitingForBits a) value xTicksToWait (eg_kern s))"

definition eg_resume :: "bool \<Rightarrow> eg_sys \<Rightarrow> eg_sys option" where
  "eg_resume waiting s = do {
    (xAlreadyYielded, k) \<leftarrow> xTaskResumeAll (eg_kern s);
    Some (with_kern (if waiting \<and> \<not> xAlreadyYielded then portYIELD k else k) s)
  }"

definition xEventGroupWaitBits_enter :: "addr \<Rightarrow> u32 \<Rightarrow> bool \<Rightarrow> bool \<Rightarrow> u32 \<Rightarrow> eg_sys \<Rightarrow> (u32 option \<times> eg_sys) option" where
  "xEventGroupWaitBits_enter a uxBitsToWaitFor xClearOnExit xWaitForAllBits xTicksToWait s = do {
    let s = with_kern (vTaskSuspendAll (eg_kern s)) s;
    let uxCurrentEventBits = uxEventBits (groups s a);
    if prvTestWaitCondition uxCurrentEventBits uxBitsToWaitFor xWaitForAllBits
    then do {
      let s = (if xClearOnExit then upd_bits a (\<lambda>b. b AND NOT uxBitsToWaitFor) s else s);
      s \<leftarrow> eg_resume False s;
      Some (Some uxCurrentEventBits, s)
    }
    else if xTicksToWait = 0
    then do {
      s \<leftarrow> eg_resume False s;
      Some (Some uxCurrentEventBits, s)
    }
    else do {
      let uxControlBits = (if xClearOnExit then eventCLEAR_EVENTS_ON_EXIT_BIT else 0);
      let uxControlBits = (if xWaitForAllBits then uxControlBits OR eventWAIT_FOR_ALL_BITS else uxControlBits);
      s \<leftarrow> eg_suspended_wait a (uxBitsToWaitFor OR uxControlBits) xTicksToWait s;
      s \<leftarrow> eg_resume True s;
      Some (None, s)
    }
  }"

definition xEventGroupWaitBits_leave :: "addr \<Rightarrow> u32 \<Rightarrow> bool \<Rightarrow> bool \<Rightarrow> eg_sys \<Rightarrow> u32 \<times> eg_sys" where
  "xEventGroupWaitBits_leave a uxBitsToWaitFor xClearOnExit xWaitForAllBits s =
    (let (uxReturn, k) = uxTaskResetEventItemValue (eg_kern s);
         s = with_kern k s;
         (uxReturn, s) =
           (if uxReturn AND eventUNBLOCKED_DUE_TO_BIT_SET = 0
            then (let uxReturn = uxEventBits (groups s a)
                  in (uxReturn,
                      if prvTestWaitCondition uxReturn uxBitsToWaitFor xWaitForAllBits \<and> xClearOnExit
                      then upd_bits a (\<lambda>b. b AND NOT uxBitsToWaitFor) s else s))
            else (uxReturn, s))
     in (uxReturn AND NOT eventEVENT_BITS_CONTROL_BYTES, s))"

text \<open>A rendezvous: the task sets its bits and waits for all of a set.\<close>

definition xEventGroupSync_enter :: "addr \<Rightarrow> u32 \<Rightarrow> u32 \<Rightarrow> u32 \<Rightarrow> eg_sys \<Rightarrow> (u32 option \<times> eg_sys) option" where
  "xEventGroupSync_enter a uxBitsToSet uxBitsToWaitFor xTicksToWait s = do {
    let s = with_kern (vTaskSuspendAll (eg_kern s)) s;
    let uxOriginalBitValue = uxEventBits (groups s a);
    (_, s) \<leftarrow> xEventGroupSetBits a uxBitsToSet s;
    if (uxOriginalBitValue OR uxBitsToSet) AND uxBitsToWaitFor = uxBitsToWaitFor
    then do {
      let s = upd_bits a (\<lambda>b. b AND NOT uxBitsToWaitFor) s;
      s \<leftarrow> eg_resume False s;
      Some (Some (uxOriginalBitValue OR uxBitsToSet), s)
    }
    else if xTicksToWait \<noteq> 0
    then do {
      s \<leftarrow> eg_suspended_wait a (uxBitsToWaitFor OR eventCLEAR_EVENTS_ON_EXIT_BIT OR eventWAIT_FOR_ALL_BITS) xTicksToWait s;
      s \<leftarrow> eg_resume True s;
      Some (None, s)
    }
    else do {
      let uxReturn = uxEventBits (groups s a);
      s \<leftarrow> eg_resume False s;
      Some (Some uxReturn, s)
    }
  }"

definition xEventGroupSync_leave :: "addr \<Rightarrow> u32 \<Rightarrow> eg_sys \<Rightarrow> u32 \<times> eg_sys" where
  "xEventGroupSync_leave a uxBitsToWaitFor s =
    (let (uxReturn, k) = uxTaskResetEventItemValue (eg_kern s);
         s = with_kern k s;
         (uxReturn, s) =
           (if uxReturn AND eventUNBLOCKED_DUE_TO_BIT_SET = 0
            then (let uxReturn = uxEventBits (groups s a)
                  in (uxReturn,
                      if uxReturn AND uxBitsToWaitFor = uxBitsToWaitFor
                      then upd_bits a (\<lambda>b. b AND NOT uxBitsToWaitFor) s else s))
            else (uxReturn, s))
     in (uxReturn AND NOT eventEVENT_BITS_CONTROL_BYTES, s))"

text \<open>Deletion: the loop ends when nobody waits.\<close>

partial_function (option) delete_loop :: "addr \<Rightarrow> sched \<Rightarrow> sched option" where
  "delete_loop l k =
    (case ev_items k (EventList l) of
       [] \<Rightarrow> Some k
     | t # _ \<Rightarrow> do {
         k \<leftarrow> vTaskRemoveFromUnorderedEventList t eventUNBLOCKED_DUE_TO_BIT_SET k;
         delete_loop l k
       })"

definition vEventGroupDelete :: "addr \<Rightarrow> eg_sys \<Rightarrow> eg_sys option" where
  "vEventGroupDelete a s = do {
    let s = with_kern (vTaskSuspendAll (eg_kern s)) s;
    k \<leftarrow> delete_loop (xTasksWaitingForBits a) (eg_kern s);
    let s = with_kern k s;
    r \<leftarrow> vPortFree a (rt s);
    let s = s\<lparr>rt := r\<rparr>;
    (_, k) \<leftarrow> xTaskResumeAll (eg_kern s);
    Some (with_kern k s)
  }"

text \<open>What the timer task runs for the calls from interrupts.\<close>

definition vEventGroupSetBitsCallback :: "addr \<Rightarrow> u32 \<Rightarrow> eg_sys \<Rightarrow> eg_sys option" where
  "vEventGroupSetBitsCallback a ulBitsToSet s = map_option snd (xEventGroupSetBits a ulBitsToSet s)"

definition vEventGroupClearBitsCallback :: "addr \<Rightarrow> u32 \<Rightarrow> eg_sys \<Rightarrow> eg_sys" where
  "vEventGroupClearBitsCallback a ulBitsToClear s = snd (xEventGroupClearBits a ulBitsToClear s)"

definition uxEventGroupGetNumber :: "addr \<Rightarrow> eg_sys \<Rightarrow> u32" where
  "uxEventGroupGetNumber a s = (if a = NULL then 0 else uxEventGroupNumber (groups s a))"

definition vEventGroupSetNumber :: "addr \<Rightarrow> u32 \<Rightarrow> eg_sys \<Rightarrow> eg_sys" where
  "vEventGroupSetNumber a n s = s\<lparr>groups := (groups s)(a := (groups s a)\<lparr>uxEventGroupNumber := n\<rparr>)\<rparr>"

section \<open>Waking the tasks whose condition holds\<close>

definition wait_met :: "u32 \<Rightarrow> u32 \<Rightarrow> bool" where
  "wait_met bits v = prvTestWaitCondition bits (v AND NOT eventEVENT_BITS_CONTROL_BYTES) (v AND eventWAIT_FOR_ALL_BITS \<noteq> 0)"

text \<open>The bits that the woken tasks asked to clear.\<close>

fun clear_mask :: "u32 \<Rightarrow> u32 list \<Rightarrow> u32" where
  "clear_mask bits [] = 0"
| "clear_mask bits (v # vs) =
    (if wait_met bits v \<and> v AND eventCLEAR_EVENTS_ON_EXIT_BIT \<noteq> 0 then v AND NOT eventEVENT_BITS_CONTROL_BYTES else 0)
    OR clear_mask bits vs"

definition woken_by :: "u32 \<Rightarrow> tcb \<Rightarrow> tcb" where
  "woken_by v c = c\<lparr>stContainer := Some (Ready (uxPriority c)), evContainer := None,
     evItemValue := v OR eventUNBLOCKED_DUE_TO_BIT_SET OR taskEVENT_LIST_ITEM_VALUE_IN_USE\<rparr>"

lemma st_remove_elists: "st_remove t k = Some (n, k') \<Longrightarrow> elists k' = elists k"
  by (auto simp: st_remove_def Let_def split: option.splits)

lemma add_ready_elists: "elists (prvAddTaskToReadyList t k) = elists k"
  by (simp add: prvAddTaskToReadyList_def st_insert_end_def Let_def)

lemma remove_unordered_items:
  assumes e: "vTaskRemoveFromUnorderedEventList t v k = Some k'" and t: "evContainer (tcbs k t) = Some E"
  shows "ev_items k' E' = (if E' = E then remove1 t (ev_items k E) else ev_items k E')"
proof -
  define k1 where "k1 = upd_tcb t (\<lambda>c. c\<lparr>evItemValue := v OR taskEVENT_LIST_ITEM_VALUE_IN_USE\<rparr>) k"
  have t1: "evContainer (tcbs k1 t) = Some E" "elists k1 = elists k" using t by (simp_all add: k1_def)
  obtain m k3 where k3: "st_remove t (ev_removed t E k1) = Some (m, k3)"
    "k' = (let k = prvAddTaskToReadyList t k3 in if prio k t > prio k (pxCurrentTCB k) then k\<lparr>xYieldPending := True\<rparr> else k)"
    using e unfolding vTaskRemoveFromUnorderedEventList_def k1_def [symmetric] Let_def ev_remove_eq [OF t1(1)]
      Option.bind.bind_lunit prod.case
    by (auto simp: bind_eq_Some_conv split: if_splits)
  have "elists k' = elists (ev_removed t E k1)"
    using st_remove_elists [OF k3(1)] add_ready_elists [of t k3] by (simp add: k3(2) Let_def)
  then show ?thesis using t1(2) by (simp add: ev_removed_def)
qed

lemma control_masks:
  "(v AND eventEVENT_BITS_CONTROL_BYTES) AND eventWAIT_FOR_ALL_BITS = v AND eventWAIT_FOR_ALL_BITS"
  "(v AND eventEVENT_BITS_CONTROL_BYTES) AND eventCLEAR_EVENTS_ON_EXIT_BIT = v AND eventCLEAR_EVENTS_ON_EXIT_BIT" for v :: u32
  by (simp_all add: and.assoc)

lemma set_bits_loop_Cons:
  "set_bits_loop bits (t # ts) m k =
    (if wait_met bits (evItemValue (tcbs k t))
     then do {
       k' \<leftarrow> vTaskRemoveFromUnorderedEventList t (bits OR eventUNBLOCKED_DUE_TO_BIT_SET) k;
       set_bits_loop bits ts (m OR clear_mask bits [evItemValue (tcbs k t)]) k'
     }
     else set_bits_loop bits ts m k)"
  unfolding set_bits_loop.simps Let_def control_masks
  by (simp add: wait_met_def prvTestWaitCondition_def and.commute)

lemma set_bits_loop_spec:
  assumes "kernel_ok i k" and "distinct ts" and "\<forall>t \<in> set ts. evContainer (tcbs k t) = Some (EventList l)"
  shows "\<exists>k'. set_bits_loop bits ts m k = Some (m OR clear_mask bits (map (\<lambda>t. evItemValue (tcbs k t)) ts), k') \<and>
    kernel_ok i k' \<and> globy k' = globy k \<and>
    tcbs k' = (\<lambda>t. if t \<in> set ts \<and> wait_met bits (evItemValue (tcbs k t)) then woken_by bits (tcbs k t) else tcbs k t) \<and>
    (xYieldPending k' \<longleftrightarrow> xYieldPending k \<or>
      (\<exists>t \<in> set ts. wait_met bits (evItemValue (tcbs k t)) \<and> prio k t > prio k (pxCurrentTCB k))) \<and>
    (\<forall>E. E \<noteq> EventList l \<longrightarrow> ev_items k' E = ev_items k E)"
  using assms
proof (induction ts arbitrary: k m)
  case Nil
  then show ?case by simp
next
  case (Cons t ts)
  let ?v = "evItemValue (tcbs k t)"
  show ?case
  proof (cases "wait_met bits ?v")
    case False
    then have s: "set_bits_loop bits (t # ts) m k = set_bits_loop bits ts m k"
      "clear_mask bits (map (\<lambda>t. evItemValue (tcbs k t)) (t # ts)) = clear_mask bits (map (\<lambda>t. evItemValue (tcbs k t)) ts)"
      unfolding set_bits_loop_Cons by simp_all
    have p: "distinct ts" "\<forall>t \<in> set ts. evContainer (tcbs k t) = Some (EventList l)" using Cons.prems by simp_all
    have f: "(t' \<in> set (t # ts) \<and> wait_met bits (evItemValue (tcbs k t'))) = (t' \<in> set ts \<and> wait_met bits (evItemValue (tcbs k t')))" for t'
      using False by auto
    have g: "(\<exists>t' \<in> set (t # ts). wait_met bits (evItemValue (tcbs k t')) \<and> prio k t' > prio k (pxCurrentTCB k)) =
      (\<exists>t' \<in> set ts. wait_met bits (evItemValue (tcbs k t')) \<and> prio k t' > prio k (pxCurrentTCB k))"
      using False by auto
    show ?thesis unfolding s f g by (rule Cons.IH [OF Cons.prems(1) p])
  next
    case True
    have te: "evContainer (tcbs k t) = Some (EventList l)" using Cons.prems(3) by simp
    let ?b = "bits OR eventUNBLOCKED_DUE_TO_BIT_SET"
    obtain k1 where k1: "vTaskRemoveFromUnorderedEventList t ?b k = Some k1" "kernel_ok i k1" "globy k1 = globy k"
      "\<forall>u. u \<noteq> t \<longrightarrow> tcbs k1 u = tcbs k u"
      "tcbs k1 t = (tcbs k t)\<lparr>stContainer := Some (Ready (prio k t)), evContainer := None,
        evItemValue := ?b OR taskEVENT_LIST_ITEM_VALUE_IN_USE\<rparr>"
      "xYieldPending k1 \<longleftrightarrow> xYieldPending k \<or> prio k t > prio k (pxCurrentTCB k)"
      using vTaskRemoveFromUnorderedEventList_spec [OF Cons.prems(1) te, of ?b] by blast
    have w: "tcbs k1 t = woken_by bits (tcbs k t)" by (simp add: k1(5) woken_by_def or.assoc)
    have nt: "t \<notin> set ts" using Cons.prems(2) by simp
    have same: "tcbs k1 u = tcbs k u" if "u \<in> set ts" for u using k1(4) that nt by metis
    have pr: "prio k1 u = prio k u" for u using k1(4) w by (cases "u = t") (simp_all add: woken_by_def)
    have cur: "pxCurrentTCB k1 = pxCurrentTCB k" using globy_sel(1) [OF k1(3)] .
    have "\<forall>t \<in> set ts. evContainer (tcbs k1 t) = Some (EventList l)" using Cons.prems(3) same by simp
    moreover have "distinct ts" using Cons.prems(2) by simp
    ultimately obtain k' where k': "set_bits_loop bits ts (m OR clear_mask bits [?v]) k1 =
        Some ((m OR clear_mask bits [?v]) OR clear_mask bits (map (\<lambda>t. evItemValue (tcbs k1 t)) ts), k')"
      "kernel_ok i k'" "globy k' = globy k1"
      "tcbs k' = (\<lambda>t. if t \<in> set ts \<and> wait_met bits (evItemValue (tcbs k1 t)) then woken_by bits (tcbs k1 t) else tcbs k1 t)"
      "xYieldPending k' \<longleftrightarrow> xYieldPending k1 \<or>
        (\<exists>t \<in> set ts. wait_met bits (evItemValue (tcbs k1 t)) \<and> prio k1 t > prio k1 (pxCurrentTCB k1))"
      "\<forall>E. E \<noteq> EventList l \<longrightarrow> ev_items k' E = ev_items k1 E"
      using Cons.IH [OF k1(2), of "m OR clear_mask bits [?v]"] by blast
    have vals: "map (\<lambda>t. evItemValue (tcbs k1 t)) ts = map (\<lambda>t. evItemValue (tcbs k t)) ts" using same by simp
    have "set_bits_loop bits (t # ts) m k = Some (m OR clear_mask bits (map (\<lambda>t. evItemValue (tcbs k t)) (t # ts)), k')"
      unfolding set_bits_loop_Cons if_P [OF True] k1(1) Option.bind.bind_lunit k'(1) vals by (simp add: or.assoc)
    moreover have "globy k' = globy k" using k'(3) k1(3) by simp
    moreover have "tcbs k' = (\<lambda>u. if u \<in> set (t # ts) \<and> wait_met bits (evItemValue (tcbs k u)) then woken_by bits (tcbs k u) else tcbs k u)"
    proof (rule ext)
      fix u show "tcbs k' u = (if u \<in> set (t # ts) \<and> wait_met bits (evItemValue (tcbs k u)) then woken_by bits (tcbs k u) else tcbs k u)"
        unfolding k'(4) using True w k1(4) [rule_format, of u] nt by (cases "u = t") auto
    qed
    moreover have "xYieldPending k' \<longleftrightarrow> xYieldPending k \<or>
        (\<exists>u \<in> set (t # ts). wait_met bits (evItemValue (tcbs k u)) \<and> prio k u > prio k (pxCurrentTCB k))"
      unfolding k'(5) k1(6) pr cur using True same by auto
    moreover have "\<forall>E. E \<noteq> EventList l \<longrightarrow> ev_items k' E = ev_items k E"
      using k'(6) remove_unordered_items [OF k1(1) te] by simp
    ultimately show ?thesis using k'(2) by (intro exI [of _ k'] conjI)
  qed
qed

lemma resume_idle:
  assumes "uxSchedulerSuspended k = 1" and "uxPendedTicks k = 0" and "ev_items k xPendingReadyList = []"
    and "uxCurrentNumberOfTasks k > 0"
  shows "xTaskResumeAll k = Some (xYieldPending k,
    if xYieldPending k then portYIELD (k\<lparr>uxSchedulerSuspended := 0\<rparr>) else k\<lparr>uxSchedulerSuspended := 0\<rparr>)"
proof -
  let ?k = "k\<lparr>uxSchedulerSuspended := 0\<rparr>"
  have "resume_pending False ?k = Some (False, ?k)" using assms(3) by (simp add: resume_pending.simps)
  then show ?thesis using assms by (simp add: xTaskResumeAll_def)
qed

lemma resume_nested:
  assumes "uxSchedulerSuspended k - 1 \<noteq> 0"
  shows "xTaskResumeAll k = Some (False, k\<lparr>uxSchedulerSuspended := uxSchedulerSuspended k - 1\<rparr>)"
  using assms by (simp add: xTaskResumeAll_def)

lemma with_kern_sel [simp]:
  "eg_kern (with_kern k s) = k" "groups (with_kern k s) = groups s" "with_kern k' (with_kern k s) = with_kern k' s"
  "heap (rt (with_kern k s)) = heap (rt s)"
  by (simp_all add: with_kern_def)

text \<open>What a task that sets bits does to the group and to the tasks, before the scheduler is resumed.\<close>

definition bits_after :: "addr \<Rightarrow> u32 \<Rightarrow> eg_sys \<Rightarrow> u32" where
  "bits_after a b s = (let B = uxEventBits (groups s a) OR b in
     B AND NOT (clear_mask B (map (\<lambda>t. evItemValue (tcbs (eg_kern s) t)) (ev_items (eg_kern s) (EventList (xTasksWaitingForBits a))))))"

definition released :: "addr \<Rightarrow> u32 \<Rightarrow> sched \<Rightarrow> addr \<Rightarrow> bool" where
  "released a B k t \<longleftrightarrow> evContainer (tcbs k t) = Some (EventList (xTasksWaitingForBits a)) \<and> wait_met B (evItemValue (tcbs k t))"

definition set_effect :: "addr \<Rightarrow> addr \<Rightarrow> u32 \<Rightarrow> eg_sys \<Rightarrow> eg_sys \<Rightarrow> bool" where
  "set_effect i a b s s' \<longleftrightarrow> (let B = uxEventBits (groups s a) OR b; k = eg_kern s; k' = eg_kern s' in
    kernel_ok i k' \<and> pxCurrentTCB k' = pxCurrentTCB k \<and> xTickCount k' = xTickCount k \<and>
    uxSchedulerSuspended k' = uxSchedulerSuspended k \<and> uxPendedTicks k' = uxPendedTicks k \<and>
    uxCurrentNumberOfTasks k' = uxCurrentNumberOfTasks k \<and>
    ev_items k' xPendingReadyList = ev_items k xPendingReadyList \<and>
    tcbs k' = (\<lambda>t. if released a B k t then woken_by B (tcbs k t) else tcbs k t) \<and>
    groups s' = (groups s)(a := (groups s a)\<lparr>uxEventBits := bits_after a b s\<rparr>))"

lemma waiting_list:
  assumes "kernel_ok i k"
  shows "t \<in> set (ev_items k E) \<longleftrightarrow> evContainer (tcbs k t) = Some E" "distinct (ev_items k E)"
  using ev_okD [OF sched_invD(2) [OF kernel_invD(1) [OF assms]]] by (simp_all add: klist_ok_def)

lemma set_bits_effect:
  assumes k: "kernel_ok i (eg_kern s)"
    and pt: "uxPendedTicks (eg_kern s) = 0" and np: "ev_items (eg_kern s) xPendingReadyList = []"
    and n: "uxCurrentNumberOfTasks (eg_kern s) > 0"
  shows "\<exists>s'. xEventGroupSetBits a b s = Some (bits_after a b s, s') \<and> set_effect i a b s s' \<and>
    ((\<exists>t. released a (uxEventBits (groups s a) OR b) (eg_kern s) t \<and> prio (eg_kern s) t > prio (eg_kern s) (pxCurrentTCB (eg_kern s))) \<longrightarrow>
      xYieldPending (eg_kern s') \<and> (uxSchedulerSuspended (eg_kern s) = 0 \<longrightarrow> yield_requested (eg_kern s')))"
proof -
  let ?k = "vTaskSuspendAll (eg_kern s)" and ?l = "xTasksWaitingForBits a" and ?B = "uxEventBits (groups s a) OR b"
  let ?ts = "ev_items (eg_kern s) (EventList ?l)"
  have kf: "kernel_ok i ?k" "tcbs ?k = tcbs (eg_kern s)" "elists ?k = elists (eg_kern s)" "pxCurrentTCB ?k = pxCurrentTCB (eg_kern s)"
    using k by (simp_all add: vTaskSuspendAll_def)
  have "\<forall>t \<in> set ?ts. evContainer (tcbs ?k t) = Some (EventList ?l)" using waiting_list(1) [OF k] kf by simp
  from set_bits_loop_spec [OF kf(1) waiting_list(2) [OF k, of "EventList ?l"] this, of ?B 0]
  obtain k1 where k1: "set_bits_loop ?B ?ts 0 ?k = Some (clear_mask ?B (map (\<lambda>t. evItemValue (tcbs (eg_kern s) t)) ?ts), k1)"
    "kernel_ok i k1" "globy k1 = globy ?k"
    "tcbs k1 = (\<lambda>t. if t \<in> set ?ts \<and> wait_met ?B (evItemValue (tcbs (eg_kern s) t)) then woken_by ?B (tcbs (eg_kern s) t) else tcbs (eg_kern s) t)"
    "xYieldPending k1 \<longleftrightarrow> xYieldPending ?k \<or>
      (\<exists>t \<in> set ?ts. wait_met ?B (evItemValue (tcbs (eg_kern s) t)) \<and> prio (eg_kern s) t > prio (eg_kern s) (pxCurrentTCB (eg_kern s)))"
    "\<forall>E. E \<noteq> EventList ?l \<longrightarrow> ev_items k1 E = ev_items ?k E"
    unfolding kf(2,4) or.left_neutral by blast
  note g = globy_sel [OF k1(3)]
  have s1: "uxSchedulerSuspended k1 = uxSchedulerSuspended (eg_kern s) + 1" "uxPendedTicks k1 = uxPendedTicks (eg_kern s)"
    "pxCurrentTCB k1 = pxCurrentTCB (eg_kern s)" "xTickCount k1 = xTickCount (eg_kern s)"
    "uxCurrentNumberOfTasks k1 = uxCurrentNumberOfTasks (eg_kern s)" "ev_items k1 xPendingReadyList = []"
    using g k1(6) np kf(3) by (simp_all add: vTaskSuspendAll_def)
  define s2 where "s2 = upd_bits a (\<lambda>c. c AND NOT (clear_mask ?B (map (\<lambda>t. evItemValue (tcbs (eg_kern s) t)) ?ts)))
      (with_kern k1 (upd_bits a (\<lambda>c. c OR b) (with_kern ?k s)))"
  have s2: "eg_kern s2 = k1" "groups s2 = (groups s)(a := (groups s a)\<lparr>uxEventBits := bits_after a b s\<rparr>)"
    by (simp_all add: s2_def bits_after_def Let_def with_kern_def)
  obtain y k2 where k2: "xTaskResumeAll k1 = Some (y, k2)" "kernel_ok i k2" "uxSchedulerSuspended k2 = uxSchedulerSuspended (eg_kern s)"
    "uxPendedTicks k2 = uxPendedTicks (eg_kern s)" "pxCurrentTCB k2 = pxCurrentTCB (eg_kern s)" "xTickCount k2 = xTickCount (eg_kern s)"
    "uxCurrentNumberOfTasks k2 = uxCurrentNumberOfTasks (eg_kern s)" "ev_items k2 xPendingReadyList = []" "tcbs k2 = tcbs k1"
    "xYieldPending k2 = xYieldPending k1" "uxSchedulerSuspended (eg_kern s) = 0 \<and> xYieldPending k1 \<longrightarrow> yield_requested k2"
  proof (cases "uxSchedulerSuspended (eg_kern s) = 0")
    case True
    then have r: "xTaskResumeAll k1 = Some (xYieldPending k1,
        if xYieldPending k1 then portYIELD (k1\<lparr>uxSchedulerSuspended := 0\<rparr>) else k1\<lparr>uxSchedulerSuspended := 0\<rparr>)"
      using s1 pt n by (intro resume_idle) simp_all
    show ?thesis by (rule that [OF r]) (use s1 True k1(2) in \<open>simp_all add: portYIELD_def\<close>)
  next
    case False
    then have r: "xTaskResumeAll k1 = Some (False, k1\<lparr>uxSchedulerSuspended := uxSchedulerSuspended k1 - 1\<rparr>)"
      using s1 by (intro resume_nested) simp
    show ?thesis by (rule that [OF r]) (use s1 False k1(2) in simp_all)
  qed
  have run: "xEventGroupSetBits a b s = Some (bits_after a b s, with_kern k2 s2)"
  proof -
    have b1: "uxEventBits (groups (upd_bits a (\<lambda>c. c OR b) (with_kern ?k s)) a) = ?B" by simp
    have e1: "ev_items (eg_kern (with_kern ?k s)) (EventList ?l) = ?ts" using kf(3) by simp
    have kk: "eg_kern (upd_bits a (\<lambda>c. c OR b) (with_kern ?k s)) = ?k" by simp
    show ?thesis
      unfolding xEventGroupSetBits_def Let_def b1 e1 kk k1(1) Option.bind.bind_lunit prod.case s2_def [symmetric] s2(1) k2(1)
      using s2(2) by simp
  qed
  have "set_effect i a b s (with_kern k2 s2)"
    unfolding set_effect_def Let_def released_def using k2 k1(4) s1 s2(2) np waiting_list(1) [OF k] by simp
  moreover have "xYieldPending k2 \<and> (uxSchedulerSuspended (eg_kern s) = 0 \<longrightarrow> yield_requested k2)"
    if "\<exists>t. released a ?B (eg_kern s) t \<and> prio (eg_kern s) t > prio (eg_kern s) (pxCurrentTCB (eg_kern s))"
    using that k1(5) k2(10,11) waiting_list(1) [OF k] unfolding released_def by blast
  ultimately show ?thesis using run by (intro exI [of _ "with_kern k2 s2"]) simp
qed

section \<open>Waiting\<close>

definition wait_value :: "u32 \<Rightarrow> bool \<Rightarrow> bool \<Rightarrow> u32" where
  "wait_value w clr all = w OR (let c = (if clr then eventCLEAR_EVENTS_ON_EXIT_BIT else 0) in
     if all then c OR eventWAIT_FOR_ALL_BITS else c)"

lemma event_bits_masked:
  assumes "w AND eventEVENT_BITS_CONTROL_BYTES = 0"
  shows "w AND NOT eventEVENT_BITS_CONTROL_BYTES = w" "w AND eventWAIT_FOR_ALL_BITS = 0" "w AND eventCLEAR_EVENTS_ON_EXIT_BIT = 0"
proof -
  have "w = (w AND eventEVENT_BITS_CONTROL_BYTES) OR (w AND NOT eventEVENT_BITS_CONTROL_BYTES)"
    by (simp add: bit.conj_disj_distrib [symmetric] flip: and.assoc)
  then show "w AND NOT eventEVENT_BITS_CONTROL_BYTES = w" using assms by simp
  have "w AND m = 0" if "eventEVENT_BITS_CONTROL_BYTES AND m = m" for m
  proof -
    have "w AND m = (w AND eventEVENT_BITS_CONTROL_BYTES) AND m" by (simp add: and.assoc that)
    then show ?thesis using assms by simp
  qed
  then show "w AND eventWAIT_FOR_ALL_BITS = 0" "w AND eventCLEAR_EVENTS_ON_EXIT_BIT = 0" by simp_all
qed

lemma wait_value_met:
  assumes "w AND eventEVENT_BITS_CONTROL_BYTES = 0"
  shows "wait_met B (wait_value w clr all OR taskEVENT_LIST_ITEM_VALUE_IN_USE) = prvTestWaitCondition B w all"
proof -
  note m = event_bits_masked [OF assms]
  show ?thesis
    by (simp add: wait_met_def wait_value_def Let_def bit.conj_disj_distrib2 m(2,3) m(1) [simplified])
qed

text \<open>A task that finds its condition unmet goes to sleep on the list of the group.\<close>

lemma wait_enter_sleeps:
  assumes c: "calm i (eg_kern s)" and r: "running_ready i (eg_kern s)" and n: "n \<noteq> 0"
    and nc: "\<not> prvTestWaitCondition (uxEventBits (groups s a)) w all"
  shows "\<exists>s'. xEventGroupWaitBits_enter a w clr all n s = Some (None, s') \<and> calm i (eg_kern s') \<and> groups s' = groups s \<and>
    asleep i (xTasksWaitingForBits a) n (eg_kern s) (eg_kern s') \<and> prio (eg_kern s') t = prio (eg_kern s) t \<and>
    evItemValue (tcbs (eg_kern s') (pxCurrentTCB (eg_kern s))) = wait_value w clr all OR taskEVENT_LIST_ITEM_VALUE_IN_USE"
proof -
  let ?k = "vTaskSuspendAll (eg_kern s)" and ?t = "pxCurrentTCB (eg_kern s)"
  have k: "kernel_ok i ?k" "running_ready i ?k" "uxSchedulerSuspended ?k = 1" "uxPendedTicks ?k = 0"
    "ev_items ?k xPendingReadyList = []" "uxCurrentNumberOfTasks ?k > 0" "tcbs ?k = tcbs (eg_kern s)"
    "xTickCount ?k = xTickCount (eg_kern s)" "pxCurrentTCB ?k = ?t"
    using c r by (simp_all add: calm_def vTaskSuspendAll_def running_ready_def)
  have n0: "n > 0" using n by (simp add: word_neq_0_conv)
  obtain k1 where k1: "vTaskPlaceOnUnorderedEventList (xTasksWaitingForBits a) (wait_value w clr all) n ?k = Some k1"
    "blocked i n True (Some (EventList (xTasksWaitingForBits a))) (wait_value w clr all OR taskEVENT_LIST_ITEM_VALUE_IN_USE) ?k k1"
    "elists k1 = (elists ?k)(EventList (xTasksWaitingForBits a) := klist_insert_end (pxCurrentTCB ?k) (elists ?k (EventList (xTasksWaitingForBits a))))"
    using vTaskPlaceOnUnorderedEventList_spec [OF k(1,2) n0] by blast
  note b = k1(2) [unfolded blocked_def Let_def k(9)]
  note g = globn_sel [of k1 ?k]
  have s1: "uxSchedulerSuspended k1 = 1" "uxPendedTicks k1 = 0" "ev_items k1 xPendingReadyList = []" "uxCurrentNumberOfTasks k1 > 0"
    "pxCurrentTCB k1 = ?t" "xTickCount k1 = xTickCount (eg_kern s)"
    using b g k k1(3) by simp_all
  define k2 where "k2 = (if xYieldPending k1 then portYIELD (k1\<lparr>uxSchedulerSuspended := 0\<rparr>) else k1\<lparr>uxSchedulerSuspended := 0\<rparr>)"
  define k3 where "k3 = (if \<not> xYieldPending k1 then portYIELD k2 else k2)"
  have k3: "kernel_ok i k3" "tcbs k3 = tcbs k1" "pxCurrentTCB k3 = ?t" "xTickCount k3 = xTickCount (eg_kern s)"
    "uxSchedulerSuspended k3 = 0" "yield_requested k3" "uxPendedTicks k3 = 0" "ev_items k3 xPendingReadyList = []"
    "uxCurrentNumberOfTasks k3 > 0" "pxDelayedTaskList k3 = pxDelayedTaskList k1" "pxOverflowDelayedTaskList k3 = pxOverflowDelayedTaskList k1"
    using b s1 by (auto simp: k3_def k2_def portYIELD_def)
  have rem: "remaining k3 ?t = remaining k1 ?t"
    by (rule remaining_cong) (use k3 s1 in simp_all)
  have "xTaskResumeAll k1 = Some (xYieldPending k1, k2)" unfolding k2_def by (rule resume_idle [OF s1(1-4)])
  then have res: "eg_resume True (with_kern k1 s) = Some (with_kern k3 s)" by (simp add: eg_resume_def k3_def)
  have cb: "(if all then (if clr then eventCLEAR_EVENTS_ON_EXIT_BIT else 0) OR eventWAIT_FOR_ALL_BITS else if clr then eventCLEAR_EVENTS_ON_EXIT_BIT else 0) =
      (let c = (if clr then eventCLEAR_EVENTS_ON_EXIT_BIT else 0) in if all then c OR eventWAIT_FOR_ALL_BITS else c)"
    by (simp add: Let_def)
  have sw: "eg_suspended_wait a (w OR (if all then (if clr then eventCLEAR_EVENTS_ON_EXIT_BIT else 0) OR eventWAIT_FOR_ALL_BITS
        else if clr then eventCLEAR_EVENTS_ON_EXIT_BIT else 0)) n (with_kern ?k s) = Some (with_kern k1 s)"
    using k1(1) unfolding cb wait_value_def [symmetric] by (simp add: eg_suspended_wait_def)
  have "xEventGroupWaitBits_enter a w clr all n s = Some (None, with_kern k3 s)"
    unfolding xEventGroupWaitBits_enter_def Let_def with_kern_sel if_not_P [OF nc] if_not_P [OF n] sw Option.bind.bind_lunit res ..
  moreover have "asleep i (xTasksWaitingForBits a) n (eg_kern s) k3"
    unfolding asleep_def using b k3 rem k(7) by (simp add: suspend_forever_def)
  moreover have "calm i k3" using k3 by (simp add: calm_def)
  moreover have "prio k3 t = prio (eg_kern s) t" using b k3(2) k(7) by (cases "t = ?t") simp_all
  moreover have "evItemValue (tcbs k3 ?t) = wait_value w clr all OR taskEVENT_LIST_ITEM_VALUE_IN_USE" using b k3(2) by simp
  ultimately show ?thesis by (intro exI [of _ "with_kern k3 s"]) simp
qed

lemma leave_released:
  assumes "evItemValue (tcbs (eg_kern s) (pxCurrentTCB (eg_kern s))) = B OR eventUNBLOCKED_DUE_TO_BIT_SET OR taskEVENT_LIST_ITEM_VALUE_IN_USE"
  shows "fst (xEventGroupWaitBits_leave a w clr all s) = B AND NOT eventEVENT_BITS_CONTROL_BYTES"
    "groups (snd (xEventGroupWaitBits_leave a w clr all s)) = groups s"
proof -
  have f: "(B OR eventUNBLOCKED_DUE_TO_BIT_SET OR taskEVENT_LIST_ITEM_VALUE_IN_USE) AND eventUNBLOCKED_DUE_TO_BIT_SET \<noteq> 0"
  proof
    assume "(B OR eventUNBLOCKED_DUE_TO_BIT_SET OR taskEVENT_LIST_ITEM_VALUE_IN_USE) AND eventUNBLOCKED_DUE_TO_BIT_SET = 0"
    then have "bit ((B OR eventUNBLOCKED_DUE_TO_BIT_SET OR taskEVENT_LIST_ITEM_VALUE_IN_USE) AND eventUNBLOCKED_DUE_TO_BIT_SET) 25 = bit (0 :: u32) 25"
      by simp
    then show False by (simp add: bit_simps)
  qed
  have v: "(B OR eventUNBLOCKED_DUE_TO_BIT_SET OR taskEVENT_LIST_ITEM_VALUE_IN_USE) AND NOT eventEVENT_BITS_CONTROL_BYTES =
      B AND NOT eventEVENT_BITS_CONTROL_BYTES"
    by (simp add: bit.conj_disj_distrib2)
  show "fst (xEventGroupWaitBits_leave a w clr all s) = B AND NOT eventEVENT_BITS_CONTROL_BYTES"
    "groups (snd (xEventGroupWaitBits_leave a w clr all s)) = groups s"
    unfolding xEventGroupWaitBits_leave_def uxTaskResetEventItemValue_def Let_def prod.case assms if_not_P [OF f] fst_conv snd_conv v
    by simp_all
qed

section \<open>Deleting a group\<close>

lemma delete_loop_spec:
  assumes "kernel_ok i k"
  shows "\<exists>k'. delete_loop l k = Some k' \<and> kernel_ok i k' \<and> globy k' = globy k \<and>
    tcbs k' = (\<lambda>t. if evContainer (tcbs k t) = Some (EventList l) then woken_by 0 (tcbs k t) else tcbs k t) \<and>
    (\<forall>E. E \<noteq> EventList l \<longrightarrow> ev_items k' E = ev_items k E)"
  using assms
proof (induction "ev_items k (EventList l)" arbitrary: k)
  case Nil
  then have "evContainer (tcbs k t) \<noteq> Some (EventList l)" for t using waiting_list(1) [OF Nil.prems, of t "EventList l"] by simp
  then show ?case using Nil by (subst delete_loop.simps) simp
next
  case (Cons t ts)
  note it = Cons.hyps(2) [symmetric]
  have te: "evContainer (tcbs k t) = Some (EventList l)" using waiting_list(1) [OF Cons.prems, of t "EventList l"] it by simp
  obtain k1 where k1: "vTaskRemoveFromUnorderedEventList t eventUNBLOCKED_DUE_TO_BIT_SET k = Some k1" "kernel_ok i k1" "globy k1 = globy k"
    "\<forall>u. u \<noteq> t \<longrightarrow> tcbs k1 u = tcbs k u"
    "tcbs k1 t = (tcbs k t)\<lparr>stContainer := Some (Ready (prio k t)), evContainer := None,
      evItemValue := eventUNBLOCKED_DUE_TO_BIT_SET OR taskEVENT_LIST_ITEM_VALUE_IN_USE\<rparr>"
    using vTaskRemoveFromUnorderedEventList_spec [OF Cons.prems te, of eventUNBLOCKED_DUE_TO_BIT_SET] by blast
  have it1: "ev_items k1 (EventList l) = ts" using remove_unordered_items [OF k1(1) te, of "EventList l"] it by simp
  obtain k' where k': "delete_loop l k1 = Some k'" "kernel_ok i k'" "globy k' = globy k1"
    "tcbs k' = (\<lambda>t. if evContainer (tcbs k1 t) = Some (EventList l) then woken_by 0 (tcbs k1 t) else tcbs k1 t)"
    "\<forall>E. E \<noteq> EventList l \<longrightarrow> ev_items k' E = ev_items k1 E"
    using Cons.hyps(1) [OF it1 [symmetric] k1(2)] by blast
  have "delete_loop l k = Some k'" using it k1(1) k'(1) by (subst delete_loop.simps) simp
  moreover have "tcbs k' = (\<lambda>t. if evContainer (tcbs k t) = Some (EventList l) then woken_by 0 (tcbs k t) else tcbs k t)"
  proof (rule ext)
    fix u
    show "tcbs k' u = (if evContainer (tcbs k u) = Some (EventList l) then woken_by 0 (tcbs k u) else tcbs k u)"
      unfolding k'(4) using k1(4) [rule_format, of u] k1(5) te by (cases "u = t") (simp_all add: woken_by_def)
  qed
  moreover have "\<forall>E. E \<noteq> EventList l \<longrightarrow> ev_items k' E = ev_items k E"
    using k'(5) remove_unordered_items [OF k1(1) te] by simp
  ultimately show ?case using k'(2,3) k1(3) by (intro exI [of _ k'] conjI) simp_all
qed

lemma vPortFree_nested:
  assumes h: "heap_ok (heap s) al" and a: "al n = Some t" and sus: "uxSchedulerSuspended (kern s) = 1"
  shows "\<exists>h'. vPortFree (int (n + 8)) s = Some (s\<lparr>heap := h'\<rparr>) \<and> heap_ok h' (al(n := None)) \<and>
    unat (xFreeBytesRemaining h') = unat (xFreeBytesRemaining (heap s)) + t"
proof -
  obtain h' where h': "vPortFree_claims (of_nat (n + 8)) (heap s)" "vPortFree_body (of_nat (n + 8)) (heap s) = Some h'"
    "heap_ok h' (al(n := None))" "unat (xFreeBytesRemaining h') = unat (xFreeBytesRemaining (heap s)) + t"
    using free_step_ok [OF h a] by blast
  have w: "word_of_int (int (n + 8)) = (of_nat (n + 8) :: u32)" by simp
  have r: "xTaskResumeAll ((kern s)\<lparr>uxSchedulerSuspended := 2\<rparr>) = Some (False, (kern s)\<lparr>uxSchedulerSuspended := 1\<rparr>)"
    using resume_nested [of "(kern s)\<lparr>uxSchedulerSuspended := 2\<rparr>"] by simp
  have id: "(kern s)\<lparr>uxSchedulerSuspended := 1\<rparr> = kern s" using sus by simp
  have "vPortFree (int (n + 8)) s = Some (s\<lparr>heap := h'\<rparr>)"
    unfolding vPortFree_def w if_P [OF h'(1)] Let_def vTaskSuspendAll_def sus
    using h'(2) r unfolding id by (simp add: on_kern_def)
  then show ?thesis using h'(3,4) by blast
qed

section \<open>Properties\<close>

text \<open>Setting bits releases exactly the waiting tasks whose condition holds with the new bits, all of
  them at once, each with the bits that released it, and clears what they asked to clear only
  after all were tested; all other tasks stay as they are, and a released task of higher priority preempts.\<close>

theorem xEventGroupSetBits_releases_exactly:
  assumes "calm i (eg_kern s)"
  shows "\<exists>s'. xEventGroupSetBits a b s = Some (bits_after a b s, s') \<and> kernel_ok i (eg_kern s') \<and>
    uxEventBits (groups s' a) = bits_after a b s \<and>
    (\<forall>t. tcbs (eg_kern s') t =
      (if evContainer (tcbs (eg_kern s) t) = Some (EventList (xTasksWaitingForBits a)) \<and>
          wait_met (uxEventBits (groups s a) OR b) (evItemValue (tcbs (eg_kern s) t))
       then woken_by (uxEventBits (groups s a) OR b) (tcbs (eg_kern s) t) else tcbs (eg_kern s) t)) \<and>
    ((\<exists>t. released a (uxEventBits (groups s a) OR b) (eg_kern s) t \<and> prio (eg_kern s) t > prio (eg_kern s) (pxCurrentTCB (eg_kern s))) \<longrightarrow>
      yield_requested (eg_kern s'))"
  using set_bits_effect [of i s a b] assms by (auto simp: calm_def set_effect_def released_def Let_def)

definition sample_groups :: eg_sys where
  "sample_groups = \<lparr>rt = sample_rtos, groups = (\<lambda>_. \<lparr>uxEventBits = 1, uxEventGroupNumber = 0\<rparr>)\<rparr>"

lemma sample_groups_sel [simp]: "eg_kern sample_groups = sample_sched" "uxEventBits (groups sample_groups a) = 1"
  by (simp_all add: sample_groups_def)

text \<open>Task 300 waits on the list of the group 496; the value of its item asks for bit 2.\<close>

theorem xEventGroupSetBits_releases_exactly_witness:
  "\<exists>s'. xEventGroupSetBits 496 4 sample_groups = Some (5, s') \<and> stContainer (tcbs (eg_kern s') 300) = Some (Ready 4) \<and>
    yield_requested (eg_kern s')"
proof -
  have c: "calm 100 (eg_kern sample_groups)" using sample_calm by simp
  have l: "xTasksWaitingForBits 496 = 500" by (simp add: xTasksWaitingForBits_def)
  have m: "wait_met 5 4" by (simp add: wait_met_def prvTestWaitCondition_def)
  have ts: "ev_items sample_sched (EventList 500) = [300]" by (simp add: sample_sched_def)
  have b: "bits_after 496 4 sample_groups = 5"
    unfolding bits_after_def sample_groups_sel l ts by (simp add: Let_def sample_tcb_def)
  have r: "released 496 (1 OR 4) sample_sched 300" using m by (simp add: released_def l sample_tcb_def)
  have p: "prio sample_sched 300 > prio sample_sched (pxCurrentTCB sample_sched)" by (simp add: sample_tcb_def)
  obtain s' where s': "xEventGroupSetBits 496 4 sample_groups = Some (5, s')"
    "\<forall>t. tcbs (eg_kern s') t = (if evContainer (tcbs sample_sched t) = Some (EventList 500) \<and>
        wait_met (1 OR 4) (evItemValue (tcbs sample_sched t)) then woken_by (1 OR 4) (tcbs sample_sched t) else tcbs sample_sched t)"
    "yield_requested (eg_kern s')"
    using xEventGroupSetBits_releases_exactly [OF c, of 496 4] r p
    unfolding b sample_groups_sel l by blast
  have "tcbs (eg_kern s') 300 = woken_by (1 OR 4) (tcbs sample_sched 300)"
    using s'(2) r by (simp add: released_def l)
  then show ?thesis using s'(1,3) by (auto simp: woken_by_def sample_tcb_def)
qed

text \<open>\<^bold>\<open>C19\<close>. Waiting for events, end to end. A task that waits for bits with an unmet condition sleeps on the
  group; when another task later sets bits, the waiting task is released exactly if its condition
  holds, and its call then returns the bits that released it, without the control bits.\<close>

theorem event_wait_end_to_end:
  assumes "calm i (eg_kern s)" and "running_ready i (eg_kern s)" and "n \<noteq> 0"
    and "w AND eventEVENT_BITS_CONTROL_BYTES = 0" and "\<not> prvTestWaitCondition (uxEventBits (groups s a)) w all"
  shows "\<exists>s1 r s2. xEventGroupWaitBits_enter a w clr all n s = Some (None, s1) \<and>
    asleep i (xTasksWaitingForBits a) n (eg_kern s) (eg_kern s1) \<and>
    xEventGroupSetBits a b (with_kern ((eg_kern s1)\<lparr>pxCurrentTCB := u\<rparr>) s1) = Some (r, s2) \<and>
    (if prvTestWaitCondition (uxEventBits (groups s a) OR b) w all
     then stContainer (tcbs (eg_kern s2) (pxCurrentTCB (eg_kern s))) = Some (Ready (prio (eg_kern s) (pxCurrentTCB (eg_kern s)))) \<and>
       fst (xEventGroupWaitBits_leave a w clr all (with_kern ((eg_kern s2)\<lparr>pxCurrentTCB := pxCurrentTCB (eg_kern s)\<rparr>) s2)) =
         (uxEventBits (groups s a) OR b) AND NOT eventEVENT_BITS_CONTROL_BYTES
     else tcbs (eg_kern s2) (pxCurrentTCB (eg_kern s)) = tcbs (eg_kern s1) (pxCurrentTCB (eg_kern s)))"
proof -
  let ?t = "pxCurrentTCB (eg_kern s)" and ?B = "uxEventBits (groups s a) OR b"
  obtain s1 where s1: "xEventGroupWaitBits_enter a w clr all n s = Some (None, s1)" "calm i (eg_kern s1)" "groups s1 = groups s"
    "asleep i (xTasksWaitingForBits a) n (eg_kern s) (eg_kern s1)" "prio (eg_kern s1) ?t = prio (eg_kern s) ?t"
    "evItemValue (tcbs (eg_kern s1) ?t) = wait_value w clr all OR taskEVENT_LIST_ITEM_VALUE_IN_USE"
    using wait_enter_sleeps [OF assms(1-3,5), where t = ?t and clr = clr] by blast
  define v where "v = with_kern ((eg_kern s1)\<lparr>pxCurrentTCB := u\<rparr>) s1"
  have v: "kernel_ok i (eg_kern v)" "uxPendedTicks (eg_kern v) = 0" "ev_items (eg_kern v) xPendingReadyList = []"
    "uxCurrentNumberOfTasks (eg_kern v) > 0" "tcbs (eg_kern v) = tcbs (eg_kern s1)" "groups v = groups s"
    using s1(2,3) by (simp_all add: v_def calm_def)
  obtain s2 where s2: "xEventGroupSetBits a b v = Some (bits_after a b v, s2)" "set_effect i a b v s2"
    using set_bits_effect [OF v(1-4)] by blast
  have rel: "released a ?B (eg_kern v) ?t \<longleftrightarrow> prvTestWaitCondition ?B w all"
    unfolding released_def v(5) s1(6) wait_value_met [OF assms(4)] using s1(4) by (simp add: asleep_def)
  have t2: "tcbs (eg_kern s2) ?t = (if prvTestWaitCondition ?B w all then woken_by ?B (tcbs (eg_kern s1) ?t) else tcbs (eg_kern s1) ?t)"
    using s2(2) rel by (simp add: set_effect_def Let_def v(5,6))
  have leave: "fst (xEventGroupWaitBits_leave a w clr all (with_kern ((eg_kern s2)\<lparr>pxCurrentTCB := ?t\<rparr>) s2)) =
      ?B AND NOT eventEVENT_BITS_CONTROL_BYTES" if "prvTestWaitCondition ?B w all"
    by (rule leave_released(1)) (use t2 that in \<open>simp add: woken_by_def\<close>)
  have "xEventGroupWaitBits_enter a w clr all n s = Some (None, s1) \<and>
    asleep i (xTasksWaitingForBits a) n (eg_kern s) (eg_kern s1) \<and>
    xEventGroupSetBits a b (with_kern ((eg_kern s1)\<lparr>pxCurrentTCB := u\<rparr>) s1) = Some (bits_after a b v, s2) \<and>
    (if prvTestWaitCondition ?B w all
     then stContainer (tcbs (eg_kern s2) ?t) = Some (Ready (prio (eg_kern s) ?t)) \<and>
       fst (xEventGroupWaitBits_leave a w clr all (with_kern ((eg_kern s2)\<lparr>pxCurrentTCB := ?t\<rparr>) s2)) =
         ?B AND NOT eventEVENT_BITS_CONTROL_BYTES
     else tcbs (eg_kern s2) ?t = tcbs (eg_kern s1) ?t)"
    using s1(1,4,5) s2(1) t2 leave unfolding v_def by (simp add: woken_by_def)
  then show ?thesis by blast
qed

theorem event_wait_end_to_end_witness:
  "\<exists>s1 r s2. xEventGroupWaitBits_enter 800 6 True True 5 sample_groups = Some (None, s1) \<and>
    xEventGroupSetBits 800 6 (with_kern ((eg_kern s1)\<lparr>pxCurrentTCB := 100\<rparr>) s1) = Some (r, s2) \<and>
    fst (xEventGroupWaitBits_leave 800 6 True True (with_kern ((eg_kern s2)\<lparr>pxCurrentTCB := 200\<rparr>) s2)) = 7"
proof -
  have p: "calm 100 (eg_kern sample_groups)" "running_ready 100 (eg_kern sample_groups)" "(5 :: u32) \<noteq> 0"
    "(6 :: u32) AND eventEVENT_BITS_CONTROL_BYTES = 0" "\<not> prvTestWaitCondition (uxEventBits (groups sample_groups 800)) 6 True"
    using sample_calm sample_running by (simp_all add: prvTestWaitCondition_def)
  have m: "prvTestWaitCondition 7 6 True" by (simp add: prvTestWaitCondition_def)
  from event_wait_end_to_end [OF p, of True 6 100] show ?thesis
    using m by (auto simp: prvTestWaitCondition_def)
qed

text \<open>Deleting a group terminates: the loop over the waiting tasks ends with all of them ready, each
  told that no bits released it, no other task changes, and the block is given back.\<close>

theorem vEventGroupDelete_terminates:
  assumes "calm i (eg_kern s)" and "heap_ok (heap (rt s)) al" and "al n = Some m" and "a = int (n + 8)"
  shows "\<exists>s'. vEventGroupDelete a s = Some s' \<and> kernel_ok i (eg_kern s') \<and>
    (\<forall>t. tcbs (eg_kern s') t = (if evContainer (tcbs (eg_kern s) t) = Some (EventList (xTasksWaitingForBits a))
       then woken_by 0 (tcbs (eg_kern s) t) else tcbs (eg_kern s) t)) \<and>
    heap_ok (heap (rt s')) (al(n := None)) \<and>
    unat (xFreeBytesRemaining (heap (rt s'))) = unat (xFreeBytesRemaining (heap (rt s))) + m"
proof -
  let ?k = "vTaskSuspendAll (eg_kern s)" and ?l = "xTasksWaitingForBits a"
  have k: "kernel_ok i ?k" "tcbs ?k = tcbs (eg_kern s)" "uxSchedulerSuspended ?k = 1" "uxPendedTicks ?k = 0"
    "ev_items ?k xPendingReadyList = []" "uxCurrentNumberOfTasks ?k > 0"
    using assms(1) by (simp_all add: calm_def vTaskSuspendAll_def)
  obtain k1 where k1: "delete_loop ?l ?k = Some k1" "kernel_ok i k1" "globy k1 = globy ?k"
    "tcbs k1 = (\<lambda>t. if evContainer (tcbs (eg_kern s) t) = Some (EventList ?l) then woken_by 0 (tcbs (eg_kern s) t) else tcbs (eg_kern s) t)"
    "\<forall>E. E \<noteq> EventList ?l \<longrightarrow> ev_items k1 E = ev_items ?k E"
    using delete_loop_spec [OF k(1), of ?l] unfolding k(2) by blast
  note g = globy_sel [OF k1(3)]
  define s1 where "s1 = with_kern k1 s"
  have s1: "heap (rt s1) = heap (rt s)" "kern (rt s1) = k1" by (simp_all add: s1_def)
  obtain h' where h': "vPortFree a (rt s1) = Some ((rt s1)\<lparr>heap := h'\<rparr>)" "heap_ok h' (al(n := None))"
    "unat (xFreeBytesRemaining h') = unat (xFreeBytesRemaining (heap (rt s))) + m"
    using vPortFree_nested [of "rt s1" al n m] assms(2-4) s1 g k(3) by auto
  define k2 where "k2 = (if xYieldPending k1 then portYIELD (k1\<lparr>uxSchedulerSuspended := 0\<rparr>) else k1\<lparr>uxSchedulerSuspended := 0\<rparr>)"
  have r: "xTaskResumeAll k1 = Some (xYieldPending k1, k2)"
    unfolding k2_def by (rule resume_idle) (use g k k1(5) in simp_all)
  define s2 where "s2 = with_kern k2 (s1\<lparr>rt := (rt s1)\<lparr>heap := h'\<rparr>\<rparr>)"
  have "vEventGroupDelete a s = Some s2"
    unfolding vEventGroupDelete_def Let_def with_kern_sel k1(1) Option.bind.bind_lunit
    using h'(1) r by (simp add: s1_def [symmetric] s1 s2_def)
  moreover have "eg_kern s2 = k2" "heap (rt s2) = h'" by (simp_all add: s2_def)
  moreover have "kernel_ok i k2" "tcbs k2 = tcbs k1" using k1(2) by (simp_all add: k2_def portYIELD_def)
  ultimately show ?thesis using k1(4) h'(2,3) by (intro exI [of _ s2]) simp
qed

theorem vEventGroupDelete_terminates_witness:
  "\<exists>p h s'. pvPortMalloc_body 100 sample_heap = Some (p, h) \<and>
    vEventGroupDelete (uint p) (sample_groups\<lparr>rt := sample_rtos\<lparr>heap := h\<rparr>\<rparr>) = Some s'"
proof -
  obtain p h where p: "pvPortMalloc_body 100 sample_heap = Some (p, h)" "p \<noteq> 0"
    and r: "heap_reach h [unat p - 8 \<mapsto> block_bytes p h]" using sample_block by blast
  have "8 \<le> unat p" using malloc_step_ok [OF heap_reach_ok [OF sample_reach], of 100] p by auto
  then have a: "uint p = int (unat p - 8 + 8)" by simp
  have c: "calm 100 (eg_kern (sample_groups\<lparr>rt := sample_rtos\<lparr>heap := h\<rparr>\<rparr>))" using sample_calm by simp
  have h: "heap_ok (heap (rt (sample_groups\<lparr>rt := sample_rtos\<lparr>heap := h\<rparr>\<rparr>))) [unat p - 8 \<mapsto> block_bytes p h]"
    using heap_reach_ok [OF r] by simp
  from vEventGroupDelete_terminates [OF c h _ a] p(1) show ?thesis by auto
qed

end
