(* ===== verification/StreamBuffer.thy ===== *)
theory StreamBuffer imports EventGroup Notify begin

text \<open>
  Stream and message buffers (\<open>freertos/src/stream_buffer.c\<close>): a ring of bytes between one writer and one
  reader, which share no lock: the writer alone moves \<open>xHead\<close>, the reader alone \<open>xTail\<close>. What the other party
  does between two accesses to the shared memory is the argument \<open>gaps\<close>. A message is its length, four bytes, and its
  bytes. Calls that may block are two definitions, up to the sleep and from the wake-up.
\<close>

unbundle bit_operations_syntax

section \<open>State\<close>

record stream_buffer =
  xTail :: u32
  xHead :: u32
  xLength :: u32
  xTriggerLevelBytes :: u32
  xTaskWaitingToReceive :: addr
  xTaskWaitingToSend :: addr
  pucBuffer :: addr
  ucFlags :: u8
  uxStreamBufferNumber :: u32

record sb_sys =
  srt :: rtos
  sbufs :: "addr \<Rightarrow> stream_buffer"

abbreviation (input) "sbBYTES_TO_STORE_MESSAGE_LENGTH \<equiv> (4 :: u32)"
abbreviation (input) "sbFLAGS_IS_MESSAGE_BUFFER \<equiv> (1 :: u8)"
abbreviation (input) "sbFLAGS_IS_STATICALLY_ALLOCATED \<equiv> (2 :: u8)"
abbreviation (input) "sizeof_StreamBuffer_t \<equiv> (36 :: u32)"

abbreviation sb_kern :: "sb_sys \<Rightarrow> sched" where "sb_kern s \<equiv> kern (srt s)"
abbreviation sb_bytes :: "sb_sys \<Rightarrow> addr \<Rightarrow> u8" where "sb_bytes s \<equiv> bytes (srt s)"

abbreviation upd_sb :: "addr \<Rightarrow> (stream_buffer \<Rightarrow> stream_buffer) \<Rightarrow> sb_sys \<Rightarrow> sb_sys" where
  "upd_sb a f s \<equiv> s\<lparr>sbufs := (sbufs s)(a := f (sbufs s a))\<rparr>"

definition sb_set_kern :: "sched \<Rightarrow> sb_sys \<Rightarrow> sb_sys" where
  "sb_set_kern k s = s\<lparr>srt := (srt s)\<lparr>kern := k\<rparr>\<rparr>"

definition sb_set_bytes :: "(addr \<Rightarrow> u8) \<Rightarrow> sb_sys \<Rightarrow> sb_sys" where
  "sb_set_bytes m s = s\<lparr>srt := (srt s)\<lparr>bytes := m\<rparr>\<rparr>"

type_synonym sgaps = "nat \<Rightarrow> sb_sys \<Rightarrow> sb_sys option"

definition alone :: sgaps where "alone n s = Some s"

section \<open>Creation and deletion\<close>

definition stream_buffer0 :: stream_buffer where
  "stream_buffer0 = \<lparr>xTail = 0, xHead = 0, xLength = 0, xTriggerLevelBytes = 0, xTaskWaitingToReceive = NULL,
     xTaskWaitingToSend = NULL, pucBuffer = NULL, ucFlags = 0, uxStreamBufferNumber = 0\<rparr>"

definition prvInitialiseNewStreamBuffer :: "addr \<Rightarrow> addr \<Rightarrow> u32 \<Rightarrow> u32 \<Rightarrow> bool \<Rightarrow> sb_sys \<Rightarrow> sb_sys" where
  "prvInitialiseNewStreamBuffer a buf xBufferSizeBytes trigger xIsMessageBuffer s =
    (let s = upd_sb a (\<lambda>_. stream_buffer0) s;
         s = upd_sb a (\<lambda>b. b\<lparr>pucBuffer := buf, xLength := xBufferSizeBytes, xTriggerLevelBytes := trigger\<rparr>) s
     in if xIsMessageBuffer then upd_sb a (\<lambda>b. b\<lparr>ucFlags := ucFlags b OR sbFLAGS_IS_MESSAGE_BUFFER\<rparr>) s else s)"

definition xStreamBufferGenericCreate :: "u32 \<Rightarrow> u32 \<Rightarrow> bool \<Rightarrow> sb_sys \<Rightarrow> (addr \<times> sb_sys) option" where
  "xStreamBufferGenericCreate xBufferSizeBytes trigger xIsMessageBuffer s = do {
    let trigger = (if trigger = 0 then 1 else trigger);
    let xBufferSizeBytes = xBufferSizeBytes + 1;
    (a, r) \<leftarrow> pvPortMalloc (xBufferSizeBytes + sizeof_StreamBuffer_t) (srt s);
    let s = s\<lparr>srt := r\<rparr>;
    Some (a, if a \<noteq> NULL
             then prvInitialiseNewStreamBuffer a (a + uint sizeof_StreamBuffer_t) xBufferSizeBytes trigger xIsMessageBuffer s
             else s)
  }"

definition vStreamBufferDelete :: "addr \<Rightarrow> sb_sys \<Rightarrow> sb_sys option" where
  "vStreamBufferDelete a s =
    (if ucFlags (sbufs s a) AND sbFLAGS_IS_STATICALLY_ALLOCATED = 0
     then do { r \<leftarrow> vPortFree a (srt s); Some (s\<lparr>srt := r\<rparr>) }
     else Some (upd_sb a (\<lambda>_. stream_buffer0) s))"

definition xStreamBufferReset :: "addr \<Rightarrow> sb_sys \<Rightarrow> bool \<times> sb_sys" where
  "xStreamBufferReset a s =
    (let uxNumber = uxStreamBufferNumber (sbufs s a)
     in if xTaskWaitingToReceive (sbufs s a) = NULL
        then (if xTaskWaitingToSend (sbufs s a) = NULL
              then (let xIsMessageBuffer = (ucFlags (sbufs s a) AND sbFLAGS_IS_MESSAGE_BUFFER \<noteq> 0);
                        s = prvInitialiseNewStreamBuffer a (pucBuffer (sbufs s a)) (xLength (sbufs s a))
                              (xTriggerLevelBytes (sbufs s a)) xIsMessageBuffer s
                    in (True, upd_sb a (\<lambda>b. b\<lparr>uxStreamBufferNumber := uxNumber\<rparr>) s))
              else (False, s))
        else (False, s))"

definition xStreamBufferSetTriggerLevel :: "addr \<Rightarrow> u32 \<Rightarrow> sb_sys \<Rightarrow> bool \<times> sb_sys" where
  "xStreamBufferSetTriggerLevel a xTriggerLevel s =
    (let xTriggerLevel = (if xTriggerLevel = 0 then 1 else xTriggerLevel)
     in if xTriggerLevel \<le> xLength (sbufs s a)
        then (True, upd_sb a (\<lambda>b. b\<lparr>xTriggerLevelBytes := xTriggerLevel\<rparr>) s)
        else (False, s))"

section \<open>Space and bytes\<close>

definition sb_space :: "stream_buffer \<Rightarrow> u32" where
  "sb_space b =
    (let xSpace = xLength b + xTail b;
         xSpace = xSpace - xHead b;
         xSpace = xSpace - 1
     in if xSpace \<ge> xLength b then xSpace - xLength b else xSpace)"

definition xStreamBufferSpacesAvailable :: "addr \<Rightarrow> sb_sys \<Rightarrow> u32" where
  "xStreamBufferSpacesAvailable a s = sb_space (sbufs s a)"

definition sb_count :: "stream_buffer \<Rightarrow> u32" where
  "sb_count b =
    (let xCount = xLength b + xHead b;
         xCount = xCount - xTail b
     in if xCount \<ge> xLength b then xCount - xLength b else xCount)"

definition prvBytesInBuffer :: "addr \<Rightarrow> sb_sys \<Rightarrow> u32" where
  "prvBytesInBuffer a s = sb_count (sbufs s a)"

definition xStreamBufferBytesAvailable :: "addr \<Rightarrow> sb_sys \<Rightarrow> u32" where
  "xStreamBufferBytesAvailable a s = prvBytesInBuffer a s"

definition is_message_buffer :: "addr \<Rightarrow> sb_sys \<Rightarrow> bool" where
  "is_message_buffer a s \<longleftrightarrow> ucFlags (sbufs s a) AND sbFLAGS_IS_MESSAGE_BUFFER \<noteq> 0"

definition length_bytes :: "addr \<Rightarrow> sb_sys \<Rightarrow> u32" where
  "length_bytes a s = (if is_message_buffer a s then sbBYTES_TO_STORE_MESSAGE_LENGTH else 0)"

definition xStreamBufferIsEmpty :: "addr \<Rightarrow> sb_sys \<Rightarrow> bool" where
  "xStreamBufferIsEmpty a s \<longleftrightarrow> xHead (sbufs s a) = xTail (sbufs s a)"

definition xStreamBufferIsFull :: "addr \<Rightarrow> sb_sys \<Rightarrow> bool" where
  "xStreamBufferIsFull a s \<longleftrightarrow> xStreamBufferSpacesAvailable a s \<le> length_bytes a s"

section \<open>Copying\<close>

text \<open>The first part goes up to the end of the storage, the rest to its beginning.\<close>

definition prvWriteBytesToBuffer :: "sgaps \<Rightarrow> addr \<Rightarrow> u8 list \<Rightarrow> u32 \<Rightarrow> sb_sys \<Rightarrow> (u32 \<times> sb_sys) option" where
  "prvWriteBytesToBuffer gaps a pucData xCount s = do {
    let xNextHead = xHead (sbufs s a);
    let xFirstLength = min (xLength (sbufs s a) - xNextHead) xCount;
    s \<leftarrow> gaps 0 s;
    m \<leftarrow> memcpy_in (pucBuffer (sbufs s a) + uint xNextHead) pucData (unat xFirstLength) (sb_bytes s);
    let s = sb_set_bytes m s;
    s \<leftarrow> gaps 1 s;
    s \<leftarrow> (if xCount > xFirstLength
          then do {
            m \<leftarrow> memcpy_in (pucBuffer (sbufs s a)) (drop (unat xFirstLength) pucData) (unat (xCount - xFirstLength)) (sb_bytes s);
            Some (sb_set_bytes m s)
          }
          else Some s);
    s \<leftarrow> gaps 2 s;
    let xNextHead = xNextHead + xCount;
    let xNextHead = (if xNextHead \<ge> xLength (sbufs s a) then xNextHead - xLength (sbufs s a) else xNextHead);
    Some (xCount, upd_sb a (\<lambda>b. b\<lparr>xHead := xNextHead\<rparr>) s)
  }"

text \<open>The bytes read, of which there are \<open>xCount\<close>, the code's result.\<close>

definition prvReadBytesFromBuffer :: "sgaps \<Rightarrow> addr \<Rightarrow> u32 \<Rightarrow> u32 \<Rightarrow> sb_sys \<Rightarrow> (u8 list \<times> u32 \<times> sb_sys) option" where
  "prvReadBytesFromBuffer gaps a xMaxCount xBytesAvailable s =
    (let xCount = min xBytesAvailable xMaxCount
     in if xCount > 0
        then do {
          let xNextTail = xTail (sbufs s a);
          let xFirstLength = min (xLength (sbufs s a) - xNextTail) xCount;
          s \<leftarrow> gaps 0 s;
          let xs = memcpy_out (pucBuffer (sbufs s a) + uint xNextTail) (unat xFirstLength) (sb_bytes s);
          s \<leftarrow> gaps 1 s;
          let ys = (if xCount > xFirstLength
                    then memcpy_out (pucBuffer (sbufs s a)) (unat (xCount - xFirstLength)) (sb_bytes s) else []);
          s \<leftarrow> gaps 2 s;
          let xNextTail = xNextTail + xCount;
          let xNextTail = (if xNextTail \<ge> xLength (sbufs s a) then xNextTail - xLength (sbufs s a) else xNextTail);
          Some (xs @ ys, xCount, upd_sb a (\<lambda>b. b\<lparr>xTail := xNextTail\<rparr>) s)
        }
        else Some ([], xCount, s))"

definition later :: "nat \<Rightarrow> sgaps \<Rightarrow> sgaps" where "later n gaps = (\<lambda>i. gaps (n + i))"

definition prvWriteMessageToBuffer :: "sgaps \<Rightarrow> addr \<Rightarrow> u8 list \<Rightarrow> u32 \<Rightarrow> u32 \<Rightarrow> u32 \<Rightarrow> sb_sys \<Rightarrow> (u32 \<times> sb_sys) option" where
  "prvWriteMessageToBuffer gaps a pvTxData xDataLengthBytes xSpace xRequiredSpace s = do {
    (xShouldWrite, xDataLengthBytes, s) \<leftarrow>
      (if xSpace = 0 then Some (False, xDataLengthBytes, s)
       else if \<not> is_message_buffer a s then Some (True, min xDataLengthBytes xSpace, s)
       else if xSpace \<ge> xRequiredSpace
       then do {
         (_, s) \<leftarrow> prvWriteBytesToBuffer gaps a (le32_bytes xDataLengthBytes) sbBYTES_TO_STORE_MESSAGE_LENGTH s;
         Some (True, xDataLengthBytes, s)
       }
       else Some (False, xDataLengthBytes, s));
    if xShouldWrite then prvWriteBytesToBuffer (later 3 gaps) a pvTxData xDataLengthBytes s else Some (0, s)
  }"

definition prvReadMessageFromBuffer :: "sgaps \<Rightarrow> addr \<Rightarrow> u32 \<Rightarrow> u32 \<Rightarrow> u32 \<Rightarrow> sb_sys \<Rightarrow> (u8 list \<times> u32 \<times> sb_sys) option" where
  "prvReadMessageFromBuffer gaps a xBufferLengthBytes xBytesAvailable xBytesToStoreMessageLength s = do {
    (xNextMessageLength, xBytesAvailable, s) \<leftarrow>
      (if xBytesToStoreMessageLength \<noteq> 0
       then do {
         let xOriginalTail = xTail (sbufs s a);
         (xs, _, s) \<leftarrow> prvReadBytesFromBuffer gaps a xBytesToStoreMessageLength xBytesAvailable s;
         let xNextMessageLength = le32 xs;
         let xBytesAvailable = xBytesAvailable - xBytesToStoreMessageLength;
         s \<leftarrow> gaps 3 s;
         Some (if xNextMessageLength > xBufferLengthBytes
               then (0, xBytesAvailable, upd_sb a (\<lambda>b. b\<lparr>xTail := xOriginalTail\<rparr>) s)
               else (xNextMessageLength, xBytesAvailable, s))
       }
       else Some (xBufferLengthBytes, xBytesAvailable, s));
    prvReadBytesFromBuffer (later 4 gaps) a xNextMessageLength xBytesAvailable s
  }"

section \<open>Waking the other party\<close>

definition sbRECEIVE_COMPLETED :: "addr \<Rightarrow> sb_sys \<Rightarrow> sb_sys option" where
  "sbRECEIVE_COMPLETED a s = do {
    let s = sb_set_kern (vTaskSuspendAll (sb_kern s)) s;
    s \<leftarrow> (if xTaskWaitingToSend (sbufs s a) \<noteq> NULL
          then do {
            (_, _, k) \<leftarrow> xTaskGenericNotify (xTaskWaitingToSend (sbufs s a)) 0 eNoAction (sb_kern s);
            Some (upd_sb a (\<lambda>b. b\<lparr>xTaskWaitingToSend := NULL\<rparr>) (sb_set_kern k s))
          }
          else Some s);
    (_, k) \<leftarrow> xTaskResumeAll (sb_kern s);
    Some (sb_set_kern k s)
  }"

definition sbSEND_COMPLETED :: "addr \<Rightarrow> sb_sys \<Rightarrow> sb_sys option" where
  "sbSEND_COMPLETED a s = do {
    let s = sb_set_kern (vTaskSuspendAll (sb_kern s)) s;
    s \<leftarrow> (if xTaskWaitingToReceive (sbufs s a) \<noteq> NULL
          then do {
            (_, _, k) \<leftarrow> xTaskGenericNotify (xTaskWaitingToReceive (sbufs s a)) 0 eNoAction (sb_kern s);
            Some (upd_sb a (\<lambda>b. b\<lparr>xTaskWaitingToReceive := NULL\<rparr>) (sb_set_kern k s))
          }
          else Some s);
    (_, k) \<leftarrow> xTaskResumeAll (sb_kern s);
    Some (sb_set_kern k s)
  }"

definition xStreamBufferSendCompletedFromISR :: "addr \<Rightarrow> bool option \<Rightarrow> sb_sys \<Rightarrow> (bool \<times> bool option \<times> sb_sys) option" where
  "xStreamBufferSendCompletedFromISR a pxWoken s =
    (if xTaskWaitingToReceive (sbufs s a) \<noteq> NULL
     then do {
       (_, _, pxWoken, k) \<leftarrow> xTaskGenericNotifyFromISR (xTaskWaitingToReceive (sbufs s a)) 0 eNoAction pxWoken (sb_kern s);
       Some (True, pxWoken, upd_sb a (\<lambda>b. b\<lparr>xTaskWaitingToReceive := NULL\<rparr>) (sb_set_kern k s))
     }
     else Some (False, pxWoken, s))"

definition xStreamBufferReceiveCompletedFromISR :: "addr \<Rightarrow> bool option \<Rightarrow> sb_sys \<Rightarrow> (bool \<times> bool option \<times> sb_sys) option" where
  "xStreamBufferReceiveCompletedFromISR a pxWoken s =
    (if xTaskWaitingToSend (sbufs s a) \<noteq> NULL
     then do {
       (_, _, pxWoken, k) \<leftarrow> xTaskGenericNotifyFromISR (xTaskWaitingToSend (sbufs s a)) 0 eNoAction pxWoken (sb_kern s);
       Some (True, pxWoken, upd_sb a (\<lambda>b. b\<lparr>xTaskWaitingToSend := NULL\<rparr>) (sb_set_kern k s))
     }
     else Some (False, pxWoken, s))"

text \<open>The two macros for interrupts do the same and drop the result.\<close>

definition sbSEND_COMPLETE_FROM_ISR :: "addr \<Rightarrow> bool option \<Rightarrow> sb_sys \<Rightarrow> (bool option \<times> sb_sys) option" where
  "sbSEND_COMPLETE_FROM_ISR a pxWoken s =
    (if xTaskWaitingToReceive (sbufs s a) \<noteq> NULL
     then do {
       (_, _, pxWoken, k) \<leftarrow> xTaskGenericNotifyFromISR (xTaskWaitingToReceive (sbufs s a)) 0 eNoAction pxWoken (sb_kern s);
       Some (pxWoken, upd_sb a (\<lambda>b. b\<lparr>xTaskWaitingToReceive := NULL\<rparr>) (sb_set_kern k s))
     }
     else Some (pxWoken, s))"

definition sbRECEIVE_COMPLETED_FROM_ISR :: "addr \<Rightarrow> bool option \<Rightarrow> sb_sys \<Rightarrow> (bool option \<times> sb_sys) option" where
  "sbRECEIVE_COMPLETED_FROM_ISR a pxWoken s =
    (if xTaskWaitingToSend (sbufs s a) \<noteq> NULL
     then do {
       (_, _, pxWoken, k) \<leftarrow> xTaskGenericNotifyFromISR (xTaskWaitingToSend (sbufs s a)) 0 eNoAction pxWoken (sb_kern s);
       Some (pxWoken, upd_sb a (\<lambda>b. b\<lparr>xTaskWaitingToSend := NULL\<rparr>) (sb_set_kern k s))
     }
     else Some (pxWoken, s))"

section \<open>Sending\<close>

definition required_space :: "addr \<Rightarrow> u32 \<Rightarrow> sb_sys \<Rightarrow> u32" where
  "required_space a xDataLengthBytes s = xDataLengthBytes + length_bytes a s"

text \<open>The part common to all ends of the waiting loop.\<close>

definition send_finish :: "sgaps \<Rightarrow> addr \<Rightarrow> u8 list \<Rightarrow> u32 \<Rightarrow> u32 \<Rightarrow> u32 \<Rightarrow> sb_sys \<Rightarrow> (u32 \<times> sb_sys) option" where
  "send_finish gaps a pvTxData xDataLengthBytes xRequiredSpace xSpace s = do {
    let xSpace = (if xSpace = 0 then xStreamBufferSpacesAvailable a s else xSpace);
    (xReturn, s) \<leftarrow> prvWriteMessageToBuffer gaps a pvTxData xDataLengthBytes xSpace xRequiredSpace s;
    s \<leftarrow> (if xReturn > 0
          then (if prvBytesInBuffer a s \<ge> xTriggerLevelBytes (sbufs s a) then sbSEND_COMPLETED a s else Some s)
          else Some s);
    Some (xReturn, s)
  }"

text \<open>The locals that survive a sleep.\<close>

record sb_call =
  sSpace :: u32
  sTimeOut :: TimeOut_t
  sTicks :: u32

text \<open>A pass of the loop up to the sleep; no result if the task waits for a notification.\<close>

definition send_pass :: "sgaps \<Rightarrow> addr \<Rightarrow> u8 list \<Rightarrow> u32 \<Rightarrow> sb_call \<Rightarrow> sb_sys \<Rightarrow> (u32 option \<times> sb_call \<times> sb_sys) option" where
  "send_pass gaps a pvTxData xDataLengthBytes c s = do {
    let xRequiredSpace = required_space a xDataLengthBytes s;
    let c = c\<lparr>sSpace := xStreamBufferSpacesAvailable a s\<rparr>;
    if sSpace c < xRequiredSpace
    then do {
      let s = sb_set_kern (snd (xTaskNotifyStateClear NULL (sb_kern s))) s;
      let s = upd_sb a (\<lambda>b. b\<lparr>xTaskWaitingToSend := pxCurrentTCB (sb_kern s)\<rparr>) s;
      s \<leftarrow> gaps 7 s;
      k \<leftarrow> xTaskNotifyWait_enter 0 (sTicks c) (sb_kern s);
      Some (None, c, sb_set_kern k s)
    }
    else do {
      (r, s) \<leftarrow> send_finish gaps a pvTxData xDataLengthBytes xRequiredSpace (sSpace c) s;
      Some (Some r, c, s)
    }
  }"

definition xStreamBufferSend :: "sgaps \<Rightarrow> addr \<Rightarrow> u8 list \<Rightarrow> u32 \<Rightarrow> u32 \<Rightarrow> sb_sys \<Rightarrow> (u32 option \<times> sb_call \<times> sb_sys) option" where
  "xStreamBufferSend gaps a pvTxData xDataLengthBytes xTicksToWait s =
    (let c = \<lparr>sSpace = 0, sTimeOut = vTaskSetTimeOutState (sb_kern s), sTicks = xTicksToWait\<rparr>
     in if xTicksToWait \<noteq> 0 then send_pass gaps a pvTxData xDataLengthBytes c s
        else do {
          (r, s) \<leftarrow> send_finish gaps a pvTxData xDataLengthBytes (required_space a xDataLengthBytes s) 0 s;
          Some (Some r, c, s)
        })"

text \<open>From the wake-up on: the loop ends when the time has run out.\<close>

definition xStreamBufferSend_woken :: "sgaps \<Rightarrow> addr \<Rightarrow> u8 list \<Rightarrow> u32 \<Rightarrow> sb_call \<Rightarrow> sb_sys \<Rightarrow>
    (u32 option \<times> sb_call \<times> sb_sys) option" where
  "xStreamBufferSend_woken gaps a pvTxData xDataLengthBytes c s = do {
    let (_, _, k) = xTaskNotifyWait_leave 0xFFFFFFFF (sb_kern s);
    let s = upd_sb a (\<lambda>b. b\<lparr>xTaskWaitingToSend := NULL\<rparr>) (sb_set_kern k s);
    s \<leftarrow> gaps 8 s;
    let (expired, to, n) = xTaskCheckForTimeOut (sb_kern s) (sTimeOut c) (sTicks c);
    let c = c\<lparr>sTimeOut := to, sTicks := n\<rparr>;
    if \<not> expired then send_pass gaps a pvTxData xDataLengthBytes c s
    else do {
      (r, s) \<leftarrow> send_finish gaps a pvTxData xDataLengthBytes (required_space a xDataLengthBytes s) (sSpace c) s;
      Some (Some r, c, s)
    }
  }"

definition xStreamBufferSendFromISR :: "sgaps \<Rightarrow> addr \<Rightarrow> u8 list \<Rightarrow> u32 \<Rightarrow> bool option \<Rightarrow> sb_sys \<Rightarrow>
    (u32 \<times> bool option \<times> sb_sys) option" where
  "xStreamBufferSendFromISR gaps a pvTxData xDataLengthBytes pxWoken s = do {
    let xRequiredSpace = required_space a xDataLengthBytes s;
    let xSpace = xStreamBufferSpacesAvailable a s;
    (xReturn, s) \<leftarrow> prvWriteMessageToBuffer gaps a pvTxData xDataLengthBytes xSpace xRequiredSpace s;
    (pxWoken, s) \<leftarrow> (if xReturn > 0
          then (if prvBytesInBuffer a s \<ge> xTriggerLevelBytes (sbufs s a) then sbSEND_COMPLETE_FROM_ISR a pxWoken s
                else Some (pxWoken, s))
          else Some (pxWoken, s));
    Some (xReturn, pxWoken, s)
  }"

section \<open>Receiving\<close>

definition receive_finish :: "sgaps \<Rightarrow> addr \<Rightarrow> u32 \<Rightarrow> u32 \<Rightarrow> sb_sys \<Rightarrow> (u8 list \<times> u32 \<times> sb_sys) option" where
  "receive_finish gaps a xBufferLengthBytes xBytesAvailable s =
    (if xBytesAvailable > length_bytes a s
     then do {
       (xs, xReceivedLength, s) \<leftarrow>
         prvReadMessageFromBuffer gaps a xBufferLengthBytes xBytesAvailable (length_bytes a s) s;
       s \<leftarrow> (if xReceivedLength \<noteq> 0 then sbRECEIVE_COMPLETED a s else Some s);
       Some (xs, xReceivedLength, s)
     }
     else Some ([], 0, s))"

definition xStreamBufferReceive :: "sgaps \<Rightarrow> addr \<Rightarrow> u32 \<Rightarrow> u32 \<Rightarrow> sb_sys \<Rightarrow> ((u8 list \<times> u32) option \<times> sb_sys) option" where
  "xStreamBufferReceive gaps a xBufferLengthBytes xTicksToWait s = do {
    let xBytesAvailable = prvBytesInBuffer a s;
    if xTicksToWait \<noteq> 0 \<and> xBytesAvailable \<le> length_bytes a s
    then do {
      let s = sb_set_kern (snd (xTaskNotifyStateClear NULL (sb_kern s))) s;
      let s = upd_sb a (\<lambda>b. b\<lparr>xTaskWaitingToReceive := pxCurrentTCB (sb_kern s)\<rparr>) s;
      s \<leftarrow> gaps 7 s;
      k \<leftarrow> xTaskNotifyWait_enter 0 xTicksToWait (sb_kern s);
      Some (None, sb_set_kern k s)
    }
    else do {
      (xs, n, s) \<leftarrow> receive_finish gaps a xBufferLengthBytes xBytesAvailable s;
      Some (Some (xs, n), s)
    }
  }"

definition xStreamBufferReceive_woken :: "sgaps \<Rightarrow> addr \<Rightarrow> u32 \<Rightarrow> sb_sys \<Rightarrow> (u8 list \<times> u32 \<times> sb_sys) option" where
  "xStreamBufferReceive_woken gaps a xBufferLengthBytes s = do {
    let (_, _, k) = xTaskNotifyWait_leave 0xFFFFFFFF (sb_kern s);
    let s = upd_sb a (\<lambda>b. b\<lparr>xTaskWaitingToReceive := NULL\<rparr>) (sb_set_kern k s);
    s \<leftarrow> gaps 8 s;
    receive_finish gaps a xBufferLengthBytes (prvBytesInBuffer a s) s
  }"

definition xStreamBufferReceiveFromISR :: "sgaps \<Rightarrow> addr \<Rightarrow> u32 \<Rightarrow> bool option \<Rightarrow> sb_sys \<Rightarrow>
    (u8 list \<times> u32 \<times> bool option \<times> sb_sys) option" where
  "xStreamBufferReceiveFromISR gaps a xBufferLengthBytes pxWoken s =
    (let xBytesAvailable = prvBytesInBuffer a s
     in if xBytesAvailable > length_bytes a s
        then do {
          (xs, xReceivedLength, s) \<leftarrow>
            prvReadMessageFromBuffer gaps a xBufferLengthBytes xBytesAvailable (length_bytes a s) s;
          (pxWoken, s) \<leftarrow> (if xReceivedLength \<noteq> 0 then sbRECEIVE_COMPLETED_FROM_ISR a pxWoken s else Some (pxWoken, s));
          Some (xs, xReceivedLength, pxWoken, s)
        }
        else Some ([], 0, pxWoken, s))"

definition uxStreamBufferGetStreamBufferNumber :: "addr \<Rightarrow> sb_sys \<Rightarrow> u32" where
  "uxStreamBufferGetStreamBufferNumber a s = uxStreamBufferNumber (sbufs s a)"

definition vStreamBufferSetStreamBufferNumber :: "addr \<Rightarrow> u32 \<Rightarrow> sb_sys \<Rightarrow> sb_sys" where
  "vStreamBufferSetStreamBufferNumber a n s = upd_sb a (\<lambda>b. b\<lparr>uxStreamBufferNumber := n\<rparr>) s"

definition ucStreamBufferGetStreamBufferType :: "addr \<Rightarrow> sb_sys \<Rightarrow> u8" where
  "ucStreamBufferGetStreamBufferType a s = ucFlags (sbufs s a) OR sbFLAGS_IS_MESSAGE_BUFFER"

end
