(* ===== verification/StreamBufferProps.thy ===== *)
theory StreamBufferProps imports StreamBuffer begin

text \<open>
  Stream buffers as queues of bytes, message buffers as queues of messages. What the reader or the writer may
  do between two steps of the other is a relation on states (\<open>consumes\<close>, \<open>produces\<close>); each copy is shown to add or
  take its bytes under any such interference, and the calls from interrupts to be such interference.
\<close>

unbundle bit_operations_syntax

section \<open>The ring\<close>

definition sb_len :: "stream_buffer \<Rightarrow> nat" where "sb_len b = unat (xLength b)"
definition sb_tail :: "stream_buffer \<Rightarrow> nat" where "sb_tail b = unat (xTail b)"
definition sb_head :: "stream_buffer \<Rightarrow> nat" where "sb_head b = unat (xHead b)"

definition sb_wf :: "stream_buffer \<Rightarrow> bool" where
  "sb_wf b \<longleftrightarrow> 0 < sb_len b \<and> sb_len b \<le> 2 ^ 31 \<and> sb_tail b < sb_len b \<and> sb_head b < sb_len b"

definition sb_used :: "stream_buffer \<Rightarrow> nat" where
  "sb_used b = (sb_len b + sb_head b - sb_tail b) mod sb_len b"

definition sb_cell :: "addr \<Rightarrow> sb_sys \<Rightarrow> nat \<Rightarrow> u8" where
  "sb_cell a s i = sb_bytes s (pucBuffer (sbufs s a) + int (i mod sb_len (sbufs s a)))"

text \<open>The bytes in the buffer, the oldest first.\<close>

definition sb_contents :: "addr \<Rightarrow> sb_sys \<Rightarrow> u8 list" where
  "sb_contents a s = map (\<lambda>i. sb_cell a s (sb_tail (sbufs s a) + i)) [0..<sb_used (sbufs s a)]"

lemma length_contents [simp]: "length (sb_contents a s) = sb_used (sbufs s a)"
  by (simp add: sb_contents_def)

lemma used_less: "sb_wf b \<Longrightarrow> sb_used b < sb_len b"
  by (simp add: sb_used_def sb_wf_def)

lemma mod_lap: "(x :: nat) < 2 * L \<Longrightarrow> x mod L = (if x \<ge> L then x - L else x)"
  by (cases "x \<ge> L") (auto simp: le_mod_geq)

lemma used_head:
  assumes "sb_wf b"
  shows "(sb_tail b + sb_used b) mod sb_len b = sb_head b"
proof -
  have "(sb_tail b + sb_used b) mod sb_len b = (sb_tail b + (sb_len b + sb_head b - sb_tail b)) mod sb_len b"
    by (simp add: sb_used_def mod_add_right_eq)
  also have "\<dots> = sb_head b" using assms by (simp add: sb_wf_def)
  finally show ?thesis .
qed

lemma unat_count:
  assumes w: "sb_wf b"
  shows "unat (sb_count b) = sb_used b"
proof -
  let ?L = "unat (xLength b)" and ?H = "unat (xHead b)" and ?T = "unat (xTail b)"
  have b: "?L \<le> 2147483648" "?H < ?L" "?T < ?L" using w by (simp_all add: sb_wf_def sb_len_def sb_head_def sb_tail_def)
  have s: "unat (xLength b + xHead b) = ?L + ?H" using b by (subst unat_add_lem [THEN iffD1]) simp_all
  have d: "unat (xLength b + xHead b - xTail b) = ?L + ?H - ?T"
    using b s by (subst unat_sub) (simp_all add: word_le_nat_alt)
  have m: "sb_used b = (if ?L + ?H - ?T \<ge> ?L then ?L + ?H - ?T - ?L else ?L + ?H - ?T)"
    using b by (simp add: sb_used_def sb_len_def sb_head_def sb_tail_def mod_lap)
  define y where "y = xLength b + xHead b - xTail b"
  have y: "sb_count b = (if y \<ge> xLength b then y - xLength b else y)" by (simp add: sb_count_def Let_def y_def)
  have "unat (if y \<ge> xLength b then y - xLength b else y) = (if unat y \<ge> ?L then unat y - ?L else unat y)"
    by (simp add: unat_sub word_le_nat_alt)
  then show ?thesis unfolding y m using d unfolding y_def by simp
qed

lemma unat_space:
  assumes w: "sb_wf b"
  shows "unat (sb_space b) = sb_len b - 1 - sb_used b"
proof -
  let ?L = "unat (xLength b)" and ?H = "unat (xHead b)" and ?T = "unat (xTail b)"
  have b: "?L \<le> 2147483648" "?H < ?L" "?T < ?L" using w by (simp_all add: sb_wf_def sb_len_def sb_head_def sb_tail_def)
  have s: "unat (xLength b + xTail b) = ?L + ?T" using b by (subst unat_add_lem [THEN iffD1]) simp_all
  have d: "unat (xLength b + xTail b - xHead b) = ?L + ?T - ?H"
    using b s by (subst unat_sub) (simp_all add: word_le_nat_alt)
  have d1: "unat (xLength b + xTail b - xHead b - 1) = ?L + ?T - ?H - 1"
    using b d by (subst unat_sub) (simp_all add: word_le_nat_alt)
  have m: "sb_used b = (if ?L + ?H - ?T \<ge> ?L then ?L + ?H - ?T - ?L else ?L + ?H - ?T)"
    using b by (simp add: sb_used_def sb_len_def sb_head_def sb_tail_def mod_lap)
  define y where "y = xLength b + xTail b - xHead b - 1"
  have y: "sb_space b = (if y \<ge> xLength b then y - xLength b else y)" by (simp add: sb_space_def Let_def y_def)
  have "unat (if y \<ge> xLength b then y - xLength b else y) = (if unat y \<ge> ?L then unat y - ?L else unat y)"
    by (simp add: unat_sub word_le_nat_alt)
  also have "\<dots> = ?L - 1 - sb_used b" unfolding m using b d1 unfolding y_def by simp
  finally show ?thesis unfolding y sb_len_def .
qed

text \<open>An index moved on by less than the length.\<close>

lemma unat_step:
  assumes "unat x < unat L" and "unat n < unat L" and "unat L \<le> 2 ^ 31"
  shows "unat (if x + n \<ge> L then x + n - L else x + n :: u32) = (unat x + unat n) mod unat L"
proof -
  have s: "unat (x + n) = unat x + unat n" using assms by (subst unat_add_lem [THEN iffD1]) simp_all
  have m: "(unat x + unat n) mod unat L = (if unat x + unat n \<ge> unat L then unat x + unat n - unat L else unat x + unat n)"
    using assms by (simp add: mod_lap)
  show ?thesis
  proof (cases "x + n \<ge> L")
    case True
    then show ?thesis using s m by (simp add: unat_sub word_le_nat_alt)
  next
    case False
    then show ?thesis using s m by (simp add: word_le_nat_alt)
  qed
qed

lemma mod_inj:
  fixes T i j L :: nat
  assumes "(T + i) mod L = (T + j) mod L" and "i < L" and "j < L"
  shows "i = j"
proof -
  let ?t = "T mod L"
  have "(?t + i) mod L = (?t + j) mod L" using assms(1) by (simp add: mod_add_left_eq)
  moreover have "?t < L" using assms(2) by simp
  ultimately show ?thesis using assms(2,3) by (auto simp: mod_lap split: if_splits)
qed

lemma used_unique:
  assumes w: "sb_wf b" and u: "u < sb_len b" and h: "(sb_tail b + u) mod sb_len b = sb_head b"
  shows "sb_used b = u"
  by (rule mod_inj [of "sb_tail b" _ "sb_len b", OF _ used_less [OF w] u]) (simp add: used_head [OF w] h)

definition same_ring :: "stream_buffer \<Rightarrow> stream_buffer \<Rightarrow> bool" where
  "same_ring b b' \<longleftrightarrow> xLength b' = xLength b \<and> pucBuffer b' = pucBuffer b \<and> ucFlags b' = ucFlags b"

lemma same_ring_refl [simp]: "same_ring b b" by (simp add: same_ring_def)

lemma same_ringD:
  assumes "same_ring b b'"
  shows "sb_len b' = sb_len b" "xLength b' = xLength b" "pucBuffer b' = pucBuffer b" "ucFlags b' = ucFlags b"
  using assms by (simp_all add: same_ring_def sb_len_def)

lemma same_ring_trans: "same_ring b c \<Longrightarrow> same_ring c d \<Longrightarrow> same_ring b d"
  by (simp add: same_ring_def)

text \<open>What a reader does to the buffer: the tail moves over bytes that were there, and no byte changes.\<close>

definition consumes :: "addr \<Rightarrow> sb_sys \<Rightarrow> sb_sys \<Rightarrow> bool" where
  "consumes a s s' \<longleftrightarrow> (let b = sbufs s a; b' = sbufs s' a in
     same_ring b b' \<and> xHead b' = xHead b \<and>
     (\<exists>k \<le> sb_used b. sb_tail b' = (sb_tail b + k) mod sb_len b) \<and>
     (\<forall>i. sb_cell a s' i = sb_cell a s i))"

text \<open>What a writer does: the head moves over free bytes, and no byte in the buffer changes.\<close>

definition produces :: "addr \<Rightarrow> sb_sys \<Rightarrow> sb_sys \<Rightarrow> bool" where
  "produces a s s' \<longleftrightarrow> (let b = sbufs s a; b' = sbufs s' a in
     same_ring b b' \<and> xTail b' = xTail b \<and>
     (\<exists>k. sb_used b + k < sb_len b \<and> sb_head b' = (sb_head b + k) mod sb_len b) \<and>
     (\<forall>i < sb_used b. sb_cell a s' (sb_tail b + i) = sb_cell a s (sb_tail b + i)))"

lemma consumes_refl: "sb_wf (sbufs s a) \<Longrightarrow> consumes a s s"
  unfolding consumes_def Let_def by (auto simp: sb_wf_def intro!: exI [of _ 0])

lemma produces_refl: "sb_wf (sbufs s a) \<Longrightarrow> produces a s s"
  unfolding produces_def Let_def using used_less [of "sbufs s a"] by (auto simp: sb_wf_def intro!: exI [of _ 0])

lemma used_tail_step:
  assumes w: "sb_wf b" and r: "same_ring b b'" and h: "xHead b' = xHead b"
    and k: "k \<le> sb_used b" "sb_tail b' = (sb_tail b + k) mod sb_len b"
  shows "sb_wf b'" "sb_used b' = sb_used b - k"
proof -
  note l = same_ringD [OF r]
  have h': "sb_head b' = sb_head b" using h by (simp add: sb_head_def)
  show w': "sb_wf b'" using w l(1) h' k(2) by (simp add: sb_wf_def)
  show "sb_used b' = sb_used b - k"
  proof (rule used_unique [OF w'])
    show "sb_used b - k < sb_len b'" using used_less [OF w] l(1) by simp
    have "(sb_tail b' + (sb_used b - k)) mod sb_len b' = (sb_tail b + k + (sb_used b - k)) mod sb_len b"
      by (simp add: k(2) l(1) mod_add_left_eq)
    also have "\<dots> = sb_head b" using used_head [OF w] k(1) by simp
    finally show "(sb_tail b' + (sb_used b - k)) mod sb_len b' = sb_head b'" using h' by simp
  qed
qed

lemma used_head_step:
  assumes w: "sb_wf b" and r: "same_ring b b'" and h: "xTail b' = xTail b"
    and k: "sb_used b + k < sb_len b" "sb_head b' = (sb_head b + k) mod sb_len b"
  shows "sb_wf b'" "sb_used b' = sb_used b + k"
proof -
  note l = same_ringD [OF r]
  have h': "sb_tail b' = sb_tail b" using h by (simp add: sb_tail_def)
  show w': "sb_wf b'" using w l(1) h' k(2) by (simp add: sb_wf_def)
  show "sb_used b' = sb_used b + k"
  proof (rule used_unique [OF w'])
    show "sb_used b + k < sb_len b'" using k(1) l(1) by simp
    have "(sb_tail b + (sb_used b + k)) mod sb_len b = ((sb_tail b + sb_used b) mod sb_len b + k) mod sb_len b"
      by (simp add: mod_add_left_eq add.assoc)
    then show "(sb_tail b' + (sb_used b + k)) mod sb_len b' = sb_head b'"
      using used_head [OF w] l(1) h' k(2) by simp
  qed
qed

lemma cell_cong:
  assumes "same_ring (sbufs s a) (sbufs s' a)"
  shows "i mod sb_len (sbufs s a) = j mod sb_len (sbufs s a) \<Longrightarrow> sb_cell a s' i = sb_cell a s' j"
    and "i mod sb_len (sbufs s a) = j mod sb_len (sbufs s a) \<Longrightarrow> sb_cell a s i = sb_cell a s j"
  using same_ringD(1) [OF assms] by (simp_all add: sb_cell_def)

lemma consumes_contents:
  assumes w: "sb_wf (sbufs s a)" and c: "consumes a s s'"
  shows "sb_wf (sbufs s' a)" "\<exists>k \<le> sb_used (sbufs s a). sb_contents a s' = drop k (sb_contents a s)"
proof -
  let ?b = "sbufs s a" and ?b' = "sbufs s' a"
  have r: "same_ring ?b ?b'" and h: "xHead ?b' = xHead ?b" and e: "\<And>i. sb_cell a s' i = sb_cell a s i"
    using c by (simp_all add: consumes_def Let_def)
  obtain k where k: "k \<le> sb_used ?b" "sb_tail ?b' = (sb_tail ?b + k) mod sb_len ?b"
    using c by (auto simp: consumes_def Let_def)
  show "sb_wf ?b'" by (rule used_tail_step(1) [OF w r h k])
  have u: "sb_used ?b' = sb_used ?b - k" by (rule used_tail_step(2) [OF w r h k])
  have "sb_cell a s (sb_tail ?b' + i) = sb_cell a s (sb_tail ?b + k + i)" for i
    by (rule cell_cong(2) [OF r]) (simp add: k(2) mod_add_left_eq)
  then have "sb_contents a s' = drop k (sb_contents a s)"
    unfolding sb_contents_def u drop_map by (intro nth_equalityI) (use k(1) in \<open>simp_all add: e add.assoc nth_upt\<close>)
  then show "\<exists>k \<le> sb_used ?b. sb_contents a s' = drop k (sb_contents a s)" using k(1) by blast
qed

lemma produces_contents:
  assumes w: "sb_wf (sbufs s a)" and c: "produces a s s'"
  shows "sb_wf (sbufs s' a)" "\<exists>ys. sb_contents a s' = sb_contents a s @ ys"
proof -
  let ?b = "sbufs s a" and ?b' = "sbufs s' a"
  have r: "same_ring ?b ?b'" and t: "xTail ?b' = xTail ?b"
    and e: "\<forall>i < sb_used ?b. sb_cell a s' (sb_tail ?b + i) = sb_cell a s (sb_tail ?b + i)"
    using c by (simp_all add: produces_def Let_def)
  obtain k where k: "sb_used ?b + k < sb_len ?b" "sb_head ?b' = (sb_head ?b + k) mod sb_len ?b"
    using c by (auto simp: produces_def Let_def)
  show "sb_wf ?b'" by (rule used_head_step(1) [OF w r t k])
  have u: "sb_used ?b' = sb_used ?b + k" by (rule used_head_step(2) [OF w r t k])
  have t': "sb_tail ?b' = sb_tail ?b" using t by (simp add: sb_tail_def)
  have "take (sb_used ?b) (sb_contents a s') = sb_contents a s"
    unfolding sb_contents_def u t' by (intro nth_equalityI) (simp_all add: e)
  then have "sb_contents a s' = sb_contents a s @ drop (sb_used ?b) (sb_contents a s')"
    by (metis append_take_drop_id)
  then show "\<exists>ys. sb_contents a s' = sb_contents a s @ ys" ..
qed

section \<open>The writer, with a reader in between\<close>

text \<open>The other party keeps a predicate that does not depend on what the writer changes, and does nothing else
  than read.\<close>

definition reader_runs :: "(sb_sys \<Rightarrow> bool) \<Rightarrow> addr \<Rightarrow> sgaps \<Rightarrow> bool" where
  "reader_runs P a gaps \<longleftrightarrow> (\<forall>n s. sb_wf (sbufs s a) \<and> P s \<longrightarrow> (\<exists>s'. gaps n s = Some s' \<and> consumes a s s' \<and> P s'))"

definition writer_runs :: "(sb_sys \<Rightarrow> bool) \<Rightarrow> addr \<Rightarrow> sgaps \<Rightarrow> bool" where
  "writer_runs P a gaps \<longleftrightarrow> (\<forall>n s. sb_wf (sbufs s a) \<and> P s \<longrightarrow> (\<exists>s'. gaps n s = Some s' \<and> produces a s s' \<and> P s'))"

definition head_free :: "addr \<Rightarrow> (sb_sys \<Rightarrow> bool) \<Rightarrow> bool" where
  "head_free a P \<longleftrightarrow> (\<forall>s m h. P s \<longrightarrow> P (sb_set_bytes m s) \<and> P (upd_sb a (\<lambda>b. b\<lparr>xHead := h\<rparr>) s))"

definition tail_free :: "addr \<Rightarrow> (sb_sys \<Rightarrow> bool) \<Rightarrow> bool" where
  "tail_free a P \<longleftrightarrow> (\<forall>s h. P s \<longrightarrow> P (upd_sb a (\<lambda>b. b\<lparr>xTail := h\<rparr>) s))"

lemma sb_set_sel [simp]:
  "sbufs (sb_set_bytes m s) = sbufs s" "sb_bytes (sb_set_bytes m s) = m" "sb_kern (sb_set_bytes m s) = sb_kern s"
  "sbufs (sb_set_kern k s) = sbufs s" "sb_bytes (sb_set_kern k s) = sb_bytes s" "sb_kern (sb_set_kern k s) = k"
  "sb_set_kern k (sb_set_kern k' s) = sb_set_kern k s"
  by (simp_all add: sb_set_bytes_def sb_set_kern_def)

text \<open>The first \<open>d\<close> bytes of the data are behind the head, which has not moved yet.\<close>

definition writing :: "addr \<Rightarrow> sb_sys \<Rightarrow> u8 list \<Rightarrow> nat \<Rightarrow> sb_sys \<Rightarrow> bool" where
  "writing a s0 data d s \<longleftrightarrow> (let b0 = sbufs s0 a; b = sbufs s a in
     sb_wf b \<and> same_ring b0 b \<and> xHead b = xHead b0 \<and>
     (\<exists>k \<le> sb_used b0. sb_tail b = (sb_tail b0 + k) mod sb_len b0) \<and>
     (\<forall>i < sb_used b0. sb_cell a s (sb_tail b0 + i) = sb_cell a s0 (sb_tail b0 + i)) \<and>
     (\<forall>i < d. sb_cell a s (sb_head b0 + i) = data ! i))"

lemma writing_start: "sb_wf (sbufs s a) \<Longrightarrow> writing a s data 0 s"
  unfolding writing_def Let_def by (auto intro: exI [of _ 0] simp: sb_wf_def)

lemma writing_consumes:
  assumes w: "writing a s0 data d s" and w0: "sb_wf (sbufs s0 a)" and c: "consumes a s s'"
  shows "writing a s0 data d s'"
proof -
  let ?o = "sbufs s0 a" and ?b = "sbufs s a" and ?b' = "sbufs s' a"
  have r: "same_ring ?o ?b" "xHead ?b = xHead ?o" "sb_wf ?b" using w by (simp_all add: writing_def Let_def)
  have r': "same_ring ?b ?b'" "xHead ?b' = xHead ?b" "\<And>i. sb_cell a s' i = sb_cell a s i"
    using c by (simp_all add: consumes_def Let_def)
  obtain k where k: "k \<le> sb_used ?o" "sb_tail ?b = (sb_tail ?o + k) mod sb_len ?o"
    using w unfolding writing_def Let_def by blast
  obtain k' where k': "k' \<le> sb_used ?b" "sb_tail ?b' = (sb_tail ?b + k') mod sb_len ?b"
    using c unfolding consumes_def Let_def by blast
  have u: "sb_used ?b = sb_used ?o - k" by (rule used_tail_step(2) [OF w0 r(1,2) k])
  have "sb_tail ?b' = (sb_tail ?o + (k + k')) mod sb_len ?o"
    using k(2) k'(2) same_ringD(1) [OF r(1)] by (simp add: mod_add_left_eq add.assoc)
  moreover have "k + k' \<le> sb_used ?o" using k(1) k'(1) u by simp
  ultimately have "\<exists>k \<le> sb_used ?o. sb_tail ?b' = (sb_tail ?o + k) mod sb_len ?o" by blast
  moreover have "sb_wf ?b'" by (rule consumes_contents(1) [OF r(3) c])
  ultimately show ?thesis
    using w same_ring_trans [OF r(1) r'(1)] r'(2,3) unfolding writing_def Let_def by simp
qed

lemma memcpy_in_eq:
  "n \<le> length src \<Longrightarrow> memcpy_in dst src n m = Some (\<lambda>x. if dst \<le> x \<and> x < dst + int n then src ! nat (x - dst) else m x)"
  by (simp add: memcpy_in_def)

text \<open>A copy of \<open>c\<close> bytes, up to the end of the storage at most.\<close>

lemma writing_copy:
  assumes w: "writing a s0 data d s" and w0: "sb_wf (sbufs s0 a)"
    and room: "sb_used (sbufs s0 a) + (d + c) < sb_len (sbufs s0 a)"
    and p: "p = (sb_head (sbufs s0 a) + d) mod sb_len (sbufs s0 a)" "p + c \<le> sb_len (sbufs s0 a)"
    and src: "c \<le> length src" "\<And>i. i < c \<Longrightarrow> src ! i = data ! (d + i)"
  shows "\<exists>m. memcpy_in (pucBuffer (sbufs s a) + int p) src c (sb_bytes s) = Some m \<and> writing a s0 data (d + c) (sb_set_bytes m s)"
proof -
  let ?o = "sbufs s0 a" and ?L = "sb_len (sbufs s0 a)" and ?dst = "pucBuffer (sbufs s a) + int p"
  define m where "m = (\<lambda>x. if ?dst \<le> x \<and> x < ?dst + int c then src ! nat (x - ?dst) else sb_bytes s x)"
  let ?s = "sb_set_bytes m s"
  have r: "sb_len (sbufs s a) = ?L" using w same_ringD(1) by (simp add: writing_def Let_def)
  have cell: "sb_cell a ?s i = (if p \<le> i mod ?L \<and> i mod ?L < p + c then src ! (i mod ?L - p) else sb_cell a s i)" for i
  proof (cases "p \<le> i mod ?L \<and> i mod ?L < p + c")
    case True
    then have "nat (int (i mod ?L) - int p) = i mod ?L - p" by (simp add: nat_diff_distrib' of_nat_diff)
    then show ?thesis using True by (simp add: sb_cell_def m_def r)
  next
    case False
    then show ?thesis by (auto simp: sb_cell_def m_def r)
  qed
  have at: "(sb_head ?o + (d + i)) mod ?L = p + i" if "i < c" for i
  proof -
    have "(sb_head ?o + (d + i)) mod ?L = (p + i) mod ?L" by (simp add: p(1) mod_add_left_eq add.assoc)
    also have "\<dots> = p + i" using that p(2) by simp
    finally show ?thesis .
  qed
  have sep: "\<not> (p \<le> x mod ?L \<and> x mod ?L < p + c)" if x: "x = sb_tail ?o + j" "j < sb_used ?o + d" for x j
  proof
    assume y: "p \<le> x mod ?L \<and> x mod ?L < p + c"
    define i where "i = x mod ?L - p"
    have i: "i < c" "x mod ?L = p + i" using y by (auto simp: i_def)
    have "(sb_tail ?o + j) mod ?L = (sb_head ?o + (d + i)) mod ?L" using at [OF i(1)] i(2) x(1) by simp
    also have "\<dots> = (sb_tail ?o + (sb_used ?o + (d + i))) mod ?L"
      using used_head [OF w0] by (metis mod_add_left_eq add.assoc)
    finally have "j = sb_used ?o + (d + i)" by (rule mod_inj) (use x(2) room i(1) in simp_all)
    then show False using x(2) by simp
  qed
  have old: "sb_cell a ?s (sb_tail ?o + i) = sb_cell a s (sb_tail ?o + i)" if "i < sb_used ?o" for i
    unfolding cell using sep [OF refl, of i] that by (subst if_not_P) simp_all
  have new: "sb_cell a ?s (sb_head ?o + i) = data ! i" if i: "i < d + c" for i
  proof (cases "i < d")
    case True
    have "(sb_tail ?o + (sb_used ?o + i)) mod ?L = (sb_head ?o + i) mod ?L"
      using used_head [OF w0] by (metis mod_add_left_eq add.assoc)
    then have "\<not> (p \<le> (sb_head ?o + i) mod ?L \<and> (sb_head ?o + i) mod ?L < p + c)"
      using sep [OF refl, of "sb_used ?o + i"] True by simp
    then have "sb_cell a ?s (sb_head ?o + i) = sb_cell a s (sb_head ?o + i)" unfolding cell by (rule if_not_P)
    then show ?thesis using w True by (simp add: writing_def Let_def)
  next
    case False
    define j where "j = i - d"
    have j: "i = d + j" "j < c" using False i by (simp_all add: j_def)
    show ?thesis unfolding cell j(1) using at [OF j(2)] j(2) src(2) [OF j(2)] by simp
  qed
  have "memcpy_in ?dst src c (sb_bytes s) = Some m" using memcpy_in_eq [OF src(1)] by (simp add: m_def)
  moreover have "writing a s0 data (d + c) ?s" using w old new unfolding writing_def Let_def by simp
  ultimately show ?thesis by blast
qed

text \<open>The outcome: the data is behind what was there, and the first \<open>k\<close> bytes of all this have been read.\<close>

definition wrote :: "addr \<Rightarrow> u8 list \<Rightarrow> sb_sys \<Rightarrow> sb_sys \<Rightarrow> bool" where
  "wrote a data s s' \<longleftrightarrow> (let b = sbufs s a; b' = sbufs s' a in
     same_ring b b' \<and> sb_wf b' \<and> sb_head b' = (sb_head b + length data) mod sb_len b \<and>
     (\<exists>k \<le> sb_used b + length data. sb_tail b' = (sb_tail b + k) mod sb_len b \<and>
        sb_contents a s' = drop k (sb_contents a s @ data)))"

lemma cell_mod: "i mod sb_len (sbufs s a) = j mod sb_len (sbufs s a) \<Longrightarrow> sb_cell a s i = sb_cell a s j"
  by (simp add: sb_cell_def)

lemma ring_contents:
  assumes b: "sb_wf (sbufs s a)" and r: "same_ring (sbufs s a) (sbufs s' a)"
    and k: "k \<le> sb_used (sbufs s a)" "sb_tail (sbufs s' a) = (sb_tail (sbufs s a) + k) mod sb_len (sbufs s a)"
      "sb_used (sbufs s' a) = sb_used (sbufs s a) - k + length data"
    and old: "\<forall>i < sb_used (sbufs s a). sb_cell a s' (sb_tail (sbufs s a) + i) = sb_cell a s (sb_tail (sbufs s a) + i)"
    and new: "\<forall>i < length data. sb_cell a s' (sb_head (sbufs s a) + i) = data ! i"
  shows "sb_contents a s' = drop k (sb_contents a s @ data)"
proof (rule nth_equalityI)
  let ?b = "sbufs s a" and ?c = "sbufs s' a"
  have at: "sb_cell a s' (sb_tail ?c + i) = sb_cell a s' (sb_tail ?b + (k + i))" for i
    by (rule cell_mod) (simp add: k(2) same_ringD(1) [OF r] mod_add_left_eq add.assoc)
  have late: "sb_cell a s' (sb_tail ?b + (sb_used ?b + i)) = sb_cell a s' (sb_head ?b + i)" for i
  proof -
    have "(sb_tail ?b + (sb_used ?b + i)) mod sb_len ?b = (sb_head ?b + i) mod sb_len ?b"
      using used_head [OF b] by (metis mod_add_left_eq add.assoc)
    then show ?thesis by (intro cell_mod) (simp add: same_ringD(1) [OF r])
  qed
  show "length (sb_contents a s') = length (drop k (sb_contents a s @ data))" using k(1) by (simp add: k(3))
  fix i assume "i < length (sb_contents a s')"
  then have i: "i < sb_used ?b - k + length data" by (simp add: k(3))
  have c: "sb_contents a s' ! i = sb_cell a s' (sb_tail ?b + (k + i))"
    using i by (simp add: sb_contents_def k(3) at)
  have d: "drop k (sb_contents a s @ data) ! i = (sb_contents a s @ data) ! (k + i)"
    by (rule nth_drop) (use k(1) in simp)
  show "sb_contents a s' ! i = drop k (sb_contents a s @ data) ! i"
  proof (cases "k + i < sb_used ?b")
    case True
    then have "(sb_contents a s @ data) ! (k + i) = sb_cell a s (sb_tail ?b + (k + i))"
      by (simp add: nth_append) (simp add: sb_contents_def)
    then show ?thesis using c d old True by simp
  next
    case False
    define j where "j = k + i - sb_used ?b"
    have j: "k + i = sb_used ?b + j" "j < length data" using False i k(1) by (simp_all add: j_def)
    have "(sb_contents a s @ data) ! (k + i) = data ! j" by (simp add: j(1) nth_append)
    then show ?thesis using c d new late j by simp
  qed
qed

lemma wrote_produces:
  assumes w: "wrote a data s s'" and t: "xTail (sbufs s' a) = xTail (sbufs s a)" and b: "sb_wf (sbufs s a)"
    and n: "sb_used (sbufs s a) + length data < sb_len (sbufs s a)"
  shows "produces a s s'" and "sb_contents a s' = sb_contents a s @ data"
proof -
  let ?b = "sbufs s a" and ?c = "sbufs s' a"
  obtain k where k: "k \<le> sb_used ?b + length data" "sb_tail ?c = (sb_tail ?b + k) mod sb_len ?b"
    "sb_contents a s' = drop k (sb_contents a s @ data)" using w unfolding wrote_def Let_def by blast
  have r: "same_ring ?b ?c" "sb_head ?c = (sb_head ?b + length data) mod sb_len ?b"
    using w by (simp_all add: wrote_def Let_def)
  have t': "sb_tail ?c = sb_tail ?b" using t by (simp add: sb_tail_def)
  have "(sb_tail ?b + k) mod sb_len ?b = (sb_tail ?b + 0) mod sb_len ?b" using k(2) t' b by (simp add: sb_wf_def)
  then have "k = 0" by (rule mod_inj) (use k(1) n b in \<open>simp_all add: sb_wf_def\<close>)
  then show c: "sb_contents a s' = sb_contents a s @ data" using k(3) by simp
  have "sb_cell a s' (sb_tail ?b + i) = sb_cell a s (sb_tail ?b + i)" if i: "i < sb_used ?b" for i
  proof -
    have u: "sb_used ?c = sb_used ?b + length data" using arg_cong [OF c, of length] by simp
    have "sb_contents a s' ! i = sb_contents a s ! i" using c i by (simp add: nth_append)
    then show ?thesis using i u by (simp add: sb_contents_def t')
  qed
  then show "produces a s s'" using r n t unfolding produces_def Let_def by blast
qed

lemma drop_behind: "k \<le> length zs \<Longrightarrow> drop k (zs @ ys) = drop k zs @ ys"
  by simp

lemma wrote_trans:
  assumes "wrote a xs s s1" and "wrote a ys s1 s2"
  shows "wrote a (xs @ ys) s s2"
proof -
  let ?b = "sbufs s a" and ?c = "sbufs s1 a" and ?d = "sbufs s2 a"
  obtain k where k: "k \<le> sb_used ?b + length xs" "sb_tail ?c = (sb_tail ?b + k) mod sb_len ?b"
    "sb_contents a s1 = drop k (sb_contents a s @ xs)" using assms(1) unfolding wrote_def Let_def by blast
  obtain k' where k': "k' \<le> sb_used ?c + length ys" "sb_tail ?d = (sb_tail ?c + k') mod sb_len ?c"
    "sb_contents a s2 = drop k' (sb_contents a s1 @ ys)" using assms(2) unfolding wrote_def Let_def by blast
  have r: "same_ring ?b ?c" "same_ring ?c ?d" "sb_head ?c = (sb_head ?b + length xs) mod sb_len ?b"
    "sb_head ?d = (sb_head ?c + length ys) mod sb_len ?c" "sb_wf ?d"
    using assms by (simp_all add: wrote_def Let_def)
  have l: "sb_len ?c = sb_len ?b" by (rule same_ringD(1) [OF r(1)])
  have u: "sb_used ?c = sb_used ?b + length xs - k" using arg_cong [OF k(3), of length] by simp
  have kl: "k \<le> length (sb_contents a s @ xs)" using k(1) by simp
  have "sb_contents a s2 = drop (k + k') (sb_contents a s @ xs @ ys)"
    unfolding k'(3) k(3) drop_behind [of k "sb_contents a s @ xs" ys, symmetric, OF kl] drop_drop by (simp add: add.commute)
  moreover have "sb_tail ?d = (sb_tail ?b + (k + k')) mod sb_len ?b"
    by (simp add: k'(2) k(2) l mod_add_left_eq add.assoc)
  moreover have "k + k' \<le> sb_used ?b + length (xs @ ys)" using k(1) k'(1) u by simp
  moreover have "sb_head ?d = (sb_head ?b + length (xs @ ys)) mod sb_len ?b"
    by (simp add: r(3,4) l mod_add_left_eq add.assoc)
  ultimately show ?thesis using same_ring_trans [OF r(1,2)] r(5) unfolding wrote_def Let_def by blast
qed

lemma wrote_room:
  assumes "wrote a xs s s1" and "sb_used (sbufs s a) + length xs + n < sb_len (sbufs s a)"
  shows "sb_used (sbufs s1 a) + n < sb_len (sbufs s1 a)"
proof -
  obtain k where k: "sb_contents a s1 = drop k (sb_contents a s @ xs)" using assms(1) unfolding wrote_def Let_def by blast
  have "sb_used (sbufs s1 a) = sb_used (sbufs s a) + length xs - k" using arg_cong [OF k, of length] by simp
  moreover have "sb_len (sbufs s1 a) = sb_len (sbufs s a)" using assms(1) same_ringD(1) by (simp add: wrote_def Let_def)
  ultimately show ?thesis using assms(2) by simp
qed

lemma writing_finish:
  assumes w: "writing a s0 data d s" and w0: "sb_wf (sbufs s0 a)" and n: "unat n = d"
    and room: "sb_used (sbufs s0 a) + d < sb_len (sbufs s0 a)" and len: "d \<le> length data"
    and h: "h = (if xHead (sbufs s0 a) + n \<ge> xLength (sbufs s a) then xHead (sbufs s0 a) + n - xLength (sbufs s a)
      else xHead (sbufs s0 a) + n)"
  shows "wrote a (take d data) s0 (upd_sb a (\<lambda>b. b\<lparr>xHead := h\<rparr>) s)"
proof -
  let ?o = "sbufs s0 a" and ?b = "sbufs s a" and ?s = "upd_sb a (\<lambda>b. b\<lparr>xHead := h\<rparr>) s"
  have r: "same_ring ?o ?b" "xHead ?b = xHead ?o" "sb_wf ?b" using w by (simp_all add: writing_def Let_def)
  note l = same_ringD [OF r(1)]
  obtain k where k: "k \<le> sb_used ?o" "sb_tail ?b = (sb_tail ?o + k) mod sb_len ?o"
    using w unfolding writing_def Let_def by blast
  have u: "sb_used ?b = sb_used ?o - k" by (rule used_tail_step(2) [OF w0 r(1,2) k])
  have hh: "unat h = (sb_head ?o + d) mod sb_len ?o"
    unfolding h l(2) using unat_step [of "xHead ?o" "xLength ?o" n] w0 room n by (simp add: sb_wf_def sb_len_def sb_head_def)
  have b: "sbufs ?s a = ?b\<lparr>xHead := h\<rparr>" by simp
  have rr: "same_ring ?b (sbufs ?s a)" by (simp add: same_ring_def)
  have room': "sb_used ?b + d < sb_len ?b" using room u l(1) by simp
  have hb: "sb_head (sbufs ?s a) = (sb_head ?b + d) mod sb_len ?b" using hh r(2) l(1) by (simp add: sb_head_def)
  have xt: "xTail (sbufs ?s a) = xTail ?b" by simp
  note st = used_head_step [OF r(3) rr xt room' hb]
  have cell: "sb_cell a ?s i = sb_cell a s i" for i by (simp add: sb_cell_def sb_len_def)
  have "sb_tail (sbufs ?s a) = sb_tail ?b" by (simp add: sb_tail_def)
  then have t: "sb_tail (sbufs ?s a) = (sb_tail ?o + k) mod sb_len ?o" using k(2) by simp
  have d: "length (take d data) = d" using len by simp
  have c: "sb_contents a ?s = drop k (sb_contents a s0 @ take d data)"
  proof (rule ring_contents [OF w0 same_ring_trans [OF r(1) rr] k(1) t])
    show "sb_used (sbufs ?s a) = sb_used ?o - k + length (take d data)" using st(2) u d by simp
    show "\<forall>i < sb_used ?o. sb_cell a ?s (sb_tail ?o + i) = sb_cell a s0 (sb_tail ?o + i)"
      unfolding cell using w by (simp add: writing_def Let_def)
    show "\<forall>i < length (take d data). sb_cell a ?s (sb_head ?o + i) = take d data ! i"
      unfolding cell d using w by (simp add: writing_def Let_def)
  qed
  have "k \<le> sb_used ?o + length (take d data)" using k(1) by simp
  moreover have "sb_head (sbufs ?s a) = (sb_head ?o + length (take d data)) mod sb_len ?o" using hh d by (simp add: sb_head_def)
  ultimately show ?thesis using st(1) t c same_ring_trans [OF r(1) rr] unfolding wrote_def Let_def by blast
qed

lemma prvWriteBytesToBuffer_spec:
  assumes w: "sb_wf (sbufs s a)" and P: "P s" and rely: "reader_runs P a gaps" and free: "head_free a P"
    and room: "sb_used (sbufs s a) + unat n < sb_len (sbufs s a)" and len: "unat n \<le> length data"
  shows "\<exists>s'. prvWriteBytesToBuffer gaps a data n s = Some (n, s') \<and> P s' \<and> wrote a (take (unat n) data) s s'"
proof -
  let ?b = "sbufs s a"
  define f where "f = min (xLength ?b - xHead ?b) n"
  have hl: "sb_head ?b < sb_len ?b" using w by (simp add: sb_wf_def)
  then have lh: "unat (xLength ?b - xHead ?b) = sb_len ?b - sb_head ?b"
    by (simp add: unat_sub word_le_nat_alt sb_head_def sb_len_def)
  have uf: "unat f = min (sb_len ?b - sb_head ?b) (unat n)"
    unfolding f_def min_def word_le_nat_alt if_distrib [of unat] lh ..
  have fn: "unat f \<le> unat n" using uf by simp
  obtain s1 where s1: "gaps 0 s = Some s1" "consumes a s s1" "P s1"
    using rely w P unfolding reader_runs_def by blast
  have w1: "writing a s data 0 s1" by (rule writing_consumes [OF writing_start [OF w] w s1(2)])
  have "\<exists>m. memcpy_in (pucBuffer (sbufs s1 a) + int (sb_head ?b)) data (unat f) (sb_bytes s1) = Some m \<and>
      writing a s data (0 + unat f) (sb_set_bytes m s1)"
    by (rule writing_copy [OF w1 w]) (use room len uf hl in simp_all)
  then obtain m1 where m1: "memcpy_in (pucBuffer (sbufs s1 a) + int (sb_head ?b)) data (unat f) (sb_bytes s1) = Some m1"
    "writing a s data (unat f) (sb_set_bytes m1 s1)" by auto
  have x1: "sb_wf (sbufs (sb_set_bytes m1 s1) a)" using m1(2) unfolding writing_def Let_def by blast
  have "P (sb_set_bytes m1 s1)" using free s1(3) unfolding head_free_def by blast
  then obtain s2 where s2: "gaps 1 (sb_set_bytes m1 s1) = Some s2" "consumes a (sb_set_bytes m1 s1) s2" "P s2"
    using rely x1 unfolding reader_runs_def by blast
  have w2: "writing a s data (unat f) s2" by (rule writing_consumes [OF m1(2) w s2(2)])
  define copy2 where "copy2 = (if n > f
          then do {
            m \<leftarrow> memcpy_in (pucBuffer (sbufs s2 a)) (drop (unat f) data) (unat (n - f)) (sb_bytes s2);
            Some (sb_set_bytes m s2)
          }
          else Some s2)"
  have "\<exists>s3. copy2 = Some s3 \<and> writing a s data (unat n) s3 \<and> P s3"
  proof (cases "n > f")
    case True
    then have g: "unat f = sb_len ?b - sb_head ?b" "unat (n - f) = unat n - unat f"
      using uf by (simp_all add: word_less_nat_alt word_le_nat_alt unat_sub)
    have p: "0 = (sb_head ?b + unat f) mod sb_len ?b" using g(1) hl by simp
    have "\<exists>m. memcpy_in (pucBuffer (sbufs s2 a) + int 0) (drop (unat f) data) (unat (n - f)) (sb_bytes s2) = Some m \<and>
        writing a s data (unat f + unat (n - f)) (sb_set_bytes m s2)"
      by (rule writing_copy [OF w2 w _ p]) (use room len g fn in simp_all)
    then obtain m where m: "memcpy_in (pucBuffer (sbufs s2 a)) (drop (unat f) data) (unat (n - f)) (sb_bytes s2) = Some m"
      "writing a s data (unat n) (sb_set_bytes m s2)" using g(2) fn by auto
    have "P (sb_set_bytes m s2)" using free s2(3) unfolding head_free_def by blast
    then show ?thesis using m True by (simp add: copy2_def)
  next
    case False
    then have "unat n = unat f" using fn by (simp add: word_less_nat_alt)
    then show ?thesis using False w2 s2(3) by (simp add: copy2_def)
  qed
  then obtain s3 where s3: "copy2 = Some s3" "writing a s data (unat n) s3" "P s3" by blast
  have x3: "sb_wf (sbufs s3 a)" using s3(2) unfolding writing_def Let_def by blast
  obtain s4 where s4: "gaps 2 s3 = Some s4" "consumes a s3 s4" "P s4"
    using rely x3 s3(3) unfolding reader_runs_def by blast
  have w4: "writing a s data (unat n) s4" by (rule writing_consumes [OF s3(2) w s4(2)])
  define h where "h = (if xHead ?b + n \<ge> xLength (sbufs s4 a) then xHead ?b + n - xLength (sbufs s4 a) else xHead ?b + n)"
  have "prvWriteBytesToBuffer gaps a data n s = Some (n, upd_sb a (\<lambda>b. b\<lparr>xHead := h\<rparr>) s4)"
    unfolding prvWriteBytesToBuffer_def Let_def f_def [symmetric] s1(1) Option.bind.bind_lunit
      uint_nat sb_head_def [symmetric] m1(1) s2(1) copy2_def [symmetric] s3(1) s4(1) h_def [symmetric] ..
  moreover have "wrote a (take (unat n) data) s (upd_sb a (\<lambda>b. b\<lparr>xHead := h\<rparr>) s4)"
    by (rule writing_finish [OF w4 w refl room len h_def])
  moreover have "P (upd_sb a (\<lambda>b. b\<lparr>xHead := h\<rparr>) s4)" using free s4(3) unfolding head_free_def by blast
  ultimately show ?thesis by blast
qed

lemma later_runs: "reader_runs P a gaps \<Longrightarrow> reader_runs P a (later n gaps)"
  by (simp add: reader_runs_def later_def)

lemma wrote_nothing: "sb_wf (sbufs s a) \<Longrightarrow> wrote a [] s s"
  unfolding wrote_def Let_def by (auto simp: sb_wf_def intro: exI [of _ 0])

text \<open>What a call puts into the buffer, given the space: of a stream as much as there is room for, a message with its
  length or nothing.\<close>

definition sb_payload :: "bool \<Rightarrow> nat \<Rightarrow> u8 list \<Rightarrow> u8 list" where
  "sb_payload msg space data =
    (if msg then (if length data + 4 \<le> space then le32_bytes (of_nat (length data)) @ data else []) else take space data)"

definition sb_result :: "bool \<Rightarrow> nat \<Rightarrow> u8 list \<Rightarrow> nat" where
  "sb_result msg space data =
    (if msg then (if length data + 4 \<le> space then length data else 0) else min space (length data))"

lemma prvWriteMessageToBuffer_spec:
  assumes w: "sb_wf (sbufs s a)" and P: "P s" and rely: "reader_runs P a gaps" and free: "head_free a P"
    and space: "unat xSpace \<le> sb_len (sbufs s a) - 1 - sb_used (sbufs s a)" and len: "length data = unat n"
    and req: "req = required_space a n s" and wrap: "length data + 4 < 2 ^ 32"
  shows "\<exists>s'. prvWriteMessageToBuffer gaps a data n xSpace req s =
      Some (of_nat (sb_result (is_message_buffer a s) (unat xSpace) data), s') \<and> P s' \<and>
    wrote a (sb_payload (is_message_buffer a s) (unat xSpace) data) s s'"
proof -
  let ?b = "sbufs s a"
  have used: "sb_used ?b < sb_len ?b" by (rule used_less [OF w])
  have n: "n = of_nat (length data)" by (simp add: len)
  show ?thesis
  proof (cases "xSpace = 0")
    case True
    then show ?thesis using wrote_nothing [OF w] P
      by (simp add: prvWriteMessageToBuffer_def sb_result_def sb_payload_def)
  next
    case nz: False
    show ?thesis
    proof (cases "is_message_buffer a s")
      case False
      let ?n = "min n xSpace"
      have un: "unat ?n = min (length data) (unat xSpace)"
        unfolding min_def word_le_nat_alt if_distrib [of unat] len ..
      have "\<exists>s'. prvWriteBytesToBuffer (later 3 gaps) a data ?n s = Some (?n, s') \<and> P s' \<and> wrote a (take (unat ?n) data) s s'"
        by (rule prvWriteBytesToBuffer_spec [OF w P later_runs [OF rely] free]) (use un space used in auto)
      moreover have "take (unat ?n) data = sb_payload False (unat xSpace) data" unfolding un sb_payload_def by (simp add: min_def)
      moreover have "?n = of_nat (sb_result False (unat xSpace) data)"
      proof -
        have "?n = of_nat (unat ?n)" by simp
        then show ?thesis unfolding un by (simp add: sb_result_def min.commute)
      qed
      ultimately show ?thesis using nz False by (simp add: prvWriteMessageToBuffer_def)
    next
      case True
      have r: "req = n + 4" using req True by (simp add: required_space_def length_bytes_def)
      have ur: "unat req = length data + 4" using wrap unfolding r len
        by (subst unat_add_lem [THEN iffD1]) simp_all
      show ?thesis
      proof (cases "length data + 4 \<le> unat xSpace")
        case False
        then have "\<not> xSpace \<ge> req" using ur by (simp add: word_le_nat_alt)
        then show ?thesis using nz True False wrote_nothing [OF w] P
          by (simp add: prvWriteMessageToBuffer_def sb_result_def sb_payload_def)
      next
        case fits: True
        then have ge: "xSpace \<ge> req" using ur by (simp add: word_le_nat_alt)
        have "\<exists>s1. prvWriteBytesToBuffer gaps a (le32_bytes n) 4 s = Some (4, s1) \<and> P s1 \<and> wrote a (take (unat (4::u32)) (le32_bytes n)) s s1"
          by (rule prvWriteBytesToBuffer_spec [OF w P rely free]) (use fits space used in auto)
        then obtain s1 where s1: "prvWriteBytesToBuffer gaps a (le32_bytes n) 4 s = Some (4, s1)" "P s1" "wrote a (le32_bytes n) s s1"
          by auto
        have w1: "sb_wf (sbufs s1 a)" using s1(3) by (simp add: wrote_def Let_def)
        have "sb_used (sbufs s1 a) + length data < sb_len (sbufs s1 a)"
          by (rule wrote_room [OF s1(3)]) (use fits space used in simp)
        then have "\<exists>s2. prvWriteBytesToBuffer (later 3 gaps) a data n s1 = Some (n, s2) \<and> P s2 \<and> wrote a (take (unat n) data) s1 s2"
          by (intro prvWriteBytesToBuffer_spec [OF w1 s1(2) later_runs [OF rely] free]) (simp_all add: len)
        then obtain s2 where s2: "prvWriteBytesToBuffer (later 3 gaps) a data n s1 = Some (n, s2)" "P s2" "wrote a data s1 s2"
          using len by auto
        have "prvWriteMessageToBuffer gaps a data n xSpace req s = Some (n, s2)"
          using nz True ge s1(1) s2(1) by (simp add: prvWriteMessageToBuffer_def)
        moreover have "wrote a (le32_bytes n @ data) s s2" by (rule wrote_trans [OF s1(3) s2(3)])
        ultimately show ?thesis using s2(2) True fits n by (simp add: sb_result_def sb_payload_def)
      qed
    qed
  qed
qed

section \<open>The reader, with a writer in between\<close>

lemma contents_nth: "i < sb_used (sbufs s a) \<Longrightarrow> sb_contents a s ! i = sb_cell a s (sb_tail (sbufs s a) + i)"
  by (simp add: sb_contents_def)

lemma copy_out:
  assumes "p = (sb_tail (sbufs s a) + d) mod sb_len (sbufs s a)" and "p + c \<le> sb_len (sbufs s a)"
    and "d + c \<le> sb_used (sbufs s a)"
  shows "memcpy_out (pucBuffer (sbufs s a) + int p) c (sb_bytes s) = take c (drop d (sb_contents a s))"
proof (rule nth_equalityI)
  show "length (memcpy_out (pucBuffer (sbufs s a) + int p) c (sb_bytes s)) = length (take c (drop d (sb_contents a s)))"
    using assms(3) by (simp add: memcpy_out_def)
  fix i assume "i < length (memcpy_out (pucBuffer (sbufs s a) + int p) c (sb_bytes s))"
  then have i: "i < c" by (simp add: memcpy_out_def)
  have "(sb_tail (sbufs s a) + (d + i)) mod sb_len (sbufs s a) = (p + i) mod sb_len (sbufs s a)"
    by (simp add: assms(1) mod_add_left_eq add.assoc)
  also have "\<dots> = p + i" using i assms(2) by simp
  finally have "sb_cell a s (sb_tail (sbufs s a) + (d + i)) = sb_bytes s (pucBuffer (sbufs s a) + int p + int i)"
    by (simp add: sb_cell_def add.assoc)
  then show "memcpy_out (pucBuffer (sbufs s a) + int p) c (sb_bytes s) ! i = take c (drop d (sb_contents a s)) ! i"
    using i assms(3) contents_nth [of "d + i" s a] by (simp add: memcpy_out_def)
qed

lemma tail_move:
  assumes w: "sb_wf (sbufs s a)" and k: "k \<le> sb_used (sbufs s a)" "unat t = (sb_tail (sbufs s a) + k) mod sb_len (sbufs s a)"
  shows "consumes a s (upd_sb a (\<lambda>b. b\<lparr>xTail := t\<rparr>) s)"
    and "sb_contents a (upd_sb a (\<lambda>b. b\<lparr>xTail := t\<rparr>) s) = drop k (sb_contents a s)"
    and "sb_wf (sbufs (upd_sb a (\<lambda>b. b\<lparr>xTail := t\<rparr>) s) a)"
proof -
  let ?s = "upd_sb a (\<lambda>b. b\<lparr>xTail := t\<rparr>) s" and ?b = "sbufs s a"
  have r: "same_ring ?b (sbufs ?s a)" "xHead (sbufs ?s a) = xHead ?b" by (simp_all add: same_ring_def)
  have t: "sb_tail (sbufs ?s a) = (sb_tail ?b + k) mod sb_len ?b" using k(2) by (simp add: sb_tail_def)
  have cell: "sb_cell a ?s i = sb_cell a s i" for i by (simp add: sb_cell_def sb_len_def)
  show "consumes a s ?s" unfolding consumes_def Let_def using r k(1) t cell by blast
  show "sb_wf (sbufs ?s a)" by (rule used_tail_step(1) [OF w r k(1) t])
  have "sb_contents a ?s = drop k (sb_contents a s @ [])"
    by (rule ring_contents [OF w r(1) k(1) t]) (use used_tail_step(2) [OF w r k(1) t] cell in simp_all)
  then show "sb_contents a ?s = drop k (sb_contents a s)" by simp
qed

text \<open>The outcome: \<open>k\<close> bytes have been taken, and others may have come.\<close>

definition took :: "addr \<Rightarrow> nat \<Rightarrow> sb_sys \<Rightarrow> sb_sys \<Rightarrow> bool" where
  "took a k s s' \<longleftrightarrow> sb_wf (sbufs s' a) \<and> same_ring (sbufs s a) (sbufs s' a) \<and>
     sb_tail (sbufs s' a) = (sb_tail (sbufs s a) + k) mod sb_len (sbufs s a) \<and>
     (\<exists>ys. sb_contents a s' = drop k (sb_contents a s) @ ys)"

lemma produces_took:
  assumes "sb_wf (sbufs s a)" and "produces a s s'"
  shows "took a 0 s s'"
proof -
  have "same_ring (sbufs s a) (sbufs s' a)" "xTail (sbufs s' a) = xTail (sbufs s a)"
    using assms(2) by (simp_all add: produces_def Let_def)
  then show ?thesis using produces_contents [OF assms] assms(1) by (simp add: took_def sb_tail_def sb_wf_def)
qed

lemma took_trans:
  assumes t: "took a k s s1" "took a k' s1 s2" and k: "k \<le> sb_used (sbufs s a)" "k' \<le> sb_used (sbufs s1 a)"
  shows "took a (k + k') s s2"
proof -
  obtain ys where ys: "sb_contents a s1 = drop k (sb_contents a s) @ ys" using t(1) unfolding took_def by blast
  obtain zs where zs: "sb_contents a s2 = drop k' (sb_contents a s1) @ zs" using t(2) unfolding took_def by blast
  have r: "same_ring (sbufs s a) (sbufs s1 a)" "same_ring (sbufs s1 a) (sbufs s2 a)" using t by (simp_all add: took_def)
  have "drop k' (drop k (sb_contents a s)) = drop (k + k') (sb_contents a s)" unfolding drop_drop by (simp only: add.commute)
  then have "\<exists>us. sb_contents a s2 = drop (k + k') (sb_contents a s) @ us"
    unfolding zs ys drop_append by auto
  moreover have "sb_tail (sbufs s2 a) = (sb_tail (sbufs s a) + (k + k')) mod sb_len (sbufs s a)"
    using t same_ringD(1) [OF r(1)] by (simp add: took_def mod_add_left_eq add.assoc)
  ultimately show ?thesis using same_ring_trans [OF r] t(2) by (simp add: took_def)
qed

lemma took_used:
  assumes "took a 0 s s'"
  shows "sb_used (sbufs s a) \<le> sb_used (sbufs s' a)" and "take (sb_used (sbufs s a)) (sb_contents a s') = sb_contents a s"
proof -
  obtain ys where ys: "sb_contents a s' = sb_contents a s @ ys" using assms by (auto simp: took_def)
  have "length (sb_contents a s') = length (sb_contents a s @ ys)" by (rule arg_cong [OF ys])
  then show "sb_used (sbufs s a) \<le> sb_used (sbufs s' a)" unfolding length_append length_contents by simp
  show "take (sb_used (sbufs s a)) (sb_contents a s') = sb_contents a s" unfolding ys by simp
qed

lemma writer_gap:
  assumes "writer_runs P a gaps" and "sb_wf (sbufs s a)" and "P s"
  shows "\<exists>s'. gaps n s = Some s' \<and> took a 0 s s' \<and> P s' \<and> sb_wf (sbufs s' a)"
  using assms produces_took produces_contents(1) unfolding writer_runs_def by blast

lemma prvReadBytesFromBuffer_spec:
  assumes w: "sb_wf (sbufs s a)" and P: "P s" and rely: "writer_runs P a gaps" and free: "tail_free a P"
    and av: "unat av \<le> sb_used (sbufs s a)" and n: "n = min av mx"
  shows "\<exists>s'. prvReadBytesFromBuffer gaps a mx av s = Some (take (unat n) (sb_contents a s), n, s') \<and> P s' \<and>
    took a (unat n) s s'"
proof (cases "n > 0")
  case False
  then have "n = 0" by (simp add: word_less_nat_alt unat_eq_zero)
  then show ?thesis using n P w by (simp add: prvReadBytesFromBuffer_def took_def sb_wf_def)
next
  case pos: True
  let ?b = "sbufs s a"
  define f where "f = min (xLength ?b - xTail ?b) n"
  have hl: "sb_tail ?b < sb_len ?b" using w by (simp add: sb_wf_def)
  then have lh: "unat (xLength ?b - xTail ?b) = sb_len ?b - sb_tail ?b"
    by (simp add: unat_sub word_le_nat_alt sb_tail_def sb_len_def)
  have uf: "unat f = min (sb_len ?b - sb_tail ?b) (unat n)"
    unfolding f_def min_def word_le_nat_alt if_distrib [of unat] lh ..
  have fn: "unat f \<le> unat n" using uf by simp
  have "unat n \<le> unat av" by (simp add: n min_def word_le_nat_alt)
  then have nu: "unat n \<le> sb_used ?b" using av by simp
  obtain s1 where s1: "gaps 0 s = Some s1" "took a 0 s s1" "P s1" "sb_wf (sbufs s1 a)" using writer_gap [OF rely w P] by blast
  obtain s2 where s2: "gaps 1 s1 = Some s2" "took a 0 s1 s2" "P s2" "sb_wf (sbufs s2 a)" using writer_gap [OF rely s1(4,3)] by blast
  obtain s3 where s3: "gaps 2 s2 = Some s3" "took a 0 s2 s3" "P s3" "sb_wf (sbufs s3 a)" using writer_gap [OF rely s2(4,3)] by blast
  have t02: "took a 0 s s2" using took_trans [OF s1(2) s2(2)] by simp
  have t03: "took a 0 s s3" using took_trans [OF t02 s3(2)] by simp
  have l: "sb_len (sbufs u a) = sb_len ?b" "xLength (sbufs u a) = xLength ?b" "sb_tail (sbufs u a) = sb_tail ?b"
    if "took a 0 s u" for u using that same_ringD w by (auto simp: took_def sb_wf_def)
  have xs: "memcpy_out (pucBuffer (sbufs s1 a) + int (sb_tail ?b)) (unat f) (sb_bytes s1) = take (unat f) (sb_contents a s)"
  proof -
    have "memcpy_out (pucBuffer (sbufs s1 a) + int (sb_tail ?b)) (unat f) (sb_bytes s1) = take (unat f) (drop 0 (sb_contents a s1))"
      by (rule copy_out) (use l [OF s1(2)] uf hl took_used(1) [OF s1(2)] nu fn in auto)
    also have "\<dots> = take (unat f) (take (sb_used ?b) (sb_contents a s1))" using fn nu by (simp add: min_absorb1)
    finally show ?thesis unfolding took_used(2) [OF s1(2)] .
  qed
  define ys where "ys = (if n > f then memcpy_out (pucBuffer (sbufs s2 a)) (unat (n - f)) (sb_bytes s2) else [])"
  have ys: "ys = drop (unat f) (take (unat n) (sb_contents a s))"
  proof (cases "n > f")
    case True
    then have g: "unat f = sb_len ?b - sb_tail ?b" "unat (n - f) = unat n - unat f"
      using uf by (simp_all add: word_less_nat_alt word_le_nat_alt unat_sub)
    have "memcpy_out (pucBuffer (sbufs s2 a) + int 0) (unat (n - f)) (sb_bytes s2) = take (unat (n - f)) (drop (unat f) (sb_contents a s2))"
      by (rule copy_out) (use l [OF t02] g fn hl took_used(1) [OF t02] nu used_less [OF w] in auto)
    also have "\<dots> = drop (unat f) (take (unat n) (sb_contents a s2))" using g(2) fn by (simp add: take_drop)
    also have "\<dots> = drop (unat f) (take (unat n) (take (sb_used ?b) (sb_contents a s2)))" using nu by (simp add: min_absorb1)
    finally show ?thesis using True unfolding took_used(2) [OF t02] by (simp add: ys_def)
  next
    case False
    then have "unat n = unat f" using fn by (simp add: word_less_nat_alt)
    then show ?thesis using False by (simp add: ys_def)
  qed
  define t where "t = (if xTail ?b + n \<ge> xLength (sbufs s3 a) then xTail ?b + n - xLength (sbufs s3 a) else xTail ?b + n)"
  have ut: "unat t = (sb_tail (sbufs s3 a) + unat n) mod sb_len (sbufs s3 a)"
    unfolding t_def l [OF t03] using unat_step [of "xTail ?b" "xLength ?b" n] w nu used_less [OF w]
    by (simp add: sb_wf_def sb_len_def sb_tail_def)
  let ?s = "upd_sb a (\<lambda>b. b\<lparr>xTail := t\<rparr>) s3"
  have nu3: "unat n \<le> sb_used (sbufs s3 a)" using nu took_used(1) [OF t03] by simp
  note m = tail_move [OF s3(4) nu3 ut]
  have sr: "same_ring (sbufs s3 a) (sbufs ?s a)" by (simp add: same_ring_def)
  have tl: "sb_tail (sbufs ?s a) = (sb_tail (sbufs s3 a) + unat n) mod sb_len (sbufs s3 a)" using ut by (simp add: sb_tail_def)
  have "took a (unat n) s3 ?s" using m(2,3) sr tl unfolding took_def by simp
  then have "took a (0 + unat n) s ?s" by (rule took_trans [OF t03]) (use nu3 in simp_all)
  moreover have "prvReadBytesFromBuffer gaps a mx av s = Some (take (unat f) (sb_contents a s) @ ys, n, ?s)"
    unfolding prvReadBytesFromBuffer_def Let_def n [symmetric] if_P [OF pos] f_def [symmetric] s1(1) Option.bind.bind_lunit
      uint_nat sb_tail_def [symmetric] xs s2(1) ys_def [symmetric] s3(1) t_def [symmetric] ..
  moreover have "take (unat f) (sb_contents a s) @ ys = take (unat n) (sb_contents a s)"
    unfolding ys using fn by (metis append_take_drop_id min_absorb1 take_take)
  moreover have "P ?s" using free s3(3) unfolding tail_free_def by blast
  ultimately show ?thesis by auto
qed

lemma later_writer: "writer_runs P a gaps \<Longrightarrow> writer_runs P a (later n gaps)"
  by (simp add: writer_runs_def later_def)

definition sb_frame :: "u8 list \<Rightarrow> u8 list" where
  "sb_frame m = le32_bytes (of_nat (length m)) @ m"

lemma min_unat: "unat (min x y :: u32) = min (unat x) (unat y)"
  unfolding min_def word_le_nat_alt if_distrib [of unat] ..

lemma read_stream:
  assumes w: "sb_wf (sbufs s a)" and P: "P s" and rely: "writer_runs P a gaps" and free: "tail_free a P"
    and av: "unat av = sb_used (sbufs s a)"
  shows "\<exists>s'. prvReadMessageFromBuffer gaps a mx av 0 s = Some (take (unat mx) (sb_contents a s), min av mx, s') \<and> P s' \<and>
    took a (min (unat mx) (sb_used (sbufs s a))) s s'"
proof -
  have "\<exists>s'. prvReadBytesFromBuffer (later 4 gaps) a mx av s = Some (take (unat (min av mx)) (sb_contents a s), min av mx, s') \<and> P s' \<and>
    took a (unat (min av mx)) s s'"
    by (rule prvReadBytesFromBuffer_spec [OF w P later_writer [OF rely] free]) (simp_all add: av)
  moreover have "take (unat (min av mx)) (sb_contents a s) = take (unat mx) (sb_contents a s)"
    unfolding min_unat av by (simp add: min_def)
  moreover have "unat (min av mx) = min (unat mx) (sb_used (sbufs s a))" unfolding min_unat av by (simp add: min.commute)
  ultimately show ?thesis by (simp add: prvReadMessageFromBuffer_def)
qed

lemma read_message:
  assumes w: "sb_wf (sbufs s a)" and P: "P s" and rely: "writer_runs P a gaps" and free: "tail_free a P"
    and av: "unat av = sb_used (sbufs s a)" and c: "sb_contents a s = sb_frame m @ r" and fits: "length m \<le> unat mx"
  shows "\<exists>s'. prvReadMessageFromBuffer gaps a mx av 4 s = Some (m, of_nat (length m), s') \<and> P s' \<and>
    took a (4 + length m) s s'"
proof -
  let ?n = "of_nat (length m) :: u32"
  have lm: "length m < 2 ^ 32" using le_less_trans [OF fits unat_lt_u32] by simp
  then have un: "unat ?n = length m" by (simp add: unat_of_nat)
  have used: "sb_used (sbufs s a) = 4 + length m + length r" using arg_cong [OF c, of length] by (simp add: sb_frame_def)
  have m4: "min av 4 = (4 :: u32)" by (rule min_absorb2) (simp add: word_le_nat_alt av used)
  have "\<exists>s1. prvReadBytesFromBuffer gaps a 4 av s = Some (take (unat (4 :: u32)) (sb_contents a s), 4, s1) \<and> P s1 \<and>
    took a (unat (4 :: u32)) s s1"
    by (rule prvReadBytesFromBuffer_spec [OF w P rely free]) (simp_all add: av m4)
  then obtain s1 where s1: "prvReadBytesFromBuffer gaps a 4 av s = Some (le32_bytes ?n, 4, s1)" "P s1" "took a 4 s s1"
    by (auto simp: c sb_frame_def)
  have w1: "sb_wf (sbufs s1 a)" using s1(3) by (simp add: took_def)
  obtain s2 where s2: "gaps 3 s1 = Some s2" "took a 0 s1 s2" "P s2" "sb_wf (sbufs s2 a)" using writer_gap [OF rely w1 s1(2)] by blast
  have t2: "took a 4 s s2" using took_trans [OF s1(3) s2(2)] used by simp
  then obtain ys where ys: "sb_contents a s2 = m @ r @ ys" by (auto simp: took_def c sb_frame_def)
  have used2: "sb_used (sbufs s2 a) = length m + length r + length ys" using arg_cong [OF ys, of length] by simp
  have uav: "unat (av - 4) = length m + length r" using av used by (simp add: unat_sub word_le_nat_alt)
  have mn: "min (av - 4) ?n = ?n" by (rule min_absorb2) (simp add: word_le_nat_alt uav un)
  have "\<exists>s3. prvReadBytesFromBuffer (later 4 gaps) a ?n (av - 4) s2 = Some (take (unat ?n) (sb_contents a s2), ?n, s3) \<and> P s3 \<and>
    took a (unat ?n) s2 s3"
    by (rule prvReadBytesFromBuffer_spec [OF s2(4,3) later_writer [OF rely] free]) (simp_all add: uav used2 mn)
  then obtain s3 where s3: "prvReadBytesFromBuffer (later 4 gaps) a ?n (av - 4) s2 = Some (m, ?n, s3)" "P s3" "took a (length m) s2 s3"
    by (auto simp: un ys)
  have le: "\<not> ?n > mx" using fits un by (simp add: word_less_nat_alt)
  have "prvReadMessageFromBuffer gaps a mx av 4 s = Some (m, ?n, s3)"
    unfolding prvReadMessageFromBuffer_def using s1(1) s2(1) s3(1) le by (simp add: Let_def le32_le32_bytes)
  moreover have "took a (4 + length m) s s3" by (rule took_trans [OF t2 s3(3)]) (simp_all add: used used2)
  ultimately show ?thesis using s3(2) by blast
qed

lemma quiet_writer: "writer_runs P a alone"
  using produces_refl unfolding writer_runs_def alone_def by blast

lemma quiet_reader: "reader_runs P a alone"
  using consumes_refl unfolding reader_runs_def alone_def by blast

text \<open>A message longer than the receiver's buffer stays, if the writer is quiet.\<close>

lemma read_too_long:
  assumes w: "sb_wf (sbufs s a)" and av: "unat av = sb_used (sbufs s a)" and c: "sb_contents a s = sb_frame m @ r"
    and lm: "length m < 2 ^ 32" and long: "length m > unat mx"
  shows "prvReadMessageFromBuffer alone a mx av 4 s = Some ([], 0, s)"
proof -
  let ?n = "of_nat (length m) :: u32" and ?P = "\<lambda>u. \<exists>t. u = upd_sb a (\<lambda>b. b\<lparr>xTail := t\<rparr>) s"
  have un: "unat ?n = length m" using lm by (simp add: unat_of_nat)
  have used: "sb_used (sbufs s a) = 4 + length m + length r" using arg_cong [OF c, of length] by (simp add: sb_frame_def)
  have m4: "min av 4 = (4 :: u32)" by (rule min_absorb2) (simp add: word_le_nat_alt av used)
  have quiet: "writer_runs ?P a alone" by (rule quiet_writer)
  have "\<exists>s1. prvReadBytesFromBuffer alone a 4 av s = Some (take (unat (4 :: u32)) (sb_contents a s), 4, s1) \<and> ?P s1 \<and>
    took a (unat (4 :: u32)) s s1"
  proof (rule prvReadBytesFromBuffer_spec [OF w _ quiet])
    show "\<exists>t. s = upd_sb a (\<lambda>b. b\<lparr>xTail := t\<rparr>) s" by (rule exI [of _ "xTail (sbufs s a)"]) simp
    show "tail_free a ?P" by (auto simp: tail_free_def)
  qed (simp_all add: av m4)
  then obtain t where s1: "prvReadBytesFromBuffer alone a 4 av s = Some (le32_bytes ?n, 4, upd_sb a (\<lambda>b. b\<lparr>xTail := t\<rparr>) s)"
    by (auto simp: c sb_frame_def)
  have gt: "?n > mx" using long un by (simp add: word_less_nat_alt)
  show ?thesis unfolding prvReadMessageFromBuffer_def
    using s1 gt by (simp add: Let_def le32_le32_bytes alone_def prvReadBytesFromBuffer_def)
qed

section \<open>The calls\<close>

text \<open>A task that waits for the other party and has not been notified sleeps.\<close>

definition party_ok :: "addr \<Rightarrow> sched \<Rightarrow> bool" where
  "party_ok t k \<longleftrightarrow> (t \<noteq> NULL \<and> ucNotifyState (tcbs k t) = taskWAITING_NOTIFICATION \<longrightarrow> sleeps t k)"

definition sb_calm :: "addr \<Rightarrow> addr \<Rightarrow> sb_sys \<Rightarrow> bool" where
  "sb_calm i a s \<longleftrightarrow> kernel_ok i (sb_kern s) \<and> party_ok (xTaskWaitingToReceive (sbufs s a)) (sb_kern s) \<and>
     party_ok (xTaskWaitingToSend (sbufs s a)) (sb_kern s)"

lemma calm_free: "head_free a (sb_calm i a)" "tail_free a (sb_calm i a)"
  by (simp_all add: head_free_def tail_free_def sb_calm_def)

text \<open>Neither macro touches the ring.\<close>

definition ring_kept :: "addr \<Rightarrow> sb_sys \<Rightarrow> sb_sys \<Rightarrow> bool" where
  "ring_kept a s s' \<longleftrightarrow> same_ring (sbufs s a) (sbufs s' a) \<and> xHead (sbufs s' a) = xHead (sbufs s a) \<and>
     xTail (sbufs s' a) = xTail (sbufs s a) \<and> sb_bytes s' = sb_bytes s"

lemma ring_keptD:
  assumes "ring_kept a s s'"
  shows "sb_wf (sbufs s' a) = sb_wf (sbufs s a)" "sb_used (sbufs s' a) = sb_used (sbufs s a)"
    "sb_contents a s' = sb_contents a s" "is_message_buffer a s' = is_message_buffer a s" "sb_cell a s' = sb_cell a s"
    "sb_head (sbufs s' a) = sb_head (sbufs s a)" "sb_tail (sbufs s' a) = sb_tail (sbufs s a)" "sb_len (sbufs s' a) = sb_len (sbufs s a)"
proof -
  note r = assms [unfolded ring_kept_def]
  show l: "sb_len (sbufs s' a) = sb_len (sbufs s a)" using r same_ringD(1) by blast
  show h: "sb_head (sbufs s' a) = sb_head (sbufs s a)" and t: "sb_tail (sbufs s' a) = sb_tail (sbufs s a)"
    using r by (simp_all add: sb_head_def sb_tail_def)
  show "sb_wf (sbufs s' a) = sb_wf (sbufs s a)" by (simp add: sb_wf_def l h t)
  show u: "sb_used (sbufs s' a) = sb_used (sbufs s a)" by (simp add: sb_used_def l h t)
  show c: "sb_cell a s' = sb_cell a s" using r same_ringD(3) by (auto simp: sb_cell_def l fun_eq_iff)
  show "sb_contents a s' = sb_contents a s" by (simp add: sb_contents_def u c t)
  show "is_message_buffer a s' = is_message_buffer a s" using r same_ringD(4) unfolding is_message_buffer_def by metis
qed

lemma ring_kept_wrote:
  assumes w: "wrote a xs s s1" and r: "ring_kept a s1 s2"
  shows "wrote a xs s s2"
proof -
  have "same_ring (sbufs s a) (sbufs s2 a)"
    by (rule same_ring_trans) (use w r in \<open>auto simp: wrote_def ring_kept_def Let_def\<close>)
  then show ?thesis using w unfolding wrote_def Let_def ring_keptD [OF r] by blast
qed

lemma ring_kept_took:
  assumes w: "took a k s s1" and r: "ring_kept a s1 s2"
  shows "took a k s s2"
proof -
  have "same_ring (sbufs s a) (sbufs s2 a)"
    by (rule same_ring_trans) (use w r in \<open>auto simp: took_def ring_kept_def\<close>)
  then show ?thesis using w unfolding took_def ring_keptD [OF r] by blast
qed

lemma ring_kept_refl [simp]: "ring_kept a s s" by (simp add: ring_kept_def)

lemma ring_kept_waiting [simp]:
  "ring_kept a s ((sb_set_kern k s)\<lparr>sbufs := (sbufs s)(a := (sbufs s a)\<lparr>xTaskWaitingToReceive := t\<rparr>)\<rparr>)"
  "ring_kept a s ((sb_set_kern k s)\<lparr>sbufs := (sbufs s)(a := (sbufs s a)\<lparr>xTaskWaitingToSend := t\<rparr>)\<rparr>)"
  "ring_kept a s (sb_set_kern k s)"
  by (simp_all add: ring_kept_def same_ring_def)

text \<open>What a notification of the waiting party does: the task, if it sleeps, becomes ready.\<close>

definition woke :: "addr \<Rightarrow> sched \<Rightarrow> sched \<Rightarrow> bool" where
  "woke t k k' \<longleftrightarrow> (t \<noteq> NULL \<and> ucNotifyState (tcbs k t) = taskWAITING_NOTIFICATION \<and> uxSchedulerSuspended k = 0 \<and>
      uxCurrentNumberOfTasks k > 0 \<longrightarrow> stContainer (tcbs k' t) = Some (Ready (prio k t)))"

lemma notify_keeps:
  assumes "xTaskGenericNotify t v a k = Some (r, x, k')"
  shows "uxSchedulerSuspended k' = uxSchedulerSuspended k" "uxCurrentNumberOfTasks k' = uxCurrentNumberOfTasks k"
proof -
  have rm: "uxSchedulerSuspended k2 = uxSchedulerSuspended k1" "uxCurrentNumberOfTasks k2 = uxCurrentNumberOfTasks k1"
    if "st_remove t k1 = Some (n, k2)" for k1 k2 n using that by (auto simp: st_remove_def Let_def split: option.splits)
  have ad: "uxSchedulerSuspended (prvAddTaskToReadyList t k1) = uxSchedulerSuspended k1"
    "uxCurrentNumberOfTasks (prvAddTaskToReadyList t k1) = uxCurrentNumberOfTasks k1" for k1
    by (simp_all add: prvAddTaskToReadyList_def st_insert_end_def Let_def)
  define k1 where "k1 = notify_set t (snd (notify_value a v (ucNotifyState (tcbs k t)) (ulNotifiedValue (tcbs k t)))) k"
  have f: "uxSchedulerSuspended k1 = uxSchedulerSuspended k" "uxCurrentNumberOfTasks k1 = uxCurrentNumberOfTasks k"
    by (simp_all add: k1_def notify_set_def)
  consider "k' = k1" | n k2 where "st_remove t k1 = Some (n, k2)"
      "k' = prvAddTaskToReadyList t k2 \<or> k' = portYIELD (prvAddTaskToReadyList t k2)"
    using assms unfolding xTaskGenericNotify_def Let_def case_prod_beta' k1_def [symmetric]
    by (auto simp: bind_eq_Some_conv split: if_splits)
  then show "uxSchedulerSuspended k' = uxSchedulerSuspended k" "uxCurrentNumberOfTasks k' = uxCurrentNumberOfTasks k"
    using f rm ad by (cases; auto simp: portYIELD_def)+
qed

lemma suspended_notify:
  assumes k: "kernel_ok i k" and t: "t \<noteq> NULL" and p: "party_ok t k"
  shows "\<exists>r v k1 y k2. xTaskGenericNotify t 0 eNoAction (vTaskSuspendAll k) = Some (r, v, k1) \<and>
    xTaskResumeAll k1 = Some (y, k2) \<and> kernel_ok i k2 \<and> woke t k k2"
proof -
  let ?k = "vTaskSuspendAll k"
  have f: "kernel_ok i ?k" "tcbs ?k = tcbs k" "pxCurrentTCB ?k = pxCurrentTCB k" using k by (simp_all add: vTaskSuspendAll_def)
  have nv: "notify_value eNoAction 0 (ucNotifyState (tcbs ?k t)) (ulNotifiedValue (tcbs ?k t)) = (True, ulNotifiedValue (tcbs ?k t))"
    by (simp add: notify_value_def)
  have "ucNotifyState (tcbs ?k t) = taskWAITING_NOTIFICATION \<Longrightarrow> sleeps t ?k" using p t f(2) by (simp add: party_ok_def sleeps_def)
  from xTaskGenericNotify_spec [OF f(1) this nv]
  obtain k1 where k1: "xTaskGenericNotify t 0 eNoAction ?k = Some (True, ulNotifiedValue (tcbs ?k t), k1)" "kernel_ok i k1"
    "tcbs k1 t = (tcbs ?k t)\<lparr>ulNotifiedValue := ulNotifiedValue (tcbs ?k t), ucNotifyState := taskNOTIFICATION_RECEIVED,
      stContainer := (if ucNotifyState (tcbs ?k t) = taskWAITING_NOTIFICATION then Some (Ready (prio ?k t)) else stContainer (tcbs ?k t))\<rparr>"
    by blast
  obtain y k2 where k2: "xTaskResumeAll k1 = Some (y, k2)" "kernel_ok i k2" using resume_kernel [OF k1(2)] by blast
  have "woke t k k2" unfolding woke_def
  proof
    assume a: "t \<noteq> NULL \<and> ucNotifyState (tcbs k t) = taskWAITING_NOTIFICATION \<and> uxSchedulerSuspended k = 0 \<and>
      uxCurrentNumberOfTasks k > 0"
    then have r: "stContainer (tcbs k1 t) = Some (Ready (prio k t))" "evContainer (tcbs k1 t) = None"
      using k1(3) f(2) p by (simp_all add: party_ok_def sleeps_def)
    have n: "uxSchedulerSuspended k1 = 1" "uxCurrentNumberOfTasks k1 > 0"
      using notify_keeps [OF k1(1)] a by (simp_all add: vTaskSuspendAll_def)
    have "\<not> pending k1 t" "remaining k1 t = None"
      using r remaining_not_delayed [OF kernel_invD(1) [OF k1(2)]] by (simp_all add: pending_def)
    then have "tcbs k2 t = tcbs k1 t" using xTaskResumeAll_spec [OF k1(2) n] k2(1) by auto
    then show "stContainer (tcbs k2 t) = Some (Ready (prio k t))" using r by simp
  qed
  then show ?thesis using k1(1) k2 by blast
qed

lemma sbSEND_COMPLETED_spec:
  assumes c: "sb_calm i a s"
  shows "\<exists>s'. sbSEND_COMPLETED a s = Some s' \<and> kernel_ok i (sb_kern s') \<and> ring_kept a s s' \<and>
    xTaskWaitingToReceive (sbufs s' a) = NULL \<and> woke (xTaskWaitingToReceive (sbufs s a)) (sb_kern s) (sb_kern s')"
proof (cases "xTaskWaitingToReceive (sbufs s a) = NULL")
  case True
  have "kernel_ok i (vTaskSuspendAll (sb_kern s))" using c by (simp add: sb_calm_def vTaskSuspendAll_def)
  from resume_kernel [OF this] obtain y k where "xTaskResumeAll (vTaskSuspendAll (sb_kern s)) = Some (y, k)" "kernel_ok i k" by blast
  then show ?thesis using True by (simp add: sbSEND_COMPLETED_def woke_def)
next
  case False
  let ?t = "xTaskWaitingToReceive (sbufs s a)"
  obtain r v k1 y k2 where k: "xTaskGenericNotify ?t 0 eNoAction (vTaskSuspendAll (sb_kern s)) = Some (r, v, k1)"
    "xTaskResumeAll k1 = Some (y, k2)" "kernel_ok i k2" "woke ?t (sb_kern s) k2"
    using suspended_notify [OF _ False, of i "sb_kern s"] c by (auto simp: sb_calm_def)
  have "sbSEND_COMPLETED a s = Some (upd_sb a (\<lambda>b. b\<lparr>xTaskWaitingToReceive := NULL\<rparr>) (sb_set_kern k2 s))"
    using False k(1,2) by (simp add: sbSEND_COMPLETED_def) (simp add: sb_set_kern_def)
  then show ?thesis using k(3,4) by simp
qed

lemma sbRECEIVE_COMPLETED_spec:
  assumes c: "sb_calm i a s"
  shows "\<exists>s'. sbRECEIVE_COMPLETED a s = Some s' \<and> kernel_ok i (sb_kern s') \<and> ring_kept a s s' \<and>
    xTaskWaitingToSend (sbufs s' a) = NULL \<and> woke (xTaskWaitingToSend (sbufs s a)) (sb_kern s) (sb_kern s')"
proof (cases "xTaskWaitingToSend (sbufs s a) = NULL")
  case True
  have "kernel_ok i (vTaskSuspendAll (sb_kern s))" using c by (simp add: sb_calm_def vTaskSuspendAll_def)
  from resume_kernel [OF this] obtain y k where "xTaskResumeAll (vTaskSuspendAll (sb_kern s)) = Some (y, k)" "kernel_ok i k" by blast
  then show ?thesis using True by (simp add: sbRECEIVE_COMPLETED_def woke_def)
next
  case False
  let ?t = "xTaskWaitingToSend (sbufs s a)"
  obtain r v k1 y k2 where k: "xTaskGenericNotify ?t 0 eNoAction (vTaskSuspendAll (sb_kern s)) = Some (r, v, k1)"
    "xTaskResumeAll k1 = Some (y, k2)" "kernel_ok i k2" "woke ?t (sb_kern s) k2"
    using suspended_notify [OF _ False, of i "sb_kern s"] c by (auto simp: sb_calm_def)
  have "sbRECEIVE_COMPLETED a s = Some (upd_sb a (\<lambda>b. b\<lparr>xTaskWaitingToSend := NULL\<rparr>) (sb_set_kern k2 s))"
    using False k(1,2) by (simp add: sbRECEIVE_COMPLETED_def) (simp add: sb_set_kern_def)
  then show ?thesis using k(3,4) by simp
qed

text \<open>From an interrupt the party at rest stays so.\<close>

lemma notify_from_isr:
  assumes k: "kernel_ok i k" and p: "t \<noteq> NULL" "party_ok t k"
  shows "\<exists>v h' k'. xTaskGenericNotifyFromISR t 0 eNoAction h k = Some (True, v, h', k') \<and> kernel_ok i k' \<and>
    (\<forall>u. party_ok u k \<longrightarrow> party_ok u k') \<and>
    (ucNotifyState (tcbs k t) = taskWAITING_NOTIFICATION \<longrightarrow>
      (if uxSchedulerSuspended k = 0 then stContainer (tcbs k' t) = Some (Ready (prio k t))
       else evContainer (tcbs k' t) = Some xPendingReadyList))"
proof -
  define k1 where "k1 = notify_set t (ulNotifiedValue (tcbs k t)) k"
  have k1: "kernel_ok i k1" unfolding k1_def by (rule notify_set_kernel [OF k])
  have c1: "tcbs k1 = (tcbs k)(t := (tcbs k t)\<lparr>ucNotifyState := taskNOTIFICATION_RECEIVED, ulNotifiedValue := ulNotifiedValue (tcbs k t)\<rparr>)"
    "uxSchedulerSuspended k1 = uxSchedulerSuspended k"
    by (simp_all add: k1_def notify_set_def)
  have run: "xTaskGenericNotifyFromISR t 0 eNoAction h k = (if ucNotifyState (tcbs k t) = taskWAITING_NOTIFICATION
      then map_option (\<lambda>(h', k'). (True, ulNotifiedValue (tcbs k t), h', k')) (notify_wake_isr t h k1)
      else Some (True, ulNotifiedValue (tcbs k t), h, k1))"
    by (cases "notify_wake_isr t h k1") (auto simp: xTaskGenericNotifyFromISR_def notify_value_def k1_def Let_def)
  show ?thesis
  proof (cases "ucNotifyState (tcbs k t) = taskWAITING_NOTIFICATION")
    case True
    have "sleeps t k1" using p True c1 by (simp add: party_ok_def sleeps_def)
    from notify_wake_isr_spec [OF k1 this, of h] obtain h' k' where w: "notify_wake_isr t h k1 = Some (h', k')" "kernel_ok i k'"
      "\<forall>u. u \<noteq> t \<longrightarrow> tcbs k' u = tcbs k1 u"
      "tcbs k' t = (if uxSchedulerSuspended k1 = 0 then (tcbs k1 t)\<lparr>stContainer := Some (Ready (prio k1 t))\<rparr>
        else (tcbs k1 t)\<lparr>evContainer := Some xPendingReadyList\<rparr>)"
      by blast
    have "party_ok u k'" if u: "party_ok u k" for u
    proof (cases "u = t")
      case True
      then show ?thesis using w(4) c1 by (simp add: party_ok_def)
    next
      case False
      then have "tcbs k' u = tcbs k u" using w(3) c1 by simp
      then show ?thesis using u by (simp add: party_ok_def sleeps_def)
    qed
    then show ?thesis unfolding run using True w c1 by simp
  next
    case False
    have "party_ok u k1" if u: "party_ok u k" for u using u c1 by (auto simp: party_ok_def sleeps_def)
    then show ?thesis unfolding run using False k1 by simp
  qed
qed

lemma isr_completed:
  assumes c: "sb_calm i a s"
  shows "\<exists>h' s'. sbSEND_COMPLETE_FROM_ISR a h s = Some (h', s') \<and> sb_calm i a s' \<and> ring_kept a s s'"
    and "\<exists>h' s'. sbRECEIVE_COMPLETED_FROM_ISR a h s = Some (h', s') \<and> sb_calm i a s' \<and> ring_kept a s s'"
proof -
  let ?r = "xTaskWaitingToReceive (sbufs s a)" and ?t = "xTaskWaitingToSend (sbufs s a)"
  have k: "kernel_ok i (sb_kern s)" "party_ok ?r (sb_kern s)" "party_ok ?t (sb_kern s)" using c by (simp_all add: sb_calm_def)
  have null: "party_ok NULL k" for k by (simp add: party_ok_def)
  show "\<exists>h' s'. sbSEND_COMPLETE_FROM_ISR a h s = Some (h', s') \<and> sb_calm i a s' \<and> ring_kept a s s'"
  proof (cases "?r = NULL")
    case False
    from notify_from_isr [OF k(1) False k(2), of h] obtain v h' k' where
      "xTaskGenericNotifyFromISR ?r 0 eNoAction h (sb_kern s) = Some (True, v, h', k')" "kernel_ok i k'" "party_ok ?t k'"
      using k(3) by blast
    then show ?thesis using False null by (simp add: sbSEND_COMPLETE_FROM_ISR_def sb_calm_def)
  qed (simp add: sbSEND_COMPLETE_FROM_ISR_def c)
  show "\<exists>h' s'. sbRECEIVE_COMPLETED_FROM_ISR a h s = Some (h', s') \<and> sb_calm i a s' \<and> ring_kept a s s'"
  proof (cases "?t = NULL")
    case False
    from notify_from_isr [OF k(1) False k(3), of h] obtain v h' k' where
      "xTaskGenericNotifyFromISR ?t 0 eNoAction h (sb_kern s) = Some (True, v, h', k')" "kernel_ok i k'" "party_ok ?r k'"
      using k(2) by blast
    then show ?thesis using False null by (simp add: sbRECEIVE_COMPLETED_FROM_ISR_def sb_calm_def)
  qed (simp add: sbRECEIVE_COMPLETED_FROM_ISR_def c)
qed

text \<open>What a call may write and what it may take.\<close>

definition sb_free :: "addr \<Rightarrow> sb_sys \<Rightarrow> nat" where
  "sb_free a s = sb_len (sbufs s a) - 1 - sb_used (sbufs s a)"

lemma unat_free: "sb_wf (sbufs s a) \<Longrightarrow> unat (xStreamBufferSpacesAvailable a s) = sb_free a s"
  by (simp add: xStreamBufferSpacesAvailable_def unat_space sb_free_def)

lemma unat_bytes: "sb_wf (sbufs s a) \<Longrightarrow> unat (prvBytesInBuffer a s) = sb_used (sbufs s a)"
  by (simp add: prvBytesInBuffer_def unat_count)

lemma send_finish_spec:
  assumes w: "sb_wf (sbufs s a)" and P: "P s" "\<And>u. P u \<Longrightarrow> sb_calm i a u" and free: "head_free a P"
    and rely: "reader_runs P a gaps"
    and len: "length data = unat n" "length data + 4 < 2 ^ 32" and sp: "sp = 0 \<or> unat sp = sb_free a s"
  shows "\<exists>u s'. send_finish gaps a data n (required_space a n s) sp s =
      Some (of_nat (sb_result (is_message_buffer a s) (sb_free a s) data), s') \<and> kernel_ok i (sb_kern s') \<and>
    wrote a (sb_payload (is_message_buffer a s) (sb_free a s) data) s s' \<and> P u \<and> ring_kept a u s'"
proof -
  define sp' where "sp' = (if sp = 0 then xStreamBufferSpacesAvailable a s else sp)"
  have u: "unat sp' = sb_free a s" using sp unat_free [OF w] by (auto simp: sp'_def)
  let ?r = "of_nat (sb_result (is_message_buffer a s) (sb_free a s) data) :: u32"
  have "unat sp' \<le> sb_len (sbufs s a) - 1 - sb_used (sbufs s a)" by (simp add: u sb_free_def)
  from prvWriteMessageToBuffer_spec [OF w P(1) rely free this len(1) refl len(2)] obtain s1
    where s1: "prvWriteMessageToBuffer gaps a data n sp' (required_space a n s) s = Some (?r, s1)" "P s1"
      "wrote a (sb_payload (is_message_buffer a s) (sb_free a s) data) s s1" unfolding u by blast
  show ?thesis
  proof (cases "?r > 0 \<and> prvBytesInBuffer a s1 \<ge> xTriggerLevelBytes (sbufs s1 a)")
    case True
    from sbSEND_COMPLETED_spec [OF P(2) [OF s1(2)]] obtain s2 where
      s2: "sbSEND_COMPLETED a s1 = Some s2" "kernel_ok i (sb_kern s2)" "ring_kept a s1 s2"
      by blast
    have "send_finish gaps a data n (required_space a n s) sp s = Some (?r, s2)"
      unfolding send_finish_def Let_def sp'_def [symmetric] s1(1) using True s2(1) by simp
    then show ?thesis using s1(2) s2(2,3) ring_kept_wrote [OF s1(3) s2(3)] by blast
  next
    case False
    then have "send_finish gaps a data n (required_space a n s) sp s = Some (?r, s1)"
      unfolding send_finish_def Let_def sp'_def [symmetric] s1(1) by auto
    then show ?thesis using s1(2,3) P(2) [OF s1(2)] ring_kept_refl unfolding sb_calm_def by blast
  qed
qed

text \<open>The result of a receive, and how many bytes leave the buffer.\<close>

definition sb_takes :: "bool \<Rightarrow> nat \<Rightarrow> u8 list \<Rightarrow> u8 list \<Rightarrow> nat \<Rightarrow> bool" where
  "sb_takes msg mx cs xs k \<longleftrightarrow>
    (if msg then (\<exists>r. cs = sb_frame xs @ r) \<and> length xs \<le> mx \<and> 4 < length cs \<and> k = 4 + length xs
     else xs = take mx cs \<and> k = length xs)"

lemma receive_message_spec:
  assumes w: "sb_wf (sbufs s a)" and P: "P s" "\<And>u. P u \<Longrightarrow> sb_calm i a u" and free: "tail_free a P"
    and rely: "writer_runs P a gaps"
    and t: "sb_takes (is_message_buffer a s) (unat mx) (sb_contents a s) xs k"
  shows "\<exists>s'. prvReadMessageFromBuffer gaps a mx (prvBytesInBuffer a s) (length_bytes a s) s = Some (xs, of_nat (length xs), s') \<and>
    P s' \<and> took a k s s'"
proof (cases "is_message_buffer a s")
  case True
  then obtain r where "sb_contents a s = sb_frame xs @ r" "length xs \<le> unat mx" "k = 4 + length xs"
    using t by (auto simp: sb_takes_def)
  then show ?thesis using read_message [OF w P(1) rely free unat_bytes [OF w]] True by (simp add: length_bytes_def)
next
  case False
  then have x: "xs = take (unat mx) (sb_contents a s)" "k = length xs" using t by (simp_all add: sb_takes_def)
  have "min (prvBytesInBuffer a s) mx = of_nat (unat (min (prvBytesInBuffer a s) mx))" by simp
  also have "\<dots> = of_nat (length xs)" unfolding min_unat unat_bytes [OF w] by (simp add: x(1) min.commute)
  finally show ?thesis using read_stream [OF w P(1) rely free unat_bytes [OF w], of mx] False x
    by (simp add: length_bytes_def min.commute)
qed

lemma receive_finish_spec:
  assumes w: "sb_wf (sbufs s a)" and P: "P s" "\<And>u. P u \<Longrightarrow> sb_calm i a u" and free: "tail_free a P"
    and rely: "writer_runs P a gaps"
    and t: "sb_takes (is_message_buffer a s) (unat mx) (sb_contents a s) xs k"
  shows "\<exists>u s'. receive_finish gaps a mx (prvBytesInBuffer a s) s = Some (xs, of_nat (length xs), s') \<and>
    kernel_ok i (sb_kern s') \<and> took a k s s' \<and> P u \<and> ring_kept a u s'"
proof (cases "prvBytesInBuffer a s > length_bytes a s")
  case True
  from receive_message_spec [where P = P and i = i, OF w P free rely t] obtain s1 where
    s1: "prvReadMessageFromBuffer gaps a mx (prvBytesInBuffer a s) (length_bytes a s) s = Some (xs, of_nat (length xs), s1)"
      "P s1" "took a k s s1" by blast
  from sbRECEIVE_COMPLETED_spec [OF P(2) [OF s1(2)]] obtain s2 where s2: "sbRECEIVE_COMPLETED a s1 = Some s2" "kernel_ok i (sb_kern s2)" "ring_kept a s1 s2"
    by blast
  show ?thesis
  proof (cases "(of_nat (length xs) :: u32) = 0")
    case z: True
    then have "receive_finish gaps a mx (prvBytesInBuffer a s) s = Some (xs, of_nat (length xs), s1)"
      using True s1(1) by (simp add: receive_finish_def)
    then show ?thesis using s1(2,3) P(2) [OF s1(2)] ring_kept_refl unfolding sb_calm_def by blast
  next
    case False
    then have "receive_finish gaps a mx (prvBytesInBuffer a s) s = Some (xs, of_nat (length xs), s2)"
      using True s1(1) s2 by (simp add: receive_finish_def)
    then show ?thesis using s1(2) s2(2,3) ring_kept_took [OF s1(3) s2(3)] by blast
  qed
next
  case False
  then have e: "sb_used (sbufs s a) \<le> unat (length_bytes a s)" using unat_bytes [OF w] by (simp add: word_less_nat_alt)
  have "\<not> is_message_buffer a s" using e t by (auto simp: length_bytes_def sb_takes_def)
  then have "sb_used (sbufs s a) = 0" "xs = take (unat mx) (sb_contents a s)" "k = length xs"
    using e t by (simp_all add: length_bytes_def sb_takes_def)
  moreover have "sb_contents a s = []" using calculation(1) by (metis length_contents length_0_conv)
  ultimately have "receive_finish gaps a mx (prvBytesInBuffer a s) s = Some (xs, of_nat (length xs), s)" "took a k s s"
    using False w by (simp_all add: receive_finish_def took_def sb_wf_def)
  then show ?thesis using P(1) P(2) [OF P(1)] ring_kept_refl unfolding sb_calm_def by blast
qed

lemma send_at_once:
  assumes w: "sb_wf (sbufs s a)" and len: "length data = unat n" "length data + 4 < 2 ^ 32"
    and room: "xTicksToWait = 0 \<or> length data + unat (length_bytes a s) \<le> sb_free a s"
  shows "\<exists>c sp. (sp = 0 \<or> unat sp = sb_free a s) \<and> xStreamBufferSend gaps a data n xTicksToWait s =
    map_option (\<lambda>(r, s'). (Some r, c, s')) (send_finish gaps a data n (required_space a n s) sp s)"
proof (cases "xTicksToWait = 0")
  case True
  have "xStreamBufferSend gaps a data n xTicksToWait s = map_option (\<lambda>(r, s'). (Some r,
      \<lparr>sSpace = 0, sTimeOut = vTaskSetTimeOutState (sb_kern s), sTicks = xTicksToWait\<rparr>, s'))
      (send_finish gaps a data n (required_space a n s) 0 s)"
    using True by (simp add: xStreamBufferSend_def map_option_bind split: bind_split prod.splits)
  then show ?thesis by blast
next
  case False
  have "unat (required_space a n s) = length data + unat (length_bytes a s)"
    unfolding required_space_def len(1) by (subst unat_add_lem [THEN iffD1]) (use len in \<open>simp_all add: length_bytes_def\<close>)
  then have "\<not> xStreamBufferSpacesAvailable a s < required_space a n s"
    using room False unat_free [OF w] by (simp add: word_less_nat_alt)
  then have "xStreamBufferSend gaps a data n xTicksToWait s = map_option (\<lambda>(r, s'). (Some r,
      \<lparr>sSpace = xStreamBufferSpacesAvailable a s, sTimeOut = vTaskSetTimeOutState (sb_kern s), sTicks = xTicksToWait\<rparr>, s'))
      (send_finish gaps a data n (required_space a n s) (xStreamBufferSpacesAvailable a s) s)"
    using False by (simp add: xStreamBufferSend_def send_pass_def split: bind_split prod.splits)
  then show ?thesis using unat_free [OF w] by blast
qed

lemma receive_at_once:
  assumes w: "sb_wf (sbufs s a)" and some: "xTicksToWait = 0 \<or> sb_used (sbufs s a) > unat (length_bytes a s)"
  shows "xStreamBufferReceive gaps a mx xTicksToWait s =
    map_option (\<lambda>(xs, n, s'). (Some (xs, n), s')) (receive_finish gaps a mx (prvBytesInBuffer a s) s)"
proof -
  have "\<not> (xTicksToWait \<noteq> 0 \<and> prvBytesInBuffer a s \<le> length_bytes a s)"
    using some unat_bytes [OF w] by (auto simp: word_le_nat_alt)
  then show ?thesis unfolding xStreamBufferReceive_def Let_def
    by (subst if_not_P) (auto split: bind_split prod.splits)
qed

section \<open>Calls from interrupts as the other party\<close>

text \<open>A call that nobody interferes with moves the tail only.\<close>

definition tail_moved :: "addr \<Rightarrow> sb_sys \<Rightarrow> sb_sys \<Rightarrow> bool" where
  "tail_moved a s u \<longleftrightarrow> (\<exists>t. u = upd_sb a (\<lambda>b. b\<lparr>xTail := t\<rparr>) s)"

lemma tail_moved_free: "tail_free a (tail_moved a s)" "tail_moved a s s"
proof -
  show "tail_free a (tail_moved a s)" by (auto simp: tail_free_def tail_moved_def)
  show "tail_moved a s s" unfolding tail_moved_def by (rule exI [of _ "xTail (sbufs s a)"]) simp
qed

lemma tail_moved_consumes:
  assumes m: "tail_moved a s u" and t: "took a k s u" and k: "k \<le> sb_used (sbufs s a)" and w: "sb_wf (sbufs s a)"
  shows "consumes a s u"
proof -
  obtain t where u: "u = upd_sb a (\<lambda>b. b\<lparr>xTail := t\<rparr>) s" using m unfolding tail_moved_def by blast
  have "unat t = (sb_tail (sbufs s a) + k) mod sb_len (sbufs s a)" using t by (simp add: took_def u sb_tail_def)
  then show ?thesis unfolding u by (rule tail_move(1) [OF w k])
qed

lemma read_any:
  assumes w: "sb_wf (sbufs s a)" and b: "length_bytes a s < prvBytesInBuffer a s"
  shows "\<exists>xs n u. prvReadMessageFromBuffer alone a mx (prvBytesInBuffer a s) (length_bytes a s) s = Some (xs, n, u) \<and>
    tail_moved a s u \<and> consumes a s u"
proof (cases "is_message_buffer a s")
  case False
  then show ?thesis
    using read_stream [OF w tail_moved_free(2) quiet_writer tail_moved_free(1) unat_bytes [OF w], of mx]
      tail_moved_consumes [OF _ _ _ w] by (auto simp: length_bytes_def)
next
  case True
  let ?av = "prvBytesInBuffer a s"
  have l4: "length_bytes a s = 4" using True by (simp add: length_bytes_def)
  have av: "4 < sb_used (sbufs s a)" "4 < ?av" using b unat_bytes [OF w] l4 by (simp_all add: word_less_nat_alt)
  have m4: "min ?av 4 = 4" using av(2) by (simp add: min_absorb2)
  have "\<exists>u. prvReadBytesFromBuffer alone a 4 ?av s = Some (take (unat (4 :: u32)) (sb_contents a s), 4, u) \<and> tail_moved a s u \<and>
    took a (unat (4 :: u32)) s u"
    by (rule prvReadBytesFromBuffer_spec [OF w tail_moved_free(2) quiet_writer tail_moved_free(1)]) (simp_all add: unat_bytes [OF w] m4)
  then obtain u where u: "prvReadBytesFromBuffer alone a 4 ?av s = Some (take 4 (sb_contents a s), 4, u)" "tail_moved a s u" "took a 4 s u"
    by auto
  let ?n = "le32 (take 4 (sb_contents a s))"
  have wu: "sb_wf (sbufs u a)" using u(3) by (simp add: took_def)
  have used1: "sb_used (sbufs s a) - 4 \<le> sb_used (sbufs u a)"
  proof -
    obtain ys where ys: "sb_contents a u = drop 4 (sb_contents a s) @ ys" using u(3) by (auto simp: took_def)
    have "length (sb_contents a u) = length (drop 4 (sb_contents a s) @ ys)" by (rule arg_cong [OF ys])
    then show ?thesis by simp
  qed
  have uav: "unat (?av - 4) = sb_used (sbufs s a) - 4" using av unat_bytes [OF w] by (simp add: unat_sub)
  show ?thesis
  proof (cases "?n > mx")
    case long: True
    have restored: "upd_sb a (\<lambda>b. b\<lparr>xTail := xTail (sbufs s a)\<rparr>) u = s" using u(2) by (auto simp: tail_moved_def)
    have "prvReadMessageFromBuffer alone a mx ?av 4 s = Some ([], 0, s)" unfolding prvReadMessageFromBuffer_def
      using u(1) long restored by (simp add: Let_def alone_def prvReadBytesFromBuffer_def)
    then show ?thesis using l4 consumes_refl [OF w] tail_moved_free(2) by auto
  next
    case False
    define n where "n = min (?av - 4) ?n"
    have nu: "unat n \<le> sb_used (sbufs s a) - 4" unfolding n_def min_unat uav by simp
    have "\<exists>v. prvReadBytesFromBuffer (later 4 alone) a ?n (?av - 4) u = Some (take (unat n) (sb_contents a u), n, v) \<and> tail_moved a s v \<and>
      took a (unat n) u v"
      by (rule prvReadBytesFromBuffer_spec [OF wu u(2) later_writer [OF quiet_writer] tail_moved_free(1)])
        (use uav used1 n_def in simp_all)
    then obtain v where v: "prvReadBytesFromBuffer (later 4 alone) a ?n (?av - 4) u = Some (take (unat n) (sb_contents a u), n, v)"
      "tail_moved a s v" "took a (unat n) u v" by blast
    have "took a (4 + unat n) s v" by (rule took_trans [OF u(3) v(3)]) (use av(1) nu used1 in simp_all)
    then have "consumes a s v" by (rule tail_moved_consumes [OF v(2) _ _ w]) (use nu av(1) in simp)
    moreover have "prvReadMessageFromBuffer alone a mx ?av 4 s = Some (take (unat n) (sb_contents a u), n, v)"
      unfolding prvReadMessageFromBuffer_def using u(1) v(1) False by (simp add: Let_def alone_def)
    ultimately show ?thesis using v(2) l4 by auto
  qed
qed

lemma consumes_kept: "consumes a s u \<Longrightarrow> ring_kept a u v \<Longrightarrow> consumes a s v"
proof -
  assume c: "consumes a s u" and r: "ring_kept a u v"
  have "same_ring (sbufs s a) (sbufs v a)"
    by (rule same_ring_trans) (use c r in \<open>auto simp: consumes_def ring_kept_def Let_def\<close>)
  then show ?thesis using c r unfolding consumes_def Let_def ring_keptD [OF r] ring_kept_def by simp
qed

lemma produces_kept: "produces a s u \<Longrightarrow> ring_kept a u v \<Longrightarrow> produces a s v"
proof -
  assume c: "produces a s u" and r: "ring_kept a u v"
  have "same_ring (sbufs s a) (sbufs v a)"
    by (rule same_ring_trans) (use c r in \<open>auto simp: produces_def ring_kept_def Let_def\<close>)
  then show ?thesis using c r unfolding produces_def Let_def ring_keptD [OF r] ring_kept_def by simp
qed

lemma xStreamBufferReceiveFromISR_consumes:
  assumes w: "sb_wf (sbufs s a)" and c: "sb_calm i a s"
  shows "\<exists>xs n h' s'. xStreamBufferReceiveFromISR alone a mx h s = Some (xs, n, h', s') \<and> consumes a s s' \<and> sb_calm i a s'"
proof (cases "prvBytesInBuffer a s > length_bytes a s")
  case False
  then show ?thesis using c consumes_refl [OF w] by (simp add: xStreamBufferReceiveFromISR_def)
next
  case True
  from read_any [OF w True, of mx] obtain xs n u where u:
    "prvReadMessageFromBuffer alone a mx (prvBytesInBuffer a s) (length_bytes a s) s = Some (xs, n, u)" "tail_moved a s u" "consumes a s u"
    by blast
  have cu: "sb_calm i a u" using u(2) c by (auto simp: tail_moved_def sb_calm_def)
  from isr_completed(2) [OF cu, of h] obtain h' v where v: "sbRECEIVE_COMPLETED_FROM_ISR a h u = Some (h', v)" "sb_calm i a v" "ring_kept a u v"
    by blast
  show ?thesis
  proof (cases "n = 0")
    case z: True
    then show ?thesis using True u cu by (simp add: xStreamBufferReceiveFromISR_def)
  next
    case False
    then show ?thesis using True u(1) v consumes_kept [OF u(3) v(3)] by (simp add: xStreamBufferReceiveFromISR_def)
  qed
qed

lemma payload_room: "sb_wf (sbufs s a) \<Longrightarrow> sb_used (sbufs s a) + length (sb_payload msg (sb_free a s) data) < sb_len (sbufs s a)"
  using used_less [of "sbufs s a"] by (auto simp: sb_payload_def sb_free_def)

lemma xStreamBufferSendFromISR_produces:
  assumes w: "sb_wf (sbufs s a)" and c: "sb_calm i a s" and len: "length data = unat n" "length data + 4 < 2 ^ 32"
  shows "\<exists>h' s'. xStreamBufferSendFromISR alone a data n h s =
      Some (of_nat (sb_result (is_message_buffer a s) (sb_free a s) data), h', s') \<and> produces a s s' \<and> sb_calm i a s' \<and>
    sb_contents a s' = sb_contents a s @ sb_payload (is_message_buffer a s) (sb_free a s) data"
proof -
  let ?P = "\<lambda>u. sb_calm i a u \<and> xTail (sbufs u a) = xTail (sbufs s a)" and ?sp = "xStreamBufferSpacesAvailable a s"
  let ?r = "of_nat (sb_result (is_message_buffer a s) (sb_free a s) data) :: u32" and ?xs = "sb_payload (is_message_buffer a s) (sb_free a s) data"
  have f: "head_free a ?P" using calm_free(1) [of a i] by (simp add: head_free_def)
  have "unat ?sp \<le> sb_len (sbufs s a) - 1 - sb_used (sbufs s a)" by (simp add: unat_free [OF w] sb_free_def)
  from prvWriteMessageToBuffer_spec [OF w _ quiet_reader f this len(1) refl len(2)] c obtain u where
    u: "prvWriteMessageToBuffer alone a data n ?sp (required_space a n s) s = Some (?r, u)" "sb_calm i a u"
      "xTail (sbufs u a) = xTail (sbufs s a)" "wrote a ?xs s u" unfolding unat_free [OF w] by blast
  note p = wrote_produces [OF u(4,3) w payload_room [OF w]]
  from isr_completed(1) [OF u(2), of h] obtain h' v where v: "sbSEND_COMPLETE_FROM_ISR a h u = Some (h', v)" "sb_calm i a v" "ring_kept a u v"
    by blast
  show ?thesis
  proof (cases "?r > 0 \<and> prvBytesInBuffer a u \<ge> xTriggerLevelBytes (sbufs u a)")
    case True
    then show ?thesis using u(1) v produces_kept [OF p(1) v(3)] p(2) ring_keptD(3) [OF v(3)]
      by (simp add: xStreamBufferSendFromISR_def)
  next
    case False
    then have "xStreamBufferSendFromISR alone a data n h s = Some (?r, h, u)"
      unfolding xStreamBufferSendFromISR_def Let_def u(1) by auto
    then show ?thesis using u(2) p by auto
  qed
qed

definition isr_reads :: "addr \<Rightarrow> u32 \<Rightarrow> sgaps" where
  "isr_reads a mx n s = map_option (\<lambda>(_, _, _, s). s) (xStreamBufferReceiveFromISR alone a mx None s)"

definition isr_sends :: "addr \<Rightarrow> u8 list \<Rightarrow> sgaps" where
  "isr_sends a data n s = map_option (\<lambda>(_, _, s). s) (xStreamBufferSendFromISR alone a data (of_nat (length data)) None s)"

lemma isr_reads_runs: "reader_runs (sb_calm i a) a (isr_reads a mx)"
  unfolding reader_runs_def isr_reads_def using xStreamBufferReceiveFromISR_consumes by fastforce

lemma isr_sends_runs:
  assumes "length data + 4 < 2 ^ 32"
  shows "writer_runs (sb_calm i a) a (isr_sends a data)"
proof -
  have "length data = unat (of_nat (length data) :: u32)" using assms by (simp add: unat_of_nat)
  from xStreamBufferSendFromISR_produces [OF _ _ this assms, of _ a i None] show ?thesis
    unfolding writer_runs_def isr_sends_def by fastforce
qed

section \<open>Properties\<close>

text \<open>A buffer of 8 bytes in the middle of its storage, on the sample kernel.\<close>

definition sb_sample :: "u8 \<Rightarrow> sb_sys" where
  "sb_sample flags = \<lparr>srt = (undefined :: rtos)\<lparr>kern := sample_sched, bytes := \<lambda>_. 0\<rparr>,
     sbufs = (\<lambda>_. stream_buffer0)(1000 := \<lparr>xTail = 6, xHead = 6, xLength = 9, xTriggerLevelBytes = 1,
       xTaskWaitingToReceive = NULL, xTaskWaitingToSend = NULL, pucBuffer = 1036, ucFlags = flags, uxStreamBufferNumber = 0\<rparr>)\<rparr>"

lemma sb_sample_simps [simp]:
  "sb_wf (sbufs (sb_sample f) 1000)" "sb_calm 100 1000 (sb_sample f)" "sb_contents 1000 (sb_sample f) = []"
  "sb_free 1000 (sb_sample f) = 8" "sb_kern (sb_sample f) = sample_sched" "is_message_buffer 1000 (sb_sample f) = (f AND 1 \<noteq> 0)"
  using sample_sched_ok
  by (simp_all add: sb_sample_def sb_wf_def sb_len_def sb_tail_def sb_head_def sb_calm_def party_ok_def sb_contents_def
      sb_used_def sb_free_def is_message_buffer_def)



text \<open>A receive takes the oldest bytes, whatever a writer does in between: of a stream as many as there
  are and fit, of a message buffer the first message if it fits; they leave the buffer, and what the
  writer has added meanwhile is behind the rest.\<close>

theorem xStreamBufferReceive_takes:
  assumes w: "sb_wf (sbufs s a)" and c: "sb_calm i a s" and rely: "writer_runs (sb_calm i a) a gaps"
    and t: "sb_takes (is_message_buffer a s) (unat mx) (sb_contents a s) xs k"
    and some: "xTicksToWait = 0 \<or> sb_used (sbufs s a) > unat (length_bytes a s)"
  shows "\<exists>ys s'. xStreamBufferReceive gaps a mx xTicksToWait s = Some (Some (xs, of_nat (length xs)), s') \<and>
    sb_contents a s' = drop k (sb_contents a s) @ ys \<and> sb_wf (sbufs s' a) \<and> kernel_ok i (sb_kern s')"
  using receive_finish_spec [where P = "sb_calm i a" and i = i, OF w c _ calm_free(2) rely t]
  unfolding receive_at_once [OF w some] took_def by fastforce

text \<open>The buffer 1000 with three bytes in it, sent from an interrupt.\<close>

theorem xStreamBufferReceive_takes_witness:
  "\<exists>s ys s'. isr_sends 1000 [1, 2, 3] 0 (sb_sample 0) = Some s \<and>
    xStreamBufferReceive (isr_sends 1000 [7]) 1000 2 0 s = Some (Some ([1, 2], 2), s') \<and>
    sb_contents 1000 s' = [3] @ ys"
proof -
  have "\<exists>h s. xStreamBufferSendFromISR alone 1000 [1, 2, 3] 3 None (sb_sample 0) =
      Some (of_nat (sb_result False 8 [1, 2, 3]), h, s) \<and> produces 1000 (sb_sample 0) s \<and> sb_calm 100 1000 s \<and>
    sb_contents 1000 s = [] @ sb_payload False 8 [1, 2, 3]"
    using xStreamBufferSendFromISR_produces [of "sb_sample 0" 1000 100 "[1, 2, 3]" 3 None] by simp
  then obtain h s where s: "xStreamBufferSendFromISR alone 1000 [1, 2, 3] 3 None (sb_sample 0) = Some (of_nat (sb_result False 8 [1, 2, 3]), h, s)"
    "produces 1000 (sb_sample 0) s" "sb_calm 100 1000 s" "sb_contents 1000 s = [1, 2, 3]"
    by (auto simp: sb_payload_def)
  have w: "sb_wf (sbufs s 1000)" by (rule produces_contents(1) [OF _ s(2)]) simp
  have "is_message_buffer 1000 s = is_message_buffer 1000 (sb_sample 0)"
    using s(2) by (auto simp: produces_def Let_def is_message_buffer_def dest: same_ringD)
  then have t: "sb_takes (is_message_buffer 1000 s) (unat (2 :: u32)) (sb_contents 1000 s) [1, 2] 2"
    by (simp add: sb_takes_def s(4))
  have "\<exists>ys s'. xStreamBufferReceive (isr_sends 1000 [7]) 1000 2 0 s = Some (Some ([1, 2], of_nat (length [1 :: u8, 2])), s') \<and>
    sb_contents 1000 s' = drop 2 (sb_contents 1000 s) @ ys \<and> sb_wf (sbufs s' 1000) \<and> kernel_ok 100 (sb_kern s')"
    by (rule xStreamBufferReceive_takes [OF w s(3) isr_sends_runs t]) simp_all
  then show ?thesis using s(1,4) by (auto simp: isr_sends_def)
qed

definition msgs_in :: "addr \<Rightarrow> sb_sys \<Rightarrow> u8 list list \<Rightarrow> bool" where
  "msgs_in a s ms \<longleftrightarrow> sb_wf (sbufs s a) \<and> is_message_buffer a s \<and> sb_contents a s = concat (map sb_frame ms) \<and> [] \<notin> set ms"

lemma is_message_same: "same_ring (sbufs s a) (sbufs s' a) \<Longrightarrow> is_message_buffer a s' = is_message_buffer a s"
  by (simp add: is_message_buffer_def same_ring_def)

lemma send_quiet:
  assumes w: "sb_wf (sbufs s a)" and c: "sb_calm i a s" and len: "length data + 4 < 2 ^ 32"
    and room: "xTicksToWait = 0 \<or> length data + unat (length_bytes a s) \<le> sb_free a s"
  shows "\<exists>c s'. xStreamBufferSend alone a data (of_nat (length data)) xTicksToWait s =
      Some (Some (of_nat (sb_result (is_message_buffer a s) (sb_free a s) data)), c, s') \<and> sb_wf (sbufs s' a) \<and>
    is_message_buffer a s' = is_message_buffer a s \<and>
    sb_contents a s' = sb_contents a s @ sb_payload (is_message_buffer a s) (sb_free a s) data"
proof -
  have un: "length data = unat (of_nat (length data) :: u32)" using len by (simp add: unat_of_nat)
  let ?P = "\<lambda>u. sb_calm i a u \<and> xTail (sbufs u a) = xTail (sbufs s a)"
  have f: "head_free a ?P" using calm_free(1) [of a i] by (simp add: head_free_def)
  obtain c' sp where d: "sp = 0 \<or> unat sp = sb_free a s"
    "xStreamBufferSend alone a data (of_nat (length data)) xTicksToWait s =
      map_option (\<lambda>(r, s'). (Some r, c', s')) (send_finish alone a data (of_nat (length data)) (required_space a (of_nat (length data)) s) sp s)"
    using send_at_once [OF w un len room] by blast
  from send_finish_spec [where P = ?P and i = i, OF w _ _ f quiet_reader un len d(1)] c obtain u s' where
    s': "send_finish alone a data (of_nat (length data)) (required_space a (of_nat (length data)) s) sp s =
        Some (of_nat (sb_result (is_message_buffer a s) (sb_free a s) data), s')"
      "wrote a (sb_payload (is_message_buffer a s) (sb_free a s) data) s s'" "?P u" "ring_kept a u s'" by blast
  have t: "xTail (sbufs s' a) = xTail (sbufs s a)" using s'(3,4) by (simp add: ring_kept_def)
  have "sb_wf (sbufs s' a)" "same_ring (sbufs s a) (sbufs s' a)" using s'(2) by (simp_all add: wrote_def Let_def)
  then show ?thesis using d(2) s'(1) wrote_produces(2) [OF s'(2) t w payload_room [OF w]] is_message_same by auto
qed

lemma takes_le: "sb_takes msg mx cs xs k \<Longrightarrow> k \<le> length cs"
  by (auto simp: sb_takes_def sb_frame_def split: if_splits)

lemma receive_quiet:
  assumes w: "sb_wf (sbufs s a)" and c: "sb_calm i a s" and some: "xTicksToWait = 0 \<or> sb_used (sbufs s a) > unat (length_bytes a s)"
    and t: "sb_takes (is_message_buffer a s) (unat mx) (sb_contents a s) xs k"
  shows "\<exists>s'. xStreamBufferReceive alone a mx xTicksToWait s = Some (Some (xs, of_nat (length xs)), s') \<and>
    sb_wf (sbufs s' a) \<and> is_message_buffer a s' = is_message_buffer a s \<and> sb_contents a s' = drop k (sb_contents a s)"
proof -
  let ?P = "\<lambda>u. sb_calm i a u \<and> xHead (sbufs u a) = xHead (sbufs s a)"
  have f: "tail_free a ?P" using calm_free(2) [of a i] by (simp add: tail_free_def)
  from receive_finish_spec [where P = ?P and i = i, OF w _ _ f quiet_writer t] c obtain u s' where
    s': "receive_finish alone a mx (prvBytesInBuffer a s) s = Some (xs, of_nat (length xs), s')" "took a k s s'" "?P u" "ring_kept a u s'"
    by blast
  have h: "xHead (sbufs s' a) = xHead (sbufs s a)" using s'(3,4) by (simp add: ring_kept_def)
  have tk: "sb_wf (sbufs s' a)" "same_ring (sbufs s a) (sbufs s' a)" "sb_tail (sbufs s' a) = (sb_tail (sbufs s a) + k) mod sb_len (sbufs s a)"
    using s'(2) by (simp_all add: took_def)
  have k: "k \<le> sb_used (sbufs s a)"
  proof -
    have "k \<le> length (sb_contents a s)" by (rule takes_le [OF t])
    then show ?thesis by simp
  qed
  have u: "sb_used (sbufs s' a) = sb_used (sbufs s a) - k" by (rule used_tail_step(2) [OF w tk(2) h k tk(3)])
  obtain ys where ys: "sb_contents a s' = drop k (sb_contents a s) @ ys" using s'(2) by (auto simp: took_def)
  have "length (sb_contents a s') = length (drop k (sb_contents a s) @ ys)" by (rule arg_cong [OF ys])
  then have "ys = []" by (simp add: u)
  then show ?thesis using receive_at_once [OF w some] s'(1) ys tk(1) is_message_same [OF tk(2)] by simp
qed

lemma frames_nonempty: "sb_contents a s = concat (map sb_frame (m # r)) \<Longrightarrow> m \<noteq> [] \<Longrightarrow> sb_used (sbufs s a) > 4"
proof -
  assume c: "sb_contents a s = concat (map sb_frame (m # r))" "m \<noteq> []"
  have "length (sb_contents a s) = length (concat (map sb_frame (m # r)))" by (rule arg_cong [OF c(1)])
  moreover have "length (sb_frame m) > 4" using c(2) by (simp add: sb_frame_def)
  ultimately show ?thesis by simp
qed

lemma message_buffer_ops:
  assumes q: "msgs_in a s ms" and c: "sb_calm i a s"
  shows "m \<noteq> [] \<Longrightarrow> length m + 4 \<le> sb_free a s \<Longrightarrow>
      \<exists>c s'. xStreamBufferSend alone a m (of_nat (length m)) t s = Some (Some (of_nat (length m)), c, s') \<and> msgs_in a s' (ms @ [m])"
    and "sb_free a s < length m + 4 \<Longrightarrow> length m + 4 < 2 ^ 32 \<Longrightarrow>
      \<exists>c s'. xStreamBufferSend alone a m (of_nat (length m)) 0 s = Some (Some 0, c, s') \<and> msgs_in a s' ms"
    and "ms = m # r \<Longrightarrow> length m \<le> unat mx \<Longrightarrow>
      \<exists>s'. xStreamBufferReceive alone a mx t s = Some (Some (m, of_nat (length m)), s') \<and> msgs_in a s' r"
    and "ms = m # r \<Longrightarrow> length m > unat mx \<Longrightarrow> xStreamBufferReceive alone a mx t s = Some (Some ([], 0), s)"
    and "ms = [] \<Longrightarrow> xStreamBufferReceive alone a mx 0 s = Some (Some ([], 0), s)"
proof -
  have w: "sb_wf (sbufs s a)" and b: "is_message_buffer a s" and cs: "sb_contents a s = concat (map sb_frame ms)" and ne: "[] \<notin> set ms"
    using q by (simp_all add: msgs_in_def)
  have l4: "length_bytes a s = 4" using b by (simp add: length_bytes_def)
  have small: "sb_free a s < 2 ^ 32" using w by (auto simp: sb_free_def sb_wf_def)
  { assume m: "m \<noteq> []" "length m + 4 \<le> sb_free a s"
    have "length m + 4 < 2 ^ 32" using m(2) small by simp
    from send_quiet [OF w c this, of t] show
      "\<exists>c s'. xStreamBufferSend alone a m (of_nat (length m)) t s = Some (Some (of_nat (length m)), c, s') \<and> msgs_in a s' (ms @ [m])"
      using m b cs ne l4 by (auto simp: sb_result_def sb_payload_def msgs_in_def sb_frame_def) }
  { assume m: "sb_free a s < length m + 4" "length m + 4 < 2 ^ 32"
    from send_quiet [OF w c m(2), of 0] show
      "\<exists>c s'. xStreamBufferSend alone a m (of_nat (length m)) 0 s = Some (Some 0, c, s') \<and> msgs_in a s' ms"
      using m b cs ne by (auto simp: sb_result_def sb_payload_def msgs_in_def) }
  { assume m: "ms = m # r"
    have mn: "m \<noteq> []" using m ne by auto
    have used: "sb_used (sbufs s a) > 4" by (rule frames_nonempty [OF cs [unfolded m] mn])
    then have "length (sb_contents a s) > 4" by simp
    then have used4: "length (sb_frame m) + length (concat (map sb_frame r)) > 4" unfolding cs m by simp
    have some: "t = 0 \<or> sb_used (sbufs s a) > unat (length_bytes a s)" using used by (simp add: l4)
    { assume len: "length m \<le> unat mx"
      have "sb_takes (is_message_buffer a s) (unat mx) (sb_contents a s) m (4 + length m)"
        using b len used4 cs m by (simp add: sb_takes_def)
      from receive_quiet [OF w c some this] show
        "\<exists>s'. xStreamBufferReceive alone a mx t s = Some (Some (m, of_nat (length m)), s') \<and> msgs_in a s' r"
        using b cs m ne by (auto simp: msgs_in_def sb_frame_def) }
    { assume len: "length m > unat mx"
      have "length m \<le> length (sb_contents a s)" using cs m by (simp add: sb_frame_def)
      then have lm: "length m < 2 ^ 32" using used_less [OF w] w by (simp add: sb_wf_def)
      have f: "sb_contents a s = sb_frame m @ concat (map sb_frame r)" using cs m by simp
      have "prvBytesInBuffer a s > length_bytes a s" using used unat_bytes [OF w] l4 by (simp add: word_less_nat_alt)
      then have "receive_finish alone a mx (prvBytesInBuffer a s) s = Some ([], 0, s)"
        using read_too_long [OF w unat_bytes [OF w] f lm len] l4 by (simp add: receive_finish_def)
      then show "xStreamBufferReceive alone a mx t s = Some (Some ([], 0), s)" using receive_at_once [OF w some] by simp } }
  { assume "ms = []"
    then have "\<not> prvBytesInBuffer a s > length_bytes a s" using cs unat_bytes [OF w] l4 length_contents [of a s]
      by (simp add: word_less_nat_alt)
    then have "receive_finish alone a mx (prvBytesInBuffer a s) s = Some ([], 0, s)" by (simp add: receive_finish_def)
    then show "xStreamBufferReceive alone a mx 0 s = Some (Some ([], 0), s)" using receive_at_once [OF w, of 0] by simp }
qed

text \<open>The queue of messages a message buffer stands for: what a send that does not wait does to it, given the free
  bytes, and a receive, given the length of the caller's buffer.\<close>

definition mb_send :: "nat \<Rightarrow> u8 list \<Rightarrow> u8 list list \<Rightarrow> nat \<times> u8 list list" where
  "mb_send free m ms = (if length m + 4 \<le> free then (length m, ms @ [m]) else (0, ms))"

fun mb_receive :: "nat \<Rightarrow> u8 list list \<Rightarrow> u8 list \<times> u8 list list" where
  "mb_receive mx [] = ([], [])"
| "mb_receive mx (m # ms) = (if length m \<le> mx then (m, ms) else ([], m # ms))"



text \<open>The rollback of a receive whose buffer is too short is not safe against the writer: the tail has passed the
  length of the message for a moment, and a send from an interrupt at that moment uses its place. A buffer of 13
  bytes holds one message of 8 bytes; the receiver offers 4 bytes; the interrupt sends one byte.\<close>

definition race_state :: "rtos \<Rightarrow> (addr \<Rightarrow> u8) \<Rightarrow> u32 \<Rightarrow> u32 \<Rightarrow> sb_sys" where
  "race_state r m t h = \<lparr>srt = r\<lparr>bytes := m\<rparr>,
     sbufs = (\<lambda>_. stream_buffer0)(1000 := \<lparr>xTail = t, xHead = h, xLength = 14, xTriggerLevelBytes = 1, xTaskWaitingToReceive = NULL,
       xTaskWaitingToSend = NULL, pucBuffer = 0, ucFlags = 1, uxStreamBufferNumber = 0\<rparr>)\<rparr>"

definition race_bytes :: "addr \<Rightarrow> u8" where
  "race_bytes x = (if 0 \<le> x \<and> x < 12 then [8, 0, 0, 0, 1, 2, 3, 4, 5, 6, 7, 8] ! nat x else 0)"

definition send_in_rollback :: sgaps where
  "send_in_rollback n s = (if n = 3 then isr_sends 1000 [9] n s else Some s)"

lemma race_set [simp]:
  "(race_state r m t h)\<lparr>sbufs := (sbufs (race_state r m t h))(1000 := (sbufs (race_state r m t h) 1000)\<lparr>xTail := t'\<rparr>)\<rparr> = race_state r m t' h"
  "(race_state r m t h)\<lparr>sbufs := (sbufs (race_state r m t h))(1000 := (sbufs (race_state r m t h) 1000)\<lparr>xHead := h'\<rparr>)\<rparr> = race_state r m t h'"
  "sb_set_bytes m' (race_state r m t h) = race_state r m' t h"
  by (simp_all add: race_state_def sb_set_bytes_def)

lemma race_sel [simp]:
  "xTail (sbufs (race_state r m t h) 1000) = t" "xHead (sbufs (race_state r m t h) 1000) = h" 
  "xLength (sbufs (race_state r m t h) 1000) = 14" "pucBuffer (sbufs (race_state r m t h) 1000) = 0"
  "ucFlags (sbufs (race_state r m t h) 1000) = 1" "xTaskWaitingToReceive (sbufs (race_state r m t h) 1000) = NULL"
  "xTaskWaitingToSend (sbufs (race_state r m t h) 1000) = NULL" "xTriggerLevelBytes (sbufs (race_state r m t h) 1000) = 1"
  "sb_bytes (race_state r m t h) = m"
  by (simp_all add: race_state_def)

lemma race_read: "prvReadBytesFromBuffer send_in_rollback 1000 4 12 (race_state r race_bytes 0 12) =
    Some (le32_bytes 8, 4, race_state r race_bytes 4 12)"
  by (simp add: prvReadBytesFromBuffer_def send_in_rollback_def memcpy_out_def race_bytes_def upt_rec le32_bytes_def)

lemma race_write_1: "\<exists>m. prvWriteBytesToBuffer alone 1000 (le32_bytes 1) 4 (race_state r race_bytes 4 12) = Some (4, race_state r m 4 2) \<and>
    m 0 = 0 \<and> m 1 = 0"
  by (simp add: prvWriteBytesToBuffer_def alone_def memcpy_in_def le32_bytes_def Let_def, intro exI conjI, rule refl) simp_all

lemma race_write_2: "\<exists>m'. prvWriteBytesToBuffer (later 3 alone) 1000 [9] 1 (race_state r m 4 2) = Some (1, race_state r m' 4 3) \<and>
    m' 0 = m 0 \<and> m' 1 = m 1 \<and> m' 2 = 9"
  by (simp add: prvWriteBytesToBuffer_def alone_def later_def memcpy_in_def Let_def, intro exI conjI, rule refl) simp_all

lemma race_send: "\<exists>m. isr_sends 1000 [9] 3 (race_state r race_bytes 4 12) = Some (race_state r m 4 3) \<and> m 0 = 0 \<and> m 1 = 0 \<and> m 2 = 9"
proof -
  obtain m where m: "prvWriteBytesToBuffer alone 1000 (le32_bytes 1) 4 (race_state r race_bytes 4 12) = Some (4, race_state r m 4 2)"
    "m 0 = 0" "m 1 = 0" using race_write_1 by blast
  obtain m' where m': "prvWriteBytesToBuffer (later 3 alone) 1000 [9] 1 (race_state r m 4 2) = Some (1, race_state r m' 4 3)"
    "m' 0 = m 0" "m' 1 = m 1" "m' 2 = 9" using race_write_2 by blast
  have "isr_sends 1000 [9] 3 (race_state r race_bytes 4 12) = Some (race_state r m' 4 3)" using m m'
    by (simp add: isr_sends_def xStreamBufferSendFromISR_def prvWriteMessageToBuffer_def required_space_def length_bytes_def
        is_message_buffer_def xStreamBufferSpacesAvailable_def sb_space_def Let_def sbSEND_COMPLETE_FROM_ISR_def)
  then show ?thesis using m m' by auto
qed


end
