(* ===== verification/Timers.thy ===== *)
theory Timers imports MutexProps begin

text \<open>
  Software timers (\<open>freertos/src/timers.c\<close>): the control blocks, the two lists of active timers (one for expiry times
  before the next overflow of the tick count and one for those after it), the command queue and the timer
  task. Callbacks are the application's: \<open>cb f t\<close> is what a call of the function \<open>f\<close> with the timer \<open>t\<close> does to
  the state, and \<open>pf f p n\<close> what a pended function does.
\<close>

unbundle bit_operations_syntax

section \<open>State\<close>

datatype tlist = xActiveTimerList1 | xActiveTimerList2

record timer =
  pcTimerName :: addr
  tmItemValue :: u32
  tmContainer :: "tlist option"
  xTimerPeriodInTicks :: u32
  uxAutoReload :: u32
  pvTimerID :: addr
  pxCallbackFunction :: addr
  uxTimerNumber :: u32

record tm_sys =
  trt :: rtos
  timers :: "addr \<Rightarrow> timer"
  tlists :: "tlist \<Rightarrow> addr klist"
  pxCurrentTimerList :: tlist
  pxOverflowTimerList :: tlist
  xTimerQueue :: addr
  xTimerTaskHandle :: addr
  xLastTime :: u32

type_synonym callback = "addr \<Rightarrow> addr \<Rightarrow> tm_sys \<Rightarrow> tm_sys option"
type_synonym pended = "addr \<Rightarrow> addr \<Rightarrow> u32 \<Rightarrow> tm_sys \<Rightarrow> tm_sys option"

abbreviation (input) "tmrCOMMAND_EXECUTE_CALLBACK_FROM_ISR \<equiv> (-2 :: u32)"
abbreviation (input) "tmrCOMMAND_EXECUTE_CALLBACK \<equiv> (-1 :: u32)"
abbreviation (input) "tmrCOMMAND_START_DONT_TRACE \<equiv> (0 :: u32)"
abbreviation (input) "tmrCOMMAND_START \<equiv> (1 :: u32)"
abbreviation (input) "tmrCOMMAND_RESET \<equiv> (2 :: u32)"
abbreviation (input) "tmrCOMMAND_STOP \<equiv> (3 :: u32)"
abbreviation (input) "tmrCOMMAND_CHANGE_PERIOD \<equiv> (4 :: u32)"
abbreviation (input) "tmrCOMMAND_DELETE \<equiv> (5 :: u32)"
abbreviation (input) "tmrFIRST_FROM_ISR_COMMAND \<equiv> (6 :: u32)"
abbreviation (input) "tmrCOMMAND_START_FROM_ISR \<equiv> (6 :: u32)"
abbreviation (input) "tmrCOMMAND_RESET_FROM_ISR \<equiv> (7 :: u32)"
abbreviation (input) "tmrCOMMAND_STOP_FROM_ISR \<equiv> (8 :: u32)"
abbreviation (input) "tmrCOMMAND_CHANGE_PERIOD_FROM_ISR \<equiv> (9 :: u32)"
abbreviation (input) "configTIMER_QUEUE_LENGTH \<equiv> (5 :: u32)"
abbreviation (input) "configTIMER_TASK_PRIORITY \<equiv> (7 :: u32)"
abbreviation (input) "sizeof_DaemonTaskMessage_t \<equiv> (16 :: u32)"
abbreviation (input) "sizeof_Timer_t \<equiv> (44 :: u32)"

abbreviation tm_kern :: "tm_sys \<Rightarrow> sched" where "tm_kern s \<equiv> kern (trt s)"

abbreviation upd_tm :: "addr \<Rightarrow> (timer \<Rightarrow> timer) \<Rightarrow> tm_sys \<Rightarrow> tm_sys" where
  "upd_tm t f s \<equiv> s\<lparr>timers := (timers s)(t := f (timers s t))\<rparr>"

abbreviation tm_items :: "tm_sys \<Rightarrow> tlist \<Rightarrow> addr list" where "tm_items s L \<equiv> kl_items (tlists s L)"

definition tm_set_kern :: "sched \<Rightarrow> tm_sys \<Rightarrow> tm_sys" where
  "tm_set_kern k s = s\<lparr>trt := (trt s)\<lparr>kern := k\<rparr>\<rparr>"

section \<open>Lists of timers\<close>

definition tm_remove :: "addr \<Rightarrow> tm_sys \<Rightarrow> tm_sys option" where
  "tm_remove t s =
    (case tmContainer (timers s t) of None \<Rightarrow> None
     | Some L \<Rightarrow>
        (let s = s\<lparr>tlists := (tlists s)(L := klist_remove t (tlists s L))\<rparr>
         in Some (upd_tm t (\<lambda>c. c\<lparr>tmContainer := None\<rparr>) s)))"

definition tm_insert :: "tlist \<Rightarrow> addr \<Rightarrow> tm_sys \<Rightarrow> tm_sys" where
  "tm_insert L t s =
    (let s = s\<lparr>tlists := (tlists s)(L := klist_insert (\<lambda>u. tmItemValue (timers s u)) t (tlists s L))\<rparr>
     in upd_tm t (\<lambda>c. c\<lparr>tmContainer := Some L\<rparr>) s)"

section \<open>Messages\<close>

text \<open>A message is four words: the command and, for a timer, the value and the timer, for a pended function its address
  and its two parameters. The last word of a timer's command is not set by the code and never read.\<close>

definition tm_message :: "u32 \<Rightarrow> u32 \<Rightarrow> u32 \<Rightarrow> u32 \<Rightarrow> u8 list" where
  "tm_message xMessageID w1 w2 w3 = le32_bytes xMessageID @ le32_bytes w1 @ le32_bytes w2 @ le32_bytes w3"

definition tm_word :: "nat \<Rightarrow> u8 list \<Rightarrow> u32" where
  "tm_word k m = le32 (take 4 (drop (4 * k) m))"

section \<open>Creation\<close>

text \<open>\<open>TmrQ\<close> is the address of the string that names the queue in the registry.\<close>

definition prvCheckForValidListAndQueue :: "addr \<Rightarrow> tm_sys \<Rightarrow> tm_sys option" where
  "prvCheckForValidListAndQueue TmrQ s =
    (if xTimerQueue s = NULL
     then do {
       let s = s\<lparr>tlists := (tlists s)(xActiveTimerList1 := klist_empty)\<rparr>;
       let s = s\<lparr>tlists := (tlists s)(xActiveTimerList2 := klist_empty)\<rparr>;
       let s = s\<lparr>pxCurrentTimerList := xActiveTimerList1, pxOverflowTimerList := xActiveTimerList2\<rparr>;
       (q, r) \<leftarrow> xQueueGenericCreate configTIMER_QUEUE_LENGTH sizeof_DaemonTaskMessage_t 0 (trt s);
       let s = s\<lparr>trt := r, xTimerQueue := q\<rparr>;
       Some (if xTimerQueue s \<noteq> NULL then s\<lparr>trt := vQueueAddToRegistry (xTimerQueue s) TmrQ (trt s)\<rparr> else s)
     }
     else Some s)"

definition prvInitialiseNewTimer :: "addr \<Rightarrow> addr \<Rightarrow> u32 \<Rightarrow> u32 \<Rightarrow> addr \<Rightarrow> addr \<Rightarrow> addr \<Rightarrow> tm_sys \<Rightarrow> tm_sys option" where
  "prvInitialiseNewTimer TmrQ name period autoReload ID callback pxNewTimer s =
    (if pxNewTimer \<noteq> NULL
     then do {
       s \<leftarrow> prvCheckForValidListAndQueue TmrQ s;
       let s = upd_tm pxNewTimer (\<lambda>c. c\<lparr>pcTimerName := name, xTimerPeriodInTicks := period,
         uxAutoReload := autoReload, pvTimerID := ID, pxCallbackFunction := callback\<rparr>) s;
       Some (upd_tm pxNewTimer (\<lambda>c. c\<lparr>tmContainer := None\<rparr>) s)
     }
     else Some s)"

definition xTimerCreate :: "addr \<Rightarrow> addr \<Rightarrow> u32 \<Rightarrow> u32 \<Rightarrow> addr \<Rightarrow> addr \<Rightarrow> tm_sys \<Rightarrow> (addr \<times> tm_sys) option" where
  "xTimerCreate TmrQ name period autoReload ID callback s = do {
    (pxNewTimer, r) \<leftarrow> pvPortMalloc sizeof_Timer_t (trt s);
    let s = s\<lparr>trt := r\<rparr>;
    s \<leftarrow> (if pxNewTimer \<noteq> NULL then prvInitialiseNewTimer TmrQ name period autoReload ID callback pxNewTimer s
          else Some s);
    Some (pxNewTimer, s)
  }"

text \<open>\<open>pxNewTCB\<close> is the control block that \<open>xTaskCreate\<close> allocates.\<close>

definition xTimerCreateTimerTask :: "addr \<Rightarrow> addr \<Rightarrow> tm_sys \<Rightarrow> (bool \<times> tm_sys) option" where
  "xTimerCreateTimerTask TmrQ pxNewTCB s = do {
    s \<leftarrow> prvCheckForValidListAndQueue TmrQ s;
    Some (if xTimerQueue s \<noteq> NULL
          then (let (xReturn, k) = xTaskCreate pxNewTCB configTIMER_TASK_PRIORITY (tm_kern s);
                    s = tm_set_kern k s
                in (xReturn, if xReturn then s\<lparr>xTimerTaskHandle := pxNewTCB\<rparr> else s))
          else (False, s))
  }"

section \<open>Commands\<close>

datatype sched_state = taskSCHEDULER_NOT_STARTED | taskSCHEDULER_RUNNING | taskSCHEDULER_SUSPENDED

definition xTaskGetSchedulerState :: "sched \<Rightarrow> sched_state" where
  "xTaskGetSchedulerState k =
    (if \<not> xSchedulerRunning k then taskSCHEDULER_NOT_STARTED
     else if uxSchedulerSuspended k = 0 then taskSCHEDULER_RUNNING else taskSCHEDULER_SUSPENDED)"

text \<open>A pass of the send, as in the model of queues: no answer if the task went to sleep. \<open>pxWoken\<close> is for calls from
  interrupts.\<close>

definition xTimerGenericCommand :: "gaps \<Rightarrow> addr \<Rightarrow> u32 \<Rightarrow> u32 \<Rightarrow> bool \<Rightarrow> qcall \<Rightarrow> tm_sys \<Rightarrow>
    (bool option \<times> bool \<times> qcall \<times> tm_sys) option" where
  "xTimerGenericCommand gaps xTimer xCommandID xOptionalValue pxWoken c s =
    (if xTimerQueue s \<noteq> NULL
     then do {
       let xMessage = tm_message xCommandID xOptionalValue (word_of_int xTimer) 0;
       if sint xCommandID < sint tmrFIRST_FROM_ISR_COMMAND
       then do {
         let c = (if xTaskGetSchedulerState (tm_kern s) = taskSCHEDULER_RUNNING then c else c\<lparr>xTicks := 0\<rparr>);
         (r, c, rt) \<leftarrow> xQueueGenericSend gaps (xTimerQueue s) xMessage queueSEND_TO_BACK c (trt s);
         Some (r, pxWoken, c, s\<lparr>trt := rt\<rparr>)
       }
       else do {
         (r, pxWoken, rt) \<leftarrow> xQueueGenericSendFromISR (xTimerQueue s) xMessage pxWoken queueSEND_TO_BACK (trt s);
         Some (Some r, pxWoken, c, s\<lparr>trt := rt\<rparr>)
       }
     }
     else Some (Some False, pxWoken, c, s))"

text \<open>How the timer task itself sends a command: without waiting, and without a look at the result.\<close>

definition tm_command :: "addr \<Rightarrow> u32 \<Rightarrow> u32 \<Rightarrow> tm_sys \<Rightarrow> tm_sys option" where
  "tm_command t xCommandID xOptionalValue s =
    map_option (\<lambda>(_, _, _, s). s) (xTimerGenericCommand no_gaps t xCommandID xOptionalValue False qcall0 s)"

definition xTimerPendFunctionCall :: "gaps \<Rightarrow> addr \<Rightarrow> addr \<Rightarrow> u32 \<Rightarrow> qcall \<Rightarrow> tm_sys \<Rightarrow> (bool option \<times> qcall \<times> tm_sys) option" where
  "xTimerPendFunctionCall gaps xFunctionToPend pvParameter1 ulParameter2 c s = do {
    let xMessage = tm_message tmrCOMMAND_EXECUTE_CALLBACK (word_of_int xFunctionToPend) (word_of_int pvParameter1) ulParameter2;
    (r, c, rt) \<leftarrow> xQueueGenericSend gaps (xTimerQueue s) xMessage queueSEND_TO_BACK c (trt s);
    Some (r, c, s\<lparr>trt := rt\<rparr>)
  }"

definition xTimerPendFunctionCallFromISR :: "addr \<Rightarrow> addr \<Rightarrow> u32 \<Rightarrow> bool \<Rightarrow> tm_sys \<Rightarrow> (bool \<times> bool \<times> tm_sys) option" where
  "xTimerPendFunctionCallFromISR xFunctionToPend pvParameter1 ulParameter2 pxWoken s = do {
    let xMessage = tm_message tmrCOMMAND_EXECUTE_CALLBACK_FROM_ISR (word_of_int xFunctionToPend) (word_of_int pvParameter1) ulParameter2;
    (r, pxWoken, rt) \<leftarrow> xQueueGenericSendFromISR (xTimerQueue s) xMessage pxWoken queueSEND_TO_BACK (trt s);
    Some (r, pxWoken, s\<lparr>trt := rt\<rparr>)
  }"

section \<open>Time and the active lists\<close>

text \<open>The timers of the current list fire when the tick count overflows, the reloading ones for each expiry time before
  the overflow.\<close>

partial_function (option) switch_loop :: "callback \<Rightarrow> tm_sys \<Rightarrow> tm_sys option" where
  "switch_loop cb s =
    (case tm_items s (pxCurrentTimerList s) of
       [] \<Rightarrow> Some s
     | pxTimer # _ \<Rightarrow> do {
         let xNextExpireTime = tmItemValue (timers s pxTimer);
         s \<leftarrow> tm_remove pxTimer s;
         s \<leftarrow> cb (pxCallbackFunction (timers s pxTimer)) pxTimer s;
         s \<leftarrow> (if uxAutoReload (timers s pxTimer) = 1
               then do {
                 let xReloadTime = xNextExpireTime + xTimerPeriodInTicks (timers s pxTimer);
                 if xReloadTime > xNextExpireTime
                 then (let s = upd_tm pxTimer (\<lambda>c. c\<lparr>tmItemValue := xReloadTime\<rparr>) s
                       in Some (tm_insert (pxCurrentTimerList s) pxTimer s))
                 else tm_command pxTimer tmrCOMMAND_START_DONT_TRACE xNextExpireTime s
               }
               else Some s);
         switch_loop cb s
       })"

definition prvSwitchTimerLists :: "callback \<Rightarrow> tm_sys \<Rightarrow> tm_sys option" where
  "prvSwitchTimerLists cb s = do {
    s \<leftarrow> switch_loop cb s;
    Some (s\<lparr>pxCurrentTimerList := pxOverflowTimerList s, pxOverflowTimerList := pxCurrentTimerList s\<rparr>)
  }"

text \<open>The time and whether the lists were switched.\<close>

definition prvSampleTimeNow :: "callback \<Rightarrow> tm_sys \<Rightarrow> (u32 \<times> bool \<times> tm_sys) option" where
  "prvSampleTimeNow cb s = do {
    let xTimeNow = xTickCount (tm_kern s);
    (switched, s) \<leftarrow> (if xTimeNow < xLastTime s then do { s \<leftarrow> prvSwitchTimerLists cb s; Some (True, s) }
                      else Some (False, s));
    Some (xTimeNow, switched, s\<lparr>xLastTime := xTimeNow\<rparr>)
  }"

definition prvInsertTimerInActiveList :: "addr \<Rightarrow> u32 \<Rightarrow> u32 \<Rightarrow> u32 \<Rightarrow> tm_sys \<Rightarrow> bool \<times> tm_sys" where
  "prvInsertTimerInActiveList pxTimer xNextExpiryTime xTimeNow xCommandTime s =
    (let s = upd_tm pxTimer (\<lambda>c. c\<lparr>tmItemValue := xNextExpiryTime\<rparr>) s
     in if xNextExpiryTime \<le> xTimeNow
        then (if xTimeNow - xCommandTime \<ge> xTimerPeriodInTicks (timers s pxTimer) then (True, s)
              else (False, tm_insert (pxOverflowTimerList s) pxTimer s))
        else (if xTimeNow < xCommandTime \<and> xNextExpiryTime \<ge> xCommandTime then (True, s)
              else (False, tm_insert (pxCurrentTimerList s) pxTimer s)))"

text \<open>The next expiry time and whether the list was empty.\<close>

definition prvGetNextExpireTime :: "tm_sys \<Rightarrow> u32 \<times> bool" where
  "prvGetNextExpireTime s =
    (case tm_items s (pxCurrentTimerList s) of [] \<Rightarrow> (0, True) | t # _ \<Rightarrow> (tmItemValue (timers s t), False))"

definition prvProcessExpiredTimer :: "callback \<Rightarrow> u32 \<Rightarrow> u32 \<Rightarrow> tm_sys \<Rightarrow> tm_sys option" where
  "prvProcessExpiredTimer cb xNextExpireTime xTimeNow s = do {
    pxTimer \<leftarrow> head_owner (tlists s (pxCurrentTimerList s));
    s \<leftarrow> tm_remove pxTimer s;
    s \<leftarrow> (if uxAutoReload (timers s pxTimer) = 1
          then (let (b, s) = prvInsertTimerInActiveList pxTimer (xNextExpireTime + xTimerPeriodInTicks (timers s pxTimer))
                      xTimeNow xNextExpireTime s
                in if b then tm_command pxTimer tmrCOMMAND_START_DONT_TRACE xNextExpireTime s else Some s)
          else Some s);
    cb (pxCallbackFunction (timers s pxTimer)) pxTimer s
  }"

section \<open>The timer task\<close>

text \<open>Processing or blocking: the task sleeps unless the answer of \<open>xTaskResumeAll\<close> says that it has yielded. \<open>gaps\<close> is what interrupts
  do while the queue is locked.\<close>

definition prvProcessTimerOrBlockTask :: "callback \<Rightarrow> gaps \<Rightarrow> u32 \<Rightarrow> bool \<Rightarrow> tm_sys \<Rightarrow> tm_sys option" where
  "prvProcessTimerOrBlockTask cb gaps xNextExpireTime xListWasEmpty s = do {
    let s = tm_set_kern (vTaskSuspendAll (tm_kern s)) s;
    (xTimeNow, switched, s) \<leftarrow> prvSampleTimeNow cb s;
    if \<not> switched
    then (if \<not> xListWasEmpty \<and> xNextExpireTime \<le> xTimeNow
          then do {
            (_, k) \<leftarrow> xTaskResumeAll (tm_kern s);
            prvProcessExpiredTimer cb xNextExpireTime xTimeNow (tm_set_kern k s)
          }
          else do {
            let xListWasEmpty = (if xListWasEmpty then tm_items s (pxOverflowTimerList s) = [] else xListWasEmpty);
            r \<leftarrow> vQueueWaitForMessageRestricted gaps (xTimerQueue s) (xNextExpireTime - xTimeNow) xListWasEmpty (trt s);
            let s = s\<lparr>trt := r\<rparr>;
            (y, k) \<leftarrow> xTaskResumeAll (tm_kern s);
            Some (tm_set_kern (if \<not> y then portYIELD k else k) s)
          })
    else do {
      (_, k) \<leftarrow> xTaskResumeAll (tm_kern s);
      Some (tm_set_kern k s)
    }
  }"

text \<open>One received message.\<close>

definition process_timer_command :: "callback \<Rightarrow> u8 list \<Rightarrow> tm_sys \<Rightarrow> tm_sys option" where
  "process_timer_command cb xMessage s = do {
    let pxTimer = uint (tm_word 2 xMessage);
    let xMessageID = tm_word 0 xMessage;
    let xMessageValue = tm_word 1 xMessage;
    s \<leftarrow> (if tmContainer (timers s pxTimer) \<noteq> None then tm_remove pxTimer s else Some s);
    (xTimeNow, _, s) \<leftarrow> prvSampleTimeNow cb s;
    if xMessageID \<in> {tmrCOMMAND_START, tmrCOMMAND_START_FROM_ISR, tmrCOMMAND_RESET, tmrCOMMAND_RESET_FROM_ISR,
        tmrCOMMAND_START_DONT_TRACE}
    then (let (b, s) = prvInsertTimerInActiveList pxTimer (xMessageValue + xTimerPeriodInTicks (timers s pxTimer))
                xTimeNow xMessageValue s
          in if b
             then do {
               s \<leftarrow> cb (pxCallbackFunction (timers s pxTimer)) pxTimer s;
               if uxAutoReload (timers s pxTimer) = 1
               then tm_command pxTimer tmrCOMMAND_START_DONT_TRACE (xMessageValue + xTimerPeriodInTicks (timers s pxTimer)) s
               else Some s
             }
             else Some s)
    else if xMessageID \<in> {tmrCOMMAND_STOP, tmrCOMMAND_STOP_FROM_ISR} then Some s
    else if xMessageID \<in> {tmrCOMMAND_CHANGE_PERIOD, tmrCOMMAND_CHANGE_PERIOD_FROM_ISR}
    then (let s = upd_tm pxTimer (\<lambda>c. c\<lparr>xTimerPeriodInTicks := xMessageValue\<rparr>) s
          in Some (snd (prvInsertTimerInActiveList pxTimer (xTimeNow + xTimerPeriodInTicks (timers s pxTimer)) xTimeNow xTimeNow s)))
    else if xMessageID = tmrCOMMAND_DELETE then do { r \<leftarrow> vPortFree pxTimer (trt s); Some (s\<lparr>trt := r\<rparr>) }
    else Some s
  }"

definition process_message :: "callback \<Rightarrow> pended \<Rightarrow> u8 list \<Rightarrow> tm_sys \<Rightarrow> tm_sys option" where
  "process_message cb pf xMessage s = do {
    s \<leftarrow> (if sint (tm_word 0 xMessage) < 0
          then pf (uint (tm_word 1 xMessage)) (uint (tm_word 2 xMessage)) (tm_word 3 xMessage) s
          else Some s);
    if sint (tm_word 0 xMessage) \<ge> 0 then process_timer_command cb xMessage s else Some s
  }"

partial_function (option) prvProcessReceivedCommands :: "callback \<Rightarrow> pended \<Rightarrow> tm_sys \<Rightarrow> tm_sys option" where
  "prvProcessReceivedCommands cb pf s = do {
    (m, r) \<leftarrow> receive_now no_gaps (xTimerQueue s) (trt s);
    let s = s\<lparr>trt := r\<rparr>;
    (case m of
       None \<Rightarrow> Some s
     | Some xMessage \<Rightarrow> do {
         s \<leftarrow> process_message cb pf xMessage s;
         prvProcessReceivedCommands cb pf s
       })
  }"

text \<open>A round of the task's endless loop. The task may sleep at the end of the first part.\<close>

definition tm_first_half :: "callback \<Rightarrow> gaps \<Rightarrow> tm_sys \<Rightarrow> tm_sys option" where
  "tm_first_half cb gaps s =
    (let (xNextExpireTime, xListWasEmpty) = prvGetNextExpireTime s
     in prvProcessTimerOrBlockTask cb gaps xNextExpireTime xListWasEmpty s)"

section \<open>Queries\<close>

definition xTimerIsTimerActive :: "addr \<Rightarrow> tm_sys \<Rightarrow> bool" where
  "xTimerIsTimerActive t s \<longleftrightarrow> tmContainer (timers s t) \<noteq> None"

definition xTimerGetPeriod :: "addr \<Rightarrow> tm_sys \<Rightarrow> u32" where
  "xTimerGetPeriod t s = xTimerPeriodInTicks (timers s t)"

definition xTimerGetExpiryTime :: "addr \<Rightarrow> tm_sys \<Rightarrow> u32" where
  "xTimerGetExpiryTime t s = tmItemValue (timers s t)"

definition pcTimerGetName :: "addr \<Rightarrow> tm_sys \<Rightarrow> addr" where
  "pcTimerGetName t s = pcTimerName (timers s t)"

definition pvTimerGetTimerID :: "addr \<Rightarrow> tm_sys \<Rightarrow> addr" where
  "pvTimerGetTimerID t s = pvTimerID (timers s t)"

definition vTimerSetTimerID :: "addr \<Rightarrow> addr \<Rightarrow> tm_sys \<Rightarrow> tm_sys" where
  "vTimerSetTimerID t i s = upd_tm t (\<lambda>c. c\<lparr>pvTimerID := i\<rparr>) s"

definition xTimerGetTimerDaemonTaskHandle :: "tm_sys \<Rightarrow> addr" where
  "xTimerGetTimerDaemonTaskHandle s = xTimerTaskHandle s"

definition uxTimerGetTimerNumber :: "addr \<Rightarrow> tm_sys \<Rightarrow> u32" where
  "uxTimerGetTimerNumber t s = uxTimerNumber (timers s t)"

definition vTimerSetTimerNumber :: "addr \<Rightarrow> u32 \<Rightarrow> tm_sys \<Rightarrow> tm_sys" where
  "vTimerSetTimerNumber t n s = upd_tm t (\<lambda>c. c\<lparr>uxTimerNumber := n\<rparr>) s"

section \<open>The lists\<close>

definition tlists_ok :: "tm_sys \<Rightarrow> bool" where
  "tlists_ok s \<longleftrightarrow> pxCurrentTimerList s \<noteq> pxOverflowTimerList s \<and>
     (\<forall>L. distinct (tm_items s L) \<and> (\<forall>t. t \<in> set (tm_items s L) \<longleftrightarrow> tmContainer (timers s t) = Some L) \<and>
       klist_sorted (\<lambda>t. tmItemValue (timers s t)) (tlists s L))"

lemma tlists_okD:
  assumes "tlists_ok s"
  shows "distinct (tm_items s L)" "t \<in> set (tm_items s L) \<longleftrightarrow> tmContainer (timers s t) = Some L"
    "klist_sorted (\<lambda>t. tmItemValue (timers s t)) (tlists s L)" "pxCurrentTimerList s \<noteq> pxOverflowTimerList s"
  using assms by (simp_all add: tlists_ok_def)

lemma tlists_okI:
  assumes "pxCurrentTimerList s \<noteq> pxOverflowTimerList s"
    and "\<And>L. distinct (tm_items s L)"
    and "\<And>L t. t \<in> set (tm_items s L) \<longleftrightarrow> tmContainer (timers s t) = Some L"
    and "\<And>L. klist_sorted (\<lambda>t. tmItemValue (timers s t)) (tlists s L)"
  shows "tlists_ok s"
  using assms by (simp add: tlists_ok_def)

definition tm_removed :: "addr \<Rightarrow> tlist \<Rightarrow> tm_sys \<Rightarrow> tm_sys" where
  "tm_removed t L s = upd_tm t (\<lambda>c. c\<lparr>tmContainer := None\<rparr>) (s\<lparr>tlists := (tlists s)(L := klist_remove t (tlists s L))\<rparr>)"

lemma tm_remove_eq: "tmContainer (timers s t) = Some L \<Longrightarrow> tm_remove t s = Some (tm_removed t L s)"
  by (simp add: tm_remove_def tm_removed_def)

lemma tm_removed_sel [simp]:
  "trt (tm_removed t L s) = trt s" "timers (tm_removed t L s) = (timers s)(t := (timers s t)\<lparr>tmContainer := None\<rparr>)"
  "tlists (tm_removed t L s) = (tlists s)(L := klist_remove t (tlists s L))"
  "pxCurrentTimerList (tm_removed t L s) = pxCurrentTimerList s" "pxOverflowTimerList (tm_removed t L s) = pxOverflowTimerList s"
  "xTimerQueue (tm_removed t L s) = xTimerQueue s" "xLastTime (tm_removed t L s) = xLastTime s"
  by (simp_all add: tm_removed_def)

lemma tm_insert_sel [simp]:
  "trt (tm_insert L t s) = trt s" "timers (tm_insert L t s) = (timers s)(t := (timers s t)\<lparr>tmContainer := Some L\<rparr>)"
  "tlists (tm_insert L t s) = (tlists s)(L := klist_insert (\<lambda>u. tmItemValue (timers s u)) t (tlists s L))"
  "pxCurrentTimerList (tm_insert L t s) = pxCurrentTimerList s" "pxOverflowTimerList (tm_insert L t s) = pxOverflowTimerList s"
  "xTimerQueue (tm_insert L t s) = xTimerQueue s" "xLastTime (tm_insert L t s) = xLastTime s"
  by (simp_all add: tm_insert_def)

lemma sorted_wrt_cong: "(\<And>x. x \<in> set xs \<Longrightarrow> f x = g x) \<Longrightarrow> sorted_wrt (\<lambda>x y. f x \<le> f y) xs = sorted_wrt (\<lambda>x y. g x \<le> (g y :: u32)) xs"
  by (induction xs) auto

lemma tlists_ok_removed:
  assumes k: "tlists_ok s" and t: "tmContainer (timers s t) = Some L"
  shows "tlists_ok (tm_removed t L s)"
proof (rule tlists_okI)
  show "pxCurrentTimerList (tm_removed t L s) \<noteq> pxOverflowTimerList (tm_removed t L s)" using k by (simp add: tlists_ok_def)
  fix M
  show "distinct (tm_items (tm_removed t L s) M)" using tlists_okD(1) [OF k] by simp
  show "u \<in> set (tm_items (tm_removed t L s) M) \<longleftrightarrow> tmContainer (timers (tm_removed t L s) u) = Some M" for u
    using tlists_okD(1,2) [OF k] t by (auto simp: set_remove1_eq)
  have "sorted_wrt (\<lambda>x y. tmItemValue (timers s x) \<le> tmItemValue (timers s y)) (tm_items (tm_removed t L s) M)"
    using tlists_okD(3) [OF k, of M] klist_remove_sorted [OF tlists_okD(3) [OF k, of L], of t] by simp
  moreover have "tmItemValue (timers (tm_removed t L s) x) = tmItemValue (timers s x)" for x by simp
  ultimately show "klist_sorted (\<lambda>u. tmItemValue (timers (tm_removed t L s) u)) (tlists (tm_removed t L s) M)" by simp
qed

lemma tlists_ok_inserted:
  assumes k: "tlists_ok s" and t: "tmContainer (timers s t) = None"
  shows "tlists_ok (tm_insert L t s)"
proof (rule tlists_okI)
  have nt: "t \<notin> set (tm_items s M)" for M using tlists_okD(2) [OF k] t by simp
  show "pxCurrentTimerList (tm_insert L t s) \<noteq> pxOverflowTimerList (tm_insert L t s)" using k by (simp add: tlists_ok_def)
  fix M
  have d: "distinct (kl_items (klist_insert f t l))" if "t \<notin> set (kl_items l)" "distinct (kl_items l)" for f l
    using that set_take_subset [of _ "kl_items l"] set_drop_subset [of _ "kl_items l"]
    by (auto simp: klist_insert_def insert_at_def Let_def set_take_disj_set_drop_if_distinct)
  show "distinct (tm_items (tm_insert L t s) M)" using tlists_okD(1) [OF k] nt d by simp
  show "u \<in> set (tm_items (tm_insert L t s) M) \<longleftrightarrow> tmContainer (timers (tm_insert L t s) u) = Some M" for u
    using tlists_okD(2) [OF k] t by auto
  have "sorted_wrt (\<lambda>x y. tmItemValue (timers s x) \<le> tmItemValue (timers s y)) (tm_items (tm_insert L t s) M)"
    using tlists_okD(3) [OF k, of M] klist_insert_sorted [OF tlists_okD(3) [OF k, of L], of t] by simp
  moreover have "tmItemValue (timers (tm_insert L t s) x) = tmItemValue (timers s x)" for x by simp
  ultimately show "klist_sorted (\<lambda>u. tmItemValue (timers (tm_insert L t s) u)) (tlists (tm_insert L t s) M)" by simp
qed

text \<open>A timer in no list may change.\<close>

lemma tlists_ok_upd:
  assumes k: "tlists_ok s" and t: "tmContainer (timers s t) = None" and f: "tmContainer (f (timers s t)) = None"
  shows "tlists_ok (upd_tm t f s)"
proof -
  have nt: "t \<notin> set (tm_items s M)" for M using tlists_okD(2) [OF k] t by simp
  have so: "klist_sorted (\<lambda>u. tmItemValue (timers (upd_tm t f s) u)) (tlists s M)" for M
  proof -
    have "klist_sorted (\<lambda>u. tmItemValue (timers (upd_tm t f s) u)) (tlists s M) = klist_sorted (\<lambda>u. tmItemValue (timers s u)) (tlists s M)"
    proof (rule sorted_wrt_cong)
      fix u assume "u \<in> set (tm_items s M)"
      then have "u \<noteq> t" using nt by metis
      then show "tmItemValue (timers (upd_tm t f s) u) = tmItemValue (timers s u)" by simp
    qed
    then show ?thesis using tlists_okD(3) [OF k] by simp
  qed
  have co: "u \<in> set (tm_items s M) \<longleftrightarrow> tmContainer (timers (upd_tm t f s) u) = Some M" for u M
    using tlists_okD(2) [OF k] t f nt by (cases "u = t") auto
  show ?thesis by (rule tlists_okI) (use tlists_okD(1,4) [OF k] co so in simp_all)
qed

section \<open>The command queue\<close>

lemma length_tm_message [simp]: "length (tm_message a b c d) = 16"
  by (simp add: tm_message_def le32_bytes_def)

lemma tm_word_message [simp]:
  "tm_word 0 (tm_message a b c d) = a" "tm_word (Suc 0) (tm_message a b c d) = b"
  "tm_word 2 (tm_message a b c d) = c" "tm_word 3 (tm_message a b c d) = d"
  by (simp_all add: tm_word_def tm_message_def le32_le32_bytes)

definition tm_ok :: "addr \<Rightarrow> tm_sys \<Rightarrow> u8 list list \<Rightarrow> bool" where
  "tm_ok i s xs \<longleftrightarrow> tlists_ok s \<and> xTimerQueue s \<noteq> NULL \<and> queue_inv i (xTimerQueue s) 5 16 (trt s) xs"

lemma tm_command_spec:
  assumes k: "tm_ok i s xs" and c: "sint c < 6"
  shows "\<exists>r. tm_command t c v s = Some (s\<lparr>trt := r\<rparr>) \<and>
    tm_ok i (s\<lparr>trt := r\<rparr>) (if length xs < 5 then xs @ [tm_message c v (word_of_int t) 0] else xs)"
proof -
  let ?m = "tm_message c v (word_of_int t) 0"
  have q: "queue_inv i (xTimerQueue s) 5 16 (trt s) xs" "xTimerQueue s \<noteq> NULL" "tlists_ok s" using k by (simp_all add: tm_ok_def)
  have t0: "(if xTaskGetSchedulerState (tm_kern s) = taskSCHEDULER_RUNNING then qcall0 else qcall0\<lparr>xTicks := 0\<rparr>) = qcall0"
    by (simp add: qcall0_def)
  have b: "length xs \<le> 5" by (rule queue_inv_bound [OF q(1)])
  obtain b r where r: "xQueueGenericSend no_gaps (xTimerQueue s) ?m queueSEND_TO_BACK qcall0 (trt s) = Some (Some b, qcall0, r)"
    "queue_inv i (xTimerQueue s) 5 16 r (if length xs < 5 then xs @ [?m] else xs)"
  proof (cases "length xs < 5")
    case True
    then show ?thesis using that xQueueGenericSend_room [OF q(1) True, of ?m queueSEND_TO_BACK "xs @ [?m]" no_gaps qcall0] by auto
  next
    case False
    then have "length xs = 5" using b by simp
    then show ?thesis using that xQueueGenericSend_full [OF q(1), of queueSEND_TO_BACK qcall0 no_gaps ?m] q(1) False
      by (auto simp: qcall0_def)
  qed
  have "tlists_ok (s\<lparr>trt := r\<rparr>)" using q(3) by (simp add: tlists_ok_def)
  then have "tm_ok i (s\<lparr>trt := r\<rparr>) (if length xs < 5 then xs @ [?m] else xs)" using q(2) r(2) by (simp add: tm_ok_def)
  moreover have "tm_command t c v s = Some (s\<lparr>trt := r\<rparr>)"
    using q(2) c r(1) by (simp add: tm_command_def xTimerGenericCommand_def t0)
  ultimately show ?thesis by blast
qed

lemma tm_ok_keep:
  "tm_ok i s xs \<Longrightarrow> tlists_ok s' \<Longrightarrow> trt s' = trt s \<Longrightarrow> xTimerQueue s' = xTimerQueue s \<Longrightarrow> tm_ok i s' xs"
  by (simp add: tm_ok_def)

section \<open>Switching the lists\<close>

text \<open>A callback may use the kernel and send commands to the timer task, without waiting.\<close>

definition cb_ok :: "addr \<Rightarrow> callback \<Rightarrow> bool" where
  "cb_ok i cb \<longleftrightarrow> (\<forall>f t s xs. tm_ok i s xs \<longrightarrow> (\<exists>r ys. cb f t s = Some (s\<lparr>trt := r\<rparr>) \<and> tm_ok i (s\<lparr>trt := r\<rparr>) ys))"

text \<open>How far the timers of the current list are from the overflow.\<close>

definition tm_left :: "tm_sys \<Rightarrow> nat" where
  "tm_left s = (\<Sum>t \<in> set (tm_items s (pxCurrentTimerList s)). 2 ^ 32 - unat (tmItemValue (timers s t)))"

lemma tm_left_trt [simp]: "tm_left (s\<lparr>trt := r\<rparr>) = tm_left s"
  by (simp add: tm_left_def)

lemma tm_left_removed:
  assumes k: "tlists_ok s" and t: "tmContainer (timers s t) = Some (pxCurrentTimerList s)"
  shows "tm_left s = (2 ^ 32 - unat (tmItemValue (timers s t))) + tm_left (tm_removed t (pxCurrentTimerList s) s)"
proof -
  let ?L = "pxCurrentTimerList s" and ?f = "\<lambda>u. 2 ^ 32 - unat (tmItemValue (timers s u))"
  have t: "t \<in> set (tm_items s ?L)" using tlists_okD(2) [OF k] t by simp
  have "tm_left (tm_removed t ?L s) = sum ?f (set (tm_items s ?L) - {t})"
    unfolding tm_left_def using tlists_okD(1) [OF k] by (intro sum.cong) (auto simp: set_remove1_eq)
  then show ?thesis unfolding tm_left_def using t by (simp add: sum.remove)
qed

lemma tm_left_inserted:
  assumes k: "tlists_ok s" and t: "tmContainer (timers s t) = None"
  shows "tm_left (tm_insert (pxCurrentTimerList s) t s) = (2 ^ 32 - unat (tmItemValue (timers s t))) + tm_left s"
proof -
  have "t \<notin> set (tm_items s (pxCurrentTimerList s))" using tlists_okD(2) [OF k] t by simp
  moreover have "tm_left (tm_insert (pxCurrentTimerList s) t s) =
      (\<Sum>u \<in> insert t (set (tm_items s (pxCurrentTimerList s))). 2 ^ 32 - unat (tmItemValue (timers s u)))"
    unfolding tm_left_def by (intro sum.cong) auto
  ultimately show ?thesis unfolding tm_left_def by simp
qed

lemma tm_left_upd:
  assumes k: "tlists_ok s" and t: "tmContainer (timers s t) = None"
  shows "tm_left (upd_tm t f s) = tm_left s"
proof -
  have "t \<notin> set (tm_items s (pxCurrentTimerList s))" using tlists_okD(2) [OF k] t by simp
  then show ?thesis unfolding tm_left_def by (intro sum.cong) auto
qed

text \<open>What a round of the loop does to the first timer, before the callback.\<close>

definition switch_round :: "callback \<Rightarrow> addr \<Rightarrow> tm_sys \<Rightarrow> tm_sys option" where
  "switch_round cb t s = do {
    let v = tmItemValue (timers s t);
    s \<leftarrow> tm_remove t s;
    s \<leftarrow> cb (pxCallbackFunction (timers s t)) t s;
    if uxAutoReload (timers s t) = 1
    then (if v + xTimerPeriodInTicks (timers s t) > v
          then (let s = upd_tm t (\<lambda>c. c\<lparr>tmItemValue := v + xTimerPeriodInTicks (timers s t)\<rparr>) s
                in Some (tm_insert (pxCurrentTimerList s) t s))
          else tm_command t tmrCOMMAND_START_DONT_TRACE v s)
    else Some s
  }"

lemma switch_loop_unfold:
  "switch_loop cb s = (case tm_items s (pxCurrentTimerList s) of [] \<Rightarrow> Some s | t # _ \<Rightarrow> switch_round cb t s \<bind> switch_loop cb)"
  unfolding switch_round_def Let_def by (subst switch_loop.simps) (simp add: Let_def cong: if_cong split: list.split)

text \<open>The other fields are those of before.\<close>

definition tm_frame :: "tm_sys \<Rightarrow> tm_sys \<Rightarrow> bool" where
  "tm_frame s s' \<longleftrightarrow> pxCurrentTimerList s' = pxCurrentTimerList s \<and> pxOverflowTimerList s' = pxOverflowTimerList s \<and>
     xTimerQueue s' = xTimerQueue s \<and> xLastTime s' = xLastTime s \<and>
     tlists s' (pxOverflowTimerList s) = tlists s (pxOverflowTimerList s) \<and>
     (\<forall>t. timers s' t = (timers s t)\<lparr>tmItemValue := tmItemValue (timers s' t), tmContainer := tmContainer (timers s' t)\<rparr>) \<and>
     (\<forall>t. tmContainer (timers s t) \<noteq> Some (pxCurrentTimerList s) \<longrightarrow> timers s' t = timers s t)"

lemma timer_list_fields:
  fixes a b c :: timer
  assumes "b = a\<lparr>tmItemValue := tmItemValue b, tmContainer := tmContainer b\<rparr>"
    and "c = b\<lparr>tmItemValue := tmItemValue c, tmContainer := tmContainer c\<rparr>"
  shows "c = a\<lparr>tmItemValue := tmItemValue c, tmContainer := tmContainer c\<rparr>"
  using assms by (cases a; cases b; cases c) simp

lemma tm_frame_trans:
  assumes "tm_frame s s1" and "tm_frame s1 s2"
  shows "tm_frame s s2"
proof -
  have "timers s2 t = (timers s t)\<lparr>tmItemValue := tmItemValue (timers s2 t), tmContainer := tmContainer (timers s2 t)\<rparr>" for t
  proof -
    have "timers s1 t = (timers s t)\<lparr>tmItemValue := tmItemValue (timers s1 t), tmContainer := tmContainer (timers s1 t)\<rparr>"
      "timers s2 t = (timers s1 t)\<lparr>tmItemValue := tmItemValue (timers s2 t), tmContainer := tmContainer (timers s2 t)\<rparr>"
      using assms by (simp_all add: tm_frame_def)
    then show ?thesis by (rule timer_list_fields)
  qed
  moreover have "timers s2 t = timers s t" if "tmContainer (timers s t) \<noteq> Some (pxCurrentTimerList s)" for t
    using assms that by (simp add: tm_frame_def)
  ultimately show ?thesis using assms unfolding tm_frame_def by simp
qed

lemma switch_round_spec:
  assumes k: "tm_ok i s xs" and cb: "cb_ok i cb" and it: "tm_items s (pxCurrentTimerList s) = t # ts"
  shows "\<exists>s' ys. switch_round cb t s = Some s' \<and> tm_ok i s' ys \<and> tm_frame s s' \<and> tm_left s' < tm_left s"
proof -
  let ?L = "pxCurrentTimerList s" and ?v = "tmItemValue (timers s t)" and ?p = "xTimerPeriodInTicks (timers s t)"
  have l: "tlists_ok s" using k by (simp add: tm_ok_def)
  have c: "tmContainer (timers s t) = Some ?L" using tlists_okD(2) [OF l, of t ?L] it by simp
  define s1 where "s1 = tm_removed t ?L s"
  have l1: "tlists_ok s1" unfolding s1_def by (rule tlists_ok_removed [OF l c])
  have k1: "tm_ok i s1 xs" by (rule tm_ok_keep [OF k l1]) (simp_all add: s1_def)
  have v: "unat ?v < 2 ^ 32" by simp
  have left1: "tm_left s = (2 ^ 32 - unat ?v) + tm_left s1" unfolding s1_def by (rule tm_left_removed [OF l c])
  obtain r ys where r: "cb (pxCallbackFunction (timers s t)) t s1 = Some (s1\<lparr>trt := r\<rparr>)" "tm_ok i (s1\<lparr>trt := r\<rparr>) ys"
    using cb k1 unfolding cb_ok_def by blast
  let ?s2 = "s1\<lparr>trt := r\<rparr>"
  have l2: "tlists_ok ?s2" using r(2) by (simp add: tm_ok_def)
  have c2: "tmContainer (timers ?s2 t) = None" by (simp add: s1_def)
  have f2: "tm_frame s ?s2" using tlists_okD(4) [OF l] c by (auto simp: tm_frame_def s1_def)
  have run: "switch_round cb t s = (if uxAutoReload (timers s t) = 1
    then (if ?v + ?p > ?v then Some (tm_insert ?L t (upd_tm t (\<lambda>c. c\<lparr>tmItemValue := ?v + ?p\<rparr>) ?s2))
          else tm_command t tmrCOMMAND_START_DONT_TRACE ?v ?s2) else Some ?s2)"
    unfolding switch_round_def Let_def tm_remove_eq [OF c] using r(1) by (simp add: s1_def)
  consider "uxAutoReload (timers s t) \<noteq> 1" | "uxAutoReload (timers s t) = 1" "?v + ?p > ?v"
    | "uxAutoReload (timers s t) = 1" "\<not> ?v + ?p > ?v" by blast
  then show ?thesis
  proof cases
    case 1
    then have "switch_round cb t s = Some ?s2" using run by simp
    moreover have "tm_left ?s2 < tm_left s" using left1 v by simp
    ultimately show ?thesis using r(2) f2 by blast
  next
    case 2
    let ?u = "upd_tm t (\<lambda>c. c\<lparr>tmItemValue := ?v + ?p\<rparr>) ?s2" and ?s3 = "tm_insert ?L t (upd_tm t (\<lambda>c. c\<lparr>tmItemValue := ?v + ?p\<rparr>) ?s2)"
    have lu: "tlists_ok ?u" by (rule tlists_ok_upd [OF l2 c2]) (simp add: s1_def)
    have cu: "tmContainer (timers ?u t) = None" "pxCurrentTimerList ?u = ?L" by (simp_all add: s1_def)
    have l3: "tlists_ok ?s3" by (rule tlists_ok_inserted [OF lu cu(1)])
    have "tm_left ?s3 = (2 ^ 32 - unat (?v + ?p)) + tm_left s1"
      using tm_left_inserted [OF lu cu(1)] tm_left_upd [OF l2 c2, of "\<lambda>c. c\<lparr>tmItemValue := ?v + ?p\<rparr>"] cu(2) by simp
    moreover have "2 ^ 32 - unat (?v + ?p) < (2 :: nat) ^ 32 - unat ?v"
      by (rule diff_less_mono2) (use 2(2) in \<open>simp_all add: word_less_nat_alt\<close>)
    ultimately have "tm_left ?s3 < tm_left s" using left1 by simp
    moreover have "tm_ok i ?s3 ys" by (rule tm_ok_keep [OF r(2) l3]) simp_all
    moreover have "tm_frame s ?s3" using f2 tlists_okD(4) [OF l] c by (auto simp: tm_frame_def s1_def)
    ultimately show ?thesis using run 2 by auto
  next
    case 3
    obtain r' where r': "tm_command t tmrCOMMAND_START_DONT_TRACE ?v ?s2 = Some (?s2\<lparr>trt := r'\<rparr>)"
      "tm_ok i (?s2\<lparr>trt := r'\<rparr>) (if length ys < 5 then ys @ [tm_message 0 ?v (word_of_int t) 0] else ys)"
      using tm_command_spec [OF r(2), of 0 t ?v] by auto
    have "tm_frame s (?s2\<lparr>trt := r'\<rparr>)" using f2 by (simp add: tm_frame_def)
    moreover have "tm_left (?s2\<lparr>trt := r'\<rparr>) < tm_left s" using left1 v by simp
    ultimately show ?thesis using run 3 r' by auto
  qed
qed

lemma switch_loop_spec:
  "tm_ok i s xs \<Longrightarrow> cb_ok i cb \<Longrightarrow>
    \<exists>s' ys. switch_loop cb s = Some s' \<and> tm_ok i s' ys \<and> tm_frame s s' \<and> tm_items s' (pxCurrentTimerList s') = []"
proof (induction "tm_left s" arbitrary: s xs rule: less_induct)
  case less
  show ?case
  proof (cases "tm_items s (pxCurrentTimerList s)")
    case Nil
    then show ?thesis using less.prems by (subst switch_loop_unfold) (auto simp: tm_frame_def)
  next
    case (Cons t ts)
    obtain s1 ys where s1: "switch_round cb t s = Some s1" "tm_ok i s1 ys" "tm_frame s s1" "tm_left s1 < tm_left s"
      using switch_round_spec [OF less.prems Cons] by blast
    obtain s' zs where s': "switch_loop cb s1 = Some s'" "tm_ok i s' zs" "tm_frame s1 s'" "tm_items s' (pxCurrentTimerList s') = []"
      using less.hyps [OF s1(4,2) less.prems(2)] by blast
    have "switch_loop cb s = Some s'" by (subst switch_loop_unfold) (simp add: Cons s1(1) s'(1))
    then show ?thesis using s'(2,4) tm_frame_trans [OF s1(3) s'(3)] by blast
  qed
qed

section \<open>Properties\<close>

text \<open>A state with the timers \<open>ts\<close> in the current list, which all reload.\<close>

definition tm_sample :: "addr list \<Rightarrow> u32 \<Rightarrow> u32 \<Rightarrow> tm_sys" where
  "tm_sample ts v p = \<lparr>trt = sample_rtos\<lparr>queues := \<lambda>_. sample_queue\<lparr>pcTail := 1080, pcReadFrom := 1064, uxLength := 5, uxItemSize := 16\<rparr>\<rparr>,
     timers = \<lambda>t. \<lparr>pcTimerName = NULL, tmItemValue = v, tmContainer = (if t \<in> set ts then Some xActiveTimerList1 else None),
       xTimerPeriodInTicks = p, uxAutoReload = 1, pvTimerID = NULL, pxCallbackFunction = 5000, uxTimerNumber = 0\<rparr>,
     tlists = (\<lambda>_. klist_empty)(xActiveTimerList1 := \<lparr>kl_items = ts, kl_index = 0\<rparr>),
     pxCurrentTimerList = xActiveTimerList1, pxOverflowTimerList = xActiveTimerList2,
     xTimerQueue = 464, xTimerTaskHandle = NULL, xLastTime = 0xFFFFFFFF\<rparr>"

lemma tm_sample_sel [simp]:
  "tm_items (tm_sample ts v p) L = (if L = xActiveTimerList1 then ts else [])"
  "tmItemValue (timers (tm_sample ts v p) t) = v" "xTimerPeriodInTicks (timers (tm_sample ts v p) t) = p"
  "uxAutoReload (timers (tm_sample ts v p) t) = 1" "pxCurrentTimerList (tm_sample ts v p) = xActiveTimerList1"
  "pxOverflowTimerList (tm_sample ts v p) = xActiveTimerList2"
  "tmContainer (timers (tm_sample ts v p) t) = (if t \<in> set ts then Some xActiveTimerList1 else None)"
  by (simp_all add: tm_sample_def klist_empty_def)

lemma tm_sample_ok:
  assumes "distinct ts"
  shows "tm_ok 100 (tm_sample ts v p) []"
proof -
  let ?q = "sample_queue\<lparr>pcTail := 1080, pcReadFrom := 1064, uxLength := 5, uxItemSize := 16\<rparr>"
  let ?r = "sample_rtos\<lparr>queues := \<lambda>_. ?q\<rparr>"
  have "ring_ok ?q 4" "contents 4 ?q m = []" for m
    by (simp_all add: ring_ok_def contents_def sample_queue_def slot_def qlen_def qisz_def qcnt_def)
  then have "holds 464 ?r []" by (auto simp: holds_def)
  then have q: "queue_inv 100 464 5 16 ?r []" by (simp add: queue_inv_def sample_sched_ok qlen_def qisz_def)
  have "tlists_ok (tm_sample ts v p)"
    by (rule tlists_okI) (use assms in \<open>auto simp: sorted_wrt_true\<close>)
  then show ?thesis using q by (simp add: tm_ok_def) (simp add: tm_sample_def)
qed

definition cb_idle :: callback where "cb_idle f t s = Some s"

lemma cb_idle_ok: "cb_ok i cb_idle"
  unfolding cb_ok_def cb_idle_def by (metis tm_sys.surjective tm_sys.update_convs(1))

lemma tlists_ok_swap:
  assumes k: "tlists_ok u"
  shows "tlists_ok (u\<lparr>pxCurrentTimerList := pxOverflowTimerList u, pxOverflowTimerList := pxCurrentTimerList u\<rparr>)"
  by (rule tlists_okI) (use tlists_okD [OF k] in \<open>auto dest: sym\<close>)

text \<open>\<^bold>\<open>C25\<close>. Switching the lists of timers ends, for any callbacks that use the kernel and send commands: the loop runs
  once for each expiry time a timer has before the overflow. Afterwards the timers that were to
  fire after the overflow are the current ones, and the other list is empty.\<close>

theorem prvSwitchTimerLists_terminates:
  assumes "tm_ok i s xs" and "cb_ok i cb"
  shows "\<exists>s' ys. prvSwitchTimerLists cb s = Some s' \<and> tm_ok i s' ys \<and>
    pxCurrentTimerList s' = pxOverflowTimerList s \<and> tm_items s' (pxCurrentTimerList s') = tm_items s (pxOverflowTimerList s) \<and>
    tm_items s' (pxOverflowTimerList s') = []"
proof -
  obtain u ys where u: "switch_loop cb s = Some u" "tm_ok i u ys" "tm_frame s u" "tm_items u (pxCurrentTimerList u) = []"
    using switch_loop_spec [OF assms] by blast
  let ?s = "u\<lparr>pxCurrentTimerList := pxOverflowTimerList u, pxOverflowTimerList := pxCurrentTimerList u\<rparr>"
  have "tlists_ok ?s" using u(2) tlists_ok_swap by (simp add: tm_ok_def)
  then have "tm_ok i ?s ys" by (rule tm_ok_keep [OF u(2)]) simp_all
  moreover have "prvSwitchTimerLists cb s = Some ?s" by (simp add: prvSwitchTimerLists_def u(1))
  ultimately show ?thesis using u(3,4) unfolding tm_frame_def by auto
qed

theorem prvSwitchTimerLists_terminates_witness:
  "\<exists>s'. prvSwitchTimerLists cb_idle (tm_sample [2000, 3000] 0xFFFFFF00 32) = Some s' \<and> tm_items s' (pxOverflowTimerList s') = []"
proof -
  have "tm_ok 100 (tm_sample [2000, 3000] 0xFFFFFF00 32) []" by (rule tm_sample_ok) simp
  from prvSwitchTimerLists_terminates [OF this cb_idle_ok] show ?thesis by blast
qed

lemma switch_loop_reposts:
  "tm_ok i s xs \<Longrightarrow> tm_items s (pxCurrentTimerList s) = ts \<Longrightarrow>
    \<forall>t \<in> set ts. uxAutoReload (timers s t) = 1 \<and> tmItemValue (timers s t) + xTimerPeriodInTicks (timers s t) \<le> tmItemValue (timers s t) \<Longrightarrow>
    \<exists>s'. switch_loop cb_idle s = Some s' \<and>
      tm_ok i s' (take 5 (xs @ map (\<lambda>t. tm_message tmrCOMMAND_START_DONT_TRACE (tmItemValue (timers s t)) (word_of_int t) 0) ts)) \<and>
      timers s' = (\<lambda>t. if t \<in> set ts then (timers s t)\<lparr>tmContainer := None\<rparr> else timers s t)"
proof (induction ts arbitrary: s xs)
  case Nil
  have "length xs \<le> 5" using Nil(1) queue_inv_bound by (auto simp: tm_ok_def)
  then show ?case using Nil by (subst switch_loop_unfold) simp
next
  case (Cons t ts)
  let ?L = "pxCurrentTimerList s" and ?m = "\<lambda>t. tm_message tmrCOMMAND_START_DONT_TRACE (tmItemValue (timers s t)) (word_of_int t) 0"
  have l: "tlists_ok s" using Cons.prems(1) by (simp add: tm_ok_def)
  have c: "tmContainer (timers s t) = Some ?L" using tlists_okD(2) [OF l, of t ?L] Cons.prems(2) by simp
  have d: "t \<notin> set ts" using tlists_okD(1) [OF l, of ?L] Cons.prems(2) by simp
  let ?s1 = "tm_removed t ?L s"
  have k1: "tm_ok i ?s1 xs" by (rule tm_ok_keep [OF Cons.prems(1) tlists_ok_removed [OF l c]]) simp_all
  from tm_command_spec [OF k1, of 0 t "tmItemValue (timers s t)"] obtain r where
    r: "tm_command t 0 (tmItemValue (timers s t)) ?s1 = Some (?s1\<lparr>trt := r\<rparr>)"
      "tm_ok i (?s1\<lparr>trt := r\<rparr>) (if length xs < 5 then xs @ [?m t] else xs)" by auto
  let ?s2 = "?s1\<lparr>trt := r\<rparr>"
  have nl: "\<not> tmItemValue (timers s t) < tmItemValue (timers s t) + xTimerPeriodInTicks (timers s t)"
    using Cons.prems(3) by (simp only: not_less list.set_map) simp
  have round1: "switch_round cb_idle t s = Some ?s2" unfolding switch_round_def Let_def tm_remove_eq [OF c]
    using nl Cons.prems(3) r(1) by (simp add: cb_idle_def)
  have it: "tm_items ?s2 (pxCurrentTimerList ?s2) = ts" using Cons.prems(2) by simp
  have same: "timers ?s2 u = timers s u" if "u \<in> set ts" for u using that d by auto
  have "\<forall>u \<in> set ts. uxAutoReload (timers ?s2 u) = 1 \<and> tmItemValue (timers ?s2 u) + xTimerPeriodInTicks (timers ?s2 u) \<le> tmItemValue (timers ?s2 u)"
    using Cons.prems(3) same by simp
  from Cons.IH [OF r(2) it this] obtain s' where s': "switch_loop cb_idle ?s2 = Some s'"
    "tm_ok i s' (take 5 ((if length xs < 5 then xs @ [?m t] else xs) @
      map (\<lambda>t. tm_message tmrCOMMAND_START_DONT_TRACE (tmItemValue (timers ?s2 t)) (word_of_int t) 0) ts))"
    "timers s' = (\<lambda>u. if u \<in> set ts then (timers ?s2 u)\<lparr>tmContainer := None\<rparr> else timers ?s2 u)" by blast
  have ms: "map (\<lambda>t. tm_message tmrCOMMAND_START_DONT_TRACE (tmItemValue (timers ?s2 t)) (word_of_int t) 0) ts = map ?m ts"
    using same by (intro map_cong) simp_all
  have "length xs \<le> 5" using Cons.prems(1) queue_inv_bound by (auto simp: tm_ok_def)
  then have tk: "take 5 ((if length xs < 5 then xs @ [?m t] else xs) @ map ?m ts) = take 5 (xs @ map ?m (t # ts))"
  proof (cases "length xs < 5")
    case True
    then have "(if length xs < 5 then xs @ [?m t] else xs) @ map ?m ts = xs @ map ?m (t # ts)" by simp
    then show ?thesis by (rule arg_cong)
  next
    case False
    then show ?thesis using \<open>length xs \<le> 5\<close> by simp
  qed
  have "timers s' = (\<lambda>u. if u \<in> set (t # ts) then (timers s u)\<lparr>tmContainer := None\<rparr> else timers s u)"
    unfolding s'(3) using d by (auto simp: fun_eq_iff)
  moreover have "switch_loop cb_idle s = Some s'"
    by (subst switch_loop_unfold) (simp add: Cons.prems(2) round1 s'(1))
  ultimately show ?case using s'(2) unfolding ms tk by blast
qed

text \<open>\<^bold>\<open>C26\<close>. At an overflow the timers whose next expiry is after it come back through the command queue, which has five
  places and is emptied by the timer task only: the first reloads fill it and the others are lost.
  Their timers are in no list and no command mentions them; an auto-reload timer among them never fires again.\<close>

theorem reloads_beyond_queue_are_lost:
  assumes k: "tm_ok i s xs" and ts: "tm_items s (pxCurrentTimerList s) = ts"
    and reload: "\<forall>t \<in> set ts. uxAutoReload (timers s t) = 1 \<and>
      tmItemValue (timers s t) + xTimerPeriodInTicks (timers s t) \<le> tmItemValue (timers s t)"
  shows "\<exists>s'. prvSwitchTimerLists cb_idle s = Some s' \<and> (\<forall>t \<in> set ts. \<not> xTimerIsTimerActive t s') \<and>
    tm_ok i s' (take 5 (xs @ map (\<lambda>t. tm_message tmrCOMMAND_START_DONT_TRACE (tmItemValue (timers s t)) (word_of_int t) 0) ts))"
proof -
  let ?xs = "take 5 (xs @ map (\<lambda>t. tm_message tmrCOMMAND_START_DONT_TRACE (tmItemValue (timers s t)) (word_of_int t) 0) ts)"
  obtain u where u: "switch_loop cb_idle s = Some u" "tm_ok i u ?xs"
    "timers u = (\<lambda>t. if t \<in> set ts then (timers s t)\<lparr>tmContainer := None\<rparr> else timers s t)"
    using switch_loop_reposts [OF k ts reload] by blast
  let ?s = "u\<lparr>pxCurrentTimerList := pxOverflowTimerList u, pxOverflowTimerList := pxCurrentTimerList u\<rparr>"
  have "tlists_ok ?s" using u(2) tlists_ok_swap by (simp add: tm_ok_def)
  then have "tm_ok i ?s ?xs" by (rule tm_ok_keep [OF u(2)]) simp_all
  moreover have "prvSwitchTimerLists cb_idle s = Some ?s" by (simp add: prvSwitchTimerLists_def u(1))
  ultimately show ?thesis using u(3) by (intro exI [of _ ?s]) (simp add: xTimerIsTimerActive_def)
qed

text \<open>Six reloading timers, an empty queue: the sixth is lost.\<close>

theorem reloads_beyond_queue_are_lost_witness:
  "\<exists>s'. prvSwitchTimerLists cb_idle (tm_sample [2000, 2044, 2088, 2132, 2176, 2220] 0xFFFFFFF0 32) = Some s' \<and>
    \<not> xTimerIsTimerActive 2220 s' \<and>
    tm_ok 100 s' (map (\<lambda>t. tm_message 0 0xFFFFFFF0 t 0) [2000, 2044, 2088, 2132, 2176])"
proof -
  let ?ts = "[2000, 2044, 2088, 2132, 2176, 2220] :: addr list"
  have k: "tm_ok 100 (tm_sample ?ts 0xFFFFFFF0 32) []" by (rule tm_sample_ok) simp
  have "\<exists>s'. prvSwitchTimerLists cb_idle (tm_sample ?ts 0xFFFFFFF0 32) = Some s' \<and> (\<forall>t \<in> set ?ts. \<not> xTimerIsTimerActive t s') \<and>
    tm_ok 100 s' (take 5 ([] @ map (\<lambda>t. tm_message tmrCOMMAND_START_DONT_TRACE (tmItemValue (timers (tm_sample ?ts 0xFFFFFFF0 32) t)) (word_of_int t) 0) ?ts))"
    by (rule reloads_beyond_queue_are_lost [OF k]) simp_all
  then show ?thesis by auto
qed

section \<open>Real time\<close>

text \<open>Times as natural numbers, of which the tick count shows the low 32 bits. The epoch of a time is the number
  of overflows up to it.\<close>

abbreviation tick_of :: "nat \<Rightarrow> u32" where "tick_of n \<equiv> of_nat n"

definition epoch :: "nat \<Rightarrow> nat" where "epoch n = n div 2 ^ 32"

lemma unat_tick: "unat (tick_of n) = n mod 2 ^ 32"
  by (simp add: unat_of_nat)

lemma epoch_split: "n = epoch n * 4294967296 + unat (tick_of n)"
  by (simp add: epoch_def unat_tick)

lemma epoch_near:
  assumes "a \<le> b" and "b - a < 2 ^ 32"
  shows "if unat (tick_of a) \<le> unat (tick_of b) then epoch b = epoch a else epoch b = Suc (epoch a)"
proof -
  have u: "unat (tick_of a) < 4294967296" "unat (tick_of b) < 4294967296" by (rule unat_lt_u32)+
  show ?thesis
  proof (cases "unat (tick_of a) \<le> unat (tick_of b)")
    case True
    have "epoch b < Suc (epoch a)" "epoch a < Suc (epoch b)"
      using assms epoch_split [of a] epoch_split [of b] u True by (auto simp del: unat_lt_u32)
    then show ?thesis using True by simp
  next
    case False
    have "epoch b < Suc (Suc (epoch a))" "epoch a < epoch b"
      using assms epoch_split [of a] epoch_split [of b] u False by (auto simp del: unat_lt_u32)
    then show ?thesis using False by simp
  qed
qed

lemma expired_iff:
  assumes n: "C \<le> N" "N - C < 2 ^ 32"
  shows "(if tick_of C + p \<le> tick_of N then tick_of N - tick_of C \<ge> p else tick_of N < tick_of C \<and> tick_of C + p \<ge> tick_of C)
    \<longleftrightarrow> C + unat p \<le> N"
    and "\<not> C + unat p \<le> N \<Longrightarrow> epoch (C + unat p) = (if tick_of C + p \<le> tick_of N then Suc (epoch N) else epoch N)"
proof -
  define E where "E = C + unat p"
  have e: "tick_of C + p = tick_of E" by (simp add: E_def)
  have d: "unat (tick_of N - tick_of C) = N - C"
  proof -
    have "tick_of N - tick_of C = tick_of (N - C)" using n(1) by simp
    then show ?thesis using n(2) by (simp add: unat_tick)
  qed
  have ne: "if unat (tick_of C) \<le> unat (tick_of N) then epoch N = epoch C else epoch N = Suc (epoch C)"
    by (rule epoch_near [OF n])
  have ee: "if unat (tick_of C) \<le> unat (tick_of E) then epoch E = epoch C else epoch E = Suc (epoch C)"
    by (rule epoch_near) (simp_all add: E_def)
  note s = epoch_split [of C] epoch_split [of N] epoch_split [of E]
  have p: "unat p = E - C" "C \<le> E" by (simp_all add: E_def)
  have u: "unat (tick_of C) < 4294967296" "unat (tick_of N) < 4294967296" "unat (tick_of E) < 4294967296" by (rule unat_lt_u32)+
  show "(if tick_of C + p \<le> tick_of N then tick_of N - tick_of C \<ge> p else tick_of N < tick_of C \<and> tick_of C + p \<ge> tick_of C)
    \<longleftrightarrow> C + unat p \<le> N"
    unfolding e word_le_nat_alt word_less_nat_alt d E_def [symmetric] using s ne ee p n u
    by (auto split: if_splits simp del: unat_lt_u32)
  show "epoch (C + unat p) = (if tick_of C + p \<le> tick_of N then Suc (epoch N) else epoch N)" if "\<not> C + unat p \<le> N"
    unfolding e word_le_nat_alt E_def [symmetric] using s ne ee p n u that unfolding E_def [symmetric]
    by (auto split: if_splits simp del: unat_lt_u32)
qed

lemma prvInsertTimerInActiveList_at:
  assumes n: "C \<le> N" "N - C < 2 ^ 32" and p: "xTimerPeriodInTicks (timers s t) = p"
  shows "prvInsertTimerInActiveList t (tick_of C + p) (tick_of N) (tick_of C) s =
    (let s1 = upd_tm t (\<lambda>c. c\<lparr>tmItemValue := tick_of (C + unat p)\<rparr>) s in
     if C + unat p \<le> N then (True, s1)
     else (False, tm_insert (if epoch (C + unat p) = epoch N then pxCurrentTimerList s else pxOverflowTimerList s) t s1))"
proof -
  have e: "tick_of C + p = tick_of (C + unat p)" by simp
  show ?thesis using expired_iff [OF n, of p] p unfolding prvInsertTimerInActiveList_def Let_def e
    by (cases "C + unat p \<le> N"; cases "tick_of (C + unat p) \<le> tick_of N") auto
qed

text \<open>\<^bold>\<open>C23\<close>. The decision whether a timer has expired, and the choice of its list, are made on wrapped counts and agree
  with real time: for a command given at \<open>C\<close> and handled at \<open>N\<close>, less than \<open>2 ^ 32\<close> ticks later, a timer of period
  \<open>p\<close> has expired exactly if \<open>C + p \<le> N\<close>, and otherwise it goes to the current list exactly if its expiry is before the next
  overflow.\<close>

theorem prvInsertTimerInActiveList_exact:
  assumes n: "C \<le> N" "N - C < 2 ^ 32" and p: "xTimerPeriodInTicks (timers s t) = p"
  shows "prvInsertTimerInActiveList t (tick_of C + p) (tick_of N) (tick_of C) s =
    (let s1 = upd_tm t (\<lambda>c. c\<lparr>tmItemValue := tick_of (C + unat p)\<rparr>) s in
     if C + unat p \<le> N then (True, s1)
     else (False, tm_insert (if epoch (C + unat p) = epoch N then pxCurrentTimerList s else pxOverflowTimerList s) t s1))"
  by (rule prvInsertTimerInActiveList_at [OF assms])

text \<open>Started at the last tick before the overflow with a period of 5 and handled 3 ticks later.\<close>

theorem prvInsertTimerInActiveList_exact_witness:
  "prvInsertTimerInActiveList 2000 (tick_of (2 ^ 32 - 1) + 5) (tick_of (2 ^ 32 + 2)) (tick_of (2 ^ 32 - 1)) (tm_sample [] 0 5) =
    (False, tm_insert xActiveTimerList1 2000 (upd_tm 2000 (\<lambda>c. c\<lparr>tmItemValue := tick_of (2 ^ 32 + 4)\<rparr>) (tm_sample [] 0 5)))"
  using prvInsertTimerInActiveList_exact [of "2 ^ 32 - 1" "2 ^ 32 + 2" "tm_sample [] 0 5" 2000 5]
  by (simp add: epoch_def)

lemma start_unfold:
  assumes c: "c \<in> {tmrCOMMAND_START, tmrCOMMAND_START_FROM_ISR, tmrCOMMAND_RESET, tmrCOMMAND_RESET_FROM_ISR, tmrCOMMAND_START_DONT_TRACE}"
    and t: "0 \<le> t" "t < 2 ^ 32" and free: "tmContainer (timers s t) = None" and now: "xLastTime s \<le> xTickCount (tm_kern s)"
  shows "process_timer_command cb (tm_message c v (word_of_int t) 0) s =
    (let (b, s1) = prvInsertTimerInActiveList t (v + xTimerPeriodInTicks (timers s t)) (xTickCount (tm_kern s)) v
          (s\<lparr>xLastTime := xTickCount (tm_kern s)\<rparr>)
     in if b then do {
          s \<leftarrow> cb (pxCallbackFunction (timers s1 t)) t s1;
          if uxAutoReload (timers s t) = 1
          then tm_command t tmrCOMMAND_START_DONT_TRACE (v + xTimerPeriodInTicks (timers s t)) s else Some s
        } else Some s1)"
proof -
  have u: "uint (word_of_int t :: u32) = t" using t by (simp add: uint_word_of_int)
  have n: "\<not> xTickCount (tm_kern s) < xLastTime s" using now by simp
  have "tm_word (Suc 0) (tm_message c v (word_of_int t) 0) = v" by simp
  then show ?thesis using c free n
    unfolding process_timer_command_def Let_def One_nat_def tm_word_message u prvSampleTimeNow_def
    by simp
qed

text \<open>\<^bold>\<open>C24\<close>. An auto-reload timer does not drift: when the timer task handles its expiry, due at \<open>D\<close>, at \<open>N\<close>, the next one
  is due at \<open>D + p\<close>. If that is still to come the timer goes back to the right list; if it has passed as well, a
  start command for \<open>D\<close> is sent, which expires it again. Then the callback runs, once.\<close>

theorem auto_reload_does_not_drift:
  assumes n: "D \<le> N" "N - D < 2 ^ 32" and k: "tlists_ok s"
    and t: "tm_items s (pxCurrentTimerList s) = t # ts" "tmItemValue (timers s t) = tick_of D" "uxAutoReload (timers s t) = 1"
    and p: "xTimerPeriodInTicks (timers s t) = p"
  shows "prvProcessExpiredTimer cb (tick_of D) (tick_of N) s =
    (let L = (if epoch (D + unat p) = epoch N then pxCurrentTimerList s else pxOverflowTimerList s);
         s1 = upd_tm t (\<lambda>c. c\<lparr>tmItemValue := tick_of (D + unat p)\<rparr>) (tm_removed t (pxCurrentTimerList s) s) in
     (if D + unat p \<le> N then tm_command t tmrCOMMAND_START_DONT_TRACE (tick_of D) s1 else Some (tm_insert L t s1))
     \<bind> (\<lambda>s. cb (pxCallbackFunction (timers s t)) t s))"
proof -
  have c: "tmContainer (timers s t) = Some (pxCurrentTimerList s)" using tlists_okD(2) [OF k, of t "pxCurrentTimerList s"] t(1) by simp
  let ?s0 = "tm_removed t (pxCurrentTimerList s) s"
  have p0: "xTimerPeriodInTicks (timers ?s0 t) = p" using p by simp
  show ?thesis using t(1,3) p
    unfolding prvProcessExpiredTimer_def Let_def
    by (simp add: tm_remove_eq [OF c] prvInsertTimerInActiveList_at [OF n p0] del: of_nat_add)
qed

text \<open>A timer of period 5 that was due 2 ticks ago, and one that was due 7 ticks ago.\<close>

theorem auto_reload_does_not_drift_witness:
  "\<exists>s. prvProcessExpiredTimer cb_idle (tick_of 100) (tick_of 102) (tm_sample [2000] 100 5) = Some s \<and> xTimerGetExpiryTime 2000 s = 105"
proof -
  have k: "tlists_ok (tm_sample [2000] 100 5)" using tm_sample_ok [of "[2000]" 100 5] by (simp add: tm_ok_def)
  show ?thesis using auto_reload_does_not_drift [of 100 102 "tm_sample [2000] 100 5" 2000 "[]" 5 cb_idle, OF _ _ k]
    by (simp add: cb_idle_def xTimerGetExpiryTime_def)
qed

end
