(* ===== verification/LwipMem.thy ===== *)
theory LwipMem imports Prelude begin

text \<open>
  The heap of the network stack, \<open>lwip/src/core/mem.c\<close>: blocks with a header of 8 bytes that hold the offsets of the
  next and the previous block, a pointer to the lowest free block, first fit, and merging of neighbours. The pools of
  \<open>memp.c\<close> are this heap too (\<open>MEMP_MEM_MALLOC\<close>). The calls run under the mutex of the heap, so that each
  is one step. An assertion that fails ends in the endless loop of \<open>assert_loop\<close> (\<open>lwip/src/arch/lpc_debug.c\<close>): the call
  does not return, \<open>None\<close>.
\<close>

unbundle bit_operations_syntax

section \<open>State\<close>

text \<open>\<open>struct mem\<close>, the header of a block.\<close>

record mem_hdr =
  mnext :: u16
  mprev :: u16
  mused :: bool

text \<open>A header is named by its offset from the start \<open>ram\<close> of the heap, and so is \<open>lfree\<close>.\<close>

record lwmem =
  ram :: addr
  mhdr :: "u16 \<Rightarrow> mem_hdr"
  lfree :: u16

abbreviation (input) "SIZEOF_STRUCT_MEM \<equiv> (8 :: u16)"
abbreviation (input) "MIN_SIZE_ALIGNED \<equiv> (12 :: u16)"
abbreviation (input) "MEM_SIZE_ALIGNED \<equiv> (12288 :: u16)"
abbreviation (input) "ram_end \<equiv> MEM_SIZE_ALIGNED"

definition upd_mem :: "u16 \<Rightarrow> (mem_hdr \<Rightarrow> mem_hdr) \<Rightarrow> lwmem \<Rightarrow> lwmem" where
  "upd_mem i f h = h\<lparr>mhdr := (mhdr h)(i := f (mhdr h i))\<rparr>"

text \<open>In a variable of type \<open>mem_size_t\<close> the result is cut to 16 bits.\<close>

definition LWIP_MEM_ALIGN_SIZE :: "u16 \<Rightarrow> u16" where
  "LWIP_MEM_ALIGN_SIZE sz = (sz + 3) AND NOT 3"

definition LWIP_MEM_ALIGN :: "addr \<Rightarrow> addr" where
  "LWIP_MEM_ALIGN a = (a + 3) AND NOT 3"

text \<open>The distance of the pointers to the next block and to the data of this one, an unsigned 32-bit number.\<close>

definition user_size :: "lwmem \<Rightarrow> u16 \<Rightarrow> u32" where
  "user_size h ptr = ucast (mnext (mhdr h ptr)) - (ucast ptr + 8)"

text \<open>\<open>LWIP_ASSERT\<close>.\<close>

abbreviation (input) lwip_assert :: "bool \<Rightarrow> 'a option \<Rightarrow> 'a option" where
  "lwip_assert c x \<equiv> (if c then x else None)"

section \<open>Operations\<close>

definition mem_init :: "addr \<Rightarrow> lwmem \<Rightarrow> lwmem" where
  "mem_init ram_heap h =
    (let h = h\<lparr>ram := LWIP_MEM_ALIGN ram_heap\<rparr>;
         h = upd_mem 0 (\<lambda>m. m\<lparr>mnext := MEM_SIZE_ALIGNED, mprev := 0, mused := False\<rparr>) h;
         h = upd_mem ram_end (\<lambda>m. m\<lparr>mused := True, mnext := MEM_SIZE_ALIGNED, mprev := MEM_SIZE_ALIGNED\<rparr>) h
     in h\<lparr>lfree := 0\<rparr>)"

definition plug_forward :: "u16 \<Rightarrow> lwmem \<Rightarrow> lwmem" where
  "plug_forward mem h =
    (let nmem = mnext (mhdr h mem)
     in if mem \<noteq> nmem \<and> \<not> mused (mhdr h nmem) \<and> nmem \<noteq> ram_end
        then let h = (if lfree h = nmem then h\<lparr>lfree := mem\<rparr> else h);
                 h = upd_mem mem (\<lambda>m. m\<lparr>mnext := mnext (mhdr h nmem)\<rparr>) h
             in upd_mem (mnext (mhdr h nmem)) (\<lambda>m. m\<lparr>mprev := mem\<rparr>) h
        else h)"

definition plug_backward :: "u16 \<Rightarrow> lwmem \<Rightarrow> lwmem" where
  "plug_backward mem h =
    (let pmem = mprev (mhdr h mem)
     in if pmem \<noteq> mem \<and> \<not> mused (mhdr h pmem)
        then let h = (if lfree h = mem then h\<lparr>lfree := pmem\<rparr> else h);
                 h = upd_mem pmem (\<lambda>m. m\<lparr>mnext := mnext (mhdr h mem)\<rparr>) h
             in upd_mem (mnext (mhdr h mem)) (\<lambda>m. m\<lparr>mprev := pmem\<rparr>) h
        else h)"

definition plug_holes :: "u16 \<Rightarrow> lwmem \<Rightarrow> lwmem option" where
  "plug_holes mem h =
    lwip_assert (mem < ram_end) (lwip_assert (\<not> mused (mhdr h mem)) (lwip_assert (mnext (mhdr h mem) \<le> MEM_SIZE_ALIGNED)
      (Some (plug_backward mem (plug_forward mem h)))))"

text \<open>\<open>None\<close> also if the header would lie before the heap.\<close>

definition mem_free :: "addr \<Rightarrow> lwmem \<Rightarrow> lwmem option" where
  "mem_free rmem h =
    (if rmem = NULL then Some h
     else lwip_assert (rmem AND 3 = 0) (lwip_assert (ram h \<le> rmem \<and> rmem < ram h + uint ram_end)
       (if rmem < ram h + 8 then None
        else let mem = word_of_int (rmem - 8 - ram h)
             in lwip_assert (mused (mhdr h mem))
                  (let h = upd_mem mem (\<lambda>m. m\<lparr>mused := False\<rparr>) h;
                       h = (if mem < lfree h then h\<lparr>lfree := mem\<rparr> else h)
                   in plug_holes mem h))))"

text \<open>In \<open>mem_free\<close> and \<open>mem_trim\<close> the assertion of legal memory stands before a check of the same, which then succeeds.\<close>

text \<open>A new free block behind a shortened one, as both cases of \<open>mem_trim\<close> write it.\<close>

definition put_free :: "u16 \<Rightarrow> u16 \<Rightarrow> u16 \<Rightarrow> lwmem \<Rightarrow> lwmem" where
  "put_free ptr ptr2 next h =
    (let h = upd_mem ptr2 (\<lambda>m. m\<lparr>mused := False, mnext := next, mprev := ptr\<rparr>) h;
         h = upd_mem ptr (\<lambda>m. m\<lparr>mnext := ptr2\<rparr>) h
     in if next \<noteq> MEM_SIZE_ALIGNED then upd_mem next (\<lambda>m. m\<lparr>mprev := ptr2\<rparr>) h else h)"

definition mem_trim :: "addr \<Rightarrow> u16 \<Rightarrow> lwmem \<Rightarrow> (addr \<times> lwmem) option" where
  "mem_trim rmem newsize h =
    (let newsize = LWIP_MEM_ALIGN_SIZE newsize;
         newsize = (if newsize < MIN_SIZE_ALIGNED then MIN_SIZE_ALIGNED else newsize)
     in if newsize > MEM_SIZE_ALIGNED then Some (NULL, h)
        else if \<not> (ram h \<le> rmem \<and> rmem < ram h + uint ram_end) then None
        else if rmem < ram h + 8 then None
        else let ptr = word_of_int (rmem - 8 - ram h);
                 sz = mnext (mhdr h ptr) - ptr - SIZEOF_STRUCT_MEM
             in if \<not> newsize \<le> sz then None
                else if newsize = sz then Some (rmem, h)
                else let mem2 = mnext (mhdr h ptr);
                         ptr2 = ptr + SIZEOF_STRUCT_MEM + newsize
                     in if \<not> mused (mhdr h mem2)
                        then let next = mnext (mhdr h mem2);
                                 h = (if lfree h = mem2 then h\<lparr>lfree := ptr2\<rparr> else h)
                             in Some (rmem, put_free ptr ptr2 next h)
                        else if unat newsize + 8 + 12 \<le> unat sz
                        then let h = (if ptr2 < lfree h then h\<lparr>lfree := ptr2\<rparr> else h)
                             in Some (rmem, put_free ptr ptr2 mem2 h)
                        else Some (rmem, h))"

text \<open>The first free block from \<open>ptr\<close> on that is large enough.\<close>

partial_function (option) malloc_search :: "u16 \<Rightarrow> lwmem \<Rightarrow> u16 \<Rightarrow> u16 option option" where
  "malloc_search sz h ptr =
    (if ptr < MEM_SIZE_ALIGNED - sz
     then if \<not> mused (mhdr h ptr) \<and> user_size h ptr \<ge> ucast sz then Some (Some ptr)
          else malloc_search sz h (mnext (mhdr h ptr))
     else Some None)"

text \<open>The first free block from \<open>cur\<close> on, or the end of the heap.\<close>

partial_function (option) free_search :: "lwmem \<Rightarrow> u16 \<Rightarrow> u16 option" where
  "free_search h cur =
    (if mused (mhdr h cur) \<and> cur \<noteq> ram_end then free_search h (mnext (mhdr h cur)) else Some cur)"

definition malloc_block :: "u16 \<Rightarrow> u16 \<Rightarrow> lwmem \<Rightarrow> lwmem" where
  "malloc_block sz ptr h =
    (if user_size h ptr \<ge> ucast sz + 8 + 12
     then let ptr2 = ptr + SIZEOF_STRUCT_MEM + sz;
              next = mnext (mhdr h ptr);
              h = upd_mem ptr2 (\<lambda>m. m\<lparr>mused := False, mnext := next, mprev := ptr\<rparr>) h;
              h = upd_mem ptr (\<lambda>m. m\<lparr>mnext := ptr2, mused := True\<rparr>) h
          in if next \<noteq> MEM_SIZE_ALIGNED then upd_mem next (\<lambda>m. m\<lparr>mprev := ptr2\<rparr>) h else h
     else upd_mem ptr (\<lambda>m. m\<lparr>mused := True\<rparr>) h)"

definition mem_malloc :: "u16 \<Rightarrow> lwmem \<Rightarrow> (addr \<times> lwmem) option" where
  "mem_malloc sz h =
    (if sz = 0 then Some (NULL, h)
     else let sz = LWIP_MEM_ALIGN_SIZE sz;
              sz = (if sz < MIN_SIZE_ALIGNED then MIN_SIZE_ALIGNED else sz)
          in if sz > MEM_SIZE_ALIGNED then Some (NULL, h)
             else case malloc_search sz h (lfree h) of
                 None \<Rightarrow> None
               | Some None \<Rightarrow> Some (NULL, h)
               | Some (Some ptr) \<Rightarrow>
                   (let h = malloc_block sz ptr h;
                        p = ram h + uint ptr + 8;
                        checked = (\<lambda>h. lwip_assert (p + uint sz \<le> ram h + uint ram_end)
                                     (lwip_assert (p mod 4 = 0) (lwip_assert ((p - 8) AND 3 = 0) (Some (p, h)))))
                    in if ptr = lfree h
                       then case free_search h (lfree h) of None \<Rightarrow> None
                            | Some cur \<Rightarrow> lwip_assert (cur = ram_end \<or> \<not> mused (mhdr h cur)) (checked (h\<lparr>lfree := cur\<rparr>))
                       else checked h))"

text \<open>\<open>mem_calloc\<close> returns the address and how many bytes from it on are set to zero: the product is an \<open>int\<close> (no answer if it
  overflows), of which the allocation sees the low 16 bits.\<close>

definition mem_calloc :: "u16 \<Rightarrow> u16 \<Rightarrow> lwmem \<Rightarrow> (addr \<times> nat \<times> lwmem) option" where
  "mem_calloc count sz h =
    (if unat count * unat sz \<ge> 2 ^ 31 then None
     else case mem_malloc (count * sz) h of None \<Rightarrow> None
     | Some (p, h) \<Rightarrow> Some (p, if p \<noteq> NULL then unat count * unat sz else 0, h))"

section \<open>Blocks\<close>

text \<open>The heap as the list of its blocks: whether one is used, and how many bytes it holds.\<close>

type_synonym blocks = "(bool \<times> nat) list"

abbreviation HEAP :: nat where "HEAP \<equiv> 12288"

fun ext :: "blocks \<Rightarrow> nat" where
  "ext [] = 0"
| "ext ((u, n) # bs) = n + 8 + ext bs"

lemma ext_append [simp]: "ext (xs @ ys) = ext xs + ext ys"
  by (induction xs rule: ext.induct) auto

text \<open>The offset of the last block, or \<open>p\<close> if there is none.\<close>

fun last_off :: "nat \<Rightarrow> nat \<Rightarrow> blocks \<Rightarrow> nat" where
  "last_off k p [] = p"
| "last_off k p ((u, n) # bs) = last_off (k + n + 8) k bs"

text \<open>The headers from offset \<open>k\<close> on are those of the blocks, \<open>p\<close> being the offset of the block before.\<close>

fun tiles :: "(u16 \<Rightarrow> mem_hdr) \<Rightarrow> nat \<Rightarrow> nat \<Rightarrow> blocks \<Rightarrow> bool" where
  "tiles f k p [] \<longleftrightarrow> True"
| "tiles f k p ((u, n) # bs) \<longleftrightarrow>
     mused (f (of_nat k)) = u \<and> mprev (f (of_nat k)) = of_nat p \<and> mnext (f (of_nat k)) = of_nat (k + n + 8) \<and>
     4 dvd n \<and> 12 \<le> n \<and> tiles f (k + n + 8) k bs"

lemma tiles_append:
  "tiles f k p (xs @ ys) \<longleftrightarrow> tiles f k p xs \<and> tiles f (k + ext xs) (last_off k p xs) ys"
  by (induction f k p xs rule: tiles.induct) (auto simp: add.assoc add.left_commute)

lemma of_nat_u16_eq: "a < 65536 \<Longrightarrow> b < 65536 \<Longrightarrow> (of_nat a :: u16) = of_nat b \<longleftrightarrow> a = b"
  by (simp add: word_unat_eq_iff unat_of_nat)

lemma unat_of_nat_u16: "a < 65536 \<Longrightarrow> unat (of_nat a :: u16) = a"
  by (simp add: unat_of_nat)

lemma unat_ucast_u32 [simp]: "unat (ucast (w :: u16) :: u32) = unat w"
proof -
  have "unat w < 4294967296" using unat_lt_u16 [of w] by linarith
  then show ?thesis by (simp add: unsigned_ucast_eq unsigned_take_bit_eq take_bit_eq_mod del: unat_lt_u16)
qed

lemma ucast_of_nat_u32: "a < 65536 \<Longrightarrow> ucast (of_nat a :: u16) = (of_nat a :: u32)"
  by (simp add: word_unat_eq_iff unat_of_nat)

text \<open>A change of a header outside, and of the link back of the first block.\<close>

lemma tiles_upd:
  "tiles f k p bs \<Longrightarrow> k + ext bs \<le> HEAP \<Longrightarrow> unat i < k \<or> k + ext bs \<le> unat i \<Longrightarrow> tiles (f(i := m)) k p bs"
proof (induction f k p bs rule: tiles.induct)
  case (2 f k p u n bs)
  then have "i \<noteq> of_nat k" using unat_of_nat_u16 [of k] by auto
  with 2 show ?case by (auto simp: add.assoc)
qed simp

lemma tiles_relink:
  "tiles f k p bs \<Longrightarrow> k + ext bs \<le> HEAP \<Longrightarrow> tiles (f(of_nat k := (f (of_nat k))\<lparr>mprev := of_nat q\<rparr>)) k q bs"
proof (cases bs)
  case (Cons b bs')
  obtain u n where b: "b = (u, n)" by (cases b)
  assume t: "tiles f k p bs" and e: "k + ext bs \<le> HEAP"
  have "unat (of_nat k :: u16) = k" using e unat_of_nat_u16 [of k] by simp
  then have "tiles (f(of_nat k := (f (of_nat k))\<lparr>mprev := of_nat q\<rparr>)) (k + n + 8) k bs'"
    using t e by (intro tiles_upd) (auto simp: b Cons)
  then show ?thesis using t by (auto simp: b Cons)
qed simp

text \<open>The offset of the first free block, or the end.\<close>

fun first_free :: "nat \<Rightarrow> blocks \<Rightarrow> nat" where
  "first_free k [] = k"
| "first_free k ((u, n) # bs) = (if u then first_free (k + n + 8) bs else k)"

fun merged :: "blocks \<Rightarrow> bool" where
  "merged ((u, n) # (v, m) # bs) \<longleftrightarrow> (u \<or> v) \<and> merged ((v, m) # bs)"
| "merged bs \<longleftrightarrow> True"

definition mem_ok :: "lwmem \<Rightarrow> blocks \<Rightarrow> bool" where
  "mem_ok h bs \<longleftrightarrow> tiles (mhdr h) 0 0 bs \<and> ext bs = HEAP \<and> merged bs \<and> mused (mhdr h ram_end) \<and>
     lfree h = of_nat (first_free 0 bs) \<and> 0 \<le> ram h \<and> 4 dvd ram h"

lemma tiles_cong:
  "k + ext bs \<le> HEAP \<Longrightarrow> (\<And>i. k \<le> unat i \<Longrightarrow> unat i < k + ext bs \<Longrightarrow> f i = g i) \<Longrightarrow> tiles f k p bs \<longleftrightarrow> tiles g k p bs"
proof (induction g k p bs rule: tiles.induct)
  case (2 g k p u n bs)
  have "f (of_nat k) = g (of_nat k)" using "2.prems" by (simp add: unat_of_nat_u16)
  moreover have "tiles f (k + n + 8) k bs \<longleftrightarrow> tiles g (k + n + 8) k bs" using "2.prems" by (intro "2.IH") auto
  ultimately show ?case by simp
qed simp

lemma tiles_relinked:
  assumes "tiles f k p bs" "k + ext bs \<le> HEAP"
    and "\<And>i. k < unat i \<Longrightarrow> unat i < k + ext bs \<Longrightarrow> g i = f i"
    and "bs \<noteq> [] \<Longrightarrow> g (of_nat k) = (f (of_nat k))\<lparr>mprev := of_nat q\<rparr>"
  shows "tiles g k q bs"
proof (cases "bs = []")
  case False
  have "tiles g k q bs \<longleftrightarrow> tiles (f(of_nat k := (f (of_nat k))\<lparr>mprev := of_nat q\<rparr>)) k q bs"
  proof (rule tiles_cong [OF assms(2)])
    fix i :: u16 assume i: "k \<le> unat i" "unat i < k + ext bs"
    show "g i = (f(of_nat k := (f (of_nat k))\<lparr>mprev := of_nat q\<rparr>)) i"
    proof (cases "i = of_nat k")
      case True then show ?thesis using assms(4) False by simp
    next
      case no: False
      then have "unat i \<noteq> k" by (metis of_nat_unat ucast_id)
      then show ?thesis using assms(3) [of i] i no by simp
    qed
  qed
  then show ?thesis using tiles_relink [OF assms(1,2)] by simp
qed simp

section \<open>The searches\<close>

fun fit_at :: "nat \<Rightarrow> nat \<Rightarrow> blocks \<Rightarrow> nat option" where
  "fit_at s k [] = None"
| "fit_at s k ((u, n) # bs) = (if \<not> u \<and> s \<le> n then Some k else fit_at s (k + n + 8) bs)"

lemma fit_at_none: "HEAP - s \<le> k \<Longrightarrow> k + ext bs \<le> HEAP \<Longrightarrow> fit_at s k bs = None"
  by (induction s k bs rule: fit_at.induct) auto

lemma fit_atD:
  "fit_at s k bs = Some o' \<Longrightarrow>
    \<exists>xs n ys. bs = xs @ (False, n) # ys \<and> o' = k + ext xs \<and> s \<le> n \<and> (\<forall>(u, m) \<in> set xs. u \<or> m < s)"
proof (induction s k bs rule: fit_at.induct)
  case (2 s k u n bs)
  show ?case
  proof (cases "\<not> u \<and> s \<le> n")
    case True
    with "2.prems" show ?thesis by (intro exI [of _ "[]"] exI [of _ n] exI [of _ bs]) simp
  next
    case False
    with 2 obtain xs m ys where "bs = xs @ (False, m) # ys" "o' = k + n + 8 + ext xs" "s \<le> m"
      "\<forall>(u, m) \<in> set xs. u \<or> m < s" by (auto simp: Let_def split: if_splits)
    with False show ?thesis by (intro exI [of _ "(u, n) # xs"] exI [of _ m] exI [of _ ys]) auto
  qed
qed simp

lemma fit_at_None: "fit_at s k bs = None \<longleftrightarrow> (\<forall>(u, n) \<in> set bs. u \<or> n < s)"
  by (induction s k bs rule: fit_at.induct) auto

lemma fit_at_used: "\<forall>b \<in> set xs. fst b \<Longrightarrow> fit_at s k (xs @ ys) = fit_at s (k + ext xs) ys"
  by (induction xs arbitrary: k rule: ext.induct) (auto simp: add.assoc add.left_commute)

lemma user_size_block:
  assumes "tiles (mhdr h) k p ((u, n) # bs)" "k + n + 8 \<le> HEAP"
  shows "user_size h (of_nat k) = of_nat n"
proof -
  have "ucast (of_nat (k + n + 8) :: u16) = (of_nat (k + n + 8) :: u32)" "ucast (of_nat k :: u16) = (of_nat k :: u32)"
    using assms(2) by (intro ucast_of_nat_u32; simp)+
  then show ?thesis using assms(1) by (simp add: user_size_def del: of_nat_add) simp
qed

lemma malloc_search_spec:
  assumes "12 \<le> s" "s \<le> HEAP"
  shows "tiles (mhdr h) k p bs \<Longrightarrow> k + ext bs = HEAP \<Longrightarrow>
    malloc_search (of_nat s) h (of_nat k) = Some (map_option of_nat (fit_at s k bs))"
proof -
  have sz: "unat (MEM_SIZE_ALIGNED - of_nat s) = HEAP - s" using assms(2) by (simp add: unat_sub_if' unat_of_nat)
  show "tiles (mhdr h) k p bs \<Longrightarrow> k + ext bs = HEAP \<Longrightarrow> ?thesis"
proof (induction "mhdr h" k p bs rule: tiles.induct)
  case (1 k p)
  then show ?case using sz by (subst malloc_search.simps) (auto simp: word_less_nat_alt)
next
  case (2 k p u n bs)
  have k: "unat (of_nat k :: u16) = k" using "2.prems" by (simp add: unat_of_nat)
  have us: "user_size h (of_nat k) = of_nat n" using "2.prems"(2) by (intro user_size_block [OF "2.prems"(1)]) simp
  have cmp: "ucast (of_nat s :: u16) \<le> (of_nat n :: u32) \<longleftrightarrow> s \<le> n"
    using "2.prems" assms(2) by (simp add: word_le_nat_alt unat_of_nat)
  show ?case
  proof (cases "k < HEAP - s")
    case False
    then have "fit_at s k ((u, n) # bs) = None" using "2.prems" by (intro fit_at_none) auto
    with False show ?thesis by (subst malloc_search.simps) (simp add: word_less_nat_alt sz k)
  next
    case True
    then have lt: "of_nat k < MEM_SIZE_ALIGNED - of_nat s" by (simp add: word_less_nat_alt sz k)
    have IH: "malloc_search (of_nat s) h (of_nat (k + n + 8)) = Some (map_option of_nat (fit_at s (k + n + 8) bs))"
      by (rule "2.hyps") (use "2.prems" in auto)
    have hd: "mused (mhdr h (of_nat k)) = u" "mnext (mhdr h (of_nat k)) = of_nat (k + n + 8)" using "2.prems" by simp_all
    show ?thesis by (subst malloc_search.simps) (simp add: hd lt us cmp IH del: of_nat_add)
  qed
qed
qed

lemma free_search_spec:
  "tiles (mhdr h) k p bs \<Longrightarrow> k + ext bs = HEAP \<Longrightarrow> mused (mhdr h ram_end) \<Longrightarrow>
    free_search h (of_nat k) = Some (of_nat (first_free k bs))"
proof (induction "mhdr h" k p bs rule: tiles.induct)
  case (1 k p)
  then show ?case by (subst free_search.simps) simp
next
  case (2 k p u n bs)
  have "of_nat k \<noteq> ram_end" using "2.prems" of_nat_u16_eq [of k HEAP] by simp
  moreover have "free_search h (of_nat (k + n + 8)) = Some (of_nat (first_free (k + n + 8) bs))"
    using "2.prems" by (intro "2.hyps") auto
  ultimately show ?case using "2.prems" by (subst free_search.simps) (auto simp del: of_nat_add)
qed

section \<open>Changes in the middle\<close>

lemma upd_mem_sel [simp]:
  "mhdr (upd_mem i f h) = (mhdr h)(i := f (mhdr h i))" "lfree (upd_mem i f h) = lfree h" "ram (upd_mem i f h) = ram h"
  by (simp_all add: upd_mem_def)

lemma last_off_append: "last_off k p (xs @ ys) = last_off (k + ext xs) (last_off k p xs) ys"
  by (induction k p xs rule: last_off.induct) (auto simp: add.assoc add.left_commute)

text \<open>Some blocks are replaced by others of the same extent.\<close>

lemma tiles_replace:
  assumes t: "tiles f 0 0 (xs @ mid @ ys)" "ext (xs @ mid @ ys) = HEAP" "ext mid' = ext mid"
    and low: "\<And>i. unat i < ext xs \<Longrightarrow> g i = f i"
    and mid: "tiles g (ext xs) (last_off 0 0 xs) mid'"
    and high: "\<And>i. ext xs + ext mid < unat i \<Longrightarrow> unat i < HEAP \<Longrightarrow> g i = f i"
    and link: "ys \<noteq> [] \<Longrightarrow> g (of_nat (ext xs + ext mid)) =
      (f (of_nat (ext xs + ext mid)))\<lparr>mprev := of_nat (last_off (ext xs) (last_off 0 0 xs) mid')\<rparr>"
  shows "tiles g 0 0 (xs @ mid' @ ys)"
proof -
  have "tiles g 0 0 xs \<longleftrightarrow> tiles f 0 0 xs" by (rule tiles_cong) (use t low in auto)
  moreover have "tiles g (ext xs + ext mid) (last_off (ext xs) (last_off 0 0 xs) mid') ys"
    by (rule tiles_relinked [where f = f]) (use t high link in \<open>auto simp: tiles_append\<close>)
  ultimately show ?thesis using t(1,3) mid by (simp add: tiles_append)
qed

definition carve :: "nat \<Rightarrow> nat \<Rightarrow> blocks" where
  "carve s n = (if s + 20 \<le> n then [(True, s), (False, n - s - 8)] else [(True, n)])"

lemma ext_carve [simp]: "s \<le> n \<Longrightarrow> ext (carve s n) = n + 8"
  by (simp add: carve_def)

lemma word_neq_unat: "unat a \<noteq> unat b \<Longrightarrow> a \<noteq> b" by auto

lemma malloc_block_tiles:
  assumes t: "tiles (mhdr h) 0 0 (xs @ [(False, n)] @ ys)" and e: "ext (xs @ [(False, n)] @ ys) = HEAP"
    and s: "12 \<le> s" "s \<le> n" "4 dvd s"
  shows "tiles (mhdr (malloc_block (of_nat s) (of_nat (ext xs)) h)) 0 0 (xs @ carve s n @ ys)" (is ?A)
    "mhdr (malloc_block (of_nat s) (of_nat (ext xs)) h) ram_end = mhdr h ram_end" (is ?B)
proof -
  let ?k = "ext xs" and ?f = "mhdr h"
  have B: "mnext (?f (of_nat ?k)) = of_nat (?k + n + 8)" "mprev (?f (of_nat ?k)) = of_nat (last_off 0 0 xs)" "4 dvd n" "12 \<le> n"
    using t by (simp_all add: tiles_append)
  have us: "user_size h (of_nat ?k) = of_nat n"
    by (rule user_size_block [where p = "last_off 0 0 xs" and u = False and bs = ys]) (use t e in \<open>simp_all add: tiles_append\<close>)
  have b: "?k + n + 8 \<le> HEAP" using e by simp
  have cmp: "of_nat n \<ge> (ucast (of_nat s :: u16) :: u32) + 8 + 12 \<longleftrightarrow> s + 20 \<le> n"
  proof -
    have "(ucast (of_nat s :: u16) :: u32) + 8 + 12 = of_nat (s + 20)" using s b by (simp add: ucast_of_nat_u32)
    then show ?thesis using s b by (simp add: word_le_nat_alt unat_of_nat del: of_nat_add)
  qed
  have k: "unat (of_nat ?k :: u16) = ?k" using b by (simp add: unat_of_nat)
  have ne: "of_nat ?k \<noteq> ram_end" by (rule word_neq_unat) (use k b in simp)
  have "?A \<and> ?B"
  proof (cases "s + 20 \<le> n")
    case True
    have p2: "of_nat ?k + 8 + of_nat s = (of_nat (?k + s + 8) :: u16)" by simp
    have i: "unat (of_nat (?k + s + 8) :: u16) = ?k + s + 8" "unat (of_nat (?k + n + 8) :: u16) = ?k + n + 8"
      using b True by (simp_all add: unat_of_nat del: of_nat_add)
    have d: "of_nat (?k + s + 8) \<noteq> (of_nat ?k :: u16)" "of_nat (?k + n + 8) \<noteq> (of_nat ?k :: u16)"
      "of_nat (?k + n + 8) \<noteq> (of_nat (?k + s + 8) :: u16)"
      by (rule word_neq_unat, use k i True in linarith)+
    have ne2: "of_nat (?k + s + 8) \<noteq> ram_end" by (rule word_neq_unat) (use i True b in simp)
    define g where "g = mhdr (malloc_block (of_nat s) (of_nat ?k) h)"
    have gk: "g (of_nat ?k) = (?f (of_nat ?k))\<lparr>mnext := of_nat (?k + s + 8), mused := True\<rparr>"
      "g (of_nat (?k + s + 8)) = (?f (of_nat (?k + s + 8)))\<lparr>mused := False, mnext := of_nat (?k + n + 8), mprev := of_nat ?k\<rparr>"
      "of_nat (?k + n + 8) \<noteq> ram_end \<Longrightarrow> g (of_nat (?k + n + 8)) = (?f (of_nat (?k + n + 8)))\<lparr>mprev := of_nat (?k + s + 8)\<rparr>"
      "\<And>i. i \<noteq> of_nat ?k \<Longrightarrow> i \<noteq> of_nat (?k + s + 8) \<Longrightarrow> i \<noteq> of_nat (?k + n + 8) \<Longrightarrow> g i = ?f i"
      unfolding g_def malloc_block_def us cmp p2 Let_def B(1) using True d d [symmetric] by (auto simp del: of_nat_add)
    have "g ram_end = ?f ram_end"
      unfolding g_def malloc_block_def us cmp p2 Let_def B(1) using True ne ne2 by (auto simp del: of_nat_add)
    moreover have end_iff: "of_nat (?k + n + 8) = ram_end \<longleftrightarrow> ?k + n + 8 = HEAP"
      using of_nat_u16_eq [of "?k + n + 8" HEAP] b by (simp del: of_nat_add)
    moreover have "tiles g 0 0 (xs @ [(True, s), (False, n - s - 8)] @ ys)"
    proof (rule tiles_replace [OF t e])
      fix i :: u16 assume "unat i < ?k"
      then have "i \<noteq> of_nat ?k" "i \<noteq> of_nat (?k + s + 8)" "i \<noteq> of_nat (?k + n + 8)" using k i by (auto simp del: of_nat_add)
      then show "g i = ?f i" by (rule gk)
    next
      fix i' :: u16 assume "ext xs + ext [(False, n)] < unat i'"
      then have "i' \<noteq> of_nat ?k" "i' \<noteq> of_nat (?k + s + 8)" "i' \<noteq> of_nat (?k + n + 8)"
        using k i True by (auto simp del: of_nat_add)
      then show "g i' = ?f i'" by (rule gk)
    next
      show "tiles g ?k (last_off 0 0 xs) [(True, s), (False, n - s - 8)]"
        using gk(1,2) B s True by (simp del: of_nat_add add: dvd_diff_nat add.commute add.left_commute)
    next
      assume "ys \<noteq> []"
      then have "?k + n + 8 \<noteq> HEAP" using e by (cases ys) auto
      then show "g (of_nat (?k + ext [(False, n)])) = (?f (of_nat (?k + ext [(False, n)])))
        \<lparr>mprev := of_nat (last_off ?k (last_off 0 0 xs) [(True, s), (False, n - s - 8)])\<rparr>"
        using gk(3) end_iff by (simp del: of_nat_add add: add.assoc)
    qed (use True in simp)
    ultimately show ?thesis using True by (simp add: carve_def g_def)
  next
    case False
    let ?g = "mhdr (malloc_block (of_nat s) (of_nat ?k) h)"
    have g: "?g = ?f(of_nat ?k := (?f (of_nat ?k))\<lparr>mused := True\<rparr>)"
      unfolding malloc_block_def us cmp using False by simp
    have "tiles ?g 0 0 (xs @ [(True, n)] @ ys)"
    proof (rule tiles_replace [OF t e])
      show "tiles ?g ?k (last_off 0 0 xs) [(True, n)]" using B unfolding g by simp
      assume ys: "ys \<noteq> []"
      obtain u m zs where y: "ys = (u, m) # zs" using ys by (metis neq_Nil_conv surj_pair)
      then show "?g (of_nat (?k + ext [(False, n)])) =
        (?f (of_nat (?k + ext [(False, n)])))\<lparr>mprev := of_nat (last_off ?k (last_off 0 0 xs) [(True, n)])\<rparr>"
        using t b of_nat_u16_eq [of "?k + n + 8" ?k] unfolding g by (simp add: tiles_append del: of_nat_add) (simp add: add.assoc)
    qed (use k b in \<open>auto simp: g\<close>)
    then show ?thesis using False ne by (simp add: carve_def g)
  qed
  then show ?A ?B by simp_all
qed

section \<open>Allocation\<close>

lemma first_free_append:
  "first_free k (xs @ ys) = (if \<forall>b \<in> set xs. fst b then first_free (k + ext xs) ys else first_free k xs)"
  by (induction k xs rule: first_free.induct) (auto simp: add.assoc add.left_commute)

lemma first_free_bound: "\<not> (\<forall>b \<in> set xs. fst b) \<Longrightarrow> first_free k xs < k + ext xs"
  by (induction k xs rule: first_free.induct) auto

lemma first_free_le: "first_free k xs \<le> k + ext xs"
  by (induction k xs rule: first_free.induct) auto

lemma first_free_while: "first_free k bs = k + ext (takeWhile fst bs)"
  by (induction k bs rule: first_free.induct) auto

lemma merged_Cons: "merged (b # bs) \<longleftrightarrow> merged bs \<and> (bs \<noteq> [] \<longrightarrow> fst b \<or> fst (hd bs))"
  by (cases b; cases bs) auto

lemma merged_append:
  "merged (xs @ ys) \<longleftrightarrow> merged xs \<and> merged ys \<and> (xs \<noteq> [] \<longrightarrow> ys \<noteq> [] \<longrightarrow> fst (last xs) \<or> fst (hd ys))"
  by (induction xs) (auto simp: merged_Cons hd_append)

definition request :: "u16 \<Rightarrow> nat" where
  "request sz = max 12 (unat (LWIP_MEM_ALIGN_SIZE sz))"

lemma and_not_3: "unat ((x :: u16) AND NOT 3) = 4 * (unat x div 4)"
proof -
  have "x AND NOT 3 = push_bit 2 (drop_bit 2 x)"
  proof (rule bit_word_eqI)
    fix n assume "n < LENGTH(16)"
    have "bit (3 :: u16) n \<longleftrightarrow> n = 0 \<or> n = 1"
    proof -
      have m: "(3 :: u16) = mask 2" by (simp add: mask_eq_exp_minus_1)
      show ?thesis unfolding m bit_mask_iff using \<open>n < LENGTH(16)\<close> by auto
    qed
    then show "bit (x AND NOT 3) n \<longleftrightarrow> bit (push_bit 2 (drop_bit 2 x)) n"
    proof (cases "n < 2")
      case False
      then obtain m where "n = m + 2" by (metis add.commute le_Suc_ex not_less)
      with \<open>n < LENGTH(16)\<close> \<open>bit (3 :: u16) n \<longleftrightarrow> n = 0 \<or> n = 1\<close> show ?thesis by (simp add: bit_simps)
    qed (use \<open>bit (3 :: u16) n \<longleftrightarrow> n = 0 \<or> n = 1\<close> in \<open>auto simp: bit_simps\<close>)
  qed
  moreover have "4 * (unat x div 4) < 65536" using unat_lt_u16 [of x] by linarith
  ultimately show ?thesis
    by (simp add: push_bit_eq_mult drop_bit_eq_div unat_mult_lem [THEN iffD1] unat_div)
qed

lemma align_size:
  "unat (LWIP_MEM_ALIGN_SIZE sz) = (if unat sz \<le> 65532 then 4 * ((unat sz + 3) div 4) else 0)"
proof (cases "unat sz \<le> 65532")
  case True
  then have "unat (sz + 3) = unat sz + 3" by (simp add: unat_add_lem [THEN iffD1])
  then show ?thesis using True unfolding LWIP_MEM_ALIGN_SIZE_def and_not_3 by simp
next
  case False
  moreover have "unat sz < 65536" by simp
  ultimately have "unat (sz + 3) < 3" by (simp add: unat_plus_if' del: unat_lt_u16)
  then show ?thesis using False unfolding LWIP_MEM_ALIGN_SIZE_def and_not_3 by simp
qed

lemma request_props: "12 \<le> request sz" "4 dvd request sz" "unat sz \<le> 65532 \<Longrightarrow> unat sz \<le> request sz" "request sz < 65536"
  using unat_lt_u16 [of "LWIP_MEM_ALIGN_SIZE sz"] by (auto simp: request_def align_size max_def)

lemma mem_ok_reach: "mem_ok h bs \<Longrightarrow> ext bs = HEAP" by (simp add: mem_ok_def)

lemma malloc_block_frame:
  "ram (malloc_block s k h) = ram h" "lfree (malloc_block s k h) = lfree h"
  by (simp_all add: malloc_block_def Let_def)

lemma mem_malloc_unfold:
  assumes "sz \<noteq> 0" "request sz \<le> HEAP"
  shows "mem_malloc sz h =
    (case malloc_search (of_nat (request sz)) h (lfree h) of
       None \<Rightarrow> None
     | Some None \<Rightarrow> Some (NULL, h)
     | Some (Some ptr) \<Rightarrow>
         (let h = malloc_block (of_nat (request sz)) ptr h;
              p = ram h + uint ptr + 8;
              checked = (\<lambda>h. lwip_assert (p + int (request sz) \<le> ram h + uint ram_end)
                           (lwip_assert (p mod 4 = 0) (lwip_assert ((p - 8) AND 3 = 0) (Some (p, h)))))
          in if ptr = lfree h
             then case free_search h (lfree h) of None \<Rightarrow> None
                  | Some cur \<Rightarrow> lwip_assert (cur = ram_end \<or> \<not> mused (mhdr h cur)) (checked (h\<lparr>lfree := cur\<rparr>))
             else checked h))"
proof -
  let ?s = "if LWIP_MEM_ALIGN_SIZE sz < MIN_SIZE_ALIGNED then MIN_SIZE_ALIGNED else LWIP_MEM_ALIGN_SIZE sz"
  have s: "?s = of_nat (request sz)"
    by (rule word_unat_eq_iff [THEN iffD2]) (use request_props(4) [of sz] in \<open>simp add: request_def word_less_nat_alt unat_of_nat max_def\<close>)
  have "\<not> of_nat (request sz) > MEM_SIZE_ALIGNED" using assms(2) by (simp add: word_less_nat_alt unat_of_nat)
  moreover have u: "uint (of_nat (request sz) :: u16) = int (request sz)"
    using assms(2) by (simp add: uint_nat unat_of_nat)
  ultimately show ?thesis unfolding mem_malloc_def Let_def s u using assms(1) by simp
qed

lemma and_3: "(a :: int) AND 3 = a mod 4"
  using take_bit_eq_mask [of 2 a] by (simp add: take_bit_eq_mod mask_eq_exp_minus_1)

text \<open>Every block is aligned.\<close>

lemma tiles_aligned: "tiles f k p bs \<Longrightarrow> 4 dvd ext bs"
  by (induction f k p bs rule: tiles.induct) auto

lemma mem_malloc_too_big:
  assumes "sz \<noteq> 0" "request sz > HEAP"
  shows "mem_malloc sz h = Some (NULL, h)"
  using assms by (auto simp: mem_malloc_def request_def word_less_nat_alt Let_def max_def split: if_splits)

lemma free_search_stops: "free_search h c = Some cur \<Longrightarrow> cur = ram_end \<or> \<not> mused (mhdr h cur)"
  by (rule free_search.raw_induct [where P = "\<lambda>h _ cur. cur = ram_end \<or> \<not> mused (mhdr h cur)"]) (auto split: if_splits)

lemma aligned_data: "4 dvd a \<Longrightarrow> (a + 8) mod 4 = 0 \<and> (a + 8) AND 3 = 0 \<and> a AND 3 = (0 :: int)"
  unfolding and_3 by presburger

text \<open>The allocation on blocks.\<close>

theorem mem_malloc_blocks:
  assumes ok: "mem_ok h bs" and sz: "sz \<noteq> 0"
  shows "case fit_at (request sz) 0 bs of
      None \<Rightarrow> mem_malloc sz h = Some (NULL, h)
    | Some k \<Rightarrow> (\<exists>xs n ys h'. bs = xs @ [(False, n)] @ ys \<and> k = ext xs \<and> request sz \<le> n \<and>
        (\<forall>(u, m) \<in> set xs. u \<or> m < request sz) \<and> mem_malloc sz h = Some (ram h + int k + 8, h') \<and>
        mem_ok h' (xs @ carve (request sz) n @ ys) \<and> ram h' = ram h)"
proof (cases "request sz > HEAP")
  case True
  have "n \<le> HEAP" if mem: "(u, n) \<in> set bs" for u n
  proof -
    obtain xs ys where "bs = xs @ (u, n) # ys" using split_list [OF mem] by blast
    then show ?thesis using mem_ok_reach [OF ok] by simp
  qed
  then have "fit_at (request sz) 0 bs = None" unfolding fit_at_None using True by fastforce
  then show ?thesis using mem_malloc_too_big [OF sz True] by simp
next
  case False
  then have le: "request sz \<le> HEAP" by simp
  let ?s = "request sz"
  define us where "us = takeWhile fst bs"
  define rs where "rs = dropWhile fst bs"
  have bs: "bs = us @ rs" by (simp add: us_def rs_def)
  have us: "\<forall>b \<in> set us. fst b" by (auto simp: us_def dest: set_takeWhileD)
  have t: "tiles (mhdr h) 0 0 bs" and e: "ext bs = HEAP" and m: "merged bs" and en: "mused (mhdr h ram_end)"
    and lf: "lfree h = of_nat (first_free 0 bs)" and r: "0 \<le> ram h" "4 dvd ram h" using ok by (auto simp: mem_ok_def)
  have ff: "first_free 0 bs = ext us" by (simp add: first_free_while us_def)
  have fit: "fit_at ?s 0 bs = fit_at ?s (ext us) rs" unfolding bs using fit_at_used [OF us] by simp
  have srch: "malloc_search (of_nat ?s) h (lfree h) = Some (map_option of_nat (fit_at ?s 0 bs))"
    unfolding lf ff fit
    by (rule malloc_search_spec [OF request_props(1) le, where p = "last_off 0 0 us"])
       (use t e in \<open>simp_all add: bs tiles_append\<close>)
  show ?thesis
  proof (cases "fit_at ?s 0 bs")
    case None
    then show ?thesis unfolding mem_malloc_unfold [OF sz le] srch by simp
  next
    case (Some k)
    then obtain xs n ys where x: "bs = xs @ [(False, n)] @ ys" "k = ext xs" "?s \<le> n" "\<forall>(u, m) \<in> set xs. u \<or> m < ?s"
      using fit_atD [OF Some] by auto
    have b: "k + n + 8 \<le> HEAP" using e by (simp add: x)
    have k: "unat (of_nat k :: u16) = k" "uint (of_nat k :: u16) = int k"
      using b by (simp_all add: unat_of_nat uint_nat)
    let ?bs = "xs @ carve ?s n @ ys"
    define h1 where "h1 = malloc_block (of_nat ?s) (of_nat k) h"
    have t1: "tiles (mhdr h1) 0 0 ?bs" unfolding h1_def x(2)
      by (rule malloc_block_tiles(1) [OF _ _ request_props(1) x(3) request_props(2)]) (use t e x in simp_all)
    have e1: "ext ?bs = HEAP" using e x by simp
    have m1: "merged ?bs" using m x(3) by (auto simp: x(1) merged_append merged_Cons carve_def split: if_splits)
    have en1: "mused (mhdr h1 ram_end)" unfolding h1_def x(2)
      by (subst malloc_block_tiles(2) [OF _ _ request_props(1) x(3) request_props(2)]) (use t e x en in simp_all)
    have f1: "ram h1 = ram h" "lfree h1 = lfree h" by (simp_all add: h1_def malloc_block_frame)
    have "tiles (mhdr h) 0 0 xs" using t unfolding x(1) tiles_append by simp
    then have "4 dvd ram h + int k" using tiles_aligned r(2) unfolding x(2) by fastforce
    note al = aligned_data [OF this]
    have mm: "mem_malloc sz h = (if of_nat k = lfree h then
        case free_search h1 (lfree h) of None \<Rightarrow> None
        | Some cur \<Rightarrow> if cur = ram_end \<or> \<not> mused (mhdr h1 cur) then Some (ram h + int k + 8, h1\<lparr>lfree := cur\<rparr>) else None
        else Some (ram h + int k + 8, h1))"
      unfolding mem_malloc_unfold [OF sz le] srch Some using al b x(3)
      by (simp add: h1_def [symmetric] f1 k Let_def split: option.split)
    have "\<exists>h'. mem_malloc sz h = Some (ram h + int k + 8, h') \<and> mem_ok h' ?bs \<and> ram h' = ram h"
    proof (cases "\<forall>b \<in> set xs. fst b")
      case True
      then have l: "lfree h = of_nat k" using lf by (simp add: x first_free_append)
      have fs: "free_search h1 (of_nat k) = Some (of_nat (first_free k (carve ?s n @ ys)))"
        by (rule free_search_spec [where p = "last_off 0 0 xs"]) (use t1 e1 en1 x(2) in \<open>simp_all add: tiles_append\<close>)
      have "first_free 0 ?bs = first_free k (carve ?s n @ ys)" using True by (simp add: first_free_append x(2))
      then have "mem_ok (h1\<lparr>lfree := of_nat (first_free k (carve ?s n @ ys))\<rparr>) ?bs"
        using t1 e1 m1 en1 r by (simp add: mem_ok_def f1)
      moreover have "of_nat (first_free k (carve ?s n @ ys)) = ram_end \<or> \<not> mused (mhdr h1 (of_nat (first_free k (carve ?s n @ ys))))"
        using free_search_stops [OF fs] by blast
      ultimately show ?thesis unfolding mm l fs by (simp add: f1)
    next
      case no: False
      have "first_free 0 xs < k" using first_free_bound [OF no, of 0] by (simp add: x(2))
      then have l: "first_free 0 bs = first_free 0 xs" "of_nat k \<noteq> lfree h" "first_free 0 ?bs = first_free 0 xs"
        using no b of_nat_u16_eq [of k "first_free 0 xs"] by (auto simp: lf x(1) first_free_append simp del: ext_carve)
      then have "mem_ok h1 ?bs" using t1 e1 m1 en1 r lf by (simp add: mem_ok_def f1)
      then show ?thesis unfolding mm using l(2) by (simp add: f1)
    qed
    then show ?thesis unfolding Some using x by auto
  qed
qed

section \<open>Release\<close>

text \<open>The invariant without the claim that free blocks are merged.\<close>

definition mem_ok0 :: "lwmem \<Rightarrow> blocks \<Rightarrow> bool" where
  "mem_ok0 h bs \<longleftrightarrow> tiles (mhdr h) 0 0 bs \<and> ext bs = HEAP \<and> mused (mhdr h ram_end) \<and>
     lfree h = of_nat (first_free 0 bs) \<and> 0 \<le> ram h \<and> 4 dvd ram h"

lemma mem_ok_split: "mem_ok h bs \<longleftrightarrow> mem_ok0 h bs \<and> merged bs"
  by (auto simp: mem_ok_def mem_ok0_def)

text \<open>The header of a block in the middle.\<close>

lemma block_at:
  assumes "mem_ok0 h (xs @ [(u, n)] @ ys)"
  shows "mused (mhdr h (of_nat (ext xs))) = u" "mprev (mhdr h (of_nat (ext xs))) = of_nat (last_off 0 0 xs)"
    "mnext (mhdr h (of_nat (ext xs))) = of_nat (ext xs + n + 8)" "4 dvd n" "12 \<le> n"
    "ext xs + n + 8 \<le> HEAP" "unat (of_nat (ext xs) :: u16) = ext xs" "of_nat (ext xs) \<noteq> ram_end"
proof -
  show "mused (mhdr h (of_nat (ext xs))) = u" "mprev (mhdr h (of_nat (ext xs))) = of_nat (last_off 0 0 xs)"
    "mnext (mhdr h (of_nat (ext xs))) = of_nat (ext xs + n + 8)" "4 dvd n" "12 \<le> n"
    using assms by (simp_all add: mem_ok0_def tiles_append)
  show b: "ext xs + n + 8 \<le> HEAP" using assms by (simp add: mem_ok0_def)
  show "unat (of_nat (ext xs) :: u16) = ext xs" using b by (simp add: unat_of_nat)
  then show "of_nat (ext xs) \<noteq> ram_end" by - (rule word_neq_unat, use b in simp)
qed

lemma mark_free:
  assumes ok: "mem_ok0 h (xs @ [(True, n)] @ ys)"
  defines "h1 \<equiv> upd_mem (of_nat (ext xs)) (\<lambda>m. m\<lparr>mused := False\<rparr>) h"
  shows "mem_ok0 (if of_nat (ext xs) < lfree h1 then h1\<lparr>lfree := of_nat (ext xs)\<rparr> else h1) (xs @ [(False, n)] @ ys)"
proof -
  let ?k = "ext xs"
  note B = block_at [OF ok]
  have t: "tiles (mhdr h) 0 0 (xs @ [(True, n)] @ ys)" and e: "ext (xs @ [(True, n)] @ ys) = HEAP"
    using ok by (simp_all add: mem_ok0_def)
  have g: "mhdr h1 = (mhdr h)(of_nat ?k := (mhdr h (of_nat ?k))\<lparr>mused := False\<rparr>)" by (simp add: h1_def)
  have "tiles (mhdr h1) 0 0 (xs @ [(False, n)] @ ys)"
  proof (rule tiles_replace [OF t e])
    show "tiles (mhdr h1) ?k (last_off 0 0 xs) [(False, n)]" using B(1-5) unfolding g by simp
    assume ys: "ys \<noteq> []"
    obtain u m zs where y: "ys = (u, m) # zs" using ys by (metis neq_Nil_conv surj_pair)
    then show "mhdr h1 (of_nat (?k + ext [(True, n)])) =
        (mhdr h (of_nat (?k + ext [(True, n)])))\<lparr>mprev := of_nat (last_off ?k (last_off 0 0 xs) [(False, n)])\<rparr>"
      using t B(6) of_nat_u16_eq [of "?k + n + 8" ?k] unfolding g by (simp add: tiles_append del: of_nat_add) (simp add: add.assoc)
  qed (use B in \<open>auto simp: g\<close>)
  moreover have "(if of_nat ?k < lfree h then of_nat ?k else lfree h) = of_nat (first_free 0 (xs @ [(False, n)] @ ys))"
  proof (cases "\<forall>b \<in> set xs. fst b")
    case True
    then have l: "lfree h = of_nat (first_free (?k + n + 8) ys)" using ok by (simp add: mem_ok0_def first_free_append)
    have "?k + n + 8 \<le> first_free (?k + n + 8) ys" "first_free (?k + n + 8) ys \<le> HEAP"
      using first_free_while [of "?k + n + 8" ys] first_free_le [of "?k + n + 8" ys] e by simp_all
    then have "of_nat ?k < lfree h" using B(7) by (simp add: l word_less_nat_alt unat_of_nat)
    then show ?thesis using True by (simp add: first_free_append)
  next
    case False
    then have l: "lfree h = of_nat (first_free 0 xs)" using ok by (auto simp: mem_ok0_def first_free_append)
    have "first_free 0 xs < ?k" using first_free_bound [OF False, of 0] by simp
    then have "\<not> of_nat ?k < lfree h" using B(6,7) by (simp add: l word_less_nat_alt unat_of_nat)
    then show ?thesis using False by (auto simp: first_free_append l)
  qed
  ultimately show ?thesis using ok B(8) by (auto simp: mem_ok0_def h1_def)
qed

fun absorb :: "nat \<Rightarrow> blocks \<Rightarrow> blocks" where
  "absorb n ((False, m) # bs) = (False, n + m + 8) # bs"
| "absorb n bs = (False, n) # bs"

lemma plug_forward_blocks:
  assumes ok: "mem_ok0 h (xs @ [(False, n)] @ ys)"
  shows "mem_ok0 (plug_forward (of_nat (ext xs)) h) (xs @ absorb n ys) \<and> ram (plug_forward (of_nat (ext xs)) h) = ram h"
proof -
  let ?k = "ext xs" and ?f = "mhdr h"
  note B = block_at [OF ok]
  show ?thesis
  proof (cases "\<exists>m zs. ys = (False, m) # zs")
    case True
    then obtain m zs where y: "ys = (False, m) # zs" by auto
    have ok2: "mem_ok0 h ((xs @ [(False, n)]) @ [(False, m)] @ zs)" using ok y by simp
    have k2: "ext (xs @ [(False, n)]) = ?k + n + 8" by simp
    note C = block_at [OF ok2, unfolded k2]
    have t: "tiles ?f 0 0 (xs @ [(False, n), (False, m)] @ zs)" and e: "ext (xs @ [(False, n), (False, m)] @ zs) = HEAP"
      using ok y by (simp_all add: mem_ok0_def)
    have i3: "unat (of_nat (?k + n + 8 + m + 8) :: u16) = ?k + n + 8 + m + 8" using C(6) by (simp add: unat_of_nat del: of_nat_add)
    have d: "of_nat ?k \<noteq> (of_nat (?k + n + 8) :: u16)" "of_nat (?k + n + 8 + m + 8) \<noteq> (of_nat ?k :: u16)"
      by (rule word_neq_unat, use B(7) C(7) i3 in linarith)+
    have l: "lfree h \<noteq> of_nat (?k + n + 8)"
    proof -
      have "first_free 0 (xs @ [(False, n)] @ ys) \<le> ?k" using first_free_le [of 0 xs] by (simp add: first_free_append)
      then show ?thesis using ok C(6) of_nat_u16_eq [of "first_free 0 (xs @ [(False, n)] @ ys)" "?k + n + 8"]
        by (simp add: mem_ok0_def del: of_nat_add)
    qed
    define h' where "h' = plug_forward (of_nat ?k) h"
    have g: "mhdr h' = ?f(of_nat ?k := (?f (of_nat ?k))\<lparr>mnext := of_nat (?k + n + 8 + m + 8)\<rparr>,
        of_nat (?k + n + 8 + m + 8) := (?f (of_nat (?k + n + 8 + m + 8)))\<lparr>mprev := of_nat ?k\<rparr>)"
      "lfree h' = lfree h" "ram h' = ram h"
      unfolding h'_def plug_forward_def Let_def B(3) using C(1,3,8) d d [symmetric] l by (simp_all del: of_nat_add)
    have "tiles (mhdr h') 0 0 (xs @ [(False, n + m + 8)] @ zs)"
    proof (rule tiles_replace [OF t e])
      show "tiles (mhdr h') ?k (last_off 0 0 xs) [(False, n + m + 8)]"
        using B(1-5) C(4) d unfolding g(1) by (simp del: of_nat_add add: ac_simps)
    next
      show "mhdr h' (of_nat (?k + ext [(False, n), (False, m)])) = (?f (of_nat (?k + ext [(False, n), (False, m)])))
          \<lparr>mprev := of_nat (last_off ?k (last_off 0 0 xs) [(False, n + m + 8)])\<rparr>"
        unfolding g(1) by (simp del: of_nat_add add: ac_simps)
    next
      fix i :: u16 assume "unat i < ?k"
      then have "i \<noteq> of_nat ?k" "i \<noteq> of_nat (?k + n + 8 + m + 8)" using B(7) i3 by (auto simp del: of_nat_add)
      then show "mhdr h' i = ?f i" unfolding g(1) by simp
    next
      fix i :: u16 assume "?k + ext [(False, n), (False, m)] < unat i"
      then have "i \<noteq> of_nat ?k" "i \<noteq> of_nat (?k + n + 8 + m + 8)" using B(7) i3 by (auto simp del: of_nat_add)
      then show "mhdr h' i = ?f i" unfolding g(1) by simp
    qed simp
    moreover have "mused (mhdr h' ram_end)" using ok B(8) unfolding g(1) by (simp add: mem_ok0_def)
    ultimately show ?thesis using ok e g(2,3) unfolding h'_def [symmetric] by (simp add: mem_ok0_def y first_free_append)
  next
    case False
    have "of_nat (?k + n + 8) = ram_end \<or> mused (?f (of_nat (?k + n + 8)))"
    proof (cases ys)
      case Nil
      then have "?k + n + 8 = HEAP" using ok by (simp add: mem_ok0_def)
      then show ?thesis by (metis of_nat_numeral)
    next
      case (Cons y zs)
      then obtain m where "ys = (True, m) # zs" using False by (cases y) auto
      then show ?thesis using ok by (simp add: mem_ok0_def tiles_append del: of_nat_add)
    qed
    then have "plug_forward (of_nat ?k) h = h" unfolding plug_forward_def Let_def B(3) by auto
    moreover have "absorb n ys = (False, n) # ys" using False by (cases "(n, ys)" rule: absorb.cases) simp_all
    ultimately show ?thesis using ok by simp
  qed
qed

lemma plug_backward_blocks:
  assumes ok: "mem_ok0 h (xs @ [(False, n)] @ ys)"
  shows "mem_ok0 (plug_backward (of_nat (ext xs)) h)
      (if xs \<noteq> [] \<and> \<not> fst (last xs) then butlast xs @ (False, snd (last xs) + n + 8) # ys else xs @ (False, n) # ys) \<and>
    ram (plug_backward (of_nat (ext xs)) h) = ram h"
proof (cases xs rule: rev_cases)
  case Nil
  then show ?thesis using ok block_at(2) [OF ok] by (simp add: plug_backward_def Let_def)
next
  case (snoc ps b)
  obtain u m where b: "b = (u, m)" by (cases b)
  have xs: "xs = ps @ [(u, m)]" by (simp add: snoc b)
  have ok2: "mem_ok0 h (ps @ [(u, m)] @ (False, n) # ys)" using ok xs by simp
  have p: "last_off 0 0 xs = ext ps" "ext xs = ext ps + m + 8" by (simp_all add: xs last_off_append)
  let ?f = "mhdr h" and ?j = "ext ps" and ?k = "ext ps + m + 8" and ?e = "ext ps + m + 8 + n + 8"
  note B = block_at [OF ok, unfolded p] and C = block_at [OF ok2]
  have d: "of_nat ?j \<noteq> (of_nat ?k :: u16)" by (rule word_neq_unat, use B(7) C(7) in linarith)
  show ?thesis
  proof (cases u)
    case True
    then have "plug_backward (of_nat ?k) h = h" unfolding plug_backward_def Let_def B(2) using C(1) by simp
    then show ?thesis using ok True unfolding p(2) by (simp add: xs)
  next
    case False
    have t: "tiles ?f 0 0 (ps @ [(False, m), (False, n)] @ ys)" and e: "ext (ps @ [(False, m), (False, n)] @ ys) = HEAP"
      using ok xs False by (simp_all add: mem_ok0_def)
    have i3: "unat (of_nat ?e :: u16) = ?e" using B(6) by (simp add: unat_of_nat del: of_nat_add)
    have d3: "of_nat ?e \<noteq> (of_nat ?j :: u16)" by (rule word_neq_unat, use C(7) i3 in linarith)
    have ff: "first_free 0 (ps @ (False, m) # r) \<le> ?j" for r
      using first_free_le [of 0 ps] by (simp add: first_free_append)
    have l: "lfree h \<noteq> of_nat ?k"
      using ok ff [of "(False, n) # ys"] B(6) of_nat_u16_eq [of "first_free 0 (ps @ (False, m) # (False, n) # ys)" ?k] False
      by (simp add: mem_ok0_def xs del: of_nat_add)
    define h' where "h' = plug_backward (of_nat ?k) h"
    have g: "mhdr h' = ?f(of_nat ?j := (?f (of_nat ?j))\<lparr>mnext := of_nat ?e\<rparr>,
        of_nat ?e := (?f (of_nat ?e))\<lparr>mprev := of_nat ?j\<rparr>)" "lfree h' = lfree h" "ram h' = ram h"
      unfolding h'_def plug_backward_def Let_def B(2) using B(3) C(1) False d d [symmetric] d3 l by (simp_all del: of_nat_add)
    have "tiles (mhdr h') 0 0 (ps @ [(False, m + n + 8)] @ ys)"
    proof (rule tiles_replace [OF t e])
      show "tiles (mhdr h') ?j (last_off 0 0 ps) [(False, m + n + 8)]"
        using B(4) C(1-5) False d3 unfolding g(1) by (simp del: of_nat_add add: ac_simps)
    next
      show "mhdr h' (of_nat (?j + ext [(False, m), (False, n)])) = (?f (of_nat (?j + ext [(False, m), (False, n)])))
          \<lparr>mprev := of_nat (last_off ?j (last_off 0 0 ps) [(False, m + n + 8)])\<rparr>"
        unfolding g(1) by (simp del: of_nat_add add: ac_simps)
    next
      fix i :: u16 assume "unat i < ?j"
      then have "i \<noteq> of_nat ?j" "i \<noteq> of_nat ?e" using C(7) i3 by (auto simp del: of_nat_add)
      then show "mhdr h' i = ?f i" unfolding g(1) by simp
    next
      fix i :: u16 assume "?j + ext [(False, m), (False, n)] < unat i"
      then have "i \<noteq> of_nat ?j" "i \<noteq> of_nat ?e" using C(7) i3 by (auto simp del: of_nat_add)
      then show "mhdr h' i = ?f i" unfolding g(1) by simp
    qed simp
    moreover have "mused (mhdr h' ram_end)" using ok C(8) unfolding g(1) by (simp add: mem_ok0_def)
    moreover have "first_free 0 (ps @ (False, m + n + 8) # ys) = first_free 0 (ps @ (False, m) # (False, n) # ys)"
      by (simp add: first_free_append)
    ultimately show ?thesis using ok e g(2,3) False unfolding h'_def [symmetric] p(2) by (simp add: mem_ok0_def xs)
  qed
qed

text \<open>Release as a function on blocks: the block becomes free and is merged with the free blocks beside it.\<close>

definition released :: "blocks \<Rightarrow> nat \<Rightarrow> blocks \<Rightarrow> blocks" where
  "released xs n ys =
    (let m = snd (hd (absorb n ys)); zs = tl (absorb n ys)
     in if xs \<noteq> [] \<and> \<not> fst (last xs) then butlast xs @ (False, snd (last xs) + m + 8) # zs else xs @ (False, m) # zs)"

lemma absorb_Cons: "absorb n ys = (False, snd (hd (absorb n ys))) # tl (absorb n ys)"
  by (cases "(n, ys)" rule: absorb.cases) simp_all

lemma merged_absorb:
  assumes "merged ys"
  shows "merged (absorb n ys)"
  using assms by (cases "(n, ys)" rule: absorb.cases) (auto simp: merged_Cons)

lemma merged_released:
  assumes "merged (xs @ (True, n) # ys)"
  shows "merged (released xs n ys)"
proof -
  have a: "merged (absorb n ys)" using assms by (simp add: merged_append merged_Cons merged_absorb)
  then have z: "merged (tl (absorb n ys))" "tl (absorb n ys) \<noteq> [] \<Longrightarrow> fst (hd (tl (absorb n ys)))"
    using absorb_Cons [of n ys] merged_Cons [of "(False, snd (hd (absorb n ys)))" "tl (absorb n ys)"] by simp_all
  show ?thesis
  proof (cases xs rule: rev_cases)
    case Nil
    then show ?thesis using z by (simp add: released_def Let_def merged_Cons)
  next
    case (snoc ps b)
    then show ?thesis using assms z by (auto simp: released_def Let_def merged_append merged_Cons)
  qed
qed

theorem mem_free_blocks:
  assumes ok: "mem_ok h (xs @ [(True, n)] @ ys)"
  shows "\<exists>h'. mem_free (ram h + int (ext xs) + 8) h = Some h' \<and> mem_ok h' (released xs n ys) \<and> ram h' = ram h"
proof -
  let ?k = "ext xs"
  have ok0: "mem_ok0 h (xs @ [(True, n)] @ ys)" and m: "merged (xs @ (True, n) # ys)" using ok by (simp_all add: mem_ok_split)
  note B = block_at [OF ok0]
  have r: "0 \<le> ram h" using ok by (simp add: mem_ok_def)
  define h1 where "h1 = upd_mem (of_nat ?k) (\<lambda>m. m\<lparr>mused := False\<rparr>) h"
  define h2 where "h2 = (if of_nat ?k < lfree h1 then h1\<lparr>lfree := of_nat ?k\<rparr> else h1)"
  have ok2: "mem_ok0 h2 (xs @ [(False, n)] @ ys)" using mark_free [OF ok0] by (simp only: h2_def h1_def)
  have r2: "ram h2 = ram h" by (simp add: h2_def h1_def)
  have "tiles (mhdr h) 0 0 xs" "4 dvd ram h" using ok unfolding mem_ok_def tiles_append by simp_all
  then have "4 dvd ram h + int ?k" using tiles_aligned by fastforce
  note al = aligned_data [OF this]
  have f: "mem_free (ram h + int ?k + 8) h = plug_holes (of_nat ?k) h2"
    using r B(1,5,6) al unfolding mem_free_def h2_def h1_def by (simp add: Let_def)
  have p: "plug_holes (of_nat ?k) h2 = Some (plug_backward (of_nat ?k) (plug_forward (of_nat ?k) h2))"
    unfolding plug_holes_def using block_at [OF ok2] by (simp add: word_less_nat_alt word_le_nat_alt unat_of_nat del: of_nat_add)
  define h3 where "h3 = plug_forward (of_nat ?k) h2"
  have ok3: "mem_ok0 h3 (xs @ [(False, snd (hd (absorb n ys)))] @ tl (absorb n ys))" and r3: "ram h3 = ram h"
    using plug_forward_blocks [OF ok2] absorb_Cons [of n ys] by (simp_all add: h3_def r2)
  have "mem_ok0 (plug_backward (of_nat ?k) h3) (released xs n ys)" "ram (plug_backward (of_nat ?k) h3) = ram h"
    using plug_backward_blocks [OF ok3] by (simp_all add: released_def Let_def r3)
  then show ?thesis using f p merged_released [OF m] by (simp add: mem_ok_split h3_def)
qed

section \<open>Shrinking\<close>

fun trimmed :: "nat \<Rightarrow> nat \<Rightarrow> blocks \<Rightarrow> blocks" where
  "trimmed s n ((False, m) # ys) = (True, s) # (False, m + (n - s)) # ys"
| "trimmed s n ys = (if s + 20 \<le> n then [(True, s), (False, n - s - 8)] else [(True, n)]) @ ys"

definition trimmed_block :: "nat \<Rightarrow> nat \<Rightarrow> blocks \<Rightarrow> blocks" where
  "trimmed_block s n ys = (if s < n then trimmed s n ys else (True, n) # ys)"

lemma put_free_tiles:
  assumes t: "tiles (mhdr h) 0 0 (xs @ mid @ ys)" and e: "ext (xs @ mid @ ys) = HEAP"
    and k: "k = ext xs" "mprev (mhdr h (of_nat k)) = of_nat (last_off 0 0 xs)" "mused (mhdr h (of_nat k))"
    and s: "12 \<le> s" "4 dvd s" "12 \<le> r" "4 dvd r" "ext mid = s + 8 + r + 8"
    and en: "mused (mhdr h ram_end)"
  defines "h' \<equiv> put_free (of_nat k) (of_nat (k + s + 8)) (of_nat (k + s + 8 + r + 8)) h"
  shows "tiles (mhdr h') 0 0 (xs @ [(True, s), (False, r)] @ ys)" "mused (mhdr h' ram_end)" "ram h' = ram h" "lfree h' = lfree h"
proof -
  let ?f = "mhdr h" and ?j = "k + s + 8" and ?e = "k + s + 8 + r + 8"
  have b: "?e \<le> HEAP" using e s(5) k(1) by simp
  have i: "unat (of_nat k :: u16) = k" "unat (of_nat ?j :: u16) = ?j" "unat (of_nat ?e :: u16) = ?e"
    using b by (simp_all add: unat_of_nat del: of_nat_add)
  have d: "of_nat k \<noteq> (of_nat ?j :: u16)" "of_nat k \<noteq> (of_nat ?e :: u16)" "of_nat ?j \<noteq> (of_nat ?e :: u16)"
    by (rule word_neq_unat, use i in linarith)+
  have ne: "of_nat k \<noteq> ram_end" "of_nat ?j \<noteq> ram_end" by (rule word_neq_unat, use i b in simp)+
  have g: "mhdr h' (of_nat k) = (?f (of_nat k))\<lparr>mnext := of_nat ?j\<rparr>"
    "mhdr h' (of_nat ?j) = (?f (of_nat ?j))\<lparr>mused := False, mnext := of_nat ?e, mprev := of_nat k\<rparr>"
    "of_nat ?e \<noteq> ram_end \<Longrightarrow> mhdr h' (of_nat ?e) = (?f (of_nat ?e))\<lparr>mprev := of_nat ?j\<rparr>"
    "\<And>i. i \<noteq> of_nat k \<Longrightarrow> i \<noteq> of_nat ?j \<Longrightarrow> i \<noteq> of_nat ?e \<Longrightarrow> mhdr h' i = ?f i"
    "mhdr h' ram_end = ?f ram_end"
    unfolding h'_def put_free_def Let_def using d d [symmetric] ne by (auto simp del: of_nat_add)
  have end_iff: "of_nat ?e = ram_end \<longleftrightarrow> ?e = HEAP"
    using of_nat_u16_eq [of "?e" HEAP] b by (simp del: of_nat_add)
  show "tiles (mhdr h') 0 0 (xs @ [(True, s), (False, r)] @ ys)"
  proof (rule tiles_replace [OF t e])
    show "tiles (mhdr h') (ext xs) (last_off 0 0 xs) [(True, s), (False, r)]"
      using g(1,2) k s by (simp del: of_nat_add add: ac_simps)
  next
    fix i' :: u16 assume "unat i' < ext xs"
    then have "i' \<noteq> of_nat k" "i' \<noteq> of_nat ?j" "i' \<noteq> of_nat ?e" using i k(1) by (auto simp del: of_nat_add)
    then show "mhdr h' i' = ?f i'" by (rule g)
  next
    fix i' :: u16 assume "ext xs + ext mid < unat i'"
    then have "i' \<noteq> of_nat k" "i' \<noteq> of_nat ?j" "i' \<noteq> of_nat ?e" using i k(1) s(5) by (auto simp del: of_nat_add)
    then show "mhdr h' i' = ?f i'" by (rule g)
  next
    assume "ys \<noteq> []"
    then have "?e \<noteq> HEAP" using e k(1) s(5) by (cases ys) auto
    then show "mhdr h' (of_nat (ext xs + ext mid)) = (?f (of_nat (ext xs + ext mid)))
        \<lparr>mprev := of_nat (last_off (ext xs) (last_off 0 0 xs) [(True, s), (False, r)])\<rparr>"
      using g(3) end_iff k(1) s(5) by (simp del: of_nat_add add: ac_simps)
  qed (use s(5) in simp)
  show "mused (mhdr h' ram_end)" "ram h' = ram h" "lfree h' = lfree h"
    using en by (simp_all only: g(5)) (simp_all add: h'_def put_free_def Let_def)
qed

lemma trim_size:
  assumes ok: "mem_ok0 h (xs @ [(True, n)] @ ys)"
  shows "mnext (mhdr h (of_nat (ext xs))) - of_nat (ext xs) - SIZEOF_STRUCT_MEM = of_nat n"
    "unat (of_nat n :: u16) = n"
  using block_at [OF ok] by (simp_all add: unat_of_nat)

lemma mem_trim_unfold:
  assumes ok: "mem_ok0 h (xs @ [(True, n)] @ ys)" and s: "request sz < n"
  shows "mem_trim (ram h + int (ext xs) + 8) sz h =
    (let k = ext xs; p = ram h + int k + 8; s = request sz; mem2 = of_nat (k + n + 8); ptr2 = of_nat (k + s + 8)
     in if \<not> mused (mhdr h mem2)
        then let next = mnext (mhdr h mem2); h = (if lfree h = mem2 then h\<lparr>lfree := ptr2\<rparr> else h)
             in Some (p, put_free (of_nat k) ptr2 next h)
        else if s + 20 \<le> n
        then let h = (if ptr2 < lfree h then h\<lparr>lfree := ptr2\<rparr> else h)
             in Some (p, put_free (of_nat k) ptr2 mem2 h)
        else Some (p, h))"
proof -
  let ?k = "ext xs" and ?s = "if LWIP_MEM_ALIGN_SIZE sz < MIN_SIZE_ALIGNED then MIN_SIZE_ALIGNED else LWIP_MEM_ALIGN_SIZE sz"
  note B = block_at [OF ok] and T = trim_size [OF ok]
  have w: "?s = of_nat (request sz)"
    by (rule word_unat_eq_iff [THEN iffD2]) (use request_props(4) [of sz] in \<open>simp add: request_def word_less_nat_alt unat_of_nat max_def\<close>)
  have u: "unat (of_nat (request sz) :: u16) = request sz" using request_props(4) by (simp add: unat_of_nat)
  have c: "\<not> of_nat (request sz) > MEM_SIZE_ALIGNED" "of_nat (request sz) \<le> (of_nat n :: u16)"
    "of_nat (request sz) \<noteq> (of_nat n :: u16)"
    using s B(6) T(2) u by (auto simp: word_less_nat_alt word_le_nat_alt simp del: of_nat_add)
  have a: "word_of_int (ram h + int ?k + 8 - 8 - ram h) = (of_nat ?k :: u16)" by simp
  have rg: "ram h \<le> ram h + int ?k + 8 \<and> ram h + int ?k + 8 < ram h + uint ram_end" "\<not> ram h + int ?k + 8 < ram h + 8"
    using B(5,6) by auto
  have p2: "of_nat ?k + 8 + of_nat (request sz) = (of_nat (?k + request sz + 8) :: u16)" by simp
  have sz: "of_nat (?k + n + 8) - of_nat ?k - 8 = (of_nat n :: u16)" by simp
  show ?thesis
    unfolding mem_trim_def Let_def w a B(3) sz p2 u T(2)
    by (simp only: c rg if_False simp_thms) (simp del: of_nat_add add: add.assoc)
qed

theorem mem_trim_blocks:
  assumes ok: "mem_ok h (xs @ [(True, n)] @ ys)" and s: "request sz \<le> n"
  shows "\<exists>h'. mem_trim (ram h + int (ext xs) + 8) sz h = Some (ram h + int (ext xs) + 8, h') \<and>
    mem_ok h' (xs @ trimmed_block (request sz) n ys) \<and> ram h' = ram h"
proof (cases "request sz = n")
  case True
  have ok0: "mem_ok0 h (xs @ [(True, n)] @ ys)" using ok by (simp add: mem_ok_split)
  note B = block_at [OF ok0] and T = trim_size [OF ok0]
  let ?k = "ext xs" and ?s = "if LWIP_MEM_ALIGN_SIZE sz < MIN_SIZE_ALIGNED then MIN_SIZE_ALIGNED else LWIP_MEM_ALIGN_SIZE sz"
  have w: "?s = of_nat n"
    by (rule word_unat_eq_iff [THEN iffD2])
       (use True request_props(4) [of sz] in \<open>auto simp: request_def word_less_nat_alt unat_of_nat max_def\<close>)
  have c: "\<not> of_nat n > MEM_SIZE_ALIGNED" using B(6) T(2) by (simp add: word_less_nat_alt)
  have a: "word_of_int (ram h + int ?k + 8 - 8 - ram h) = (of_nat ?k :: u16)" by simp
  have rg: "ram h \<le> ram h + int ?k + 8 \<and> ram h + int ?k + 8 < ram h + uint ram_end" "\<not> ram h + int ?k + 8 < ram h + 8"
    using B(5,6) by auto
  have "mem_trim (ram h + int ?k + 8) sz h = Some (ram h + int ?k + 8, h)"
    unfolding mem_trim_def Let_def w a T(1) using c rg by simp
  then show ?thesis using ok True by (simp add: trimmed_block_def)
next
  case False
  then have s: "request sz < n" using s by simp
  have ok0: "mem_ok0 h (xs @ [(True, n)] @ ys)" and mg: "merged (xs @ [(True, n)] @ ys)" using ok by (simp_all add: mem_ok_split)
  note B = block_at [OF ok0]
  let ?k = "ext xs" and ?s = "request sz"
  note R = request_props(1,2) [of sz]
  have t: "tiles (mhdr h) 0 0 (xs @ [(True, n)] @ ys)" and e: "ext (xs @ [(True, n)] @ ys) = HEAP" and en: "mused (mhdr h ram_end)"
    and lf: "lfree h = of_nat (first_free 0 (xs @ [(True, n)] @ ys))" and r: "0 \<le> ram h" "4 dvd ram h"
    using ok0 by (simp_all only: mem_ok0_def)
  have dn: "4 dvd n - ?s" using B(4) R(2) by simp
  have ffb: "first_free 0 xs < ?k" if "\<not> (\<forall>b \<in> set xs. fst b)" using first_free_bound [OF that, of 0] by simp
  consider m zs where "ys = (False, m) # zs" | "ys = [] \<or> fst (hd ys)" by (cases ys; cases "hd ys") auto
  then show ?thesis
  proof cases
    case 1
    have ok2: "mem_ok0 h ((xs @ [(True, n)]) @ [(False, m)] @ zs)" using ok0 1 by simp
    have k2: "ext (xs @ [(True, n)]) = ?k + n + 8" by simp
    note C = block_at [OF ok2, unfolded k2]
    let ?r = "m + (n - ?s)"
    have nx: "mnext (mhdr h (of_nat (?k + n + 8))) = of_nat (?k + ?s + 8 + ?r + 8)" using C(3) s by (simp del: of_nat_add add: ac_simps)
    define h1 where "h1 = (if lfree h = of_nat (?k + n + 8) then h\<lparr>lfree := of_nat (?k + ?s + 8)\<rparr> else h)"
    have h1: "mhdr h1 = mhdr h" "ram h1 = ram h" by (simp_all add: h1_def)
    have th: "tiles (mhdr h1) 0 0 (xs @ [(True, n), (False, m)] @ zs)" "ext (xs @ [(True, n), (False, m)] @ zs) = HEAP"
      using t e 1 by (simp_all add: h1)
    have hyp: "mprev (mhdr h1 (of_nat ?k)) = of_nat (last_off 0 0 xs)" "mused (mhdr h1 (of_nat ?k))" "12 \<le> ?r" "4 dvd ?r"
      "ext [(True, n), (False, m)] = ?s + 8 + ?r + 8" "mused (mhdr h1 ram_end)"
      using B(1,2) C(4,5) dn s en unfolding h1 by (simp_all only: dvd_add) simp_all
    note P = put_free_tiles [OF th refl hyp(1,2) R hyp(3-6)]
    have l: "lfree h1 = of_nat (first_free 0 (xs @ (True, ?s) # (False, ?r) # zs))"
    proof (cases "\<forall>b \<in> set xs. fst b")
      case True
      then show ?thesis using lf by (simp add: h1_def 1 first_free_append)
    next
      case no: False
      then show ?thesis using lf ffb [OF no] C(6) of_nat_u16_eq [of "first_free 0 xs" "?k + n + 8"]
        by (auto simp: h1_def first_free_append simp del: of_nat_add)
    qed
    have mg': "merged (xs @ (True, ?s) # (False, ?r) # zs)" using mg by (simp add: 1 merged_append merged_Cons)
    have "ext (xs @ (True, ?s) # (False, ?r) # zs) = HEAP" using e s by (simp add: 1)
    then have "mem_ok (put_free (of_nat ?k) (of_nat (?k + ?s + 8)) (of_nat (?k + ?s + 8 + ?r + 8)) h1)
        (xs @ trimmed_block ?s n ys)"
      using P l mg' r s by (simp add: mem_ok_def trimmed_block_def 1 h1(2))
    then show ?thesis using P(3) C(1) unfolding mem_trim_unfold [OF ok0 s] Let_def nx h1_def [symmetric] by (simp add: h1 del: of_nat_add)
  next
    case 2
    have used: "mused (mhdr h (of_nat (?k + n + 8)))"
    proof (cases ys)
      case Nil
      then have "?k + n + 8 = HEAP" using e by simp
      then show ?thesis using en by (metis of_nat_numeral)
    next
      case (Cons y zs)
      then obtain m where "ys = (True, m) # zs" using 2 by (cases y) auto
      then show ?thesis using t by (simp add: tiles_append del: of_nat_add)
    qed
    have tb: "trimmed_block ?s n ys = (if ?s + 20 \<le> n then [(True, ?s), (False, n - ?s - 8)] else [(True, n)]) @ ys"
      using 2 s by (cases "(?s, n, ys)" rule: trimmed.cases) (auto simp: trimmed_block_def)
    show ?thesis
    proof (cases "?s + 20 \<le> n")
      case no: False
      then show ?thesis using ok used unfolding mem_trim_unfold [OF ok0 s] Let_def tb by simp
    next
      case True
      let ?r = "n - ?s - 8"
      have nx: "of_nat (?k + n + 8) = (of_nat (?k + ?s + 8 + ?r + 8) :: u16)" using True by (simp del: of_nat_add)
      define h1 where "h1 = (if of_nat (?k + ?s + 8) < lfree h then h\<lparr>lfree := of_nat (?k + ?s + 8)\<rparr> else h)"
      have h1: "mhdr h1 = mhdr h" "ram h1 = ram h" by (simp_all add: h1_def)
      have th: "tiles (mhdr h1) 0 0 (xs @ [(True, n)] @ ys)" "ext (xs @ [(True, n)] @ ys) = HEAP" using t e by (simp_all add: h1)
      have hyp: "mprev (mhdr h1 (of_nat ?k)) = of_nat (last_off 0 0 xs)" "mused (mhdr h1 (of_nat ?k))" "12 \<le> ?r" "4 dvd ?r"
        "ext [(True, n)] = ?s + 8 + ?r + 8" "mused (mhdr h1 ram_end)"
        using B(1,2) dvd_diff_nat [OF dn, of 8] True en unfolding h1 by simp_all
      note P = put_free_tiles [OF th refl hyp(1,2) R hyp(3-6)]
      have l: "lfree h1 = of_nat (first_free 0 (xs @ (True, ?s) # (False, ?r) # ys))"
      proof (cases "\<forall>b \<in> set xs. fst b")
        case all: True
        then have lf2: "lfree h = of_nat (first_free (?k + n + 8) ys)" using lf by (simp add: first_free_append)
        have "?k + n + 8 \<le> first_free (?k + n + 8) ys" "first_free (?k + n + 8) ys \<le> HEAP"
          using first_free_while [of "?k + n + 8" ys] first_free_le [of "?k + n + 8" ys] e by simp_all
        then have "of_nat (?k + ?s + 8) < lfree h" using True by (simp add: lf2 word_less_nat_alt unat_of_nat del: of_nat_add)
        then show ?thesis using all by (simp add: h1_def first_free_append)
      next
        case no: False
        then have lf2: "lfree h = of_nat (first_free 0 xs)" using lf by (auto simp: first_free_append)
        have "\<not> of_nat (?k + ?s + 8) < lfree h"
          using ffb [OF no] B(6) s by (simp add: lf2 word_less_nat_alt unat_of_nat del: of_nat_add)
        then show ?thesis using no by (auto simp: h1_def first_free_append lf2)
      qed
      have mg': "merged (xs @ (True, ?s) # (False, ?r) # ys)" using mg 2 by (auto simp: merged_append merged_Cons)
      have "ext (xs @ (True, ?s) # (False, ?r) # ys) = HEAP" using e True by simp
      then have "mem_ok (put_free (of_nat ?k) (of_nat (?k + ?s + 8)) (of_nat (?k + ?s + 8 + ?r + 8)) h1)
          (xs @ trimmed_block ?s n ys)"
        using P l mg' r True by (simp add: mem_ok_def tb h1(2))
      then show ?thesis using P(3) used True unfolding mem_trim_unfold [OF ok0 s] Let_def h1_def [symmetric] nx by (simp add: h1 del: of_nat_add)
    qed
  qed
qed

end
