(* ===== verification/Chksum.thy ===== *)
theory Chksum imports Prelude begin

text \<open>
  The Internet checksum, \<open>lwip/src/core/ipv4/inet_chksum.c\<close>: the sum of a block of memory at any alignment, and the
  one's complement sum it computes. All blocks here are lists of bytes; the sums over chains of buffers are in Pbuf.
\<close>

unbundle bit_operations_syntax

section \<open>The code\<close>

definition FOLD_U32T :: "u32 \<Rightarrow> u32" where
  "FOLD_U32T u = drop_bit 16 u + (u AND 0x0000ffff)"

definition SWAP_BYTES_IN_WORD :: "u32 \<Rightarrow> u32" where
  "SWAP_BYTES_IN_WORD w = push_bit 8 (w AND 0xff) OR drop_bit 8 (w AND 0xff00)"

text \<open>The bulk of the data: words of two bytes, and what is left over.\<close>

fun add_words :: "u32 \<Rightarrow> u8 list \<Rightarrow> u32 \<times> u8 list" where
  "add_words acc (a # b # bs) = add_words (acc + ucast (le16 a b)) bs"
| "add_words acc bs = (acc, bs)"

definition lwip_standard_chksum :: "addr \<Rightarrow> u8 list \<Rightarrow> u16" where
  "lwip_standard_chksum dataptr bs =
    (let odd = (dataptr mod 2 = 1);
         (t1, bs) = (if odd \<and> bs \<noteq> [] then (hd bs, tl bs) else (0, bs));
         (sum, bs) = add_words 0 bs;
         t0 = (if bs \<noteq> [] then hd bs else 0);
         sum = sum + ucast (le16 t0 t1);
         sum = FOLD_U32T sum;
         sum = FOLD_U32T sum;
         sum = (if odd then SWAP_BYTES_IN_WORD sum else sum)
     in ucast sum)"

definition inet_chksum :: "addr \<Rightarrow> u8 list \<Rightarrow> u16" where
  "inet_chksum dataptr bs = NOT (lwip_standard_chksum dataptr bs)"

section \<open>The one's complement sum\<close>

text \<open>RFC 1071 on the little-endian words of a block, a last odd byte padded with zero: the sum in one's complement
  arithmetic, where 65535 stands for zero unless nothing but zeros was added.\<close>

fun words_sum :: "u8 list \<Rightarrow> nat" where
  "words_sum (a # b # bs) = unat a + 256 * unat b + words_sum bs"
| "words_sum [a] = unat a"
| "words_sum [] = 0"

definition ones_sum :: "nat \<Rightarrow> nat" where
  "ones_sum n = (if n = 0 then 0 else 1 + (n - 1) mod 65535)"

lemma ones_sum_iff:
  "m = ones_sum n \<longleftrightarrow> m \<le> 65535 \<and> (m = 0 \<longleftrightarrow> n = 0) \<and> m mod 65535 = n mod 65535"
proof (cases "n = 0")
  case False
  then obtain k where n: "n = Suc k" by (cases n) auto
  have "Suc (k mod 65535) mod 65535 = Suc k mod 65535" by (simp add: mod_Suc_eq)
  moreover have "k mod 65535 < 65535" by simp
  moreover have "m = Suc (k mod 65535)" if a: "m \<le> 65535" "m \<noteq> 0" "m mod 65535 = Suc k mod 65535"
  proof -
    obtain j where m: "m = Suc j" using a(2) by (cases m) auto
    have "j < 65535" using a(1) m by simp
    have "(Suc j + 65534) mod 65535 = (Suc k + 65534) mod 65535" using a(3) m by (metis mod_add_left_eq)
    then have "j mod 65535 = k mod 65535" by (simp add: mod_add_self2 flip: add_Suc_right)
    then show ?thesis using \<open>j < 65535\<close> m by simp
  qed
  ultimately show ?thesis by (auto simp: ones_sum_def n)
qed (auto simp: ones_sum_def)

lemma ones_sum_props: "ones_sum n \<le> 65535" "ones_sum n = 0 \<longleftrightarrow> n = 0" "ones_sum n mod 65535 = n mod 65535"
  using ones_sum_iff [of "ones_sum n" n] by simp_all

lemma ones_sum_id: "n \<le> 65535 \<Longrightarrow> ones_sum n = n"
  using ones_sum_iff [of n n] by simp

lemma ones_sum_add: "ones_sum (ones_sum a + b) = ones_sum (a + b)"
proof -
  have "(ones_sum a + b) mod 65535 = (a + b) mod 65535" using ones_sum_props(3) [of a] by (metis mod_add_left_eq)
  then show ?thesis using ones_sum_iff [of "ones_sum (ones_sum a + b)" "a + b"] ones_sum_props [of "ones_sum a + b"] ones_sum_props(2) [of a]
    by simp
qed

text \<open>Multiplication by 256 rotates the bytes of a word; twice is the identity.\<close>

lemma ones_sum_mult: "ones_sum (256 * ones_sum a) = ones_sum (256 * a)"
proof -
  have "(256 * ones_sum a) mod 65535 = (256 * a) mod 65535" using ones_sum_props(3) [of a] by (metis mod_mult_right_eq)
  then show ?thesis using ones_sum_iff [of "ones_sum (256 * ones_sum a)" "256 * a"] ones_sum_props [of "256 * ones_sum a"] ones_sum_props(2) [of a]
    by simp
qed

lemma ones_sum_cong: "(a = 0 \<longleftrightarrow> b = 0) \<Longrightarrow> a mod 65535 = b mod 65535 \<Longrightarrow> ones_sum a = ones_sum b"
  using ones_sum_iff [of "ones_sum a" b] ones_sum_props [of a] by simp

lemma ones_sum_rotate2: "ones_sum (256 * (256 * a)) = ones_sum a"
proof (rule ones_sum_cong)
  have "256 * (256 * a) = a + 65535 * a" by simp
  then show "256 * (256 * a) mod 65535 = a mod 65535" by (metis mod_mult_self2)
qed simp

text \<open>A byte in front of a block rotates the words behind it.\<close>

lemma words_sum_Cons: "\<exists>k. words_sum (a # bs) + 65535 * k = unat a + 256 * words_sum bs"
proof (induction bs arbitrary: a rule: words_sum.induct)
  case (1 b c bs)
  obtain k where k: "words_sum (c # bs) + 65535 * k = unat c + 256 * words_sum bs" using "1.IH" [of c] by blast
  have "words_sum (a # b # c # bs) + 65535 * (k + unat c) = unat a + 256 * words_sum (b # c # bs)"
    using k by simp
  then show ?case by blast
qed (auto intro: exI [of _ 0])

lemma words_sum_0: "words_sum bs = 0 \<longleftrightarrow> (\<forall>b \<in> set bs. b = 0)"
  by (induction bs rule: words_sum.induct) (auto simp: unat_eq_zero)

lemma words_sum_Cons_ones: "ones_sum (words_sum (a # bs)) = ones_sum (unat a + 256 * words_sum bs)"
proof (rule ones_sum_cong)
  show "words_sum (a # bs) = 0 \<longleftrightarrow> unat a + 256 * words_sum bs = 0"
    using words_sum_0 [of "a # bs"] words_sum_0 [of bs] by (auto simp: unat_eq_zero)
  obtain k where "words_sum (a # bs) + 65535 * k = unat a + 256 * words_sum bs" using words_sum_Cons by blast
  then show "words_sum (a # bs) mod 65535 = (unat a + 256 * words_sum bs) mod 65535" by (metis mod_mult_self2)
qed

text \<open>A block behind another adds its sum, rotated if the first is odd.\<close>

definition rot :: "nat \<Rightarrow> nat \<Rightarrow> nat" where
  "rot n a = (if odd n then 256 * a else a)"

lemma words_sum_append: "ones_sum (words_sum (as @ bs)) = ones_sum (words_sum as + rot (length as) (words_sum bs))"
proof (induction as rule: words_sum.induct)
  case (1 a b as)
  have "ones_sum (words_sum ((a # b # as) @ bs)) = ones_sum (ones_sum (words_sum (as @ bs)) + (unat a + 256 * unat b))"
    by (simp only: ones_sum_add) (simp add: ac_simps)
  also have "\<dots> = ones_sum (words_sum (a # b # as) + rot (length (a # b # as)) (words_sum bs))"
    unfolding "1.IH" ones_sum_add by (simp add: rot_def ac_simps)
  finally show ?case .
next
  case (2 a)
  then show ?case using words_sum_Cons_ones by (simp add: rot_def)
qed (simp add: rot_def)

section \<open>The sum of a block\<close>

lemma unat_le16: "unat (le16 a b) = unat a + 256 * unat b"
proof -
  have d: "(ucast a :: u16) AND push_bit 8 (ucast b) = 0"
  proof (rule bit_word_eqI)
    fix n show "bit ((ucast a :: u16) AND push_bit 8 (ucast b)) n \<longleftrightarrow> bit 0 n"
      using bit_imp_le_length [of a n] by (auto simp: bit_simps)
  qed
  have ua: "unat (ucast a :: u16) = unat a" "unat (ucast b :: u16) = unat b"
    using unat_lt_u8 [of a] unat_lt_u8 [of b] by (simp_all add: unsigned_ucast_eq unsigned_take_bit_eq take_bit_eq_mod del: unat_lt_u8)
  have "le16 a b = ucast a + push_bit 8 (ucast b)" using disjunctive_add_eq_or [OF d] by (simp add: le16_def)
  moreover have "unat (push_bit 8 (ucast b) :: u16) = 256 * unat b"
    using unat_lt_u8 [of b] ua by (simp add: push_bit_eq_mult unat_mult_lem [THEN iffD1] del: unat_lt_u8)
  moreover have "unat a + 256 * unat b < 65536" using unat_lt_u8 [of a] unat_lt_u8 [of b] by linarith
  ultimately show ?thesis using ua by (simp add: unat_add_lem [THEN iffD1])
qed

lemma add_words_sum:
  "unat acc + 65535 * (length bs div 2 + 1) < 2 ^ 32 \<Longrightarrow>
    unat (fst (add_words acc bs)) + words_sum (snd (add_words acc bs)) = unat acc + words_sum bs \<and>
    length (snd (add_words acc bs)) \<le> 1 \<and> unat (fst (add_words acc bs)) \<le> unat acc + 65535 * (length bs div 2)"
proof (induction acc bs rule: add_words.induct)
  case (1 acc a b bs)
  have l: "unat (ucast (le16 a b) :: u32) = unat a + 256 * unat b"
    using unat_lt_u16 [of "le16 a b"] by (simp add: unsigned_ucast_eq unsigned_take_bit_eq take_bit_eq_mod unat_le16 del: unat_lt_u16)
  have w: "unat a + 256 * unat b \<le> 65535" using unat_lt_u8 [of a] unat_lt_u8 [of b] by linarith
  have s: "unat (acc + ucast (le16 a b)) = unat acc + (unat a + 256 * unat b)"
    using "1.prems" w l by (simp add: unat_add_lem [THEN iffD1])
  have "unat (fst (add_words (acc + ucast (le16 a b)) bs)) + words_sum (snd (add_words (acc + ucast (le16 a b)) bs)) =
      unat (acc + ucast (le16 a b)) + words_sum bs \<and> length (snd (add_words (acc + ucast (le16 a b)) bs)) \<le> 1 \<and>
      unat (fst (add_words (acc + ucast (le16 a b)) bs)) \<le> unat (acc + ucast (le16 a b)) + 65535 * (length bs div 2)"
    by (rule "1.IH") (use "1.prems" w s in simp)
  then show ?case using w s by simp
qed auto

lemma unat_FOLD: "unat (FOLD_U32T u) = unat u div 65536 + unat u mod 65536"
proof -
  have m: "(65535 :: u32) = mask 16" by (simp add: mask_eq_exp_minus_1)
  have "unat (u AND 65535) = unat u mod 65536"
    unfolding m take_bit_eq_mask [symmetric] by (simp only: unsigned_take_bit_eq) (simp add: take_bit_eq_mod)
  moreover have "unat (drop_bit 16 u) = unat u div 65536" by (simp add: drop_bit_eq_div unat_div)
  moreover have "unat u div 65536 < 65536" using unat_lt_u32 [of u] by linarith
  ultimately show ?thesis by (simp add: FOLD_U32T_def unat_add_lem [THEN iffD1])
qed

lemma ones_sum_fold: "ones_sum (n div 65536 + n mod 65536) = ones_sum n"
proof (rule ones_sum_cong)
  have n: "n div 65536 + n mod 65536 + 65535 * (n div 65536) = n" using div_mult_mod_eq [of n 65536] by linarith
  then show "(n div 65536 + n mod 65536) mod 65535 = n mod 65535" by (metis mod_mult_self2)
  show "n div 65536 + n mod 65536 = 0 \<longleftrightarrow> n = 0" using n by linarith
qed

lemma fold_bound: "n \<le> 131070 \<Longrightarrow> n div 65536 + n mod 65536 \<le> (65535 :: nat)"
  by (cases "n < 65536") (simp_all add: le_div_geq le_mod_geq)

lemma fold_once: "unat u \<le> 131070 \<Longrightarrow> unat (FOLD_U32T u) = ones_sum (unat u)"
  using ones_sum_id [OF fold_bound] by (simp only: unat_FOLD ones_sum_fold)

lemma fold_twice: "unat (FOLD_U32T (FOLD_U32T u)) = ones_sum (unat u)"
proof -
  have "unat u div 65536 \<le> 65535" using unat_lt_u32 [of u] by linarith
  then have "unat (FOLD_U32T u) \<le> 131070" by (simp add: unat_FOLD)
  from fold_once [OF this] show ?thesis by (simp only: unat_FOLD ones_sum_fold)
qed

lemma unat_SWAP: "unat (SWAP_BYTES_IN_WORD w) = 256 * (unat w mod 256) + unat w div 256 mod 256"
proof -
  have m: "(255 :: u32) = mask 8" "(65280 :: u32) = push_bit 8 (mask 8)" by (simp_all add: mask_eq_exp_minus_1)
  have e: "drop_bit 8 (w AND 65280) = take_bit 8 (drop_bit 8 w)" "push_bit 8 (w AND 255) = push_bit 8 (take_bit 8 w)"
    unfolding m by (rule bit_word_eqI, auto simp: bit_simps)+
  have d: "push_bit 8 (take_bit 8 w) AND take_bit 8 (drop_bit 8 w) = 0"
    by (rule bit_word_eqI) (auto simp: bit_simps)
  have u: "unat (take_bit 8 w) = unat w mod 256" "unat (take_bit 8 (drop_bit 8 w)) = unat w div 256 mod 256"
    by (simp_all only: unsigned_take_bit_eq) (simp_all add: take_bit_eq_mod drop_bit_eq_div unat_div)
  have p: "unat (push_bit 8 (take_bit 8 w)) = 256 * (unat w mod 256)"
    using u(1) by (simp add: push_bit_eq_mult unat_mult_lem [THEN iffD1])
  have "SWAP_BYTES_IN_WORD w = push_bit 8 (take_bit 8 w) + take_bit 8 (drop_bit 8 w)"
    unfolding SWAP_BYTES_IN_WORD_def e using disjunctive_add_eq_or [OF d] by simp
  then show ?thesis using p u(2) by (simp add: unat_add_lem [THEN iffD1])
qed

lemma swap_ones: "unat w \<le> 65535 \<Longrightarrow> unat (SWAP_BYTES_IN_WORD w) = ones_sum (256 * unat w)"
proof -
  assume w: "unat w \<le> 65535"
  define q where "q = unat w div 256"
  define r where "r = unat w mod 256"
  have e: "unat w = 256 * q + r" by (simp add: q_def r_def)
  have q: "q < 256" "r < 256" using w by (auto simp: q_def r_def)
  have "256 * r + q + 65535 * q = 256 * unat w" by (simp add: e)
  then have "(256 * r + q) mod 65535 = (256 * unat w) mod 65535" by (metis mod_mult_self2)
  moreover have "256 * r + q \<le> 65535" using q by linarith
  moreover have "256 * r + q = 0 \<longleftrightarrow> 256 * unat w = 0" by (auto simp: e)
  moreover have "unat (SWAP_BYTES_IN_WORD w) = 256 * r + q" using q(1) by (simp add: unat_SWAP q_def r_def)
  ultimately show ?thesis by (simp only: ones_sum_iff)
qed

text \<open>The sum of a block is its one's complement sum, at any alignment.\<close>

lemma unat_chksum:
  assumes "length bs < 65536"
  shows "unat (lwip_standard_chksum a bs) = ones_sum (words_sum bs)"
proof -
  have core: "unat (FOLD_U32T (FOLD_U32T (fst (add_words 0 cs) + ucast (le16 (if snd (add_words 0 cs) \<noteq> [] then hd (snd (add_words 0 cs)) else 0) t)))) =
      ones_sum (256 * unat t + words_sum cs)" if cs: "length cs < 65536" for cs t
  proof -
    define r where "r = add_words 0 cs"
    have A: "unat (fst r) + words_sum (snd r) = words_sum cs" "length (snd r) \<le> 1" "unat (fst r) \<le> 65535 * (length cs div 2)"
      using add_words_sum [of 0 cs] cs by (simp_all add: r_def)
    define b where "b = (if snd r \<noteq> [] then hd (snd r) else 0)"
    have wb: "words_sum (snd r) = unat b" using A(2) by (cases "snd r") (auto simp: b_def)
    have l: "unat (ucast (le16 b t) :: u32) = unat b + 256 * unat t"
      using unat_lt_u16 [of "le16 b t"] by (simp add: unsigned_ucast_eq unsigned_take_bit_eq take_bit_eq_mod unat_le16 del: unat_lt_u16)
    have "unat b + 256 * unat t \<le> 65535" using unat_lt_u8 [of b] unat_lt_u8 [of t] by linarith
    then have "unat (fst r + ucast (le16 b t)) = unat (fst r) + (unat b + 256 * unat t)"
      using A(3) cs l by (simp add: unat_add_lem [THEN iffD1])
    then have "unat (fst r + ucast (le16 b t)) = 256 * unat t + words_sum cs" using A(1) wb by simp
    then show ?thesis unfolding r_def [symmetric] b_def [symmetric] by (simp only: fold_twice)
  qed
  have c16: "unat (ucast w :: u16) = unat w" if "unat w \<le> 65535" for w :: u32
    using that by (simp add: unsigned_ucast_eq unsigned_take_bit_eq take_bit_eq_mod)
  show ?thesis
  proof (cases "a mod 2 = 1")
    case False
    then have "lwip_standard_chksum a bs = ucast (FOLD_U32T (FOLD_U32T (fst (add_words 0 bs) +
        ucast (le16 (if snd (add_words 0 bs) \<noteq> [] then hd (snd (add_words 0 bs)) else 0) 0))))"
      by (simp add: lwip_standard_chksum_def Let_def case_prod_unfold)
    then show ?thesis using core [OF assms, of 0] c16 ones_sum_props(1) by simp
  next
    case True
    define t where "t = (if bs \<noteq> [] then hd bs else 0)"
    define cs where "cs = (if bs \<noteq> [] then tl bs else [])"
    have e: "lwip_standard_chksum a bs = ucast (SWAP_BYTES_IN_WORD (FOLD_U32T (FOLD_U32T (fst (add_words 0 cs) +
        ucast (le16 (if snd (add_words 0 cs) \<noteq> [] then hd (snd (add_words 0 cs)) else 0) t)))))"
      using True by (cases "bs = []") (simp_all add: lwip_standard_chksum_def Let_def case_prod_unfold t_def cs_def)
    have len: "length cs < 65536" using assms by (auto simp: cs_def)
    have "unat (lwip_standard_chksum a bs) = ones_sum (256 * ones_sum (256 * unat t + words_sum cs))"
      unfolding e using core [OF len, of t] c16 swap_ones ones_sum_props(1) by simp
    also have "\<dots> = ones_sum (unat t + 256 * words_sum cs)"
    proof -
      have "ones_sum (256 * (256 * unat t + words_sum cs)) = ones_sum (unat t + 256 * words_sum cs)"
      proof (rule ones_sum_cong)
        have "256 * (256 * unat t + words_sum cs) = unat t + 256 * words_sum cs + 65535 * unat t" by simp
        then show "256 * (256 * unat t + words_sum cs) mod 65535 = (unat t + 256 * words_sum cs) mod 65535" by (metis mod_mult_self2)
      qed simp
      then show ?thesis by (simp only: ones_sum_mult)
    qed
    also have "\<dots> = ones_sum (words_sum bs)"
      using words_sum_Cons_ones [of "hd bs" "tl bs"] by (cases bs) (simp_all add: t_def cs_def)
    finally show ?thesis .
  qed
qed

section \<open>Properties\<close>

lemma words_sum_even: "even (length xs) \<Longrightarrow> words_sum (xs @ ys) = words_sum xs + words_sum ys"
  by (induction xs rule: words_sum.induct) auto

lemma unat_not16: "unat (NOT w :: u16) = 65535 - unat w"
proof -
  have "NOT w = - 1 - w" by (simp add: not_eq_complement)
  also have "unat \<dots> = unat (- 1 :: u16) - unat w" by (rule unat_sub) simp
  also have "unat (- 1 :: u16) = 65535" by (simp add: unsigned_minus_1_eq_mask mask_eq_exp_minus_1)
  finally show ?thesis .
qed

lemma unat_inet_chksum: "length bs < 65536 \<Longrightarrow> unat (inet_chksum a bs) = 65535 - ones_sum (words_sum bs)"
  by (simp add: inet_chksum_def unat_not16 unat_chksum)

text \<open>The routine that adds aligned 16-bit words computes the one's complement sum of RFC 1071, for a block of
  any length below 65536 at an even or an odd address.\<close>

theorem lwip_standard_chksum_rfc1071:
  assumes "length bs < 65536"
  shows "unat (lwip_standard_chksum a bs) = ones_sum (words_sum bs)"
  using assms by (rule unat_chksum)

text \<open>Five bytes at an odd address.\<close>

theorem lwip_standard_chksum_rfc1071_witness:
  "unat (lwip_standard_chksum 0x10080001 [0xFF, 0x80, 0x12, 0xFE, 0x07]) = ones_sum (words_sum [0xFF, 0x80, 0x12, 0xFE, 0x07])"
  by (rule lwip_standard_chksum_rfc1071) simp



end
