(* ===== verification/Pbuf.thy ===== *)
theory Pbuf imports LwipMem Chksum begin

text \<open>
  Packet buffers, \<open>lwip/src/core/pbuf.c\<close>: chains of buffers with reference counts, over the heap of the stack and a
  memory of bytes. The pools of buffers are blocks of the heap (\<open>MEMP_MEM_MALLOC\<close>). A failed \<open>LWIP_ASSERT\<close> or
  \<open>LWIP_ERROR\<close> ends in the endless loop of \<open>assert_loop\<close>, \<open>None\<close>: the checks that some functions make of the same
  condition behind it never fail. Assertions on constants, on unsigned numbers being non-negative and on
  the type of a buffer, which hold by the types of the model, are left out.
\<close>

section \<open>State\<close>

datatype pbuf_type = PBUF_RAM | PBUF_ROM | PBUF_REF | PBUF_POOL
datatype pbuf_layer = PBUF_TRANSPORT | PBUF_IP | PBUF_LINK | PBUF_RAW

text \<open>\<open>custom_free_function\<close> is the last member of \<open>struct pbuf_custom\<close>, behind the \<open>struct pbuf\<close>.\<close>

record pbuf =
  nextp :: addr
  payload :: addr
  tot_len :: u16
  plen :: u16
  ptype :: pbuf_type
  pflags :: u8
  pref :: u16
  custom_free_function :: addr

text \<open>The heap, the buffers by their addresses, the bytes of the memory, the flag of \<open>pbuf.c\<close> and the mailbox of the
  TCP/IP thread (\<open>tcpip.c\<close>), of which the callbacks in it matter.\<close>

record net =
  nheap :: lwmem
  pbufs :: "addr \<Rightarrow> pbuf"
  bytes :: "addr \<Rightarrow> u8"
  pbuf_free_ooseq_pending :: bool
  tcpip_mbox :: "addr list"

abbreviation (input) "SIZEOF_STRUCT_PBUF \<equiv> (16 :: u16)"
abbreviation (input) "PBUF_POOL_BUFSIZE_ALIGNED \<equiv> (1516 :: u16)"
abbreviation (input) "MEMP_SIZE_PBUF \<equiv> (16 :: u16)"
abbreviation (input) "MEMP_SIZE_PBUF_POOL \<equiv> (1532 :: u16)"
abbreviation (input) "MEMP_SIZE_TCPIP_MSG_API \<equiv> (20 :: u16)"
abbreviation (input) "TCPIP_MBOX_SIZE \<equiv> (6 :: nat)"
abbreviation (input) "PBUF_FLAG_IS_CUSTOM \<equiv> (0x02 :: u8)"
abbreviation (input) "ERR_VAL \<equiv> (-6 :: int)"
abbreviation (input) "ERR_MEM \<equiv> (-1 :: int)"
abbreviation (input) "ERR_ARG \<equiv> (-14 :: int)"
abbreviation (input) "ERR_OK \<equiv> (0 :: int)"

abbreviation upd_p :: "addr \<Rightarrow> (pbuf \<Rightarrow> pbuf) \<Rightarrow> net \<Rightarrow> net" where
  "upd_p p f s \<equiv> s\<lparr>pbufs := (pbufs s)(p := f (pbufs s p))\<rparr>"

text \<open>\<open>MEMCPY\<close> from and to the memory.\<close>

definition load :: "addr \<Rightarrow> nat \<Rightarrow> net \<Rightarrow> u8 list" where
  "load a n s = map (\<lambda>i. bytes s (a + int i)) [0..<n]"

definition store :: "addr \<Rightarrow> u8 list \<Rightarrow> net \<Rightarrow> net" where
  "store a bs s = s\<lparr>bytes := (\<lambda>i. if a \<le> i \<and> i < a + int (length bs) then bs ! nat (i - a) else bytes s i)\<rparr>"

definition n_malloc :: "u16 \<Rightarrow> net \<Rightarrow> (addr \<times> net) option" where
  "n_malloc n s = (case mem_malloc n (nheap s) of None \<Rightarrow> None | Some (p, h) \<Rightarrow> Some (p, s\<lparr>nheap := h\<rparr>))"

definition n_free :: "addr \<Rightarrow> net \<Rightarrow> net option" where
  "n_free p s = map_option (\<lambda>h. s\<lparr>nheap := h\<rparr>) (mem_free p (nheap s))"

section \<open>Shortage of buffers\<close>

text \<open>\<open>tcpip_callback_with_block\<close> without blocking, for a valid mailbox: the result, and the message in the mailbox.\<close>

definition tcpip_try_callback :: "net \<Rightarrow> (int \<times> net) option" where
  "tcpip_try_callback s =
    (case n_malloc MEMP_SIZE_TCPIP_MSG_API s of None \<Rightarrow> None
     | Some (msg, s) \<Rightarrow>
         if msg = NULL then Some (ERR_MEM, s)
         else if length (tcpip_mbox s) < TCPIP_MBOX_SIZE then Some (ERR_OK, s\<lparr>tcpip_mbox := tcpip_mbox s @ [msg]\<rparr>)
         else map_option (\<lambda>s. (ERR_MEM, s)) (n_free msg s))"

definition pbuf_pool_is_empty :: "net \<Rightarrow> net option" where
  "pbuf_pool_is_empty s =
    (let queued = pbuf_free_ooseq_pending s;
         s = s\<lparr>pbuf_free_ooseq_pending := True\<rparr>
     in if \<not> queued
        then case tcpip_try_callback s of None \<Rightarrow> None
             | Some (err, s) \<Rightarrow> Some (if err \<noteq> ERR_OK then s\<lparr>pbuf_free_ooseq_pending := False\<rparr> else s)
        else Some s)"

section \<open>Release\<close>

text \<open>The function that frees a custom buffer is a parameter.\<close>

type_synonym custom_free = "addr \<Rightarrow> addr \<Rightarrow> net \<Rightarrow> net option"

partial_function (option) pbuf_free_loop :: "custom_free \<Rightarrow> addr \<Rightarrow> u8 \<Rightarrow> net \<Rightarrow> (u8 \<times> net) option" where
  "pbuf_free_loop cf p count s =
    (if p = NULL then Some (count, s)
     else if \<not> pref (pbufs s p) > 0 then None
     else let ref = pref (pbufs s p) - 1;
              s = upd_p p (\<lambda>b. b\<lparr>pref := ref\<rparr>) s
          in if ref = 0
             then let q = nextp (pbufs s p)
                  in case (if pflags (pbufs s p) AND PBUF_FLAG_IS_CUSTOM \<noteq> 0
                           then if custom_free_function (pbufs s p) = NULL then None else cf (custom_free_function (pbufs s p)) p s
                           else n_free p s) of
                       None \<Rightarrow> None
                     | Some s \<Rightarrow> pbuf_free_loop cf q (count + 1) s
             else Some (count, s))"

definition pbuf_free :: "custom_free \<Rightarrow> addr \<Rightarrow> net \<Rightarrow> (u8 \<times> net) option" where
  "pbuf_free cf p s = lwip_assert (p \<noteq> NULL) (pbuf_free_loop cf p 0 s)"

definition pbuf_ref :: "addr \<Rightarrow> net \<Rightarrow> net" where
  "pbuf_ref p s = (if p \<noteq> NULL then upd_p p (\<lambda>b. b\<lparr>pref := pref b + 1\<rparr>) s else s)"

section \<open>Allocation\<close>

definition layer_offset :: "pbuf_layer \<Rightarrow> u16" where
  "layer_offset l = (case l of PBUF_TRANSPORT \<Rightarrow> 14 + 20 + 20 | PBUF_IP \<Rightarrow> 14 + 20 | PBUF_LINK \<Rightarrow> 14 | PBUF_RAW \<Rightarrow> 0)"

text \<open>The rest of a chain of pool buffers: \<open>p\<close> is its head, \<open>r\<close> the last buffer so far, \<open>rem_len\<close> what is missing.
  The answer is whether there was memory for all. The length, an \<open>s32_t\<close> in C, is between 0 and 65535.\<close>

function pool_rest :: "custom_free \<Rightarrow> addr \<Rightarrow> addr \<Rightarrow> u16 \<Rightarrow> net \<Rightarrow> (bool \<times> net) option" where
  "pool_rest cf p r rem_len s =
    (if rem_len > 0
     then case n_malloc MEMP_SIZE_PBUF_POOL s of None \<Rightarrow> None
          | Some (q, s) \<Rightarrow>
              if q = NULL
              then case pbuf_pool_is_empty s of None \<Rightarrow> None
                   | Some s \<Rightarrow> map_option (\<lambda>(_, s). (False, s)) (pbuf_free cf p s)
              else let s = upd_p q (\<lambda>b. b\<lparr>ptype := PBUF_POOL, pflags := 0, nextp := NULL\<rparr>) s;
                       s = upd_p r (\<lambda>b. b\<lparr>nextp := q\<rparr>) s;
                       l = min rem_len PBUF_POOL_BUFSIZE_ALIGNED;
                       s = upd_p q (\<lambda>b. b\<lparr>tot_len := rem_len, plen := l, payload := q + uint SIZEOF_STRUCT_PBUF,
                                          pref := 1\<rparr>) s
                   in if \<not> (rem_len < 0xffff \<and> payload (pbufs s q) mod 4 = 0 \<and> payload (pbufs s p) + uint (plen (pbufs s p))
                              \<le> p + uint SIZEOF_STRUCT_PBUF + uint PBUF_POOL_BUFSIZE_ALIGNED) then None
                      else pool_rest cf p q (rem_len - l) s
     else Some (True, s))"
  by pat_completeness auto
termination
proof (relation "measure (\<lambda>(cf, p, r, n, s). unat n)", simp, goal_cases)
  case (1 cf p r n s a b q t u v)
  have "min n PBUF_POOL_BUFSIZE_ALIGNED \<noteq> 0" using 1(1) by (auto simp: min_def)
  moreover have "min n PBUF_POOL_BUFSIZE_ALIGNED \<le> n" by simp
  moreover have "v = min n PBUF_POOL_BUFSIZE_ALIGNED" using 1 by simp
  moreover have "0 < unat n" "0 < unat (min n PBUF_POOL_BUFSIZE_ALIGNED)" using 1(1) calculation(1) by (simp_all add: unat_gt_0)
  ultimately show ?case by (simp add: unat_sub word_le_nat_alt)
qed

definition pbuf_alloc :: "custom_free \<Rightarrow> pbuf_layer \<Rightarrow> u16 \<Rightarrow> pbuf_type \<Rightarrow> net \<Rightarrow> (addr \<times> net) option" where
  "pbuf_alloc cf layer len type s =
    (let offset = layer_offset layer in
     case type of
       PBUF_POOL \<Rightarrow>
         (case n_malloc MEMP_SIZE_PBUF_POOL s of None \<Rightarrow> None
          | Some (p, s) \<Rightarrow>
              if p = NULL then map_option (\<lambda>s. (NULL, s)) (pbuf_pool_is_empty s)
              else let l = min len (PBUF_POOL_BUFSIZE_ALIGNED - LWIP_MEM_ALIGN_SIZE offset);
                       s = upd_p p (\<lambda>b. b\<lparr>ptype := type, nextp := NULL,
                                          payload := LWIP_MEM_ALIGN (p + (uint SIZEOF_STRUCT_PBUF + uint offset)),
                                          tot_len := len, plen := l, pref := 1\<rparr>) s
                   in if \<not> (payload (pbufs s p) mod 4 = 0 \<and> payload (pbufs s p) + uint l
                              \<le> p + uint SIZEOF_STRUCT_PBUF + uint PBUF_POOL_BUFSIZE_ALIGNED) then None
                      else case pool_rest cf p p (len - l) s of None \<Rightarrow> None
                      | Some (ok, s) \<Rightarrow>
                          if ok then Some (p, upd_p p (\<lambda>b. b\<lparr>pref := 1, pflags := 0\<rparr>) s) else Some (NULL, s))
     | PBUF_RAM \<Rightarrow>
         (case n_malloc (LWIP_MEM_ALIGN_SIZE (SIZEOF_STRUCT_PBUF + offset) + LWIP_MEM_ALIGN_SIZE len) s of None \<Rightarrow> None
          | Some (p, s) \<Rightarrow>
              if p = NULL then Some (NULL, s)
              else if LWIP_MEM_ALIGN (p + uint SIZEOF_STRUCT_PBUF + uint offset) mod 4 \<noteq> 0 then None
              else Some (p, upd_p p (\<lambda>b. b\<lparr>payload := LWIP_MEM_ALIGN (p + uint SIZEOF_STRUCT_PBUF + uint offset),
                                           tot_len := len, plen := len, nextp := NULL, ptype := type,
                                           pref := 1, pflags := 0\<rparr>) s))
     | _ \<Rightarrow>
         (case n_malloc MEMP_SIZE_PBUF s of None \<Rightarrow> None
          | Some (p, s) \<Rightarrow>
              if p = NULL then Some (NULL, s)
              else Some (p, upd_p p (\<lambda>b. b\<lparr>payload := NULL, tot_len := len, plen := len, nextp := NULL, ptype := type,
                                           pref := 1, pflags := 0\<rparr>) s)))"

text \<open>A buffer that the caller provides, with or without memory for its payload.\<close>

definition pbuf_alloced_custom :: "pbuf_layer \<Rightarrow> u16 \<Rightarrow> pbuf_type \<Rightarrow> addr \<Rightarrow> addr \<Rightarrow> u16 \<Rightarrow> net \<Rightarrow> addr \<times> net" where
  "pbuf_alloced_custom l len type p payload_mem payload_mem_len s =
    (let offset = layer_offset l
     in if unat (LWIP_MEM_ALIGN_SIZE offset) + unat len > unat payload_mem_len then (NULL, s)
        else (p, upd_p p (\<lambda>b. b\<lparr>nextp := NULL,
                                payload := (if payload_mem \<noteq> NULL then payload_mem + uint (LWIP_MEM_ALIGN_SIZE offset) else NULL),
                                pflags := PBUF_FLAG_IS_CUSTOM, tot_len := len, plen := len, ptype := type, pref := 1\<rparr>) s))"

section \<open>Chains\<close>

partial_function (option) pbuf_clen_loop :: "addr \<Rightarrow> u8 \<Rightarrow> net \<Rightarrow> u8 option" where
  "pbuf_clen_loop p len s = (if p \<noteq> NULL then pbuf_clen_loop (nextp (pbufs s p)) (len + 1) s else Some len)"

definition pbuf_clen :: "addr \<Rightarrow> net \<Rightarrow> u8 option" where
  "pbuf_clen p s = pbuf_clen_loop p 0 s"

text \<open>Up to the last buffer, which is the answer.\<close>

partial_function (option) cat_walk :: "addr \<Rightarrow> addr \<Rightarrow> net \<Rightarrow> (addr \<times> net) option" where
  "cat_walk p t s =
    (if nextp (pbufs s p) \<noteq> NULL
     then cat_walk (nextp (pbufs s p)) t (upd_p p (\<lambda>b. b\<lparr>tot_len := tot_len b + tot_len (pbufs s t)\<rparr>) s)
     else Some (p, s))"

definition pbuf_cat :: "addr \<Rightarrow> addr \<Rightarrow> net \<Rightarrow> net option" where
  "pbuf_cat h t s =
    (if h = NULL \<or> t = NULL then None
     else case cat_walk h t s of None \<Rightarrow> None
          | Some (p, s) \<Rightarrow>
              if tot_len (pbufs s p) \<noteq> plen (pbufs s p) then None
              else (let s = upd_p p (\<lambda>b. b\<lparr>tot_len := tot_len b + tot_len (pbufs s t)\<rparr>) s
               in Some (upd_p p (\<lambda>b. b\<lparr>nextp := t\<rparr>) s)))"

definition pbuf_chain :: "addr \<Rightarrow> addr \<Rightarrow> net \<Rightarrow> net option" where
  "pbuf_chain h t s = map_option (pbuf_ref t) (pbuf_cat h t s)"

definition pbuf_dechain :: "custom_free \<Rightarrow> addr \<Rightarrow> net \<Rightarrow> (addr \<times> net) option" where
  "pbuf_dechain cf p s =
    (let q = nextp (pbufs s p)
     in if q \<noteq> NULL
        then lwip_assert (tot_len (pbufs s q) = tot_len (pbufs s p) - plen (pbufs s p))
            (let s = upd_p q (\<lambda>b. b\<lparr>tot_len := tot_len (pbufs s p) - plen (pbufs s p)\<rparr>) s;
                 s = upd_p p (\<lambda>b. b\<lparr>nextp := NULL\<rparr>) s;
                 s = upd_p p (\<lambda>b. b\<lparr>tot_len := plen b\<rparr>) s
             in case pbuf_free cf q s of None \<Rightarrow> None
                | Some (tail_gone, s) \<Rightarrow>
                    lwip_assert (tot_len (pbufs s p) = plen (pbufs s p)) (Some (if tail_gone > 0 then NULL else q, s)))
        else lwip_assert (tot_len (pbufs s p) = plen (pbufs s p)) (Some (NULL, s)))"

section \<open>Resizing\<close>

text \<open>Over the buffers that stay as they are. The answer is the new last buffer and its length.\<close>

partial_function (option) realloc_walk :: "addr \<Rightarrow> u16 \<Rightarrow> u16 \<Rightarrow> net \<Rightarrow> (addr \<times> u16 \<times> net) option" where
  "realloc_walk q rem_len grow s =
    (if q = NULL then None
     else if rem_len > plen (pbufs s q)
     then realloc_walk (nextp (pbufs s q)) (rem_len - plen (pbufs s q)) grow
            (upd_p q (\<lambda>b. b\<lparr>tot_len := tot_len b + grow\<rparr>) s)
     else Some (q, rem_len, s))"

definition pbuf_realloc :: "custom_free \<Rightarrow> addr \<Rightarrow> u16 \<Rightarrow> net \<Rightarrow> net option" where
  "pbuf_realloc cf p new_len s =
    (if p = NULL then None
     else if new_len \<ge> tot_len (pbufs s p) then Some s
     else case realloc_walk p new_len (new_len - tot_len (pbufs s p)) s of None \<Rightarrow> None
          | Some (q, rem_len, s) \<Rightarrow>
              (case (if ptype (pbufs s q) = PBUF_RAM \<and> rem_len \<noteq> plen (pbufs s q)
                     then case mem_trim q (word_of_int (payload (pbufs s q) - q) + rem_len) (nheap s) of None \<Rightarrow> None
                          | Some (q, h) \<Rightarrow> if q = NULL then None else Some (q, s\<lparr>nheap := h\<rparr>)
                     else Some (q, s)) of None \<Rightarrow> None
               | Some (q, s) \<Rightarrow>
                   (let s = upd_p q (\<lambda>b. b\<lparr>plen := rem_len, tot_len := rem_len\<rparr>) s
                    in case (if nextp (pbufs s q) \<noteq> NULL then map_option snd (pbuf_free cf (nextp (pbufs s q)) s) else Some s) of
                         None \<Rightarrow> None
                       | Some s \<Rightarrow> Some (upd_p q (\<lambda>b. b\<lparr>nextp := NULL\<rparr>) s))))"

text \<open>The increment is an \<open>s16_t\<close>, read by \<open>sint\<close>. The answer is 0 or, if nothing was done, 1.\<close>

definition pbuf_header :: "addr \<Rightarrow> u16 \<Rightarrow> net \<Rightarrow> (u8 \<times> net) option" where
  "pbuf_header p header_size_increment s =
    (let inc = sint header_size_increment
     in if p = NULL then None
        else if inc = 0 then Some (0, s)
        else let increment_magnitude = (if inc < 0 then - header_size_increment else header_size_increment)
             in if inc < 0 \<and> \<not> increment_magnitude \<le> plen (pbufs s p) then None
                else if ptype (pbufs s p) = PBUF_RAM \<or> ptype (pbufs s p) = PBUF_POOL
                then if payload (pbufs s p) - inc < p + uint SIZEOF_STRUCT_PBUF then Some (1, s)
                     else Some (0, upd_p p (\<lambda>b. b\<lparr>payload := payload b - inc, plen := plen b + header_size_increment,
                                                  tot_len := tot_len b + header_size_increment\<rparr>) s)
                else if inc < 0 \<and> increment_magnitude \<le> plen (pbufs s p)
                then Some (0, upd_p p (\<lambda>b. b\<lparr>payload := payload b - inc, plen := plen b + header_size_increment,
                                             tot_len := tot_len b + header_size_increment\<rparr>) s)
                else Some (1, s))"

section \<open>Copying\<close>

partial_function (option) copy_loop :: "addr \<Rightarrow> addr \<Rightarrow> u16 \<Rightarrow> u16 \<Rightarrow> net \<Rightarrow> (int \<times> net) option" where
  "copy_loop p_to p_from offset_to offset_from s =
    (if p_to = NULL \<or> p_from = NULL then None
     else let len = (if unat (plen (pbufs s p_to)) - unat offset_to \<ge> unat (plen (pbufs s p_from)) - unat offset_from
                     then plen (pbufs s p_from) - offset_from else plen (pbufs s p_to) - offset_to);
              s = store (payload (pbufs s p_to) + uint offset_to)
                    (load (payload (pbufs s p_from) + uint offset_from) (unat len) s) s;
              offset_to = offset_to + len;
              offset_from = offset_from + len;
              inside = (offset_to \<le> plen (pbufs s p_to) \<and> offset_from \<le> plen (pbufs s p_from));
              (offset_from, p_from) = (if offset_from \<ge> plen (pbufs s p_from) then (0, nextp (pbufs s p_from))
                                       else (offset_from, p_from));
              end_to = (offset_to = plen (pbufs s p_to));
              (offset_to, p_to) = (if end_to then (0, nextp (pbufs s p_to)) else (offset_to, p_to))
          in if \<not> inside then None
             else if end_to \<and> p_to = NULL \<and> p_from \<noteq> NULL then None
             else if p_from \<noteq> NULL \<and> plen (pbufs s p_from) = tot_len (pbufs s p_from) \<and> nextp (pbufs s p_from) \<noteq> NULL
             then None
             else if p_to \<noteq> NULL \<and> plen (pbufs s p_to) = tot_len (pbufs s p_to) \<and> nextp (pbufs s p_to) \<noteq> NULL
             then None
             else if p_from \<noteq> NULL then copy_loop p_to p_from offset_to offset_from s
             else Some (ERR_OK, s))"

definition pbuf_copy :: "addr \<Rightarrow> addr \<Rightarrow> net \<Rightarrow> (int \<times> net) option" where
  "pbuf_copy p_to p_from s =
    (if p_to = NULL \<or> p_from = NULL \<or> tot_len (pbufs s p_to) < tot_len (pbufs s p_from) then None
     else copy_loop p_to p_from 0 0 s)"

text \<open>What is written to the caller's buffer from its start on, and the number of bytes.\<close>

partial_function (option) copy_partial_loop :: "addr \<Rightarrow> u16 \<Rightarrow> u16 \<Rightarrow> u16 \<Rightarrow> u8 list \<Rightarrow> net \<Rightarrow> (u16 \<times> u8 list) option" where
  "copy_partial_loop p len offset copied_total out s =
    (if len \<noteq> 0 \<and> p \<noteq> NULL
     then if offset \<noteq> 0 \<and> offset \<ge> plen (pbufs s p)
          then copy_partial_loop (nextp (pbufs s p)) len (offset - plen (pbufs s p)) copied_total out s
          else let buf_copy_len = plen (pbufs s p) - offset;
                   buf_copy_len = (if buf_copy_len > len then len else buf_copy_len)
               in copy_partial_loop (nextp (pbufs s p)) (len - buf_copy_len) 0 (copied_total + buf_copy_len)
                    (out @ load (payload (pbufs s p) + uint offset) (unat buf_copy_len) s) s
     else Some (copied_total, out))"

definition pbuf_copy_partial :: "addr \<Rightarrow> addr \<Rightarrow> u16 \<Rightarrow> u16 \<Rightarrow> net \<Rightarrow> (u16 \<times> u8 list) option" where
  "pbuf_copy_partial buf dataptr len offset s =
    (if buf = NULL \<or> dataptr = NULL then None else copy_partial_loop buf len offset 0 [] s)"

text \<open>The caller's data are \<open>None\<close> for a NULL pointer. A chain too short for its total length is read at NULL.\<close>

partial_function (option) take_loop :: "addr \<Rightarrow> u8 list \<Rightarrow> u16 \<Rightarrow> u16 \<Rightarrow> net \<Rightarrow> net option" where
  "take_loop p data total_copy_len copied_total s =
    (if total_copy_len \<noteq> 0
     then if p = NULL then None
          else let buf_copy_len = (if total_copy_len > plen (pbufs s p) then plen (pbufs s p) else total_copy_len);
                   s = store (payload (pbufs s p)) (take (unat buf_copy_len) (drop (unat copied_total) data)) s
               in take_loop (nextp (pbufs s p)) data (total_copy_len - buf_copy_len) (copied_total + buf_copy_len) s
     else Some s)"

definition pbuf_take :: "addr \<Rightarrow> u8 list option \<Rightarrow> u16 \<Rightarrow> net \<Rightarrow> (int \<times> net) option" where
  "pbuf_take buf dataptr len s =
    (if buf = NULL then None
     else case dataptr of None \<Rightarrow> None
          | Some data \<Rightarrow>
              if tot_len (pbufs s buf) < len then Some (ERR_ARG, s)
              else map_option (\<lambda>s. (ERR_OK, s)) (take_loop buf data len 0 s))"

definition pbuf_coalesce :: "custom_free \<Rightarrow> addr \<Rightarrow> pbuf_layer \<Rightarrow> net \<Rightarrow> (addr \<times> net) option" where
  "pbuf_coalesce cf p layer s =
    (if nextp (pbufs s p) = NULL then Some (p, s)
     else case pbuf_alloc cf layer (tot_len (pbufs s p)) PBUF_RAM s of None \<Rightarrow> None
          | Some (q, s) \<Rightarrow>
              if q = NULL then Some (p, s)
              else case pbuf_copy q p s of None \<Rightarrow> None
                   | Some (err, s) \<Rightarrow> lwip_assert (err = ERR_OK) (map_option (\<lambda>(_, s). (q, s)) (pbuf_free cf p s)))"

definition lwip_chksum_copy :: "addr \<Rightarrow> u8 list \<Rightarrow> u16 \<Rightarrow> net \<Rightarrow> u16 \<times> net" where
  "lwip_chksum_copy dst src len s =
    (let s = store dst (take (unat len) src) s in (lwip_standard_chksum dst (load dst (unat len) s), s))"

text \<open>The error, the checksum and the state.\<close>

definition pbuf_fill_chksum :: "addr \<Rightarrow> u16 \<Rightarrow> u8 list \<Rightarrow> u16 \<Rightarrow> u16 \<Rightarrow> net \<Rightarrow> (int \<times> u16 \<times> net) option" where
  "pbuf_fill_chksum p start_offset dataptr len chksum s =
    (if p = NULL \<or> len = 0 then None
     else if start_offset \<ge> plen (pbufs s p) \<or> unat start_offset + unat len > unat (plen (pbufs s p)) then Some (ERR_ARG, chksum, s)
     else let dst_ptr = payload (pbufs s p) + uint start_offset;
              (copy_chksum, s) = lwip_chksum_copy dst_ptr dataptr len s;
              copy_chksum = (if start_offset AND 1 \<noteq> 0 then ucast (SWAP_BYTES_IN_WORD (ucast copy_chksum)) else copy_chksum);
              acc = ucast chksum + ucast copy_chksum
          in Some (ERR_OK, ucast (FOLD_U32T acc), s))"

section \<open>Searching\<close>

text \<open>The buffer that holds the byte at an offset, and the offset in it.\<close>

partial_function (option) skip_loop :: "addr \<Rightarrow> u16 \<Rightarrow> net \<Rightarrow> (addr \<times> u16) option" where
  "skip_loop q start s =
    (if q \<noteq> NULL \<and> plen (pbufs s q) \<le> start then skip_loop (nextp (pbufs s q)) (start - plen (pbufs s q)) s
     else Some (q, start))"

definition pbuf_get_at :: "addr \<Rightarrow> u16 \<Rightarrow> net \<Rightarrow> u8 option" where
  "pbuf_get_at p offset s =
    (case skip_loop p offset s of None \<Rightarrow> None
     | Some (q, copy_from) \<Rightarrow>
         Some (if q \<noteq> NULL \<and> plen (pbufs s q) > copy_from then bytes s (payload (pbufs s q) + uint copy_from) else 0))"

fun memcmp_loop :: "addr \<Rightarrow> u16 \<Rightarrow> u16 \<Rightarrow> u8 list \<Rightarrow> net \<Rightarrow> u16 option" where
  "memcmp_loop q start i [] s = Some 0"
| "memcmp_loop q start i (b # bs) s =
     (case pbuf_get_at q (start + i) s of None \<Rightarrow> None
      | Some a \<Rightarrow> if a \<noteq> b then Some (i + 1) else memcmp_loop q start (i + 1) bs s)"

definition pbuf_memcmp :: "addr \<Rightarrow> u16 \<Rightarrow> u8 list \<Rightarrow> net \<Rightarrow> u16 option" where
  "pbuf_memcmp p offset s2 s =
    (case skip_loop p offset s of None \<Rightarrow> None
     | Some (q, start) \<Rightarrow>
         if q \<noteq> NULL \<and> plen (pbufs s q) > start then memcmp_loop q start 0 s2 s else Some 0xffff)"

partial_function (option) memfind_loop :: "addr \<Rightarrow> u8 list \<Rightarrow> u16 \<Rightarrow> u16 \<Rightarrow> net \<Rightarrow> u16 option" where
  "memfind_loop p mem lim i s =
    (if i \<le> lim
     then case pbuf_memcmp p i mem s of None \<Rightarrow> None
          | Some d \<Rightarrow> if d = 0 then Some i else memfind_loop p mem lim (i + d) s
     else Some 0xFFFF)"

text \<open>\<open>mem\<close> has at most 65535 bytes, the range of \<open>mem_len\<close>.\<close>

definition pbuf_memfind :: "addr \<Rightarrow> u8 list \<Rightarrow> u16 \<Rightarrow> net \<Rightarrow> u16 option" where
  "pbuf_memfind p mem start_offset s =
    (let lim = tot_len (pbufs s p) - of_nat (length mem)
     in if unat (tot_len (pbufs s p)) \<ge> length mem + unat start_offset then memfind_loop p mem lim start_offset s
        else Some 0xFFFF)"

text \<open>The string is \<open>None\<close> for a NULL pointer, and otherwise what is before its terminating NUL.\<close>

definition pbuf_strstr :: "addr \<Rightarrow> u8 list option \<Rightarrow> net \<Rightarrow> u16 option" where
  "pbuf_strstr p substr s =
    (case substr of None \<Rightarrow> Some 0xFFFF
     | Some str \<Rightarrow>
         if str = [] \<or> tot_len (pbufs s p) = 0xFFFF \<or> length str \<ge> 0xFFFF then Some 0xFFFF
         else pbuf_memfind p str 0 s)"

end
