(* ===== verification/LwipMemProps.thy ===== *)
theory LwipMemProps imports LwipMem begin

text \<open>
  What the clients of the network stack's heap rely on: blocks in use are aligned, inside the heap, at least as large as
  asked for and apart from each other, and everything given back merges into one block again.
\<close>

section \<open>Clients of the heap\<close>

text \<open>The used blocks: the address of the data and the number of bytes.\<close>

fun live :: "addr \<Rightarrow> nat \<Rightarrow> blocks \<Rightarrow> (addr \<times> nat) list" where
  "live r k [] = []"
| "live r k ((u, n) # bs) = (if u then [(r + int k + 8, n)] else []) @ live r (k + n + 8) bs"

lemma live_append [simp]: "live r k (xs @ ys) = live r k xs @ live r (k + ext xs) ys"
  by (induction r k xs rule: live.induct) (auto simp: add.assoc add.left_commute)

lemma live_carve: "s \<le> n \<Longrightarrow> \<exists>m. live r k (carve s n) = [(r + int k + 8, m)] \<and> s \<le> m \<and> m < s + 20"
  by (simp add: carve_def)

lemma live_released: "live r 0 (released xs n ys) = live r 0 xs @ live r (ext xs + n + 8) ys"
proof -
  have a: "live r k (absorb n ys) = live r (k + n + 8) ys" for k
    by (cases "(n, ys)" rule: absorb.cases) (simp_all add: ac_simps)
  then have z: "live r (k + snd (hd (absorb n ys)) + 8) (tl (absorb n ys)) = live r (k + n + 8) ys" for k
    by (subst a [symmetric], subst absorb_Cons) simp
  show ?thesis
  proof (cases "xs \<noteq> [] \<and> \<not> fst (last xs)")
    case True
    then obtain ps m where x: "xs = ps @ [(False, m)]"
      by (metis append_butlast_last_id eq_fst_iff)
    then show ?thesis using z [of "ext ps + m + 8"] by (simp add: released_def Let_def ac_simps)
  next
    case False
    then show ?thesis using z [of "ext xs"] by (auto simp: released_def Let_def)
  qed
qed

lemma live_trimmed:
  "s \<le> n \<Longrightarrow> \<exists>m. live r k (trimmed_block s n ys) = (r + int k + 8, m) # live r (k + n + 8) ys \<and> s \<le> m"
  by (cases "(s, n, ys)" rule: trimmed.cases) (auto simp: trimmed_block_def ac_simps)

lemma live_split:
  "p \<in> fst ` set (live r k bs) \<Longrightarrow> \<exists>xs n ys. bs = xs @ [(True, n)] @ ys \<and> p = r + int (k + ext xs) + 8"
proof (induction r k bs rule: live.induct)
  case (2 r k u n bs)
  show ?case
  proof (cases "u \<and> p = r + int k + 8")
    case True
    then show ?thesis by (intro exI [of _ "[]"]) auto
  next
    case False
    then obtain xs m ys where "bs = xs @ [(True, m)] @ ys" "p = r + int (k + n + 8 + ext xs) + 8"
      using 2 by (auto split: if_splits)
    then show ?thesis by (intro exI [of _ "(u, n) # xs"] exI [of _ m] exI [of _ ys]) simp
  qed
qed simp

text \<open>Used blocks are aligned, in the heap, in increasing order and apart.\<close>

lemma live_bounds:
  "tiles f k p bs \<Longrightarrow> 4 dvd r \<Longrightarrow> 4 dvd k \<Longrightarrow> (q, m) \<in> set (live r k bs) \<Longrightarrow>
    4 dvd q \<and> r + int k + 8 \<le> q \<and> q + int m \<le> r + int (k + ext bs)"
proof (induction f k p bs rule: tiles.induct)
  case (2 f k p u n bs)
  have d: "4 dvd k + n + 8" using 2 by (simp add: dvd_add)
  show ?case
  proof (cases "u \<and> (q, m) = (r + int k + 8, n)")
    case True
    have "4 dvd int k" using "2.prems"(3) by presburger
    then show ?thesis using True "2.prems"(2) by simp
  next
    case False
    then have "(q, m) \<in> set (live r (k + n + 8) bs)" using "2.prems"(4) by (auto split: if_splits)
    then have "4 dvd q \<and> r + int (k + n + 8) + 8 \<le> q \<and> q + int m \<le> r + int (k + n + 8 + ext bs)"
      using "2.prems" d by (intro "2.IH") auto
    then show ?thesis by simp
  qed
qed simp

lemma live_apart:
  "tiles f k p bs \<Longrightarrow> sorted_wrt (\<lambda>a b. fst a + int (snd a) + 8 \<le> fst b) (live r k bs)"
proof (induction f k p bs rule: tiles.induct)
  case (2 f k p u n bs)
  have "r + int (k + n + 8) + 8 \<le> fst b" if "b \<in> set (live r (k + n + 8) bs)" for b
    using that by (induction r "k + n + 8" bs arbitrary: k n rule: live.induct) (auto split: if_splits, fastforce)
  then show ?case using 2 by (auto simp: sorted_wrt_append)
qed simp

text \<open>A client names what it was granted by position. Each entry is the address and the size that was asked for.\<close>

datatype mem_op = MMalloc u16 | MFree nat | MTrim nat u16

fun mem_exec :: "mem_op list \<Rightarrow> (addr \<times> u16) list \<Rightarrow> lwmem \<Rightarrow> ((addr \<times> u16) list \<times> lwmem) option" where
  "mem_exec [] ps h = Some (ps, h)"
| "mem_exec (MMalloc n # os) ps h =
     (case mem_malloc n h of None \<Rightarrow> None
      | Some (p, h) \<Rightarrow> mem_exec os (if p = NULL then ps else ps @ [(p, n)]) h)"
| "mem_exec (MFree i # os) ps h =
     (if i < length ps
      then case mem_free (fst (ps ! i)) h of None \<Rightarrow> None | Some h \<Rightarrow> mem_exec os (take i ps @ drop (Suc i) ps) h
      else mem_exec os ps h)"
| "mem_exec (MTrim i n # os) ps h =
     (if i < length ps \<and> n \<le> snd (ps ! i)
      then case mem_trim (fst (ps ! i)) n h of None \<Rightarrow> None | Some (p, h) \<Rightarrow> mem_exec os (ps[i := (p, n)]) h
      else mem_exec os ps h)"

fun asks :: "mem_op list \<Rightarrow> u16 set" where
  "asks [] = {}"
| "asks (MMalloc n # os) = insert n (asks os)"
| "asks (MFree i # os) = asks os"
| "asks (MTrim i n # os) = asks os"

definition granted :: "(addr \<times> u16) list \<Rightarrow> lwmem \<Rightarrow> blocks \<Rightarrow> bool" where
  "granted ps h bs \<longleftrightarrow> mem_ok h bs \<and> distinct (map fst ps) \<and> fst ` set ps = fst ` set (live (ram h) 0 bs) \<and>
     (\<forall>(p, n) \<in> set ps. unat n \<le> 65532 \<and> (\<exists>m. (p, m) \<in> set (live (ram h) 0 bs) \<and> request n \<le> m))"

lemma live_keys_distinct: "distinct (map fst (live r k bs)) \<and> (\<forall>b \<in> set (live r k bs). r + int k + 8 \<le> fst b)"
proof (induction r k bs rule: live.induct)
  case (2 r k u n bs)
  then show ?case by fastforce
qed simp

lemma granted_malloc:
  assumes g: "granted ps h bs" and n: "unat n \<le> 65532"
  shows "\<exists>p h' bs'. mem_malloc n h = Some (p, h') \<and> granted (if p = NULL then ps else ps @ [(p, n)]) h' bs' \<and> ram h' = ram h"
proof (cases "n = 0")
  case True
  then show ?thesis using g by (auto simp: mem_malloc_def)
next
  case False
  have ok: "mem_ok h bs" using g by (simp add: granted_def)
  have r: "0 \<le> ram h" using ok by (simp add: mem_ok_def)
  show ?thesis
  proof (cases "fit_at (request n) 0 bs")
    case None
    then show ?thesis using mem_malloc_blocks [OF ok False] g by auto
  next
    case (Some k)
    then obtain xs m ys h' where x: "bs = xs @ [(False, m)] @ ys" "k = ext xs" "request n \<le> m"
      "mem_malloc n h = Some (ram h + int k + 8, h')" "mem_ok h' (xs @ carve (request n) m @ ys)" "ram h' = ram h"
      using mem_malloc_blocks [OF ok False] by auto
    let ?p = "ram h + int k + 8" and ?bs = "xs @ carve (request n) m @ ys"
    obtain c where c: "live (ram h) (ext xs) (carve (request n) m) = [(?p, c)]" "request n \<le> c"
      using live_carve [OF x(3), of "ram h" "ext xs"] x(2) by auto
    have l: "live (ram h) 0 ?bs = live (ram h) 0 xs @ (?p, c) # live (ram h) (ext xs + m + 8) ys"
      using c x(3) by (simp add: add.assoc)
    have l0: "live (ram h) 0 bs = live (ram h) 0 xs @ live (ram h) (ext xs + m + 8) ys" by (simp add: x(1))
    have "?p \<notin> fst ` set ps"
      using g live_keys_distinct [of "ram h" 0 ?bs] unfolding granted_def l l0 by auto
    moreover have "fst ` set (ps @ [(?p, n)]) = fst ` set (live (ram h) 0 ?bs)"
      using g unfolding granted_def l l0 by auto
    moreover have "\<forall>(p, n) \<in> set (ps @ [(?p, n)]). unat n \<le> 65532 \<and> (\<exists>m. (p, m) \<in> set (live (ram h) 0 ?bs) \<and> request n \<le> m)"
      using g n c(2) unfolding granted_def l l0 by auto
    ultimately have "granted (ps @ [(?p, n)]) h' ?bs" using g x(5,6) by (auto simp: granted_def)
    moreover have "?p \<noteq> NULL" using r by simp
    ultimately show ?thesis using x(4,6) by (intro exI [of _ ?p] exI [of _ h'] exI [of _ ?bs]) simp
  qed
qed

lemma granted_keys: "granted ps h bs \<Longrightarrow> fst ` set ps = fst ` set (live (ram h) 0 bs)"
  by (simp add: granted_def)

lemma granted_entry:
  "granted ps h bs \<Longrightarrow> (p, n) \<in> set ps \<Longrightarrow> unat n \<le> 65532 \<and> (\<exists>m. (p, m) \<in> set (live (ram h) 0 bs) \<and> request n \<le> m)"
  unfolding granted_def by blast

lemma granted_split:
  assumes g: "granted ps h bs" and mem: "(p, n) \<in> set ps"
  obtains xs m ys where "bs = xs @ [(True, m)] @ ys" "p = ram h + int (ext xs) + 8" "request n \<le> m"
proof -
  obtain c where c: "(p, c) \<in> set (live (ram h) 0 bs)" "request n \<le> c" using granted_entry [OF g mem] by blast
  have "p \<in> fst ` set (live (ram h) 0 bs)" using c(1) by (metis fst_conv image_eqI)
  from live_split [OF this] obtain xs m ys where x: "bs = xs @ [(True, m)] @ ys" "p = ram h + int (0 + ext xs) + 8" by blast
  have "(p, m) \<in> set (live (ram h) 0 bs)" using x by simp
  then have "c = m" using c(1) live_keys_distinct [of "ram h" 0 bs] eq_key_imp_eq_value [of "live (ram h) 0 bs" p c m] by blast
  then show ?thesis using that [of xs m ys] x c(2) by simp
qed

lemma released_room: "\<exists>m. (False, m) \<in> set (released xs n ys) \<and> n \<le> m"
proof -
  let ?m = "snd (hd (absorb n ys))"
  have "n \<le> ?m" by (cases "(n, ys)" rule: absorb.cases) simp_all
  moreover have "(False, ?m) \<in> set (released xs n ys) \<or> (False, snd (last xs) + ?m + 8) \<in> set (released xs n ys)"
    by (simp add: released_def Let_def)
  ultimately show ?thesis by (meson le_trans trans_le_add1 trans_le_add2)
qed

text \<open>What was released can be allocated again.\<close>

lemma granted_free:
  assumes g: "granted (as @ (p, n) # cs) h bs"
  shows "\<exists>h' bs'. mem_free p h = Some h' \<and> granted (as @ cs) h' bs' \<and> ram h' = ram h \<and> (\<exists>m. (False, m) \<in> set bs' \<and> request n \<le> m)"
proof -
  obtain xs m ys where x: "bs = xs @ [(True, m)] @ ys" "p = ram h + int (ext xs) + 8"
    by (rule granted_split [OF g, of p n]) simp_all
  obtain h' where h': "mem_free p h = Some h'" "mem_ok h' (released xs m ys)" "ram h' = ram h"
    using mem_free_blocks [of h xs m ys] g x by (auto simp: granted_def)
  let ?L = "live (ram h) 0 xs" and ?R = "live (ram h) (ext xs + m + 8) ys"
  have l0: "live (ram h) 0 bs = ?L @ (p, m) # ?R" using x by simp
  have l: "live (ram h') 0 (released xs m ys) = ?L @ ?R" by (simp add: h'(3) live_released)
  have d: "p \<notin> fst ` set (?L @ ?R)" using live_keys_distinct [of "ram h" 0 bs] unfolding l0 by auto
  have dp: "distinct (map fst (as @ (p, n) # cs))" using g by (simp add: granted_def)
  then have p: "p \<notin> fst ` set (as @ cs)" by auto
  have "fst ` set (as @ cs) = fst ` set (?L @ ?R)"
  proof -
    have "insert p (fst ` set (as @ cs)) = insert p (fst ` set (?L @ ?R))"
      using granted_keys [OF g] unfolding l0 by auto
    then show ?thesis by (simp only: insert_ident [OF p d])
  qed
  moreover have "\<forall>(q, k) \<in> set (as @ cs). unat k \<le> 65532 \<and> (\<exists>c. (q, c) \<in> set (?L @ ?R) \<and> request k \<le> c)"
  proof (clarify, goal_cases)
    case (1 q k)
    then have q: "q \<noteq> p" using p by (metis fst_conv image_eqI)
    from 1 have "(q, k) \<in> set (as @ (p, n) # cs)" by auto
    from granted_entry [OF g this] show ?case using q unfolding l0 by auto
  qed
  ultimately have "granted (as @ cs) h' (released xs m ys)"
    unfolding granted_def l using h'(2) dp by auto
  moreover have "request n \<le> m"
  proof -
    obtain c where c: "(p, c) \<in> set (live (ram h) 0 bs)" "request n \<le> c" using granted_entry [OF g, of p n] by auto
    have "(p, m) \<in> set (live (ram h) 0 bs)" using l0 by simp
    then have "c = m" using c(1) live_keys_distinct [of "ram h" 0 bs] eq_key_imp_eq_value [of "live (ram h) 0 bs" p c m] by blast
    then show ?thesis using c(2) by simp
  qed
  then have "\<exists>k. (False, k) \<in> set (released xs m ys) \<and> request n \<le> k" using released_room [of xs m ys] le_trans by blast
  ultimately show ?thesis using h' by blast
qed

lemma mem_malloc_finds:
  assumes "mem_ok h bs" "(False, m) \<in> set bs" "request n \<le> m" "n \<noteq> 0"
  shows "fst (the (mem_malloc n h)) \<noteq> NULL"
proof -
  have "fit_at (request n) 0 bs \<noteq> None"
  proof
    assume "fit_at (request n) 0 bs = None"
    then have "\<forall>(u, k) \<in> set bs. u \<or> k < request n" by (simp only: fit_at_None)
    then show False using assms(2,3) by auto
  qed
  then obtain k where k: "fit_at (request n) 0 bs = Some k" by blast
  moreover have "0 \<le> ram h" using assms(1) by (simp add: mem_ok_def)
  moreover obtain h' where "mem_malloc n h = Some (ram h + int k + 8, h')"
    using mem_malloc_blocks [OF assms(1,4)] unfolding k option.case by blast
  ultimately show ?thesis by simp
qed

lemma request_mono: "unat a \<le> unat b \<Longrightarrow> unat b \<le> 65532 \<Longrightarrow> request a \<le> request b"
  by (auto simp: request_def align_size max_def)

lemma granted_trim:
  assumes g: "granted (as @ (p, n) # cs) h bs" and k: "k \<le> n"
  shows "\<exists>h' bs'. mem_trim p k h = Some (p, h') \<and> granted (as @ (p, k) # cs) h' bs' \<and> ram h' = ram h"
proof -
  obtain xs m ys where x: "bs = xs @ [(True, m)] @ ys" "p = ram h + int (ext xs) + 8" "request n \<le> m"
    by (rule granted_split [OF g, of p n]) simp_all
  have n: "unat n \<le> 65532" using granted_entry [OF g, of p n] by simp
  have rk: "request k \<le> m" using request_mono [of k n] n k x(3) by (simp add: word_le_nat_alt)
  obtain h' where h': "mem_trim p k h = Some (p, h')" "mem_ok h' (xs @ trimmed_block (request k) m ys)" "ram h' = ram h"
    using mem_trim_blocks [of h xs m ys k] g x rk by (auto simp: granted_def)
  let ?L = "live (ram h) 0 xs" and ?R = "live (ram h) (ext xs + m + 8) ys"
  have l0: "live (ram h) 0 bs = ?L @ (p, m) # ?R" using x by simp
  obtain c where c: "live (ram h') 0 (xs @ trimmed_block (request k) m ys) = ?L @ (p, c) # ?R" "request k \<le> c"
    using live_trimmed [OF rk, of "ram h" "ext xs" ys] by (auto simp: h'(3) x(2))
  have dp: "distinct (map fst (as @ (p, n) # cs))" using g by (simp add: granted_def)
  then have p: "p \<notin> fst ` set (as @ cs)" by auto
  have "fst ` set (as @ (p, k) # cs) = fst ` set (?L @ (p, c) # ?R)" using granted_keys [OF g] unfolding l0 by auto
  moreover have "\<forall>(q, j) \<in> set (as @ (p, k) # cs). unat j \<le> 65532 \<and> (\<exists>e. (q, e) \<in> set (?L @ (p, c) # ?R) \<and> request j \<le> e)"
  proof (clarify, goal_cases)
    case (1 q j)
    show ?case
    proof (cases "(q, j) = (p, k)")
      case True
      then show ?thesis using c(2) n k by (auto simp: word_le_nat_alt)
    next
      case False
      then have e: "(q, j) \<in> set (as @ cs)" using 1 by auto
      then have q: "q \<noteq> p" using p by (metis fst_conv image_eqI)
      from e have "(q, j) \<in> set (as @ (p, n) # cs)" by auto
      from granted_entry [OF g this] show ?thesis using q unfolding l0 by auto
    qed
  qed
  ultimately have "granted (as @ (p, k) # cs) h' (xs @ trimmed_block (request k) m ys)"
    unfolding granted_def c(1) using h'(2) dp by auto
  then show ?thesis using h' by blast
qed

lemma mem_exec_granted:
  "granted ps h bs \<Longrightarrow> \<forall>n \<in> asks ops. unat n \<le> 65532 \<Longrightarrow>
    \<exists>ps' h' bs'. mem_exec ops ps h = Some (ps', h') \<and> granted ps' h' bs' \<and> ram h' = ram h"
proof (induction ops ps h arbitrary: bs rule: mem_exec.induct)
  case (2 n os ps h)
  obtain p h' bs' where m: "mem_malloc n h = Some (p, h')" "granted (if p = NULL then ps else ps @ [(p, n)]) h' bs'" "ram h' = ram h"
    using granted_malloc [OF "2.prems"(1), of n] "2.prems"(2) by (metis asks.simps(2) insertI1)
  from "2.IH" [OF m(1) refl m(2)] "2.prems"(2) m show ?case by auto
next
  case (3 i os ps h)
  show ?case
  proof (cases "i < length ps")
    case True
    obtain p n where e: "ps ! i = (p, n)" by (cases "ps ! i")
    have ps: "ps = take i ps @ (p, n) # drop (Suc i) ps" using id_take_nth_drop [OF True] e by simp
    obtain h' bs' where m: "mem_free p h = Some h'" "granted (take i ps @ drop (Suc i) ps) h' bs'" "ram h' = ram h"
      using granted_free [of "take i ps" p n "drop (Suc i) ps" h bs] "3.prems"(1) ps by auto
    from "3.IH"(1) [OF True _ m(2)] m e True "3.prems"(2) show ?thesis by auto
  next
    case False
    with 3 show ?thesis by simp
  qed
next
  case (4 i n os ps h)
  show ?case
  proof (cases "i < length ps \<and> n \<le> snd (ps ! i)")
    case True
    obtain p k where e: "ps ! i = (p, k)" by (cases "ps ! i")
    have ps: "ps = take i ps @ (p, k) # drop (Suc i) ps" using id_take_nth_drop [of i ps] True e by simp
    have u: "ps[i := (p, n)] = take i ps @ (p, n) # drop (Suc i) ps" using True by (simp add: upd_conv_take_nth_drop)
    obtain h' bs' where m: "mem_trim p n h = Some (p, h')" "granted (ps[i := (p, n)]) h' bs'" "ram h' = ram h"
      using granted_trim [of "take i ps" p k "drop (Suc i) ps" h bs n] "4.prems"(1) ps True e u by auto
    from "4.IH"(1) [OF True _ _ m(2)] m e True "4.prems"(2) show ?thesis by auto
  next
    case False
    with 4 show ?thesis by auto
  qed
qed auto

section \<open>Properties\<close>

lemma int_align: "LWIP_MEM_ALIGN a = 4 * ((a + 3) div 4)"
proof -
  have "x AND NOT 3 = 4 * (x div 4)" for x :: int
  proof -
    have m3: "(3 :: int) = mask 2" by (simp add: mask_eq_exp_minus_1)
    have "x AND NOT 3 = push_bit 2 (drop_bit 2 x)"
    proof (rule bit_eqI)
      fix n
      show "bit (x AND NOT 3) n \<longleftrightarrow> bit (push_bit 2 (drop_bit 2 x)) n"
      proof (cases "n < 2")
        case False
        then obtain m where "n = m + 2" by (metis add.commute le_Suc_ex not_less)
        then show ?thesis unfolding m3 by (simp add: bit_simps)
      qed (unfold m3, simp add: bit_simps)
    qed
    then show ?thesis by (simp add: push_bit_eq_mult drop_bit_eq_div)
  qed
  then show ?thesis by (simp only: LWIP_MEM_ALIGN_def)
qed

lemma mem_init_blocks:
  assumes "0 \<le> r"
  shows "mem_ok (mem_init r h) [(False, 12280)]" "ram (mem_init r h) = LWIP_MEM_ALIGN r"
  using assms by (simp_all add: mem_init_def mem_ok_def Let_def int_align)

lemma granted_init:
  "0 \<le> r \<Longrightarrow> granted [] (mem_init r h) [(False, 12280)]"
  using mem_init_blocks by (simp add: granted_def)

lemma sorted_apart:
  assumes "sorted_wrt (\<lambda>a b. fst a + int (snd a) + 8 \<le> fst b) L" "(p, m) \<in> set L" "(q, k) \<in> set L" "p \<noteq> q"
  shows "p + int m \<le> q \<or> q + int k \<le> p"
  using assms by (induction L) fastforce+

lemma granted_apart:
  assumes g: "granted ps h bs" and ij: "i < length ps" "j < length ps" "i \<noteq> j"
  shows "fst (ps ! i) + int (unat (snd (ps ! i))) \<le> fst (ps ! j) \<or> fst (ps ! j) + int (unat (snd (ps ! j))) \<le> fst (ps ! i)"
proof -
  obtain p n q k where e: "ps ! i = (p, n)" "ps ! j = (q, k)" by (metis surj_pair)
  have mem: "(p, n) \<in> set ps" "(q, k) \<in> set ps" using ij e by (metis nth_mem)+
  have d: "distinct (map fst ps)" using g by (simp add: granted_def)
  have "p \<noteq> q" using d ij e by (metis distinct_conv_nth fst_conv length_map nth_map)
  obtain m c where b: "(p, m) \<in> set (live (ram h) 0 bs)" "request n \<le> m" "unat n \<le> 65532"
    "(q, c) \<in> set (live (ram h) 0 bs)" "request k \<le> c" "unat k \<le> 65532"
    using granted_entry [OF g mem(1)] granted_entry [OF g mem(2)] by blast
  have "tiles (mhdr h) 0 0 bs" using g by (simp add: granted_def mem_ok_def)
  then have "p + int m \<le> q \<or> q + int c \<le> p"
    using sorted_apart [OF live_apart b(1,4)] \<open>p \<noteq> q\<close> by blast
  moreover have "unat n \<le> m" "unat k \<le> c"
    using b(2,5) request_props(3) [OF b(3)] request_props(3) [OF b(6)] by linarith+
  ultimately show ?thesis unfolding e fst_conv snd_conv by linarith
qed


text \<open>A heap before \<open>mem_init\<close>.\<close>

definition blank_heap :: lwmem where
  "blank_heap = \<lparr>ram = 0, mhdr = (\<lambda>_. \<lparr>mnext = 0, mprev = 0, mused = False\<rparr>), lfree = 0\<rparr>"


lemma merged_all_free: "merged bs \<Longrightarrow> live r k bs = [] \<Longrightarrow> bs = [] \<or> (\<exists>n. bs = [(False, n)])"
  by (cases bs rule: merged.cases) (auto split: if_splits)

text \<open>When everything granted is released, the heap is a single free block of all its bytes again, whatever was
  done before and in whatever order.\<close>

theorem lwip_heap_pristine:
  assumes "0 \<le> r" "\<forall>n \<in> asks ops. unat n \<le> 65532" "mem_exec ops [] (mem_init r h) = Some ([], h')"
  shows "\<not> mused (mhdr h' 0) \<and> mnext (mhdr h' 0) = 12288 \<and> lfree h' = 0"
proof -
  obtain bs where g: "granted [] h' bs" using mem_exec_granted [OF granted_init [OF assms(1)] assms(2), of h] assms(3) by auto
  then have ok: "mem_ok h' bs" and l: "live (ram h') 0 bs = []" by (simp_all add: granted_def)
  have "bs \<noteq> []" using ok by (auto simp: mem_ok_def)
  then obtain n where bs: "bs = [(False, n)]" using merged_all_free [of bs] ok l by (auto simp: mem_ok_def)
  then show ?thesis using ok by (auto simp: mem_ok_def)
qed

theorem lwip_heap_pristine_witness:
  "\<exists>h'. mem_exec [MMalloc 100, MMalloc 1500, MMalloc 13, MFree 1, MFree 0, MFree 0] [] (mem_init 0 blank_heap) = Some ([], h') \<and>
    mnext (mhdr h' 0) = 12288"
proof -
  let ?o = "[MMalloc 100, MMalloc 1500, MMalloc 13, MFree 1, MFree 0, MFree 0]"
  have a: "\<forall>n \<in> asks ?o. unat n \<le> 65532" by simp
  obtain ps h' where e: "mem_exec ?o [] (mem_init 0 blank_heap) = Some (ps, h')"
    using mem_exec_granted [OF granted_init a, of 0 blank_heap] by auto
  have "ps = []"
    using e by (auto split: option.splits if_splits prod.splits)
  then show ?thesis using lwip_heap_pristine [OF _ a, of 0 blank_heap h'] e by auto
qed

text \<open>A request of more than 65532 bytes is not refused: its size wraps when it is rounded up, and the caller is
  granted a block of fewer than 32 bytes as soon as anything is free.\<close>

theorem mem_malloc_size_wraps:
  assumes "mem_ok h bs" "65532 < unat sz" "(False, n) \<in> set bs"
  shows "\<exists>p h' bs' m. mem_malloc sz h = Some (p, h') \<and> p \<noteq> NULL \<and> mem_ok h' bs' \<and> (p, m) \<in> set (live (ram h') 0 bs') \<and> m < 32"
proof -
  have r: "request sz = 12" using assms(2) by (simp add: request_def align_size)
  have z: "sz \<noteq> 0" using assms(2) by auto
  obtain xs ys where bs: "bs = xs @ (False, n) # ys" using split_list [OF assms(3)] by blast
  have "12 \<le> n" using assms(1) by (simp add: mem_ok_def bs tiles_append)
  then have "fit_at 12 0 bs \<noteq> None" unfolding fit_at_None using assms(3) by fastforce
  then obtain k where k: "fit_at 12 0 bs = Some k" by blast
  obtain as m cs h' where x: "bs = as @ [(False, m)] @ cs" "k = ext as" "12 \<le> m"
    "mem_malloc sz h = Some (ram h + int k + 8, h')" "mem_ok h' (as @ carve 12 m @ cs)" "ram h' = ram h"
    using mem_malloc_blocks [OF assms(1) z] unfolding r k by auto
  obtain c where c: "live (ram h) k (carve 12 m) = [(ram h + int k + 8, c)]" "c < 32"
    using live_carve [OF x(3), of "ram h" k] by auto
  have "0 \<le> ram h" using assms(1) by (simp add: mem_ok_def)
  then show ?thesis using x c by (intro exI [of _ "ram h + int k + 8"] exI [of _ h'] exI [of _ "as @ carve 12 m @ cs"] exI [of _ c]) auto
qed

text \<open>65535 bytes asked of the fresh heap of 12 kilobytes.\<close>

theorem mem_malloc_size_wraps_witness:
  "\<exists>p h' bs' m. mem_malloc 65535 (mem_init 0 blank_heap) = Some (p, h') \<and> p \<noteq> NULL \<and> mem_ok h' bs' \<and>
    (p, m) \<in> set (live (ram h') 0 bs') \<and> m < 32"
  by (rule mem_malloc_size_wraps [where n = 12280]) (rule mem_init_blocks, simp_all)

end
