(* ===== verification/PbufProps.thy ===== *)
theory PbufProps imports Pbuf LwipMemProps begin

text \<open>
  Chains of packet buffers as lists of buffers and as the bytes they hold: what reading, writing, joining, cutting and
  releasing them does to these.
\<close>

section \<open>Chains\<close>

text \<open>The buffers from \<open>p\<close> to the end.\<close>

fun chain :: "(addr \<Rightarrow> pbuf) \<Rightarrow> addr \<Rightarrow> addr list \<Rightarrow> bool" where
  "chain f p [] \<longleftrightarrow> p = NULL"
| "chain f p (q # qs) \<longleftrightarrow> p = q \<and> p \<noteq> NULL \<and> chain f (nextp (f p)) qs"

definition blen :: "(addr \<Rightarrow> pbuf) \<Rightarrow> addr \<Rightarrow> nat" where
  "blen f q = unat (plen (f q))"

definition tlen :: "(addr \<Rightarrow> pbuf) \<Rightarrow> addr list \<Rightarrow> nat" where
  "tlen f qs = sum_list (map (blen f) qs)"

lemma tlen_simps [simp]: "tlen f [] = 0" "tlen f (q # qs) = blen f q + tlen f qs" "tlen f (xs @ ys) = tlen f xs + tlen f ys"
  by (simp_all add: tlen_def)

text \<open>The total length of each buffer is what it and the buffers behind it hold.\<close>

fun tots :: "(addr \<Rightarrow> pbuf) \<Rightarrow> addr list \<Rightarrow> bool" where
  "tots f [] \<longleftrightarrow> True"
| "tots f (q # qs) \<longleftrightarrow> unat (tot_len (f q)) = tlen f (q # qs) \<and> tots f qs"

text \<open>The bytes of a buffer and of a chain.\<close>

definition data :: "net \<Rightarrow> addr \<Rightarrow> u8 list" where
  "data s q = load (payload (pbufs s q)) (blen (pbufs s) q) s"

definition content :: "net \<Rightarrow> addr list \<Rightarrow> u8 list" where
  "content s qs = concat (map (data s) qs)"

lemma length_load [simp]: "length (load a n s) = n"
  by (simp add: load_def)

lemma length_data [simp]: "length (data s q) = blen (pbufs s) q"
  by (simp add: data_def)

lemma content_simps [simp]: "content s [] = []" "content s (q # qs) = data s q @ content s qs" "content s (xs @ ys) = content s xs @ content s ys"
  by (simp_all add: content_def)

lemma length_content [simp]: "length (content s qs) = tlen (pbufs s) qs"
  by (induction qs) simp_all

lemma take_drop_load: "off + n \<le> m \<Longrightarrow> take n (drop off (load a m s)) = load (a + int off) n s"
  by (rule nth_equalityI) (auto simp: load_def ac_simps)

lemma nth_load: "i < n \<Longrightarrow> load a n s ! i = bytes s (a + int i)"
  by (simp add: load_def)

lemma chain_unique: "chain f p qs \<Longrightarrow> chain f p qs' \<Longrightarrow> qs = qs'"
proof (induction f p qs arbitrary: qs' rule: chain.induct)
  case (1 f p)
  then show ?case by (cases qs') auto
next
  case (2 f p q qs)
  then show ?case by (cases qs') auto
qed

lemma chain_append: "chain f p (xs @ ys) \<Longrightarrow> \<exists>q. chain f q ys"
  by (induction f p xs rule: chain.induct) auto

text \<open>No buffer twice: the rest of the chain would repeat itself.\<close>

lemma chain_distinct: "chain f p qs \<Longrightarrow> distinct qs"
proof (induction f p qs rule: chain.induct)
  case (2 f p q qs)
  have "q \<notin> set qs"
  proof
    assume "q \<in> set qs"
    then obtain xs ys where qs: "qs = xs @ q # ys" by (auto dest: split_list)
    have "chain f q (q # ys)" using chain_append [of f "nextp (f p)" xs "q # ys"] 2(2) qs by auto
    moreover have "chain f q (q # qs)" using 2(2) by auto
    ultimately have "ys = qs" using chain_unique by blast
    then show False using qs by simp
  qed
  then show ?case using 2 by auto
qed simp

lemma chain_not_null: "chain f p qs \<Longrightarrow> q \<in> set qs \<Longrightarrow> q \<noteq> NULL"
  by (induction f p qs rule: chain.induct) auto

text \<open>What is not in a chain may change.\<close>

lemma chain_next_cong: "(\<And>q. q \<in> set qs \<Longrightarrow> nextp (f q) = nextp (g q)) \<Longrightarrow> chain f p qs \<longleftrightarrow> chain g p qs"
  by (induction g p qs rule: chain.induct) auto

lemma tlen_cong: "(\<And>q. q \<in> set qs \<Longrightarrow> plen (f q) = plen (g q)) \<Longrightarrow> tlen f qs = tlen g qs"
  by (induction qs) (auto simp: blen_def)

lemma tots_cong: "(\<And>q. q \<in> set qs \<Longrightarrow> plen (f q) = plen (g q) \<and> tot_len (f q) = tot_len (g q)) \<Longrightarrow> tots f qs \<longleftrightarrow> tots g qs"
proof (induction qs)
  case (Cons q qs)
  have "tlen f (q # qs) = tlen g (q # qs)" by (rule tlen_cong) (use Cons.prems in auto)
  then show ?case using Cons by simp
qed simp

lemma content_cong:
  "(\<And>q. q \<in> set qs \<Longrightarrow> plen (pbufs s q) = plen (pbufs s' q) \<and> payload (pbufs s q) = payload (pbufs s' q)) \<Longrightarrow>
    bytes s = bytes s' \<Longrightarrow> content s qs = content s' qs"
  by (induction qs) (auto simp: data_def blen_def load_def)

section \<open>Reading\<close>

lemma skip_loop_spec:
  "chain (pbufs s) p qs \<Longrightarrow>
    (if unat k < tlen (pbufs s) qs
     then \<exists>xs q ys j. qs = xs @ q # ys \<and> skip_loop p k s = Some (q, j) \<and> unat k = tlen (pbufs s) xs + unat j \<and> unat j < blen (pbufs s) q
     else \<exists>j. skip_loop p k s = Some (NULL, j))"
proof (induction "pbufs s" p qs arbitrary: k rule: chain.induct)
  case (1 p)
  then show ?case by (subst skip_loop.simps) simp
next
  case (2 p q qs)
  show ?case
  proof (cases "plen (pbufs s q) \<le> k")
    case True
    let ?k = "k - plen (pbufs s q)"
    have k: "unat ?k = unat k - blen (pbufs s) q" "blen (pbufs s) q \<le> unat k"
      using True by (simp_all add: blen_def unat_sub word_le_nat_alt)
    have e: "skip_loop p k s = skip_loop (nextp (pbufs s p)) ?k s" using 2(2) True by (subst skip_loop.simps) simp
    have IH: "if unat ?k < tlen (pbufs s) qs
      then \<exists>xs q' ys j. qs = xs @ q' # ys \<and> skip_loop (nextp (pbufs s p)) ?k s = Some (q', j) \<and>
        unat ?k = tlen (pbufs s) xs + unat j \<and> unat j < blen (pbufs s) q'
      else \<exists>j. skip_loop (nextp (pbufs s p)) ?k s = Some (NULL, j)"
      by (rule 2(1)) (use 2(2) in auto)
    show ?thesis
    proof (cases "unat ?k < tlen (pbufs s) qs")
      case True
      then obtain xs q' ys j where x: "qs = xs @ q' # ys" "skip_loop p k s = Some (q', j)"
        "unat ?k = tlen (pbufs s) xs + unat j" "unat j < blen (pbufs s) q'" using IH e by auto
      have c: "unat k < tlen (pbufs s) (q # qs)" using True k by simp
      show ?thesis unfolding if_P [OF c]
        by (intro exI [of _ "q # xs"] exI [of _ q'] exI [of _ ys] exI [of _ j]) (use x k in simp)
    next
      case False
      then show ?thesis using IH e k by auto
    qed
  next
    case False
    then have e: "skip_loop p k s = Some (q, k)" using 2(2) by (subst skip_loop.simps) auto
    have b: "unat k < blen (pbufs s) q" using False by (simp add: blen_def word_less_nat_alt not_le)
    then have c: "unat k < tlen (pbufs s) (q # qs)" by simp
    show ?thesis unfolding if_P [OF c]
      by (intro exI [of _ "[]"] exI [of _ q] exI [of _ qs] exI [of _ k]) (use e b in simp)
  qed
qed

lemma skip_in:
  assumes "chain (pbufs s) p qs" "unat k < tlen (pbufs s) qs"
  obtains xs q ys j where "qs = xs @ q # ys" "skip_loop p k s = Some (q, j)" "unat k = tlen (pbufs s) xs + unat j"
    "unat j < blen (pbufs s) q"
  using skip_loop_spec [OF assms(1), of k] unfolding if_P [OF assms(2)] by blast

lemma skip_out:
  assumes "chain (pbufs s) p qs" "\<not> unat k < tlen (pbufs s) qs"
  obtains j where "skip_loop p k s = Some (NULL, j)"
  using skip_loop_spec [OF assms(1), of k] unfolding if_not_P [OF assms(2)] by blast

lemma content_nth:
  "j < blen (pbufs s) q \<Longrightarrow> content s (xs @ q # ys) ! (tlen (pbufs s) xs + j) = bytes s (payload (pbufs s q) + int j)"
  by (simp add: nth_append data_def nth_load)

lemma pbuf_get_at_spec:
  assumes "chain (pbufs s) p qs"
  shows "pbuf_get_at p k s = Some (if unat k < tlen (pbufs s) qs then content s qs ! unat k else 0)"
proof (cases "unat k < tlen (pbufs s) qs")
  case True
  then obtain xs q ys j where x: "qs = xs @ q # ys" "skip_loop p k s = Some (q, j)" "unat k = tlen (pbufs s) xs + unat j"
    "unat j < blen (pbufs s) q" using skip_in [OF assms True] by blast
  have "q \<noteq> NULL" using chain_not_null [OF assms, of q] x(1) by simp
  moreover have "bytes s (payload (pbufs s q) + uint j) = content s qs ! unat k"
    using content_nth [OF x(4), of xs ys] x(1,3) by simp
  ultimately show ?thesis using x(2,4) True by (simp add: pbuf_get_at_def word_less_nat_alt blen_def)
next
  case False
  obtain j where "skip_loop p k s = Some (NULL, j)" using skip_out [OF assms False] by blast
  then show ?thesis using False by (simp add: pbuf_get_at_def)
qed

text \<open>Copying out takes a slice of the bytes.\<close>

lemma copy_partial_spec:
  "chain (pbufs s) p qs \<Longrightarrow> unat copied + tlen (pbufs s) qs < 65536 \<Longrightarrow>
    copy_partial_loop p len offset copied out s =
      (let r = take (unat len) (drop (unat offset) (content s qs)) in Some (copied + of_nat (length r), out @ r))"
proof (induction "pbufs s" p qs arbitrary: len offset copied out rule: chain.induct)
  case (1 p)
  then show ?case by (subst copy_partial_loop.simps) simp
next
  case (2 p q qs)
  have c: "chain (pbufs s) (nextp (pbufs s p)) qs" and p: "p = q" "p \<noteq> NULL" using 2(2) by auto
  have t: "unat copied + blen (pbufs s) q + tlen (pbufs s) qs < 65536" using 2(3) by simp
  show ?case
  proof (cases "len = 0")
    case True
    then show ?thesis by (subst copy_partial_loop.simps) simp
  next
    case len: False
    show ?thesis
    proof (cases "offset \<noteq> 0 \<and> offset \<ge> plen (pbufs s p)")
      case True
      then have o': "unat (offset - plen (pbufs s p)) = unat offset - blen (pbufs s) q" "blen (pbufs s) q \<le> unat offset"
        by (simp_all add: blen_def unat_sub word_le_nat_alt p(1))
      have "copy_partial_loop p len offset copied out s =
          copy_partial_loop (nextp (pbufs s p)) len (offset - plen (pbufs s p)) copied out s"
        by (subst copy_partial_loop.simps) (simp add: len p(2) True)
      also have "\<dots> = (let r = take (unat len) (drop (unat (offset - plen (pbufs s p))) (content s qs)) in
          Some (copied + of_nat (length r), out @ r))"
        by (rule 2(1) [OF c]) (use t in simp)
      finally show ?thesis using o' by simp
    next
      case False
      let ?n = "if plen (pbufs s p) - offset > len then len else plen (pbufs s p) - offset"
      have ob: "unat offset \<le> blen (pbufs s) q" using False by (auto simp: blen_def p(1) word_le_nat_alt)
      have n0: "unat (plen (pbufs s p) - offset) = blen (pbufs s) q - unat offset"
        using ob by (simp add: blen_def p(1) unat_sub word_le_nat_alt)
      have n: "unat ?n = min (unat len) (blen (pbufs s) q - unat offset)"
        using n0 by (auto simp: word_less_nat_alt)
      have l: "unat (len - ?n) = unat len - unat ?n" using n by (simp add: unat_sub word_le_nat_alt)
      have cp: "unat (copied + ?n) = unat copied + unat ?n"
        using n t by (simp add: unat_add_lem [THEN iffD1])
      have ld: "load (payload (pbufs s p) + uint offset) (unat ?n) s = take (unat ?n) (drop (unat offset) (data s q))"
        using take_drop_load [of "unat offset" "unat ?n" "blen (pbufs s) q" "payload (pbufs s q)" s] n ob
        by (simp add: data_def p(1))
      have "copy_partial_loop p len offset copied out s =
          copy_partial_loop (nextp (pbufs s p)) (len - ?n) 0 (copied + ?n) (out @ load (payload (pbufs s p) + uint offset) (unat ?n) s) s"
        by (subst copy_partial_loop.simps) (simp only: len p(2) False if_False if_True simp_thms Let_def not_False_eq_True)
      also have "\<dots> = (let r = take (unat (len - ?n)) (drop (unat (0 :: u16)) (content s qs)) in
          Some (copied + ?n + of_nat (length r), (out @ load (payload (pbufs s p) + uint offset) (unat ?n) s) @ r))"
        by (rule 2(1) [OF c]) (use t n cp in simp)
      also have "\<dots> = (let r = take (unat len) (drop (unat offset) (content s (q # qs))) in Some (copied + of_nat (length r), out @ r))"
      proof -
        have "take (unat len) (drop (unat offset) (content s (q # qs))) =
            take (unat ?n) (drop (unat offset) (data s q)) @ take (unat (len - ?n)) (content s qs)"
          using n l ob by (simp add: take_append min_def)
        moreover have "length (take (unat ?n) (drop (unat offset) (data s q))) = unat ?n" using n ob by simp
        ultimately show ?thesis unfolding ld by simp
      qed
      finally show ?thesis .
    qed
  qed
qed

section \<open>Comparing\<close>

text \<open>The position behind the first difference, 0 if there is none.\<close>

fun mismatch :: "u8 list \<Rightarrow> u8 list \<Rightarrow> nat" where
  "mismatch (a # as) (b # bs) = (if a \<noteq> b then 1 else if mismatch as bs = 0 then 0 else Suc (mismatch as bs))"
| "mismatch as bs = 0"

lemma mismatch_0: "length bs \<le> length as \<Longrightarrow> mismatch as bs = 0 \<longleftrightarrow> take (length bs) as = bs"
  by (induction as bs rule: mismatch.induct) auto

lemma mismatch_le: "mismatch as bs \<le> length bs"
  by (induction as bs rule: mismatch.induct) auto

lemma memcmp_loop_spec:
  "chain (pbufs s) q qs \<Longrightarrow> tlen (pbufs s) qs < 65536 \<Longrightarrow> unat start + unat i + length bs \<le> tlen (pbufs s) qs \<Longrightarrow>
    memcmp_loop q start i bs s =
      Some (let d = mismatch (drop (unat start + unat i) (content s qs)) bs in if d = 0 then 0 else i + of_nat d)"
proof (induction bs arbitrary: i)
  case (Cons b bs)
  have k: "unat (start + i) = unat start + unat i" using Cons.prems by (simp add: unat_add_lem [THEN iffD1])
  have i: "unat (i + 1) = unat i + 1" using Cons.prems by (simp add: unat_add_lem [THEN iffD1])
  let ?k = "unat start + unat i"
  have d: "drop ?k (content s qs) = content s qs ! ?k # drop (Suc ?k) (content s qs)"
    using Cons.prems by (intro Cons_nth_drop_Suc [symmetric]) simp
  have IH: "memcmp_loop q start (i + 1) bs s =
      Some (let d = mismatch (drop (unat start + unat (i + 1)) (content s qs)) bs in if d = 0 then 0 else i + 1 + of_nat d)"
    by (rule Cons.IH) (use Cons.prems i in simp_all)
  show ?case using Cons.prems IH unfolding d
    by (simp add: pbuf_get_at_spec [OF Cons.prems(1)] k i Let_def)
qed simp

lemma pbuf_memcmp_spec:
  assumes "chain (pbufs s) p qs" "tlen (pbufs s) qs < 65536" "unat k < tlen (pbufs s) qs" "unat k + length bs \<le> tlen (pbufs s) qs"
  shows "pbuf_memcmp p k bs s = Some (of_nat (mismatch (drop (unat k) (content s qs)) bs))"
proof -
  obtain xs q ys j where x: "qs = xs @ q # ys" "skip_loop p k s = Some (q, j)" "unat k = tlen (pbufs s) xs + unat j"
    "unat j < blen (pbufs s) q" using skip_in [OF assms(1,3)] by blast
  have q: "q \<noteq> NULL" using chain_not_null [OF assms(1), of q] x(1) by simp
  obtain r where "chain (pbufs s) r (q # ys)" using chain_append assms(1) unfolding x(1) by blast
  then have c: "chain (pbufs s) q (q # ys)" by auto
  have "memcmp_loop q j 0 bs s = Some (let d = mismatch (drop (unat j + unat (0 :: u16)) (content s (q # ys))) bs in if d = 0 then 0 else 0 + of_nat d)"
    by (rule memcmp_loop_spec [OF c]) (use assms x in simp_all)
  moreover have "drop (unat k) (content s qs) = drop (unat j) (content s (q # ys))"
    unfolding x(1,3) by (simp only: content_simps(3) drop_append) simp
  ultimately show ?thesis using x(2,4) q by (simp add: pbuf_memcmp_def Let_def word_less_nat_alt blen_def)
qed

section \<open>Writing\<close>

lemma store_sel [simp]:
  "pbufs (store a bs s) = pbufs s" "nheap (store a bs s) = nheap s"
  "pbuf_free_ooseq_pending (store a bs s) = pbuf_free_ooseq_pending s" "tcpip_mbox (store a bs s) = tcpip_mbox s"
  by (simp_all add: store_def)

lemma bytes_store: "bytes (store a bs s) i = (if a \<le> i \<and> i < a + int (length bs) then bs ! nat (i - a) else bytes s i)"
  by (simp add: store_def)

lemma load_store: "length bs \<le> n \<Longrightarrow> load a n (store a bs s) = bs @ drop (length bs) (load a n s)"
  by (rule nth_equalityI) (auto simp: load_def bytes_store nth_append)

lemma load_cong: "(\<And>i. a \<le> i \<Longrightarrow> i < a + int n \<Longrightarrow> bytes s i = bytes s' i) \<Longrightarrow> load a n s = load a n s'"
  by (simp add: load_def)

text \<open>The place of the bytes of a buffer, and buffers whose places do not overlap.\<close>

definition span :: "(addr \<Rightarrow> pbuf) \<Rightarrow> addr \<Rightarrow> addr set" where
  "span f q = {payload (f q)..<payload (f q) + int (blen f q)}"

definition apart :: "(addr \<Rightarrow> pbuf) \<Rightarrow> addr list \<Rightarrow> bool" where
  "apart f qs \<longleftrightarrow> (\<forall>q \<in> set qs. \<forall>r \<in> set qs. q \<noteq> r \<longrightarrow> span f q \<inter> span f r = {})"

lemma content_frame:
  "pbufs s' = pbufs s \<Longrightarrow> (\<And>i q. q \<in> set qs \<Longrightarrow> i \<in> span (pbufs s) q \<Longrightarrow> bytes s' i = bytes s i) \<Longrightarrow> content s' qs = content s qs"
proof (induction qs)
  case (Cons q qs)
  have "data s' q = data s q"
    unfolding data_def Cons.prems(1) by (rule load_cong, rule Cons.prems(2) [of q]) (simp_all add: span_def)
  moreover have "content s' qs = content s qs" by (rule Cons.IH) (use Cons.prems in auto)
  ultimately show ?case by simp
qed simp

lemma take_loop_spec:
  "chain f p qs \<Longrightarrow> pbufs s = f \<Longrightarrow> distinct qs \<Longrightarrow> apart f qs \<Longrightarrow> unat n \<le> tlen f qs \<Longrightarrow>
    unat k + unat n \<le> length ds \<Longrightarrow> unat k + unat n < 65536 \<Longrightarrow>
    \<exists>s'. take_loop p ds n k s = Some s' \<and> pbufs s' = pbufs s \<and> nheap s' = nheap s \<and>
      content s' qs = take (unat n) (drop (unat k) ds) @ drop (unat n) (content s qs) \<and>
      (\<forall>i. (\<forall>q \<in> set qs. i \<notin> span f q) \<longrightarrow> bytes s' i = bytes s i)"
proof (induction f p qs arbitrary: n k s rule: chain.induct)
  case (1 f p)
  then have "n = 0" by (simp add: unat_eq_zero)
  then show ?case by (subst take_loop.simps) simp
next
  case (2 f p q qs)
  note [simp] = 2(3)
  have c: "chain f (nextp (f p)) qs" and p: "p = q" "p \<noteq> NULL" using 2(2) by auto
  show ?case
  proof (cases "n = 0")
    case True
    then show ?thesis by (subst take_loop.simps) simp
  next
    case n0: False
    let ?m = "if n > plen (pbufs s p) then plen (pbufs s p) else n"
    have m: "unat ?m = min (unat n) (blen (pbufs s) q)" by (auto simp: blen_def p(1) word_less_nat_alt)
    have nm: "unat (n - ?m) = unat n - unat ?m" using m by (simp add: unat_sub word_le_nat_alt)
    have km: "unat (k + ?m) = unat k + unat ?m" using m 2(8) by (simp add: unat_add_lem [THEN iffD1])
    let ?ds = "take (unat ?m) (drop (unat k) ds)"
    define s1 where "s1 = store (payload (pbufs s p)) ?ds s"
    have l: "length ?ds = unat ?m" using m 2(7) by simp
    have s1: "pbufs s1 = pbufs s" "nheap s1 = nheap s" by (simp_all add: s1_def)
    have d1: "data s1 q = ?ds @ drop (unat ?m) (data s q)"
      using load_store [of ?ds "blen (pbufs s) q" "payload (pbufs s q)" s] l m by (simp add: data_def s1_def p(1))
    have b1: "bytes s1 i = bytes s i" if "i \<notin> span (pbufs s) q" for i
      using that l m by (auto simp: s1_def bytes_store span_def p(1))
    have ap: "apart (pbufs s1) qs" using 2(5) by (simp add: apart_def s1)
    have sep: "span (pbufs s) q \<inter> span (pbufs s) r = {}" if "r \<in> set qs" for r
      using 2(4,5) that by (auto simp: apart_def)
    have ct: "content s1 qs = content s qs"
      by (rule content_frame [OF s1(1)]) (use b1 sep in blast)
    have IH: "\<exists>s'. take_loop (nextp (f p)) ds (n - ?m) (k + ?m) s1 = Some s' \<and> pbufs s' = pbufs s1 \<and> nheap s' = nheap s1 \<and>
        content s' qs = take (unat (n - ?m)) (drop (unat (k + ?m)) ds) @ drop (unat (n - ?m)) (content s1 qs) \<and>
        (\<forall>i. (\<forall>q \<in> set qs. i \<notin> span f q) \<longrightarrow> bytes s' i = bytes s1 i)"
    proof (rule 2(1) [OF c])
      show "pbufs s1 = f" by (simp add: s1)
      show "apart f qs" using ap by (simp add: s1)
      show "unat (n - ?m) \<le> tlen f qs" using nm m 2(6) by (simp add: min_def split: if_splits)
    qed (use 2(4,7,8) nm km m in simp_all)
    then obtain s' where s': "take_loop (nextp (f p)) ds (n - ?m) (k + ?m) s1 = Some s'" "pbufs s' = f" "nheap s' = nheap s1"
      "content s' qs = take (unat (n - ?m)) (drop (unat (k + ?m)) ds) @ drop (unat (n - ?m)) (content s1 qs)"
      "\<forall>i. (\<forall>q \<in> set qs. i \<notin> span f q) \<longrightarrow> bytes s' i = bytes s1 i" using s1(1) 2(3) by auto
    have tl: "take_loop p ds n k s = Some s'"
    proof -
      have "take_loop p ds n k s = take_loop (nextp (pbufs s1 p)) ds (n - ?m) (k + ?m) s1"
        using n0 p(2) by (subst take_loop.simps) (simp add: s1_def Let_def)
      then show ?thesis using s'(1) s1(1) by simp
    qed
    have dq: "data s' q = data s1 q"
      unfolding data_def s'(2) s1(1) 2(3) 
    proof (rule load_cong)
      fix i assume "payload (f q) \<le> i" "i < payload (f q) + int (blen f q)"
      then have "i \<in> span f q" by (simp add: span_def)
      then have "\<forall>r \<in> set qs. i \<notin> span f r" using sep by auto
      then show "bytes s' i = bytes s1 i" using s'(5) by blast
    qed
    define j where "j = unat n - unat ?m"
    have tk: "take (unat n) (drop (unat k) ds) = ?ds @ take j (drop (unat k + unat ?m) ds)"
    proof -
      have "unat n = unat ?m + j" using m by (simp add: j_def)
      then show ?thesis by (simp only: take_add drop_drop) (simp only: add.commute)
    qed
    have dr: "drop (unat n) (content s (q # qs)) = drop (unat n) (data s q) @ drop j (content s qs)"
      using m by (simp add: drop_append min_def j_def)
    have z: "drop (unat n) (data s q) = drop (unat ?m) (data s q) \<and> (drop (unat ?m) (data s q) = [] \<or> j = 0)"
      using m by (auto simp: min_def j_def)
    have eq: "content s' (q # qs) = take (unat n) (drop (unat k) ds) @ drop (unat n) (content s (q # qs))"
    proof -
      have "content s' (q # qs) = (?ds @ drop (unat ?m) (data s q)) @ take j (drop (unat k + unat ?m) ds) @ drop j (content s qs)"
        by (simp only: content_simps(2) dq d1 s'(4) nm km ct j_def)
      also have "\<dots> = ?ds @ take j (drop (unat k + unat ?m) ds) @ drop (unat ?m) (data s q) @ drop j (content s qs)"
        using z by (metis append.assoc append_Nil append_Nil2 take_0)
      finally show ?thesis unfolding tk dr using z by simp
    qed
    have fr: "bytes s' i = bytes s i" if i: "\<forall>r \<in> set (q # qs). i \<notin> span f r" for i
    proof -
      have "bytes s' i = bytes s1 i" using s'(5) i by simp
      then show ?thesis using b1 [of i] i by simp
    qed
    show ?thesis
      by (rule exI [of _ s'], intro conjI) (rule tl, simp add: s'(2), simp add: s'(3) s1, rule eq, use fr in blast)
  qed
qed

section \<open>Releasing\<close>

text \<open>The buffers a release frees are those at the head with a single reference.\<close>

definition sole :: "(addr \<Rightarrow> pbuf) \<Rightarrow> addr list \<Rightarrow> addr list" where
  "sole f qs = takeWhile (\<lambda>q. pref (f q) = 1) qs"

definition kept :: "(addr \<Rightarrow> pbuf) \<Rightarrow> addr list \<Rightarrow> addr list" where
  "kept f qs = dropWhile (\<lambda>q. pref (f q) = 1) qs"

lemma sole_kept: "qs = sole f qs @ kept f qs"
  by (simp add: sole_def kept_def)

lemma sole_cong: "(\<And>q. q \<in> set qs \<Longrightarrow> pref (f q) = pref (g q)) \<Longrightarrow> sole f qs = sole g qs \<and> kept f qs = kept g qs"
  by (induction qs) (auto simp: sole_def kept_def)

text \<open>Buffers of the heap: not custom ones, and each granted by the heap.\<close>

definition heap_bufs :: "net \<Rightarrow> addr list \<Rightarrow> (addr \<times> u16) list \<Rightarrow> blocks \<Rightarrow> bool" where
  "heap_bufs s qs ps bs \<longleftrightarrow> granted ps (nheap s) bs \<and>
     (\<forall>q \<in> set qs. pref (pbufs s q) \<noteq> 0 \<and> pflags (pbufs s q) AND PBUF_FLAG_IS_CUSTOM = 0 \<and> q \<in> fst ` set ps)"

lemma pbuf_free_loop_spec:
  "chain (pbufs s) p qs \<Longrightarrow> heap_bufs s qs ps bs \<Longrightarrow>
    \<exists>s' ps' bs'. pbuf_free_loop cf p c s = Some (c + of_nat (length (sole (pbufs s) qs)), s') \<and>
      granted ps' (nheap s') bs' \<and> fst ` set ps' = fst ` set ps - set (sole (pbufs s) qs) \<and>
      bytes s' = bytes s \<and>
      (\<forall>q. q \<notin> set (sole (pbufs s) qs) \<and> (kept (pbufs s) qs \<noteq> [] \<longrightarrow> q \<noteq> hd (kept (pbufs s) qs)) \<longrightarrow> pbufs s' q = pbufs s q) \<and>
      (kept (pbufs s) qs \<noteq> [] \<longrightarrow> pbufs s' (hd (kept (pbufs s) qs)) =
         (pbufs s (hd (kept (pbufs s) qs)))\<lparr>pref := pref (pbufs s (hd (kept (pbufs s) qs))) - 1\<rparr>)"
proof (induction qs arbitrary: p s ps bs c)
  case Nil
  then have p: "p = NULL" by simp
  have "pbuf_free_loop cf p c s = Some (c, s)" by (subst pbuf_free_loop.simps) (simp add: p)
  then show ?case using Nil by (auto simp: sole_def kept_def heap_bufs_def)
next
  case (Cons q qs)
  have p: "p = q" "q \<noteq> NULL" and ch: "chain (pbufs s) (nextp (pbufs s q)) qs" using Cons.prems(1) by auto
  have q: "q \<notin> set qs" using chain_distinct [OF Cons.prems(1)] by simp
  have g: "granted ps (nheap s) bs" and b: "pref (pbufs s q) \<noteq> 0" "pflags (pbufs s q) AND PBUF_FLAG_IS_CUSTOM = 0" "q \<in> fst ` set ps"
    using Cons.prems(2) by (simp_all add: heap_bufs_def)
  define s1 where "s1 = upd_p q (\<lambda>b. b\<lparr>pref := pref b - 1\<rparr>) s"
  show ?case
  proof (cases "pref (pbufs s q) = 1")
    case False
    then have "pref (pbufs s q) - 1 \<noteq> 0" by simp
    then have e: "pbuf_free_loop cf p c s = Some (c, s1)"
      using p b(1) by (subst pbuf_free_loop.simps) (simp add: s1_def Let_def word_gt_0)
    have sk: "sole (pbufs s) (q # qs) = []" "kept (pbufs s) (q # qs) = q # qs" using False by (simp_all add: sole_def kept_def)
    show ?thesis unfolding sk e using g by (intro exI [of _ s1] exI [of _ ps] exI [of _ bs]) (auto simp: s1_def)
  next
    case True
    obtain n where n: "(q, n) \<in> set ps" using b(3) by auto
    then obtain as cs where ps: "ps = as @ (q, n) # cs" by (auto dest: split_list)
    obtain h' bs1 where h: "mem_free q (nheap s) = Some h'" "granted (as @ cs) h' bs1"
      using granted_free [of as q n cs "nheap s" bs] g ps by auto
    define s2 where "s2 = s1\<lparr>nheap := h'\<rparr>"
    have e: "pbuf_free_loop cf p c s = pbuf_free_loop cf (nextp (pbufs s q)) (c + 1) s2"
      using p True b(2) h(1) by (subst pbuf_free_loop.simps) (simp add: s1_def s2_def Let_def n_free_def)
    have f2: "pbufs s2 r = pbufs s r" if "r \<noteq> q" for r using that by (simp add: s2_def s1_def)
    have f2q: "pbufs s2 r = pbufs s r" if "r \<in> set qs" for r using f2 [of r] q that by blast
    have d: "distinct (map fst ps)" using g by (simp add: granted_def)
    have keys: "fst ` set (as @ cs) = fst ` set ps - {q}" using d ps by auto
    have ch2: "chain (pbufs s2) (nextp (pbufs s q)) qs" 
      using ch chain_next_cong [of qs "pbufs s2" "pbufs s" "nextp (pbufs s q)"] f2q by simp
    have hb: "heap_bufs s2 qs (as @ cs) bs1"
      
    proof -
      have "granted (as @ cs) (nheap s2) bs1" using h(2) by (simp add: s2_def)
      moreover have "pref (pbufs s2 r) \<noteq> 0 \<and> pflags (pbufs s2 r) AND PBUF_FLAG_IS_CUSTOM = 0 \<and> r \<in> fst ` set (as @ cs)"
        if r: "r \<in> set qs" for r
        using Cons.prems(2) r q unfolding f2q [OF r] keys heap_bufs_def by auto
      ultimately show ?thesis unfolding heap_bufs_def by blast
    qed
    have sk2: "sole (pbufs s2) qs = sole (pbufs s) qs" "kept (pbufs s2) qs = kept (pbufs s) qs"
      using sole_cong [of qs "pbufs s2" "pbufs s"] f2q by simp_all
    have sk: "sole (pbufs s) (q # qs) = q # sole (pbufs s) qs" "kept (pbufs s) (q # qs) = kept (pbufs s) qs"
      using True by (simp_all add: sole_def kept_def)
    obtain s' ps' bs' where s': "pbuf_free_loop cf (nextp (pbufs s q)) (c + 1) s2 = Some (c + 1 + of_nat (length (sole (pbufs s) qs)), s')"
      "granted ps' (nheap s') bs'" "fst ` set ps' = fst ` set (as @ cs) - set (sole (pbufs s) qs)" "bytes s' = bytes s2"
      "\<forall>r. r \<notin> set (sole (pbufs s) qs) \<and> (kept (pbufs s) qs \<noteq> [] \<longrightarrow> r \<noteq> hd (kept (pbufs s) qs)) \<longrightarrow> pbufs s' r = pbufs s2 r"
      "kept (pbufs s) qs \<noteq> [] \<longrightarrow> pbufs s' (hd (kept (pbufs s) qs)) =
         (pbufs s2 (hd (kept (pbufs s) qs)))\<lparr>pref := pref (pbufs s2 (hd (kept (pbufs s) qs))) - 1\<rparr>"
      using Cons.IH [OF ch2 hb, of "c + 1"] unfolding sk2 by blast
    have hk: "hd (kept (pbufs s) qs) \<noteq> q" if "kept (pbufs s) qs \<noteq> []"
      using q sole_kept [of qs "pbufs s"] that by (metis hd_in_set in_set_conv_decomp Un_iff set_append)
    have pc: "pbuf_free_loop cf p c s = Some (c + of_nat (length (sole (pbufs s) (q # qs))), s')"
      unfolding e s'(1) sk by (simp add: add.assoc)
    have kp: "fst ` set ps' = fst ` set ps - set (sole (pbufs s) (q # qs))" unfolding s'(3) keys sk by auto
    have fr: "pbufs s' r = pbufs s r"
      if r: "r \<notin> set (sole (pbufs s) (q # qs))" "kept (pbufs s) (q # qs) \<noteq> [] \<longrightarrow> r \<noteq> hd (kept (pbufs s) (q # qs))" for r
      using s'(5) r f2 [of r] unfolding sk by auto
    have kd: "pbufs s' (hd (kept (pbufs s) (q # qs))) =
         (pbufs s (hd (kept (pbufs s) (q # qs))))\<lparr>pref := pref (pbufs s (hd (kept (pbufs s) (q # qs)))) - 1\<rparr>"
      if "kept (pbufs s) (q # qs) \<noteq> []" using s'(6) that f2 [OF hk] unfolding sk by simp
    have bt: "bytes s' = bytes s" using s'(4) by (simp add: s2_def s1_def)
    show ?thesis using pc kp fr kd bt s'(2) by blast
  qed
qed

section \<open>Properties\<close>

text \<open>A chain of two buffers at 8 and 32 that hold \<open>aa\<close> and \<open>ab\<close>.\<close>

definition two_bufs :: "lwmem \<Rightarrow> u16 \<Rightarrow> u16 \<Rightarrow> net" where
  "two_bufs h r1 r2 =
    \<lparr>nheap = h,
     pbufs = (\<lambda>q. if q = 8 then \<lparr>nextp = 32, payload = 1000, tot_len = 4, plen = 2, ptype = PBUF_REF, pflags = 0, pref = r1,
                                 custom_free_function = 0\<rparr>
                  else \<lparr>nextp = 0, payload = 2000, tot_len = 2, plen = 2, ptype = PBUF_REF, pflags = 0, pref = r2,
                        custom_free_function = 0\<rparr>),
     bytes = (\<lambda>i. if i = 2001 then 98 else 97), pbuf_free_ooseq_pending = False, tcpip_mbox = []\<rparr>"

lemma two_bufs_props:
  "chain (pbufs (two_bufs h a b)) 8 [8, 32]" "tlen (pbufs (two_bufs h a b)) [8, 32] = 4" "tots (pbufs (two_bufs h a b)) [8, 32]"
  "content (two_bufs h a b) [8, 32] = [97, 97, 97, 98]" "apart (pbufs (two_bufs h a b)) [8, 32]"
  by (simp_all add: two_bufs_def blen_def data_def load_def apart_def span_def upt_rec)

text \<open>Copying out of a chain copies the bytes of the packet from the offset on, as many as asked for and there
  are, across any number of buffers, empty ones included, and returns their number.\<close>

theorem pbuf_copy_partial_slice:
  assumes "chain (pbufs s) buf qs" "tlen (pbufs s) qs < 65536" "buf \<noteq> NULL" "dataptr \<noteq> NULL"
  shows "pbuf_copy_partial buf dataptr len offset s =
    (let r = take (unat len) (drop (unat offset) (content s qs)) in Some (of_nat (length r), r))"
  using copy_partial_spec [OF assms(1), of 0 len offset "[]"] assms(2-4) by (simp add: pbuf_copy_partial_def Let_def)

theorem pbuf_copy_partial_slice_witness:
  "pbuf_copy_partial 8 5000 2 1 (two_bufs blank_heap 1 1) = Some (2, [97, 97])"
proof -
  note t = two_bufs_props [of blank_heap 1 1]
  show ?thesis using pbuf_copy_partial_slice [OF t(1), of 5000 2 1] unfolding t(2,4) by simp
qed

text \<open>\<^bold>\<open>C32\<close>. What is copied into a chain is what is copied out of it: \<open>pbuf_take\<close> of data the packet has room for
  succeeds, replaces the first bytes of the packet and no others, and \<open>pbuf_copy_partial\<close> gives the data back.\<close>

theorem pbuf_take_roundtrip:
  assumes "chain (pbufs s) buf qs" "tots (pbufs s) qs" "qs \<noteq> []" "apart (pbufs s) qs"
    and "length ds = unat len" "unat len \<le> unat (tot_len (pbufs s buf))" "dataptr \<noteq> NULL"
  shows "\<exists>s'. pbuf_take buf (Some ds) len s = Some (ERR_OK, s') \<and> pbufs s' = pbufs s \<and>
    content s' qs = ds @ drop (unat len) (content s qs) \<and> pbuf_copy_partial buf dataptr len 0 s' = Some (len, ds)"
proof -
  obtain q rs where qs: "qs = q # rs" using assms(3) by (cases qs) auto
  have b: "buf = q" "buf \<noteq> NULL" using assms(1) qs by auto
  have t: "unat (tot_len (pbufs s buf)) = tlen (pbufs s) qs" using assms(2) by (simp add: qs b)
  then have t6: "tlen (pbufs s) qs < 65536" using unat_lt_u16 [of "tot_len (pbufs s buf)"] by linarith
  have ex: "\<exists>s'. take_loop buf ds len 0 s = Some s' \<and> pbufs s' = pbufs s \<and> nheap s' = nheap s \<and>
      content s' qs = take (unat len) (drop (unat (0 :: u16)) ds) @ drop (unat len) (content s qs) \<and>
      (\<forall>i. (\<forall>q \<in> set qs. i \<notin> span (pbufs s) q) \<longrightarrow> bytes s' i = bytes s i)"
    by (rule take_loop_spec [OF assms(1) refl chain_distinct [OF assms(1)] assms(4)]) (use assms(5,6) t in simp_all)
  then obtain s' where s': "take_loop buf ds len 0 s = Some s'" "pbufs s' = pbufs s"
    "content s' qs = take (unat len) (drop (unat (0 :: u16)) ds) @ drop (unat len) (content s qs)" by blast
  have ct: "content s' qs = ds @ drop (unat len) (content s qs)" using s'(3) assms(5) by simp
  have "\<not> tot_len (pbufs s buf) < len" using assms(6) by (simp add: word_less_nat_alt)
  then have "pbuf_take buf (Some ds) len s = Some (ERR_OK, s')" using b(2) s'(1) by (simp add: pbuf_take_def)
  moreover have "pbuf_copy_partial buf dataptr len 0 s' = Some (len, ds)"
    using copy_partial_spec [of s' buf qs 0 len 0 "[]"] assms(1,5,7) s'(2) t6 b(2) unfolding ct
    by (simp add: pbuf_copy_partial_def Let_def)
  ultimately show ?thesis using s'(2) ct by blast
qed

theorem pbuf_take_roundtrip_witness:
  "\<exists>s'. pbuf_take 8 (Some [1, 2, 3]) 3 (two_bufs blank_heap 1 1) = Some (ERR_OK, s') \<and> content s' [8, 32] = [1, 2, 3, 98]"
proof -
  note t = two_bufs_props [of blank_heap 1 1]
  have "unat (3 :: u16) \<le> unat (tot_len (pbufs (two_bufs blank_heap 1 1) 8))" by (simp add: two_bufs_def)
  then show ?thesis
    using pbuf_take_roundtrip [OF t(1,3) _ t(5), of "[1, 2, 3]" 3 5000] unfolding t(4) by auto
qed



text \<open>\<^bold>\<open>C33\<close>. Reference counts: releasing a chain gives back to the heap the buffers at its head that nothing else refers
  to, takes one reference from the first one that stays, changes nothing else and returns the number of freed buffers.\<close>

theorem pbuf_free_releases:
  assumes "chain (pbufs s) p qs" "p \<noteq> NULL" "heap_bufs s qs ps bs"
  shows "\<exists>s' ps' bs'. pbuf_free cf p s = Some (of_nat (length (sole (pbufs s) qs)), s') \<and>
    granted ps' (nheap s') bs' \<and> fst ` set ps' = fst ` set ps - set (sole (pbufs s) qs) \<and>
    (\<forall>q. q \<notin> set (sole (pbufs s) qs) \<and> (kept (pbufs s) qs \<noteq> [] \<longrightarrow> q \<noteq> hd (kept (pbufs s) qs)) \<longrightarrow> pbufs s' q = pbufs s q) \<and>
    (kept (pbufs s) qs \<noteq> [] \<longrightarrow> pbufs s' (hd (kept (pbufs s) qs)) =
       (pbufs s (hd (kept (pbufs s) qs)))\<lparr>pref := pref (pbufs s (hd (kept (pbufs s) qs))) - 1\<rparr>)"
proof -
  have "pbuf_free cf p s = pbuf_free_loop cf p 0 s" using assms(2) by (simp add: pbuf_free_def)
  then show ?thesis using pbuf_free_loop_spec [OF assms(1,3), of cf 0] by (simp only: add_0) blast
qed

lemma two_granted: "\<exists>h bs. granted [(8, 16), (32, 16)] h bs"
proof -
  have r: "request 16 = 16" by (simp add: request_def align_size)
  obtain h0 where h0: "mem_ok h0 [(False, 12280)]" "ram h0 = 0" using mem_init_blocks [of 0 blank_heap] by (auto simp: int_align)
  have f0: "fit_at (request 16) 0 [(False, 12280)] = Some 0" by (simp add: r)
  obtain xs n ys h1 where x: "[(False, 12280)] = xs @ [(False, n)] @ ys" "0 = ext xs" "mem_ok h1 (xs @ carve 16 n @ ys)" "ram h1 = 0"
    using mem_malloc_blocks [OF h0(1), of 16] h0(2) unfolding f0 r by auto
  have "xs = [] \<and> n = 12280 \<and> ys = []" using x(1) by (cases xs) auto
  then have h1: "mem_ok h1 [(True, 16), (False, 12256)]" using x(3) by (simp add: carve_def)
  have f1: "fit_at (request 16) 0 [(True, 16), (False, 12256)] = Some 24" by (simp add: r)
  obtain xs n ys h2 where y: "[(True, 16), (False, 12256)] = xs @ [(False, n)] @ ys" "24 = ext xs" "mem_ok h2 (xs @ carve 16 n @ ys)" "ram h2 = 0"
    using mem_malloc_blocks [OF h1, of 16] x(4) unfolding f1 r by auto
  have "xs = [(True, 16)] \<and> n = 12256 \<and> ys = []" using y(1) by (cases xs; cases "tl xs") auto
  then have "mem_ok h2 [(True, 16), (True, 16), (False, 12232)]" using y(3) by (simp add: carve_def)
  then have "granted [(8, 16), (32, 16)] h2 [(True, 16), (True, 16), (False, 12232)]" by (auto simp: granted_def y(4) r)
  then show ?thesis by blast
qed

text \<open>Two buffers, the second with another reference: the first is freed.\<close>

theorem pbuf_free_releases_witness:
  "\<exists>h s' ps' bs'. pbuf_free (\<lambda>_ _ s. Some s) 8 (two_bufs h 1 2) = Some (1, s') \<and> pref (pbufs s' 32) = 1 \<and>
    granted ps' (nheap s') bs' \<and> fst ` set ps' = {32}"
proof -
  obtain h bs where g: "granted [(8, 16), (32, 16)] h bs" using two_granted by blast
  let ?s = "two_bufs h 1 2"
  have hb: "heap_bufs ?s [8, 32] [(8, 16), (32, 16)] bs" using g by (simp add: heap_bufs_def two_bufs_def)
  have sk: "sole (pbufs ?s) [8, 32] = [8]" "kept (pbufs ?s) [8, 32] = [32]" by (simp_all add: sole_def kept_def two_bufs_def)
  obtain s' ps' bs' where "pbuf_free (\<lambda>_ _ s. Some s) 8 ?s = Some (1, s')" "granted ps' (nheap s') bs'" "fst ` set ps' = {32}"
    "pbufs s' 32 = (pbufs ?s 32)\<lparr>pref := pref (pbufs ?s 32) - 1\<rparr>"
    using pbuf_free_releases [OF two_bufs_props(1) _ hb, of "\<lambda>_ _ s. Some s"] unfolding sk by auto
  then show ?thesis by (intro exI [of _ h] exI [of _ s'] exI [of _ ps'] exI [of _ bs']) (simp add: two_bufs_def)
qed

section \<open>Allocation\<close>

lemma ram_request:
  assumes "65465 \<le> unat len"
  shows "request (LWIP_MEM_ALIGN_SIZE (16 + 54) + LWIP_MEM_ALIGN_SIZE len) \<le> 72"
    "LWIP_MEM_ALIGN_SIZE (16 + 54) + LWIP_MEM_ALIGN_SIZE len \<noteq> 0"
proof -
  have h: "LWIP_MEM_ALIGN_SIZE (16 + 54) = 72"
    by (rule word_unat_eq_iff [THEN iffD2]) (simp add: align_size)
  define a where "a = LWIP_MEM_ALIGN_SIZE len"
  have a: "unat a = 0 \<or> 65468 \<le> unat a \<and> 4 dvd unat a"
    using assms by (auto simp: a_def align_size)
  have s: "unat (72 + a) = (72 + unat a) mod 65536" by (simp add: unat_word_ariths)
  have u: "unat (72 + a) = 72 \<or> unat (72 + a) = 72 + unat a - 65536 \<and> 65468 \<le> unat a \<and> 4 dvd unat a"
    using a s unat_lt_u16 [of a] by (auto simp: le_mod_geq simp del: unat_lt_u16)
  have r: "request (72 + a) \<le> 72"
    using u unat_lt_u16 [of a] by (auto simp: request_def align_size simp del: unat_lt_u16)
  have n: "72 + a \<noteq> 0" using u unat_lt_u16 [of a] by (auto simp: unat_eq_zero [symmetric] simp del: unat_lt_u16)
  show "request (LWIP_MEM_ALIGN_SIZE (16 + 54) + LWIP_MEM_ALIGN_SIZE len) \<le> 72"
    "LWIP_MEM_ALIGN_SIZE (16 + 54) + LWIP_MEM_ALIGN_SIZE len \<noteq> 0"
    using r n unfolding h a_def by simp_all
qed

text \<open>The size of a \<open>PBUF_RAM\<close> buffer wraps: for 65465 bytes and more with room for a transport header, the caller
  gets a buffer that claims its length in a block of fewer than 100 bytes.\<close>

theorem pbuf_alloc_ram_wraps:
  assumes "mem_ok (nheap s) bs" "(False, n) \<in> set bs" "72 \<le> n" "65465 \<le> unat len"
  shows "\<exists>p s' bs' m. pbuf_alloc cf PBUF_TRANSPORT len PBUF_RAM s = Some (p, s') \<and> p \<noteq> NULL \<and> plen (pbufs s' p) = len \<and>
    mem_ok (nheap s') bs' \<and> (p, m) \<in> set (live (ram (nheap s')) 0 bs') \<and> m < 100"
proof -
  let ?n = "LWIP_MEM_ALIGN_SIZE (16 + 54) + LWIP_MEM_ALIGN_SIZE len"
  note R = ram_request [OF assms(4)]
  have "fit_at (request ?n) 0 bs \<noteq> None" unfolding fit_at_None using assms(2,3) R(1) by fastforce
  then obtain k where k: "fit_at (request ?n) 0 bs = Some k" by blast
  obtain as m cs h' where x: "k = ext as" "request ?n \<le> m" "mem_malloc ?n (nheap s) = Some (ram (nheap s) + int k + 8, h')"
    "mem_ok h' (as @ carve (request ?n) m @ cs)" "ram h' = ram (nheap s)"
    using mem_malloc_blocks [OF assms(1) R(2)] unfolding k by auto
  obtain c where c: "live (ram (nheap s)) k (carve (request ?n) m) = [(ram (nheap s) + int k + 8, c)]" "c < request ?n + 20"
    using live_carve [OF x(2), of "ram (nheap s)" k] by auto
  let ?p = "ram (nheap s) + int k + 8"
  have p: "?p \<noteq> NULL" using assms(1) by (simp add: mem_ok_def)
  have "layer_offset PBUF_TRANSPORT = 54" by (simp add: layer_offset_def)
  then obtain s' where s': "pbuf_alloc cf PBUF_TRANSPORT len PBUF_RAM s = Some (?p, s')" "plen (pbufs s' ?p) = len" "nheap s' = h'"
    using p x(3) by (simp add: pbuf_alloc_def n_malloc_def Let_def int_align)
  have "(?p, c) \<in> set (live (ram h') 0 (as @ carve (request ?n) m @ cs))" using c x(1,5) by simp
  then show ?thesis using s' p x(4) c(2) R(1)
    by (intro exI [of _ ?p] exI [of _ s'] exI [of _ "as @ carve (request ?n) m @ cs"] exI [of _ c]) simp
qed

theorem pbuf_alloc_ram_wraps_witness:
  "\<exists>p s' bs' m. pbuf_alloc (\<lambda>_ _ s. Some s) PBUF_TRANSPORT 65500 PBUF_RAM (two_bufs (mem_init 0 blank_heap) 0 0) = Some (p, s') \<and>
    p \<noteq> NULL \<and> plen (pbufs s' p) = 65500 \<and> mem_ok (nheap s') bs' \<and> (p, m) \<in> set (live (ram (nheap s')) 0 bs') \<and> m < 100"
proof (rule pbuf_alloc_ram_wraps [where n = 12280])
  show "mem_ok (nheap (two_bufs (mem_init 0 blank_heap) 0 0)) [(False, 12280)]" using mem_init_blocks by (simp add: two_bufs_def)
qed simp_all

text \<open>The flags of the head of a pool chain are set only at the end of the allocation. When the pool runs out in the
  middle, the chain so far is released by the flags that an earlier use of the block left there: if they say custom
  buffer, the pointer of that use is called.\<close>

theorem pbuf_alloc_stale_flags:
  assumes "n_malloc MEMP_SIZE_PBUF_POOL s = Some (p, s1)" "p \<noteq> NULL" "pbuf_free_ooseq_pending s1"
    and "pflags (pbufs s1 p) AND PBUF_FLAG_IS_CUSTOM \<noteq> 0" "1516 < unat len" "4 dvd p" "custom_free_function (pbufs s1 p) \<noteq> NULL"
    and full: "\<And>f. n_malloc MEMP_SIZE_PBUF_POOL (upd_p p f s1) = Some (NULL, upd_p p f s1)"
  shows "\<exists>s2. pbuf_alloc cf PBUF_RAW len PBUF_POOL s =
    map_option (\<lambda>s. (NULL, s)) (cf (custom_free_function (pbufs s1 p)) p s2)"
proof -
  define g where "g = (\<lambda>b. b\<lparr>ptype := PBUF_POOL, nextp := NULL,
    payload := LWIP_MEM_ALIGN (p + (uint SIZEOF_STRUCT_PBUF + uint (0 :: u16))), tot_len := len, plen := 1516, pref := 1\<rparr> :: pbuf)"
  have l: "min len (PBUF_POOL_BUFSIZE_ALIGNED - LWIP_MEM_ALIGN_SIZE 0) = 1516"
    using assms(5) by (simp add: LWIP_MEM_ALIGN_SIZE_def min_def word_le_nat_alt)
  have r: "0 < len - 1516" using assms(5) by (simp add: word_less_nat_alt unat_sub word_le_nat_alt)
  define s2 where "s2 = upd_p p (\<lambda>b. b\<lparr>pref := 0\<rparr>) (upd_p p g s1)"
  have pe: "pbuf_pool_is_empty (upd_p p g s1) = Some (upd_p p g s1)"
    using assms(3) by (simp add: pbuf_pool_is_empty_def Let_def)
  have fr: "pbuf_free cf p (upd_p p g s1) = map_option (\<lambda>s. (1, s)) (cf (custom_free_function (pbufs s1 p)) p s2)"
  proof -
    have n: "pbuf_free_loop cf NULL 1 t = Some (1, t)" for t by (subst pbuf_free_loop.simps) simp
    show ?thesis unfolding pbuf_free_def
      by (subst pbuf_free_loop.simps) (use assms(2,4,7) in \<open>simp add: Let_def s2_def g_def n split: option.splits\<close>)
  qed
  have pl: "LWIP_MEM_ALIGN (p + 16) = p + 16" "(p + 16) mod 4 = 0" using assms(6) unfolding int_align by presburger+
  have pr: "pool_rest cf p p (len - 1516) (upd_p p g s1) =
      map_option (\<lambda>(_, s). (False, s)) (map_option (\<lambda>s. (1 :: u8, s)) (cf (custom_free_function (pbufs s1 p)) p s2))"
    using r full [of g] pe fr by (subst pool_rest.simps) simp
  have "pbuf_alloc cf PBUF_RAW len PBUF_POOL s =
      (case pool_rest cf p p (len - 1516) (upd_p p g s1) of None \<Rightarrow> None
       | Some (ok, s) \<Rightarrow> if ok then Some (p, upd_p p (\<lambda>b. b\<lparr>pref := 1, pflags := 0\<rparr>) s) else Some (NULL, s))"
    using assms(1,2) l pl by (simp add: pbuf_alloc_def layer_offset_def Let_def g_def del: pool_rest.simps)
  then show ?thesis unfolding pr by (intro exI [of _ s2]) (simp add: option.map_comp split: option.splits)
qed

end
