(* ===== verification/InetSum.thy ===== *)
theory InetSum imports PbufProps begin

text \<open>
  The Internet checksum over chains of buffers, the rest of \<open>lwip/src/core/ipv4/inet_chksum.c\<close>, with the byte order
  functions of \<open>lwip/src/core/def.c\<close> it uses; and its value, the one's complement sum of the bytes of the packet.
\<close>

unbundle bit_operations_syntax

section \<open>Byte order\<close>

definition lwip_htons :: "u16 \<Rightarrow> u16" where
  "lwip_htons n = push_bit 8 (n AND 0xff) OR drop_bit 8 (n AND 0xff00)"

definition lwip_ntohs :: "u16 \<Rightarrow> u16" where
  "lwip_ntohs n = lwip_htons n"

definition lwip_htonl :: "u32 \<Rightarrow> u32" where
  "lwip_htonl n = push_bit 24 (n AND 0xff) OR push_bit 8 (n AND 0xff00) OR drop_bit 8 (n AND 0xff0000) OR
    drop_bit 24 (n AND 0xff000000)"

definition lwip_ntohl :: "u32 \<Rightarrow> u32" where
  "lwip_ntohl n = lwip_htonl n"

section \<open>Sums over chains\<close>

text \<open>The loop over the buffers: the sum so far and whether its bytes are swapped.\<close>

partial_function (option) chksum_loop :: "addr \<Rightarrow> u32 \<Rightarrow> u8 \<Rightarrow> net \<Rightarrow> (u32 \<times> u8) option" where
  "chksum_loop q acc swapped s =
    (if q = NULL then Some (acc, swapped)
     else let acc = acc + ucast (lwip_standard_chksum (payload (pbufs s q)) (load (payload (pbufs s q)) (unat (plen (pbufs s q))) s));
              acc = FOLD_U32T acc
          in if plen (pbufs s q) mod 2 \<noteq> 0
             then chksum_loop (nextp (pbufs s q)) (SWAP_BYTES_IN_WORD acc) (1 - swapped) s
             else chksum_loop (nextp (pbufs s q)) acc swapped s)"

definition inet_chksum_pbuf :: "addr \<Rightarrow> net \<Rightarrow> u16 option" where
  "inet_chksum_pbuf p s =
    (case chksum_loop p 0 0 s of None \<Rightarrow> None
     | Some (acc, swapped) \<Rightarrow>
         let acc = (if swapped \<noteq> 0 then SWAP_BYTES_IN_WORD acc else acc)
         in Some (ucast (NOT (acc AND 0xffff))))"

text \<open>The end of both sums with a pseudo header.\<close>

definition pseudo_end :: "u32 \<Rightarrow> u8 \<Rightarrow> u32 \<Rightarrow> u32 \<Rightarrow> u8 \<Rightarrow> u16 \<Rightarrow> u16" where
  "pseudo_end acc swapped src dest proto proto_len =
    (let acc = (if swapped \<noteq> 0 then SWAP_BYTES_IN_WORD acc else acc);
         acc = acc + (src AND 0xffff);
         acc = acc + (drop_bit 16 src AND 0xffff);
         acc = acc + (dest AND 0xffff);
         acc = acc + (drop_bit 16 dest AND 0xffff);
         acc = acc + ucast (lwip_htons (ucast proto));
         acc = acc + ucast (lwip_htons proto_len);
         acc = FOLD_U32T acc;
         acc = FOLD_U32T acc
     in ucast (NOT (acc AND 0xffff)))"

definition inet_chksum_pseudo :: "addr \<Rightarrow> u32 \<Rightarrow> u32 \<Rightarrow> u8 \<Rightarrow> u16 \<Rightarrow> net \<Rightarrow> u16 option" where
  "inet_chksum_pseudo p src dest proto proto_len s =
    (case chksum_loop p 0 0 s of None \<Rightarrow> None
     | Some (acc, swapped) \<Rightarrow> Some (pseudo_end acc swapped src dest proto proto_len))"

text \<open>The loop that covers at most \<open>chksum_len\<close> bytes.\<close>

partial_function (option) partial_loop :: "addr \<Rightarrow> u32 \<Rightarrow> u8 \<Rightarrow> u16 \<Rightarrow> net \<Rightarrow> (u32 \<times> u8) option" where
  "partial_loop q acc swapped chksum_len s =
    (if q \<noteq> NULL \<and> chksum_len > 0
     then let chklen = (if plen (pbufs s q) > chksum_len then chksum_len else plen (pbufs s q));
              acc = acc + ucast (lwip_standard_chksum (payload (pbufs s q)) (load (payload (pbufs s q)) (unat chklen) s));
              chksum_len = chksum_len - chklen;
              acc = FOLD_U32T acc
          in if \<not> chksum_len < 0x7fff then None
             else if plen (pbufs s q) mod 2 \<noteq> 0
             then partial_loop (nextp (pbufs s q)) (SWAP_BYTES_IN_WORD acc) (1 - swapped) chksum_len s
             else partial_loop (nextp (pbufs s q)) acc swapped chksum_len s
     else Some (acc, swapped))"

definition inet_chksum_pseudo_partial :: "addr \<Rightarrow> u32 \<Rightarrow> u32 \<Rightarrow> u8 \<Rightarrow> u16 \<Rightarrow> u16 \<Rightarrow> net \<Rightarrow> u16 option" where
  "inet_chksum_pseudo_partial p src dest proto proto_len chksum_len s =
    (case partial_loop p 0 0 chksum_len s of None \<Rightarrow> None
     | Some (acc, swapped) \<Rightarrow> Some (pseudo_end acc swapped src dest proto proto_len))"


section \<open>The value of the sums\<close>

lemma ones_sum_rot: "ones_sum (rot n (ones_sum a)) = ones_sum (rot n a)"
  using ones_sum_mult [of a] by (simp add: rot_def ones_sum_id ones_sum_props(1))

lemma ones_sum_plus: "ones_sum (ones_sum a + ones_sum b) = ones_sum (a + b)"
  using ones_sum_add [of a "ones_sum b"] ones_sum_add [of b a] by (simp add: add.commute)

lemma ones_sum_65536: "ones_sum (65536 * a + b) = ones_sum (a + b)"
proof (rule ones_sum_cong)
  have "65536 * a + b = a + b + 65535 * a" by simp
  then show "(65536 * a + b) mod 65535 = (a + b) mod 65535" by (metis mod_mult_self2)
qed simp

text \<open>A block behind another, both with their bytes where the parity of what is in front puts them.\<close>

lemma rot_append:
  "ones_sum (rot (length xs + m) (words_sum (xs @ ds))) =
    ones_sum (rot m (rot (length xs) (words_sum xs) + words_sum ds))" (is "?l = ?r")
proof -
  have "?l = ones_sum (rot (length xs + m) (words_sum xs + rot (length xs) (words_sum ds)))"
    using words_sum_append [of xs ds] by (metis ones_sum_rot)
  also have "\<dots> = ?r"
    using ones_sum_65536 [of "words_sum ds" "256 * words_sum xs"] ones_sum_65536 [of "words_sum xs" "256 * words_sum ds"]
    by (cases "odd (length xs)"; cases "odd m") (simp_all add: rot_def algebra_simps)
  finally show ?thesis .
qed

text \<open>What the loops have after the bytes \<open>xs\<close>.\<close>

definition summed :: "u8 list \<Rightarrow> u32 \<Rightarrow> u8 \<Rightarrow> bool" where
  "summed xs acc swapped \<longleftrightarrow> unat acc = ones_sum (rot (length xs) (words_sum xs)) \<and> swapped = (if odd (length xs) then 1 else 0)"

lemma unat_sum16: "unat (ucast (w :: u16) :: u32) = unat w"
  using unat_lt_u16 [of w] by (simp add: unsigned_ucast_eq unsigned_take_bit_eq take_bit_eq_mod del: unat_lt_u16)

lemma fold_sum:
  assumes "unat acc \<le> 65535" "length ds < 65536"
  shows "unat (FOLD_U32T (acc + ucast (lwip_standard_chksum a ds))) = ones_sum (unat acc + words_sum ds)"
proof -
  have c: "unat (ucast (lwip_standard_chksum a ds) :: u32) = ones_sum (words_sum ds)"
    using unat_chksum [OF assms(2)] by (simp add: unat_sum16)
  then have u: "unat (acc + ucast (lwip_standard_chksum a ds)) = unat acc + ones_sum (words_sum ds)"
    using assms(1) ones_sum_props(1) [of "words_sum ds"] by (simp add: unat_add_lem [THEN iffD1])
  have "unat acc + ones_sum (words_sum ds) \<le> 131070" using assms(1) ones_sum_props(1) [of "words_sum ds"] by linarith
  then show ?thesis using fold_once [of "acc + ucast (lwip_standard_chksum a ds)"] u ones_sum_add [of "words_sum ds" "unat acc"]
    by (simp add: add.commute)
qed

text \<open>One buffer, summed and, if its length is odd, swapped.\<close>

lemma summed_step:
  assumes "summed xs acc sw" "length ds < 65536"
  shows "summed (xs @ ds)
    (if odd (length ds) then SWAP_BYTES_IN_WORD (FOLD_U32T (acc + ucast (lwip_standard_chksum a ds)))
     else FOLD_U32T (acc + ucast (lwip_standard_chksum a ds)))
    (if odd (length ds) then 1 - sw else sw)"
proof -
  let ?f = "FOLD_U32T (acc + ucast (lwip_standard_chksum a ds))"
  have a: "unat acc = ones_sum (rot (length xs) (words_sum xs))" using assms(1) by (simp add: summed_def)
  have f: "unat ?f = ones_sum (rot (length xs) (words_sum xs) + words_sum ds)"
    using fold_sum [OF _ assms(2), of acc a] ones_sum_props(1) a by (simp add: ones_sum_add)
  have "unat (if odd (length ds) then SWAP_BYTES_IN_WORD ?f else ?f) =
      ones_sum (rot (length ds) (rot (length xs) (words_sum xs) + words_sum ds))"
    using swap_ones [of ?f] f ones_sum_props(1) by (simp add: rot_def ones_sum_mult)
  then show ?thesis using assms(1) unfolding summed_def by (auto simp: rot_append)
qed

definition final_sum :: "u32 \<Rightarrow> u8 \<Rightarrow> u32" where
  "final_sum acc swapped = (if swapped \<noteq> 0 then SWAP_BYTES_IN_WORD acc else acc)"

lemma summed_final: "summed xs acc sw \<Longrightarrow> unat (final_sum acc sw) = ones_sum (words_sum xs)"
  using swap_ones [of acc] ones_sum_props(1) [of "256 * words_sum xs"] ones_sum_rotate2 [of "words_sum xs"]
  by (auto simp: summed_def final_sum_def rot_def ones_sum_mult)

lemma odd_plen: "plen b mod 2 \<noteq> 0 \<longleftrightarrow> odd (unat (plen b))"
  by (simp add: unat_eq_zero [symmetric] unat_mod odd_iff_mod_2_eq_one del: unat_eq_zero)

lemma chksum_loop_spec:
  "chain (pbufs s) p qs \<Longrightarrow> summed xs acc sw \<Longrightarrow>
    \<exists>acc' sw'. chksum_loop p acc sw s = Some (acc', sw') \<and> summed (xs @ content s qs) acc' sw'"
proof (induction "pbufs s" p qs arbitrary: xs acc sw rule: chain.induct)
  case (1 p)
  then show ?case by (subst chksum_loop.simps) auto
next
  case (2 p q qs)
  have c: "chain (pbufs s) (nextp (pbufs s p)) qs" and p: "p = q" "p \<noteq> NULL" using 2(2) by auto
  have d: "load (payload (pbufs s p)) (unat (plen (pbufs s p))) s = data s q" by (simp add: data_def blen_def p(1))
  have l: "length (data s q) < 65536" by (simp add: blen_def)
  have o: "plen (pbufs s p) mod 2 \<noteq> 0 \<longleftrightarrow> odd (length (data s q))" by (simp only: odd_plen length_data blen_def p(1))
  note S = summed_step [OF 2(3) l, of "payload (pbufs s p)"]
  show ?case
    using 2(1) [OF c S] o by (cases "odd (length (data s q))"; subst chksum_loop.simps; simp add: p(2) d Let_def)
qed

lemma partial_loop_spec:
  "chain (pbufs s) p qs \<Longrightarrow> summed xs acc sw \<Longrightarrow> n < 0x7fff \<Longrightarrow>
    \<exists>acc' sw'. partial_loop p acc sw n s = Some (acc', sw') \<and>
      unat (final_sum acc' sw') = ones_sum (words_sum (xs @ take (unat n) (content s qs)))"
proof (induction "pbufs s" p qs arbitrary: xs acc sw n rule: chain.induct)
  case (1 p)
  then show ?case by (subst partial_loop.simps) (auto simp: summed_final)
next
  case (2 p q qs)
  have c: "chain (pbufs s) (nextp (pbufs s p)) qs" and p: "p = q" "p \<noteq> NULL" using 2(2) by auto
  have o: "plen (pbufs s p) mod 2 \<noteq> 0 \<longleftrightarrow> odd (length (data s q))" by (simp only: odd_plen length_data blen_def p(1))
  show ?case
  proof (cases "n = 0")
    case True
    then show ?thesis using 2(3) by (subst partial_loop.simps) (auto simp: summed_final)
  next
    case False
    then have n: "n > 0" by (simp add: word_gt_0)
    show ?thesis
    proof (cases "plen (pbufs s p) > n")
      case False
      have d: "load (payload (pbufs s p)) (unat (plen (pbufs s p))) s = data s q" by (simp add: data_def blen_def p(1))
      have l: "length (data s q) < 65536" by (simp add: blen_def)
      note S = summed_step [OF 2(3) l, of "payload (pbufs s p)"]
      have u: "unat (n - plen (pbufs s p)) = unat n - blen (pbufs s) q" "blen (pbufs s) q \<le> unat n"
        using False by (simp_all add: blen_def p(1) unat_sub word_le_nat_alt not_less)
      have "take (unat n) (content s (q # qs)) = data s q @ take (unat (n - plen (pbufs s p))) (content s qs)" using u by simp
      moreover have "n - plen (pbufs s p) < 0x7fff" using u(1) 2(4) by (simp add: word_less_nat_alt)
      ultimately show ?thesis
        using 2(1) [OF c S, of "n - plen (pbufs s p)"] o False n
        by (cases "odd (length (data s q))"; subst partial_loop.simps; simp add: p(2) d Let_def)
    next
      case True
      let ?d = "take (unat n) (data s q)"
      have d: "load (payload (pbufs s p)) (unat n) s = ?d"
        using take_drop_load [of 0 "unat n" "blen (pbufs s) q" "payload (pbufs s q)" s] True
        by (simp add: data_def blen_def p(1) word_less_nat_alt)
      have "length ?d \<le> blen (pbufs s) q" by simp
      then have l: "length ?d < 65536" using unat_lt_u16 [of "plen (pbufs s q)"] unfolding blen_def by linarith
      let ?f = "FOLD_U32T (acc + ucast (lwip_standard_chksum (payload (pbufs s p)) ?d))"
      have e: "partial_loop r a w 0 s = Some (a, w)" for r a w by (subst partial_loop.simps) simp
      have a: "unat acc = ones_sum (rot (length xs) (words_sum xs))" "sw = (if odd (length xs) then 1 else 0)"
        using 2(3) by (simp_all add: summed_def)
      have f: "unat ?f = ones_sum (rot (length xs) (words_sum xs) + words_sum ?d)"
        using fold_sum [OF _ l, of acc "payload (pbufs s p)"] ones_sum_props(1) a by (simp add: ones_sum_add)
      have f1: "unat (SWAP_BYTES_IN_WORD ?f) = ones_sum (256 * (rot (length xs) (words_sum xs) + words_sum ?d))"
        using swap_ones [of ?f] f ones_sum_props(1) by (simp add: ones_sum_mult)
      have f2: "unat (SWAP_BYTES_IN_WORD (SWAP_BYTES_IN_WORD ?f)) = ones_sum (rot (length xs) (words_sum xs) + words_sum ?d)"
        using swap_ones [of "SWAP_BYTES_IN_WORD ?f"] ones_sum_props(1) unfolding f1 by (simp only: ones_sum_mult ones_sum_rotate2)
      have w: "ones_sum (words_sum (xs @ ?d)) = ones_sum (rot (length xs) (rot (length xs) (words_sum xs) + words_sum ?d))"
        using rot_append [of xs "length xs" ?d] by (simp add: rot_def)
      have t: "take (unat n) (content s (q # qs)) = ?d" using True by (simp add: blen_def p(1) word_less_nat_alt)
      have "unat (final_sum (if plen (pbufs s p) mod 2 \<noteq> 0 then SWAP_BYTES_IN_WORD ?f else ?f)
          (if plen (pbufs s p) mod 2 \<noteq> 0 then 1 - sw else sw)) = ones_sum (words_sum (xs @ ?d))"
        unfolding w using f f1 f2 a(2) by (auto simp: final_sum_def rot_def)
      then show ?thesis unfolding t using True n e
        by (cases "plen (pbufs s p) mod 2 = 0"; subst partial_loop.simps; simp add: p(2) d Let_def)
    qed
  qed
qed


section \<open>Pseudo headers\<close>

text \<open>Twelve bytes in network order: the addresses, zero, the protocol and the length.\<close>

definition pseudo_header :: "u32 \<Rightarrow> u32 \<Rightarrow> u8 \<Rightarrow> u16 \<Rightarrow> u8 list" where
  "pseudo_header src dest proto len = le32_bytes src @ le32_bytes dest @ [0, proto, ucast (drop_bit 8 len), ucast len]"

lemma length_pseudo [simp]: "length (pseudo_header src dest proto len) = 12"
  by (simp add: pseudo_header_def)

lemma unat_byte16: "unat (ucast (w :: u16) :: u8) = unat w mod 256" "unat (ucast (drop_bit 8 (w :: u16)) :: u8) = unat w div 256"
proof -
  show "unat (ucast w :: u8) = unat w mod 256" by (simp add: unsigned_ucast_eq unsigned_take_bit_eq take_bit_eq_mod)
  have "unat w div 256 < 256" using unat_lt_u16 [of w] by linarith
  then show "unat (ucast (drop_bit 8 w) :: u8) = unat w div 256"
    by (simp add: unsigned_ucast_eq unsigned_take_bit_eq take_bit_eq_mod drop_bit_eq_div unat_div)
qed

lemma htons_swap: "ucast (lwip_htons n) = SWAP_BYTES_IN_WORD (ucast n)"
proof (rule bit_word_eqI)
  have m: "(0xff :: u16) = mask 8" "(0xff00 :: u16) = push_bit 8 (mask 8)" "(0xff :: u32) = mask 8" "(0xff00 :: u32) = push_bit 8 (mask 8)"
    by (simp_all add: mask_eq_exp_minus_1)
  fix i assume "i < LENGTH(32)"
  then show "bit (ucast (lwip_htons n) :: u32) i \<longleftrightarrow> bit (SWAP_BYTES_IN_WORD (ucast n)) i"
    using bit_imp_le_length [of n i] bit_imp_le_length [of n "i - 8"] bit_imp_le_length [of n "8 + i"]
    unfolding lwip_htons_def SWAP_BYTES_IN_WORD_def m by (auto simp: bit_simps)
qed

lemma unat_htons: "unat (lwip_htons n) = 256 * (unat n mod 256) + unat n div 256"
proof -
  have "unat n div 256 < 256" using unat_lt_u16 [of n] by linarith
  then have "unat (SWAP_BYTES_IN_WORD (ucast n)) = 256 * (unat n mod 256) + unat n div 256" by (simp add: unat_SWAP unat_sum16)
  then show ?thesis by (simp only: flip: unat_sum16 htons_swap)
qed

lemma unat_low16: "unat (w AND 0xffff :: u32) = unat w mod 65536" "unat (drop_bit 16 w AND 0xffff :: u32) = unat w div 65536"
proof -
  have m: "(65535 :: u32) = mask 16" by (simp add: mask_eq_exp_minus_1)
  show l: "unat (w AND 0xffff :: u32) = unat w mod 65536" for w :: u32
    unfolding m take_bit_eq_mask [symmetric] by (simp only: unsigned_take_bit_eq) (simp add: take_bit_eq_mod)
  have "unat w div 65536 < 65536" using unat_lt_u32 [of w] by linarith
  then show "unat (drop_bit 16 w AND 0xffff :: u32) = unat w div 65536" by (simp add: l drop_bit_eq_div unat_div)
qed

lemma words_sum_le32: "words_sum (le32_bytes w @ bs) = unat w mod 65536 + unat w div 65536 + words_sum bs"
proof -
  have b: "unat (ucast w :: u8) = unat w mod 256" "unat (ucast (drop_bit 8 w) :: u8) = unat w div 256 mod 256"
    "unat (ucast (drop_bit 16 w) :: u8) = unat w div 65536 mod 256" "unat (ucast (drop_bit 24 w) :: u8) = unat w div 16777216 mod 256"
    by (simp_all add: unsigned_ucast_eq unsigned_take_bit_eq take_bit_eq_mod drop_bit_eq_div unat_div)
  have "unat w mod 256 + 256 * (unat w div 256 mod 256) = unat w mod 65536"
    using mod_mult2_eq [of "unat w" 256 256] by simp
  moreover have "unat w div 65536 mod 256 + 256 * (unat w div 16777216 mod 256) = unat w div 65536"
  proof -
    have "unat w div 16777216 < 256" using unat_lt_u32 [of w] by linarith
    moreover have "unat w div 65536 div 256 = unat w div 16777216" by (simp add: div_mult2_eq [symmetric])
    ultimately show ?thesis using mod_mult_div_eq [of "unat w div 65536" 256] by simp
  qed
  ultimately show ?thesis using b by (simp add: le32_bytes_def algebra_simps)
qed

lemma words_sum_pseudo:
  "words_sum (pseudo_header src dest proto len @ bs) = unat src mod 65536 + unat src div 65536 + (unat dest mod 65536 + unat dest div 65536) +
    256 * unat proto + (unat len div 256 + 256 * (unat len mod 256)) + words_sum bs"
proof -
  have e: "pseudo_header src dest proto len @ bs = le32_bytes src @ (le32_bytes dest @ ([0, proto, ucast (drop_bit 8 len), ucast len] @ bs))"
    by (simp add: pseudo_header_def)
  have "unat len div 256 < 256" using unat_lt_u16 [of len] by linarith
  then have d: "unat (drop_bit 8 len) mod 256 = unat len div 256" by (simp add: drop_bit_eq_div unat_div)
  show ?thesis unfolding e words_sum_le32 by (simp add: unat_byte16 d)
qed

lemma unat_not_low: "unat (ucast (NOT (w AND 0xffff) :: u32) :: u16) = 65535 - unat w mod 65536"
proof -
  have m: "(65535 :: u32) = mask 16" by (simp add: mask_eq_exp_minus_1)
  have "(ucast (NOT (w AND 0xffff)) :: u16) = NOT (ucast w)"
    unfolding m by (rule bit_word_eqI) (auto simp: bit_simps)
  then show ?thesis by (simp add: unat_not16 unsigned_ucast_eq unsigned_take_bit_eq take_bit_eq_mod)
qed

lemma pseudo_end_spec:
  assumes "unat (final_sum acc sw) = ones_sum (words_sum bs)"
  shows "unat (pseudo_end acc sw src dest proto len) = 65535 - ones_sum (words_sum (pseudo_header src dest proto len @ bs))"
proof -
  let ?a = "final_sum acc sw"
  let ?t = "?a + (src AND 0xffff) + (drop_bit 16 src AND 0xffff) + (dest AND 0xffff) + (drop_bit 16 dest AND 0xffff) +
    ucast (lwip_htons (ucast proto)) + ucast (lwip_htons len)"
  have b: "unat ?a \<le> 65535" using assms ones_sum_props(1) by simp
  have p: "unat (ucast proto :: u16) = unat proto"
    using unat_lt_u8 [of proto] by (simp add: unsigned_ucast_eq unsigned_take_bit_eq take_bit_eq_mod del: unat_lt_u8)
  have h: "unat (lwip_htons (ucast proto)) = 256 * unat proto"
    "unat (lwip_htons len) = 256 * (unat len mod 256) + unat len div 256"
    using unat_lt_u8 [of proto] by (simp_all add: unat_htons p unat_sum16 del: unat_lt_u8)
  have q: "unat src div 65536 < 65536" "unat dest div 65536 < 65536" "unat len div 256 < 256" "unat proto < 256"
    using unat_lt_u32 [of src] unat_lt_u32 [of dest] unat_lt_u16 [of len] unat_lt_u8 [of proto] by linarith+
  have m: "unat src mod 65536 < 65536" "unat dest mod 65536 < 65536" "unat len mod 256 < 256" by simp_all
  have t: "unat ?t = unat ?a + (unat src mod 65536 + unat src div 65536 + (unat dest mod 65536 + unat dest div 65536) +
    256 * unat proto + (256 * (unat len mod 256) + unat len div 256))"
  proof -
    have "unat (x1 + x2 + x3 + x4 + x5 + x6 + x7) = unat x1 + unat x2 + unat x3 + unat x4 + unat x5 + unat x6 + unat x7"
      if "unat x1 + unat x2 + unat x3 + unat x4 + unat x5 + unat x6 + unat x7 < 4294967296" for x1 x2 x3 x4 x5 x6 x7 :: u32
      using that by (simp add: unat_word_ariths mod_add_left_eq)
    note S = this [of ?a "src AND 0xffff" "drop_bit 16 src AND 0xffff" "dest AND 0xffff" "drop_bit 16 dest AND 0xffff"
      "ucast (lwip_htons (ucast proto))" "ucast (lwip_htons len)", unfolded unat_low16(2), unfolded unat_low16(1) unat_sum16 h]
    show ?thesis by (rule trans [OF S]) (use b q m in linarith, simp)
  qed
  have e: "unat (FOLD_U32T (FOLD_U32T ?t)) = ones_sum (words_sum (pseudo_header src dest proto len @ bs))"
    unfolding fold_twice t assms ones_sum_add words_sum_pseudo by (simp add: ac_simps)
  have "pseudo_end acc sw src dest proto len = ucast (NOT (FOLD_U32T (FOLD_U32T ?t) AND 0xffff))"
    unfolding pseudo_end_def final_sum_def [symmetric] Let_def ..
  moreover have "ones_sum n mod 65536 = ones_sum n" for n using ones_sum_props(1) [of n] by simp
  ultimately show ?thesis using e by (simp only: unat_not_low)
qed


section \<open>Properties\<close>

lemma summed_Nil: "summed [] 0 0"
  by (simp add: summed_def rot_def ones_sum_def)

text \<open>The checksum over a chain of buffers is that of the bytes of the packet, however these are divided into buffers
  of even and odd lengths at even and odd addresses.\<close>

theorem inet_chksum_pbuf_content:
  assumes "chain (pbufs s) p qs"
  shows "\<exists>c. inet_chksum_pbuf p s = Some c \<and> unat c = 65535 - ones_sum (words_sum (content s qs))"
proof -
  obtain acc sw where l: "chksum_loop p 0 0 s = Some (acc, sw)" "summed (content s qs) acc sw"
    using chksum_loop_spec [OF assms summed_Nil] by auto
  have f: "unat (final_sum acc sw) = ones_sum (words_sum (content s qs))" using summed_final [OF l(2)] .
  have "inet_chksum_pbuf p s = Some (ucast (NOT (final_sum acc sw AND 0xffff)))"
    by (simp add: inet_chksum_pbuf_def l(1) final_sum_def Let_def)
  moreover have "unat (ucast (NOT (final_sum acc sw AND 0xffff)) :: u16) = 65535 - ones_sum (words_sum (content s qs))"
    using ones_sum_props(1) [of "words_sum (content s qs)"] by (simp only: unat_not_low f) simp
  ultimately show ?thesis by blast
qed

theorem inet_chksum_pbuf_content_witness:
  "\<exists>c. inet_chksum_pbuf 8 (two_bufs blank_heap 1 1) = Some c \<and> unat c = 65535 - ones_sum (words_sum [97, 97, 97, 98])"
  using inet_chksum_pbuf_content [OF two_bufs_props(1)] unfolding two_bufs_props(4) .



end
