(* ===== verification/IpAddr.thy ===== *)
theory IpAddr imports InetSum begin

text \<open>
  IPv4 addresses as text and as words, \<open>lwip/src/core/ipv4/ip_addr.c\<close>: parsing, printing, broadcast addresses and
  netmasks. A string is the list of its bytes before the terminating NUL. Addresses are in network order: the four bytes
  in memory, the first the most significant, of a word of the little-endian target.
\<close>

unbundle bit_operations_syntax

section \<open>Broadcast addresses and netmasks\<close>

text \<open>What is read of a network interface.\<close>

record netif =
  nif_ip_addr :: u32
  nif_netmask :: u32
  nif_flags :: u8

abbreviation (input) "IPADDR_ANY \<equiv> (0 :: u32)"
abbreviation (input) "IPADDR_BROADCAST \<equiv> (0xffffffff :: u32)"
abbreviation (input) "IPADDR_NONE \<equiv> (0xffffffff :: u32)"
abbreviation (input) "NETIF_FLAG_BROADCAST \<equiv> (0x02 :: u8)"

definition ip_addr_netcmp :: "u32 \<Rightarrow> u32 \<Rightarrow> u32 \<Rightarrow> bool" where
  "ip_addr_netcmp addr1 addr2 m \<longleftrightarrow> addr1 AND m = addr2 AND m"

definition ip4_addr_isbroadcast :: "u32 \<Rightarrow> netif \<Rightarrow> bool" where
  "ip4_addr_isbroadcast addr netif =
    (if NOT addr = IPADDR_ANY \<or> addr = IPADDR_ANY then True
     else if nif_flags netif AND NETIF_FLAG_BROADCAST = 0 then False
     else if addr = nif_ip_addr netif then False
     else if ip_addr_netcmp addr (nif_ip_addr netif) (nif_netmask netif) \<and>
             addr AND NOT (nif_netmask netif) = IPADDR_BROADCAST AND NOT (nif_netmask netif) then True
     else False)"

lemma shift_smaller: "w \<noteq> 0 \<Longrightarrow> unat (drop_bit 1 w) < unat (w :: u32)"
  by (simp add: drop_bit_eq_div unat_div unat_gt_0)

function first_zero :: "u32 \<Rightarrow> u32 \<Rightarrow> u32" where
  "first_zero nm m = (if m \<noteq> 0 then if nm AND m = 0 then m else first_zero nm (drop_bit 1 m) else m)"
  by pat_completeness auto
termination by (relation "measure (\<lambda>(nm, m). unat m)") (auto intro: shift_smaller [simplified])

function no_one :: "u32 \<Rightarrow> u32 \<Rightarrow> bool" where
  "no_one nm m = (if m \<noteq> 0 then if nm AND m \<noteq> 0 then False else no_one nm (drop_bit 1 m) else True)"
  by pat_completeness auto
termination by (relation "measure (\<lambda>(nm, m). unat m)") (auto intro: shift_smaller [simplified])

declare first_zero.simps [simp del] no_one.simps [simp del]

definition ip4_addr_netmask_valid :: "u32 \<Rightarrow> bool" where
  "ip4_addr_netmask_valid netmask =
    (let nm_hostorder = lwip_htonl netmask;
         m = first_zero nm_hostorder (push_bit 31 1)
     in no_one nm_hostorder m)"

section \<open>Text to address\<close>

definition isdigit :: "u8 \<Rightarrow> bool" where
  "isdigit c \<longleftrightarrow> c \<ge> 0x30 \<and> c \<le> 0x39"

definition isxdigit :: "u8 \<Rightarrow> bool" where
  "isxdigit c \<longleftrightarrow> isdigit c \<or> c \<ge> 0x61 \<and> c \<le> 0x66 \<or> c \<ge> 0x41 \<and> c \<le> 0x46"

definition islower :: "u8 \<Rightarrow> bool" where
  "islower c \<longleftrightarrow> c \<ge> 0x61 \<and> c \<le> 0x7a"

definition isspace :: "u8 \<Rightarrow> bool" where
  "isspace c \<longleftrightarrow> c = 0x20 \<or> c = 0x0c \<or> c = 0x0a \<or> c = 0x0d \<or> c = 0x09 \<or> c = 0x0b"

text \<open>The byte a pointer into a string points to.\<close>

definition peek :: "u8 list \<Rightarrow> u8" where
  "peek cp = (case cp of [] \<Rightarrow> 0 | c # _ \<Rightarrow> c)"

text \<open>The digits of a number, to its value and what is behind it.\<close>

fun aton_digits :: "u32 \<Rightarrow> u32 \<Rightarrow> u8 list \<Rightarrow> u32 \<times> u8 list" where
  "aton_digits base val [] = (val, [])"
| "aton_digits base val (c # cp) =
     (if isdigit c then aton_digits base (val * base + ucast (c - 0x30)) cp
      else if base = 16 \<and> isxdigit c
      then aton_digits base (push_bit 4 val OR ucast (c + 10 - (if islower c then 0x61 else 0x41))) cp
      else (val, c # cp))"

lemma length_digits: "length (snd (aton_digits base val cp)) \<le> length cp"
  by (induction base val cp rule: aton_digits.induct) auto

text \<open>A number with its prefix.\<close>

definition aton_number :: "u8 list \<Rightarrow> u32 \<times> u8 list" where
  "aton_number cp =
    (if peek cp = 0x30
     then let cp = tl cp
          in if peek cp = 0x78 \<or> peek cp = 0x58 then aton_digits 16 0 (tl cp) else aton_digits 8 0 cp
     else aton_digits 10 0 cp)"

lemma length_number: "length (snd (aton_number cp)) \<le> length cp"
  using length_digits [of 16 0 "tl (tl cp)"] length_digits [of 8 0 "tl cp"] length_digits [of 10 0 cp]
  by (auto simp: aton_number_def Let_def)

text \<open>The numbers but the last one, the last one, and what is behind it.\<close>

function aton_parts :: "u32 list \<Rightarrow> u8 list \<Rightarrow> (u32 list \<times> u32 \<times> u8 list) option" where
  "aton_parts parts cp =
    (if \<not> isdigit (peek cp) then None
     else let r = aton_number cp; val = fst r; cp' = snd r
          in if peek cp' = 0x2e
             then if length parts \<ge> 3 then None else aton_parts (parts @ [val]) (tl cp')
             else Some (parts, val, cp'))"
  by pat_completeness auto
termination
proof (relation "measure (\<lambda>(_, cp). length cp)", simp, clarsimp)
  fix cp assume "peek (snd (aton_number cp)) = 46"
  then have "snd (aton_number cp) \<noteq> []" by (auto simp: peek_def)
  then have "length (tl (snd (aton_number cp))) < length (snd (aton_number cp))" by simp
  then show "length (snd (aton_number cp)) - Suc 0 < length cp" using length_number [of cp] by simp
qed

declare aton_parts.simps [simp del]

definition ipaddr_aton :: "u8 list \<Rightarrow> u32 option" where
  "ipaddr_aton cp =
    (case aton_parts [] cp of None \<Rightarrow> None
     | Some (parts, val, cp) \<Rightarrow>
         if peek cp \<noteq> 0 \<and> \<not> isspace (peek cp) then None
         else if length parts = 0 then Some (lwip_htonl val)
         else if length parts = 1
         then if val > 0xffffff then None else Some (lwip_htonl (val OR push_bit 24 (parts ! 0)))
         else if length parts = 2
         then if val > 0xffff then None else Some (lwip_htonl (val OR (push_bit 24 (parts ! 0) OR push_bit 16 (parts ! 1))))
         else if val > 0xff then None
         else Some (lwip_htonl (val OR (push_bit 24 (parts ! 0) OR push_bit 16 (parts ! 1) OR push_bit 8 (parts ! 2)))))"

definition ipaddr_addr :: "u8 list \<Rightarrow> u32" where
  "ipaddr_addr cp = (case ipaddr_aton cp of Some val \<Rightarrow> val | None \<Rightarrow> IPADDR_NONE)"

section \<open>Address to text\<close>

text \<open>The digits of a byte, the last one first.\<close>

function ntoa_inv :: "u8 \<Rightarrow> u8 list" where
  "ntoa_inv ap = (let r = ap mod 10; ap' = ap div 10 in (0x30 + r) # (if ap' \<noteq> 0 then ntoa_inv ap' else []))"
  by pat_completeness auto
termination
proof (relation "measure unat", simp, clarsimp)
  fix ap :: u8 assume "ap div 10 \<noteq> 0"
  then have "ap \<noteq> 0" by auto
  then show "unat (ap div 10) < unat ap" by (simp add: unat_div unat_gt_0)
qed

declare ntoa_inv.simps [simp del]

text \<open>Writing to a buffer of \<open>buflen\<close> bytes, of which \<open>out\<close> are written.\<close>

fun ntoa_put :: "int \<Rightarrow> u8 list \<Rightarrow> u8 list \<Rightarrow> u8 list option" where
  "ntoa_put buflen out [] = Some out"
| "ntoa_put buflen out (c # cs) = (if int (length out) \<ge> buflen then None else ntoa_put buflen (out @ [c]) cs)"

fun ntoa_bytes :: "int \<Rightarrow> u8 list \<Rightarrow> u8 list \<Rightarrow> u8 list option" where
  "ntoa_bytes buflen out [] = Some out"
| "ntoa_bytes buflen out (ap # aps) =
     (case ntoa_put buflen out (rev (ntoa_inv ap)) of None \<Rightarrow> None
      | Some out \<Rightarrow>
          (case ntoa_put buflen out [0x2e] of None \<Rightarrow> None
           | Some out \<Rightarrow> ntoa_bytes buflen out aps))"

text \<open>The contents of the buffer, with the NUL in the place of the last dot.\<close>

definition ipaddr_ntoa_r :: "u32 \<Rightarrow> int \<Rightarrow> u8 list option" where
  "ipaddr_ntoa_r addr buflen =
    (case ntoa_bytes buflen [] (le32_bytes addr) of None \<Rightarrow> None
     | Some out \<Rightarrow> Some (butlast out @ [0]))"

definition ipaddr_ntoa :: "u32 \<Rightarrow> u8 list option" where
  "ipaddr_ntoa addr = ipaddr_ntoa_r addr 16"


section \<open>Bytes of a word\<close>

text \<open>A bit is at a position of a byte.\<close>

lemma bit_position:
  fixes n :: nat
  assumes "n < 32"
  obtains r where "r < 8" "n = r" | r where "r < 8" "n = 8 + r" | r where "r < 8" "n = 16 + r" | r where "r < 8" "n = 24 + r"
proof -
  consider "n < 8" | "8 \<le> n" "n < 16" | "16 \<le> n" "n < 24" | "24 \<le> n" using assms by linarith
  then show thesis
  proof cases
    case 1 then show ?thesis using that(1) [of n] by simp
  next
    case 2 then show ?thesis using that(2) [of "n - 8"] by simp
  next
    case 3 then show ?thesis using that(3) [of "n - 16"] by simp
  next
    case 4 then show ?thesis using that(4) [of "n - 24"] assms by simp
  qed
qed

lemma position_div:
  "(r :: nat) < 8 \<Longrightarrow> (8 + r) div 8 = 1" "r < 8 \<Longrightarrow> (16 + r) div 8 = 2" "r < 8 \<Longrightarrow> (24 + r) div 8 = 3"
  "r < 8 \<Longrightarrow> (16 + r) mod 8 = r" "r < 8 \<Longrightarrow> (24 + r) mod 8 = r"
  by (auto simp: le_mod_geq div_if)

lemma htonl_mask: "bit (lwip_htonl w) n \<longleftrightarrow> n < 32 \<and> bit w (8 * (3 - n div 8) + n mod 8)"
proof (cases "n < 32")
  case True
  have m: "(0xff :: u32) = mask 8" "(0xff00 :: u32) = push_bit 8 (mask 8)" "(0xff0000 :: u32) = push_bit 16 (mask 8)"
    "(0xff000000 :: u32) = push_bit 24 (mask 8)"
    by (simp_all add: mask_eq_exp_minus_1)
  from True show ?thesis by (cases rule: bit_position) (auto simp: lwip_htonl_def m bit_simps position_div)
qed (auto dest: bit_imp_le_length)

text \<open>The four bytes, most significant first, as \<open>htonl\<close> turns them.\<close>

lemma htonl_bytes:
  "lwip_htonl (ucast (d :: u8) OR (push_bit 24 (ucast (a :: u8)) OR push_bit 16 (ucast (b :: u8)) OR push_bit 8 (ucast (c :: u8)))) =
    le32 [a, b, c, d]"
proof -
  have e: "le32 [a, b, c, d] = ucast a OR push_bit 8 (ucast b) OR push_bit 16 (ucast c) OR push_bit 24 (ucast d)"
    by (simp add: le32_def)
  have l: "8 \<le> i \<Longrightarrow> \<not> bit x i" for x :: u8 and i using bit_imp_le_length [of x i] by auto
  show ?thesis unfolding e
  proof (rule bit_word_eqI)
    fix n assume "n < LENGTH(32)"
    then have "n < 32" by simp
    then show "bit (lwip_htonl (ucast d OR (push_bit 24 (ucast a) OR push_bit 16 (ucast b) OR push_bit 8 (ucast c)))) n \<longleftrightarrow>
        bit (ucast a OR push_bit 8 (ucast b) OR push_bit 16 (ucast c) OR push_bit 24 (ucast d) :: u32) n"
      by (cases rule: bit_position) (simp_all add: htonl_mask bit_simps l position_div)
  qed
qed

lemma htonl_htonl: "lwip_htonl (lwip_htonl w) = w"
proof (rule bit_word_eqI)
  fix n assume "n < LENGTH(32)"
  then have n: "n < 32" by simp
  define m where "m = 8 * (3 - n div 8) + n mod 8"
  have d: "n div 8 \<le> 3" using n by linarith
  have "m mod 8 = n mod 8" "m div 8 = 3 - n div 8" by (simp_all add: m_def)
  then have "8 * (3 - m div 8) + m mod 8 = n" using d by simp
  moreover have "m < 32" using d mod_less_divisor [of 8 n] unfolding m_def by linarith
  ultimately show "bit (lwip_htonl (lwip_htonl w)) n \<longleftrightarrow> bit w n" using n by (simp add: htonl_mask flip: m_def)
qed

section \<open>Netmasks\<close>

text \<open>A mask of \<open>k\<close> ones, in host order.\<close>

definition ones_above :: "nat \<Rightarrow> u32" where
  "ones_above k = push_bit (32 - k) (mask k)"

lemma bit_ones_above: "k \<le> 32 \<Longrightarrow> bit (ones_above k) n \<longleftrightarrow> 32 - k \<le> n \<and> n < 32"
  by (auto simp: ones_above_def bit_simps)

lemma and_single_bit: "n < 32 \<Longrightarrow> (w AND push_bit n 1 = 0) \<longleftrightarrow> \<not> bit (w :: u32) n"
proof
  assume n: "n < 32" and "w AND push_bit n 1 = 0"
  then have "\<not> bit (w AND push_bit n 1) n" by simp
  then show "\<not> bit w n" using n by (simp add: bit_simps)
next
  assume "n < 32" "\<not> bit w n"
  then show "w AND push_bit n 1 = 0" by (intro bit_word_eqI) (auto simp: bit_simps)
qed

lemma single_bit_nonzero: "n < 32 \<Longrightarrow> (push_bit n 1 :: u32) \<noteq> 0"
proof -
  assume "n < 32"
  then have "bit (push_bit n 1 :: u32) n" by (simp add: bit_simps)
  moreover have "\<not> bit (0 :: u32) n" by simp
  ultimately show ?thesis by metis
qed

lemma drop_single_bit: "n < 32 \<Longrightarrow> drop_bit 1 (push_bit n 1 :: u32) = (if n = 0 then 0 else push_bit (n - 1) 1)"
  by (rule bit_word_eqI) (auto simp: bit_simps)


lemma no_one_0: "no_one w 0"
  by (subst no_one.simps) simp

lemma no_one_spec: "n < 32 \<Longrightarrow> no_one w (push_bit n 1) \<longleftrightarrow> (\<forall>i \<le> n. \<not> bit w i)"
proof (induction n)
  case 0
  show ?case using and_single_bit [of 0 w] by (subst no_one.simps) (simp add: no_one_0 drop_single_bit [of 0, simplified])
next
  case (Suc n)
  have "no_one w (push_bit (Suc n) 1) \<longleftrightarrow> \<not> bit w (Suc n) \<and> no_one w (push_bit n 1)"
    using and_single_bit [OF Suc.prems, of w] single_bit_nonzero [OF Suc.prems] drop_single_bit [OF Suc.prems]
    by (subst no_one.simps) (simp del: push_bit_Suc)
  then show ?case using Suc by (auto simp: le_Suc_eq)
qed

lemma first_zero_spec:
  "n < 32 \<Longrightarrow> no_one w (first_zero w (push_bit n 1)) \<longleftrightarrow> (\<exists>k \<le> Suc n. \<forall>i \<le> n. bit w i \<longleftrightarrow> k \<le> i)"
proof (induction n)
  case 0
  have f: "first_zero w 0 = 0" by (subst first_zero.simps) simp
  have "no_one w (first_zero w 1)"
    using and_single_bit [of 0 w] no_one_spec [of 0 w]
    by (subst first_zero.simps) (auto simp: no_one_0 f drop_single_bit [of 0, simplified])
  moreover have "\<exists>k \<le> Suc 0. \<forall>i \<le> 0. bit w i \<longleftrightarrow> k \<le> i"
    by (rule exI [of _ "if bit w 0 then 0 else 1"]) simp
  ultimately show ?case by simp
next
  case (Suc n)
  show ?case
  proof (cases "bit w (Suc n)")
    case True
    then have "first_zero w (push_bit (Suc n) 1) = first_zero w (push_bit n 1)"
      using and_single_bit [OF Suc.prems, of w] single_bit_nonzero [OF Suc.prems] drop_single_bit [OF Suc.prems]
      by (subst first_zero.simps) (simp del: push_bit_Suc)
    then have "no_one w (first_zero w (push_bit (Suc n) 1)) \<longleftrightarrow> (\<exists>k \<le> Suc n. \<forall>i \<le> n. bit w i \<longleftrightarrow> k \<le> i)" using Suc by simp
    also have "\<dots> \<longleftrightarrow> (\<exists>k \<le> Suc (Suc n). \<forall>i \<le> Suc n. bit w i \<longleftrightarrow> k \<le> i)"
      using True by (auto simp: le_Suc_eq)
    finally show ?thesis .
  next
    case False
    then have "first_zero w (push_bit (Suc n) 1) = push_bit (Suc n) 1"
      using and_single_bit [OF Suc.prems, of w] single_bit_nonzero [OF Suc.prems] by (subst first_zero.simps) (simp del: push_bit_Suc)
    then have "no_one w (first_zero w (push_bit (Suc n) 1)) \<longleftrightarrow> (\<forall>i \<le> Suc n. \<not> bit w i)" using no_one_spec [OF Suc.prems] by simp
    also have "\<dots> \<longleftrightarrow> (\<exists>k \<le> Suc (Suc n). \<forall>i \<le> Suc n. bit w i \<longleftrightarrow> k \<le> i)"
      using False by (auto intro: exI [of _ "Suc (Suc n)"])
    finally show ?thesis .
  qed
qed

text \<open>The two loops over the bits of a netmask accept exactly the masks of ones and then zeros.\<close>

theorem ip4_addr_netmask_valid_iff:
  "ip4_addr_netmask_valid nm \<longleftrightarrow> (\<exists>k \<le> 32. lwip_htonl nm = ones_above k)"
proof -
  let ?w = "lwip_htonl nm"
  have "ip4_addr_netmask_valid nm \<longleftrightarrow> (\<exists>k \<le> 32. \<forall>i \<le> 31. bit ?w i \<longleftrightarrow> k \<le> i)"
    using first_zero_spec [of 31 ?w] by (simp add: ip4_addr_netmask_valid_def Let_def)
  also have "\<dots> \<longleftrightarrow> (\<exists>k \<le> 32. ?w = ones_above k)"
  proof
    assume "\<exists>k \<le> 32. \<forall>i \<le> 31. bit ?w i \<longleftrightarrow> k \<le> i"
    then obtain k where k: "k \<le> 32" "\<And>i. i \<le> 31 \<Longrightarrow> bit ?w i \<longleftrightarrow> k \<le> i" by blast
    have "?w = ones_above (32 - k)" by (rule bit_word_eqI) (use k in \<open>simp add: bit_ones_above\<close>)
    then show "\<exists>k \<le> 32. ?w = ones_above k" by (metis diff_le_self)
  next
    assume "\<exists>k \<le> 32. ?w = ones_above k"
    then obtain k where k: "k \<le> 32" "?w = ones_above k" by blast
    show "\<exists>k \<le> 32. \<forall>i \<le> 31. bit ?w i \<longleftrightarrow> k \<le> i"
      by (rule exI [of _ "32 - k"]) (use k in \<open>simp add: bit_ones_above\<close>)
  qed
  finally show ?thesis .
qed


section \<open>Numbers\<close>

text \<open>Decimal digits as bytes.\<close>

definition dec :: "nat \<Rightarrow> u8 list" where
  "dec n = chars (dec_digits n)"

lemma dec_rec: "dec n = (if n < 10 then [0x30 + of_nat n] else dec (n div 10) @ [0x30 + of_nat (n mod 10)])"
proof -
  have "(of_char (char_of (48 + k) :: char) :: u8) = 0x30 + of_nat k" if "k < 10" for k :: nat
    using that by (simp add: word_unat_eq_iff unat_of_char unat_word_ariths unat_of_nat)
  then show ?thesis unfolding dec_def by (subst dec_digits.simps) simp
qed

lemma dec_digit:
  assumes "n < 10"
  shows "isdigit (0x30 + of_nat n)" "ucast (0x30 + of_nat n - 0x30 :: u8) = (of_nat n :: u32)" "(0x30 + of_nat n :: u8) = 0x30 \<longleftrightarrow> n = 0"
proof -
  have "n = 0 \<or> n = 1 \<or> n = 2 \<or> n = 3 \<or> n = 4 \<or> n = 5 \<or> n = 6 \<or> n = 7 \<or> n = 8 \<or> n = 9" using assms by presburger
  then show "isdigit (0x30 + of_nat n)" "ucast (0x30 + of_nat n - 0x30 :: u8) = (of_nat n :: u32)" "(0x30 + of_nat n :: u8) = 0x30 \<longleftrightarrow> n = 0"
    by (auto simp: isdigit_def)
qed

lemma peek_simps [simp]: "peek [] = 0" "peek (c # cs) = c"
  by (simp_all add: peek_def)

lemma dec_head: "\<exists>m cs. dec n = (0x30 + of_nat m) # cs \<and> m < 10 \<and> (n > 0 \<longrightarrow> m > 0)"
proof (induction n rule: less_induct)
  case (less n)
  show ?case
  proof (cases "n < 10")
    case False
    then have "n div 10 < n" "n div 10 > 0" by simp_all
    then obtain m cs where "dec (n div 10) = (0x30 + of_nat m) # cs" "m < 10" "m > 0" using less [of "n div 10"] by auto
    then show ?thesis using False by (subst dec_rec) auto
  next
    case True
    then show ?thesis by (subst dec_rec) (auto intro: exI [of _ n])
  qed
qed

lemma aton_digits_dec: "aton_digits 10 0 (dec n @ cs) = aton_digits 10 (of_nat n) cs"
proof (induction n arbitrary: cs rule: less_induct)
  case (less n)
  show ?case
  proof (cases "n < 10")
    case True
    then show ?thesis using dec_digit [OF True] by (subst dec_rec) simp
  next
    case False
    let ?d = "0x30 + of_nat (n mod 10) :: u8"
    have d: "isdigit ?d" "ucast (?d - 0x30) = (of_nat (n mod 10) :: u32)" using dec_digit [of "n mod 10"] by simp_all
    have "aton_digits 10 0 (dec n @ cs) = aton_digits 10 0 (dec (n div 10) @ ?d # cs)" using False by (subst dec_rec) simp
    also have "\<dots> = aton_digits 10 (of_nat (n div 10)) (?d # cs)" using less [of "n div 10"] False by simp
    also have "\<dots> = aton_digits 10 (of_nat (n div 10) * 10 + of_nat (n mod 10)) cs" using d by (simp only: aton_digits.simps if_True)
    also have "(of_nat (n div 10) * 10 + of_nat (n mod 10) :: u32) = of_nat (n div 10 * 10 + n mod 10)" by (simp only: of_nat_add of_nat_mult of_nat_numeral)
    finally show ?thesis by simp
  qed
qed

text \<open>What may follow a number.\<close>

definition sep :: "u8 list \<Rightarrow> bool" where
  "sep cs \<longleftrightarrow> \<not> isdigit (peek cs) \<and> peek cs \<noteq> 0x78 \<and> peek cs \<noteq> 0x58"

lemma aton_digits_sep: "sep cs \<Longrightarrow> base \<noteq> 16 \<Longrightarrow> aton_digits base val cs = (val, cs)"
  by (cases cs) (auto simp: sep_def)

lemma aton_number_dec: "sep cs \<Longrightarrow> aton_number (dec n @ cs) = (of_nat n, cs)"
proof -
  assume s: "sep cs"
  obtain m ds where m: "dec n = (0x30 + of_nat m) # ds" "m < 10" "n > 0 \<longrightarrow> m > 0" using dec_head by blast
  show ?thesis
  proof (cases "n = 0")
    case True
    then have "dec n = [0x30]" by (subst dec_rec) simp
    then show ?thesis using s True aton_digits_sep [OF s, of 8 0] by (simp add: aton_number_def Let_def sep_def)
  next
    case False
    then have "peek (dec n @ cs) \<noteq> 0x30" using m dec_digit(3) [OF m(2)] by simp
    then have "aton_number (dec n @ cs) = aton_digits 10 0 (dec n @ cs)" by (simp add: aton_number_def)
    then show ?thesis using aton_digits_dec aton_digits_sep [OF s, of 10] by simp
  qed
qed

lemma isdigit_dec [simp]: "isdigit (peek (dec n @ cs))"
  using dec_head [of n] dec_digit(1) by auto

text \<open>A dotted number in front.\<close>

lemma aton_parts_dot: "length parts < 3 \<Longrightarrow> aton_parts parts (dec n @ 0x2e # cs) = aton_parts (parts @ [of_nat n]) cs"
  using aton_number_dec [of "0x2e # cs" n] by (subst aton_parts.simps) (simp add: sep_def isdigit_def [of 46])

lemma aton_parts_end: "sep cs \<Longrightarrow> peek cs \<noteq> 0x2e \<Longrightarrow> aton_parts parts (dec n @ cs) = Some (parts, of_nat n, cs)"
  using aton_number_dec [of cs n] by (subst aton_parts.simps) simp

definition dotted :: "nat \<Rightarrow> nat \<Rightarrow> nat \<Rightarrow> nat \<Rightarrow> u8 list" where
  "dotted a b c d = dec a @ 0x2e # dec b @ 0x2e # dec c @ 0x2e # dec d"

text \<open>The end of a string or white space.\<close>

definition ends :: "u8 list \<Rightarrow> bool" where
  "ends cs \<longleftrightarrow> peek cs = 0 \<or> isspace (peek cs)"

lemma ends_sep: "ends cs \<Longrightarrow> sep cs \<and> peek cs \<noteq> 0x2e"
  by (auto simp: ends_def sep_def isspace_def isdigit_def)

lemma aton_dotted:
  assumes "ends cs" "d < 256"
  shows "ipaddr_aton (dotted a b c d @ cs) =
    Some (lwip_htonl (of_nat d OR (push_bit 24 (of_nat a) OR push_bit 16 (of_nat b) OR push_bit 8 (of_nat c))))"
proof -
  have "aton_parts [] (dotted a b c d @ cs) = Some ([of_nat a, of_nat b, of_nat c], of_nat d, cs)"
    using ends_sep [OF assms(1)] by (simp add: dotted_def aton_parts_dot aton_parts_end)
  moreover have "\<not> (of_nat d :: u32) > 255" using assms(2) by (simp add: word_less_nat_alt unat_of_nat)
  ultimately show ?thesis using assms(1) by (simp add: ipaddr_aton_def ends_def)
qed

section \<open>Printing\<close>

lemma ntoa_inv_dec: "rev (ntoa_inv b) = dec (unat b)"
proof (induction b rule: ntoa_inv.induct)
  case (1 b)
  have d: "unat (b div 10) = unat b div 10" by (simp add: unat_div)
  have m: "b mod 10 = of_nat (unat b mod 10)" by (simp add: word_unat_eq_iff unat_mod unat_of_nat)
  have z: "b div 10 = 0 \<longleftrightarrow> unat b < 10"
    using d by (simp add: unat_eq_zero [symmetric] div_eq_0_iff del: unat_eq_zero)
  show ?case
  proof (cases "unat b < 10")
    case True
    then show ?thesis using z m by (subst ntoa_inv.simps, subst dec_rec) simp
  next
    case False
    then show ?thesis using z m "1.IH" [OF refl refl] d by (subst ntoa_inv.simps, subst dec_rec) simp
  qed
qed

lemma ntoa_put_spec: "ntoa_put n out cs = (if cs = [] \<or> int (length out + length cs) \<le> n then Some (out @ cs) else None)"
  by (induction n out cs rule: ntoa_put.induct) (auto simp: Suc_le_eq)

lemma ntoa_bytes_spec:
  "ntoa_bytes n out bs =
    (let t = concat (map (\<lambda>b. dec (unat b) @ [0x2e]) bs)
     in if bs = [] \<or> int (length out + length t) \<le> n then Some (out @ t) else None)"
  by (induction n out bs rule: ntoa_bytes.induct) (auto simp: ntoa_put_spec ntoa_inv_dec Let_def split: option.splits)


definition text_of :: "u32 \<Rightarrow> u8 list" where
  "text_of w = dotted (unat (le32_bytes w ! 0)) (unat (le32_bytes w ! 1)) (unat (le32_bytes w ! 2)) (unat (le32_bytes w ! 3))"

lemma length_dec: "n < 256 \<Longrightarrow> length (dec n) \<le> 3"
proof -
  have l: "length (dec k) = 1" if "k < 10" for k using that by (subst dec_rec) simp
  have l2: "length (dec k) \<le> 2" if "k < 100" for k using l [of "k div 10"] l [of k] that by (subst dec_rec) simp
  show "n < 256 \<Longrightarrow> length (dec n) \<le> 3" using l2 [of "n div 10"] l [of n] by (subst dec_rec) simp
qed

lemma length_dec_pos: "dec n \<noteq> []"
  using dec_head [of n] by auto

lemma length_text: "length (text_of w) \<le> 15"
  using length_dec [of "unat (le32_bytes w ! 0)"] length_dec [of "unat (le32_bytes w ! 1)"]
    length_dec [of "unat (le32_bytes w ! 2)"] length_dec [of "unat (le32_bytes w ! 3)"]
  by (simp add: text_of_def dotted_def)

lemma le32_bytes_nth: "le32_bytes w = [le32_bytes w ! 0, le32_bytes w ! 1, le32_bytes w ! 2, le32_bytes w ! 3]"
  by (simp add: le32_bytes_def)

text \<open>The text and its NUL, if the buffer has room for them.\<close>

lemma ntoa_r_spec:
  "ipaddr_ntoa_r w n = (if int (length (text_of w) + 1) \<le> n then Some (text_of w @ [0]) else None)"
proof -
  have t: "concat (map (\<lambda>b. dec (unat b) @ [0x2e]) (le32_bytes w)) = text_of w @ [0x2e]"
    by (subst le32_bytes_nth) (simp add: text_of_def dotted_def)
  have "le32_bytes w \<noteq> []" by (simp add: le32_bytes_def)
  then show ?thesis unfolding ipaddr_ntoa_r_def ntoa_bytes_spec Let_def t by simp
qed

text \<open>\<^bold>\<open>C35\<close>. What \<open>ipaddr_ntoa\<close> prints fits into its buffer of sixteen bytes, and \<open>ipaddr_aton\<close> reads the same address
  back from it, also with white space and anything else behind it.\<close>

theorem ipaddr_ntoa_aton:
  "\<exists>t. ipaddr_ntoa w = Some (t @ [0]) \<and> length (t @ [0]) \<le> 16 \<and> ipaddr_aton t = Some w \<and> ipaddr_aton (t @ 0x20 # cs) = Some w"
proof -
  have e: "ipaddr_aton (text_of w @ es) = Some w" if "ends es" for es
  proof -
    let ?b = "\<lambda>i. le32_bytes w ! i"
    have "(of_nat (unat b) :: u32) = ucast b" for b :: u8 by (simp add: word_unat_eq_iff unat_of_nat)
    then have "ipaddr_aton (text_of w @ es) = Some (le32 [?b 0, ?b 1, ?b 2, ?b 3])"
      unfolding text_of_def using aton_dotted [OF that, of "unat (?b 3)"] by (simp only: unat_lt_u8 htonl_bytes)
    then show ?thesis by (simp only: le32_bytes_nth [symmetric] le32_le32_bytes)
  qed
  have "ipaddr_ntoa w = Some (text_of w @ [0])" using length_text [of w] by (simp add: ipaddr_ntoa_def ntoa_r_spec)
  then show ?thesis using length_text [of w] e [of "[]"] e [of "0x20 # cs"]
    by (intro exI [of _ "text_of w"]) (simp add: ends_def isspace_def)
qed

text \<open>Only the last number of an address is checked to be in range: the first is taken modulo 256, and the upper
  bits of the second are mixed into the first.\<close>

theorem ipaddr_aton_no_range:
  assumes "b < 256" "d < 256"
  shows "ipaddr_aton (dotted (a + 256 * k) b c d) = ipaddr_aton (dotted a b c d) \<and>
    ipaddr_aton (dotted 0 (b + 256 * k) c d) = ipaddr_aton (dotted k b c d)"
proof -
  have "(push_bit 24 (of_nat (a + 256 * k)) :: u32) = push_bit 24 (of_nat a)"
  proof -
    have z: "(4294967296 :: u32) = 0" by simp
    have "(of_nat (256 * k) * 2 ^ 24 :: u32) = 4294967296 * of_nat k" by simp
    also have "\<dots> = 0" unfolding z by (rule mult_zero_left)
    finally have "(of_nat (256 * k) * 2 ^ 24 :: u32) = 0" .
    then have "(push_bit 24 (of_nat (256 * k)) :: u32) = 0" by (simp only: push_bit_eq_mult)
    then show ?thesis by (simp add: push_bit_add)
  qed
  moreover have "(push_bit 16 (of_nat (b + 256 * k)) :: u32) = push_bit 24 (of_nat k) OR push_bit 16 (of_nat b)"
  proof -
    have b: "take_bit 8 (of_nat b :: u32) = of_nat b" using assms(1) by (simp add: take_bit_eq_mod word_unat_eq_iff unat_mod unat_of_nat)
    have "push_bit 24 (of_nat k :: u32) AND push_bit 16 (take_bit 8 (of_nat b)) = 0" by (rule bit_word_eqI) (auto simp: bit_simps)
    then have d: "push_bit 24 (of_nat k :: u32) AND push_bit 16 (of_nat b) = 0" by (simp only: b)
    have "(push_bit 16 (of_nat (b + 256 * k)) :: u32) = push_bit 24 (of_nat k) + push_bit 16 (of_nat b)"
      by (simp add: push_bit_eq_mult algebra_simps)
    then show ?thesis by (simp only: disjunctive_add_eq_or [OF d])
  qed
  ultimately show ?thesis using aton_dotted [of "[]" d] assms by (simp add: ends_def ac_simps del: of_nat_add)
qed

text \<open>266.1.2.3 is read as 10.1.2.3, and 0.300.2.3 as 1.44.2.3.\<close>

theorem ipaddr_aton_no_range_witness:
  "ipaddr_aton (dotted 266 1 2 3) = ipaddr_aton (dotted 10 1 2 3) \<and> ipaddr_aton (dotted 0 300 2 3) = ipaddr_aton (dotted 1 44 2 3)"
  using ipaddr_aton_no_range [of 1 3 10 1 2] ipaddr_aton_no_range [of 44 3 0 1 2] by simp

end
