(* ===== verification/SysTimeout.thy ===== *)
theory SysTimeout imports LwipMemProps "HOL-Library.Multiset" begin

text \<open>
  The timeouts of the network stack, \<open>lwip/src/core/timers.c\<close>, as built with TCP, reassembly and ARP: a list in which each
  entry holds the time behind the one in front of it. The handlers and the waiting for messages
  (\<open>sys_arch_mbox_fetch\<close>) are parameters; an entry is a block of the stack's heap (\<open>MEMP_MEM_MALLOC\<close>).
\<close>

section \<open>State\<close>

record sys_timeo =
  tnext :: addr
  ttime :: u32
  th :: addr
  targ :: addr

record tmo_state =
  theap :: lwmem
  tmos :: "addr \<Rightarrow> sys_timeo"
  next_timeout :: addr
  tcpip_tcp_timer_active :: bool

abbreviation (input) "MEMP_SIZE_SYS_TIMEOUT \<equiv> (16 :: u16)"
abbreviation (input) "SYS_ARCH_TIMEOUT \<equiv> (0xffffffff :: u32)"
abbreviation (input) "TCP_TMR_INTERVAL \<equiv> (250 :: u32)"
abbreviation (input) "IP_TMR_INTERVAL \<equiv> (1000 :: u32)"
abbreviation (input) "ARP_TMR_INTERVAL \<equiv> (5000 :: u32)"

abbreviation upd_t :: "addr \<Rightarrow> (sys_timeo \<Rightarrow> sys_timeo) \<Rightarrow> tmo_state \<Rightarrow> tmo_state" where
  "upd_t p f s \<equiv> s\<lparr>tmos := (tmos s)(p := f (tmos s p))\<rparr>"

section \<open>Setting and cancelling\<close>

text \<open>The place behind \<open>t\<close> or further on.\<close>

partial_function (option) timeout_walk :: "addr \<Rightarrow> addr \<Rightarrow> tmo_state \<Rightarrow> tmo_state option" where
  "timeout_walk timeout t s =
    (if t = NULL then Some s
     else let s = upd_t timeout (\<lambda>e. e\<lparr>ttime := ttime e - ttime (tmos s t)\<rparr>) s
          in if tnext (tmos s t) = NULL \<or> ttime (tmos s (tnext (tmos s t))) > ttime (tmos s timeout)
             then let s = (if tnext (tmos s t) \<noteq> NULL
                           then upd_t (tnext (tmos s t)) (\<lambda>e. e\<lparr>ttime := ttime e - ttime (tmos s timeout)\<rparr>) s else s);
                      s = upd_t timeout (\<lambda>e. e\<lparr>tnext := tnext (tmos s t)\<rparr>) s
                  in Some (upd_t t (\<lambda>e. e\<lparr>tnext := timeout\<rparr>) s)
             else timeout_walk timeout (tnext (tmos s t)) s)"

text \<open>Without memory the assertion fails, and the call does not return.\<close>

definition sys_timeout :: "u32 \<Rightarrow> addr \<Rightarrow> addr \<Rightarrow> tmo_state \<Rightarrow> tmo_state option" where
  "sys_timeout msecs handler arg s =
    (case mem_malloc MEMP_SIZE_SYS_TIMEOUT (theap s) of None \<Rightarrow> None
     | Some (timeout, h) \<Rightarrow>
         (let s = s\<lparr>theap := h\<rparr>
          in if timeout = NULL then None
             else let s = upd_t timeout (\<lambda>_. \<lparr>tnext = NULL, ttime = msecs, th = handler, targ = arg\<rparr>) s
                  in if next_timeout s = NULL then Some (s\<lparr>next_timeout := timeout\<rparr>)
                     else if ttime (tmos s (next_timeout s)) > msecs
                     then let s = upd_t (next_timeout s) (\<lambda>e. e\<lparr>ttime := ttime e - msecs\<rparr>) s;
                              s = upd_t timeout (\<lambda>e. e\<lparr>tnext := next_timeout s\<rparr>) s
                          in Some (s\<lparr>next_timeout := timeout\<rparr>)
                     else timeout_walk timeout (next_timeout s) s))"

partial_function (option) untimeout_walk :: "addr \<Rightarrow> addr \<Rightarrow> addr \<Rightarrow> addr \<Rightarrow> tmo_state \<Rightarrow> tmo_state option" where
  "untimeout_walk handler arg prev_t t s =
    (if t = NULL then Some s
     else if th (tmos s t) = handler \<and> targ (tmos s t) = arg
     then let s = (if prev_t = NULL then s\<lparr>next_timeout := tnext (tmos s t)\<rparr>
                   else upd_t prev_t (\<lambda>e. e\<lparr>tnext := tnext (tmos s t)\<rparr>) s);
              s = (if tnext (tmos s t) \<noteq> NULL
                   then upd_t (tnext (tmos s t)) (\<lambda>e. e\<lparr>ttime := ttime e + ttime (tmos s t)\<rparr>) s else s)
          in map_option (\<lambda>h. s\<lparr>theap := h\<rparr>) (mem_free t (theap s))
     else untimeout_walk handler arg t (tnext (tmos s t)) s)"

definition sys_untimeout :: "addr \<Rightarrow> addr \<Rightarrow> tmo_state \<Rightarrow> tmo_state option" where
  "sys_untimeout handler arg s =
    (if next_timeout s = NULL then Some s else untimeout_walk handler arg NULL (next_timeout s) s)"

section \<open>Waiting\<close>

text \<open>The timeout with which the thread waits for a message, 0 if for ever; no wait is needed if the first entry is due.\<close>

definition mbox_fetch_wait :: "tmo_state \<Rightarrow> u32 option" where
  "mbox_fetch_wait s =
    (if next_timeout s = NULL then Some 0
     else if ttime (tmos s (next_timeout s)) > 0 then Some (ttime (tmos s (next_timeout s))) else None)"

text \<open>A pass of \<open>sys_timeouts_mbox_fetch\<close>, given what the wait returned: whether a message was received. \<open>hf\<close> calls a
  handler with its argument.\<close>

definition mbox_fetch_pass :: "(addr \<Rightarrow> addr \<Rightarrow> tmo_state \<Rightarrow> tmo_state option) \<Rightarrow> u32 \<Rightarrow> tmo_state \<Rightarrow> (bool \<times> tmo_state) option" where
  "mbox_fetch_pass hf waited s =
    (if next_timeout s = NULL then Some (True, s)
     else let time_needed = (if ttime (tmos s (next_timeout s)) > 0 then waited else SYS_ARCH_TIMEOUT)
          in if time_needed = SYS_ARCH_TIMEOUT
             then let tmptimeout = next_timeout s;
                      s = s\<lparr>next_timeout := tnext (tmos s tmptimeout)\<rparr>;
                      handler = th (tmos s tmptimeout);
                      arg = targ (tmos s tmptimeout)
                  in case mem_free tmptimeout (theap s) of None \<Rightarrow> None
                     | Some h \<Rightarrow>
                         map_option (\<lambda>s. (False, s)) (if handler \<noteq> NULL then hf handler arg (s\<lparr>theap := h\<rparr>) else Some (s\<lparr>theap := h\<rparr>))
             else Some (True, upd_t (next_timeout s)
                    (\<lambda>e. e\<lparr>ttime := (if time_needed < ttime e then ttime e - time_needed else 0)\<rparr>) s))"

section \<open>The timers of the stack\<close>

text \<open>The work of each timer and the question whether TCP has connections are parameters, as is the address of the
  handler that sets itself again.\<close>

definition tcpip_tcp_timer :: "(tmo_state \<Rightarrow> tmo_state option) \<Rightarrow> (tmo_state \<Rightarrow> bool) \<Rightarrow> addr \<Rightarrow> tmo_state \<Rightarrow> tmo_state option" where
  "tcpip_tcp_timer tcp_tmr pcbs self s =
    (case tcp_tmr s of None \<Rightarrow> None
     | Some s \<Rightarrow> if pcbs s then sys_timeout TCP_TMR_INTERVAL self NULL s else Some (s\<lparr>tcpip_tcp_timer_active := False\<rparr>))"

definition tcp_timer_needed :: "(tmo_state \<Rightarrow> bool) \<Rightarrow> addr \<Rightarrow> tmo_state \<Rightarrow> tmo_state option" where
  "tcp_timer_needed pcbs tcp_timer s =
    (if \<not> tcpip_tcp_timer_active s \<and> pcbs s
     then sys_timeout TCP_TMR_INTERVAL tcp_timer NULL (s\<lparr>tcpip_tcp_timer_active := True\<rparr>) else Some s)"

definition ip_reass_timer :: "(tmo_state \<Rightarrow> tmo_state option) \<Rightarrow> addr \<Rightarrow> tmo_state \<Rightarrow> tmo_state option" where
  "ip_reass_timer ip_reass_tmr self s =
    (case ip_reass_tmr s of None \<Rightarrow> None | Some s \<Rightarrow> sys_timeout IP_TMR_INTERVAL self NULL s)"

definition arp_timer :: "(tmo_state \<Rightarrow> tmo_state option) \<Rightarrow> addr \<Rightarrow> tmo_state \<Rightarrow> tmo_state option" where
  "arp_timer etharp_tmr self s =
    (case etharp_tmr s of None \<Rightarrow> None | Some s \<Rightarrow> sys_timeout ARP_TMR_INTERVAL self NULL s)"

definition sys_timeouts_init :: "addr \<Rightarrow> addr \<Rightarrow> tmo_state \<Rightarrow> tmo_state option" where
  "sys_timeouts_init ip_reass arp s =
    (case sys_timeout IP_TMR_INTERVAL ip_reass NULL s of None \<Rightarrow> None
     | Some s \<Rightarrow> sys_timeout ARP_TMR_INTERVAL arp NULL s)"


section \<open>The list and its deadlines\<close>

fun tpath :: "(addr \<Rightarrow> sys_timeo) \<Rightarrow> addr \<Rightarrow> addr list \<Rightarrow> bool" where
  "tpath f p [] \<longleftrightarrow> p = NULL"
| "tpath f p (t # ts) \<longleftrightarrow> p = t \<and> p \<noteq> NULL \<and> tpath f (tnext (f t)) ts"

lemma tpath_cong: "(\<And>q. q \<in> set ts \<Longrightarrow> tnext (f q) = tnext (g q)) \<Longrightarrow> tpath f p ts \<longleftrightarrow> tpath g p ts"
  by (induction g p ts rule: tpath.induct) auto

lemma tpath_not_null: "tpath f p ts \<Longrightarrow> t \<in> set ts \<Longrightarrow> t \<noteq> NULL"
  by (induction f p ts rule: tpath.induct) auto

text \<open>When each entry is due, from now on, and what it calls.\<close>

type_synonym due = "nat \<times> addr \<times> addr"

fun dues :: "(addr \<Rightarrow> sys_timeo) \<Rightarrow> nat \<Rightarrow> addr list \<Rightarrow> due list" where
  "dues f a [] = []"
| "dues f a (t # ts) = (a + unat (ttime (f t)), th (f t), targ (f t)) # dues f (a + unat (ttime (f t))) ts"

lemma dues_cong: "(\<And>q. q \<in> set ts \<Longrightarrow> ttime (f q) = ttime (g q) \<and> th (f q) = th (g q) \<and> targ (f q) = targ (g q)) \<Longrightarrow>
    dues f a ts = dues g a ts"
  by (induction ts arbitrary: a) auto

lemma dues_bound: "x \<in> set (dues f a ts) \<Longrightarrow> a \<le> fst x"
  by (induction ts arbitrary: a) fastforce+

lemma dues_sorted: "sorted (map fst (dues f a ts))"
  by (induction ts arbitrary: a) (auto dest: dues_bound)

text \<open>Behind everything that is due at the same time or earlier.\<close>

fun put_due :: "due \<Rightarrow> due list \<Rightarrow> due list" where
  "put_due x [] = [x]"
| "put_due x (y # ys) = (if fst y > fst x then x # y # ys else y # put_due x ys)"

fun drop_due :: "addr \<Rightarrow> addr \<Rightarrow> due list \<Rightarrow> due list" where
  "drop_due h a [] = []"
| "drop_due h a (y # ys) = (if snd y = (h, a) then ys else y # drop_due h a ys)"

lemma dues_shift:
  assumes "q \<notin> set ts" "unat (ttime (f q)) = k + unat (ttime (g q))" "th (f q) = th (g q)" "targ (f q) = targ (g q)"
    "\<And>r. r \<in> set ts \<Longrightarrow> f r = g r"
  shows "dues f a (q # ts) = dues g (a + k) (q # ts)"
  using assms dues_cong [of ts f g] by (simp add: add.assoc)

lemma timeout_walk_spec:
  assumes "tpath (tmos s) t (t # ts)" "distinct (t # ts)" "p \<notin> set (t # ts)" "p \<noteq> NULL"
    and "unat (ttime (tmos s p)) = d" "unat (ttime (tmos s t)) \<le> d"
  shows "\<exists>s' zs. timeout_walk p t s = Some s' \<and> tpath (tmos s') t (t # zs) \<and> distinct (t # zs) \<and> set zs = insert p (set ts) \<and>
    dues (tmos s') a (t # zs) = put_due (a + d, th (tmos s p), targ (tmos s p)) (dues (tmos s) a (t # ts)) \<and>
    ttime (tmos s' t) = ttime (tmos s t) \<and> (\<forall>q. q \<notin> set (p # t # ts) \<longrightarrow> tmos s' q = tmos s q) \<and>
    theap s' = theap s \<and> next_timeout s' = next_timeout s \<and> tcpip_tcp_timer_active s' = tcpip_tcp_timer_active s"
  using assms
proof (induction ts arbitrary: t s d a)
  case Nil
  let ?s1 = "upd_t p (\<lambda>e. e\<lparr>ttime := ttime e - ttime (tmos s t)\<rparr>) s"
  have n: "tnext (tmos s t) = NULL" "t \<noteq> NULL" "t \<noteq> p" using Nil by auto
  have u: "unat (ttime (tmos s p) - ttime (tmos s t)) = d - unat (ttime (tmos s t))"
    using Nil.prems(5,6) by (simp add: unat_sub word_le_nat_alt)
  let ?s2 = "upd_t t (\<lambda>e. e\<lparr>tnext := p\<rparr>) (upd_t p (\<lambda>e. e\<lparr>tnext := NULL\<rparr>) ?s1)"
  have e: "timeout_walk p t s = Some ?s2" using n by (subst timeout_walk.simps) (simp add: Let_def)
  have f: "tmos ?s2 t = (tmos s t)\<lparr>tnext := p\<rparr>"
    "tmos ?s2 p = (tmos s p)\<lparr>ttime := ttime (tmos s p) - ttime (tmos s t), tnext := NULL\<rparr>" using n by simp_all
  show ?case
  proof (intro exI conjI)
    show "timeout_walk p t s = Some ?s2" by (rule e)
    show "tpath (tmos ?s2) t (t # [p])" unfolding tpath.simps f using n Nil.prems(4) by simp
    show "dues (tmos ?s2) a (t # [p]) = put_due (a + d, th (tmos s p), targ (tmos s p)) (dues (tmos s) a [t])"
      unfolding dues.simps f using u Nil.prems(6) by simp
    show "\<forall>q. q \<notin> set (p # t # []) \<longrightarrow> tmos ?s2 q = tmos s q" "ttime (tmos ?s2 t) = ttime (tmos s t)" using n by simp_all
  qed (use n in simp_all)
next
  case (Cons t2 ts)
  let ?s1 = "upd_t p (\<lambda>e. e\<lparr>ttime := ttime e - ttime (tmos s t)\<rparr>) s"
  have n: "tnext (tmos s t) = t2" "t2 \<noteq> NULL" "t \<noteq> NULL" "t \<noteq> p" "t2 \<noteq> p" "t \<noteq> t2" "t2 \<notin> set ts" "p \<notin> set ts" "t \<notin> set ts"
    "tpath (tmos s) (tnext (tmos s t2)) ts" "distinct ts" using Cons.prems by auto
  have u: "unat (ttime (tmos s p) - ttime (tmos s t)) = d - unat (ttime (tmos s t))"
    using Cons.prems(5,6) by (simp add: unat_sub word_le_nat_alt)
  show ?case
  proof (cases "ttime (tmos s t2) > ttime (tmos s p) - ttime (tmos s t)")
    case True
    let ?r = "ttime (tmos s p) - ttime (tmos s t)"
    let ?s2 = "upd_t t (\<lambda>e. e\<lparr>tnext := p\<rparr>) (upd_t p (\<lambda>e. e\<lparr>tnext := t2\<rparr>) (upd_t t2 (\<lambda>e. e\<lparr>ttime := ttime e - ?r\<rparr>) ?s1))"
    have e: "timeout_walk p t s = Some ?s2" using n True by (subst timeout_walk.simps) (simp add: Let_def)
    have v: "unat (ttime (tmos s t2) - ?r) = unat (ttime (tmos s t2)) - unat ?r" "unat ?r < unat (ttime (tmos s t2))"
      using unat_sub [OF less_imp_le [OF True]] True by (simp_all add: word_less_nat_alt)
    have "tpath (tmos ?s2) (tnext (tmos s t2)) ts" by (rule iffD2 [OF tpath_cong [of ts _ "tmos s"]]) (use n in auto)
    then have tp: "tpath (tmos ?s2) t (t # p # t2 # ts)" using n Cons.prems(4) by simp
    have dd: "dues (tmos ?s2) x ts = dues (tmos s) x ts" for x by (rule dues_cong) (use n in auto)
    have "dues (tmos ?s2) a (t # p # t2 # ts) = put_due (a + d, th (tmos s p), targ (tmos s p)) (dues (tmos s) a (t # t2 # ts))"
    proof -
      let ?x = "unat (ttime (tmos s t))" and ?y = "unat (ttime (tmos s t2))"
      have k: "a + ?x + unat ?r = a + d" "a + d + (?y - unat ?r) = a + ?x + ?y" "a + ?x \<le> a + d" "a + d < a + ?x + ?y"
        using u v Cons.prems(6) by linarith+
      have f: "tmos ?s2 t = (tmos s t)\<lparr>tnext := p\<rparr>" "tmos ?s2 p = (tmos s p)\<lparr>ttime := ?r, tnext := t2\<rparr>"
        "tmos ?s2 t2 = (tmos s t2)\<lparr>ttime := ttime (tmos s t2) - ?r\<rparr>" using n by simp_all
      have "dues (tmos ?s2) a (t # p # t2 # ts) = (a + ?x, th (tmos s t), targ (tmos s t)) # (a + d, th (tmos s p), targ (tmos s p)) #
          (a + ?x + ?y, th (tmos s t2), targ (tmos s t2)) # dues (tmos s) (a + ?x + ?y) ts"
        unfolding dues.simps dd f by (simp add: v(1) k(1,2))
      also have "\<dots> = put_due (a + d, th (tmos s p), targ (tmos s p)) (dues (tmos s) a (t # t2 # ts))" using k(3,4) by simp
      finally show ?thesis .
    qed
    note D = this
    show ?thesis
    proof (intro exI conjI)
      show "timeout_walk p t s = Some ?s2" by (rule e)
      show "tpath (tmos ?s2) t (t # p # t2 # ts)" by (rule tp)
      show "dues (tmos ?s2) a (t # p # t2 # ts) = put_due (a + d, th (tmos s p), targ (tmos s p)) (dues (tmos s) a (t # t2 # ts))" by (rule D)
      show "distinct (t # p # t2 # ts)" "set (p # t2 # ts) = insert p (set (t2 # ts))" using n by simp_all
      show "ttime (tmos ?s2 t) = ttime (tmos s t)" "\<forall>q. q \<notin> set (p # t # t2 # ts) \<longrightarrow> tmos ?s2 q = tmos s q" using n by simp_all
    qed simp_all
  next
    case False
    have le: "unat (ttime (tmos s t2)) \<le> d - unat (ttime (tmos s t))" using False u by (simp add: not_less word_le_nat_alt)
    have e: "timeout_walk p t s = timeout_walk p t2 ?s1" using n False by (subst timeout_walk.simps) (simp add: Let_def)
    have "tpath (tmos ?s1) (tnext (tmos s t2)) ts" by (rule iffD2 [OF tpath_cong [of ts _ "tmos s"]]) (use n in auto)
    then have tp1: "tpath (tmos ?s1) t2 (t2 # ts)" using n by simp
    have pre: "distinct (t2 # ts)" "p \<notin> set (t2 # ts)" "unat (ttime (tmos ?s1 p)) = d - unat (ttime (tmos s t))"
      "unat (ttime (tmos ?s1 t2)) \<le> d - unat (ttime (tmos s t))" using n u le by simp_all
    obtain s' zs where r: "timeout_walk p t2 ?s1 = Some s'" "tpath (tmos s') t2 (t2 # zs)" "distinct (t2 # zs)" "set zs = insert p (set ts)"
      "dues (tmos s') (a + unat (ttime (tmos s t))) (t2 # zs) =
        put_due (a + unat (ttime (tmos s t)) + (d - unat (ttime (tmos s t))), th (tmos ?s1 p), targ (tmos ?s1 p))
          (dues (tmos ?s1) (a + unat (ttime (tmos s t))) (t2 # ts))"
      "ttime (tmos s' t2) = ttime (tmos ?s1 t2)" "\<forall>q. q \<notin> set (p # t2 # ts) \<longrightarrow> tmos s' q = tmos ?s1 q"
      "theap s' = theap ?s1" "next_timeout s' = next_timeout ?s1" "tcpip_tcp_timer_active s' = tcpip_tcp_timer_active ?s1"
      using Cons.IH [OF tp1 pre(1,2) Cons.prems(4) pre(3,4), of "a + unat (ttime (tmos s t))"] by blast
    have t: "tmos s' t = tmos s t" using r(7) n by simp
    have dd: "dues (tmos ?s1) x (t2 # ts) = dues (tmos s) x (t2 # ts)" for x by (rule dues_cong) (use n in auto)
    have "dues (tmos s') a (t # t2 # zs) = put_due (a + d, th (tmos s p), targ (tmos s p)) (dues (tmos s) a (t # t2 # ts))"
      using r(5) Cons.prems(6) n unfolding dd dues.simps(2) [of _ a] t by simp
    moreover have "tpath (tmos s') t (t # t2 # zs)" using r(2) n t by simp
    moreover have "distinct (t # t2 # zs)" using r(3,4) n by simp
    moreover have "set (t2 # zs) = insert p (set (t2 # ts))" using r(4) by auto
    moreover have "\<forall>q. q \<notin> set (p # t # t2 # ts) \<longrightarrow> tmos s' q = tmos s q" using r(7) by simp
    ultimately show ?thesis using e r(1,8,9,10) t
      by (intro exI [of _ s'] exI [of _ "t2 # zs"]) (simp only:, simp)
  qed
qed


text \<open>A good state: the entries are blocks of the heap, and no deadline is beyond the range of a word.\<close>

definition tmo_ok :: "tmo_state \<Rightarrow> addr list \<Rightarrow> bool" where
  "tmo_ok s ts \<longleftrightarrow> tpath (tmos s) (next_timeout s) ts \<and> distinct ts \<and> (\<forall>x \<in> set (dues (tmos s) 0 ts). fst x < 2 ^ 32) \<and>
     (\<exists>ps bs. granted ps (theap s) bs \<and> (\<lambda>t. (t, 16)) ` set ts \<subseteq> set ps)"

lemma set_put_due: "set (put_due x ys) = insert x (set ys)"
  by (induction x ys rule: put_due.induct) auto

lemma tmo_okI:
  "tpath (tmos s) (next_timeout s) ts \<Longrightarrow> distinct ts \<Longrightarrow> (\<And>x. x \<in> set (dues (tmos s) 0 ts) \<Longrightarrow> fst x < 2 ^ 32) \<Longrightarrow>
    granted ps (theap s) bs \<Longrightarrow> (\<lambda>t. (t, 16)) ` set ts \<subseteq> set ps \<Longrightarrow> tmo_ok s ts"
  unfolding tmo_ok_def by blast

lemma sys_timeout_spec:
  assumes "tmo_ok s ts"
  shows "if fst (the (mem_malloc MEMP_SIZE_SYS_TIMEOUT (theap s))) = NULL then sys_timeout m h a s = None
    else \<exists>s' ts'. sys_timeout m h a s = Some s' \<and> tmo_ok s' ts' \<and> dues (tmos s') 0 ts' = put_due (unat m, h, a) (dues (tmos s) 0 ts) \<and>
      tcpip_tcp_timer_active s' = tcpip_tcp_timer_active s"
proof -
  obtain ps bs where g: "granted ps (theap s) bs" "(\<lambda>t. (t, 16)) ` set ts \<subseteq> set ps" using assms by (auto simp: tmo_ok_def)
  have o: "tpath (tmos s) (next_timeout s) ts" "distinct ts" "\<And>x. x \<in> set (dues (tmos s) 0 ts) \<Longrightarrow> fst x < 2 ^ 32"
    using assms by (auto simp: tmo_ok_def)
  obtain p hp bs' where m: "mem_malloc 16 (theap s) = Some (p, hp)" "granted (if p = NULL then ps else ps @ [(p, 16)]) hp bs'"
    using granted_malloc [OF g(1), of 16] by auto
  show ?thesis
  proof (cases "p = NULL")
    case True
    then show ?thesis using m(1) by (simp add: sys_timeout_def)
  next
    case p: False
    have g': "granted (ps @ [(p, 16)]) hp bs'" using m(2) p by simp
    then have "distinct (map fst (ps @ [(p, 16)]))" by (simp add: granted_def)
    then have pn: "p \<notin> set ts" using g(2) by force
    let ?s1 = "upd_t p (\<lambda>_. \<lparr>tnext = NULL, ttime = m, th = h, targ = a\<rparr>) (s\<lparr>theap := hp\<rparr>)"
    have tp1: "tpath (tmos ?s1) (next_timeout s) ts" by (rule iffD2 [OF tpath_cong [of ts _ "tmos s"]]) (use o(1) pn in auto)
    have d1: "dues (tmos ?s1) x ts = dues (tmos s) x ts" for x by (rule dues_cong) (use pn in auto)
    have fin: "\<exists>s' ts'. sys_timeout m h a s = Some s' \<and> tmo_ok s' ts' \<and> dues (tmos s') 0 ts' = put_due (unat m, h, a) (dues (tmos s) 0 ts) \<and>
        tcpip_tcp_timer_active s' = tcpip_tcp_timer_active s"
      if "sys_timeout m h a s = Some s'" "tpath (tmos s') (next_timeout s') ts'" "distinct ts'" "set ts' = insert p (set ts)"
        "dues (tmos s') 0 ts' = put_due (unat m, h, a) (dues (tmos s) 0 ts)" "theap s' = hp"
        "tcpip_tcp_timer_active s' = tcpip_tcp_timer_active s" for s' ts'
    proof -
      have "tmo_ok s' ts'"
        by (rule tmo_okI [of _ _ "ps @ [(p, 16)]" bs']) (use that o(3) g' g(2) in \<open>auto simp: set_put_due\<close>)
      then show ?thesis using that by blast
    qed
    have "\<exists>s' ts'. sys_timeout m h a s = Some s' \<and> tmo_ok s' ts' \<and> dues (tmos s') 0 ts' = put_due (unat m, h, a) (dues (tmos s) 0 ts) \<and>
        tcpip_tcp_timer_active s' = tcpip_tcp_timer_active s"
    proof (cases ts)
      case Nil
      then have n: "next_timeout s = NULL" using o(1) by simp
      have e: "sys_timeout m h a s = Some (?s1\<lparr>next_timeout := p\<rparr>)" using m(1) p n by (simp add: sys_timeout_def Let_def)
      show ?thesis by (rule fin [OF e, of "[p]"]) (use Nil p in simp_all)
    next
      case (Cons t ts2)
      have n: "next_timeout s = t" "t \<noteq> NULL" "t \<noteq> p" using o(1) pn by (auto simp: Cons)
      show ?thesis
      proof (cases "ttime (tmos s t) > m")
        case True
        let ?s2 = "upd_t p (\<lambda>e. e\<lparr>tnext := t\<rparr>) (upd_t t (\<lambda>e. e\<lparr>ttime := ttime e - m\<rparr>) ?s1)\<lparr>next_timeout := p\<rparr>"
        have e: "sys_timeout m h a s = Some ?s2" using m(1) p n True by (simp add: sys_timeout_def Let_def)
        have u: "unat (ttime (tmos s t) - m) = unat (ttime (tmos s t)) - unat m" "unat m < unat (ttime (tmos s t))"
          using unat_sub [OF less_imp_le [OF True]] True by (simp_all add: word_less_nat_alt)
        have t2: "t \<notin> set ts2" "p \<notin> set ts2" using o(2) pn by (simp_all add: Cons)
        have dd: "dues (tmos ?s2) x ts2 = dues (tmos s) x ts2" for x by (rule dues_cong) (use t2 in auto)
        show ?thesis
        proof (rule fin [OF e, of "p # ts"])
          have "tpath (tmos ?s2) (tnext (tmos s t)) ts2"
            by (rule iffD2 [OF tpath_cong [of ts2 _ "tmos s"]]) (use o(1) t2 in \<open>auto simp: Cons\<close>)
          then show "tpath (tmos ?s2) (next_timeout ?s2) (p # ts)" using n p by (simp add: Cons)
          show "dues (tmos ?s2) 0 (p # ts) = put_due (unat m, h, a) (dues (tmos s) 0 ts)"
            unfolding dues.simps dd Cons using n u by simp
        qed (use o(2) pn in simp_all)
      next
        case False
        have e: "sys_timeout m h a s = timeout_walk p t ?s1" using m(1) p n False by (simp add: sys_timeout_def Let_def)
        have pre: "tpath (tmos ?s1) t (t # ts2)" "distinct (t # ts2)" "p \<notin> set (t # ts2)" "unat (ttime (tmos ?s1 p)) = unat m"
          "unat (ttime (tmos ?s1 t)) \<le> unat m"
          using tp1 n o(2) pn False by (simp_all add: Cons word_le_nat_alt not_less)
        obtain s' zs where r: "timeout_walk p t ?s1 = Some s'" "tpath (tmos s') t (t # zs)" "distinct (t # zs)" "set zs = insert p (set ts2)"
          "dues (tmos s') 0 (t # zs) = put_due (0 + unat m, th (tmos ?s1 p), targ (tmos ?s1 p)) (dues (tmos ?s1) 0 (t # ts2))"
          "theap s' = theap ?s1" "next_timeout s' = next_timeout ?s1" "tcpip_tcp_timer_active s' = tcpip_tcp_timer_active ?s1"
          using timeout_walk_spec [OF pre(1-3) p pre(4,5), of 0] by blast
        have "dues (tmos s') 0 (t # zs) = put_due (unat m, h, a) (dues (tmos s) 0 ts)"
          using r(5) unfolding d1 [unfolded Cons] Cons by simp
        moreover have "sys_timeout m h a s = Some s'" using e r(1) by simp
        moreover have "tpath (tmos s') (next_timeout s') (t # zs)" using r(2,7) n by simp
        moreover have "set (t # zs) = insert p (set ts)" unfolding Cons using r(4) by auto
        moreover have "theap s' = hp" "tcpip_tcp_timer_active s' = tcpip_tcp_timer_active s" using r(6,8) by simp_all
        ultimately show ?thesis using fin r(3) by blast
      qed
    qed
    then show ?thesis using m(1) p by simp
  qed
qed


fun total :: "(addr \<Rightarrow> sys_timeo) \<Rightarrow> nat \<Rightarrow> addr list \<Rightarrow> nat" where
  "total f a [] = a"
| "total f a (t # ts) = total f (a + unat (ttime (f t))) ts"

lemma dues_append: "dues f a (xs @ ys) = dues f a xs @ dues f (total f a xs) ys"
  by (induction xs arbitrary: a) simp_all

lemma total_cong: "(\<And>q. q \<in> set ts \<Longrightarrow> ttime (f q) = ttime (g q)) \<Longrightarrow> total f a ts = total g a ts"
  by (induction ts arbitrary: a) simp_all

lemma drop_due_append:
  "(\<And>q. q \<in> set xs \<Longrightarrow> \<not> (th (f q) = h \<and> targ (f q) = a)) \<Longrightarrow> drop_due h a (dues f b xs @ ys) = dues f b xs @ drop_due h a ys"
  by (induction xs arbitrary: b) auto

lemma tpath_skip:
  "tpath f p (bs @ v # t # rs) \<Longrightarrow> distinct (bs @ v # t # rs) \<Longrightarrow> tnext (g v) = tnext (f t) \<Longrightarrow>
    (\<And>q. q \<in> set (bs @ rs) \<Longrightarrow> tnext (g q) = tnext (f q)) \<Longrightarrow> tpath g p (bs @ v # rs)"
proof (induction bs arbitrary: p)
  case Nil
  then have "tpath f (tnext (f t)) rs" "p = v" "v \<noteq> NULL" by auto
  moreover have "tpath g (tnext (f t)) rs" by (rule iffD2 [OF tpath_cong [of rs _ f]]) (use Nil calculation in auto)
  ultimately show ?case using Nil by simp
qed auto

lemma tpath_mid: "tpath f p (xs @ t # ys) \<Longrightarrow> tpath f t (t # ys)"
  by (induction f p xs rule: tpath.induct) auto

text \<open>Taking an entry out, whose time goes to the next one.\<close>

lemma dues_take_out:
  assumes "distinct (as @ t # rs)" "\<And>x. x \<in> set (dues f 0 (as @ t # rs)) \<Longrightarrow> fst x < 2 ^ 32"
    and "\<And>q. q \<in> set as \<union> set (tl rs) \<Longrightarrow> ttime (g q) = ttime (f q) \<and> th (g q) = th (f q) \<and> targ (g q) = targ (f q)"
    and "rs \<noteq> [] \<Longrightarrow> ttime (g (hd rs)) = ttime (f (hd rs)) + ttime (f t) \<and> th (g (hd rs)) = th (f (hd rs)) \<and> targ (g (hd rs)) = targ (f (hd rs))"
  shows "\<exists>y ys. dues f 0 (as @ t # rs) = dues f 0 as @ y # ys \<and> snd y = (th (f t), targ (f t)) \<and> dues g 0 (as @ rs) = dues f 0 as @ ys"
proof -
  let ?b = "total f 0 as"
  have g: "total g 0 as = ?b" "dues g 0 as = dues f 0 as" using assms(3) total_cong [of as g f 0] dues_cong [of as g f 0] by simp_all
  have "dues g ?b rs = dues f (?b + unat (ttime (f t))) rs"
  proof (cases rs)
    case (Cons r rs2)
    have "fst (?b + unat (ttime (f t)) + unat (ttime (f r)), th (f r), targ (f r)) < 2 ^ 32"
      by (rule assms(2)) (simp add: dues_append Cons)
    then have "unat (ttime (f r) + ttime (f t)) = unat (ttime (f t)) + unat (ttime (f r))"
      by (simp add: unat_add_lem [THEN iffD1])
    moreover have "dues g x rs2 = dues f x rs2" for x by (rule dues_cong) (use assms(3) Cons in simp)
    ultimately show ?thesis using assms(4) by (simp add: Cons add.assoc)
  qed simp
  then show ?thesis by (simp add: dues_append g)
qed


lemma free_entry:
  assumes "granted ps hp bs" "(t, 16) \<in> set ps"
  shows "\<exists>hp' ps' bs'. mem_free t hp = Some hp' \<and> granted ps' hp' bs' \<and> set ps' = set ps - {(t, 16)} \<and>
    fst (the (mem_malloc 16 hp')) \<noteq> NULL"
proof -
  obtain as cs where ps: "ps = as @ (t, 16) # cs" using assms(2) by (auto dest: split_list)
  have "distinct (map fst ps)" using assms(1) by (simp add: granted_def)
  then have "set (as @ cs) = set ps - {(t, 16)}" by (force simp: ps)
  moreover obtain hp' bs' m where "mem_free t hp = Some hp'" "granted (as @ cs) hp' bs'" "(False, m) \<in> set bs'" "request 16 \<le> m"
    using granted_free [of as t 16 cs hp bs] assms(1) ps by auto
  moreover have "fst (the (mem_malloc 16 hp')) \<noteq> NULL"
    using mem_malloc_finds [of hp' bs' m 16] calculation by (simp add: granted_def)
  ultimately show ?thesis by blast
qed

lemma untimeout_walk_spec:
  "tmo_ok s (as @ ts) \<Longrightarrow> tpath (tmos s) t ts \<Longrightarrow> v = (if as = [] then NULL else last as) \<Longrightarrow>
    (\<And>q. q \<in> set as \<Longrightarrow> \<not> (th (tmos s q) = h \<and> targ (tmos s q) = a)) \<Longrightarrow>
    \<exists>s' ts'. untimeout_walk h a v t s = Some s' \<and> tmo_ok s' ts' \<and> dues (tmos s') 0 ts' = drop_due h a (dues (tmos s) 0 (as @ ts)) \<and>
      tcpip_tcp_timer_active s' = tcpip_tcp_timer_active s"
proof (induction ts arbitrary: as t v)
  case Nil
  have "untimeout_walk h a v t s = Some s" using Nil.prems(2) by (subst untimeout_walk.simps) simp
  then show ?case using Nil drop_due_append [of as "tmos s" h a 0 "[]"] by auto
next
  case (Cons t2 rs)
  have t: "t = t2" "t \<noteq> NULL" "tpath (tmos s) (tnext (tmos s t)) rs" using Cons.prems(2) by auto
  have ok: "tpath (tmos s) (next_timeout s) (as @ t # rs)" "distinct (as @ t # rs)" "\<And>x. x \<in> set (dues (tmos s) 0 (as @ t # rs)) \<Longrightarrow> fst x < 2 ^ 32"
    using Cons.prems(1) t by (auto simp: tmo_ok_def)
  obtain ps bs where g: "granted ps (theap s) bs" "(\<lambda>t. (t, 16)) ` set (as @ t # rs) \<subseteq> set ps" using Cons.prems(1) t by (auto simp: tmo_ok_def)
  show ?case
  proof (cases "th (tmos s t) = h \<and> targ (tmos s t) = a")
    case False
    then have e: "untimeout_walk h a v t s = untimeout_walk h a t (tnext (tmos s t)) s" using t(2) by (subst untimeout_walk.simps) auto
    show ?thesis unfolding e using Cons.IH [of "as @ [t]" "tnext (tmos s t)" t] Cons.prems t False by auto
  next
    case True
    define s1 where "s1 = (if v = NULL then s\<lparr>next_timeout := tnext (tmos s t)\<rparr> else upd_t v (\<lambda>e. e\<lparr>tnext := tnext (tmos s t)\<rparr>) s)"
    define s2 where "s2 = (if tnext (tmos s1 t) \<noteq> NULL
      then upd_t (tnext (tmos s1 t)) (\<lambda>e. e\<lparr>ttime := ttime e + ttime (tmos s1 t)\<rparr>) s1 else s1)"
    obtain hp' ps' bs' where f: "mem_free t (theap s) = Some hp'" "granted ps' hp' bs'" "set ps' = set ps - {(t, 16)}"
      using free_entry [OF g(1), of t] g(2) by auto
    have hs: "theap s2 = theap s" by (simp add: s2_def s1_def)
    have e: "untimeout_walk h a v t s = Some (s2\<lparr>theap := hp'\<rparr>)"
      using t(2) True f(1) hs by (subst untimeout_walk.simps) (simp add: Let_def flip: s1_def s2_def)
    have vn: "v = NULL \<longleftrightarrow> as = []" using tpath_not_null [OF ok(1)] Cons.prems(3) by auto
    have vt: "v \<noteq> t" "as \<noteq> [] \<Longrightarrow> v \<in> set as" using ok(2) Cons.prems(3) t(2) by auto
    have n1: "tnext (tmos s1 t) = tnext (tmos s t)" "ttime (tmos s1 t) = ttime (tmos s t)" using vt by (simp_all add: s1_def)
    have hd: "tnext (tmos s t) = (if rs = [] then NULL else hd rs)" using t(3) by (cases rs) auto
    have rn: "rs \<noteq> [] \<Longrightarrow> hd rs \<noteq> NULL" using tpath_not_null [OF t(3)] by simp
    have tn: "tnext (tmos s2 q) = tnext (tmos s1 q)" for q by (simp add: s2_def)
    have nx: "next_timeout s2 = (if v = NULL then tnext (tmos s t) else next_timeout s)" by (simp add: s2_def s1_def)
    have tp: "tpath (tmos s2) (next_timeout s2) (as @ rs)"
    proof (cases "as = []")
      case True
      have "tpath (tmos s2) (tnext (tmos s t)) rs"
        by (rule iffD2 [OF tpath_cong [of rs _ "tmos s"]]) (use t(3) vn True in \<open>simp_all add: tn s1_def\<close>)
      then show ?thesis using True vn nx by simp
    next
      case False
      then obtain bs2 where as: "as = bs2 @ [v]" using Cons.prems(3) by (metis append_butlast_last_id)
      have "tpath (tmos s2) (next_timeout s) (bs2 @ v # rs)"
        by (rule tpath_skip [of "tmos s" _ bs2 v t rs]) (use ok(1,2) as vn False in \<open>auto simp: tn s1_def\<close>)
      then show ?thesis using as False vn nx by simp
    qed
    obtain y ys where d: "dues (tmos s) 0 (as @ t # rs) = dues (tmos s) 0 as @ y # ys" "snd y = (th (tmos s t), targ (tmos s t))"
      "dues (tmos s2) 0 (as @ rs) = dues (tmos s) 0 as @ ys"
    proof -
      have "\<exists>y ys. dues (tmos s) 0 (as @ t # rs) = dues (tmos s) 0 as @ y # ys \<and> snd y = (th (tmos s t), targ (tmos s t)) \<and>
          dues (tmos s2) 0 (as @ rs) = dues (tmos s) 0 as @ ys"
      proof (rule dues_take_out [OF ok(2,3)])
        fix q assume q: "q \<in> set as \<union> set (tl rs)"
        have "rs \<noteq> [] \<Longrightarrow> q \<noteq> hd rs" using q ok(2) by (cases rs) auto
        then show "ttime (tmos s2 q) = ttime (tmos s q) \<and> th (tmos s2 q) = th (tmos s q) \<and> targ (tmos s2 q) = targ (tmos s q)"
          by (auto simp: s2_def n1 hd s1_def)
      next
        assume "rs \<noteq> []"
        then show "ttime (tmos s2 (hd rs)) = ttime (tmos s (hd rs)) + ttime (tmos s t) \<and> th (tmos s2 (hd rs)) = th (tmos s (hd rs)) \<and>
            targ (tmos s2 (hd rs)) = targ (tmos s (hd rs))"
          using rn vt(1) ok(2) by (cases rs) (auto simp: s2_def n1 hd s1_def)
      qed
      then show ?thesis using that by blast
    qed
    have dr: "dues (tmos s2) 0 (as @ rs) = drop_due h a (dues (tmos s) 0 (as @ t # rs))"
      unfolding d(1,3) using drop_due_append [of as "tmos s" h a 0 "y # ys"] Cons.prems(4) d(2) True by simp
    have "tmo_ok (s2\<lparr>theap := hp'\<rparr>) (as @ rs)"
    proof (rule tmo_okI [of _ _ ps' bs'])
      show "(\<lambda>t. (t, 16)) ` set (as @ rs) \<subseteq> set ps'" using f(3) g(2) ok(2) by auto
      show "fst x < 2 ^ 32" if "x \<in> set (dues (tmos (s2\<lparr>theap := hp'\<rparr>)) 0 (as @ rs))" for x
        using that ok(3) d(1,3) by auto
    qed (use tp ok(2) f(2) in simp_all)
    moreover have "tcpip_tcp_timer_active s2 = tcpip_tcp_timer_active s" by (simp add: s2_def s1_def)
    ultimately show ?thesis using e dr t(1) by (intro exI [of _ "s2\<lparr>theap := hp'\<rparr>"] exI [of _ "as @ rs"]) simp
  qed
qed

lemma sys_untimeout_spec:
  assumes "tmo_ok s ts"
  shows "\<exists>s' ts'. sys_untimeout h a s = Some s' \<and> tmo_ok s' ts' \<and> dues (tmos s') 0 ts' = drop_due h a (dues (tmos s) 0 ts) \<and>
    tcpip_tcp_timer_active s' = tcpip_tcp_timer_active s"
proof (cases "next_timeout s = NULL")
  case True
  then have "ts = []" using assms by (cases ts) (auto simp: tmo_ok_def)
  then show ?thesis using assms True by (auto simp: sys_untimeout_def)
next
  case False
  have "tpath (tmos s) (next_timeout s) ts" using assms by (simp add: tmo_ok_def)
  then show ?thesis using untimeout_walk_spec [of s "[]" ts "next_timeout s" NULL h a] assms False by (simp add: sys_untimeout_def)
qed


section \<open>Waiting\<close>

text \<open>Deadlines on a clock: \<open>dues\<close> from the present time on.\<close>

lemma dues_clock: "dues f (k + a) ts = map (\<lambda>(d, x). (k + d, x)) (dues f a ts)"
  by (induction ts arbitrary: a) (simp_all add: add.assoc)

lemma put_due_clock: "map (\<lambda>(d, x). (k + d, x)) (put_due (m, x) ds) = put_due (k + m, x) (map (\<lambda>(d, x). (k + d, x)) ds)"
  by (induction "(m, x)" ds rule: put_due.induct) auto

lemma drop_due_clock: "map (\<lambda>(d, x). (k + d, x)) (drop_due h a ds) = drop_due h a (map (\<lambda>(d, x). (k + d, x)) ds)"
  by (induction ds) auto

lemma pass_message:
  assumes "tmo_ok s ts" "next_timeout s = NULL \<or> w < ttime (tmos s (next_timeout s))"
  shows "\<exists>s'. mbox_fetch_pass hf w s = Some (True, s') \<and> tmo_ok s' ts \<and> dues (tmos s') (now + unat w) ts = dues (tmos s) now ts"
proof (cases ts)
  case Nil
  then have "next_timeout s = NULL" using assms(1) by (simp add: tmo_ok_def)
  then show ?thesis using assms(1) Nil by (simp add: mbox_fetch_pass_def)
next
  case (Cons t rs)
  have t: "next_timeout s = t" "t \<noteq> NULL" "tpath (tmos s) (tnext (tmos s t)) rs" "t \<notin> set rs" "distinct rs"
    using assms(1) by (auto simp: tmo_ok_def Cons)
  have w: "w < ttime (tmos s t)" "w \<noteq> SYS_ARCH_TIMEOUT" "ttime (tmos s t) > 0" using assms(2) t(1,2) unat_lt_u32 [of "ttime (tmos s t)"]
    by (auto simp: word_less_nat_alt simp del: unat_lt_u32)
  let ?s = "upd_t t (\<lambda>e. e\<lparr>ttime := ttime e - w\<rparr>) s"
  have e: "mbox_fetch_pass hf w s = Some (True, ?s)" using t(1,2) w by (simp add: mbox_fetch_pass_def Let_def)
  have u: "unat (ttime (tmos s t) - w) = unat (ttime (tmos s t)) - unat w" "unat w < unat (ttime (tmos s t))"
    using unat_sub [OF less_imp_le [OF w(1)]] w(1) by (simp_all add: word_less_nat_alt)
  have dd: "dues (tmos ?s) x rs = dues (tmos s) x rs" for x by (rule dues_cong) (use t(4) in auto)
  have d: "dues (tmos ?s) (now + unat w) ts = dues (tmos s) now ts" for now
    unfolding Cons dues.simps dd using u by simp
  have tp: "tpath (tmos ?s) (tnext (tmos s t)) rs" by (rule iffD2 [OF tpath_cong [of rs _ "tmos s"]]) (use t in auto)
  obtain ps bs where g: "granted ps (theap s) bs" "(\<lambda>t. (t, 16)) ` set ts \<subseteq> set ps" using assms(1) by (auto simp: tmo_ok_def)
  have "tmo_ok ?s ts"
  proof (rule tmo_okI [of _ _ ps bs])
    fix x assume "x \<in> set (dues (tmos ?s) 0 ts)"
    then have "(\<lambda>(d, y). (unat w + d, y)) x \<in> set (dues (tmos s) 0 ts)" using d [of 0] dues_clock [of "tmos ?s" "unat w" 0 ts] by simp
    then have "fst ((\<lambda>(d, y). (unat w + d, y)) x) < 2 ^ 32" using assms(1) unfolding tmo_ok_def by blast
    then show "fst x < 2 ^ 32" by (simp add: case_prod_unfold)
  qed (use t tp g in \<open>auto simp: Cons\<close>)
  then show ?thesis using e d by blast
qed

text \<open>The first entry becomes due: the state in which its handler is called.\<close>

lemma pass_due:
  assumes "tmo_ok s (t # rs)"
  shows "\<exists>s1. mbox_fetch_pass hf SYS_ARCH_TIMEOUT s =
      map_option (\<lambda>s. (False, s)) (if th (tmos s t) \<noteq> NULL then hf (th (tmos s t)) (targ (tmos s t)) s1 else Some s1) \<and>
    tmo_ok s1 rs \<and> next_timeout s = t \<and> fst (the (mem_malloc 16 (theap s1))) \<noteq> NULL \<and>
    dues (tmos s) now (t # rs) =
      (now + unat (ttime (tmos s t)), th (tmos s t), targ (tmos s t)) # dues (tmos s1) (now + unat (ttime (tmos s t))) rs"
proof -
  have t: "next_timeout s = t" "t \<noteq> NULL" "tpath (tmos s) (tnext (tmos s t)) rs" "t \<notin> set rs" "distinct rs"
    "\<And>x. x \<in> set (dues (tmos s) 0 (t # rs)) \<Longrightarrow> fst x < 2 ^ 32"
    using assms by (auto simp: tmo_ok_def)
  obtain ps bs where g: "granted ps (theap s) bs" "(\<lambda>t. (t, 16)) ` set (t # rs) \<subseteq> set ps" using assms by (auto simp: tmo_ok_def)
  obtain hp ps' bs' where f: "mem_free t (theap s) = Some hp" "granted ps' hp bs'" "set ps' = set ps - {(t, 16)}"
    "fst (the (mem_malloc 16 hp)) \<noteq> NULL"
    using free_entry [OF g(1), of t] g(2) by auto
  let ?s = "s\<lparr>next_timeout := tnext (tmos s t), theap := hp\<rparr>"
  have e: "mbox_fetch_pass hf SYS_ARCH_TIMEOUT s =
      map_option (\<lambda>s. (False, s)) (if th (tmos s t) \<noteq> NULL then hf (th (tmos s t)) (targ (tmos s t)) ?s else Some ?s)"
    using t(1,2) f(1) by (simp add: mbox_fetch_pass_def Let_def)
  have "tmo_ok ?s rs"
  proof (rule tmo_okI [of _ _ ps' bs'])
    fix x assume "x \<in> set (dues (tmos ?s) 0 rs)"
    then have "(\<lambda>(d, y). (unat (ttime (tmos s t)) + d, y)) x \<in> set (dues (tmos s) 0 (t # rs))"
      using dues_clock [of "tmos s" "unat (ttime (tmos s t))" 0 rs] by auto
    then have "fst ((\<lambda>(d, y). (unat (ttime (tmos s t)) + d, y)) x) < 2 ^ 32" by (rule t(6))
    then show "fst x < 2 ^ 32" by (simp add: case_prod_unfold)
  qed (use t f g(2) in auto)
  then show ?thesis using e t(1) f(4) by (intro exI [of _ ?s]) simp
qed

section \<open>Runs\<close>

text \<open>A run on a clock in milliseconds: timeouts that are set, with the time at which each is due, and the handlers
  called, with the time of the call. A message arrives before the first deadline, or the wait for it times out at the
  deadline. What a handler does are further steps.\<close>

inductive tm_run :: "tmo_state \<Rightarrow> nat \<Rightarrow> due multiset \<Rightarrow> due list \<Rightarrow> bool" where
  start: "tmo_ok s [] \<Longrightarrow> tm_run s 0 {#} []"
| setting: "tm_run s now S L \<Longrightarrow> sys_timeout m h a s = Some s' \<Longrightarrow> tm_run s' now (add_mset (now + unat m, h, a) S) L"
| cancel: "tm_run s now S L \<Longrightarrow> sys_untimeout h a s = Some s' \<Longrightarrow> tm_run s' now S L"
| message: "tm_run s now S L \<Longrightarrow> next_timeout s = NULL \<or> w < ttime (tmos s (next_timeout s)) \<Longrightarrow>
    mbox_fetch_pass (\<lambda>_ _. Some) w s = Some (True, s') \<Longrightarrow> tm_run s' (now + unat w) S L"
| due: "tm_run s now S L \<Longrightarrow> next_timeout s = t \<Longrightarrow> t \<noteq> NULL \<Longrightarrow>
    mbox_fetch_pass (\<lambda>_ _. Some) SYS_ARCH_TIMEOUT s = Some (False, s') \<Longrightarrow>
    tm_run s' (now + unat (ttime (tmos s t))) S (L @ [(now + unat (ttime (tmos s t)), th (tmos s t), targ (tmos s t))])"

lemma mset_put_due: "mset (put_due x ys) = add_mset x (mset ys)"
  by (induction x ys rule: put_due.induct) auto

lemma mset_drop_due: "mset (drop_due h a ys) \<subseteq># mset ys"
  by (induction ys) (auto simp: subset_mset.le_add_same_cancel2 intro: subset_mset.trans)

lemma tm_run_inv:
  "tm_run s now S L \<Longrightarrow> \<exists>ts. tmo_ok s ts \<and> mset L + mset (dues (tmos s) now ts) \<subseteq># S \<and> sorted (map fst L) \<and> (\<forall>x \<in> set L. fst x \<le> now)"
proof (induction rule: tm_run.induct)
  case (start s)
  then show ?case by (intro exI [of _ "[]"]) simp
next
  case (setting s now S L m h a s')
  then obtain ts where ts: "tmo_ok s ts" "mset L + mset (dues (tmos s) now ts) \<subseteq># S" "sorted (map fst L)" "\<forall>x \<in> set L. fst x \<le> now" by blast
  obtain ts' where t: "tmo_ok s' ts'" "dues (tmos s') 0 ts' = put_due (unat m, h, a) (dues (tmos s) 0 ts)"
    using sys_timeout_spec [OF ts(1), of m h a] setting(2) by (auto split: if_splits)
  have "dues (tmos s') now ts' = put_due (now + unat m, h, a) (dues (tmos s) now ts)"
    using t(2) dues_clock [of "tmos s'" now 0 ts'] dues_clock [of "tmos s" now 0 ts] put_due_clock [of now "unat m" "(h, a)"] by auto
  then have "mset L + mset (dues (tmos s') now ts') \<subseteq># add_mset (now + unat m, h, a) S"
    using ts(2) by (auto simp: mset_put_due intro: subset_mset.trans [of _ S])
  then show ?case using t(1) ts(3,4) by blast
next
  case (cancel s now S L h a s')
  then obtain ts where ts: "tmo_ok s ts" "mset L + mset (dues (tmos s) now ts) \<subseteq># S" "sorted (map fst L)" "\<forall>x \<in> set L. fst x \<le> now" by blast
  obtain ts' where t: "tmo_ok s' ts'" "dues (tmos s') 0 ts' = drop_due h a (dues (tmos s) 0 ts)"
    using sys_untimeout_spec [OF ts(1), of h a] cancel(2) by auto
  have "dues (tmos s') now ts' = drop_due h a (dues (tmos s) now ts)"
    using t(2) dues_clock [of "tmos s'" now 0 ts'] dues_clock [of "tmos s" now 0 ts] drop_due_clock [of now h a] by auto
  then have "mset L + mset (dues (tmos s') now ts') \<subseteq># S"
    using ts(2) mset_drop_due [of h a "dues (tmos s) now ts"] by (metis subset_mset.add_left_mono subset_mset.trans)
  then show ?case using t(1) ts(3,4) by blast
next
  case (message s now S L w s')
  then obtain ts where ts: "tmo_ok s ts" "mset L + mset (dues (tmos s) now ts) \<subseteq># S" "sorted (map fst L)" "\<forall>x \<in> set L. fst x \<le> now" by blast
  have "tmo_ok s' ts \<and> dues (tmos s') (now + unat w) ts = dues (tmos s) now ts"
    using pass_message [OF ts(1) message(2), of "\<lambda>_ _. Some" now] message(3) by auto
  then show ?case using ts by (intro exI [of _ ts]) auto
next
  case (due s now S L t s')
  then obtain ts where ts: "tmo_ok s ts" "mset L + mset (dues (tmos s) now ts) \<subseteq># S" "sorted (map fst L)" "\<forall>x \<in> set L. fst x \<le> now" by blast
  obtain rs where r: "ts = t # rs" using ts(1) due(2,3) by (cases ts) (auto simp: tmo_ok_def)
  have "tmo_ok s' rs \<and> dues (tmos s) now ts =
      (now + unat (ttime (tmos s t)), th (tmos s t), targ (tmos s t)) # dues (tmos s') (now + unat (ttime (tmos s t))) rs"
    using pass_due [of s t rs "\<lambda>_ _. Some" now] ts(1) due(4) unfolding r by (auto split: if_splits)
  then show ?case using ts by (intro exI [of _ rs]) (fastforce simp: sorted_append)
qed


section \<open>Properties\<close>


text \<open>The first timeout, in a fresh heap.\<close>

lemma first_entry:
  "\<exists>s0 s1 ts. tmo_ok s0 [] \<and> sys_timeout m h a s0 = Some s1 \<and> tmo_ok s1 ts \<and> dues (tmos s1) 0 ts = [(unat m, h, a)]"
proof -
  define s0 where "s0 = \<lparr>theap = mem_init 0 blank_heap, tmos = (\<lambda>_. \<lparr>tnext = 0, ttime = 0, th = 0, targ = 0\<rparr>), next_timeout = 0,
    tcpip_tcp_timer_active = False\<rparr>"
  have g: "granted [] (theap s0) [(False, 12280)]" using granted_init [of 0 blank_heap] by (simp add: s0_def)
  have ok0: "tmo_ok s0 []" by (rule tmo_okI [OF _ _ _ g]) (simp_all add: s0_def)
  have "request 16 = 16" by (simp add: request_def align_size)
  then have "fst (the (mem_malloc 16 (theap s0))) \<noteq> NULL"
    using mem_malloc_finds [of "theap s0" "[(False, 12280)]" 12280 16] g by (simp add: granted_def)
  then show ?thesis using sys_timeout_spec [OF ok0, of m h a] ok0 by auto
qed

text \<open>One timer of a quarter of a second.\<close>

lemma one_timer: "\<exists>s. tm_run s 250 {#(250, 200, 7)#} [(250, 200, 7)]"
proof -
  obtain s0 s1 ts where ok0: "tmo_ok s0 []"
    and s1: "sys_timeout 250 200 7 s0 = Some s1" "tmo_ok s1 ts" "dues (tmos s1) 0 ts = [(250, 200, 7)]"
    using first_entry [of 250 200 7] by auto
  then obtain t where t: "ts = [t]" by (cases ts; cases "tl ts") auto
  have v: "ttime (tmos s1 t) = 250" "th (tmos s1 t) = 200" "targ (tmos s1 t) = 7"
    using s1(3) by (auto simp: t word_unat_eq_iff)
  have nt: "next_timeout s1 = t" "t \<noteq> NULL" using s1(2) by (auto simp: tmo_ok_def t)
  have r1: "tm_run s1 0 {#(250, 200, 7)#} []" using tm_run.setting [OF tm_run.start [OF ok0] s1(1)] by simp
  obtain s2 where s2: "mbox_fetch_pass (\<lambda>_ _. Some) SYS_ARCH_TIMEOUT s1 = Some (False, s2)"
    using pass_due [of s1 t "[]" "\<lambda>_ _. Some"] s1(2) by (auto simp: t v)
  have "tm_run s2 (0 + unat (ttime (tmos s1 t))) {#(250, 200, 7)#} ([] @ [(0 + unat (ttime (tmos s1 t)), th (tmos s1 t), targ (tmos s1 t))])"
    by (rule tm_run.due [OF r1 nt s2])
  then show ?thesis by (auto simp: v)
qed



text \<open>The timer of reassembly on its own.\<close>

lemma one_entry: "\<exists>s. tm_run s 0 {#(1000, 200, 0)#} [] \<and> next_timeout s \<noteq> NULL \<and> th (tmos s (next_timeout s)) = 200"
proof -
  obtain s0 s1 ts where s1: "tmo_ok s0 []" "sys_timeout 1000 200 0 s0 = Some s1" "tmo_ok s1 ts" "dues (tmos s1) 0 ts = [(1000, 200, 0)]"
    using first_entry [of 1000 200 0] by auto
  then obtain t where t: "ts = [t]" by (cases ts; cases "tl ts") auto
  have "tm_run s1 0 {#(1000, 200, 0)#} []" using tm_run.setting [OF tm_run.start [OF s1(1)] s1(2)] by simp
  then show ?thesis using s1(3,4) by (intro exI [of _ s1]) (auto simp: tmo_ok_def t)
qed


end
