(* ===== verification/Delivery.thy ===== *)
theory Delivery imports QueueProps TaskTrigger begin

text \<open>
  The way of a command from the server to an axis: \<open>TaskTriggerMsg\<close> and \<open>prvEmergencyStop\<close>
  (\<open>com/src/task_trigger.c\<close>) put a message into a block of the kernel's heap and send its address through the queue of
  the axis; the task of the axis (\<open>arm.c\<close>, \<open>pole.c\<close>, \<open>lift.c\<close>) receives the address, acts on the message and frees
  the block. The type of the messages and what an axis does with one are parameters, so that the theory covers the
  three of them.
\<close>

section \<open>State\<close>

text \<open>The kernel with its heap and queues, and the messages by their addresses.\<close>

record 'm plant =
  rt :: rtos
  objs :: "u32 \<Rightarrow> 'm"

definition qcall_forever :: qcall where
  "qcall_forever = qcall0\<lparr>xTicks := portMAX_DELAY\<rparr>"

section \<open>Creation\<close>

text \<open>\<open>arm_init\<close>, \<open>pole_init\<close> and \<open>lift_init\<close>: the queue and the task, whose control block is a parameter (\<open>NULL\<close> if
  there is no memory for it). The answer is the handle of the queue.\<close>

definition axis_init :: "addr \<Rightarrow> 'm plant \<Rightarrow> (addr \<times> 'm plant) option" where
  "axis_init tcb s =
    (case xQueueGenericCreate 5 4 0 (rt s) of None \<Rightarrow> None
     | Some (q, r) \<Rightarrow> Some (q, s\<lparr>rt := r\<lparr>kern := snd (xTaskCreate tcb 4 (kern r))\<rparr>\<rparr>))"

section \<open>Posting\<close>

text \<open>The block of a message and its contents. The result of \<open>pvPortMalloc\<close> is not checked: a write through \<open>NULL\<close> is
  \<open>None\<close>.\<close>

definition post_alloc :: "u32 \<Rightarrow> 'm \<Rightarrow> 'm plant \<Rightarrow> (u32 \<times> 'm plant) option" where
  "post_alloc sz m s =
    (case pvPortMalloc sz (rt s) of None \<Rightarrow> None
     | Some (a, r) \<Rightarrow>
         if a = NULL then None
         else let p = word_of_int a in Some (p, s\<lparr>rt := r, objs := (objs s)(p := m)\<rparr>))"

text \<open>A pass of \<open>xQueueSend\<close> with the address; \<open>None\<close> in the answer means that the server sleeps or tries again.\<close>

definition post_send :: "gaps \<Rightarrow> addr \<Rightarrow> u32 \<Rightarrow> 'm plant \<Rightarrow> (bool option \<times> 'm plant) option" where
  "post_send gaps q p s =
    (case xQueueGenericSend gaps q (le32_bytes p) queueSEND_TO_BACK qcall_forever (rt s) of None \<Rightarrow> None
     | Some (r, _, t) \<Rightarrow> Some (r, s\<lparr>rt := t\<rparr>))"

section \<open>The task of an axis\<close>

text \<open>An iteration of the task's loop. \<open>body\<close> is what it does with a message and \<open>none\<close> what it says when the queue returns
  none; the answer is \<open>None\<close> while the task waits, and otherwise the message it handled, if there was one, with the output.\<close>

definition axis_iteration ::
  "gaps \<Rightarrow> addr \<Rightarrow> ('m \<Rightarrow> 'x \<Rightarrow> ('l \<times> 'x) option) \<Rightarrow> 'l \<Rightarrow> 'm plant \<Rightarrow> 'x \<Rightarrow> (('m option \<times> 'l) option \<times> 'm plant \<times> 'x) option" where
  "axis_iteration gaps q body none s x =
    (case xQueueReceive gaps q qcall_forever (rt s) of
       None \<Rightarrow> None
     | Some (Some (Some bs), _, t) \<Rightarrow>
         let msg = le32 bs
         in (case body (objs s msg) x of None \<Rightarrow> None
             | Some (out, x) \<Rightarrow>
                 (case vPortFree (uint msg) t of None \<Rightarrow> None
                  | Some t \<Rightarrow> Some (Some (Some (objs s msg), out), s\<lparr>rt := t\<rparr>, x)))
     | Some (Some None, _, t) \<Rightarrow> Some (Some (None, none), s\<lparr>rt := t\<rparr>, x)
     | Some (None, _, t) \<Rightarrow> Some (None, s\<lparr>rt := t\<rparr>, x))"

definition arm_task_iteration :: "gaps \<Rightarrow> addr \<Rightarrow> mot_pap_msg plant \<Rightarrow> axes \<Rightarrow> ((mot_pap_msg option \<times> log) option \<times> mot_pap_msg plant \<times> axes) option" where
  "arm_task_iteration gaps arm_queue = axis_iteration gaps arm_queue arm_task_body []"

definition pole_task_iteration :: "gaps \<Rightarrow> addr \<Rightarrow> mot_pap_msg plant \<Rightarrow> axes \<Rightarrow> ((mot_pap_msg option \<times> log) option \<times> mot_pap_msg plant \<times> axes) option" where
  "pole_task_iteration gaps pole_queue = axis_iteration gaps pole_queue pole_task_body []"

definition lift_task_iteration :: "gaps \<Rightarrow> addr \<Rightarrow> lift_msg plant \<Rightarrow> axes \<Rightarrow> ((lift_msg option \<times> log) option \<times> lift_msg plant \<times> axes) option" where
  "lift_task_iteration gaps lift_queue = axis_iteration gaps lift_queue lift_task_body [(Error, ''lift: no command received'')]"


section \<open>The allocator under the kernel\<close>

text \<open>A task runs and the scheduler is not suspended.\<close>

definition calling :: "sched \<Rightarrow> bool" where
  "calling k \<longleftrightarrow> uxSchedulerSuspended k = 0 \<and> uxCurrentNumberOfTasks k > 0"

lemma suspend_resume:
  assumes "kernel_ok i k" "calling k"
  shows "\<exists>y k'. xTaskResumeAll (vTaskSuspendAll k) = Some (y, k') \<and> kernel_ok i k' \<and> calling k'"
proof -
  have k1: "kernel_ok i (vTaskSuspendAll k)" "uxSchedulerSuspended (vTaskSuspendAll k) = 1" "uxCurrentNumberOfTasks (vTaskSuspendAll k) > 0"
    using assms by (simp_all add: calling_def vTaskSuspendAll_def)
  obtain y k' where "xTaskResumeAll (vTaskSuspendAll k) = Some (y, k')" "kernel_ok i k'" "uxSchedulerSuspended k' = 0"
    "uxCurrentNumberOfTasks k' = uxCurrentNumberOfTasks (vTaskSuspendAll k)"
    using xTaskResumeAll_spec [OF k1] by blast
  then show ?thesis using k1(3) by (auto simp: calling_def)
qed

lemma malloc_kern:
  assumes "kernel_ok i (kern r)" "calling (kern r)" "heap_reach (heap r) al"
  shows "\<exists>p r'. pvPortMalloc w r = Some (uint p, r') \<and> queues r' = queues r \<and> bytes r' = bytes r \<and> kernel_ok i (kern r') \<and> calling (kern r') \<and>
    heap_reach (heap r') (if p = 0 then al else al(unat p - 8 \<mapsto> block_bytes p (heap r'))) \<and>
    (p \<noteq> 0 \<longrightarrow> 8 \<le> unat p \<and> al (unat p - 8) = None)"
proof -
  obtain p h where m: "pvPortMalloc_body w (heap r) = Some (p, h)" "p \<noteq> 0 \<Longrightarrow> 8 \<le> unat p \<and> al (unat p - 8) = None"
    using malloc_step_ok [OF heap_reach_ok [OF assms(3)], of w] by blast
  obtain y k where k: "xTaskResumeAll (vTaskSuspendAll (kern r)) = Some (y, k)" "kernel_ok i k" "calling k"
    using suspend_resume [OF assms(1,2)] by blast
  let ?r = "r\<lparr>kern := k, heap := h\<rparr>"
  have "pvPortMalloc w r = Some (uint p, ?r)" using m(1) k(1) by (simp add: pvPortMalloc_def on_kern_def)
  then show ?thesis using k(2,3) m(2) heap_reach.malloc [OF assms(3) m(1)]
    by (cases "p = 0") (auto intro: exI [of _ p] exI [of _ ?r])
qed

lemma free_kern:
  assumes "kernel_ok i (kern r)" "calling (kern r)" "heap_reach (heap r) al" "8 \<le> unat p" "al (unat (p :: u32) - 8) \<noteq> None"
  shows "\<exists>r'. vPortFree (uint p) r = Some r' \<and> queues r' = queues r \<and> bytes r' = bytes r \<and> kernel_ok i (kern r') \<and> calling (kern r') \<and>
    heap_reach (heap r') (al(unat p - 8 := None))"
proof -
  obtain t where t: "al (unat p - 8) = Some t" using assms(5) by blast
  have p: "of_nat (unat p - 8 + 8) = p" using assms(4) by simp
  obtain h where f: "vPortFree_claims p (heap r)" "vPortFree_body p (heap r) = Some h" "heap_reach h (al(unat p - 8 := None))"
    using vPortFree_releases [OF assms(3) t] unfolding p by blast
  obtain y k where k: "xTaskResumeAll (vTaskSuspendAll (kern r)) = Some (y, k)" "kernel_ok i k" "calling k"
    using suspend_resume [OF assms(1,2)] by blast
  have "vPortFree (uint p) r = Some (r\<lparr>kern := k, heap := h\<rparr>)"
    using f(1,2) k(1) by (simp add: vPortFree_def on_kern_def)
  then show ?thesis using k(2,3) f(3) by (intro exI [of _ "r\<lparr>kern := k, heap := h\<rparr>"]) simp
qed

lemma queue_inv_memory:
  "queue_inv i q cap isz r xs \<Longrightarrow> queues r' = queues r \<Longrightarrow> bytes r' = bytes r \<Longrightarrow> kernel_ok i (kern r') \<Longrightarrow> queue_inv i q cap isz r' xs"
  by (simp add: queue_inv_def holds_def)

section \<open>Runs\<close>

text \<open>The server and the task of an axis with any output \<open>b\<close>, in any order, and whatever else the kernel does without
  using the queue or the heap: the block the server holds, the messages it has posted, and those the task has handled.\<close>

inductive plant_run :: "addr \<Rightarrow> addr \<Rightarrow> nat \<Rightarrow> gaps \<Rightarrow> u32 \<Rightarrow> ('m \<Rightarrow> 'x \<Rightarrow> ('l \<times> 'x) option) \<Rightarrow> 'l \<Rightarrow> 'm plant \<Rightarrow>
    'm plant \<Rightarrow> u32 option \<Rightarrow> 'm list \<Rightarrow> 'm list \<Rightarrow> bool"
  for i q cap gaps sz b none s0 where
  start: "plant_run i q cap gaps sz b none s0 s0 None [] []"
| alloc: "plant_run i q cap gaps sz b none s0 s None ms hs \<Longrightarrow> calling (kern (rt s)) \<Longrightarrow> post_alloc sz m s = Some (p, s') \<Longrightarrow>
    plant_run i q cap gaps sz b none s0 s' (Some p) ms hs"
| send: "plant_run i q cap gaps sz b none s0 s (Some p) ms hs \<Longrightarrow> post_send gaps q p s = Some (Some True, s') \<Longrightarrow>
    plant_run i q cap gaps sz b none s0 s' None (ms @ [objs s p]) hs"
| handle: "plant_run i q cap gaps sz b none s0 s w ms hs \<Longrightarrow> calling (kern (rt s)) \<Longrightarrow>
    axis_iteration gaps q b none s x = Some (Some (Some m, out), s', x') \<Longrightarrow> plant_run i q cap gaps sz b none s0 s' w ms (hs @ [m])"
| other: "plant_run i q cap gaps sz b none s0 s w ms hs \<Longrightarrow> heap r = heap (rt s) \<Longrightarrow>
    (\<And>xs. queue_inv i q cap 4 (rt s) xs \<Longrightarrow> queue_inv i q cap 4 r xs) \<Longrightarrow> plant_run i q cap gaps sz b none s0 (s\<lparr>rt := r\<rparr>) w ms hs"

text \<open>The blocks of the messages that are on their way.\<close>

definition under_way :: "u32 option \<Rightarrow> u32 list \<Rightarrow> u32 list" where
  "under_way w ps = (case w of None \<Rightarrow> ps | Some p \<Rightarrow> ps @ [p])"

definition plant_inv :: "addr \<Rightarrow> addr \<Rightarrow> nat \<Rightarrow> nat set \<Rightarrow> 'm plant \<Rightarrow> u32 option \<Rightarrow> u32 list \<Rightarrow> live \<Rightarrow> bool" where
  "plant_inv i q cap B s w ps al \<longleftrightarrow> queue_inv i q cap 4 (rt s) (map le32_bytes ps) \<and> heap_reach (heap (rt s)) al \<and>
    distinct (under_way w ps) \<and> (\<forall>p \<in> set (under_way w ps). 8 \<le> unat p) \<and>
    dom al = B \<union> (\<lambda>p. unat p - 8) ` set (under_way w ps) \<and> B \<inter> (\<lambda>p. unat p - 8) ` set (under_way w ps) = {}"


lemma send_True_room:
  "xQueueGenericSend gaps a x queueSEND_TO_BACK c s = Some (Some True, c', s') \<Longrightarrow> uxMessagesWaiting (queues s a) < uxLength (queues s a)"
  by (auto simp: xQueueGenericSend_def split: if_splits Option.bind_splits prod.splits)

lemma receive_wait_None: "receive_wait gaps a c s = Some (Some r, c', s') \<Longrightarrow> r = None"
  unfolding receive_wait_def by (simp add: Let_def split: if_splits Option.bind_splits prod.splits)

lemma receive_Some_item:
  assumes "xQueueReceive gaps a c s = Some (Some (Some x), c', s')"
  shows "uxMessagesWaiting (queues s a) > 0"
proof (rule ccontr)
  assume "\<not> uxMessagesWaiting (queues s a) > 0"
  then have "xTicks c = 0 \<and> Some None = Some (Some x) \<or> receive_wait gaps a c s = Some (Some (Some x), c', s')"
    using assms by (simp add: xQueueReceive_def split: if_splits)
  then show False using receive_wait_None by blast
qed

lemma wake_yield_calling:
  assumes "kernel_ok i (kern s)" "wake_yield l s = Some s'" "calling (kern s)"
  shows "calling (kern s')"
proof (cases "ev_items (kern s) (EventList l)")
  case Nil
  then show ?thesis using assms by (simp add: wake_yield_def listLIST_IS_EMPTY_def)
next
  case (Cons t ts)
  obtain b u where u: "on_kern (xTaskRemoveFromEventList l) s = Some (b, u)" "globy (kern u) = globy (kern s)"
    using on_kern_remove [OF assms(1) Cons] by blast
  have "calling (kern u)" using assms(3) globy_sel [OF u(2)] by (simp add: calling_def)
  moreover have "s' = (if b then yield_api u else u)"
    using assms(2) u(1) Cons by (simp add: wake_yield_def listLIST_IS_EMPTY_def)
  ultimately show ?thesis by (simp add: calling_def portYIELD_def)
qed

lemma receive_calling:
  assumes "kernel_ok i (kern s)" "calling (kern s)" "xQueueReceive gaps a c s = Some (Some (Some x), c', s')"
  shows "calling (kern s')"
proof -
  let ?t = "upd_q a (\<lambda>q. q\<lparr>uxMessagesWaiting := uxMessagesWaiting (queues s a) - 1\<rparr>) (snd (prvCopyDataFromQueue a s))"
  have "wake_yield (xTasksWaitingToSend a) ?t = Some s'"
    using assms(3) receive_Some_item [OF assms(3)]
    by (simp add: xQueueReceive_def Let_def case_prod_unfold split: Option.bind_splits)
  moreover have "kern ?t = kern s" by (simp add: prvCopyDataFromQueue_def Let_def)
  ultimately show ?thesis using wake_yield_calling [of i ?t] assms(1,2) by metis
qed

lemma address_inj: "unat (p :: u32) - 8 = unat q - 8 \<Longrightarrow> 8 \<le> unat p \<Longrightarrow> 8 \<le> unat q \<Longrightarrow> p = q"
proof -
  assume "unat p - 8 = unat q - 8" "8 \<le> unat p" "8 \<le> unat q"
  then have "unat p = unat q" by linarith
  then show ?thesis by (simp only: word_unat_eq_iff)
qed

lemma wake_result_frame:
  "wake_result i l t s' \<Longrightarrow> heap s' = heap t \<and> queues s' = queues t \<and> bytes s' = bytes t"
proof -
  assume "wake_result i l t s'"
  then have "kern_only t s'" by (simp add: wake_result_def)
  from kern_only_sel [OF this] show ?thesis by simp
qed

lemma post_send_spec:
  assumes inv: "plant_inv i q cap B s (Some p) ps al" and room: "length ps < cap"
  shows "\<exists>s'. post_send gaps q p s = Some (Some True, s') \<and> plant_inv i q cap B s' None (ps @ [p]) al \<and> objs s' = objs s"
proof -
  have q: "queue_inv i q cap 4 (rt s) (map le32_bytes ps)" using inv by (simp add: plant_inv_def)
  obtain t r where t: "xQueueGenericSend gaps q (le32_bytes p) queueSEND_TO_BACK qcall_forever (rt s) = Some (Some True, qcall_forever, r)"
    "queue_inv i q cap 4 r (map le32_bytes ps @ [le32_bytes p])" "storage_only q (rt s) t" "wake_result i (xTasksWaitingToReceive q) t r"
    using xQueueGenericSend_room [OF q, of "le32_bytes p" queueSEND_TO_BACK "map le32_bytes ps @ [le32_bytes p]" gaps qcall_forever] room
    by auto
  have "heap r = heap (rt s)" using t(3) wake_result_frame [OF t(4)] by (simp add: storage_only_def)
  then have "plant_inv i q cap B (s\<lparr>rt := r\<rparr>) None (ps @ [p]) al"
    using inv t(2) by (simp add: plant_inv_def under_way_def)
  then show ?thesis using t(1) by (simp add: post_send_def)
qed

lemma axis_iteration_spec:
  assumes inv: "plant_inv i q cap B s w (p # ps) al" and c: "calling (kern (rt s))" and b: "b (objs s p) x = Some (out, x')"
  shows "\<exists>s' al'. axis_iteration gaps q b none s x = Some (Some (Some (objs s p), out), s', x') \<and> plant_inv i q cap B s' w ps al' \<and> objs s' = objs s"
proof -
  have q: "queue_inv i q cap 4 (rt s) (le32_bytes p # map le32_bytes ps)" using inv by (simp add: plant_inv_def)
  obtain t r where t: "xQueueReceive gaps q qcall_forever (rt s) = Some (Some (Some (le32_bytes p)), qcall_forever, r)"
    "queue_inv i q cap 4 r (map le32_bytes ps)" "storage_only q (rt s) t" "wake_result i (xTasksWaitingToSend q) t r"
    using xQueueReceive_some [OF q, of gaps qcall_forever] by blast
  have hp: "heap r = heap (rt s)" using t(3) wake_result_frame [OF t(4)] by (simp add: storage_only_def)
  have kr: "kernel_ok i (kern r)" using t(2) by (simp add: queue_inv_def)
  have ks: "kernel_ok i (kern (rt s))" using q by (simp add: queue_inv_def)
  have cr: "calling (kern r)" by (rule receive_calling [OF ks c t(1)])
  have ip: "p \<in> set (under_way w (p # ps))" by (auto simp: under_way_def split: option.splits)
  have p: "8 \<le> unat p" "al (unat p - 8) \<noteq> None" "heap_reach (heap r) al" using inv ip hp by (auto simp: plant_inv_def)
  obtain r' where r': "vPortFree (uint p) r = Some r'" "queues r' = queues r" "bytes r' = bytes r" "kernel_ok i (kern r')"
    "heap_reach (heap r') (al(unat p - 8 := None))" using free_kern [OF kr cr p(3,1,2)] by blast
  have e: "axis_iteration gaps q b none s x = Some (Some (Some (objs s p), out), s\<lparr>rt := r'\<rparr>, x')"
    using t(1) b r'(1) by (simp add: axis_iteration_def le32_le32_bytes Let_def)
  have u: "under_way w (p # ps) = p # under_way w ps" by (simp add: under_way_def split: option.split)
  have d: "dom al = B \<union> insert (unat p - 8) ((\<lambda>p. unat p - 8) ` set (under_way w ps))" "unat p - 8 \<notin> B"
    "B \<inter> (\<lambda>p. unat p - 8) ` set (under_way w ps) = {}"
    and l: "\<forall>r \<in> set (under_way w ps). 8 \<le> unat r" "p \<notin> set (under_way w ps)" "distinct (under_way w ps)"
    using inv unfolding plant_inv_def u by auto
  have "unat p - 8 \<notin> (\<lambda>p. unat p - 8) ` set (under_way w ps)" using l p(1) address_inj by auto
  then have "dom (al(unat p - 8 := None)) = B \<union> (\<lambda>p. unat p - 8) ` set (under_way w ps)" using d by auto
  then have "plant_inv i q cap B (s\<lparr>rt := r'\<rparr>) w ps (al(unat p - 8 := None))"
    using queue_inv_memory [OF t(2) r'(2-4)] r'(5) l d(3) by (simp add: plant_inv_def)
  then show ?thesis using e by auto
qed


lemma post_alloc_spec:
  assumes inv: "plant_inv i q cap B s None ps al" and c: "calling (kern (rt s))" and e: "post_alloc sz m s = Some (p, s')"
  shows "\<exists>al'. plant_inv i q cap B s' (Some p) ps al' \<and> map (objs s') ps = map (objs s) ps \<and> objs s' p = m"
proof -
  have q: "queue_inv i q cap 4 (rt s) (map le32_bytes ps)" and h: "heap_reach (heap (rt s)) al" using inv by (simp_all add: plant_inv_def)
  have k: "kernel_ok i (kern (rt s))" using q by (simp add: queue_inv_def)
  obtain p0 r where r: "pvPortMalloc sz (rt s) = Some (uint p0, r)" "queues r = queues (rt s)" "bytes r = bytes (rt s)" "kernel_ok i (kern r)"
    "heap_reach (heap r) (if p0 = 0 then al else al(unat p0 - 8 \<mapsto> block_bytes p0 (heap r)))"
    "p0 \<noteq> 0 \<longrightarrow> 8 \<le> unat p0 \<and> al (unat p0 - 8) = None"
    using malloc_kern [OF k c h, of sz] by blast
  have p: "p0 \<noteq> 0" "p = p0" "s' = s\<lparr>rt := r, objs := (objs s)(p := m)\<rparr>"
    using e r(1) by (auto simp: post_alloc_def Let_def split: if_splits)
  have al: "8 \<le> unat p" "al (unat p - 8) = None" "heap_reach (heap r) (al(unat p - 8 \<mapsto> block_bytes p (heap r)))"
    using r(5,6) p by simp_all
  have ps: "distinct ps" "\<forall>p \<in> set ps. 8 \<le> unat p" "dom al = B \<union> (\<lambda>p. unat p - 8) ` set ps" "B \<inter> (\<lambda>p. unat p - 8) ` set ps = {}"
    using inv by (simp_all add: plant_inv_def under_way_def)
  have pn: "p \<notin> set ps" "unat p - 8 \<notin> B" using al(2) ps(3) by (auto simp: domIff)
  have "plant_inv i q cap B s' (Some p) ps (al(unat p - 8 \<mapsto> block_bytes p (heap r)))"
    using queue_inv_memory [OF q r(2-4)] al ps pn by (auto simp: plant_inv_def under_way_def p(3))
  moreover have "map (objs s') ps = map (objs s) ps" using pn(1) by (auto simp: p(3))
  ultimately show ?thesis by (auto simp: p(3))
qed

lemma plant_run_inv:
  assumes "queue_inv i q cap 4 (rt s0) []" "heap_reach (heap (rt s0)) al0"
  shows "plant_run i q cap gaps sz b none s0 s w ms hs \<Longrightarrow> \<exists>ps al. plant_inv i q cap (dom al0) s w ps al \<and> ms = hs @ map (objs s) ps"
proof (induction rule: plant_run.induct)
  case start
  then show ?case using assms by (intro exI [of _ "[]"] exI [of _ al0]) (simp add: plant_inv_def under_way_def)
next
  case (alloc s ms hs m p s')
  then obtain ps al where i: "plant_inv i q cap (dom al0) s None ps al" "ms = hs @ map (objs s) ps" by blast
  show ?case using post_alloc_spec [OF i(1) alloc(2,3)] i(2) by metis
next
  case (send s p ms hs s')
  then obtain ps al where i: "plant_inv i q cap (dom al0) s (Some p) ps al" "ms = hs @ map (objs s) ps" by blast
  have q: "queue_inv i q cap 4 (rt s) (map le32_bytes ps)" using i(1) by (simp add: plant_inv_def)
  obtain c r where "xQueueGenericSend gaps q (le32_bytes p) queueSEND_TO_BACK qcall_forever (rt s) = Some (Some True, c, r)"
    using send(2) by (auto simp: post_send_def split: option.splits)
  then have "length ps < cap" using send_True_room queue_inv_full [OF q] by fastforce
  from post_send_spec [OF i(1) this, of gaps] obtain s1 where "post_send gaps q p s = Some (Some True, s1)"
    "plant_inv i q cap (dom al0) s1 None (ps @ [p]) al" "objs s1 = objs s" by blast
  then show ?case using i(2) send(2) by (intro exI [of _ "ps @ [p]"] exI [of _ al]) simp
next
  case (handle s w ms hs x m out s' x')
  then obtain ps al where i: "plant_inv i q cap (dom al0) s w ps al" "ms = hs @ map (objs s) ps" by blast
  have q: "queue_inv i q cap 4 (rt s) (map le32_bytes ps)" using i(1) by (simp add: plant_inv_def)
  obtain bs c r where r: "xQueueReceive gaps q qcall_forever (rt s) = Some (Some (Some bs), c, r)"
    using handle(3) by (auto simp: axis_iteration_def split: option.splits)
  have "ps \<noteq> []" using receive_Some_item [OF r] queue_inv_empty [OF q] by auto
  then obtain p ps2 where ps: "ps = p # ps2" by (cases ps) auto
  have bs: "bs = le32_bytes p" using xQueueReceive_some [OF q [unfolded ps list.map], of gaps qcall_forever] r by auto
  have "b (objs s p) x \<noteq> None"
    using handle(3) r by (auto simp: axis_iteration_def Let_def bs le32_le32_bytes split: option.splits)
  then obtain o2 x2 where b: "b (objs s p) x = Some (o2, x2)" by auto
  obtain s1 al' where s1: "axis_iteration gaps q b none s x = Some (Some (Some (objs s p), o2), s1, x2)" "plant_inv i q cap (dom al0) s1 w ps2 al'" "objs s1 = objs s"
    using axis_iteration_spec [where b = b and none = none and x = x and gaps = gaps, OF i(1) [unfolded ps] handle(2) b] by blast
  then show ?case using i(2) handle(3) by (intro exI [of _ ps2] exI [of _ al']) (simp add: ps)
next
  case (other s w ms hs r)
  then obtain ps al where i: "plant_inv i q cap (dom al0) s w ps al" "ms = hs @ map (objs s) ps" by blast
  then show ?case using other(2,3) by (intro exI [of _ ps] exI [of _ al]) (simp add: plant_inv_def)
qed

section \<open>Properties\<close>

text \<open>\<^bold>\<open>C3\<close>. Every command arrives. Whatever the order in which the server posts and the task of the axis runs: the
  messages handled and those on their way are the messages posted, in order and unaltered; exactly the blocks of those on
  their way are held, so that none leaks; a post with room in the queue succeeds, and so does an iteration of the task
  with a message that it knows.\<close>

theorem commands_delivered:
  assumes "queue_inv i q cap 4 (rt s0) []" "heap_reach (heap (rt s0)) al0" "plant_run i q cap gaps sz b none s0 s w ms hs"
  shows "\<exists>ps al. ms = hs @ map (objs s) ps \<and> length ps \<le> cap \<and>
    heap_reach (heap (rt s)) al \<and> dom al = dom al0 \<union> (\<lambda>p. unat p - 8) ` set (under_way w ps) \<and>
    (\<forall>p. w = Some p \<and> length ps < cap \<longrightarrow> (\<exists>s'. post_send gaps q p s = Some (Some True, s'))) \<and>
    (\<forall>x. ps \<noteq> [] \<and> calling (kern (rt s)) \<and> b (objs s (hd ps)) x \<noteq> None \<longrightarrow>
      (\<exists>out s' x'. axis_iteration gaps q b none s x = Some (Some (Some (objs s (hd ps)), out), s', x')))"
proof -
  obtain ps al where i: "plant_inv i q cap (dom al0) s w ps al" "ms = hs @ map (objs s) ps"
    using plant_run_inv [OF assms] by blast
  have "length ps \<le> cap" using i(1) queue_inv_bound [of i q cap 4 "rt s" "map le32_bytes ps"] by (simp add: plant_inv_def)
  moreover have "\<exists>s'. post_send gaps q p s = Some (Some True, s')" if "w = Some p \<and> length ps < cap" for p
    using post_send_spec [of i q cap "dom al0" s p ps al gaps] i(1) that by auto
  moreover have "\<exists>out s' x'. axis_iteration gaps q b none s x = Some (Some (Some (objs s (hd ps)), out), s', x')"
    if h: "ps \<noteq> [] \<and> calling (kern (rt s)) \<and> b (objs s (hd ps)) x \<noteq> None" for x
  proof -
    obtain o2 x2 where b: "b (objs s (hd ps)) x = Some (o2, x2)" using h by auto
    have "ps = hd ps # tl ps" using h by simp
    then have "plant_inv i q cap (dom al0) s w (hd ps # tl ps) al" using i(1) by simp
    from axis_iteration_spec [where b = b and none = none and x = x and gaps = gaps, OF this _ b] h show ?thesis by blast
  qed
  moreover have "heap_reach (heap (rt s)) al" "dom al = dom al0 \<union> (\<lambda>p. unat p - 8) ` set (under_way w ps)"
    using i(1) by (simp_all add: plant_inv_def)
  ultimately show ?thesis using i(2) by blast
qed


definition sample_plant :: "mot_pap_msg plant" where
  "sample_plant = \<lparr>rt = sample_rtos\<lparr>queues := (\<lambda>_. sample_queue\<lparr>uxItemSize := 4, pcTail := 1012, pcReadFrom := 1008\<rparr>)\<rparr>,
     objs = (\<lambda>_. mot_pap_msg_uninit)\<rparr>"

definition sample_stop :: mot_pap_msg where
  "sample_stop = mot_pap_msg_uninit\<lparr>m_type := Some MOT_PAP_TYPE_STOP\<rparr>"

lemma sample_plant_inv: "queue_inv 100 a 3 4 (rt sample_plant) []"
proof -
  let ?q = "sample_queue\<lparr>uxItemSize := 4, pcTail := 1012, pcReadFrom := 1008\<rparr>"
  have "ring_ok ?q 2" "contents 2 ?q m = []" for m
    by (simp_all add: ring_ok_def contents_def sample_queue_def slot_def qlen_def qisz_def qcnt_def)
  then have "holds a (rt sample_plant) []" by (auto simp: holds_def sample_plant_def)
  then show ?thesis by (simp add: queue_inv_def sample_plant_def sample_sched_ok qlen_def qisz_def sample_queue_def)
qed

text \<open>A STOP for the arm has been put into a block: the theorem lets it be sent.\<close>

lemma commands_delivered_witness:
  "\<exists>p s s'. post_alloc 100 sample_stop sample_plant = Some (p, s) \<and> objs s p = sample_stop \<and>
    post_send no_gaps 464 p s = Some (Some True, s')"
proof -
  obtain p0 h where m: "pvPortMalloc_body 100 sample_heap = Some (p0, h)" "p0 \<noteq> 0" using sample_block by blast
  have c: "calling (kern (rt sample_plant))" and k: "kernel_ok 100 (kern (rt sample_plant))"
    and hp: "heap (rt sample_plant) = sample_heap"
    by (simp_all add: calling_def sample_plant_def sample_sched_ok)
  obtain y k' where "xTaskResumeAll (vTaskSuspendAll (kern (rt sample_plant))) = Some (y, k')"
    using suspend_resume [OF k c] by blast
  then obtain r where "pvPortMalloc 100 (rt sample_plant) = Some (uint p0, r)"
    using m(1) hp by (simp add: pvPortMalloc_def on_kern_def)
  then have "post_alloc 100 sample_stop sample_plant =
      Some (p0, sample_plant\<lparr>rt := r, objs := (objs sample_plant)(p0 := sample_stop)\<rparr>)"
    using m(2) by (simp add: post_alloc_def Let_def uint_0_iff)
  then obtain s where s: "post_alloc 100 sample_stop sample_plant = Some (p0, s)" "objs s p0 = sample_stop" by fastforce
  have "plant_run 100 464 3 no_gaps 100 arm_task_body [] sample_plant s (Some p0) [] []"
    by (rule alloc [OF start c s(1)])
  from commands_delivered [OF sample_plant_inv _ this, of Map.empty] sample_reach hp s show ?thesis by auto
qed

end
