(* ===== verification/Spec2Isabelle.thy ===== *)
theory Spec2Isabelle imports RtuFrame TaskTrigger Klist Allocator SchedProps Server MutexProps Notify EventGroup StreamBufferProps Timers IpAddr SysTimeout Delivery begin

text \<open>
  A verification development of the RTU communication firmware: a FreeRTOS and lwIP program that takes
  commands for three axes (arm, pole, lift) from an HMI client over TCP and answers each with the
  state of the axes. The sources are under \<open>src/com\<close> (the application), \<open>src/freertos\<close> (the kernel) and
  \<open>src/lwip\<close> (the network stack). The configuration is that of \<open>com/inc/FreeRTOSConfig.h\<close>: 8 priorities,
  32-bit ticks, mutexes, recursive mutexes, counting semaphores, software timers and the trace facility on;
  queue sets, coroutines, tickless idle, the tick and idle hooks and assertions off.

  \<^bold>\<open>The parts and how they interact.\<close> The server thread (\<open>tcp_thread\<close> in \<open>com/src/rtu_com_hmi.c\<close>) accepts a
  connection, receives frames through the sequential API of lwIP, translates each into a command
  (\<open>net_values.c\<close>), lets \<open>TaskTriggerMsg\<close> (\<open>task_trigger.c\<close>) post messages to the queues of the axis
  tasks (\<open>arm.c\<close>, \<open>pole.c\<close>, \<open>lift.c\<close>) and sends the state of the axes back. Messages are blocks of the
  kernel's heap (\<open>heap_4.c\<close>), sent through its queues (\<open>queue.c\<close>), on which tasks wait by means of the
  scheduler (\<open>tasks.c\<close>), whose lists are those of \<open>list.c\<close>.

  \<^bold>\<open>Application.\<close> Each theory holds the definitions of a part, named as in the code, and its lemmas.
  \<^item> HmiFrame: \<open>NetValuesReceivedFromHMI\<close> and \<open>prvFormatoTramaRecv\<close> over the bytes of a frame, the
    reference grammar of frames they refine, and the encoder of an SM13 client they invert.
  \<^item> RtuFrame: \<open>NetValuesToSendFromRTU\<close> with \<open>sprintf\<close> and \<open>snprintf\<close> at the level of bytes: no overflow, no
    truncation, the text reads back.
  \<^item> Axis: the supervisor tasks, the status functions and the handling of a message.
  \<^item> TaskTrigger: \<open>TaskTriggerMsg\<close> and \<open>prvEmergencyStop\<close>; the posts of any run of commands against a
    specification of the transitions.
  \<^item> Delivery: the way of a message from the server through the kernel's heap and a queue to the task of an axis and back
    to the heap (\<open>arm.c\<close>, \<open>pole.c\<close>, \<open>lift.c\<close>), over the kernel's model; no message is lost and no block leaks.
  \<^item> Server: the server thread as a function of what the network delivers (received buffers, aborts,
    failures of writes and of memory), with the events it causes in order. The sequential API
    (\<open>netconn_recv\<close>, \<open>netconn_write_partly\<close>, \<open>netbuf_data\<close>, \<open>netbuf_next\<close>) is modelled from
    \<open>lwip/src/api\<close>; what the TCP/IP thread delivers is the input. A session refines a reference over
    the list of frames.

  \<^bold>\<open>Kernel.\<close>
  \<^item> Klist: the pointer cells of \<open>list.c\<close> and the sequence with a walking index (\<open>klist\<close>) they represent; each
    operation refines the one on sequences, which is what the later theories use.
  \<^item> Heap4, Allocator: \<open>heap_4.c\<close> on 32-bit words; the free list as segments, the tiling of the heap by free and
    live blocks as invariant of every reachable heap.
  \<^item> Sched, SchedWf, SchedInv, SchedOps, TaskLife, SchedProps: the scheduler's state (control blocks,
    state and event lists, the ready bitmap, the tick count and its overflow) and operations; the
    invariant; one specification per operation; creation, start and deletion; the properties of
    time, blocking, resumption, selection and priority inheritance, over any run of the kernel.
  \<^item> Queue, QueueFifo, QueueOps, QueueBlock, QueueIsr, QueueProps: queues as structures in memory with a byte
    ring; the list of items a ring holds; sends, receives and peeks as a bounded first-in first-out
    list (a locale, interpreted on the calls); blocking; calls with interrupts in between.
  \<^item> Mutex, MutexProps: semaphores, mutexes, recursive mutexes, the registry. Mutexes refine a lock that is free or
    held by one task a number of times.
  \<^item> Notify: task notifications, a counter per task (\<open>tasks.c\<close>).
  \<^item> EventGroup: \<open>event_groups.c\<close>; which tasks a change of bits releases, and what their calls return.
  \<^item> StreamBuffer, StreamBufferProps: \<open>stream_buffer.c\<close>; the ring of bytes between a reader and a writer that share
    no lock, each against what the other may do between its steps (rely and guarantee), and the queue of messages.
  \<^item> Timers: \<open>timers.c\<close>; callbacks and pended functions are parameters, and so are the addresses of the name of the
    command queue (\<open>TmrQ\<close>) and of the control block of the timer task. A message is sixteen bytes; the fourth word of a
    timer command, indeterminate in C and never read, is 0. Real time is a natural number of which the tick count
    shows the low 32 bits (\<open>tick_of\<close>), and the number of overflows is its \<open>epoch\<close>.

  \<^bold>\<open>Network stack.\<close>
  \<^item> LwipMem, LwipMemProps: \<open>mem.c\<close>, the heap of the stack, whose blocks and searches refine first fit over a list of
    blocks; what any clients may rely on, and a request size that wraps. In this and the next theories a failed assertion
    of the stack (\<open>LWIP_ASSERT\<close>, \<open>LWIP_ERROR\<close>) is \<open>None\<close>, the endless loop of \<open>assert_loop\<close>.
  \<^item> Chksum: \<open>inet_chksum.c\<close>; the sum of a block against the one's complement sum of RFC 1071.
  \<^item> InetSum: \<open>inet_chksum.c\<close> over chains of buffers, the pseudo header of TCP and UDP, and the byte order of \<open>def.c\<close>.
  \<^item> IpAddr: \<open>ip_addr.c\<close>, addresses as text and words, netmasks and broadcast addresses.
  \<^item> SysTimeout: \<open>timers.c\<close>, the timeouts of the stack, against a clock in milliseconds; periodic timers always find memory to be set again. Handlers and what they do are
    parameters or further steps; waits for messages are given by what they return.
  \<^item> Pbuf, PbufProps: \<open>pbuf.c\<close>, chains of reference-counted buffers on that heap, and the bytes they hold. A function that
    frees a custom buffer is a parameter, and the mailbox of the stack's thread is the list of the messages in it. What
    \<open>pbuf_copy_partial\<close> writes to its destination is a list it returns, and the source of \<open>pbuf_take\<close> is a list.

  \<^bold>\<open>Conventions.\<close> A task, queue or block is its address. Fallible operations return an option: \<open>None\<close> stands for
  undefined behaviour of the C program (a NULL container or list head, a copy past the end), never for
  an error the code reports; the properties prove that it does not occur. A call that may block is a
  pass of its loop: \<open>None\<close> in the answer of a pass means that the task went to sleep or that the loop
  goes round again, and the record \<open>qcall\<close> holds the locals that survive. \<open>gaps\<close> are the points between
  critical sections of a pass, where interrupts may run; a property that fixes no gaps holds for any
  interrupts that satisfy what it states. A step of a critical section is atomic, as on the target.
  Loops over linked lists are partial functions (\<open>partial_function (option)\<close>) that are proved to return,
  or recursive functions with a measure; no definition uses fuel. Machine integers are words of
  their width: tick counts, list values, sizes, counts and flags wrap as in C.

  \<^bold>\<open>What the model showed\<close> is listed with the manifest: among others a stale bit of the ready map after
  a timed out mutex, lock counts of a queue that wrap after 127 interrupts, sizes of queues that wrap, messages of no
  type on a direct change of mode, software timers that are lost when more than five reload at an overflow, error codes that are never sent, and a flag byte that outlives its connection.

  \<^bold>\<open>Not modelled:\<close> the start-up code, the drivers and the port's assembly (hardware), the network stack below the
  sequential API except as said above, coroutines and queue sets (disabled), the trace and statistics
  functions of the kernel (they only read), stacks and task names.
\<close>

end
